(* ===== verification/Prelude.thy ===== *)
theory Prelude
  imports Main "HOL-Library.Word" "HOL-Library.Monad_Syntax"
begin

section \<open>Prelude: C integers, failures, loops\<close>

text \<open>
  What the component theories share: names for the fixed-width integer types, the model of a
  failed \<open>assert\<close> or an undefined read (\<open>None\<close>), counted loops, and the generic lemmas on
  words and lists that carry the component proofs.
\<close>

unbundle bit_operations_syntax

type_synonym u8 = "8 word"
type_synonym u16 = "16 word"
type_synonym u32 = "32 word"
type_synonym u64 = "64 word"

text \<open>C's \<open>int\<close> where its wrap-around or its bit pattern matters: two's complement, read by
  \<open>sint\<close>.\<close>

type_synonym i32 = "32 word"
type_synonym i64 = "64 word"

text \<open>Addresses of heap objects, and possibly NULL pointers.\<close>

type_synonym addr = nat
type_synonym ptr = "addr option"

named_theorems word_nat \<open>words read as natural numbers\<close>
named_theorems c_loop \<open>counted loops over arrays\<close>

subsection \<open>Failures\<close>

text \<open>\<open>None\<close> is an execution that does not return: a failed \<open>assert\<close>, a NULL or
  uninitialised read, a loop that runs forever. What the code returns, error codes included, is a
  value under \<open>Some\<close>.\<close>

definition c_assert :: "bool \<Rightarrow> unit option" where
  "c_assert b = (if b then Some () else None)"

lemma c_assert_simps [simp]:
  "c_assert True = Some ()" "c_assert False = None"
  by (simp_all add: c_assert_def)

lemma c_assert_Some [simp]: "c_assert b = Some u \<longleftrightarrow> b"
  by (simp add: c_assert_def)

text \<open>An array cell: \<open>None\<close> is memory the program has not written since \<open>malloc\<close>. A read out of
  range, or of such a cell, fails.\<close>

type_synonym 'a array = "'a option list"

definition array_get :: "'a array \<Rightarrow> nat \<Rightarrow> 'a option" where
  "array_get xs i = (if i < length xs then xs ! i else None)"

text \<open>An element of an array of records.\<close>

definition nth_at :: "'a list \<Rightarrow> nat \<Rightarrow> 'a option" where
  "nth_at xs i = (if i < length xs then Some (xs ! i) else None)"

definition array_set :: "'a array \<Rightarrow> nat \<Rightarrow> 'a \<Rightarrow> 'a array option" where
  "array_set xs i x = (if i < length xs then Some (xs[i := Some x]) else None)"

definition array_new :: "nat \<Rightarrow> 'a array" where
  "array_new n = replicate n None"

lemma length_array_new [simp]: "length (array_new n) = n"
  by (simp add: array_new_def)

lemma array_get_in [simp]: "i < length xs \<Longrightarrow> array_get xs i = xs ! i"
  by (simp add: array_get_def)

lemma array_set_in [simp]: "i < length xs \<Longrightarrow> array_set xs i x = Some (xs[i := Some x])"
  by (simp add: array_set_def)

text \<open>\<open>memcpy(dst + off, src, n)\<close> for all of \<open>src\<close>.\<close>

definition mem_write :: "u8 array \<Rightarrow> nat \<Rightarrow> u8 list \<Rightarrow> u8 array option" where
  "mem_write dst off src =
     (if off + length src \<le> length dst
      then Some (take off dst @ map Some src @ drop (off + length src) dst) else None)"

text \<open>The first \<open>n\<close> bytes at a pointer.\<close>

definition mem_read :: "u8 list \<Rightarrow> nat \<Rightarrow> u8 list option" where
  "mem_read src n = (if n \<le> length src then Some (take n src) else None)"

lemma mem_write_all [simp]: "length src = n \<Longrightarrow> mem_write (array_new n) 0 src = Some (map Some src)"
  by (simp add: mem_write_def array_new_def)

subsection \<open>Counted loops\<close>

text \<open>\<open>for (i = a; i < b; i++) body\<close> and \<open>for (i = b; i > a; i--) body\<close>, the body a failing
  state transformer, with their invariant rules (total: the loop returns).\<close>

function c_for :: "nat \<Rightarrow> nat \<Rightarrow> (nat \<Rightarrow> 's \<Rightarrow> 's option) \<Rightarrow> 's \<Rightarrow> 's option" where
  "c_for a b body s =
     (if a < b then do { s' \<leftarrow> body a s; c_for (Suc a) b body s' } else Some s)"
  by pat_completeness auto
termination
  by (relation "measure (\<lambda>(a, b, body, s). b - a)") auto

function c_for_down :: "nat \<Rightarrow> nat \<Rightarrow> (nat \<Rightarrow> 's \<Rightarrow> 's option) \<Rightarrow> 's \<Rightarrow> 's option" where
  "c_for_down b a body s =
     (if a < b then do { s' \<leftarrow> body b s; c_for_down (b - 1) a body s' } else Some s)"
  by pat_completeness auto
termination
  by (relation "measure (\<lambda>(b, a, body, s). b - a)") auto

declare c_for.simps [simp del] c_for_down.simps [simp del]

lemma c_for_done [c_loop]: "\<not> a < b \<Longrightarrow> c_for a b body s = Some s"
  by (simp add: c_for.simps)

lemma c_for_rule:
  assumes "a \<le> b" and "I a s"
    and "\<And>i s. a \<le> i \<Longrightarrow> i < b \<Longrightarrow> I i s \<Longrightarrow> \<exists>s'. body i s = Some s' \<and> I (Suc i) s'"
  shows "\<exists>s'. c_for a b body s = Some s' \<and> I b s'"
  using assms
proof (induction a b body s rule: c_for.induct)
  case (1 a b body s)
  show ?case
  proof (cases "a < b")
    case True
    with "1.prems" obtain s' where s': "body a s = Some s'" "I (Suc a) s'" by blast
    have "\<exists>t. c_for (Suc a) b body s' = Some t \<and> I b t"
      using True s' "1.prems"(3) by (intro "1.IH") (auto intro: Suc_leD)
    with True s' show ?thesis by (subst c_for.simps) simp
  next
    case False
    with "1.prems"(1,2) show ?thesis by (simp add: c_for_done)
  qed
qed

lemma c_for_down_rule:
  assumes "a \<le> b" and "I b s"
    and "\<And>i s. a < i \<Longrightarrow> i \<le> b \<Longrightarrow> I i s \<Longrightarrow> \<exists>s'. body i s = Some s' \<and> I (i - 1) s'"
  shows "\<exists>s'. c_for_down b a body s = Some s' \<and> I a s'"
  using assms
proof (induction b a body s rule: c_for_down.induct)
  case (1 b a body s)
  show ?case
  proof (cases "a < b")
    case True
    with "1.prems" obtain s' where s': "body b s = Some s'" "I (b - 1) s'" by blast
    have "\<exists>t. c_for_down (b - 1) a body s' = Some t \<and> I a t"
      using True s' "1.prems"(3) by (intro "1.IH") auto
    with True s' show ?thesis by (subst c_for_down.simps) simp
  next
    case False
    with "1.prems"(1,2) show ?thesis by (simp add: c_for_down.simps)
  qed
qed

subsection \<open>Words as numbers\<close>

lemma or_mask_eq_iff:
  fixes a b :: "'a::len word"
  shows "a OR mask n = b OR mask n \<longleftrightarrow> drop_bit n a = drop_bit n b"
proof
  assume eq: "a OR mask n = b OR mask n"
  show "drop_bit n a = drop_bit n b"
  proof (rule bit_word_eqI)
    fix m assume "m < LENGTH('a)"
    from eq have "bit (a OR mask n) (n + m) = bit (b OR mask n) (n + m)" by simp
    then show "bit (drop_bit n a) m = bit (drop_bit n b) m"
      by (simp add: bit_simps)
  qed
next
  assume eq: "drop_bit n a = drop_bit n b"
  show "a OR mask n = b OR mask n"
  proof (rule bit_word_eqI)
    fix m assume m: "m < LENGTH('a)"
    have "bit a m = bit b m" if "\<not> m < n"
    proof -
      from eq have "bit (drop_bit n a) (m - n) = bit (drop_bit n b) (m - n)" by simp
      with that show ?thesis by (simp add: bit_simps)
    qed
    with m show "bit (a OR mask n) m = bit (b OR mask n) m"
      by (auto simp: bit_simps)
  qed
qed

lemma unat_drop_bit_div [word_nat]:
  fixes a :: "'a::len word"
  shows "unat (drop_bit n a) = unat a div 2 ^ n"
  using unat_drop_bit_eq [of n a] by (simp only: drop_bit_nat_def)

lemma or_mask_eq_iff_div [word_nat]:
  fixes a b :: "'a::len word"
  shows "a OR mask n = b OR mask n \<longleftrightarrow> unat a div 2 ^ n = unat b div 2 ^ n"
  using word_unat_eq_iff [of "drop_bit n a" "drop_bit n b"]
  by (simp only: or_mask_eq_iff unat_drop_bit_div)

lemma unat_and_mask [word_nat]:
  fixes a :: "'a::len word"
  shows "unat (a AND mask n) = unat a mod 2 ^ n"
  using unsigned_take_bit_eq [of n a, where 'a = nat]
  by (simp only: take_bit_nat_def flip: take_bit_eq_mask)

lemma unat_bound: "unat (w :: 'a::len word) < 2 ^ LENGTH('a)"
  by (rule unsigned_less)

lemma and_mask_zero: "a AND mask n = 0 \<longleftrightarrow> unat (a :: 'a::len word) mod 2 ^ n = 0"
  by (simp only: unat_and_mask flip: unat_eq_zero)

lemma sint_i32: "sint (w :: i32) = (if unat w < 2 ^ 31 then int (unat w) else int (unat w) - 2 ^ 32)"
proof -
  have b: "0 \<le> uint w" "uint w < 2 ^ 32" using uint_lt2p [of w] by simp_all
  have "sint w = (uint w + 2 ^ 31) mod 2 ^ 32 - 2 ^ 31"
    by (simp add: sint_uint signed_take_bit_eq_take_bit_shift take_bit_eq_mod)
  moreover have "(uint w + 2 ^ 31) mod 2 ^ 32 = (if uint w < 2 ^ 31 then uint w + 2 ^ 31 else uint w - 2 ^ 31)"
  proof (cases "uint w < 2 ^ 31")
    case True
    with b show ?thesis by simp
  next
    case False
    with b have "(uint w + 2 ^ 31) mod 2 ^ 32 = (uint w + 2 ^ 31 - 2 ^ 32) mod 2 ^ 32"
      by (simp only: minus_mod_self2)
    also have "\<dots> = uint w - 2 ^ 31" using b False by simp
    finally show ?thesis using False by simp
  qed
  moreover have "unat w < 2 ^ 31 \<longleftrightarrow> uint w < 2 ^ 31"
    using of_nat_less_iff [of "unat w" "2 ^ 31", where 'a = int] by simp
  ultimately show ?thesis by simp
qed

lemma sint_pos:
  assumes "0 < sint (d :: i32)"
  shows "0 < unat d" and "unat d < 2 ^ 31" and "sint d = int (unat d)"
  using assms unat_bound [of d] by (simp_all add: sint_i32 del: of_nat_unat split: if_splits)

end
