(* ===== verification/Message.thy ===== *)
theory Message
  imports Prelude
begin

section \<open>Messages and handles\<close>

text \<open>
  The vocabulary of \<open>skynet.h\<close>, \<open>skynet_mq.h\<close> and \<open>skynet_handle.h\<close>: the message record, the
  message types and the constants that pack a type into the high byte of a size and a harbor id
  into the high byte of a handle. Payload pointers are addresses or NULL.
\<close>

definition PTYPE_TEXT :: u64 where "PTYPE_TEXT = 0"
definition PTYPE_RESPONSE :: u64 where "PTYPE_RESPONSE = 1"
definition PTYPE_CLIENT :: u64 where "PTYPE_CLIENT = 3"
definition PTYPE_SYSTEM :: u64 where "PTYPE_SYSTEM = 4"
definition PTYPE_HARBOR :: u64 where "PTYPE_HARBOR = 5"
definition PTYPE_SOCKET :: u64 where "PTYPE_SOCKET = 6"
definition PTYPE_ERROR :: u64 where "PTYPE_ERROR = 7"

definition PTYPE_TAG_DONTCOPY :: i32 where "PTYPE_TAG_DONTCOPY = 0x10000"
definition PTYPE_TAG_ALLOCSESSION :: i32 where "PTYPE_TAG_ALLOCSESSION = 0x20000"

definition MESSAGE_TYPE_SHIFT :: nat where "MESSAGE_TYPE_SHIFT = 56"
definition MESSAGE_TYPE_MASK :: u64 where "MESSAGE_TYPE_MASK = mask 56"

definition HANDLE_REMOTE_SHIFT :: nat where "HANDLE_REMOTE_SHIFT = 24"
definition HANDLE_MASK :: u32 where "HANDLE_MASK = mask 24"

definition GLOBALNAME_LENGTH :: nat where "GLOBALNAME_LENGTH = 16"

record skynet_message =
  msg_source :: u32
  msg_session :: i32
  msg_data :: ptr
  msg_sz :: u64

text \<open>The receiver splits \<open>sz\<close> again (\<open>dispatch_message\<close> of \<open>skynet_server.c\<close>).\<close>

definition message_type :: "skynet_message \<Rightarrow> u64" where
  "message_type m = drop_bit MESSAGE_TYPE_SHIFT (msg_sz m)"

definition message_size :: "skynet_message \<Rightarrow> u64" where
  "message_size m = msg_sz m AND MESSAGE_TYPE_MASK"

end
