(* ===== verification/Interfaces.thy ===== *)
theory Interfaces
  imports Prelude
begin

section \<open>Interfaces between the components\<close>

text \<open>
  Each locale is a contract one component relies on and another provides: a first-in first-out
  queue (the message queue of a service, the packet queue of netpack), a calendar of timed events
  (the timing wheel), a table from ids to slots (the gate's connection table), and a byte stream
  (the gate's receive buffer). What the clients need is proved once, in the locale; the provider's
  theory interprets it on the model of the C code.
\<close>

subsection \<open>First-in first-out queues\<close>

locale fifo =
  fixes holds :: "'q \<Rightarrow> 'a list \<Rightarrow> bool"
    and push :: "'a \<Rightarrow> 'q \<Rightarrow> 'q option"
    and pop :: "'q \<Rightarrow> ('a option \<times> 'q) option"
  assumes push_ok: "holds q xs \<Longrightarrow> \<exists>q'. push x q = Some q' \<and> holds q' (xs @ [x])"
    and pop_empty: "holds q [] \<Longrightarrow> \<exists>q'. pop q = Some (None, q') \<and> holds q' []"
    and pop_cons: "holds q (x # xs) \<Longrightarrow> \<exists>q'. pop q = Some (Some x, q') \<and> holds q' xs"
begin

text \<open>A history of pushes and pops, with the elements the pops delivered, in order.\<close>

fun run :: "'a option list \<Rightarrow> 'q \<Rightarrow> ('a list \<times> 'q) option" where
  "run [] q = Some ([], q)"
| "run (Some x # ops) q = do { q' \<leftarrow> push x q; run ops q' }"
| "run (None # ops) q = do {
     (r, q') \<leftarrow> pop q;
     (out, q'') \<leftarrow> run ops q';
     Some ((case r of None \<Rightarrow> out | Some x \<Rightarrow> x # out), q'') }"

text \<open>Nothing is lost, duplicated or reordered: what came out, then what is still inside, is what
  was inside, then what went in.\<close>

lemma run_conserves:
  "holds q xs \<Longrightarrow> \<exists>out q' ys. run ops q = Some (out, q') \<and> holds q' ys \<and>
     out @ ys = xs @ List.map_filter (\<lambda>oper. oper) ops"
proof (induction ops arbitrary: q xs)
  case Nil
  then show ?case by simp
next
  case (Cons oper ops)
  show ?case
  proof (cases oper)
    case (Some x)
    from push_ok [OF Cons.prems, of x] obtain q'
      where q': "push x q = Some q'" "holds q' (xs @ [x])" by blast
    from Cons.IH [OF q'(2)] q' Some show ?thesis by (auto simp: map_filter_simps)
  next
    case None
    show ?thesis
    proof (cases xs)
      case Nil
      with pop_empty Cons.prems obtain q'
        where q': "pop q = Some (None, q')" "holds q' []" by blast
      from Cons.IH [OF q'(2)] q' Nil None show ?thesis by (auto simp: map_filter_simps)
    next
      case (Cons x ys)
      with pop_cons Cons.prems obtain q'
        where q': "pop q = Some (Some x, q')" "holds q' ys" by blast
      from Cons.IH [OF q'(2)] obtain out q'' zs where
        "run ops q' = Some (out, q'')" "holds q'' zs" "out @ zs = ys @ List.map_filter (\<lambda>oper. oper) ops"
        by blast
      with q' Cons None show ?thesis by (auto simp: map_filter_simps)
    qed
  qed
qed

text \<open>Popping until the queue is empty delivers everything it held, oldest first.\<close>

lemma drain:
  "holds q xs \<Longrightarrow> \<exists>q'. run (replicate (length xs) None) q = Some (xs, q') \<and> holds q' []"
proof (induction xs arbitrary: q)
  case Nil
  then show ?case by simp
next
  case (Cons x xs)
  from pop_cons [OF Cons.prems] obtain q'
    where q': "pop q = Some (Some x, q')" "holds q' xs" by blast
  from Cons.IH [OF q'(2)] q' show ?case by auto
qed

end

subsection \<open>Calendars\<close>

text \<open>\<open>rel s P\<close>: in state \<open>s\<close> the events of \<open>P\<close> are pending, each with the number of ticks left,
  oldest first. A tick delivers what has one tick left, oldest first.\<close>

definition cal_due :: "(nat \<times> 'e) list \<Rightarrow> 'e list" where
  "cal_due P = map snd (filter (\<lambda>p. fst p = 1) P)"

definition cal_rest :: "(nat \<times> 'e) list \<Rightarrow> (nat \<times> 'e) list" where
  "cal_rest P = map (\<lambda>p. (fst p - 1, snd p)) (filter (\<lambda>p. fst p \<noteq> 1) P)"

fun due_within :: "nat \<Rightarrow> (nat \<times> 'e) list \<Rightarrow> 'e list" where
  "due_within 0 P = []"
| "due_within (Suc n) P = cal_due P @ due_within n (cal_rest P)"

fun rest_after :: "nat \<Rightarrow> (nat \<times> 'e) list \<Rightarrow> (nat \<times> 'e) list" where
  "rest_after 0 P = P"
| "rest_after (Suc n) P = rest_after n (cal_rest P)"

text \<open>Above: what \<open>n\<close> ticks deliver, tick by tick, and what is pending afterwards.\<close>

lemma cal_due_append: "cal_due (P @ Q) = cal_due P @ cal_due Q"
  by (simp add: cal_due_def)

lemma cal_rest_append: "cal_rest (P @ Q) = cal_rest P @ cal_rest Q"
  by (simp add: cal_rest_def)

lemma rest_after_append: "rest_after n (P @ Q) = rest_after n P @ rest_after n Q"
  by (induction n arbitrary: P Q) (simp_all add: cal_rest_append)

lemma rest_after_single: "rest_after n [(Suc n + k, e)] = [(Suc k, e)]"
  by (induction n) (simp_all add: cal_rest_def)

lemma due_within_append:
  "due_within n (P @ [(Suc n + k, e)]) = due_within n P"
  by (induction n arbitrary: P) (simp_all add: cal_due_append cal_rest_append cal_due_def [of "[_]"] cal_rest_def [of "[_]"])

lemma rest_after_Suc: "rest_after (Suc n) P = cal_rest (rest_after n P)"
  by (induction n arbitrary: P) simp_all

text \<open>The same, counted from the start.\<close>

definition due_at :: "nat \<Rightarrow> (nat \<times> 'e) list \<Rightarrow> 'e list" where
  "due_at k P = map snd (filter (\<lambda>p. fst p = k) P)"

definition left_after :: "nat \<Rightarrow> (nat \<times> 'e) list \<Rightarrow> (nat \<times> 'e) list" where
  "left_after n P = map (\<lambda>p. (fst p - n, snd p)) (filter (\<lambda>p. n < fst p) P)"

lemma due_at_rest: "\<forall>p\<in>set P. 0 < fst p \<Longrightarrow> 0 < k \<Longrightarrow> due_at k (cal_rest P) = due_at (Suc k) P"
  by (induction P) (auto simp: due_at_def cal_rest_def)

lemma rest_pos: "\<forall>p\<in>set P. 0 < fst p \<Longrightarrow> \<forall>p\<in>set (cal_rest P). 0 < fst p"
  by (fastforce simp: cal_rest_def)

lemma due_within_eq:
  "\<forall>p\<in>set P. 0 < fst p \<Longrightarrow> due_within n P = concat (map (\<lambda>k. due_at k P) [1..<Suc n])"
proof (induction n arbitrary: P)
  case (Suc n)
  have "concat (map (\<lambda>k. due_at k (cal_rest P)) [1..<Suc n]) =
      concat (map (\<lambda>k. due_at (Suc k) P) [1..<Suc n])"
    using due_at_rest [OF Suc.prems] by (intro arg_cong [where f = concat] map_cong) auto
  also have "\<dots> = concat (map (\<lambda>k. due_at k P) [2..<Suc (Suc n)])"
    by (simp add: map_Suc_upt [symmetric] o_def numeral_2_eq_2 del: upt_Suc)
  finally have "due_within n (cal_rest P) = concat (map (\<lambda>k. due_at k P) [2..<Suc (Suc n)])"
    using Suc.IH [OF rest_pos [OF Suc.prems]] by simp
  moreover have "[1..<Suc (Suc n)] = 1 # [2..<Suc (Suc n)]"
    by (simp add: upt_conv_Cons numeral_2_eq_2)
  ultimately show ?case by (simp add: cal_due_def due_at_def del: upt_Suc)
qed simp

lemma rest_after_eq: "\<forall>p\<in>set P. 0 < fst p \<Longrightarrow> rest_after n P = left_after n P"
proof (induction n arbitrary: P)
  case 0
  then show ?case by (simp add: left_after_def filter_id_conv)
next
  case (Suc n)
  have "left_after n (cal_rest P) = left_after (Suc n) P"
    using Suc.prems by (induction P) (auto simp: left_after_def cal_rest_def)
  then show ?case using Suc.IH [OF rest_pos [OF Suc.prems]] by simp
qed

locale calendar =
  fixes rel :: "'s \<Rightarrow> (nat \<times> 'e) list \<Rightarrow> bool"
    and add :: "nat \<Rightarrow> 'e \<Rightarrow> 's \<Rightarrow> 's"
    and tick :: "'s \<Rightarrow> ('d list \<times> 's) option"
    and deliver :: "'e \<Rightarrow> 'd"
    and horizon :: nat
  assumes rel_add: "rel s P \<Longrightarrow> 0 < d \<Longrightarrow> d < horizon \<Longrightarrow> rel (add d e s) (P @ [(d, e)])"
    and rel_tick: "rel s P \<Longrightarrow>
      \<exists>s'. tick s = Some (map deliver (cal_due P), s') \<and> rel s' (cal_rest P)"
    and rel_pos: "rel s P \<Longrightarrow> p \<in> set P \<Longrightarrow> 0 < fst p"
begin

fun ticks :: "nat \<Rightarrow> 's \<Rightarrow> ('d list \<times> 's) option" where
  "ticks 0 s = Some ([], s)"
| "ticks (Suc n) s = do {
     (out, s') \<leftarrow> tick s;
     (out', s'') \<leftarrow> ticks n s';
     Some (out @ out', s'') }"

lemma ticks_deliver:
  "rel s P \<Longrightarrow>
   \<exists>s'. ticks n s = Some (map deliver (due_within n P), s') \<and> rel s' (rest_after n P)"
proof (induction n arbitrary: s P)
  case 0
  then show ?case by simp
next
  case (Suc n)
  from rel_tick [OF Suc.prems] obtain s'
    where s': "tick s = Some (map deliver (cal_due P), s')" "rel s' (cal_rest P)" by blast
  from Suc.IH [OF s'(2)] s' show ?case by auto
qed

text \<open>An event added with delay \<open>d\<close> changes nothing before tick \<open>d\<close> and is the last of what tick
  \<open>d\<close> delivers.\<close>

lemma added_due:
  assumes "rel s P" and "0 < d" and "d < horizon"
  shows "\<exists>s1 s2. ticks (d - 1) (add d e s) = Some (map deliver (due_within (d - 1) P), s1) \<and>
    tick s1 = Some (map deliver (cal_due (rest_after (d - 1) P)) @ [deliver e], s2) \<and>
    rel s2 (rest_after d P)"
proof -
  obtain n where d: "d = Suc n" using assms(2) gr0_implies_Suc by blast
  have r: "rel (add d e s) (P @ [(d, e)])" using assms by (rule rel_add)
  from ticks_deliver [OF r, of n] obtain s1 where
    s1: "ticks n (add d e s) = Some (map deliver (due_within n P), s1)"
    "rel s1 (rest_after n P @ [(1, e)])"
    using due_within_append [of n P 0 e] rest_after_single [of n 0 e] by (auto simp: d rest_after_append)
  from rel_tick [OF s1(2)] obtain s2 where
    "tick s1 = Some (map deliver (cal_due (rest_after n P)) @ [deliver e], s2)"
    "rel s2 (cal_rest (rest_after n P))"
    by (auto simp: cal_due_append cal_rest_append cal_due_def [of "[_]"] cal_rest_def [of "[_]"])
  with s1(1) show ?thesis by (auto simp: d rest_after_Suc simp del: rest_after.simps)
qed

end

subsection \<open>Tables of ids\<close>

text \<open>\<open>holds h M\<close>: the table \<open>h\<close> gives each id of \<open>M\<close> a slot of its own below the capacity. What an
  insertion into a full table does is not part of the contract; the client tests for it.\<close>

datatype 'k idop = IdInsert 'k | IdRemove 'k | IdLookup 'k

text \<open>The same history, checked against the map: \<open>rs\<close> are the answers; a refused insertion answers
  \<open>None\<close>.\<close>

fun replay :: "nat \<Rightarrow> 'k idop list \<Rightarrow> ptr list \<Rightarrow> ('k \<rightharpoonup> nat) \<Rightarrow> ('k \<rightharpoonup> nat) option" where
  "replay cap [] [] M = Some M"
| "replay cap (IdInsert k # ops) (None # rs) M =
     (if card (dom M) = cap then replay cap ops rs M else None)"
| "replay cap (IdInsert k # ops) (Some i # rs) M =
     (if card (dom M) < cap \<and> i < cap \<and> i \<notin> ran M then replay cap ops rs (M(k \<mapsto> i)) else None)"
| "replay cap (IdRemove k # ops) (r # rs) M = (if r = M k then replay cap ops rs (M(k := None)) else None)"
| "replay cap (IdLookup k # ops) (r # rs) M = (if r = M k then replay cap ops rs M else None)"
| "replay cap _ _ M = None"

text \<open>Histories in which no id is inserted that is in the table; \<open>K\<close> is the set of ids in it.\<close>

fun legal_ops :: "(nat \<Rightarrow> 'k \<Rightarrow> bool) \<Rightarrow> nat \<Rightarrow> 'k idop list \<Rightarrow> 'k set \<Rightarrow> bool" where
  "legal_ops fits cap [] K \<longleftrightarrow> True"
| "legal_ops fits cap (IdInsert k # ops) K \<longleftrightarrow>
     k \<notin> K \<and> fits cap k \<and> legal_ops fits cap ops (if card K = cap then K else insert k K)"
| "legal_ops fits cap (IdRemove k # ops) K \<longleftrightarrow> legal_ops fits cap ops (K - {k})"
| "legal_ops fits cap (IdLookup k # ops) K \<longleftrightarrow> legal_ops fits cap ops K"

locale idtable =
  fixes holds :: "'h \<Rightarrow> ('k \<rightharpoonup> nat) \<Rightarrow> bool"
    and lookup :: "'h \<Rightarrow> 'k \<Rightarrow> ptr option"
    and remove :: "'h \<Rightarrow> 'k \<Rightarrow> (ptr \<times> 'h) option"
    and insert_id :: "'h \<Rightarrow> 'k \<Rightarrow> (nat \<times> 'h) option"
    and full :: "'h \<Rightarrow> bool"
    and cap :: "'h \<Rightarrow> nat"
    and fits :: "nat \<Rightarrow> 'k \<Rightarrow> bool"
  assumes lookup_ok: "holds h M \<Longrightarrow> lookup h k = Some (M k)"
    and remove_ok: "holds h M \<Longrightarrow>
      \<exists>h'. remove h k = Some (M k, h') \<and> holds h' (M(k := None)) \<and> cap h' = cap h"
    and insert_ok: "holds h M \<Longrightarrow> M k = None \<Longrightarrow> fits (cap h) k \<Longrightarrow> \<not> full h \<Longrightarrow>
      \<exists>i h'. insert_id h k = Some (i, h') \<and> i < cap h \<and> i \<notin> ran M \<and> holds h' (M(k \<mapsto> i)) \<and> cap h' = cap h"
    and full_ok: "holds h M \<Longrightarrow> full h \<longleftrightarrow> card (dom M) = cap h"
    and cap_ok: "holds h M \<Longrightarrow> card (dom M) \<le> cap h"
begin

text \<open>How the gate uses the table: it does not insert into a full one.\<close>

fun run :: "'k idop list \<Rightarrow> 'h \<Rightarrow> (ptr list \<times> 'h) option" where
  "run [] h = Some ([], h)"
| "run (IdInsert k # ops) h =
     (if full h then do { (rs, h') \<leftarrow> run ops h; Some (None # rs, h') }
      else do { (i, h1) \<leftarrow> insert_id h k; (rs, h') \<leftarrow> run ops h1; Some (Some i # rs, h') })"
| "run (IdRemove k # ops) h = do { (r, h1) \<leftarrow> remove h k; (rs, h') \<leftarrow> run ops h1; Some (r # rs, h') }"
| "run (IdLookup k # ops) h = do { r \<leftarrow> lookup h k; (rs, h') \<leftarrow> run ops h; Some (r # rs, h') }"

lemma run_replays:
  "holds h M \<Longrightarrow> legal_ops fits (cap h) ops (dom M) \<Longrightarrow>
   \<exists>rs h' M'. run ops h = Some (rs, h') \<and> replay (cap h) ops rs M = Some M' \<and> holds h' M'"
proof (induction ops arbitrary: h M)
  case Nil
  then show ?case by auto
next
  case (Cons oper ops)
  show ?case
  proof (cases oper)
    case (IdInsert k)
    then have k: "M k = None" and f: "fits (cap h) k" using Cons.prems(2) by auto
    show ?thesis
    proof (cases "full h")
      case True
      then have c: "card (dom M) = cap h" using full_ok [OF Cons.prems(1)] by simp
      then have "legal_ops fits (cap h) ops (dom M)" using Cons.prems(2) IdInsert by simp
      from Cons.IH [OF Cons.prems(1) this] obtain rs h' M' where
        "run ops h = Some (rs, h')" "replay (cap h) ops rs M = Some M'" "holds h' M'" by blast
      then show ?thesis using True IdInsert c
        by (intro exI [of _ "None # rs"] exI [of _ h'] exI [of _ M']) simp
    next
      case False
      have c: "card (dom M) < cap h"
        using False full_ok [OF Cons.prems(1)] cap_ok [OF Cons.prems(1)] by linarith
      from insert_ok [OF Cons.prems(1) k f False] obtain i h1 where
        i: "insert_id h k = Some (i, h1)" "i < cap h" "i \<notin> ran M" "holds h1 (M(k \<mapsto> i))" "cap h1 = cap h" by blast
      have "legal_ops fits (cap h1) ops (dom (M(k \<mapsto> i)))"
        using Cons.prems(2) IdInsert c i(5) by simp
      from Cons.IH [OF i(4) this] obtain rs h' M' where
        "run ops h1 = Some (rs, h')" "replay (cap h) ops rs (M(k \<mapsto> i)) = Some M'" "holds h' M'"
        unfolding i(5) by blast
      then show ?thesis using False IdInsert c i(1-3)
        by (intro exI [of _ "Some i # rs"] exI [of _ h'] exI [of _ M']) simp
    qed
  next
    case (IdRemove k)
    from remove_ok [OF Cons.prems(1), of k] obtain h1 where
      r: "remove h k = Some (M k, h1)" "holds h1 (M(k := None))" "cap h1 = cap h" by blast
    have "legal_ops fits (cap h1) ops (dom (M(k := None)))" using Cons.prems(2) IdRemove r(3) by simp
    from Cons.IH [OF r(2) this] obtain rs h' M' where
      "run ops h1 = Some (rs, h')" "replay (cap h) ops rs (M(k := None)) = Some M'" "holds h' M'"
      unfolding r(3) by blast
    then show ?thesis using IdRemove r(1)
      by (intro exI [of _ "M k # rs"] exI [of _ h'] exI [of _ M']) simp
  next
    case (IdLookup k)
    have "legal_ops fits (cap h) ops (dom M)" using Cons.prems(2) IdLookup by simp
    from Cons.IH [OF Cons.prems(1) this] obtain rs h' M' where
      "run ops h = Some (rs, h')" "replay (cap h) ops rs M = Some M'" "holds h' M'" by blast
    then show ?thesis using IdLookup lookup_ok [OF Cons.prems(1), of k]
      by (intro exI [of _ "M k # rs"] exI [of _ h'] exI [of _ M']) simp
  qed
qed

end

subsection \<open>Byte streams\<close>

text \<open>\<open>holds s B\<close>: the buffer of \<open>i\<close> has the bytes \<open>B i\<close> to read.\<close>

datatype ('i, 'b) bsop = BsPush 'i "'b list" | BsRead 'i nat | BsClear 'i

text \<open>A history on the bare streams: what each read got (nothing when there are not enough bytes).\<close>

fun stream_run :: "('i, 'b) bsop list \<Rightarrow> ('i \<Rightarrow> 'b list) \<Rightarrow> 'b list list \<times> ('i \<Rightarrow> 'b list)" where
  "stream_run [] B = ([], B)"
| "stream_run (BsPush i xs # ops) B = stream_run ops (B(i := B i @ xs))"
| "stream_run (BsRead i n # ops) B =
     (if 0 < n \<and> n \<le> length (B i)
      then let (out, B') = stream_run ops (B(i := drop n (B i))) in (take n (B i) # out, B')
      else let (out, B') = stream_run ops B in ([] # out, B'))"
| "stream_run (BsClear i # ops) B = stream_run ops (B(i := []))"

locale bytestreams =
  fixes holds :: "'s \<Rightarrow> ('i \<Rightarrow> 'b list) \<Rightarrow> bool"
    and push :: "'i \<Rightarrow> 'b list \<Rightarrow> 's \<Rightarrow> 's option"
    and read :: "'i \<Rightarrow> nat \<Rightarrow> 's \<Rightarrow> ('b list \<times> 's) option"
    and clear :: "'i \<Rightarrow> 's \<Rightarrow> 's option"
    and avail :: "'i \<Rightarrow> 's \<Rightarrow> nat"
  assumes push_ok: "holds s B \<Longrightarrow> \<exists>s'. push i xs s = Some s' \<and> holds s' (B(i := B i @ xs))"
    and read_ok: "holds s B \<Longrightarrow> 0 < n \<Longrightarrow> n \<le> length (B i) \<Longrightarrow>
      \<exists>s'. read i n s = Some (take n (B i), s') \<and> holds s' (B(i := drop n (B i)))"
    and clear_ok: "holds s B \<Longrightarrow> \<exists>s'. clear i s = Some s' \<and> holds s' (B(i := []))"
    and avail_ok: "holds s B \<Longrightarrow> avail i s = length (B i)"
begin

fun run :: "('i, 'b) bsop list \<Rightarrow> 's \<Rightarrow> ('b list list \<times> 's) option" where
  "run [] s = Some ([], s)"
| "run (BsPush i xs # ops) s = do { s1 \<leftarrow> push i xs s; run ops s1 }"
| "run (BsRead i n # ops) s =
     (if 0 < n \<and> n \<le> avail i s
      then do { (r, s1) \<leftarrow> read i n s; (out, s2) \<leftarrow> run ops s1; Some (r # out, s2) }
      else do { (out, s2) \<leftarrow> run ops s; Some ([] # out, s2) })"
| "run (BsClear i # ops) s = do { s1 \<leftarrow> clear i s; run ops s1 }"

lemma run_refines:
  "holds s B \<Longrightarrow> \<exists>s'. run ops s = Some (fst (stream_run ops B), s') \<and> holds s' (snd (stream_run ops B))"
proof (induction ops arbitrary: s B)
  case Nil
  then show ?case by simp
next
  case (Cons oper ops)
  note S = Cons.prems and IH = Cons.IH
  show ?case
  proof (cases oper)
    case (BsPush i xs)
    from push_ok [OF S, of i xs] obtain s1 where
      "push i xs s = Some s1" "holds s1 (B(i := B i @ xs))" by blast
    with IH [OF this(2)] BsPush show ?thesis by (simp del: fun_upd_apply)
  next
    case (BsRead i n)
    show ?thesis
    proof (cases "0 < n \<and> n \<le> length (B i)")
      case True
      with read_ok [OF S, of n i] obtain s1 where
        r: "read i n s = Some (take n (B i), s1)" "holds s1 (B(i := drop n (B i)))" by blast
      from IH [OF r(2)] r(1) True BsRead show ?thesis
        by (auto simp: avail_ok [OF S] split_beta simp del: fun_upd_apply)
    next
      case False
      with IH [OF S] BsRead show ?thesis by (auto simp: avail_ok [OF S] split_beta simp del: fun_upd_apply)
    qed
  next
    case (BsClear i)
    from clear_ok [OF S, of i] obtain s1 where "clear i s = Some s1" "holds s1 (B(i := []))" by blast
    with IH [OF this(2)] BsClear show ?thesis by (simp del: fun_upd_apply)
  qed
qed

end

end
