(* ===== verification/Timer.thy ===== *)
theory Timer
  imports Message Interfaces
begin

section \<open>The timing wheel (skynet-src/skynet_timer.c)\<close>

text \<open>
  Five wheels of linked lists: \<open>near\<close> has one list per tick of the current 256-tick block, and
  the four levels \<open>t\<close> hold what expires in a later block, at a granularity of \<open>2^8\<close>, \<open>2^14\<close>,
  \<open>2^20\<close> and \<open>2^26\<close> ticks. A linked list is the list of its nodes, oldest first (\<open>link\<close> appends at
  the tail). Time is the wrapping 32-bit tick counter. What a tick delivers is returned as the list
  of pushes to \<open>skynet_context_push\<close>, in order. The lock makes each operation one step.

  The theorems: the wheel refines a plain calendar (a list of pending events with the ticks left),
  so each event is delivered at exactly its tick, once, in the order of insertion, across every
  cascade and across the wrap-around of the counter.
\<close>

subsection \<open>The model\<close>

definition TIME_NEAR_SHIFT :: nat where "TIME_NEAR_SHIFT = 8"
definition TIME_LEVEL_SHIFT :: nat where "TIME_LEVEL_SHIFT = 6"
definition TIME_NEAR :: u32 where "TIME_NEAR = push_bit TIME_NEAR_SHIFT 1"
definition TIME_LEVEL :: u32 where "TIME_LEVEL = push_bit TIME_LEVEL_SHIFT 1"
definition TIME_NEAR_MASK :: u32 where "TIME_NEAR_MASK = TIME_NEAR - 1"
definition TIME_LEVEL_MASK :: u32 where "TIME_LEVEL_MASK = TIME_LEVEL - 1"

record timer_event =
  te_handle :: u32
  te_session :: i32

record timer_node =
  expire :: u32
  event :: timer_event

type_synonym link_list = "timer_node list"

record timer =
  near :: "nat \<Rightarrow> link_list"
  t :: "nat \<Rightarrow> nat \<Rightarrow> link_list"
  time :: u32
  starttime :: u32
  current :: u64
  current_point :: u64

definition link :: "link_list \<Rightarrow> timer_node \<Rightarrow> link_list" where
  "link list node = list @ [node]"

text \<open>The \<open>for\<close> loop of \<open>add_node\<close>: the least level whose block holds both times, or 3.\<close>

function find_level :: "u32 \<Rightarrow> u32 \<Rightarrow> nat \<Rightarrow> u32 \<Rightarrow> nat" where
  "find_level tm cur i msk =
     (if i < 3
      then if tm OR (msk - 1) = cur OR (msk - 1) then i
           else find_level tm cur (Suc i) (push_bit TIME_LEVEL_SHIFT msk)
      else i)"
  by pat_completeness auto
termination
  by (relation "measure (\<lambda>(tm, cur, i, msk). 3 - i)") auto

declare find_level.simps [simp del]

definition add_node :: "timer_node \<Rightarrow> timer \<Rightarrow> timer" where
  "add_node node T =
     (let tm = expire node; current_time = time T in
      if tm OR TIME_NEAR_MASK = current_time OR TIME_NEAR_MASK
      then let idx = unat (tm AND TIME_NEAR_MASK) in
           T\<lparr>near := (near T)(idx := link (near T idx) node)\<rparr>
      else let i = find_level tm current_time 0 (push_bit TIME_LEVEL_SHIFT TIME_NEAR);
               idx = unat (drop_bit (TIME_NEAR_SHIFT + i * TIME_LEVEL_SHIFT) tm AND TIME_LEVEL_MASK) in
           T\<lparr>t := (t T)(i := (t T i)(idx := link (t T i idx) node))\<rparr>)"

definition timer_add :: "timer_event \<Rightarrow> i32 \<Rightarrow> timer \<Rightarrow> timer" where
  "timer_add arg tm T = add_node \<lparr>expire = tm + time T, event = arg\<rparr> T"

text \<open>\<open>link_clear\<close> of the list, then the \<open>while\<close> loop over the nodes it held.\<close>

definition move_list :: "nat \<Rightarrow> nat \<Rightarrow> timer \<Rightarrow> timer" where
  "move_list level idx T =
     fold add_node (t T level idx) (T\<lparr>t := (t T)(level := (t T level)(idx := []))\<rparr>)"

text \<open>The \<open>while\<close> loop of \<open>timer_shift\<close>. It has no bound of its own in the code; \<open>None\<close> would be a
  loop that runs forever.\<close>

partial_function (option) shift_loop ::
  "u32 \<Rightarrow> u32 \<Rightarrow> u32 \<Rightarrow> nat \<Rightarrow> timer \<Rightarrow> timer option" where
  "shift_loop ct tm msk i T =
     (if ct AND (msk - 1) = 0
      then if tm AND TIME_LEVEL_MASK \<noteq> 0
           then Some (move_list i (unat (tm AND TIME_LEVEL_MASK)) T)
           else shift_loop ct (drop_bit TIME_LEVEL_SHIFT tm) (push_bit TIME_LEVEL_SHIFT msk) (Suc i) T
      else Some T)"

definition timer_shift :: "timer \<Rightarrow> timer option" where
  "timer_shift T =
     (let T' = T\<lparr>time := time T + 1\<rparr>; ct = time T' in
      if ct = 0 then Some (move_list 3 0 T')
      else shift_loop ct (drop_bit TIME_NEAR_SHIFT ct) TIME_NEAR 0 T')"

text \<open>The response message a timeout sends, and \<open>dispatch_list\<close>: one push per node.\<close>

definition timeout_message :: "i32 \<Rightarrow> skynet_message" where
  "timeout_message session =
     \<lparr>msg_source = 0, msg_session = session, msg_data = None,
      msg_sz = push_bit MESSAGE_TYPE_SHIFT PTYPE_RESPONSE\<rparr>"

type_synonym pushes = "(u32 \<times> skynet_message) list"

definition push_of_event :: "timer_event \<Rightarrow> u32 \<times> skynet_message" where
  "push_of_event e = (te_handle e, timeout_message (te_session e))"

definition dispatch_list :: "link_list \<Rightarrow> pushes" where
  "dispatch_list ns = map (\<lambda>n. push_of_event (event n)) ns"

function timer_execute :: "timer \<Rightarrow> pushes \<times> timer" where
  "timer_execute T =
     (let idx = unat (time T AND TIME_NEAR_MASK) in
      if near T idx \<noteq> []
      then let (out, T') = timer_execute (T\<lparr>near := (near T)(idx := [])\<rparr>) in
           (dispatch_list (near T idx) @ out, T')
      else ([], T))"
  by pat_completeness auto
termination
  by (relation "measure (\<lambda>T. length (near T (unat (time T AND TIME_NEAR_MASK))))") auto

declare timer_execute.simps [simp del]

definition timer_update :: "timer \<Rightarrow> (pushes \<times> timer) option" where
  "timer_update T = do {
     let (out1, T1) = timer_execute T;
     T2 \<leftarrow> timer_shift T1;
     let (out2, T3) = timer_execute T2;
     Some (out1 @ out2, T3) }"

definition timer_create_timer :: timer where
  "timer_create_timer =
     \<lparr>near = (\<lambda>_. []), t = (\<lambda>_ _. []), time = 0, starttime = 0, current = 0, current_point = 0\<rparr>"

text \<open>\<open>skynet_timeout\<close>; \<open>alive\<close> tells which handles \<open>skynet_context_push\<close> finds.\<close>

definition skynet_timeout :: "(u32 \<Rightarrow> bool) \<Rightarrow> u32 \<Rightarrow> i32 \<Rightarrow> i32 \<Rightarrow> timer \<Rightarrow> i32 \<times> pushes \<times> timer" where
  "skynet_timeout alive handle tm session T =
     (if sint tm \<le> 0
      then if \<not> alive handle then (-1, [], T)
           else (session, [(handle, timeout_message session)], T)
      else (session, [], timer_add \<lparr>te_handle = handle, te_session = session\<rparr> tm T))"

text \<open>\<open>gettime\<close> and \<open>systime\<close> convert the clock the operating system reports (seconds and
  nanoseconds), which is an input of the model.\<close>

definition gettime :: "u64 \<Rightarrow> u64 \<Rightarrow> u64" where
  "gettime tv_sec tv_nsec = tv_sec * 100 + tv_nsec div 10000000"

definition systime :: "u64 \<Rightarrow> u64 \<Rightarrow> u32 \<times> u32" where
  "systime tv_sec tv_nsec = (ucast tv_sec, ucast (tv_nsec div 10000000))"

fun timer_updates :: "nat \<Rightarrow> timer \<Rightarrow> (pushes \<times> timer) option" where
  "timer_updates 0 T = Some ([], T)"
| "timer_updates (Suc n) T = do {
     (out, T') \<leftarrow> timer_update T;
     (out', T'') \<leftarrow> timer_updates n T';
     Some (out @ out', T'') }"

definition skynet_updatetime :: "u64 \<Rightarrow> timer \<Rightarrow> (pushes \<times> timer) option" where
  "skynet_updatetime cp T =
     (if cp < current_point T then Some ([], T\<lparr>current_point := cp\<rparr>)
      else if cp \<noteq> current_point T then
        let diff = ucast (cp - current_point T) :: u32 in
        timer_updates (unat diff)
          (T\<lparr>current_point := cp, current := current T + ucast diff\<rparr>)
      else Some ([], T))"

definition skynet_timer_init :: "u64 \<Rightarrow> u64 \<Rightarrow> u64 \<Rightarrow> u64 \<Rightarrow> timer" where
  "skynet_timer_init real_sec real_nsec mono_sec mono_nsec =
     (let (sec, cs) = systime real_sec real_nsec in
      timer_create_timer\<lparr>starttime := sec, current := ucast cs,
                         current_point := gettime mono_sec mono_nsec\<rparr>)"

definition skynet_now :: "timer \<Rightarrow> u64" where
  "skynet_now T = current T"

definition skynet_starttime :: "timer \<Rightarrow> u32" where
  "skynet_starttime T = starttime T"

subsection \<open>Where a node belongs\<close>

text \<open>The slot \<open>add_node\<close> chooses, as arithmetic on the expiry \<open>e\<close> and the current time \<open>c\<close>.\<close>

datatype slot = Near nat | Level nat nat

definition same :: "nat \<Rightarrow> nat \<Rightarrow> nat \<Rightarrow> bool" where
  "same k e c \<longleftrightarrow> e div 2 ^ k = c div 2 ^ k"

definition slot_of :: "nat \<Rightarrow> nat \<Rightarrow> slot" where
  "slot_of e c =
     (if same 8 e c then Near (e mod 2 ^ 8)
      else if same 14 e c then Level 0 (e div 2 ^ 8 mod 2 ^ 6)
      else if same 20 e c then Level 1 (e div 2 ^ 14 mod 2 ^ 6)
      else if same 26 e c then Level 2 (e div 2 ^ 20 mod 2 ^ 6)
      else Level 3 (e div 2 ^ 26 mod 2 ^ 6))"

fun get :: "timer \<Rightarrow> slot \<Rightarrow> link_list" where
  "get T (Near j) = near T j"
| "get T (Level i j) = t T i j"

abbreviation node_slot :: "timer_node \<Rightarrow> u32 \<Rightarrow> slot" where
  "node_slot n c \<equiv> slot_of (unat (expire n)) (unat c)"

lemma same_mono: "same k e c \<Longrightarrow> k \<le> k' \<Longrightarrow> same k' e c"
proof -
  assume a: "same k e c" "k \<le> k'"
  have *: "x div 2 ^ k' = x div 2 ^ k div 2 ^ (k' - k)" for x :: nat
    using a(2) by (simp add: div_mult2_eq [symmetric] power_add [symmetric])
  show ?thesis using a(1) by (simp add: same_def *)
qed

lemma masks:
  "TIME_NEAR_MASK = mask 8" "TIME_LEVEL_MASK = mask 6" "TIME_NEAR - 1 = mask 8"
  "push_bit TIME_LEVEL_SHIFT TIME_NEAR - 1 = mask 14"
  "push_bit TIME_LEVEL_SHIFT (push_bit TIME_LEVEL_SHIFT TIME_NEAR) - 1 = mask 20"
  "push_bit TIME_LEVEL_SHIFT (push_bit TIME_LEVEL_SHIFT (push_bit TIME_LEVEL_SHIFT TIME_NEAR)) - 1
     = mask 26"
  by (simp_all add: TIME_NEAR_MASK_def TIME_LEVEL_MASK_def TIME_NEAR_def TIME_LEVEL_def
      TIME_NEAR_SHIFT_def TIME_LEVEL_SHIFT_def mask_eq_exp_minus_1 push_bit_eq_mult)

lemma find_level_step:
  "i < 3 \<Longrightarrow> find_level tm cur i msk =
     (if tm OR (msk - 1) = cur OR (msk - 1) then i
      else find_level tm cur (Suc i) (push_bit TIME_LEVEL_SHIFT msk))"
  "find_level tm cur 3 msk = 3"
  by (simp_all add: find_level.simps)

lemma find_level_eq:
  "find_level tm cur 0 (push_bit TIME_LEVEL_SHIFT TIME_NEAR) =
     (if same 14 (unat tm) (unat cur) then 0
      else if same 20 (unat tm) (unat cur) then 1
      else if same 26 (unat tm) (unat cur) then 2 else 3)"
proof -
  let ?m = "push_bit TIME_LEVEL_SHIFT TIME_NEAR"
  let ?m2 = "push_bit TIME_LEVEL_SHIFT ?m" and ?m3 = "push_bit TIME_LEVEL_SHIFT (push_bit TIME_LEVEL_SHIFT ?m)"
  have "find_level tm cur 0 ?m =
      (if tm OR (?m - 1) = cur OR (?m - 1) then 0 else find_level tm cur 1 ?m2)"
    using find_level_step(1) [of 0] by simp
  moreover have "find_level tm cur 1 ?m2 =
      (if tm OR (?m2 - 1) = cur OR (?m2 - 1) then 1 else find_level tm cur 2 ?m3)"
    using find_level_step(1) [of 1 tm cur ?m2] by (simp add: numeral_2_eq_2)
  moreover have "find_level tm cur 2 ?m3 =
      (if tm OR (?m3 - 1) = cur OR (?m3 - 1) then 2 else 3)"
    using find_level_step(1) [of 2 tm cur ?m3] find_level_step(2) by (simp add: numeral_3_eq_3)
  ultimately show ?thesis
    by (simp only: masks or_mask_eq_iff_div same_def)
qed

text \<open>So \<open>add_node\<close> appends to the slot of the node and changes nothing else.\<close>

fun put :: "timer_node \<Rightarrow> slot \<Rightarrow> timer \<Rightarrow> timer" where
  "put n (Near j) T = T\<lparr>near := (near T)(j := near T j @ [n])\<rparr>"
| "put n (Level i j) T = T\<lparr>t := (t T)(i := (t T i)(j := t T i j @ [n]))\<rparr>"

lemma add_node_put: "add_node n T = put n (node_slot n (time T)) T"
proof -
  have near: "expire n OR TIME_NEAR_MASK = time T OR TIME_NEAR_MASK \<longleftrightarrow>
      same 8 (unat (expire n)) (unat (time T))"
    by (simp only: masks or_mask_eq_iff_div same_def)
  have idx: "unat (expire n AND TIME_NEAR_MASK) = unat (expire n) mod 2 ^ 8"
    "unat (drop_bit k (expire n) AND TIME_LEVEL_MASK) = unat (expire n) div 2 ^ k mod 2 ^ 6" for k
    by (simp_all only: masks unat_and_mask unat_drop_bit_div)
  show ?thesis
    unfolding add_node_def Let_def near idx find_level_eq slot_of_def link_def
    unfolding TIME_NEAR_SHIFT_def TIME_LEVEL_SHIFT_def
    by (simp split: if_split)
qed

lemma get_put: "get (put n s' T) s = (if s = s' then get T s @ [n] else get T s)"
  by (cases s; cases s') auto

lemma get_add_node:
  "get (add_node n T) s =
     (if s = node_slot n (time T) then get T s @ [n] else get T s)"
  by (simp only: add_node_put get_put)

lemma time_add_node [simp]: "time (add_node n T) = time T"
  by (simp add: add_node_def Let_def)

lemma fold_add_node:
  "time (fold add_node ns T) = time T \<and>
   get (fold add_node ns T) s = get T s @ filter (\<lambda>n. s = node_slot n (time T)) ns"
  by (induction ns arbitrary: T) (auto simp: get_add_node)

lemma time_move_list [simp]: "time (move_list i j T) = time T"
  using fold_add_node by (simp add: move_list_def)

lemma get_move_list:
  "get (move_list i j T) s =
     (if s = Level i j then [] else get T s) @
     filter (\<lambda>n. s = node_slot n (time T)) (get T (Level i j))"
proof -
  let ?T = "T\<lparr>t := (t T)(i := (t T i)(j := []))\<rparr>"
  have "get ?T s = (if s = Level i j then [] else get T s)"
    by (cases s) auto
  then show ?thesis
    by (simp only: move_list_def fold_add_node get.simps) simp
qed

subsection \<open>The arithmetic of a cascade\<close>

text \<open>A pending node expires after now and less than \<open>2^31\<close> ticks away, in wrapping arithmetic.\<close>

definition ahead :: "nat \<Rightarrow> nat \<Rightarrow> bool" where
  "ahead e c \<longleftrightarrow> e < 2 ^ 32 \<and> c < 2 ^ 32 \<and>
     (c < e \<and> e < c + 2 ^ 31 \<or> e < c \<and> e + 2 ^ 31 < c)"

definition next_time :: "nat \<Rightarrow> nat" where
  "next_time c = (if c = 2 ^ 32 - 1 then 0 else c + 1)"

text \<open>The list \<open>timer_shift\<close> moves when the new time is \<open>c\<close>, if it moves one.\<close>

definition moved_slot :: "nat \<Rightarrow> slot option" where
  "moved_slot c =
     (if c mod 2 ^ 8 \<noteq> 0 then None
      else if c div 2 ^ 8 mod 2 ^ 6 \<noteq> 0 then Some (Level 0 (c div 2 ^ 8 mod 2 ^ 6))
      else if c div 2 ^ 14 mod 2 ^ 6 \<noteq> 0 then Some (Level 1 (c div 2 ^ 14 mod 2 ^ 6))
      else if c div 2 ^ 20 mod 2 ^ 6 \<noteq> 0 then Some (Level 2 (c div 2 ^ 20 mod 2 ^ 6))
      else Some (Level 3 (c div 2 ^ 26 mod 2 ^ 6)))"

lemma block_end:
  assumes "k \<le> 26" and "ahead e c" and "next_time c mod 2 ^ k = 0"
  shows "\<not> same k e c"
proof
  assume s: "same k e c"
  have k: "(2::nat) ^ k \<le> 2 ^ 26" using assms(1) by (intro power_increasing) auto
  have kd: "(2::nat) ^ k dvd 2 ^ 32" using assms(1) by (intro le_imp_power_dvd) auto
  have "Suc c mod 2 ^ k = 0"
    using assms(3) kd by (auto simp: next_time_def split: if_splits)
  then have c: "c mod 2 ^ k = 2 ^ k - 1"
    by (simp add: mod_Suc split: if_splits)
  have e: "e = 2 ^ k * (c div 2 ^ k) + e mod 2 ^ k"
    using s by (metis same_def mult_div_mod_eq)
  have c': "c = 2 ^ k * (c div 2 ^ k) + (2 ^ k - 1)" using c by (metis mult_div_mod_eq)
  have m: "e mod 2 ^ k < 2 ^ k" by simp
  have "e \<le> c" "c < e + 2 ^ k" using e c' m by linarith+
  with assms(2) k show False by (auto simp: ahead_def)
qed

lemma same_next:
  assumes "c < 2 ^ 32" and "next_time c mod 2 ^ k \<noteq> 0"
  shows "same k e (next_time c) \<longleftrightarrow> same k e c"
proof -
  have "next_time c = Suc c" using assms(2) by (auto simp: next_time_def)
  then show ?thesis using assms(2) by (simp add: same_def div_Suc)
qed

lemma mod_higher: "(c::nat) mod 2 ^ k \<noteq> 0 \<Longrightarrow> k \<le> k' \<Longrightarrow> c mod 2 ^ k' \<noteq> 0"
proof -
  assume a: "c mod 2 ^ k \<noteq> 0" "k \<le> k'"
  have "(2::nat) ^ k dvd 2 ^ k'" using a(2) by (rule le_imp_power_dvd)
  from dvd_trans [OF this, of c] a(1) show ?thesis by (auto simp only: mod_eq_0_iff_dvd)
qed

lemma eq_iff_mod_eq: "(x::nat) div m = y div m \<Longrightarrow> x = y \<longleftrightarrow> x mod m = y mod m"
  by (metis div_mult_mod_eq)

lemma same_step:
  "same (k + 6) e c \<Longrightarrow> same k e c \<longleftrightarrow> e div 2 ^ k mod 2 ^ 6 = c div 2 ^ k mod 2 ^ 6"
proof -
  assume "same (k + 6) e c"
  then have "e div 2 ^ k div 2 ^ 6 = c div 2 ^ k div 2 ^ 6"
    by (simp only: same_def power_add div_mult2_eq)
  then show ?thesis
    unfolding same_def by (rule eq_iff_mod_eq)
qed

lemma mod_step: "(c::nat) mod 2 ^ (k + 6) = 0 \<longleftrightarrow> c mod 2 ^ k = 0 \<and> c div 2 ^ k mod 2 ^ 6 = 0"
  by (auto simp: power_add mod_mult2_eq)

lemma next_time_lt: "c < 2 ^ 32 \<Longrightarrow> next_time c < 2 ^ 32"
  by (auto simp: next_time_def)

text \<open>One level of the cascade: below it every list is empty before the shift, above it nothing
  moves, and in it exactly the list of the new time does.\<close>

definition lower_empty :: "nat \<Rightarrow> nat \<Rightarrow> bool" where
  "lower_empty k c \<longleftrightarrow> (\<forall>k'\<le>k. \<forall>e. ahead e c \<longrightarrow> \<not> same k' e c)"

lemma lower_emptyI: "next_time c mod 2 ^ k = 0 \<Longrightarrow> k \<le> 26 \<Longrightarrow> lower_empty k c"
  unfolding lower_empty_def
proof (intro allI impI)
  fix k' e assume a: "next_time c mod 2 ^ k = 0" "k \<le> 26" "k' \<le> k" "ahead e c"
  have "next_time c mod 2 ^ k' = 0" using mod_higher [of "next_time c" k' k] a(1,3) by blast
  with a show "\<not> same k' e c" by (intro block_end) auto
qed

lemma moved_cases:
  assumes "moved_slot c = Some m"
  obtains
    "m = Level 0 (c div 2 ^ 8 mod 2 ^ 6)" "c mod 2 ^ 8 = 0" "c mod 2 ^ 14 \<noteq> 0"
  | "m = Level 1 (c div 2 ^ 14 mod 2 ^ 6)" "c mod 2 ^ 14 = 0" "c mod 2 ^ 20 \<noteq> 0"
  | "m = Level 2 (c div 2 ^ 20 mod 2 ^ 6)" "c mod 2 ^ 20 = 0" "c mod 2 ^ 26 \<noteq> 0"
  | "m = Level 3 (c div 2 ^ 26 mod 2 ^ 6)" "c mod 2 ^ 26 = 0"
proof -
  have s: "c mod 2 ^ 14 = 0 \<longleftrightarrow> c mod 2 ^ 8 = 0 \<and> c div 2 ^ 8 mod 2 ^ 6 = 0"
    "c mod 2 ^ 20 = 0 \<longleftrightarrow> c mod 2 ^ 14 = 0 \<and> c div 2 ^ 14 mod 2 ^ 6 = 0"
    "c mod 2 ^ 26 = 0 \<longleftrightarrow> c mod 2 ^ 20 = 0 \<and> c div 2 ^ 20 mod 2 ^ 6 = 0"
    using mod_step [of c 8] mod_step [of c 14] mod_step [of c 20] by simp_all
  note m = assms [unfolded moved_slot_def]
  have c8: "c mod 2 ^ 8 = 0" using m by (simp split: if_splits)
  consider "c mod 2 ^ 14 \<noteq> 0" | "c mod 2 ^ 14 = 0" "c mod 2 ^ 20 \<noteq> 0"
    | "c mod 2 ^ 20 = 0" "c mod 2 ^ 26 \<noteq> 0" | "c mod 2 ^ 26 = 0" by blast
  then show thesis
  proof cases
    case 1
    with m c8 have "m = Level 0 (c div 2 ^ 8 mod 2 ^ 6)" unfolding s by simp
    then show thesis by (rule that(1) [OF _ c8 1])
  next
    case 2
    with m c8 have "m = Level 1 (c div 2 ^ 14 mod 2 ^ 6)" unfolding s by simp
    then show thesis by (rule that(2) [OF _ 2])
  next
    case 3
    with m c8 have "m = Level 2 (c div 2 ^ 20 mod 2 ^ 6)" unfolding s by simp
    then show thesis by (rule that(3) [OF _ 3])
  next
    case 4
    with m c8 have "m = Level 3 (c div 2 ^ 26 mod 2 ^ 6)" unfolding s by simp
    then show thesis by (rule that(4) [OF _ 4])
  qed
qed

text \<open>If the node is in the moved list it goes to a level below, else it stays.\<close>

lemma slot_shift:
  assumes m: "moved_slot (next_time c) = Some m" and a: "ahead e c"
  shows "slot_of e c \<noteq> m \<Longrightarrow> slot_of e (next_time c) = slot_of e c"
    and "slot_of e c = m \<Longrightarrow> ahead e' c \<Longrightarrow> slot_of e' c \<noteq> slot_of e (next_time c)"
    and "slot_of e c = m \<Longrightarrow> slot_of e (next_time c) \<noteq> m"
proof -
  have lt: "c < 2 ^ 32" "e < 2 ^ 32" "next_time c < 2 ^ 32"
    using a next_time_lt by (auto simp: ahead_def)
  have s32: "same 32 e (next_time c)" using lt by (simp add: same_def)
  note sn = same_next [OF lt(1)]
  note mono = same_mono [of _ e "next_time c"]
  have "(slot_of e c \<noteq> m \<longrightarrow> slot_of e (next_time c) = slot_of e c) \<and>
    (slot_of e c = m \<longrightarrow> ahead e' c \<longrightarrow> slot_of e' c \<noteq> slot_of e (next_time c)) \<and>
    (slot_of e c = m \<longrightarrow> slot_of e (next_time c) \<noteq> m)" for e'
    using m
  proof (cases rule: moved_cases)
    case 1
    have le: "\<not> same 8 x c" if "ahead x c" for x
      using lower_emptyI [OF 1(2)] that by (simp add: lower_empty_def)
    have up: "same 14 e (next_time c) = same 14 e c" "same 20 e (next_time c) = same 20 e c"
      "same 26 e (next_time c) = same 26 e c"
      by (rule sn, rule mod_higher [OF 1(3)], simp)+
    show ?thesis
    proof (cases "same 14 e c")
      case True
      with up(1) have "same 8 e (next_time c) \<longleftrightarrow> e div 2 ^ 8 mod 2 ^ 6 = next_time c div 2 ^ 8 mod 2 ^ 6"
        using same_step [of 8 e "next_time c"] by simp
      with True up le [OF a] le [of e'] show ?thesis
        unfolding 1(1) slot_of_def by (simp split: if_split)
    next
      case False
      with up(1) mono [of 8 14] have "\<not> same 8 e (next_time c)" by auto
      with False up le [OF a] show ?thesis
        unfolding 1(1) slot_of_def by (simp split: if_split)
    qed
  next
    case 2
    have le: "\<not> same 8 x c" "\<not> same 14 x c" if "ahead x c" for x
      using lower_emptyI [OF 2(2)] that by (simp_all add: lower_empty_def)
    have up: "same 20 e (next_time c) = same 20 e c"
      "same 26 e (next_time c) = same 26 e c"
      by (rule sn, rule mod_higher [OF 2(3)], simp)+
    show ?thesis
    proof (cases "same 20 e c")
      case True
      with up(1) have "same 14 e (next_time c) \<longleftrightarrow> e div 2 ^ 14 mod 2 ^ 6 = next_time c div 2 ^ 14 mod 2 ^ 6"
        using same_step [of 14 e "next_time c"] by simp
      with True up le [OF a] le [of e'] mono [of 8 14] show ?thesis
        unfolding 2(1) slot_of_def by (simp split: if_split)
    next
      case False
      with up(1) mono [of 8 20] mono [of 14 20]
      have "\<not> same 8 e (next_time c)" "\<not> same 14 e (next_time c)" by auto
      with False up le [OF a] show ?thesis
        unfolding 2(1) slot_of_def by (simp split: if_split)
    qed
  next
    case 3
    have le: "\<not> same 8 x c" "\<not> same 14 x c" "\<not> same 20 x c" if "ahead x c" for x
      using lower_emptyI [OF 3(2)] that by (simp_all add: lower_empty_def)
    have up: "same 26 e (next_time c) = same 26 e c"
      by (rule sn [OF 3(3)])
    show ?thesis
    proof (cases "same 26 e c")
      case True
      with up have "same 20 e (next_time c) \<longleftrightarrow> e div 2 ^ 20 mod 2 ^ 6 = next_time c div 2 ^ 20 mod 2 ^ 6"
        using same_step [of 20 e "next_time c"] by simp
      with True up le [OF a] le [of e'] mono [of 8 20] mono [of 14 20] show ?thesis
        unfolding 3(1) slot_of_def by (simp split: if_split)
    next
      case False
      with up mono [of 8 26] mono [of 14 26] mono [of 20 26]
      have "\<not> same 8 e (next_time c)" "\<not> same 14 e (next_time c)" "\<not> same 20 e (next_time c)"
        by auto
      with False up le [OF a] show ?thesis
        unfolding 3(1) slot_of_def by (simp split: if_split)
    qed
  next
    case 4
    have le: "\<not> same 8 x c" "\<not> same 14 x c" "\<not> same 20 x c" "\<not> same 26 x c"
      if "ahead x c" for x
      using lower_emptyI [OF 4(2)] that by (simp_all add: lower_empty_def)
    have "same 26 e (next_time c) \<longleftrightarrow> e div 2 ^ 26 mod 2 ^ 6 = next_time c div 2 ^ 26 mod 2 ^ 6"
      using s32 same_step [of 26 e "next_time c"] by simp
    with le [OF a] le [of e'] mono [of 8 26] mono [of 14 26] mono [of 20 26] show ?thesis
      unfolding 4(1) slot_of_def by (simp split: if_split)
  qed
  then show "slot_of e c \<noteq> m \<Longrightarrow> slot_of e (next_time c) = slot_of e c"
    and "slot_of e c = m \<Longrightarrow> ahead e' c \<Longrightarrow> slot_of e' c \<noteq> slot_of e (next_time c)"
    and "slot_of e c = m \<Longrightarrow> slot_of e (next_time c) \<noteq> m"
    by blast+
qed

lemma slot_no_shift:
  assumes "moved_slot (next_time c) = None" and "ahead e c"
  shows "slot_of e (next_time c) = slot_of e c"
proof -
  have n: "next_time c mod 2 ^ 8 \<noteq> 0" using assms(1) by (simp add: moved_slot_def split: if_splits)
  have c: "c < 2 ^ 32" using assms(2) by (simp add: ahead_def)
  have "same k e (next_time c) = same k e c" if "8 \<le> k" for k
    by (rule same_next [OF c mod_higher [OF n that]])
  then show ?thesis by (simp add: slot_of_def)
qed

subsection \<open>The wheel as a list of pending nodes\<close>

text \<open>\<open>wheel T N\<close>: \<open>N\<close> lists the pending nodes in the order they were added, and every list of the
  wheel is the part of \<open>N\<close> that belongs there, in the same order.\<close>

definition pending_ok :: "u32 \<Rightarrow> timer_node \<Rightarrow> bool" where
  "pending_ok c n \<longleftrightarrow> ahead (unat (expire n)) (unat c)"

definition slotted :: "timer \<Rightarrow> timer_node list \<Rightarrow> bool" where
  "slotted T N \<longleftrightarrow> (\<forall>s. get T s = filter (\<lambda>n. node_slot n (time T) = s) N)"

definition wheel :: "timer \<Rightarrow> timer_node list \<Rightarrow> bool" where
  "wheel T N \<longleftrightarrow> slotted T N \<and> (\<forall>n\<in>set N. pending_ok (time T) n)"

lemma wheel_init: "wheel timer_create_timer []"
proof -
  have "get timer_create_timer s = []" for s
    by (cases s) (simp_all add: timer_create_timer_def)
  then show ?thesis by (simp add: wheel_def slotted_def)
qed

lemma slotted_add: "slotted T N \<Longrightarrow> slotted (add_node n T) (N @ [n])"
  by (auto simp: slotted_def get_add_node)

lemma slot_now: "slot_of e c = Near (c mod 2 ^ 8) \<longleftrightarrow> e = c"
proof -
  have "e div 2 ^ 8 = c div 2 ^ 8 \<Longrightarrow> e = c \<longleftrightarrow> e mod 2 ^ 8 = c mod 2 ^ 8"
    by (rule eq_iff_mod_eq)
  then show ?thesis by (auto simp: slot_of_def same_def)
qed

lemma unat_next: "unat (c + 1 :: u32) = next_time (unat c)"
proof (cases "unat c = 2 ^ 32 - 1")
  case True
  have "c = of_nat (2 ^ 32 - 1)" using arg_cong [OF True, of "of_nat :: nat \<Rightarrow> u32"] by simp
  then show ?thesis by (simp add: next_time_def)
next
  case False
  moreover have "unat c < 2 ^ 32" using unat_bound [of c] by simp
  ultimately have "unat c + 1 < 2 ^ 32" by linarith
  with False show ?thesis by (simp add: next_time_def unat_word_ariths)
qed

lemma shift_loop_eq:
  assumes "ct \<noteq> 0"
  shows "shift_loop ct (drop_bit TIME_NEAR_SHIFT ct) TIME_NEAR 0 T =
    Some (case moved_slot (unat ct) of Some (Level i j) \<Rightarrow> move_list i j T | _ \<Rightarrow> T)"
proof -
  let ?u = "unat ct"
  let ?m2 = "push_bit TIME_LEVEL_SHIFT TIME_NEAR"
  let ?m3 = "push_bit TIME_LEVEL_SHIFT ?m2" and ?m4 = "push_bit TIME_LEVEL_SHIFT (push_bit TIME_LEVEL_SHIFT ?m2)"
  have db: "drop_bit TIME_LEVEL_SHIFT (drop_bit k ct) = drop_bit (k + 6) ct" for k
    by (simp add: TIME_LEVEL_SHIFT_def add.commute)
  have idx: "unat (drop_bit k ct AND TIME_LEVEL_MASK) = ?u div 2 ^ k mod 2 ^ 6" for k
    by (simp only: masks unat_and_mask unat_drop_bit_div)
  have nz: "drop_bit k ct AND TIME_LEVEL_MASK = 0 \<longleftrightarrow> ?u div 2 ^ k mod 2 ^ 6 = 0" for k
    by (simp only: masks and_mask_zero unat_drop_bit_div)
  have step: "shift_loop ct (drop_bit k ct) m i T =
      (if ?u mod 2 ^ k = 0
       then if ?u div 2 ^ k mod 2 ^ 6 \<noteq> 0 then Some (move_list i (?u div 2 ^ k mod 2 ^ 6) T)
            else shift_loop ct (drop_bit k' ct) (push_bit TIME_LEVEL_SHIFT m) i' T
       else Some T)" if "m - 1 = mask k" "k' = k + 6" "i' = Suc i" for k m i k' i'
    unfolding that(2,3) by (subst shift_loop.simps) (simp only: that(1) and_mask_zero nz idx db)
  have s1: "?u mod 2 ^ 14 = 0 \<longleftrightarrow> ?u mod 2 ^ 8 = 0 \<and> ?u div 2 ^ 8 mod 2 ^ 6 = 0"
    and s2: "?u mod 2 ^ 20 = 0 \<longleftrightarrow> ?u mod 2 ^ 14 = 0 \<and> ?u div 2 ^ 14 mod 2 ^ 6 = 0"
    and s3: "?u mod 2 ^ 26 = 0 \<longleftrightarrow> ?u mod 2 ^ 20 = 0 \<and> ?u div 2 ^ 20 mod 2 ^ 6 = 0"
    and s4: "?u mod 2 ^ 32 = 0 \<longleftrightarrow> ?u mod 2 ^ 26 = 0 \<and> ?u div 2 ^ 26 mod 2 ^ 6 = 0"
    using mod_step [of ?u 8] mod_step [of ?u 14] mod_step [of ?u 20] mod_step [of ?u 26] by simp_all
  have "?u < 2 ^ 32" "?u \<noteq> 0" using unat_bound [of ct] assms by (simp_all add: unat_eq_zero)
  then have "?u mod 2 ^ 32 \<noteq> 0" by simp
  note u = this [unfolded s4 s3 s2 s1]
  have l: "(14::nat) = 8 + 6" "(20::nat) = 14 + 6" "(26::nat) = 20 + 6" "(32::nat) = 26 + 6"
    "(1::nat) = Suc 0" "(2::nat) = Suc 1" "(3::nat) = Suc 2" "(4::nat) = Suc 3" by simp_all
  note l0 = step [OF masks(3) l(1) l(5)] and l1 = step [OF masks(4) l(2) l(6)]
    and l2 = step [OF masks(5) l(3) l(7)] and l3 = step [OF masks(6) l(4) l(8)]
  note ls = l0 l1 l2 l3 s1 s2 s3 simp_thms if_True if_False option.case slot.case
  show ?thesis
    using u unfolding moved_slot_def TIME_NEAR_SHIFT_def
    by (cases "?u mod 2 ^ 8 = 0"; cases "?u div 2 ^ 8 mod 2 ^ 6 = 0"; cases "?u div 2 ^ 14 mod 2 ^ 6 = 0";
        cases "?u div 2 ^ 20 mod 2 ^ 6 = 0"; cases "?u div 2 ^ 26 mod 2 ^ 6 = 0"; simp only: ls)
qed

lemma timer_shift_eq:
  "timer_shift T =
     (let T' = T\<lparr>time := time T + 1\<rparr> in
      Some (case moved_slot (unat (time T + 1)) of Some (Level i j) \<Rightarrow> move_list i j T' | _ \<Rightarrow> T'))"
proof (cases "time T + 1 = 0")
  case True
  then have "moved_slot (unat (time T + 1)) = Some (Level 3 0)" by (simp add: moved_slot_def)
  with True show ?thesis by (simp add: timer_shift_def)
next
  case False
  then show ?thesis by (simp add: timer_shift_def shift_loop_eq Let_def)
qed

lemma moved_slot_Level: "moved_slot c \<noteq> Some (Near j)"
  by (simp add: moved_slot_def)

lemma get_time [simp]: "get (T\<lparr>time := c\<rparr>) s = get T s"
  by (cases s) simp_all

text \<open>Moving one list: what stays, what the moved list leaves behind.\<close>

lemma filter_move:
  assumes stay: "\<And>n. n \<in> set N \<Longrightarrow> f n \<noteq> m \<Longrightarrow> g n = f n"
    and empty: "\<And>n n'. n \<in> set N \<Longrightarrow> n' \<in> set N \<Longrightarrow> f n = m \<Longrightarrow> f n' \<noteq> g n"
    and leave: "\<And>n. n \<in> set N \<Longrightarrow> f n = m \<Longrightarrow> g n \<noteq> m"
  shows "(if s = m then [] else filter (\<lambda>n. f n = s) N) @
      filter (\<lambda>n. s = g n) (filter (\<lambda>n. f n = m) N) = filter (\<lambda>n. g n = s) N"
proof (cases "s = m")
  case True
  have ne: "g n \<noteq> s" if "n \<in> set N" for n
    unfolding True by (cases "f n = m") (use stay leave that in auto)
  have "filter (\<lambda>n. g n = s) N = []" "filter (\<lambda>n. s = g n) (filter (\<lambda>n. f n = m) N) = []"
    using ne by (auto simp only: filter_empty_conv set_filter mem_Collect_eq)
  then show ?thesis unfolding if_P [OF True] by (simp only: append_Nil)
next
  case False
  show ?thesis
  proof (cases "\<exists>n\<in>set N. f n = m \<and> g n = s")
    case True
    then obtain n where n: "n \<in> set N" "f n = m" "g n = s" by blast
    have emp: "\<forall>n\<in>set N. f n \<noteq> s"
      using empty [OF n(1) _ n(2)] n(3) by simp
    have m: "f n = m" if "n \<in> set N" "g n = s" for n
      using stay emp that by metis
    have "filter (\<lambda>n. f n = m \<and> s = g n) N = filter (\<lambda>n. g n = s) N"
      by (intro filter_cong) (auto simp: m)
    moreover have "filter (\<lambda>n. f n = s) N = []"
      using emp by (simp only: filter_empty_conv)
    ultimately show ?thesis using False by simp
  next
    case none: False
    have eq: "(f n = s) = (g n = s)" if "n \<in> set N" for n
      using stay none False that by metis
    have "filter (\<lambda>n. f n = s) N = filter (\<lambda>n. g n = s) N"
      by (intro filter_cong) (auto simp: eq)
    moreover have "filter (\<lambda>n. f n = m \<and> s = g n) N = []"
      using none by (auto simp: filter_empty_conv)
    ultimately show ?thesis using False by simp
  qed
qed
text \<open>The cascade keeps every list in place.\<close>

lemma moved_slotted:
  assumes w: "wheel T N" and m: "moved_slot (next_time (unat (time T))) = Some (Level i j)"
  shows "slotted (move_list i j (T\<lparr>time := time T + 1\<rparr>)) N"
proof -
  have tm: "time (T\<lparr>time := c\<rparr>) = c" for c by simp
  have g: "get T s = filter (\<lambda>n. node_slot n (time T) = s) N" for s
    using w by (simp add: wheel_def slotted_def)
  have a: "n \<in> set N \<Longrightarrow> ahead (unat (expire n)) (unat (time T))" for n
    using w by (simp add: wheel_def pending_ok_def)
  note sh = slot_shift [OF m a]
  have n: "node_slot n (time T + 1) = slot_of (unat (expire n)) (next_time (unat (time T)))" for n
    by (simp only: unat_next)
  show ?thesis
    unfolding slotted_def get_move_list get_time time_move_list tm n g
    by (intro allI filter_move sh(1) sh(2) [OF _ _ a] sh(3))
qed

lemma timer_shift_slotted:
  assumes "wheel T N"
  shows "\<exists>T'. timer_shift T = Some T' \<and> time T' = time T + 1 \<and> slotted T' N"
proof -
  let ?T = "T\<lparr>time := time T + 1\<rparr>"
  consider "moved_slot (next_time (unat (time T))) = None"
    | i j where "moved_slot (next_time (unat (time T))) = Some (Level i j)"
    using moved_slot_Level by (metis not_Some_eq slot.exhaust)
  then show ?thesis
  proof cases
    case 1
    have "slotted ?T N"
      using assms slot_no_shift [OF 1]
      by (auto simp: wheel_def slotted_def pending_ok_def unat_next intro!: filter_cong)
    with 1 show ?thesis by (simp add: timer_shift_eq unat_next Let_def)
  next
    case 2
    with moved_slotted [OF assms 2] show ?thesis by (simp add: timer_shift_eq unat_next Let_def)
  qed
qed

lemma timer_execute_eq:
  "timer_execute T =
     (let idx = unat (time T) mod 2 ^ 8 in
      (dispatch_list (near T idx), T\<lparr>near := (near T)(idx := [])\<rparr>))"
proof (cases "near T (unat (time T) mod 2 ^ 8) = []")
  case True
  then have "(near T)(unat (time T) mod 2 ^ 8 := []) = near T" by auto
  with True show ?thesis
    by (subst timer_execute.simps) (simp add: masks unat_and_mask Let_def dispatch_list_def)
next
  case False
  then show ?thesis
    by (subst timer_execute.simps, subst timer_execute.simps)
      (simp add: masks unat_and_mask Let_def)
qed

subsection \<open>One tick\<close>

lemma ahead_next:
  "ahead e c \<Longrightarrow> e \<noteq> next_time c \<Longrightarrow> ahead e (next_time c)"
  by (auto simp: ahead_def next_time_def)

lemma get_clear: "get (T\<lparr>near := (near T)(j := [])\<rparr>) s = (if s = Near j then [] else get T s)"
  by (cases s) auto

lemma slotted_execute:
  assumes "slotted T N"
  shows "timer_execute T =
      (dispatch_list (filter (\<lambda>n. expire n = time T) N), snd (timer_execute T))"
    and "slotted (snd (timer_execute T)) (filter (\<lambda>n. expire n \<noteq> time T) N)"
    and "time (snd (timer_execute T)) = time T"
proof -
  have now: "node_slot n (time T) = Near (unat (time T) mod 2 ^ 8) \<longleftrightarrow> expire n = time T" for n
    by (simp only: slot_now word_unat_eq_iff)
  have g: "get T s = filter (\<lambda>n. node_slot n (time T) = s) N" for s
    using assms by (simp add: slotted_def)
  have "near T (unat (time T) mod 2 ^ 8) = filter (\<lambda>n. expire n = time T) N"
    using g [of "Near (unat (time T) mod 2 ^ 8)"] by (simp only: now get.simps)
  then show "timer_execute T =
      (dispatch_list (filter (\<lambda>n. expire n = time T) N), snd (timer_execute T))"
    by (simp only: timer_execute_eq Let_def snd_conv)
  show "slotted (snd (timer_execute T)) (filter (\<lambda>n. expire n \<noteq> time T) N)"
    unfolding slotted_def timer_execute_eq Let_def snd_conv get_clear g
    by (auto simp: filter_empty_conv simp del: power_numeral intro!: filter_cong simp flip: now)
  show "time (snd (timer_execute T)) = time T"
    by (simp add: timer_execute_eq Let_def)
qed

lemma pending_not_now: "pending_ok c n \<Longrightarrow> expire n \<noteq> c"
  by (auto simp: pending_ok_def ahead_def)

lemma tick_wheel:
  assumes "wheel T N"
  shows "\<exists>T'. timer_update T =
      Some (dispatch_list (filter (\<lambda>n. expire n = time T + 1) N), T') \<and>
    time T' = time T + 1 \<and> wheel T' (filter (\<lambda>n. expire n \<noteq> time T + 1) N)"
proof -
  have sl: "slotted T N" and p: "\<And>n. n \<in> set N \<Longrightarrow> pending_ok (time T) n"
    using assms by (simp_all add: wheel_def)
  let ?T1 = "snd (timer_execute T)"
  have none: "filter (\<lambda>n. expire n = time T) N = []" "filter (\<lambda>n. expire n \<noteq> time T) N = N"
    using p pending_not_now by (auto simp: filter_empty_conv filter_id_conv)
  have e1: "timer_execute T = ([], ?T1)"
    using slotted_execute(1) [OF sl] unfolding none dispatch_list_def by simp
  have w1: "wheel ?T1 N" and t1: "time ?T1 = time T"
    using slotted_execute(2,3) [OF sl] p unfolding none by (auto simp: wheel_def)
  from timer_shift_slotted [OF w1] t1 obtain T2 where
    T2: "timer_shift ?T1 = Some T2" "time T2 = time T + 1" "slotted T2 N" by auto
  note ex = slotted_execute [OF T2(3), unfolded T2(2)]
  have "wheel (snd (timer_execute T2)) (filter (\<lambda>n. expire n \<noteq> time T + 1) N)"
    using ex(2,3) p ahead_next by (auto simp: wheel_def pending_ok_def unat_next word_unat_eq_iff)
  moreover have "timer_update T = Some (dispatch_list (filter (\<lambda>n. expire n = time T + 1) N),
      snd (timer_execute T2))"
    unfolding timer_update_def by (subst e1, simp add: T2(1), subst ex(1), simp)
  ultimately show ?thesis using ex(3) by blast
qed

subsection \<open>The calendar interface\<close>

lemma ahead_add:
  assumes "0 < unat d" and "unat d < 2 ^ 31"
  shows "ahead (unat (d + c :: u32)) (unat c)"
  using assms unat_bound [of c] by (auto simp: ahead_def unat_word_ariths mod_if)

lemma wheel_add:
  assumes "wheel T N" and "0 < unat d" and "unat d < 2 ^ 31"
  shows "wheel (timer_add e d T) (N @ [\<lparr>expire = d + time T, event = e\<rparr>])"
  using assms slotted_add ahead_add by (auto simp: wheel_def timer_add_def pending_ok_def)

definition node_in :: "u32 \<Rightarrow> nat \<times> timer_event \<Rightarrow> timer_node" where
  "node_in c p = \<lparr>expire = of_nat (fst p) + c, event = snd p\<rparr>"

definition cal_rel :: "timer \<Rightarrow> (nat \<times> timer_event) list \<Rightarrow> bool" where
  "cal_rel T P \<longleftrightarrow> wheel T (map (node_in (time T)) P) \<and> (\<forall>p\<in>set P. 0 < fst p \<and> fst p < 2 ^ 31)"

definition cal_add :: "nat \<Rightarrow> timer_event \<Rightarrow> timer \<Rightarrow> timer" where
  "cal_add d e T = timer_add e (of_nat d) T"

lemma unat_delay: "d < 2 ^ 31 \<Longrightarrow> unat (of_nat d :: u32) = d"
  by (simp add: unat_of_nat)

lemma node_in_due:
  "0 < fst p \<Longrightarrow> fst p < 2 ^ 31 \<Longrightarrow> expire (node_in c p) = c + 1 \<longleftrightarrow> fst p = 1"
  using unat_delay [of "fst p"] by (auto simp: node_in_def add.commute [of c])

lemma node_in_step: "0 < fst p \<Longrightarrow> node_in (c + 1) (fst p - 1, snd p) = node_in c p"
  by (simp add: node_in_def of_nat_diff)

lemma cal_rel_tick:
  assumes "cal_rel T P"
  shows "\<exists>T'. timer_update T = Some (map push_of_event (cal_due P), T') \<and> cal_rel T' (cal_rest P)"
proof -
  let ?N = "map (node_in (time T)) P"
  have w: "wheel T ?N" and b: "\<And>p. p \<in> set P \<Longrightarrow> 0 < fst p \<and> fst p < 2 ^ 31"
    using assms by (simp_all add: cal_rel_def)
  note nd = node_in_due [OF b [THEN conjunct1] b [THEN conjunct2]]
  have f: "filter (\<lambda>n. expire n = time T + 1) ?N = map (node_in (time T)) (filter (\<lambda>p. fst p = 1) P)"
    and g: "filter (\<lambda>n. expire n \<noteq> time T + 1) ?N = map (node_in (time T)) (filter (\<lambda>p. fst p \<noteq> 1) P)"
    unfolding filter_map o_def using nd by (auto intro!: arg_cong [where f = "map _"] filter_cong)
  have due: "dispatch_list (map (node_in (time T)) (filter (\<lambda>p. fst p = 1) P)) =
      map push_of_event (cal_due P)"
    by (simp add: dispatch_list_def cal_due_def node_in_def)
  have rest: "map (node_in (time T)) (filter (\<lambda>p. fst p \<noteq> 1) P) = map (node_in (time T + 1)) (cal_rest P)"
    unfolding cal_rest_def map_map o_def
    by (intro map_cong refl node_in_step [symmetric]) (use b in auto)
  have "0 < fst p \<and> fst p < 2 ^ 31" if "p \<in> set (cal_rest P)" for p
    using that b by (fastforce simp: cal_rest_def)
  with tick_wheel [OF w, unfolded f g due rest] show ?thesis
    by (auto simp: cal_rel_def)
qed

interpretation wheel_cal: calendar cal_rel cal_add timer_update push_of_event "2 ^ 31"
proof unfold_locales
  fix T P and d :: nat and e assume "cal_rel T P" "0 < d" "d < 2 ^ 31"
  then show "cal_rel (cal_add d e T) (P @ [(d, e)])"
    using wheel_add [of T "map (node_in (time T)) P" "of_nat d" e]
    by (auto simp: cal_rel_def cal_add_def unat_delay timer_add_def node_in_def)
next
  fix T P assume "cal_rel T P"
  then show "\<exists>T'. timer_update T = Some (map push_of_event (cal_due P), T') \<and> cal_rel T' (cal_rest P)"
    by (rule cal_rel_tick)
next
  fix T P p assume "cal_rel T P" "p \<in> set P"
  then show "0 < fst p" by (simp add: cal_rel_def)
qed

lemma cal_rel_init: "cal_rel timer_create_timer []"
  by (simp add: cal_rel_def wheel_init)

lemma timer_updates_ticks: "timer_updates n T = wheel_cal.ticks n T"
  by (induction n arbitrary: T) simp_all


text \<open>The clock fields are the business of \<open>skynet_updatetime\<close> alone.\<close>

definition same_clock :: "timer \<Rightarrow> timer \<Rightarrow> bool" where
  "same_clock T T' \<longleftrightarrow> starttime T' = starttime T \<and> current T' = current T \<and>
     current_point T' = current_point T"

lemma same_clock_refl [simp]: "same_clock T T"
  by (simp add: same_clock_def)

lemma same_clock_trans: "same_clock T T' \<Longrightarrow> same_clock T' T'' \<Longrightarrow> same_clock T T''"
  by (simp add: same_clock_def)

lemma same_clock_fold: "same_clock T (fold add_node ns T)"
  by (induction ns arbitrary: T) (auto simp: same_clock_def add_node_def Let_def)

lemma same_clock_move: "same_clock T (move_list i j T)"
  using same_clock_fold by (fastforce simp: same_clock_def move_list_def)

lemma same_clock_tick: "timer_update T = Some (out, T') \<Longrightarrow> same_clock T T'"
  using same_clock_move
  by (fastforce simp: timer_update_def timer_execute_eq timer_shift_eq Let_def same_clock_def
      split: option.splits slot.splits)

lemma timer_updates_time:
  "timer_updates n T = Some (out, T') \<Longrightarrow> same_clock T T'"
proof (induction n arbitrary: T out)
  case (Suc n)
  then show ?case by (auto simp: bind_eq_Some_conv dest: same_clock_tick intro: same_clock_trans)
qed simp

lemma cal_rel_clock: "cal_rel (T\<lparr>current_point := p, current := c\<rparr>) P = cal_rel T P"
proof -
  have "get (T\<lparr>current_point := p, current := c\<rparr>) s = get T s" for s by (cases s) simp_all
  then show ?thesis by (simp add: cal_rel_def wheel_def slotted_def)
qed

subsection \<open>Properties\<close>

text \<open>Property C2. One call of \<open>timer_update\<close> on a timing wheel that holds the pending nodes \<open>N\<close>
  returns (the cascade loop stops), advances the tick counter by one, delivers exactly the nodes
  that expire at the new tick, in the order they were added, and keeps every other node, in the
  slot it belongs to; this covers every cascade and the wrap-around of the 32-bit counter.\<close>

theorem timer_update_refines:
  assumes "wheel T N"
  shows "\<exists>T'. timer_update T =
      Some (dispatch_list (filter (\<lambda>n. expire n = time T + 1) N), T') \<and>
    time T' = time T + 1 \<and> wheel T' (filter (\<lambda>n. expire n \<noteq> time T + 1) N)"
  using assms by (rule tick_wheel)

theorem timer_update_refines_witness:
  "\<exists>T'. timer_update (timer_add \<lparr>te_handle = 7, te_session = 3\<rparr> 1 timer_create_timer) =
      Some ([(7, timeout_message 3)], T') \<and> wheel T' []"
proof -
  let ?e = "\<lparr>te_handle = 7, te_session = 3\<rparr>"
  have t: "time (timer_add ?e 1 timer_create_timer) = 0" "time timer_create_timer = 0"
    by (simp_all add: timer_add_def timer_create_timer_def)
  have "wheel (timer_add ?e 1 timer_create_timer) ([] @ [\<lparr>expire = 1 + time timer_create_timer, event = ?e\<rparr>])"
    by (rule wheel_add [OF wheel_init]) simp_all
  from timer_update_refines [OF this] show ?thesis
    by (auto simp: t dispatch_list_def push_of_event_def)
qed

text \<open>A timeout of \<open>d > 0\<close> ticks requested from a wheel whose pending events are \<open>P\<close>
  (ticks left, event) returns its session at once and sends nothing; the ticks before the \<open>d\<close>-th
  deliver what they would deliver without it; the \<open>d\<close>-th tick delivers the events of \<open>P\<close> due then
  and, last, the response to the caller with its session; afterwards it is no longer pending.\<close>

theorem skynet_timeout_exact:
  assumes "cal_rel T P" and "0 < sint d"
  shows "\<exists>T0 T1 T2 T1'. skynet_timeout alive h d session T = (session, [], T0) \<and>
    timer_updates (unat d - 1) T0 =
      Some (map push_of_event (concat (map (\<lambda>k. due_at k P) [1..<unat d])), T1) \<and>
    timer_updates (unat d - 1) T =
      Some (map push_of_event (concat (map (\<lambda>k. due_at k P) [1..<unat d])), T1') \<and>
    timer_update T1 =
      Some (map push_of_event (due_at (unat d) P) @ [(h, timeout_message session)], T2) \<and>
    cal_rel T2 (left_after (unat d) P)"
proof -
  let ?e = "\<lparr>te_handle = h, te_session = session\<rparr>"
  obtain n where n: "unat d = Suc n" using sint_pos(1) [OF assms(2)] gr0_implies_Suc by blast
  have pos: "\<forall>p\<in>set P. 0 < fst p" using assms(1) by (simp add: cal_rel_def)
  have due: "cal_due (rest_after n P) = due_at (Suc n) P"
    using pos by (induction P) (auto simp: rest_after_eq left_after_def cal_due_def due_at_def)
  from wheel_cal.added_due [OF assms(1), of "unat d" ?e] sint_pos [OF assms(2)]
  obtain T1 T2 where T12: "timer_updates n (cal_add (unat d) ?e T) = Some (map push_of_event (due_within n P), T1)"
    "timer_update T1 = Some (map push_of_event (due_at (Suc n) P) @ [(h, timeout_message session)], T2)"
    "cal_rel T2 (rest_after (Suc n) P)"
    unfolding timer_updates_ticks n by (auto simp: due push_of_event_def)
  from wheel_cal.ticks_deliver [OF assms(1), of n] obtain T1' where
    "timer_updates n T = Some (map push_of_event (due_within n P), T1')"
    by (auto simp: timer_updates_ticks)
  moreover have "skynet_timeout alive h d session T = (session, [], cal_add (unat d) ?e T)"
    using assms(2) by (simp add: skynet_timeout_def cal_add_def)
  ultimately show ?thesis
    using T12 unfolding n due_within_eq [OF pos] rest_after_eq [OF pos] diff_Suc_1 by blast
qed

theorem skynet_timeout_exact_witness:
  "cal_rel timer_create_timer [] \<and> 0 < sint (300 :: i32) \<and>
   (\<exists>T0 T1 T2. skynet_timeout (\<lambda>_. True) 7 300 3 timer_create_timer = (3, [], T0) \<and>
    timer_updates 299 T0 = Some ([], T1) \<and>
    timer_update T1 = Some ([(7, timeout_message 3)], T2))"
  using skynet_timeout_exact [OF cal_rel_init, of 300 "\<lambda>_. True" 7 3] cal_rel_init
  by (auto simp: due_at_def map_replicate_const)

lemma skynet_updatetime_backwards:
  "cp < current_point T \<Longrightarrow> skynet_updatetime cp T = Some ([], T\<lparr>current_point := cp\<rparr>)"
  by (simp add: skynet_updatetime_def)

text \<open>When the monotonic clock has advanced by \<open>n < 2^32\<close> centiseconds since the last
  call, \<open>skynet_updatetime\<close> returns after delivering, tick by tick, everything that was due within
  those \<open>n\<close> ticks, keeps the rest with \<open>n\<close> ticks less to go, and moves both clocks by \<open>n\<close>.\<close>

theorem skynet_updatetime_delivers:
  assumes "cal_rel T P" and "current_point T \<le> cp"
    and "unat (cp - current_point T) = n" and "n < 2 ^ 32"
  shows "\<exists>T'. skynet_updatetime cp T =
      Some (map push_of_event (concat (map (\<lambda>k. due_at k P) [1..<Suc n])), T') \<and>
    cal_rel T' (left_after n P) \<and> current_point T' = cp \<and>
    current T' = current T + of_nat n"
proof -
  have pos: "\<forall>p\<in>set P. 0 < fst p" using assms(1) by (simp add: cal_rel_def)
  note eqs = due_within_eq [OF pos] rest_after_eq [OF pos]
  show ?thesis
  proof (cases "cp = current_point T")
    case True
    with assms have "n = 0" by simp
    with True assms(1) show ?thesis
      using eqs(2) [of 0] by (simp add: skynet_updatetime_def)
  next
    case False
    let ?T = "T\<lparr>current_point := cp, current := current T + of_nat n\<rparr>"
    let ?d = "ucast (cp - current_point T) :: u32"
    have d: "unat ?d = n"
      using assms(3,4) by (simp add: unsigned_ucast_eq take_bit_nat_eq_self)
    have "ucast ?d = (of_nat (unat ?d) :: u64)" by (rule of_nat_unat [symmetric])
    with d leD [OF assms(2)] False have "skynet_updatetime cp T = timer_updates n ?T"
      by (simp add: skynet_updatetime_def Let_def del: of_nat_unat)
    moreover have "cal_rel ?T P" using assms(1) by (simp only: cal_rel_clock)
    from wheel_cal.ticks_deliver [OF this, of n] obtain T' where
      T': "timer_updates n ?T = Some (map push_of_event (due_within n P), T')"
      "cal_rel T' (rest_after n P)"
      unfolding timer_updates_ticks by blast
    moreover have "current_point T' = cp" "current T' = current T + of_nat n"
      using timer_updates_time [OF T'(1)] by (simp_all add: same_clock_def)
    ultimately show ?thesis unfolding eqs by auto
  qed
qed

theorem skynet_updatetime_delivers_witness:
  "let T = cal_add 2 \<lparr>te_handle = 7, te_session = 3\<rparr> timer_create_timer in
   \<exists>T'. skynet_updatetime 5 T = Some ([(7, timeout_message 3)], T') \<and> current T' = 5"
proof -
  let ?e = "\<lparr>te_handle = 7, te_session = 3\<rparr>"
  let ?T = "cal_add 2 ?e timer_create_timer"
  have "cal_rel ?T [(2, ?e)]"
    using wheel_cal.rel_add [OF cal_rel_init, of 2 ?e] by simp
  moreover have "current_point ?T = 0" "current ?T = 0"
    by (simp_all add: cal_add_def timer_add_def add_node_def Let_def timer_create_timer_def)
  ultimately show ?thesis
    using skynet_updatetime_delivers [of ?T "[(2, ?e)]" 5 5]
    by (auto simp: due_at_def push_of_event_def upt_rec Let_def)
qed

end
