(* ===== verification/LinkedList.thy ===== *)
theory LinkedList
  imports Prelude
begin

section \<open>Null-terminated linked lists in a heap\<close>

text \<open>
  The code threads its structures through \<open>next\<close> pointers: the global queue of message queues, the
  chains of the id hash. \<open>lpath nxt p xs\<close> says that following \<open>nxt\<close> from \<open>p\<close> visits the nodes
  \<open>xs\<close> and ends at NULL. The lemmas are the pointer updates the code makes.
\<close>

fun lpath :: "(addr \<Rightarrow> ptr) \<Rightarrow> ptr \<Rightarrow> addr list \<Rightarrow> bool" where
  "lpath nxt p [] \<longleftrightarrow> p = None"
| "lpath nxt p (x # xs) \<longleftrightarrow> p = Some x \<and> lpath nxt (nxt x) xs"

lemma lpath_None [simp]: "lpath nxt None xs \<longleftrightarrow> xs = []"
  by (cases xs) auto

lemma lpath_Some: "lpath nxt (Some x) ys \<longleftrightarrow> (\<exists>xs. ys = x # xs \<and> lpath nxt (nxt x) xs)"
  by (cases ys) auto

lemma lpath_unique: "lpath nxt p xs \<Longrightarrow> lpath nxt p ys \<Longrightarrow> xs = ys"
  by (induction xs arbitrary: p ys) (auto simp: lpath_Some)

lemma lpath_upd [simp]: "x \<notin> set xs \<Longrightarrow> lpath (nxt(x := v)) p xs \<longleftrightarrow> lpath nxt p xs"
  by (induction xs arbitrary: p) auto

lemma lpath_cong: "(\<And>x. x \<in> set xs \<Longrightarrow> nxt x = nxt' x) \<Longrightarrow> lpath nxt p xs \<longleftrightarrow> lpath nxt' p xs"
  by (induction xs arbitrary: p) auto

lemma lpath_suffix: "lpath nxt p (xs @ y # ys) \<Longrightarrow> lpath nxt (Some y) (y # ys)"
  by (induction xs arbitrary: p) auto

lemma lpath_distinct: "lpath nxt p xs \<Longrightarrow> distinct xs"
proof (induction xs arbitrary: p)
  case (Cons x xs)
  have "x \<notin> set xs"
  proof
    assume "x \<in> set xs"
    then obtain us vs where xs: "xs = us @ x # vs" by (meson split_list)
    from Cons.prems have "lpath nxt (nxt x) xs" by simp
    then have "lpath nxt (Some x) (x # vs)" unfolding xs by (rule lpath_suffix)
    moreover have "lpath nxt (Some x) (x # xs)" using Cons.prems by simp
    ultimately have "x # vs = x # xs" by (rule lpath_unique)
    then show False by (simp add: xs)
  qed
  with Cons show ?case by auto
qed simp

text \<open>\<open>tail->next = q\<close>.\<close>

lemma lpath_snoc:
  "lpath nxt p (xs @ [t]) \<Longrightarrow> q \<notin> set (xs @ [t]) \<Longrightarrow> nxt q = None \<Longrightarrow>
   lpath (nxt(t := Some q)) p (xs @ [t, q])"
proof (induction xs arbitrary: p)
  case Nil
  then show ?case by auto
next
  case (Cons x xs)
  moreover have "x \<noteq> t" using lpath_distinct [OF Cons.prems(1)] by auto
  ultimately show ?case by auto
qed

text \<open>\<open>a->next = b->next\<close>, unlinking \<open>b\<close>.\<close>

lemma lpath_unlink:
  "lpath nxt p (xs @ a # b # ys) \<Longrightarrow> lpath (nxt(a := nxt b)) p (xs @ a # ys)"
proof (induction xs arbitrary: p)
  case Nil
  have "a \<notin> set ys" using lpath_distinct [OF Nil] by auto
  then have "lpath (nxt(a := nxt b)) (nxt b) ys \<longleftrightarrow> lpath nxt (nxt b) ys" by (rule lpath_upd)
  with Nil show ?case by (simp del: fun_upd_apply add: fun_upd_same)
next
  case (Cons x xs)
  moreover have "x \<noteq> a" using lpath_distinct [OF Cons.prems] by auto
  ultimately show ?case by auto
qed

end
