(* ===== verification/Ring.thy ===== *)
theory Ring
  imports Prelude
begin

section \<open>Ring buffers\<close>

text \<open>
  A message queue and the packet queue of netpack are both arrays with a head and a tail index that
  wrap at the capacity, full when they meet after a push, and then copied into a larger array. The
  arithmetic of the three operations, on the bare array.
\<close>

definition ring_len :: "nat \<Rightarrow> nat \<Rightarrow> nat \<Rightarrow> nat" where
  "ring_len cap h tail = (if h \<le> tail then tail - h else tail + cap - h)"

definition ring_at :: "nat \<Rightarrow> nat \<Rightarrow> nat \<Rightarrow> nat" where
  "ring_at cap h i = (h + i) mod cap"

definition ring_list :: "'a array \<Rightarrow> nat \<Rightarrow> nat \<Rightarrow> nat \<Rightarrow> 'a list" where
  "ring_list arr cap h tail = map (\<lambda>i. the (arr ! ring_at cap h i)) [0..<ring_len cap h tail]"

definition ring_ok :: "'a array \<Rightarrow> nat \<Rightarrow> nat \<Rightarrow> nat \<Rightarrow> bool" where
  "ring_ok arr cap h tail \<longleftrightarrow> h < cap \<and> tail < cap \<and> length arr = cap \<and>
     (\<forall>i < ring_len cap h tail. arr ! ring_at cap h i \<noteq> None)"

lemma length_ring_list [simp]: "length (ring_list arr cap h tail) = ring_len cap h tail"
  by (simp add: ring_list_def)

lemma ring_at_less: "h < cap \<Longrightarrow> ring_at cap h i < cap"
  by (simp add: ring_at_def)

lemma ring_at_if: "h < cap \<Longrightarrow> i < cap \<Longrightarrow> ring_at cap h i = (if h + i < cap then h + i else h + i - cap)"
  by (simp add: ring_at_def mod_if)

lemma ring_len_less: "h < cap \<Longrightarrow> tail < cap \<Longrightarrow> ring_len cap h tail < cap"
  by (auto simp: ring_len_def)

lemma ring_empty: "ring_list arr cap h h = []" "ring_ok arr cap h h \<longleftrightarrow> h < cap \<and> length arr = cap"
  by (auto simp: ring_list_def ring_len_def ring_ok_def)

lemma ring_list_Nil: "ring_ok arr cap h tail \<Longrightarrow> ring_list arr cap h tail = [] \<longleftrightarrow> h = tail"
  by (auto simp: ring_ok_def ring_list_def ring_len_def split: if_splits)

definition ring_next :: "nat \<Rightarrow> nat \<Rightarrow> nat" where
  "ring_next cap i = (if i + 1 \<ge> cap then 0 else i + 1)"

lemma ring_next_less: "i < cap \<Longrightarrow> ring_next cap i < cap"
  by (simp add: ring_next_def)

lemma ring_at_Suc: "h < cap \<Longrightarrow> i < cap \<Longrightarrow> ring_at cap h (Suc i) = ring_at cap (ring_next cap h) i"
  by (auto simp: ring_at_def ring_next_def mod_if)

lemma ring_len_next:
  "h < cap \<Longrightarrow> tail < cap \<Longrightarrow> h \<noteq> tail \<Longrightarrow> ring_len cap h tail = Suc (ring_len cap (ring_next cap h) tail)"
  by (auto simp: ring_len_def ring_next_def)

lemma ring_small: "h < cap \<Longrightarrow> tail < cap \<Longrightarrow> h \<noteq> tail \<Longrightarrow>
  i < ring_len cap (ring_next cap h) tail \<Longrightarrow> i < cap"
  using ring_len_next [of h cap tail] ring_len_less [of h cap tail] by linarith

lemma ring_pop_cell:
  assumes "ring_ok arr cap h tail" and "h \<noteq> tail"
  shows "\<exists>x. arr ! h = Some x"
proof -
  have b: "h < cap" "tail < cap" and w: "arr ! ring_at cap h 0 \<noteq> None"
    using assms by (auto simp: ring_ok_def ring_len_def)
  then show ?thesis by (simp add: ring_at_def)
qed

lemma ring_pop_list:
  assumes "ring_ok arr cap h tail" and "h \<noteq> tail" and x: "arr ! h = Some x"
  shows "ring_list arr cap h tail = x # ring_list arr cap (ring_next cap h) tail"
proof -
  have b: "h < cap" "tail < cap" using assms(1) by (simp_all add: ring_ok_def)
  note len = ring_len_next [OF b assms(2)] and small = ring_small [OF b assms(2)]
  have h0: "ring_at cap h 0 = h" using b by (simp add: ring_at_def)
  have "map (\<lambda>i. the (arr ! ring_at cap h (Suc i))) [0..<ring_len cap (ring_next cap h) tail] =
      map (\<lambda>i. the (arr ! ring_at cap (ring_next cap h) i)) [0..<ring_len cap (ring_next cap h) tail]"
    by (rule map_cong [OF refl]) (simp add: ring_at_Suc [OF b(1) small])
  then show ?thesis
    unfolding ring_list_def len map_upt_Suc h0 x option.sel by (simp only: simp_thms list.inject)
qed

lemma ring_pop_ok:
  assumes "ring_ok arr cap h tail" and "h \<noteq> tail"
  shows "ring_ok arr cap (ring_next cap h) tail"
proof -
  have b: "h < cap" "tail < cap" and w: "\<And>i. i < ring_len cap h tail \<Longrightarrow> arr ! ring_at cap h i \<noteq> None"
    and l: "length arr = cap"
    using assms(1) by (simp_all add: ring_ok_def)
  note len = ring_len_next [OF b assms(2)] and small = ring_small [OF b assms(2)]
  have "arr ! ring_at cap (ring_next cap h) i \<noteq> None" if "i < ring_len cap (ring_next cap h) tail" for i
    using w [of "Suc i"] that unfolding len ring_at_Suc [OF b(1) small [OF that]] by simp
  then show ?thesis
    unfolding ring_ok_def using b l ring_next_less [OF b(1)] by simp
qed

lemma ring_at_tail: "h < cap \<Longrightarrow> tail < cap \<Longrightarrow> ring_at cap h (ring_len cap h tail) = tail"
  by (auto simp: ring_at_def ring_len_def mod_if)

lemma ring_at_not_tail:
  assumes "h < cap" and "tail < cap" and "i < ring_len cap h tail"
  shows "ring_at cap h i \<noteq> tail"
proof -
  have "i < cap" using assms ring_len_less [of h cap tail] by linarith
  then have at: "ring_at cap h i = (if h + i < cap then h + i else h + i - cap)"
    using assms(1) by (intro ring_at_if)
  show ?thesis
    using assms unfolding at ring_len_def by (auto split: if_splits)
qed

text \<open>Writing at the tail: what the indices from the head now hold, up to and including the tail.\<close>

lemma ring_write:
  assumes "ring_ok arr cap h tail"
  shows "map (\<lambda>i. the (arr[tail := Some x] ! ring_at cap h i)) [0..<Suc (ring_len cap h tail)] =
      ring_list arr cap h tail @ [x]"
    and "i \<le> ring_len cap h tail \<Longrightarrow> arr[tail := Some x] ! ring_at cap h i \<noteq> None"
proof -
  have b: "h < cap" "tail < cap" "length arr = cap" using assms by (simp_all add: ring_ok_def)
  have old: "arr[tail := Some x] ! ring_at cap h i = arr ! ring_at cap h i" if "i < ring_len cap h tail" for i
    using ring_at_not_tail [OF b(1,2) that] by simp
  show "map (\<lambda>i. the (arr[tail := Some x] ! ring_at cap h i)) [0..<Suc (ring_len cap h tail)] =
      ring_list arr cap h tail @ [x]"
    using b old by (simp add: ring_list_def ring_at_tail)
  show "arr[tail := Some x] ! ring_at cap h i \<noteq> None" if "i \<le> ring_len cap h tail"
    using assms b old [of i] that by (cases "i = ring_len cap h tail") (auto simp: ring_at_tail ring_ok_def)
qed

lemma ring_len_tail_next:
  "h < cap \<Longrightarrow> tail < cap \<Longrightarrow> ring_next cap tail \<noteq> h \<Longrightarrow>
   ring_len cap h (ring_next cap tail) = Suc (ring_len cap h tail)"
  by (auto simp: ring_len_def ring_next_def)

lemma ring_len_tail_full:
  "h < cap \<Longrightarrow> tail < cap \<Longrightarrow> ring_next cap tail = h \<Longrightarrow> cap = Suc (ring_len cap h tail)"
  by (auto simp: ring_len_def ring_next_def split: if_splits)

lemma ring_push:
  assumes "ring_ok arr cap h tail" and "ring_next cap tail \<noteq> h"
  shows "ring_ok (arr[tail := Some x]) cap h (ring_next cap tail)"
    and "ring_list (arr[tail := Some x]) cap h (ring_next cap tail) = ring_list arr cap h tail @ [x]"
proof -
  have b: "h < cap" "tail < cap" "length arr = cap" using assms by (simp_all add: ring_ok_def)
  note len = ring_len_tail_next [OF b(1,2) assms(2)]
  show "ring_ok (arr[tail := Some x]) cap h (ring_next cap tail)"
    using b len ring_write(2) [OF assms(1)] by (auto simp: ring_ok_def ring_next_def less_Suc_eq_le)
  show "ring_list (arr[tail := Some x]) cap h (ring_next cap tail) = ring_list arr cap h tail @ [x]"
    using ring_write(1) [OF assms(1)] unfolding ring_list_def len .
qed

text \<open>The full ring, copied from the head on into an array of a larger capacity.\<close>

lemma ring_grow:
  assumes "ring_ok arr cap h tail" and "ring_next cap tail = h" and "cap < cap'" and "length new = cap'"
    and "\<And>i. i < cap \<Longrightarrow> new ! i = arr[tail := Some x] ! ring_at cap h i"
  shows "ring_ok new cap' 0 cap" and "ring_list new cap' 0 cap = ring_list arr cap h tail @ [x]"
proof -
  have b: "h < cap" "tail < cap" "length arr = cap" using assms by (simp_all add: ring_ok_def)
  have len: "cap = Suc (ring_len cap h tail)" by (rule ring_len_tail_full [OF b(1,2) assms(2)])
  have at: "i < cap \<Longrightarrow> ring_at cap' 0 i = i" for i using assms(3) by (simp add: ring_at_def)
  have rl: "ring_len cap' 0 cap = cap" by (simp add: ring_len_def)
  have "i < cap \<Longrightarrow> new ! i \<noteq> None" for i
    using assms(5) ring_write(2) [OF assms(1), of i x] len by (metis less_Suc_eq_le)
  then show "ring_ok new cap' 0 cap"
    using assms(3,4) at by (auto simp: ring_ok_def rl)
  have "ring_list new cap' 0 cap = map (\<lambda>i. the (arr[tail := Some x] ! ring_at cap h i)) [0..<cap]"
    unfolding ring_list_def rl by (rule map_cong) (simp_all add: at assms(5))
  also have "\<dots> = ring_list arr cap h tail @ [x]"
    using ring_write(1) [OF assms(1), of x] len by argo
  finally show "ring_list new cap' 0 cap = ring_list arr cap h tail @ [x]" .
qed

text \<open>The copying loop itself, as both queues write it.\<close>

lemma ring_grow_copy:
  assumes ok: "ring_ok arr cap h tail" and next_tail: "ring_next cap tail = h" and "cap < cap'"
  shows "\<exists>new. c_for 0 cap (\<lambda>i nq. do { m \<leftarrow> array_get (arr[tail := Some x]) ((h + i) mod cap); array_set nq i m })
      (array_new cap') = Some new \<and>
    ring_ok new cap' 0 cap \<and> ring_list new cap' 0 cap = ring_list arr cap h tail @ [x]"
proof -
  let ?arr = "arr[tail := Some x]"
  have b: "h < cap" "tail < cap" "length arr = cap" using ok by (simp_all add: ring_ok_def)
  have full: "cap = Suc (ring_len cap h tail)"
    by (rule ring_len_tail_full [OF b(1,2) next_tail])
  let ?I = "\<lambda>i nq. length nq = cap' \<and> (\<forall>j<i. nq ! j = ?arr ! ring_at cap h j)"
  let ?body = "\<lambda>i nq. do { m \<leftarrow> array_get ?arr ((h + i) mod cap); array_set nq i m }"
  have "\<exists>nq. c_for 0 cap ?body (array_new cap') = Some nq \<and> ?I cap nq"
  proof (rule c_for_rule [where I = ?I])
    show "0 \<le> cap" by simp
    show "?I 0 (array_new cap')" by simp
    fix i nq assume i: "0 \<le> i" "i < cap" and I: "?I i nq"
    have "?arr ! ring_at cap h i \<noteq> None"
      using ring_write(2) [OF ok, of i x] i full by linarith
    then obtain m where m: "?arr ! ring_at cap h i = Some m" by blast
    moreover have "(h + i) mod cap = ring_at cap h i" by (simp add: ring_at_def)
    moreover have "ring_at cap h i < length ?arr" using ring_at_less [OF b(1)] b(3) by simp
    ultimately have "?body i nq = Some (nq[i := Some m])"
      using i I assms(3) by simp
    then show "\<exists>nq'. ?body i nq = Some nq' \<and> ?I (Suc i) nq'"
      using i I m assms(3) by (auto simp: less_Suc_eq nth_list_update)
  qed
  then obtain nq where nq: "c_for 0 cap ?body (array_new cap') = Some nq" "?I cap nq" by blast
  with ring_grow [OF ok next_tail assms(3), of nq x] show ?thesis by blast
qed

end
