(* ===== verification/MQ.thy ===== *)
theory MQ
  imports Message Interfaces LinkedList Ring
begin

section \<open>Message queues (skynet-src/skynet_mq.c)\<close>

text \<open>
  One queue per service: a ring buffer of messages that doubles when it is full, with the flags that
  tie it to the global queue of runnable services. \<open>in_global\<close> and \<open>release\<close> are the code's 0/1
  ints. The queues live in a store from addresses to \<open>struct message_queue\<close>; the global queue is the
  linked list through their \<open>next\<close> fields. Each function that takes the spin lock is one step.
  \<open>cap\<close>, \<open>head\<close>, \<open>tail\<close> and the overload counts are natural numbers here and ints in the source: a queue of
  2^30 pending messages, at which \<open>cap *= 2\<close> overflows, is outside of the model.

  The theorems: push and pop refine a list; the array is never read before it is written; the
  capacity and the overload threshold stay proportional to the load; the global queue refines a
  list of distinct queues, and its assertions cannot fail as long as no queue is pushed twice.
\<close>

subsection \<open>The model\<close>

definition DEFAULT_QUEUE_SIZE :: nat where "DEFAULT_QUEUE_SIZE = 64"
definition MQ_OVERLOAD :: nat where "MQ_OVERLOAD = 1024"

record message_queue =
  mq_handle :: u32
  mq_cap :: nat
  mq_head :: nat
  mq_tail :: nat
  mq_release :: bool
  mq_in_global :: bool
  mq_overload :: nat
  mq_overload_threshold :: nat
  mq_queue :: "skynet_message array"
  mq_next :: ptr

record mq_store =
  mqs :: "addr \<Rightarrow> message_queue option"
  gq_head :: ptr
  gq_tail :: ptr

definition skynet_mq_init :: mq_store where
  "skynet_mq_init = \<lparr>mqs = (\<lambda>_. None), gq_head = None, gq_tail = None\<rparr>"

definition set_next :: "addr \<Rightarrow> ptr \<Rightarrow> mq_store \<Rightarrow> mq_store option" where
  "set_next a p s = do {
     q \<leftarrow> mqs s a;
     Some (s\<lparr>mqs := (mqs s)(a \<mapsto> q\<lparr>mq_next := p\<rparr>)\<rparr>) }"

definition skynet_globalmq_push :: "addr \<Rightarrow> mq_store \<Rightarrow> mq_store option" where
  "skynet_globalmq_push queue s = do {
     q \<leftarrow> mqs s queue;
     c_assert (mq_next q = None);
     case gq_tail s of
       Some last_q \<Rightarrow> do {
         s' \<leftarrow> set_next last_q (Some queue) s;
         Some (s'\<lparr>gq_tail := Some queue\<rparr>) }
     | None \<Rightarrow> Some (s\<lparr>gq_head := Some queue, gq_tail := Some queue\<rparr>) }"

definition skynet_globalmq_pop :: "mq_store \<Rightarrow> (ptr \<times> mq_store) option" where
  "skynet_globalmq_pop s =
     (case gq_head s of
        None \<Rightarrow> Some (None, s)
      | Some mq \<Rightarrow> do {
          q \<leftarrow> mqs s mq;
          let s1 = s\<lparr>gq_head := mq_next q\<rparr>;
          s2 \<leftarrow> (if gq_head s1 = None
                then do { c_assert (Some mq = gq_tail s1); Some (s1\<lparr>gq_tail := None\<rparr>) }
                else Some s1);
          s3 \<leftarrow> set_next mq None s2;
          Some (Some mq, s3) })"

definition mq_new :: "u32 \<Rightarrow> message_queue" where
  "mq_new handle =
     \<lparr>mq_handle = handle, mq_cap = DEFAULT_QUEUE_SIZE, mq_head = 0, mq_tail = 0,
      mq_release = False, mq_in_global = True, mq_overload = 0,
      mq_overload_threshold = MQ_OVERLOAD, mq_queue = array_new DEFAULT_QUEUE_SIZE,
      mq_next = None\<rparr>"

text \<open>\<open>a\<close> is the address \<open>skynet_malloc\<close> returned.\<close>

definition skynet_mq_create :: "addr \<Rightarrow> u32 \<Rightarrow> mq_store \<Rightarrow> mq_store" where
  "skynet_mq_create a handle s = s\<lparr>mqs := (mqs s)(a \<mapsto> mq_new handle)\<rparr>"

definition skynet_mq_release_free :: "addr \<Rightarrow> mq_store \<Rightarrow> mq_store option" where
  "skynet_mq_release_free a s = do {
     q \<leftarrow> mqs s a;
     c_assert (mq_next q = None);
     Some (s\<lparr>mqs := (mqs s)(a := None)\<rparr>) }"

definition skynet_mq_handle :: "message_queue \<Rightarrow> u32" where
  "skynet_mq_handle q = mq_handle q"

definition skynet_mq_length :: "message_queue \<Rightarrow> nat" where
  "skynet_mq_length q =
     (if mq_head q \<le> mq_tail q then mq_tail q - mq_head q
      else mq_tail q + mq_cap q - mq_head q)"

definition skynet_mq_overload :: "message_queue \<Rightarrow> nat \<times> message_queue" where
  "skynet_mq_overload q =
     (if mq_overload q \<noteq> 0 then (mq_overload q, q\<lparr>mq_overload := 0\<rparr>) else (0, q))"

text \<open>The \<open>while\<close> loop of \<open>skynet_mq_pop\<close>.\<close>

partial_function (option) overload_loop :: "nat \<Rightarrow> message_queue \<Rightarrow> message_queue option" where
  "overload_loop len q =
     (if mq_overload_threshold q < len
      then overload_loop len
             (q\<lparr>mq_overload := len, mq_overload_threshold := mq_overload_threshold q * 2\<rparr>)
      else Some q)"

text \<open>\<open>None\<close> as the message is the return value 1 (empty), \<open>Some\<close> the return value 0.\<close>

definition skynet_mq_pop :: "message_queue \<Rightarrow> (skynet_message option \<times> message_queue) option" where
  "skynet_mq_pop q =
     (if mq_head q \<noteq> mq_tail q then do {
        m \<leftarrow> array_get (mq_queue q) (mq_head q);
        let head' = (if mq_head q + 1 \<ge> mq_cap q then 0 else mq_head q + 1);
        let len = (if mq_tail q < head' then mq_tail q + mq_cap q - head' else mq_tail q - head');
        q' \<leftarrow> overload_loop len (q\<lparr>mq_head := head'\<rparr>);
        Some (Some m, q') }
      else Some (None, q\<lparr>mq_overload_threshold := MQ_OVERLOAD, mq_in_global := False\<rparr>))"

definition expand_queue :: "message_queue \<Rightarrow> message_queue option" where
  "expand_queue q = do {
     new_queue \<leftarrow> c_for 0 (mq_cap q)
       (\<lambda>i nq. do {
          m \<leftarrow> array_get (mq_queue q) ((mq_head q + i) mod mq_cap q);
          array_set nq i m })
       (array_new (mq_cap q * 2));
     Some (q\<lparr>mq_head := 0, mq_tail := mq_cap q, mq_cap := mq_cap q * 2, mq_queue := new_queue\<rparr>) }"

text \<open>\<open>skynet_mq_push\<close> up to the \<open>in_global\<close> test, then the whole of it on the store.\<close>

definition mq_enqueue :: "skynet_message \<Rightarrow> message_queue \<Rightarrow> message_queue option" where
  "mq_enqueue message q = do {
     arr \<leftarrow> array_set (mq_queue q) (mq_tail q) message;
     let tail' = (if mq_tail q + 1 \<ge> mq_cap q then 0 else mq_tail q + 1);
     let q1 = q\<lparr>mq_queue := arr, mq_tail := tail'\<rparr>;
     if mq_head q1 = mq_tail q1 then expand_queue q1 else Some q1 }"

definition skynet_mq_push :: "addr \<Rightarrow> skynet_message \<Rightarrow> mq_store \<Rightarrow> mq_store option" where
  "skynet_mq_push a message s = do {
     q \<leftarrow> mqs s a;
     q1 \<leftarrow> mq_enqueue message q;
     if \<not> mq_in_global q1
     then skynet_globalmq_push a (s\<lparr>mqs := (mqs s)(a \<mapsto> q1\<lparr>mq_in_global := True\<rparr>)\<rparr>)
     else Some (s\<lparr>mqs := (mqs s)(a \<mapsto> q1)\<rparr>) }"

definition skynet_mq_mark_release :: "addr \<Rightarrow> mq_store \<Rightarrow> mq_store option" where
  "skynet_mq_mark_release a s = do {
     q \<leftarrow> mqs s a;
     c_assert (\<not> mq_release q);
     let s' = s\<lparr>mqs := (mqs s)(a \<mapsto> q\<lparr>mq_release := True\<rparr>)\<rparr>;
     if \<not> mq_in_global q then skynet_globalmq_push a s' else Some s' }"

text \<open>The \<open>while\<close> loop of \<open>_drop_queue\<close>; the result lists the messages given to \<open>drop_func\<close>.\<close>

partial_function (option) drop_loop ::
  "message_queue \<Rightarrow> skynet_message list \<Rightarrow> (skynet_message list \<times> message_queue) option" where
  "drop_loop q out = do {
     (r, q') \<leftarrow> skynet_mq_pop q;
     case r of Some m \<Rightarrow> drop_loop q' (out @ [m]) | None \<Rightarrow> Some (out, q') }"

definition drop_queue :: "addr \<Rightarrow> mq_store \<Rightarrow> (skynet_message list \<times> mq_store) option" where
  "drop_queue a s = do {
     q \<leftarrow> mqs s a;
     (out, q') \<leftarrow> drop_loop q [];
     s' \<leftarrow> skynet_mq_release_free a (s\<lparr>mqs := (mqs s)(a \<mapsto> q')\<rparr>);
     Some (out, s') }"

definition skynet_mq_release :: "addr \<Rightarrow> mq_store \<Rightarrow> (skynet_message list \<times> mq_store) option" where
  "skynet_mq_release a s = do {
     q \<leftarrow> mqs s a;
     if mq_release q then drop_queue a s
     else do { s' \<leftarrow> skynet_globalmq_push a s; Some ([], s') } }"

subsection \<open>One queue refines a list\<close>

definition mq_ok :: "message_queue \<Rightarrow> bool" where
  "mq_ok q \<longleftrightarrow> ring_ok (mq_queue q) (mq_cap q) (mq_head q) (mq_tail q) \<and> 0 < mq_overload_threshold q"

definition mq_list :: "message_queue \<Rightarrow> skynet_message list" where
  "mq_list q = ring_list (mq_queue q) (mq_cap q) (mq_head q) (mq_tail q)"

definition mq_holds :: "message_queue \<Rightarrow> skynet_message list \<Rightarrow> bool" where
  "mq_holds q xs \<longleftrightarrow> mq_ok q \<and> mq_list q = xs"

lemma mq_new_holds: "mq_holds (mq_new handle) []"
  by (simp add: mq_holds_def mq_ok_def mq_list_def mq_new_def ring_empty DEFAULT_QUEUE_SIZE_def
      MQ_OVERLOAD_def)

lemma mq_length_eq: "mq_holds q xs \<Longrightarrow> skynet_mq_length q = length xs"
  by (auto simp: mq_holds_def mq_list_def skynet_mq_length_def ring_len_def)

text \<open>The overload loop stops: the threshold doubles until it passes the length.\<close>

lemma overload_loop_ex:
  "0 < mq_overload_threshold q \<Longrightarrow>
   \<exists>ov th. overload_loop len q = Some (q\<lparr>mq_overload := ov, mq_overload_threshold := th\<rparr>) \<and>
     mq_overload_threshold q \<le> th \<and> len \<le> th \<and>
     (th = mq_overload_threshold q \<and> ov = mq_overload q \<or> th < 2 * len \<and> ov = len)"
proof (induction "len - mq_overload_threshold q" arbitrary: q rule: less_induct)
  case less
  show ?case
  proof (cases "mq_overload_threshold q < len")
    case True
    let ?q = "q\<lparr>mq_overload := len, mq_overload_threshold := mq_overload_threshold q * 2\<rparr>"
    have "len - mq_overload_threshold ?q < len - mq_overload_threshold q"
      using True less.prems by simp
    from less.hyps [OF this] less.prems obtain ov th where
      r: "overload_loop len ?q = Some (?q\<lparr>mq_overload := ov, mq_overload_threshold := th\<rparr>)"
      "mq_overload_threshold ?q \<le> th" "len \<le> th"
      "th = mq_overload_threshold ?q \<and> ov = mq_overload ?q \<or> th < 2 * len \<and> ov = len" by auto
    then have "th < 2 * len \<and> ov = len" using True by auto
    moreover have "overload_loop len q = overload_loop len ?q"
      using True by (subst overload_loop.simps) simp
    ultimately show ?thesis using r
      by (intro exI [of _ ov] exI [of _ th]) auto
  next
    case False
    then have "overload_loop len q = Some q" by (subst overload_loop.simps) simp
    moreover have "q = q\<lparr>mq_overload := mq_overload q, mq_overload_threshold := mq_overload_threshold q\<rparr>"
      by simp
    ultimately show ?thesis using False by (metis le_refl not_less)
  qed
qed

lemma mq_pop_empty:
  assumes "mq_holds q []"
  shows "skynet_mq_pop q =
      Some (None, q\<lparr>mq_overload_threshold := MQ_OVERLOAD, mq_in_global := False\<rparr>) \<and>
    mq_holds (q\<lparr>mq_overload_threshold := MQ_OVERLOAD, mq_in_global := False\<rparr>) []"
  using assms ring_list_Nil
  by (auto simp: mq_holds_def mq_ok_def mq_list_def skynet_mq_pop_def MQ_OVERLOAD_def)

text \<open>What a pop may change besides the head: the overload bookkeeping.\<close>

lemma mq_pop_cons:
  assumes "mq_holds q (x # xs)"
  shows "\<exists>ov th. let q' = q\<lparr>mq_head := ring_next (mq_cap q) (mq_head q), mq_overload := ov,
                           mq_overload_threshold := th\<rparr> in
    skynet_mq_pop q = Some (Some x, q') \<and> mq_holds q' xs \<and>
    (th = mq_overload_threshold q \<and> ov = mq_overload q \<or> th < 2 * length xs \<and> ov = length xs) \<and>
    length xs \<le> th"
proof -
  let ?cap = "mq_cap q" and ?h = "mq_head q" and ?t = "mq_tail q" and ?a = "mq_queue q"
  let ?h' = "ring_next ?cap ?h"
  have ok: "ring_ok ?a ?cap ?h ?t" and th: "0 < mq_overload_threshold q"
    and l: "ring_list ?a ?cap ?h ?t = x # xs"
    using assms by (simp_all add: mq_holds_def mq_ok_def mq_list_def)
  have ne: "?h \<noteq> ?t" using ring_list_Nil [OF ok] l by auto
  from ring_pop_cell [OF ok ne] obtain y where y: "?a ! ?h = Some y" by blast
  from ring_pop_list [OF ok ne y] l have yx: "y = x" and xs: "ring_list ?a ?cap ?h' ?t = xs" by auto
  note ok' = ring_pop_ok [OF ok ne]
  have lt: "?h < length ?a" using ok by (simp add: ring_ok_def)
  have len: "(if ?t < ?h' then ?t + ?cap - ?h' else ?t - ?h') = length xs"
    unfolding xs [symmetric] length_ring_list by (simp add: ring_len_def not_less)
  have h': "(if ?h + 1 \<ge> ?cap then 0 else ?h + 1) = ?h'" by (simp only: ring_next_def)
  let ?q = "q\<lparr>mq_head := ?h'\<rparr>"
  from overload_loop_ex [of ?q "length xs"] th obtain ov t' where
    o: "overload_loop (length xs) ?q = Some (?q\<lparr>mq_overload := ov, mq_overload_threshold := t'\<rparr>)"
    "mq_overload_threshold ?q \<le> t'" "length xs \<le> t'"
    "t' = mq_overload_threshold ?q \<and> ov = mq_overload ?q \<or> t' < 2 * length xs \<and> ov = length xs"
    by auto
  have "skynet_mq_pop q = Some (Some x, ?q\<lparr>mq_overload := ov, mq_overload_threshold := t'\<rparr>)"
    unfolding skynet_mq_pop_def h' using ne lt y yx by (simp add: Let_def len o(1))
  moreover have "mq_holds (?q\<lparr>mq_overload := ov, mq_overload_threshold := t'\<rparr>) xs"
    using ok' xs th o(2) by (simp add: mq_holds_def mq_ok_def mq_list_def)
  ultimately show ?thesis using o(3,4) by (auto simp: Let_def)
qed

lemma expand_queue_ok:
  assumes "ring_ok arr cap h tail" and "ring_next cap tail = h"
    and "mq_queue q = arr[tail := Some x]" and "mq_cap q = cap" and "mq_head q = h"
  shows "\<exists>new. expand_queue q =
      Some (q\<lparr>mq_head := 0, mq_tail := cap, mq_cap := cap * 2, mq_queue := new\<rparr>) \<and>
    ring_ok new (cap * 2) 0 cap \<and> ring_list new (cap * 2) 0 cap = ring_list arr cap h tail @ [x]"
proof -
  have "cap < cap * 2" using assms(1) by (simp add: ring_ok_def)
  from ring_grow_copy [OF assms(1,2) this, of x] show ?thesis
    unfolding expand_queue_def assms(3-5) by auto
qed

lemma mq_enqueue_holds:
  assumes "mq_holds q xs"
  shows "\<exists>q'. mq_enqueue m q = Some q' \<and> mq_holds q' (xs @ [m]) \<and>
    q' = q\<lparr>mq_head := mq_head q', mq_tail := mq_tail q', mq_cap := mq_cap q', mq_queue := mq_queue q'\<rparr> \<and>
    (mq_cap q' = mq_cap q \<or> mq_cap q' = 2 * Suc (length xs))"
proof -
  let ?cap = "mq_cap q" and ?h = "mq_head q" and ?t = "mq_tail q" and ?a = "mq_queue q"
  let ?t' = "ring_next ?cap ?t"
  have ok: "ring_ok ?a ?cap ?h ?t" and th: "0 < mq_overload_threshold q"
    and l: "ring_list ?a ?cap ?h ?t = xs"
    using assms by (simp_all add: mq_holds_def mq_ok_def mq_list_def)
  have b: "?h < ?cap" "?t < ?cap" "length ?a = ?cap" using ok by (simp_all add: ring_ok_def)
  have t': "(if ?t + 1 \<ge> ?cap then 0 else ?t + 1) = ?t'" by (simp only: ring_next_def)
  let ?q1 = "q\<lparr>mq_queue := ?a[?t := Some m], mq_tail := ?t'\<rparr>"
  show ?thesis
  proof (cases "?t' = ?h")
    case True
    from expand_queue_ok [OF ok True, of ?q1 m] obtain new where
      "expand_queue ?q1 = Some (?q1\<lparr>mq_head := 0, mq_tail := ?cap, mq_cap := ?cap * 2, mq_queue := new\<rparr>)"
      "ring_ok new (?cap * 2) 0 ?cap" "ring_list new (?cap * 2) 0 ?cap = xs @ [m]"
      using l by auto
    moreover have "?cap = Suc (length xs)"
      using ring_len_tail_full [OF b(1,2) True] l by (metis length_ring_list)
    ultimately show ?thesis
      using b True th unfolding mq_enqueue_def t'
      by (simp add: mq_holds_def mq_ok_def mq_list_def Let_def)
  next
    case False
    show ?thesis
      using b False th ring_push [OF ok False, of m] l unfolding mq_enqueue_def t'
      by (simp add: mq_holds_def mq_ok_def mq_list_def Let_def)
  qed
qed

subsection \<open>The queue as an instance of the FIFO interface\<close>

interpretation mq_fifo: fifo mq_holds mq_enqueue skynet_mq_pop
proof unfold_locales
  fix q xs x assume "mq_holds q xs"
  from mq_enqueue_holds [OF this] show "\<exists>q'. mq_enqueue x q = Some q' \<and> mq_holds q' (xs @ [x])"
    by blast
next
  fix q assume "mq_holds q []"
  then show "\<exists>q'. skynet_mq_pop q = Some (None, q') \<and> mq_holds q' []"
    using mq_pop_empty by blast
next
  fix q x xs assume "mq_holds q (x # xs)"
  then show "\<exists>q'. skynet_mq_pop q = Some (Some x, q') \<and> mq_holds q' xs"
    using mq_pop_cons by (fastforce simp: Let_def)
qed

lemma drop_loop_all:
  "mq_holds q xs \<Longrightarrow> \<exists>q'. drop_loop q out = Some (out @ xs, q') \<and> mq_holds q' [] \<and>
     mq_next q' = mq_next q"
proof (induction xs arbitrary: q out)
  case Nil
  with mq_pop_empty [OF Nil] show ?case by (subst drop_loop.simps) simp
next
  case (Cons x xs)
  from mq_pop_cons [OF Cons.prems] obtain q' where
    q': "skynet_mq_pop q = Some (Some x, q')" "mq_holds q' xs" "mq_next q' = mq_next q"
    by (fastforce simp: Let_def)
  from Cons.IH [OF q'(2), of "out @ [x]"] q' show ?case by (subst drop_loop.simps) simp
qed

subsection \<open>Bounds\<close>

text \<open>Every state a queue reaches while it never holds more than \<open>n\<close> messages, with its content.\<close>

inductive mq_reach :: "nat \<Rightarrow> message_queue \<Rightarrow> skynet_message list \<Rightarrow> bool" for n where
  create: "mq_reach n (mq_new handle) []"
| push: "mq_reach n q xs \<Longrightarrow> length xs < n \<Longrightarrow> mq_enqueue m q = Some q' \<Longrightarrow>
    mq_reach n q' (xs @ [m])"
| pop: "mq_reach n q (x # xs) \<Longrightarrow> skynet_mq_pop q = Some (Some x, q') \<Longrightarrow> mq_reach n q' xs"
| pop_none: "mq_reach n q [] \<Longrightarrow> skynet_mq_pop q = Some (None, q') \<Longrightarrow> mq_reach n q' []"
| overload: "mq_reach n q xs \<Longrightarrow> skynet_mq_overload q = (ov, q') \<Longrightarrow> mq_reach n q' xs"

definition mq_bounded :: "nat \<Rightarrow> message_queue \<Rightarrow> bool" where
  "mq_bounded n q \<longleftrightarrow> mq_cap q \<le> max DEFAULT_QUEUE_SIZE (2 * n) \<and>
     mq_overload_threshold q \<le> max MQ_OVERLOAD (2 * n)"

lemma mq_reach_bounded:
  "mq_reach n q xs \<Longrightarrow> mq_holds q xs \<and> length xs \<le> n \<and> mq_bounded n q"
proof (induction rule: mq_reach.induct)
  case (create handle)
  show ?case by (auto simp: mq_new_holds mq_bounded_def) (simp_all add: mq_new_def)
next
  case (push q xs m q')
  have "mq_holds q xs" using push.IH by blast
  from mq_enqueue_holds [OF this, of m] push.hyps(3) have
    h: "mq_holds q' (xs @ [m])" and
    r: "q' = q\<lparr>mq_head := mq_head q', mq_tail := mq_tail q', mq_cap := mq_cap q', mq_queue := mq_queue q'\<rparr>" and
    c: "mq_cap q' = mq_cap q \<or> mq_cap q' = 2 * Suc (length xs)" by auto
  have th: "mq_overload_threshold q' = mq_overload_threshold q"
    by (rule trans [OF arg_cong [OF r, of mq_overload_threshold]]) simp
  from c push.IH push.hyps(2) th show ?case using h by (auto simp: mq_bounded_def)
next
  case (pop q x xs q')
  from mq_pop_cons [of q x xs] pop.IH pop.hyps(2) show ?case
    by (auto simp: Let_def mq_bounded_def)
next
  case (pop_none q q')
  from mq_pop_empty [of q] pop_none show ?case by (auto simp: mq_bounded_def)
next
  case (overload q xs ov q')
  then show ?case
    by (auto simp: skynet_mq_overload_def mq_holds_def mq_ok_def mq_list_def mq_bounded_def
        split: if_splits)
qed

subsection \<open>The global queue\<close>

definition next_of :: "mq_store \<Rightarrow> addr \<Rightarrow> ptr" where
  "next_of s a = (case mqs s a of Some q \<Rightarrow> mq_next q | None \<Rightarrow> None)"

definition gq_ok :: "mq_store \<Rightarrow> addr list \<Rightarrow> bool" where
  "gq_ok s xs \<longleftrightarrow> lpath (next_of s) (gq_head s) xs \<and>
     gq_tail s = (if xs = [] then None else Some (last xs)) \<and>
     (\<forall>a\<in>set xs. mqs s a \<noteq> None) \<and> (\<forall>a. a \<notin> set xs \<longrightarrow> next_of s a = None)"

text \<open>Two stores with the same queues, up to the links.\<close>

definition unlinked :: "message_queue \<Rightarrow> message_queue" where
  "unlinked q = q\<lparr>mq_next := None\<rparr>"

definition same_queues :: "mq_store \<Rightarrow> mq_store \<Rightarrow> bool" where
  "same_queues s s' \<longleftrightarrow> (\<forall>a. map_option unlinked (mqs s' a) = map_option unlinked (mqs s a))"

lemma same_queues_refl [simp]: "same_queues s s"
  by (simp add: same_queues_def)

lemma gq_ok_init: "gq_ok skynet_mq_init []"
  by (simp add: gq_ok_def skynet_mq_init_def next_of_def)

lemma gq_ok_distinct: "gq_ok s xs \<Longrightarrow> distinct xs"
  by (auto simp: gq_ok_def dest: lpath_distinct)

lemma set_next_ok:
  "mqs s a \<noteq> None \<Longrightarrow> \<exists>s'. set_next a p s = Some s' \<and> next_of s' = (next_of s)(a := p) \<and>
     same_queues s s' \<and> gq_head s' = gq_head s \<and> gq_tail s' = gq_tail s \<and> dom (mqs s') = dom (mqs s)"
  by (auto simp: set_next_def next_of_def same_queues_def unlinked_def fun_eq_iff)

lemma same_queues_dom: "same_queues s s' \<Longrightarrow> mqs s' a = None \<longleftrightarrow> mqs s a = None"
  by (metis (no_types) same_queues_def map_option_is_None)

lemma globalmq_push_ok:
  assumes "gq_ok s xs" and "mqs s a \<noteq> None" and "a \<notin> set xs"
  shows "\<exists>s'. skynet_globalmq_push a s = Some s' \<and> gq_ok s' (xs @ [a]) \<and> same_queues s s'"
proof -
  obtain q where q: "mqs s a = Some q" using assms(2) by blast
  have n: "mq_next q = None" using assms(1,3) q by (auto simp: gq_ok_def next_of_def split: option.splits)
  show ?thesis
  proof (cases xs rule: rev_cases)
    case Nil
    then show ?thesis using assms(1) q n
      by (auto simp: skynet_globalmq_push_def gq_ok_def next_of_def same_queues_def)
  next
    case (snoc ys y)
    then have "mqs s y \<noteq> None" using assms(1) by (auto simp: gq_ok_def)
    from set_next_ok [OF this, of "Some a"] obtain s' where
      s': "set_next y (Some a) s = Some s'" "next_of s' = (next_of s)(y := Some a)" "same_queues s s'"
      "gq_head s' = gq_head s" "dom (mqs s') = dom (mqs s)" by blast
    have "lpath ((next_of s)(y := Some a)) (gq_head s) (ys @ [y, a])"
      using assms(1,3) snoc q n by (intro lpath_snoc) (auto simp: gq_ok_def next_of_def)
    moreover have "\<forall>b\<in>set (xs @ [a]). mqs s' b \<noteq> None"
      using s'(3) assms(1,2) same_queues_dom by (auto simp: gq_ok_def)
    moreover have t: "gq_tail s = Some y" using assms(1) snoc by (simp add: gq_ok_def)
    moreover have "next_of (s'\<lparr>gq_tail := p\<rparr>) = next_of s'" for p by (simp add: next_of_def fun_eq_iff)
    ultimately have "gq_ok (s'\<lparr>gq_tail := Some a\<rparr>) (xs @ [a])"
      using s' snoc assms(1,3) by (auto simp: gq_ok_def)
    moreover have "skynet_globalmq_push a s = Some (s'\<lparr>gq_tail := Some a\<rparr>)"
      using q n t s'(1) by (simp add: skynet_globalmq_push_def)
    moreover have "same_queues s (s'\<lparr>gq_tail := Some a\<rparr>)" using s'(3) by (simp add: same_queues_def)
    ultimately show ?thesis by blast
  qed
qed

lemma globalmq_pop_empty: "gq_ok s [] \<Longrightarrow> skynet_globalmq_pop s = Some (None, s)"
  by (simp add: skynet_globalmq_pop_def gq_ok_def)

lemma globalmq_pop_ok:
  assumes "gq_ok s (a # xs)"
  shows "\<exists>s'. skynet_globalmq_pop s = Some (Some a, s') \<and> gq_ok s' xs \<and> same_queues s s'"
proof -
  have h: "gq_head s = Some a" and lp: "lpath (next_of s) (next_of s a) xs"
    and al: "\<forall>b\<in>set (a # xs). mqs s b \<noteq> None" and a: "a \<notin> set xs"
    using assms gq_ok_distinct [OF assms] by (auto simp: gq_ok_def)
  then obtain q where q: "mqs s a = Some q" by auto
  have nx: "next_of s a = mq_next q" by (simp add: next_of_def q)
  let ?s1 = "s\<lparr>gq_head := mq_next q, gq_tail := (if xs = [] then None else gq_tail s)\<rparr>"
  have e: "mq_next q = None \<longleftrightarrow> xs = []" using lp nx by (cases xs) auto
  have "mqs ?s1 a \<noteq> None" using q by simp
  from set_next_ok [OF this, of None] obtain s' where
    s': "set_next a None ?s1 = Some s'" "next_of s' = (next_of ?s1)(a := None)" "same_queues ?s1 s'"
    "gq_head s' = gq_head ?s1" "gq_tail s' = gq_tail ?s1" by blast
  have n1: "next_of ?s1 = next_of s" by (simp add: next_of_def fun_eq_iff)
  have sq: "same_queues s s'" using s'(3) by (simp add: same_queues_def)
  have "skynet_globalmq_pop s = Some (Some a, s')"
    using h q e s'(1) assms
    by (cases "xs = []") (auto simp: skynet_globalmq_pop_def gq_ok_def Let_def)
  moreover have "gq_ok s' xs"
    using s' n1 lp a nx assms same_queues_dom [OF sq] by (auto simp: gq_ok_def)
  ultimately show ?thesis using sq by blast
qed

subsection \<open>Properties\<close>

text \<open>A history of pushes (\<open>Some m\<close>) and pops (\<open>None\<close>), with the messages the pops delivered.\<close>

fun mq_run :: "skynet_message option list \<Rightarrow> message_queue \<Rightarrow>
    (skynet_message list \<times> message_queue) option" where
  "mq_run [] q = Some ([], q)"
| "mq_run (Some m # ops) q = do { q' \<leftarrow> mq_enqueue m q; mq_run ops q' }"
| "mq_run (None # ops) q = do {
     (r, q') \<leftarrow> skynet_mq_pop q;
     (out, q'') \<leftarrow> mq_run ops q';
     Some ((case r of None \<Rightarrow> out | Some m \<Rightarrow> m # out), q'') }"

lemma mq_run_fifo: "mq_run ops q = mq_fifo.run ops q"
proof (induction ops q rule: mq_run.induct)
  case (2 m ops q)
  then show ?case by (cases "mq_enqueue m q") auto
next
  case (3 ops q)
  then show ?case by (cases "skynet_mq_pop q") auto
qed simp

text \<open>Property C7. Any history of pushes and pops on a fresh queue returns (no assertion, no read
  of an uninitialised or out-of-range cell, no endless overload loop), and the messages delivered
  followed by those still queued are exactly the messages pushed, in order, through every
  wrap-around and every doubling of the ring; \<open>skynet_mq_length\<close> counts those still queued.\<close>

theorem mq_history_fifo:
  "\<exists>out q. mq_run ops (mq_new handle) = Some (out, q) \<and>
     out @ mq_list q = List.map_filter (\<lambda>oper. oper) ops \<and> skynet_mq_length q = length (mq_list q)"
proof -
  from mq_fifo.run_conserves [OF mq_new_holds, of ops handle] obtain out q ys where
    r: "mq_fifo.run ops (mq_new handle) = Some (out, q)" "mq_holds q ys"
    "out @ ys = List.map_filter (\<lambda>oper. oper) ops" by auto
  moreover have "mq_list q = ys" using r(2) by (simp add: mq_holds_def)
  ultimately show ?thesis using mq_length_eq [OF r(2)] by (auto simp: mq_run_fifo)
qed

text \<open>Property C28. A queue that never holds more than \<open>n\<close> messages has a ring of at most
  \<open>max 64 (2 n)\<close> cells and an overload threshold of at most \<open>max 1024 (2 n)\<close>, whatever the order of
  pushes, pops and overload reports that led to it; and it holds exactly what was pushed and not
  popped.\<close>

theorem mq_reach_bounds:
  assumes "mq_reach n q xs"
  shows "mq_list q = xs \<and> mq_cap q \<le> max 64 (2 * n) \<and> mq_overload_threshold q \<le> max 1024 (2 * n)"
  using mq_reach_bounded [OF assms]
  by (simp add: mq_holds_def mq_bounded_def DEFAULT_QUEUE_SIZE_def MQ_OVERLOAD_def)

theorem mq_reach_bounds_witness:
  "\<exists>q. mq_reach 1 q [\<lparr>msg_source = 3, msg_session = 5, msg_data = None, msg_sz = 7\<rparr>] \<and>
     mq_list q = [\<lparr>msg_source = 3, msg_session = 5, msg_data = None, msg_sz = 7\<rparr>] \<and> mq_cap q \<le> 64"
proof -
  let ?m = "\<lparr>msg_source = 3, msg_session = 5, msg_data = None, msg_sz = 7\<rparr> :: skynet_message"
  obtain q where q: "mq_enqueue ?m (mq_new 1) = Some q" using mq_enqueue_holds [OF mq_new_holds] by blast
  have "mq_reach 1 q ([] @ [?m])" by (rule mq_reach.push [OF mq_reach.create _ q]) simp
  with mq_reach_bounds [OF this] show ?thesis by auto
qed

text \<open>The global queue of runnable services is a first-in first-out list: pushing a
  queue that is allocated and not in it appends it, without touching any queue but for the link
  fields, and the next pop takes the oldest one, its link cleared; neither assertion fails.\<close>

theorem globalmq_fifo:
  assumes "gq_ok s xs" and "mqs s a \<noteq> None" and "a \<notin> set xs"
  shows "\<exists>s1 s2. skynet_globalmq_push a s = Some s1 \<and> gq_ok s1 (xs @ [a]) \<and> same_queues s s1 \<and>
     skynet_globalmq_pop s1 = Some (Some (hd (xs @ [a])), s2) \<and> gq_ok s2 (tl (xs @ [a])) \<and>
     same_queues s1 s2 \<and> next_of s2 (hd (xs @ [a])) = None"
proof -
  obtain s1 where s1: "skynet_globalmq_push a s = Some s1" "gq_ok s1 (xs @ [a])" "same_queues s s1"
    using globalmq_push_ok [OF assms] by blast
  obtain b ys where e: "xs @ [a] = b # ys" by (cases xs) auto
  from globalmq_pop_ok [OF s1(2) [unfolded e]] obtain s2 where
    s2: "skynet_globalmq_pop s1 = Some (Some b, s2)" "gq_ok s2 ys" "same_queues s1 s2" by blast
  moreover have "next_of s2 b = None"
    using s2(2) gq_ok_distinct [OF s1(2)] unfolding e by (simp add: gq_ok_def)
  ultimately show ?thesis using s1 unfolding e by auto
qed

theorem globalmq_fifo_witness:
  "\<exists>s1 s2. skynet_globalmq_push 9 (skynet_mq_create 9 1 skynet_mq_init) = Some s1 \<and>
     skynet_globalmq_pop s1 = Some (Some 9, s2) \<and> gq_ok s2 []"
proof -
  let ?s = "skynet_mq_create 9 1 skynet_mq_init"
  have "gq_ok ?s []"
    by (simp add: gq_ok_def skynet_mq_init_def skynet_mq_create_def next_of_def mq_new_def)
  from globalmq_fifo [OF this, of 9] show ?thesis by (auto simp: skynet_mq_create_def)
qed

text \<open>Releasing a marked queue frees it and hands every message it still held to the
  drop function, oldest first: none is leaked.\<close>

lemma skynet_mq_release_drops:
  assumes "mqs s a = Some q" and "mq_holds q xs" and "mq_release q" and "mq_next q = None"
  shows "skynet_mq_release a s = Some (xs, s\<lparr>mqs := (mqs s)(a := None)\<rparr>)"
  using assms drop_loop_all [of q xs "[]"]
  by (auto simp: skynet_mq_release_def drop_queue_def skynet_mq_release_free_def)

end
