(* ===== verification/Sched.thy ===== *)
theory Sched
  imports MQ
begin

section \<open>Scheduling of services\<close>

text \<open>
  How the functions of \<open>skynet_mq.c\<close> are used together by the worker threads and the senders of
  \<open>skynet_server.c\<close>. A queue is scheduled when its \<open>in_global\<close> or its \<open>release\<close> flag is set
  (\<open>skynet_mq_mark_release\<close> pushes a sleeping queue without setting \<open>in_global\<close>). A scheduled queue is
  either in the global queue or held by exactly one thread (a worker dispatching it, or the thread
  creating the service); \<open>held\<close> is that set of queues. Every interleaving of the locked functions is a sequence of the steps below.

  The theorems: no step fails, whatever the interleaving (so no assertion of \<open>skynet_mq.c\<close> does, and
  no queue enters the global queue twice); a queue that has messages is scheduled: it is in the
  global queue or held, never forgotten.
\<close>

definition mq_content :: "mq_store \<Rightarrow> addr \<Rightarrow> skynet_message list option" where
  "mq_content s a = map_option mq_list (mqs s a)"

definition scheduled :: "message_queue \<Rightarrow> bool" where
  "scheduled q \<longleftrightarrow> mq_in_global q \<or> mq_release q"

definition sched_ok :: "mq_store \<Rightarrow> addr list \<Rightarrow> addr set \<Rightarrow> bool" where
  "sched_ok s xs held \<longleftrightarrow> gq_ok s xs \<and> set xs \<inter> held = {} \<and> held \<subseteq> dom (mqs s) \<and>
     (\<forall>a q. mqs s a = Some q \<longrightarrow> mq_ok q \<and> (scheduled q \<longleftrightarrow> a \<in> set xs \<union> held) \<and>
        (mq_list q \<noteq> [] \<longrightarrow> mq_in_global q))"

lemma sched_okD:
  assumes "sched_ok s xs held" and "mqs s a = Some q"
  shows "mq_ok q" "scheduled q \<longleftrightarrow> a \<in> set xs \<union> held" "mq_list q \<noteq> [] \<Longrightarrow> mq_in_global q"
  using assms by (auto simp: sched_ok_def)

lemma sched_ok_gq: "sched_ok s xs held \<Longrightarrow> gq_ok s xs"
  by (simp add: sched_ok_def)

lemma sched_ok_next:
  assumes "sched_ok s xs held" and "mqs s a = Some q" and "a \<notin> set xs"
  shows "mq_next q = None"
  using assms by (auto simp: sched_ok_def gq_ok_def next_of_def split: option.splits)

subsection \<open>The queues apart from their links\<close>

lemma unlinked_simps [simp]:
  "mq_ok (unlinked q) = mq_ok q" "mq_list (unlinked q) = mq_list q"
  "mq_in_global (unlinked q) = mq_in_global q" "mq_release (unlinked q) = mq_release q"
  "mq_handle (unlinked q) = mq_handle q" "mq_overload (unlinked q) = mq_overload q"
  by (simp_all add: unlinked_def mq_ok_def mq_list_def)

lemma same_queuesD:
  assumes "same_queues s s'" and "mqs s' a = Some q'"
  obtains q where "mqs s a = Some q" "unlinked q' = unlinked q"
proof -
  from assms have "map_option unlinked (mqs s a) = Some (unlinked q')"
    unfolding same_queues_def by (metis option.map(2))
  with that show thesis by auto
qed

lemma same_queuesD':
  assumes "same_queues s s'" and "mqs s a = Some q"
  obtains q' where "mqs s' a = Some q'" "unlinked q' = unlinked q"
proof -
  from assms have "map_option unlinked (mqs s' a) = Some (unlinked q)"
    unfolding same_queues_def by (metis option.map(2))
  with that show thesis by auto
qed

lemma same_queues_content: "same_queues s s' \<Longrightarrow> mq_content s' = mq_content s"
proof
  fix a assume "same_queues s s'"
  then have "map_option mq_list (map_option unlinked (mqs s' a)) =
      map_option mq_list (map_option unlinked (mqs s a))" by (simp add: same_queues_def)
  then show "mq_content s' a = mq_content s a" by (simp add: mq_content_def option.map_comp comp_def)
qed

lemma same_queues_domE: "same_queues s s' \<Longrightarrow> dom (mqs s') = dom (mqs s)"
  by (auto simp: dom_def same_queues_dom)

text \<open>Moving a scheduled queue between the global queue and a holder.\<close>

lemma sched_ok_move:
  assumes "sched_ok s xs held" and "same_queues s s'" and "gq_ok s' ys"
    and "set ys \<union> held' = set xs \<union> held" and "set ys \<inter> held' = {}" and "held' \<subseteq> dom (mqs s)"
  shows "sched_ok s' ys held'"
  unfolding sched_ok_def
proof (intro conjI allI impI)
  show "held' \<subseteq> dom (mqs s')" using assms(2,6) same_queues_domE by simp
  fix a q assume "mqs s' a = Some q"
  with assms(2) obtain p where p: "mqs s a = Some p" "unlinked q = unlinked p" by (rule same_queuesD)
  note d = sched_okD [OF assms(1) p(1)]
  have e: "mq_ok q = mq_ok p" "mq_list q = mq_list p" "mq_in_global q = mq_in_global p"
    "scheduled q = scheduled p" using p(2) unfolding scheduled_def by (metis unlinked_simps)+
  show "mq_ok q" using d(1) e by simp
  show "scheduled q \<longleftrightarrow> a \<in> set ys \<union> held'" using d(2) e assms(4) by simp
  show "mq_in_global q" if "mq_list q \<noteq> []" using that d(3) e by simp
qed (use assms in auto)

text \<open>Changing one queue, not its link and not its schedule.\<close>

lemma gq_ok_update:
  assumes "gq_ok s xs" and "mqs s a = Some q" and "mq_next q' = mq_next q"
  shows "gq_ok (s\<lparr>mqs := (mqs s)(a \<mapsto> q')\<rparr>) xs"
proof -
  have n: "next_of (s\<lparr>mqs := (mqs s)(a \<mapsto> q')\<rparr>) = next_of s"
    using assms(2,3) by (auto simp: next_of_def fun_eq_iff)
  show ?thesis using assms(1) unfolding gq_ok_def n by auto
qed

lemma sched_ok_update:
  assumes "sched_ok s xs held" and "mqs s a = Some q" and "mq_next q' = mq_next q"
    and "mq_ok q'" and "scheduled q' \<longleftrightarrow> a \<in> set xs \<union> held'" and "mq_list q' \<noteq> [] \<Longrightarrow> mq_in_global q'"
    and "held' - {a} = held - {a}" and "a \<in> set xs \<Longrightarrow> a \<notin> held'"
  shows "sched_ok (s\<lparr>mqs := (mqs s)(a \<mapsto> q')\<rparr>) xs held'"
proof -
  have g: "gq_ok (s\<lparr>mqs := (mqs s)(a \<mapsto> q')\<rparr>) xs"
    using gq_ok_update [OF sched_ok_gq [OF assms(1)] assms(2,3)] .
  have h: "b \<in> held' \<longleftrightarrow> b \<in> held" if "b \<noteq> a" for b using assms(7) that by blast
  have dj: "set xs \<inter> held' = {}"
  proof -
    have "b \<notin> held'" if "b \<in> set xs" for b
      using that assms(1,8) h [of b] unfolding sched_ok_def by (cases "b = a") blast+
    then show ?thesis by blast
  qed
  have dom: "held' \<subseteq> dom (mqs (s\<lparr>mqs := (mqs s)(a \<mapsto> q')\<rparr>))"
  proof
    fix b assume "b \<in> held'"
    then have "b = a \<or> b \<in> dom (mqs s)" using assms(1) h [of b] unfolding sched_ok_def by blast
    then show "b \<in> dom (mqs (s\<lparr>mqs := (mqs s)(a \<mapsto> q')\<rparr>))" by auto
  qed
  show ?thesis
    unfolding sched_ok_def
  proof (intro conjI allI impI g dj dom)
    fix b p assume p: "mqs (s\<lparr>mqs := (mqs s)(a \<mapsto> q')\<rparr>) b = Some p"
    have "mq_ok p \<and> (scheduled p \<longleftrightarrow> b \<in> set xs \<union> held') \<and> (mq_list p \<noteq> [] \<longrightarrow> mq_in_global p)"
    proof (cases "b = a")
      case True
      with p have "p = q'" by simp
      with assms(4-6) True show ?thesis by simp
    next
      case False
      with p have "mqs s b = Some p" by simp
      from sched_okD [OF assms(1) this] h [OF False] show ?thesis by blast
    qed
    then show "mq_ok p" "scheduled p \<longleftrightarrow> b \<in> set xs \<union> held'" "mq_list p \<noteq> [] \<Longrightarrow> mq_in_global p"
      by blast+
  qed
qed

text \<open>Pushing a held queue back, and a sleeping queue for the first time.\<close>

lemma sched_put:
  assumes "sched_ok s xs held" and "a \<in> held"
  shows "\<exists>s'. skynet_globalmq_push a s = Some s' \<and> sched_ok s' (xs @ [a]) (held - {a}) \<and> same_queues s s'"
proof -
  have "mqs s a \<noteq> None" "a \<notin> set xs" using assms by (auto simp: sched_ok_def)
  from globalmq_push_ok [OF sched_ok_gq [OF assms(1)] this] obtain s' where
    s': "skynet_globalmq_push a s = Some s'" "gq_ok s' (xs @ [a])" "same_queues s s'" by blast
  moreover have "sched_ok s' (xs @ [a]) (held - {a})"
    using assms by (intro sched_ok_move [OF assms(1) s'(3,2)]) (auto simp: sched_ok_def)
  ultimately show ?thesis by blast
qed

lemma sched_take:
  assumes "sched_ok s (a # xs) held"
  shows "\<exists>s'. skynet_globalmq_pop s = Some (Some a, s') \<and> sched_ok s' xs (insert a held) \<and> same_queues s s'"
proof -
  from globalmq_pop_ok [OF sched_ok_gq [OF assms]] obtain s' where
    s': "skynet_globalmq_pop s = Some (Some a, s')" "gq_ok s' xs" "same_queues s s'" by blast
  moreover have "sched_ok s' xs (insert a held)"
    using assms gq_ok_distinct [OF sched_ok_gq [OF assms]]
    by (intro sched_ok_move [OF assms s'(3,2)]) (auto simp: sched_ok_def gq_ok_def)
  ultimately show ?thesis by blast
qed

lemma sched_take_empty: "sched_ok s [] held \<Longrightarrow> skynet_globalmq_pop s = Some (None, s)"
  by (rule globalmq_pop_empty [OF sched_ok_gq])

lemma sched_flag:
  assumes "sched_ok s xs held" and "mqs s a = Some q" and "\<not> scheduled q"
    and "mq_ok q'" and "scheduled q'" and "mq_list q' \<noteq> [] \<Longrightarrow> mq_in_global q'" and "mq_next q' = mq_next q"
  shows "\<exists>s'. skynet_globalmq_push a (s\<lparr>mqs := (mqs s)(a \<mapsto> q')\<rparr>) = Some s' \<and> sched_ok s' (xs @ [a]) held \<and>
     same_queues (s\<lparr>mqs := (mqs s)(a \<mapsto> q')\<rparr>) s'"
proof -
  let ?s = "s\<lparr>mqs := (mqs s)(a \<mapsto> q')\<rparr>"
  have n: "a \<notin> set xs" "a \<notin> held" using sched_okD [OF assms(1,2)] assms(3) by auto
  have "sched_ok ?s xs (insert a held)"
    using n assms by (intro sched_ok_update [OF assms(1,2)]) auto
  from sched_put [OF this, of a] n(2) show ?thesis by auto
qed

subsection \<open>The locked functions\<close>

lemma mq_pushed:
  assumes "mq_ok q"
  shows "\<exists>q1. mq_enqueue m q = Some q1 \<and> mq_ok q1 \<and> mq_list q1 = mq_list q @ [m] \<and>
    mq_next q1 = mq_next q \<and> mq_in_global q1 = mq_in_global q \<and> mq_release q1 = mq_release q \<and>
    mq_handle q1 = mq_handle q"
proof -
  have "mq_holds q (mq_list q)" using assms by (simp add: mq_holds_def)
  from mq_enqueue_holds [OF this, of m] obtain q1 where
    q1: "mq_enqueue m q = Some q1" "mq_holds q1 (mq_list q @ [m])" and
    r: "\<exists>h t c arr. q1 = q\<lparr>mq_head := h, mq_tail := t, mq_cap := c, mq_queue := arr\<rparr>" by blast
  from r have "mq_next q1 = mq_next q" "mq_in_global q1 = mq_in_global q" "mq_release q1 = mq_release q"
    "mq_handle q1 = mq_handle q" by auto
  with q1 show ?thesis by (simp add: mq_holds_def)
qed

lemma sched_push:
  assumes "sched_ok s xs held" and "mqs s a = Some q" and "\<not> mq_release q"
  shows "\<exists>s'. skynet_mq_push a m s = Some s' \<and>
    sched_ok s' (if mq_in_global q then xs else xs @ [a]) held \<and>
    mq_content s' = (mq_content s)(a \<mapsto> mq_list q @ [m])"
proof -
  note d = sched_okD [OF assms(1,2)]
  from mq_pushed [OF d(1), of m] obtain q1 where
    q1: "mq_enqueue m q = Some q1" "mq_ok q1" "mq_list q1 = mq_list q @ [m]" "mq_next q1 = mq_next q"
    "mq_in_global q1 = mq_in_global q" "mq_release q1 = mq_release q" by blast
  show ?thesis
  proof (cases "mq_in_global q")
    case True
    then have "scheduled q1 \<longleftrightarrow> a \<in> set xs \<union> held" using q1(5,6) d(2) by (simp add: scheduled_def)
    moreover have "a \<in> set xs \<Longrightarrow> a \<notin> held" using assms(1) by (auto simp: sched_ok_def)
    ultimately have "sched_ok (s\<lparr>mqs := (mqs s)(a \<mapsto> q1)\<rparr>) xs held"
      using q1(2,4,5) True by (intro sched_ok_update [OF assms(1,2)]) simp_all
    moreover have "skynet_mq_push a m s = Some (s\<lparr>mqs := (mqs s)(a \<mapsto> q1)\<rparr>)"
      using assms(2) q1 True by (simp add: skynet_mq_push_def)
    ultimately show ?thesis using q1(3) True by (auto simp: mq_content_def fun_eq_iff)
  next
    case False
    let ?q = "q1\<lparr>mq_in_global := True\<rparr>"
    have ok: "mq_ok ?q" "mq_list ?q = mq_list q1" using q1(2) by (simp_all add: mq_ok_def mq_list_def)
    have ns: "\<not> scheduled q" "scheduled ?q" using False assms(3) by (simp_all add: scheduled_def)
    from sched_flag [OF assms(1,2) ns(1) ok(1) ns(2)] q1(4) obtain s' where
      s': "skynet_globalmq_push a (s\<lparr>mqs := (mqs s)(a \<mapsto> ?q)\<rparr>) = Some s'" "sched_ok s' (xs @ [a]) held"
      "same_queues (s\<lparr>mqs := (mqs s)(a \<mapsto> ?q)\<rparr>) s'" by auto
    have "skynet_mq_push a m s = Some s'"
      using assms(2) q1 False s'(1) by (simp add: skynet_mq_push_def)
    moreover have "mq_content s' = (mq_content s)(a \<mapsto> mq_list q @ [m])"
      unfolding same_queues_content [OF s'(3)] using ok(2) q1(3) by (auto simp: mq_content_def fun_eq_iff)
    ultimately show ?thesis using s'(2) False by auto
  qed
qed

lemma sched_mark_release:
  assumes "sched_ok s xs held" and "mqs s a = Some q" and "\<not> mq_release q"
  shows "\<exists>s'. skynet_mq_mark_release a s = Some s' \<and>
    sched_ok s' (if mq_in_global q then xs else xs @ [a]) held \<and> mq_content s' = mq_content s"
proof -
  note d = sched_okD [OF assms(1,2)]
  let ?q = "q\<lparr>mq_release := True\<rparr>"
  have ok: "mq_ok ?q" "mq_list ?q = mq_list q" using d(1) by (simp_all add: mq_ok_def mq_list_def)
  show ?thesis
  proof (cases "mq_in_global q")
    case True
    then have "scheduled ?q \<longleftrightarrow> a \<in> set xs \<union> held" using d(2) by (simp add: scheduled_def)
    moreover have "a \<in> set xs \<Longrightarrow> a \<notin> held" using assms(1) by (auto simp: sched_ok_def)
    ultimately have "sched_ok (s\<lparr>mqs := (mqs s)(a \<mapsto> ?q)\<rparr>) xs held"
      using ok True by (intro sched_ok_update [OF assms(1,2)]) simp_all
    then show ?thesis using assms(2,3) True ok(2)
      by (auto simp: skynet_mq_mark_release_def mq_content_def fun_eq_iff)
  next
    case False
    have ns: "\<not> scheduled q" "scheduled ?q" using False assms(3) by (simp_all add: scheduled_def)
    from sched_flag [OF assms(1,2) ns(1) ok(1) ns(2)] d(3) ok(2) obtain s' where
      s': "skynet_globalmq_push a (s\<lparr>mqs := (mqs s)(a \<mapsto> ?q)\<rparr>) = Some s'" "sched_ok s' (xs @ [a]) held"
      "same_queues (s\<lparr>mqs := (mqs s)(a \<mapsto> ?q)\<rparr>) s'" by auto
    then show ?thesis using assms(2,3) False ok(2) same_queues_content [OF s'(3)]
      by (auto simp: skynet_mq_mark_release_def mq_content_def fun_eq_iff)
  qed
qed

text \<open>A worker pops the queue it holds: a message, or the queue goes to sleep and is not held.\<close>

lemma sched_pop:
  assumes "sched_ok s xs held" and "mqs s a = Some q" and "a \<in> held"
  shows "case mq_list q of
      [] \<Rightarrow> \<exists>q'. skynet_mq_pop q = Some (None, q') \<and>
        (\<not> mq_release q \<longrightarrow> sched_ok (s\<lparr>mqs := (mqs s)(a \<mapsto> q')\<rparr>) xs (held - {a})) \<and> mq_list q' = []
    | m # ms \<Rightarrow> \<exists>q'. skynet_mq_pop q = Some (Some m, q') \<and>
        sched_ok (s\<lparr>mqs := (mqs s)(a \<mapsto> q')\<rparr>) xs held \<and> mq_list q' = ms \<and> mq_release q' = mq_release q \<and>
        mq_handle q' = mq_handle q"
proof -
  note d = sched_okD [OF assms(1,2)]
  have h: "mq_holds q (mq_list q)" using d(1) by (simp add: mq_holds_def)
  have na: "a \<notin> set xs" using assms(1,3) by (auto simp: sched_ok_def)
  show ?thesis
  proof (cases "mq_list q")
    case Nil
    let ?q = "q\<lparr>mq_overload_threshold := MQ_OVERLOAD, mq_in_global := False\<rparr>"
    from mq_pop_empty [OF h [unfolded Nil]] have
      p: "skynet_mq_pop q = Some (None, ?q)" "mq_ok ?q" "mq_list ?q = []" by (simp_all add: mq_holds_def)
    have "sched_ok (s\<lparr>mqs := (mqs s)(a \<mapsto> ?q)\<rparr>) xs (held - {a})" if "\<not> mq_release q"
      using p that na by (intro sched_ok_update [OF assms(1,2)]) (simp_all add: scheduled_def)
    with p Nil show ?thesis by simp
  next
    case (Cons m ms)
    from mq_pop_cons [OF h [unfolded Cons]] obtain q' where
      q': "skynet_mq_pop q = Some (Some m, q')" "mq_ok q'" "mq_list q' = ms" and
      r: "\<exists>hd ov th. q' = q\<lparr>mq_head := hd, mq_overload := ov, mq_overload_threshold := th\<rparr>"
      by (auto simp: Let_def mq_holds_def)
    from r have f: "mq_next q' = mq_next q" "mq_in_global q' = mq_in_global q" "mq_release q' = mq_release q"
      "mq_handle q' = mq_handle q" by auto
    have "sched_ok (s\<lparr>mqs := (mqs s)(a \<mapsto> q')\<rparr>) xs held"
      using q' f d Cons na by (intro sched_ok_update [OF assms(1,2)]) (simp_all add: scheduled_def)
    with q' f Cons show ?thesis by simp
  qed
qed


lemma sched_create:
  assumes "sched_ok s xs held" and "mqs s a = None"
  shows "sched_ok (skynet_mq_create a h s) xs (insert a held)"
    and "mq_content (skynet_mq_create a h s) = (mq_content s)(a \<mapsto> [])"
proof -
  have new: "mq_ok (mq_new h)" "mq_list (mq_new h) = []"
    using mq_new_holds [of h] by (simp_all add: mq_holds_def)
  have n: "next_of (skynet_mq_create a h s) = next_of s"
    using assms(2) by (auto simp: next_of_def skynet_mq_create_def mq_new_def fun_eq_iff)
  have na: "a \<notin> set xs" "a \<notin> held" using assms by (auto simp: sched_ok_def gq_ok_def)
  have g: "gq_ok (skynet_mq_create a h s) xs"
    using sched_ok_gq [OF assms(1)] na unfolding gq_ok_def n by (auto simp: skynet_mq_create_def)
  show "sched_ok (skynet_mq_create a h s) xs (insert a held)"
    unfolding sched_ok_def
  proof (intro conjI allI impI g)
    show "set xs \<inter> insert a held = {}" using assms(1) na by (auto simp: sched_ok_def)
    show "insert a held \<subseteq> dom (mqs (skynet_mq_create a h s))"
      using assms(1) by (auto simp: sched_ok_def skynet_mq_create_def)
    fix b p assume p: "mqs (skynet_mq_create a h s) b = Some p"
    have "mq_ok p \<and> (scheduled p \<longleftrightarrow> b \<in> set xs \<union> insert a held) \<and> (mq_list p \<noteq> [] \<longrightarrow> mq_in_global p)"
    proof (cases "b = a")
      case True
      with p have "p = mq_new h" by (simp add: skynet_mq_create_def)
      moreover have "scheduled (mq_new h)" "mq_list (mq_new h) = []" "mq_ok (mq_new h)"
        using new by (simp_all add: scheduled_def mq_new_def)
      ultimately show ?thesis using True by simp
    next
      case False
      with p have "mqs s b = Some p" by (simp add: skynet_mq_create_def)
      from sched_okD [OF assms(1) this] False show ?thesis by blast
    qed
    then show "mq_ok p" "scheduled p \<longleftrightarrow> b \<in> set xs \<union> insert a held" "mq_list p \<noteq> [] \<Longrightarrow> mq_in_global p"
      by blast+
  qed
  show "mq_content (skynet_mq_create a h s) = (mq_content s)(a \<mapsto> [])"
    using new by (auto simp: mq_content_def skynet_mq_create_def fun_eq_iff)
qed

text \<open>\<open>skynet_mq_release\<close> on a held queue: freed with all its messages dropped, or back in the global
  queue.\<close>

lemma sched_release:
  assumes "sched_ok s xs held" and "mqs s a = Some q" and "a \<in> held"
  shows "if mq_release q
    then \<exists>s'. skynet_mq_release a s = Some (mq_list q, s') \<and> sched_ok s' xs (held - {a}) \<and>
      mq_content s' = (mq_content s)(a := None)
    else \<exists>s'. skynet_mq_release a s = Some ([], s') \<and> sched_ok s' (xs @ [a]) (held - {a}) \<and>
      mq_content s' = mq_content s"
proof (cases "mq_release q")
  case False
  from sched_put [OF assms(1,3)] obtain s' where
    "skynet_globalmq_push a s = Some s'" "sched_ok s' (xs @ [a]) (held - {a})" "same_queues s s'" by blast
  with False assms(2) show ?thesis by (simp add: skynet_mq_release_def same_queues_content)
next
  case True
  have na: "a \<notin> set xs" using assms(1,3) by (auto simp: sched_ok_def)
  have nx: "mq_next q = None" by (rule sched_ok_next [OF assms(1,2) na])
  have h: "mq_holds q (mq_list q)" using sched_okD(1) [OF assms(1,2)] by (simp add: mq_holds_def)
  let ?s = "s\<lparr>mqs := (mqs s)(a := None)\<rparr>"
  from drop_loop_all [OF h, of "[]"] have r: "skynet_mq_release a s = Some (mq_list q, ?s)"
    using assms(2) True nx by (auto simp: skynet_mq_release_def drop_queue_def skynet_mq_release_free_def)
  have n: "next_of ?s = next_of s" using nx assms(2) by (auto simp: next_of_def fun_eq_iff)
  have g: "gq_ok ?s xs" using sched_ok_gq [OF assms(1)] na unfolding gq_ok_def n by auto
  have "sched_ok ?s xs (held - {a})"
    unfolding sched_ok_def
  proof (intro conjI allI impI g)
    show "set xs \<inter> (held - {a}) = {}" "held - {a} \<subseteq> dom (mqs ?s)"
      using assms(1) by (auto simp: sched_ok_def)
    fix b p assume "mqs ?s b = Some p"
    then have b: "b \<noteq> a" "mqs s b = Some p" by (auto split: if_splits)
    from sched_okD [OF assms(1) b(2)] b(1)
    show "mq_ok p" "scheduled p \<longleftrightarrow> b \<in> set xs \<union> (held - {a})" "mq_list p \<noteq> [] \<Longrightarrow> mq_in_global p"
      by blast+
  qed
  with r True show ?thesis by (auto simp: mq_content_def fun_eq_iff)
qed

subsection \<open>Flags of the queues\<close>

definition mq_flags :: "mq_store \<Rightarrow> addr \<Rightarrow> (bool \<times> u32) option" where
  "mq_flags s a = map_option (\<lambda>q. (mq_release q, mq_handle q)) (mqs s a)"

lemma enqueue_fields:
  "mq_enqueue m q = Some q1 \<Longrightarrow> mq_release q1 = mq_release q \<and> mq_handle q1 = mq_handle q"
  by (auto simp: mq_enqueue_def expand_queue_def Let_def Option.bind_eq_Some_conv split: if_splits)

lemma set_next_flags: "set_next a p s = Some s' \<Longrightarrow> mq_flags s' = mq_flags s"
  by (auto simp: set_next_def mq_flags_def Option.bind_eq_Some_conv fun_eq_iff)

lemma globalmq_push_flags: "skynet_globalmq_push a s = Some s' \<Longrightarrow> mq_flags s' = mq_flags s"
  by (auto simp: skynet_globalmq_push_def Option.bind_eq_Some_conv mq_flags_def fun_eq_iff
      dest: set_next_flags split: option.splits)

lemma mq_push_flags: "skynet_mq_push a m s = Some s' \<Longrightarrow> mq_flags s' = mq_flags s"
proof -
  assume "skynet_mq_push a m s = Some s'"
  then obtain q q1 where q: "mqs s a = Some q" "mq_enqueue m q = Some q1" and
    s': "s' = s\<lparr>mqs := (mqs s)(a \<mapsto> q1)\<rparr> \<or>
      skynet_globalmq_push a (s\<lparr>mqs := (mqs s)(a \<mapsto> q1\<lparr>mq_in_global := True\<rparr>)\<rparr>) = Some s'"
    by (auto simp: skynet_mq_push_def Option.bind_eq_Some_conv split: if_splits)
  have "mq_flags (s\<lparr>mqs := (mqs s)(a \<mapsto> q1)\<rparr>) = mq_flags s"
    "mq_flags (s\<lparr>mqs := (mqs s)(a \<mapsto> q1\<lparr>mq_in_global := True\<rparr>)\<rparr>) = mq_flags s"
    using q(1) enqueue_fields [OF q(2)] by (auto simp: mq_flags_def fun_eq_iff)
  with s' globalmq_push_flags show ?thesis by metis
qed

subsection \<open>Interleavings\<close>

datatype action =
  Create addr u32
| Put addr
| Take
| Push addr skynet_message
| Pop addr
| MarkRelease addr
| Release addr

type_synonym sched_state = "mq_store \<times> addr set"

text \<open>One step: what it delivers (a worker's pop, or the drop function of a release) and the state
  after it. \<open>Put\<close> is the \<open>skynet_globalmq_push\<close> of a worker or of \<open>skynet_context_new\<close>.\<close>

fun sched_exec :: "action \<Rightarrow> sched_state \<Rightarrow> ((addr \<times> skynet_message) list \<times> sched_state) option" where
  "sched_exec (Create a h) (s, held) = Some ([], skynet_mq_create a h s, insert a held)"
| "sched_exec (Put a) (s, held) = do { s' \<leftarrow> skynet_globalmq_push a s; Some ([], s', held - {a}) }"
| "sched_exec Take (s, held) = do {
     (p, s') \<leftarrow> skynet_globalmq_pop s;
     Some ([], s', case p of None \<Rightarrow> held | Some a \<Rightarrow> insert a held) }"
| "sched_exec (Push a m) (s, held) = do { s' \<leftarrow> skynet_mq_push a m s; Some ([], s', held) }"
| "sched_exec (Pop a) (s, held) = do {
     q \<leftarrow> mqs s a;
     (r, q') \<leftarrow> skynet_mq_pop q;
     let s' = s\<lparr>mqs := (mqs s)(a \<mapsto> q')\<rparr>;
     Some (case r of None \<Rightarrow> ([], s', held - {a}) | Some m \<Rightarrow> ([(a, m)], s', held)) }"
| "sched_exec (MarkRelease a) (s, held) = do { s' \<leftarrow> skynet_mq_mark_release a s; Some ([], s', held) }"
| "sched_exec (Release a) (s, held) = do {
     (out, s') \<leftarrow> skynet_mq_release a s;
     Some (map (Pair a) out, s', held - {a}) }"

text \<open>What the code guarantees before it calls: the address of a new queue is not in use; a thread
  pushes back, pops and releases only a queue it holds, and pops only while the service is alive;
  messages are pushed to, and deletion marks, only queues of living services.\<close>

fun sched_enabled :: "action \<Rightarrow> sched_state \<Rightarrow> bool" where
  "sched_enabled (Create a h) (s, held) \<longleftrightarrow> mqs s a = None"
| "sched_enabled (Put a) (s, held) \<longleftrightarrow> a \<in> held"
| "sched_enabled Take (s, held) \<longleftrightarrow> True"
| "sched_enabled (Push a m) (s, held) \<longleftrightarrow> map_option mq_release (mqs s a) = Some False"
| "sched_enabled (Pop a) (s, held) \<longleftrightarrow> a \<in> held \<and> map_option mq_release (mqs s a) = Some False"
| "sched_enabled (MarkRelease a) (s, held) \<longleftrightarrow> map_option mq_release (mqs s a) = Some False"
| "sched_enabled (Release a) (s, held) \<longleftrightarrow> a \<in> held"

fun sched_run :: "action list \<Rightarrow> sched_state \<Rightarrow> ((addr \<times> skynet_message) list \<times> sched_state) option" where
  "sched_run [] st = Some ([], st)"
| "sched_run (x # xs) st = do {
     (out, st') \<leftarrow> sched_exec x st;
     (out', st'') \<leftarrow> sched_run xs st';
     Some (out @ out', st'') }"

fun sched_legal :: "action list \<Rightarrow> sched_state \<Rightarrow> bool" where
  "sched_legal [] st \<longleftrightarrow> True"
| "sched_legal (x # xs) st \<longleftrightarrow> sched_enabled x st \<and>
     (case sched_exec x st of None \<Rightarrow> True | Some (out, st') \<Rightarrow> sched_legal xs st')"

definition pending :: "mq_store \<Rightarrow> addr \<Rightarrow> skynet_message list" where
  "pending s a = (case mq_content s a of None \<Rightarrow> [] | Some ms \<Rightarrow> ms)"

definition delivered_to :: "addr \<Rightarrow> (addr \<times> skynet_message) list \<Rightarrow> skynet_message list" where
  "delivered_to a out = map snd (filter (\<lambda>x. fst x = a) out)"

definition pushed_to :: "addr \<Rightarrow> action list \<Rightarrow> skynet_message list" where
  "pushed_to a acts = List.map_filter
     (\<lambda>x. case x of Push b m \<Rightarrow> if b = a then Some m else None | _ \<Rightarrow> None) acts"

lemma sched_exec_ok:
  assumes ok: "sched_ok s xs held" and en: "sched_enabled x (s, held)"
  shows "\<exists>out s' held' xs'. sched_exec x (s, held) = Some (out, s', held') \<and> sched_ok s' xs' held' \<and>
    (\<forall>a. delivered_to a out @ pending s' a = pending s a @ pushed_to a [x])"
proof (cases x)
  case (Create a h)
  with en have a: "mqs s a = None" by simp
  then have "mq_content s a = None" by (simp add: mq_content_def)
  then have "pending (skynet_mq_create a h s) b = pending s b" for b
    using sched_create(2) [OF ok a, of h] by (simp add: pending_def)
  with sched_create(1) [OF ok a, of h] Create show ?thesis
    by (auto simp: delivered_to_def pushed_to_def map_filter_simps)
next
  case (Put a)
  with en sched_put [OF ok, of a] obtain s' where
    "skynet_globalmq_push a s = Some s'" "sched_ok s' (xs @ [a]) (held - {a})" "same_queues s s'" by auto
  with Put show ?thesis
    by (auto simp: pending_def same_queues_content delivered_to_def pushed_to_def map_filter_simps)
next
  case Take
  show ?thesis
  proof (cases xs)
    case Nil
    with sched_take_empty ok Take show ?thesis
      by (auto simp: delivered_to_def pushed_to_def map_filter_simps)
  next
    case (Cons a ys)
    with sched_take ok obtain s' where
      "skynet_globalmq_pop s = Some (Some a, s')" "sched_ok s' ys (insert a held)" "same_queues s s'" by metis
    with Take show ?thesis
      by (auto simp: pending_def same_queues_content delivered_to_def pushed_to_def map_filter_simps)
  qed
next
  case (Push a m)
  with en obtain q where q: "mqs s a = Some q" "\<not> mq_release q" by auto
  then have c: "mq_content s a = Some (mq_list q)" by (simp add: mq_content_def)
  from sched_push [OF ok q, of m] obtain s' ys where
    "skynet_mq_push a m s = Some s'" "sched_ok s' ys held" "mq_content s' = (mq_content s)(a \<mapsto> mq_list q @ [m])"
    by blast
  with Push c show ?thesis
    by (auto simp: pending_def delivered_to_def pushed_to_def map_filter_simps)
next
  case (Pop a)
  with en obtain q where q: "mqs s a = Some q" "\<not> mq_release q" "a \<in> held" by auto
  note p = sched_pop [OF ok q(1,3)]
  show ?thesis
  proof (cases "mq_list q")
    case Nil
    with p q(2) obtain q' where
      q': "skynet_mq_pop q = Some (None, q')" "sched_ok (s\<lparr>mqs := (mqs s)(a \<mapsto> q')\<rparr>) xs (held - {a})"
      "mq_list q' = []" by auto
    then have "pending (s\<lparr>mqs := (mqs s)(a \<mapsto> q')\<rparr>) b = pending s b" for b
      using q(1) Nil by (simp add: pending_def mq_content_def)
    with q' q(1) Pop show ?thesis
      by (auto simp: delivered_to_def pushed_to_def map_filter_simps Let_def)
  next
    case (Cons m ms)
    with p obtain q' where
      q': "skynet_mq_pop q = Some (Some m, q')" "sched_ok (s\<lparr>mqs := (mqs s)(a \<mapsto> q')\<rparr>) xs held"
      "mq_list q' = ms" by auto
    then have "delivered_to b [(a, m)] @ pending (s\<lparr>mqs := (mqs s)(a \<mapsto> q')\<rparr>) b = pending s b" for b
      using q(1) Cons by (simp add: pending_def mq_content_def delivered_to_def)
    with q' q(1) Pop show ?thesis by (auto simp: pushed_to_def map_filter_simps Let_def)
  qed
next
  case (MarkRelease a)
  with en obtain q where q: "mqs s a = Some q" "\<not> mq_release q" by auto
  from sched_mark_release [OF ok q] obtain s' ys where
    "skynet_mq_mark_release a s = Some s'" "sched_ok s' ys held" "mq_content s' = mq_content s" by blast
  with MarkRelease show ?thesis
    by (auto simp: pending_def delivered_to_def pushed_to_def map_filter_simps)
next
  case (Release a)
  with en have a: "a \<in> held" by simp
  with ok obtain q where q: "mqs s a = Some q" by (auto simp: sched_ok_def)
  note r = sched_release [OF ok q a]
  show ?thesis
  proof (cases "mq_release q")
    case True
    with r obtain s' where
      s': "skynet_mq_release a s = Some (mq_list q, s')" "sched_ok s' xs (held - {a})"
      "mq_content s' = (mq_content s)(a := None)" by auto
    have "delivered_to b (map (Pair a) (mq_list q)) @ pending s' b = pending s b" for b
      using s'(3) q by (simp add: pending_def delivered_to_def filter_map comp_def mq_content_def)
    with s' Release show ?thesis by (auto simp: pushed_to_def map_filter_simps)
  next
    case False
    with r Release show ?thesis
      by (auto simp: pending_def delivered_to_def pushed_to_def map_filter_simps)
  qed
qed


lemma sched_run_ok:
  "sched_ok s xs held \<Longrightarrow> sched_legal acts (s, held) \<Longrightarrow>
   \<exists>out s' held' xs'. sched_run acts (s, held) = Some (out, s', held') \<and> sched_ok s' xs' held' \<and>
     (\<forall>a. delivered_to a out @ pending s' a = pending s a @ pushed_to a acts)"
proof (induction acts arbitrary: s xs held)
  case Nil
  then show ?case by (auto simp: delivered_to_def pushed_to_def map_filter_simps)
next
  case (Cons x acts)
  from Cons.prems(2) have en: "sched_enabled x (s, held)" by simp
  from sched_exec_ok [OF Cons.prems(1) en] obtain out1 s1 held1 xs1 where
    e: "sched_exec x (s, held) = Some (out1, s1, held1)" "sched_ok s1 xs1 held1"
    "\<And>a. delivered_to a out1 @ pending s1 a = pending s a @ pushed_to a [x]" by blast
  from Cons.prems(2) e(1) have "sched_legal acts (s1, held1)" by simp
  from Cons.IH [OF e(2) this] obtain out s' held' xs' where
    r: "sched_run acts (s1, held1) = Some (out, s', held')" "sched_ok s' xs' held'"
    "\<And>a. delivered_to a out @ pending s' a = pending s1 a @ pushed_to a acts" by blast
  have "delivered_to a (out1 @ out) @ pending s' a = pending s a @ pushed_to a (x # acts)" for a
  proof -
    have "pushed_to a (x # acts) = pushed_to a [x] @ pushed_to a acts"
      by (simp add: pushed_to_def map_filter_def)
    moreover have "delivered_to a (out1 @ out) = delivered_to a out1 @ delivered_to a out"
      by (simp add: delivered_to_def)
    ultimately show ?thesis using e(3) [of a] r(3) [of a] by (metis append.assoc)
  qed
  with e(1) r(1,2) show ?case by auto
qed

lemma sched_ok_init: "sched_ok skynet_mq_init [] {}"
  using gq_ok_init by (simp add: sched_ok_def) (simp add: skynet_mq_init_def)

subsection \<open>Properties\<close>

lemmas sched_eval = skynet_mq_create_def skynet_mq_init_def mq_new_def skynet_mq_push_def mq_enqueue_def
  array_set_def array_get_def DEFAULT_QUEUE_SIZE_def skynet_globalmq_push_def skynet_globalmq_pop_def
  set_next_def skynet_mq_pop_def overload_loop.simps MQ_OVERLOAD_def Let_def

text \<open>Property C1. Every legal interleaving of service creation, sends, worker dispatch, deletion
  and release, by any number of threads, runs: no assertion of \<open>skynet_mq.c\<close> fails, no freed queue is
  used, no queue is pushed to the global queue twice. For each queue the messages delivered (to the
  service, or to the drop function when it is released), followed by those still queued, are the
  messages pushed to it, in order.\<close>

theorem sched_run_conserves:
  assumes "sched_legal acts (skynet_mq_init, {})"
  shows "\<exists>out s held. sched_run acts (skynet_mq_init, {}) = Some (out, s, held) \<and>
    (\<forall>a. delivered_to a out @ pending s a = pushed_to a acts)"
proof -
  from sched_run_ok [OF sched_ok_init assms] obtain out s held xs where
    r: "sched_run acts (skynet_mq_init, {}) = Some (out, s, held)" "sched_ok s xs held"
    "\<And>a. delivered_to a out @ pending s a = pending skynet_mq_init a @ pushed_to a acts" by blast
  have "pending skynet_mq_init a = []" for a
    by (simp add: pending_def mq_content_def skynet_mq_init_def)
  with r show ?thesis by auto
qed

theorem sched_run_conserves_witness:
  "\<exists>out s held. sched_run [Create 1 5, Push 1 \<lparr>msg_source = 2, msg_session = 3, msg_data = None, msg_sz = 0\<rparr>,
       Put 1, Take, Pop 1, Pop 1] (skynet_mq_init, {}) = Some (out, s, held) \<and>
     delivered_to 1 out @ pending s 1 = [\<lparr>msg_source = 2, msg_session = 3, msg_data = None, msg_sz = 0\<rparr>]"
proof -
  let ?m = "\<lparr>msg_source = 2, msg_session = 3, msg_data = None, msg_sz = 0\<rparr> :: skynet_message"
  have "sched_legal [Create 1 5, Push 1 ?m, Put 1, Take, Pop 1, Pop 1] (skynet_mq_init, {})"
    by (simp add: sched_eval)
  from sched_run_conserves [OF this] show ?thesis by (auto simp: pushed_to_def map_filter_simps)
qed

text \<open>Property C5. No service with messages is forgotten: in every state a legal interleaving
  reaches, a queue that holds a message is in the global queue or held by a thread, the global queue
  is a duplicate-free list of allocated queues, and a queue is never both.\<close>

theorem sched_run_no_lost_wakeup:
  assumes "sched_legal acts (skynet_mq_init, {})"
    and "sched_run acts (skynet_mq_init, {}) = Some (out, s, held)"
  shows "\<exists>xs. gq_ok s xs \<and> distinct xs \<and> set xs \<inter> held = {} \<and>
    (\<forall>a. pending s a \<noteq> [] \<longrightarrow> a \<in> set xs \<or> a \<in> held)"
proof -
  from sched_run_ok [OF sched_ok_init assms(1)] assms(2) obtain xs where ok: "sched_ok s xs held" by auto
  have "a \<in> set xs \<or> a \<in> held" if "pending s a \<noteq> []" for a
  proof -
    from that obtain q where q: "mqs s a = Some q" "mq_list q \<noteq> []"
      by (auto simp: pending_def mq_content_def split: option.splits)
    from sched_okD(2,3) [OF ok q(1)] q(2) show ?thesis by (simp add: scheduled_def)
  qed
  with ok gq_ok_distinct [OF sched_ok_gq [OF ok]] show ?thesis by (auto simp: sched_ok_def)
qed


theorem sched_run_no_lost_wakeup_witness:
  "\<exists>out s held xs. sched_run [Create 1 5, Push 1 \<lparr>msg_source = 2, msg_session = 3, msg_data = None, msg_sz = 0\<rparr>]
       (skynet_mq_init, {}) = Some (out, s, held) \<and> pending s 1 \<noteq> [] \<and> gq_ok s xs \<and> (1 \<in> set xs \<or> 1 \<in> held)"
proof -
  let ?m = "\<lparr>msg_source = 2, msg_session = 3, msg_data = None, msg_sz = 0\<rparr> :: skynet_message"
  let ?acts = "[Create 1 5, Push 1 ?m]"
  have l: "sched_legal ?acts (skynet_mq_init, {})" by (simp add: sched_eval split: option.split)
  from sched_run_ok [OF sched_ok_init l] obtain out s held where
    r: "sched_run ?acts (skynet_mq_init, {}) = Some (out, s, held)" and
    c: "delivered_to 1 out @ pending s 1 = pending skynet_mq_init 1 @ pushed_to 1 ?acts" by blast
  have "out = []" using r by (auto simp: Option.bind_eq_Some_conv split: prod.splits)
  then have "pending s 1 \<noteq> []" using c by (simp add: pushed_to_def map_filter_simps delivered_to_def)
  with sched_run_no_lost_wakeup [OF l r] r show ?thesis by blast
qed

end
