(* ===== verification/CString.thy ===== *)
theory CString
  imports Prelude
begin

section \<open>C strings\<close>

text \<open>
  A NUL-terminated string is the list of its bytes before the NUL. \<open>strcmp\<close> compares unsigned
  bytes; a string that ends is below one that goes on. The order it gives is linear, so
  \<open>cstr\<close> is an instance of \<open>linorder\<close> and the sorted tables of the core (the service names of
  \<open>skynet_handle.c\<close>) use the library's notion of sortedness.
\<close>

datatype cstr = CStr (bytes_of: "u8 list")

fun bytes_cmp :: "u8 list \<Rightarrow> u8 list \<Rightarrow> int" where
  "bytes_cmp [] [] = 0"
| "bytes_cmp [] (y # ys) = -1"
| "bytes_cmp (x # xs) [] = 1"
| "bytes_cmp (x # xs) (y # ys) =
     (if x = y then bytes_cmp xs ys else if x < y then -1 else 1)"

definition strcmp :: "cstr \<Rightarrow> cstr \<Rightarrow> int" where
  "strcmp a b = bytes_cmp (bytes_of a) (bytes_of b)"

lemma bytes_cmp_eq: "bytes_cmp xs ys = 0 \<longleftrightarrow> xs = ys"
  by (induction xs ys rule: bytes_cmp.induct) auto

lemma bytes_cmp_swap: "bytes_cmp xs ys = - bytes_cmp ys xs"
  by (induction xs ys rule: bytes_cmp.induct) auto

lemma bytes_cmp_refl [simp]: "bytes_cmp xs xs = 0"
  by (simp add: bytes_cmp_eq)

lemma bytes_cmp_trans:
  "bytes_cmp xs ys \<le> 0 \<Longrightarrow> bytes_cmp ys zs \<le> 0 \<Longrightarrow> bytes_cmp xs zs \<le> 0"
proof (induction xs zs arbitrary: ys rule: bytes_cmp.induct)
  case (3 x xs)
  then show ?case by (cases ys) (auto split: if_splits)
next
  case (4 x xs z zs)
  then show ?case by (cases ys) (auto split: if_splits)
qed simp_all

instantiation cstr :: linorder
begin

definition less_eq_cstr :: "cstr \<Rightarrow> cstr \<Rightarrow> bool" where
  "less_eq_cstr a b \<longleftrightarrow> strcmp a b \<le> 0"

definition less_cstr :: "cstr \<Rightarrow> cstr \<Rightarrow> bool" where
  "less_cstr a b \<longleftrightarrow> strcmp a b < 0"

instance
proof
  fix a b c :: cstr
  have swap: "strcmp b a = - strcmp a b" by (simp only: strcmp_def bytes_cmp_swap [of "bytes_of b"])
  show "a < b \<longleftrightarrow> a \<le> b \<and> \<not> b \<le> a"
    unfolding less_eq_cstr_def less_cstr_def using swap by linarith
  show "a \<le> a" by (simp add: less_eq_cstr_def strcmp_def)
  show "a \<le> b \<Longrightarrow> b \<le> c \<Longrightarrow> a \<le> c"
    unfolding less_eq_cstr_def strcmp_def by (rule bytes_cmp_trans)
  show "a = b" if "a \<le> b" and "b \<le> a"
  proof -
    have "bytes_cmp (bytes_of a) (bytes_of b) = 0"
      using that swap unfolding less_eq_cstr_def strcmp_def by linarith
    then show "a = b" unfolding bytes_cmp_eq by (rule cstr.expand)
  qed
  show "a \<le> b \<or> b \<le> a" unfolding less_eq_cstr_def using swap by linarith
qed

end

lemma strcmp_zero [simp]: "strcmp a b = 0 \<longleftrightarrow> a = b"
  by (cases a; cases b) (simp add: strcmp_def bytes_cmp_eq)

lemma strcmp_neg [simp]: "strcmp a b < 0 \<longleftrightarrow> a < b"
  by (simp add: less_cstr_def)

end
