(* ===== verification/Context.thy ===== *)
theory Context
  imports Message CString
begin

section \<open>Service contexts (skynet-src/skynet_server.c)\<close>

text \<open>
  The record \<open>struct skynet_context\<close>, the store of contexts, and the operations on one context that
  the other components call: reading its handle, taking a reference, and numbering sessions.
  Creating, releasing and dispatching contexts involves the handle table and the message queues and
  is in the theory \<open>Server\<close>.
\<close>

record skynet_context =
  ctx_instance :: addr
  ctx_mod :: nat
  ctx_cb :: ptr
  ctx_cb_ud :: ptr
  ctx_queue :: ptr
  ctx_logfile :: ptr
  ctx_cpu_cost :: u64
  ctx_cpu_start :: u64
  ctx_result :: cstr
  ctx_handle :: u32
  ctx_session_id :: i32
  ctx_ref :: int
  ctx_message_count :: i32
  ctx_init :: bool
  ctx_endless :: bool
  ctx_profile :: bool

type_synonym ctx_store = "addr \<Rightarrow> skynet_context option"

definition skynet_context_handle :: "addr \<Rightarrow> ctx_store \<Rightarrow> u32 option" where
  "skynet_context_handle a cs = do { c \<leftarrow> cs a; Some (ctx_handle c) }"

definition skynet_context_grab :: "addr \<Rightarrow> ctx_store \<Rightarrow> ctx_store option" where
  "skynet_context_grab a cs = do {
     c \<leftarrow> cs a;
     Some (cs(a \<mapsto> c\<lparr>ctx_ref := ctx_ref c + 1\<rparr>)) }"

definition skynet_callback :: "addr \<Rightarrow> ptr \<Rightarrow> ptr \<Rightarrow> ctx_store \<Rightarrow> ctx_store option" where
  "skynet_callback a ud cb cs = do {
     c \<leftarrow> cs a;
     Some (cs(a \<mapsto> c\<lparr>ctx_cb := cb, ctx_cb_ud := ud\<rparr>)) }"

text \<open>\<open>++ctx->session_id\<close> is a 32-bit signed increment; it wraps (as the code is compiled), and the
  wrapped value is replaced by 1.\<close>

definition skynet_context_newsession :: "skynet_context \<Rightarrow> i32 \<times> skynet_context" where
  "skynet_context_newsession c =
     (let session = ctx_session_id c + 1 in
      if sint session \<le> 0 then (1, c\<lparr>ctx_session_id := 1\<rparr>)
      else (session, c\<lparr>ctx_session_id := session\<rparr>))"

text \<open>A new session id is always positive, whatever the counter was (also at
  \<open>2 ^ 31 - 1\<close>, where the increment wraps), and it is the value the context then remembers.\<close>

lemma newsession_positive:
  "0 < sint (fst (skynet_context_newsession c)) \<and>
   ctx_session_id (snd (skynet_context_newsession c)) = fst (skynet_context_newsession c)"
  by (simp add: skynet_context_newsession_def Let_def)

end
