(* ===== verification/Handle.thy ===== *)
theory Handle
  imports Context
begin

section \<open>The handle table (skynet-src/skynet_handle.c)\<close>

text \<open>
  The slots map handles to contexts: a power-of-two array indexed by the low bits of the handle,
  doubled when a scan finds no free slot. The names are a sorted array searched by bisection. Each
  function body between \<open>rwlock_wlock\<close> and its unlock is one step; \<open>int\<close> sizes are naturals (the
  assertion in \<open>register\<close> keeps them below \<open>2 ^ 24\<close>). What \<open>malloc\<close> leaves uninitialised is a
  \<open>None\<close> cell; a NULL slot is \<open>Some None\<close>.
\<close>

subsection \<open>The model\<close>

definition DEFAULT_SLOT_SIZE :: nat where "DEFAULT_SLOT_SIZE = 4"
definition MAX_SLOT_SIZE :: nat where "MAX_SLOT_SIZE = 2 ^ 30"

record handle_name =
  hn_name :: cstr
  hn_handle :: u32

record handle_storage =
  harbor :: u32
  handle_index :: u32
  slot_size :: nat
  slot :: "ptr array"
  name_cap :: nat
  name_count :: nat
  h_name :: "handle_name array"

definition skynet_handle_init :: "i32 \<Rightarrow> handle_storage" where
  "skynet_handle_init harb =
     \<lparr>harbor = push_bit HANDLE_REMOTE_SHIFT (harb AND 0xff), handle_index = 1,
      slot_size = DEFAULT_SLOT_SIZE, slot = replicate DEFAULT_SLOT_SIZE (Some None),
      name_cap = 2, name_count = 0, h_name = array_new 2\<rparr>"

text \<open>\<open>handle & (size - 1)\<close>.\<close>

definition slot_hash :: "u32 \<Rightarrow> nat \<Rightarrow> nat" where
  "slot_hash handle n = unat (handle AND of_nat (n - 1))"

text \<open>The inner \<open>for\<close> loop of \<open>skynet_handle_register\<close>: the free slot and its handle, if any.\<close>

function register_scan :: "handle_storage \<Rightarrow> nat \<Rightarrow> u32 \<Rightarrow> (nat \<times> u32) option option" where
  "register_scan s i handle =
     (if i < slot_size s then do {
        let handle = (if HANDLE_MASK < handle then 1 else handle);
        let hash = slot_hash handle (slot_size s);
        p \<leftarrow> array_get (slot s) hash;
        if p = None then Some (Some (hash, handle)) else register_scan s (i + 1) (handle + 1) }
      else Some None)"
  by pat_completeness auto
termination
  by (relation "measure (\<lambda>(s, i, handle). slot_size s - i)") auto

text \<open>The loop that rehashes every context into a table of twice the size.\<close>

definition rehash :: "ctx_store \<Rightarrow> handle_storage \<Rightarrow> ptr array option" where
  "rehash cs s =
     c_for 0 (slot_size s)
       (\<lambda>i new_slot. do {
          p \<leftarrow> array_get (slot s) i;
          ctx \<leftarrow> p;
          h \<leftarrow> skynet_context_handle ctx cs;
          let hash = slot_hash h (slot_size s * 2);
          old \<leftarrow> array_get new_slot hash;
          c_assert (old = None);
          array_set new_slot hash (Some ctx) })
       (replicate (slot_size s * 2) (Some None))"

partial_function (option) skynet_handle_register ::
  "ctx_store \<Rightarrow> addr \<Rightarrow> handle_storage \<Rightarrow> (u32 \<times> handle_storage) option" where
  "skynet_handle_register cs ctx s = do {
     r \<leftarrow> register_scan s 0 (handle_index s);
     case r of
       Some (hash, handle) \<Rightarrow> do {
         sl \<leftarrow> array_set (slot s) hash (Some ctx);
         Some (handle OR harbor s, s\<lparr>slot := sl, handle_index := handle + 1\<rparr>) }
     | None \<Rightarrow> do {
         c_assert (slot_size s * 2 - 1 \<le> unat HANDLE_MASK);
         new_slot \<leftarrow> rehash cs s;
         skynet_handle_register cs ctx (s\<lparr>slot := new_slot, slot_size := slot_size s * 2\<rparr>) } }"

text \<open>The loop of \<open>skynet_handle_retire\<close> that drops the names of a handle, in place.\<close>

definition drop_names :: "u32 \<Rightarrow> handle_storage \<Rightarrow> (nat \<times> handle_name array) option" where
  "drop_names handle s =
     c_for 0 (name_count s)
       (\<lambda>i (j, arr). do {
          n \<leftarrow> array_get arr i;
          if hn_handle n = handle then Some (j, arr)
          else do {
            arr' \<leftarrow> (if i \<noteq> j then array_set arr j n else Some arr);
            Some (j + 1, arr') } })
       (0, h_name s)"

text \<open>\<open>skynet_handle_retire\<close> up to the unlock; the context returned is the one it then releases.\<close>

definition handle_unlink :: "ctx_store \<Rightarrow> u32 \<Rightarrow> handle_storage \<Rightarrow> (ptr \<times> handle_storage) option" where
  "handle_unlink cs handle s = do {
     let hash = slot_hash handle (slot_size s);
     p \<leftarrow> array_get (slot s) hash;
     case p of
       None \<Rightarrow> Some (None, s)
     | Some ctx \<Rightarrow> do {
         h \<leftarrow> skynet_context_handle ctx cs;
         if h = handle then do {
           sl \<leftarrow> array_set (slot s) hash None;
           (j, arr) \<leftarrow> drop_names handle s;
           Some (Some ctx, s\<lparr>slot := sl, h_name := arr, name_count := j\<rparr>) }
         else Some (None, s) } }"

definition skynet_handle_grab :: "u32 \<Rightarrow> handle_storage \<Rightarrow> ctx_store \<Rightarrow> (ptr \<times> ctx_store) option" where
  "skynet_handle_grab handle s cs = do {
     let hash = slot_hash handle (slot_size s);
     p \<leftarrow> array_get (slot s) hash;
     case p of
       None \<Rightarrow> Some (None, cs)
     | Some ctx \<Rightarrow> do {
         h \<leftarrow> skynet_context_handle ctx cs;
         if h = handle then do { cs' \<leftarrow> skynet_context_grab ctx cs; Some (Some ctx, cs') }
         else Some (None, cs) } }"

text \<open>The bisection of \<open>skynet_handle_findname\<close> and \<open>_insert_name\<close>: the entry found, or the place
  where the name belongs.\<close>

function bisect :: "handle_name array \<Rightarrow> cstr \<Rightarrow> int \<Rightarrow> int \<Rightarrow> (handle_name + nat) option" where
  "bisect arr name b e =
     (if b \<le> e then do {
        let mid = (b + e) div 2;
        n \<leftarrow> array_get arr (nat mid);
        let c = strcmp (hn_name n) name;
        if c = 0 then Some (Inl n)
        else if c < 0 then bisect arr name (mid + 1) e
        else bisect arr name b (mid - 1) }
      else Some (Inr (nat b)))"
  by pat_completeness auto
termination
  by (relation "measure (\<lambda>(arr, name, b, e). nat (e + 1 - b))") auto

declare register_scan.simps [simp del] bisect.simps [simp del]

definition skynet_handle_findname :: "cstr \<Rightarrow> handle_storage \<Rightarrow> u32 option" where
  "skynet_handle_findname name s = do {
     r \<leftarrow> bisect (h_name s) name 0 (int (name_count s) - 1);
     case r of Inl n \<Rightarrow> Some (hn_handle n) | Inr _ \<Rightarrow> Some 0 }"

definition insert_name_before ::
  "handle_storage \<Rightarrow> cstr \<Rightarrow> u32 \<Rightarrow> nat \<Rightarrow> handle_storage option" where
  "insert_name_before s name handle before = do {
     s1 \<leftarrow> (if name_cap s \<le> name_count s then do {
              let cap = name_cap s * 2;
              c_assert (cap \<le> MAX_SLOT_SIZE);
              n1 \<leftarrow> c_for 0 before
                (\<lambda>i n. do { x \<leftarrow> array_get (h_name s) i; array_set n i x }) (array_new cap);
              n2 \<leftarrow> c_for before (name_count s)
                (\<lambda>i n. do { x \<leftarrow> array_get (h_name s) i; array_set n (i + 1) x }) n1;
              Some (s\<lparr>name_cap := cap, h_name := n2\<rparr>) }
            else do {
              n \<leftarrow> c_for_down (name_count s) before
                (\<lambda>i n. do { x \<leftarrow> array_get n (i - 1); array_set n i x }) (h_name s);
              Some (s\<lparr>h_name := n\<rparr>) });
     n \<leftarrow> array_set (h_name s1) before \<lparr>hn_name = name, hn_handle = handle\<rparr>;
     Some (s1\<lparr>h_name := n, name_count := name_count s1 + 1\<rparr>) }"

text \<open>\<open>_insert_name\<close>, and \<open>skynet_handle_namehandle\<close>, which is it under the lock; NULL is \<open>None\<close>
  as the name returned.\<close>

definition insert_name :: "handle_storage \<Rightarrow> cstr \<Rightarrow> u32 \<Rightarrow> (cstr option \<times> handle_storage) option" where
  "insert_name s name handle = do {
     r \<leftarrow> bisect (h_name s) name 0 (int (name_count s) - 1);
     case r of
       Inl _ \<Rightarrow> Some (None, s)
     | Inr b \<Rightarrow> do { s' \<leftarrow> insert_name_before s name handle b; Some (Some name, s') } }"

definition skynet_handle_namehandle ::
  "u32 \<Rightarrow> cstr \<Rightarrow> handle_storage \<Rightarrow> (cstr option \<times> handle_storage) option" where
  "skynet_handle_namehandle handle name s = insert_name s name handle"

subsection \<open>Invariant of the table\<close>

definition in_slots :: "handle_storage \<Rightarrow> addr \<Rightarrow> bool" where
  "in_slots s a \<longleftrightarrow> Some (Some a) \<in> set (slot s)"

definition handle_wf :: "handle_storage \<Rightarrow> u32 \<Rightarrow> bool" where
  "handle_wf s h \<longleftrightarrow> h AND HANDLE_MASK \<noteq> 0 \<and> (h AND HANDLE_MASK) OR harbor s = h"

definition slots_ok :: "ctx_store \<Rightarrow> handle_storage \<Rightarrow> bool" where
  "slots_ok cs s \<longleftrightarrow>
     (\<exists>k\<ge>2. k \<le> 24 \<and> slot_size s = 2 ^ k) \<and> length (slot s) = slot_size s \<and>
     None \<notin> set (slot s) \<and>
     (\<forall>i < slot_size s. \<forall>a. slot s ! i = Some (Some a) \<longrightarrow>
        (\<exists>c. cs a = Some c \<and> slot_hash (ctx_handle c) (slot_size s) = i \<and> handle_wf s (ctx_handle c))) \<and>
     0 < unat (handle_index s) \<and> unat (handle_index s) \<le> 2 ^ 24 \<and> harbor s AND HANDLE_MASK = 0"

text \<open>The partial map the table stands for.\<close>

definition handle_table :: "ctx_store \<Rightarrow> handle_storage \<Rightarrow> u32 \<Rightarrow> ptr" where
  "handle_table cs s h =
     (case array_get (slot s) (slot_hash h (slot_size s)) of
        Some (Some a) \<Rightarrow> if map_option ctx_handle (cs a) = Some h then Some a else None
      | _ \<Rightarrow> None)"

lemma slot_hash_mod: "k \<le> 24 \<Longrightarrow> slot_hash h (2 ^ k) = unat h mod 2 ^ k"
proof -
  assume "k \<le> 24"
  have "(of_nat (2 ^ k - 1) :: u32) = mask k" by (simp add: mask_eq_exp_minus_1 of_nat_diff)
  then show ?thesis by (simp only: slot_hash_def unat_and_mask)
qed

lemma slot_hash_less: "k \<le> 24 \<Longrightarrow> slot_hash h (2 ^ k) < 2 ^ k"
  by (simp add: slot_hash_mod)

lemma slot_hash_mono: "k \<le> 23 \<Longrightarrow> slot_hash h (2 ^ Suc k) mod 2 ^ k = slot_hash h (2 ^ k)"
proof -
  assume "k \<le> 23"
  moreover have "unat h mod 2 ^ Suc k mod 2 ^ k = unat h mod 2 ^ k"
    by (rule mod_mod_cancel) simp
  ultimately show ?thesis by (simp only: slot_hash_mod)
qed

lemma slot_hash_harbor:
  assumes "harb AND HANDLE_MASK = 0" and "k \<le> 24"
  shows "slot_hash (h OR harb) (2 ^ k) = slot_hash h (2 ^ k)"
proof -
  have "harb AND mask k = 0"
  proof (rule bit_word_eqI)
    fix n assume "n < LENGTH(32)"
    from assms(1) have "bit (harb AND HANDLE_MASK) n = bit (0 :: u32) n"
      by (rule arg_cong [where f = "\<lambda>w. bit w n"])
    then show "bit (harb AND mask k) n = bit (0 :: u32) n"
      using assms(2) by (auto simp: bit_simps HANDLE_MASK_def)
  qed
  moreover have "(of_nat (2 ^ k - 1) :: u32) = mask k" by (simp add: mask_eq_exp_minus_1 of_nat_diff)
  ultimately show ?thesis by (simp only: slot_hash_def word_ao_dist or.right_neutral)
qed

lemma handle_table_iff:
  assumes "slots_ok cs s"
  shows "handle_table cs s h = Some a \<longleftrightarrow> in_slots s a \<and> map_option ctx_handle (cs a) = Some h"
proof -
  from assms obtain k where k: "k \<le> 24" "slot_size s = 2 ^ k" by (auto simp: slots_ok_def)
  have len: "length (slot s) = slot_size s" using assms by (simp add: slots_ok_def)
  have lt: "slot_hash h (slot_size s) < length (slot s)" unfolding len k(2) by (rule slot_hash_less [OF k(1)])
  show ?thesis
  proof
    assume "handle_table cs s h = Some a"
    then show "in_slots s a \<and> map_option ctx_handle (cs a) = Some h"
      using lt by (auto simp: handle_table_def in_slots_def in_set_conv_nth
          simp del: map_option_eq_Some split: option.splits if_splits)
  next
    assume r: "in_slots s a \<and> map_option ctx_handle (cs a) = Some h"
    then obtain i where i: "i < slot_size s" "slot s ! i = Some (Some a)"
      unfolding in_slots_def in_set_conv_nth len by blast
    with assms r have "slot_hash h (slot_size s) = i" unfolding slots_ok_def by fastforce
    with i r lt show "handle_table cs s h = Some a" by (simp add: handle_table_def)
  qed
qed

text \<open>Two contexts in the table have different handles.\<close>

lemma slots_inj:
  assumes "slots_ok cs s" and "in_slots s a" and "in_slots s b"
    and "map_option ctx_handle (cs a) = map_option ctx_handle (cs b)"
  shows "a = b"
proof -
  from assms obtain c where "cs a = Some c"
    unfolding slots_ok_def in_slots_def in_set_conv_nth by metis
  with assms have "handle_table cs s (ctx_handle c) = Some a" "handle_table cs s (ctx_handle c) = Some b"
    by (simp_all add: handle_table_iff)
  then show ?thesis by simp
qed

lemma handle_init_slots_ok: "slots_ok cs (skynet_handle_init harb)"
proof -
  have "push_bit 24 (harb AND 0xff) AND mask 24 = (0 :: u32)"
    by (rule bit_word_eqI) (auto simp: bit_simps)
  then show ?thesis
    by (auto simp: slots_ok_def skynet_handle_init_def DEFAULT_SLOT_SIZE_def HANDLE_REMOTE_SHIFT_def
        HANDLE_MASK_def intro!: exI [of _ "2 :: nat"])
qed

subsection \<open>Registering: the scan\<close>

text \<open>The handle the scan tries in round \<open>i\<close>: it skips 0 when it passes \<open>HANDLE_MASK\<close>.\<close>

definition cand :: "nat \<Rightarrow> nat \<Rightarrow> nat" where
  "cand start i = (start + i - 1) mod (2 ^ 24 - 1) + 1"

lemma cand_step: "0 < u \<Longrightarrow> cand (cand u 0 + 1) j = cand u (Suc j)"
  using mod_add_left_eq [of "u - 1" "2 ^ 24 - 1" "Suc j"] by (simp add: cand_def)

lemma unat_HANDLE_MASK: "unat HANDLE_MASK = 2 ^ 24 - 1"
  by (simp add: HANDLE_MASK_def mask_eq_exp_minus_1)

lemma register_scan_spec:
  assumes "slots_ok cs s" and "i \<le> slot_size s"
    and "0 < unat h" and "unat h \<le> 2 ^ 24"
  shows "\<exists>r. register_scan s i h = Some r \<and>
    (case r of
       Some (hash, h') \<Rightarrow> hash = slot_hash h' (slot_size s) \<and> hash < slot_size s \<and>
         slot s ! hash = Some None \<and> 0 < unat h' \<and> unat h' < 2 ^ 24 \<and>
         (\<exists>j < slot_size s - i. unat h' = cand (unat h) j)
     | None \<Rightarrow> \<forall>j < slot_size s - i. slot s ! (cand (unat h) j mod slot_size s) \<noteq> Some None)"
  using assms
proof (induction s i h rule: register_scan.induct [case_names scan])
  case (scan s i h)
  note assms = scan.prems
  obtain k where k: "k \<le> 24" "slot_size s = 2 ^ k" using assms(1) by (auto simp: slots_ok_def)
  have len: "length (slot s) = slot_size s" using assms(1) by (simp add: slots_ok_def)
  let ?h = "if HANDLE_MASK < h then 1 else h"
  let ?hash = "slot_hash ?h (slot_size s)"
  have h: "unat ?h = cand (unat h) 0" "0 < unat ?h" "unat ?h < 2 ^ 24"
  proof -
    consider "unat h = 2 ^ 24" | "unat h < 2 ^ 24" using scan.prems(4) by linarith
    then show "unat ?h = cand (unat h) 0" "0 < unat ?h" "unat ?h < 2 ^ 24"
      using scan.prems(3) by (cases; simp add: cand_def word_less_nat_alt unat_HANDLE_MASK)+
  qed
  have "unat ?h + unat (1 :: u32) < 2 ^ LENGTH(32)" using h(3) by simp
  then have Suc: "unat (?h + 1) = unat ?h + 1" unfolding unat_add_lem by simp
  show ?case
  proof (cases "i < slot_size s")
    case False
    then show ?thesis by (subst register_scan.simps) simp
  next
    case True
    have lt: "?hash < slot_size s" unfolding k(2) by (rule slot_hash_less [OF k(1)])
    then obtain p where p: "slot s ! ?hash = Some p"
    proof -
      have "slot s ! ?hash \<in> set (slot s)" using lt len by simp
      moreover have "None \<notin> set (slot s)" using assms(1) by (simp add: slots_ok_def)
      ultimately show thesis using that by (metis option.exhaust)
    qed
    show ?thesis
    proof (cases p)
      case None
      then have "register_scan s i h = Some (Some (?hash, ?h))"
        using True lt len p by (subst register_scan.simps) (simp add: Let_def)
      with lt p None h True show ?thesis by (auto intro!: exI [of _ "0 :: nat"])
    next
      case (Some a)
      have step: "register_scan s i h = register_scan s (i + 1) (?h + 1)"
        using True lt len p Some by (subst register_scan.simps) (simp add: Let_def)
      from scan.IH [OF True refl refl _ _ assms(1)] p Some lt len True h Suc obtain r where
        r: "register_scan s (i + 1) (?h + 1) = Some r" and
        c: "case r of
          Some (hash, h') \<Rightarrow> hash = slot_hash h' (slot_size s) \<and> hash < slot_size s \<and>
            slot s ! hash = Some None \<and> 0 < unat h' \<and> unat h' < 2 ^ 24 \<and>
            (\<exists>j < slot_size s - (i + 1). unat h' = cand (unat (?h + 1)) j)
        | None \<Rightarrow> \<forall>j < slot_size s - (i + 1).
            slot s ! (cand (unat (?h + 1)) j mod slot_size s) \<noteq> Some None"
        by auto
      have next_cand: "cand (unat (?h + 1)) j = cand (unat h) (Suc j)" for j
        using cand_step [OF assms(3)] Suc h(1) by simp
      have "slot s ! (cand (unat h) j mod slot_size s) \<noteq> Some None"
        if "r = None" and "j < slot_size s - i" for j
      proof (cases j)
        case 0
        with p Some h(1) k show ?thesis by (simp add: slot_hash_mod)
      next
        case (Suc j')
        then have "slot s ! (cand (unat (?h + 1)) j' mod slot_size s) \<noteq> Some None"
          using c that by simp
        with next_cand [of j'] Suc show ?thesis by simp
      qed
      moreover have "\<exists>j' < slot_size s - i. x = cand (unat h) j'"
        if "\<exists>j < slot_size s - (i + 1). x = cand (unat (?h + 1)) j" for x
      proof -
        from that obtain j where "j < slot_size s - (i + 1)" "x = cand (unat (?h + 1)) j" by blast
        then show ?thesis unfolding next_cand by (intro exI [of _ "Suc j"]) simp
      qed
      ultimately show ?thesis using r c step by (cases r) auto
    qed
  qed
qed

definition scan_wraps :: "handle_storage \<Rightarrow> bool" where
  "scan_wraps s \<longleftrightarrow>
     2 ^ 24 < unat (handle_index s) + slot_size s \<and>
     (unat (handle_index s) < 2 ^ 24 \<or> slot_size s = 2 ^ 24)"

text \<open>The slots a scan inspects: all of them, or all but slot 0 when it passes \<open>HANDLE_MASK\<close>.\<close>

lemma cand_covers:
  assumes "k \<le> 24" and "r < 2 ^ k" and "0 < start" and "start \<le> 2 ^ 24"
    and "r \<noteq> 0 \<or> start + 2 ^ k \<le> 2 ^ 24 \<or> start = 2 ^ 24 \<and> k < 24"
  shows "\<exists>j<2 ^ k. cand start j mod 2 ^ k = r"
proof -
  define M :: nat where "M = 2 ^ 24 - 1"
  define q where "q = (start - 1) mod M"
  have M: "0 < M" "q < M" "M + 1 = 2 ^ 24" by (simp_all add: M_def q_def)
  have k24: "(2 :: nat) ^ k dvd M + 1" unfolding M(3) using assms(1) by (rule le_imp_power_dvd)
  then have k24': "2 ^ k \<le> M + 1" by (rule dvd_imp_le) simp
  have cand: "cand start j = (q + j) mod M + 1" for j
    using assms(3) by (simp add: cand_def q_def M_def mod_add_left_eq)
  show ?thesis
  proof (cases "q + 2 ^ k \<le> M")
    case True
    define j where "j = nat ((int r - int q - 1) mod 2 ^ k)"
    have j: "j < 2 ^ k" by (simp add: j_def nat_less_iff)
    have "int ((q + j + 1) mod 2 ^ k) = (int q + 1 + (int r - int q - 1) mod 2 ^ k) mod 2 ^ k"
      by (simp add: j_def zmod_int algebra_simps)
    also have "\<dots> = int r" using assms(2) by (simp add: mod_add_right_eq zmod_int [symmetric])
    finally have "(q + j + 1) mod 2 ^ k = r" by simp
    moreover have "(q + j) mod M = q + j" using True j by simp
    ultimately show ?thesis using j cand by auto
  next
    case False
    have wrap: "r \<noteq> 0"
    proof
      assume "r = 0"
      then consider "start + 2 ^ k \<le> 2 ^ 24" | "start = 2 ^ 24" "k < 24" using assms(5) by auto
      then show False
      proof cases
        case 1
        moreover have "(0 :: nat) < 2 ^ k" by simp
        ultimately have "start - 1 < M" using M(3) assms(3) by linarith
        then have "q = start - 1" by (simp add: q_def)
        with 1 False M(3) assms(3) show False by linarith
      next
        case 2
        then have "q = 0" by (simp add: q_def M_def)
        with False have "M + 1 = 2 ^ k" using k24' by simp
        moreover have "(2 :: nat) ^ k < 2 ^ 24" using 2(2) by (rule power_strict_increasing) simp
        ultimately show False using M(3) by simp
      qed
    qed
    show ?thesis
    proof (cases "q + 1 + 2 ^ k \<le> M + 1 + r")
      case True
      let ?j = "M + r - 2 ^ k - q"
      have e: "q + ?j = M + r - 2 ^ k" using True k24' False by simp
      have lt: "M + r - 2 ^ k < M" using assms(2) M(1) by linarith
      have "M + r - 2 ^ k + 1 = r + (M + 1 - 2 ^ k)" using k24' wrap by simp
      moreover have "2 ^ k dvd M + 1 - 2 ^ k" using k24 by (intro dvd_diff_nat) auto
      ultimately have "(M + r - 2 ^ k + 1) mod 2 ^ k = r"
        using assms(2) by (auto simp: dvd_def)
      moreover have "?j < 2 ^ k" using False assms(2) by linarith
      ultimately show ?thesis using e lt cand by (intro exI [of _ ?j]) simp
    next
      case False2: False
      let ?j = "M - q + r - 1"
      have "q + ?j = M + (r - 1)" using M(2) wrap by simp
      moreover have "r - 1 < M" using assms(2) k24' wrap by linarith
      ultimately have "(q + ?j) mod M = r - 1" by (simp only: mod_add_self1 mod_less)
      moreover have "?j < 2 ^ k" using False2 M(2) by linarith
      ultimately show ?thesis using wrap assms(2) cand by (intro exI [of _ ?j]) simp
    qed
  qed
qed

subsection \<open>Registering: growing the table\<close>

definition slots_full :: "handle_storage \<Rightarrow> bool" where
  "slots_full s \<longleftrightarrow> Some None \<notin> set (slot s)"

lemma slots_okD:
  assumes "slots_ok cs s" and "i < slot_size s" and "slot s ! i = Some (Some a)"
  obtains c where "cs a = Some c" "slot_hash (ctx_handle c) (slot_size s) = i" "handle_wf s (ctx_handle c)"
  using assms unfolding slots_ok_def by blast

text \<open>The full table rehashed: each context is where its handle belongs in the larger table.\<close>

lemma rehash_ok:
  assumes ok: "slots_ok cs s" and full: "slots_full s" and big: "slot_size s * 2 \<le> 2 ^ 24"
  shows "\<exists>new. rehash cs s = Some new \<and> length new = slot_size s * 2 \<and> None \<notin> set new \<and>
    (\<forall>j < slot_size s * 2. \<forall>a. new ! j = Some (Some a) \<longleftrightarrow>
       in_slots s a \<and> (\<exists>c. cs a = Some c \<and> slot_hash (ctx_handle c) (slot_size s * 2) = j))"
proof -
  let ?n = "slot_size s"
  obtain k where k: "?n = 2 ^ k" using ok by (auto simp: slots_ok_def)
  have "(2 :: nat) ^ Suc k \<le> 2 ^ 24" using big by (simp add: k)
  then have k23: "k \<le> 23" using power_increasing_iff [of "2 :: nat" "Suc k" 24] by simp
  have len: "length (slot s) = ?n" using ok by (simp add: slots_ok_def)
  let ?hash = "\<lambda>h. slot_hash h (?n * 2)"
  let ?at = "\<lambda>i j a. \<exists>i'<i. slot s ! i' = Some (Some a) \<and>
      (\<exists>c. cs a = Some c \<and> ?hash (ctx_handle c) = j)"
  let ?I = "\<lambda>i new. length new = ?n * 2 \<and> None \<notin> set new \<and>
      (\<forall>j < ?n * 2. \<forall>a. new ! j = Some (Some a) \<longleftrightarrow> ?at i j a)"
  have "\<exists>new. rehash cs s = Some new \<and> ?I ?n new"
    unfolding rehash_def
  proof (rule c_for_rule [where I = ?I])
    show "0 \<le> ?n" by simp
    show "?I 0 (replicate (?n * 2) (Some None))" by auto
    fix i new assume i: "0 \<le> i" "i < ?n" and I: "?I i new"
    have "slot s ! i \<in> set (slot s)" using i len by simp
    with ok full have "slot s ! i \<noteq> None \<and> slot s ! i \<noteq> Some None"
      unfolding slots_ok_def slots_full_def by metis
    then obtain a where a: "slot s ! i = Some (Some a)" by (metis not_None_eq)
    from slots_okD [OF ok i(2) a] obtain c where
      c: "cs a = Some c" "slot_hash (ctx_handle c) ?n = i" by metis
    have lt: "?hash (ctx_handle c) < ?n * 2"
      using slot_hash_less [of "Suc k"] k23 by (simp add: k mult.commute)
    have "new ! ?hash (ctx_handle c) = Some None"
    proof -
      have "new ! ?hash (ctx_handle c) \<noteq> Some (Some b)" for b
      proof
        assume "new ! ?hash (ctx_handle c) = Some (Some b)"
        with I lt obtain i' d where i': "i' < i" "slot s ! i' = Some (Some b)" "cs b = Some d"
          "?hash (ctx_handle d) = ?hash (ctx_handle c)" by blast
        from slots_okD [OF ok _ i'(2)] i'(1,3) i(2) have "slot_hash (ctx_handle d) ?n = i'" by auto
        moreover have "slot_hash (ctx_handle d) ?n = slot_hash (ctx_handle c) ?n"
          using slot_hash_mono [OF k23] i'(4) by (simp add: k mult.commute) metis
        ultimately show False using c(2) i'(1) by simp
      qed
      moreover have "new ! ?hash (ctx_handle c) \<in> set new" using lt I by simp
      ultimately show ?thesis using I by (metis option.exhaust)
    qed
    then have "(do { p \<leftarrow> array_get (slot s) i; ctx \<leftarrow> p; h \<leftarrow> skynet_context_handle ctx cs;
          let hash = ?hash h; old \<leftarrow> array_get new hash; c_assert (old = None);
          array_set new hash (Some ctx) }) = Some (new[?hash (ctx_handle c) := Some (Some a)])"
      using i len a c(1) lt I by (simp add: skynet_context_handle_def Let_def)
    moreover have "?I (Suc i) (new[?hash (ctx_handle c) := Some (Some a)])"
    proof (intro conjI allI impI)
      show "None \<notin> set (new[?hash (ctx_handle c) := Some (Some a)])"
        using I set_update_subset_insert [of new "?hash (ctx_handle c)" "Some (Some a)"] by auto
      fix j b assume "j < ?n * 2"
      then show "new[?hash (ctx_handle c) := Some (Some a)] ! j = Some (Some b) \<longleftrightarrow> ?at (Suc i) j b"
        using I a c(1) \<open>new ! ?hash (ctx_handle c) = Some None\<close>
        by (cases "j = ?hash (ctx_handle c)") (auto simp: less_Suc_eq)
    qed (use I in simp)
    ultimately show "\<exists>new'. (do { p \<leftarrow> array_get (slot s) i; ctx \<leftarrow> p; h \<leftarrow> skynet_context_handle ctx cs;
          let hash = ?hash h; old \<leftarrow> array_get new hash; c_assert (old = None);
          array_set new hash (Some ctx) }) = Some new' \<and> ?I (Suc i) new'" by blast
  qed
  then show ?thesis using len unfolding in_slots_def in_set_conv_nth by metis
qed

text \<open>A slot the scan can reach is free.\<close>

definition slot_free :: "handle_storage \<Rightarrow> bool" where
  "slot_free s \<longleftrightarrow> (\<exists>i < slot_size s. slot s ! i = Some None \<and> (i \<noteq> 0 \<or> \<not> scan_wraps s))"

lemma scan_finds:
  assumes ok: "slots_ok cs s" and free: "slot_free s"
  shows "\<exists>h. register_scan s 0 (handle_index s) = Some (Some (slot_hash h (slot_size s), h)) \<and>
    slot_hash h (slot_size s) < slot_size s \<and> slot s ! slot_hash h (slot_size s) = Some None \<and>
    0 < unat h \<and> unat h < 2 ^ 24"
proof -
  let ?h = "handle_index s"
  obtain k where k: "k \<le> 24" "slot_size s = 2 ^ k" using ok by (auto simp: slots_ok_def)
  have b: "0 < unat ?h" "unat ?h \<le> 2 ^ 24" using ok by (simp_all add: slots_ok_def)
  from register_scan_spec [OF ok _ b, of 0] obtain r where
    r: "register_scan s 0 ?h = Some r" and
    c: "case r of Some (hash, h') \<Rightarrow> hash = slot_hash h' (slot_size s) \<and> hash < slot_size s \<and>
         slot s ! hash = Some None \<and> 0 < unat h' \<and> unat h' < 2 ^ 24
     | None \<Rightarrow> \<forall>j < slot_size s - 0. slot s ! (cand (unat ?h) j mod slot_size s) \<noteq> Some None"
    by (auto split: option.splits prod.splits)
  obtain i where i: "i < slot_size s" "slot s ! i = Some None" "i \<noteq> 0 \<or> \<not> scan_wraps s"
    using free by (auto simp: slot_free_def)
  have "i \<noteq> 0 \<or> unat ?h + 2 ^ k \<le> 2 ^ 24 \<or> unat ?h = 2 ^ 24 \<and> k < 24"
  proof (cases "i = 0")
    case True
    with i(3) have n: "\<not> scan_wraps s" by simp
    show ?thesis
    proof (cases "unat ?h + 2 ^ k \<le> 2 ^ 24")
      case False
      with n b(2) have "unat ?h = 2 ^ 24" "k \<noteq> 24" unfolding scan_wraps_def k(2) by auto
      with k(1) show ?thesis by simp
    qed simp
  qed simp
  from cand_covers [OF k(1) _ b this] i(1) obtain j where "j < 2 ^ k" "cand (unat ?h) j mod 2 ^ k = i"
    unfolding k(2) by blast
  then have "r \<noteq> None" using c i(2) by (cases r) (auto simp: k(2))
  with r c show ?thesis by (cases r) auto
qed

text \<open>The handle a scan yields, with the harbor id in its high byte.\<close>

lemma new_handle_wf:
  assumes "slots_ok cs s" and "0 < unat h" and "unat h < 2 ^ 24"
  shows "handle_wf s (h OR harbor s)" and "slot_hash (h OR harbor s) (slot_size s) = slot_hash h (slot_size s)"
    and "h OR harbor s \<noteq> 0"
proof -
  have hb: "harbor s AND HANDLE_MASK = 0" using assms(1) by (simp add: slots_ok_def)
  have "h AND mask 24 = h"
    using assms(3) by (simp add: word_unat_eq_iff unat_and_mask)
  then have m: "(h OR harbor s) AND HANDLE_MASK = h"
    using hb by (simp add: word_ao_dist HANDLE_MASK_def)
  moreover have "h \<noteq> 0" using assms(2) by auto
  ultimately show "handle_wf s (h OR harbor s)" by (simp add: handle_wf_def)
  show "h OR harbor s \<noteq> 0"
  proof
    assume "h OR harbor s = 0"
    with m \<open>h \<noteq> 0\<close> show False by simp
  qed
  obtain k where k: "k \<le> 24" "slot_size s = 2 ^ k" using assms(1) by (auto simp: slots_ok_def)
  show "slot_hash (h OR harbor s) (slot_size s) = slot_hash h (slot_size s)"
    unfolding k(2) by (rule slot_hash_harbor [OF hb k(1)])
qed

text \<open>Registering when the scan succeeds at once.\<close>

lemma register_free:
  assumes ok: "slots_ok cs s" and free: "slot_free s" and new: "\<not> in_slots s a" "cs a = Some c"
  shows "\<exists>h s'. skynet_handle_register cs a s = Some (h, s') \<and> h \<noteq> 0 \<and> handle_table cs s h = None \<and>
    slots_ok (cs(a \<mapsto> c\<lparr>ctx_handle := h\<rparr>)) s' \<and>
    (\<forall>b. in_slots s' b \<longleftrightarrow> in_slots s b \<or> b = a) \<and>
    s' = s\<lparr>slot := slot s', handle_index := handle_index s'\<rparr>"
proof -
  from scan_finds [OF ok free] obtain h0 where
    sc: "register_scan s 0 (handle_index s) = Some (Some (slot_hash h0 (slot_size s), h0))" and
    lt: "slot_hash h0 (slot_size s) < slot_size s" and
    none: "slot s ! slot_hash h0 (slot_size s) = Some None" and
    h0: "0 < unat h0" "unat h0 < 2 ^ 24" by blast
  let ?h = "h0 OR harbor s" and ?i = "slot_hash h0 (slot_size s)"
  let ?s = "s\<lparr>slot := (slot s)[?i := Some (Some a)], handle_index := h0 + 1\<rparr>"
  let ?cs = "cs(a \<mapsto> c\<lparr>ctx_handle := ?h\<rparr>)"
  note wf = new_handle_wf [OF ok h0]
  have len: "length (slot s) = slot_size s" using ok by (simp add: slots_ok_def)
  have "skynet_handle_register cs a s = Some (?h, ?s)"
    using sc lt len by (subst skynet_handle_register.simps) simp
  moreover have "handle_table cs s ?h = None"
    using none lt len wf(2) by (simp add: handle_table_def)
  moreover have "in_slots ?s b \<longleftrightarrow> in_slots s b \<or> b = a" for b
  proof -
    have "in_slots s b" if "in_slots ?s b" "b \<noteq> a"
      using that set_update_subset_insert [of "slot s" ?i "Some (Some a)"] by (auto simp: in_slots_def)
    moreover have "in_slots ?s b" if "in_slots s b"
      using that lt none len unfolding in_slots_def in_set_conv_nth
      by (auto simp: nth_list_update) (metis option.distinct(1) option.inject)
    moreover have "in_slots ?s a" using lt len by (simp add: in_slots_def set_update_memI)
    ultimately show ?thesis by blast
  qed
  moreover have "slots_ok ?cs ?s"
  proof -
    have "unat h0 + unat (1 :: u32) < 2 ^ LENGTH(32)" using h0(2) by simp
    then have "unat (h0 + 1) = unat h0 + 1" unfolding unat_add_lem by simp
    moreover have "None \<notin> set ((slot s)[?i := Some (Some a)])"
      using ok set_update_subset_insert [of "slot s" ?i "Some (Some a)"] by (auto simp: slots_ok_def)
    moreover have "\<exists>d. ?cs b = Some d \<and> slot_hash (ctx_handle d) (slot_size s) = i \<and> handle_wf s (ctx_handle d)"
      if "i < slot_size s" "(slot s)[?i := Some (Some a)] ! i = Some (Some b)" for i b
    proof (cases "i = ?i")
      case True
      with that lt len wf show ?thesis by simp
    next
      case False
      with that have e: "slot s ! i = Some (Some b)" by simp
      then have "b \<noteq> a" using new(1) that(1) len unfolding in_slots_def in_set_conv_nth by auto
      with slots_okD [OF ok that(1) e] show ?thesis by (metis fun_upd_other)
    qed
    ultimately show ?thesis using ok h0 by (auto simp: slots_ok_def handle_wf_def)
  qed
  ultimately show ?thesis using wf(3) by (intro exI [of _ ?h] exI [of _ ?s]) simp
qed


text \<open>Registering when the table is full: it doubles once, then the scan succeeds.\<close>

lemma register_full:
  assumes ok: "slots_ok cs s" and full: "slots_full s" and big: "slot_size s * 2 \<le> 2 ^ 24"
    and new: "\<not> in_slots s a" "cs a = Some c"
  shows "\<exists>h s'. skynet_handle_register cs a s = Some (h, s') \<and> h \<noteq> 0 \<and> handle_table cs s h = None \<and>
    slots_ok (cs(a \<mapsto> c\<lparr>ctx_handle := h\<rparr>)) s' \<and>
    (\<forall>b. in_slots s' b \<longleftrightarrow> in_slots s b \<or> b = a) \<and>
    s' = s\<lparr>slot := slot s', handle_index := handle_index s', slot_size := slot_size s'\<rparr>"
proof -
  let ?n = "slot_size s"
  obtain k where k: "2 \<le> k" "?n = 2 ^ k" using ok by (auto simp: slots_ok_def)
  have "(2 :: nat) ^ Suc k \<le> 2 ^ 24" using big by (simp add: k)
  then have k23: "k \<le> 23" using power_increasing_iff [of "2 :: nat" "Suc k" 24] by simp
  have len: "length (slot s) = ?n" using ok by (simp add: slots_ok_def)
  from rehash_ok [OF ok full big] obtain arr where
    rh: "rehash cs s = Some arr" and al: "length arr = ?n * 2" and an: "None \<notin> set arr" and
    at: "\<And>j b. j < ?n * 2 \<Longrightarrow> arr ! j = Some (Some b) \<longleftrightarrow>
       in_slots s b \<and> (\<exists>c. cs b = Some c \<and> slot_hash (ctx_handle c) (?n * 2) = j)" by blast
  let ?s = "s\<lparr>slot := arr, slot_size := ?n * 2\<rparr>"
  have in_eq: "in_slots ?s b \<longleftrightarrow> in_slots s b" for b
  proof
    assume "in_slots ?s b"
    then show "in_slots s b" using at al unfolding in_slots_def in_set_conv_nth by auto
  next
    assume b: "in_slots s b"
    then obtain i where i: "i < ?n" "slot s ! i = Some (Some b)"
      unfolding in_slots_def in_set_conv_nth len by blast
    from slots_okD [OF ok i] obtain d where d: "cs b = Some d" by metis
    have "slot_hash (ctx_handle d) (?n * 2) < ?n * 2"
      using slot_hash_less [of "Suc k"] k23 by (simp add: k mult.commute)
    with at b d al show "in_slots ?s b" unfolding in_slots_def in_set_conv_nth by auto
  qed
  have ok': "slots_ok cs ?s"
  proof -
    have "\<exists>k'\<ge>2. k' \<le> 24 \<and> ?n * 2 = 2 ^ k'" using k k23 by (intro exI [of _ "Suc k"]) simp
    moreover have "\<exists>d. cs b = Some d \<and> slot_hash (ctx_handle d) (?n * 2) = i \<and> handle_wf s (ctx_handle d)"
      if "i < ?n * 2" "arr ! i = Some (Some b)" for i b
    proof -
      from at [OF that(1)] that(2) obtain d where
        d: "in_slots s b" "cs b = Some d" "slot_hash (ctx_handle d) (?n * 2) = i" by blast
      from d(1) obtain i' where i: "i' < ?n" "slot s ! i' = Some (Some b)"
        unfolding in_slots_def in_set_conv_nth len by blast
      from slots_okD [OF ok i] d show ?thesis by auto
    qed
    ultimately show ?thesis using ok al an by (auto simp: slots_ok_def handle_wf_def)
  qed
  have "slot_free ?s"
  proof -
    have "1 < ?n" using k power_increasing [of 2 k "2 :: nat"] by simp
    have "\<exists>j \<in> {1, 1 + ?n}. arr ! j = Some None"
    proof (rule ccontr)
      assume n: "\<not> ?thesis"
      have occ: "\<exists>b d. in_slots s b \<and> cs b = Some d \<and> slot_hash (ctx_handle d) (?n * 2) = j"
        if "j \<in> {1, 1 + ?n}" for j
      proof -
        have j: "j < ?n * 2" using that \<open>1 < ?n\<close> by auto
        have "arr ! j \<in> set arr" using j al by simp
        with an n that obtain b where "arr ! j = Some (Some b)" by (metis option.exhaust)
        with at [OF j] show ?thesis by blast
      qed
      from occ [of 1] obtain b d where b: "in_slots s b" "cs b = Some d" "slot_hash (ctx_handle d) (?n * 2) = 1" by auto
      from occ [of "1 + ?n"] obtain b' d' where
        b': "in_slots s b'" "cs b' = Some d'" "slot_hash (ctx_handle d') (?n * 2) = 1 + ?n" by auto
      have old: "slot s ! 1 = Some (Some x)"
        if "in_slots s x" "cs x = Some y" "slot_hash (ctx_handle y) (?n * 2) \<in> {1, 1 + ?n}" for x y
      proof -
        from that(1) obtain i where i: "i < ?n" "slot s ! i = Some (Some x)"
          unfolding in_slots_def in_set_conv_nth len by blast
        from slots_okD [OF ok i] that(2) have "slot_hash (ctx_handle y) ?n = i" by auto
        moreover have "slot_hash (ctx_handle y) ?n = 1"
        proof -
          have "slot_hash (ctx_handle y) (?n * 2) mod ?n = slot_hash (ctx_handle y) ?n"
            using slot_hash_mono [OF k23, of "ctx_handle y"] by (simp only: k(2) power_Suc mult.commute)
          moreover have "slot_hash (ctx_handle y) (?n * 2) mod ?n = 1"
          proof -
            from that(3) consider "slot_hash (ctx_handle y) (?n * 2) = 1"
              | "slot_hash (ctx_handle y) (?n * 2) = 1 + ?n" by blast
            then show ?thesis
              by cases (simp_all only: mod_add_self2 mod_less [OF \<open>1 < ?n\<close>])
          qed
          ultimately show ?thesis by simp
        qed
        ultimately show ?thesis using i by simp
      qed
      from old [OF b(1,2)] old [OF b'(1,2)] b(3) b'(3) have "b = b'" by simp
      with b b' \<open>1 < ?n\<close> show False by simp
    qed
    then obtain j where "j \<in> {1, 1 + ?n}" "arr ! j = Some None" by blast
    with \<open>1 < ?n\<close> show ?thesis unfolding slot_free_def by (intro exI [of _ j]) auto
  qed
  moreover have "\<not> in_slots ?s a" using new(1) in_eq by simp
  ultimately obtain h s' where r: "skynet_handle_register cs a ?s = Some (h, s')" "h \<noteq> 0"
    "handle_table cs ?s h = None" "slots_ok (cs(a \<mapsto> c\<lparr>ctx_handle := h\<rparr>)) s'"
    "\<forall>b. in_slots s' b \<longleftrightarrow> in_slots ?s b \<or> b = a"
    "s' = ?s\<lparr>slot := slot s', handle_index := handle_index s'\<rparr>"
    using register_free [OF ok' _ _ new(2)] by blast
  have tab: "handle_table cs s h = None"
    using r(3) handle_table_iff [OF ok] handle_table_iff [OF ok'] in_eq by (metis not_None_eq)
  have "register_scan s 0 (handle_index s) = Some None"
  proof -
    have b: "0 < unat (handle_index s)" "unat (handle_index s) \<le> 2 ^ 24" using ok by (simp_all add: slots_ok_def)
    from register_scan_spec [OF ok _ b, of 0] obtain res where
      res: "register_scan s 0 (handle_index s) = Some res" and
      c: "case res of Some (hash, h') \<Rightarrow> hash < ?n \<and> slot s ! hash = Some None | None \<Rightarrow> True"
      by (auto split: option.splits)
    have "res = None"
    proof (cases res)
      case (Some p)
      with c obtain i where "i < ?n" "slot s ! i = Some None" by (cases p) auto
      then have "Some None \<in> set (slot s)" using len by (metis nth_mem)
      with full show ?thesis by (simp add: slots_full_def)
    qed
    with res show ?thesis by simp
  qed
  moreover have "?n * 2 - 1 \<le> unat HANDLE_MASK" using big by (simp add: unat_HANDLE_MASK)
  ultimately have "skynet_handle_register cs a s = Some (h, s')"
    using rh r(1) by (subst skynet_handle_register.simps) simp
  moreover have "s' = s\<lparr>slot := slot s', handle_index := handle_index s', slot_size := slot_size s'\<rparr>"
  proof -
    obtain sl hi where s': "s' = ?s\<lparr>slot := sl, handle_index := hi\<rparr>" using r(6) by blast
    show ?thesis unfolding s' by simp
  qed
  moreover have "\<forall>b. in_slots s' b \<longleftrightarrow> in_slots s b \<or> b = a" using r(5) in_eq by simp
  ultimately show ?thesis using r(2,4) tab by (intro exI conjI)
qed

subsection \<open>The sorted names\<close>

definition names_hold :: "handle_storage \<Rightarrow> handle_name list \<Rightarrow> bool" where
  "names_hold s xs \<longleftrightarrow> length (h_name s) = name_cap s \<and> 0 < name_cap s \<and>
     name_count s = length xs \<and> length xs \<le> name_cap s \<and> take (length xs) (h_name s) = map Some xs \<and>
     sorted_wrt (<) (map hn_name xs)"

text \<open>The partial map the array stands for.\<close>

definition name_table :: "handle_name list \<Rightarrow> cstr \<Rightarrow> u32 option" where
  "name_table xs = map_of (map (\<lambda>n. (hn_name n, hn_handle n)) xs)"

lemma name_cell:
  assumes "names_hold s xs" and "i < length xs"
  shows "i < length (h_name s)" and "h_name s ! i = Some (xs ! i)"
proof -
  show "i < length (h_name s)" using assms by (simp add: names_hold_def)
  have "take (length xs) (h_name s) ! i = map Some xs ! i" using assms by (simp add: names_hold_def)
  with assms(2) show "h_name s ! i = Some (xs ! i)" by simp
qed

lemma names_less:
  "sorted_wrt (<) (map hn_name xs) \<Longrightarrow> i < j \<Longrightarrow> j < length xs \<Longrightarrow> hn_name (xs ! i) < hn_name (xs ! j)"
  using sorted_wrt_nth_less [of "(<)" "map hn_name xs" i j] by simp

lemma bisect_spec:
  assumes "names_hold s xs" and "0 \<le> b" and "e < int (length xs)" and "b \<le> e + 1"
    and "\<forall>i<length xs. int i < b \<longrightarrow> hn_name (xs ! i) < name"
    and "\<forall>i<length xs. e < int i \<longrightarrow> name < hn_name (xs ! i)"
  shows "\<exists>r. bisect (h_name s) name b e = Some r \<and>
    (case r of
       Inl n \<Rightarrow> n \<in> set xs \<and> hn_name n = name
     | Inr p \<Rightarrow> p \<le> length xs \<and> (\<forall>i<p. hn_name (xs ! i) < name) \<and>
         (\<forall>i<length xs. p \<le> i \<longrightarrow> name < hn_name (xs ! i)))"
  using assms(2-)
proof (induction "nat (e + 1 - b)" arbitrary: b e rule: less_induct)
  case less
  note srt = assms(1) [unfolded names_hold_def]
  show ?case
  proof (cases "b \<le> e")
    case False
    with less.prems have "b = e + 1" by simp
    with less.prems show ?thesis
      by (subst bisect.simps) (auto simp: nat_le_iff)
  next
    case True
    let ?mid = "(b + e) div 2"
    have mid: "b \<le> ?mid" "?mid \<le> e" using True by simp_all
    then obtain m where m: "?mid = int m" using less.prems(1) by (metis nonneg_int_cases order_trans)
    have lt: "m < length xs" using mid(2) less.prems(2) m by simp
    note cell = name_cell [OF assms(1) lt]
    have unf: "bisect (h_name s) name b e =
        (if hn_name (xs ! m) = name then Some (Inl (xs ! m))
         else if hn_name (xs ! m) < name then bisect (h_name s) name (?mid + 1) e
         else bisect (h_name s) name b (?mid - 1))"
      using True cell by (subst bisect.simps) (simp add: m Let_def)
    consider "hn_name (xs ! m) = name" | "hn_name (xs ! m) < name" | "name < hn_name (xs ! m)"
      by (rule linorder_cases)
    then show ?thesis
    proof cases
      case 1
      then show ?thesis using unf lt by simp
    next
      case 2
      have "\<forall>i<length xs. int i < ?mid + 1 \<longrightarrow> hn_name (xs ! i) < name"
      proof (intro allI impI)
        fix i assume i: "i < length xs" "int i < ?mid + 1"
        show "hn_name (xs ! i) < name"
        proof (cases "i = m")
          case False
          with i m have "i < m" by simp
          from less_trans [OF names_less [OF _ this lt] 2] srt show ?thesis by blast
        qed (use 2 in simp)
      qed
      then have "\<exists>r. bisect (h_name s) name (?mid + 1) e = Some r \<and> (case r of
           Inl n \<Rightarrow> n \<in> set xs \<and> hn_name n = name
         | Inr p \<Rightarrow> p \<le> length xs \<and> (\<forall>i<p. hn_name (xs ! i) < name) \<and>
             (\<forall>i<length xs. p \<le> i \<longrightarrow> name < hn_name (xs ! i)))"
        using less.prems mid by (intro less.hyps) auto
      then show ?thesis using unf 2 by simp
    next
      case 3
      have "\<forall>i<length xs. ?mid - 1 < int i \<longrightarrow> name < hn_name (xs ! i)"
      proof (intro allI impI)
        fix i assume i: "i < length xs" "?mid - 1 < int i"
        show "name < hn_name (xs ! i)"
        proof (cases "i = m")
          case False
          with i m have "m < i" by simp
          from less_trans [OF 3 names_less [OF _ this i(1)]] srt show ?thesis by blast
        qed (use 3 in simp)
      qed
      then have "\<exists>r. bisect (h_name s) name b (?mid - 1) = Some r \<and> (case r of
           Inl n \<Rightarrow> n \<in> set xs \<and> hn_name n = name
         | Inr p \<Rightarrow> p \<le> length xs \<and> (\<forall>i<p. hn_name (xs ! i) < name) \<and>
             (\<forall>i<length xs. p \<le> i \<longrightarrow> name < hn_name (xs ! i)))"
        using less.prems mid by (intro less.hyps) auto
      then show ?thesis using unf 3 by auto
    qed
  qed
qed

text \<open>The whole search: the name's entry, or the one place where it keeps the array sorted.\<close>

lemma bisect_all:
  assumes "names_hold s xs"
  shows "\<exists>r. bisect (h_name s) name 0 (int (name_count s) - 1) = Some r \<and>
    (case r of
       Inl n \<Rightarrow> n \<in> set xs \<and> hn_name n = name
     | Inr p \<Rightarrow> p \<le> length xs \<and> (\<forall>i<p. hn_name (xs ! i) < name) \<and>
         (\<forall>i<length xs. p \<le> i \<longrightarrow> name < hn_name (xs ! i)))"
proof -
  have "name_count s = length xs" using assms by (simp add: names_hold_def)
  then show ?thesis by (intro bisect_spec [OF assms]) auto
qed

lemma name_table_None: "name_table xs name = None \<longleftrightarrow> (\<forall>n\<in>set xs. hn_name n \<noteq> name)"
  by (simp add: name_table_def map_of_eq_None_iff image_image) auto

lemma name_table_Some:
  assumes "sorted_wrt (<) (map hn_name xs)" and "n \<in> set xs"
  shows "name_table xs (hn_name n) = Some (hn_handle n)"
proof -
  have "distinct (map hn_name xs)" using assms(1) by (simp only: strict_sorted_iff)
  then have "distinct (map fst (map (\<lambda>n. (hn_name n, hn_handle n)) xs))" by (simp add: comp_def)
  then show ?thesis using assms(2) unfolding name_table_def by (intro map_of_is_SomeI) auto
qed

lemma findname_table:
  assumes "names_hold s xs"
  shows "skynet_handle_findname name s = Some (case name_table xs name of Some h \<Rightarrow> h | None \<Rightarrow> 0)"
proof -
  from bisect_all [OF assms, of name] obtain r where
    r: "bisect (h_name s) name 0 (int (name_count s) - 1) = Some r" and
    c: "case r of Inl n \<Rightarrow> n \<in> set xs \<and> hn_name n = name
     | Inr p \<Rightarrow> p \<le> length xs \<and> (\<forall>i<p. hn_name (xs ! i) < name) \<and>
         (\<forall>i<length xs. p \<le> i \<longrightarrow> name < hn_name (xs ! i))" by blast
  show ?thesis
  proof (cases r)
    case (Inl n)
    then have n: "n \<in> set xs" "hn_name n = name" using c by simp_all
    have "name_table xs name = Some (hn_handle n)"
      using name_table_Some [OF _ n(1)] assms n(2) by (simp add: names_hold_def)
    with r Inl show ?thesis by (simp add: skynet_handle_findname_def)
  next
    case (Inr p)
    have "hn_name (xs ! i) \<noteq> name" if "i < length xs" for i
    proof (cases "i < p")
      case True
      with c Inr have "hn_name (xs ! i) < name" by simp
      then show ?thesis by simp
    next
      case False
      with c Inr that have "name < hn_name (xs ! i)" by simp
      then show ?thesis by auto
    qed
    then have "name_table xs name = None" unfolding name_table_None by (metis in_set_conv_nth)
    with r Inr show ?thesis by (simp add: skynet_handle_findname_def)
  qed
qed


text \<open>Both branches of \<open>_insert_name_before\<close>, the copy to a larger array and the shift in place,
  insert one entry.\<close>

definition insert_at :: "nat \<Rightarrow> 'a \<Rightarrow> 'a list \<Rightarrow> 'a list" where
  "insert_at p x xs = take p xs @ x # drop p xs"

lemma insert_at_nth:
  "p \<le> length xs \<Longrightarrow> i \<le> length xs \<Longrightarrow>
   insert_at p x xs ! i = (if i < p then xs ! i else if i = p then x else xs ! (i - 1))"
proof (cases "p < i")
  case True
  then obtain m where "i = Suc (p + m)" using less_iff_Suc_add by blast
  then show "p \<le> length xs \<Longrightarrow> i \<le> length xs \<Longrightarrow> ?thesis"
    by (simp add: insert_at_def nth_append min_absorb2)
qed (auto simp: insert_at_def nth_append min_absorb2)

lemma length_insert_at [simp]: "length (insert_at p x xs) = Suc (length xs)"
  by (simp add: insert_at_def)

lemma shift_up:
  assumes "p \<le> n" and "n < length arr" and "\<forall>i<n. arr ! i \<noteq> None"
  shows "\<exists>new. c_for_down n p (\<lambda>i a. do { x \<leftarrow> array_get a (i - 1); array_set a i x }) arr = Some new \<and>
    length new = length arr \<and> (\<forall>i<length arr. new ! i = (if p < i \<and> i \<le> n then arr ! (i - 1) else arr ! i))"
proof -
  let ?I = "\<lambda>k new. length new = length arr \<and>
    (\<forall>i<length arr. new ! i = (if k < i \<and> i \<le> n then arr ! (i - 1) else arr ! i))"
  show ?thesis
  proof (rule c_for_down_rule [where I = ?I])
    show "p \<le> n" "?I n arr" using assms by auto
    fix i new assume i: "p < i" "i \<le> n" and I: "?I i new"
    from assms(3) i obtain x where x: "arr ! (i - 1) = Some x" by fastforce
    have "new ! (i - 1) = Some x" using I i assms(2) x by auto
    then have "(do { x \<leftarrow> array_get new (i - 1); array_set new i x }) = Some (new[i := Some x])"
      using i assms(2) I by simp
    moreover have "?I (i - 1) (new[i := Some x])" using I i x by (auto simp: nth_list_update)
    ultimately show "\<exists>new'. (do { x \<leftarrow> array_get new (i - 1); array_set new i x }) = Some new' \<and> ?I (i - 1) new'"
      by blast
  qed
qed

lemma copy_range:
  assumes "a \<le> b" and "b \<le> length arr" and "b + d \<le> length new" and "\<forall>i<b. arr ! i \<noteq> None"
  shows "\<exists>new'. c_for a b (\<lambda>i n. do { x \<leftarrow> array_get arr i; array_set n (i + d) x }) new = Some new' \<and>
    length new' = length new \<and>
    (\<forall>i<length new. new' ! i = (if a + d \<le> i \<and> i < b + d then arr ! (i - d) else new ! i))"
proof -
  let ?I = "\<lambda>k n. length n = length new \<and>
    (\<forall>i<length new. n ! i = (if a + d \<le> i \<and> i < k + d then arr ! (i - d) else new ! i))"
  show ?thesis
  proof (rule c_for_rule [where I = ?I])
    show "a \<le> b" "?I a new" using assms by auto
    fix i n assume i: "a \<le> i" "i < b" and I: "?I i n"
    from assms(4) i obtain x where x: "arr ! i = Some x" by fastforce
    then have "(do { x \<leftarrow> array_get arr i; array_set n (i + d) x }) = Some (n[i + d := Some x])"
      using i assms(2,3) I by simp
    moreover have "?I (Suc i) (n[i + d := Some x])"
    proof (intro conjI allI impI)
      show "length (n[i + d := Some x]) = length new" using I by simp
      fix j assume j: "j < length new"
      show "n[i + d := Some x] ! j = (if a + d \<le> j \<and> j < Suc i + d then arr ! (j - d) else new ! j)"
        using I i x j by (cases "j = i + d") auto
    qed
    ultimately show "\<exists>n'. (do { x \<leftarrow> array_get arr i; array_set n (i + d) x }) = Some n' \<and> ?I (Suc i) n'"
      by blast
  qed
qed

lemma insert_name_before_ok:
  assumes "names_hold s xs" and "p \<le> length xs"
    and room: "name_cap s \<le> name_count s \<longrightarrow> name_cap s * 2 \<le> MAX_SLOT_SIZE"
    and below: "\<forall>i<p. hn_name (xs ! i) < name"
    and above: "\<forall>i<length xs. p \<le> i \<longrightarrow> name < hn_name (xs ! i)"
  shows "\<exists>arr c. insert_name_before s name h p =
      Some (s\<lparr>h_name := arr, name_count := name_count s + 1, name_cap := c\<rparr>) \<and>
    names_hold (s\<lparr>h_name := arr, name_count := name_count s + 1, name_cap := c\<rparr>)
      (insert_at p \<lparr>hn_name = name, hn_handle = h\<rparr> xs)"
proof -
  let ?e = "\<lparr>hn_name = name, hn_handle = h\<rparr>" and ?n = "length xs" and ?arr = "h_name s"
  have nh: "name_count s = ?n" "length ?arr = name_cap s" "?n \<le> name_cap s" "0 < name_cap s"
    "sorted_wrt (<) (map hn_name xs)" using assms(1) by (simp_all add: names_hold_def)
  note cell = name_cell [OF assms(1)]
  have ne: "\<forall>i<?n. ?arr ! i \<noteq> None" using cell(2) by simp
  have srt: "sorted_wrt (<) (map hn_name (insert_at p ?e xs))"
  proof -
    have "hn_name x < name" if "x \<in> set (take p xs)" for x
      using that below assms(2) by (auto simp: in_set_conv_nth)
    moreover have "name < hn_name x" if "x \<in> set (drop p xs)" for x
      using that above assms(2) by (auto simp: in_set_conv_nth)
    moreover have "sorted_wrt (<) (map hn_name (take p xs) @ map hn_name (drop p xs))"
      using nh(5) by (simp flip: map_append)
    ultimately show ?thesis by (auto simp: insert_at_def sorted_wrt_append)
  qed
  have holds: "names_hold (s\<lparr>h_name := new[p := Some ?e], name_count := name_count s + 1, name_cap := length new\<rparr>)
      (insert_at p ?e xs)"
    if "?n < length new" "\<forall>i<p. new ! i = ?arr ! i" "\<forall>i. p < i \<longrightarrow> i \<le> ?n \<longrightarrow> new ! i = ?arr ! (i - 1)" for new
  proof -
    have "take (Suc ?n) (new[p := Some ?e]) = map Some (insert_at p ?e xs)"
    proof (rule nth_equalityI)
      show "length (take (Suc ?n) (new[p := Some ?e])) = length (map Some (insert_at p ?e xs))"
        using that(1) by simp
      fix i assume "i < length (take (Suc ?n) (new[p := Some ?e]))"
      then have "i \<le> ?n" by simp
      then show "take (Suc ?n) (new[p := Some ?e]) ! i = map Some (insert_at p ?e xs) ! i"
        using that assms(2) cell(2) by (auto simp: insert_at_nth nth_list_update)
    qed
    moreover have "0 < length new" using that(1) by linarith
    ultimately show ?thesis using that(1) srt nh(1) by (simp add: names_hold_def del: length_greater_0_conv)
  qed
  show ?thesis
  proof (cases "name_cap s \<le> name_count s")
    case True
    let ?cap = "name_cap s * 2"
    have cap: "?n = name_cap s" "?cap \<le> MAX_SLOT_SIZE" using True nh room by auto
    from copy_range [of 0 p ?arr 0 "array_new ?cap"] ne assms(2) cap(1) nh(2) obtain n1 where
      n1: "c_for 0 p (\<lambda>i n. do { x \<leftarrow> array_get ?arr i; array_set n i x }) (array_new ?cap) = Some n1"
      "length n1 = ?cap" "\<forall>i<?cap. i < p \<longrightarrow> n1 ! i = ?arr ! i" by auto
    from copy_range [of p ?n ?arr 1 n1] ne assms(2) cap(1) nh(2,4) n1(2) obtain n2 where
      n2: "c_for p ?n (\<lambda>i n. do { x \<leftarrow> array_get ?arr i; array_set n (i + 1) x }) n1 = Some n2"
      "length n2 = ?cap" "\<forall>i<?cap. n2 ! i = (if p + 1 \<le> i \<and> i < ?n + 1 then ?arr ! (i - 1) else n1 ! i)" by auto
    have "insert_name_before s name h p =
        Some (s\<lparr>h_name := n2[p := Some ?e], name_count := name_count s + 1, name_cap := ?cap\<rparr>)"
      using True cap n1(1) n2(1,2) nh assms(2) by (simp add: insert_name_before_def Let_def)
    moreover have "names_hold (s\<lparr>h_name := n2[p := Some ?e], name_count := name_count s + 1, name_cap := ?cap\<rparr>)
        (insert_at p ?e xs)"
      using holds [of n2] n1 n2 cap nh(4) assms(2) by simp
    ultimately show ?thesis by blast
  next
    case False
    from shift_up [of p ?n ?arr] assms(2) ne False nh obtain new where
      new: "c_for_down ?n p (\<lambda>i a. do { x \<leftarrow> array_get a (i - 1); array_set a i x }) ?arr = Some new"
      "length new = name_cap s"
      "\<forall>i<name_cap s. new ! i = (if p < i \<and> i \<le> ?n then ?arr ! (i - 1) else ?arr ! i)" by auto
    have "insert_name_before s name h p =
        Some (s\<lparr>h_name := new[p := Some ?e], name_count := name_count s + 1, name_cap := name_cap s\<rparr>)"
      using False new(1,2) nh assms(2) by (simp add: insert_name_before_def)
    moreover have "names_hold (s\<lparr>h_name := new[p := Some ?e], name_count := name_count s + 1, name_cap := name_cap s\<rparr>)
        (insert_at p ?e xs)"
      using holds [of new] new False nh assms(2) by simp
    ultimately show ?thesis by blast
  qed
qed

lemma name_table_insert:
  assumes "sorted_wrt (<) (map hn_name (insert_at p e xs))"
  shows "name_table (insert_at p e xs) = (name_table xs)(hn_name e \<mapsto> hn_handle e)"
proof
  fix n
  have dist: "distinct (map hn_name (insert_at p e xs))" using assms by (simp only: strict_sorted_iff)
  have sub: "name_table (take p xs @ e # drop p xs) n =
      (case name_table (take p xs) n of Some h \<Rightarrow> Some h
       | None \<Rightarrow> if n = hn_name e then Some (hn_handle e) else name_table (drop p xs) n)" for n
    by (auto simp: name_table_def map_add_def split: option.split)
  have e: "name_table (take p xs) (hn_name e) = None"
    using dist unfolding name_table_None by (auto simp: insert_at_def image_iff)
  have "name_table xs n = (case name_table (take p xs) n of Some h \<Rightarrow> Some h | None \<Rightarrow> name_table (drop p xs) n)"
    by (subst append_take_drop_id [of p xs, symmetric])
      (simp add: name_table_def map_add_def del: append_take_drop_id split: option.split)
  with sub [of n] e show "name_table (insert_at p e xs) n = ((name_table xs)(hn_name e \<mapsto> hn_handle e)) n"
    by (auto simp: insert_at_def split: option.splits)
qed

lemma insert_name_before_stuck:
  "name_cap s \<le> name_count s \<Longrightarrow> \<not> name_cap s * 2 \<le> MAX_SLOT_SIZE \<Longrightarrow>
   insert_name_before s name h p = None"
  by (simp add: insert_name_before_def Let_def)

lemma namehandle_spec:
  assumes "names_hold s xs" and nm: "skynet_handle_namehandle h name s = Some (r, s')"
  shows "if name_table xs name = None
    then r = Some name \<and> (\<exists>arr c ys. s' = s\<lparr>h_name := arr, name_count := name_count s + 1, name_cap := c\<rparr> \<and>
         names_hold s' ys \<and> name_table ys = (name_table xs)(name \<mapsto> h))
    else r = None \<and> s' = s"
proof -
  from bisect_all [OF assms(1), of name] obtain res where
    b: "bisect (h_name s) name 0 (int (name_count s) - 1) = Some res" and
    c: "case res of Inl n \<Rightarrow> n \<in> set xs \<and> hn_name n = name
     | Inr p \<Rightarrow> p \<le> length xs \<and> (\<forall>i<p. hn_name (xs ! i) < name) \<and>
         (\<forall>i<length xs. p \<le> i \<longrightarrow> name < hn_name (xs ! i))" by blast
  show ?thesis
  proof (cases res)
    case (Inl n)
    with c name_table_None [of xs name] have "name_table xs name \<noteq> None" by auto
    with b Inl nm show ?thesis by (simp add: skynet_handle_namehandle_def insert_name_def)
  next
    case (Inr p)
    from c Inr have p: "p \<le> length xs" "\<forall>i<p. hn_name (xs ! i) < name"
      "\<forall>i<length xs. p \<le> i \<longrightarrow> name < hn_name (xs ! i)" by simp_all
    have "hn_name (xs ! i) \<noteq> name" if "i < length xs" for i
      using p that by (cases "i < p") (auto dest: less_imp_neq)
    then have none: "name_table xs name = None" unfolding name_table_None by (metis in_set_conv_nth)
    have "name_cap s \<le> name_count s \<longrightarrow> name_cap s * 2 \<le> MAX_SLOT_SIZE"
    proof (rule ccontr)
      assume "\<not> ?thesis"
      then have "insert_name_before s name h p = None" by (simp add: insert_name_before_stuck)
      with nm b Inr show False by (simp add: skynet_handle_namehandle_def insert_name_def)
    qed
    from insert_name_before_ok [OF assms(1) p(1) this p(2,3), of h] obtain arr c where
      i: "insert_name_before s name h p =
        Some (s\<lparr>h_name := arr, name_count := name_count s + 1, name_cap := c\<rparr>)"
      "names_hold (s\<lparr>h_name := arr, name_count := name_count s + 1, name_cap := c\<rparr>)
        (insert_at p \<lparr>hn_name = name, hn_handle = h\<rparr> xs)" by blast
    have t: "name_table (insert_at p \<lparr>hn_name = name, hn_handle = h\<rparr> xs) = (name_table xs)(name \<mapsto> h)"
      using name_table_insert [of p "\<lparr>hn_name = name, hn_handle = h\<rparr>" xs] i(2)
      by (simp add: names_hold_def)
    have "r = Some name \<and> s' = s\<lparr>h_name := arr, name_count := name_count s + 1, name_cap := c\<rparr>"
      using b Inr i(1) nm by (auto simp: skynet_handle_namehandle_def insert_name_def)
    then show ?thesis using none i(2) t by auto
  qed
qed

subsection \<open>Retiring\<close>

lemma drop_names_ok:
  assumes "names_hold s xs"
  shows "\<exists>arr. drop_names h s = Some (length (filter (\<lambda>n. hn_handle n \<noteq> h) xs), arr) \<and>
    names_hold (s\<lparr>h_name := arr, name_count := length (filter (\<lambda>n. hn_handle n \<noteq> h) xs)\<rparr>)
      (filter (\<lambda>n. hn_handle n \<noteq> h) xs)"
proof -
  let ?P = "\<lambda>n. hn_handle n \<noteq> h" and ?n = "length xs"
  have nh: "name_count s = ?n" "length (h_name s) = name_cap s" "?n \<le> name_cap s" "0 < name_cap s"
    "sorted_wrt (<) (map hn_name xs)" using assms by (simp_all add: names_hold_def)
  note cell = name_cell [OF assms]
  let ?I = "\<lambda>i (j, arr). length arr = name_cap s \<and> j = length (filter ?P (take i xs)) \<and>
      take j arr = map Some (filter ?P (take i xs)) \<and> (\<forall>m\<ge>i. arr ! m = h_name s ! m)"
  have "\<exists>st. drop_names h s = Some st \<and> ?I ?n st"
    unfolding drop_names_def nh(1)
  proof (rule c_for_rule [where I = ?I])
    show "0 \<le> ?n" "?I 0 (0, h_name s)" using nh by simp_all
    fix i st assume i: "0 \<le> i" "i < ?n" and I: "?I i st"
    obtain j arr where st: "st = (j, arr)" by fastforce
    let ?x = "xs ! i"
    have j: "j \<le> i" using I st length_filter_le [of ?P "take i xs"] i(2) by simp
    have x: "array_get arr i = Some ?x" using I st i(2) cell(2) nh by simp
    have tk: "take (Suc i) xs = take i xs @ [?x]" using i(2) by (rule take_Suc_conv_app_nth)
    show "\<exists>st'. (case st of (j, arr) \<Rightarrow> do {
          n \<leftarrow> array_get arr i;
          if hn_handle n = h then Some (j, arr)
          else do { arr' \<leftarrow> (if i \<noteq> j then array_set arr j n else Some arr); Some (j + 1, arr') } })
        = Some st' \<and> ?I (Suc i) st'"
    proof (cases "hn_handle ?x = h")
      case True
      have "?I (Suc i) (j, arr)" using I st tk True by auto
      with True x st show ?thesis by auto
    next
      case False
      let ?arr = "arr[j := Some ?x]"
      have lt: "j < length arr" using I st j i(2) nh by simp
      have same: "?arr = arr" if "i = j" using that x lt by (simp add: list_update_same_conv)
      have "take (Suc j) ?arr = take j arr @ [Some ?x]" using lt by (simp add: take_Suc_conv_app_nth)
      then have "?I (Suc i) (Suc j, ?arr)" using I st tk False j by auto
      moreover have "(if i \<noteq> j then array_set arr j ?x else Some arr) = Some ?arr"
        using lt same by simp
      ultimately show ?thesis using x st False by auto
    qed
  qed
  then obtain j arr where d: "drop_names h s = Some (j, arr)" "length arr = name_cap s"
    "j = length (filter ?P xs)" "take j arr = map Some (filter ?P xs)" by auto
  have "sorted_wrt (<) (map hn_name (filter ?P xs))"
    using nh(5) by (simp add: sorted_wrt_map sorted_wrt_filter)
  moreover have "length (filter ?P xs) \<le> name_cap s" using length_filter_le [of ?P xs] nh(3) by linarith
  ultimately show ?thesis using d nh by (auto simp: names_hold_def)
qed

lemma name_table_drop:
  assumes "sorted_wrt (<) (map hn_name xs)"
  shows "name_table (filter (\<lambda>n. hn_handle n \<noteq> h) xs) name =
    (if name_table xs name = Some h then None else name_table xs name)"
proof (cases "name_table xs name")
  case None
  then have "name_table (filter (\<lambda>n. hn_handle n \<noteq> h) xs) name = None" by (simp add: name_table_None)
  with None show ?thesis by simp
next
  case (Some g)
  then have "(name, g) \<in> set (map (\<lambda>n. (hn_name n, hn_handle n)) xs)"
    unfolding name_table_def by (rule map_of_SomeD)
  then obtain n where n: "n \<in> set xs" "hn_name n = name" "hn_handle n = g" by auto
  show ?thesis
  proof (cases "g = h")
    case True
    have "hn_handle m = h" if "m \<in> set xs" "hn_name m = name" for m
      using name_table_Some [OF assms that(1)] Some that(2) True by simp
    then show ?thesis using Some True by (auto simp: name_table_None)
  next
    case False
    have "sorted_wrt (<) (map hn_name (filter (\<lambda>n. hn_handle n \<noteq> h) xs))"
      using assms by (simp add: sorted_wrt_map sorted_wrt_filter)
    from name_table_Some [OF this, of n] n False Some show ?thesis by simp
  qed
qed

lemma array_get_slot:
  assumes "slots_ok cs s"
  shows "\<exists>p. array_get (slot s) (slot_hash h (slot_size s)) = Some p \<and>
    slot_hash h (slot_size s) < slot_size s \<and>
    (\<forall>a. p = Some a \<longrightarrow> in_slots s a \<and> (\<exists>c. cs a = Some c))"
proof -
  obtain k where k: "k \<le> 24" "slot_size s = 2 ^ k" using assms by (auto simp: slots_ok_def)
  have len: "length (slot s) = slot_size s" using assms by (simp add: slots_ok_def)
  have lt: "slot_hash h (slot_size s) < slot_size s" unfolding k(2) by (rule slot_hash_less [OF k(1)])
  have m: "slot s ! slot_hash h (slot_size s) \<in> set (slot s)" using lt len by simp
  then obtain p where p: "slot s ! slot_hash h (slot_size s) = Some p"
    using assms unfolding slots_ok_def by (metis option.exhaust)
  have "in_slots s a \<and> (\<exists>c. cs a = Some c)" if "p = Some a" for a
    using m p that slots_okD [OF assms lt, of a] by (metis in_slots_def)
  with p lt len show ?thesis by simp
qed

text \<open>\<open>grab\<close> looks a handle up, and takes a reference on what it finds.\<close>

lemma grab_spec:
  assumes "slots_ok cs s"
  shows "skynet_handle_grab h s cs =
    (case handle_table cs s h of
       None \<Rightarrow> Some (None, cs)
     | Some a \<Rightarrow> map_option (\<lambda>cs'. (Some a, cs')) (skynet_context_grab a cs))"
proof -
  from array_get_slot [OF assms, of h] obtain p where
    p: "array_get (slot s) (slot_hash h (slot_size s)) = Some p"
    "\<And>a. p = Some a \<Longrightarrow> \<exists>c. cs a = Some c" by blast
  show ?thesis
  proof (cases p)
    case None
    with p show ?thesis by (simp add: skynet_handle_grab_def handle_table_def)
  next
    case (Some a)
    with p(2) obtain c where "cs a = Some c" by blast
    with p(1) Some show ?thesis
      by (simp add: skynet_handle_grab_def handle_table_def skynet_context_handle_def
          skynet_context_grab_def)
  qed
qed

text \<open>\<open>retire\<close> takes one handle, and the names that stand for it, out of the tables.\<close>

lemma unlink_spec:
  assumes ok: "slots_ok cs s" and nh: "names_hold s xs"
  shows "case handle_table cs s h of
      None \<Rightarrow> handle_unlink cs h s = Some (None, s)
    | Some a \<Rightarrow> \<exists>s'. handle_unlink cs h s = Some (Some a, s') \<and> slots_ok cs s' \<and>
        (\<forall>b. in_slots s' b \<longleftrightarrow> in_slots s b \<and> b \<noteq> a) \<and>
        names_hold s' (filter (\<lambda>n. hn_handle n \<noteq> h) xs) \<and>
        s' = s\<lparr>slot := slot s', h_name := h_name s', name_count := name_count s'\<rparr>"
proof -
  let ?i = "slot_hash h (slot_size s)"
  from array_get_slot [OF ok, of h] obtain p where
    p: "array_get (slot s) ?i = Some p" "?i < slot_size s"
    "\<And>a. p = Some a \<Longrightarrow> in_slots s a \<and> (\<exists>c. cs a = Some c)" by blast
  have len: "length (slot s) = slot_size s" using ok by (simp add: slots_ok_def)
  show ?thesis
  proof (cases "handle_table cs s h")
    case None
    with p show ?thesis
      by (cases p) (force simp: handle_unlink_def handle_table_def skynet_context_handle_def split: if_splits)+
  next
    case (Some a)
    then have pa: "p = Some a" "map_option ctx_handle (cs a) = Some h"
      using p by (auto simp: handle_table_def split: option.splits if_splits)
    then obtain c where c: "cs a = Some c" "ctx_handle c = h" by auto
    from drop_names_ok [OF nh, of h] obtain arr where
      d: "drop_names h s = Some (length (filter (\<lambda>n. hn_handle n \<noteq> h) xs), arr)"
      "names_hold (s\<lparr>h_name := arr, name_count := length (filter (\<lambda>n. hn_handle n \<noteq> h) xs)\<rparr>)
      (filter (\<lambda>n. hn_handle n \<noteq> h) xs)" by blast
    let ?s = "s\<lparr>slot := (slot s)[?i := Some None], h_name := arr,
        name_count := length (filter (\<lambda>n. hn_handle n \<noteq> h) xs)\<rparr>"
    have at: "slot s ! ?i = Some (Some a)" using p(1,2) pa len by simp
    have "handle_unlink cs h s = Some (Some a, ?s)"
      using p pa c d len by (simp add: handle_unlink_def skynet_context_handle_def)
    moreover have "in_slots ?s b \<longleftrightarrow> in_slots s b \<and> b \<noteq> a" for b
    proof
      assume "in_slots ?s b"
      then obtain i where i: "i < slot_size s" "(slot s)[?i := Some None] ! i = Some (Some b)"
        unfolding in_slots_def in_set_conv_nth by (auto simp: len)
      then have ne: "i \<noteq> ?i" using len by auto
      with i have ib: "slot s ! i = Some (Some b)" by simp
      have "b \<noteq> a"
        using slots_okD [OF ok i(1) ib] slots_okD [OF ok p(2) at] ne by (metis option.inject)
      moreover have "in_slots s b" using i(1) ib len unfolding in_slots_def in_set_conv_nth by metis
      ultimately show "in_slots s b \<and> b \<noteq> a" by simp
    next
      assume b: "in_slots s b \<and> b \<noteq> a"
      then obtain i where i: "i < slot_size s" "slot s ! i = Some (Some b)"
        unfolding in_slots_def in_set_conv_nth len by blast
      then have "i \<noteq> ?i" using b at by auto
      then have "(slot s)[?i := Some None] ! i = Some (Some b)" using i by simp
      with i(1) len show "in_slots ?s b" by (simp add: in_slots_def) (metis length_list_update nth_mem)
    qed
    moreover have "slots_ok cs ?s"
    proof -
      have "None \<notin> set ((slot s)[?i := Some None])"
        using ok set_update_subset_insert [of "slot s" ?i "Some None"] by (auto simp: slots_ok_def)
      moreover have "slot s ! i = Some (Some b)"
        if "i < slot_size s" "(slot s)[?i := Some None] ! i = Some (Some b)" for i b
        using that len by (cases "i = ?i") auto
      ultimately show ?thesis using ok unfolding slots_ok_def
        by (simp add: handle_wf_def)
    qed
    moreover have "names_hold ?s (filter (\<lambda>n. hn_handle n \<noteq> h) xs)"
      using d(2) by (simp add: names_hold_def)
    ultimately show ?thesis using Some by (auto intro!: exI [of _ ?s])
  qed
qed

subsection \<open>Registering: the remaining cases\<close>

lemma cand_skips:
  assumes "k \<le> 24" and "0 < start" and "start \<le> 2 ^ 24" and "j < 2 ^ k"
    and wraps: "2 ^ 24 < start + 2 ^ k" "start < 2 ^ 24 \<or> k = 24"
  shows "cand start j mod 2 ^ k \<noteq> 0"
proof -
  define M :: nat where "M = 2 ^ 24 - 1"
  define q where "q = (start - 1) mod M"
  have M: "0 < M" "q < M" "M + 1 = 2 ^ 24" by (simp_all add: M_def q_def)
  have k24: "(2 :: nat) ^ k dvd M + 1" unfolding M(3) using assms(1) by (rule le_imp_power_dvd)
  then have k24': "2 ^ k \<le> M + 1" by (rule dvd_imp_le) simp
  have cand: "cand start j = (q + j) mod M + 1"
    using assms(2) by (simp add: cand_def q_def M_def mod_add_left_eq)
  have past: "M < q + 2 ^ k"
  proof (cases "start < 2 ^ 24")
    case True
    then have "start - 1 < M" using M(3) assms(2) by linarith
    then have "q = start - 1" by (simp add: q_def)
    with wraps(1) M(3) assms(2) show ?thesis by linarith
  next
    case False
    with wraps(2) M(3) show ?thesis by simp
  qed
  show ?thesis
  proof (cases "q + j < M")
    case True
    show ?thesis
    proof
      assume "cand start j mod 2 ^ k = 0"
      then have "2 ^ k dvd q + j + 1" using cand True by (simp add: mod_eq_0_iff_dvd)
      then have "2 ^ k dvd M + 1 - (q + j + 1)" using k24 by (rule dvd_diff_nat [rotated])
      moreover have "0 < M + 1 - (q + j + 1)" using True by simp
      ultimately have "2 ^ k \<le> M + 1 - (q + j + 1)" by (rule dvd_imp_le)
      with past True show False by linarith
    qed
  next
    case False
    then have "(q + j) mod M = (q + j - M) mod M" by (simp add: le_mod_geq)
    also have "\<dots> = q + j - M" using M(2) assms(4) k24' by (intro mod_less) linarith
    finally have "cand start j = q + j - M + 1" using cand by simp
    moreover have "q + j - M + 1 < 2 ^ k" using M(2) assms(4) False by linarith
    ultimately show ?thesis by simp
  qed
qed

lemma register_scan_None:
  assumes ok: "slots_ok cs s" and "\<not> slot_free s"
  shows "register_scan s 0 (handle_index s) = Some None"
proof -
  let ?h = "handle_index s"
  obtain k where k: "k \<le> 24" "slot_size s = 2 ^ k" using ok by (auto simp: slots_ok_def)
  have b: "0 < unat ?h" "unat ?h \<le> 2 ^ 24" using ok by (simp_all add: slots_ok_def)
  from register_scan_spec [OF ok _ b, of 0] obtain r where
    r: "register_scan s 0 ?h = Some r" and
    c: "case r of Some (hash, h') \<Rightarrow> hash = slot_hash h' (slot_size s) \<and> hash < slot_size s \<and>
         slot s ! hash = Some None \<and> (\<exists>j < slot_size s. unat h' = cand (unat ?h) j)
     | None \<Rightarrow> True"
    by (auto split: option.splits prod.splits)
  have "r = None"
  proof (cases r)
    case (Some p)
    obtain hash h' where p: "p = (hash, h')" by fastforce
    with c Some obtain j where
      j: "hash = slot_hash h' (slot_size s)" "hash < slot_size s" "slot s ! hash = Some None"
      "j < slot_size s" "unat h' = cand (unat ?h) j" by auto
    with assms(2) have "hash = 0" "scan_wraps s" by (auto simp: slot_free_def)
    moreover have "hash = cand (unat ?h) j mod 2 ^ k"
      using j(1,5) slot_hash_mod [OF k(1)] by (simp only: k(2))
    moreover have "2 ^ 24 < unat ?h + 2 ^ k" "unat ?h < 2 ^ 24 \<or> k = 24"
      using \<open>scan_wraps s\<close> unfolding scan_wraps_def k(2)
      using power_inject_exp [of "2 :: nat" k 24] by auto
    ultimately have False using cand_skips [OF k(1) b _ _ _, of j] j(4) k(2) by simp
    then show ?thesis ..
  qed
  with r show ?thesis by simp
qed

text \<open>With no reachable free slot, the code doubles the table; that fails on an empty slot.\<close>

lemma register_stuck:
  assumes ok: "slots_ok cs s" and "\<not> slot_free s" and "\<not> (slots_full s \<and> slot_size s * 2 \<le> 2 ^ 24)"
  shows "skynet_handle_register cs a s = None"
proof (cases "slot_size s * 2 \<le> 2 ^ 24")
  case False
  then have "\<not> slot_size s * 2 - 1 \<le> unat HANDLE_MASK" by (simp add: unat_HANDLE_MASK)
  then show ?thesis
    using register_scan_None [OF assms(1,2)] by (subst skynet_handle_register.simps) simp
next
  case True
  with assms(3) have "Some None \<in> set (slot s)" by (simp add: slots_full_def)
  have len: "length (slot s) = slot_size s" using ok by (simp add: slots_ok_def)
  then obtain i where "i < slot_size s" "slot s ! i = Some None"
    using \<open>Some None \<in> set (slot s)\<close> by (metis in_set_conv_nth)
  with assms(2) have z: "slot s ! 0 = Some None" "0 < slot_size s" by (auto simp: slot_free_def)
  have "rehash cs s = None"
    unfolding rehash_def by (subst c_for.simps) (use z len in simp)
  then show ?thesis
    using register_scan_None [OF assms(1,2)] by (subst skynet_handle_register.simps) simp
qed

text \<open>Registering in one statement.\<close>

lemma register_spec:
  assumes ok: "slots_ok cs s" and new: "\<not> in_slots s a" "cs a = Some c"
    and room: "slot_free s \<or> slots_full s \<and> slot_size s * 2 \<le> 2 ^ 24"
  shows "\<exists>h s'. skynet_handle_register cs a s = Some (h, s') \<and> h \<noteq> 0 \<and> handle_table cs s h = None \<and>
    slots_ok (cs(a \<mapsto> c\<lparr>ctx_handle := h\<rparr>)) s' \<and>
    handle_table (cs(a \<mapsto> c\<lparr>ctx_handle := h\<rparr>)) s' = (handle_table cs s)(h \<mapsto> a) \<and>
    s' = s\<lparr>slot := slot s', handle_index := handle_index s', slot_size := slot_size s'\<rparr>"
proof -
  have "\<exists>h s'. skynet_handle_register cs a s = Some (h, s') \<and> h \<noteq> 0 \<and> handle_table cs s h = None \<and>
    slots_ok (cs(a \<mapsto> c\<lparr>ctx_handle := h\<rparr>)) s' \<and> (\<forall>b. in_slots s' b \<longleftrightarrow> in_slots s b \<or> b = a) \<and>
    s' = s\<lparr>slot := slot s', handle_index := handle_index s', slot_size := slot_size s'\<rparr>"
  proof (cases "slot_free s")
    case True
    from register_free [OF ok True new] obtain h s' where
      r: "skynet_handle_register cs a s = Some (h, s')" "h \<noteq> 0" "handle_table cs s h = None"
      "slots_ok (cs(a \<mapsto> c\<lparr>ctx_handle := h\<rparr>)) s'" "\<forall>b. in_slots s' b \<longleftrightarrow> in_slots s b \<or> b = a"
      "s' = s\<lparr>slot := slot s', handle_index := handle_index s'\<rparr>" by blast
    obtain sl hi where "s' = s\<lparr>slot := sl, handle_index := hi\<rparr>" using r(6) by blast
    then have "s' = s\<lparr>slot := slot s', handle_index := handle_index s', slot_size := slot_size s'\<rparr>" by simp
    with r(1-5) show ?thesis by (intro exI conjI)
  next
    case False
    with room have "slots_full s" "slot_size s * 2 \<le> 2 ^ 24" by simp_all
    from register_full [OF ok this new] show ?thesis .
  qed
  then obtain h s' where
    r: "skynet_handle_register cs a s = Some (h, s')" "h \<noteq> 0" "handle_table cs s h = None"
    "slots_ok (cs(a \<mapsto> c\<lparr>ctx_handle := h\<rparr>)) s'" "\<forall>b. in_slots s' b \<longleftrightarrow> in_slots s b \<or> b = a"
    "s' = s\<lparr>slot := slot s', handle_index := handle_index s', slot_size := slot_size s'\<rparr>" by blast
  have "handle_table (cs(a \<mapsto> c\<lparr>ctx_handle := h\<rparr>)) s' g = ((handle_table cs s)(h \<mapsto> a)) g" for g
  proof -
    have e: "handle_table (cs(a \<mapsto> c\<lparr>ctx_handle := h\<rparr>)) s' g = Some b \<longleftrightarrow>
        (if b = a then g = h else handle_table cs s g = Some b)" for b
      unfolding handle_table_iff [OF r(4)] handle_table_iff [OF ok] using r(5) by auto
    have na: "handle_table cs s g \<noteq> Some a" using new(1) handle_table_iff [OF ok] by simp
    show ?thesis
    proof (cases "g = h")
      case True
      then show ?thesis using e [of a] by simp
    next
      case False
      then have "handle_table (cs(a \<mapsto> c\<lparr>ctx_handle := h\<rparr>)) s' g = Some b \<longleftrightarrow> handle_table cs s g = Some b" for b
        using e [of b] na by (cases "b = a") auto
      then show ?thesis using False by (cases "handle_table cs s g") (auto simp: fun_upd_def)
    qed
  qed
  with r show ?thesis by (intro exI conjI ext)
qed

subsection \<open>The tables refine two finite maps\<close>

text \<open>Every state the operations reach, with the maps the calls should have built: \<open>T\<close> from
  handles to contexts, \<open>N\<close> from names to handles. \<open>register\<close> includes the caller's assignment of
  the handle to the context (\<open>skynet_context_new\<close>), with no other operation in between; \<open>touch\<close> is
  anything that happens to contexts without changing the handle of a registered one.\<close>

inductive handle_run ::
  "ctx_store \<Rightarrow> handle_storage \<Rightarrow> (u32 \<Rightarrow> ptr) \<Rightarrow> (cstr \<Rightarrow> u32 option) \<Rightarrow> bool" where
  init: "handle_run cs (skynet_handle_init harb) Map.empty Map.empty"
| register: "handle_run cs s T N \<Longrightarrow> cs a = Some c \<Longrightarrow> a \<notin> ran T \<Longrightarrow>
    skynet_handle_register cs a s = Some (h, s') \<Longrightarrow>
    handle_run (cs(a \<mapsto> c\<lparr>ctx_handle := h\<rparr>)) s' (T(h \<mapsto> a)) N"
| retire: "handle_run cs s T N \<Longrightarrow> handle_unlink cs h s = Some (p, s') \<Longrightarrow>
    handle_run cs s' (T(h := None))
      (if T h = None then N else (\<lambda>n. if N n = Some h then None else N n))"
| name: "handle_run cs s T N \<Longrightarrow> skynet_handle_namehandle h name s = Some (r, s') \<Longrightarrow>
    handle_run cs s' T (if N name = None then N(name \<mapsto> h) else N)"
| touch: "handle_run cs s T N \<Longrightarrow>
    (\<And>a. a \<in> ran T \<Longrightarrow> map_option ctx_handle (cs' a) = map_option ctx_handle (cs a)) \<Longrightarrow>
    handle_run cs' s T N"

definition handle_inv ::
  "ctx_store \<Rightarrow> handle_storage \<Rightarrow> (u32 \<Rightarrow> ptr) \<Rightarrow> (cstr \<Rightarrow> u32 option) \<Rightarrow> bool" where
  "handle_inv cs s T N \<longleftrightarrow> slots_ok cs s \<and> handle_table cs s = T \<and>
     (\<forall>b. in_slots s b \<longleftrightarrow> b \<in> ran T) \<and> (\<exists>xs. names_hold s xs \<and> name_table xs = N)"

lemma names_hold_cong:
  "name_cap s' = name_cap s \<Longrightarrow> name_count s' = name_count s \<Longrightarrow> h_name s' = h_name s \<Longrightarrow>
   names_hold s' xs = names_hold s xs"
  by (simp add: names_hold_def)

lemma slots_ok_cong:
  "slot s' = slot s \<Longrightarrow> slot_size s' = slot_size s \<Longrightarrow> handle_index s' = handle_index s \<Longrightarrow>
   harbor s' = harbor s \<Longrightarrow> slots_ok cs s' = slots_ok cs s"
  by (simp add: slots_ok_def handle_wf_def)

lemma ran_table:
  assumes "slots_ok cs s"
  shows "in_slots s b \<longleftrightarrow> b \<in> ran (handle_table cs s)"
proof
  assume b: "in_slots s b"
  then obtain i where i: "i < slot_size s" "slot s ! i = Some (Some b)"
    using assms unfolding in_slots_def in_set_conv_nth slots_ok_def by metis
  from slots_okD [OF assms i] obtain c where "cs b = Some c" by blast
  with b have "handle_table cs s (ctx_handle c) = Some b" unfolding handle_table_iff [OF assms] by simp
  then show "b \<in> ran (handle_table cs s)" by (rule ranI)
next
  assume "b \<in> ran (handle_table cs s)"
  then show "in_slots s b" unfolding ran_def using handle_table_iff [OF assms] by blast
qed

lemma handle_invI:
  "slots_ok cs s \<Longrightarrow> handle_table cs s = T \<Longrightarrow> names_hold s xs \<Longrightarrow> name_table xs = N \<Longrightarrow>
   handle_inv cs s T N"
  using ran_table [of cs s] by (auto simp: handle_inv_def)

lemma handle_inv_register:
  assumes inv: "handle_inv cs s T N" and c: "cs a = Some c" "a \<notin> ran T"
    and r: "skynet_handle_register cs a s = Some (h, s')"
  shows "handle_inv (cs(a \<mapsto> c\<lparr>ctx_handle := h\<rparr>)) s' (T(h \<mapsto> a)) N"
proof -
  obtain xs where i: "slots_ok cs s" "handle_table cs s = T" "names_hold s xs" "name_table xs = N"
    using inv by (auto simp: handle_inv_def)
  have new: "\<not> in_slots s a" using c(2) ran_table [OF i(1)] i(2) by simp
  have "slot_free s \<or> slots_full s \<and> slot_size s * 2 \<le> 2 ^ 24"
    using register_stuck [OF i(1), of a] r by auto
  from register_spec [OF i(1) new c(1) this] r have
    p: "slots_ok (cs(a \<mapsto> c\<lparr>ctx_handle := h\<rparr>)) s'"
    "handle_table (cs(a \<mapsto> c\<lparr>ctx_handle := h\<rparr>)) s' = (handle_table cs s)(h \<mapsto> a)" and
    q: "\<exists>sl hi sz. s' = s\<lparr>slot := sl, handle_index := hi, slot_size := sz\<rparr>" by auto
  have "names_hold s' xs" using q i(3) by (auto simp: names_hold_def)
  with p i(2,4) show ?thesis by (intro handle_invI) simp_all
qed

lemma handle_inv_retire:
  assumes inv: "handle_inv cs s T N" and r: "handle_unlink cs h s = Some (p, s')"
  shows "handle_inv cs s' (T(h := None)) (if T h = None then N else (\<lambda>n. if N n = Some h then None else N n))"
    and "p = T h"
proof -
  obtain xs where i: "slots_ok cs s" "handle_table cs s = T" "names_hold s xs" "name_table xs = N"
    using inv by (auto simp: handle_inv_def)
  note u = unlink_spec [OF i(1,3), of h, unfolded i(2)]
  show "p = T h" using u r by (auto split: option.splits)
  show "handle_inv cs s' (T(h := None)) (if T h = None then N else (\<lambda>n. if N n = Some h then None else N n))"
  proof (cases "T h")
    case None
    with u r have "s' = s" by simp
    moreover have "T(h := None) = T" using None by (simp add: fun_eq_iff)
    ultimately show ?thesis using inv None by simp
  next
    case (Some a)
    with u r have s': "slots_ok cs s'" "\<And>b. in_slots s' b \<longleftrightarrow> in_slots s b \<and> b \<noteq> a"
      "names_hold s' (filter (\<lambda>n. hn_handle n \<noteq> h) xs)" by auto
    have a: "map_option ctx_handle (cs a) = Some h" "in_slots s a"
      using Some handle_table_iff [OF i(1)] i(2) by auto
    have "handle_table cs s' g = Some b \<longleftrightarrow> (T(h := None)) g = Some b" for g b
    proof -
      have "handle_table cs s' g = Some b \<longleftrightarrow> T g = Some b \<and> b \<noteq> a"
        unfolding i(2) [symmetric] handle_table_iff [OF s'(1)] handle_table_iff [OF i(1)] s'(2) by blast
      moreover have "T g = Some a \<longleftrightarrow> g = h"
        unfolding i(2) [symmetric] handle_table_iff [OF i(1)] using a by auto
      ultimately show ?thesis using Some by auto
    qed
    then have t: "handle_table cs s' = T(h := None)"
      by (intro ext) (metis option.exhaust)
    have "name_table (filter (\<lambda>n. hn_handle n \<noteq> h) xs) = (\<lambda>n. if N n = Some h then None else N n)"
      using name_table_drop i(3,4) by (auto simp: names_hold_def fun_eq_iff)
    with s'(1,3) t Some show ?thesis by (intro handle_invI) simp_all
  qed
qed

lemma handle_inv_name:
  assumes inv: "handle_inv cs s T N"
    and r: "skynet_handle_namehandle h name s = Some (r, s')"
  shows "handle_inv cs s' T (if N name = None then N(name \<mapsto> h) else N)"
    and "r = (if N name = None then Some name else None)"
proof -
  obtain xs where i: "slots_ok cs s" "handle_table cs s = T" "names_hold s xs" "name_table xs = N"
    using inv by (auto simp: handle_inv_def)
  note n = namehandle_spec [OF i(3) r, unfolded i(4)]
  show "r = (if N name = None then Some name else None)" using n by (auto split: if_splits)
  show "handle_inv cs s' T (if N name = None then N(name \<mapsto> h) else N)"
  proof (cases "N name = None")
    case False
    then have "s' = s" using n by simp
    with inv show ?thesis by (simp only: False if_False)
  next
    case True
    with n obtain arr cap ys where
      s': "s' = s\<lparr>h_name := arr, name_count := name_count s + 1, name_cap := cap\<rparr>"
      "names_hold s' ys" "name_table ys = N(name \<mapsto> h)" by auto
    have "slots_ok cs s'" using i(1) by (subst slots_ok_cong [of s' s]) (simp_all add: s'(1))
    moreover have "handle_table cs s' = T" using i(2) by (simp add: s'(1) handle_table_def fun_eq_iff)
    ultimately show ?thesis using s'(2,3) True by (intro handle_invI) simp_all
  qed
qed

lemma handle_inv_touch:
  assumes inv: "handle_inv cs s T N"
    and same: "\<And>a. a \<in> ran T \<Longrightarrow> map_option ctx_handle (cs' a) = map_option ctx_handle (cs a)"
  shows "handle_inv cs' s T N"
proof -
  obtain xs where i: "slots_ok cs s" "handle_table cs s = T" "names_hold s xs" "name_table xs = N"
    using inv by (auto simp: handle_inv_def)
  have mem: "map_option ctx_handle (cs' a) = map_option ctx_handle (cs a)" if "in_slots s a" for a
    using that ran_table [OF i(1)] i(2) same by simp
  have "slots_ok cs' s"
    unfolding slots_ok_def
  proof (intro conjI allI impI)
    fix j a assume j: "j < slot_size s" "slot s ! j = Some (Some a)"
    from slots_okD [OF i(1) j] obtain c where
      c: "cs a = Some c" "slot_hash (ctx_handle c) (slot_size s) = j" "handle_wf s (ctx_handle c)" by metis
    have "in_slots s a" using j i(1) unfolding in_slots_def slots_ok_def by (metis nth_mem)
    from mem [OF this] c show "\<exists>c. cs' a = Some c \<and> slot_hash (ctx_handle c) (slot_size s) = j \<and>
        handle_wf s (ctx_handle c)" by auto
  qed (use i(1) in \<open>auto simp: slots_ok_def\<close>)
  moreover have "handle_table cs' s g = Some b \<longleftrightarrow> T g = Some b" for g b
    unfolding i(2) [symmetric] handle_table_iff [OF calculation] handle_table_iff [OF i(1)]
    using mem [of b] by metis
  then have "handle_table cs' s = T" by (intro ext) (metis option.exhaust)
  ultimately show ?thesis using i(3,4) by (intro handle_invI)
qed


lemma handle_run_inv: "handle_run cs s T N \<Longrightarrow> handle_inv cs s T N"
proof (induction rule: handle_run.induct)
  case (init cs harb)
  have "handle_table cs (skynet_handle_init harb) = Map.empty"
    by (rule ext) (simp add: handle_table_def skynet_handle_init_def array_get_def)
  moreover have "names_hold (skynet_handle_init harb) []" "name_table [] = Map.empty"
    by (simp_all add: names_hold_def skynet_handle_init_def name_table_def)
  ultimately show ?case by (intro handle_invI [OF handle_init_slots_ok])
next
  case (register cs s T N a c h s')
  show ?case by (rule handle_inv_register [OF register.IH register.hyps(2-4)])
next
  case (retire cs s T N h p s')
  show ?case by (rule handle_inv_retire(1) [OF retire.IH retire.hyps(2)])
next
  case (name cs s T N h name r s')
  show ?case by (rule handle_inv_name(1) [OF name.IH name.hyps(2)])
next
  case (touch cs s T N cs')
  show ?case by (rule handle_inv_touch [OF touch.IH touch.hyps(2)])
qed

subsection \<open>Properties\<close>

text \<open>Property C3. After any sequence of registrations, retirements and namings, from any harbor
  id, through every doubling of both arrays, the table and the sorted array stand for the two
  finite maps those calls describe: \<open>grab\<close> returns the context registered under a handle (with one
  more reference) or NULL, \<open>findname\<close> returns the handle first bound to the name and not retired
  since, or 0, and each registered context carries the non-zero handle it is found under.\<close>

theorem handle_run_refines:
  assumes "handle_run cs s T N"
  shows "(\<forall>h. skynet_handle_grab h s cs =
        (case T h of
           None \<Rightarrow> Some (None, cs)
         | Some a \<Rightarrow> map_option (\<lambda>cs'. (Some a, cs')) (skynet_context_grab a cs))) \<and>
    (\<forall>name. skynet_handle_findname name s = Some (case N name of Some h \<Rightarrow> h | None \<Rightarrow> 0)) \<and>
    (\<forall>h a. T h = Some a \<longrightarrow> h \<noteq> 0 \<and> map_option ctx_handle (cs a) = Some h)"
proof -
  obtain xs where i: "slots_ok cs s" "handle_table cs s = T" "names_hold s xs" "name_table xs = N"
    using handle_run_inv [OF assms] by (auto simp: handle_inv_def)
  have "h \<noteq> 0 \<and> map_option ctx_handle (cs a) = Some h" if "T h = Some a" for h a
  proof -
    from that have a: "in_slots s a" "map_option ctx_handle (cs a) = Some h"
      unfolding i(2) [symmetric] handle_table_iff [OF i(1)] by simp_all
    then obtain j where "j < slot_size s" "slot s ! j = Some (Some a)"
      using i(1) unfolding in_slots_def in_set_conv_nth slots_ok_def by metis
    from slots_okD [OF i(1) this] obtain c where "cs a = Some c" "handle_wf s (ctx_handle c)" by metis
    with a(2) show ?thesis by (auto simp: handle_wf_def)
  qed
  then show ?thesis using grab_spec [OF i(1)] findname_table [OF i(3)] i(2,4) by auto
qed

lemma slots_init: "slot (skynet_handle_init harb) = [Some None, Some None, Some None, Some None]"
  by (simp add: skynet_handle_init_def DEFAULT_SLOT_SIZE_def numeral_eq_Suc)

lemma init_simps: "slot_size (skynet_handle_init harb) = 4" "handle_index (skynet_handle_init harb) = 1"
  "harbor (skynet_handle_init 1) = 0x1000000" "name_count (skynet_handle_init harb) = 0"
  by (simp_all add: skynet_handle_init_def DEFAULT_SLOT_SIZE_def HANDLE_REMOTE_SHIFT_def)

lemma register_first:
  "skynet_handle_register cs a (skynet_handle_init 1) =
     Some (0x1000001, (skynet_handle_init 1)\<lparr>slot := [Some None, Some (Some a), Some None, Some None],
                        handle_index := 2\<rparr>)"
proof -
  have "slot_hash 1 4 = 1" by (simp add: slot_hash_def)
  moreover have "\<not> HANDLE_MASK < (1 :: u32)" by (simp add: HANDLE_MASK_def mask_eq_exp_minus_1)
  ultimately have "register_scan (skynet_handle_init 1) 0 1 = Some (Some (1, 1))"
    by (subst register_scan.simps) (simp add: init_simps slots_init Let_def)
  then show ?thesis
    by (subst skynet_handle_register.simps) (simp add: init_simps slots_init)
qed

theorem handle_run_refines_witness:
  "\<forall>c. \<exists>s. skynet_handle_register [7 \<mapsto> c] 7 (skynet_handle_init 1) = Some (0x1000001, s) \<and>
     skynet_handle_grab 0x1000001 s [7 \<mapsto> c\<lparr>ctx_handle := 0x1000001\<rparr>] =
       Some (Some 7, [7 \<mapsto> c\<lparr>ctx_handle := 0x1000001, ctx_ref := ctx_ref c + 1\<rparr>])"
proof
  fix c
  have "handle_run [7 \<mapsto> c\<lparr>ctx_handle := 0x1000001\<rparr>]
      ((skynet_handle_init 1)\<lparr>slot := [Some None, Some (Some 7), Some None, Some None], handle_index := 2\<rparr>)
      [0x1000001 \<mapsto> 7] Map.empty"
    using handle_run.register [OF handle_run.init, of "[7 \<mapsto> c]" 7 c 1 "0x1000001"]
    by (simp add: register_first)
  from conjunct1 [OF handle_run_refines [OF this]]
  show "\<exists>s. skynet_handle_register [7 \<mapsto> c] 7 (skynet_handle_init 1) = Some (0x1000001, s) \<and>
     skynet_handle_grab 0x1000001 s [7 \<mapsto> c\<lparr>ctx_handle := 0x1000001\<rparr>] =
       Some (Some 7, [7 \<mapsto> c\<lparr>ctx_handle := 0x1000001, ctx_ref := ctx_ref c + 1\<rparr>])"
    by (simp add: register_first skynet_context_grab_def)
qed


text \<open>Property C26. Registration is total: from a consistent table, when a slot the scan can reach is
  free, or the table is full and below \<open>2 ^ 24\<close> slots, it returns, without failing an assertion, a
  non-zero handle that no context has, and once the caller has stored it in the context the table
  is consistent again and maps that handle, and no other, to the new context.\<close>

theorem handle_register_fresh:
  assumes "slots_ok cs s" and "\<not> in_slots s a" and "cs a = Some c"
    and "slot_free s \<or> slots_full s \<and> slot_size s * 2 \<le> 2 ^ 24"
  shows "\<exists>h s'. skynet_handle_register cs a s = Some (h, s') \<and> h \<noteq> 0 \<and> handle_table cs s h = None \<and>
    slots_ok (cs(a \<mapsto> c\<lparr>ctx_handle := h\<rparr>)) s' \<and>
    handle_table (cs(a \<mapsto> c\<lparr>ctx_handle := h\<rparr>)) s' = (handle_table cs s)(h \<mapsto> a) \<and>
    h_name s' = h_name s \<and> name_count s' = name_count s"
proof -
  from register_spec [OF assms] obtain h s' sl hi sz where
    r: "skynet_handle_register cs a s = Some (h, s')" "h \<noteq> 0" "handle_table cs s h = None"
    "slots_ok (cs(a \<mapsto> c\<lparr>ctx_handle := h\<rparr>)) s'"
    "handle_table (cs(a \<mapsto> c\<lparr>ctx_handle := h\<rparr>)) s' = (handle_table cs s)(h \<mapsto> a)"
    "s' = s\<lparr>slot := sl, handle_index := hi, slot_size := sz\<rparr>" by blast
  from r(6) have "h_name s' = h_name s" "name_count s' = name_count s" by simp_all
  with r(1-5) show ?thesis by (intro exI conjI)
qed

lemma slot_free_init: "slot_free (skynet_handle_init harb)"
  unfolding slot_free_def by (intro exI [of _ 1]) (simp add: init_simps slots_init)

theorem handle_register_fresh_witness:
  "\<forall>c. \<exists>h s'. skynet_handle_register [7 \<mapsto> c] 7 (skynet_handle_init 1) = Some (h, s') \<and> h \<noteq> 0 \<and>
     handle_table [7 \<mapsto> c\<lparr>ctx_handle := h\<rparr>] s' h = Some 7"
proof
  fix c
  have "\<not> in_slots (skynet_handle_init 1) 7" by (simp add: in_slots_def slots_init)
  from handle_register_fresh [OF handle_init_slots_ok this, of "[7 \<mapsto> c]" c] slot_free_init
  show "\<exists>h s'. skynet_handle_register [7 \<mapsto> c] 7 (skynet_handle_init 1) = Some (h, s') \<and> h \<noteq> 0 \<and>
     handle_table [7 \<mapsto> c\<lparr>ctx_handle := h\<rparr>] s' h = Some 7"
    by auto
qed

text \<open>Where it is not total: when the scan wraps past \<open>HANDLE_MASK\<close> (after
  \<open>2 ^ 24\<close> registrations) it never looks at slot 0, because the handle 0 is skipped. If slot 0 is
  the only free one, the code takes the table for full and rehashes it, reading the handle of the
  NULL context of slot 0: the registration dereferences NULL.\<close>

theorem handle_register_wrap_fails:
  assumes "slots_ok cs s" and "scan_wraps s"
    and "slot s ! 0 = Some None" and "\<forall>i. 0 < i \<and> i < slot_size s \<longrightarrow> slot s ! i \<noteq> Some None"
  shows "skynet_handle_register cs a s = None"
proof (rule register_stuck [OF assms(1)])
  show "\<not> slot_free s" using assms(2-4) by (auto simp: slot_free_def)
  obtain k where "slot_size s = 2 ^ k" using assms(1) by (auto simp: slots_ok_def)
  moreover have "length (slot s) = slot_size s" using assms(1) by (simp add: slots_ok_def)
  ultimately have "slot s ! 0 \<in> set (slot s)" by (intro nth_mem) simp
  with assms(3) show "\<not> (slots_full s \<and> slot_size s * 2 \<le> 2 ^ 24)" by (simp add: slots_full_def)
qed

text \<open>Three services left, on slots 1 to 3, when the counter is about to wrap.\<close>

definition wrap_state :: handle_storage where
  "wrap_state = (skynet_handle_init 0)\<lparr>slot := [Some None, Some (Some 1), Some (Some 2), Some (Some 3)],
     handle_index := 0xFFFFFE\<rparr>"

theorem handle_register_wrap_fails_witness:
  "\<forall>c. skynet_handle_register
     [1 \<mapsto> c\<lparr>ctx_handle := 1\<rparr>, 2 \<mapsto> c\<lparr>ctx_handle := 2\<rparr>, 3 \<mapsto> c\<lparr>ctx_handle := 3\<rparr>] 4 wrap_state = None"
proof
  fix c
  let ?cs = "[1 \<mapsto> c\<lparr>ctx_handle := 1\<rparr>, 2 \<mapsto> c\<lparr>ctx_handle := 2\<rparr>, 3 \<mapsto> c\<lparr>ctx_handle := 3\<rparr>] :: ctx_store"
  have four: "i < 4 \<Longrightarrow> i = 0 \<or> i = 1 \<or> i = 2 \<or> i = 3" for i :: nat by linarith
  have f: "slot_size wrap_state = 4" "harbor wrap_state = 0" "unat (handle_index wrap_state) = 0xFFFFFE"
    "slot wrap_state = [Some None, Some (Some 1), Some (Some 2), Some (Some 3)]"
    by (simp_all add: wrap_state_def skynet_handle_init_def DEFAULT_SLOT_SIZE_def)
  have wf: "handle_wf wrap_state 1" "handle_wf wrap_state 2" "handle_wf wrap_state 3"
    by (simp_all add: handle_wf_def f HANDLE_MASK_def mask_eq_exp_minus_1)
  have h: "slot_hash 1 4 = 1" "slot_hash 2 4 = 2" "slot_hash 3 4 = 3" by (simp_all add: slot_hash_def)
  have "slots_ok ?cs wrap_state"
    unfolding slots_ok_def
  proof (intro conjI allI impI)
    show "\<exists>k\<ge>2. k \<le> 24 \<and> slot_size wrap_state = 2 ^ k" by (intro exI [of _ 2]) (simp add: f)
    fix i a assume "i < slot_size wrap_state" "slot wrap_state ! i = Some (Some a)"
    then show "\<exists>c'. ?cs a = Some c' \<and> slot_hash (ctx_handle c') (slot_size wrap_state) = i \<and>
        handle_wf wrap_state (ctx_handle c')"
      using four [of i] wf h by (auto simp: f)
  qed (simp_all add: f)
  from handle_register_wrap_fails [OF this, of 4] show "skynet_handle_register ?cs 4 wrap_state = None"
    using four by (auto simp: scan_wraps_def f nth_Cons split: nat.split)
qed

text \<open>The assignment \<open>ctx->handle = skynet_handle_register(ctx)\<close> (skynet_server.c) happens after the lock is
  released. An example: four services are in the table, the fourth with its handle 4 not yet assigned, when
  another thread registers a fifth. The rehash reads 0 for the fourth and files it under slot 0, where its handle, once
  assigned, does not find it: messages to it are refused until the table grows again and the rehash reads the handle.\<close>

lemma register_race_misfiles:
  "\<forall>c. \<exists>s s'. slot s = [Some (Some 4), Some (Some 1), Some (Some 2), Some (Some 3)] \<and>
     skynet_handle_register [1 \<mapsto> c\<lparr>ctx_handle := 1\<rparr>, 2 \<mapsto> c\<lparr>ctx_handle := 2\<rparr>, 3 \<mapsto> c\<lparr>ctx_handle := 3\<rparr>,
       4 \<mapsto> c\<lparr>ctx_handle := 0\<rparr>] 5 s = Some (5, s') \<and>
     (\<forall>cs. skynet_handle_grab 4 s' (cs(4 \<mapsto> c\<lparr>ctx_handle := 4\<rparr>)) =
        Some (None, cs(4 \<mapsto> c\<lparr>ctx_handle := 4\<rparr>)))"
proof
  fix c
  let ?cs = "[1 \<mapsto> c\<lparr>ctx_handle := 1\<rparr>, 2 \<mapsto> c\<lparr>ctx_handle := 2\<rparr>, 3 \<mapsto> c\<lparr>ctx_handle := 3\<rparr>,
       4 \<mapsto> c\<lparr>ctx_handle := 0\<rparr>] :: ctx_store"
  let ?s = "(skynet_handle_init 0)\<lparr>slot := [Some (Some 4), Some (Some 1), Some (Some 2), Some (Some 3)],
      handle_index := 5\<rparr>"
  let ?new = "[Some (Some 4), Some (Some 1), Some (Some 2), Some (Some 3), Some None, Some None, Some None, Some None]"
  let ?s1 = "?s\<lparr>slot := ?new, slot_size := 8\<rparr>"
  let ?s' = "?s1\<lparr>slot := ?new[5 := Some (Some 5)], handle_index := 6\<rparr>"
  have hb: "harbor (skynet_handle_init 0) = 0" by (simp add: skynet_handle_init_def)
  have m: "\<not> HANDLE_MASK < (h :: u32)" if "h \<in> {5, 6, 7, 8}" for h
    using that by (auto simp: HANDLE_MASK_def mask_eq_exp_minus_1)
  have h4: "slot_hash 5 4 = 1" "slot_hash 6 4 = 2" "slot_hash 7 4 = 3" "slot_hash 8 4 = 0"
    by (simp_all add: slot_hash_def)
  have h8: "slot_hash 0 8 = 0" "slot_hash 1 8 = 1" "slot_hash 2 8 = 2" "slot_hash 3 8 = 3"
    "slot_hash 4 8 = 4" "slot_hash 5 8 = 5"
    by (simp_all add: slot_hash_def)
  have r8: "replicate 8 x = [x, x, x, x, x, x, x, x]" for x :: 'x by (simp add: numeral_eq_Suc)
  have scan: "register_scan ?s 0 5 = Some None"
    by (simp add: register_scan.simps init_simps m h4 Let_def)
  have re: "rehash ?cs ?s = Some ?new"
    by (simp add: rehash_def c_for.simps init_simps r8 h8 skynet_context_handle_def Let_def)
  have scan': "register_scan ?s1 0 5 = Some (Some (5, 5))"
    by (subst register_scan.simps) (simp add: m h8 Let_def)
  have "skynet_handle_register ?cs 5 ?s1 = Some (5, ?s')"
    unfolding skynet_handle_register.simps [of ?cs 5 ?s1] using scan' hb by simp
  then have "skynet_handle_register ?cs 5 ?s = Some (5, ?s')"
    unfolding skynet_handle_register.simps [of ?cs 5 ?s]
    using scan re by (simp add: init_simps unat_HANDLE_MASK)
  moreover have "skynet_handle_grab 4 ?s' cs = Some (None, cs)" for cs
    by (simp add: skynet_handle_grab_def h8)
  ultimately show "\<exists>s s'. slot s = [Some (Some 4), Some (Some 1), Some (Some 2), Some (Some 3)] \<and>
     skynet_handle_register ?cs 5 s = Some (5, s') \<and>
     (\<forall>cs. skynet_handle_grab 4 s' (cs(4 \<mapsto> c\<lparr>ctx_handle := 4\<rparr>)) =
        Some (None, cs(4 \<mapsto> c\<lparr>ctx_handle := 4\<rparr>)))"
    by (intro exI [of _ ?s] exI [of _ ?s']) simp
qed

end
