(* ===== verification/Format.thy ===== *)
theory Format
  imports CString
begin

section \<open>Printing and parsing numbers\<close>

text \<open>
  What the core uses of \<open>printf\<close> (\<open>%x\<close>, \<open>%d\<close>) and of \<open>strtoul\<close>/\<open>strtol\<close>, on lists of bytes, and
  \<open>id_to_hex\<close> of \<open>skynet_server.c\<close>. The theorems: a handle printed either way parses back to itself.
\<close>

definition str :: "string \<Rightarrow> u8 list" where
  "str s = map of_char s"

definition digit :: "nat \<Rightarrow> u8" where
  "digit d = (if d < 10 then 48 + of_nat d else 87 + of_nat d)"

definition upper_digit :: "nat \<Rightarrow> u8" where
  "upper_digit d = (if d < 10 then 48 + of_nat d else 55 + of_nat d)"

function digits :: "nat \<Rightarrow> nat \<Rightarrow> u8 list" where
  "digits b n = (if n < b \<or> b < 2 then [digit n] else digits b (n div b) @ [digit (n mod b)])"
  by pat_completeness auto
termination
  by (relation "measure snd") auto

declare digits.simps [simp del]

definition fmt_x :: "u32 \<Rightarrow> u8 list" where
  "fmt_x w = digits 16 (unat w)"

definition fmt_d :: "i32 \<Rightarrow> u8 list" where
  "fmt_d w = (if sint w < 0 then 45 # digits 10 (nat (- sint w)) else digits 10 (nat (sint w)))"

definition fmt_u :: "u32 \<Rightarrow> u8 list" where
  "fmt_u w = digits 10 (unat w)"

definition digit_val :: "u8 \<Rightarrow> nat option" where
  "digit_val c =
     (if 48 \<le> c \<and> c \<le> 57 then Some (unat c - 48)
      else if 65 \<le> c \<and> c \<le> 70 then Some (unat c - 55)
      else if 97 \<le> c \<and> c \<le> 102 then Some (unat c - 87)
      else None)"

fun parse_digits :: "nat \<Rightarrow> nat \<Rightarrow> u8 list \<Rightarrow> nat" where
  "parse_digits b acc [] = acc"
| "parse_digits b acc (c # cs) =
     (case digit_val c of
        Some d \<Rightarrow> if d < b then parse_digits b (acc * b + d) cs else acc
      | None \<Rightarrow> acc)"

definition c_isspace :: "u8 \<Rightarrow> bool" where
  "c_isspace c \<longleftrightarrow> c = 32 \<or> 9 \<le> c \<and> c \<le> 13"

text \<open>White space and a sign.\<close>

fun parse_sign :: "u8 list \<Rightarrow> bool \<times> u8 list" where
  "parse_sign [] = (False, [])"
| "parse_sign (c # cs) =
     (if c_isspace c then parse_sign cs
      else if c = 45 then (True, cs) else if c = 43 then (False, cs) else (False, c # cs))"

text \<open>The prefix 0x counts only before a hexadecimal digit.\<close>

fun skip_0x :: "u8 list \<Rightarrow> u8 list" where
  "skip_0x (a # x # c # cs) =
     (if a = 48 \<and> (x = 120 \<or> x = 88) \<and> digit_val c \<noteq> None then c # cs else a # x # c # cs)"
| "skip_0x cs = cs"

definition strtoul16 :: "u8 list \<Rightarrow> u64" where
  "strtoul16 s =
     (let (neg, ds) = parse_sign s; v = parse_digits 16 0 (skip_0x ds)
      in if 2 ^ 64 \<le> v then - 1 else if neg then - of_nat v else of_nat v)"

definition strtol10 :: "u8 list \<Rightarrow> i64" where
  "strtol10 s =
     (let (neg, ds) = parse_sign s; v = parse_digits 10 0 ds
      in if neg then (if 2 ^ 63 \<le> v then - (2 ^ 63) else - of_nat v)
         else (if 2 ^ 63 \<le> v then 2 ^ 63 - 1 else of_nat v))"

text \<open>What \<open>sscanf\<close> reads for \<open>%s\<close>, \<open>%d\<close> and \<open>%u\<close>, and the rest of the input.\<close>

definition scan_str :: "u8 list \<Rightarrow> (u8 list \<times> u8 list) option" where
  "scan_str s =
     (let s' = dropWhile c_isspace s; w = takeWhile (\<lambda>b. \<not> c_isspace b) s'
      in if w = [] then None else Some (w, drop (length w) s'))"

definition is_decimal :: "u8 \<Rightarrow> bool" where
  "is_decimal b \<longleftrightarrow> 48 \<le> b \<and> b \<le> 57"

definition scan_int :: "u8 list \<Rightarrow> (i32 \<times> u8 list) option" where
  "scan_int s =
     (let (neg, ds) = parse_sign s; k = length (takeWhile is_decimal ds)
      in if k = 0 then None else Some (ucast (strtol10 s), drop k ds))"

definition strtoul10 :: "u8 list \<Rightarrow> u64" where
  "strtoul10 s =
     (let (neg, ds) = parse_sign s; v = parse_digits 10 0 ds
      in if 2 ^ 64 \<le> v then - 1 else if neg then - of_nat v else of_nat v)"

definition scan_uint :: "u8 list \<Rightarrow> (u32 \<times> u8 list) option" where
  "scan_uint s =
     (let (neg, ds) = parse_sign s; k = length (takeWhile is_decimal ds)
      in if k = 0 then None else Some (ucast (strtoul10 s), drop k ds))"

text \<open>\<open>id_to_hex\<close>: eight upper-case digits after a colon.\<close>

definition id_to_hex :: "u32 \<Rightarrow> u8 list" where
  "id_to_hex h =
     58 # map (\<lambda>i. upper_digit (unat (drop_bit ((7 - i) * 4) h AND 0xf))) [0..<8]"

subsection \<open>Round trips\<close>

lemma digit_val_digit: "d < 16 \<Longrightarrow> digit_val (digit d) = Some d"
proof -
  assume d: "d < 16"
  have u: "unat (48 + of_nat d :: u8) = 48 + d" "unat (87 + of_nat d :: u8) = 87 + d"
    using d by (simp_all add: unat_word_ariths unat_of_nat)
  show ?thesis using d u by (simp add: digit_val_def digit_def word_le_nat_alt)
qed

lemma digit_val_upper: "d < 16 \<Longrightarrow> digit_val (upper_digit d) = Some d"
proof -
  assume d: "d < 16"
  have u: "unat (48 + of_nat d :: u8) = 48 + d" "unat (55 + of_nat d :: u8) = 55 + d"
    using d by (simp_all add: unat_word_ariths unat_of_nat)
  show ?thesis using d u by (simp add: digit_val_def upper_digit_def word_le_nat_alt)
qed

text \<open>The value of a list of digits.\<close>

lemma parse_digits_append:
  "\<forall>c\<in>set xs. \<exists>d<b. digit_val c = Some d \<Longrightarrow>
   parse_digits b acc (xs @ ys) = parse_digits b (parse_digits b acc xs) ys"
  by (induction xs arbitrary: acc) (auto split: option.split)

lemma digits_are_digits:
  "2 \<le> b \<Longrightarrow> b \<le> 16 \<Longrightarrow> \<forall>c\<in>set (digits b n). \<exists>d<b. digit_val c = Some d"
proof (induction b n rule: digits.induct)
  case (1 b n)
  have m: "n mod b < b" "n mod b < 16" using "1.prems" order_less_le_trans [of "n mod b" b 16] by simp_all
  show ?case using "1.IH" "1.prems" m
    by (subst digits.simps) (auto simp: digit_val_digit)
qed

lemma parse_digits_digits:
  "2 \<le> b \<Longrightarrow> b \<le> 16 \<Longrightarrow> parse_digits b 0 (digits b n) = n"
proof (induction b n rule: digits.induct)
  case (1 b n)
  show ?case
  proof (cases "n < b")
    case True
    with "1.prems" show ?thesis by (simp add: digits.simps [of b n] digit_val_digit)
  next
    case False
    then have e: "digits b n = digits b (n div b) @ [digit (n mod b)]"
      using "1.prems" by (simp add: digits.simps [of b n])
    have "n mod b < b" "n mod b < 16" using "1.prems" order_less_le_trans [of "n mod b" b 16] by simp_all
    with False "1.prems" "1.IH" show ?thesis
      by (simp add: e parse_digits_append digits_are_digits digit_val_digit)
  qed
qed

lemma digits_ne: "digits b n \<noteq> []"
  by (subst digits.simps) simp

text \<open>Strings of digits have no white space, sign or prefix.\<close>

lemma parse_sign_digit: "digit_val c \<noteq> None \<Longrightarrow> parse_sign (c # cs) = (False, c # cs)"
  by (auto simp: digit_val_def c_isspace_def word_le_nat_alt split: if_splits)

lemma skip_0x_digits: "\<forall>c\<in>set xs. digit_val c \<noteq> None \<Longrightarrow> skip_0x xs = xs"
proof -
  have "digit_val 120 = None" "digit_val 88 = None" by (simp_all add: digit_val_def)
  then show "\<forall>c\<in>set xs. digit_val c \<noteq> None \<Longrightarrow> ?thesis" by (cases xs rule: skip_0x.cases) auto
qed

lemma strtoul16_digits:
  assumes "xs \<noteq> []" and "\<forall>c\<in>set xs. \<exists>d<16. digit_val c = Some d" and "parse_digits 16 0 xs < 2 ^ 64"
  shows "strtoul16 xs = of_nat (parse_digits 16 0 xs)"
proof -
  have "\<forall>c\<in>set xs. digit_val c \<noteq> None" using assms(2) by fastforce
  then have "parse_sign xs = (False, xs)" "skip_0x xs = xs"
    using assms(1) parse_sign_digit skip_0x_digits by (cases xs; force)+
  with assms(3) show ?thesis by (simp add: strtoul16_def)
qed

lemma strtoul16_fmt_x: "strtoul16 (fmt_x h) = ucast h"
proof -
  have "unat h < 2 ^ 64" using unat_bound [of h] by simp
  then show ?thesis
    unfolding fmt_x_def
    by (subst strtoul16_digits) (simp_all add: digits_ne digits_are_digits parse_digits_digits unsigned_def)
qed

lemma div_step: "n div 16 ^ Suc k * 16 + n div 16 ^ k mod 16 = (n :: nat) div 16 ^ k"
  using div_mult_mod_eq [of "n div 16 ^ k" 16] by (simp only: power_Suc2 div_mult2_eq)

lemma div_step': "m = Suc k \<Longrightarrow> n div 16 ^ m * 16 + n div 16 ^ k mod 16 = (n :: nat) div 16 ^ k"
  by (simp only: div_step)

lemma strtoul16_id_to_hex: "strtoul16 (tl (id_to_hex h)) = ucast h"
proof -
  let ?n = "unat h"
  let ?d = "\<lambda>i. unat (drop_bit ((7 - i) * 4) h AND 0xf)"
  have d: "?d i = ?n div 16 ^ (7 - i) mod 16" for i
  proof -
    have "(0xf :: u32) = mask 4" by (simp add: mask_eq_exp_minus_1)
    then show ?thesis by (simp only: unat_and_mask unat_drop_bit_div power_mult mult.commute [of _ 4]) simp
  qed
  have l: "\<forall>c\<in>set (tl (id_to_hex h)). \<exists>d<16. digit_val c = Some d"
    by (simp add: id_to_hex_def d digit_val_upper)
  have top: "?n div 16 ^ 7 mod 16 = ?n div 16 ^ 7" using unat_bound [of h] by (simp add: less_mult_imp_div_less)
  have s: "?n div 16 ^ 1 * 16 + ?n div 16 ^ 0 mod 16 = ?n div 16 ^ 0"
    "?n div 16 ^ 2 * 16 + ?n div 16 ^ 1 mod 16 = ?n div 16 ^ 1"
    "?n div 16 ^ 3 * 16 + ?n div 16 ^ 2 mod 16 = ?n div 16 ^ 2"
    "?n div 16 ^ 4 * 16 + ?n div 16 ^ 3 mod 16 = ?n div 16 ^ 3"
    "?n div 16 ^ 5 * 16 + ?n div 16 ^ 4 mod 16 = ?n div 16 ^ 4"
    "?n div 16 ^ 6 * 16 + ?n div 16 ^ 5 mod 16 = ?n div 16 ^ 5"
    "?n div 16 ^ 7 * 16 + ?n div 16 ^ 6 mod 16 = ?n div 16 ^ 6"
    by (rule div_step'; simp)+
  have "parse_digits 16 0 (tl (id_to_hex h)) =
      ((((((?n div 16 ^ 7 mod 16 * 16 + ?n div 16 ^ 6 mod 16) * 16 + ?n div 16 ^ 5 mod 16) * 16 +
        ?n div 16 ^ 4 mod 16) * 16 + ?n div 16 ^ 3 mod 16) * 16 + ?n div 16 ^ 2 mod 16) * 16 +
        ?n div 16 ^ 1 mod 16) * 16 + ?n div 16 ^ 0 mod 16"
    by (simp add: id_to_hex_def d upt_conv_Cons digit_val_upper)
  also have "\<dots> = ?n div 16 ^ 0"
    unfolding top
    by (simp only: s)
  finally have "parse_digits 16 0 (tl (id_to_hex h)) = ?n" by simp
  moreover have "?n < 2 ^ 64" using unat_bound [of h] by simp
  moreover have "tl (id_to_hex h) \<noteq> []" by (simp add: id_to_hex_def)
  ultimately show ?thesis using strtoul16_digits [OF _ l] by (simp add: unsigned_def)
qed

end
