(* ===== verification/Node.thy ===== *)
theory Node
  imports Sched Handle Module
begin

section \<open>The node (skynet_server.c, skynet_harbor.c, skynet_error.c)\<close>

text \<open>
  The state of one skynet process, and the operations that send messages: allocation and freeing of
  message buffers, reference counts and deletion of contexts, retiring handles, \<open>skynet_error\<close>,
  \<open>skynet_send\<close> and \<open>skynet_sendname\<close>. Message buffers are blocks at addresses a bump allocator
  hands out (\<open>skynet_malloc\<close> aborts when memory runs out, so it never returns NULL); freeing a block
  that is not allocated fails, so a theorem that a call returns says it frees nothing twice.
  A service's own code (\<open>init\<close>, \<open>release\<close>, \<open>signal\<close>, the callback) is not part of the node: a call to
  \<open>release\<close> or \<open>signal\<close> is recorded as an event, the other two are arguments (theory \<open>Server\<close>).
\<close>
subsection \<open>State\<close>


record remote_name =
  rn_name :: "u8 list"
  rn_handle :: u32

record remote_message =
  rm_destination :: remote_name
  rm_message :: ptr
  rm_sz :: u64
  rm_type :: i32

text \<open>\<open>struct skynet_socket_message\<close> (skynet_socket.h), with the bytes that are allocated behind it.\<close>

record skynet_socket_message =
  sm_type :: i32
  sm_id :: i32
  sm_ud :: int
  sm_buffer :: ptr
  sm_tail :: "u8 list"

datatype block = Bytes "u8 list" | Remote remote_message | SocketMsg skynet_socket_message

datatype event =
  InstanceRelease nat addr
| InstanceSignal nat addr i32
| LogWrite addr skynet_message
| LogClose addr

record node =
  ctxs :: ctx_store
  hs :: handle_storage
  mq :: mq_store
  blocks :: "addr \<Rightarrow> block option"
  brk :: addr
  total :: int
  monitor_exit :: u32
  profile :: bool
  mods :: modules
  logger :: u32
  REMOTE :: ptr
  HARBOR :: u32
  events :: "event list"

definition skynet_malloc :: "block \<Rightarrow> node \<Rightarrow> addr \<times> node" where
  "skynet_malloc b n = (brk n, n\<lparr>blocks := (blocks n)(brk n \<mapsto> b), brk := brk n + 1\<rparr>)"

definition skynet_free :: "ptr \<Rightarrow> node \<Rightarrow> node option" where
  "skynet_free p n =
     (case p of
        None \<Rightarrow> Some n
      | Some a \<Rightarrow> if blocks n a = None then None else Some (n\<lparr>blocks := (blocks n)(a := None)\<rparr>))"

subsection \<open>Contexts\<close>

definition get_module :: "nat \<Rightarrow> node \<Rightarrow> skynet_module option" where
  "get_module i n = (if i < length (mods_m (mods n)) then Some (mods_m (mods n) ! i) else None)"

definition skynet_module_instance_release :: "nat \<Rightarrow> addr \<Rightarrow> node \<Rightarrow> node option" where
  "skynet_module_instance_release i inst n = do {
     m \<leftarrow> get_module i n;
     Some (if mod_release m \<noteq> None then n\<lparr>events := events n @ [InstanceRelease i inst]\<rparr> else n) }"

definition skynet_module_instance_signal :: "nat \<Rightarrow> addr \<Rightarrow> i32 \<Rightarrow> node \<Rightarrow> node option" where
  "skynet_module_instance_signal i inst sig n = do {
     m \<leftarrow> get_module i n;
     Some (if mod_signal m \<noteq> None then n\<lparr>events := events n @ [InstanceSignal i inst sig]\<rparr> else n) }"

definition delete_context :: "addr \<Rightarrow> node \<Rightarrow> node option" where
  "delete_context a n = do {
     c \<leftarrow> ctxs n a;
     let n1 = (case ctx_logfile c of
                 Some f \<Rightarrow> n\<lparr>events := events n @ [LogClose f]\<rparr> | None \<Rightarrow> n);
     n2 \<leftarrow> skynet_module_instance_release (ctx_mod c) (ctx_instance c) n1;
     q \<leftarrow> ctx_queue c;
     mq' \<leftarrow> skynet_mq_mark_release q (mq n2);
     Some (n2\<lparr>mq := mq', ctxs := (ctxs n2)(a := None), total := total n2 - 1\<rparr>) }"

definition skynet_context_release :: "addr \<Rightarrow> node \<Rightarrow> (ptr \<times> node) option" where
  "skynet_context_release a n = do {
     c \<leftarrow> ctxs n a;
     let n' = n\<lparr>ctxs := (ctxs n)(a \<mapsto> c\<lparr>ctx_ref := ctx_ref c - 1\<rparr>)\<rparr>;
     if ctx_ref c - 1 = 0 then do { n2 \<leftarrow> delete_context a n'; Some (None, n2) }
     else Some (Some a, n') }"

definition skynet_context_reserve :: "addr \<Rightarrow> node \<Rightarrow> node option" where
  "skynet_context_reserve a n = do {
     cs \<leftarrow> skynet_context_grab a (ctxs n);
     Some (n\<lparr>ctxs := cs, total := total n - 1\<rparr>) }"

text \<open>\<open>skynet_handle_grab\<close> on the node.\<close>

definition grab :: "u32 \<Rightarrow> node \<Rightarrow> (ptr \<times> node) option" where
  "grab h n = do {
     (p, cs) \<leftarrow> skynet_handle_grab h (hs n) (ctxs n);
     Some (p, n\<lparr>ctxs := cs\<rparr>) }"

definition skynet_handle_retire :: "u32 \<Rightarrow> node \<Rightarrow> (i32 \<times> node) option" where
  "skynet_handle_retire h n = do {
     (p, hs') \<leftarrow> handle_unlink (ctxs n) h (hs n);
     let n1 = n\<lparr>hs := hs'\<rparr>;
     case p of
       None \<Rightarrow> Some (0, n1)
     | Some ctx \<Rightarrow> do { (_, n2) \<leftarrow> skynet_context_release ctx n1; Some (1, n2) } }"

text \<open>One pass of \<open>skynet_handle_retireall\<close> counts the contexts it retired; the outer loop repeats
  until a pass retires none.\<close>

definition retire_pass :: "node \<Rightarrow> (nat \<times> node) option" where
  "retire_pass n =
     c_for 0 (slot_size (hs n))
       (\<lambda>i (k, n). do {
          p \<leftarrow> array_get (slot (hs n)) i;
          h \<leftarrow> (case p of None \<Rightarrow> Some 0 | Some ctx \<Rightarrow> skynet_context_handle ctx (ctxs n));
          if h \<noteq> 0 then do {
            (r, n') \<leftarrow> skynet_handle_retire h n;
            Some (if r \<noteq> 0 then k + 1 else k, n') }
          else Some (k, n) })
       (0, n)"

partial_function (option) skynet_handle_retireall :: "node \<Rightarrow> node option" where
  "skynet_handle_retireall n = do {
     (k, n') \<leftarrow> retire_pass n;
     if k = 0 then Some n' else skynet_handle_retireall n' }"

subsection \<open>Sending\<close>

definition skynet_context_push :: "u32 \<Rightarrow> skynet_message \<Rightarrow> node \<Rightarrow> (i32 \<times> node) option" where
  "skynet_context_push h message n = do {
     (p, n1) \<leftarrow> grab h n;
     case p of
       None \<Rightarrow> Some (- 1, n1)
     | Some ctx \<Rightarrow> do {
         c \<leftarrow> ctxs n1 ctx;
         q \<leftarrow> ctx_queue c;
         mq' \<leftarrow> skynet_mq_push q message (mq n1);
         (_, n2) \<leftarrow> skynet_context_release ctx (n1\<lparr>mq := mq'\<rparr>);
         Some (0, n2) } }"

text \<open>\<open>msg\<close> is the formatted text: the buffer sent has its bytes and a NUL.\<close>

definition skynet_error :: "ptr \<Rightarrow> u8 list \<Rightarrow> node \<Rightarrow> node option" where
  "skynet_error context msg n = do {
     lg \<leftarrow> (if logger n = 0 then skynet_handle_findname (CStr (str ''logger'')) (hs n)
            else Some (logger n));
     let n1 = n\<lparr>logger := lg\<rparr>;
     if lg = 0 then Some n1
     else do {
       let (data, n2) = skynet_malloc (Bytes (msg @ [0])) n1;
       source \<leftarrow> (case context of None \<Rightarrow> Some 0 | Some ctx \<Rightarrow> skynet_context_handle ctx (ctxs n2));
       (_, n3) \<leftarrow> skynet_context_push lg
         \<lparr>msg_source = source, msg_session = 0, msg_data = Some data,
          msg_sz = of_nat (length msg) OR push_bit MESSAGE_TYPE_SHIFT PTYPE_TEXT\<rparr> n2;
       Some n3 } }"

definition skynet_context_send ::
  "addr \<Rightarrow> ptr \<Rightarrow> u64 \<Rightarrow> u32 \<Rightarrow> i32 \<Rightarrow> i32 \<Rightarrow> node \<Rightarrow> node option" where
  "skynet_context_send ctx msg sz source type session n = do {
     c \<leftarrow> ctxs n ctx;
     q \<leftarrow> ctx_queue c;
     mq' \<leftarrow> skynet_mq_push q
       \<lparr>msg_source = source, msg_session = session, msg_data = msg,
        msg_sz = sz OR push_bit MESSAGE_TYPE_SHIFT (scast type)\<rparr> (mq n);
     Some (n\<lparr>mq := mq'\<rparr>) }"

text \<open>\<open>skynet_harbor.c\<close>. \<open>sizeof(struct remote_message)\<close> is 48 on the 64-bit targets.\<close>

definition SIZEOF_REMOTE_MESSAGE :: u64 where "SIZEOF_REMOTE_MESSAGE = 48"

definition skynet_harbor_init :: "u32 \<Rightarrow> node \<Rightarrow> node" where
  "skynet_harbor_init harb n = n\<lparr>HARBOR := push_bit HANDLE_REMOTE_SHIFT harb\<rparr>"

definition skynet_harbor_message_isremote :: "u32 \<Rightarrow> node \<Rightarrow> bool option" where
  "skynet_harbor_message_isremote h n = do {
     c_assert (HARBOR n \<noteq> NOT 0);
     let k = h AND NOT HANDLE_MASK;
     Some (k \<noteq> HARBOR n \<and> k \<noteq> 0) }"

definition skynet_harbor_send :: "addr \<Rightarrow> u32 \<Rightarrow> i32 \<Rightarrow> node \<Rightarrow> node option" where
  "skynet_harbor_send rmsg source session n = do {
     b \<leftarrow> blocks n rmsg;
     rm \<leftarrow> (case b of Remote rm \<Rightarrow> Some rm | _ \<Rightarrow> None);
     c_assert (rm_type rm \<noteq> ucast PTYPE_SYSTEM \<and> rm_type rm \<noteq> ucast PTYPE_HARBOR);
     ctx \<leftarrow> REMOTE n;
     skynet_context_send ctx (Some rmsg) SIZEOF_REMOTE_MESSAGE source (ucast PTYPE_SYSTEM) session n }"

definition skynet_harbor_start :: "addr \<Rightarrow> node \<Rightarrow> node option" where
  "skynet_harbor_start ctx n = do {
     n1 \<leftarrow> skynet_context_reserve ctx n;
     Some (n1\<lparr>REMOTE := Some ctx\<rparr>) }"

definition skynet_harbor_exit :: "node \<Rightarrow> node option" where
  "skynet_harbor_exit n =
     (case REMOTE n of
        None \<Rightarrow> Some n
      | Some ctx \<Rightarrow> do { (_, n') \<leftarrow> skynet_context_release ctx (n\<lparr>REMOTE := None\<rparr>); Some n' })"

text \<open>\<open>_filter_args\<close>: the session, the data and the size of the message to send.\<close>

definition filter_args ::
  "ptr \<Rightarrow> i32 \<Rightarrow> i32 \<Rightarrow> ptr \<Rightarrow> u64 \<Rightarrow> node \<Rightarrow> (i32 \<times> ptr \<times> u64 \<times> node) option" where
  "filter_args context type session data sz n = do {
     let needcopy = (type AND PTYPE_TAG_DONTCOPY = 0);
     let allocsession = (type AND PTYPE_TAG_ALLOCSESSION \<noteq> 0);
     let type = type AND 0xff;
     (session, n1) \<leftarrow>
       (if allocsession then do {
          c_assert (session = 0);
          a \<leftarrow> context;
          c \<leftarrow> ctxs n a;
          let (s, c') = skynet_context_newsession c;
          Some (s, n\<lparr>ctxs := (ctxs n)(a \<mapsto> c')\<rparr>) }
        else Some (session, n));
     (data, n2) \<leftarrow>
       (case data of
          Some d \<Rightarrow>
            if needcopy then do {
              b \<leftarrow> blocks n1 d;
              xs \<leftarrow> (case b of Bytes xs \<Rightarrow> Some xs | _ \<Rightarrow> None);
              c_assert (unat sz \<le> length xs);
              let (m, n2) = skynet_malloc (Bytes (take (unat sz) xs @ [0])) n1;
              Some (Some m, n2) }
            else Some (data, n1)
        | None \<Rightarrow> Some (data, n1));
     Some (session, data, sz OR push_bit MESSAGE_TYPE_SHIFT (ucast type), n2) }"

text \<open>A remote message with its type split off the size again, as both senders build it.\<close>

definition remote_of :: "remote_name \<Rightarrow> ptr \<Rightarrow> u64 \<Rightarrow> remote_message" where
  "remote_of dest data sz =
     \<lparr>rm_destination = dest, rm_message = data, rm_sz = sz AND MESSAGE_TYPE_MASK,
      rm_type = ucast (drop_bit MESSAGE_TYPE_SHIFT sz)\<rparr>"

definition too_large :: "u64 \<Rightarrow> bool" where
  "too_large sz \<longleftrightarrow> sz AND MESSAGE_TYPE_MASK \<noteq> sz"

definition skynet_send ::
  "ptr \<Rightarrow> u32 \<Rightarrow> u32 \<Rightarrow> i32 \<Rightarrow> i32 \<Rightarrow> ptr \<Rightarrow> u64 \<Rightarrow> node \<Rightarrow> (i32 \<times> node) option" where
  "skynet_send context source destination type session data sz n =
     (if too_large sz then do {
        n1 \<leftarrow> skynet_error context
          (str ''The message to '' @ fmt_x destination @ str '' is too large'') n;
        n2 \<leftarrow> (if type AND PTYPE_TAG_DONTCOPY \<noteq> 0 then skynet_free data n1 else Some n1);
        Some (- 2, n2) }
      else do {
        (session, data, sz, n1) \<leftarrow> filter_args context type session data sz n;
        source \<leftarrow> (if source = 0 then do { a \<leftarrow> context; skynet_context_handle a (ctxs n1) }
                  else Some source);
        if destination = 0 then
          (if data \<noteq> None then do {
             n2 \<leftarrow> skynet_error context (str ''Destination address can't be 0'') n1;
             n3 \<leftarrow> skynet_free data n2;
             Some (- 1, n3) }
           else Some (session, n1))
        else do {
          remote \<leftarrow> skynet_harbor_message_isremote destination n1;
          if remote then do {
            let (rmsg, n2) = skynet_malloc
              (Remote (remote_of \<lparr>rn_name = [], rn_handle = destination\<rparr> data sz)) n1;
            n3 \<leftarrow> skynet_harbor_send rmsg source session n2;
            Some (session, n3) }
          else do {
            (r, n2) \<leftarrow> skynet_context_push destination
              \<lparr>msg_source = source, msg_session = session, msg_data = data, msg_sz = sz\<rparr> n1;
            if r \<noteq> 0 then do { n3 \<leftarrow> skynet_free data n2; Some (- 1, n3) }
            else Some (session, n2) } } })"

text \<open>\<open>copy_name\<close>: at most 16 bytes, padded with NULs. A byte of \<open>addr\<close> past its end is its NUL.\<close>

definition copy_name :: "u8 list \<Rightarrow> u8 list" where
  "copy_name addr =
     take GLOBALNAME_LENGTH addr @ replicate (GLOBALNAME_LENGTH - length addr) 0"

text \<open>\<open>addr[0]\<close> and \<open>addr + 1\<close>.\<close>

definition char0 :: "u8 list \<Rightarrow> u8" where
  "char0 s = (case s of [] \<Rightarrow> 0 | c # cs \<Rightarrow> c)"

definition skynet_sendname ::
  "ptr \<Rightarrow> u32 \<Rightarrow> u8 list \<Rightarrow> i32 \<Rightarrow> i32 \<Rightarrow> ptr \<Rightarrow> u64 \<Rightarrow> node \<Rightarrow> (i32 \<times> node) option" where
  "skynet_sendname context source addr type session data sz n = do {
     source \<leftarrow> (if source = 0 then do { a \<leftarrow> context; skynet_context_handle a (ctxs n) }
               else Some source);
     if char0 addr = of_char (CHR '':'') then
       skynet_send context source (ucast (strtoul16 (drop 1 addr))) type session data sz n
     else if char0 addr = of_char (CHR ''.'') then do {
       des \<leftarrow> skynet_handle_findname (CStr (drop 1 addr)) (hs n);
       if des = 0 then do {
         n1 \<leftarrow> (if type AND PTYPE_TAG_DONTCOPY \<noteq> 0 then skynet_free data n else Some n);
         Some (- 1, n1) }
       else skynet_send context source des type session data sz n }
     else if too_large sz then do {
       n1 \<leftarrow> skynet_error context
         (str ''The message to '' @ addr @ str '' is too large'') n;
       n2 \<leftarrow> (if type AND PTYPE_TAG_DONTCOPY \<noteq> 0 then skynet_free data n1 else Some n1);
       Some (- 2, n2) }
     else do {
       (session, data, sz, n1) \<leftarrow> filter_args context type session data sz n;
       let (rmsg, n2) = skynet_malloc
         (Remote (remote_of \<lparr>rn_name = copy_name addr, rn_handle = 0\<rparr> data sz)) n1;
       n3 \<leftarrow> skynet_harbor_send rmsg source session n2;
       Some (session, n3) } }"

end
