(* ===== verification/Server.thy ===== *)
theory Server
  imports Monitor Timer
begin

section \<open>Dispatching and commands (skynet-src/skynet_server.c)\<close>

text \<open>
  Launching a service, dispatching its messages, and the commands services call. What a service's
  own code does is a parameter: \<open>env_create\<close>, \<open>env_init\<close> and \<open>env_cb\<close> are its three entry points,
  each a function on the node; \<open>env_time\<close> is the thread's CPU clock.
\<close>

record environment =
  env_dlopen :: dlopen
  env_dlsym :: dlsym
  env_create :: "addr \<Rightarrow> node \<Rightarrow> (ptr \<times> node) option"
  env_init :: "addr \<Rightarrow> addr \<Rightarrow> addr \<Rightarrow> u8 list option \<Rightarrow> node \<Rightarrow> (i32 \<times> node) option"
  env_cb :: "addr \<Rightarrow> addr \<Rightarrow> ptr \<Rightarrow> u64 \<Rightarrow> i32 \<Rightarrow> u32 \<Rightarrow> ptr \<Rightarrow> u64 \<Rightarrow> node \<Rightarrow> (bool \<times> node) option"
  env_time :: "node \<Rightarrow> u64"

definition upd_ctx :: "addr \<Rightarrow> (skynet_context \<Rightarrow> skynet_context) \<Rightarrow> node \<Rightarrow> node option" where
  "upd_ctx a f n = do { c \<leftarrow> ctxs n a; Some (n\<lparr>ctxs := (ctxs n)(a \<mapsto> f c)\<rparr>) }"

definition context_newsession :: "addr \<Rightarrow> node \<Rightarrow> (i32 \<times> node) option" where
  "context_newsession a n = do {
     c \<leftarrow> ctxs n a;
     let (s, c') = skynet_context_newsession c;
     Some (s, n\<lparr>ctxs := (ctxs n)(a \<mapsto> c')\<rparr>) }"

subsection \<open>Launching\<close>

definition drop_message :: "u32 \<Rightarrow> skynet_message \<Rightarrow> node \<Rightarrow> node option" where
  "drop_message h m n = do {
     n1 \<leftarrow> skynet_free (msg_data m) n;
     c_assert (h \<noteq> 0);
     (_, n2) \<leftarrow> skynet_send None h (msg_source m) (ucast PTYPE_ERROR) 0 None 0 n1;
     Some n2 }"

fun drop_messages :: "u32 \<Rightarrow> skynet_message list \<Rightarrow> node \<Rightarrow> node option" where
  "drop_messages h [] n = Some n"
| "drop_messages h (m # ms) n = do { n1 \<leftarrow> drop_message h m n; drop_messages h ms n1 }"

text \<open>\<open>skynet_mq_release(q, drop_message, &d)\<close>: the queue is emptied message by message; here the
  messages it yields are dropped in that order after it.\<close>

definition mq_release_drop :: "addr \<Rightarrow> u32 \<Rightarrow> node \<Rightarrow> node option" where
  "mq_release_drop q h n = do {
     (out, mq') \<leftarrow> skynet_mq_release q (mq n);
     drop_messages h out (n\<lparr>mq := mq'\<rparr>) }"

text \<open>\<open>skynet_module_instance_create\<close>: without a \<open>create\<close>, the instance is \<open>~0\<close>.\<close>

definition instance_create :: "environment \<Rightarrow> nat \<Rightarrow> node \<Rightarrow> (ptr \<times> node) option" where
  "instance_create env i n = do {
     m \<leftarrow> get_module i n;
     case mod_create m of
       Some f \<Rightarrow> env_create env f n
     | None \<Rightarrow> Some (Some (2 ^ 64 - 1), n) }"

definition fresh_context :: "nat \<Rightarrow> addr \<Rightarrow> bool \<Rightarrow> skynet_context" where
  "fresh_context i inst prof =
     \<lparr>ctx_instance = inst, ctx_mod = i, ctx_cb = None, ctx_cb_ud = None, ctx_queue = None,
      ctx_logfile = None, ctx_cpu_cost = 0, ctx_cpu_start = 0, ctx_result = CStr [],
      ctx_handle = 0, ctx_session_id = 0, ctx_ref = 2, ctx_message_count = 0,
      ctx_init = False, ctx_endless = False, ctx_profile = prof\<rparr>"

definition skynet_context_new ::
  "environment \<Rightarrow> u8 list \<Rightarrow> u8 list option \<Rightarrow> node \<Rightarrow> (ptr \<times> node) option" where
  "skynet_context_new env name param n = do {
     (mi, ms) \<leftarrow> skynet_module_query (env_dlopen env) (env_dlsym env) name (mods n);
     let n0 = n\<lparr>mods := ms\<rparr>;
     case mi of
       None \<Rightarrow> Some (None, n0)
     | Some i \<Rightarrow> do {
         (inst, n1) \<leftarrow> instance_create env i n0;
         case inst of
           None \<Rightarrow> Some (None, n1)
         | Some inst \<Rightarrow> do {
             let ctx = brk n1;
             let cs = (ctxs n1)(ctx \<mapsto> fresh_context i inst (profile n1));
             (h, hs') \<leftarrow> skynet_handle_register cs ctx (hs n1);
             let queue = ctx + 1;
             let n2 = n1\<lparr>brk := ctx + 2, hs := hs', total := total n1 + 1,
               ctxs := cs(ctx \<mapsto> (fresh_context i inst (profile n1))
                                   \<lparr>ctx_handle := h, ctx_queue := Some queue\<rparr>),
               mq := skynet_mq_create queue h (mq n1)\<rparr>;
             m \<leftarrow> get_module i n2;
             f \<leftarrow> mod_init m;
             (r, n3) \<leftarrow> env_init env f inst ctx param n2;
             if r = 0 then do {
               (ret, n4) \<leftarrow> skynet_context_release ctx n3;
               n5 \<leftarrow> (case ret of Some a \<Rightarrow> upd_ctx a (\<lambda>c. c\<lparr>ctx_init := True\<rparr>) n4 | None \<Rightarrow> Some n4);
               mq' \<leftarrow> skynet_globalmq_push queue (mq n5);
               let n6 = n5\<lparr>mq := mq'\<rparr>;
               n7 \<leftarrow> (case ret of
                  Some a \<Rightarrow> skynet_error ret
                    (str ''LAUNCH '' @ name @ str '' '' @ (case param of Some p \<Rightarrow> p | None \<Rightarrow> [])) n6
                | None \<Rightarrow> Some n6);
               Some (ret, n7) }
             else do {
               n4 \<leftarrow> skynet_error (Some ctx) (str ''FAILED launch '' @ name) n3;
               h \<leftarrow> skynet_context_handle ctx (ctxs n4);
               (_, n5) \<leftarrow> skynet_context_release ctx n4;
               (_, n6) \<leftarrow> skynet_handle_retire h n5;
               n7 \<leftarrow> mq_release_drop queue h n6;
               Some (None, n7) } } } }"

subsection \<open>Dispatching\<close>

definition dispatch_message :: "environment \<Rightarrow> addr \<Rightarrow> skynet_message \<Rightarrow> node \<Rightarrow> node option" where
  "dispatch_message env a msg n = do {
     c \<leftarrow> ctxs n a;
     c_assert (ctx_init c);
     let type = message_type msg;
     let sz = message_size msg;
     let n1 = (case ctx_logfile c of
                 Some f \<Rightarrow> n\<lparr>events := events n @ [LogWrite f msg]\<rparr> | None \<Rightarrow> n);
     n2 \<leftarrow> upd_ctx a (\<lambda>c. c\<lparr>ctx_message_count := ctx_message_count c + 1\<rparr>) n1;
     cb \<leftarrow> ctx_cb c;
     (reserve_msg, n5) \<leftarrow>
       (if ctx_profile c then do {
          n3 \<leftarrow> upd_ctx a (\<lambda>c. c\<lparr>ctx_cpu_start := env_time env n2\<rparr>) n2;
          (r, n4) \<leftarrow> env_cb env cb a (ctx_cb_ud c) type (msg_session msg) (msg_source msg)
                       (msg_data msg) sz n3;
          n5 \<leftarrow> upd_ctx a
            (\<lambda>c. c\<lparr>ctx_cpu_cost := ctx_cpu_cost c + (env_time env n4 - ctx_cpu_start c)\<rparr>) n4;
          Some (r, n5) }
        else env_cb env cb a (ctx_cb_ud c) type (msg_session msg) (msg_source msg)
               (msg_data msg) sz n2);
     if \<not> reserve_msg then skynet_free (msg_data msg) n5 else Some n5 }"

definition mq_pop_at :: "addr \<Rightarrow> node \<Rightarrow> (skynet_message option \<times> node) option" where
  "mq_pop_at q n = do {
     mqr \<leftarrow> mqs (mq n) q;
     (r, mqr') \<leftarrow> skynet_mq_pop mqr;
     Some (r, n\<lparr>mq := (mq n)\<lparr>mqs := (mqs (mq n))(q \<mapsto> mqr')\<rparr>\<rparr>) }"

partial_function (option) dispatchall_loop ::
  "environment \<Rightarrow> addr \<Rightarrow> addr \<Rightarrow> node \<Rightarrow> node option" where
  "dispatchall_loop env a q n = do {
     (r, n1) \<leftarrow> mq_pop_at q n;
     case r of
       None \<Rightarrow> Some n1
     | Some msg \<Rightarrow> do { n2 \<leftarrow> dispatch_message env a msg n1; dispatchall_loop env a q n2 } }"

definition skynet_context_dispatchall :: "environment \<Rightarrow> addr \<Rightarrow> node \<Rightarrow> node option" where
  "skynet_context_dispatchall env a n = do {
     c \<leftarrow> ctxs n a;
     q \<leftarrow> ctx_queue c;
     dispatchall_loop env a q n }"

definition globalmq_pop :: "node \<Rightarrow> (ptr \<times> node) option" where
  "globalmq_pop n = do { (p, mq') \<leftarrow> skynet_globalmq_pop (mq n); Some (p, n\<lparr>mq := mq'\<rparr>) }"

text \<open>The \<open>for\<close> loop of \<open>skynet_context_message_dispatch\<close>: round \<open>i\<close> of \<open>k\<close>. \<open>Inl\<close> is the early
  return (the queue was empty), with the next queue.\<close>

function dispatch_loop ::
  "environment \<Rightarrow> addr \<Rightarrow> addr \<Rightarrow> u32 \<Rightarrow> int \<Rightarrow> nat \<Rightarrow> nat \<Rightarrow> skynet_monitor \<times> node \<Rightarrow>
     ((ptr + unit) \<times> skynet_monitor \<times> node) option" where
  "dispatch_loop env ctx q h weight i k st =
     (if i < k then do {
        let (sm, n) = st;
        (r, n1) \<leftarrow> mq_pop_at q n;
        case r of
          None \<Rightarrow> do {
            (_, n2) \<leftarrow> skynet_context_release ctx n1;
            (p, n3) \<leftarrow> globalmq_pop n2;
            Some (Inl p, sm, n3) }
        | Some msg \<Rightarrow> do {
            mqr \<leftarrow> mqs (mq n1) q;
            let k' = (if i = 0 \<and> 0 \<le> weight then skynet_mq_length mqr div 2 ^ nat weight else k);
            let (overload, mqr') = skynet_mq_overload mqr;
            let n2 = n1\<lparr>mq := (mq n1)\<lparr>mqs := (mqs (mq n1))(q \<mapsto> mqr')\<rparr>\<rparr>;
            n3 \<leftarrow> (if overload \<noteq> 0 then skynet_error (Some ctx)
                    (str ''May overload, message queue length = '' @ fmt_d (of_nat overload)) n2
                  else Some n2);
            let sm1 = skynet_monitor_trigger (msg_source msg) h sm;
            c \<leftarrow> ctxs n3 ctx;
            n4 \<leftarrow> (if ctx_cb c = None then skynet_free (msg_data msg) n3
                  else dispatch_message env ctx msg n3);
            dispatch_loop env ctx q h weight (i + 1) k' (skynet_monitor_trigger 0 0 sm1, n4) } }
      else Some (Inr (), st))"
  by pat_completeness auto
termination
  by (relation "measures [\<lambda>(env, ctx, q, h, w, i, k, st). if i = 0 then 1 else 0,
        \<lambda>(env, ctx, q, h, w, i, k, st). k - i]") auto

definition skynet_context_message_dispatch ::
  "environment \<Rightarrow> skynet_monitor \<Rightarrow> ptr \<Rightarrow> int \<Rightarrow> node \<Rightarrow> (ptr \<times> skynet_monitor \<times> node) option" where
  "skynet_context_message_dispatch env sm q weight n = do {
     (q, n) \<leftarrow> (case q of Some a \<Rightarrow> Some (Some a, n) | None \<Rightarrow> globalmq_pop n);
     case q of
       None \<Rightarrow> Some (None, sm, n)
     | Some qa \<Rightarrow> do {
         mqr \<leftarrow> mqs (mq n) qa;
         let h = skynet_mq_handle mqr;
         (p, n1) \<leftarrow> grab h n;
         case p of
           None \<Rightarrow> do {
             n2 \<leftarrow> mq_release_drop qa h n1;
             (p, n3) \<leftarrow> globalmq_pop n2;
             Some (p, sm, n3) }
         | Some ctx \<Rightarrow> do {
             (r, sm1, n2) \<leftarrow> dispatch_loop env ctx qa h weight 0 1 (sm, n1);
             case r of
               Inl p \<Rightarrow> Some (p, sm1, n2)
             | Inr _ \<Rightarrow> do {
                 c \<leftarrow> ctxs n2 ctx;
                 c_assert (ctx_queue c = Some qa);
                 (nq, n3) \<leftarrow> globalmq_pop n2;
                 (q', n4) \<leftarrow> (case nq of
                    None \<Rightarrow> Some (qa, n3)
                  | Some nqa \<Rightarrow> do {
                      mq' \<leftarrow> skynet_globalmq_push qa (mq n3);
                      Some (nqa, n3\<lparr>mq := mq'\<rparr>) });
                 (_, n5) \<leftarrow> skynet_context_release ctx n4;
                 Some (Some q', sm1, n5) } } } }"

declare dispatch_loop.simps [simp del]

end
