(* ===== verification/Command.thy ===== *)
theory Command
  imports Server
begin

section \<open>Service commands (skynet_server.c, skynet_env.c)\<close>

text \<open>
  \<open>skynet_command\<close> and the sixteen commands of its table, \<open>skynet_queryname\<close>, and the environment
  (\<open>skynet_env.c\<close>, the global table of a Lua state: a map from names to strings). The state is the
  node with its timer and environment. Opening a log file and printing a CPU time (a \<open>double\<close>) are
  parameters. The result of a command is a string or NULL.
\<close>

record sys =
  nd :: node
  tm :: timer
  env_vars :: "u8 list \<Rightarrow> u8 list option"

record host =
  host_env :: environment
  host_log_open :: "u32 \<Rightarrow> sys \<Rightarrow> (ptr \<times> sys) option"
  host_fmt_lf :: "u64 \<Rightarrow> u8 list"

type_synonym reply = "(u8 list option \<times> sys) option"

subsection \<open>The environment\<close>

definition skynet_getenv :: "u8 list \<Rightarrow> sys \<Rightarrow> u8 list option" where
  "skynet_getenv key s = env_vars s key"

definition skynet_setenv :: "u8 list \<Rightarrow> u8 list \<Rightarrow> sys \<Rightarrow> sys option" where
  "skynet_setenv key val s = do {
     c_assert (env_vars s key = None);
     Some (s\<lparr>env_vars := (env_vars s)(key \<mapsto> val)\<rparr>) }"

subsection \<open>Names\<close>

abbreviation colon :: u8 where "colon \<equiv> 58"
abbreviation space :: u8 where "space \<equiv> 32"

definition on_node :: "sys \<Rightarrow> node option \<Rightarrow> sys option" where
  "on_node s r = map_option (\<lambda>n. s\<lparr>nd := n\<rparr>) r"

definition skynet_queryname :: "addr \<Rightarrow> u8 list \<Rightarrow> sys \<Rightarrow> (u32 \<times> sys) option" where
  "skynet_queryname ctx name s =
     (if char0 name = colon then Some (ucast (strtoul16 (drop 1 name)), s)
      else if char0 name = dot then do {
        h \<leftarrow> skynet_handle_findname (CStr (drop 1 name)) (hs (nd s));
        Some (h, s) }
      else do {
        s1 \<leftarrow> on_node s (skynet_error (Some ctx)
          (str ''Don't support query global name '' @ name) (nd s));
        Some (0, s1) })"

definition tohandle :: "addr \<Rightarrow> u8 list \<Rightarrow> sys \<Rightarrow> (u32 \<times> sys) option" where
  "tohandle ctx param s =
     (if char0 param = colon then Some (ucast (strtoul16 (drop 1 param)), s)
      else if char0 param = dot then do {
        h \<leftarrow> skynet_handle_findname (CStr (drop 1 param)) (hs (nd s));
        Some (h, s) }
      else do {
        s1 \<leftarrow> on_node s (skynet_error (Some ctx)
          (str ''Can't convert '' @ param @ str '' to handle'') (nd s));
        Some (0, s1) })"

definition handle_exit :: "addr \<Rightarrow> u32 \<Rightarrow> sys \<Rightarrow> sys option" where
  "handle_exit ctx h s = do {
     (h, s1) \<leftarrow>
       (if h = 0 then do {
          own \<leftarrow> skynet_context_handle ctx (ctxs (nd s));
          s1 \<leftarrow> on_node s (skynet_error (Some ctx) (str ''KILL self'') (nd s));
          Some (own, s1) }
        else do {
          s1 \<leftarrow> on_node s (skynet_error (Some ctx) (str ''KILL :'' @ fmt_x h) (nd s));
          Some (h, s1) });
     s2 \<leftarrow> (if monitor_exit (nd s1) \<noteq> 0 then
              on_node s1 (map_option snd (skynet_send (Some ctx) h (monitor_exit (nd s1))
                (ucast PTYPE_CLIENT) 0 None 0 (nd s1)))
            else Some s1);
     on_node s2 (map_option snd (skynet_handle_retire h (nd s2))) }"

text \<open>\<open>sprintf(context->result, ...)\<close>, then return it.\<close>

definition reply_with :: "addr \<Rightarrow> u8 list \<Rightarrow> sys \<Rightarrow> reply" where
  "reply_with ctx txt s = do {
     s1 \<leftarrow> on_node s (upd_ctx ctx (\<lambda>c. c\<lparr>ctx_result := CStr txt\<rparr>) (nd s));
     Some (Some txt, s1) }"

subsection \<open>The commands\<close>

text \<open>\<open>skynet_timeout\<close> on the whole state: it pushes to the context's queue at once, or adds to the
  timer.\<close>

definition timeout_cmd :: "u32 \<Rightarrow> i32 \<Rightarrow> i32 \<Rightarrow> sys \<Rightarrow> sys option" where
  "timeout_cmd h ti session s =
     (if sint ti \<le> 0 then
        on_node s (map_option snd (skynet_context_push h (timeout_message session) (nd s)))
      else Some (s\<lparr>tm := timer_add \<lparr>te_handle = h, te_session = session\<rparr> ti (tm s)\<rparr>))"

definition cmd_timeout :: "addr \<Rightarrow> u8 list \<Rightarrow> sys \<Rightarrow> reply" where
  "cmd_timeout ctx param s = do {
     let ti = (ucast (strtol10 param) :: i32);
     (session, n1) \<leftarrow> context_newsession ctx (nd s);
     h \<leftarrow> skynet_context_handle ctx (ctxs n1);
     s2 \<leftarrow> timeout_cmd h ti session (s\<lparr>nd := n1\<rparr>);
     reply_with ctx (fmt_d session) s2 }"

definition cmd_reg :: "addr \<Rightarrow> u8 list option \<Rightarrow> sys \<Rightarrow> reply" where
  "cmd_reg ctx param s = do {
     h \<leftarrow> skynet_context_handle ctx (ctxs (nd s));
     case param of
       None \<Rightarrow> reply_with ctx (colon # fmt_x h) s
     | Some p \<Rightarrow>
         if p = [] then reply_with ctx (colon # fmt_x h) s
         else if char0 p = dot then do {
           (r, hs') \<leftarrow> skynet_handle_namehandle h (CStr (drop 1 p)) (hs (nd s));
           Some (map_option bytes_of r, s\<lparr>nd := (nd s)\<lparr>hs := hs'\<rparr>\<rparr>) }
         else do {
           s1 \<leftarrow> on_node s (skynet_error (Some ctx)
             (str ''Can't register global name '' @ p @ str '' in C'') (nd s));
           Some (None, s1) } }"

definition cmd_query :: "addr \<Rightarrow> u8 list \<Rightarrow> sys \<Rightarrow> reply" where
  "cmd_query ctx param s =
     (if char0 param = dot then do {
        h \<leftarrow> skynet_handle_findname (CStr (drop 1 param)) (hs (nd s));
        if h \<noteq> 0 then reply_with ctx (colon # fmt_x h) s else Some (None, s) }
      else Some (None, s))"

text \<open>\<open>sscanf(param, "%s %s", ...)\<close>: two runs of non-space bytes. A missing one leaves its buffer
  uninitialised, and the code then reads it.\<close>

definition scan_word :: "u8 list \<Rightarrow> (u8 list \<times> u8 list) option" where
  "scan_word s =
     (let s' = dropWhile c_isspace s; w = takeWhile (\<lambda>c. \<not> c_isspace c) s'
      in if w = [] then None else Some (w, drop (length w) s'))"

definition cmd_name :: "addr \<Rightarrow> u8 list \<Rightarrow> sys \<Rightarrow> reply" where
  "cmd_name ctx param s = do {
     (name, rest) \<leftarrow> scan_word param;
     (handle, _) \<leftarrow> scan_word rest;
     if char0 handle \<noteq> colon then Some (None, s)
     else let handle_id = (ucast (strtoul16 (drop 1 handle)) :: u32) in
       if handle_id = 0 then Some (None, s)
       else if char0 name = dot then do {
         (r, hs') \<leftarrow> skynet_handle_namehandle handle_id (CStr (drop 1 name)) (hs (nd s));
         Some (map_option bytes_of r, s\<lparr>nd := (nd s)\<lparr>hs := hs'\<rparr>\<rparr>) }
       else do {
         s1 \<leftarrow> on_node s (skynet_error (Some ctx)
           (str ''Can't set global name '' @ name @ str '' in C'') (nd s));
         Some (None, s1) } }"

definition cmd_exit :: "addr \<Rightarrow> sys \<Rightarrow> reply" where
  "cmd_exit ctx s = do { s1 \<leftarrow> handle_exit ctx 0 s; Some (None, s1) }"

definition cmd_kill :: "addr \<Rightarrow> u8 list \<Rightarrow> sys \<Rightarrow> reply" where
  "cmd_kill ctx param s = do {
     (h, s1) \<leftarrow> tohandle ctx param s;
     s2 \<leftarrow> (if h \<noteq> 0 then handle_exit ctx h s1 else Some s1);
     Some (None, s2) }"

text \<open>\<open>strsep\<close>: the bytes before the first delimiter, and what follows it (NULL when there is none).\<close>

definition strsep :: "u8 list \<Rightarrow> u8 list \<Rightarrow> u8 list \<times> u8 list option" where
  "strsep delims s =
     (let w = takeWhile (\<lambda>c. c \<notin> set delims) s
      in (w, if length w < length s then Some (drop (Suc (length w)) s) else None))"

definition cmd_launch :: "host \<Rightarrow> addr \<Rightarrow> u8 list \<Rightarrow> sys \<Rightarrow> reply" where
  "cmd_launch hst ctx param s = do {
     let (modname, args) = strsep [32, 9, 13, 10] param;
     let args = map_option (\<lambda>a. fst (strsep [13, 10] a)) args;
     (inst, n1) \<leftarrow> skynet_context_new (host_env hst) modname args (nd s);
     let s1 = s\<lparr>nd := n1\<rparr>;
     case inst of
       None \<Rightarrow> Some (None, s1)
     | Some a \<Rightarrow> do {
         h \<leftarrow> skynet_context_handle a (ctxs n1);
         reply_with ctx (id_to_hex h) s1 } }"

definition cmd_getenv :: "u8 list \<Rightarrow> sys \<Rightarrow> reply" where
  "cmd_getenv param s = Some (skynet_getenv param s, s)"

definition cmd_setenv :: "u8 list \<Rightarrow> sys \<Rightarrow> reply" where
  "cmd_setenv param s =
     (let key = takeWhile (\<lambda>c. c \<noteq> space) param in
      if length key = length param then Some (None, s)
      else do {
        s1 \<leftarrow> skynet_setenv key (drop (length key + 1) param) s;
        Some (None, s1) })"

definition cmd_starttime :: "addr \<Rightarrow> sys \<Rightarrow> reply" where
  "cmd_starttime ctx s = reply_with ctx (fmt_u (skynet_starttime (tm s))) s"

definition cmd_abort :: "sys \<Rightarrow> reply" where
  "cmd_abort s = do {
     s1 \<leftarrow> on_node s (skynet_handle_retireall (nd s));
     Some (None, s1) }"

definition cmd_monitor :: "addr \<Rightarrow> u8 list option \<Rightarrow> sys \<Rightarrow> reply" where
  "cmd_monitor ctx param s =
     (if param = None \<or> param = Some [] then
        (if monitor_exit (nd s) \<noteq> 0
         then reply_with ctx (colon # fmt_x (monitor_exit (nd s))) s
         else Some (None, s))
      else do {
        (h, s1) \<leftarrow> tohandle ctx (the param) s;
        Some (None, s1\<lparr>nd := (nd s1)\<lparr>monitor_exit := h\<rparr>\<rparr>) })"

definition cmd_stat :: "host \<Rightarrow> addr \<Rightarrow> u8 list \<Rightarrow> sys \<Rightarrow> reply" where
  "cmd_stat hst ctx param s = do {
     c \<leftarrow> ctxs (nd s) ctx;
     if param = str ''mqlen'' then do {
       q \<leftarrow> ctx_queue c;
       mqr \<leftarrow> mqs (mq (nd s)) q;
       reply_with ctx (fmt_d (of_nat (skynet_mq_length mqr))) s }
     else if param = str ''endless'' then
       (if ctx_endless c then do {
          s1 \<leftarrow> on_node s (upd_ctx ctx (\<lambda>c. c\<lparr>ctx_endless := False\<rparr>) (nd s));
          reply_with ctx (str ''1'') s1 }
        else reply_with ctx (str ''0'') s)
     else if param = str ''cpu'' then reply_with ctx (host_fmt_lf hst (ctx_cpu_cost c)) s
     else if param = str ''time'' then
       (if ctx_profile c
        then reply_with ctx (host_fmt_lf hst (env_time (host_env hst) (nd s) - ctx_cpu_start c)) s
        else reply_with ctx (str ''0'') s)
     else if param = str ''message'' then reply_with ctx (fmt_d (ctx_message_count c)) s
     else reply_with ctx [] s }"

definition cmd_logon :: "host \<Rightarrow> addr \<Rightarrow> u8 list \<Rightarrow> sys \<Rightarrow> reply" where
  "cmd_logon hst context param s = do {
     (h, s1) \<leftarrow> tohandle context param s;
     if h = 0 then Some (None, s1)
     else do {
       (p, n2) \<leftarrow> grab h (nd s1);
       let s2 = s1\<lparr>nd := n2\<rparr>;
       case p of
         None \<Rightarrow> Some (None, s2)
       | Some ctx \<Rightarrow> do {
           c \<leftarrow> ctxs n2 ctx;
           s4 \<leftarrow> (if ctx_logfile c = None then do {
                    (f, s3) \<leftarrow> host_log_open hst h s2;
                    case f of
                      None \<Rightarrow> Some s3
                    | Some f \<Rightarrow> do {
                        c' \<leftarrow> ctxs (nd s3) ctx;
                        if ctx_logfile c' = None
                        then on_node s3 (upd_ctx ctx (\<lambda>c. c\<lparr>ctx_logfile := Some f\<rparr>) (nd s3))
                        else Some (s3\<lparr>nd := (nd s3)\<lparr>events := events (nd s3) @ [LogClose f]\<rparr>\<rparr>) } }
                  else Some s2);
           s5 \<leftarrow> on_node s4 (map_option snd (skynet_context_release ctx (nd s4)));
           Some (None, s5) } } }"

definition cmd_logoff :: "addr \<Rightarrow> u8 list \<Rightarrow> sys \<Rightarrow> reply" where
  "cmd_logoff context param s = do {
     (h, s1) \<leftarrow> tohandle context param s;
     if h = 0 then Some (None, s1)
     else do {
       (p, n2) \<leftarrow> grab h (nd s1);
       let s2 = s1\<lparr>nd := n2\<rparr>;
       case p of
         None \<Rightarrow> Some (None, s2)
       | Some ctx \<Rightarrow> do {
           c \<leftarrow> ctxs n2 ctx;
           s4 \<leftarrow> (case ctx_logfile c of
                    None \<Rightarrow> Some s2
                  | Some f \<Rightarrow> do {
                      s3 \<leftarrow> on_node s2 (upd_ctx ctx (\<lambda>c. c\<lparr>ctx_logfile := None\<rparr>) n2);
                      s3 \<leftarrow> on_node s3 (skynet_error (Some context)
                        (str ''Close log file :'' @ fmt_08x h) (nd s3));
                      Some (s3\<lparr>nd := (nd s3)\<lparr>events := events (nd s3) @ [LogClose f]\<rparr>\<rparr>) });
           s5 \<leftarrow> on_node s4 (map_option snd (skynet_context_release ctx (nd s4)));
           Some (None, s5) } } }"

text \<open>The signal number is what follows the first space (\<open>strtol\<close> with base 0: decimal, or 0x and
  hexadecimal, or 0 and octal).\<close>

definition strtol0 :: "u8 list \<Rightarrow> i64" where
  "strtol0 s =
     (let (neg, ds) = parse_sign s;
          v = (if skip_0x ds \<noteq> ds then parse_digits 16 0 (skip_0x ds)
               else if char0 ds = 48 then parse_digits 8 0 ds else parse_digits 10 0 ds)
      in if neg then (if 2 ^ 63 \<le> v then - (2 ^ 63) else - of_nat v)
         else (if 2 ^ 63 \<le> v then 2 ^ 63 - 1 else of_nat v))"

definition cmd_signal :: "addr \<Rightarrow> u8 list \<Rightarrow> sys \<Rightarrow> reply" where
  "cmd_signal context param s = do {
     (h, s1) \<leftarrow> tohandle context param s;
     if h = 0 then Some (None, s1)
     else do {
       (p, n2) \<leftarrow> grab h (nd s1);
       case p of
         None \<Rightarrow> Some (None, s1\<lparr>nd := n2\<rparr>)
       | Some ctx \<Rightarrow> do {
           c \<leftarrow> ctxs n2 ctx;
           let arg = dropWhile (\<lambda>c. c \<noteq> space) param;
           let sig = (if arg = [] then 0 else ucast (strtol0 arg) :: i32);
           n3 \<leftarrow> skynet_module_instance_signal (ctx_mod c) (ctx_instance c) sig n2;
           s4 \<leftarrow> on_node s1 (map_option snd (skynet_context_release ctx n3));
           Some (None, s4) } } }"

text \<open>The table and its lookup. A NULL parameter where the command reads it is a failure.\<close>

definition cmd_table ::
  "host \<Rightarrow> (string \<times> (addr \<Rightarrow> u8 list option \<Rightarrow> sys \<Rightarrow> reply)) list" where
  "cmd_table hst =
     (let need = (\<lambda>f ctx param s. param \<bind> (\<lambda>p. f ctx p s)) in
      [(''TIMEOUT'', need cmd_timeout),
       (''REG'', cmd_reg),
       (''QUERY'', need cmd_query),
       (''NAME'', need cmd_name),
       (''EXIT'', \<lambda>ctx param s. cmd_exit ctx s),
       (''KILL'', need cmd_kill),
       (''LAUNCH'', need (cmd_launch hst)),
       (''GETENV'', need (\<lambda>ctx. cmd_getenv)),
       (''SETENV'', need (\<lambda>ctx. cmd_setenv)),
       (''STARTTIME'', \<lambda>ctx param s. cmd_starttime ctx s),
       (''ABORT'', \<lambda>ctx param s. cmd_abort s),
       (''MONITOR'', cmd_monitor),
       (''STAT'', need (cmd_stat hst)),
       (''LOGON'', need (cmd_logon hst)),
       (''LOGOFF'', need cmd_logoff),
       (''SIGNAL'', need cmd_signal)])"

definition skynet_command ::
  "host \<Rightarrow> addr \<Rightarrow> u8 list \<Rightarrow> u8 list option \<Rightarrow> sys \<Rightarrow> reply" where
  "skynet_command hst ctx cmd param s =
     (case find (\<lambda>e. str (fst e) = cmd) (cmd_table hst) of
        None \<Rightarrow> Some (None, s)
      | Some e \<Rightarrow> snd e ctx param s)"

end
