(* ===== verification/Delivery.thy ===== *)
theory Delivery
  imports Node
begin

section \<open>Delivery of messages\<close>

text \<open>
  What \<open>skynet_context_push\<close>, \<open>skynet_send\<close> and \<open>skynet_error\<close> do in a consistent node: \<open>node_ok\<close> joins
  the handle table, the names, the scheduling invariant and the allocator. A message to a registered
  handle is appended to that service's queue, and the service is scheduled; a message to any other
  local handle comes back as an error; in both cases every buffer has one owner afterwards.
\<close>

definition node_ok :: "node \<Rightarrow> addr list \<Rightarrow> addr set \<Rightarrow> bool" where
  "node_ok n xs held \<longleftrightarrow> slots_ok (ctxs n) (hs n) \<and> (\<exists>ns. names_hold (hs n) ns) \<and>
     sched_ok (mq n) xs held \<and>
     (\<forall>a. in_slots (hs n) a \<longrightarrow> (\<exists>c q h. ctxs n a = Some c \<and> 0 < ctx_ref c \<and> ctx_queue c = Some q \<and>
        mq_flags (mq n) q = Some (False, h))) \<and>
     (\<forall>b\<ge>brk n. blocks n b = None)"

lemma grab_node:
  assumes "node_ok n xs held"
  shows "case handle_table (ctxs n) (hs n) h of
      None \<Rightarrow> grab h n = Some (None, n)
    | Some a \<Rightarrow> \<exists>c. ctxs n a = Some c \<and>
        grab h n = Some (Some a, n\<lparr>ctxs := (ctxs n)(a \<mapsto> c\<lparr>ctx_ref := ctx_ref c + 1\<rparr>)\<rparr>)"
proof -
  have ok: "slots_ok (ctxs n) (hs n)" using assms by (simp add: node_ok_def)
  show ?thesis
  proof (cases "handle_table (ctxs n) (hs n) h")
    case None
    then show ?thesis using grab_spec [OF ok, of h] by (simp add: grab_def)
  next
    case (Some a)
    then obtain c where "ctxs n a = Some c" using handle_table_iff [OF ok] by auto
    with Some show ?thesis using grab_spec [OF ok, of h] by (simp add: grab_def skynet_context_grab_def)
  qed
qed

text \<open>Putting a reference same_cs that is not the last one.\<close>

lemma release_not_last:
  "ctxs n a = Some c \<Longrightarrow> ctx_ref c \<noteq> 1 \<Longrightarrow>
   skynet_context_release a n = Some (Some a, n\<lparr>ctxs := (ctxs n)(a \<mapsto> c\<lparr>ctx_ref := ctx_ref c - 1\<rparr>)\<rparr>)"
  by (simp add: skynet_context_release_def Let_def)

lemma node_ok_mq:
  assumes "node_ok n xs held" and "sched_ok s xs' held" and "mq_flags s = mq_flags (mq n)"
  shows "node_ok (n\<lparr>mq := s\<rparr>) xs' held"
  using assms by (simp add: node_ok_def)

lemma push_registered:
  assumes ok: "node_ok n xs held" and tab: "handle_table (ctxs n) (hs n) h = Some a"
    and c: "ctxs n a = Some c" "ctx_queue c = Some q"
  shows "\<exists>mq' xs'. skynet_context_push h m n = Some (0, n\<lparr>mq := mq'\<rparr>) \<and> node_ok (n\<lparr>mq := mq'\<rparr>) xs' held \<and>
    mq_content mq' = (mq_content (mq n))(q \<mapsto> pending (mq n) q @ [m])"
proof -
  have so: "slots_ok (ctxs n) (hs n)" and sc: "sched_ok (mq n) xs held" using ok by (simp_all add: node_ok_def)
  have "in_slots (hs n) a" using tab handle_table_iff [OF so] by simp
  with ok c obtain g where r: "0 < ctx_ref c" "mq_flags (mq n) q = Some (False, g)"
    unfolding node_ok_def by fastforce
  then obtain qr where qr: "mqs (mq n) q = Some qr" "\<not> mq_release qr"
    by (auto simp: mq_flags_def)
  from sched_push [OF sc qr, of m] obtain mq' xs' where
    p: "skynet_mq_push q m (mq n) = Some mq'" "sched_ok mq' xs' held"
    "mq_content mq' = (mq_content (mq n))(q \<mapsto> mq_list qr @ [m])" by blast
  have g: "grab h n = Some (Some a, n\<lparr>ctxs := (ctxs n)(a \<mapsto> c\<lparr>ctx_ref := ctx_ref c + 1\<rparr>)\<rparr>)"
    using grab_node [OF ok, of h] tab c(1) by simp
  let ?n1 = "n\<lparr>ctxs := (ctxs n)(a \<mapsto> c\<lparr>ctx_ref := ctx_ref c + 1\<rparr>), mq := mq'\<rparr>"
  have same_cs: "(ctxs n)(a \<mapsto> c\<lparr>ctx_ref := ctx_ref c\<rparr>) = ctxs n"
    using c(1) by (simp add: fun_upd_idem)
  have "skynet_context_release a ?n1 = Some (Some a, n\<lparr>mq := mq'\<rparr>)"
    using release_not_last [of ?n1 a "c\<lparr>ctx_ref := ctx_ref c + 1\<rparr>"] r(1) same_cs by simp
  then have "skynet_context_push h m n = Some (0, n\<lparr>mq := mq'\<rparr>)"
    using g p(1) c by (simp add: skynet_context_push_def)
  moreover have "node_ok (n\<lparr>mq := mq'\<rparr>) xs' held"
    using node_ok_mq [OF ok p(2)] mq_push_flags [OF p(1)] by simp
  moreover have "pending (mq n) q = mq_list qr" using qr(1) by (simp add: pending_def mq_content_def)
  ultimately show ?thesis using p(3) by auto
qed

lemma push_unregistered:
  assumes ok: "node_ok n xs held" and tab: "handle_table (ctxs n) (hs n) h = None"
  shows "skynet_context_push h m n = Some (- 1, n)"
  using grab_node [OF ok, of h] tab by (simp add: skynet_context_push_def)

lemma push_cases:
  assumes ok: "node_ok n xs held"
  obtains "handle_table (ctxs n) (hs n) h = None" "skynet_context_push h m n = Some (- 1, n)"
  | a c q mq' xs' where "handle_table (ctxs n) (hs n) h = Some a" "ctxs n a = Some c" "ctx_queue c = Some q"
      "skynet_context_push h m n = Some (0, n\<lparr>mq := mq'\<rparr>)" "node_ok (n\<lparr>mq := mq'\<rparr>) xs' held"
      "mq_content mq' = (mq_content (mq n))(q \<mapsto> pending (mq n) q @ [m])"
proof (cases "handle_table (ctxs n) (hs n) h")
  case None
  then show thesis using that(1) push_unregistered [OF ok] by blast
next
  case (Some a)
  have so: "slots_ok (ctxs n) (hs n)" using ok by (simp add: node_ok_def)
  have "in_slots (hs n) a" using Some handle_table_iff [OF so] by simp
  then obtain c q where c: "ctxs n a = Some c" "ctx_queue c = Some q"
    using ok unfolding node_ok_def by blast
  from push_registered [OF ok Some c, of m] that(2) [OF Some c] show thesis by blast
qed

subsection \<open>Packing the type into the size\<close>

lemma pack_size:
  fixes sz :: u64 and ty :: i32
  assumes "\<not> too_large sz"
  shows "(sz OR push_bit MESSAGE_TYPE_SHIFT (ucast (ty AND 0xff))) AND MESSAGE_TYPE_MASK = sz"
    and "drop_bit MESSAGE_TYPE_SHIFT (sz OR push_bit MESSAGE_TYPE_SHIFT (ucast (ty AND 0xff))) = ucast (ty AND 0xff)"
proof -
  have sz: "sz AND mask 56 = sz" using assms by (simp add: too_large_def MESSAGE_TYPE_MASK_def)
  have hi: "\<not> bit sz k" if "56 \<le> k" for k
  proof -
    have "bit sz k = bit (sz AND mask 56) k" using sz by simp
    with that show ?thesis by (simp add: bit_simps)
  qed
  have ff: "(0xff :: i32) = mask 8" by (simp add: mask_eq_exp_minus_1)
  have ty8: "\<not> bit (ucast (ty AND 0xff) :: u64) k" if "8 \<le> k" for k
    using that by (simp add: ff bit_simps)
  have "push_bit 56 (ucast (ty AND 0xff)) AND mask 56 = (0 :: u64)"
    by (rule bit_word_eqI) (auto simp: bit_simps)
  then show "(sz OR push_bit MESSAGE_TYPE_SHIFT (ucast (ty AND 0xff))) AND MESSAGE_TYPE_MASK = sz"
    using sz by (simp only: MESSAGE_TYPE_SHIFT_def MESSAGE_TYPE_MASK_def word_ao_dist or.right_neutral)
  show "drop_bit MESSAGE_TYPE_SHIFT (sz OR push_bit MESSAGE_TYPE_SHIFT (ucast (ty AND 0xff))) = ucast (ty AND 0xff)"
    unfolding MESSAGE_TYPE_SHIFT_def
  proof (rule bit_word_eqI)
    fix k assume "k < LENGTH(64)"
    then show "bit (drop_bit 56 (sz OR push_bit 56 (ucast (ty AND 0xff)))) k = bit (ucast (ty AND 0xff) :: u64) k"
      using hi [of "56 + k"] ty8 [of k]
      by (cases "k < 8") (auto simp: bit_simps)
  qed
qed

subsection \<open>The arguments of a send\<close>

definition copies :: "i32 \<Rightarrow> bool" where
  "copies type \<longleftrightarrow> type AND PTYPE_TAG_DONTCOPY = 0"

definition allocs :: "i32 \<Rightarrow> bool" where
  "allocs type \<longleftrightarrow> type AND PTYPE_TAG_ALLOCSESSION \<noteq> 0"

text \<open>A sender in good standing: a live context, and a buffer at least as long as it says.\<close>

definition send_ok :: "ptr \<Rightarrow> i32 \<Rightarrow> i32 \<Rightarrow> ptr \<Rightarrow> u64 \<Rightarrow> node \<Rightarrow> bool" where
  "send_ok context type session data sz n \<longleftrightarrow>
     (\<exists>a c. context = Some a \<and> ctxs n a = Some c) \<and> (allocs type \<longrightarrow> session = 0) \<and>
     (\<forall>d. data = Some d \<longrightarrow> (\<exists>xs. blocks n d = Some (Bytes xs) \<and> unat sz \<le> length xs))"

text \<open>What the receiver gets as session, data and contents of the buffer.\<close>

definition sent_session :: "i32 \<Rightarrow> i32 \<Rightarrow> skynet_context \<Rightarrow> i32" where
  "sent_session type session c = (if allocs type then fst (skynet_context_newsession c) else session)"

definition sent_data :: "i32 \<Rightarrow> ptr \<Rightarrow> node \<Rightarrow> ptr" where
  "sent_data type data n = (if copies type \<and> data \<noteq> None then Some (brk n) else data)"

definition sent_node :: "addr \<Rightarrow> i32 \<Rightarrow> ptr \<Rightarrow> u64 \<Rightarrow> node \<Rightarrow> node" where
  "sent_node a type data sz n =
     (let n1 = (case ctxs n a of
                  Some c \<Rightarrow> if allocs type
                    then n\<lparr>ctxs := (ctxs n)(a \<mapsto> snd (skynet_context_newsession c))\<rparr> else n
                | None \<Rightarrow> n)
      in case data of
           Some d \<Rightarrow>
             (case blocks n d of
                Some (Bytes xs) \<Rightarrow>
                  if copies type then snd (skynet_malloc (Bytes (take (unat sz) xs @ [0])) n1) else n1
              | _ \<Rightarrow> n1)
         | None \<Rightarrow> n1)"

lemma filter_args_ok:
  assumes "send_ok context type session data sz n" and "context = Some a" and "ctxs n a = Some c"
  shows "filter_args context type session data sz n =
    Some (sent_session type session c, sent_data type data n,
      sz OR push_bit MESSAGE_TYPE_SHIFT (ucast (type AND 0xff)), sent_node a type data sz n)"
proof -
  obtain s' c' where ns: "skynet_context_newsession c = (s', c')" by fastforce
  show ?thesis
    using assms
    by (cases data; cases "allocs type"; cases "copies type")
      (auto simp: filter_args_def send_ok_def sent_session_def sent_data_def sent_node_def
        allocs_def copies_def ns skynet_malloc_def Let_def)
qed

lemma newsession_keeps:
  "ctx_handle (snd (skynet_context_newsession c)) = ctx_handle c"
  "ctx_ref (snd (skynet_context_newsession c)) = ctx_ref c"
  "ctx_queue (snd (skynet_context_newsession c)) = ctx_queue c"
  by (simp_all add: skynet_context_newsession_def Let_def)

text \<open>Only the session counter of the sender and one new block differ.\<close>

lemma sent_node_fields:
  assumes "ctxs n a = Some c"
  shows "hs (sent_node a type data sz n) = hs n" "mq (sent_node a type data sz n) = mq n"
    "HARBOR (sent_node a type data sz n) = HARBOR n" "REMOTE (sent_node a type data sz n) = REMOTE n"
    "logger (sent_node a type data sz n) = logger n"
    "ctxs (sent_node a type data sz n) =
      (if allocs type then (ctxs n)(a \<mapsto> snd (skynet_context_newsession c)) else ctxs n)"
    "brk n \<le> brk (sent_node a type data sz n)"
  using assms
  by (auto simp: sent_node_def skynet_malloc_def Let_def split: option.splits block.splits)

lemma node_ok_ctx_field:
  assumes ok: "node_ok n xs held" and c: "ctxs n a = Some c"
    and same: "ctx_handle c' = ctx_handle c" "ctx_ref c' = ctx_ref c" "ctx_queue c' = ctx_queue c"
  shows "node_ok (n\<lparr>ctxs := (ctxs n)(a \<mapsto> c')\<rparr>) xs held"
    and "handle_table ((ctxs n)(a \<mapsto> c')) (hs n) = handle_table (ctxs n) (hs n)"
proof -
  have so: "slots_ok (ctxs n) (hs n)" using ok by (simp add: node_ok_def)
  show tab: "handle_table ((ctxs n)(a \<mapsto> c')) (hs n) = handle_table (ctxs n) (hs n)"
    using c same(1) by (auto simp: handle_table_def fun_eq_iff split: option.split)
  have "slots_ok ((ctxs n)(a \<mapsto> c')) (hs n)"
    using so c same(1) unfolding slots_ok_def by (auto 0 3)
  then show "node_ok (n\<lparr>ctxs := (ctxs n)(a \<mapsto> c')\<rparr>) xs held"
    using ok c same unfolding node_ok_def by (auto 0 3)
qed

lemma sent_node_ok:
  assumes ok: "node_ok n xs held" and c: "ctxs n a = Some c"
  shows "node_ok (sent_node a type data sz n) xs held"
    and "handle_table (ctxs (sent_node a type data sz n)) (hs n) = handle_table (ctxs n) (hs n)"
proof -
  let ?c = "snd (skynet_context_newsession c)"
  have k: "node_ok (n\<lparr>ctxs := (ctxs n)(a \<mapsto> ?c)\<rparr>) xs held"
    "handle_table ((ctxs n)(a \<mapsto> ?c)) (hs n) = handle_table (ctxs n) (hs n)"
    using node_ok_ctx_field [OF ok c newsession_keeps] by simp_all
  show "handle_table (ctxs (sent_node a type data sz n)) (hs n) = handle_table (ctxs n) (hs n)"
    using sent_node_fields(6) [OF c] k(2) by simp
  have m: "node_ok (snd (skynet_malloc b m)) xs held" if "node_ok m xs held" for b m
    using that by (simp add: node_ok_def skynet_malloc_def)
  show "node_ok (sent_node a type data sz n) xs held"
    using c ok k(1) m by (auto simp: sent_node_def Let_def split: option.split block.split)
qed

subsection \<open>Logging\<close>

lemma error_ok:
  assumes ok: "node_ok n xs held" and live: "context = None \<or> (\<exists>a c. context = Some a \<and> ctxs n a = Some c)"
  shows "\<exists>n' xs'. skynet_error context msg n = Some n' \<and> node_ok n' xs' held \<and> ctxs n' = ctxs n \<and>
    hs n' = hs n \<and> (\<forall>b<brk n. blocks n' b = blocks n b) \<and> brk n \<le> brk n'"
proof -
  obtain ns where ns: "names_hold (hs n) ns" using ok by (auto simp: node_ok_def)
  obtain lg where lg: "(if logger n = 0 then skynet_handle_findname (CStr (str ''logger'')) (hs n)
            else Some (logger n)) = Some lg"
    using findname_table [OF ns] by (cases "logger n = 0") auto
  let ?n1 = "n\<lparr>logger := lg\<rparr>"
  have ok1: "node_ok ?n1 xs held" using ok by (simp add: node_ok_def)
  show ?thesis
  proof (cases "lg = 0")
    case True
    with lg ok1 show ?thesis by (auto simp: skynet_error_def Let_def)
  next
    case False
    let ?n2 = "snd (skynet_malloc (Bytes (msg @ [0])) ?n1)"
    have ok2: "node_ok ?n2 xs held" using ok1 by (simp add: node_ok_def skynet_malloc_def)
    obtain src where src: "(case context of None \<Rightarrow> Some 0 | Some ctx \<Rightarrow> skynet_context_handle ctx (ctxs ?n2)) = Some src"
      using live by (auto simp: skynet_malloc_def skynet_context_handle_def)
    let ?m = "\<lparr>msg_source = src, msg_session = 0, msg_data = Some (brk n),
          msg_sz = of_nat (length msg) OR push_bit MESSAGE_TYPE_SHIFT PTYPE_TEXT\<rparr>"
    have e: "skynet_error context msg n = map_option snd (skynet_context_push lg ?m ?n2)"
      using lg False src
      by (cases "skynet_context_push lg ?m ?n2"; cases "context")
        (auto simp: skynet_error_def skynet_malloc_def Let_def)
    have f: "ctxs ?n2 = ctxs n" "hs ?n2 = hs n" "brk ?n2 = brk n + 1" "\<forall>b<brk n. blocks ?n2 b = blocks n b"
      by (simp_all add: skynet_malloc_def)
    show ?thesis
    proof (rule push_cases [OF ok2, of lg ?m])
      assume "skynet_context_push lg ?m ?n2 = Some (- 1, ?n2)"
      with e ok2 f show ?thesis by auto
    next
      fix a c q mq' xs'
      assume "skynet_context_push lg ?m ?n2 = Some (0, ?n2\<lparr>mq := mq'\<rparr>)" "node_ok (?n2\<lparr>mq := mq'\<rparr>) xs' held"
      with e f show ?thesis by (intro exI [of _ "?n2\<lparr>mq := mq'\<rparr>"] exI [of _ xs']) auto
    qed
  qed
qed

lemma free_ok:
  assumes "node_ok n xs held" and "blocks n d \<noteq> None"
  shows "skynet_free (Some d) n = Some (n\<lparr>blocks := (blocks n)(d := None)\<rparr>)"
    and "node_ok (n\<lparr>blocks := (blocks n)(d := None)\<rparr>) xs held"
  using assms by (auto simp: skynet_free_def node_ok_def)

text \<open>The copy, or the caller's buffer, in the node the message leaves from.\<close>

lemma sent_blocks:
  assumes ok: "node_ok n xs held" and so: "send_ok (Some a) type session data sz n" and c: "ctxs n a = Some c"
  shows "case data of
      None \<Rightarrow> blocks (sent_node a type data sz n) = blocks n
    | Some d \<Rightarrow> d < brk n \<and> (\<exists>bs. blocks n d = Some (Bytes bs) \<and> unat sz \<le> length bs \<and>
        blocks (sent_node a type data sz n) =
          (if copies type then (blocks n)(brk n \<mapsto> Bytes (take (unat sz) bs @ [0])) else blocks n))"
proof (cases data)
  case None
  with c show ?thesis by (simp add: sent_node_def Let_def)
next
  case (Some d)
  with so obtain bs where bs: "blocks n d = Some (Bytes bs)" "unat sz \<le> length bs" by (auto simp: send_ok_def)
  have "d < brk n"
  proof (rule ccontr)
    assume "\<not> d < brk n"
    with ok have "blocks n d = None" unfolding node_ok_def by simp
    with bs(1) show False by simp
  qed
  with Some bs c show ?thesis
    by (simp add: sent_node_def Let_def skynet_malloc_def)
qed

text \<open>The source field: 0 stands for the sender's own handle.\<close>

definition sent_source :: "u32 \<Rightarrow> skynet_context \<Rightarrow> u32" where
  "sent_source source c = (if source = 0 then ctx_handle c else source)"

definition sent_message :: "i32 \<Rightarrow> i32 \<Rightarrow> ptr \<Rightarrow> u64 \<Rightarrow> u32 \<Rightarrow> skynet_context \<Rightarrow> node \<Rightarrow> skynet_message" where
  "sent_message type session data sz source c n =
     \<lparr>msg_source = sent_source source c, msg_session = sent_session type session c,
      msg_data = sent_data type data n,
      msg_sz = sz OR push_bit MESSAGE_TYPE_SHIFT (ucast (type AND 0xff))\<rparr>"

text \<open>\<open>skynet_send\<close> to a local handle is a push of that message, or a failure that frees the data.\<close>

lemma skynet_send_push:
  assumes ok: "node_ok n xs held" and so: "send_ok (Some a) type session data sz n" and c: "ctxs n a = Some c"
    and sz: "\<not> too_large sz" and dest: "destination \<noteq> 0"
    and loc: "skynet_harbor_message_isremote destination n = Some False"
  shows "skynet_send (Some a) source destination type session data sz n = do {
     (r, n2) \<leftarrow> skynet_context_push destination (sent_message type session data sz source c n)
       (sent_node a type data sz n);
     if r \<noteq> 0 then do { n3 \<leftarrow> skynet_free (sent_data type data n) n2; Some (- 1, n3) }
     else Some (sent_session type session c, n2) }"
proof -
  let ?n1 = "sent_node a type data sz n"
  have h: "\<exists>c'. ctxs ?n1 a = Some c' \<and> ctx_handle c' = ctx_handle c"
    unfolding sent_node_fields(6) [OF c] using c newsession_keeps(1) by simp
  then have src: "(if source = 0 then do { a \<leftarrow> Some a; skynet_context_handle a (ctxs ?n1) } else Some source) =
      Some (sent_source source c)"
    by (auto simp: skynet_context_handle_def sent_source_def)
  have rem: "skynet_harbor_message_isremote destination ?n1 = Some False"
    using loc sent_node_fields(3) [OF c] by (simp add: skynet_harbor_message_isremote_def)
  show ?thesis
    unfolding skynet_send_def filter_args_ok [OF so refl c]
    using sz dest src rem by (simp add: sent_message_def)
qed

subsection \<open>A node with one service\<close>

definition demo_ctx :: skynet_context where
  "demo_ctx =
     \<lparr>ctx_instance = 0, ctx_mod = 0, ctx_cb = None, ctx_cb_ud = None, ctx_queue = Some 2,
      ctx_logfile = None, ctx_cpu_cost = 0, ctx_cpu_start = 0, ctx_result = CStr [],
      ctx_handle = 0x1000001, ctx_session_id = 0, ctx_ref = 1, ctx_message_count = 0,
      ctx_init = True, ctx_endless = False, ctx_profile = False\<rparr>"

definition demo_node :: node where
  "demo_node =
     \<lparr>ctxs = [1 \<mapsto> demo_ctx],
      hs = (skynet_handle_init 1)\<lparr>slot := [Some None, Some (Some 1), Some None, Some None], handle_index := 2\<rparr>,
      mq = skynet_mq_create 2 0x1000001 skynet_mq_init, blocks = [5 \<mapsto> Bytes [104, 105]], brk = 6,
      total = 1, monitor_exit = 0, profile = False, mods = skynet_module_init [], logger = 0,
      REMOTE = None, HARBOR = 0x1000000, events = []\<rparr>"

lemma demo_table:
  "handle_inv (ctxs demo_node) (hs demo_node) [0x1000001 \<mapsto> 1] Map.empty"
proof -
  have "handle_run [1 \<mapsto> demo_ctx\<lparr>ctx_handle := 0x1000001\<rparr>]
      ((skynet_handle_init 1)\<lparr>slot := [Some None, Some (Some 1), Some None, Some None], handle_index := 2\<rparr>)
      [0x1000001 \<mapsto> 1] Map.empty"
    using handle_run.register [OF handle_run.init, of "[1 \<mapsto> demo_ctx]" 1 demo_ctx 1 "0x1000001"]
    by (simp add: register_first)
  then show ?thesis by (intro handle_run_inv) (simp add: demo_node_def demo_ctx_def)
qed

lemma demo_node_ok: "node_ok demo_node [] {2}"
proof -
  have s: "sched_ok (mq demo_node) [] {2}"
    using sched_create(1) [OF sched_ok_init, of 2 "0x1000001"]
    by (simp add: demo_node_def skynet_mq_init_def)
  have t: "slots_ok (ctxs demo_node) (hs demo_node)" "\<exists>ns. names_hold (hs demo_node) ns"
    "\<And>a. in_slots (hs demo_node) a \<longleftrightarrow> a = 1"
    using demo_table by (auto simp: handle_inv_def)
  have f: "mq_flags (mq demo_node) 2 = Some (False, 0x1000001)" "ctxs demo_node 1 = Some demo_ctx"
    "ctx_queue demo_ctx = Some 2" "ctx_ref demo_ctx = 1" "\<forall>b\<ge>brk demo_node. blocks demo_node b = None"
    by (simp_all add: demo_node_def demo_ctx_def mq_flags_def skynet_mq_create_def mq_new_def)
  show ?thesis unfolding node_ok_def using s t f by simp
qed

lemma demo_facts:
  "handle_table (ctxs demo_node) (hs demo_node) 0x1000001 = Some 1"
  "handle_table (ctxs demo_node) (hs demo_node) 0x1000002 = None"
  "ctxs demo_node 1 = Some demo_ctx" "ctx_queue demo_ctx = Some 2"
  "skynet_harbor_message_isremote 0x1000001 demo_node = Some False"
  "skynet_harbor_message_isremote 0x1000002 demo_node = Some False"
  "\<not> too_large 2" "blocks demo_node 5 = Some (Bytes [104, 105])" "brk demo_node = 6"
  "ctxs demo_node (Suc 0) = Some demo_ctx"
  using demo_table
  by (simp_all add: handle_inv_def demo_node_def demo_ctx_def skynet_harbor_message_isremote_def
      HANDLE_MASK_def mask_eq_exp_minus_1 too_large_def MESSAGE_TYPE_MASK_def)

lemma demo_send_ok: "send_ok (Some 1) 0 7 (Some 5) 2 demo_node"
  by (simp add: send_ok_def demo_facts allocs_def)

subsection \<open>Properties\<close>

text \<open>Property C4. A message sent to a registered local handle arrives: one message is appended to that
  service's queue and to no other, the service is scheduled if it was not, and the receiver reads
  back the type and the size the sender gave, the sender's handle when the source is 0, a fresh
  positive session when one is asked for, and its own copy of the data with a terminating NUL (or,
  with DONTCOPY, the sender's buffer). No other buffer changes, and reference counts are restored.\<close>

theorem skynet_send_delivers:
  assumes ok: "node_ok n xs held" and so: "send_ok (Some a) type session data sz n" and c: "ctxs n a = Some c"
    and sz: "\<not> too_large sz" and dest: "destination \<noteq> 0"
    and loc: "skynet_harbor_message_isremote destination n = Some False"
    and tab: "handle_table (ctxs n) (hs n) destination = Some b"
    and q: "map_option ctx_queue (ctxs n b) = Some (Some q)"
  shows "\<exists>n' xs' m.
    skynet_send (Some a) source destination type session data sz n = Some (msg_session m, n') \<and>
    node_ok n' xs' held \<and> mq_content (mq n') = (mq_content (mq n))(q \<mapsto> pending (mq n) q @ [m]) \<and>
    msg_source m = (if source = 0 then ctx_handle c else source) \<and>
    msg_session m = (if allocs type then fst (skynet_context_newsession c) else session) \<and>
    message_type m = ucast (type AND 0xff) \<and> message_size m = sz \<and>
    (case data of
       None \<Rightarrow> msg_data m = None \<and> blocks n' = blocks n
     | Some d \<Rightarrow> \<exists>bs. blocks n d = Some (Bytes bs) \<and>
         (if copies type
          then msg_data m = Some (brk n) \<and> blocks n' = (blocks n)(brk n \<mapsto> Bytes (take (unat sz) bs @ [0]))
          else msg_data m = Some d \<and> blocks n' = blocks n)) \<and>
    (\<forall>x. map_option ctx_ref (ctxs n' x) = map_option ctx_ref (ctxs n x))"
proof -
  let ?n1 = "sent_node a type data sz n" and ?m = "sent_message type session data sz source c n"
  note f = sent_node_fields [OF c, of type data sz]
  have ok1: "node_ok ?n1 xs held" and tab1: "handle_table (ctxs ?n1) (hs ?n1) destination = Some b"
    using sent_node_ok [OF ok c, of type data sz] tab f(1) by simp_all
  obtain cb where cb: "ctxs ?n1 b = Some cb" "ctx_queue cb = Some q"
    using q c newsession_keeps(3) [of c] unfolding f(6) by (cases "b = a"; cases "allocs type") auto
  from push_registered [OF ok1 tab1 cb, of ?m] obtain mq' xs' where
    p: "skynet_context_push destination ?m ?n1 = Some (0, ?n1\<lparr>mq := mq'\<rparr>)"
    "node_ok (?n1\<lparr>mq := mq'\<rparr>) xs' held"
    "mq_content mq' = (mq_content (mq n))(q \<mapsto> pending (mq n) q @ [?m])"
    using f(2) by auto
  have "skynet_send (Some a) source destination type session data sz n =
      Some (msg_session ?m, ?n1\<lparr>mq := mq'\<rparr>)"
    unfolding skynet_send_push [OF ok so c sz dest loc] using p(1) by (simp add: sent_message_def)
  moreover have "message_type ?m = ucast (type AND 0xff)" "message_size ?m = sz"
    using pack_size [OF sz, of type] by (simp_all add: message_type_def message_size_def sent_message_def)
  moreover have "case data of
       None \<Rightarrow> msg_data ?m = None \<and> blocks (?n1\<lparr>mq := mq'\<rparr>) = blocks n
     | Some d \<Rightarrow> \<exists>bs. blocks n d = Some (Bytes bs) \<and>
         (if copies type
          then msg_data ?m = Some (brk n) \<and>
            blocks (?n1\<lparr>mq := mq'\<rparr>) = (blocks n)(brk n \<mapsto> Bytes (take (unat sz) bs @ [0]))
          else msg_data ?m = Some d \<and> blocks (?n1\<lparr>mq := mq'\<rparr>) = blocks n)"
    using sent_blocks [OF ok so c] by (cases data) (auto simp: sent_message_def sent_data_def)
  moreover have "map_option ctx_ref (ctxs (?n1\<lparr>mq := mq'\<rparr>) x) = map_option ctx_ref (ctxs n x)" for x
    using c newsession_keeps(2) f(6) by simp
  ultimately show ?thesis using p(2,3)
    by (intro exI [of _ "?n1\<lparr>mq := mq'\<rparr>"] exI [of _ xs'] exI [of _ ?m])
      (simp add: sent_message_def sent_source_def sent_session_def)
qed

text \<open>Property C8. A send to a local handle that is not registered returns -1 and cleans up: the
  copy it made is freed, or the buffer it was given with DONTCOPY; the caller's buffer survives
  exactly when it was to be copied; and no queue changes.\<close>

theorem skynet_send_dead_handle:
  assumes ok: "node_ok n xs held" and so: "send_ok (Some a) type session data sz n" and c: "ctxs n a = Some c"
    and sz: "\<not> too_large sz" and dest: "destination \<noteq> 0"
    and loc: "skynet_harbor_message_isremote destination n = Some False"
    and tab: "handle_table (ctxs n) (hs n) destination = None"
  shows "\<exists>n'. skynet_send (Some a) source destination type session data sz n = Some (- 1, n') \<and>
    node_ok n' xs held \<and> mq n' = mq n \<and>
    blocks n' = (case data of Some d \<Rightarrow> if copies type then blocks n else (blocks n)(d := None)
                 | None \<Rightarrow> blocks n)"
proof -
  let ?n1 = "sent_node a type data sz n" and ?m = "sent_message type session data sz source c n"
  note f = sent_node_fields [OF c, of type data sz]
  have ok1: "node_ok ?n1 xs held" and tab1: "handle_table (ctxs ?n1) (hs ?n1) destination = None"
    using sent_node_ok [OF ok c, of type data sz] tab f(1) by simp_all
  have e: "skynet_send (Some a) source destination type session data sz n =
      map_option (Pair (- 1)) (skynet_free (sent_data type data n) ?n1)"
    unfolding skynet_send_push [OF ok so c sz dest loc] push_unregistered [OF ok1 tab1]
    by (cases "skynet_free (sent_data type data n) ?n1") simp_all
  note b = sent_blocks [OF ok so c]
  show ?thesis
  proof (cases data)
    case None
    with e b ok1 f(2) show ?thesis by (simp add: sent_data_def skynet_free_def)
  next
    case (Some d)
    then obtain bs where bs: "d < brk n" "blocks n d = Some (Bytes bs)"
      "blocks ?n1 = (if copies type then (blocks n)(brk n \<mapsto> Bytes (take (unat sz) bs @ [0])) else blocks n)"
      using b by auto
    have new: "blocks n (brk n) = None" using ok by (simp add: node_ok_def)
    let ?d = "if copies type then brk n else d"
    have d: "sent_data type data n = Some ?d" using Some by (simp add: sent_data_def)
    have "blocks ?n1 ?d \<noteq> None" using bs by simp
    note fr = free_ok [OF ok1 this]
    have "(blocks ?n1)(?d := None) = (if copies type then blocks n else (blocks n)(d := None))"
      using bs new by (auto simp: fun_upd_idem)
    with fr e d Some f(2) show ?thesis by auto
  qed
qed


theorem skynet_send_delivers_witness:
  "\<exists>n' m. skynet_send (Some 1) 0 0x1000001 0 7 (Some 5) 2 demo_node = Some (7, n') \<and>
     mq_content (mq n') 2 = Some (pending (mq demo_node) 2 @ [m]) \<and> msg_source m = 0x1000001 \<and>
     message_size m = 2 \<and> blocks n' 6 = Some (Bytes [104, 105, 0])"
  using skynet_send_delivers [OF demo_node_ok demo_send_ok demo_facts(3,7) _ demo_facts(5,1), of 2 0]
  by (auto simp: demo_facts allocs_def copies_def demo_ctx_def)

theorem skynet_send_dead_handle_witness:
  "\<exists>n'. skynet_send (Some 1) 0 0x1000002 0 7 (Some 5) 2 demo_node = Some (- 1, n') \<and>
     blocks n' = blocks demo_node"
  using skynet_send_dead_handle [OF demo_node_ok demo_send_ok demo_facts(3,7) _ demo_facts(6,2), of 0]
  by (auto simp: copies_def)

text \<open>\<open>skynet_error\<close> drops the result of its push. Once the logger service is gone, the text it
  allocated is neither queued nor freed.\<close>

theorem skynet_error_leaks:
  assumes ok: "node_ok n xs held" and lg: "logger n \<noteq> 0"
    and gone: "handle_table (ctxs n) (hs n) (logger n) = None"
  shows "\<exists>n'. skynet_error None msg n = Some n' \<and> mq n' = mq n \<and> blocks n' (brk n) = Some (Bytes (msg @ [0]))"
proof -
  let ?n2 = "snd (skynet_malloc (Bytes (msg @ [0])) n)"
  have ok2: "node_ok ?n2 xs held" using ok by (simp add: node_ok_def skynet_malloc_def)
  have "handle_table (ctxs ?n2) (hs ?n2) (logger n) = None" using gone by (simp add: skynet_malloc_def)
  note p = push_unregistered [OF ok2 this]
  then have "skynet_error None msg n = Some ?n2"
    using lg by (simp add: skynet_error_def skynet_malloc_def Let_def)
  then show ?thesis by (simp add: skynet_malloc_def)
qed

theorem skynet_error_leaks_witness:
  "\<exists>n'. skynet_error None [33] (demo_node\<lparr>logger := 0x1000002\<rparr>) = Some n' \<and>
     mq n' = mq demo_node \<and> blocks n' 6 = Some (Bytes [33, 0])"
proof -
  have "node_ok (demo_node\<lparr>logger := 0x1000002\<rparr>) [] {2}"
    using demo_node_ok by (simp add: node_ok_def)
  from skynet_error_leaks [OF this, of "[33]"] demo_facts(2) show ?thesis by (simp add: demo_facts(9))
qed

end
