(* ===== verification/Netpack.thy ===== *)
theory Netpack
  imports Interfaces Ring
begin

section \<open>Reassembly of packets (lualib-src/lua-netpack.c)\<close>

text \<open>
  Each package is two bytes of length, big endian, then that many bytes of data. The C side cuts the
  byte stream of every socket into packages, keeps what is not complete in a hash table from sockets
  to chains of \<open>struct uncomplete\<close>, and queues packages in a ring that grows by 1024. The queue lives
  in a Lua userdata that is created on demand: a state is \<open>None\<close> before that. A \<open>malloc\<close>ed buffer is
  an array whose cells are \<open>None\<close> until written; copying outside of it fails. An input buffer is the
  list of its bytes, and reading past its end fails.

  The theorems: \<open>filter\<close> never reads or writes out of bounds and reassembles the stream of each
  socket exactly, however it is cut into segments and interleaved with the other sockets; packing
  then reassembling gives the messages back; the ring refines a first-in first-out queue.
\<close>

subsection \<open>The model\<close>

definition QUEUESIZE :: nat where "QUEUESIZE = 1024"
definition HASHSIZE :: nat where "HASHSIZE = 4096"

record netpack =
  np_id :: i32
  np_size :: nat
  np_buffer :: "u8 array"

record uncomplete =
  uc_pack :: netpack
  uc_read :: int
  uc_header :: u8

record netqueue =
  nq_cap :: nat
  nq_head :: nat
  nq_tail :: nat
  nq_hash :: "nat \<Rightarrow> uncomplete list"
  nq_queue :: "netpack array"

type_synonym lua_queue = "netqueue option"

text \<open>What a call leaves on the Lua stack above the queue.\<close>

datatype ret =
  RNone
| RData i32 "u8 array" nat
| RMore
| RError i32 "u8 list"
| ROpen i32 "u8 list"
| RClose i32
| RWarning i32 i32

definition hash_fd :: "i32 \<Rightarrow> nat" where
  "hash_fd fd = unat (signed_drop_bit 24 fd + signed_drop_bit 12 fd + fd) mod HASHSIZE"

fun take_id :: "i32 \<Rightarrow> uncomplete list \<Rightarrow> (uncomplete \<times> uncomplete list) option" where
  "take_id fd [] = None"
| "take_id fd (uc # ucs) =
     (if np_id (uc_pack uc) = fd then Some (uc, ucs)
      else map_option (\<lambda>(x, rest). (x, uc # rest)) (take_id fd ucs))"

definition find_uncomplete :: "lua_queue \<Rightarrow> i32 \<Rightarrow> uncomplete option \<times> lua_queue" where
  "find_uncomplete st fd =
     (case st of
        None \<Rightarrow> (None, None)
      | Some q \<Rightarrow>
          (case take_id fd (nq_hash q (hash_fd fd)) of
             None \<Rightarrow> (None, Some q)
           | Some (uc, rest) \<Rightarrow>
               (Some uc, Some (q\<lparr>nq_hash := (nq_hash q)(hash_fd fd := rest)\<rparr>))))"

definition new_queue :: netqueue where
  "new_queue = \<lparr>nq_cap = QUEUESIZE, nq_head = 0, nq_tail = 0, nq_hash = (\<lambda>_. []),
     nq_queue = array_new QUEUESIZE\<rparr>"

definition get_queue :: "lua_queue \<Rightarrow> netqueue" where
  "get_queue st = (case st of None \<Rightarrow> new_queue | Some q \<Rightarrow> q)"

definition np_expand_queue :: "netqueue \<Rightarrow> netqueue option" where
  "np_expand_queue q = do {
     nq \<leftarrow> c_for 0 (nq_cap q)
       (\<lambda>i nq. do {
          np \<leftarrow> array_get (nq_queue q) ((nq_head q + i) mod nq_cap q);
          array_set nq i np })
       (array_new (nq_cap q + QUEUESIZE));
     Some \<lparr>nq_cap = nq_cap q + QUEUESIZE, nq_head = 0, nq_tail = nq_cap q,
       nq_hash = nq_hash q, nq_queue = nq\<rparr> }"

text \<open>The part of \<open>push_data\<close> after the clone: the write, the tail, the growth.\<close>

definition np_enqueue :: "netpack \<Rightarrow> netqueue \<Rightarrow> netqueue option" where
  "np_enqueue np q = do {
     arr \<leftarrow> array_set (nq_queue q) (nq_tail q) np;
     let tail' = (if nq_tail q + 1 \<ge> nq_cap q then nq_tail q + 1 - nq_cap q else nq_tail q + 1);
     let q1 = q\<lparr>nq_queue := arr, nq_tail := tail'\<rparr>;
     if nq_head q1 = nq_tail q1 then np_expand_queue q1 else Some q1 }"

definition push_buffer :: "i32 \<Rightarrow> u8 array \<Rightarrow> nat \<Rightarrow> lua_queue \<Rightarrow> lua_queue option" where
  "push_buffer fd buffer sz st = do {
     q \<leftarrow> np_enqueue \<lparr>np_id = fd, np_size = sz, np_buffer = buffer\<rparr> (get_queue st);
     Some (Some q) }"

text \<open>\<open>push_data\<close> with \<open>clone\<close>: the package is the first \<open>sz\<close> bytes of the segment.\<close>

definition push_clone :: "i32 \<Rightarrow> u8 list \<Rightarrow> nat \<Rightarrow> lua_queue \<Rightarrow> lua_queue option" where
  "push_clone fd buffer sz st = do {
     bytes \<leftarrow> mem_read buffer sz;
     tmp \<leftarrow> mem_write (array_new sz) 0 bytes;
     push_buffer fd tmp sz st }"

definition insert_uncomplete :: "uncomplete \<Rightarrow> netqueue \<Rightarrow> netqueue" where
  "insert_uncomplete uc q =
     (let h = hash_fd (np_id (uc_pack uc)) in q\<lparr>nq_hash := (nq_hash q)(h := uc # nq_hash q h)\<rparr>)"

text \<open>\<open>save_uncomplete\<close> and the assignments after it, for a segment that holds one byte of the length
  and for one that holds the length and some of the data.\<close>

definition save_header :: "i32 \<Rightarrow> u8 \<Rightarrow> lua_queue \<Rightarrow> lua_queue" where
  "save_header fd b st =
     Some (insert_uncomplete
       \<lparr>uc_pack = \<lparr>np_id = fd, np_size = 0, np_buffer = []\<rparr>, uc_read = - 1, uc_header = b\<rparr>
       (get_queue st))"

definition save_partial :: "i32 \<Rightarrow> nat \<Rightarrow> u8 list \<Rightarrow> lua_queue \<Rightarrow> lua_queue option" where
  "save_partial fd pack_size buffer st = do {
     buf \<leftarrow> mem_write (array_new pack_size) 0 buffer;
     Some (Some (insert_uncomplete
       \<lparr>uc_pack = \<lparr>np_id = fd, np_size = pack_size, np_buffer = buf\<rparr>,
        uc_read = int (length buffer), uc_header = 0\<rparr> (get_queue st))) }"

definition read_size :: "u8 list \<Rightarrow> nat option" where
  "read_size buffer =
     (case buffer of a # b # rest \<Rightarrow> Some (unat a * 256 + unat b) | _ \<Rightarrow> None)"

function push_more :: "i32 \<Rightarrow> u8 list \<Rightarrow> lua_queue \<Rightarrow> lua_queue option" where
  "push_more fd buffer st =
     (if length buffer = 1 then Some (save_header fd (hd buffer) st)
      else do {
        pack_size \<leftarrow> read_size buffer;
        let buffer = drop 2 buffer;
        if length buffer < pack_size then save_partial fd pack_size buffer st
        else do {
          st1 \<leftarrow> push_clone fd buffer pack_size st;
          let buffer = drop pack_size buffer;
          if length buffer > 0 then push_more fd buffer st1 else Some st1 } })"
  by pat_completeness auto
termination
  by (relation "measure (\<lambda>(fd, buffer, st). length buffer)")
    (auto simp: read_size_def split: list.splits)

declare push_more.simps [simp del]

definition close_uncomplete :: "i32 \<Rightarrow> lua_queue \<Rightarrow> lua_queue" where
  "close_uncomplete fd st = snd (find_uncomplete st fd)"

text \<open>The read of the second length byte, when the first one was saved.\<close>

definition finish_header :: "uncomplete \<Rightarrow> u8 list \<Rightarrow> (uncomplete \<times> u8 list) option" where
  "finish_header uc buffer =
     (if uc_read uc < 0 then do {
        c_assert (uc_read uc = - 1);
        (b, rest) \<leftarrow> (case buffer of [] \<Rightarrow> None | b # rest \<Rightarrow> Some (b, rest));
        let pack_size = unat (uc_header uc) * 256 + unat b;
        Some (uc\<lparr>uc_pack := (uc_pack uc)\<lparr>np_size := pack_size, np_buffer := array_new pack_size\<rparr>,
                 uc_read := 0\<rparr>, rest) }
      else Some (uc, buffer))"

definition filter_data :: "i32 \<Rightarrow> u8 list \<Rightarrow> lua_queue \<Rightarrow> (ret \<times> lua_queue) option" where
  "filter_data fd buffer st =
     (case find_uncomplete st fd of
        (Some uc, st1) \<Rightarrow> do {
          (uc, buffer) \<leftarrow> finish_header uc buffer;
          let need = np_size (uc_pack uc) - nat (uc_read uc);
          if length buffer < need then do {
            buf \<leftarrow> mem_write (np_buffer (uc_pack uc)) (nat (uc_read uc)) buffer;
            let uc' = uc\<lparr>uc_pack := (uc_pack uc)\<lparr>np_buffer := buf\<rparr>,
                         uc_read := uc_read uc + int (length buffer)\<rparr>;
            q \<leftarrow> st1;
            Some (RNone, Some (insert_uncomplete uc' q)) }
          else do {
            bytes \<leftarrow> mem_read buffer need;
            buf \<leftarrow> mem_write (np_buffer (uc_pack uc)) (nat (uc_read uc)) bytes;
            let buffer = drop need buffer;
            if buffer = [] then Some (RData fd buf (np_size (uc_pack uc)), st1)
            else do {
              st2 \<leftarrow> push_buffer fd buf (np_size (uc_pack uc)) st1;
              st3 \<leftarrow> push_more fd buffer st2;
              Some (RMore, st3) } } }
      | (None, st1) \<Rightarrow>
          if length buffer = 1 then Some (RNone, save_header fd (hd buffer) st1)
          else do {
            pack_size \<leftarrow> read_size buffer;
            let buffer = drop 2 buffer;
            if length buffer < pack_size then do {
              st2 \<leftarrow> save_partial fd pack_size buffer st1;
              Some (RNone, st2) }
            else if length buffer = pack_size then do {
              result \<leftarrow> mem_write (array_new pack_size) 0 buffer;
              Some (RData fd result pack_size, st1) }
            else do {
              st2 \<leftarrow> push_clone fd buffer pack_size st1;
              st3 \<leftarrow> push_more fd (drop pack_size buffer) st2;
              Some (RMore, st3) } })"

text \<open>\<open>lfilter\<close>: the socket message, its \<open>buffer\<close> when it has one, the string padded after it
  otherwise.\<close>

datatype skynet_socket_type = SData | SConnect | SClose | SAccept | SError | SWarning | SOther

record socket_message =
  sm_type :: skynet_socket_type
  sm_id :: i32
  sm_ud :: i32
  sm_buffer :: "u8 list option"
  sm_padding :: "u8 list"

definition lfilter :: "socket_message \<Rightarrow> lua_queue \<Rightarrow> (ret \<times> lua_queue) option" where
  "lfilter m st =
     (case sm_type m of
        SData \<Rightarrow> do {
          buffer \<leftarrow> sm_buffer m;
          bytes \<leftarrow> mem_read buffer (unat (sm_ud m));
          filter_data (sm_id m) bytes st }
      | SConnect \<Rightarrow> Some (RNone, st)
      | SClose \<Rightarrow> Some (RClose (sm_id m), close_uncomplete (sm_id m) st)
      | SAccept \<Rightarrow> do {
          c_assert (sm_buffer m = None);
          Some (ROpen (sm_ud m) (sm_padding m), st) }
      | SError \<Rightarrow> do {
          c_assert (sm_buffer m = None);
          Some (RError (sm_id m) (sm_padding m), close_uncomplete (sm_id m) st) }
      | SWarning \<Rightarrow> Some (RWarning (sm_id m) (sm_ud m), st)
      | SOther \<Rightarrow> Some (RNone, st))"

definition np_dequeue :: "netqueue \<Rightarrow> (netpack option \<times> netqueue) option" where
  "np_dequeue q =
     (if nq_head q = nq_tail q then Some (None, q)
      else do {
        np \<leftarrow> array_get (nq_queue q) (nq_head q);
        Some (Some np, q\<lparr>nq_head := (if nq_head q + 1 \<ge> nq_cap q then 0 else nq_head q + 1)\<rparr>) })"

definition lpop :: "lua_queue \<Rightarrow> (netpack option \<times> lua_queue) option" where
  "lpop st =
     (case st of
        None \<Rightarrow> Some (None, None)
      | Some q \<Rightarrow> do { (r, q') \<leftarrow> np_dequeue q; Some (r, Some q') })"

text \<open>\<open>lclear\<close> frees every buffer; the result lists those of the queued packages.\<close>

definition lclear :: "lua_queue \<Rightarrow> (u8 array list \<times> lua_queue) option" where
  "lclear st =
     (case st of
        None \<Rightarrow> Some ([], None)
      | Some q \<Rightarrow> do {
          let tail' = (if nq_tail q < nq_head q then nq_tail q + nq_cap q else nq_tail q);
          freed \<leftarrow> c_for (nq_head q) tail'
            (\<lambda>i out. do {
               np \<leftarrow> array_get (nq_queue q) (i mod nq_cap q);
               Some (out @ [np_buffer np]) }) [];
          Some (freed, Some (q\<lparr>nq_hash := (\<lambda>_. []), nq_head := 0, nq_tail := 0\<rparr>)) })"

text \<open>\<open>lpack\<close>; \<open>None\<close> is the Lua error for a string of 64 KB or more.\<close>

definition write_size :: "nat \<Rightarrow> u8 list" where
  "write_size len = [of_nat (len div 256 mod 256), of_nat (len mod 256)]"

definition lpack :: "u8 list \<Rightarrow> u8 list option" where
  "lpack s = (if length s \<ge> 0x10000 then None else Some (write_size (length s) @ s))"

subsection \<open>The stream, as a specification\<close>

text \<open>The packages at the front of a stream of bytes, and the bytes of the package that is not
  complete.\<close>

function frames :: "u8 list \<Rightarrow> u8 list list \<times> u8 list" where
  "frames bs =
     (case bs of
        a # b # rest \<Rightarrow>
          let n = unat a * 256 + unat b in
          if length rest < n then ([], bs)
          else let (fs, r) = frames (drop n rest) in (take n rest # fs, r)
      | _ \<Rightarrow> ([], bs))"
  by pat_completeness auto
termination by (relation "measure length") auto

declare frames.simps [simp del]

lemma frames_short [simp]: "frames [] = ([], [])" "frames [a] = ([], [a])"
  by (simp_all add: frames.simps)

lemma frames_wait: "length rest < unat a * 256 + unat b \<Longrightarrow> frames (a # b # rest) = ([], a # b # rest)"
  by (subst frames.simps) (simp add: Let_def)

lemma frames_one:
  assumes "length bs = unat a * 256 + unat b"
  shows "frames (a # b # bs @ rest) = (bs # fst (frames rest), snd (frames rest))"
  by (subst frames.simps) (simp add: assms [symmetric] Let_def split_beta)

text \<open>Feeding more bytes: what was complete stays, the rest goes on from the incomplete package.\<close>

lemma frames_append:
  "frames (xs @ ys) = (fst (frames xs) @ fst (frames (snd (frames xs) @ ys)), snd (frames (snd (frames xs) @ ys)))"
proof (induction xs rule: frames.induct [case_names step])
  case (step xs)
  show ?case
  proof (cases "\<exists>a b rest. xs = a # b # rest \<and> unat a * 256 + unat b \<le> length rest")
    case False
    then have "frames xs = ([], xs)"
      by (cases xs rule: list.exhaust [case_names Nil Cons]; cases "tl xs") (auto simp: not_le frames_wait)
    then show ?thesis by simp
  next
    case True
    then obtain a b rest where x: "xs = a # b # rest" "unat a * 256 + unat b \<le> length rest" by blast
    let ?n = "unat a * 256 + unat b"
    have len: "length (take ?n rest) = ?n" using x(2) by simp
    have cut: "take ?n rest @ drop ?n rest @ zs = rest @ zs" for zs
      by (metis append.assoc append_take_drop_id)
    have f: "frames (a # b # rest @ zs) = (take ?n rest # fst (frames (drop ?n rest @ zs)), snd (frames (drop ?n rest @ zs)))" for zs
      using frames_one [OF len, of "drop ?n rest @ zs"] unfolding cut .
    have IH': "frames (drop ?n rest @ ys) =
        (fst (frames (drop ?n rest)) @ fst (frames (snd (frames (drop ?n rest)) @ ys)),
         snd (frames (snd (frames (drop ?n rest)) @ ys)))"
      using step x by simp
    show ?thesis using f [of ys] f [of "[]"] IH' by (simp add: x(1))
  qed
qed


subsection \<open>The queue of packages\<close>

definition nq_holds :: "netqueue \<Rightarrow> netpack list \<Rightarrow> bool" where
  "nq_holds q xs \<longleftrightarrow> ring_ok (nq_queue q) (nq_cap q) (nq_head q) (nq_tail q) \<and>
     ring_list (nq_queue q) (nq_cap q) (nq_head q) (nq_tail q) = xs"

lemma nq_holds_hash [simp]: "nq_holds (q\<lparr>nq_hash := H\<rparr>) xs \<longleftrightarrow> nq_holds q xs"
  by (simp add: nq_holds_def)

lemma nq_holds_new: "nq_holds new_queue []"
  by (simp add: nq_holds_def new_queue_def ring_empty QUEUESIZE_def array_new_def)

lemma np_enqueue_holds:
  assumes "nq_holds q xs"
  shows "\<exists>q'. np_enqueue m q = Some q' \<and> nq_holds q' (xs @ [m]) \<and> nq_hash q' = nq_hash q"
proof -
  let ?cap = "nq_cap q" and ?h = "nq_head q" and ?t = "nq_tail q" and ?a = "nq_queue q"
  let ?t' = "ring_next ?cap ?t"
  have ok: "ring_ok ?a ?cap ?h ?t" and l: "ring_list ?a ?cap ?h ?t = xs"
    using assms by (simp_all add: nq_holds_def)
  have b: "?h < ?cap" "?t < ?cap" "length ?a = ?cap" using ok by (simp_all add: ring_ok_def)
  have t': "(if ?t + 1 \<ge> ?cap then ?t + 1 - ?cap else ?t + 1) = ?t'"
    using b(2) by (simp add: ring_next_def)
  let ?q1 = "q\<lparr>nq_queue := ?a[?t := Some m], nq_tail := ?t'\<rparr>"
  have e: "np_enqueue m q = (if ?h = ?t' then np_expand_queue ?q1 else Some ?q1)"
    unfolding np_enqueue_def t' using b by simp
  show ?thesis
  proof (cases "?t' = ?h")
    case True
    have "?cap < ?cap + QUEUESIZE" by (simp add: QUEUESIZE_def)
    from ring_grow_copy [OF ok True this, of m] obtain new where
      "c_for 0 ?cap (\<lambda>i nq. do { np \<leftarrow> array_get (?a[?t := Some m]) ((?h + i) mod ?cap); array_set nq i np })
        (array_new (?cap + QUEUESIZE)) = Some new"
      "ring_ok new (?cap + QUEUESIZE) 0 ?cap" "ring_list new (?cap + QUEUESIZE) 0 ?cap = xs @ [m]"
      using l by auto
    then show ?thesis
      unfolding e using True by (simp add: np_expand_queue_def nq_holds_def)
  next
    case False
    with ring_push [OF ok False, of m] l show ?thesis
      unfolding e by (simp add: nq_holds_def)
  qed
qed

lemma np_dequeue_empty: "nq_holds q [] \<Longrightarrow> np_dequeue q = Some (None, q)"
  using ring_list_Nil by (auto simp: nq_holds_def np_dequeue_def)

lemma np_dequeue_cons:
  assumes "nq_holds q (x # xs)"
  shows "\<exists>q'. np_dequeue q = Some (Some x, q') \<and> nq_holds q' xs \<and> nq_hash q' = nq_hash q"
proof -
  let ?cap = "nq_cap q" and ?h = "nq_head q" and ?t = "nq_tail q" and ?a = "nq_queue q"
  have ok: "ring_ok ?a ?cap ?h ?t" and l: "ring_list ?a ?cap ?h ?t = x # xs"
    using assms by (simp_all add: nq_holds_def)
  have ne: "?h \<noteq> ?t" using ring_list_Nil [OF ok] l by auto
  from ring_pop_cell [OF ok ne] obtain y where y: "?a ! ?h = Some y" by blast
  from ring_pop_list [OF ok ne y] l have yx: "y = x"
    and xs: "ring_list ?a ?cap (ring_next ?cap ?h) ?t = xs" by auto
  have lt: "?h < length ?a" using ok by (simp add: ring_ok_def)
  have "np_dequeue q = Some (Some x, q\<lparr>nq_head := ring_next ?cap ?h\<rparr>)"
    unfolding np_dequeue_def ring_next_def using ne lt y yx by simp
  with xs ring_pop_ok [OF ok ne] show ?thesis by (simp add: nq_holds_def)
qed

interpretation np_fifo: fifo nq_holds np_enqueue np_dequeue
proof unfold_locales
  fix q xs x
  show "nq_holds q xs \<Longrightarrow> \<exists>q'. np_enqueue x q = Some q' \<and> nq_holds q' (xs @ [x])"
    using np_enqueue_holds by blast
  show "nq_holds q [] \<Longrightarrow> \<exists>q'. np_dequeue q = Some (None, q') \<and> nq_holds q' []"
    using np_dequeue_empty by blast
  show "nq_holds q (x # xs) \<Longrightarrow> \<exists>q'. np_dequeue q = Some (Some x, q') \<and> nq_holds q' xs"
    using np_dequeue_cons by blast
qed

subsection \<open>The table of incomplete packages\<close>

text \<open>\<open>uc_holds uc bs\<close>: the entry stands for the bytes \<open>bs\<close> of its stream, too few for a package.\<close>

definition uc_holds :: "uncomplete \<Rightarrow> u8 list \<Rightarrow> bool" where
  "uc_holds uc bs \<longleftrightarrow>
     uc_read uc = - 1 \<and> bs = [uc_header uc] \<or>
     (\<exists>a b data. bs = a # b # data \<and> np_size (uc_pack uc) = unat a * 256 + unat b \<and>
        uc_read uc = int (length data) \<and> length data < np_size (uc_pack uc) \<and>
        length (np_buffer (uc_pack uc)) = np_size (uc_pack uc) \<and>
        take (length data) (np_buffer (uc_pack uc)) = map Some data)"

definition pend :: "(nat \<Rightarrow> uncomplete list) \<Rightarrow> (i32 \<Rightarrow> u8 list) \<Rightarrow> bool" where
  "pend H W \<longleftrightarrow>
     (\<forall>h. distinct (map (\<lambda>uc. np_id (uc_pack uc)) (H h)) \<and>
       (\<forall>uc\<in>set (H h). hash_fd (np_id (uc_pack uc)) = h \<and> uc_holds uc (W (np_id (uc_pack uc))))) \<and>
     (\<forall>fd. W fd \<noteq> [] \<longrightarrow> fd \<in> (\<lambda>uc. np_id (uc_pack uc)) ` set (H (hash_fd fd)))"

lemma uc_holds_nonempty: "\<not> uc_holds uc []"
  by (simp add: uc_holds_def)

lemma pend_empty: "pend (\<lambda>_. []) (\<lambda>_. [])"
  by (simp add: pend_def)

lemma take_id_None: "take_id fd ucs = None \<longleftrightarrow> fd \<notin> (\<lambda>uc. np_id (uc_pack uc)) ` set ucs"
  by (induction ucs) auto

lemma take_id_Some:
  "take_id fd ucs = Some (uc, rest) \<Longrightarrow>
   \<exists>us vs. ucs = us @ uc # vs \<and> rest = us @ vs \<and> np_id (uc_pack uc) = fd"
proof (induction ucs arbitrary: rest)
  case (Cons u ucs)
  show ?case
  proof (cases "np_id (uc_pack u) = fd")
    case True
    with Cons.prems have "u # ucs = [] @ uc # ucs \<and> rest = [] @ ucs \<and> np_id (uc_pack uc) = fd" by simp
    then show ?thesis by blast
  next
    case False
    with Cons.prems obtain rest' where "take_id fd ucs = Some (uc, rest')" "rest = u # rest'" by auto
    with Cons.IH obtain us vs where
      "ucs = us @ uc # vs" "rest' = us @ vs" "np_id (uc_pack uc) = fd" by blast
    with \<open>rest = u # rest'\<close> have
      "u # ucs = (u # us) @ uc # vs \<and> rest = (u # us) @ vs \<and> np_id (uc_pack uc) = fd" by simp
    then show ?thesis by blast
  qed
qed simp

lemma pend_none:
  assumes "pend H W" and "W fd = []"
  shows "take_id fd (H (hash_fd fd)) = None"
proof -
  have "uc_holds uc (W (np_id (uc_pack uc)))" if "uc \<in> set (H (hash_fd fd))" for uc
    using assms(1) that by (simp add: pend_def)
  with assms(2) show ?thesis
    unfolding take_id_None using uc_holds_nonempty by force
qed

lemma pend_some:
  assumes "pend H W" and "W fd \<noteq> []"
  shows "\<exists>uc rest. take_id fd (H (hash_fd fd)) = Some (uc, rest) \<and> np_id (uc_pack uc) = fd \<and>
    uc_holds uc (W fd) \<and> pend (H(hash_fd fd := rest)) (W(fd := []))"
proof -
  let ?h = "hash_fd fd" and ?i = "\<lambda>uc. np_id (uc_pack uc)"
  have d: "\<And>h. distinct (map ?i (H h))"
    and u: "\<And>h uc. uc \<in> set (H h) \<Longrightarrow> hash_fd (?i uc) = h \<and> uc_holds uc (W (?i uc))"
    and c: "\<And>fd. W fd \<noteq> [] \<Longrightarrow> fd \<in> ?i ` set (H (hash_fd fd))"
    using assms(1) unfolding pend_def by blast+
  from c [OF assms(2)] obtain uc rest where t: "take_id fd (H ?h) = Some (uc, rest)"
    using take_id_None [of fd "H ?h"] by fastforce
  from take_id_Some [OF t] obtain us vs where
    s: "H ?h = us @ uc # vs" "rest = us @ vs" "?i uc = fd" by blast
  have dr: "distinct (map ?i (us @ vs))" "fd \<notin> ?i ` set (us @ vs)"
    using d [of ?h] s(3) unfolding s(1) by auto
  have ur: "hash_fd (?i x) = ?h \<and> uc_holds x ((W(fd := [])) (?i x))" if "x \<in> set (us @ vs)" for x
  proof -
    have "?i x \<noteq> fd" using dr(2) that by blast
    moreover have "x \<in> set (H ?h)" using that unfolding s(1) by auto
    ultimately show ?thesis using u by simp
  qed
  have uo: "hash_fd (?i x) = h \<and> uc_holds x ((W(fd := [])) (?i x))" if "x \<in> set (H h)" "h \<noteq> ?h" for h x
    using u [OF that(1)] that(2) by auto
  have co: "fd' \<in> ?i ` set ((H(?h := rest)) (hash_fd fd'))" if "(W(fd := [])) fd' \<noteq> []" for fd'
    using that c [of fd'] s by (cases "hash_fd fd' = ?h") (auto split: if_splits)
  have "pend (H(?h := rest)) (W(fd := []))"
    unfolding pend_def
  proof (intro conjI allI impI ballI)
    fix h
    show "distinct (map ?i ((H(?h := rest)) h))" using d dr(1) s(2) by simp
    fix x assume "x \<in> set ((H(?h := rest)) h)"
    then show "hash_fd (?i x) = h" "uc_holds x ((W(fd := [])) (?i x))"
      using ur [of x] uo [of x h] s(2) by (auto split: if_splits)
  qed (rule co)
  moreover have "uc_holds uc (W fd)" using u [of uc ?h] s by auto
  ultimately show ?thesis using t s(3) by blast
qed

lemma pend_insert:
  assumes "pend H W" and "W fd = []" and i: "np_id (uc_pack uc) = fd" and "uc_holds uc bs"
  shows "pend (H(hash_fd fd := uc # H (hash_fd fd))) (W(fd := bs))"
proof -
  let ?h = "hash_fd fd" and ?i = "\<lambda>uc. np_id (uc_pack uc)"
  have d: "\<And>h. distinct (map ?i (H h))"
    and u: "\<And>h uc. uc \<in> set (H h) \<Longrightarrow> hash_fd (?i uc) = h \<and> uc_holds uc (W (?i uc))"
    and c: "\<And>fd. W fd \<noteq> [] \<Longrightarrow> fd \<in> ?i ` set (H (hash_fd fd))"
    using assms(1) unfolding pend_def by blast+
  have fresh: "fd \<notin> ?i ` set (H ?h)"
    using pend_none [OF assms(1,2)] by (simp add: take_id_None)
  have new: "hash_fd (?i x) = h \<and> uc_holds x ((W(fd := bs)) (?i x))"
    if "x \<in> set ((H(?h := uc # H ?h)) h)" for h x
  proof (cases "?i x = fd")
    case True
    then have "x = uc \<and> h = ?h"
      using that fresh u [of x h] by (auto split: if_splits)
    then show ?thesis using i assms(4) by simp
  next
    case False
    then have "x \<in> set (H h)" using that i by (auto split: if_splits)
    with False show ?thesis using u by simp
  qed
  show ?thesis
    unfolding pend_def
  proof (intro conjI allI impI ballI)
    fix h
    show "distinct (map ?i ((H(?h := uc # H ?h)) h))" using d fresh i by simp
    fix x assume "x \<in> set ((H(?h := uc # H ?h)) h)"
    then show "hash_fd (?i x) = h" "uc_holds x ((W(fd := bs)) (?i x))" using new by blast+
  next
    fix fd' assume "(W(fd := bs)) fd' \<noteq> []"
    then show "fd' \<in> ?i ` set ((H(?h := uc # H ?h)) (hash_fd fd'))"
      using c [of fd'] i by (cases "fd' = fd") (auto split: if_splits)
  qed
qed

subsection \<open>Cutting the stream\<close>

definition pack :: "i32 \<Rightarrow> u8 list \<Rightarrow> netpack" where
  "pack fd bs = \<lparr>np_id = fd, np_size = length bs, np_buffer = map Some bs\<rparr>"

text \<open>The state: the packages queued, and what is left of the stream of each socket.\<close>

definition np_inv :: "lua_queue \<Rightarrow> (i32 \<Rightarrow> u8 list) \<Rightarrow> netpack list \<Rightarrow> bool" where
  "np_inv st W Q \<longleftrightarrow> nq_holds (get_queue st) Q \<and> pend (nq_hash (get_queue st)) W"

lemma get_queue_Some [simp]: "get_queue (Some q) = q"
  by (simp add: get_queue_def)

lemma np_inv_start: "np_inv None (\<lambda>_. []) []"
  by (simp add: np_inv_def get_queue_def nq_holds_new pend_empty new_queue_def)
    (simp add: nq_holds_new [unfolded new_queue_def])

lemma push_buffer_inv:
  assumes "np_inv st W Q"
  shows "\<exists>st'. push_buffer fd (map Some bs) (length bs) st = Some st' \<and> np_inv st' W (Q @ [pack fd bs])"
proof -
  from np_enqueue_holds [of "get_queue st" Q "pack fd bs"] assms obtain q' where
    "np_enqueue (pack fd bs) (get_queue st) = Some q'" "nq_holds q' (Q @ [pack fd bs])"
    "nq_hash q' = nq_hash (get_queue st)" by (auto simp: np_inv_def)
  then show ?thesis using assms by (simp add: push_buffer_def np_inv_def flip: pack_def)
qed

lemma push_clone_inv:
  assumes "np_inv st W Q" and "n \<le> length bs"
  shows "\<exists>st'. push_clone fd bs n st = Some st' \<and> np_inv st' W (Q @ [pack fd (take n bs)])"
proof -
  have l: "length (take n bs) = n" using assms(2) by simp
  from push_buffer_inv [OF assms(1), of fd "take n bs"] show ?thesis
    using assms(2) l by (simp add: push_clone_def mem_read_def)
qed

lemma insert_inv:
  assumes "np_inv st W Q" and "W fd = []" and "np_id (uc_pack uc) = fd" and "uc_holds uc bs"
  shows "np_inv (Some (insert_uncomplete uc (get_queue st))) (W(fd := bs)) Q"
  using assms pend_insert [of "nq_hash (get_queue st)" W fd uc bs]
  by (simp add: np_inv_def insert_uncomplete_def Let_def)

lemma save_header_inv:
  assumes "np_inv st W Q" and "W fd = []"
  shows "np_inv (save_header fd b st) (W(fd := [b])) Q"
  unfolding save_header_def by (rule insert_inv [OF assms]) (simp_all add: uc_holds_def)

lemma save_partial_inv:
  assumes "np_inv st W Q" and "W fd = []" and "length bs < unat a * 256 + unat b"
  shows "\<exists>st'. save_partial fd (unat a * 256 + unat b) bs st = Some st' \<and> np_inv st' (W(fd := a # b # bs)) Q"
proof -
  let ?n = "unat a * 256 + unat b"
  let ?buf = "map Some bs @ drop (length bs) (array_new ?n)"
  let ?uc = "\<lparr>uc_pack = \<lparr>np_id = fd, np_size = ?n, np_buffer = ?buf\<rparr>, uc_read = int (length bs), uc_header = 0\<rparr>"
  have w: "mem_write (array_new ?n) 0 bs = Some ?buf"
    using assms(3) by (simp add: mem_write_def)
  have "uc_holds ?uc (a # b # bs)" using assms(3) by (simp add: uc_holds_def)
  with insert_inv [OF assms(1,2), of ?uc] show ?thesis
    unfolding save_partial_def w by simp
qed


lemma bytes_cases [case_names Nil One More]:
  assumes "bs = [] \<Longrightarrow> P" and "\<And>a. bs = [a] \<Longrightarrow> P" and "\<And>a b rest. bs = a # b # rest \<Longrightarrow> P"
  shows P
  using assms by (metis list.exhaust)

lemma read_size_Cons [simp]: "read_size (a # b # rest) = Some (unat a * 256 + unat b)"
  by (simp add: read_size_def)

lemma frames_full:
  assumes "unat a * 256 + unat b \<le> length rest"
  shows "frames (a # b # rest) =
    (take (unat a * 256 + unat b) rest # fst (frames (drop (unat a * 256 + unat b) rest)),
     snd (frames (drop (unat a * 256 + unat b) rest)))"
  using frames_one [of "take (unat a * 256 + unat b) rest" a b "drop (unat a * 256 + unat b) rest"] assms
  by simp

lemma push_more_inv:
  assumes "np_inv st W Q" and "W fd = []" and "bs \<noteq> []"
  shows "\<exists>st'. push_more fd bs st = Some st' \<and>
    np_inv st' (W(fd := snd (frames bs))) (Q @ map (pack fd) (fst (frames bs)))"
  using assms
proof (induction "length bs" arbitrary: bs st Q rule: less_induct)
  case less
  show ?case
  proof (cases bs rule: bytes_cases)
    case Nil
    with less.prems show ?thesis by simp
  next
    case (One a)
    with save_header_inv [OF less.prems(1,2), of a] show ?thesis
      by (simp add: push_more.simps)
  next
    case (More a b rest)
    let ?n = "unat a * 256 + unat b"
    show ?thesis
    proof (cases "length rest < ?n")
      case True
      with save_partial_inv [OF less.prems(1,2) True] More show ?thesis
        by (simp add: push_more.simps [of fd "a # b # rest"] frames_wait)
    next
      case False
      then have n: "?n \<le> length rest" by simp
      from push_clone_inv [OF less.prems(1) n] obtain st1 where
        st1: "push_clone fd rest ?n st = Some st1" "np_inv st1 W (Q @ [pack fd (take ?n rest)])" by blast
      show ?thesis
      proof (cases "drop ?n rest = []")
        case True
        then have fr: "frames bs = ([take ?n rest], [])" using n More by (simp add: frames_full)
        have w: "W(fd := []) = W" using less.prems(2) by auto
        have "push_more fd bs st = Some st1"
          using More n st1(1) True by (simp add: push_more.simps [of fd "a # b # rest"])
        then show ?thesis using st1(2) fr w by simp
      next
        case False
        have "length (drop ?n rest) < length bs" using More by simp
        from less.hyps [OF this st1(2) less.prems(2) False] obtain st2 where
          st2: "push_more fd (drop ?n rest) st1 = Some st2"
          "np_inv st2 (W(fd := snd (frames (drop ?n rest))))
            ((Q @ [pack fd (take ?n rest)]) @ map (pack fd) (fst (frames (drop ?n rest))))" by blast
        have "push_more fd bs st = push_more fd (drop ?n rest) st1"
          using More n st1(1) False by (simp add: push_more.simps [of fd "a # b # rest"])
        with st2 n More show ?thesis by (simp add: frames_full)
      qed
    qed
  qed
qed

lemma find_none:
  assumes "np_inv st W Q" and "W fd = []"
  shows "find_uncomplete st fd = (None, st)"
  using assms pend_none [of "nq_hash (get_queue st)" W fd]
  by (auto simp: find_uncomplete_def np_inv_def split: option.splits)

lemma find_some:
  assumes "np_inv st W Q" and "W fd \<noteq> []"
  shows "\<exists>uc q. find_uncomplete st fd = (Some uc, Some q) \<and> np_inv (Some q) (W(fd := [])) Q \<and>
    np_id (uc_pack uc) = fd \<and> uc_holds uc (W fd)"
proof -
  have p: "pend (nq_hash (get_queue st)) W" and h: "nq_holds (get_queue st) Q"
    using assms(1) by (simp_all add: np_inv_def)
  obtain q where st: "st = Some q"
    using p assms(2) by (cases st) (auto simp: get_queue_def new_queue_def pend_def)
  from pend_some [OF p assms(2)] obtain uc rest where
    "take_id fd (nq_hash q (hash_fd fd)) = Some (uc, rest)" "np_id (uc_pack uc) = fd"
    "uc_holds uc (W fd)" "pend ((nq_hash q)(hash_fd fd := rest)) (W(fd := []))"
    using st by auto
  then show ?thesis using h st by (simp add: find_uncomplete_def np_inv_def)
qed

text \<open>\<open>finish_header\<close>: the entry now stands for a header and the data read so far.\<close>

lemma finish_header_ok:
  assumes "uc_holds uc ws" and "bs \<noteq> []"
  shows "\<exists>uc' a b data bs'. finish_header uc bs = Some (uc', bs') \<and> ws @ bs = a # b # data @ bs' \<and>
    np_id (uc_pack uc') = np_id (uc_pack uc) \<and> np_size (uc_pack uc') = unat a * 256 + unat b \<and>
    uc_read uc' = int (length data) \<and> length data \<le> np_size (uc_pack uc') \<and>
    length (np_buffer (uc_pack uc')) = np_size (uc_pack uc') \<and>
    take (length data) (np_buffer (uc_pack uc')) = map Some data"
proof -
  from assms(1) consider
    (header) "uc_read uc = - 1" "ws = [uc_header uc]"
  | (data) a b data where "ws = a # b # data" "np_size (uc_pack uc) = unat a * 256 + unat b"
      "uc_read uc = int (length data)" "length data < np_size (uc_pack uc)"
      "length (np_buffer (uc_pack uc)) = np_size (uc_pack uc)"
      "take (length data) (np_buffer (uc_pack uc)) = map Some data"
    unfolding uc_holds_def by blast
  then show ?thesis
  proof cases
    case header
    obtain b rest where bs: "bs = b # rest" using assms(2) by (cases bs) auto
    let ?n = "unat (uc_header uc) * 256 + unat b"
    let ?uc = "uc\<lparr>uc_pack := (uc_pack uc)\<lparr>np_size := ?n, np_buffer := array_new ?n\<rparr>, uc_read := 0\<rparr>"
    have "finish_header uc bs = Some (?uc, rest)"
      using header bs by (simp add: finish_header_def Let_def)
    moreover have "ws @ bs = uc_header uc # b # [] @ rest" using header bs by simp
    ultimately show ?thesis by force
  next
    case data
    have "finish_header uc bs = Some (uc, bs)" using data by (simp add: finish_header_def)
    moreover have "ws @ bs = a # b # data @ bs" using data by simp
    moreover have "length data \<le> np_size (uc_pack uc)" using data by simp
    ultimately show ?thesis using data by blast
  qed
qed

lemma mem_write_more:
  assumes "take (length xs) buf = map Some xs" and "length xs + length ys \<le> length buf"
  shows "\<exists>buf'. mem_write buf (length xs) ys = Some buf' \<and> length buf' = length buf \<and>
    take (length xs + length ys) buf' = map Some (xs @ ys)"
  using assms by (simp add: mem_write_def)

lemma mem_write_rest:
  assumes "take (length xs) buf = map Some xs" and "length xs + length ys = length buf"
  shows "mem_write buf (length xs) ys = Some (map Some (xs @ ys))"
  using assms by (simp add: mem_write_def)


text \<open>What a segment completes: nothing, exactly one package and nothing else (delivered without the
  queue), or packages that are all queued.\<close>

definition filter_post ::
  "i32 \<Rightarrow> u8 list list \<Rightarrow> u8 list \<Rightarrow> netpack list \<Rightarrow> ret \<Rightarrow> netpack list \<Rightarrow> bool" where
  "filter_post fd fs rest Q r Q' \<longleftrightarrow>
     r = RNone \<and> fs = [] \<and> Q' = Q \<or>
     (\<exists>x. r = RData fd (map Some x) (length x) \<and> fs = [x] \<and> rest = [] \<and> Q' = Q) \<or>
     r = RMore \<and> fs \<noteq> [] \<and> Q' = Q @ map (pack fd) fs"

lemma filter_data_new:
  assumes inv: "np_inv st W Q" and w: "W fd = []" and "bs \<noteq> []"
  shows "\<exists>r st' Q'. filter_data fd bs st = Some (r, st') \<and> np_inv st' (W(fd := snd (frames bs))) Q' \<and>
    filter_post fd (fst (frames bs)) (snd (frames bs)) Q r Q'"
proof (cases bs rule: bytes_cases)
  case Nil
  with assms show ?thesis by simp
next
  case (One a)
  with save_header_inv [OF inv w, of a] show ?thesis
    by (simp add: filter_data_def find_none [OF inv w] filter_post_def)
next
  case (More a b rest)
  let ?n = "unat a * 256 + unat b"
  have e: "filter_data fd bs st =
      (if length rest < ?n then do { st2 \<leftarrow> save_partial fd ?n rest st; Some (RNone, st2) }
       else if length rest = ?n then Some (RData fd (map Some rest) ?n, st)
       else do { st2 \<leftarrow> push_clone fd rest ?n st; st3 \<leftarrow> push_more fd (drop ?n rest) st2; Some (RMore, st3) })"
    using More by (simp add: filter_data_def find_none [OF inv w])
  consider (less) "length rest < ?n" | (eq) "length rest = ?n" | (more) "?n < length rest" by linarith
  then show ?thesis
  proof cases
    case less
    with save_partial_inv [OF inv w less] More show ?thesis
      unfolding e by (auto simp: frames_wait filter_post_def)
  next
    case eq
    have "W(fd := []) = W" using w by auto
    with eq More inv show ?thesis unfolding e by (simp add: frames_full filter_post_def)
  next
    case more
    then have n: "?n \<le> length rest" and ne: "drop ?n rest \<noteq> []" by simp_all
    from push_clone_inv [OF inv n] obtain st1 where
      st1: "push_clone fd rest ?n st = Some st1" "np_inv st1 W (Q @ [pack fd (take ?n rest)])" by blast
    from push_more_inv [OF st1(2) w ne] obtain st2 where
      "push_more fd (drop ?n rest) st1 = Some st2"
      "np_inv st2 (W(fd := snd (frames (drop ?n rest))))
        ((Q @ [pack fd (take ?n rest)]) @ map (pack fd) (fst (frames (drop ?n rest))))" by blast
    with st1 more n More show ?thesis unfolding e by (simp add: frames_full filter_post_def)
  qed
qed

lemma filter_data_old:
  assumes inv: "np_inv st W Q" and w: "W fd \<noteq> []" and "bs \<noteq> []"
  shows "\<exists>r st' Q'. filter_data fd bs st = Some (r, st') \<and> np_inv st' (W(fd := snd (frames (W fd @ bs)))) Q' \<and>
    filter_post fd (fst (frames (W fd @ bs))) (snd (frames (W fd @ bs))) Q r Q'"
proof -
  from find_some [OF inv w] obtain uc0 q where
    f: "find_uncomplete st fd = (Some uc0, Some q)" "np_inv (Some q) (W(fd := [])) Q"
    "np_id (uc_pack uc0) = fd" "uc_holds uc0 (W fd)" by blast
  from finish_header_ok [OF f(4) assms(3)] obtain uc a b data bs' where
    h: "finish_header uc0 bs = Some (uc, bs')" and s: "W fd @ bs = a # b # data @ bs'"
    and i: "np_id (uc_pack uc) = fd" and n: "np_size (uc_pack uc) = unat a * 256 + unat b"
    and r: "uc_read uc = int (length data)" and le: "length data \<le> np_size (uc_pack uc)"
    and lb: "length (np_buffer (uc_pack uc)) = np_size (uc_pack uc)"
    and t: "take (length data) (np_buffer (uc_pack uc)) = map Some data"
    unfolding f(3) by blast
  let ?n = "np_size (uc_pack uc)" and ?need = "np_size (uc_pack uc) - length data"
  have w0: "(W(fd := [])) fd = []" by simp
  show ?thesis
  proof (cases "length bs' < ?need")
    case True
    have "length data + length bs' \<le> length (np_buffer (uc_pack uc))" using True lb by simp
    from mem_write_more [OF t this] obtain buf where
      buf: "mem_write (np_buffer (uc_pack uc)) (length data) bs' = Some buf" "length buf = ?n"
      "take (length data + length bs') buf = map Some (data @ bs')" using lb by auto
    let ?uc = "uc\<lparr>uc_pack := (uc_pack uc)\<lparr>np_buffer := buf\<rparr>, uc_read := uc_read uc + int (length bs')\<rparr>"
    have "uc_holds ?uc (a # b # data @ bs')" using True n r buf by (simp add: uc_holds_def)
    then have hs: "uc_holds ?uc (W fd @ bs)" unfolding s .
    have uid: "np_id (uc_pack ?uc) = fd" using i by simp
    from insert_inv [OF f(2) w0 uid hs]
    have "np_inv (Some (insert_uncomplete ?uc q)) (W(fd := W fd @ bs)) Q"
      unfolding fun_upd_upd get_queue_Some .
    moreover have "filter_data fd bs st = Some (RNone, Some (insert_uncomplete ?uc q))"
      using True by (simp add: filter_data_def f(1) h r buf(1))
    moreover have "frames (W fd @ bs) = ([], W fd @ bs)"
      using True n unfolding s by (intro frames_wait) simp
    ultimately show ?thesis by (simp add: filter_post_def)
  next
    case False
    let ?x = "data @ take ?need bs'" and ?rest = "drop ?need bs'"
    have lx: "length ?x = ?n" using False le by simp
    have m: "mem_read bs' ?need = Some (take ?need bs')" using False by (simp add: mem_read_def)
    have wr: "mem_write (np_buffer (uc_pack uc)) (length data) (take ?need bs') = Some (map Some ?x)"
      using t lx lb by (intro mem_write_rest) simp_all
    have e: "filter_data fd bs st =
        (if ?rest = [] then Some (RData fd (map Some ?x) ?n, Some q)
         else do { st2 \<leftarrow> push_buffer fd (map Some ?x) ?n (Some q); st3 \<leftarrow> push_more fd ?rest st2; Some (RMore, st3) })"
      using False by (simp add: filter_data_def f(1) h r m wr Let_def)
    have "W fd @ bs = a # b # ?x @ ?rest" unfolding s by simp
    then have fr: "frames (W fd @ bs) = (?x # fst (frames ?rest), snd (frames ?rest))"
      using frames_one [of ?x a b ?rest] lx n by simp
    show ?thesis
    proof (cases "?rest = []")
      case True
      with f(2) lx show ?thesis unfolding e fr by (simp add: filter_post_def)
    next
      case rest: False
      from push_buffer_inv [OF f(2), of fd ?x] obtain st2 where
        st2: "push_buffer fd (map Some ?x) ?n (Some q) = Some st2" "np_inv st2 (W(fd := [])) (Q @ [pack fd ?x])"
        unfolding lx by blast
      from push_more_inv [OF st2(2) w0 rest, unfolded fun_upd_upd] obtain st3 where
        "push_more fd ?rest st2 = Some st3"
        "np_inv st3 (W(fd := snd (frames ?rest))) ((Q @ [pack fd ?x]) @ map (pack fd) (fst (frames ?rest)))"
        by blast
      then show ?thesis unfolding e fr using st2(1) rest by (simp add: filter_post_def)
    qed
  qed
qed

lemma filter_data_inv:
  assumes "np_inv st W Q" and "bs \<noteq> []"
  shows "\<exists>r st' Q'. filter_data fd bs st = Some (r, st') \<and> np_inv st' (W(fd := snd (frames (W fd @ bs)))) Q' \<and>
    filter_post fd (fst (frames (W fd @ bs))) (snd (frames (W fd @ bs))) Q r Q'"
  using filter_data_new [OF assms(1) _ assms(2)] filter_data_old [OF assms(1) _ assms(2)]
  by (cases "W fd = []") auto


subsection \<open>A whole conversation\<close>

text \<open>The loop around \<open>filter\<close>: a complete package is handled at once; on \<open>more\<close> the queue is popped
  until it is empty. \<open>None\<close> is an error or a loop that does not end.\<close>

fun np_drain :: "nat \<Rightarrow> lua_queue \<Rightarrow> ((i32 \<times> u8 array) list \<times> lua_queue) option" where
  "np_drain 0 st = None"
| "np_drain (Suc n) st = do {
     (r, st1) \<leftarrow> lpop st;
     (case r of
        None \<Rightarrow> Some ([], st1)
      | Some p \<Rightarrow> do { (out, st2) \<leftarrow> np_drain n st1; Some ((np_id p, np_buffer p) # out, st2) }) }"

definition np_feed :: "nat \<Rightarrow> i32 \<times> u8 list \<Rightarrow> lua_queue \<Rightarrow> ((i32 \<times> u8 array) list \<times> lua_queue) option" where
  "np_feed n seg st = do {
     (r, st1) \<leftarrow> filter_data (fst seg) (snd seg) st;
     (case r of
        RData fd buf sz \<Rightarrow> Some ([(fd, buf)], st1)
      | RMore \<Rightarrow> np_drain n st1
      | _ \<Rightarrow> Some ([], st1)) }"

fun np_run :: "nat \<Rightarrow> (i32 \<times> u8 list) list \<Rightarrow> lua_queue \<Rightarrow> ((i32 \<times> u8 array) list \<times> lua_queue) option" where
  "np_run n [] st = Some ([], st)"
| "np_run n (seg # segs) st = do {
     (out, st1) \<leftarrow> np_feed n seg st;
     (out', st2) \<leftarrow> np_run n segs st1;
     Some (out @ out', st2) }"

definition stream_of :: "i32 \<Rightarrow> (i32 \<times> u8 list) list \<Rightarrow> u8 list" where
  "stream_of fd segs = concat (map snd (filter (\<lambda>s. fst s = fd) segs))"

definition packages_of :: "i32 \<Rightarrow> (i32 \<times> 'a) list \<Rightarrow> 'a list" where
  "packages_of fd out = map snd (filter (\<lambda>p. fst p = fd) out)"

lemma packages_of_append [simp]: "packages_of fd (xs @ ys) = packages_of fd xs @ packages_of fd ys"
  by (simp add: packages_of_def)

lemma lpop_inv:
  assumes "np_inv (Some q) W (p # Q)"
  shows "\<exists>q'. lpop (Some q) = Some (Some p, Some q') \<and> np_inv (Some q') W Q"
  using np_dequeue_cons [of q p Q] assms by (auto simp: lpop_def np_inv_def)

lemma np_drain_inv:
  "np_inv (Some q) W Q \<Longrightarrow> length Q < n \<Longrightarrow>
   \<exists>q'. np_drain n (Some q) = Some (map (\<lambda>p. (np_id p, np_buffer p)) Q, Some q') \<and> np_inv (Some q') W []"
proof (induction n arbitrary: q Q)
  case (Suc n)
  show ?case
  proof (cases Q)
    case Nil
    with Suc.prems np_dequeue_empty [of q] show ?thesis by (simp add: lpop_def np_inv_def)
  next
    case (Cons p Q')
    with lpop_inv Suc.prems obtain q' where
      "lpop (Some q) = Some (Some p, Some q')" "np_inv (Some q') W Q'" by blast
    with Suc.IH [of q' Q'] Suc.prems Cons show ?thesis by auto
  qed
qed simp

lemma np_inv_not_none: "np_inv None W Q \<Longrightarrow> Q = []"
  using nq_holds_new by (auto simp: np_inv_def get_queue_def nq_holds_def)

lemma frames_count: "length (snd (frames bs)) + 2 * length (fst (frames bs)) \<le> length bs"
proof (induction bs rule: frames.induct [case_names step])
  case (step bs)
  show ?case
  proof (cases bs rule: bytes_cases)
    case (More a b rest)
    show ?thesis
    proof (cases "length rest < unat a * 256 + unat b")
      case True
      with More show ?thesis by (simp add: frames_wait)
    next
      case False
      with step [OF More refl] have
        "length (snd (frames (drop (unat a * 256 + unat b) rest))) +
          2 * length (fst (frames (drop (unat a * 256 + unat b) rest))) \<le> length rest" by fastforce
      with False More show ?thesis by (simp add: frames_full)
    qed
  qed simp_all
qed

lemma np_feed_inv:
  assumes "np_inv st W []" and "bs \<noteq> []" and "length (W fd) + length bs < n"
  shows "\<exists>st'. np_feed n (fd, bs) st = Some (map (\<lambda>x. (fd, map Some x)) (fst (frames (W fd @ bs))), st') \<and>
    np_inv st' (W(fd := snd (frames (W fd @ bs)))) []"
proof -
  from filter_data_inv [OF assms(1,2), of fd] obtain r st1 Q' where
    f: "filter_data fd bs st = Some (r, st1)" and i: "np_inv st1 (W(fd := snd (frames (W fd @ bs)))) Q'"
    and p: "filter_post fd (fst (frames (W fd @ bs))) (snd (frames (W fd @ bs))) [] r Q'" by blast
  from p consider (none) "r = RNone" "fst (frames (W fd @ bs)) = []" "Q' = []"
    | (data) x where "r = RData fd (map Some x) (length x)" "fst (frames (W fd @ bs)) = [x]" "Q' = []"
    | (more) "r = RMore" "fst (frames (W fd @ bs)) \<noteq> []" "Q' = map (pack fd) (fst (frames (W fd @ bs)))"
    by (auto simp: filter_post_def)
  then show ?thesis
  proof cases
    case more
    have l: "length Q' < n" using frames_count [of "W fd @ bs"] assms(3) more(3) by simp
    obtain q where q: "st1 = Some q" using np_inv_not_none i more(2,3) by (cases st1) auto
    from np_drain_inv [OF i [unfolded q] l] show ?thesis
      using more f q by (auto simp: np_feed_def pack_def o_def)
  qed (use f i in \<open>simp_all add: np_feed_def\<close>)
qed



lemma frames_none: "fst (frames bs) = [] \<Longrightarrow> frames bs = ([], bs)"
  by (cases bs rule: bytes_cases; cases "length bs < 2 + unat (bs ! 0) * 256 + unat (bs ! 1)")
    (auto simp: frames_wait frames_full)

lemma frames_residue: "frames (snd (frames bs)) = ([], snd (frames bs))"
proof (rule frames_none)
  show "fst (frames (snd (frames bs))) = []" using frames_append [of bs "[]"] by (simp add: prod_eq_iff)
qed

lemma np_run_inv:
  assumes "np_inv st W []" and "\<forall>s\<in>set segs. snd s \<noteq> []"
    and "\<And>fd. length (W fd @ stream_of fd segs) < n" and "\<And>fd. frames (W fd) = ([], W fd)"
  shows "\<exists>out st'. np_run n segs st = Some (out, st') \<and>
    np_inv st' (\<lambda>fd. snd (frames (W fd @ stream_of fd segs))) [] \<and>
    (\<forall>fd. packages_of fd out = map (map Some) (fst (frames (W fd @ stream_of fd segs))))"
  using assms
proof (induction segs arbitrary: st W)
  case Nil
  then show ?case by (simp add: stream_of_def packages_of_def)
next
  case (Cons seg segs)
  obtain fd0 bs where seg: "seg = (fd0, bs)" by (cases seg)
  let ?S = "\<lambda>fd. stream_of fd segs" and ?F = "frames (W fd0 @ bs)"
  let ?W = "W(fd0 := snd ?F)"
  have str: "stream_of fd (seg # segs) = (if fd = fd0 then bs @ ?S fd else ?S fd)" for fd
    by (simp add: stream_of_def seg)
  have fr: "frames (W fd @ stream_of fd (seg # segs)) =
      (if fd = fd0 then (fst ?F @ fst (frames (?W fd @ ?S fd)), snd (frames (?W fd @ ?S fd)))
       else frames (?W fd @ ?S fd))" for fd
    using frames_append [of "W fd0 @ bs" "?S fd0"] by (simp add: str)
  have n0: "length (W fd0) + length bs < n" using Cons.prems(3) [of fd0] by (simp add: str)
  have bs: "bs \<noteq> []" using Cons.prems(2) by (simp add: seg)
  from np_feed_inv [of st W bs fd0 n] Cons.prems(1) bs n0 obtain st1 where
    st1: "np_feed n seg st = Some (map (\<lambda>x. (fd0, map Some x)) (fst ?F), st1)" "np_inv st1 ?W []"
    unfolding seg by blast
  have "length (snd ?F) \<le> length (W fd0 @ bs)" using frames_count [of "W fd0 @ bs"] by linarith
  then have len: "length (?W fd @ ?S fd) < n" for fd
    using Cons.prems(3) [of fd] by (auto simp: str)
  have res: "frames (?W fd) = ([], ?W fd)" for fd
    using Cons.prems(4) frames_residue by simp
  have ne: "\<forall>s\<in>set segs. snd s \<noteq> []" using Cons.prems(2) by simp
  from Cons.IH [OF st1(2) ne len res] obtain out st2 where
    o: "np_run n segs st1 = Some (out, st2)" "np_inv st2 (\<lambda>fd. snd (frames (?W fd @ ?S fd))) []"
      "\<And>fd. packages_of fd out = map (map Some) (fst (frames (?W fd @ ?S fd)))" by blast
  let ?out = "map (\<lambda>x. (fd0, map Some x)) (fst ?F) @ out"
  have run: "np_run n (seg # segs) st = Some (?out, st2)" using st1(1) o(1) by simp
  have w: "(\<lambda>fd. snd (frames (W fd @ stream_of fd (seg # segs)))) = (\<lambda>fd. snd (frames (?W fd @ ?S fd)))"
    by (rule ext) (simp add: fr)
  have pk: "packages_of fd ?out = map (map Some) (fst (frames (W fd @ stream_of fd (seg # segs))))" for fd
    using o(3) [of fd] unfolding fr by (simp add: packages_of_def o_def)
  show ?case
  proof (intro exI conjI allI)
    show "np_run n (seg # segs) st = Some (?out, st2)" by (rule run)
    show "np_inv st2 (\<lambda>fd. snd (frames (W fd @ stream_of fd (seg # segs)))) []" unfolding w by (rule o(2))
  qed (rule pk)
qed

text \<open>What the peer packed with \<open>lpack\<close> comes back, message by message.\<close>

lemma unat_of_nat_u8: "n < 256 \<Longrightarrow> unat (of_nat n :: u8) = n"
  by (simp add: unsigned_of_nat take_bit_nat_eq_self)

lemma lpack_Some: "lpack s = Some p \<Longrightarrow>
  \<exists>a b. p = a # b # s \<and> length s = unat a * 256 + unat b"
  by (auto simp: lpack_def write_size_def unat_of_nat_u8 split: if_splits)

lemma frames_lpack:
  "list_all2 (\<lambda>m p. lpack m = Some p) ms ps \<Longrightarrow> frames (concat ps @ rest) = (ms @ fst (frames rest), snd (frames rest))"
proof (induction rule: list_all2_induct)
  case (Cons m ms p ps)
  from lpack_Some [OF Cons.hyps(1)] obtain a b where
    "p = a # b # m" "length m = unat a * 256 + unat b" by blast
  with Cons.IH frames_one [of m a b "concat ps @ rest"] show ?case by simp
qed simp


text \<open>Closing a socket forgets what is left of its stream, and nothing else.\<close>

lemma close_uncomplete_inv:
  assumes "np_inv st W Q"
  shows "np_inv (close_uncomplete fd st) (W(fd := [])) Q"
proof (cases "W fd = []")
  case True
  moreover have "W(fd := []) = W" using True by auto
  ultimately show ?thesis using find_none [OF assms] assms by (simp add: close_uncomplete_def)
next
  case False
  with find_some [OF assms False] show ?thesis by (auto simp: close_uncomplete_def)
qed

text \<open>
  Property C11. The \<open>skynet.netpack\<close> reader, on any interleaving of the non-empty segments of any number
  of sockets: it never reads or writes outside a buffer, and the packages it delivers for a socket are
  exactly the length-prefixed packages of that socket's stream, in order, however the stream was cut;
  \<open>n\<close> bounds one drain of the queue.
\<close>

theorem netpack_reassembles:
  assumes "\<forall>s\<in>set segs. snd s \<noteq> []" and "\<And>fd. length (stream_of fd segs) < n"
  shows "\<exists>out st. np_run n segs None = Some (out, st) \<and>
    (\<forall>fd. packages_of fd out = map (map Some) (fst (frames (stream_of fd segs))))"
  using np_run_inv [OF np_inv_start, of segs n] assms by auto


definition demo_segs :: "(i32 \<times> u8 list) list" where
  "demo_segs = [(5, [0]), (6, [0, 1]), (5, [2, 7]), (6, [9, 0]), (5, [8, 0, 0, 0, 1, 3])]"

theorem netpack_reassembles_witness:
  "\<exists>out st. np_run 100 demo_segs None = Some (out, st) \<and>
    packages_of 5 out = [[Some 7, Some 8], [], [Some 3]] \<and> packages_of 6 out = [[Some 9]]"
proof -
  have s: "\<forall>s\<in>set demo_segs. snd s \<noteq> []" "length (stream_of fd demo_segs) < 100" for fd
    by (simp_all add: demo_segs_def stream_of_def)
  have "fst (frames (stream_of 5 demo_segs)) = [[7, 8], [], [3]]" "fst (frames (stream_of 6 demo_segs)) = [[9]]"
    by (simp_all add: demo_segs_def stream_of_def frames.simps)
  with netpack_reassembles [OF s] show ?thesis by fastforce
qed

text \<open>
  Property C12. Packing with \<open>lpack\<close> and reading with \<open>filter\<close> and \<open>pop\<close> gives the messages back: when
  the stream of each socket is the concatenation of its packed messages, then what is delivered for
  it are these messages, whole and in order.
\<close>

theorem netpack_roundtrip:
  assumes "\<forall>s\<in>set segs. snd s \<noteq> []" and "\<And>fd. length (stream_of fd segs) < n"
    and "\<And>fd. list_all2 (\<lambda>m p. lpack m = Some p) (ms fd) (ps fd)"
    and "\<And>fd. stream_of fd segs = concat (ps fd)"
  shows "\<exists>out st. np_run n segs None = Some (out, st) \<and>
    (\<forall>fd. packages_of fd out = map (map Some) (ms fd))"
proof -
  have "fst (frames (stream_of fd segs)) = ms fd" for fd
    using frames_lpack [OF assms(3), of fd "[]"] by (simp add: assms(4))
  with np_run_inv [OF np_inv_start, of segs n] assms(1,2) show ?thesis by auto
qed

definition demo_segs2 :: "(i32 \<times> u8 list) list" where
  "demo_segs2 = [(5, [0]), (6, [0, 1]), (5, [2, 7]), (6, [9]), (5, [8, 0, 0, 0, 1, 3])]"

theorem netpack_roundtrip_witness:
  "\<exists>out st. np_run 100 demo_segs2 None = Some (out, st) \<and>
    packages_of 5 out = [map Some [7, 8], [], map Some [3]]"
proof -
  let ?ms = "\<lambda>fd :: i32. if fd = 5 then [[7, 8], [], [3]] else if fd = 6 then [[9 :: u8]] else []"
  let ?ps = "\<lambda>fd :: i32. if fd = 5 then [[0, 2, 7, 8], [0, 0], [0, 1, 3]] else if fd = 6 then [[0, 1, 9 :: u8]] else []"
  have s: "\<forall>s\<in>set demo_segs2. snd s \<noteq> []" "length (stream_of fd demo_segs2) < 100"
    "list_all2 (\<lambda>m p. lpack m = Some p) (?ms fd) (?ps fd)" "stream_of fd demo_segs2 = concat (?ps fd)" for fd
    by (simp_all add: demo_segs2_def stream_of_def lpack_def write_size_def)
  from netpack_roundtrip [OF s] show ?thesis by fastforce
qed

text \<open>
  A close report from the socket layer is passed on, and the half-read package of that
  socket is dropped: the next connection that gets the same id starts a fresh stream. The streams of
  the other sockets and the packages already queued stay.
\<close>

theorem netpack_close_forgets:
  assumes "np_inv st W Q" and "sm_type m = SClose"
  shows "\<exists>st'. lfilter m st = Some (RClose (sm_id m), st') \<and> np_inv st' (W(sm_id m := [])) Q"
  using assms(2) close_uncomplete_inv [OF assms(1)] by (simp add: lfilter_def)

theorem netpack_close_forgets_witness:
  "\<exists>st'. lfilter \<lparr>sm_type = SClose, sm_id = 5, sm_ud = 0, sm_buffer = None, sm_padding = []\<rparr>
      (save_header 5 9 None) = Some (RClose 5, st') \<and> np_inv st' (\<lambda>_. []) []"
proof -
  have i: "np_inv (save_header 5 9 None) ((\<lambda>_. [])(5 := [9])) []"
    by (rule save_header_inv [OF np_inv_start]) simp
  have "((\<lambda>_. [])(5 := [9]))(5 := []) = (\<lambda>_ :: i32. [] :: u8 list)" by auto
  with netpack_close_forgets [OF i, of "\<lparr>sm_type = SClose, sm_id = 5, sm_ud = 0, sm_buffer = None, sm_padding = []\<rparr>"]
  show ?thesis by simp
qed

lemma c_for_take:
  assumes "\<And>i. i < length xs \<Longrightarrow> get (a + i) = Some (xs ! i)"
  shows "c_for a (a + length xs) (\<lambda>i out. do { x \<leftarrow> get i; Some (out @ [g x]) }) ys = Some (ys @ map g xs)"
  using assms
proof (induction xs arbitrary: a ys)
  case Nil
  then show ?case by (simp add: c_for_done)
next
  case (Cons x xs)
  have "get a = Some x" using Cons.prems [of 0] by simp
  moreover have "c_for (Suc a) (Suc a + length xs) (\<lambda>i out. do { x \<leftarrow> get i; Some (out @ [g x]) }) (ys @ [g x]) =
      Some ((ys @ [g x]) @ map g xs)"
    using Cons.prems [of "Suc i" for i] by (intro Cons.IH) force
  ultimately show ?case by (subst c_for.simps) simp
qed

text \<open>
  \<open>clear\<close> frees the buffer of every queued package, once each and in order, and leaves an
  empty queue that knows no half-read package.
\<close>

lemma netpack_clear:
  assumes "np_inv st W Q"
  shows "\<exists>st'. lclear st = Some (map np_buffer Q, st') \<and> np_inv st' (\<lambda>_. []) []"
proof (cases st)
  case None
  with assms np_inv_not_none show ?thesis using np_inv_start by (auto simp: lclear_def)
next
  case (Some q)
  let ?cap = "nq_cap q" and ?h = "nq_head q" and ?t = "nq_tail q" and ?a = "nq_queue q"
  have ok: "ring_ok ?a ?cap ?h ?t" and l: "ring_list ?a ?cap ?h ?t = Q"
    using assms Some by (simp_all add: np_inv_def nq_holds_def)
  have lq: "(if ?t < ?h then ?t + ?cap else ?t) = ?h + length Q"
    using ok unfolding l [symmetric] length_ring_list by (auto simp: ring_ok_def ring_len_def)
  have "array_get ?a ((?h + i) mod ?cap) = Some (Q ! i)" if "i < length Q" for i
  proof -
    have i: "i < ring_len ?cap ?h ?t" using that unfolding l [symmetric] length_ring_list .
    have "?a ! ring_at ?cap ?h i \<noteq> None" "ring_at ?cap ?h i < length ?a"
      using ok i ring_at_less [of ?h ?cap i] by (simp_all add: ring_ok_def)
    moreover have "Q ! i = the (?a ! ring_at ?cap ?h i)" using i unfolding l [symmetric] ring_list_def by simp
    ultimately show ?thesis by (simp add: ring_at_def)
  qed
  from c_for_take [where get = "\<lambda>i. array_get ?a (i mod ?cap)" and xs = Q and g = np_buffer and ys = "[]" and a = ?h, OF this]
  have "lclear st = Some (map np_buffer Q, Some (q\<lparr>nq_hash := (\<lambda>_. []), nq_head := 0, nq_tail := 0\<rparr>))"
    by (simp only: lclear_def Some option.case lq Let_def) simp
  moreover have "np_inv (Some (q\<lparr>nq_hash := (\<lambda>_. []), nq_head := 0, nq_tail := 0\<rparr>)) (\<lambda>_. []) []"
    using ok pend_empty by (auto simp: np_inv_def nq_holds_def ring_empty ring_ok_def)
  ultimately show ?thesis by blast
qed

text \<open>
  The ring of packages is a first-in first-out queue through every growth: over any history
  of pushes and pops from the empty queue, what came out followed by what is still inside is what went
  in, in order, and no cell is read before it is written.
\<close>

lemma netpack_queue_fifo:
  "\<exists>out q' ys. np_fifo.run ops new_queue = Some (out, q') \<and> nq_holds q' ys \<and>
     out @ ys = List.map_filter (\<lambda>oper. oper) ops"
  using np_fifo.run_conserves [OF nq_holds_new, of ops] by simp

end
