(* ===== verification/Hashid.thy ===== *)
theory Hashid
  imports Interfaces LinkedList "HOL-Library.Signed_Division"
begin

section \<open>The table of connection ids (service-src/hashid.h)\<close>

text \<open>
  \<open>struct hashid\<close> maps socket ids to the slots \<open>0 .. cap - 1\<close> of the gate's connection array: an array
  of nodes, each free (id -1) or in the chain of the bucket \<open>id & hashmod\<close>. A pointer to a node is its
  index. Every access out of an array, and every signed overflow, fails.

  The theorems: the table refines a finite map from ids to distinct slots; the power-of-two loop
  stops; what happens where the scan for a slot overflows.
\<close>

subsection \<open>The model\<close>

record hashid_node =
  hn_id :: i32
  hn_next :: ptr

record hashid =
  hi_hashmod :: nat
  hi_cap :: nat
  hi_count :: int
  hi_id :: "hashid_node list"
  hi_hash :: "ptr list"

definition INT_MAX :: int where "INT_MAX = 2 ^ 31 - 1"

text \<open>The result of an \<open>int\<close> operation, undefined when it does not fit.\<close>

definition c_int :: "int \<Rightarrow> int option" where
  "c_int x = (if - INT_MAX - 1 \<le> x \<and> x \<le> INT_MAX then Some x else None)"

text \<open>\<open>while (hashcap < max) hashcap *= 2;\<close>\<close>

partial_function (option) hashcap_loop :: "int \<Rightarrow> int \<Rightarrow> int option" where
  "hashcap_loop hashcap limit =
     (if hashcap < limit then do { h \<leftarrow> c_int (hashcap * 2); hashcap_loop h limit } else Some hashcap)"

definition hashid_init :: "int \<Rightarrow> hashid option" where
  "hashid_init limit = do {
     hashcap \<leftarrow> hashcap_loop 16 limit;
     Some \<lparr>hi_hashmod = nat (hashcap - 1), hi_cap = nat limit, hi_count = 0,
       hi_id = replicate (nat limit) \<lparr>hn_id = - 1, hn_next = None\<rparr>,
       hi_hash = replicate (nat hashcap) None\<rparr> }"

definition hashid_clear :: "hashid \<Rightarrow> hashid" where
  "hashid_clear hi = \<lparr>hi_hashmod = 1, hi_cap = 0, hi_count = 0, hi_id = [], hi_hash = []\<rparr>"

definition bucket :: "hashid \<Rightarrow> i32 \<Rightarrow> nat" where
  "bucket hi k = unat (k AND of_nat (hi_hashmod hi))"

partial_function (option) lookup_loop :: "hashid_node list \<Rightarrow> i32 \<Rightarrow> ptr \<Rightarrow> ptr option" where
  "lookup_loop ns k c =
     (case c of
        None \<Rightarrow> Some None
      | Some i \<Rightarrow> do {
          n \<leftarrow> nth_at ns i;
          if hn_id n = k then Some (Some i) else lookup_loop ns k (hn_next n) })"

text \<open>The result is the index of the node; NULL stands for -1.\<close>

definition hashid_lookup :: "hashid \<Rightarrow> i32 \<Rightarrow> ptr option" where
  "hashid_lookup hi k = do { c \<leftarrow> nth_at (hi_hash hi) (bucket hi k); lookup_loop (hi_id hi) k c }"

definition set_hn_next :: "nat \<Rightarrow> ptr \<Rightarrow> hashid \<Rightarrow> hashid option" where
  "set_hn_next i p hi = do {
     n \<leftarrow> nth_at (hi_id hi) i;
     Some (hi\<lparr>hi_id := (hi_id hi)[i := n\<lparr>hn_next := p\<rparr>]\<rparr>) }"

text \<open>The code after the label \<open>_clear\<close>.\<close>

definition clear_node :: "nat \<Rightarrow> hashid \<Rightarrow> (ptr \<times> hashid) option" where
  "clear_node i hi =
     (if i < length (hi_id hi)
      then Some (Some i, hi\<lparr>hi_id := (hi_id hi)[i := \<lparr>hn_id = - 1, hn_next = None\<rparr>],
                            hi_count := hi_count hi - 1\<rparr>)
      else None)"

text \<open>\<open>while (c->next)\<close>, from the node \<open>c\<close>.\<close>

partial_function (option) remove_loop :: "hashid \<Rightarrow> i32 \<Rightarrow> nat \<Rightarrow> (ptr \<times> hashid) option" where
  "remove_loop hi k c = do {
     n \<leftarrow> nth_at (hi_id hi) c;
     case hn_next n of
       None \<Rightarrow> Some (None, hi)
     | Some temp \<Rightarrow> do {
         m \<leftarrow> nth_at (hi_id hi) temp;
         if hn_id m = k then do { hi' \<leftarrow> set_hn_next c (hn_next m) hi; clear_node temp hi' }
         else remove_loop hi k temp } }"

definition hashid_remove :: "hashid \<Rightarrow> i32 \<Rightarrow> (ptr \<times> hashid) option" where
  "hashid_remove hi k = do {
     let h = bucket hi k;
     p \<leftarrow> nth_at (hi_hash hi) h;
     case p of
       None \<Rightarrow> Some (None, hi)
     | Some c \<Rightarrow> do {
         n \<leftarrow> nth_at (hi_id hi) c;
         if hn_id n = k then clear_node c (hi\<lparr>hi_hash := (hi_hash hi)[h := hn_next n]\<rparr>)
         else remove_loop hi k c } }"

text \<open>The scan for a free node: \<open>n\<close> rounds are left, \<open>i\<close> is the round. \<open>%\<close> truncates, so a negative
  id gives a negative index, which is not in the array.\<close>

fun insert_scan :: "nat \<Rightarrow> int \<Rightarrow> hashid \<Rightarrow> i32 \<Rightarrow> ptr option" where
  "insert_scan 0 i hi k = Some None"
| "insert_scan (Suc n) i hi k = do {
     s \<leftarrow> c_int (i + sint k);
     let index = s smod int (hi_cap hi);
     c_assert (0 \<le> index);
     c \<leftarrow> nth_at (hi_id hi) (nat index);
     if hn_id c = - 1 then Some (Some (nat index)) else insert_scan n (i + 1) hi k }"

definition hashid_insert :: "hashid \<Rightarrow> i32 \<Rightarrow> (nat \<times> hashid) option" where
  "hashid_insert hi k = do {
     p \<leftarrow> insert_scan (hi_cap hi) 0 hi k;
     c \<leftarrow> p;
     n \<leftarrow> nth_at (hi_id hi) c;
     c_assert (hn_next n = None);
     let h = bucket hi k;
     first \<leftarrow> nth_at (hi_hash hi) h;
     Some (c, hi\<lparr>hi_count := hi_count hi + 1, hi_id := (hi_id hi)[c := \<lparr>hn_id = k, hn_next = first\<rparr>],
                 hi_hash := (hi_hash hi)[h := Some c]\<rparr>) }"

definition hashid_full :: "hashid \<Rightarrow> bool" where
  "hashid_full hi \<longleftrightarrow> hi_count hi = int (hi_cap hi)"

subsection \<open>The abstract table\<close>

definition hn_nxt :: "hashid_node list \<Rightarrow> nat \<Rightarrow> ptr" where
  "hn_nxt ns i = (if i < length ns then hn_next (ns ! i) else None)"

text \<open>\<open>hi_holds hi M\<close>: the table stands for the map \<open>M\<close>. \<open>C\<close> are the chains.\<close>

definition hi_chains :: "hashid \<Rightarrow> (nat \<Rightarrow> nat list) \<Rightarrow> bool" where
  "hi_chains hi C \<longleftrightarrow>
     (\<forall>h < length (hi_hash hi). lpath (hn_nxt (hi_id hi)) (hi_hash hi ! h) (C h) \<and>
        (\<forall>i\<in>set (C h). i < length (hi_id hi) \<and> hn_id (hi_id hi ! i) \<noteq> - 1 \<and> bucket hi (hn_id (hi_id hi ! i)) = h)) \<and>
     (\<forall>i < length (hi_id hi).
        if hn_id (hi_id hi ! i) = - 1 then hn_next (hi_id hi ! i) = None
        else i \<in> set (C (bucket hi (hn_id (hi_id hi ! i)))))"

definition hi_map :: "hashid \<Rightarrow> (i32 \<rightharpoonup> nat) \<Rightarrow> bool" where
  "hi_map hi M \<longleftrightarrow> (\<forall>k i. M k = Some i \<longleftrightarrow> k \<noteq> - 1 \<and> i < length (hi_id hi) \<and> hn_id (hi_id hi ! i) = k)"

definition hi_shape :: "hashid \<Rightarrow> bool" where
  "hi_shape hi \<longleftrightarrow> length (hi_id hi) = hi_cap hi \<and> length (hi_hash hi) = hi_hashmod hi + 1 \<and>
     hi_hashmod hi < 2 ^ 31 \<and> 0 < hi_cap hi"

definition hi_holds :: "hashid \<Rightarrow> (i32 \<rightharpoonup> nat) \<Rightarrow> bool" where
  "hi_holds hi M \<longleftrightarrow> hi_shape hi \<and> hi_map hi M \<and> hi_count hi = int (card (dom M)) \<and> (\<exists>C. hi_chains hi C)"

lemma nth_at_in [simp]: "i < length xs \<Longrightarrow> nth_at xs i = Some (xs ! i)"
  by (simp add: nth_at_def)

lemma bucket_less: "hi_shape hi \<Longrightarrow> bucket hi k < length (hi_hash hi)"
proof -
  assume s: "hi_shape hi"
  have "k AND of_nat (hi_hashmod hi) \<le> of_nat (hi_hashmod hi)" by (rule word_and_le1)
  then have "unat (k AND of_nat (hi_hashmod hi)) \<le> unat (of_nat (hi_hashmod hi) :: i32)"
    by (simp add: word_le_nat_alt)
  also have "\<dots> = hi_hashmod hi"
    using s by (simp add: hi_shape_def unsigned_of_nat take_bit_nat_eq_self)
  finally show ?thesis using s by (simp add: bucket_def hi_shape_def)
qed

subsubsection \<open>Creation\<close>

text \<open>The loop stops at the first power of two that is enough.\<close>

lemma INT_MAX_num: "INT_MAX = 2147483647" "(2 :: int) ^ 30 = 1073741824"
  by (simp_all add: INT_MAX_def)

lemma hashcap_loop_ok:
  "2 ^ k \<le> (2 :: int) ^ 30 \<Longrightarrow> limit \<le> 2 ^ 30 \<Longrightarrow>
   \<exists>m\<ge>k. hashcap_loop (2 ^ k) limit = Some (2 ^ m) \<and> limit \<le> 2 ^ m \<and> 2 ^ m \<le> (2 :: int) ^ 30"
proof (induction "30 - k" arbitrary: k rule: less_induct)
  case less
  show ?case
  proof (cases "2 ^ k < limit")
    case True
    then have "(2 :: int) ^ k < 2 ^ 30" using less.prems(2) by linarith
    from power_less_imp_less_exp [OF _ this] have k: "k < 30" by simp
    then have b: "(2 :: int) ^ Suc k \<le> 2 ^ 30" by (intro power_increasing) simp_all
    have z: "0 \<le> (2 :: int) ^ k" by simp
    have "- INT_MAX - 1 \<le> 2 ^ k * 2 \<and> 2 ^ k * 2 \<le> INT_MAX"
      using b z INT_MAX_num by (simp only: power_Suc) linarith
    then have "c_int (2 ^ k * 2) = Some (2 ^ Suc k)" by (simp add: c_int_def)
    then have e: "hashcap_loop (2 ^ k) limit = hashcap_loop (2 ^ Suc k) limit"
      using True by (subst hashcap_loop.simps) simp
    have "30 - Suc k < 30 - k" using k by simp
    from less.hyps [OF this b less.prems(2)] show ?thesis unfolding e using Suc_leD by blast
  next
    case False
    then have "hashcap_loop (2 ^ k) limit = Some (2 ^ k)" by (subst hashcap_loop.simps) simp
    with False less.prems show ?thesis by (intro exI [of _ k]) simp
  qed
qed

lemma hashid_init_holds:
  assumes "0 < limit" and "limit \<le> 2 ^ 30"
  shows "\<exists>hi. hashid_init limit = Some hi \<and> hi_holds hi (\<lambda>_. None) \<and> hi_cap hi = nat limit"
proof -
  from hashcap_loop_ok [of 4 limit] assms(2) obtain m where
    m: "hashcap_loop 16 limit = Some (2 ^ m)" "2 ^ m \<le> (2 :: int) ^ 30" by auto
  let ?hi = "\<lparr>hi_hashmod = nat (2 ^ m - 1), hi_cap = nat limit, hi_count = 0,
       hi_id = replicate (nat limit) \<lparr>hn_id = - 1, hn_next = None\<rparr>, hi_hash = replicate (nat (2 ^ m)) None\<rparr>"
  have "nat (2 ^ m - 1) + 1 = nat (2 ^ m)" by (simp add: nat_diff_distrib)
  moreover have "nat (2 ^ m - 1) < 2 ^ 31" using m(2) by (simp add: nat_less_iff)
  ultimately have "hi_shape ?hi" using assms by (simp add: hi_shape_def)
  moreover have "hi_chains ?hi (\<lambda>_. [])" by (simp add: hi_chains_def)
  ultimately have "hi_holds ?hi (\<lambda>_. None)" by (auto simp: hi_holds_def hi_map_def)
  with m(1) show ?thesis by (simp add: hashid_init_def)
qed

subsubsection \<open>Lookup\<close>

lemma lookup_loop_ok:
  "lpath (hn_nxt ns) c is \<Longrightarrow> \<forall>i\<in>set is. i < length ns \<Longrightarrow>
   lookup_loop ns k c = Some (find (\<lambda>i. hn_id (ns ! i) = k) is)"
proof (induction "is" arbitrary: c)
  case Nil
  then show ?case by (simp add: lookup_loop.simps)
next
  case (Cons i "is")
  then show ?case by (subst lookup_loop.simps) (simp add: hn_nxt_def)
qed

lemma chain_facts:
  assumes "hi_chains hi C"
  shows chain_lpath: "h < length (hi_hash hi) \<Longrightarrow> lpath (hn_nxt (hi_id hi)) (hi_hash hi ! h) (C h)"
    and chain_node: "h < length (hi_hash hi) \<Longrightarrow> i \<in> set (C h) \<Longrightarrow>
      i < length (hi_id hi) \<and> hn_id (hi_id hi ! i) \<noteq> - 1 \<and> bucket hi (hn_id (hi_id hi ! i)) = h"
    and chain_in: "i < length (hi_id hi) \<Longrightarrow> hn_id (hi_id hi ! i) \<noteq> - 1 \<Longrightarrow>
      i \<in> set (C (bucket hi (hn_id (hi_id hi ! i))))"
    and chain_free: "i < length (hi_id hi) \<Longrightarrow> hn_id (hi_id hi ! i) = - 1 \<Longrightarrow> hn_next (hi_id hi ! i) = None"
  using assms by (simp_all add: hi_chains_def)

lemma hi_map_iff:
  "hi_map hi M \<Longrightarrow> M k = Some i \<longleftrightarrow> k \<noteq> - 1 \<and> i < length (hi_id hi) \<and> hn_id (hi_id hi ! i) = k"
  by (simp add: hi_map_def)

lemma in_chain_iff:
  assumes C: "hi_chains hi C" and M: "hi_map hi M" and s: "hi_shape hi"
  shows "i \<in> set (C (bucket hi k)) \<and> hn_id (hi_id hi ! i) = k \<longleftrightarrow> M k = Some i"
  unfolding hi_map_iff [OF M]
  using chain_node [OF C bucket_less [OF s], of i k] chain_in [OF C, of i] by metis

lemma chain_find:
  assumes C: "hi_chains hi C" and M: "hi_map hi M" and s: "hi_shape hi"
  shows "find (\<lambda>i. hn_id (hi_id hi ! i) = k) (C (bucket hi k)) = M k"
proof (cases "find (\<lambda>i. hn_id (hi_id hi ! i) = k) (C (bucket hi k))")
  case None
  then have "M k \<noteq> Some i" for i
    using in_chain_iff [OF C M s, of i k] by (simp add: find_None_iff) metis
  then have "M k = None" by (meson not_Some_eq)
  with None show ?thesis by simp
next
  case (Some j)
  then have "j \<in> set (C (bucket hi k)) \<and> hn_id (hi_id hi ! j) = k" by (auto simp: find_Some_iff)
  then show ?thesis unfolding in_chain_iff [OF C M s] Some by simp
qed

lemma hashid_lookup_ok:
  assumes "hi_holds hi M"
  shows "hashid_lookup hi k = Some (M k)"
proof -
  obtain C where C: "hi_chains hi C" "hi_map hi M" "hi_shape hi" using assms by (auto simp: hi_holds_def)
  note b = bucket_less [OF C(3), of k]
  have "lpath (hn_nxt (hi_id hi)) (hi_hash hi ! bucket hi k) (C (bucket hi k))"
    "\<forall>i\<in>set (C (bucket hi k)). i < length (hi_id hi)"
    using C(1) b by (simp_all add: hi_chains_def)
  from lookup_loop_ok [OF this] show ?thesis
    using b by (simp add: hashid_lookup_def chain_find [OF C])
qed


subsubsection \<open>Removal\<close>

lemma hn_nxt_upd [simp]:
  "i < length ns \<Longrightarrow> hn_nxt (ns[i := n]) = (hn_nxt ns)(i := hn_next n)"
  by (auto simp: hn_nxt_def fun_eq_iff nth_list_update)

text \<open>Walking the chain \<open>us @ c # vs\<close> from \<open>c\<close> on: either no node after \<open>c\<close> has the id, or the first that
  has is unlinked from its predecessor.\<close>

lemma remove_loop_ok:
  "lpath (hn_nxt (hi_id hi)) (Some c) (c # is) \<Longrightarrow> \<forall>i\<in>set (c # is). i < length (hi_id hi) \<Longrightarrow>
   (\<forall>i\<in>set is. hn_id (hi_id hi ! i) \<noteq> k) \<and> remove_loop hi k c = Some (None, hi) \<or>
   (\<exists>us p t vs. c # is = us @ p # t # vs \<and> hn_id (hi_id hi ! t) = k \<and>
      remove_loop hi k c = clear_node t
        (hi\<lparr>hi_id := (hi_id hi)[p := (hi_id hi ! p)\<lparr>hn_next := hn_next (hi_id hi ! t)\<rparr>]\<rparr>))"
proof (induction "is" arbitrary: c)
  case Nil
  then have "hn_next (hi_id hi ! c) = None" by (simp add: hn_nxt_def)
  with Nil show ?case by (simp add: remove_loop.simps)
next
  case (Cons t "is")
  then have n: "hn_next (hi_id hi ! c) = Some t" and c: "c < length (hi_id hi)" and t: "t < length (hi_id hi)"
    by (simp_all add: hn_nxt_def)
  show ?case
  proof (cases "hn_id (hi_id hi ! t) = k")
    case True
    have "remove_loop hi k c = clear_node t
        (hi\<lparr>hi_id := (hi_id hi)[c := (hi_id hi ! c)\<lparr>hn_next := hn_next (hi_id hi ! t)\<rparr>]\<rparr>)"
      using True n c t by (simp add: remove_loop.simps [of hi k c] set_hn_next_def)
    moreover have "c # t # is = [] @ c # t # is" by simp
    ultimately show ?thesis using True by blast
  next
    case False
    then have e: "remove_loop hi k c = remove_loop hi k t"
      using n c t by (simp add: remove_loop.simps [of hi k c])
    have "lpath (hn_nxt (hi_id hi)) (Some t) (t # is)" "\<forall>i\<in>set (t # is). i < length (hi_id hi)"
      using Cons.prems by simp_all
    from Cons.IH [OF this] show ?thesis
    proof (elim disjE conjE exE)
      assume "\<forall>i\<in>set is. hn_id (hi_id hi ! i) \<noteq> k" "remove_loop hi k t = Some (None, hi)"
      with False e show ?thesis by simp
    next
      fix us p t' vs
      assume h: "t # is = us @ p # t' # vs" "hn_id (hi_id hi ! t') = k"
        and r: "remove_loop hi k t = clear_node t'
          (hi\<lparr>hi_id := (hi_id hi)[p := (hi_id hi ! p)\<lparr>hn_next := hn_next (hi_id hi ! t')\<rparr>]\<rparr>)"
      have "c # t # is = (c # us) @ p # t' # vs" using h(1) by simp
      with h(2) r show ?thesis unfolding e by blast
    qed
  qed
qed

text \<open>What any unlinking that ends in \<open>_clear\<close> leaves.\<close>

lemma clear_node_holds:
  assumes hi: "hi_holds hi M" and C: "hi_chains hi C" and k: "M k = Some i"
    and sh: "hi_shape hi'" and cnt: "hi_count hi' = hi_count hi" and mo: "hi_hashmod hi' = hi_hashmod hi"
    and ids: "map hn_id (hi_id hi') = map hn_id (hi_id hi)"
    and free: "\<And>j. j < length (hi_id hi') \<Longrightarrow> hn_id (hi_id hi' ! j) = - 1 \<Longrightarrow> hn_next (hi_id hi' ! j) = None"
    and path: "\<And>h. h < length (hi_hash hi') \<Longrightarrow>
      lpath (hn_nxt (hi_id hi')) (hi_hash hi' ! h) (filter (\<lambda>j. j \<noteq> i) (C h))"
  shows "\<exists>hi''. clear_node i hi' = Some (Some i, hi'') \<and> hi_holds hi'' (M(k := None)) \<and>
    hi_cap hi'' = hi_cap hi'"
proof -
  let ?ns = "(hi_id hi')[i := \<lparr>hn_id = - 1, hn_next = None\<rparr>]"
  let ?hi = "hi'\<lparr>hi_id := ?ns, hi_count := hi_count hi' - 1\<rparr>"
  have M: "hi_map hi M" and s: "hi_shape hi" and c: "hi_count hi = int (card (dom M))"
    using hi by (simp_all add: hi_holds_def)
  have len: "length (hi_id hi') = length (hi_id hi)" using ids by (rule map_eq_imp_length_eq)
  have idn: "hn_id (hi_id hi' ! j) = hn_id (hi_id hi ! j)" if "j < length (hi_id hi)" for j
    using ids that len by (metis nth_map)
  have i: "i < length (hi_id hi)" "hn_id (hi_id hi ! i) = k" "k \<noteq> - 1"
    using k unfolding hi_map_iff [OF M] by simp_all
  have lh: "length (hi_hash hi') = length (hi_hash hi)" using sh s mo by (simp add: hi_shape_def)
  have bk: "bucket ?hi x = bucket hi x" for x by (simp add: bucket_def mo)
  have "finite (dom M)"
  proof (rule finite_subset)
    show "dom M \<subseteq> (\<lambda>j. hn_id (hi_id hi ! j)) ` {..<length (hi_id hi)}"
      by (auto simp: hi_map_iff [OF M])
  qed simp
  then have cnt': "hi_count ?hi = int (card (dom (M(k := None))))"
    using k c cnt card_gt_0_iff [of "dom M"] by (auto simp: card_Diff_singleton domI of_nat_diff)
  have map': "hi_map ?hi (M(k := None))"
    unfolding hi_map_def
  proof (intro allI)
    fix x j
    show "(M(k := None)) x = Some j \<longleftrightarrow> x \<noteq> - 1 \<and> j < length (hi_id ?hi) \<and> hn_id (hi_id ?hi ! j) = x"
    proof (cases "j = i")
      case True
      have "M x \<noteq> Some i" if "x \<noteq> k" using that i(2) unfolding hi_map_iff [OF M] by simp
      then show ?thesis using True i(1) len by auto
    next
      case False
      have "x \<noteq> k" if "M x = Some j" using that False k by auto
      then show ?thesis using False hi_map_iff [OF M, of x j] idn [of j] len k by auto
    qed
  qed
  have "hi_chains ?hi (\<lambda>h. filter (\<lambda>j. j \<noteq> i) (C h))"
    unfolding hi_chains_def
  proof (intro conjI allI impI ballI)
    fix h assume h: "h < length (hi_hash ?hi)"
    then have h': "h < length (hi_hash hi)" using lh by simp
    show "lpath (hn_nxt (hi_id ?hi)) (hi_hash ?hi ! h) (filter (\<lambda>j. j \<noteq> i) (C h))"
      using path [of h] h i(1) len by simp
    fix j assume "j \<in> set (filter (\<lambda>j. j \<noteq> i) (C h))"
    then have j: "j \<in> set (C h)" "j \<noteq> i" by simp_all
    from chain_node [OF C h' j(1)] idn [of j] j(2) len
    show "j < length (hi_id ?hi)" "hn_id (hi_id ?hi ! j) \<noteq> - 1" "bucket ?hi (hn_id (hi_id ?hi ! j)) = h"
      by (simp_all add: bk)
  next
    fix j assume j: "j < length (hi_id ?hi)"
    show "if hn_id (hi_id ?hi ! j) = - 1 then hn_next (hi_id ?hi ! j) = None
      else j \<in> set (filter (\<lambda>j. j \<noteq> i) (C (bucket ?hi (hn_id (hi_id ?hi ! j)))))"
      using j free [of j] chain_in [OF C, of j] idn [of j] len i(1)
      by (cases "j = i") (simp_all add: bk)
  qed
  then have "hi_holds ?hi (M(k := None))"
    using map' cnt' sh by (auto simp: hi_holds_def hi_shape_def)
  then show ?thesis using i(1) len by (simp add: clear_node_def)
qed


lemma chain_other:
  assumes "hi_chains hi C" and "h < length (hi_hash hi)" and "h' < length (hi_hash hi)"
    and "i \<in> set (C h)" and "h \<noteq> h'"
  shows "i \<notin> set (C h')"
  using chain_node [OF assms(1,2,4)] chain_node [OF assms(1,3), of i] assms(5) by auto

lemma hashid_remove_ok:
  assumes hi: "hi_holds hi M"
  shows "\<exists>hi'. hashid_remove hi k = Some (M k, hi') \<and> hi_holds hi' (M(k := None)) \<and> hi_cap hi' = hi_cap hi"
proof -
  obtain C where C: "hi_chains hi C" and M: "hi_map hi M" and s: "hi_shape hi"
    using hi by (auto simp: hi_holds_def)
  let ?h = "bucket hi k" and ?ns = "hi_id hi"
  note h = bucket_less [OF s, of k]
  note path = chain_lpath [OF C h] and node = chain_node [OF C h] and fnd = chain_find [OF C M s, of k]
  have none: ?thesis if "M k = None" "hashid_remove hi k = Some (None, hi)"
    using that hi by (auto simp: fun_upd_idem)
  show ?thesis
  proof (cases "C ?h")
    case Nil
    then have "hi_hash hi ! ?h = None" "M k = None" using path fnd by simp_all
    then show ?thesis using none h by (simp add: hashid_remove_def)
  next
    case (Cons c "is")
    then have hc: "hi_hash hi ! ?h = Some c" and c: "c < length ?ns" and dist: "distinct (c # is)"
      using path node [of c] lpath_distinct [OF path] by simp_all
    show ?thesis
    proof (cases "hn_id (?ns ! c) = k")
      case True
      then have k: "M k = Some c" using fnd Cons by simp
      let ?hi = "hi\<lparr>hi_hash := (hi_hash hi)[?h := hn_next (?ns ! c)]\<rparr>"
      have e: "hashid_remove hi k = clear_node c ?hi"
        using h hc c True by (simp add: hashid_remove_def)
      have "\<exists>hi''. clear_node c ?hi = Some (Some c, hi'') \<and> hi_holds hi'' (M(k := None)) \<and> hi_cap hi'' = hi_cap ?hi"
      proof (rule clear_node_holds [OF hi C k])
        fix h' assume h': "h' < length (hi_hash ?hi)"
        show "lpath (hn_nxt (hi_id ?hi)) (hi_hash ?hi ! h') (filter (\<lambda>j. j \<noteq> c) (C h'))"
        proof (cases "h' = ?h")
          case True
          have "filter (\<lambda>j. j \<noteq> c) is = is" using dist by (auto simp: filter_id_conv)
          then show ?thesis using True path Cons h c by (simp add: hn_nxt_def)
        next
          case False
          have "c \<notin> set (C h')" using chain_other [OF C h _ _ False [symmetric], of c] h' Cons by simp
          then have "filter (\<lambda>j. j \<noteq> c) (C h') = C h'" by (auto simp: filter_id_conv)
          then show ?thesis using chain_lpath [OF C, of h'] h' False by simp
        qed
      qed (use s chain_free [OF C] in \<open>simp_all add: hi_shape_def\<close>)
      then show ?thesis unfolding e k by simp
    next
      case False
      have p: "lpath (hn_nxt ?ns) (Some c) (c # is)" "\<forall>i\<in>set (c # is). i < length ?ns"
        using path node hc Cons by simp_all
      have e: "hashid_remove hi k = remove_loop hi k c"
        using h hc c False by (simp add: hashid_remove_def)
      from remove_loop_ok [OF p, of k] show ?thesis
      proof (elim disjE conjE exE)
        assume a: "\<forall>i\<in>set is. hn_id (?ns ! i) \<noteq> k" "remove_loop hi k c = Some (None, hi)"
        have "find (\<lambda>i. hn_id (?ns ! i) = k) (c # is) = None" using a(1) False by (simp add: find_None_iff)
        then have "M k = None" using fnd Cons by simp
        then show ?thesis using none a(2) e by simp
      next
        fix us p t vs
        assume l: "c # is = us @ p # t # vs" and t: "hn_id (?ns ! t) = k"
          and r: "remove_loop hi k c = clear_node t
            (hi\<lparr>hi_id := ?ns[p := (?ns ! p)\<lparr>hn_next := hn_next (?ns ! t)\<rparr>]\<rparr>)"
        let ?n = "(?ns ! p)\<lparr>hn_next := hn_next (?ns ! t)\<rparr>"
        let ?hi = "hi\<lparr>hi_id := ?ns[p := ?n]\<rparr>"
        have Cl: "C ?h = us @ p # t # vs" using Cons l by simp
        have pt: "p < length ?ns" "t < length ?ns" "hn_id (?ns ! p) \<noteq> - 1"
          using node [of p] node [of t] Cl by simp_all
        have k: "M k = Some t"
          using in_chain_iff [OF C M s, of t k] t Cl by simp
        have bk: "bucket ?hi x = bucket hi x" for x by (simp add: bucket_def)
        have "\<exists>hi''. clear_node t ?hi = Some (Some t, hi'') \<and> hi_holds hi'' (M(k := None)) \<and> hi_cap hi'' = hi_cap ?hi"
        proof (rule clear_node_holds [OF hi C k])
          show "map hn_id (hi_id ?hi) = map hn_id ?ns"
            using pt(1) by (simp add: map_update list_update_same_conv)
          fix j assume "j < length (hi_id ?hi)" "hn_id (hi_id ?hi ! j) = - 1"
          then show "hn_next (hi_id ?hi ! j) = None"
            using chain_free [OF C, of j] pt by (cases "j = p") simp_all
        next
          fix h' assume h': "h' < length (hi_hash ?hi)"
          show "lpath (hn_nxt (hi_id ?hi)) (hi_hash ?hi ! h') (filter (\<lambda>j. j \<noteq> t) (C h'))"
          proof (cases "h' = ?h")
            case True
            have "distinct (us @ p # t # vs)" using dist l by simp
            then have "\<forall>x\<in>set us. x \<noteq> t" "\<forall>x\<in>set vs. x \<noteq> t" "p \<noteq> t" by auto
            then have "filter (\<lambda>j. j \<noteq> t) (us @ p # t # vs) = us @ p # vs" by (simp add: filter_True)
            moreover have "lpath ((hn_nxt ?ns)(p := hn_nxt ?ns t)) (hi_hash hi ! ?h) (us @ p # vs)"
              by (rule lpath_unlink) (use path Cl in simp)
            moreover have "hn_nxt ?ns t = hn_next ?n" using pt by (simp add: hn_nxt_def)
            ultimately show ?thesis using True Cl pt(1) by simp
          next
            case False
            have n: "x \<notin> set (C h')" if "x \<in> set (C ?h)" for x
              using chain_other [OF C h _ that False [symmetric]] h' by simp
            have "t \<notin> set (C h')" "p \<notin> set (C h')" using n Cl by simp_all
            moreover from this have "filter (\<lambda>j. j \<noteq> t) (C h') = C h'" by (auto simp: filter_id_conv)
            ultimately show ?thesis using chain_lpath [OF C, of h'] h' pt(1) by simp
          qed
        qed (use s in \<open>simp_all add: hi_shape_def\<close>)
        then show ?thesis unfolding e r k by simp
      qed
    qed
  qed
qed


subsubsection \<open>Insertion\<close>

lemma smod_nonneg: "0 \<le> a \<Longrightarrow> 0 < b \<Longrightarrow> a smod b = a mod (b :: int)"
  by (cases "a = 0") (simp_all add: smod_int_alt_def)

text \<open>
  The scan looks at the slots from the one of the id on, as long as the sum of the id and the round is an
  \<open>int\<close>. It fails if each of these slots is in use.
\<close>

definition scan_blocked :: "hashid \<Rightarrow> i32 \<Rightarrow> bool" where
  "scan_blocked hi k \<longleftrightarrow>
     (\<forall>i < hi_cap hi. int i + sint k < 2 ^ 31 \<longrightarrow> hn_id (hi_id hi ! ((i + nat (sint k)) mod hi_cap hi)) \<noteq> - 1)"

lemma insert_scan_ok:
  "hi_shape hi \<Longrightarrow> 0 \<le> sint k \<Longrightarrow>
   (\<exists>j. i \<le> j \<and> j < i + n \<and> int j + sint k < 2 ^ 31 \<and> (let c = (j + nat (sint k)) mod hi_cap hi in
      insert_scan n (int i) hi k = Some (Some c) \<and> hn_id (hi_id hi ! c) = - 1)) \<or>
   (insert_scan n (int i) hi k = Some None \<or> insert_scan n (int i) hi k = None) \<and>
     (\<forall>j. i \<le> j \<and> j < i + n \<and> int j + sint k < 2 ^ 31 \<longrightarrow> hn_id (hi_id hi ! ((j + nat (sint k)) mod hi_cap hi)) \<noteq> - 1)"
proof (induction n arbitrary: i)
  case (Suc n)
  let ?c = "(i + nat (sint k)) mod hi_cap hi"
  have cap: "0 < hi_cap hi" and len: "length (hi_id hi) = hi_cap hi" using Suc.prems(1) by (simp_all add: hi_shape_def)
  show ?case
  proof (cases "int i + sint k < 2 ^ 31")
    case over: False
    then have "c_int (int i + sint k) = None" by (simp add: c_int_def INT_MAX_def)
    then have "insert_scan (Suc n) (int i) hi k = None" by simp
    moreover have "\<forall>j. i \<le> j \<and> j < i + Suc n \<and> int j + sint k < 2 ^ 31 \<longrightarrow>
        hn_id (hi_id hi ! ((j + nat (sint k)) mod hi_cap hi)) \<noteq> - 1"
    proof (intro allI impI)
      fix j assume j: "i \<le> j \<and> j < i + Suc n \<and> int j + sint k < 2 ^ 31"
      then have "int i \<le> int j" by simp
      with j over have False by linarith
      then show "hn_id (hi_id hi ! ((j + nat (sint k)) mod hi_cap hi)) \<noteq> - 1" ..
    qed
    ultimately show ?thesis by (intro disjI2 conjI disjI2)
  next
    case room: True
    have ov: "c_int (int i + sint k) = Some (int i + sint k)"
      using Suc.prems(2) room by (simp add: c_int_def INT_MAX_def)
    have "int i + sint k = int (i + nat (sint k))" using Suc.prems(2) by simp
    then have m: "(int i + sint k) smod int (hi_cap hi) = int ?c"
      using cap by (simp add: smod_nonneg zmod_int del: of_nat_add)
    have c: "?c < hi_cap hi" using cap by simp
    have e: "insert_scan (Suc n) (int i) hi k =
        (if hn_id (hi_id hi ! ?c) = - 1 then Some (Some ?c) else insert_scan n (int (Suc i)) hi k)"
      using ov m c len by (simp add: Let_def add.commute)
    show ?thesis
    proof (cases "hn_id (hi_id hi ! ?c) = - 1")
      case True
      then show ?thesis using room unfolding e Let_def by (intro disjI1 exI [of _ i]) simp
    next
      case False
      have s: "insert_scan (Suc n) (int i) hi k = insert_scan n (int (Suc i)) hi k" using e False by simp
      from Suc.IH [OF Suc.prems, of "Suc i"] show ?thesis
      proof
        assume "\<exists>j. Suc i \<le> j \<and> j < Suc i + n \<and> int j + sint k < 2 ^ 31 \<and> (let c = (j + nat (sint k)) mod hi_cap hi in
          insert_scan n (int (Suc i)) hi k = Some (Some c) \<and> hn_id (hi_id hi ! c) = - 1)"
        then obtain j where "Suc i \<le> j" "j < Suc i + n" "int j + sint k < 2 ^ 31"
          "let c = (j + nat (sint k)) mod hi_cap hi in
             insert_scan n (int (Suc i)) hi k = Some (Some c) \<and> hn_id (hi_id hi ! c) = - 1" by blast
        then show ?thesis unfolding s by (intro disjI1 exI [of _ j]) simp
      next
        assume a: "(insert_scan n (int (Suc i)) hi k = Some None \<or> insert_scan n (int (Suc i)) hi k = None) \<and>
          (\<forall>j. Suc i \<le> j \<and> j < Suc i + n \<and> int j + sint k < 2 ^ 31 \<longrightarrow>
             hn_id (hi_id hi ! ((j + nat (sint k)) mod hi_cap hi)) \<noteq> - 1)"
        have "hn_id (hi_id hi ! ((j + nat (sint k)) mod hi_cap hi)) \<noteq> - 1"
          if "i \<le> j" "j < i + Suc n" "int j + sint k < 2 ^ 31" for j
          using a False that by (cases "j = i") simp_all
        then have x: "\<forall>j. i \<le> j \<and> j < i + Suc n \<and> int j + sint k < 2 ^ 31 \<longrightarrow>
            hn_id (hi_id hi ! ((j + nat (sint k)) mod hi_cap hi)) \<noteq> - 1" by blast
        show ?thesis unfolding s by (rule disjI2, rule conjI) (rule conjunct1 [OF a], rule x)
      qed
    qed
  qed
next
  case 0
  show ?case by (rule disjI2, rule conjI) auto
qed

lemma insert_scan_finds:
  assumes "hi_shape hi" and "0 \<le> sint k"
  shows "\<not> scan_blocked hi k \<Longrightarrow> \<exists>c < hi_cap hi. insert_scan (hi_cap hi) 0 hi k = Some (Some c) \<and> hn_id (hi_id hi ! c) = - 1"
    and "scan_blocked hi k \<Longrightarrow> insert_scan (hi_cap hi) 0 hi k = Some None \<or> insert_scan (hi_cap hi) 0 hi k = None"
proof -
  note s = insert_scan_ok [OF assms, of 0 "hi_cap hi"]
  have "0 < hi_cap hi" using assms(1) by (simp add: hi_shape_def)
  then show "\<exists>c < hi_cap hi. insert_scan (hi_cap hi) 0 hi k = Some (Some c) \<and> hn_id (hi_id hi ! c) = - 1" if "\<not> scan_blocked hi k"
    using that s unfolding scan_blocked_def Let_def by fastforce
  show "insert_scan (hi_cap hi) 0 hi k = Some None \<or> insert_scan (hi_cap hi) 0 hi k = None" if "scan_blocked hi k"
    using that s unfolding scan_blocked_def Let_def by fastforce
qed

lemma mod_surj:
  fixes cap :: nat
  assumes "j < cap"
  shows "\<exists>i < cap. (i + k) mod cap = j"
proof (intro exI conjI)
  let ?i = "(j + (cap - k mod cap)) mod cap"
  show "?i < cap" using assms by simp
  have k: "k mod cap \<le> cap" using assms by (simp add: less_imp_le)
  have "(?i + k) mod cap = (j + (cap - k mod cap) + k mod cap) mod cap"
    by (simp only: mod_add_left_eq mod_add_right_eq)
  also have "\<dots> = (j + cap) mod cap" using k by simp
  finally show "(?i + k) mod cap = j" using assms by simp
qed

text \<open>The nodes in use are as many as the ids.\<close>

lemma used_card:
  assumes M: "hi_map hi M"
  shows "card {i. i < length (hi_id hi) \<and> hn_id (hi_id hi ! i) \<noteq> - 1} = card (dom M)" and "finite (dom M)"
proof -
  let ?U = "{i. i < length (hi_id hi) \<and> hn_id (hi_id hi ! i) \<noteq> - 1}" and ?f = "\<lambda>i. hn_id (hi_id hi ! i)"
  have inv: "M (?f i) = Some i" if "i \<in> ?U" for i using that unfolding hi_map_iff [OF M] by simp
  have inj: "inj_on ?f ?U"
  proof (rule inj_onI)
    fix i j assume i: "i \<in> ?U" and j: "j \<in> ?U" and eq: "?f i = ?f j"
    have "Some i = M (?f j)" using inv [OF i] unfolding eq by (rule sym)
    also have "\<dots> = Some j" by (rule inv [OF j])
    finally show "i = j" by simp
  qed
  have img: "?f ` ?U = dom M"
  proof (intro equalityI subsetI)
    fix k assume "k \<in> ?f ` ?U"
    then obtain i where "i \<in> ?U" "k = ?f i" by (rule imageE)
    then show "k \<in> dom M" using inv [of i] by (simp add: domIff)
  next
    fix k assume "k \<in> dom M"
    then obtain i where "M k = Some i" by blast
    then show "k \<in> ?f ` ?U" unfolding hi_map_iff [OF M] by (intro image_eqI [of _ _ i]) simp_all
  qed
  show "card ?U = card (dom M)" using card_image [OF inj] unfolding img by simp
  have "finite ?U" by simp
  then show "finite (dom M)" unfolding img [symmetric] by (rule finite_imageI)
qed

lemma hi_full_iff:
  assumes "hi_holds hi M"
  shows "hashid_full hi \<longleftrightarrow> card (dom M) = hi_cap hi"
    and "card (dom M) \<le> hi_cap hi"
proof -
  show "hashid_full hi \<longleftrightarrow> card (dom M) = hi_cap hi" using assms by (simp add: hi_holds_def hashid_full_def)
  have "card {i. i < length (hi_id hi) \<and> hn_id (hi_id hi ! i) \<noteq> - 1} \<le> card {..<length (hi_id hi)}"
    by (rule card_mono) auto
  then show "card (dom M) \<le> hi_cap hi"
    using used_card(1) [of hi M] assms by (simp add: hi_holds_def hi_shape_def)
qed

lemma free_node:
  assumes "hi_holds hi M" and "\<not> hashid_full hi"
  shows "\<exists>i < hi_cap hi. hn_id (hi_id hi ! i) = - 1"
proof (rule ccontr)
  assume "\<not> ?thesis"
  then have "{i. i < length (hi_id hi) \<and> hn_id (hi_id hi ! i) \<noteq> - 1} = {..<hi_cap hi}"
    using assms(1) by (auto simp: hi_holds_def hi_shape_def)
  then show False using used_card(1) [of hi M] hi_full_iff(1) [OF assms(1)] assms by (simp add: hi_holds_def)
qed

lemma fits_not_blocked:
  assumes hi: "hi_holds hi M" and pos: "0 \<le> sint k" and fit: "sint k + int (hi_cap hi) \<le> 2 ^ 31" and room: "\<not> hashid_full hi"
  shows "\<not> scan_blocked hi k"
proof -
  from free_node [OF hi room] obtain f where f: "f < hi_cap hi" "hn_id (hi_id hi ! f) = - 1" by blast
  from mod_surj [OF f(1)] obtain j where j: "j < hi_cap hi" "(j + nat (sint k)) mod hi_cap hi = f" by blast
  moreover have "int j + sint k < 2 ^ 31" using fit j(1) by linarith
  ultimately show ?thesis using f(2) unfolding scan_blocked_def by blast
qed

lemma hashid_insert_blocked:
  assumes "hi_holds hi M" and "0 \<le> sint k" and "scan_blocked hi k"
  shows "hashid_insert hi k = None"
  using insert_scan_finds(2) [of hi k] assms by (auto simp: hi_holds_def hashid_insert_def)

lemma hashid_insert_ok:
  assumes hi: "hi_holds hi M" and k: "M k = None" and pos: "0 \<le> sint k" and free: "\<not> scan_blocked hi k"
  shows "\<exists>i hi'. hashid_insert hi k = Some (i, hi') \<and> i < hi_cap hi \<and> i \<notin> ran M \<and>
    hi_holds hi' (M(k \<mapsto> i)) \<and> hi_cap hi' = hi_cap hi"
proof -
  obtain C where C: "hi_chains hi C" and M: "hi_map hi M" and s: "hi_shape hi" and cnt: "hi_count hi = int (card (dom M))"
    using hi by (auto simp: hi_holds_def)
  let ?ns = "hi_id hi" and ?h = "bucket hi k"
  note h = bucket_less [OF s, of k]
  have len: "length ?ns = hi_cap hi" using s by (simp add: hi_shape_def)
  have k1: "k \<noteq> - 1" using pos by auto
  from insert_scan_finds(1) [OF s pos free] obtain c where
    c: "c < hi_cap hi" "insert_scan (hi_cap hi) 0 hi k = Some (Some c)" "hn_id (?ns ! c) = - 1" by blast
  let ?n = "\<lparr>hn_id = k, hn_next = hi_hash hi ! ?h\<rparr>"
  let ?hi = "hi\<lparr>hi_count := hi_count hi + 1, hi_id := ?ns[c := ?n], hi_hash := (hi_hash hi)[?h := Some c]\<rparr>"
  have cn: "c < length ?ns" using c(1) len by simp
  have e: "hashid_insert hi k = Some (c, ?hi)"
    using c(2) cn chain_free [OF C cn c(3)] h by (simp add: hashid_insert_def Let_def)
  have ran: "c \<notin> ran M" using c(3) by (auto simp: ran_def hi_map_iff [OF M])
  have bk: "bucket ?hi x = bucket hi x" for x by (simp add: bucket_def)
  have cC: "c \<notin> set (C x)" if "x < length (hi_hash hi)" for x
    using chain_node [OF C that, of c] c(3) by auto
  have "hi_map ?hi (M(k \<mapsto> c))"
    unfolding hi_map_def
  proof (intro allI)
    fix x i
    show "(M(k \<mapsto> c)) x = Some i \<longleftrightarrow> x \<noteq> - 1 \<and> i < length (hi_id ?hi) \<and> hn_id (hi_id ?hi ! i) = x"
    proof (cases "i = c")
      case True
      have "M x \<noteq> Some c" using ran by (auto simp: ran_def)
      then show ?thesis using True cn k1 by auto
    next
      case False
      have "x \<noteq> k" if "M x = Some i" using that k by auto
      moreover have "\<not> (i < length ?ns \<and> hn_id (?ns ! i) = k)"
        using k k1 hi_map_iff [OF M, of k i] by auto
      ultimately show ?thesis using False hi_map_iff [OF M, of x i] by auto
    qed
  qed
  moreover have "hi_chains ?hi (C(?h := c # C ?h))"
    unfolding hi_chains_def
  proof (intro conjI allI impI ballI)
    fix x assume x: "x < length (hi_hash ?hi)"
    then have x': "x < length (hi_hash hi)" by simp
    show "lpath (hn_nxt (hi_id ?hi)) (hi_hash ?hi ! x) ((C(?h := c # C ?h)) x)"
      using chain_lpath [OF C x'] cC [OF x'] cC [OF h] cn h by (cases "x = ?h") simp_all
    fix i assume i: "i \<in> set ((C(?h := c # C ?h)) x)"
    have "i = c \<and> x = ?h \<or> i \<noteq> c \<and> i \<in> set (C x)" using i cC [OF x'] by (auto split: if_splits)
    then show "i < length (hi_id ?hi)" "hn_id (hi_id ?hi ! i) \<noteq> - 1" "bucket ?hi (hn_id (hi_id ?hi ! i)) = x"
      using cn k1 chain_node [OF C x', of i] by (auto simp: bk)
  next
    fix i assume i: "i < length (hi_id ?hi)"
    show "if hn_id (hi_id ?hi ! i) = - 1 then hn_next (hi_id ?hi ! i) = None
      else i \<in> set ((C(?h := c # C ?h)) (bucket ?hi (hn_id (hi_id ?hi ! i))))"
      using i k1 cn chain_in [OF C, of i] chain_free [OF C, of i]
      by (cases "i = c") (auto simp: bk)
  qed
  moreover have "hi_shape ?hi" using s by (simp add: hi_shape_def)
  moreover have "hi_count ?hi = int (card (dom (M(k \<mapsto> c))))"
    using cnt k used_card(2) [OF M] by (simp add: domIff)
  ultimately have "hi_holds ?hi (M(k \<mapsto> c))" by (auto simp: hi_holds_def)
  then show ?thesis using e c(1) ran by auto
qed

subsection \<open>The contract\<close>

definition id_fits :: "nat \<Rightarrow> i32 \<Rightarrow> bool" where
  "id_fits cap k \<longleftrightarrow> 0 \<le> sint k \<and> sint k + int cap \<le> 2 ^ 31"

interpretation hid: idtable hi_holds hashid_lookup hashid_remove hashid_insert hashid_full hi_cap id_fits
proof unfold_locales
  fix h M k
  show "hi_holds h M \<Longrightarrow> hashid_lookup h k = Some (M k)" by (rule hashid_lookup_ok)
  show "hi_holds h M \<Longrightarrow> \<exists>h'. hashid_remove h k = Some (M k, h') \<and> hi_holds h' (M(k := None)) \<and> hi_cap h' = hi_cap h"
    by (rule hashid_remove_ok)
  show "hi_holds h M \<Longrightarrow> M k = None \<Longrightarrow> id_fits (hi_cap h) k \<Longrightarrow> \<not> hashid_full h \<Longrightarrow>
    \<exists>i h'. hashid_insert h k = Some (i, h') \<and> i < hi_cap h \<and> i \<notin> ran M \<and> hi_holds h' (M(k \<mapsto> i)) \<and> hi_cap h' = hi_cap h"
    unfolding id_fits_def by (intro hashid_insert_ok fits_not_blocked) simp_all
  show "hi_holds h M \<Longrightarrow> hashid_full h = (card (dom M) = hi_cap h)" by (rule hi_full_iff)
  show "hi_holds h M \<Longrightarrow> card (dom M) \<le> hi_cap h" by (rule hi_full_iff)
qed

text \<open>
  Property C19. The table of the gate's connections: from \<open>hashid_init\<close> on, any history of lookups,
  removals and insertions of ids that are not in it runs without an access out of an array or a failed
  assertion, and its answers are those of a finite map that gives each id a slot of its own; an insertion
  is refused only when all slots are taken.
\<close>

theorem hashid_refines:
  assumes "0 < limit" and "limit \<le> 2 ^ 30" and "legal_ops id_fits (nat limit) ops {}"
  shows "\<exists>hi rs hi' M. hashid_init limit = Some hi \<and> hid.run ops hi = Some (rs, hi') \<and>
    replay (nat limit) ops rs (\<lambda>_. None) = Some M \<and> hi_holds hi' M"
proof -
  from hashid_init_holds [OF assms(1,2)] obtain hi where
    hi: "hashid_init limit = Some hi" "hi_holds hi (\<lambda>_. None)" "hi_cap hi = nat limit" by blast
  have "legal_ops id_fits (hi_cap hi) ops (dom (\<lambda>_. None))" using assms(3) hi(3) by simp
  from hid.run_replays [OF hi(2) this] hi show ?thesis by auto
qed

definition demo_ids :: "i32 idop list" where
  "demo_ids = [IdInsert 3, IdInsert 5, IdInsert 7, IdLookup 5, IdRemove 3, IdLookup 3, IdInsert 7, IdLookup 7]"

theorem hashid_refines_witness:
  "\<exists>hi rs hi' M. hashid_init 2 = Some hi \<and> hid.run demo_ids hi = Some (rs, hi') \<and>
    replay 2 demo_ids rs (\<lambda>_. None) = Some M \<and> hi_holds hi' M"
proof -
  have "legal_ops id_fits (nat 2) demo_ids {}"
    by (simp add: demo_ids_def id_fits_def)
  from hashid_refines [OF _ _ this] show ?thesis by simp
qed

lemma hashcap_loop_overflow:
  "k \<le> 30 \<Longrightarrow> 2 ^ 30 < limit \<Longrightarrow> hashcap_loop (2 ^ k) limit = None"
proof (induction "30 - k" arbitrary: k rule: less_induct)
  case less
  have le: "(2 :: int) ^ k \<le> 2 ^ 30" using less.prems(1) by (intro power_increasing) simp_all
  then have lt: "(2 :: int) ^ k < limit" using less.prems(2) by linarith
  show ?case
  proof (cases "k = 30")
    case True
    then have "c_int (2 ^ k * 2) = None" by (simp add: c_int_def INT_MAX_def)
    then show ?thesis using lt by (subst hashcap_loop.simps) simp
  next
    case False
    then have k: "Suc k \<le> 30" using less.prems(1) by simp
    have "30 - Suc k < 30 - k" using k by simp
    from less.hyps [OF this k less.prems(2)] have n: "hashcap_loop (2 ^ k * 2) limit = None"
      by (simp add: mult.commute)
    then show ?thesis using lt by (subst hashcap_loop.simps) (auto simp: c_int_def)
  qed
qed

text \<open>
  The loop that sizes the hash stops for every limit up to \<open>2 ^ 30\<close>, and for no greater one:
  there the capacity would have to be \<open>2 ^ 31\<close>, which is not an \<open>int\<close>.
\<close>

theorem hashid_init_returns: "hashid_init limit \<noteq> None \<longleftrightarrow> limit \<le> 2 ^ 30"
proof (cases "limit \<le> 2 ^ 30")
  case True
  from hashcap_loop_ok [of 4 limit] True show ?thesis by (auto simp: hashid_init_def)
next
  case False
  then have "hashcap_loop (2 ^ 4) limit = None" by (intro hashcap_loop_overflow) simp_all
  then show ?thesis using False by (simp add: hashid_init_def)
qed

text \<open>
  The scan of \<open>hashid_insert\<close> adds its round to the id before it reduces it: for an id at the
  top of the range of \<open>int\<close> the sum overflows although a slot is free. (The socket layer hands out ids up
  to \<open>2 ^ 31 - 1\<close>.)
\<close>

theorem hashid_insert_overflows:
  "\<exists>hi M. hi_holds hi M \<and> \<not> hashid_full hi \<and> M 0x7fffffff = None \<and> hashid_insert hi 0x7fffffff = None"
proof -
  from hashid_init_holds [of 2] obtain hi where
    hi: "hashid_init 2 = Some hi" "hi_holds hi (\<lambda>_. None)" "hi_cap hi = 2" by auto
  have f: "id_fits (hi_cap hi) 1" by (simp add: id_fits_def hi(3))
  have nf: "\<not> hashid_full hi" using hi_full_iff(1) [OF hi(2)] hi(3) by simp
  from hid.insert_ok [OF hi(2) refl f nf] obtain i hi1 where
    i: "hashid_insert hi 1 = Some (i, hi1)" "hi_holds hi1 ((\<lambda>_. None)(1 \<mapsto> i))" "hi_cap hi1 = 2"
    unfolding hi(3) by blast
  have nf1: "\<not> hashid_full hi1" using hi_full_iff(1) [OF i(2)] i(3) by simp
  have "hn_id (hi_id hi ! 1) = - 1"
    using hi(2,3) hi_map_iff [of hi "\<lambda>_. None" "hn_id (hi_id hi ! 1)" 1]
    by (auto simp: hi_holds_def hi_shape_def)
  then have "insert_scan (hi_cap hi) 0 hi 1 = Some (Some 1)"
    using hi(2,3) by (simp add: hi_holds_def hi_shape_def numeral_2_eq_2 c_int_def INT_MAX_def smod_nonneg)
  then have i1: "i = 1" using i(1) by (auto simp: hashid_insert_def Let_def split: bind_splits)
  have "hn_id (hi_id hi1 ! 1) = 1" "length (hi_id hi1) = 2"
    using i(2,3) hi_map_iff [of hi1 "(\<lambda>_. None)(1 \<mapsto> i)" 1 1] by (simp_all add: hi_holds_def hi_shape_def i1)
  then have "insert_scan (hi_cap hi1) 0 hi1 0x7fffffff = None"
    using i(3) by (simp add: numeral_2_eq_2 c_int_def INT_MAX_def smod_nonneg)
  then have "hashid_insert hi1 0x7fffffff = None" by (simp add: hashid_insert_def)
  with i(2) nf1 show ?thesis by (intro exI [of _ hi1] exI [of _ "(\<lambda>_. None)(1 \<mapsto> i)"]) simp
qed

end
