(* ===== verification/Databuffer.thy ===== *)
theory Databuffer
  imports Interfaces LinkedList
begin

section \<open>The receive buffer of a connection (service-src/databuffer.h)\<close>

text \<open>
  A connection keeps the segments it received in a linked list of \<open>struct message\<close>, taken from a
  pool the connections share, and reads a length header, then that many bytes, out of them. The
  messages live in a store from addresses; the pool's free list runs through their \<open>next\<close> fields.
  \<open>skynet_malloc\<close> of a new pool hands out the next \<open>MESSAGEPOOL\<close> addresses. A segment's bytes are in the
  message that points to them: the buffer was handed over by the socket layer and nobody else has it. The sizes
  are natural numbers here and ints in the source: a buffer holds less than 2^31 bytes.

  The theorems: the buffer refines a byte stream, however it was cut into segments; reading never
  leaves a segment; every message is in exactly one list.
\<close>

subsection \<open>The model\<close>

definition MESSAGEPOOL :: nat where "MESSAGEPOOL = 1023"

record message =
  m_buffer :: "u8 list option"
  m_size :: nat
  m_next :: ptr

record databuffer =
  db_header :: int
  db_offset :: nat
  db_size :: nat
  db_head :: ptr
  db_tail :: ptr

text \<open>The messages of all pools, the free list, the list of pools (the first address of each), and the
  next address of the allocator.\<close>

record messagepool =
  mp_msgs :: "addr \<Rightarrow> message option"
  mp_freelist :: ptr
  mp_pool :: "addr list"
  mp_brk :: addr

definition messagepool_init :: messagepool where
  "messagepool_init = \<lparr>mp_msgs = (\<lambda>_. None), mp_freelist = None, mp_pool = [], mp_brk = 0\<rparr>"

definition databuffer_init :: databuffer where
  "databuffer_init = \<lparr>db_header = 0, db_offset = 0, db_size = 0, db_head = None, db_tail = None\<rparr>"

definition messagepool_free :: "messagepool \<Rightarrow> messagepool" where
  "messagepool_free mp = mp\<lparr>mp_msgs := (\<lambda>_. None), mp_freelist := None, mp_pool := []\<rparr>"

definition return_message :: "databuffer \<Rightarrow> messagepool \<Rightarrow> (databuffer \<times> messagepool) option" where
  "return_message db mp = do {
     a \<leftarrow> db_head db;
     m \<leftarrow> mp_msgs mp a;
     db' \<leftarrow> (case m_next m of
               None \<Rightarrow> do { c_assert (db_tail db = Some a); Some (db\<lparr>db_head := None, db_tail := None\<rparr>) }
             | Some x \<Rightarrow> Some (db\<lparr>db_head := Some x\<rparr>));
     Some (db', mp\<lparr>mp_msgs := (mp_msgs mp)(a \<mapsto> \<lparr>m_buffer = None, m_size = 0, m_next = mp_freelist mp\<rparr>),
                   mp_freelist := Some a\<rparr>) }"

text \<open>\<open>memcpy\<close> of \<open>n\<close> bytes from \<open>off\<close> on, out of a buffer that holds them.\<close>

definition buf_slice :: "u8 list option \<Rightarrow> nat \<Rightarrow> nat \<Rightarrow> u8 list option" where
  "buf_slice b off n = do { xs \<leftarrow> b; if off + n \<le> length xs then Some (take n (drop off xs)) else None }"

text \<open>The loop of \<open>databuffer_read\<close>; \<open>out\<close> is what was copied so far. \<open>bsz\<close> is an \<open>int\<close>; it is not
  negative as long as the offset is inside the segment.\<close>

partial_function (option) read_loop ::
  "databuffer \<Rightarrow> messagepool \<Rightarrow> u8 list \<Rightarrow> nat \<Rightarrow> (u8 list \<times> databuffer \<times> messagepool) option" where
  "read_loop db mp out sz = do {
     a \<leftarrow> db_head db;
     current \<leftarrow> mp_msgs mp a;
     c_assert (db_offset db \<le> m_size current);
     let bsz = m_size current - db_offset db;
     if bsz > sz then do {
       bs \<leftarrow> buf_slice (m_buffer current) (db_offset db) sz;
       Some (out @ bs, db\<lparr>db_offset := db_offset db + sz\<rparr>, mp) }
     else if bsz = sz then do {
       bs \<leftarrow> buf_slice (m_buffer current) (db_offset db) sz;
       (db', mp') \<leftarrow> return_message (db\<lparr>db_offset := 0\<rparr>) mp;
       Some (out @ bs, db', mp') }
     else do {
       bs \<leftarrow> buf_slice (m_buffer current) (db_offset db) bsz;
       (db', mp') \<leftarrow> return_message db mp;
       read_loop (db'\<lparr>db_offset := 0\<rparr>) mp' (out @ bs) (sz - bsz) } }"

definition databuffer_read ::
  "databuffer \<Rightarrow> messagepool \<Rightarrow> nat \<Rightarrow> (u8 list \<times> databuffer \<times> messagepool) option" where
  "databuffer_read db mp sz = do {
     c_assert (db_size db \<ge> sz);
     read_loop (db\<lparr>db_size := db_size db - sz\<rparr>) mp [] sz }"

text \<open>A message off the free list, or the first of a new pool whose others become the free list.\<close>

definition pool_cell :: "addr \<Rightarrow> nat \<Rightarrow> message" where
  "pool_cell temp i =
     \<lparr>m_buffer = None, m_size = 0,
      m_next = (if i = MESSAGEPOOL - 1 then None else Some (temp + i + 1))\<rparr>"

definition new_pool :: "messagepool \<Rightarrow> messagepool" where
  "new_pool mp =
     (let temp = mp_brk mp in
      mp\<lparr>mp_msgs := (\<lambda>a. if temp \<le> a \<and> a < temp + MESSAGEPOOL then Some (pool_cell temp (a - temp)) else mp_msgs mp a),
         mp_pool := temp # mp_pool mp, mp_brk := temp + MESSAGEPOOL, mp_freelist := Some (temp + 1)\<rparr>)"

definition take_message :: "messagepool \<Rightarrow> (addr \<times> messagepool) option" where
  "take_message mp =
     (case mp_freelist mp of
        Some a \<Rightarrow> do { m \<leftarrow> mp_msgs mp a; Some (a, mp\<lparr>mp_freelist := m_next m\<rparr>) }
      | None \<Rightarrow> Some (mp_brk mp, new_pool mp))"

definition databuffer_push ::
  "databuffer \<Rightarrow> messagepool \<Rightarrow> u8 list \<Rightarrow> (databuffer \<times> messagepool) option" where
  "databuffer_push db mp bytes = do {
     (a, mp1) \<leftarrow> take_message mp;
     let mp2 = mp1\<lparr>mp_msgs := (mp_msgs mp1)(a \<mapsto>
                 \<lparr>m_buffer = Some bytes, m_size = length bytes, m_next = None\<rparr>)\<rparr>;
     let db1 = db\<lparr>db_size := db_size db + length bytes\<rparr>;
     case db_head db1 of
       None \<Rightarrow> do { c_assert (db_tail db1 = None); Some (db1\<lparr>db_head := Some a, db_tail := Some a\<rparr>, mp2) }
     | Some _ \<Rightarrow> do {
         tail \<leftarrow> db_tail db1;
         m \<leftarrow> mp_msgs mp2 tail;
         Some (db1\<lparr>db_tail := Some a\<rparr>,
               mp2\<lparr>mp_msgs := (mp_msgs mp2)(tail \<mapsto> m\<lparr>m_next := Some a\<rparr>)\<rparr>) } }"

text \<open>The length a header stands for: 2 bytes, or 4 bytes read as an \<open>int\<close>.\<close>

definition header_value :: "u8 list \<Rightarrow> int" where
  "header_value plen =
     (case plen of
        [a, b] \<Rightarrow> int (unat a * 256 + unat b)
      | _ \<Rightarrow> sint (of_int (horner_sum uint 256 (rev plen)) :: i32))"

definition databuffer_readheader ::
  "databuffer \<Rightarrow> messagepool \<Rightarrow> nat \<Rightarrow> (int \<times> databuffer \<times> messagepool) option" where
  "databuffer_readheader db mp header_size =
     (if db_header db = 0 \<and> db_size db < header_size then Some (- 1, db, mp)
      else do {
        (db1, mp1) \<leftarrow>
          (if db_header db = 0 then do {
             (plen, db', mp') \<leftarrow> databuffer_read db mp header_size;
             Some (db'\<lparr>db_header := header_value plen\<rparr>, mp') }
           else Some (db, mp));
        Some (if int (db_size db1) < db_header db1 then - 1 else db_header db1, db1, mp1) })"

definition databuffer_reset :: "databuffer \<Rightarrow> databuffer" where
  "databuffer_reset db = db\<lparr>db_header := 0\<rparr>"

partial_function (option) clear_loop ::
  "databuffer \<Rightarrow> messagepool \<Rightarrow> (databuffer \<times> messagepool) option" where
  "clear_loop db mp =
     (if db_head db \<noteq> None then do { (db', mp') \<leftarrow> return_message db mp; clear_loop db' mp' }
      else Some (db, mp))"

definition databuffer_clear ::
  "databuffer \<Rightarrow> messagepool \<Rightarrow> (databuffer \<times> messagepool) option" where
  "databuffer_clear db mp = do {
     (_, mp') \<leftarrow> clear_loop db mp;
     Some (databuffer_init, mp') }"

subsection \<open>One buffer\<close>

definition m_nxt :: "messagepool \<Rightarrow> addr \<Rightarrow> ptr" where
  "m_nxt mp a = (case mp_msgs mp a of Some m \<Rightarrow> m_next m | None \<Rightarrow> None)"

text \<open>The free list \<open>F\<close>, and the messages \<open>as\<close> of a buffer with the bytes \<open>bs\<close> that are left in it.\<close>

definition pool_ok :: "messagepool \<Rightarrow> addr list \<Rightarrow> bool" where
  "pool_ok mp F \<longleftrightarrow> lpath (m_nxt mp) (mp_freelist mp) F \<and> (\<forall>a\<in>set F. mp_msgs mp a \<noteq> None) \<and>
     (\<forall>a. mp_msgs mp a \<noteq> None \<longrightarrow> a < mp_brk mp)"

definition seg_of :: "messagepool \<Rightarrow> addr \<Rightarrow> u8 list" where
  "seg_of mp a = (case mp_msgs mp a of Some m \<Rightarrow> the (m_buffer m) | None \<Rightarrow> [])"

definition seg_ok :: "messagepool \<Rightarrow> addr \<Rightarrow> bool" where
  "seg_ok mp a \<longleftrightarrow> (\<exists>m. mp_msgs mp a = Some m \<and> m_buffer m = Some (seg_of mp a) \<and> m_size m = length (seg_of mp a))"

definition db_path :: "messagepool \<Rightarrow> databuffer \<Rightarrow> addr list \<Rightarrow> bool" where
  "db_path mp db as \<longleftrightarrow> lpath (m_nxt mp) (db_head db) as \<and>
     db_tail db = (if as = [] then None else Some (last as)) \<and> (\<forall>a\<in>set as. seg_ok mp a)"

definition db_list :: "messagepool \<Rightarrow> databuffer \<Rightarrow> addr list \<Rightarrow> bool" where
  "db_list mp db as \<longleftrightarrow> db_path mp db as \<and>
     db_offset db \<le> (if as = [] then 0 else length (seg_of mp (hd as)))"

definition db_bytes :: "messagepool \<Rightarrow> databuffer \<Rightarrow> addr list \<Rightarrow> u8 list" where
  "db_bytes mp db as = drop (db_offset db) (concat (map (seg_of mp) as))"

definition db_holds :: "messagepool \<Rightarrow> databuffer \<Rightarrow> addr list \<Rightarrow> u8 list \<Rightarrow> bool" where
  "db_holds mp db as bs \<longleftrightarrow> db_list mp db as \<and> db_bytes mp db as = bs \<and> db_size db = length bs"

text \<open>A store that agrees on the messages of a buffer.\<close>

lemma seg_cong:
  "mp_msgs mp' a = mp_msgs mp a \<Longrightarrow> seg_of mp' a = seg_of mp a \<and> seg_ok mp' a = seg_ok mp a \<and> m_nxt mp' a = m_nxt mp a"
  by (simp add: seg_of_def seg_ok_def m_nxt_def)

lemma db_list_cong:
  assumes "\<And>a. a \<in> set as \<Longrightarrow> mp_msgs mp' a = mp_msgs mp a"
  shows "db_list mp' db as \<longleftrightarrow> db_list mp db as" and "db_bytes mp' db as = db_bytes mp db as"
proof -
  have c: "seg_of mp' a = seg_of mp a" "seg_ok mp' a = seg_ok mp a" "m_nxt mp' a = m_nxt mp a" if "a \<in> set as" for a
    using seg_cong [OF assms [OF that]] by simp_all
  have "lpath (m_nxt mp') (db_head db) as \<longleftrightarrow> lpath (m_nxt mp) (db_head db) as"
    by (rule lpath_cong) (rule c)
  moreover have "seg_of mp' (hd as) = seg_of mp (hd as)" if "as \<noteq> []" using c(1) [of "hd as"] that by simp
  ultimately show "db_list mp' db as \<longleftrightarrow> db_list mp db as"
    using c(2) by (simp add: db_list_def db_path_def)
  have "map (seg_of mp') as = map (seg_of mp) as" using c(1) by simp
  then show "db_bytes mp' db as = db_bytes mp db as" by (simp only: db_bytes_def)
qed

lemma db_holds_cong:
  "(\<And>a. a \<in> set as \<Longrightarrow> mp_msgs mp' a = mp_msgs mp a) \<Longrightarrow> db_holds mp' db as bs \<longleftrightarrow> db_holds mp db as bs"
  using db_list_cong [of as mp' mp db] by (simp add: db_holds_def)

lemma m_nxt_upd [simp]: "m_nxt (mp\<lparr>mp_msgs := f(a \<mapsto> m)\<rparr>) = (m_nxt (mp\<lparr>mp_msgs := f\<rparr>))(a := m_next m)"
  by (auto simp: m_nxt_def fun_eq_iff)

lemma m_nxt_fields [simp]: "m_nxt (mp\<lparr>mp_freelist := p\<rparr>) = m_nxt mp"
  by (auto simp: m_nxt_def fun_eq_iff)

subsubsection \<open>Giving a message back\<close>

lemma return_message_ok:
  assumes P: "pool_ok mp F" and D: "db_path mp db (a # as)"
    and disj: "a \<notin> set F" "set as \<inter> set F = {}"
  shows "\<exists>db' mp'. return_message db mp = Some (db', mp') \<and> pool_ok mp' (a # F) \<and>
    db' = db\<lparr>db_head := (if as = [] then None else Some (hd as)), db_tail := (if as = [] then None else db_tail db)\<rparr> \<and>
    lpath (m_nxt mp') (db_head db') as \<and> db_path mp' db' as \<and>
    (\<forall>x. x \<noteq> a \<longrightarrow> mp_msgs mp' x = mp_msgs mp x) \<and> mp_brk mp' = mp_brk mp"
proof -
  obtain m where m: "mp_msgs mp a = Some m" using D by (auto simp: db_path_def seg_ok_def)
  have h: "db_head db = Some a" and l: "lpath (m_nxt mp) (m_next m) as" and t: "db_tail db = Some (last (a # as))"
    using D m by (simp_all add: db_path_def m_nxt_def)
  have ad: "a \<notin> set as"
    using lpath_distinct [of "m_nxt mp" "db_head db" "a # as"] D by (simp add: db_path_def)
  let ?mp = "mp\<lparr>mp_msgs := (mp_msgs mp)(a \<mapsto> \<lparr>m_buffer = None, m_size = 0, m_next = mp_freelist mp\<rparr>), mp_freelist := Some a\<rparr>"
  let ?db = "db\<lparr>db_head := (if as = [] then None else Some (hd as)), db_tail := (if as = [] then None else db_tail db)\<rparr>"
  have nx: "m_next m = (if as = [] then None else Some (hd as))" using l by (cases as) auto
  have r: "return_message db mp = Some (?db, ?mp)"
    using h m nx t by (cases as) (simp_all add: return_message_def)
  have "pool_ok ?mp (a # F)"
    using P m disj(1) by (auto simp: pool_ok_def)
  moreover have p: "lpath (m_nxt ?mp) (db_head ?db) as"
    using l ad nx by (cases as) simp_all
  moreover have "db_path ?mp ?db as"
    unfolding db_path_def
  proof (intro conjI ballI)
    fix x assume x: "x \<in> set as"
    then have "x \<noteq> a" using ad by auto
    then have "mp_msgs ?mp x = mp_msgs mp x" by simp
    from seg_cong [OF this] have "seg_ok ?mp x \<longleftrightarrow> seg_ok mp x" by blast
    then show "seg_ok ?mp x" using D x by (simp add: db_path_def)
  qed (use p D t in \<open>simp_all add: db_path_def\<close>)
  ultimately show ?thesis using r by auto
qed


lemma db_list_returned:
  assumes D: "db_list mp db (a # as)" and l: "lpath (m_nxt mp') p as"
    and fr: "\<forall>x. x \<noteq> a \<longrightarrow> mp_msgs mp' x = mp_msgs mp x"
    and db': "db_head db' = p" "db_tail db' = (if as = [] then None else db_tail db)" "db_offset db' = 0"
  shows "db_list mp' db' as" and "db_bytes mp' db' as = concat (map (seg_of mp) as)"
proof -
  have ad: "a \<notin> set as"
    using lpath_distinct [of "m_nxt mp" "db_head db" "a # as"] D by (simp add: db_list_def db_path_def)
  have c: "seg_of mp' x = seg_of mp x" "seg_ok mp' x = seg_ok mp x" if "x \<in> set as" for x
  proof -
    have "x \<noteq> a" using ad that by auto
    then have "mp_msgs mp' x = mp_msgs mp x" using fr by simp
    from seg_cong [OF this] show "seg_of mp' x = seg_of mp x" "seg_ok mp' x = seg_ok mp x" by simp_all
  qed
  show "db_list mp' db' as" using D l db' c by (auto simp: db_list_def db_path_def)
  have "map (seg_of mp') as = map (seg_of mp) as" using c by simp
  then show "db_bytes mp' db' as = concat (map (seg_of mp) as)" by (simp only: db_bytes_def db'(3) drop_0)
qed

text \<open>What a read leaves, besides the bytes: the messages are still each in one list, and nothing else
  changed.\<close>

definition read_post ::
  "databuffer \<Rightarrow> messagepool \<Rightarrow> addr list \<Rightarrow> addr list \<Rightarrow> nat \<Rightarrow> databuffer \<Rightarrow> messagepool \<Rightarrow> bool" where
  "read_post db mp as F sz db' mp' \<longleftrightarrow>
     (\<exists>as' F'. pool_ok mp' F' \<and> db_list mp' db' as' \<and> db_bytes mp' db' as' = drop sz (db_bytes mp db as) \<and>
        set as' \<union> set F' = set as \<union> set F \<and> set as' \<inter> set F' = {}) \<and>
     (\<forall>x. x \<notin> set as \<longrightarrow> mp_msgs mp' x = mp_msgs mp x) \<and>
     db_header db' = db_header db \<and> db_size db' = db_size db \<and> mp_brk mp' = mp_brk mp"

lemma read_loop_ok:
  "pool_ok mp F \<Longrightarrow> db_list mp db as \<Longrightarrow> set as \<inter> set F = {} \<Longrightarrow>
   0 < sz \<Longrightarrow> sz \<le> length (db_bytes mp db as) \<Longrightarrow>
   \<exists>db' mp'. read_loop db mp out sz = Some (out @ take sz (db_bytes mp db as), db', mp') \<and>
     read_post db mp as F sz db' mp'"
proof (induction as arbitrary: mp F db sz out)
  case Nil
  then show ?case by (simp add: db_bytes_def)
next
  case (Cons a as)
  note P = Cons.prems(1) and D = Cons.prems(2) and dis = Cons.prems(3)
  let ?seg = "seg_of mp a" and ?rest = "concat (map (seg_of mp) as)" and ?off = "db_offset db"
  have h: "db_head db = Some a" using D by (simp add: db_list_def db_path_def)
  obtain m where m: "mp_msgs mp a = Some m" "m_buffer m = Some ?seg" "m_size m = length ?seg"
    using D by (auto simp: db_list_def db_path_def seg_ok_def)
  have off: "?off \<le> length ?seg" using D by (simp add: db_list_def db_path_def)
  have bytes: "db_bytes mp db (a # as) = drop ?off ?seg @ ?rest" using off by (simp add: db_bytes_def)
  have da: "a \<notin> set F" "set as \<inter> set F = {}" using dis by simp_all
  have ad: "a \<notin> set as"
    using lpath_distinct [of "m_nxt mp" "db_head db" "a # as"] D by (simp add: db_list_def db_path_def)
  let ?bsz = "length ?seg - ?off"
  consider (less) "sz < ?bsz" | (eq) "sz = ?bsz" | (more) "?bsz < sz" by linarith
  then show ?case
  proof cases
    case less
    let ?db = "db\<lparr>db_offset := ?off + sz\<rparr>"
    have "read_loop db mp out sz = Some (out @ take sz (db_bytes mp db (a # as)), ?db, mp)"
      using less off h m by (subst read_loop.simps) (simp add: bytes buf_slice_def Let_def)
    moreover have "db_list mp ?db (a # as)" using D less off by (simp add: db_list_def db_path_def)
    moreover have "db_bytes mp ?db (a # as) = drop sz (db_bytes mp db (a # as))"
      using less off by (simp add: db_bytes_def add.commute [of sz])
    ultimately show ?thesis using P dis unfolding read_post_def by fastforce
  next
    case eq
    let ?db = "db\<lparr>db_offset := 0\<rparr>"
    have D0: "db_list mp ?db (a # as)" using D by (simp add: db_list_def db_path_def)
    from return_message_ok [OF P _ da, of ?db] D0 obtain db' mp' where
      r: "return_message ?db mp = Some (db', mp')" "pool_ok mp' (a # F)" "lpath (m_nxt mp') (db_head db') as"
        "\<forall>x. x \<noteq> a \<longrightarrow> mp_msgs mp' x = mp_msgs mp x" "mp_brk mp' = mp_brk mp"
      and db': "db' = ?db\<lparr>db_head := (if as = [] then None else Some (hd as)), db_tail := (if as = [] then None else db_tail ?db)\<rparr>"
      unfolding db_list_def by blast
    have f: "db_tail db' = (if as = [] then None else db_tail ?db)" "db_offset db' = 0"
      "db_header db' = db_header db" "db_size db' = db_size db" unfolding db' by simp_all
    note l = db_list_returned [OF D0 r(3,4) refl f(1,2)]
    have "read_loop db mp out sz = Some (out @ take sz (db_bytes mp db (a # as)), db', mp')"
      using eq off h m r(1) by (subst read_loop.simps) (simp add: bytes buf_slice_def Let_def)
    moreover have "read_post db mp (a # as) F sz db' mp'"
      unfolding read_post_def
    proof (intro conjI exI)
      show "db_bytes mp' db' as = drop sz (db_bytes mp db (a # as))" unfolding l(2) bytes using eq off by simp
      show "set as \<union> set (a # F) = set (a # as) \<union> set F" by auto
      show "set as \<inter> set (a # F) = {}" using da ad by auto
    qed (use l(1) r f in \<open>simp_all\<close>)
    ultimately show ?thesis by blast
  next
    case more
    from return_message_ok [OF P _ da, of db] D obtain db1 mp1 where
      r: "return_message db mp = Some (db1, mp1)" "pool_ok mp1 (a # F)" "lpath (m_nxt mp1) (db_head db1) as"
        "\<forall>x. x \<noteq> a \<longrightarrow> mp_msgs mp1 x = mp_msgs mp x" "mp_brk mp1 = mp_brk mp"
      and db1: "db1 = db\<lparr>db_head := (if as = [] then None else Some (hd as)), db_tail := (if as = [] then None else db_tail db)\<rparr>"
      unfolding db_list_def by blast
    let ?db = "db1\<lparr>db_offset := 0\<rparr>"
    have f: "db_head ?db = db_head db1" "db_tail ?db = (if as = [] then None else db_tail db)" "db_offset ?db = 0"
      "db_header ?db = db_header db" "db_size ?db = db_size db" unfolding db1 by simp_all
    note l = db_list_returned [OF D r(3,4) f(1-3)]
    have d1: "set as \<inter> set (a # F) = {}" using da ad by auto
    have s: "0 < sz - ?bsz" "sz - ?bsz \<le> length (db_bytes mp1 ?db as)"
      using more Cons.prems(5) off unfolding bytes l(2) by simp_all
    from Cons.IH [OF r(2) l(1) d1 s, of "out @ drop ?off ?seg"] obtain db' mp' where
      i: "read_loop ?db mp1 (out @ drop ?off ?seg) (sz - ?bsz) =
          Some ((out @ drop ?off ?seg) @ take (sz - ?bsz) (db_bytes mp1 ?db as), db', mp')"
        "read_post ?db mp1 as (a # F) (sz - ?bsz) db' mp'" by blast
    have "read_loop db mp out sz = read_loop ?db mp1 (out @ drop ?off ?seg) (sz - ?bsz)"
      using more off h m r(1) by (subst read_loop.simps) (simp add: buf_slice_def Let_def)
    moreover have "(out @ drop ?off ?seg) @ take (sz - ?bsz) (db_bytes mp1 ?db as) = out @ take sz (db_bytes mp db (a # as))"
      using more off unfolding bytes l(2) by simp
    moreover have "read_post db mp (a # as) F sz db' mp'"
    proof -
      from i(2) obtain as' F' where p: "pool_ok mp' F'" "db_list mp' db' as'"
        "db_bytes mp' db' as' = drop (sz - ?bsz) (db_bytes mp1 ?db as)"
        "set as' \<union> set F' = set as \<union> set (a # F)" "set as' \<inter> set F' = {}"
        and fr: "\<forall>x. x \<notin> set as \<longrightarrow> mp_msgs mp' x = mp_msgs mp1 x"
        and g: "db_header db' = db_header ?db" "db_size db' = db_size ?db" "mp_brk mp' = mp_brk mp1"
        unfolding read_post_def by blast
      have "db_bytes mp' db' as' = drop sz (db_bytes mp db (a # as))"
        unfolding p(3) l(2) bytes using more off by simp
      moreover have "set as' \<union> set F' = set (a # as) \<union> set F" using p(4) by auto
      moreover have "\<forall>x. x \<notin> set (a # as) \<longrightarrow> mp_msgs mp' x = mp_msgs mp x" using fr r(4) by simp
      ultimately show ?thesis using p(1,2,5) g f(4,5) r(5) unfolding read_post_def by auto
    qed
    ultimately show ?thesis using i(1) by auto
  qed
qed

lemma databuffer_read_ok:
  assumes "pool_ok mp F" and "db_holds mp db as bs" and "set as \<inter> set F = {}"
    and "0 < sz" and "sz \<le> length bs"
  shows "\<exists>db' mp' as' F'. databuffer_read db mp sz = Some (take sz bs, db', mp') \<and>
    pool_ok mp' F' \<and> db_holds mp' db' as' (drop sz bs) \<and>
    set as' \<union> set F' = set as \<union> set F \<and> set as' \<inter> set F' = {} \<and>
    (\<forall>x. x \<notin> set as \<longrightarrow> mp_msgs mp' x = mp_msgs mp x) \<and>
    db_header db' = db_header db \<and> mp_brk mp' = mp_brk mp"
proof -
  let ?db = "db\<lparr>db_size := db_size db - sz\<rparr>"
  have b: "db_bytes mp ?db as = bs" and l: "db_list mp ?db as" and n: "db_size db = length bs"
    using assms(2) by (simp_all add: db_holds_def db_list_def db_path_def db_bytes_def)
  from read_loop_ok [OF assms(1) l assms(3,4), of "[]"] assms(5) obtain db' mp' where
    r: "read_loop ?db mp [] sz = Some (take sz bs, db', mp')" "read_post ?db mp as F sz db' mp'"
    unfolding b by auto
  have "databuffer_read db mp sz = Some (take sz bs, db', mp')"
    using r(1) assms(5) n by (simp add: databuffer_read_def)
  moreover from r(2) obtain as' F' where "pool_ok mp' F'" "db_list mp' db' as'"
    "db_bytes mp' db' as' = drop sz bs" "set as' \<union> set F' = set as \<union> set F" "set as' \<inter> set F' = {}"
    "\<forall>x. x \<notin> set as \<longrightarrow> mp_msgs mp' x = mp_msgs mp x" "db_header db' = db_header db"
    "db_size db' = db_size db - sz" "mp_brk mp' = mp_brk mp"
    unfolding read_post_def b by auto
  ultimately show ?thesis
    using n by (intro exI [of _ db'] exI [of _ mp'] exI [of _ as'] exI [of _ F']) (simp add: db_holds_def)
qed


subsubsection \<open>Adding a segment\<close>

lemma lpath_upt:
  "x < e \<Longrightarrow> (\<And>i. x \<le> i \<Longrightarrow> i < e \<Longrightarrow> nxt i = (if Suc i = e then None else Some (Suc i))) \<Longrightarrow>
   lpath nxt (Some x) [x..<e]"
proof (induction "e - x" arbitrary: x)
  case (Suc d)
  show ?case
  proof (cases "Suc x = e")
    case True
    then show ?thesis using Suc.prems by (simp add: upt_conv_Cons)
  next
    case False
    then have "lpath nxt (Some (Suc x)) [Suc x..<e]" using Suc by (intro Suc.hyps) simp_all
    then show ?thesis using Suc.prems False by (simp add: upt_conv_Cons)
  qed
qed simp

lemma take_message_ok:
  assumes "pool_ok mp F"
  shows "\<exists>a mp' F'. take_message mp = Some (a, mp') \<and> pool_ok mp' F' \<and> a \<notin> set F' \<and> mp_msgs mp' a \<noteq> None \<and>
    (a \<in> set F \<or> mp_brk mp \<le> a) \<and> (\<forall>x\<in>set F'. x \<in> set F \<or> mp_brk mp \<le> x) \<and>
    (\<forall>x < mp_brk mp. mp_msgs mp' x = mp_msgs mp x)"
proof (cases "mp_freelist mp")
  case (Some a)
  then obtain F' where F: "F = a # F'" "lpath (m_nxt mp) (m_nxt mp a) F'"
    using assms by (auto simp: pool_ok_def lpath_Some)
  then obtain m where m: "mp_msgs mp a = Some m" using assms by (auto simp: pool_ok_def)
  have d: "distinct F" using assms lpath_distinct by (auto simp: pool_ok_def)
  have "take_message mp = Some (a, mp\<lparr>mp_freelist := m_next m\<rparr>)" using Some m by (simp add: take_message_def)
  moreover have "pool_ok (mp\<lparr>mp_freelist := m_next m\<rparr>) F'"
    using assms F m by (simp add: pool_ok_def m_nxt_def [of mp a])
  ultimately show ?thesis using F(1) d m by auto
next
  case None
  then have F: "F = []" using assms by (simp add: pool_ok_def)
  let ?b = "mp_brk mp"
  let ?F = "[?b + 1..<?b + MESSAGEPOOL]"
  have "lpath (m_nxt (new_pool mp)) (Some (?b + 1)) ?F"
    by (rule lpath_upt) (auto simp: m_nxt_def new_pool_def pool_cell_def MESSAGEPOOL_def Let_def)
  then have "pool_ok (new_pool mp) ?F"
    using assms by (auto simp: pool_ok_def new_pool_def MESSAGEPOOL_def Let_def split: if_splits intro: trans_less_add1)
  moreover have "take_message mp = Some (?b, new_pool mp)" using None by (simp add: take_message_def)
  ultimately show ?thesis using F by (auto simp: new_pool_def MESSAGEPOOL_def Let_def)
qed

lemma db_holds_less: "pool_ok mp F \<Longrightarrow> db_holds mp db as bs \<Longrightarrow> a \<in> set as \<Longrightarrow> a < mp_brk mp"
  by (auto simp: db_holds_def db_list_def db_path_def seg_ok_def pool_ok_def)

lemma databuffer_push_ok:
  assumes P: "pool_ok mp F" and D: "db_holds mp db as bs" and dis: "set as \<inter> set F = {}"
  shows "\<exists>db' mp' a F'. databuffer_push db mp xs = Some (db', mp') \<and> pool_ok mp' F' \<and>
    db_holds mp' db' (as @ [a]) (bs @ xs) \<and> set (as @ [a]) \<inter> set F' = {} \<and>
    (a \<in> set F \<or> mp_brk mp \<le> a) \<and> (\<forall>x\<in>set F'. x \<in> set F \<or> mp_brk mp \<le> x) \<and>
    (\<forall>x < mp_brk mp. x \<notin> set as \<union> set F \<longrightarrow> mp_msgs mp' x = mp_msgs mp x) \<and>
    db_header db' = db_header db"
proof -
  from take_message_ok [OF P] obtain a mp1 F' where
    t: "take_message mp = Some (a, mp1)" and P1: "pool_ok mp1 F'" and aF: "a \<notin> set F'" "mp_msgs mp1 a \<noteq> None"
    and src: "a \<in> set F \<or> mp_brk mp \<le> a" "\<forall>x\<in>set F'. x \<in> set F \<or> mp_brk mp \<le> x"
    and fr: "\<forall>x < mp_brk mp. mp_msgs mp1 x = mp_msgs mp x" by blast
  have less: "x < mp_brk mp" if "x \<in> set as" for x using db_holds_less [OF P D that] .
  have a_as: "a \<notin> set as" using src(1) less dis by fastforce
  have F'_as: "set as \<inter> set F' = {}" using src(2) less dis by fastforce
  let ?m = "\<lparr>m_buffer = Some xs, m_size = length xs, m_next = None\<rparr>"
  let ?mp2 = "mp1\<lparr>mp_msgs := (mp_msgs mp1)(a \<mapsto> ?m)\<rparr>"
  have P2: "pool_ok ?mp2 F'" using P1 aF by (auto simp: pool_ok_def)
  have s2: "seg_of ?mp2 a = xs" "seg_ok ?mp2 a" by (simp_all add: seg_of_def seg_ok_def)
  have D2: "db_holds ?mp2 db as bs"
    using D fr less a_as by (subst db_holds_cong [of as ?mp2 mp]) auto
  then have l: "db_list ?mp2 db as" and b: "db_bytes ?mp2 db as = bs" and n: "db_size db = length bs"
    by (simp_all add: db_holds_def)
  show ?thesis
  proof (cases "as = []")
    case True
    let ?db = "db\<lparr>db_size := db_size db + length xs, db_head := Some a, db_tail := Some a\<rparr>"
    have e: "db_head db = None" "db_tail db = None" "db_offset db = 0" "bs = []"
      using l b True by (auto simp: db_list_def db_path_def db_bytes_def)
    have "databuffer_push db mp xs = Some (?db, ?mp2)"
      using t e by (simp add: databuffer_push_def Let_def)
    moreover have "db_holds ?mp2 ?db [a] xs"
      using e s2 n by (simp add: db_holds_def db_list_def db_path_def db_bytes_def)
    moreover have "db_header ?db = db_header db" by simp
    moreover have "set [a] \<inter> set F' = {}" "\<forall>x < mp_brk mp. x \<notin> set as \<union> set F \<longrightarrow> mp_msgs ?mp2 x = mp_msgs mp x"
      using aF fr src(1) by auto
    ultimately show ?thesis unfolding True e(4) append_Nil using P2 src by blast
  next
    case False
    let ?t = "last as"
    let ?db = "db\<lparr>db_size := db_size db + length xs, db_tail := Some a\<rparr>"
    obtain as' where as: "as = as' @ [?t]" using False append_butlast_last_id by metis
    have t_as: "?t \<in> set as" using False by simp
    have tF: "?t \<notin> set F'" using F'_as t_as by blast
    obtain m where m: "mp_msgs ?mp2 ?t = Some m" "m_buffer m = Some (seg_of ?mp2 ?t)" "m_size m = length (seg_of ?mp2 ?t)"
      using l t_as by (auto simp: db_list_def db_path_def seg_ok_def)
    let ?mp3 = "?mp2\<lparr>mp_msgs := (mp_msgs ?mp2)(?t \<mapsto> m\<lparr>m_next := Some a\<rparr>)\<rparr>"
    have hd: "db_head db \<noteq> None" "db_tail db = Some ?t" using l False by (cases as; simp add: db_list_def db_path_def)+
    have "databuffer_push db mp xs = Some (?db, ?mp3)"
      using t hd m(1) by (auto simp: databuffer_push_def Let_def)
    moreover have "pool_ok ?mp3 F'"
      using P2 tF m(1) by (auto simp: pool_ok_def)
    moreover have "db_holds ?mp3 ?db (as @ [a]) (bs @ xs)"
    proof -
      have sg: "seg_of ?mp3 x = seg_of ?mp2 x" "seg_ok ?mp3 x = seg_ok ?mp2 x" for x
        using m by (auto simp: seg_of_def seg_ok_def)
      have "lpath ((m_nxt ?mp2)(?t := Some a)) (db_head db) (as' @ [?t, a])"
      proof (rule lpath_snoc)
        show "lpath (m_nxt ?mp2) (db_head db) (as' @ [?t])" using l unfolding as [symmetric] by (simp add: db_list_def db_path_def)
        show "a \<notin> set (as' @ [?t])" using a_as as by simp
        show "m_nxt ?mp2 a = None" by simp
      qed
      moreover have "as' @ [?t, a] = as @ [a]" using as by simp
      moreover have "m_nxt ?mp3 = (m_nxt ?mp2)(?t := Some a)" by simp
      ultimately have p: "lpath (m_nxt ?mp3) (db_head ?db) (as @ [a])" by simp
      have sgs: "map (seg_of ?mp3) ys = map (seg_of ?mp2) ys" for ys
        by (rule map_cong [OF refl]) (rule sg(1))
      have off: "db_offset db \<le> length (seg_of ?mp2 (hd as))" using l False by (simp add: db_list_def db_path_def)
      have "hd (as @ [a]) = hd as" using False by simp
      then have L: "db_list ?mp3 ?db (as @ [a])"
        unfolding db_list_def db_path_def sg using p l s2(2) off by (simp add: db_list_def db_path_def)
      have "db_offset db \<le> length (concat (map (seg_of ?mp2) as))"
        using off False by (cases as) simp_all
      then have "db_bytes ?mp3 ?db (as @ [a]) = bs @ xs"
        unfolding db_bytes_def sgs using b s2(1) by (simp add: db_bytes_def)
      then show ?thesis using L n by (simp add: db_holds_def)
    qed
    moreover have "db_header ?db = db_header db" by simp
    moreover have "set (as @ [a]) \<inter> set F' = {}" using F'_as aF by auto
    moreover have "\<forall>x < mp_brk mp. x \<notin> set as \<union> set F \<longrightarrow> mp_msgs ?mp3 x = mp_msgs mp x"
      using fr src(1) t_as by auto
    ultimately show ?thesis using src by blast
  qed
qed


subsubsection \<open>Clearing\<close>

lemma clear_loop_ok:
  "pool_ok mp F \<Longrightarrow> db_path mp db as \<Longrightarrow> set as \<inter> set F = {} \<Longrightarrow>
   \<exists>db' mp' F'. clear_loop db mp = Some (db', mp') \<and> pool_ok mp' F' \<and> set F' = set as \<union> set F \<and>
     (\<forall>x. x \<notin> set as \<longrightarrow> mp_msgs mp' x = mp_msgs mp x) \<and> mp_brk mp' = mp_brk mp"
proof (induction as arbitrary: mp db F)
  case Nil
  then have "clear_loop db mp = Some (db, mp)" by (subst clear_loop.simps) (simp add: db_path_def)
  with Nil show ?case by auto
next
  case (Cons a as)
  have ad: "a \<notin> set as"
    using lpath_distinct [of "m_nxt mp" "db_head db" "a # as"] Cons.prems(2) by (simp add: db_path_def)
  from return_message_ok [OF Cons.prems(1,2)] Cons.prems(3) obtain db1 mp1 where
    r: "return_message db mp = Some (db1, mp1)" "pool_ok mp1 (a # F)" "db_path mp1 db1 as"
      "\<forall>x. x \<noteq> a \<longrightarrow> mp_msgs mp1 x = mp_msgs mp x" "mp_brk mp1 = mp_brk mp" by auto
  have "set as \<inter> set (a # F) = {}" using ad Cons.prems(3) by auto
  from Cons.IH [OF r(2,3) this] obtain db' mp' F' where
    i: "clear_loop db1 mp1 = Some (db', mp')" "pool_ok mp' F'" "set F' = set as \<union> set (a # F)"
      "\<forall>x. x \<notin> set as \<longrightarrow> mp_msgs mp' x = mp_msgs mp1 x" "mp_brk mp' = mp_brk mp1" by blast
  have "db_head db = Some a" using Cons.prems(2) by (simp add: db_path_def)
  then have "clear_loop db mp = Some (db', mp')" using r(1) i(1) by (subst clear_loop.simps) simp
  moreover have "set F' = set (a # as) \<union> set F" using i(3) by auto
  ultimately show ?case using i r by (intro exI [of _ db'] exI [of _ mp'] exI [of _ F']) simp
qed

lemma db_holds_init: "db_holds mp databuffer_init [] []"
  by (simp add: db_holds_def db_list_def db_path_def db_bytes_def databuffer_init_def)

lemma databuffer_clear_ok:
  assumes "pool_ok mp F" and "db_holds mp db as bs" and "set as \<inter> set F = {}"
  shows "\<exists>mp' F'. databuffer_clear db mp = Some (databuffer_init, mp') \<and> pool_ok mp' F' \<and>
    set F' = set as \<union> set F \<and> (\<forall>x. x \<notin> set as \<longrightarrow> mp_msgs mp' x = mp_msgs mp x)"
  using clear_loop_ok [OF assms(1) _ assms(3), of db] assms(2)
  by (auto simp: databuffer_clear_def db_holds_def db_list_def)

subsection \<open>All the buffers of a gate\<close>

text \<open>Buffer \<open>i\<close> stands for the bytes \<open>B i\<close>; all share one pool, and no message is in two lists.\<close>

definition bufs_split ::
  "messagepool \<Rightarrow> (nat \<Rightarrow> databuffer) \<Rightarrow> (nat \<Rightarrow> u8 list) \<Rightarrow> addr list \<Rightarrow> (nat \<Rightarrow> addr list) \<Rightarrow> bool" where
  "bufs_split mp D B F A \<longleftrightarrow> pool_ok mp F \<and> (\<forall>i. db_holds mp (D i) (A i) (B i) \<and> set (A i) \<inter> set F = {}) \<and>
     (\<forall>i j. i \<noteq> j \<longrightarrow> set (A i) \<inter> set (A j) = {})"

definition bufs_ok :: "messagepool \<Rightarrow> (nat \<Rightarrow> databuffer) \<Rightarrow> (nat \<Rightarrow> u8 list) \<Rightarrow> bool" where
  "bufs_ok mp D B \<longleftrightarrow> (\<exists>F A. bufs_split mp D B F A)"

lemma bufs_update:
  assumes S: "bufs_split mp D B F A" and P': "pool_ok mp' F'" and D': "db_holds mp' db' as' bs'"
    and dis: "set as' \<inter> set F' = {}"
    and src: "\<forall>x\<in>set as' \<union> set F'. x \<in> set (A i) \<union> set F \<or> mp_brk mp \<le> x"
    and fr: "\<forall>x < mp_brk mp. x \<notin> set (A i) \<union> set F \<longrightarrow> mp_msgs mp' x = mp_msgs mp x"
  shows "bufs_ok mp' (D(i := db')) (B(i := bs'))"
proof -
  have P: "pool_ok mp F" and H: "\<And>j. db_holds mp (D j) (A j) (B j)" and FA: "\<And>j. set (A j) \<inter> set F = {}"
    and AA: "\<And>j k. j \<noteq> k \<Longrightarrow> set (A j) \<inter> set (A k) = {}"
    using S by (simp_all add: bufs_split_def)
  have less: "x < mp_brk mp" if "x \<in> set (A j)" for x j using db_holds_less [OF P H that] .
  have other: "x \<notin> set as' \<union> set F'" if "x \<in> set (A j)" "j \<noteq> i" for x j
  proof
    assume "x \<in> set as' \<union> set F'"
    then have "x \<in> set (A i) \<union> set F" using src less [OF that(1)] by fastforce
    then show False using that(1) FA [of j] AA [OF that(2)] by auto
  qed
  have keep: "db_holds mp' (D j) (A j) (B j)" if "j \<noteq> i" for j
  proof -
    have "mp_msgs mp' x = mp_msgs mp x" if x: "x \<in> set (A j)" for x
      using fr less [OF x] x FA [of j] AA [OF \<open>j \<noteq> i\<close>] by auto
    from db_holds_cong [OF this] H show ?thesis by simp
  qed
  have "bufs_split mp' (D(i := db')) (B(i := bs')) F' (A(i := as'))"
    unfolding bufs_split_def
  proof (intro conjI allI impI)
    show "pool_ok mp' F'" by (rule P')
    fix j
    show "db_holds mp' ((D(i := db')) j) ((A(i := as')) j) ((B(i := bs')) j)"
      using D' keep by simp
    show "set ((A(i := as')) j) \<inter> set F' = {}"
      using dis other [of _ j] by (cases "j = i") auto
    fix k assume "j \<noteq> k"
    then show "set ((A(i := as')) j) \<inter> set ((A(i := as')) k) = {}"
      using other [of _ j] other [of _ k] AA [of j k] by (cases "j = i"; cases "k = i") auto
  qed
  then show ?thesis unfolding bufs_ok_def by blast
qed

lemma bufs_init: "bufs_ok messagepool_init (\<lambda>_. databuffer_init) (\<lambda>_. [])"
  unfolding bufs_ok_def bufs_split_def
  by (intro exI [of _ "[]"] exI [of _ "\<lambda>_. []"])
    (simp add: db_holds_init, simp add: pool_ok_def messagepool_init_def)

lemma bufs_push:
  assumes "bufs_ok mp D B"
  shows "\<exists>db' mp'. databuffer_push (D i) mp xs = Some (db', mp') \<and>
    bufs_ok mp' (D(i := db')) (B(i := B i @ xs)) \<and> db_header db' = db_header (D i)"
proof -
  obtain F A where S: "bufs_split mp D B F A" using assms by (auto simp: bufs_ok_def)
  then have h: "pool_ok mp F" "db_holds mp (D i) (A i) (B i)" "set (A i) \<inter> set F = {}"
    by (simp_all add: bufs_split_def)
  from databuffer_push_ok [OF h, of xs] obtain db' mp' a F' where
    p: "databuffer_push (D i) mp xs = Some (db', mp')" "pool_ok mp' F'" "db_holds mp' db' (A i @ [a]) (B i @ xs)"
      "set (A i @ [a]) \<inter> set F' = {}" "a \<in> set F \<or> mp_brk mp \<le> a" "\<forall>x\<in>set F'. x \<in> set F \<or> mp_brk mp \<le> x"
      "\<forall>x < mp_brk mp. x \<notin> set (A i) \<union> set F \<longrightarrow> mp_msgs mp' x = mp_msgs mp x" "db_header db' = db_header (D i)"
    by blast
  have "\<forall>x\<in>set (A i @ [a]) \<union> set F'. x \<in> set (A i) \<union> set F \<or> mp_brk mp \<le> x" using p(5,6) by auto
  from bufs_update [OF S p(2,3,4) this p(7)] p(1,8) show ?thesis by blast
qed

lemma bufs_read:
  assumes "bufs_ok mp D B" and "0 < sz" and "sz \<le> length (B i)"
  shows "\<exists>db' mp'. databuffer_read (D i) mp sz = Some (take sz (B i), db', mp') \<and>
    bufs_ok mp' (D(i := db')) (B(i := drop sz (B i))) \<and> db_header db' = db_header (D i)"
proof -
  obtain F A where S: "bufs_split mp D B F A" using assms(1) by (auto simp: bufs_ok_def)
  then have h: "pool_ok mp F" "db_holds mp (D i) (A i) (B i)" "set (A i) \<inter> set F = {}"
    by (simp_all add: bufs_split_def)
  from databuffer_read_ok [OF h assms(2,3)] obtain db' mp' as' F' where
    p: "databuffer_read (D i) mp sz = Some (take sz (B i), db', mp')" "pool_ok mp' F'"
      "db_holds mp' db' as' (drop sz (B i))" "set as' \<union> set F' = set (A i) \<union> set F" "set as' \<inter> set F' = {}"
      "\<forall>x. x \<notin> set (A i) \<longrightarrow> mp_msgs mp' x = mp_msgs mp x" "db_header db' = db_header (D i)" by blast
  have "\<forall>x\<in>set as' \<union> set F'. x \<in> set (A i) \<union> set F \<or> mp_brk mp \<le> x" using p(4) by auto
  moreover have "\<forall>x < mp_brk mp. x \<notin> set (A i) \<union> set F \<longrightarrow> mp_msgs mp' x = mp_msgs mp x" using p(6) by simp
  ultimately show ?thesis using bufs_update [OF S p(2,3,5)] p(1,7) by blast
qed

lemma bufs_clear:
  assumes "bufs_ok mp D B"
  shows "\<exists>mp'. databuffer_clear (D i) mp = Some (databuffer_init, mp') \<and>
    bufs_ok mp' (D(i := databuffer_init)) (B(i := []))"
proof -
  obtain F A where S: "bufs_split mp D B F A" using assms by (auto simp: bufs_ok_def)
  then have h: "pool_ok mp F" "db_holds mp (D i) (A i) (B i)" "set (A i) \<inter> set F = {}"
    by (simp_all add: bufs_split_def)
  from databuffer_clear_ok [OF h] obtain mp' F' where
    p: "databuffer_clear (D i) mp = Some (databuffer_init, mp')" "pool_ok mp' F'" "set F' = set (A i) \<union> set F"
      "\<forall>x. x \<notin> set (A i) \<longrightarrow> mp_msgs mp' x = mp_msgs mp x" by blast
  have "\<forall>x\<in>set [] \<union> set F'. x \<in> set (A i) \<union> set F \<or> mp_brk mp \<le> x" using p(3) by auto
  moreover have "\<forall>x < mp_brk mp. x \<notin> set (A i) \<union> set F \<longrightarrow> mp_msgs mp' x = mp_msgs mp x" using p(4) by simp
  ultimately show ?thesis using bufs_update [OF S p(2) db_holds_init] p(1) by simp
qed

lemma bufs_size: "bufs_ok mp D B \<Longrightarrow> db_size (D i) = length (B i)"
  by (auto simp: bufs_ok_def bufs_split_def db_holds_def)

lemma bufs_header:
  assumes "bufs_ok mp D B"
  shows "bufs_ok mp (D(i := (D i)\<lparr>db_header := h\<rparr>)) B"
proof -
  have "db_holds mp ((D(i := (D i)\<lparr>db_header := h\<rparr>)) j) as bs \<longleftrightarrow> db_holds mp (D j) as bs" for j as bs
    by (simp add: db_holds_def db_list_def db_path_def db_bytes_def)
  then show ?thesis using assms by (simp add: bufs_ok_def bufs_split_def)
qed

subsection \<open>The contract\<close>

text \<open>The state of the contract: the buffers of a gate and their pool.\<close>

type_synonym bufs = "(nat \<Rightarrow> databuffer) \<times> messagepool"

definition bufs_holds :: "bufs \<Rightarrow> (nat \<Rightarrow> u8 list) \<Rightarrow> bool" where
  "bufs_holds s B \<longleftrightarrow> bufs_ok (snd s) (fst s) B"

definition push_at :: "nat \<Rightarrow> u8 list \<Rightarrow> bufs \<Rightarrow> bufs option" where
  "push_at i xs s = do { (db, mp) \<leftarrow> databuffer_push (fst s i) (snd s) xs; Some ((fst s)(i := db), mp) }"

definition read_at :: "nat \<Rightarrow> nat \<Rightarrow> bufs \<Rightarrow> (u8 list \<times> bufs) option" where
  "read_at i n s = do {
     (bs, db, mp) \<leftarrow> databuffer_read (fst s i) (snd s) n;
     Some (bs, (fst s)(i := db), mp) }"

definition clear_at :: "nat \<Rightarrow> bufs \<Rightarrow> bufs option" where
  "clear_at i s = do { (db, mp) \<leftarrow> databuffer_clear (fst s i) (snd s); Some ((fst s)(i := db), mp) }"

interpretation dbs: bytestreams bufs_holds push_at read_at clear_at "\<lambda>i s. db_size (fst s i)"
proof unfold_locales
  fix s B i xs n
  show "bufs_holds s B \<Longrightarrow> \<exists>s'. push_at i xs s = Some s' \<and> bufs_holds s' (B(i := B i @ xs))"
    using bufs_push [of "snd s" "fst s" B i xs] by (auto simp: bufs_holds_def push_at_def)
  show "bufs_holds s B \<Longrightarrow> 0 < n \<Longrightarrow> n \<le> length (B i) \<Longrightarrow>
      \<exists>s'. read_at i n s = Some (take n (B i), s') \<and> bufs_holds s' (B(i := drop n (B i)))"
    using bufs_read [of "snd s" "fst s" B n i] by (auto simp: bufs_holds_def read_at_def)
  show "bufs_holds s B \<Longrightarrow> \<exists>s'. clear_at i s = Some s' \<and> bufs_holds s' (B(i := []))"
    using bufs_clear [of "snd s" "fst s" B i] by (auto simp: bufs_holds_def clear_at_def)
  show "bufs_holds s B \<Longrightarrow> db_size (fst s i) = length (B i)"
    by (auto simp: bufs_holds_def bufs_size)
qed

text \<open>
  Property C18. The receive buffers of a gate behave like independent byte streams: over any history of
  pushed segments, reads of what is there, and clears, on any number of buffers that share one message
  pool, no read leaves a segment, no message is in two lists, no assertion fails, and every read gets the
  bytes pushed to that buffer, in order, whatever the segments were.
\<close>

theorem databuffer_streams:
  "\<exists>s. dbs.run ops (\<lambda>_. databuffer_init, messagepool_init) = Some (fst (stream_run ops (\<lambda>_. [])), s) \<and>
     bufs_holds s (snd (stream_run ops (\<lambda>_. [])))"
  by (rule dbs.run_refines) (simp add: bufs_holds_def bufs_init)

end
