(* ===== verification/Gate.thy ===== *)
theory Gate
  imports Message Format Netpack Hashid Databuffer
begin

section \<open>The gate service (service-src/service_gate.c)\<close>

text \<open>
  The gate accepts connections, cuts what they send into packages and forwards these to the broker, to
  the agent of the connection or to the watchdog. Its state is the table of ids (theory \<open>Hashid\<close>), the
  array of connections with their receive buffers (theory \<open>Databuffer\<close>) and the addresses it forwards
  to. What it asks of the node (sending, logging, closing and starting sockets) is the list of calls
  that each function returns, in order; the answers of \<open>skynet_queryname\<close> and
  \<open>skynet_socket_listen\<close> are arguments. A C string in a buffer is a list of bytes with its NUL.

  The theorems: an invariant that ties table, connections and buffers together and that every callback
  keeps, and exactly when a callback fails (an accept from a foreign socket, an id at which the scan of the
  table overflows); a connection with a receiver gets
  exactly the packages of its stream; three places where the code does not do what it means to.
\<close>

subsection \<open>The model\<close>

record connection =
  c_id :: i32
  c_agent :: u32
  c_client :: u32
  c_remote_name :: "u8 list"
  c_buffer :: databuffer

record gate =
  g_listen_id :: i32
  g_watchdog :: u32
  g_broker :: u32
  g_client_tag :: i32
  g_header_size :: nat
  g_max_connection :: int
  g_hash :: hashid
  g_conn :: "connection list"
  g_mp :: messagepool

text \<open>Calls to the node. A send carries source, destination, type, session and the bytes.\<close>

datatype call =
  Send u32 u32 i32 i32 "u8 list"
| Error "u8 list"
| SocketClose i32
| SocketStart i32
| SocketSend u32 "u8 list"
| SocketListen "u8 list" i32 int
| Callback

definition BACKLOG :: int where "BACKLOG = 128"

text \<open>\<open>memset(c, 0, sizeof(*c)); c->id = -1;\<close>\<close>

definition free_conn :: connection where
  "free_conn = \<lparr>c_id = - 1, c_agent = 0, c_client = 0, c_remote_name = [], c_buffer = databuffer_init\<rparr>"

definition gate_create :: gate where
  "gate_create = \<lparr>g_listen_id = - 1, g_watchdog = 0, g_broker = 0, g_client_tag = 0, g_header_size = 0,
     g_max_connection = 0,
     g_hash = \<lparr>hi_hashmod = 0, hi_cap = 0, hi_count = 0, hi_id = [], hi_hash = []\<rparr>,
     g_conn = [], g_mp = messagepool_init\<rparr>"

definition gate_release :: "gate \<Rightarrow> call list" where
  "gate_release g =
     map (\<lambda>c. SocketClose (c_id c)) (filter (\<lambda>c. 0 \<le> sint (c_id c)) (take (nat (g_max_connection g)) (g_conn g))) @
     (if 0 \<le> sint (g_listen_id g) then [SocketClose (g_listen_id g)] else [])"

text \<open>The C string at offset \<open>p\<close> of a buffer.\<close>

definition cstr_at :: "u8 list \<Rightarrow> nat \<Rightarrow> u8 list option" where
  "cstr_at buf p = (if 0 \<in> set (drop p buf) then Some (takeWhile (\<lambda>b. b \<noteq> 0) (drop p buf)) else None)"

text \<open>\<open>_parm\<close> moves what follows the command and its spaces to the front; the bytes behind the new NUL
  stay as they were. \<open>tmp\<close> includes the NUL at \<open>sz\<close>.\<close>

definition parm :: "u8 list \<Rightarrow> nat \<Rightarrow> nat \<Rightarrow> u8 list" where
  "parm tmp sz command_sz =
     (let rest = dropWhile (\<lambda>b. b = 32) (drop command_sz (take sz tmp))
      in rest @ [0] @ drop (length rest + 1) tmp)"

text \<open>\<open>strsep(&p, " ")\<close> on the string at \<open>p\<close>: the buffer, and where the rest starts, or NULL.\<close>

definition strsep :: "u8 list \<Rightarrow> nat \<Rightarrow> (u8 list \<times> nat option) option" where
  "strsep buf p = do {
     s \<leftarrow> cstr_at buf p;
     let k = length (takeWhile (\<lambda>b. b \<noteq> 32) s);
     Some (if k < length s then (buf[p + k := 0], Some (p + k + 1)) else (buf, None)) }"

text \<open>\<open>memcmp(command, lit, n) == 0\<close> on a string literal, whose bytes end with its NUL; it stops at the
  first difference, and comparing beyond the literal is undefined.\<close>

definition memcmp_lit :: "u8 list \<Rightarrow> u8 list \<Rightarrow> nat \<Rightarrow> bool option" where
  "memcmp_lit command lit n =
     (let l = lit @ [0] in
      if n \<le> length l then Some (take n command = take n l)
      else if take (length l) command = l then None else Some False)"

definition forward_agent :: "gate \<Rightarrow> i32 \<Rightarrow> u32 \<Rightarrow> u32 \<Rightarrow> gate option" where
  "forward_agent g fd agentaddr clientaddr = do {
     r \<leftarrow> hashid_lookup (g_hash g) fd;
     case r of
       None \<Rightarrow> Some g
     | Some i \<Rightarrow> do {
         c \<leftarrow> nth_at (g_conn g) i;
         Some (g\<lparr>g_conn := (g_conn g)[i := c\<lparr>c_agent := agentaddr, c_client := clientaddr\<rparr>]\<rparr>) } }"

text \<open>The branch \<open>forward\<close> of \<open>_ctrl\<close>.\<close>

definition ctrl_forward :: "u8 list \<Rightarrow> gate \<Rightarrow> gate option" where
  "ctrl_forward buf g = do {
     (buf1, client) \<leftarrow> strsep buf 0;
     case client of
       None \<Rightarrow> Some g
     | Some agent \<Rightarrow> do {
         idstr \<leftarrow> cstr_at buf1 0;
         let k = (ucast (strtol10 idstr) :: i32);
         (buf2, client) \<leftarrow> strsep buf1 agent;
         case client of
           None \<Rightarrow> Some g
         | Some client \<Rightarrow> do {
             a \<leftarrow> cstr_at buf2 (agent + 1);
             c \<leftarrow> cstr_at buf2 (client + 1);
             forward_agent g k (ucast (strtoul16 a)) (ucast (strtoul16 c)) } } }"

text \<open>The branches \<open>kick\<close> and \<open>start\<close>: a call on the socket whose id follows, if it is known.\<close>

definition ctrl_socket :: "(i32 \<Rightarrow> call) \<Rightarrow> u8 list \<Rightarrow> gate \<Rightarrow> (call list \<times> gate) option" where
  "ctrl_socket f buf g = do {
     s \<leftarrow> cstr_at buf 0;
     let uid = (ucast (strtol10 s) :: i32);
     r \<leftarrow> hashid_lookup (g_hash g) uid;
     Some (if r \<noteq> None then [f uid] else [], g) }"

definition ctrl :: "(u8 list \<Rightarrow> u32) \<Rightarrow> u8 list \<Rightarrow> gate \<Rightarrow> (call list \<times> gate) option" where
  "ctrl query msg g =
     (let sz = length msg; tmp = msg @ [0]; i = length (takeWhile (\<lambda>b. b \<noteq> 32) msg) in
      if sz = 0 then Some ([], g)
      else do {
        is_kick \<leftarrow> memcmp_lit tmp (str ''kick'') i;
        if is_kick then ctrl_socket SocketClose (parm tmp sz i) g
        else do {
        is_forward \<leftarrow> memcmp_lit tmp (str ''forward'') i;
        if is_forward then do { g' \<leftarrow> ctrl_forward (parm tmp sz i) g; Some ([], g') }
        else do {
        is_broker \<leftarrow> memcmp_lit tmp (str ''broker'') i;
        if is_broker then do {
          s \<leftarrow> cstr_at (parm tmp sz i) 0;
          Some ([], g\<lparr>g_broker := query s\<rparr>) }
        else do {
        is_start \<leftarrow> memcmp_lit tmp (str ''start'') i;
        if is_start then ctrl_socket SocketStart (parm tmp sz i) g
        else do {
        is_close \<leftarrow> memcmp_lit tmp (str ''close'') i;
        if is_close then
          Some (if 0 \<le> sint (g_listen_id g)
                then ([SocketClose (g_listen_id g)], g\<lparr>g_listen_id := - 1\<rparr>) else ([], g))
        else do {
          s \<leftarrow> cstr_at tmp 0;
          Some ([Error (str ''[gate] Unkown command : '' @ s)], g) } } } } } })"

text \<open>\<open>_report\<close> with the formatted text, cut to the buffer of 1024 bytes.\<close>

definition report :: "gate \<Rightarrow> u8 list \<Rightarrow> call list" where
  "report g data = (if g_watchdog g = 0 then [] else [Send 0 (g_watchdog g) (ucast PTYPE_TEXT) 0 (take 1023 data)])"

definition set_buffer :: "nat \<Rightarrow> databuffer \<times> messagepool \<Rightarrow> gate \<Rightarrow> gate option" where
  "set_buffer i s g = do {
     c \<leftarrow> nth_at (g_conn g) i;
     Some (g\<lparr>g_conn := (g_conn g)[i := c\<lparr>c_buffer := fst s\<rparr>], g_mp := snd s\<rparr>) }"

text \<open>\<open>_forward(g, &g->conn[i], size)\<close>.\<close>

definition forward :: "nat \<Rightarrow> nat \<Rightarrow> gate \<Rightarrow> (call list \<times> gate) option" where
  "forward i sz g = do {
     c \<leftarrow> nth_at (g_conn g) i;
     let fd = c_id c;
     if sint fd \<le> 0 then Some ([], g)
     else if g_broker g \<noteq> 0 then do {
       (temp, s) \<leftarrow> databuffer_read (c_buffer c) (g_mp g) sz;
       g' \<leftarrow> set_buffer i s g;
       Some ([Send 0 (g_broker g) (g_client_tag g OR PTYPE_TAG_DONTCOPY) fd temp], g') }
     else if c_agent c \<noteq> 0 then do {
       (temp, s) \<leftarrow> databuffer_read (c_buffer c) (g_mp g) sz;
       g' \<leftarrow> set_buffer i s g;
       Some ([Send (c_client c) (c_agent c) (g_client_tag g OR PTYPE_TAG_DONTCOPY) fd temp], g') }
     else if g_watchdog g \<noteq> 0 then do {
       (temp, s) \<leftarrow> databuffer_read (c_buffer c) (g_mp g) sz;
       g' \<leftarrow> set_buffer i s g;
       Some ([Send 0 (g_watchdog g) (ucast PTYPE_TEXT OR PTYPE_TAG_DONTCOPY) fd
                (fmt_d fd @ str '' data '' @ temp)], g') }
     else Some ([], g) }"

text \<open>The \<open>for (;;)\<close> of \<open>dispatch_message\<close>; \<open>out\<close> are the calls so far.\<close>

partial_function (option) gate_dispatch_loop :: "nat \<Rightarrow> i32 \<Rightarrow> call list \<Rightarrow> gate \<Rightarrow> (call list \<times> gate) option" where
  "gate_dispatch_loop i fd out g = do {
     c \<leftarrow> nth_at (g_conn g) i;
     (sz, db, mp) \<leftarrow> databuffer_readheader (c_buffer c) (g_mp g) (g_header_size g);
     g1 \<leftarrow> set_buffer i (db, mp) g;
     if sz < 0 then Some (out, g1)
     else if sz > 0 then
       if sz \<ge> 0x1000000 then do {
         s \<leftarrow> databuffer_clear db mp;
         g2 \<leftarrow> set_buffer i s g1;
         Some (out @ [SocketClose fd, Error (str ''Recv socket message > 16M'')], g2) }
       else do {
         (calls, g2) \<leftarrow> forward i (nat sz) g1;
         c2 \<leftarrow> nth_at (g_conn g2) i;
         g3 \<leftarrow> set_buffer i (databuffer_reset (c_buffer c2), g_mp g2) g2;
         gate_dispatch_loop i fd (out @ calls) g3 }
     else gate_dispatch_loop i fd out g1 }"

definition dispatch_data :: "nat \<Rightarrow> i32 \<Rightarrow> u8 list \<Rightarrow> gate \<Rightarrow> (call list \<times> gate) option" where
  "dispatch_data i fd data g = do {
     c \<leftarrow> nth_at (g_conn g) i;
     s \<leftarrow> databuffer_push (c_buffer c) (g_mp g) data;
     g1 \<leftarrow> set_buffer i s g;
     gate_dispatch_loop i fd [] g1 }"

text \<open>The cases of \<open>dispatch_socket_message\<close> for a socket that is gone, and for a new one.\<close>

definition close_conn :: "i32 \<Rightarrow> gate \<Rightarrow> (call list \<times> gate) option" where
  "close_conn fd g = do {
     (r, hash') \<leftarrow> hashid_remove (g_hash g) fd;
     let g1 = g\<lparr>g_hash := hash'\<rparr>;
     case r of
       None \<Rightarrow> Some ([], g1)
     | Some i \<Rightarrow> do {
         c \<leftarrow> nth_at (g_conn g1) i;
         (_, mp) \<leftarrow> databuffer_clear (c_buffer c) (g_mp g1);
         let g2 = g1\<lparr>g_mp := mp, g_conn := (g_conn g1)[i := free_conn]\<rparr>;
         Some (report g2 (fmt_d fd @ str '' close''), g2) } }"

definition accept_conn :: "i32 \<Rightarrow> u8 list \<Rightarrow> gate \<Rightarrow> (call list \<times> gate) option" where
  "accept_conn fd name g =
     (if hashid_full (g_hash g) then Some ([SocketClose fd], g)
      else do {
        (i, hash') \<leftarrow> hashid_insert (g_hash g) fd;
        c \<leftarrow> nth_at (g_conn g) i;
        let remote_name = takeWhile (\<lambda>b. b \<noteq> 0) (take 31 name);
        let g' = g\<lparr>g_hash := hash', g_conn := (g_conn g)[i := c\<lparr>c_id := fd, c_remote_name := remote_name\<rparr>]\<rparr>;
        Some (report g' (fmt_d fd @ str '' open '' @ fmt_d fd @ str '' '' @ remote_name @ str '':0'') @
              [Error (str ''socket open: '' @ fmt_x fd)], g') })"

text \<open>The size \<open>ud\<close> of a data message is an \<open>int\<close>; the socket layer delivers none below 0, and \<open>unat\<close> reads
  those from 0 on.\<close>

definition dispatch_socket_message :: "socket_message \<Rightarrow> gate \<Rightarrow> (call list \<times> gate) option" where
  "dispatch_socket_message m g =
     (case sm_type m of
        SData \<Rightarrow> do {
          r \<leftarrow> hashid_lookup (g_hash g) (sm_id m);
          case r of
            Some i \<Rightarrow> do {
              buffer \<leftarrow> sm_buffer m;
              data \<leftarrow> mem_read buffer (unat (sm_ud m));
              dispatch_data i (sm_id m) data g }
          | None \<Rightarrow>
              Some ([Error (str ''Drop unknown connection '' @ fmt_d (sm_id m) @ str '' message''),
                     SocketClose (sm_id m)], g) }
      | SConnect \<Rightarrow>
          if sm_id m = g_listen_id g then Some ([], g)
          else do {
            r \<leftarrow> hashid_lookup (g_hash g) (sm_id m);
            Some (if r = None
                  then [Error (str ''Close unknown connection '' @ fmt_d (sm_id m)), SocketClose (sm_id m)]
                  else [], g) }
      | SClose \<Rightarrow> close_conn (sm_id m) g
      | SError \<Rightarrow> close_conn (sm_id m) g
      | SAccept \<Rightarrow> do {
          c_assert (g_listen_id g = sm_id m);
          accept_conn (sm_ud m) (sm_padding m) g }
      | SWarning \<Rightarrow>
          Some ([Error (str ''fd ('' @ fmt_d (sm_id m) @ str '') send buffer ('' @ fmt_d (sm_ud m) @ str '')K'')], g)
      | SOther \<Rightarrow> Some ([], g))"

text \<open>The messages of the three types the callback handles. The result says whether the message must
  not be freed.\<close>

datatype cb_msg = Text "u8 list" | Client u32 "u8 list" | Socket socket_message | OtherType

definition client_id :: "u8 list \<Rightarrow> u32" where
  "client_id msg =
     (let idbuf = drop (length msg - 4) msg in
      ucast (idbuf ! 0) OR push_bit 8 (ucast (idbuf ! 1)) OR push_bit 16 (ucast (idbuf ! 2)) OR
      push_bit 24 (ucast (idbuf ! 3)))"

definition gate_cb :: "(u8 list \<Rightarrow> u32) \<Rightarrow> cb_msg \<Rightarrow> gate \<Rightarrow> (bool \<times> call list \<times> gate) option" where
  "gate_cb query m g =
     (case m of
        Text msg \<Rightarrow> do { (calls, g') \<leftarrow> ctrl query msg g; Some (False, calls, g') }
      | Client source msg \<Rightarrow>
          if length msg \<le> 4 then
            Some (False, [Error (str ''Invalid client message from '' @ fmt_x source)], g)
          else do {
            let uid = client_id msg;
            r \<leftarrow> hashid_lookup (g_hash g) uid;
            Some (if r \<noteq> None then (True, [SocketSend uid (take (length msg - 4) msg)], g)
                  else (False, [Error (str ''Invalid client id '' @ fmt_d uid @ str '' from '' @ fmt_x source)], g)) }
      | Socket sm \<Rightarrow> do { (calls, g') \<leftarrow> dispatch_socket_message sm g; Some (False, calls, g') }
      | OtherType \<Rightarrow> Some (False, [], g))"

text \<open>\<open>strrchr(listen_addr, ':')\<close> splits the address; the port alone listens on every interface. The
  result is the return value of \<open>gate_init\<close>.\<close>

definition listen_split :: "u8 list \<Rightarrow> u8 list \<times> u8 list" where
  "listen_split addr =
     (if 58 \<in> set addr
      then (let k = length (takeWhile (\<lambda>b. b \<noteq> 58) (rev addr))
            in (take (length addr - k - 1) addr, drop (length addr - k) addr))
      else ([], addr))"

definition start_listen ::
  "(u8 list \<Rightarrow> i32 \<Rightarrow> i32) \<Rightarrow> u8 list \<Rightarrow> gate \<Rightarrow> int \<times> call list \<times> gate" where
  "start_listen listen listen_addr g =
     (let (host, portstr) = listen_split listen_addr; port = (ucast (strtol10 portstr) :: i32) in
      if sint port \<le> 0 then (1, [Error (str ''Invalid gate address '' @ listen_addr)], g)
      else
        let k = listen host port; g1 = g\<lparr>g_listen_id := k\<rparr> in
        if sint k < 0 then (1, [SocketListen host port BACKLOG], g1)
        else (0, [SocketListen host port BACKLOG, SocketStart k], g1))"

text \<open>\<open>sscanf(parm, "%c %s %s %d %d", ...)\<close>: \<open>None\<close> when fewer than four fields are read; the last one is 0
  unless it is given.\<close>

definition gate_sscanf :: "u8 list \<Rightarrow> (u8 \<times> u8 list \<times> u8 list \<times> i32 \<times> i32) option" where
  "gate_sscanf args = do {
     (header, s0) \<leftarrow> (case args of [] \<Rightarrow> None | b # bs \<Rightarrow> Some (b, bs));
     (watchdog, s1) \<leftarrow> scan_str s0;
     (binding, s2) \<leftarrow> scan_str s1;
     (client_tag, s3) \<leftarrow> scan_int s2;
     Some (header, watchdog, binding, client_tag, (case scan_int s3 of Some (m, _) \<Rightarrow> m | None \<Rightarrow> 0)) }"

text \<open>\<open>gate_init\<close>, with the names \<open>skynet_queryname\<close> resolves and the ids \<open>skynet_socket_listen\<close> returns.\<close>

definition gate_init ::
  "(u8 list \<Rightarrow> u32) \<Rightarrow> (u8 list \<Rightarrow> i32 \<Rightarrow> i32) \<Rightarrow> u8 list option \<Rightarrow> gate \<Rightarrow> (int \<times> call list \<times> gate) option" where
  "gate_init query listen p g =
     (case p of
        None \<Rightarrow> Some (1, [], g)
      | Some args \<Rightarrow>
          (case gate_sscanf args of
             None \<Rightarrow> Some (1, [Error (str ''Invalid gate parm '' @ args)], g)
           | Some (header, watchdog, binding, client_tag, limit) \<Rightarrow>
               if sint limit \<le> 0 then Some (1, [Error (str ''Need max connection'')], g)
               else if header \<noteq> 83 \<and> header \<noteq> 76 then Some (1, [Error (str ''Invalid data header style'')], g)
               else
                 let wd = (if hd watchdog = 33 then 0 else query watchdog); g1 = g\<lparr>g_watchdog := wd\<rparr> in
                 if hd watchdog \<noteq> 33 \<and> wd = 0 then Some (1, [Error (str ''Invalid watchdog '' @ watchdog)], g1)
                 else do {
                   hash' \<leftarrow> hashid_init (sint limit);
                   let g2 = g1\<lparr>g_hash := hash', g_conn := replicate (nat (sint limit)) free_conn,
                     g_max_connection := sint limit,
                     g_client_tag := (if client_tag = 0 then ucast PTYPE_CLIENT else client_tag),
                     g_header_size := (if header = 83 then 2 else 4)\<rparr>;
                   let (r, calls, g3) = start_listen listen binding g2;
                   Some (r, Callback # calls, g3) }))"

subsection \<open>The packages of a stream\<close>

text \<open>How the gate cuts the bytes \<open>W\<close> of one connection. \<open>r\<close> says whether there is a receiver: without
  one, a package is not taken out of the buffer. The cut ends because more bytes are needed, because
  a length is too big, or because a length of four bytes is negative as an \<open>int\<close>.\<close>

datatype cut_end = Wait "u8 list" | TooBig | Stuck "u8 list"

fun left_over :: "cut_end \<Rightarrow> u8 list" where
  "left_over (Wait bs) = bs"
| "left_over TooBig = []"
| "left_over (Stuck bs) = bs"

function gate_cut :: "bool \<Rightarrow> nat \<Rightarrow> u8 list \<Rightarrow> u8 list list \<times> cut_end" where
  "gate_cut r hs W =
     (if hs = 0 \<or> length W < hs then ([], Wait W)
      else
        let n = header_value (take hs W); rest = drop hs W in
        if n < 0 then ([], Stuck W)
        else if int (length rest) < n then ([], Wait W)
        else if n \<ge> 0x1000000 then ([], TooBig)
        else let (fs, e) = gate_cut r hs (if r then drop (nat n) rest else rest)
             in (if r \<and> n \<noteq> 0 then take (nat n) rest # fs else fs, e))"
  by pat_completeness auto
termination by (relation "measure (\<lambda>(r, hs, W). length W)") auto

declare gate_cut.simps [simp del]

lemma cut_short: "length W < hs \<Longrightarrow> gate_cut r hs W = ([], Wait W)"
  by (simp add: gate_cut.simps)

lemma cut_stuck: "0 < hs \<Longrightarrow> hs \<le> length W \<Longrightarrow> header_value (take hs W) < 0 \<Longrightarrow> gate_cut r hs W = ([], Stuck W)"
  by (simp add: gate_cut.simps Let_def)

lemma cut_wait:
  "0 < hs \<Longrightarrow> hs \<le> length W \<Longrightarrow> int (length W - hs) < header_value (take hs W) \<Longrightarrow> gate_cut r hs W = ([], Wait W)"
  by (simp add: gate_cut.simps Let_def)

lemma cut_big:
  "0 < hs \<Longrightarrow> hs \<le> length W \<Longrightarrow> header_value (take hs W) \<le> int (length W - hs) \<Longrightarrow>
   0x1000000 \<le> header_value (take hs W) \<Longrightarrow> gate_cut r hs W = ([], TooBig)"
  by (simp add: gate_cut.simps Let_def)

lemma cut_zero:
  "0 < hs \<Longrightarrow> hs \<le> length W \<Longrightarrow> header_value (take hs W) = 0 \<Longrightarrow> gate_cut r hs W = gate_cut r hs (drop hs W)"
  by (subst gate_cut.simps) (simp add: Let_def)

lemma cut_package:
  assumes "0 < hs" and "hs \<le> length W" and "n = header_value (take hs W)"
    and "0 < n" and "n \<le> int (length W - hs)" and "n < 0x1000000"
  shows "gate_cut True hs W = (take (nat n) (drop hs W) # fst (gate_cut True hs (drop (nat n) (drop hs W))),
      snd (gate_cut True hs (drop (nat n) (drop hs W))))"
    and "gate_cut False hs W = gate_cut False hs (drop hs W)"
  using assms by (subst gate_cut.simps, simp add: Let_def split_beta)+

subsection \<open>One connection\<close>

definition gbuf :: "gate \<Rightarrow> nat \<Rightarrow> databuffer" where
  "gbuf g i = (if i < length (g_conn g) then c_buffer (g_conn g ! i) else databuffer_init)"

definition gate_with :: "nat \<Rightarrow> databuffer \<Rightarrow> messagepool \<Rightarrow> gate \<Rightarrow> gate" where
  "gate_with i db mp g = g\<lparr>g_conn := (g_conn g)[i := (g_conn g ! i)\<lparr>c_buffer := db\<rparr>], g_mp := mp\<rparr>"

lemma set_buffer_in: "i < length (g_conn g) \<Longrightarrow> set_buffer i s g = Some (gate_with i (fst s) (snd s) g)"
  by (simp add: set_buffer_def gate_with_def)

lemma gate_with_twice: "gate_with i db' mp' (gate_with i db mp g) = gate_with i db' mp' g"
  by (cases "i < length (g_conn g)") (simp_all add: gate_with_def list_update_beyond)

lemma gate_with_fields [simp]:
  "length (g_conn (gate_with i db mp g)) = length (g_conn g)" "g_mp (gate_with i db mp g) = mp"
  "g_header_size (gate_with i db mp g) = g_header_size g" "g_broker (gate_with i db mp g) = g_broker g"
  "g_watchdog (gate_with i db mp g) = g_watchdog g" "g_client_tag (gate_with i db mp g) = g_client_tag g"
  "g_hash (gate_with i db mp g) = g_hash g" "g_listen_id (gate_with i db mp g) = g_listen_id g"
  by (simp_all add: gate_with_def)

lemma gate_with_conn: "i < length (g_conn g) \<Longrightarrow> g_conn (gate_with i db mp g) ! i = (g_conn g ! i)\<lparr>c_buffer := db\<rparr>"
  by (simp add: gate_with_def)

lemma gbuf_with: "i < length (g_conn g) \<Longrightarrow> gbuf (gate_with i db mp g) = (gbuf g)(i := db)"
  by (auto simp: gbuf_def gate_with_def fun_eq_iff nth_list_update)

text \<open>Where the packages of connection \<open>i\<close> go, and what is sent.\<close>

definition receiver :: "gate \<Rightarrow> nat \<Rightarrow> bool" where
  "receiver g i \<longleftrightarrow> 0 < sint (c_id (g_conn g ! i)) \<and>
     (g_broker g \<noteq> 0 \<or> c_agent (g_conn g ! i) \<noteq> 0 \<or> g_watchdog g \<noteq> 0)"

definition package_call :: "gate \<Rightarrow> nat \<Rightarrow> u8 list \<Rightarrow> call" where
  "package_call g i bs =
     (let c = g_conn g ! i in
      if g_broker g \<noteq> 0 then Send 0 (g_broker g) (g_client_tag g OR PTYPE_TAG_DONTCOPY) (c_id c) bs
      else if c_agent c \<noteq> 0 then Send (c_client c) (c_agent c) (g_client_tag g OR PTYPE_TAG_DONTCOPY) (c_id c) bs
      else Send 0 (g_watchdog g) (ucast PTYPE_TEXT OR PTYPE_TAG_DONTCOPY) (c_id c) (fmt_d (c_id c) @ str '' data '' @ bs))"

lemma forward_receiver:
  assumes "i < length (g_conn g)" and "receiver g i"
    and "databuffer_read db mp n = Some (bs, db', mp')"
  shows "forward i n (gate_with i db mp g) = Some ([package_call g i bs], gate_with i db' mp' g)"
  using assms
  by (auto simp: forward_def receiver_def package_call_def gate_with_conn set_buffer_in gate_with_twice Let_def)

lemma forward_no_receiver:
  assumes "i < length (g_conn g)" and "\<not> receiver g i"
  shows "forward i n (gate_with i db mp g) = Some ([], gate_with i db mp g)"
  using assms by (auto simp: forward_def receiver_def gate_with_conn Let_def not_less)

text \<open>\<open>w\<close>: the bytes that are not cut yet, the header included when it was read already.\<close>

definition db_pending :: "nat \<Rightarrow> databuffer \<Rightarrow> u8 list \<Rightarrow> u8 list \<Rightarrow> bool" where
  "db_pending hs db bs w \<longleftrightarrow> (db_header db = 0 \<and> w = bs \<or>
     db_header db \<noteq> 0 \<and> (\<exists>hdr. length hdr = hs \<and> header_value hdr = db_header db \<and> w = hdr @ bs))"

lemma pending_zero: "db_header db = 0 \<Longrightarrow> db_pending hs db bs bs"
  by (simp add: db_pending_def)

lemma pending_read:
  "hs \<le> length w \<Longrightarrow> db_header db = header_value (take hs w) \<Longrightarrow> db_header db \<noteq> 0 \<Longrightarrow>
   db_pending hs db (drop hs w) w"
  unfolding db_pending_def by (intro disjI2 conjI exI [of _ "take hs w"]) simp_all

lemma readheader_short:
  assumes "bufs_ok mp D B" and "db_pending hs (D i) (B i) w" and "length w < hs"
  shows "databuffer_readheader (D i) mp hs = Some (- 1, D i, mp)"
  using assms bufs_size [OF assms(1), of i] by (auto simp: databuffer_readheader_def db_pending_def)

lemma readheader_ok:
  assumes b: "bufs_ok mp D B" and p: "db_pending hs (D i) (B i) w" and "hs \<le> length w" and "0 < hs"
  shows "\<exists>db' mp'. databuffer_readheader (D i) mp hs =
      Some (if int (length w - hs) < header_value (take hs w) then - 1 else header_value (take hs w), db', mp') \<and>
    bufs_ok mp' (D(i := db')) (B(i := drop hs w)) \<and> db_header db' = header_value (take hs w)"
proof -
  from p consider (zero) "db_header (D i) = 0" "w = B i"
    | (hdr) hdr where "db_header (D i) \<noteq> 0" "length hdr = hs" "header_value hdr = db_header (D i)" "w = hdr @ B i"
    unfolding db_pending_def by blast
  then show ?thesis
  proof cases
    case zero
    have le: "hs \<le> length (B i)" using assms(3) zero by simp
    from bufs_read [OF b assms(4) le] obtain db1 mp1 where
      r: "databuffer_read (D i) mp hs = Some (take hs (B i), db1, mp1)"
      "bufs_ok mp1 (D(i := db1)) (B(i := drop hs (B i)))" by blast
    let ?db = "db1\<lparr>db_header := header_value (take hs (B i))\<rparr>"
    have s: "db_size ?db = length (B i) - hs" using bufs_size [OF r(2), of i] by simp
    have "databuffer_readheader (D i) mp hs =
      Some (if int (length w - hs) < header_value (take hs w) then - 1 else header_value (take hs w), ?db, mp1)"
      using zero r(1) s le bufs_size [OF b, of i] by (simp add: databuffer_readheader_def)
    moreover have "bufs_ok mp1 (D(i := ?db)) (B(i := drop hs w))"
      using bufs_header [OF r(2), of i] zero by simp
    ultimately show ?thesis using zero by auto
  next
    case hdr
    have "databuffer_readheader (D i) mp hs =
      Some (if int (length w - hs) < header_value (take hs w) then - 1 else header_value (take hs w), D i, mp)"
      using hdr bufs_size [OF b, of i] by (simp add: databuffer_readheader_def)
    moreover have "B(i := drop hs w) = B" using hdr by simp
    ultimately show ?thesis using hdr b by (intro exI [of _ "D i"] exI [of _ mp]) simp
  qed
qed

text \<open>The calls at the end of a cut.\<close>

definition end_calls :: "i32 \<Rightarrow> cut_end \<Rightarrow> call list" where
  "end_calls fd e = (if e = TooBig then [SocketClose fd, Error (str ''Recv socket message > 16M'')] else [])"

definition loop_post ::
  "nat \<Rightarrow> i32 \<Rightarrow> call list \<Rightarrow> gate \<Rightarrow> (nat \<Rightarrow> u8 list) \<Rightarrow> u8 list \<Rightarrow> (call list \<times> gate) option \<Rightarrow> bool" where
  "loop_post i fd out g B w res \<longleftrightarrow>
     (\<exists>db mp bs. res = Some (out @ map (package_call g i) (fst (gate_cut (receiver g i) (g_header_size g) w)) @
          end_calls fd (snd (gate_cut (receiver g i) (g_header_size g) w)), gate_with i db mp g) \<and>
        bufs_ok mp ((gbuf g)(i := db)) (B(i := bs)) \<and>
        db_pending (g_header_size g) db bs (left_over (snd (gate_cut (receiver g i) (g_header_size g) w))))"

lemma gate_dispatch_loop_ok:
  assumes i: "i < length (g_conn g)" and hs: "0 < g_header_size g"
  shows "bufs_ok mp ((gbuf g)(i := db)) B \<Longrightarrow> db_pending (g_header_size g) db (B i) w \<Longrightarrow>
    loop_post i fd out g B w (gate_dispatch_loop i fd out (gate_with i db mp g))"
proof (induction "length w" arbitrary: w db mp B out rule: less_induct)
  case less
  let ?hs = "g_header_size g" and ?D = "(gbuf g)(i := db)" and ?r = "receiver g i"
  have Di: "?D i = db" by simp
  note unf = gate_dispatch_loop.simps [of i fd out "gate_with i db mp g"]
  have p: "db_pending ?hs (?D i) (B i) w" using less.prems(2) by simp
  show ?case
  proof (cases "length w < ?hs")
    case True
    from readheader_short [OF less.prems(1) p True] have
      "gate_dispatch_loop i fd out (gate_with i db mp g) = Some (out, gate_with i db mp g)"
      unfolding unf using i by (simp add: gate_with_conn set_buffer_in gate_with_twice)
    with less.prems show ?thesis
      unfolding loop_post_def cut_short [OF True]
      by (intro exI [of _ db] exI [of _ mp] exI [of _ "B i"]) (simp add: end_calls_def)
  next
    case False
    let ?n = "header_value (take ?hs w)" and ?rest = "drop ?hs w"
    have le: "?hs \<le> length w" using False by simp
    from readheader_ok [OF less.prems(1) p le hs, unfolded fun_upd_upd fun_upd_same] obtain db1 mp1 where
      r: "databuffer_readheader db mp ?hs = Some (if int (length w - ?hs) < ?n then - 1 else ?n, db1, mp1)"
        "bufs_ok mp1 ((gbuf g)(i := db1)) (B(i := ?rest))" "db_header db1 = ?n" by blast
    let ?B1 = "B(i := ?rest)"
    have step: "gate_dispatch_loop i fd out (gate_with i db mp g) =
      (let sz = (if int (length w - ?hs) < ?n then - 1 else ?n); g1 = gate_with i db1 mp1 g in
       if sz < 0 then Some (out, g1)
       else if sz > 0 then
         if sz \<ge> 0x1000000 then do {
           s \<leftarrow> databuffer_clear db1 mp1;
           g2 \<leftarrow> set_buffer i s g1;
           Some (out @ [SocketClose fd, Error (str ''Recv socket message > 16M'')], g2) }
         else do {
           (calls, g2) \<leftarrow> forward i (nat sz) g1;
           c2 \<leftarrow> nth_at (g_conn g2) i;
           g3 \<leftarrow> set_buffer i (databuffer_reset (c_buffer c2), g_mp g2) g2;
           gate_dispatch_loop i fd (out @ calls) g3 }
       else gate_dispatch_loop i fd out g1)"
      unfolding unf using i r(1) by (simp add: gate_with_conn set_buffer_in gate_with_twice Let_def)
    consider (stuck) "?n < 0" | (wait) "int (length w - ?hs) < ?n" | (zero) "?n = 0"
      | (big) "?n \<le> int (length w - ?hs)" "0x1000000 \<le> ?n"
      | (pkg) "0 < ?n" "?n \<le> int (length w - ?hs)" "?n < 0x1000000" by linarith
    then show ?thesis
    proof cases
      case stuck
      have "gate_dispatch_loop i fd out (gate_with i db mp g) = Some (out, gate_with i db1 mp1 g)"
        unfolding step using stuck by (simp add: Let_def)
      moreover have "db_pending ?hs db1 ?rest w" using le r(3) stuck by (intro pending_read) simp_all
      ultimately show ?thesis
        unfolding loop_post_def cut_stuck [OF hs le stuck] using r(2) by (auto simp: end_calls_def)
    next
      case wait
      have "gate_dispatch_loop i fd out (gate_with i db mp g) = Some (out, gate_with i db1 mp1 g)"
        unfolding step using wait by (simp add: Let_def)
      moreover have "db_pending ?hs db1 ?rest w" using le r(3) wait by (intro pending_read) simp_all
      ultimately show ?thesis
        unfolding loop_post_def cut_wait [OF hs le wait] using r(2) by (auto simp: end_calls_def)
    next
      case zero
      have e: "gate_dispatch_loop i fd out (gate_with i db mp g) = gate_dispatch_loop i fd out (gate_with i db1 mp1 g)"
        unfolding step using zero by (simp add: Let_def)
      have "length ?rest < length w" using hs le by simp
      moreover have "db_pending ?hs db1 (?B1 i) ?rest" using r(3) zero by (simp add: pending_zero)
      ultimately have "loop_post i fd out g ?B1 ?rest (gate_dispatch_loop i fd out (gate_with i db1 mp1 g))"
        using r(2) by (intro less.hyps)
      then show ?thesis
        unfolding e loop_post_def cut_zero [OF hs le zero] by (simp only: fun_upd_upd)
    next
      case big
      from bufs_clear [OF r(2), of i] obtain mp2 where
        c: "databuffer_clear db1 mp1 = Some (databuffer_init, mp2)"
          "bufs_ok mp2 ((gbuf g)(i := databuffer_init)) (B(i := []))" by auto
      have "gate_dispatch_loop i fd out (gate_with i db mp g) =
        Some (out @ [SocketClose fd, Error (str ''Recv socket message > 16M'')], gate_with i databuffer_init mp2 g)"
        unfolding step using big i c(1) by (simp add: Let_def set_buffer_in gate_with_twice)
      moreover have "db_pending ?hs databuffer_init [] []" by (simp add: db_pending_def databuffer_init_def)
      ultimately show ?thesis
        unfolding loop_post_def cut_big [OF hs le big] using c(2) by (auto simp: end_calls_def)
    next
      case pkg
      let ?k = "nat ?n"
      have k: "0 < ?k" "?k \<le> length (?B1 i)" using pkg by (simp_all add: nat_le_iff)
      note cut = cut_package [OF hs le refl pkg]
      have sz: "(if int (length w - ?hs) < ?n then - 1 else ?n) = ?n" using pkg(2) by simp
      have len: "length (drop ?k ?rest) < length w" "length ?rest < length w" using hs le by simp_all
      show ?thesis
      proof (cases ?r)
        case True
        from bufs_read [OF r(2) k, unfolded fun_upd_upd fun_upd_same] obtain db2 mp2 where
          d: "databuffer_read db1 mp1 ?k = Some (take ?k ?rest, db2, mp2)"
            "bufs_ok mp2 ((gbuf g)(i := db2)) (B(i := drop ?k ?rest))" by blast
        let ?db = "databuffer_reset db2"
        have e: "gate_dispatch_loop i fd out (gate_with i db mp g) =
            gate_dispatch_loop i fd (out @ [package_call g i (take ?k ?rest)]) (gate_with i ?db mp2 g)"
          unfolding step sz Let_def using pkg(1,3) i forward_receiver [OF i True d(1)]
          by (simp add: Let_def set_buffer_in gate_with_twice gate_with_conn)
        have "bufs_ok mp2 ((gbuf g)(i := ?db)) (B(i := drop ?k ?rest))"
          using bufs_header [OF d(2), of i 0] by (simp add: databuffer_reset_def)
        moreover have "db_pending ?hs ?db ((B(i := drop ?k ?rest)) i) (drop ?k ?rest)"
          by (simp add: databuffer_reset_def pending_zero)
        ultimately have "loop_post i fd (out @ [package_call g i (take ?k ?rest)]) g (B(i := drop ?k ?rest)) (drop ?k ?rest)
            (gate_dispatch_loop i fd (out @ [package_call g i (take ?k ?rest)]) (gate_with i ?db mp2 g))"
          using len(1) by (intro less.hyps)
        then show ?thesis
          unfolding e loop_post_def fun_upd_upd using True cut(1) by simp
      next
        case nr: False
        let ?db = "databuffer_reset db1"
        have e: "gate_dispatch_loop i fd out (gate_with i db mp g) = gate_dispatch_loop i fd out (gate_with i ?db mp1 g)"
          unfolding step sz Let_def using pkg(1,3) i forward_no_receiver [OF i nr]
          by (simp add: Let_def set_buffer_in gate_with_twice gate_with_conn)
        have "bufs_ok mp1 ((gbuf g)(i := ?db)) ?B1"
          using bufs_header [OF r(2), of i 0] by (simp add: databuffer_reset_def)
        moreover have "db_pending ?hs ?db (?B1 i) ?rest" by (simp add: databuffer_reset_def pending_zero)
        ultimately have "loop_post i fd out g ?B1 ?rest (gate_dispatch_loop i fd out (gate_with i ?db mp1 g))"
          using len(2) by (intro less.hyps)
        then show ?thesis
          unfolding e loop_post_def fun_upd_upd using nr cut(2) by simp
      qed
    qed
  qed
qed


subsection \<open>The invariant\<close>

text \<open>\<open>M\<close>: the slot of each connected socket; \<open>W i\<close>: what the connection in slot \<open>i\<close> has sent and is not
  cut yet.\<close>

definition gate_inv :: "gate \<Rightarrow> (i32 \<rightharpoonup> nat) \<Rightarrow> (nat \<Rightarrow> u8 list) \<Rightarrow> bool" where
  "gate_inv g M W \<longleftrightarrow>
     hi_holds (g_hash g) M \<and> hi_cap (g_hash g) = length (g_conn g) \<and> 0 < g_header_size g \<and>
     (\<forall>k i. M k = Some i \<longrightarrow> c_id (g_conn g ! i) = k) \<and>
     (\<forall>i < length (g_conn g). i \<notin> ran M \<longrightarrow> g_conn g ! i = free_conn) \<and>
     (\<exists>B. bufs_ok (g_mp g) (gbuf g) B \<and> (\<forall>i. db_pending (g_header_size g) (gbuf g i) (B i) (W i)))"

lemma slot_less: "gate_inv g M W \<Longrightarrow> M k = Some i \<Longrightarrow> i < length (g_conn g)"
  by (auto simp: gate_inv_def hi_holds_def hi_shape_def hi_map_iff)

lemma slot_id: "gate_inv g M W \<Longrightarrow> M k = Some i \<Longrightarrow> c_id (g_conn g ! i) = k"
  by (simp add: gate_inv_def)

lemma slot_unique: "gate_inv g M W \<Longrightarrow> M k = Some i \<Longrightarrow> M k' = Some i \<Longrightarrow> k = k'"
  using slot_id [of g M W k i] slot_id [of g M W k' i] by simp

text \<open>A connection's buffer and the pool change; nothing else does.\<close>

lemma gate_inv_with:
  assumes g: "gate_inv g M W" and M: "M k = Some i"
    and b: "bufs_ok mp ((gbuf g)(i := db)) (B(i := bs))" and p: "db_pending (g_header_size g) db bs w"
    and B: "\<And>j. db_pending (g_header_size g) (gbuf g j) (B j) (W j)"
  shows "gate_inv (gate_with i db mp g) M (W(i := w))"
proof -
  have i: "i < length (g_conn g)" using slot_less [OF g M] .
  have ri: "i \<in> ran M" using M by (auto simp: ran_def)
  have conn: "g_conn (gate_with i db mp g) = (g_conn g)[i := (g_conn g ! i)\<lparr>c_buffer := db\<rparr>]"
    by (simp add: gate_with_def)
  have "\<exists>B. bufs_ok mp ((gbuf g)(i := db)) B \<and>
      (\<forall>j. db_pending (g_header_size g) (((gbuf g)(i := db)) j) (B j) ((W(i := w)) j))"
    using B p b by (intro exI [of _ "B(i := bs)"]) simp
  moreover have "\<forall>k' j. M k' = Some j \<longrightarrow> c_id (g_conn (gate_with i db mp g) ! j) = k'"
    using g i unfolding conn gate_inv_def by (auto simp: nth_list_update)
  moreover have "\<forall>j < length (g_conn g). j \<notin> ran M \<longrightarrow> g_conn (gate_with i db mp g) ! j = free_conn"
    using g i ri unfolding conn gate_inv_def by (auto simp: nth_list_update)
  ultimately show ?thesis using g unfolding gate_inv_def gbuf_with [OF i] by (simp del: fun_upd_apply)
qed

lemma dispatch_data_ok:
  assumes g: "gate_inv g M W" and M: "M fd = Some i"
  shows "\<exists>g'. dispatch_data i fd' data g =
      Some (map (package_call g i) (fst (gate_cut (receiver g i) (g_header_size g) (W i @ data))) @
        end_calls fd' (snd (gate_cut (receiver g i) (g_header_size g) (W i @ data))), g') \<and>
    gate_inv g' M (W(i := left_over (snd (gate_cut (receiver g i) (g_header_size g) (W i @ data))))) \<and>
    (\<exists>db mp. g' = gate_with i db mp g)"
proof -
  have i: "i < length (g_conn g)" using slot_less [OF g M] .
  have hs: "0 < g_header_size g" using g by (simp add: gate_inv_def)
  obtain B where b: "bufs_ok (g_mp g) (gbuf g) B"
    and p: "\<And>j. db_pending (g_header_size g) (gbuf g j) (B j) (W j)"
    using g unfolding gate_inv_def by blast
  from bufs_push [OF b, of i data] obtain db mp where
    d: "databuffer_push (gbuf g i) (g_mp g) data = Some (db, mp)" "bufs_ok mp ((gbuf g)(i := db)) (B(i := B i @ data))"
      "db_header db = db_header (gbuf g i)" by blast
  have "db_pending (g_header_size g) db ((B(i := B i @ data)) i) (W i @ data)"
    using p [of i] d(3) by (auto simp: db_pending_def)
  from gate_dispatch_loop_ok [OF i hs d(2) this, of fd' "[]"] obtain db' mp' bs where
    l: "gate_dispatch_loop i fd' [] (gate_with i db mp g) =
        Some (map (package_call g i) (fst (gate_cut (receiver g i) (g_header_size g) (W i @ data))) @
          end_calls fd' (snd (gate_cut (receiver g i) (g_header_size g) (W i @ data))), gate_with i db' mp' g)"
      "bufs_ok mp' ((gbuf g)(i := db')) (B(i := bs))"
      "db_pending (g_header_size g) db' bs (left_over (snd (gate_cut (receiver g i) (g_header_size g) (W i @ data))))"
    unfolding loop_post_def by auto
  have "dispatch_data i fd' data g = gate_dispatch_loop i fd' [] (gate_with i db mp g)"
    using i d(1) by (simp add: dispatch_data_def set_buffer_in gbuf_def)
  then show ?thesis using l(1) gate_inv_with [OF g M l(2,3) p] by auto
qed

lemma close_conn_ok:
  assumes g: "gate_inv g M W"
  shows "\<exists>calls g'. close_conn fd g = Some (calls, g') \<and>
    calls = (if M fd = None then [] else report g (fmt_d fd @ str '' close'')) \<and>
    gate_inv g' (M(fd := None)) (case M fd of None \<Rightarrow> W | Some i \<Rightarrow> W(i := []))"
proof -
  have h: "hi_holds (g_hash g) M" using g by (simp add: gate_inv_def)
  from hashid_remove_ok [OF h] obtain hash' where
    r: "hashid_remove (g_hash g) fd = Some (M fd, hash')" "hi_holds hash' (M(fd := None))"
      "hi_cap hash' = hi_cap (g_hash g)" by blast
  obtain B where b: "bufs_ok (g_mp g) (gbuf g) B"
    and p: "\<And>j. db_pending (g_header_size g) (gbuf g j) (B j) (W j)"
    using g unfolding gate_inv_def by blast
  show ?thesis
  proof (cases "M fd")
    case None
    have "M(fd := None) = M" using None by auto
    moreover have "gbuf (g\<lparr>g_hash := hash'\<rparr>) = gbuf g" by (simp add: gbuf_def fun_eq_iff)
    ultimately have "gate_inv (g\<lparr>g_hash := hash'\<rparr>) (M(fd := None)) W" using g r by (simp add: gate_inv_def)
    then show ?thesis using None r(1) by (simp add: close_conn_def)
  next
    case (Some i)
    have i: "i < length (g_conn g)" using slot_less [OF g Some] .
    have gb: "gbuf g i = c_buffer (g_conn g ! i)" using i by (simp add: gbuf_def)
    from bufs_clear [OF b, of i] obtain mp where
      c: "databuffer_clear (c_buffer (g_conn g ! i)) (g_mp g) = Some (databuffer_init, mp)"
        "bufs_ok mp ((gbuf g)(i := databuffer_init)) (B(i := []))" unfolding gb by blast
    let ?g = "g\<lparr>g_hash := hash', g_mp := mp, g_conn := (g_conn g)[i := free_conn]\<rparr>"
    have "close_conn fd g = Some (report ?g (fmt_d fd @ str '' close''), ?g)"
      using r(1) Some i c(1) by (simp add: close_conn_def Let_def)
    moreover have "report ?g x = report g x" for x by (simp add: report_def)
    moreover have "gate_inv ?g (M(fd := None)) (W(i := []))"
    proof -
      have gbuf: "gbuf ?g = (gbuf g)(i := databuffer_init)"
        using i by (auto simp: gbuf_def fun_eq_iff nth_list_update free_conn_def)
      have other: "j \<noteq> i" if "(M(fd := None)) k = Some j" for k j
        using that slot_unique [OF g Some] by (auto split: if_splits)
      have ids: "c_id (g_conn ?g ! j) = k" if "(M(fd := None)) k = Some j" for k j
        using other [OF that] that g by (auto simp: gate_inv_def split: if_splits)
      have "j \<in> ran (M(fd := None))" if j: "j \<in> ran M" "j \<noteq> i" for j
      proof -
        obtain k where k: "M k = Some j" using j(1) by (auto simp: ran_def)
        then have "k \<noteq> fd" using Some j(2) by auto
        then have "(M(fd := None)) k = Some j" using k by simp
        then show ?thesis by (rule ranI)
      qed
      then have free: "g_conn ?g ! j = free_conn" if "j < length (g_conn g)" "j \<notin> ran (M(fd := None))" for j
        using that g i by (auto simp: gate_inv_def nth_list_update)
      have "db_pending (g_header_size g) (((gbuf g)(i := databuffer_init)) j) ((B(i := [])) j) ((W(i := [])) j)" for j
        using p [of j] by (simp add: db_pending_def databuffer_init_def)
      then have "\<exists>B. bufs_ok mp (gbuf ?g) B \<and> (\<forall>j. db_pending (g_header_size g) (gbuf ?g j) (B j) ((W(i := [])) j))"
        unfolding gbuf using c(2) by blast
      then show ?thesis using g r(2,3) ids free by (simp add: gate_inv_def)
    qed
    ultimately show ?thesis using Some by simp
  qed
qed

lemma accept_conn_ok:
  assumes g: "gate_inv g M W" and M: "M fd = None" and pos: "0 \<le> sint fd"
    and room: "hashid_full (g_hash g) \<or> \<not> scan_blocked (g_hash g) fd"
  shows "\<exists>calls g' M'. accept_conn fd name g = Some (calls, g') \<and> gate_inv g' M' W \<and>
    (if hashid_full (g_hash g) then g' = g \<and> M' = M \<and> calls = [SocketClose fd]
     else \<exists>i < length (g_conn g). i \<notin> ran M \<and> W i = [] \<and> M' = M(fd \<mapsto> i) \<and>
       (\<exists>h n. g' = g\<lparr>g_hash := h, g_conn := (g_conn g)[i := free_conn\<lparr>c_id := fd, c_remote_name := n\<rparr>]\<rparr>))"
proof (cases "hashid_full (g_hash g)")
  case True
  then show ?thesis using g by (auto simp: accept_conn_def)
next
  case False
  have h: "hi_holds (g_hash g) M" and cap: "hi_cap (g_hash g) = length (g_conn g)" using g by (simp_all add: gate_inv_def)
  from hashid_insert_ok [OF h M pos] room False obtain i hash' where
    r: "hashid_insert (g_hash g) fd = Some (i, hash')" "i < length (g_conn g)" "i \<notin> ran M"
      "hi_holds hash' (M(fd \<mapsto> i))" "hi_cap hash' = hi_cap (g_hash g)" unfolding cap by blast
  have free: "g_conn g ! i = free_conn" using g r(2,3) by (simp add: gate_inv_def)
  obtain B where b: "bufs_ok (g_mp g) (gbuf g) B"
    and p: "\<And>j. db_pending (g_header_size g) (gbuf g j) (B j) (W j)"
    using g unfolding gate_inv_def by blast
  have gi: "gbuf g i = databuffer_init" using r(2) free by (simp add: gbuf_def free_conn_def)
  have Wi: "W i = []"
    using p [of i] bufs_size [OF b, of i] unfolding gi by (simp add: db_pending_def databuffer_init_def)
  let ?c = "free_conn\<lparr>c_id := fd, c_remote_name := takeWhile (\<lambda>b. b \<noteq> 0) (take 31 name)\<rparr>"
  let ?g = "g\<lparr>g_hash := hash', g_conn := (g_conn g)[i := ?c]\<rparr>"
  have "\<exists>calls. accept_conn fd name g = Some (calls, ?g)"
    using False r(1,2) free by (simp add: accept_conn_def Let_def)
  moreover have "gate_inv ?g (M(fd \<mapsto> i)) W"
  proof -
    have gbuf: "gbuf ?g = gbuf g"
      using r(2) free by (auto simp: gbuf_def fun_eq_iff nth_list_update free_conn_def)
    have ids: "c_id (g_conn ?g ! j) = k" if "(M(fd \<mapsto> i)) k = Some j" for k j
      using that g r(2,3) by (auto simp: gate_inv_def nth_list_update ran_def split: if_splits)
    have rn: "ran (M(fd \<mapsto> i)) = insert i (ran M)" using M by simp
    have fr: "g_conn ?g ! j = free_conn" if "j < length (g_conn g)" "j \<notin> ran (M(fd \<mapsto> i))" for j
      using that g unfolding rn by (auto simp: gate_inv_def)
    show ?thesis using g r(4,5) ids fr b p unfolding gate_inv_def gbuf by auto
  qed
  moreover have "\<exists>h n. ?g = g\<lparr>g_hash := h, g_conn := (g_conn g)[i := free_conn\<lparr>c_id := fd, c_remote_name := n\<rparr>]\<rparr>"
    by (intro exI) (rule refl)
  ultimately obtain calls where "accept_conn fd name g = Some (calls, ?g) \<and> gate_inv ?g (M(fd \<mapsto> i)) W \<and>
      (if hashid_full (g_hash g) then ?g = g \<and> M(fd \<mapsto> i) = M \<and> calls = [SocketClose fd]
       else \<exists>j < length (g_conn g). j \<notin> ran M \<and> W j = [] \<and> M(fd \<mapsto> i) = M(fd \<mapsto> j) \<and>
         (\<exists>h n. ?g = g\<lparr>g_hash := h, g_conn := (g_conn g)[j := free_conn\<lparr>c_id := fd, c_remote_name := n\<rparr>]\<rparr>))"
    using False r(2,3) Wi by auto
  then show ?thesis by blast
qed



subsection \<open>Control messages\<close>

text \<open>A buffer that ends with a NUL, and the strings in it.\<close>

lemma cstr_at_ex: "last buf = 0 \<Longrightarrow> p < length buf \<Longrightarrow> \<exists>s. cstr_at buf p = Some s \<and> p + length s < length buf \<and>
  buf ! (p + length s) = 0"
proof -
  assume l: "last buf = 0" and p: "p < length buf"
  let ?d = "drop p buf" and ?s = "takeWhile (\<lambda>b. b \<noteq> 0) (drop p buf)"
  have "?d \<noteq> []" "last ?d = 0" using l p by simp_all
  then have z: "0 \<in> set ?d" by (metis last_in_set)
  then have lt: "length ?s < length ?d"
    by (metis (mono_tags, lifting) length_takeWhile_le linorder_neqE_nat not_less takeWhile_eq_all_conv takeWhile_eq_take take_all_iff)
  have "?d ! length ?s = 0" using nth_length_takeWhile [OF lt] by simp
  then show ?thesis using z lt by (auto simp: cstr_at_def)
qed


lemma cstr_at_le:
  assumes "cstr_at buf p = Some s" and "p \<le> z" and "z < length buf" and "buf ! z = 0"
  shows "p + length s \<le> z"
proof (rule ccontr)
  assume "\<not> p + length s \<le> z"
  then have lt: "z - p < length s" using assms(2) by simp
  have s: "s = takeWhile (\<lambda>b. b \<noteq> 0) (drop p buf)" using assms(1) by (simp add: cstr_at_def split: if_splits)
  have "s ! (z - p) = drop p buf ! (z - p)" using lt unfolding s by (rule takeWhile_nth)
  moreover have "s ! (z - p) \<noteq> 0" using lt nth_mem [OF lt] set_takeWhileD unfolding s by fastforce
  ultimately show False using assms(2-4) by simp
qed

lemma last_nth: "xs \<noteq> [] \<Longrightarrow> last (xs[i := x]) = (if i = length xs - 1 then x else last xs)"
  by (simp add: last_conv_nth nth_list_update)

lemma strsep_ok:
  assumes l: "last buf = 0" and z: "p \<le> z" "z < length buf" "buf ! z = 0"
  shows "\<exists>buf' r. strsep buf p = Some (buf', r) \<and> length buf' = length buf \<and> last buf' = 0 \<and> buf' ! z = 0 \<and>
    (\<forall>q. r = Some q \<longrightarrow> q \<le> z)"
proof -
  have "p < length buf" using z by simp
  from cstr_at_ex [OF l this] obtain s where s: "cstr_at buf p = Some s" "p + length s < length buf" by blast
  have le: "p + length s \<le> z" by (rule cstr_at_le [OF s(1) z])
  let ?k = "length (takeWhile (\<lambda>b. b \<noteq> 32) s)"
  have ne: "buf \<noteq> []" using z by auto
  have nz: "(buf[x := 0]) ! z = 0" for x using z by (cases "x = z") simp_all
  have "last (buf[x := 0]) = 0" for x using l by (simp add: last_nth [OF ne])
  then show ?thesis using s(1) le l z nz by (simp add: strsep_def Let_def)
qed

lemma memcmp_lit_ex:
  assumes "0 \<notin> set msg" and "n \<le> length msg"
  shows "\<exists>b. memcmp_lit (msg @ [0]) lit n = Some b"
proof -
  let ?l = "length lit + 1"
  have "take ?l (msg @ [0]) \<noteq> lit @ [0]" if "?l < n"
  proof
    assume e: "take ?l (msg @ [0]) = lit @ [0]"
    have "take ?l (msg @ [0]) = take ?l msg" using that assms(2) by simp
    then have "0 \<in> set (take ?l msg)" using e by simp
    then show False using assms(1) set_take_subset by fastforce
  qed
  then show ?thesis by (auto simp: memcmp_lit_def Let_def not_le)
qed

lemma parm_ok:
  assumes "i \<le> length msg"
  shows "length (parm (msg @ [0]) (length msg) i) = length msg + 1" and "last (parm (msg @ [0]) (length msg) i) = 0"
    and "\<exists>z. z + i \<le> length msg \<and> parm (msg @ [0]) (length msg) i ! z = 0"
proof -
  let ?r = "dropWhile (\<lambda>b. b = 32) (drop i msg)"
  have l: "length ?r + i \<le> length msg"
    using length_dropWhile_le [of "\<lambda>b. b = 32" "drop i msg"] assms by simp
  have e: "parm (msg @ [0]) (length msg) i = ?r @ [0] @ drop (length ?r + 1) (msg @ [0])"
    by (simp add: parm_def Let_def)
  show "length (parm (msg @ [0]) (length msg) i) = length msg + 1" unfolding e using l by simp
  show "last (parm (msg @ [0]) (length msg) i) = 0"
  proof (cases "length ?r + 1 < length (msg @ [0])")
    case True
    then have "last (drop (length ?r + 1) (msg @ [0])) = 0" "drop (length ?r + 1) (msg @ [0]) \<noteq> []"
      by (simp_all only: last_drop drop_eq_Nil not_le) simp
    then show ?thesis unfolding e by simp
  next
    case False
    then have "drop (length ?r + 1) (msg @ [0]) = []" by simp
    then show ?thesis unfolding e by simp
  qed
  show "\<exists>z. z + i \<le> length msg \<and> parm (msg @ [0]) (length msg) i ! z = 0"
    unfolding e using l by (intro exI [of _ "length ?r"]) (simp add: nth_append)
qed

lemma gate_inv_agent:
  assumes "gate_inv g M W" and "i < length (g_conn g)" and "i \<in> ran M"
  shows "gate_inv (g\<lparr>g_conn := (g_conn g)[i := (g_conn g ! i)\<lparr>c_agent := a, c_client := c\<rparr>]\<rparr>) M W"
proof -
  let ?g = "g\<lparr>g_conn := (g_conn g)[i := (g_conn g ! i)\<lparr>c_agent := a, c_client := c\<rparr>]\<rparr>"
  have gb: "gbuf ?g = gbuf g" using assms(2) by (auto simp: gbuf_def fun_eq_iff nth_list_update)
  have "c_id (g_conn ?g ! j) = k" if "M k = Some j" for k j
    using slot_id [OF assms(1) that] slot_less [OF assms(1) that] by (cases "j = i") simp_all
  moreover have "g_conn ?g ! j = free_conn" if "j < length (g_conn g)" "j \<notin> ran M" for j
  proof -
    have "j \<noteq> i" using that(2) assms(3) by auto
    then show ?thesis using that assms(1) by (simp add: gate_inv_def)
  qed
  ultimately show ?thesis using assms(1) unfolding gate_inv_def gb by simp
qed

lemma forward_agent_ok:
  assumes "gate_inv g M W"
  shows "\<exists>g'. forward_agent g fd a c = Some g' \<and> gate_inv g' M W"
proof -
  have l: "hashid_lookup (g_hash g) fd = Some (M fd)"
    using assms hashid_lookup_ok by (auto simp: gate_inv_def)
  show ?thesis
  proof (cases "M fd")
    case None
    then show ?thesis using l assms by (simp add: forward_agent_def)
  next
    case (Some i)
    have "i < length (g_conn g)" "i \<in> ran M" using slot_less [OF assms Some] Some by (auto simp: ran_def)
    with gate_inv_agent [OF assms this] l Some show ?thesis by (simp add: forward_agent_def)
  qed
qed

lemma ctrl_forward_ok:
  assumes g: "gate_inv g M W" and l: "last buf = 0" and z: "z + 1 < length buf" "buf ! z = 0"
  shows "\<exists>g'. ctrl_forward buf g = Some g' \<and> gate_inv g' M W"
proof -
  have z0: "0 \<le> z" "z < length buf" using z by simp_all
  from strsep_ok [OF l z0 z(2)] obtain buf1 r1 where
    b1: "strsep buf 0 = Some (buf1, r1)" "length buf1 = length buf" "last buf1 = 0" "buf1 ! z = 0"
      "\<forall>q. r1 = Some q \<longrightarrow> q \<le> z" by blast
  show ?thesis
  proof (cases r1)
    case None
    then show ?thesis using b1(1) g by (simp add: ctrl_forward_def)
  next
    case (Some agent)
    then have az: "agent \<le> z" "z < length buf1" using b1(2,5) z by simp_all
    from strsep_ok [OF b1(3) az b1(4)] obtain buf2 r2 where
      b2: "strsep buf1 agent = Some (buf2, r2)" "length buf2 = length buf1" "last buf2 = 0" "\<forall>q. r2 = Some q \<longrightarrow> q \<le> z" by blast
    have "0 < length buf1" using az(2) by linarith
    from cstr_at_ex [OF b1(3) this] obtain s0 where s0: "cstr_at buf1 0 = Some s0" by blast
    show ?thesis
    proof (cases r2)
      case None
      then show ?thesis using b1(1) b2(1) Some s0 g by (simp add: ctrl_forward_def Let_def)
    next
      case client: (Some client)
      have "agent + 1 < length buf2" "client + 1 < length buf2" using az client b2(2,4) b1(2) z(1) by auto
      with cstr_at_ex [OF b2(3)] obtain s1 s2 where
        s: "cstr_at buf2 (agent + 1) = Some s1" "cstr_at buf2 (client + 1) = Some s2" by blast
      show ?thesis using b1(1) b2(1) Some s0 client s forward_agent_ok [OF g] by (simp add: ctrl_forward_def Let_def)
    qed
  qed
qed

lemma ctrl_socket_ok:
  assumes "gate_inv g M W" and "last buf = 0" and "buf \<noteq> []"
  shows "\<exists>calls. ctrl_socket f buf g = Some (calls, g)"
proof -
  have l: "hashid_lookup (g_hash g) fd = Some (M fd)" for fd
    using assms(1) hashid_lookup_ok by (auto simp: gate_inv_def)
  from cstr_at_ex [OF assms(2), of 0] assms(3) obtain s where "cstr_at buf 0 = Some s" by auto
  then show ?thesis using l by (simp add: ctrl_socket_def Let_def)
qed

lemma gate_inv_fields:
  "gate_inv (g\<lparr>g_broker := b\<rparr>) M W \<longleftrightarrow> gate_inv g M W" "gate_inv (g\<lparr>g_listen_id := k\<rparr>) M W \<longleftrightarrow> gate_inv g M W"
proof -
  have "gbuf (g\<lparr>g_broker := b\<rparr>) = gbuf g" "gbuf (g\<lparr>g_listen_id := k\<rparr>) = gbuf g" by (simp_all add: gbuf_def fun_eq_iff)
  then show "gate_inv (g\<lparr>g_broker := b\<rparr>) M W \<longleftrightarrow> gate_inv g M W" "gate_inv (g\<lparr>g_listen_id := k\<rparr>) M W \<longleftrightarrow> gate_inv g M W"
    by (simp_all add: gate_inv_def)
qed

lemma ctrl_ok:
  assumes g: "gate_inv g M W" and m: "0 \<notin> set msg"
  shows "\<exists>calls g'. ctrl query msg g = Some (calls, g') \<and> gate_inv g' M W"
proof (cases "msg = []")
  case True
  then show ?thesis using g by (simp add: ctrl_def)
next
  case False
  let ?i = "length (takeWhile (\<lambda>b. b \<noteq> 32) msg)" and ?tmp = "msg @ [0]"
  let ?p = "parm ?tmp (length msg) ?i"
  have i: "?i \<le> length msg" by (rule length_takeWhile_le)
  note p = parm_ok [OF i]
  have pne: "?p \<noteq> []" using p(1) by auto
  have c0: "\<exists>s. cstr_at ?p 0 = Some s" using cstr_at_ex [OF p(2), of 0] p(1) by auto
  have t0: "\<exists>s. cstr_at ?tmp 0 = Some s" using cstr_at_ex [of ?tmp 0] by auto
  have ex: "\<exists>b. memcmp_lit ?tmp lit ?i = Some b" for lit by (rule memcmp_lit_ex [OF m i])
  then obtain b1 b2 b3 b4 b5 where
    b: "memcmp_lit ?tmp (str ''kick'') ?i = Some b1" "memcmp_lit ?tmp (str ''forward'') ?i = Some b2"
      "memcmp_lit ?tmp (str ''broker'') ?i = Some b3" "memcmp_lit ?tmp (str ''start'') ?i = Some b4"
      "memcmp_lit ?tmp (str ''close'') ?i = Some b5" by metis
  note red = ctrl_def Let_def False b
  consider "b1" | "\<not> b1" "b2" | "\<not> b1" "\<not> b2" "b3" | "\<not> b1" "\<not> b2" "\<not> b3" "b4" | "\<not> b1" "\<not> b2" "\<not> b3" "\<not> b4" by blast
  then show ?thesis
  proof cases
    case 1
    with ctrl_socket_ok [OF g p(2) pne, of SocketClose] g show ?thesis by (auto simp: red)
  next
    case 2
    have i0: "?i \<noteq> 0"
    proof
      assume "?i = 0"
      then have "memcmp_lit ?tmp (str ''kick'') ?i = Some True" by (simp add: memcmp_lit_def Let_def)
      with b(1) 2(1) show False by simp
    qed
    obtain z where z: "z + ?i \<le> length msg" "?p ! z = 0" using p(3) by blast
    have "z + 1 < length ?p" using p(1) z(1) i0 by linarith
    from ctrl_forward_ok [OF g p(2) this z(2)] 2 show ?thesis by (auto simp: red)
  next
    case 3
    with c0 g show ?thesis by (auto simp: red gate_inv_fields)
  next
    case 4
    with ctrl_socket_ok [OF g p(2) pne, of SocketStart] g show ?thesis by (auto simp: red)
  next
    case 5
    with t0 g show ?thesis by (cases b5) (auto simp: red gate_inv_fields)
  qed
qed


subsection \<open>The callback\<close>

text \<open>
  What the node guarantees about the messages it delivers: control messages are text without a NUL; a data
  message has the bytes it announces, and a size that is not negative; an accepted socket has an id of
  its own, which is not negative.
\<close>

definition cb_delivered :: "i32 set \<Rightarrow> cb_msg \<Rightarrow> bool" where
  "cb_delivered K m \<longleftrightarrow>
     (case m of
        Text msg \<Rightarrow> 0 \<notin> set msg
      | Client _ _ \<Rightarrow> True
      | Socket sm \<Rightarrow>
          (case sm_type sm of
             SData \<Rightarrow> (case sm_buffer sm of Some b \<Rightarrow> 0 \<le> sint (sm_ud sm) \<and> unat (sm_ud sm) \<le> length b | None \<Rightarrow> False)
           | SAccept \<Rightarrow> sm_ud sm \<notin> K \<and> 0 \<le> sint (sm_ud sm)
           | _ \<Rightarrow> True)
      | OtherType \<Rightarrow> True)"

text \<open>
  The two ways an accepted connection brings the gate down: it was accepted by a socket that is not the
  one the gate listens on (the assertion of the code), or a slot is free, but the sum of the id and the
  round of the scan overflows before the scan reaches it.
\<close>

definition cb_aborts :: "gate \<Rightarrow> cb_msg \<Rightarrow> bool" where
  "cb_aborts g m \<longleftrightarrow>
     (case m of
        Socket sm \<Rightarrow> sm_type sm = SAccept \<and>
          (sm_id sm \<noteq> g_listen_id g \<or> \<not> hashid_full (g_hash g) \<and> scan_blocked (g_hash g) (sm_ud sm))
      | _ \<Rightarrow> False)"

definition cb_legal :: "gate \<Rightarrow> i32 set \<Rightarrow> cb_msg \<Rightarrow> bool" where
  "cb_legal g K m \<longleftrightarrow> cb_delivered K m \<and> \<not> cb_aborts g m"

lemmas cb_legal_defs = cb_legal_def cb_delivered_def cb_aborts_def

text \<open>The sockets the table knows afterwards.\<close>

definition cb_sockets :: "gate \<Rightarrow> i32 set \<Rightarrow> cb_msg \<Rightarrow> i32 set" where
  "cb_sockets g K m =
     (case m of
        Socket sm \<Rightarrow>
          (case sm_type sm of
             SClose \<Rightarrow> K - {sm_id sm}
           | SError \<Rightarrow> K - {sm_id sm}
           | SAccept \<Rightarrow> if hashid_full (g_hash g) then K else insert (sm_ud sm) K
           | _ \<Rightarrow> K)
      | _ \<Rightarrow> K)"

lemma gate_lookup: "gate_inv g M W \<Longrightarrow> hashid_lookup (g_hash g) fd = Some (M fd)"
  using hashid_lookup_ok by (auto simp: gate_inv_def)

lemma socket_message_ok:
  assumes g: "gate_inv g M W" and m: "cb_legal g (dom M) (Socket sm)"
  shows "\<exists>calls g' M' W'. dispatch_socket_message sm g = Some (calls, g') \<and> gate_inv g' M' W' \<and>
    dom M' = cb_sockets g (dom M) (Socket sm)"
proof (cases "sm_type sm")
  case SData
  then obtain b where b: "sm_buffer sm = Some b" "unat (sm_ud sm) \<le> length b"
    using m by (auto simp: cb_legal_defs split: option.splits)
  show ?thesis
  proof (cases "M (sm_id sm)")
    case None
    then show ?thesis using SData g by (auto simp: dispatch_socket_message_def gate_lookup [OF g] cb_sockets_def)
  next
    case (Some i)
    from dispatch_data_ok [OF g Some, of "sm_id sm" "take (unat (sm_ud sm)) b"] show ?thesis
      using SData Some b by (auto simp: dispatch_socket_message_def gate_lookup [OF g] cb_sockets_def mem_read_def)
  qed
next
  case SConnect
  then show ?thesis using g by (auto simp: dispatch_socket_message_def gate_lookup [OF g] cb_sockets_def)
next
  case SClose
  from close_conn_ok [OF g, of "sm_id sm"] obtain calls g' where
    c: "close_conn (sm_id sm) g = Some (calls, g')"
      "gate_inv g' (M(sm_id sm := None)) (case M (sm_id sm) of None \<Rightarrow> W | Some i \<Rightarrow> W(i := []))" by blast
  have "dom (M(sm_id sm := None)) = cb_sockets g (dom M) (Socket sm)" using SClose by (simp add: cb_sockets_def)
  with c SClose show ?thesis
    by (intro exI [of _ calls] exI [of _ g'] exI [of _ "M(sm_id sm := None)"]
        exI [of _ "case M (sm_id sm) of None \<Rightarrow> W | Some i \<Rightarrow> W(i := [])"] conjI)
      (simp_all add: dispatch_socket_message_def)
next
  case SError
  from close_conn_ok [OF g, of "sm_id sm"] obtain calls g' where
    c: "close_conn (sm_id sm) g = Some (calls, g')"
      "gate_inv g' (M(sm_id sm := None)) (case M (sm_id sm) of None \<Rightarrow> W | Some i \<Rightarrow> W(i := []))" by blast
  have "dom (M(sm_id sm := None)) = cb_sockets g (dom M) (Socket sm)" using SError by (simp add: cb_sockets_def)
  with c SError show ?thesis
    by (intro exI [of _ calls] exI [of _ g'] exI [of _ "M(sm_id sm := None)"]
        exI [of _ "case M (sm_id sm) of None \<Rightarrow> W | Some i \<Rightarrow> W(i := [])"] conjI)
      (simp_all add: dispatch_socket_message_def)
next
  case SAccept
  then have l: "g_listen_id g = sm_id sm" "M (sm_ud sm) = None" "0 \<le> sint (sm_ud sm)"
    "hashid_full (g_hash g) \<or> \<not> scan_blocked (g_hash g) (sm_ud sm)"
    using m by (auto simp: cb_legal_defs)
  from accept_conn_ok [OF g l(2-4), of "sm_padding sm"] obtain calls g' M' where
    a: "accept_conn (sm_ud sm) (sm_padding sm) g = Some (calls, g')" "gate_inv g' M' W"
      "if hashid_full (g_hash g) then g' = g \<and> M' = M \<and> calls = [SocketClose (sm_ud sm)]
       else \<exists>i < length (g_conn g). i \<notin> ran M \<and> W i = [] \<and> M' = M(sm_ud sm \<mapsto> i) \<and>
         (\<exists>h n. g' = g\<lparr>g_hash := h, g_conn := (g_conn g)[i := free_conn\<lparr>c_id := sm_ud sm, c_remote_name := n\<rparr>]\<rparr>)" by blast
  have "dom M' = cb_sockets g (dom M) (Socket sm)"
    using a(3) SAccept by (auto simp: cb_sockets_def split: if_splits)
  with a(1,2) SAccept l(1) show ?thesis by (auto simp: dispatch_socket_message_def)
next
  case SWarning
  then show ?thesis using g by (auto simp: dispatch_socket_message_def cb_sockets_def)
next
  case SOther
  then show ?thesis using g by (auto simp: dispatch_socket_message_def cb_sockets_def)
qed

lemma gate_cb_safe_lemma:
  assumes "gate_inv g M W" and "cb_legal g (dom M) m"
  shows "\<exists>r calls g' M' W'. gate_cb query m g = Some (r, calls, g') \<and> gate_inv g' M' W' \<and>
    dom M' = cb_sockets g (dom M) m"
proof (cases m)
  case (Text msg)
  then have "0 \<notin> set msg" using assms(2) by (simp add: cb_legal_defs)
  from ctrl_ok [OF assms(1) this, of query] obtain calls g' where
    "ctrl query msg g = Some (calls, g')" "gate_inv g' M W" by blast
  then show ?thesis using Text
    by (intro exI [of _ False] exI [of _ calls] exI [of _ g'] exI [of _ M] exI [of _ W])
      (simp add: gate_cb_def cb_sockets_def)
next
  case (Client source msg)
  then show ?thesis using assms(1) by (auto simp: gate_cb_def gate_lookup [OF assms(1)] cb_sockets_def Let_def)
next
  case (Socket sm)
  from socket_message_ok [OF assms(1) assms(2) [unfolded Socket]] obtain calls g' M' W' where
    "dispatch_socket_message sm g = Some (calls, g')" "gate_inv g' M' W'" "dom M' = cb_sockets g (dom M) (Socket sm)" by blast
  then show ?thesis using Socket
    by (intro exI [of _ False] exI [of _ calls] exI [of _ g'] exI [of _ M'] exI [of _ W']) (simp add: gate_cb_def)
next
  case OtherType
  then show ?thesis using assms(1) by (auto simp: gate_cb_def cb_sockets_def)
qed


subsection \<open>From the start\<close>

lemma gate_start_inv:
  assumes "hashid_init limit = Some h" and "0 < limit" and "g_mp g = messagepool_init"
    and "g_hash g = h" and "g_conn g = replicate (nat limit) free_conn" and "0 < g_header_size g"
  shows "gate_inv g (\<lambda>_. None) (\<lambda>_. [])"
proof -
  have le: "limit \<le> 2 ^ 30"
  proof (rule ccontr)
    assume "\<not> limit \<le> 2 ^ 30"
    then have "hashcap_loop (2 ^ 4) limit = None" by (intro hashcap_loop_overflow) simp_all
    then show False using assms(1) by (simp add: hashid_init_def)
  qed
  from hashid_init_holds [OF assms(2) le] assms(1) have h: "hi_holds h (\<lambda>_. None)" "hi_cap h = nat limit" by simp_all
  have gb: "gbuf g = (\<lambda>_. databuffer_init)" using assms(5) by (auto simp: gbuf_def fun_eq_iff free_conn_def)
  have "\<forall>i. db_pending (g_header_size g) databuffer_init [] []" by (simp add: db_pending_def databuffer_init_def)
  then show ?thesis
    unfolding gate_inv_def gb using assms h bufs_init by auto
qed

lemma gate_init_inv:
  assumes "gate_init query listen p gate_create = Some (0, calls, g)"
  shows "gate_inv g (\<lambda>_. None) (\<lambda>_. [])"
proof -
  from assms obtain args header watchdog binding client_tag limit where
    a: "p = Some args" "gate_sscanf args = Some (header, watchdog, binding, client_tag, limit)"
    by (auto simp: gate_init_def split: option.splits)
  let ?wd = "if hd watchdog = 33 then 0 else query watchdog"
  have n: "\<not> sint limit \<le> 0" "\<not> (header \<noteq> 83 \<and> header \<noteq> 76)" "\<not> (hd watchdog \<noteq> 33 \<and> ?wd = 0)"
    using assms by (auto simp: gate_init_def a Let_def split: if_splits)
  let ?g2 = "\<lambda>h. (gate_create\<lparr>g_watchdog := ?wd\<rparr>)\<lparr>g_hash := h, g_conn := replicate (nat (sint limit)) free_conn,
     g_max_connection := sint limit, g_client_tag := (if client_tag = 0 then ucast PTYPE_CLIENT else client_tag),
     g_header_size := (if header = 83 then 2 else 4)\<rparr>"
  have e: "gate_init query listen p gate_create =
      do { h \<leftarrow> hashid_init (sint limit); let (r, calls, g3) = start_listen listen binding (?g2 h); Some (r, Callback # calls, g3) }"
    by (simp only: gate_init_def a option.case prod.case Let_def n if_False)
  obtain h where h: "hashid_init (sint limit) = Some h" using assms unfolding e by (auto split: bind_splits)
  obtain r cs g3 where l: "start_listen listen binding (?g2 h) = (r, cs, g3)" by (cases "start_listen listen binding (?g2 h)")
  have "g = g3" using assms l unfolding e h by simp
  moreover have "\<exists>k. g3 = (?g2 h)\<lparr>g_listen_id := k\<rparr>"
  proof -
    have "g3 = ?g2 h \<or> (\<exists>k. g3 = (?g2 h)\<lparr>g_listen_id := k\<rparr>)"
      using l by (auto simp: start_listen_def Let_def split_beta split: if_splits)
    then show ?thesis by (metis (no_types, lifting) gate.simps(1) gate.surjective gate.update_convs(1))
  qed
  then obtain k where k: "g3 = (?g2 h)\<lparr>g_listen_id := k\<rparr>" by blast
  have "gate_inv g3 (\<lambda>_. None) (\<lambda>_. [])"
    by (rule gate_start_inv [OF h]) (use n(1) in \<open>simp_all add: k gate_create_def\<close>)
  ultimately show ?thesis by simp
qed


fun gate_run :: "(u8 list \<Rightarrow> u32) \<Rightarrow> cb_msg list \<Rightarrow> gate \<Rightarrow> (call list \<times> gate) option" where
  "gate_run query [] g = Some ([], g)"
| "gate_run query (m # ms) g = do {
     (_, calls, g1) \<leftarrow> gate_cb query m g;
     (out, g2) \<leftarrow> gate_run query ms g1;
     Some (calls @ out, g2) }"

text \<open>Each message is one the node can deliver, and does not abort, in the state it arrives in.\<close>

fun gate_legal :: "(u8 list \<Rightarrow> u32) \<Rightarrow> cb_msg list \<Rightarrow> gate \<Rightarrow> i32 set \<Rightarrow> bool" where
  "gate_legal query [] g K \<longleftrightarrow> True"
| "gate_legal query (m # ms) g K \<longleftrightarrow> cb_legal g K m \<and>
     (case gate_cb query m g of Some (_, _, g1) \<Rightarrow> gate_legal query ms g1 (cb_sockets g K m) | None \<Rightarrow> True)"

lemma gate_run_ok:
  "gate_inv g M W \<Longrightarrow> gate_legal query ms g (dom M) \<Longrightarrow>
   \<exists>out g' M' W'. gate_run query ms g = Some (out, g') \<and> gate_inv g' M' W'"
proof (induction ms arbitrary: g M W)
  case (Cons m ms)
  have l: "cb_legal g (dom M) m" using Cons.prems(2) by simp
  from gate_cb_safe_lemma [OF Cons.prems(1) l, of query] obtain r calls g1 M1 W1 where
    c: "gate_cb query m g = Some (r, calls, g1)" "gate_inv g1 M1 W1" "dom M1 = cb_sockets g (dom M) m" by blast
  have "gate_legal query ms g1 (dom M1)" using Cons.prems(2) c(1,3) by simp
  from Cons.IH [OF c(2) this] obtain out g' M' W' where
    "gate_run query ms g1 = Some (out, g')" "gate_inv g' M' W'" by blast
  with c(1) show ?case by (intro exI [of _ "calls @ out"] exI [of _ g'] exI [of _ M'] exI [of _ W']) simp
qed auto

lemma gate_start:
  assumes "hashid_init limit = Some h" and "0 < limit"
  shows "gate_inv (gate_create\<lparr>g_watchdog := wd, g_listen_id := k, g_hash := h,
      g_conn := replicate (nat limit) free_conn, g_header_size := Suc n\<rparr>) (\<lambda>_. None) (\<lambda>_. [])"
  by (rule gate_start_inv [OF assms]) (simp_all add: gate_create_def)

text \<open>A gate with one connection, for the examples.\<close>

lemma demo_gate:
  "\<exists>g i. gate_inv g [5 \<mapsto> i] (\<lambda>_. []) \<and> g_header_size g = Suc n \<and> g_watchdog g = wd \<and> g_broker g = 0 \<and>
     c_id (g_conn g ! i) = 5 \<and> g_listen_id g = 9 \<and> length (g_conn g) = 2 \<and> c_agent (g_conn g ! i) = 0"
proof -
  from hashid_init_holds [of 2] obtain h where h: "hashid_init 2 = Some h" "hi_holds h (\<lambda>_. None)" "hi_cap h = 2" by auto
  let ?g = "gate_create\<lparr>g_watchdog := wd, g_listen_id := 9, g_hash := h, g_conn := replicate (nat 2) free_conn, g_header_size := Suc n\<rparr>"
  have g: "gate_inv ?g (\<lambda>_. None) (\<lambda>_. [])" by (rule gate_start [OF h(1)]) simp
  have nf: "\<not> hashid_full (g_hash ?g)" using hi_full_iff(1) [OF h(2)] h(3) by simp
  have fit: "\<not> scan_blocked (g_hash ?g) 5" using fits_not_blocked [OF h(2), of 5] nf h(3) by simp
  from accept_conn_ok [OF g refl _ disjI2 [OF fit], of "[]"] nf obtain g' i h' nm where
    a: "gate_inv g' [5 \<mapsto> i] (\<lambda>_. [])" "i < length (g_conn ?g)"
      "g' = ?g\<lparr>g_hash := h', g_conn := (g_conn ?g)[i := free_conn\<lparr>c_id := 5, c_remote_name := nm\<rparr>]\<rparr>"
    by auto
  then have "g_header_size g' = Suc n \<and> g_watchdog g' = wd \<and> g_broker g' = 0 \<and>
     c_id (g_conn g' ! i) = 5 \<and> g_listen_id g' = 9 \<and> length (g_conn g') = 2 \<and> c_agent (g_conn g' ! i) = 0"
    by (simp add: gate_create_def free_conn_def)
  with a(1) show ?thesis by blast
qed


definition data_msg :: "i32 \<Rightarrow> u8 list \<Rightarrow> cb_msg" where
  "data_msg fd bs = Socket \<lparr>sm_type = SData, sm_id = fd, sm_ud = of_nat (length bs), sm_buffer = Some bs, sm_padding = []\<rparr>"


text \<open>
  A data message for a connection that has a receiver (the broker, its agent or the watchdog)
  makes exactly the calls for the packages its stream completes, in order, and then, when an announced
  length is 16M or more, closes the socket; what is not complete stays for the next message. \<open>gate_cut\<close>
  reads the stream, whatever the segments were.
\<close>

theorem gate_forwards:
  assumes "gate_inv g M W" and "M (sm_id sm) = Some i" and "receiver g i"
    and "sm_type sm = SData" and "sm_buffer sm = Some b" and "unat (sm_ud sm) \<le> length b"
    and "gate_cut True (g_header_size g) (W i @ take (unat (sm_ud sm)) b) = (fs, e)"
  shows "\<exists>g'. gate_cb query (Socket sm) g =
      Some (False, map (package_call g i) fs @ end_calls (sm_id sm) e, g') \<and> gate_inv g' M (W(i := left_over e))"
  using dispatch_data_ok [OF assms(1,2), of "sm_id sm" "take (unat (sm_ud sm)) b"] assms(2-7)
  by (auto simp: gate_cb_def dispatch_socket_message_def gate_lookup [OF assms(1)] mem_read_def)



theorem gate_forwards_witness:
  "\<exists>g i g' W. gate_inv g [5 \<mapsto> i] W \<and> receiver g i \<and>
     gate_cb (\<lambda>_. 0) (data_msg 5 [0, 1, 9, 0, 2, 8]) g = Some (False, [package_call g i [9]], g') \<and>
     gate_inv g' [5 \<mapsto> i] (W(i := [0, 2, 8]))"
proof -
  obtain g i where g: "gate_inv g [5 \<mapsto> i] (\<lambda>_. [])" "g_header_size g = Suc 1" "g_watchdog g = 7" "c_id (g_conn g ! i) = 5"
    using demo_gate [of 1 7] by blast
  have r: "receiver g i" using g(3,4) by (simp add: receiver_def)
  have c: "gate_cut True 2 [0, 1, 9, 0, 2, 8] = ([[9]], Wait [0, 2, 8])"
    by (simp add: gate_cut.simps [of True 2 "[0, 1, 9, 0, 2, 8]"] gate_cut.simps [of True 2 "[0, 2, 8]"] header_value_def Let_def)
  let ?sm = "\<lparr>sm_type = SData, sm_id = 5, sm_ud = 6, sm_buffer = Some [0, 1, 9, 0, 2, 8], sm_padding = []\<rparr>"
  have "\<exists>g'. gate_cb (\<lambda>_. 0) (Socket ?sm) g = Some (False, map (package_call g i) [[9]] @ end_calls (sm_id ?sm) (Wait [0, 2, 8]), g') \<and>
      gate_inv g' [5 \<mapsto> i] ((\<lambda>_. [])(i := left_over (Wait [0, 2, 8])))"
  proof (rule gate_forwards [OF g(1) _ r])
    show "unat (sm_ud ?sm) \<le> length [0, 1, 9, 0, 2, 8 :: u8]" by simp
    have "g_header_size g = 2" "take (unat (sm_ud ?sm)) [0, 1, 9, 0, 2, 8] = [0, 1, 9, 0, 2, 8 :: u8]" using g(2) by simp_all
    then show "gate_cut True (g_header_size g) ([] @ take (unat (sm_ud ?sm)) [0, 1, 9, 0, 2, 8]) = ([[9]], Wait [0, 2, 8])"
      using c by (simp only: append_Nil)
  qed simp_all
  then obtain g' where "gate_cb (\<lambda>_. 0) (Socket ?sm) g = Some (False, [package_call g i [9]], g')"
    "gate_inv g' [5 \<mapsto> i] ((\<lambda>_. [])(i := [0, 2, 8]))" by (auto simp: end_calls_def)
  then show ?thesis using g(1) r by (intro exI [of _ g] exI [of _ i] exI [of _ g'] exI [of _ "\<lambda>_. []"]) (simp add: data_msg_def)
qed

subsection \<open>Segments\<close>

lemma cut_append:
  "gate_cut r hs xs = (fs, e) \<Longrightarrow>
   gate_cut r hs (xs @ ys) =
     (case e of Wait u \<Rightarrow> (fs @ fst (gate_cut r hs (u @ ys)), snd (gate_cut r hs (u @ ys)))
      | TooBig \<Rightarrow> (fs, TooBig) | Stuck u \<Rightarrow> (fs, Stuck (u @ ys)))"
proof (induction r hs xs arbitrary: fs e rule: gate_cut.induct [case_names step])
  case (step r hs xs)
  let ?n = "header_value (take hs xs)" and ?rest = "drop hs xs"
  show ?case
  proof (cases "hs = 0 \<or> length xs < hs")
    case True
    then have "fs = [] \<and> e = Wait xs" using step.prems by (simp add: gate_cut.simps)
    then show ?thesis by simp
  next
    case False
    then have hs: "0 < hs" "hs \<le> length xs" "hs \<le> length (xs @ ys)" by simp_all
    have tk: "take hs (xs @ ys) = take hs xs" "drop hs (xs @ ys) = ?rest @ ys" using hs(2) by simp_all
    consider (stuck) "?n < 0" | (wait) "int (length xs - hs) < ?n" | (zero) "?n = 0"
      | (big) "?n \<le> int (length xs - hs)" "0x1000000 \<le> ?n"
      | (pkg) "0 < ?n" "?n \<le> int (length xs - hs)" "?n < 0x1000000" by linarith
    then show ?thesis
    proof cases
      case stuck
      then have "fs = [] \<and> e = Stuck xs" using step.prems cut_stuck [OF hs(1,2)] by simp
      moreover have "gate_cut r hs (xs @ ys) = ([], Stuck (xs @ ys))"
        using stuck hs by (intro cut_stuck [OF hs(1,3)]) simp
      ultimately show ?thesis by simp
    next
      case wait
      then have "fs = [] \<and> e = Wait xs" using step.prems cut_wait [OF hs(1,2)] by simp
      then show ?thesis by simp
    next
      case zero
      have z: "gate_cut r hs xs = gate_cut r hs ?rest" by (rule cut_zero [OF hs(1,2) zero])
      have "gate_cut r hs (xs @ ys) = gate_cut r hs (?rest @ ys)"
        using cut_zero [OF hs(1,3), of r] zero hs by simp
      moreover have "\<not> ?n < 0" "\<not> int (length ?rest) < ?n" "\<not> 0x1000000 \<le> ?n" using zero by simp_all
      ultimately show ?thesis
        using step.IH [OF False refl refl, of fs e] step.prems zero unfolding z by (cases r) simp_all
    next
      case big
      then have "fs = [] \<and> e = TooBig" using step.prems cut_big [OF hs(1,2)] by simp
      moreover have "gate_cut r hs (xs @ ys) = ([], TooBig)"
        using big hs by (intro cut_big [OF hs(1,3)]) simp_all
      ultimately show ?thesis by simp
    next
      case pkg
      have c: "\<not> ?n < 0" "\<not> int (length ?rest) < ?n" "\<not> 0x1000000 \<le> ?n" using pkg by simp_all
      note cut = cut_package [OF hs(1,2) refl pkg]
      have n2: "?n = header_value (take hs (xs @ ys))" "?n \<le> int (length (xs @ ys) - hs)" using pkg tk by simp_all
      note cut2 = cut_package [OF hs(1,3) n2(1) pkg(1) n2(2) pkg(3), unfolded tk]
      have le: "nat ?n \<le> length ?rest" using pkg by (simp add: nat_le_iff)
      show ?thesis
      proof (cases r)
        case True
        then have r: "r = True" by simp
        have "gate_cut True hs (drop (nat ?n) ?rest @ ys) =
           (case e of Wait u \<Rightarrow> (tl fs @ fst (gate_cut True hs (u @ ys)), snd (gate_cut True hs (u @ ys)))
            | TooBig \<Rightarrow> (tl fs, TooBig) | Stuck u \<Rightarrow> (tl fs, Stuck (u @ ys)))"
          using step.IH [OF False refl refl c, of "tl fs" e] step.prems cut(1) unfolding r by auto
        moreover have "fs = take (nat ?n) ?rest # tl fs" using step.prems cut(1) True by auto
        ultimately show ?thesis using True cut2(1) le by (cases e) (auto split: prod.splits)
      next
        case nr: False
        show ?thesis using step.IH [OF False refl refl c, of fs e] step.prems cut(2) cut2(2) nr by simp
      qed
    qed
  qed
qed


fun gate_feed :: "(u8 list \<Rightarrow> u32) \<Rightarrow> i32 \<Rightarrow> u8 list list \<Rightarrow> gate \<Rightarrow> (call list \<times> gate) option" where
  "gate_feed query fd [] g = Some ([], g)"
| "gate_feed query fd (seg # segs) g = do {
     (_, calls, g1) \<leftarrow> gate_cb query (data_msg fd seg) g;
     (out, g2) \<leftarrow> gate_feed query fd segs g1;
     Some (calls @ out, g2) }"

lemma data_msg_ok:
  assumes "gate_inv g M W" and "M fd = Some i" and "length seg < 2 ^ 32"
  shows "\<exists>g'. gate_cb query (data_msg fd seg) g =
      Some (False, map (package_call g i) (fst (gate_cut (receiver g i) (g_header_size g) (W i @ seg))) @
        end_calls fd (snd (gate_cut (receiver g i) (g_header_size g) (W i @ seg))), g') \<and>
    gate_inv g' M (W(i := left_over (snd (gate_cut (receiver g i) (g_header_size g) (W i @ seg))))) \<and>
    (\<exists>db mp. g' = gate_with i db mp g)"
proof -
  have "unat (of_nat (length seg) :: i32) = length seg"
    using assms(3) by (simp add: unsigned_of_nat take_bit_nat_eq_self)
  then have "gate_cb query (data_msg fd seg) g = do { (calls, g') \<leftarrow> dispatch_data i fd seg g; Some (False, calls, g') }"
    by (simp add: gate_cb_def data_msg_def dispatch_socket_message_def gate_lookup [OF assms(1)] assms(2) mem_read_def)
  moreover from dispatch_data_ok [OF assms(1,2), of fd seg] obtain g' where
    "dispatch_data i fd seg g = Some (map (package_call g i) (fst (gate_cut (receiver g i) (g_header_size g) (W i @ seg))) @
        end_calls fd (snd (gate_cut (receiver g i) (g_header_size g) (W i @ seg))), g')"
    "gate_inv g' M (W(i := left_over (snd (gate_cut (receiver g i) (g_header_size g) (W i @ seg)))))"
    "\<exists>db mp. g' = gate_with i db mp g" by blast
  ultimately show ?thesis by (intro exI [of _ g']) (simp del: fun_upd_apply)
qed

lemma gate_with_same:
  assumes "i < length (g_conn g)"
  shows "receiver (gate_with i db mp g) i = receiver g i" and "package_call (gate_with i db mp g) i = package_call g i"
  using assms by (auto simp: receiver_def package_call_def gate_with_conn fun_eq_iff Let_def)

lemma gate_feed_ok:
  "gate_inv g M W \<Longrightarrow> M fd = Some i \<Longrightarrow> receiver g i \<Longrightarrow> \<forall>seg\<in>set segs. length seg < 2 ^ 32 \<Longrightarrow>
   gate_cut True (g_header_size g) (W i) = ([], Wait (W i)) \<Longrightarrow>
   gate_cut True (g_header_size g) (W i @ concat segs) = (fs, Wait u) \<Longrightarrow>
   \<exists>g'. gate_feed query fd segs g = Some (map (package_call g i) fs, g') \<and> gate_inv g' M (W(i := u))"
proof (induction segs arbitrary: g W fs)
  case Nil
  then have "W(i := u) = W" "fs = []" by auto
  with Nil show ?case by simp
next
  case (Cons seg segs)
  let ?hs = "g_header_size g"
  note g = Cons.prems(1) and M = Cons.prems(2) and r = Cons.prems(3)
  obtain fs1 e where c1: "gate_cut True ?hs (W i @ seg) = (fs1, e)" by force
  have all: "gate_cut True ?hs ((W i @ seg) @ concat segs) = (fs, Wait u)" using Cons.prems(6) by simp
  from all cut_append [OF c1, of "concat segs"] obtain u1 where
    e: "e = Wait u1" "fs = fs1 @ fst (gate_cut True ?hs (u1 @ concat segs))" "snd (gate_cut True ?hs (u1 @ concat segs)) = Wait u"
    by (cases e) simp_all
  have sl: "length seg < 2 ^ 32" using Cons.prems(4) by simp
  from data_msg_ok [OF g M sl, of query] obtain g1 db mp where
    s: "gate_cb query (data_msg fd seg) g = Some (False, map (package_call g i) fs1, g1)"
      "gate_inv g1 M (W(i := u1))" "g1 = gate_with i db mp g"
    using c1 e(1) r by (auto simp: end_calls_def)
  have i: "i < length (g_conn g)" using slot_less [OF g M] .
  note same = gate_with_same [OF i, of db mp, folded s(3)]
  have hs1: "g_header_size g1 = ?hs" by (simp add: s(3))
  have idem: "gate_cut True ?hs u1 = ([], Wait u1)"
    using cut_append [OF c1, of "[]"] c1 e(1) by (simp add: prod_eq_iff)
  have "gate_cut True ?hs (u1 @ concat segs) = (fst (gate_cut True ?hs (u1 @ concat segs)), Wait u)"
    using e(3) by (simp add: prod_eq_iff)
  then have "\<exists>g'. gate_feed query fd segs g1 = Some (map (package_call g1 i) (fst (gate_cut True ?hs (u1 @ concat segs))), g') \<and>
      gate_inv g' M ((W(i := u1))(i := u))"
    using Cons.prems(4) r same(1) idem hs1 by (intro Cons.IH [OF s(2) M]) simp_all
  then obtain g' where "gate_feed query fd segs g1 = Some (map (package_call g i) (fst (gate_cut True ?hs (u1 @ concat segs))), g')"
    "gate_inv g' M (W(i := u))" unfolding same(2) fun_upd_upd by blast
  then show ?case using s(1) e(2) by (simp del: fun_upd_apply)
qed

text \<open>
  Property C17. What a connection with a receiver forwards does not depend on how its stream was cut: for
  any segments whose concatenation completes the packages \<open>fs\<close> (and announces nothing of 16M or more),
  the data messages make exactly the calls for \<open>fs\<close>, in order, and leave the same rest.
\<close>

theorem gate_segments:
  assumes "gate_inv g M W" and "M fd = Some i" and "receiver g i" and "W i = []"
    and "\<forall>seg\<in>set segs. length seg < 2 ^ 32"
    and "gate_cut True (g_header_size g) (concat segs) = (fs, Wait u)"
  shows "\<exists>g'. gate_feed query fd segs g = Some (map (package_call g i) fs, g') \<and> gate_inv g' M (W(i := u))"
proof -
  have hs: "0 < g_header_size g" using assms(1) by (simp add: gate_inv_def)
  show ?thesis
    by (rule gate_feed_ok [OF assms(1-3,5)]) (use assms(4,6) hs in \<open>simp_all add: cut_short\<close>)
qed

theorem gate_segments_witness:
  "\<exists>g i g' W. gate_inv g [5 \<mapsto> i] W \<and> receiver g i \<and>
     gate_feed (\<lambda>_. 0) 5 [[0], [1, 9, 0], [], [2, 8]] g = Some ([package_call g i [9]], g') \<and>
     gate_inv g' [5 \<mapsto> i] (W(i := [0, 2, 8]))"
proof -
  obtain g i where g: "gate_inv g [5 \<mapsto> i] (\<lambda>_. [])" "g_header_size g = Suc 1" "g_watchdog g = 7" "c_id (g_conn g ! i) = 5"
    using demo_gate [of 1 7] by blast
  have r: "receiver g i" using g(3,4) by (simp add: receiver_def)
  have hs: "g_header_size g = 2" using g(2) by simp
  have "gate_cut True 2 (concat [[0], [1, 9, 0], [], [2, 8]]) = ([[9]], Wait [0, 2, 8])"
    by (simp add: gate_cut.simps [of True 2 "[0, 1, 9, 0, 2, 8]"] gate_cut.simps [of True 2 "[0, 2, 8]"] header_value_def Let_def)
  from gate_segments [OF g(1) _ r refl, of 5 "[[0], [1, 9, 0], [], [2, 8]]", unfolded hs, OF _ _ this, of "\<lambda>_. 0"]
  obtain g' where "gate_feed (\<lambda>_. 0) 5 [[0], [1, 9, 0], [], [2, 8]] g = Some ([package_call g i [9]], g')"
    "gate_inv g' [5 \<mapsto> i] ((\<lambda>_. [])(i := [0, 2, 8]))" by auto
  with g(1) r show ?thesis by blast
qed

subsection \<open>Where the code does something else than it means to\<close>

text \<open>
  Property C29. With headers of four bytes, an announced length of \<open>2 ^ 31\<close> or more is read as a negative
  \<open>int\<close>, which the loop takes for "wait": the check for 16M is not reached, the connection is not closed,
  and every later segment is only stored, whatever it holds.
\<close>

theorem gate_negative_length_stuck:
  assumes "gate_inv g M W" and "M fd = Some i" and "length seg < 2 ^ 32"
    and "g_header_size g \<le> length (W i)" and "header_value (take (g_header_size g) (W i)) < 0"
  shows "\<exists>g'. gate_cb query (data_msg fd seg) g = Some (False, [], g') \<and> gate_inv g' M (W(i := W i @ seg))"
proof -
  have hs: "0 < g_header_size g" using assms(1) by (simp add: gate_inv_def)
  have "gate_cut r (g_header_size g) (W i @ seg) = ([], Stuck (W i @ seg))" for r
    using assms(4,5) hs by (intro cut_stuck) simp_all
  with data_msg_ok [OF assms(1-3), of query] show ?thesis by (auto simp: end_calls_def)
qed

theorem gate_negative_length_stuck_witness:
  "\<exists>g g' M W i. gate_inv g M W \<and> W i = [0x80, 0, 0, 0] \<and> gate_cb (\<lambda>_. 0) (data_msg 5 [1, 2, 3]) g = Some (False, [], g') \<and>
     gate_inv g' M (W(i := [0x80, 0, 0, 0, 1, 2, 3]))"
proof -
  obtain g i where g: "gate_inv g [5 \<mapsto> i] (\<lambda>_. [])" "g_header_size g = Suc 3"
    using demo_gate [of 3 7] by blast
  have hs: "g_header_size g = 4" using g(2) by simp
  have v: "header_value [0x80, 0, 0, 0] < 0" by (simp add: header_value_def horner_sum_simps)
  then have "gate_cut (receiver g i) 4 [0x80, 0, 0, 0] = ([], Stuck [0x80, 0, 0, 0])" by (intro cut_stuck) simp_all
  with data_msg_ok [OF g(1), of 5 i "[0x80, 0, 0, 0]" "\<lambda>_. 0"] hs obtain g1 db mp where
    g1: "gate_inv g1 [5 \<mapsto> i] ((\<lambda>_. [])(i := [0x80, 0, 0, 0]))" "g1 = gate_with i db mp g" by auto
  have "g_header_size g1 = 4" using g1(2) hs by simp
  with gate_negative_length_stuck [OF g1(1), of 5 i "[1, 2, 3]" "\<lambda>_. 0"] v obtain g2 where
    "gate_cb (\<lambda>_. 0) (data_msg 5 [1, 2, 3]) g1 = Some (False, [], g2)"
    "gate_inv g2 [5 \<mapsto> i] ((\<lambda>_. [])(i := [0x80, 0, 0, 0, 1, 2, 3]))" by auto
  with g1(1) show ?thesis
    by (intro exI [of _ g1] exI [of _ g2] exI [of _ "[5 \<mapsto> i]"] exI [of _ "(\<lambda>_. [])(i := [0x80, 0, 0, 0])"] exI [of _ i]) simp
qed

text \<open>
  Without a broker, an agent and a watchdog, \<open>_forward\<close> leaves the package in the buffer but
  its header is taken as done: the payload is then read as headers. Here the one package of the stream,
  \<open>[0, 5]\<close>, stays behind as the announcement of a package of five bytes, which the agent that is set
  next will get from the middle of the packages that follow.
\<close>

theorem gate_no_receiver_desync:
  assumes "gate_inv g M W" and "M fd = Some i" and "\<not> receiver g i" and "g_header_size g = 2" and "W i = []"
  shows "gate_cut True 2 [0, 2, 0, 5] = ([[0, 5]], Wait []) \<and>
    (\<exists>g'. gate_cb query (data_msg fd [0, 2, 0, 5]) g = Some (False, [], g') \<and> gate_inv g' M (W(i := [0, 5])))"
proof
  show "gate_cut True 2 [0, 2, 0, 5] = ([[0, 5]], Wait [])"
    by (simp add: gate_cut.simps [of True 2 "[0, 2, 0, 5]"] gate_cut.simps [of True 2 "[]"] header_value_def Let_def)
  have "gate_cut False 2 [0, 2, 0, 5] = ([], Wait [0, 5])"
    by (simp add: gate_cut.simps [of False 2 "[0, 2, 0, 5]"] gate_cut.simps [of False 2 "[0, 5]"] header_value_def Let_def)
  with data_msg_ok [OF assms(1,2), of "[0, 2, 0, 5]" query] assms(3-5)
  show "\<exists>g'. gate_cb query (data_msg fd [0, 2, 0, 5]) g = Some (False, [], g') \<and> gate_inv g' M (W(i := [0, 5]))"
    by (auto simp: end_calls_def)
qed

theorem gate_no_receiver_desync_witness:
  "\<exists>g i g'. gate_inv g [5 \<mapsto> i] (\<lambda>_. []) \<and> gate_cb (\<lambda>_. 0) (data_msg 5 [0, 2, 0, 5]) g = Some (False, [], g') \<and>
     gate_inv g' [5 \<mapsto> i] ((\<lambda>_. [])(i := [0, 5]))"
proof -
  obtain g i where g: "gate_inv g [5 \<mapsto> i] (\<lambda>_. [])" "g_header_size g = Suc 1" "g_watchdog g = 0" "g_broker g = 0"
    "c_agent (g_conn g ! i) = 0"
    using demo_gate [of 1 0] by blast
  have "\<not> receiver g i" "g_header_size g = 2" using g(2-5) by (simp_all add: receiver_def)
  from gate_no_receiver_desync [OF g(1) _ this refl, of 5 "\<lambda>_. 0"] g(1) show ?thesis by auto
qed

text \<open>
  The command word is compared only up to its own length: every prefix of \<open>kick\<close>, here its
  first letter, closes the socket, where an unknown command is meant to be reported.
\<close>

theorem gate_ctrl_prefix_kicks:
  assumes "gate_inv g M W" and "M 5 = Some i"
  shows "ctrl query (str ''k 5'') g = Some ([SocketClose 5], g)"
proof -
  have s: "str ''k 5'' = [107, 32, 53]" "str ''kick'' = [107, 105, 99, 107]" by (simp_all add: str_def)
  have "ctrl_socket SocketClose (parm [107, 32, 53, 0] 3 1) g = Some ([SocketClose 5], g)"
    by (simp add: parm_def ctrl_socket_def cstr_at_def gate_lookup [OF assms(1)] assms(2) strtol10_def digit_val_def c_isspace_def Let_def)
  then show ?thesis unfolding ctrl_def s by (simp add: memcmp_lit_def Let_def numeral_3_eq_3)
qed

theorem gate_ctrl_prefix_kicks_witness:
  "\<exists>g i. gate_inv g [5 \<mapsto> i] (\<lambda>_. []) \<and> ctrl (\<lambda>_. 0) (str ''k 5'') g = Some ([SocketClose 5], g)"
proof -
  obtain g :: gate and i where g: "gate_inv g [5 \<mapsto> i] (\<lambda>_. [])" using demo_gate [of 1 7] by blast
  with gate_ctrl_prefix_kicks [OF g, of i "\<lambda>_. 0"] show ?thesis by auto
qed

text \<open>
  From a successful \<open>gate_init\<close> on, the gate handles every sequence of messages the node can
  deliver, none of which aborts in the state it arrives in: no callback fails.
\<close>

theorem gate_run_safe:
  assumes "gate_init query listen p gate_create = Some (0, calls, g)" and "gate_legal query ms g {}"
  shows "\<exists>out g'. gate_run query ms g = Some (out, g')"
  using gate_run_ok [OF gate_init_inv [OF assms(1)], of query ms] assms(2) by auto

definition demo_accept :: cb_msg where
  "demo_accept = Socket \<lparr>sm_type = SAccept, sm_id = 9, sm_ud = 5, sm_buffer = None, sm_padding = [49]\<rparr>"

theorem gate_run_safe_witness:
  "\<exists>calls g out g'. gate_init (\<lambda>_. 7) (\<lambda>_ _. 9) (Some (str ''S ! 8888 0 2'')) gate_create = Some (0, calls, g) \<and>
     gate_run (\<lambda>_. 7) [demo_accept] g = Some (out, g')"
proof -
  have s: "str ''S ! 8888 0 2'' = [83, 32, 33, 32, 56, 56, 56, 56, 32, 48, 32, 50]" by (simp add: str_def)
  have p: "gate_sscanf [83, 32, 33, 32, 56, 56, 56, 56, 32, 48, 32, 50] = Some (83, [33], [56, 56, 56, 56], 0, 2)"
    by (simp add: gate_sscanf_def scan_str_def scan_int_def c_isspace_def is_decimal_def strtol10_def digit_val_def Let_def)
  from hashid_init_holds [of 2] obtain h where h: "hashid_init 2 = Some h" by auto
  obtain calls g where g: "gate_init (\<lambda>_. 7) (\<lambda>_ _. 9) (Some (str ''S ! 8888 0 2'')) gate_create = Some (0, calls, g)"
    "g_listen_id g = 9" "length (g_conn g) = 2"
    using h p by (auto simp: gate_init_def s start_listen_def listen_split_def strtol10_def digit_val_def c_isspace_def Let_def)
  have "hi_holds (g_hash g) (\<lambda>_. None)" "hi_cap (g_hash g) = 2"
    using gate_init_inv [OF g(1)] g(3) by (simp_all add: gate_inv_def)
  from hi_full_iff(1) [OF this(1)] fits_not_blocked [OF this(1), of 5] this(2)
  have nb: "\<not> scan_blocked (g_hash g) 5" by simp
  have "gate_legal (\<lambda>_. 7) [demo_accept] g {}"
    using g(2) nb by (auto simp: cb_legal_defs demo_accept_def split: option.splits)
  from gate_run_safe [OF g(1) this] g(1) show ?thesis by blast
qed

end
