(* ===== verification/Harbor.thy ===== *)
theory Harbor
  imports Message Format Interfaces Ring
begin

section \<open>The harbor service (service-src/service_harbor.c)\<close>

text \<open>
  The harbor of a node carries messages to the services of other nodes. For every other node it keeps a
  slave: the socket, the state of its input and a queue of messages that wait for the connection. For
  every global name it keeps the handle, or a queue of messages that wait for it. Messages cross a socket
  as frames: four bytes of length, the payload, and the header of twelve bytes behind it.

  A message is the list of its bytes, which is owned by the queue it is in; what the harbor asks of the node
  is the list of calls each function returns, in order, where \<open>HFree\<close> is the end of a message that was not
  handed over. \<open>live\<close> says which local handles \<open>skynet_send\<close> finds. \<open>None\<close> is a failed assertion or an
  access outside of a buffer. A frame is less than 2^24 bytes, so \<open>int\<close> lengths are natural numbers.
\<close>

subsection \<open>State\<close>

definition HASH_SIZE :: nat where "HASH_SIZE = 4096"
definition HARBOR_QUEUE_SIZE :: nat where "HARBOR_QUEUE_SIZE = 1024"
definition HEADER_COOKIE_LENGTH :: nat where "HEADER_COOKIE_LENGTH = 12"
definition REMOTE_MAX :: nat where "REMOTE_MAX = 256"

record remote_message_header =
  h_source :: u32
  h_destination :: u32
  h_session :: u32

record harbor_msg =
  hm_header :: remote_message_header
  hm_buffer :: "u8 list"

record harbor_msg_queue =
  hq_size :: nat
  hq_head :: nat
  hq_tail :: nat
  hq_data :: "harbor_msg array"

record keyvalue =
  kv_key :: "u8 list"
  kv_hash :: u32
  kv_value :: u32
  kv_queue :: "harbor_msg_queue option"

text \<open>\<open>STATUS_WAIT\<close>, \<open>STATUS_HANDSHAKE\<close>, \<open>STATUS_HEADER\<close>, \<open>STATUS_CONTENT\<close>, \<open>STATUS_DOWN\<close>.\<close>

datatype status = Wait | Handshake | Header | Content | Down

record slave =
  sl_fd :: i32
  sl_queue :: "harbor_msg_queue option"
  sl_status :: status
  sl_length :: nat
  sl_read :: nat
  sl_size :: "u8 list"
  sl_recv :: "u8 array"

text \<open>The chains of the hash map are lists.\<close>

record harbor =
  hb_id :: i32
  hb_slave :: u32
  hb_map :: "keyvalue list list"
  hb_s :: "slave list"

text \<open>\<open>HSend source destination type session bytes\<close>.\<close>

datatype hcall =
  HSend u32 u32 i32 i32 "u8 list"
| HSocketSend i32 "u8 list"
| HClose i32
| HStart i32
| HLog "u8 list"
| HFree "u8 list"
| HCallback
| HHarborStart

type_synonym 's action = "'s \<Rightarrow> (hcall list \<times> 's) option"

subsection \<open>Queues of messages\<close>

text \<open>The last free slot tells full from empty, so the queue doubles before it is used.\<close>

definition expand_hqueue :: "harbor_msg_queue \<Rightarrow> harbor_msg_queue option" where
  "expand_hqueue q = do {
     new \<leftarrow> c_for 0 (hq_size q - 1)
       (\<lambda>i new. do { m \<leftarrow> array_get (hq_data q) ((i + hq_head q) mod hq_size q); array_set new i m })
       (array_new (hq_size q * 2));
     Some \<lparr>hq_size = hq_size q * 2, hq_head = 0, hq_tail = hq_size q - 1, hq_data = new\<rparr> }"

definition push_queue_msg :: "harbor_msg \<Rightarrow> harbor_msg_queue \<Rightarrow> harbor_msg_queue option" where
  "push_queue_msg m q = do {
     q \<leftarrow> (if (hq_tail q + 1) mod hq_size q = hq_head q then expand_hqueue q else Some q);
     data \<leftarrow> array_set (hq_data q) (hq_tail q) m;
     Some (q\<lparr>hq_data := data, hq_tail := (hq_tail q + 1) mod hq_size q\<rparr>) }"

definition push_hqueue :: "harbor_msg_queue \<Rightarrow> u8 list \<Rightarrow> remote_message_header \<Rightarrow> harbor_msg_queue option" where
  "push_hqueue q buffer hdr = push_queue_msg \<lparr>hm_header = hdr, hm_buffer = buffer\<rparr> q"

definition pop_queue :: "harbor_msg_queue \<Rightarrow> (harbor_msg option \<times> harbor_msg_queue) option" where
  "pop_queue q =
     (if hq_head q = hq_tail q then Some (None, q)
      else do {
        m \<leftarrow> array_get (hq_data q) (hq_head q);
        Some (Some m, q\<lparr>hq_head := (hq_head q + 1) mod hq_size q\<rparr>) })"

definition new_hqueue :: harbor_msg_queue where
  "new_hqueue = \<lparr>hq_size = HARBOR_QUEUE_SIZE, hq_head = 0, hq_tail = 0, hq_data = array_new HARBOR_QUEUE_SIZE\<rparr>"

text \<open>\<open>while ((m = pop_queue(q)) != NULL) body\<close>; a queue has fewer messages than cells.\<close>

fun queue_loop :: "(harbor_msg \<Rightarrow> 's \<Rightarrow> 's option) \<Rightarrow> nat \<Rightarrow> harbor_msg_queue \<Rightarrow> 's \<Rightarrow> (harbor_msg_queue \<times> 's) option" where
  "queue_loop body 0 q s = None"
| "queue_loop body (Suc n) q s = do {
     (r, q') \<leftarrow> pop_queue q;
     case r of
       None \<Rightarrow> Some (q', s)
     | Some m \<Rightarrow> do { s' \<leftarrow> body m s; queue_loop body n q' s' } }"

text \<open>A loop that makes calls for each message.\<close>

definition calls_loop :: "(harbor_msg \<Rightarrow> hcall list) \<Rightarrow> harbor_msg_queue \<Rightarrow> (harbor_msg_queue \<times> hcall list) option" where
  "calls_loop f q = queue_loop (\<lambda>m out. Some (out @ f m)) (hq_size q) q []"

definition release_queue :: "harbor_msg_queue option \<Rightarrow> hcall list option" where
  "release_queue q =
     (case q of None \<Rightarrow> Some [] | Some q \<Rightarrow> map_option snd (calls_loop (\<lambda>m. [HFree (hm_buffer m)]) q))"

subsection \<open>The names\<close>

text \<open>The hash is the xor of four words in memory, little endian.\<close>

definition word_at :: "u8 list \<Rightarrow> nat \<Rightarrow> u32" where
  "word_at bs i = of_nat (horner_sum unat 256 (take 4 (drop (4 * i) bs)))"

definition hash_name :: "u8 list \<Rightarrow> u32" where
  "hash_name name = word_at name 0 XOR word_at name 1 XOR word_at name 2 XOR word_at name 3"

text \<open>\<open>strncmp(a, b, GLOBALNAME_LENGTH) == 0\<close>.\<close>

definition same_name :: "u8 list \<Rightarrow> u8 list \<Rightarrow> bool" where
  "same_name a b \<longleftrightarrow>
     takeWhile (\<lambda>c. c \<noteq> 0) (take GLOBALNAME_LENGTH a) = takeWhile (\<lambda>c. c \<noteq> 0) (take GLOBALNAME_LENGTH b)"

definition bucket_of :: "u8 list \<Rightarrow> nat" where
  "bucket_of name = unat (hash_name name) mod HASH_SIZE"

definition is_node :: "u8 list \<Rightarrow> keyvalue \<Rightarrow> bool" where
  "is_node name kv \<longleftrightarrow> kv_hash kv = hash_name name \<and> same_name (kv_key kv) name"

definition hash_search :: "keyvalue list list \<Rightarrow> u8 list \<Rightarrow> keyvalue option" where
  "hash_search hash name = find (is_node name) (hash ! bucket_of name)"

definition hash_insert :: "keyvalue list list \<Rightarrow> u8 list \<Rightarrow> keyvalue \<times> keyvalue list list" where
  "hash_insert hash name =
     (let h = bucket_of name;
          node = \<lparr>kv_key = take GLOBALNAME_LENGTH name, kv_hash = hash_name name, kv_value = 0, kv_queue = None\<rparr>
      in (node, hash[h := node # hash ! h]))"

definition hash_new :: "keyvalue list list" where
  "hash_new = replicate HASH_SIZE []"

text \<open>Writing the node that \<open>hash_search\<close> found, or \<open>hash_insert\<close> made.\<close>

fun put_node :: "u8 list \<Rightarrow> keyvalue \<Rightarrow> keyvalue list \<Rightarrow> keyvalue list" where
  "put_node name node [] = []"
| "put_node name node (kv # kvs) = (if is_node name kv then node # kvs else kv # put_node name node kvs)"

definition hash_put :: "u8 list \<Rightarrow> keyvalue \<Rightarrow> harbor \<Rightarrow> harbor" where
  "hash_put name node h =
     (let i = bucket_of name in h\<lparr>hb_map := (hb_map h)[i := put_node name node (hb_map h ! i)]\<rparr>)"

definition search_or_insert :: "u8 list \<Rightarrow> harbor \<Rightarrow> keyvalue \<times> harbor" where
  "search_or_insert name h =
     (case hash_search (hb_map h) name of
        Some node \<Rightarrow> (node, h)
      | None \<Rightarrow> let (node, hmap) = hash_insert (hb_map h) name in (node, h\<lparr>hb_map := hmap\<rparr>))"

text \<open>The frees of a list of queues.\<close>

fun release_all :: "harbor_msg_queue option list \<Rightarrow> hcall list option" where
  "release_all [] = Some []"
| "release_all (q # qs) = do { a \<leftarrow> release_queue q; b \<leftarrow> release_all qs; Some (a @ b) }"

definition hash_delete :: "keyvalue list list \<Rightarrow> hcall list option" where
  "hash_delete hash = release_all (map kv_queue (concat hash))"

subsection \<open>Closing\<close>

definition slave_at :: "harbor \<Rightarrow> nat \<Rightarrow> slave option" where
  "slave_at h i = nth_at (hb_s h) i"

definition put_slave :: "nat \<Rightarrow> slave \<Rightarrow> harbor \<Rightarrow> harbor" where
  "put_slave i s h = h\<lparr>hb_s := (hb_s h)[i := s]\<rparr>"

definition close_harbor :: "nat \<Rightarrow> harbor action" where
  "close_harbor i h = do {
     s \<leftarrow> slave_at h i;
     let close = (if sl_fd s \<noteq> 0 then [HClose (sl_fd s)] else []);
     frees \<leftarrow> release_queue (sl_queue s);
     Some (close @ frees, put_slave i (s\<lparr>sl_status := Down, sl_queue := None\<rparr>) h) }"

definition report_harbor_down :: "harbor \<Rightarrow> nat \<Rightarrow> hcall list" where
  "report_harbor_down h i = [HSend 0 (hb_slave h) (ucast PTYPE_TEXT) 0 (str ''D '' @ fmt_d (of_nat i))]"

definition harbor_create :: harbor where
  "harbor_create = \<lparr>hb_id = 0, hb_slave = 0, hb_map = hash_new,
     hb_s = replicate REMOTE_MAX \<lparr>sl_fd = 0, sl_queue = None, sl_status = Wait, sl_length = 0, sl_read = 0,
       sl_size = [0, 0, 0, 0], sl_recv = []\<rparr>\<rparr>"

definition close_open :: "nat \<Rightarrow> hcall list \<times> harbor \<Rightarrow> (hcall list \<times> harbor) option" where
  "close_open i st = do {
     s \<leftarrow> slave_at (snd st) i;
     if sl_fd s \<noteq> 0 \<and> sl_status s \<noteq> Down
     then do { (calls, h') \<leftarrow> close_harbor i (snd st); Some (fst st @ calls, h') } else Some st }"

definition harbor_release :: "harbor \<Rightarrow> hcall list option" where
  "harbor_release h = do {
     (calls, h') \<leftarrow> c_for 1 REMOTE_MAX close_open ([], h);
     frees \<leftarrow> hash_delete (hb_map h');
     Some (calls @ frees) }"

subsection \<open>Frames\<close>

definition to_bigendian :: "u32 \<Rightarrow> u8 list" where
  "to_bigendian n = [ucast (drop_bit 24 n), ucast (drop_bit 16 n), ucast (drop_bit 8 n), ucast n]"

definition header_to_message :: "remote_message_header \<Rightarrow> u8 list" where
  "header_to_message hdr = to_bigendian (h_source hdr) @ to_bigendian (h_destination hdr) @ to_bigendian (h_session hdr)"

text \<open>The four bytes at a place of a message.\<close>

definition from_bigendian :: "u8 list \<Rightarrow> u32" where
  "from_bigendian bs =
     push_bit 24 (ucast (bs ! 0)) OR push_bit 16 (ucast (bs ! 1)) OR push_bit 8 (ucast (bs ! 2)) OR ucast (bs ! 3)"

definition message_to_header :: "u8 list \<Rightarrow> remote_message_header" where
  "message_to_header bs =
     \<lparr>h_source = from_bigendian (take 4 bs), h_destination = from_bigendian (take 4 (drop 4 bs)),
      h_session = from_bigendian (take 4 (drop 8 bs))\<rparr>"

definition msg_type :: "u32 \<Rightarrow> i32" where
  "msg_type destination = ucast (drop_bit HANDLE_REMOTE_SHIFT destination)"

text \<open>The cookie is read at \<open>msg + sz - 12\<close>, and \<open>sz - 12\<close> bytes are sent on.\<close>

definition forward_local_message :: "(u32 \<Rightarrow> bool) \<Rightarrow> harbor \<Rightarrow> u8 array \<Rightarrow> nat \<Rightarrow> hcall list option" where
  "forward_local_message live h msg sz = do {
     c_assert (HEADER_COOKIE_LENGTH \<le> sz \<and> sz \<le> length msg);
     bytes \<leftarrow> those (take sz msg);
     let hdr = message_to_header (drop (sz - HEADER_COOKIE_LENGTH) bytes);
     let type = msg_type (h_destination hdr);
     let destination = (h_destination hdr AND HANDLE_MASK) OR push_bit HANDLE_REMOTE_SHIFT (hb_id h);
     let send = HSend (h_source hdr) destination (type OR PTYPE_TAG_DONTCOPY) (h_session hdr)
       (take (sz - HEADER_COOKIE_LENGTH) bytes);
     Some (if live destination then [send]
       else send #
         (if type \<noteq> ucast PTYPE_ERROR then [HSend destination (h_source hdr) (ucast PTYPE_ERROR) (h_session hdr) []] else []) @
         [HLog (str ''Unknown destination :'' @ fmt_x destination @ str '' from :'' @ fmt_x (h_source hdr) @
            str '' type('' @ fmt_d type @ str '')'')]) }"

definition fmt_08x :: "u32 \<Rightarrow> u8 list" where
  "fmt_08x w = replicate (8 - length (fmt_x w)) 48 @ fmt_x w"

definition send_remote :: "i32 \<Rightarrow> u8 list \<Rightarrow> remote_message_header \<Rightarrow> hcall list" where
  "send_remote fd buffer cookie =
     (let sz_header = length buffer + HEADER_COOKIE_LENGTH in
      if sz_header > 2 ^ 32 - 1
      then [HLog (str ''remote message from :'' @ fmt_08x (h_source cookie) @ str '' to :'' @
        fmt_08x (h_destination cookie) @ str '' is too large.'')]
      else [HSocketSend fd (to_bigendian (of_nat sz_header) @ buffer @ header_to_message cookie)])"

definition send_and_free :: "i32 \<Rightarrow> harbor_msg \<Rightarrow> hcall list" where
  "send_and_free fd m = send_remote fd (hm_buffer m) (hm_header m) @ [HFree (hm_buffer m)]"

text \<open>\<open>m->header.destination |= bits\<close>.\<close>

definition or_destination :: "u32 \<Rightarrow> harbor_msg \<Rightarrow> harbor_msg" where
  "or_destination bits m =
     m\<lparr>hm_header := (hm_header m)\<lparr>h_destination := h_destination (hm_header m) OR bits\<rparr>\<rparr>"

definition send_local :: "u32 \<Rightarrow> harbor_msg \<Rightarrow> hcall list" where
  "send_local handle m =
     [HSend (h_source (hm_header m)) handle (msg_type (h_destination (hm_header m)) OR PTYPE_TAG_DONTCOPY)
        (h_session (hm_header m)) (hm_buffer m)]"

text \<open>The queue of a name, once its handle is known. The result is the node, whose queue may have moved.\<close>

definition dispatch_name_queue :: "harbor \<Rightarrow> keyvalue \<Rightarrow> (hcall list \<times> harbor \<times> keyvalue) option" where
  "dispatch_name_queue h node = do {
     queue \<leftarrow> kv_queue node;
     let handle = kv_value node;
     let harbor_id = unat (drop_bit HANDLE_REMOTE_SHIFT handle);
     s \<leftarrow> slave_at h harbor_id;
     if sl_fd s = 0 then
       if sl_status s = Down then
         Some ([HLog (str ''Drop message to '' @ takeWhile (\<lambda>c. c \<noteq> 0) (kv_key node) @ str '' (in harbor '' @
           fmt_d (of_nat harbor_id) @ str '')'')], h, node)
       else do {
         (sq, node') \<leftarrow>
           (case sl_queue s of
              None \<Rightarrow> Some (queue, node\<lparr>kv_queue := None\<rparr>)
            | Some sq \<Rightarrow> do {
                (queue', sq') \<leftarrow> queue_loop push_queue_msg (hq_size queue) queue sq;
                Some (sq', node\<lparr>kv_queue := Some queue'\<rparr>) });
         if harbor_id = unat (drop_bit HANDLE_REMOTE_SHIFT (hb_slave h)) then do {
           (sq', calls) \<leftarrow> calls_loop (send_local handle) sq;
           frees \<leftarrow> release_queue (Some sq');
           Some (calls @ frees, put_slave harbor_id (s\<lparr>sl_queue := None\<rparr>) h, node') }
         else Some ([], put_slave harbor_id (s\<lparr>sl_queue := Some sq\<rparr>) h, node') }
     else do {
       (queue', calls) \<leftarrow> calls_loop (\<lambda>m. send_and_free (sl_fd s) (or_destination (handle AND HANDLE_MASK) m)) queue;
       Some (calls, h, node\<lparr>kv_queue := Some queue'\<rparr>) } }"

definition dispatch_queue :: "nat \<Rightarrow> harbor action" where
  "dispatch_queue i h = do {
     s \<leftarrow> slave_at h i;
     c_assert (sl_fd s \<noteq> 0);
     case sl_queue s of
       None \<Rightarrow> Some ([], h)
     | Some queue \<Rightarrow> do {
         (queue', calls) \<leftarrow> calls_loop (send_and_free (sl_fd s)) queue;
         frees \<leftarrow> release_queue (Some queue');
         Some (calls @ frees, put_slave i (s\<lparr>sl_queue := None\<rparr>) h) } }"

subsection \<open>Data from another harbor\<close>

text \<open>The first slave from 1 on with the socket; \<open>harbor_id\<close> and the search of \<open>push_socket_data\<close>.\<close>

definition harbor_id :: "harbor \<Rightarrow> i32 \<Rightarrow> nat option" where
  "harbor_id h fd = find (\<lambda>i. sl_fd (hb_s h ! i) = fd) [1..<REMOTE_MAX]"

text \<open>A state of the loop leaves with what it read, \<open>None\<close>, or goes on with the rest of the data.\<close>

type_synonym read_step = "u8 list \<Rightarrow> harbor \<Rightarrow> (hcall list \<times> harbor \<times> u8 list option) option"

definition handshake_state :: "nat \<Rightarrow> i32 \<Rightarrow> read_step" where
  "handshake_state i fd buffer h = do {
     remote_id \<leftarrow> nth_at buffer 0;
     if unat remote_id \<noteq> i then do {
       (calls, h') \<leftarrow> close_harbor i h;
       Some (HLog (str ''Invalid shakehand id ('' @ fmt_d (of_nat i) @ str '') from fd = '' @ fmt_d fd @
         str '' , harbor = '' @ fmt_d (ucast remote_id)) # calls, h', None) }
     else do {
       s \<leftarrow> slave_at h i;
       (calls, h') \<leftarrow> dispatch_queue i (put_slave i (s\<lparr>sl_status := Header\<rparr>) h);
       Some (calls, h', Some (drop 1 buffer)) } }"

text \<open>\<open>memcpy(s->size + s->read, buffer, n)\<close>.\<close>

definition size_write :: "u8 list \<Rightarrow> nat \<Rightarrow> u8 list \<Rightarrow> u8 list option" where
  "size_write sz off bs = (if off + length bs \<le> 4 then Some (take off sz @ bs @ drop (off + length bs) sz) else None)"

definition header_state :: "nat \<Rightarrow> read_step" where
  "header_state i buffer h = do {
     s \<leftarrow> slave_at h i;
     let need = 4 - sl_read s;
     if length buffer < need then do {
       sz \<leftarrow> size_write (sl_size s) (sl_read s) buffer;
       Some ([], put_slave i (s\<lparr>sl_size := sz, sl_read := sl_read s + length buffer\<rparr>) h, None) }
     else do {
       sz \<leftarrow> size_write (sl_size s) (sl_read s) (take need buffer);
       let buffer = drop need buffer;
       if sz ! 0 \<noteq> 0 then do {
         (calls, h') \<leftarrow> close_harbor i (put_slave i (s\<lparr>sl_size := sz\<rparr>) h);
         Some (HLog (str ''Message is too long from harbor '' @ fmt_d (of_nat i)) # calls, h', None) }
       else do {
         let len = unat (sz ! 1) * 2 ^ 16 + unat (sz ! 2) * 2 ^ 8 + unat (sz ! 3);
         Some ([], put_slave i (s\<lparr>sl_size := sz, sl_length := len, sl_read := 0, sl_recv := array_new len,
             sl_status := Content\<rparr>) h,
           if buffer = [] then None else Some buffer) } } }"

definition content_state :: "(u32 \<Rightarrow> bool) \<Rightarrow> nat \<Rightarrow> read_step" where
  "content_state live i buffer h = do {
     s \<leftarrow> slave_at h i;
     let need = sl_length s - sl_read s;
     if length buffer < need then do {
       recv \<leftarrow> mem_write (sl_recv s) (sl_read s) buffer;
       Some ([], put_slave i (s\<lparr>sl_recv := recv, sl_read := sl_read s + length buffer\<rparr>) h, None) }
     else do {
       recv \<leftarrow> mem_write (sl_recv s) (sl_read s) (take need buffer);
       calls \<leftarrow> forward_local_message live h recv (sl_length s);
       let buffer = drop need buffer;
       Some (calls, put_slave i (s\<lparr>sl_length := 0, sl_read := 0, sl_recv := [], sl_status := Header\<rparr>) h,
         if buffer = [] then None else Some buffer) } }"

text \<open>One state and then another, and the loop over the states; each round but the first two reads a byte.\<close>

definition then_step :: "(hcall list \<times> harbor \<times> u8 list option) option \<Rightarrow>
    (u8 list \<Rightarrow> harbor \<Rightarrow> (hcall list \<times> harbor) option) \<Rightarrow> (hcall list \<times> harbor) option" where
  "then_step r f = do {
     (calls, h, rest) \<leftarrow> r;
     case rest of
       None \<Rightarrow> Some (calls, h)
     | Some buffer \<Rightarrow> do { (calls', h') \<leftarrow> f buffer h; Some (calls @ calls', h') } }"

fun socket_loop :: "(u32 \<Rightarrow> bool) \<Rightarrow> nat \<Rightarrow> nat \<Rightarrow> i32 \<Rightarrow> u8 list \<Rightarrow> harbor \<Rightarrow> (hcall list \<times> harbor) option" where
  "socket_loop live 0 i fd buffer h = None"
| "socket_loop live (Suc n) i fd buffer h = do {
     s \<leftarrow> slave_at h i;
     case sl_status s of
       Handshake \<Rightarrow> then_step (handshake_state i fd buffer h) (\<lambda>buffer h.
         if buffer = [] then socket_loop live n i fd buffer h
         else then_step (header_state i buffer h) (\<lambda>buffer h.
           then_step (content_state live i buffer h) (socket_loop live n i fd)))
     | Header \<Rightarrow> then_step (header_state i buffer h) (\<lambda>buffer h.
         then_step (content_state live i buffer h) (socket_loop live n i fd))
     | Content \<Rightarrow> then_step (content_state live i buffer h) (socket_loop live n i fd)
     | _ \<Rightarrow> Some ([], h) }"

definition push_socket_data :: "(u32 \<Rightarrow> bool) \<Rightarrow> i32 \<Rightarrow> u8 list \<Rightarrow> harbor action" where
  "push_socket_data live fd buffer h =
     (case harbor_id h fd of
        None \<Rightarrow> Some ([HLog (str ''Invalid socket fd ('' @ fmt_d fd @ str '') data'')], h)
      | Some i \<Rightarrow> socket_loop live (length buffer + 2) i fd buffer h)"

subsection \<open>Names, messages out, commands\<close>

definition update_name :: "u8 list \<Rightarrow> u32 \<Rightarrow> harbor action" where
  "update_name name handle h = do {
     let (node, h1) = search_or_insert name h;
     let node = node\<lparr>kv_value := handle\<rparr>;
     case kv_queue node of
       None \<Rightarrow> Some ([], hash_put name node h1)
     | Some _ \<Rightarrow> do {
         (calls, h2, node') \<leftarrow> dispatch_name_queue h1 node;
         frees \<leftarrow> release_queue (kv_queue node');
         Some (calls @ frees, hash_put name (node'\<lparr>kv_queue := None\<rparr>) h2) } }"

definition queue_of :: "harbor_msg_queue option \<Rightarrow> harbor_msg_queue" where
  "queue_of q = (case q of None \<Rightarrow> new_hqueue | Some q \<Rightarrow> q)"

definition message_header :: "u32 \<Rightarrow> u32 \<Rightarrow> i32 \<Rightarrow> i32 \<Rightarrow> remote_message_header" where
  "message_header source destination type session =
     \<lparr>h_source = source, h_destination = push_bit HANDLE_REMOTE_SHIFT type OR (destination AND HANDLE_MASK),
      h_session = session\<rparr>"

text \<open>The result says whether the message is kept, or handed over, and is not to be freed.\<close>

definition remote_send_handle ::
  "u32 \<Rightarrow> u32 \<Rightarrow> i32 \<Rightarrow> i32 \<Rightarrow> u8 list \<Rightarrow> harbor \<Rightarrow> (bool \<times> hcall list \<times> harbor) option" where
  "remote_send_handle source destination type session msg h = do {
     let i = unat (drop_bit HANDLE_REMOTE_SHIFT destination);
     if int i = sint (hb_id h)
     then Some (True, [HSend source destination (type OR PTYPE_TAG_DONTCOPY) session msg], h)
     else do {
       s \<leftarrow> slave_at h i;
       if sl_fd s = 0 \<or> sl_status s = Handshake then
         if sl_status s = Down then
           Some (False, [HSend destination source (ucast PTYPE_ERROR) 0 [],
             HLog (str ''Drop message to harbor '' @ fmt_d (of_nat i) @ str '' from '' @ fmt_x source @ str '' to '' @
               fmt_x destination @ str '' (session = '' @ fmt_d session @ str '', msgsz = '' @
               fmt_d (of_nat (length msg)) @ str '')'')], h)
         else do {
           q \<leftarrow> push_hqueue (queue_of (sl_queue s)) msg (message_header source destination type session);
           Some (True, [], put_slave i (s\<lparr>sl_queue := Some q\<rparr>) h) }
       else Some (False, send_remote (sl_fd s) msg (message_header source destination type session), h) } }"

definition remote_send_name ::
  "u32 \<Rightarrow> u8 list \<Rightarrow> i32 \<Rightarrow> i32 \<Rightarrow> u8 list \<Rightarrow> harbor \<Rightarrow> (bool \<times> hcall list \<times> harbor) option" where
  "remote_send_name source name type session msg h = do {
     let (node, h1) = search_or_insert name h;
     if kv_value node = 0 then do {
       q \<leftarrow> push_hqueue (queue_of (kv_queue node)) msg (message_header source 0 type session);
       Some (True, [HSend 0 (hb_slave h) (ucast PTYPE_TEXT) 0
           (str ''Q '' @ takeWhile (\<lambda>c. c \<noteq> 0) (take GLOBALNAME_LENGTH name))],
         hash_put name (node\<lparr>kv_queue := Some q\<rparr>) h1) }
     else remote_send_handle source (kv_value node) type session msg h1 }"

definition handshake :: "harbor \<Rightarrow> slave \<Rightarrow> hcall list" where
  "handshake h s = [HSocketSend (sl_fd s) [ucast (hb_id h)]]"

definition scan_two :: "u8 list \<Rightarrow> i32 \<times> i32" where
  "scan_two s =
     (case scan_int s of
        None \<Rightarrow> (0, 0)
      | Some (a, s1) \<Rightarrow> (case scan_int s1 of None \<Rightarrow> (a, 0) | Some (b, _) \<Rightarrow> (a, b)))"

text \<open>
  The commands N, and S and A. \<open>msg\<close> are its \<open>sz\<close> bytes; the memory of a message has a NUL behind them. The
  buffer of S and A has \<open>sz - 1\<close> bytes. A name that is refused is printed from \<open>msg + 2\<close> on: of a command
  of one letter that is behind the NUL.
\<close>

definition command_name :: "u8 list \<Rightarrow> u32 \<Rightarrow> harbor action" where
  "command_name msg source h =
     (let s = int (length msg) - 2; name = drop 2 msg in
      if s \<le> 0 \<or> s \<ge> int GLOBALNAME_LENGTH then do {
        c_assert (2 \<le> length msg);
        Some ([HLog (str ''Invalid global name '' @ takeWhile (\<lambda>c. c \<noteq> 0) name)], h) }
      else update_name (name @ replicate (GLOBALNAME_LENGTH - length name) 0) source h)"

definition command_connect :: "u8 list \<Rightarrow> harbor action" where
  "command_connect msg h = do {
     c_assert (2 \<le> length msg);
     let buffer = takeWhile (\<lambda>c. c \<noteq> 0) (drop 2 msg);
     let (fd, i) = scan_two buffer;
     if fd = 0 \<or> sint i \<le> 0 \<or> sint i \<ge> int REMOTE_MAX
     then Some ([HLog (str ''Invalid command '' @ [msg ! 0, 32] @ buffer)], h)
     else do {
       let i = nat (sint i);
       s \<leftarrow> slave_at h i;
       if sl_fd s \<noteq> 0 then Some ([HLog (str ''Harbor '' @ fmt_d (of_nat i) @ str '' alreay exist'')], h)
       else do {
         let s = s\<lparr>sl_fd := fd\<rparr>;
         let calls = HStart fd # handshake h s;
         if msg ! 0 = 83 then Some (calls, put_slave i (s\<lparr>sl_status := Handshake\<rparr>) h)
         else do {
           (calls', h') \<leftarrow> dispatch_queue i (put_slave i (s\<lparr>sl_status := Header\<rparr>) h);
           Some (calls @ calls', h') } } } }"

definition harbor_command :: "u8 list \<Rightarrow> u32 \<Rightarrow> harbor action" where
  "harbor_command msg source h = do {
     c \<leftarrow> nth_at msg 0;
     if c = 78 then command_name msg source h
     else if c = 83 \<or> c = 65 then command_connect msg h
     else Some ([HLog (str ''Unknown command '' @ takeWhile (\<lambda>c. c \<noteq> 0) msg)], h) }"

text \<open>The messages of the service.\<close>

datatype harbor_event =
  SocketData i32 "u8 list"
| SocketError i32
| SocketClosed i32
| SocketConnect i32
| SocketWarning i32 i32
| SocketOther
| Command u32 "u8 list"
| OutName u32 i32 "u8 list" i32 "u8 list"
| OutHandle u32 i32 u32 i32 "u8 list"
| Unexpected u32 i32 i32

definition harbor_down :: "i32 \<Rightarrow> harbor \<Rightarrow> hcall list" where
  "harbor_down fd h =
     (case harbor_id h fd of
        Some i \<Rightarrow> report_harbor_down h i
      | None \<Rightarrow> [HLog (str ''Unkown fd ('' @ fmt_d fd @ str '') closed'')])"

definition free_unless :: "u8 list \<Rightarrow> bool \<times> hcall list \<times> harbor \<Rightarrow> hcall list \<times> harbor" where
  "free_unless msg r = (case r of (kept, calls, h) \<Rightarrow> (if kept then calls else calls @ [HFree msg], h))"

definition mainloop :: "(u32 \<Rightarrow> bool) \<Rightarrow> harbor_event \<Rightarrow> harbor action" where
  "mainloop live e h =
     (case e of
        SocketData fd buffer \<Rightarrow> do {
          (calls, h') \<leftarrow> push_socket_data live fd buffer h;
          Some (calls @ [HFree buffer], h') }
      | SocketError fd \<Rightarrow> Some (harbor_down fd h, h)
      | SocketClosed fd \<Rightarrow> Some (harbor_down fd h, h)
      | SocketConnect fd \<Rightarrow> Some ([], h)
      | SocketWarning fd ud \<Rightarrow>
          Some ((case harbor_id h fd of
                   Some i \<Rightarrow> [HLog (str ''message havn't send to Harbor ('' @ fmt_d (of_nat i) @ str '') reach '' @
                     fmt_d ud @ str '' K'')]
                 | None \<Rightarrow> []), h)
      | SocketOther \<Rightarrow> Some ([HLog (str ''recv invalid socket message type '' @ fmt_d (ucast PTYPE_SOCKET))], h)
      | Command source msg \<Rightarrow> harbor_command msg source h
      | OutName source session name type msg \<Rightarrow>
          map_option (free_unless msg) (remote_send_name source name type session msg h)
      | OutHandle source session handle type msg \<Rightarrow>
          map_option (free_unless msg) (remote_send_handle source handle type session msg h)
      | Unexpected source session type \<Rightarrow>
          Some (HLog (str ''recv invalid message from '' @ fmt_x source @ str '',  type = '' @ fmt_d type) #
            (if session \<noteq> 0 \<and> type \<noteq> ucast PTYPE_ERROR
             then [HSend 0 source (ucast PTYPE_ERROR) session []] else []), h))"

definition harbor_init :: "harbor \<Rightarrow> u8 list \<Rightarrow> int \<times> hcall list \<times> harbor" where
  "harbor_init h args =
     (let (harbor_id, slave) =
        (case scan_int args of
           None \<Rightarrow> (0, 0)
         | Some (a, s1) \<Rightarrow> (case scan_uint s1 of None \<Rightarrow> (a, 0) | Some (b, _) \<Rightarrow> (a, b)))
      in if slave = 0 then (1, [], h)
         else (0, [HCallback, HHarborStart], h\<lparr>hb_id := harbor_id, hb_slave := slave\<rparr>))"

subsection \<open>Queues hold lists\<close>

definition hq_holds :: "harbor_msg_queue \<Rightarrow> harbor_msg list \<Rightarrow> bool" where
  "hq_holds q ms \<longleftrightarrow> ring_ok (hq_data q) (hq_size q) (hq_head q) (hq_tail q) \<and>
     ring_list (hq_data q) (hq_size q) (hq_head q) (hq_tail q) = ms"

lemma hq_holds_new: "hq_holds new_hqueue []"
  by (simp add: hq_holds_def new_hqueue_def ring_empty HARBOR_QUEUE_SIZE_def)

lemma hq_holds_less: "hq_holds q ms \<Longrightarrow> length ms < hq_size q"
  by (auto simp: hq_holds_def ring_ok_def ring_len_less)

lemma ring_next_mod: "i < cap \<Longrightarrow> Suc i mod cap = ring_next cap i"
  by (auto simp: ring_next_def mod_if)

lemma expand_hqueue_ok:
  assumes "hq_holds q ms" and "ring_next (hq_size q) (hq_tail q) = hq_head q"
  shows "\<exists>q'. expand_hqueue q = Some q' \<and> hq_holds q' ms \<and> ring_next (hq_size q') (hq_tail q') \<noteq> hq_head q'"
proof -
  let ?cap = "hq_size q" and ?h = "hq_head q" and ?t = "hq_tail q" and ?a = "hq_data q"
  have ok: "ring_ok ?a ?cap ?h ?t" and l: "ring_list ?a ?cap ?h ?t = ms" using assms(1) by (simp_all add: hq_holds_def)
  have b: "?h < ?cap" "?t < ?cap" "length ?a = ?cap" using ok by (simp_all add: ring_ok_def)
  have full: "?cap = Suc (ring_len ?cap ?h ?t)" by (rule ring_len_tail_full [OF b(1,2) assms(2)])
  let ?I = "\<lambda>i nq. length nq = ?cap * 2 \<and> (\<forall>j<i. nq ! j = ?a ! ring_at ?cap ?h j)"
  let ?body = "\<lambda>i nq. do { m \<leftarrow> array_get ?a ((i + ?h) mod ?cap); array_set nq i m }"
  have "\<exists>nq. c_for 0 (?cap - 1) ?body (array_new (?cap * 2)) = Some nq \<and> ?I (?cap - 1) nq"
  proof (rule c_for_rule [where I = ?I])
    show "0 \<le> ?cap - 1" by simp
    show "?I 0 (array_new (?cap * 2))" by simp
    fix i nq assume i: "0 \<le> i" "i < ?cap - 1" and I: "?I i nq"
    have "?a ! ring_at ?cap ?h i \<noteq> None" using ok i full by (simp add: ring_ok_def)
    then obtain m where m: "?a ! ring_at ?cap ?h i = Some m" by blast
    moreover have "(i + ?h) mod ?cap = ring_at ?cap ?h i" by (simp add: ring_at_def add.commute)
    moreover have "ring_at ?cap ?h i < length ?a" using ring_at_less [OF b(1)] b(3) by simp
    ultimately have "?body i nq = Some (nq[i := Some m])" using i I by simp
    then show "\<exists>nq'. ?body i nq = Some nq' \<and> ?I (Suc i) nq'"
      using i I m by (auto simp: less_Suc_eq nth_list_update)
  qed
  then obtain nq where nq: "c_for 0 (?cap - 1) ?body (array_new (?cap * 2)) = Some nq" "?I (?cap - 1) nq" by blast
  let ?q = "\<lparr>hq_size = ?cap * 2, hq_head = 0, hq_tail = ?cap - 1, hq_data = nq\<rparr>"
  have len: "ring_len (?cap * 2) 0 (?cap - 1) = ?cap - 1" by (simp add: ring_len_def)
  have at: "i < ?cap - 1 \<Longrightarrow> nq ! ring_at (?cap * 2) 0 i = ?a ! ring_at ?cap ?h i" for i
    using nq(2) by (simp add: ring_at_def)
  have c1: "?cap - 1 = ring_len ?cap ?h ?t" using full by linarith
  have at': "i < ring_len ?cap ?h ?t \<Longrightarrow> nq ! ring_at (?cap * 2) 0 i = ?a ! ring_at ?cap ?h i" for i
    using at c1 by simp
  have "ring_ok nq (?cap * 2) 0 (?cap - 1)"
    using ok b(1) nq(2) at full unfolding ring_ok_def len by auto
  moreover have "ring_list nq (?cap * 2) 0 (?cap - 1) = ms"
    unfolding l [symmetric] ring_list_def c1 len [unfolded c1] by (rule map_cong [OF refl]) (simp add: at')
  ultimately have "hq_holds ?q ms" by (simp add: hq_holds_def)
  moreover have "expand_hqueue q = Some ?q" using nq(1) by (simp add: expand_hqueue_def)
  moreover have "ring_next (?cap * 2) (?cap - 1) \<noteq> 0" using b(1) by (simp add: ring_next_def)
  ultimately show ?thesis by auto
qed

lemma tail_next: "hq_holds q ms \<Longrightarrow> Suc (hq_tail q) mod hq_size q = ring_next (hq_size q) (hq_tail q)"
  by (simp add: hq_holds_def ring_ok_def ring_next_mod)

lemma push_queue_holds:
  assumes "hq_holds q ms"
  shows "\<exists>q'. push_queue_msg m q = Some q' \<and> hq_holds q' (ms @ [m])"
proof -
  let ?put = "\<lambda>q. q\<lparr>hq_data := (hq_data q)[hq_tail q := Some m], hq_tail := ring_next (hq_size q) (hq_tail q)\<rparr>"
  have put: "hq_holds (?put q) (ms @ [m]) \<and> hq_tail q < length (hq_data q)"
    if "hq_holds q ms" "ring_next (hq_size q) (hq_tail q) \<noteq> hq_head q" for q
    using that ring_push [of "hq_data q" "hq_size q" "hq_head q" "hq_tail q" m]
    by (simp add: hq_holds_def) (simp add: ring_ok_def)
  show ?thesis
  proof (cases "ring_next (hq_size q) (hq_tail q) = hq_head q")
    case True
    with expand_hqueue_ok [OF assms] obtain q1 where q1: "expand_hqueue q = Some q1" "hq_holds q1 ms"
      "ring_next (hq_size q1) (hq_tail q1) \<noteq> hq_head q1" by blast
    have "push_queue_msg m q = Some (?put q1)"
      using True q1(1) put [OF q1(2,3)] by (simp add: push_queue_msg_def tail_next [OF assms] tail_next [OF q1(2)])
    then show ?thesis using put [OF q1(2,3)] by blast
  next
    case False
    have "push_queue_msg m q = Some (?put q)"
      using False put [OF assms False] by (simp add: push_queue_msg_def tail_next [OF assms])
    then show ?thesis using put [OF assms False] by blast
  qed
qed

lemma pop_queue_empty: "hq_holds q [] \<Longrightarrow> pop_queue q = Some (None, q)"
  using ring_list_Nil by (auto simp: hq_holds_def pop_queue_def)

lemma pop_queue_cons:
  assumes "hq_holds q (m # ms)"
  shows "\<exists>q'. pop_queue q = Some (Some m, q') \<and> hq_holds q' ms"
proof -
  let ?cap = "hq_size q" and ?h = "hq_head q" and ?t = "hq_tail q" and ?a = "hq_data q"
  have ok: "ring_ok ?a ?cap ?h ?t" and l: "ring_list ?a ?cap ?h ?t = m # ms" using assms by (simp_all add: hq_holds_def)
  have ne: "?h \<noteq> ?t" using ring_list_Nil [OF ok] l by auto
  from ring_pop_cell [OF ok ne] obtain y where y: "?a ! ?h = Some y" by blast
  from ring_pop_list [OF ok ne y] l have "y = m" "ring_list ?a ?cap (ring_next ?cap ?h) ?t = ms" by auto
  then show ?thesis
    using ok ne y ring_pop_ok [OF ok ne] by (auto simp: pop_queue_def hq_holds_def ring_ok_def ring_next_mod)
qed

interpretation hq_fifo: fifo hq_holds push_queue_msg pop_queue
proof unfold_locales
  fix q ms and m :: harbor_msg
  show "hq_holds q ms \<Longrightarrow> \<exists>q'. push_queue_msg m q = Some q' \<and> hq_holds q' (ms @ [m])" by (rule push_queue_holds)
  show "hq_holds q [] \<Longrightarrow> \<exists>q'. pop_queue q = Some (None, q') \<and> hq_holds q' []" using pop_queue_empty by blast
  show "hq_holds q (m # ms) \<Longrightarrow> \<exists>q'. pop_queue q = Some (Some m, q') \<and> hq_holds q' ms" by (rule pop_queue_cons)
qed

text \<open>What a loop over a queue establishes, message by message.\<close>

lemma queue_loop_rule:
  assumes "hq_holds q ms" and "length ms < n" and "I old s"
    and "\<And>old m s. I old s \<Longrightarrow> \<exists>s'. body m s = Some s' \<and> I (old @ [m]) s'"
  shows "\<exists>q' s'. queue_loop body n q s = Some (q', s') \<and> hq_holds q' [] \<and> I (old @ ms) s'"
  using assms(1,2,3)
proof (induction ms arbitrary: n q s old)
  case Nil
  from Nil.prems(2) obtain n' where "n = Suc n'" by (cases n) auto
  with Nil show ?case using hq_fifo.pop_empty by fastforce
next
  case (Cons m ms)
  from Cons.prems(2) obtain n' where n: "n = Suc n'" "length ms < n'" by (cases n) auto
  from hq_fifo.pop_cons [OF Cons.prems(1)] obtain q1 where q1: "pop_queue q = Some (Some m, q1)" "hq_holds q1 ms" by blast
  from assms(4) [OF Cons.prems(3), of m] obtain s1 where s1: "body m s = Some s1" "I (old @ [m]) s1" by blast
  from Cons.IH [OF q1(2) n(2) s1(2)] show ?case using n q1 s1 by simp
qed

lemma calls_loop_ok:
  assumes "hq_holds q ms"
  shows "\<exists>q'. calls_loop f q = Some (q', concat (map f ms)) \<and> hq_holds q' []"
  using queue_loop_rule [OF assms hq_holds_less [OF assms], where I = "\<lambda>old out. out = concat (map f old)"
      and body = "\<lambda>m out. Some (out @ f m)" and s = "[]" and old = "[]"]
  by (auto simp: calls_loop_def)

lemma release_queue_ok: "hq_holds q ms \<Longrightarrow> release_queue (Some q) = Some (map (\<lambda>m. HFree (hm_buffer m)) ms)"
  using calls_loop_ok [of q ms "\<lambda>m. [HFree (hm_buffer m)]"] by (auto simp: release_queue_def)

lemma release_none [simp]: "release_queue None = Some []"
  by (simp add: release_queue_def)


subsection \<open>Frames and their bytes\<close>

definition frame_len :: "u8 list \<Rightarrow> nat" where
  "frame_len xs = unat (xs ! 1) * 2 ^ 16 + unat (xs ! 2) * 2 ^ 8 + unat (xs ! 3)"

text \<open>The frames of a stream, and how it ends: in an incomplete frame, at a length of 2^24 or more, or at a
  length that has no room for the header.\<close>

datatype link_end = Pending "u8 list" | TooLong | TooShort

function hcut :: "u8 list \<Rightarrow> u8 list list \<times> link_end" where
  "hcut xs =
     (if length xs < 4 then ([], Pending xs)
      else if xs ! 0 \<noteq> 0 then ([], TooLong)
      else if frame_len xs < HEADER_COOKIE_LENGTH then ([], TooShort)
      else if length xs < 4 + frame_len xs then ([], Pending xs)
      else let (fs, e) = hcut (drop (4 + frame_len xs) xs) in (take (frame_len xs) (drop 4 xs) # fs, e))"
  by pat_completeness auto
termination
  by (relation "measure length") auto

declare hcut.simps [simp del]

text \<open>What is forwarded of a frame.\<close>

definition frame_calls :: "(u32 \<Rightarrow> bool) \<Rightarrow> harbor \<Rightarrow> u8 list \<Rightarrow> hcall list" where
  "frame_calls live h frame = the (forward_local_message live h (map Some frame) (length frame))"

lemma those_map_Some [simp]: "those (map Some xs) = Some xs"
  by (induction xs) simp_all

lemma forward_frame:
  "HEADER_COOKIE_LENGTH \<le> length frame \<Longrightarrow>
    forward_local_message live h (map Some frame) (length frame) = Some (frame_calls live h frame)"
  by (simp add: frame_calls_def forward_local_message_def Let_def)

lemma put_put_slave [simp]: "put_slave i a (put_slave i b h) = put_slave i a h"
  by (simp add: put_slave_def)

lemma slave_at_put [simp]: "i < length (hb_s h) \<Longrightarrow> slave_at (put_slave i s h) i = Some s"
  by (simp add: slave_at_def put_slave_def nth_at_def)

lemma put_slave_same: "slave_at h i = Some s \<Longrightarrow> put_slave i s h = h"
  by (auto simp: slave_at_def put_slave_def nth_at_def split: if_splits)

lemma slave_at_less: "slave_at h i = Some s \<Longrightarrow> i < length (hb_s h)"
  by (auto simp: slave_at_def nth_at_def split: if_splits)

lemma length_put_slave [simp]: "length (hb_s (put_slave i s h)) = length (hb_s h)"
  by (simp add: put_slave_def)

lemma hb_id_put_slave [simp]: "hb_id (put_slave i s h) = hb_id h"
  by (simp add: put_slave_def)

lemma frame_calls_put [simp]: "frame_calls live (put_slave i s h) = frame_calls live h"
  by (intro ext) (simp add: frame_calls_def forward_local_message_def)

text \<open>\<open>pending s P\<close>: of the current frame the slave has read the bytes \<open>P\<close>.\<close>

definition pending :: "slave \<Rightarrow> u8 list \<Rightarrow> bool" where
  "pending s P \<longleftrightarrow> length (sl_size s) = 4 \<and>
     (sl_status s = Header \<and> length P < 4 \<and> sl_read s = length P \<and> take (length P) (sl_size s) = P \<or>
      sl_status s = Content \<and> 4 \<le> length P \<and> P ! 0 = 0 \<and> sl_length s = frame_len P \<and>
        HEADER_COOKIE_LENGTH \<le> frame_len P \<and> length P < 4 + frame_len P \<and> sl_read s = length P - 4 \<and>
        length (sl_recv s) = frame_len P \<and> take (length P - 4) (sl_recv s) = map Some (drop 4 P))"

definition same_link :: "slave \<Rightarrow> slave \<Rightarrow> bool" where
  "same_link s s' \<longleftrightarrow> sl_fd s' = sl_fd s \<and> sl_queue s' = sl_queue s"

lemma header_more:
  assumes "slave_at h i = Some s" and "pending s P" and "sl_status s = Header" and "length (P @ buf) < 4"
  shows "\<exists>s'. header_state i buf h = Some ([], put_slave i s' h, None) \<and> pending s' (P @ buf) \<and> same_link s s' \<and> sl_status s' = Header"
proof -
  let ?s = "s\<lparr>sl_size := P @ buf @ drop (length P + length buf) (sl_size s), sl_read := sl_read s + length buf\<rparr>"
  have "length buf < 4 - sl_read s" "size_write (sl_size s) (sl_read s) buf = Some (P @ buf @ drop (length P + length buf) (sl_size s))"
    using assms by (auto simp: pending_def size_write_def)
  then have "header_state i buf h = Some ([], put_slave i ?s h, None)"
    using assms(1) by (simp add: header_state_def Let_def)
  moreover have "pending ?s (P @ buf)" using assms by (simp add: pending_def)
  ultimately show ?thesis using assms(3) by (auto simp: same_link_def)
qed

lemma header_bytes:
  assumes "pending s P" and "sl_status s = Header" and "W = P @ buf" and "4 \<le> length W"
  shows "size_write (sl_size s) (sl_read s) (take (4 - sl_read s) buf) = Some (take 4 W)"
    and "drop (4 - sl_read s) buf = drop 4 W" and "\<not> length buf < 4 - sl_read s"
  using assms by (auto simp: pending_def size_write_def)

lemma header_too_long:
  assumes "slave_at h i = Some s" and "pending s P" and "sl_status s = Header" and "W = P @ buf" and "4 \<le> length W"
    and "W ! 0 \<noteq> 0"
  shows "header_state i buf h = do {
      (calls, h') \<leftarrow> close_harbor i (put_slave i (s\<lparr>sl_size := take 4 W\<rparr>) h);
      Some (HLog (str ''Message is too long from harbor '' @ fmt_d (of_nat i)) # calls, h', None) }"
  using assms(1,6) header_bytes [OF assms(2-5)] by (simp add: header_state_def Let_def)

lemma header_done:
  assumes "slave_at h i = Some s" and "pending s P" and "sl_status s = Header" and "W = P @ buf" and "4 \<le> length W"
    and "W ! 0 = 0" and "HEADER_COOKIE_LENGTH \<le> frame_len W"
  shows "\<exists>s'. header_state i buf h = Some ([], put_slave i s' h, if drop 4 W = [] then None else Some (drop 4 W)) \<and>
    pending s' (take 4 W) \<and> same_link s s' \<and> sl_status s' = Content"
proof -
  have w: "take 4 W ! 0 = W ! 0" "take 4 W ! 1 = W ! 1" "take 4 W ! 2 = W ! 2" "take 4 W ! 3 = W ! 3" by simp_all
  then have f: "frame_len (take 4 W) = frame_len W" by (simp only: frame_len_def)
  let ?s = "s\<lparr>sl_size := take 4 W, sl_length := frame_len W, sl_read := 0, sl_recv := array_new (frame_len W), sl_status := Content\<rparr>"
  have "header_state i buf h = Some ([], put_slave i ?s h, if drop 4 W = [] then None else Some (drop 4 W))"
    using assms(1,6) header_bytes [OF assms(2-5)] w by (simp add: header_state_def frame_len_def Let_def)
  moreover have "pending ?s (take 4 W)"
    using assms(5,6,7) f w by (simp add: pending_def HEADER_COOKIE_LENGTH_def)
  ultimately show ?thesis by (auto simp: same_link_def)
qed

lemma content_more:
  assumes "slave_at h i = Some s" and "pending s P" and "sl_status s = Content" and "length (P @ buf) < 4 + frame_len P"
  shows "\<exists>s'. content_state live i buf h = Some ([], put_slave i s' h, None) \<and> pending s' (P @ buf) \<and> same_link s s' \<and> sl_status s' = Content"
proof -
  have p: "4 \<le> length P" "P ! 0 = 0" "sl_length s = frame_len P" "HEADER_COOKIE_LENGTH \<le> frame_len P"
    "length P < 4 + frame_len P" "sl_read s = length P - 4" "length (sl_recv s) = frame_len P"
    "take (length P - 4) (sl_recv s) = map Some (drop 4 P)" "length (sl_size s) = 4"
    using assms(2,3) by (simp_all add: pending_def)
  let ?recv = "map Some (drop 4 P) @ map Some buf @ drop (length P - 4 + length buf) (sl_recv s)"
  let ?s = "s\<lparr>sl_recv := ?recv, sl_read := sl_read s + length buf\<rparr>"
  have "mem_write (sl_recv s) (sl_read s) buf = Some ?recv" "length buf < sl_length s - sl_read s"
    using p assms(4) by (auto simp: mem_write_def)
  then have "content_state live i buf h = Some ([], put_slave i ?s h, None)"
    using assms(1) by (simp add: content_state_def Let_def)
  moreover have "frame_len (P @ buf) = frame_len P" using p(1) by (simp add: frame_len_def nth_append)
  then have "pending ?s (P @ buf)"
    using p assms(3,4) by (auto simp: pending_def nth_append)
  ultimately show ?thesis using assms(3) by (auto simp: same_link_def)
qed

lemma content_done:
  assumes "slave_at h i = Some s" and "pending s P" and "sl_status s = Content" and "4 + frame_len P \<le> length (P @ buf)"
  shows "\<exists>s'. content_state live i buf h =
      Some (frame_calls live h (take (frame_len P) (drop 4 (P @ buf))), put_slave i s' h,
        if drop (4 + frame_len P) (P @ buf) = [] then None else Some (drop (4 + frame_len P) (P @ buf))) \<and>
    pending s' [] \<and> same_link s s' \<and> sl_status s' = Header"
proof -
  have p: "4 \<le> length P" "P ! 0 = 0" "sl_length s = frame_len P" "HEADER_COOKIE_LENGTH \<le> frame_len P"
    "length P < 4 + frame_len P" "sl_read s = length P - 4" "length (sl_recv s) = frame_len P"
    "take (length P - 4) (sl_recv s) = map Some (drop 4 P)" "length (sl_size s) = 4"
    using assms(2,3) by (simp_all add: pending_def)
  let ?n = "frame_len P" and ?need = "frame_len P - (length P - 4)"
  let ?frame = "take ?n (drop 4 (P @ buf))"
  have lf: "length ?frame = ?n" using assms(4) by simp
  have fr: "?frame = drop 4 P @ take ?need buf" using p by simp
  have "mem_write (sl_recv s) (sl_read s) (take ?need buf) = Some (map Some ?frame)"
    using p assms(4) unfolding fr by (simp add: mem_write_def)
  moreover have "drop ?need buf = drop (4 + ?n) (P @ buf)" using p by (simp add: algebra_simps)
  moreover have "forward_local_message live h (map Some ?frame) ?n = Some (frame_calls live h ?frame)"
    using forward_frame [of ?frame live h] p(4) unfolding lf by simp
  moreover have "\<not> length buf < ?need" using p assms(4) by simp
  ultimately have "content_state live i buf h = Some (frame_calls live h ?frame,
      put_slave i (s\<lparr>sl_length := 0, sl_read := 0, sl_recv := [], sl_status := Header\<rparr>) h,
      if drop (4 + ?n) (P @ buf) = [] then None else Some (drop (4 + ?n) (P @ buf)))"
    using assms(1) p(3,6) by (simp add: content_state_def)
  then show ?thesis using p(9) by (auto simp: pending_def same_link_def)
qed

text \<open>The slave after a stream that ends with \<open>e\<close>, and the calls for its frames.\<close>

definition after_stream ::
  "(u32 \<Rightarrow> bool) \<Rightarrow> harbor \<Rightarrow> nat \<Rightarrow> slave \<Rightarrow> u8 list list \<times> link_end \<Rightarrow> hcall list \<Rightarrow> slave \<Rightarrow> bool" where
  "after_stream live h i s r calls s' \<longleftrightarrow> same_link s s' \<and>
     (case r of
        (fs, Pending R) \<Rightarrow> calls = concat (map (frame_calls live h) fs) \<and> pending s' R
      | (fs, TooLong) \<Rightarrow> sl_status s' = Down \<and>
          calls = concat (map (frame_calls live h) fs) @
            [HLog (str ''Message is too long from harbor '' @ fmt_d (of_nat i)), HClose (sl_fd s)]
      | (fs, TooShort) \<Rightarrow> False)"

lemma after_stream_put [simp]: "after_stream live (put_slave j x h) = after_stream live h"
  by (intro ext) (simp only: after_stream_def frame_calls_put)

lemma after_stream_cons:
  "after_stream live h i s1 (fs, e) calls s' \<Longrightarrow> same_link s s1 \<Longrightarrow>
    after_stream live h i s (f # fs, e) (frame_calls live h f @ calls) s'"
  by (auto simp: after_stream_def same_link_def split: link_end.splits)

lemma after_stream_link: "after_stream live h i s1 r calls s' \<Longrightarrow> same_link s s1 \<Longrightarrow> after_stream live h i s r calls s'"
  by (auto simp: after_stream_def same_link_def split: link_end.splits)

lemma hcut_cases:
  "length xs < 4 \<Longrightarrow> hcut xs = ([], Pending xs)"
  "4 \<le> length xs \<Longrightarrow> xs ! 0 \<noteq> 0 \<Longrightarrow> hcut xs = ([], TooLong)"
  "4 \<le> length xs \<Longrightarrow> xs ! 0 = 0 \<Longrightarrow> frame_len xs < HEADER_COOKIE_LENGTH \<Longrightarrow> hcut xs = ([], TooShort)"
  "4 \<le> length xs \<Longrightarrow> xs ! 0 = 0 \<Longrightarrow> HEADER_COOKIE_LENGTH \<le> frame_len xs \<Longrightarrow> length xs < 4 + frame_len xs \<Longrightarrow>
    hcut xs = ([], Pending xs)"
  "4 + frame_len xs \<le> length xs \<Longrightarrow> xs ! 0 = 0 \<Longrightarrow> HEADER_COOKIE_LENGTH \<le> frame_len xs \<Longrightarrow>
    hcut xs = (take (frame_len xs) (drop 4 xs) # fst (hcut (drop (4 + frame_len xs) xs)), snd (hcut (drop (4 + frame_len xs) xs)))"
  by (subst hcut.simps, simp add: split_beta)+

lemma hcut_Nil: "hcut [] = ([], Pending [])"
  by (simp add: hcut_cases)

lemma frame_len_prefix: "4 \<le> length P \<Longrightarrow> frame_len (P @ buf) = frame_len P \<and> (P @ buf) ! 0 = P ! 0"
  by (auto simp: frame_len_def nth_append)

lemma after_wait: "pending s' W \<Longrightarrow> same_link s s' \<Longrightarrow> after_stream live h i s ([], Pending W) [] s'"
  by (simp add: after_stream_def)

text \<open>One content step and what follows, given what follows (\<open>f\<close>) a complete frame.\<close>

lemma content_stream:
  assumes "slave_at h i = Some s" and "pending s P" and "sl_status s = Content"
    and "W = P @ buf" and "snd (hcut W) \<noteq> TooShort"
    and IH: "\<And>s' rest. pending s' [] \<Longrightarrow> sl_status s' = Header \<Longrightarrow> same_link s s' \<Longrightarrow> rest = drop (4 + frame_len P) W \<Longrightarrow>
      4 + frame_len P \<le> length W \<Longrightarrow> rest \<noteq> [] \<Longrightarrow> snd (hcut rest) \<noteq> TooShort \<Longrightarrow>
      \<exists>calls s''. f rest (put_slave i s' h) = Some (calls, put_slave i s'' h) \<and> after_stream live h i s' (hcut rest) calls s''"
  shows "\<exists>calls s'. then_step (content_state live i buf h) f = Some (calls, put_slave i s' h) \<and> after_stream live h i s (hcut W) calls s'"
proof -
  have p: "4 \<le> length P" "P ! 0 = 0" "HEADER_COOKIE_LENGTH \<le> frame_len P" using assms(2,3) by (simp_all add: pending_def)
  have w: "frame_len W = frame_len P" "W ! 0 = 0" "4 \<le> length W" using frame_len_prefix [OF p(1)] p assms(4) by simp_all
  show ?thesis
  proof (cases "length W < 4 + frame_len P")
    case True
    with content_more [OF assms(1-3)] obtain s' where s': "content_state live i buf h = Some ([], put_slave i s' h, None)"
      "pending s' W" "same_link s s'" unfolding assms(4) by blast
    have "hcut W = ([], Pending W)" by (rule hcut_cases(4)) (use w p True in simp_all)
    with s' show ?thesis by (auto simp: then_step_def after_wait)
  next
    case False
    then have len: "4 + frame_len P \<le> length W" by simp
    let ?rest = "drop (4 + frame_len P) W" and ?frame = "take (frame_len P) (drop 4 W)"
    from content_done [OF assms(1-3), of buf live] len obtain s' where
      s': "content_state live i buf h = Some (frame_calls live h ?frame, put_slave i s' h, if ?rest = [] then None else Some ?rest)"
      "pending s' []" "same_link s s'" "sl_status s' = Header" unfolding assms(4) by blast
    have cut: "hcut W = (?frame # fst (hcut ?rest), snd (hcut ?rest))"
      using hcut_cases(5) [of W] w p len by simp
    show ?thesis
    proof (cases "?rest = []")
      case True
      have "after_stream live h i s' ([], Pending []) [] s'" by (rule after_wait) (use s' in \<open>simp_all add: same_link_def\<close>)
      from after_stream_cons [OF this s'(3), of ?frame] show ?thesis
        using s' unfolding cut True hcut_Nil by (auto simp: then_step_def)
    next
      case False
      have "snd (hcut ?rest) \<noteq> TooShort" using assms(5) unfolding cut by simp
      from IH [OF s'(2,4,3) refl len False this] obtain calls s'' where
        c: "f ?rest (put_slave i s' h) = Some (calls, put_slave i s'' h)" "after_stream live h i s' (hcut ?rest) calls s''" by blast
      have "after_stream live h i s (hcut W) (frame_calls live h ?frame @ calls) s''"
        unfolding cut by (rule after_stream_cons [of _ _ _ s']) (use c(2) s'(3) in simp_all)
      then show ?thesis using s'(1) c(1) False by (auto simp: then_step_def)
    qed
  qed
qed

lemma socket_stream:
  assumes "slave_at h i = Some s" and "pending s P" and "sl_fd s \<noteq> 0" and "sl_queue s = None"
    and "snd (hcut (P @ buf)) \<noteq> TooShort" and "length buf < n"
  shows "\<exists>calls s'. socket_loop live n i fd buf h = Some (calls, put_slave i s' h) \<and> after_stream live h i s (hcut (P @ buf)) calls s'"
  using assms
proof (induction n arbitrary: h s P buf)
  case 0
  then show ?case by simp
next
  case (Suc n)
  have i: "i < length (hb_s h)" by (rule slave_at_less [OF Suc.prems(1)])
  have content: "\<exists>calls s'. then_step (content_state live i buf (put_slave i s1 h)) (socket_loop live n i fd) = Some (calls, put_slave i s' h) \<and>
      after_stream live h i s1 (hcut (P1 @ buf)) calls s'"
    if "pending s1 P1" "sl_status s1 = Content" "same_link s s1" "snd (hcut (P1 @ buf)) \<noteq> TooShort" "length buf \<le> n" for s1 P1 buf
  proof -
    let ?h = "put_slave i s1 h"
    have p: "length P1 < 4 + frame_len P1" using that(1,2) by (simp add: pending_def)
    have "\<exists>calls s'. then_step (content_state live i buf ?h) (socket_loop live n i fd) = Some (calls, put_slave i s' ?h) \<and>
        after_stream live ?h i s1 (hcut (P1 @ buf)) calls s'"
    proof (rule content_stream [OF _ that(1,2) refl that(4)])
      show "slave_at ?h i = Some s1" using i by simp
      fix s' rest
      assume a: "pending s' []" "sl_status s' = Header" "same_link s1 s'" "rest = drop (4 + frame_len P1) (P1 @ buf)"
        "4 + frame_len P1 \<le> length (P1 @ buf)" "rest \<noteq> []" "snd (hcut rest) \<noteq> TooShort"
      have "length rest < n" using a(4,5) p that(5) by simp
      with Suc.IH [of "put_slave i s' ?h" s' "[]" rest] a i that(3) Suc.prems(3,4)
      show "\<exists>calls s''. socket_loop live n i fd rest (put_slave i s' ?h) = Some (calls, put_slave i s'' ?h) \<and>
          after_stream live ?h i s' (hcut rest) calls s''"
        by (simp add: same_link_def)
    qed
    then show ?thesis by simp
  qed
  show ?case
  proof (cases "sl_status s")
    case Content
    have "put_slave i s h = h" by (rule put_slave_same [OF Suc.prems(1)])
    with content [OF Suc.prems(2) Content, of buf] Suc.prems(1,5,6) Content show ?thesis
      by (simp add: same_link_def)
  next
    case Header
    let ?W = "P @ buf"
    have P: "length P < 4" using Suc.prems(2) Header by (simp add: pending_def)
    have e: "socket_loop live (Suc n) i fd buf h = then_step (header_state i buf h) (\<lambda>buffer h.
         then_step (content_state live i buffer h) (socket_loop live n i fd))"
      using Suc.prems(1) Header by simp
    consider (more) "length ?W < 4" | (long) "4 \<le> length ?W" "?W ! 0 \<noteq> 0" | (fin) "4 \<le> length ?W" "?W ! 0 = 0"
      by linarith
    then show ?thesis
    proof cases
      case more
      from header_more [OF Suc.prems(1,2) Header more] obtain s' where
        s': "header_state i buf h = Some ([], put_slave i s' h, None)" "pending s' ?W" "same_link s s'" by blast
      show ?thesis unfolding e s'(1) hcut_cases(1) [OF more] then_step_def
        using after_wait [OF s'(2,3)] by auto
    next
      case long
      let ?s = "s\<lparr>sl_size := take 4 ?W\<rparr>"
      have "close_harbor i (put_slave i ?s h) = Some ([HClose (sl_fd s)], put_slave i (?s\<lparr>sl_status := Down, sl_queue := None\<rparr>) h)"
        using i Suc.prems(3,4) by (simp add: close_harbor_def)
      then have "header_state i buf h = Some (HLog (str ''Message is too long from harbor '' @ fmt_d (of_nat i)) # [HClose (sl_fd s)],
          put_slave i (?s\<lparr>sl_status := Down, sl_queue := None\<rparr>) h, None)"
        using header_too_long [OF Suc.prems(1,2) Header refl long] by simp
      then show ?thesis
        unfolding e hcut_cases(2) [OF long] using Suc.prems(4)
        by (auto simp: then_step_def after_stream_def same_link_def)
    next
      case fin
      have fl: "HEADER_COOKIE_LENGTH \<le> frame_len ?W" using Suc.prems(5) hcut_cases(3) [OF fin] by fastforce
      from header_done [OF Suc.prems(1,2) Header refl fin fl] obtain s' where
        s': "header_state i buf h = Some ([], put_slave i s' h, if drop 4 ?W = [] then None else Some (drop 4 ?W))"
        "pending s' (take 4 ?W)" "same_link s s'" "sl_status s' = Content" by blast
      show ?thesis
      proof (cases "drop 4 ?W = []")
        case True
        then have "take 4 ?W = ?W" by simp
        moreover have "hcut ?W = ([], Pending ?W)"
          by (rule hcut_cases(4)) (use fin fl True [unfolded drop_eq_Nil] in \<open>linarith | simp only: HEADER_COOKIE_LENGTH_def\<close>)+
        ultimately show ?thesis unfolding e using s' True by (auto simp: then_step_def after_wait)
      next
        case False
        have "length (drop 4 ?W) \<le> n" using P Suc.prems(6) by simp
        with content [OF s'(2,4,3), of "drop 4 ?W"] Suc.prems(5) obtain calls s'' where
          "then_step (content_state live i (drop 4 ?W) (put_slave i s' h)) (socket_loop live n i fd) = Some (calls, put_slave i s'' h)"
          "after_stream live h i s' (hcut ?W) calls s''" by (auto simp del: drop_append take_append)
        then show ?thesis unfolding e using s'(1,3) False
          by (auto simp: then_step_def intro: after_stream_link simp del: drop_append)
      qed
    qed
  qed (use Suc.prems(2) in \<open>auto simp: pending_def\<close>)
qed

subsection \<open>The invariant of the harbor\<close>

definition queue_ok :: "harbor_msg_queue option \<Rightarrow> bool" where
  "queue_ok q \<longleftrightarrow> (case q of None \<Rightarrow> True | Some q \<Rightarrow> \<exists>ms. hq_holds q ms)"

lemma queue_ok_simps [simp]: "queue_ok None" "queue_ok (Some q) \<longleftrightarrow> (\<exists>ms. hq_holds q ms)"
  by (simp_all add: queue_ok_def)

definition slave_ok :: "slave \<Rightarrow> bool" where
  "slave_ok s \<longleftrightarrow> queue_ok (sl_queue s) \<and>
     (case sl_status s of
        Wait \<Rightarrow> sl_fd s = 0 \<and> sl_read s = 0 \<and> length (sl_size s) = 4
      | Handshake \<Rightarrow> sl_fd s \<noteq> 0 \<and> sl_read s = 0 \<and> length (sl_size s) = 4
      | Down \<Rightarrow> sl_fd s \<noteq> 0
      | _ \<Rightarrow> sl_fd s \<noteq> 0 \<and> sl_queue s = None \<and> (\<exists>P. pending s P))"

definition map_ok :: "keyvalue list list \<Rightarrow> bool" where
  "map_ok m \<longleftrightarrow> length m = HASH_SIZE \<and> (\<forall>b\<in>set m. \<forall>kv\<in>set b. queue_ok (kv_queue kv))"

definition harbor_ok :: "harbor \<Rightarrow> bool" where
  "harbor_ok h \<longleftrightarrow> map_ok (hb_map h) \<and> length (hb_s h) = REMOTE_MAX \<and> (\<forall>s\<in>set (hb_s h). slave_ok s)"

lemma harbor_ok_put_slave: "harbor_ok h \<Longrightarrow> slave_ok s \<Longrightarrow> harbor_ok (put_slave i s h)"
  by (auto simp: harbor_ok_def put_slave_def dest!: set_update_subset_insert [THEN subsetD])


lemma slave_ok_at: "harbor_ok h \<Longrightarrow> slave_at h i = Some s \<Longrightarrow> slave_ok s"
  by (auto simp: harbor_ok_def slave_at_def nth_at_def split: if_splits)


lemma bucket_of_less: "bucket_of name < HASH_SIZE"
  by (simp add: bucket_of_def HASH_SIZE_def)






text \<open>Sending the queue of a connection that is ready.\<close>

definition queue_list :: "harbor_msg_queue option \<Rightarrow> harbor_msg list \<Rightarrow> bool" where
  "queue_list q ms \<longleftrightarrow> (case q of None \<Rightarrow> ms = [] | Some q \<Rightarrow> hq_holds q ms)"

lemma dispatch_queue_ok:
  assumes "slave_at h i = Some s" and "sl_fd s \<noteq> 0" and "queue_list (sl_queue s) ms"
  shows "dispatch_queue i h = Some (concat (map (send_and_free (sl_fd s)) ms), put_slave i (s\<lparr>sl_queue := None\<rparr>) h)"
proof (cases "sl_queue s")
  case None
  then have e: "s\<lparr>sl_queue := None\<rparr> = s" by simp
  show ?thesis unfolding e using assms None put_slave_same [OF assms(1)] by (simp add: dispatch_queue_def queue_list_def)
next
  case (Some q)
  with assms(3) have "hq_holds q ms" by (simp add: queue_list_def)
  from calls_loop_ok [OF this, of "send_and_free (sl_fd s)"] obtain q' where
    "calls_loop (send_and_free (sl_fd s)) q = Some (q', concat (map (send_and_free (sl_fd s)) ms))" "hq_holds q' []" by blast
  then show ?thesis using assms(1,2) Some release_queue_ok [of q' "[]"] by (simp add: dispatch_queue_def)
qed




lemma queue_of_push:
  "queue_list q ms \<Longrightarrow> \<exists>q'. push_hqueue (queue_of q) msg hdr = Some q' \<and> hq_holds q' (ms @ [\<lparr>hm_header = hdr, hm_buffer = msg\<rparr>])"
  using hq_fifo.push_ok [OF hq_holds_new] hq_fifo.push_ok
  by (cases q) (fastforce simp: queue_list_def queue_of_def push_hqueue_def)+




lemma socket_handshake:
  assumes "slave_at h i = Some s" and "sl_status s = Handshake" and "sl_fd s \<noteq> 0" and "sl_read s = 0"
    and "length (sl_size s) = 4" and "queue_list (sl_queue s) ms" and "i < REMOTE_MAX" and "snd (hcut buf) \<noteq> TooShort"
    and "length buf + 1 < n"
  shows "\<exists>calls s'. socket_loop live n i fd (of_nat i # buf) h =
      Some (concat (map (send_and_free (sl_fd s)) ms) @ calls, put_slave i s' h) \<and>
    after_stream live h i (s\<lparr>sl_status := Header, sl_queue := None\<rparr>) (hcut buf) calls s'"
proof -
  let ?s = "s\<lparr>sl_status := Header, sl_queue := None\<rparr>"
  let ?q = "concat (map (send_and_free (sl_fd s)) ms)"
  obtain n' where n: "n = Suc n'" using assms(9) by (cases n) auto
  have i: "i < length (hb_s h)" by (rule slave_at_less [OF assms(1)])
  have "unat (of_nat i :: u8) = i" using assms(7) by (simp add: REMOTE_MAX_def unsigned_of_nat take_bit_nat_eq_self)
  moreover have "dispatch_queue i (put_slave i (s\<lparr>sl_status := Header\<rparr>) h) = Some (?q, put_slave i ?s h)"
    using dispatch_queue_ok [of "put_slave i (s\<lparr>sl_status := Header\<rparr>) h" i "s\<lparr>sl_status := Header\<rparr>" ms] i assms(3,6) by simp
  ultimately have hs: "handshake_state i fd (of_nat i # buf) h = Some (?q, put_slave i ?s h, Some buf)"
    using assms(1) by (simp add: handshake_state_def nth_at_def)
  have "pending ?s []" using assms(4,5) by (simp add: pending_def)
  with socket_stream [of "put_slave i ?s h" i ?s "[]" buf n' live fd] i assms(3,8,9) n
  obtain calls s' where "socket_loop live n' i fd buf (put_slave i ?s h) = Some (calls, put_slave i s' h)"
    "after_stream live h i ?s (hcut buf) calls s'" by auto
  moreover from \<open>pending ?s []\<close> socket_stream [of "put_slave i ?s h" i ?s "[]" buf n live fd] i assms(3,8,9)
  obtain calls' s'' where "socket_loop live n i fd buf (put_slave i ?s h) = Some (calls', put_slave i s'' h)"
    "after_stream live h i ?s (hcut buf) calls' s''" by auto
  ultimately show ?thesis
    using assms(1,2) hs i unfolding n by (cases "buf = []") (auto simp: then_step_def)
qed







lemma harbor_create_ok: "harbor_ok (harbor_create\<lparr>hb_id := k, hb_slave := sl\<rparr>)"
  by (simp add: harbor_ok_def harbor_create_def map_ok_def hash_new_def slave_ok_def)

text \<open>A history of events, with all calls.\<close>

fun harbor_run :: "(u32 \<Rightarrow> bool) \<Rightarrow> harbor_event list \<Rightarrow> harbor action" where
  "harbor_run live [] h = Some ([], h)"
| "harbor_run live (e # es) h = do {
     (calls, h1) \<leftarrow> mainloop live e h;
     (calls', h2) \<leftarrow> harbor_run live es h1;
     Some (calls @ calls', h2) }"

lemma harbor_run_append:
  "harbor_run live (es @ fs) h = do {
     (calls, h1) \<leftarrow> harbor_run live es h; (calls', h2) \<leftarrow> harbor_run live fs h1; Some (calls @ calls', h2) }"
proof (induction es arbitrary: h)
  case Nil
  show ?case by (cases "harbor_run live fs h") auto
next
  case (Cons e es)
  show ?case
  proof (cases "mainloop live e h")
    case (Some r)
    obtain c1 h1 where r: "r = (c1, h1)" by (cases r)
    show ?thesis
    proof (cases "harbor_run live es h1")
      case s2: (Some r2)
      obtain c2 h2 where "r2 = (c2, h2)" by (cases r2)
      then show ?thesis using Cons.IH [of h1] Some s2 r by (cases "harbor_run live fs h2") auto
    qed (use Cons.IH [of h1] Some r in simp)
  qed simp
qed

subsection \<open>Messages on the wire\<close>

lemma from_to_bigendian: "from_bigendian (to_bigendian n) = n"
proof (rule bit_word_eqI)
  fix k assume "k < LENGTH(32)"
  then consider "k < 8" | "8 \<le> k" "k < 16" | "16 \<le> k" "k < 24" | "24 \<le> k" "k < 32" by fastforce
  then show "bit (from_bigendian (to_bigendian n)) k = bit n k"
    by cases (auto simp: from_bigendian_def to_bigendian_def bit_simps)
qed

lemma length_to_bigendian [simp]: "length (to_bigendian n) = 4"
  by (simp add: to_bigendian_def)

lemma length_header [simp]: "length (header_to_message hdr) = HEADER_COOKIE_LENGTH"
  by (simp add: header_to_message_def HEADER_COOKIE_LENGTH_def)

lemma message_header_roundtrip: "message_to_header (header_to_message hdr) = hdr"
  by (simp add: message_to_header_def header_to_message_def from_to_bigendian)

lemma size_bytes:
  assumes "n < 2 ^ 32"
  shows "map unat (to_bigendian (of_nat n)) = [n div 2 ^ 24, n div 2 ^ 16 mod 256, n div 2 ^ 8 mod 256, n mod 256]"
proof -
  have u: "unat (of_nat n :: u32) = n" using assms by (simp add: unsigned_of_nat take_bit_nat_eq_self)
  have "n div 2 ^ 24 < 256" using assms by (simp add: less_mult_imp_div_less)
  then show ?thesis
    by (simp add: to_bigendian_def unsigned_ucast_eq u unat_drop_bit_div take_bit_eq_mod)
qed

lemma size_bytes_len:
  assumes "n < 2 ^ 32"
  shows "to_bigendian (of_nat n) ! 0 = 0 \<longleftrightarrow> n < 2 ^ 24"
    and "n < 2 ^ 24 \<Longrightarrow> frame_len (to_bigendian (of_nat n)) = n"
proof -
  have u: "unat (to_bigendian (of_nat n) ! k) = [n div 2 ^ 24, n div 2 ^ 16 mod 256, n div 2 ^ 8 mod 256, n mod 256] ! k"
    if "k < 4" for k
    using that size_bytes [OF assms] nth_map [of k "to_bigendian (of_nat n)" unat] by simp
  have "to_bigendian (of_nat n) ! 0 = 0 \<longleftrightarrow> n div 2 ^ 24 = 0"
    using u [of 0] by (simp flip: unat_eq_zero)
  then show "to_bigendian (of_nat n) ! 0 = 0 \<longleftrightarrow> n < 2 ^ 24" by (simp add: div_eq_0_iff)
  assume n: "n < 2 ^ 24"
  have "frame_len (to_bigendian (of_nat n)) = n div 2 ^ 16 mod 256 * 2 ^ 16 + n div 2 ^ 8 mod 256 * 2 ^ 8 + n mod 256"
    using u [of 1] u [of 2] u [of 3] by (simp add: frame_len_def)
  also have "n div 2 ^ 16 mod 256 = n div 2 ^ 16" using n by (simp add: less_mult_imp_div_less)
  also have "n div 2 ^ 16 * 2 ^ 16 + n div 2 ^ 8 mod 256 * 2 ^ 8 + n mod 256 = n"
  proof -
    have "n div 256 div 256 * 256 + n div 256 mod 256 = n div 256" "n div 256 * 256 + n mod 256 = n"
      by (rule div_mult_mod_eq)+
    moreover have "n div 65536 = n div 256 div 256" by (simp add: div_mult2_eq [symmetric])
    ultimately have "n div 65536 * 65536 + n div 256 mod 256 * 256 + n mod 256 = n" by linarith
    then show ?thesis by simp
  qed
  finally show "frame_len (to_bigendian (of_nat n)) = n" .
qed

text \<open>A message on its way out: source, session, handle, type and bytes; its frame; what the other harbor sends.\<close>

type_synonym out_msg = "u32 \<times> i32 \<times> u32 \<times> i32 \<times> u8 list"

definition out_event :: "out_msg \<Rightarrow> harbor_event" where
  "out_event m = (case m of (source, session, handle, type, msg) \<Rightarrow> OutHandle source session handle type msg)"

definition out_queued :: "out_msg \<Rightarrow> harbor_msg" where
  "out_queued m = (case m of (source, session, handle, type, msg) \<Rightarrow>
     \<lparr>hm_header = message_header source handle type session, hm_buffer = msg\<rparr>)"

definition frame_body :: "out_msg \<Rightarrow> u8 list" where
  "frame_body m = (case m of (source, session, handle, type, msg) \<Rightarrow>
     msg @ header_to_message (message_header source handle type session))"

definition wire :: "out_msg \<Rightarrow> u8 list" where
  "wire m = to_bigendian (of_nat (length (frame_body m))) @ frame_body m"

definition delivered :: "out_msg \<Rightarrow> hcall" where
  "delivered m = (case m of (source, session, handle, type, msg) \<Rightarrow>
     HSend source handle (type OR PTYPE_TAG_DONTCOPY) session msg)"

definition out_target :: "out_msg \<Rightarrow> u32" where
  "out_target m = (case m of (source, session, handle, type, msg) \<Rightarrow> handle)"

definition out_type :: "out_msg \<Rightarrow> i32" where
  "out_type m = (case m of (source, session, handle, type, msg) \<Rightarrow> type)"

lemma frame_body_long: "HEADER_COOKIE_LENGTH \<le> length (frame_body m)"
  by (cases m) (simp add: frame_body_def)

lemma send_remote_wire:
  assumes "length (frame_body m) < 2 ^ 32"
  shows "send_and_free fd (out_queued m) = [HSocketSend fd (wire m), HFree (hm_buffer (out_queued m))]"
  using assms
  by (cases m) (simp add: send_and_free_def send_remote_def out_queued_def wire_def frame_body_def Let_def)

lemma hcut_wire:
  assumes "length (frame_body m) < 2 ^ 24"
  shows "hcut (wire m @ rest) = (frame_body m # fst (hcut rest), snd (hcut rest))"
proof -
  let ?n = "length (frame_body m)" and ?xs = "wire m @ rest"
  have b: "to_bigendian (of_nat ?n) ! 0 = 0" "frame_len (to_bigendian (of_nat ?n)) = ?n"
    using size_bytes_len [of ?n] assms by simp_all
  have xs: "?xs = to_bigendian (of_nat ?n) @ frame_body m @ rest" by (simp add: wire_def)
  have "frame_len ?xs = ?n" "?xs ! 0 = 0"
    using frame_len_prefix [of "to_bigendian (of_nat ?n)" "frame_body m @ rest"] b unfolding xs by simp_all
  moreover have "drop 4 ?xs = frame_body m @ rest" unfolding xs by simp
  moreover have "drop (4 + ?n) ?xs = rest" unfolding xs by simp
  ultimately show ?thesis using hcut_cases(5) [of ?xs] frame_body_long [of m] by (simp add: wire_def)
qed

lemma hcut_wires:
  "\<forall>m\<in>set ms. length (frame_body m) < 2 ^ 24 \<Longrightarrow> hcut (concat (map wire ms)) = (map frame_body ms, Pending [])"
  by (induction ms) (simp_all add: hcut_Nil hcut_wire)

lemma hcut_append:
  "hcut (xs @ ys) = (case snd (hcut xs) of
     Pending R \<Rightarrow> (fst (hcut xs) @ fst (hcut (R @ ys)), snd (hcut (R @ ys))) | _ \<Rightarrow> hcut xs)"
proof (induction xs rule: hcut.induct [case_names step])
  case (step xs)
  consider "length xs < 4" | "4 \<le> length xs" "xs ! 0 \<noteq> 0" | "4 \<le> length xs" "xs ! 0 = 0" "frame_len xs < HEADER_COOKIE_LENGTH"
    | (wait) "4 \<le> length xs" "xs ! 0 = 0" "HEADER_COOKIE_LENGTH \<le> frame_len xs" "length xs < 4 + frame_len xs"
    | (frame) "4 \<le> length xs" "xs ! 0 = 0" "HEADER_COOKIE_LENGTH \<le> frame_len xs" "4 + frame_len xs \<le> length xs" by linarith
  then show ?case
  proof cases
    case frame
    have p: "frame_len (xs @ ys) = frame_len xs" "(xs @ ys) ! 0 = 0" using frame_len_prefix [OF frame(1)] frame(2) by simp_all
    have "hcut (xs @ ys) = (take (frame_len xs) (drop 4 xs) # fst (hcut (drop (4 + frame_len xs) xs @ ys)),
        snd (hcut (drop (4 + frame_len xs) xs @ ys)))"
      using hcut_cases(5) [of "xs @ ys"] frame p by simp
    moreover have "hcut (drop (4 + frame_len xs) xs @ ys) = (case snd (hcut (drop (4 + frame_len xs) xs)) of
        Pending R \<Rightarrow> (fst (hcut (drop (4 + frame_len xs) xs)) @ fst (hcut (R @ ys)), snd (hcut (R @ ys)))
      | _ \<Rightarrow> hcut (drop (4 + frame_len xs) xs))"
      by (rule step) (use frame in simp_all)
    ultimately show ?thesis using hcut_cases(5) [of xs] frame by (simp split: link_end.splits)
  next
    case wait
    then show ?thesis using hcut_cases(4) [of xs] by simp
  qed (use frame_len_prefix [of xs ys] in \<open>simp_all add: hcut_cases\<close>)
qed

lemma remote_bits:
  "(push_bit 24 (type :: u32) OR (handle AND mask 24)) AND mask 24 = handle AND mask 24"
  "unat type < 256 \<Longrightarrow> drop_bit 24 (push_bit 24 type OR (handle AND mask 24)) = type"
proof -
  show "(push_bit 24 type OR (handle AND mask 24)) AND mask 24 = handle AND mask 24"
    by (rule bit_word_eqI) (auto simp: bit_simps)
  assume t: "unat type < 256"
  show "drop_bit 24 (push_bit 24 type OR (handle AND mask 24)) = type"
  proof (rule bit_word_eqI)
    fix k assume k: "k < LENGTH(32)"
    have "\<not> bit type k" if "8 \<le> k"
    proof -
      have "(256 :: nat) \<le> 2 ^ k" using power_increasing [OF that, of "2 :: nat"] by simp
      then have "unat type div 2 ^ k = 0" using t by simp
      then have "\<not> bit (unat type) k" by (simp add: bit_iff_odd)
      then show ?thesis by (simp add: bit_unsigned_iff)
    qed
    then show "bit (drop_bit 24 (push_bit 24 type OR (handle AND mask 24))) k = bit type k"
      using k by (cases "8 \<le> k") (auto simp: bit_simps)
  qed
qed

lemma handle_bits: "(handle AND mask 24) OR push_bit 24 (drop_bit 24 handle) = (handle :: u32)"
proof (rule bit_word_eqI)
  fix k assume "k < LENGTH(32)"
  then show "bit ((handle AND mask 24) OR push_bit 24 (drop_bit 24 handle)) k = bit handle k"
    by (cases "k < 24") (auto simp: bit_simps)
qed

lemma frame_calls_msg:
  assumes "frame = msg @ header_to_message hdr"
    and "live ((h_destination hdr AND HANDLE_MASK) OR push_bit HANDLE_REMOTE_SHIFT (hb_id h))"
  shows "frame_calls live h frame =
    [HSend (h_source hdr) ((h_destination hdr AND HANDLE_MASK) OR push_bit HANDLE_REMOTE_SHIFT (hb_id h))
       (msg_type (h_destination hdr) OR PTYPE_TAG_DONTCOPY) (h_session hdr) msg]"
proof -
  have "drop (length frame - HEADER_COOKIE_LENGTH) frame = header_to_message hdr"
    "take (length frame - HEADER_COOKIE_LENGTH) frame = msg" "HEADER_COOKIE_LENGTH \<le> length frame"
    by (simp_all add: assms(1))
  then show ?thesis
    using assms(2) by (simp add: frame_calls_def forward_local_message_def message_header_roundtrip Let_def)
qed

lemma frame_calls_body:
  assumes "unat (out_type m) < 256" and "drop_bit HANDLE_REMOTE_SHIFT (out_target m) = hb_id h" and "live (out_target m)"
  shows "frame_calls live h (frame_body m) = [delivered m]"
proof -
  obtain source session handle type msg where m: "m = (source, session, handle, type, msg)" by (cases m)
  have t: "unat type < 256" and d: "push_bit 24 (hb_id h) = push_bit 24 (drop_bit 24 handle)" and l: "live handle"
    using assms by (simp_all add: m out_type_def out_target_def HANDLE_REMOTE_SHIFT_def)
  let ?d = "push_bit 24 type OR (handle AND mask 24)"
  have "(?d AND mask 24) OR push_bit 24 (hb_id h) = handle" unfolding d remote_bits(1) by (rule handle_bits)
  moreover have "drop_bit 24 ?d = type" by (rule remote_bits(2) [OF t])
  ultimately show ?thesis
    using frame_calls_msg [of "frame_body m" msg "message_header source handle type session" live h] l
    unfolding m frame_body_def message_header_def msg_type_def delivered_def HANDLE_REMOTE_SHIFT_def HANDLE_MASK_def
    by (simp only: prod.case remote_message_header.simps ucast_id simp_thms)
qed

subsection \<open>From one harbor to the other\<close>

declare socket_loop.simps [simp del]

lemma harbor_id_put:
  assumes "slave_at h i = Some s" and "sl_fd s' = sl_fd s"
  shows "harbor_id (put_slave i s' h) fd = harbor_id h fd"
proof -
  have "sl_fd ((hb_s h)[i := s'] ! j) = sl_fd (hb_s h ! j)" for j
    using assms by (cases "j = i") (auto simp: slave_at_def nth_at_def split: if_splits)
  then show ?thesis by (simp add: harbor_id_def put_slave_def)
qed

definition is_send :: "hcall \<Rightarrow> bool" where
  "is_send c \<longleftrightarrow> (case c of HSend _ _ _ _ _ \<Rightarrow> True | _ \<Rightarrow> False)"

lemma is_send_free [simp]: "\<not> is_send (HFree bs)"
  by (simp add: is_send_def)

lemma receive_stream:
  assumes "slave_at h i = Some s" and "harbor_id h fd = Some i" and "pending s P" and "sl_fd s \<noteq> 0" and "sl_queue s = None"
    and "hcut (P @ concat segs) = (fs, Pending R)"
  shows "\<exists>calls s'. harbor_run live (map (SocketData fd) segs) h = Some (calls, put_slave i s' h) \<and>
    filter is_send calls = filter is_send (concat (map (frame_calls live h) fs)) \<and> pending s' R \<and> same_link s s'"
  using assms
proof (induction segs arbitrary: h s P fs)
  case Nil
  have "hcut P = ([], Pending P)" using Nil.prems(3) by (auto simp: pending_def hcut_cases)
  then show ?case using Nil.prems put_slave_same [OF Nil.prems(1)]
    by (intro exI [of _ "[]"] exI [of _ s]) (auto simp: same_link_def)
next
  case (Cons seg segs)
  obtain fs1 e where e: "hcut (P @ seg) = (fs1, e)" by (cases "hcut (P @ seg)")
  have "hcut ((P @ seg) @ concat segs) = (fs, Pending R)" using Cons.prems(6) by simp
  then obtain R1 fs2 where R1: "e = Pending R1" "hcut (R1 @ concat segs) = (fs2, Pending R)" "fs = fs1 @ fs2"
    unfolding hcut_append [of "P @ seg" "concat segs"] e by (cases e) (auto simp: prod_eq_iff)
  have "snd (hcut (P @ seg)) \<noteq> TooShort" by (simp add: e R1(1))
  from socket_stream [OF Cons.prems(1,3,4,5) this, of "length seg + 2" live fd] obtain c1 s1 where
    s1: "socket_loop live (length seg + 2) i fd seg h = Some (c1, put_slave i s1 h)"
    "c1 = concat (map (frame_calls live h) fs1)" "pending s1 R1" "same_link s s1"
    by (auto simp: e R1(1) after_stream_def)
  have i: "i < length (hb_s h)" by (rule slave_at_less [OF Cons.prems(1)])
  have "harbor_id (put_slave i s1 h) fd = Some i"
    using Cons.prems(2) harbor_id_put [OF Cons.prems(1)] s1(4) by (simp add: same_link_def)
  with Cons.IH [of "put_slave i s1 h" s1 R1 fs2] R1(2) s1 i Cons.prems(4,5) obtain c2 s2 where
    s2: "harbor_run live (map (SocketData fd) segs) (put_slave i s1 h) = Some (c2, put_slave i s2 h)"
    "filter is_send c2 = filter is_send (concat (map (frame_calls live h) fs2))" "pending s2 R" "same_link s1 s2"
    by (auto simp: same_link_def)
  have "mainloop live (SocketData fd seg) h = Some (c1 @ [HFree seg], put_slave i s1 h)"
    using s1(1) Cons.prems(2) by (simp add: mainloop_def push_socket_data_def)
  then have "harbor_run live (map (SocketData fd) (seg # segs)) h = Some ((c1 @ [HFree seg]) @ c2, put_slave i s2 h)"
    using s2(1) by simp
  moreover have "same_link s s2" using s1(4) s2(4) by (simp add: same_link_def)
  moreover have "filter is_send ((c1 @ [HFree seg]) @ c2) = filter is_send (concat (map (frame_calls live h) fs))"
    using s1(2) s2(2) R1(3) by simp
  ultimately show ?case using s2(3) by blast
qed

lemma slave_ok_header: "slave_ok s \<Longrightarrow> sl_status s = Header \<Longrightarrow> sl_read s = 0 \<Longrightarrow> pending s [] \<and> sl_fd s \<noteq> 0 \<and> sl_queue s = None"
  by (auto simp: slave_ok_def pending_def)

text \<open>
  Property C20. What one harbor writes to the socket, the other one delivers: from any cut of the stream of
  frames into segments it sends exactly the messages, in order, with their source, session, type, bytes and
  the handle they were sent to.
\<close>
theorem harbor_link_delivers:
  assumes "harbor_ok h" and "harbor_id h fd = Some i" and "slave_at h i = Some s" and "sl_status s = Header" and "sl_read s = 0"
    and "\<forall>m\<in>set ms. length (frame_body m) < 2 ^ 24 \<and> unat (out_type m) < 256 \<and>
      drop_bit HANDLE_REMOTE_SHIFT (out_target m) = hb_id h \<and> live (out_target m)"
    and "concat segs = concat (map wire ms)"
  shows "\<exists>calls h'. harbor_run live (map (SocketData fd) segs) h = Some (calls, h') \<and> filter is_send calls = map delivered ms"
proof -
  have s: "pending s []" "sl_fd s \<noteq> 0" "sl_queue s = None"
    using slave_ok_header [OF slave_ok_at [OF assms(1,3)] assms(4,5)] by simp_all
  have "hcut ([] @ concat segs) = (map frame_body ms, Pending [])"
    using assms(6) by (simp add: assms(7) hcut_wires)
  from receive_stream [OF assms(3,2) s this, of live] obtain calls s' where
    r: "harbor_run live (map (SocketData fd) segs) h = Some (calls, put_slave i s' h)"
    "filter is_send calls = filter is_send (concat (map (frame_calls live h) (map frame_body ms)))" by blast
  have "concat (map (frame_calls live h) (map frame_body ms)) = map delivered ms"
    using assms(6) by (induction ms) (simp_all add: frame_calls_body)
  moreover have "filter is_send (map delivered ms) = map delivered ms"
    by (rule filter_True) (auto simp: is_send_def delivered_def split: prod.splits)
  ultimately show ?thesis using r by simp
qed

text \<open>The harbor 2 with a connection to harbor 1, for the examples.\<close>

definition demo_harbor :: harbor where
  "demo_harbor = put_slave 1 \<lparr>sl_fd = 9, sl_queue = None, sl_status = Header, sl_length = 0, sl_read = 0,
     sl_size = [0, 0, 0, 0], sl_recv = []\<rparr> (harbor_create\<lparr>hb_id := 2, hb_slave := 0x02000005\<rparr>)"

lemma demo_harbor_facts:
  "harbor_ok demo_harbor" "harbor_id demo_harbor 9 = Some 1" "hb_id demo_harbor = 2"
  "slave_at demo_harbor 1 = Some \<lparr>sl_fd = 9, sl_queue = None, sl_status = Header, sl_length = 0, sl_read = 0,
     sl_size = [0, 0, 0, 0], sl_recv = []\<rparr>"
proof -
  show "harbor_ok demo_harbor"
    unfolding demo_harbor_def
    by (rule harbor_ok_put_slave [OF harbor_create_ok]) (auto simp: slave_ok_def pending_def intro!: exI [of _ "[]"])
  have "[1..<REMOTE_MAX] = 1 # [2..<REMOTE_MAX]" by (simp add: REMOTE_MAX_def upt_conv_Cons numeral_2_eq_2)
  then show "harbor_id demo_harbor 9 = Some 1"
    by (simp add: harbor_id_def demo_harbor_def put_slave_def harbor_create_def REMOTE_MAX_def)
  show "hb_id demo_harbor = 2" by (simp add: demo_harbor_def)
  show "slave_at demo_harbor 1 = Some \<lparr>sl_fd = 9, sl_queue = None, sl_status = Header, sl_length = 0, sl_read = 0,
     sl_size = [0, 0, 0, 0], sl_recv = []\<rparr>"
    unfolding demo_harbor_def by (rule slave_at_put) (simp add: harbor_create_def REMOTE_MAX_def)
qed

theorem harbor_link_delivers_witness:
  "\<exists>calls h'. harbor_run (\<lambda>_. True) (map (SocketData 9) [wire (0x01000003, 7, 0x02000004, 10, [65, 66])]) demo_harbor = Some (calls, h') \<and>
     filter is_send calls = map delivered [(0x01000003, 7, 0x02000004, 10, [65, 66])]"
  by (rule harbor_link_delivers [OF demo_harbor_facts(1,2,4)])
    (simp_all add: frame_body_def out_type_def out_target_def demo_harbor_facts(3) HANDLE_REMOTE_SHIFT_def HEADER_COOKIE_LENGTH_def)

text \<open>Sending while there is no connection, and over one.\<close>

lemma out_handle:
  assumes "unat (drop_bit HANDLE_REMOTE_SHIFT (out_target m)) = i" and "int i \<noteq> sint (hb_id h)" and "slave_at h i = Some s"
  shows "sl_fd s = 0 \<and> sl_status s \<noteq> Down \<or> sl_status s = Handshake \<Longrightarrow> queue_list (sl_queue s) qs \<Longrightarrow>
      \<exists>q. mainloop live (out_event m) h = Some ([], put_slave i (s\<lparr>sl_queue := Some q\<rparr>) h) \<and> hq_holds q (qs @ [out_queued m])"
    and "sl_fd s \<noteq> 0 \<Longrightarrow> sl_status s \<noteq> Handshake \<Longrightarrow> length (frame_body m) < 2 ^ 32 \<Longrightarrow>
      mainloop live (out_event m) h = Some ([HSocketSend (sl_fd s) (wire m), HFree (hm_buffer (out_queued m))], h)"
proof -
  obtain source session handle type msg where m: "m = (source, session, handle, type, msg)" by (cases m)
  have i: "unat (drop_bit HANDLE_REMOTE_SHIFT handle) = i" using assms(1) by (simp add: m out_target_def)
  have "uint (drop_bit HANDLE_REMOTE_SHIFT handle) = int i" unfolding i [symmetric] by simp
  then have ne: "uint (drop_bit HANDLE_REMOTE_SHIFT handle) \<noteq> sint (hb_id h)" using assms(2) by simp
  note u = mainloop_def out_event_def m remote_send_handle_def i assms(2,3) ne free_unless_def Let_def
  show "\<exists>q. mainloop live (out_event m) h = Some ([], put_slave i (s\<lparr>sl_queue := Some q\<rparr>) h) \<and> hq_holds q (qs @ [out_queued m])"
    if "sl_fd s = 0 \<and> sl_status s \<noteq> Down \<or> sl_status s = Handshake" "queue_list (sl_queue s) qs"
  proof -
    from queue_of_push [OF that(2)] obtain q where
      "push_hqueue (queue_of (sl_queue s)) msg (message_header source handle type session) = Some q"
      "hq_holds q (qs @ [out_queued m])" by (auto simp: m out_queued_def)
    then show ?thesis using that(1) by (auto simp: u)
  qed
  show "mainloop live (out_event m) h = Some ([HSocketSend (sl_fd s) (wire m), HFree (hm_buffer (out_queued m))], h)"
    if "sl_fd s \<noteq> 0" "sl_status s \<noteq> Handshake" "length (frame_body m) < 2 ^ 32"
    using that(1,2) send_remote_wire [OF that(3), of "sl_fd s"]
    by (simp add: u send_and_free_def out_queued_def)
qed

definition sent :: "i32 \<Rightarrow> hcall list \<Rightarrow> u8 list" where
  "sent fd calls = concat (map (\<lambda>c. case c of HSocketSend f bs \<Rightarrow> if f = fd then bs else [] | _ \<Rightarrow> []) calls)"

lemma sent_simps [simp]:
  "sent fd [] = []" "sent fd (HSocketSend f bs # cs) = (if f = fd then bs else []) @ sent fd cs"
  "sent fd (HFree bs # cs) = sent fd cs" "sent fd (HStart f # cs) = sent fd cs"
  "sent fd (HSend a b c d e # cs) = sent fd cs" "sent fd (cs @ ds) = sent fd cs @ sent fd ds"
  by (simp_all add: sent_def)

text \<open>The messages \<open>ms\<close> are for the harbor \<open>i\<close>, which is another one.\<close>

definition sends_to :: "harbor \<Rightarrow> nat \<Rightarrow> out_msg list \<Rightarrow> bool" where
  "sends_to h i ms \<longleftrightarrow> int i \<noteq> sint (hb_id h) \<and>
     (\<forall>m\<in>set ms. unat (drop_bit HANDLE_REMOTE_SHIFT (out_target m)) = i \<and> length (frame_body m) < 2 ^ 32)"

lemma queue_run:
  assumes "slave_at h i = Some s" and "sl_fd s = 0 \<and> sl_status s \<noteq> Down \<or> sl_status s = Handshake"
    and "queue_list (sl_queue s) qs" and "sends_to h i ms"
  shows "\<exists>q. harbor_run live (map out_event ms) h = Some ([], put_slave i (s\<lparr>sl_queue := q\<rparr>) h) \<and>
    queue_list q (qs @ map out_queued ms)"
  using assms
proof (induction ms arbitrary: h s qs)
  case Nil
  have e: "s\<lparr>sl_queue := sl_queue s\<rparr> = s" by simp
  show ?case using Nil put_slave_same [OF Nil(1)] e by (intro exI [of _ "sl_queue s"]) simp
next
  case (Cons m ms)
  have m: "unat (drop_bit HANDLE_REMOTE_SHIFT (out_target m)) = i" "int i \<noteq> sint (hb_id h)"
    using Cons.prems(4) by (simp_all add: sends_to_def)
  from out_handle(1) [OF m Cons.prems(1-3)] obtain q where
    q: "mainloop live (out_event m) h = Some ([], put_slave i (s\<lparr>sl_queue := Some q\<rparr>) h)" "hq_holds q (qs @ [out_queued m])"
    by blast
  let ?h = "put_slave i (s\<lparr>sl_queue := Some q\<rparr>) h" and ?s = "s\<lparr>sl_queue := Some q\<rparr>"
  have "slave_at ?h i = Some ?s" using slave_at_less [OF Cons.prems(1)] by simp
  moreover have "sends_to ?h i ms" using Cons.prems(4) by (simp add: sends_to_def)
  ultimately obtain q' where "harbor_run live (map out_event ms) ?h = Some ([], put_slave i (?s\<lparr>sl_queue := q'\<rparr>) ?h)"
    "queue_list q' ((qs @ [out_queued m]) @ map out_queued ms)"
    using Cons.IH [of ?h ?s "qs @ [out_queued m]"] Cons.prems(2) q(2) by (auto simp: queue_list_def)
  then show ?case using q(1) by auto
qed

lemma connected_run:
  assumes "slave_at h i = Some s" and "sl_fd s \<noteq> 0" and "sl_status s \<noteq> Handshake" and "sends_to h i ms"
  shows "\<exists>calls. harbor_run live (map out_event ms) h = Some (calls, h) \<and> sent (sl_fd s) calls = concat (map wire ms)"
  using assms(4)
proof (induction ms)
  case (Cons m ms)
  then obtain calls where "harbor_run live (map out_event ms) h = Some (calls, h)" "sent (sl_fd s) calls = concat (map wire ms)"
    by (auto simp: sends_to_def)
  moreover have "mainloop live (out_event m) h = Some ([HSocketSend (sl_fd s) (wire m), HFree (hm_buffer (out_queued m))], h)"
    by (rule out_handle(2) [OF _ _ assms(1-3)]) (use Cons.prems in \<open>simp_all add: sends_to_def\<close>)
  ultimately show ?case by simp
qed simp

lemma sent_queue:
  "\<forall>m\<in>set ms. length (frame_body m) < 2 ^ 32 \<Longrightarrow>
    sent fd (concat (map (send_and_free fd) (map out_queued ms))) = concat (map wire ms)"
  by (induction ms) (simp_all add: send_remote_wire)

text \<open>A command S or A for the socket \<open>fd\<close> and the harbor \<open>i\<close>.\<close>

definition connect_msg :: "u8 \<Rightarrow> i32 \<Rightarrow> nat \<Rightarrow> u8 list \<Rightarrow> bool" where
  "connect_msg c fd i msg \<longleftrightarrow> 2 \<le> length msg \<and> msg ! 0 = c \<and> fd \<noteq> 0 \<and> 0 < i \<and> i < REMOTE_MAX \<and>
     scan_two (takeWhile (\<lambda>c. c \<noteq> 0) (drop 2 msg)) = (fd, of_nat i)"

lemma connect_S:
  assumes "connect_msg 83 fd i msg" and "slave_at h i = Some s" and "sl_fd s = 0"
  shows "mainloop live (Command source msg) h =
    Some ([HStart fd, HSocketSend fd [ucast (hb_id h)]], put_slave i (s\<lparr>sl_fd := fd, sl_status := Handshake\<rparr>) h)"
proof -
  have "sint (of_nat i :: i32) = int i"
    using assms(1) by (simp add: connect_msg_def REMOTE_MAX_def sint_i32 unsigned_of_nat take_bit_nat_eq_self)
  then show ?thesis
    using assms by (auto simp: connect_msg_def mainloop_def harbor_command_def nth_at_def command_connect_def handshake_def)
qed

lemma harbor_id_new:
  assumes "\<forall>j. 0 < j \<longrightarrow> j < REMOTE_MAX \<longrightarrow> sl_fd (hb_s h ! j) \<noteq> fd" and "sl_fd s = fd" and "0 < i" and "i < REMOTE_MAX"
    and "i < length (hb_s h)"
  shows "harbor_id (put_slave i s h) fd = Some i"
  unfolding harbor_id_def find_Some_iff
proof (intro exI [of _ "i - 1"] conjI allI impI)
  show "i = [1..<REMOTE_MAX] ! (i - 1)" "i - 1 < length [1..<REMOTE_MAX]"
    using assms(3,4) by simp_all
  then show "sl_fd (hb_s (put_slave i s h) ! ([1..<REMOTE_MAX] ! (i - 1))) = fd"
    using assms(2,5) by (simp add: put_slave_def)
  fix j assume "j < i - 1"
  then show "sl_fd (hb_s (put_slave i s h) ! ([1..<REMOTE_MAX] ! j)) \<noteq> fd"
    using assms(1,4) by (simp add: put_slave_def)
qed

text \<open>The byte that ends the handshake sends the queue.\<close>

lemma handshake_event:
  assumes "slave_at h i = Some s" and "harbor_id h fd = Some i" and "sl_status s = Handshake" and "sl_fd s = fd" and "fd \<noteq> 0"
    and "sl_read s = 0" and "length (sl_size s) = 4" and "queue_list (sl_queue s) qs" and "i < REMOTE_MAX"
  shows "\<exists>s'. mainloop live (SocketData fd [of_nat i]) h =
      Some (concat (map (send_and_free fd) qs) @ [HFree [of_nat i]], put_slave i s' h) \<and> sl_fd s' = fd \<and> sl_status s' = Header"
proof -
  from socket_handshake [OF assms(1,3) _ assms(6,7,8,9), of "[]" 3 live fd] assms(4,5) obtain c s' where
    s': "socket_loop live 3 i fd [of_nat i] h = Some (concat (map (send_and_free fd) qs) @ c, put_slave i s' h)"
      "after_stream live h i (s\<lparr>sl_status := Header, sl_queue := None\<rparr>) ([], Pending []) c s'"
    by (auto simp: hcut_Nil)
  then have c: "c = []" "sl_fd s' = fd" "sl_status s' = Header"
    using assms(4) by (auto simp: after_stream_def same_link_def pending_def)
  have "mainloop live (SocketData fd [of_nat i]) h =
      Some (concat (map (send_and_free fd) qs) @ [HFree [of_nat i]], put_slave i s' h)"
    using s'(1) assms(2) c(1) by (simp add: mainloop_def push_socket_data_def numeral_3_eq_3)
  with c(2,3) show ?thesis by blast
qed

text \<open>
  Property C21. Messages sent to a harbor before it is connected, while the handshake runs and afterwards all
  go over its socket, once and in the order they were sent, behind the byte of the handshake.
\<close>
theorem harbor_sends_in_order:
  assumes "harbor_ok h" and "slave_at h i = Some s" and "sl_status s = Wait" and "sl_queue s = None"
    and "connect_msg 83 fd i msg" and "\<forall>j. 0 < j \<longrightarrow> j < REMOTE_MAX \<longrightarrow> sl_fd (hb_s h ! j) \<noteq> fd"
    and "sends_to h i (ms1 @ ms2 @ ms3)"
  shows "\<exists>calls h'. harbor_run live
      (map out_event ms1 @ [Command source msg] @ map out_event ms2 @ [SocketData fd [of_nat i]] @ map out_event ms3) h =
        Some (calls, h') \<and>
    sent fd calls = ucast (hb_id h) # concat (map wire (ms1 @ ms2 @ ms3))"
proof -
  have s: "sl_fd s = 0" "sl_read s = 0" "length (sl_size s) = 4"
    using slave_ok_at [OF assms(1,2)] assms(3) by (simp_all add: slave_ok_def)
  have i: "i < length (hb_s h)" by (rule slave_at_less [OF assms(2)])
  have fd: "fd \<noteq> 0" "0 < i" "i < REMOTE_MAX" using assms(5) by (simp_all add: connect_msg_def)
  have to: "sends_to (put_slave i x h) i ms1" "sends_to (put_slave i x h) i ms2" "sends_to (put_slave i x h) i ms3" "sends_to h i ms1" for x
    using assms(7) by (simp_all add: sends_to_def)
  from queue_run [OF assms(2) _ _ to(4), of "[]" live] s(1) assms(3,4) obtain q1 where
    r1: "harbor_run live (map out_event ms1) h = Some ([], put_slave i (s\<lparr>sl_queue := q1\<rparr>) h)"
      "queue_list q1 (map out_queued ms1)" by (auto simp: queue_list_def)
  let ?s1 = "s\<lparr>sl_queue := q1\<rparr>" and ?s2 = "s\<lparr>sl_queue := q1, sl_fd := fd, sl_status := Handshake\<rparr>"
  have r2: "mainloop live (Command source msg) (put_slave i ?s1 h) =
      Some ([HStart fd, HSocketSend fd [ucast (hb_id h)]], put_slave i ?s2 h)"
    using connect_S [OF assms(5), of "put_slave i ?s1 h" ?s1 live source] i s(1) by simp
  from queue_run [OF slave_at_put [OF i] _ _ to(2), of ?s2 "map out_queued ms1" live] r1(2) obtain q2 where
    r3: "harbor_run live (map out_event ms2) (put_slave i ?s2 h) = Some ([], put_slave i (?s2\<lparr>sl_queue := q2\<rparr>) h)"
      "queue_list q2 (map out_queued (ms1 @ ms2))" by auto
  let ?s3 = "?s2\<lparr>sl_queue := q2\<rparr>"
  have "harbor_id (put_slave i ?s3 h) fd = Some i" by (rule harbor_id_new [OF assms(6) _ fd(2,3) i]) simp
  from handshake_event [OF slave_at_put [OF i] this, of "map out_queued (ms1 @ ms2)" live] s fd r3(2) obtain s4 where
    r4: "mainloop live (SocketData fd [of_nat i]) (put_slave i ?s3 h) =
      Some (concat (map (send_and_free fd) (map out_queued (ms1 @ ms2))) @ [HFree [of_nat i]], put_slave i s4 h)"
    and f4: "sl_fd s4 = fd" "sl_status s4 = Header" by (auto simp del: map_map)
  from connected_run [OF slave_at_put [OF i] _ _ to(3), of s4 live] f4 fd(1) obtain c5 where
    r5: "harbor_run live (map out_event ms3) (put_slave i s4 h) = Some (c5, put_slave i s4 h)" "sent fd c5 = concat (map wire ms3)"
    by auto
  have "harbor_run live
      (map out_event ms1 @ [Command source msg] @ map out_event ms2 @ [SocketData fd [of_nat i]] @ map out_event ms3) h =
      Some ([HStart fd, HSocketSend fd [ucast (hb_id h)]] @
        (concat (map (send_and_free fd) (map out_queued (ms1 @ ms2))) @ [HFree [of_nat i]]) @ c5, put_slave i s4 h)"
    by (simp only: harbor_run_append harbor_run.simps r1(1) r2 r3(1) r4 r5(1) Option.bind.bind_lunit prod.case append_Nil append_assoc append_Nil2)
  moreover have "sent fd (concat (map (send_and_free fd) (map out_queued (ms1 @ ms2)))) = concat (map wire (ms1 @ ms2))"
    by (rule sent_queue) (use assms(7) in \<open>auto simp: sends_to_def\<close>)
  ultimately show ?thesis using r5(2) by (simp del: map_map)
qed

definition fresh_harbor :: harbor where
  "fresh_harbor = harbor_create\<lparr>hb_id := 2, hb_slave := 0x02000005\<rparr>"

lemma fresh_slave:
  "i < REMOTE_MAX \<Longrightarrow> slave_at fresh_harbor i = Some \<lparr>sl_fd = 0, sl_queue = None, sl_status = Wait, sl_length = 0,
     sl_read = 0, sl_size = [0, 0, 0, 0], sl_recv = []\<rparr>"
  "i < REMOTE_MAX \<Longrightarrow> sl_fd (hb_s fresh_harbor ! i) = 0"
  by (simp_all add: fresh_harbor_def harbor_create_def slave_at_def nth_at_def)

lemma demo_connect: "connect_msg 83 9 1 [83, 32, 57, 32, 49]"
  by (simp add: connect_msg_def REMOTE_MAX_def scan_two_def scan_int_def is_decimal_def c_isspace_def strtol10_def
      digit_val_def Let_def)

theorem harbor_sends_in_order_witness:
  "\<exists>calls h'. harbor_run (\<lambda>_. True)
      (map out_event [(5, 1, 0x01000003, 10, [65])] @ [Command 5 [83, 32, 57, 32, 49]] @
       map out_event [(5, 2, 0x01000004, 10, [66])] @ [SocketData 9 [of_nat 1]] @
       map out_event [(5, 3, 0x01000003, 10, [67])]) fresh_harbor = Some (calls, h') \<and>
    sent 9 calls = ucast (hb_id fresh_harbor) #
      concat (map wire ([(5, 1, 0x01000003, 10, [65])] @ [(5, 2, 0x01000004, 10, [66])] @ [(5, 3, 0x01000003, 10, [67])]))"
proof (rule harbor_sends_in_order [OF _ fresh_slave(1) _ _ demo_connect])
  show "harbor_ok fresh_harbor" unfolding fresh_harbor_def by (rule harbor_create_ok)
  show "sends_to fresh_harbor 1 ([(5, 1, 0x01000003, 10, [65])] @ [(5, 2, 0x01000004, 10, [66])] @ [(5, 3, 0x01000003, 10, [67])])"
    by (simp add: sends_to_def fresh_harbor_def out_target_def frame_body_def HANDLE_REMOTE_SHIFT_def HEADER_COOKIE_LENGTH_def)
qed (simp_all add: fresh_slave REMOTE_MAX_def)



text \<open>
  A command of one letter: N prints the name from behind the end of the message; S and A copy minus one bytes
  into a buffer of size zero.
\<close>
theorem harbor_short_command:
  assumes "c = 78 \<or> c = 83 \<or> c = 65"
  shows "mainloop live (Command source [c]) h = None"
  using assms by (auto simp: mainloop_def harbor_command_def command_name_def command_connect_def nth_at_def Let_def)

theorem harbor_short_command_witness: "mainloop (\<lambda>_. True) (Command 5 [78]) fresh_harbor = None"
  by (rule harbor_short_command) simp

text \<open>
  A frame that announces fewer than twelve bytes makes the harbor read its header in front of the
  buffer: nothing checks the length a peer sends.
\<close>
theorem harbor_short_frame:
  assumes "harbor_ok h" and "harbor_id h fd = Some i" and "slave_at h i = Some s" and "sl_status s = Header" and "sl_read s = 0"
    and "k < HEADER_COOKIE_LENGTH" and "k \<le> length rest" and "rest \<noteq> []"
  shows "mainloop live (SocketData fd (0 # 0 # 0 # of_nat k # rest)) h = None"
proof -
  have s: "length (sl_size s) = 4"
    using slave_ok_header [OF slave_ok_at [OF assms(1,3)] assms(4,5)] by (simp add: pending_def)
  have i: "i < length (hb_s h)" by (rule slave_at_less [OF assms(3)])
  have k: "unat (of_nat k :: u8) = k"
    using assms(6) by (simp add: HEADER_COOKIE_LENGTH_def unsigned_of_nat take_bit_nat_eq_self)
  let ?s = "s\<lparr>sl_size := [0, 0, 0, of_nat k], sl_length := k, sl_read := 0, sl_recv := array_new k, sl_status := Content\<rparr>"
  have h: "header_state i (0 # 0 # 0 # of_nat k # rest) h = Some ([], put_slave i ?s h, Some rest)"
    using assms(3,5,8) s k by (simp add: header_state_def size_write_def Let_def)
  have "forward_local_message live (put_slave i ?s h) recv k = None" for recv
    using assms(6) by (simp add: forward_local_message_def c_assert_def)
  then have "content_state live i rest (put_slave i ?s h) = None"
    using i assms(7) by (simp add: content_state_def Let_def not_less)
  then show ?thesis
    using assms(2,3,4) h by (simp add: mainloop_def push_socket_data_def socket_loop.simps then_step_def)
qed

theorem harbor_short_frame_witness: "mainloop (\<lambda>_. True) (SocketData 9 (0 # 0 # 0 # of_nat 3 # [1, 2, 3])) demo_harbor = None"
  by (rule harbor_short_frame [OF demo_harbor_facts(1,2,4)]) (simp_all add: HEADER_COOKIE_LENGTH_def)

text \<open>
  The branch of \<open>remote_send_handle\<close> that answers with an error when the other harbor is down is
  never taken: a slave that is down keeps its socket, so its messages are written to the closed socket and
  the sender hears nothing.
\<close>
theorem harbor_down_no_error:
  assumes "harbor_ok h" and "slave_at h (unat (drop_bit HANDLE_REMOTE_SHIFT destination)) = Some s" and "sl_status s = Down"
    and "drop_bit HANDLE_REMOTE_SHIFT destination \<noteq> 0" and "int (unat (drop_bit HANDLE_REMOTE_SHIFT destination)) \<noteq> sint (hb_id h)"
  shows "mainloop live (OutHandle source session destination type msg) h =
    Some (send_remote (sl_fd s) msg (message_header source destination type session) @ [HFree msg], h)"
proof -
  have "sl_fd s \<noteq> 0" using slave_ok_at [OF assms(1,2)] assms(3) by (simp add: slave_ok_def)
  then show ?thesis
    using assms(2,3,5) by (simp add: mainloop_def remote_send_handle_def free_unless_def Let_def)
qed

theorem harbor_down_no_error_witness:
  "mainloop (\<lambda>_. True) (OutHandle 5 1 0x01000003 10 [65])
     (put_slave 1 \<lparr>sl_fd = 9, sl_queue = None, sl_status = Down, sl_length = 0, sl_read = 0, sl_size = [1, 0, 0, 0], sl_recv = []\<rparr>
       demo_harbor) =
   Some (send_remote (sl_fd \<lparr>sl_fd = 9, sl_queue = None, sl_status = Down, sl_length = 0, sl_read = 0, sl_size = [1, 0, 0, 0], sl_recv = []\<rparr>)
       [65] (message_header 5 0x01000003 10 1) @ [HFree [65]],
     put_slave 1 \<lparr>sl_fd = 9, sl_queue = None, sl_status = Down, sl_length = 0, sl_read = 0, sl_size = [1, 0, 0, 0], sl_recv = []\<rparr>
       demo_harbor)"
proof (rule harbor_down_no_error)
  have "1 < length (hb_s demo_harbor)" by (rule slave_at_less [OF demo_harbor_facts(4)])
  then show "slave_at (put_slave 1 \<lparr>sl_fd = 9, sl_queue = None, sl_status = Down, sl_length = 0, sl_read = 0, sl_size = [1, 0, 0, 0], sl_recv = []\<rparr>
       demo_harbor) (unat (drop_bit HANDLE_REMOTE_SHIFT (0x01000003 :: u32))) =
     Some \<lparr>sl_fd = 9, sl_queue = None, sl_status = Down, sl_length = 0, sl_read = 0, sl_size = [1, 0, 0, 0], sl_recv = []\<rparr>"
    by (simp add: HANDLE_REMOTE_SHIFT_def)
  show "harbor_ok (put_slave 1 \<lparr>sl_fd = 9, sl_queue = None, sl_status = Down, sl_length = 0, sl_read = 0, sl_size = [1, 0, 0, 0], sl_recv = []\<rparr>
       demo_harbor)"
    by (rule harbor_ok_put_slave [OF demo_harbor_facts(1)]) (simp add: slave_ok_def)
qed (simp_all add: HANDLE_REMOTE_SHIFT_def demo_harbor_facts(3))

text \<open>
  A message whose frame has 2^24 bytes or more is written to the socket all the same (only 2^32 is
  refused); the other harbor then closes the connection for good.
\<close>
theorem harbor_large_message_closes:
  assumes "harbor_ok h" and "harbor_id h fd = Some i" and "slave_at h i = Some s" and "sl_status s = Header" and "sl_read s = 0"
    and "2 ^ 24 \<le> length (frame_body m)" and "length (frame_body m) < 2 ^ 32" and "4 \<le> n"
  shows "send_and_free fd' (out_queued m) = [HSocketSend fd' (wire m), HFree (hm_buffer (out_queued m))] \<and>
    (\<exists>s'. mainloop live (SocketData fd (take n (wire m))) h =
       Some ([HLog (str ''Message is too long from harbor '' @ fmt_d (of_nat i)), HClose (sl_fd s), HFree (take n (wire m))],
         put_slave i s' h) \<and> sl_status s' = Down)"
proof
  show "send_and_free fd' (out_queued m) = [HSocketSend fd' (wire m), HFree (hm_buffer (out_queued m))]"
    by (rule send_remote_wire [OF assms(7)])
  let ?buf = "take n (wire m)"
  have s: "pending s []" "sl_fd s \<noteq> 0" "sl_queue s = None"
    using slave_ok_header [OF slave_ok_at [OF assms(1,3)] assms(4,5)] by simp_all
  have "wire m ! 0 \<noteq> 0" using size_bytes_len(1) [OF assms(7)] assms(6) by (simp add: wire_def nth_append)
  moreover have "?buf ! 0 = wire m ! 0" using assms(8) by (intro nth_take) simp
  ultimately have "?buf ! 0 \<noteq> 0" by simp
  moreover have "4 \<le> length ?buf" using assms(8) by (simp add: wire_def)
  ultimately have "hcut ?buf = ([], TooLong)" by (intro hcut_cases(2))
  with socket_stream [OF assms(3) s, of ?buf "length ?buf + 2" live fd] obtain s' where
    "socket_loop live (length ?buf + 2) i fd ?buf h =
       Some ([HLog (str ''Message is too long from harbor '' @ fmt_d (of_nat i)), HClose (sl_fd s)], put_slave i s' h)"
    "sl_status s' = Down" by (auto simp: after_stream_def)
  then show "\<exists>s'. mainloop live (SocketData fd ?buf) h =
       Some ([HLog (str ''Message is too long from harbor '' @ fmt_d (of_nat i)), HClose (sl_fd s), HFree ?buf],
         put_slave i s' h) \<and> sl_status s' = Down"
    using assms(2) by (simp add: mainloop_def push_socket_data_def) blast
qed

theorem harbor_large_message_closes_witness:
  "send_and_free 3 (out_queued (5, 1, 0x02000003, 10, replicate (2 ^ 24) 0)) =
     [HSocketSend 3 (wire (5, 1, 0x02000003, 10, replicate (2 ^ 24) 0)),
      HFree (hm_buffer (out_queued (5, 1, 0x02000003, 10, replicate (2 ^ 24) 0)))] \<and>
   (\<exists>s'. mainloop (\<lambda>_. True) (SocketData 9 (take 4 (wire (5, 1, 0x02000003, 10, replicate (2 ^ 24) 0)))) demo_harbor =
      Some ([HLog (str ''Message is too long from harbor '' @ fmt_d (of_nat 1)),
        HClose (sl_fd \<lparr>sl_fd = 9, sl_queue = None, sl_status = Header, sl_length = 0, sl_read = 0, sl_size = [0, 0, 0, 0], sl_recv = []\<rparr>),
        HFree (take 4 (wire (5, 1, 0x02000003, 10, replicate (2 ^ 24) 0)))], put_slave 1 s' demo_harbor) \<and> sl_status s' = Down)"
  by (rule harbor_large_message_closes [OF demo_harbor_facts(1,2,4)])
    (simp_all add: frame_body_def HEADER_COOKIE_LENGTH_def)

lemma slave_at_map [simp]:
  "slave_at (hash_put name node h) = slave_at h" "slave_at (h\<lparr>hb_map := m\<rparr>) = slave_at h"
  by (simp_all add: fun_eq_iff slave_at_def hash_put_def Let_def)

lemma slaves_map [simp]: "hb_s (hash_put name node h) = hb_s h" "hb_id (hash_put name node h) = hb_id h"
  "hb_slave (hash_put name node h) = hb_slave h" "hb_map (put_slave i s h) = hb_map h"
  by (simp_all add: hash_put_def put_slave_def Let_def)

lemma is_node_key [simp]: "is_node name \<lparr>kv_key = take GLOBALNAME_LENGTH name, kv_hash = hash_name name, kv_value = v, kv_queue = q\<rparr>"
  by (simp add: is_node_def same_name_def)

lemma search_new:
  assumes "map_ok (hb_map h)" and "hash_search (hb_map h) name = None"
  shows "\<exists>h1. search_or_insert name h =
      (\<lparr>kv_key = take GLOBALNAME_LENGTH name, kv_hash = hash_name name, kv_value = 0, kv_queue = None\<rparr>, h1) \<and>
    slave_at h1 = slave_at h \<and> hb_s h1 = hb_s h \<and> hb_id h1 = hb_id h \<and> hb_slave h1 = hb_slave h \<and>
    (\<forall>v q. search_or_insert name
        (hash_put name \<lparr>kv_key = take GLOBALNAME_LENGTH name, kv_hash = hash_name name, kv_value = v, kv_queue = q\<rparr> h1) =
      (\<lparr>kv_key = take GLOBALNAME_LENGTH name, kv_hash = hash_name name, kv_value = v, kv_queue = q\<rparr>,
       hash_put name \<lparr>kv_key = take GLOBALNAME_LENGTH name, kv_hash = hash_name name, kv_value = v, kv_queue = q\<rparr> h1))"
  using assms bucket_of_less [of name]
  by (auto simp: search_or_insert_def hash_insert_def hash_put_def hash_search_def map_ok_def Let_def)

lemma wire_handle:
  assumes "handle AND HANDLE_MASK \<noteq> 0"
  shows "wire (source, session, 0, type, msg) \<noteq> wire (source, session, handle, type, msg)"
proof
  assume "wire (source, session, 0, type, msg) = wire (source, session, handle, type, msg)"
  then have "header_to_message (message_header source 0 type session) = header_to_message (message_header source handle type session)"
    by (simp add: wire_def frame_body_def)
  then have "message_header source 0 type session = message_header source handle type session"
    by (metis message_header_roundtrip)
  then have "push_bit 24 type = push_bit 24 type OR (handle AND mask 24)"
    by (simp add: message_header_def HANDLE_REMOTE_SHIFT_def HANDLE_MASK_def)
  then have "handle AND mask 24 = push_bit 24 type AND mask 24"
    using remote_bits(1) [of type handle] by simp
  also have "\<dots> = 0" using remote_bits(1) [of type 0] by simp
  finally show False using assms by (simp add: HANDLE_MASK_def)
qed

text \<open>
  Property C23. A message sent to a global name before the name is known is queued without a handle; when the
  name turns out to be on a harbor that is not connected yet, it moves to the queue of that harbor as it is,
  and goes out for the handle 0 instead of the handle of the name.
\<close>
theorem harbor_name_queue_lost:
  assumes "harbor_ok h" and "hash_search (hb_map h) name = None"
    and "name = cname @ replicate (GLOBALNAME_LENGTH - length cname) 0" and "cname \<noteq> []" and "length cname < GLOBALNAME_LENGTH"
    and "unat (drop_bit HANDLE_REMOTE_SHIFT handle) = i" and "slave_at h i = Some s" and "sl_status s = Wait" and "sl_queue s = None"
    and "i \<noteq> unat (drop_bit HANDLE_REMOTE_SHIFT (hb_slave h))" and "handle AND HANDLE_MASK \<noteq> 0"
    and "connect_msg 83 fd i cmsg" and "\<forall>j. 0 < j \<longrightarrow> j < REMOTE_MAX \<longrightarrow> sl_fd (hb_s h ! j) \<noteq> fd"
    and "length msg + HEADER_COOKIE_LENGTH < 2 ^ 32"
  shows "\<exists>calls h'. harbor_run live [OutName source session name type msg, Command handle (78 # 32 # cname),
      Command sl cmsg, SocketData fd [of_nat i]] h = Some (calls, h') \<and>
    sent fd calls = ucast (hb_id h) # wire (source, session, 0, type, msg) \<and>
    wire (source, session, 0, type, msg) \<noteq> wire (source, session, handle, type, msg)"
proof -
  let ?node = "\<lambda>v q. \<lparr>kv_key = take GLOBALNAME_LENGTH name, kv_hash = hash_name name, kv_value = v, kv_queue = q\<rparr>"
  let ?m = "(source, session, 0 :: u32, type, msg)"
  have i: "i < length (hb_s h)" by (rule slave_at_less [OF assms(7)])
  have s: "sl_fd s = 0" "sl_read s = 0" "length (sl_size s) = 4"
    using slave_ok_at [OF assms(1,7)] assms(8) by (simp_all add: slave_ok_def)
  have fd: "fd \<noteq> 0" "0 < i" "i < REMOTE_MAX" using assms(12) by (simp_all add: connect_msg_def)
  have "map_ok (hb_map h)" using assms(1) by (simp add: harbor_ok_def)
  from search_new [OF this assms(2)] obtain h1 where
    h1: "search_or_insert name h = (?node 0 None, h1)" "slave_at h1 = slave_at h" "hb_s h1 = hb_s h" "hb_id h1 = hb_id h"
      "hb_slave h1 = hb_slave h"
      "\<And>v q. search_or_insert name (hash_put name (?node v q) h1) = (?node v q, hash_put name (?node v q) h1)" by blast
  obtain q where q: "push_hqueue (queue_of None) msg (message_header source 0 type session) = Some q" "hq_holds q [out_queued ?m]"
    using queue_of_push [of None "[]"] by (auto simp: queue_list_def out_queued_def)
  let ?h2 = "hash_put name (?node 0 (Some q)) h1"
  let ?h3 = "hash_put name (?node handle None) (put_slave i (s\<lparr>sl_queue := Some q\<rparr>) ?h2)"
  obtain c1 where r1: "mainloop live (OutName source session name type msg) h = Some (c1, ?h2)" "sent fd c1 = []"
    using h1(1) q(1) by (simp add: mainloop_def remote_send_name_def free_unless_def)
  have "dispatch_name_queue ?h2 (?node handle (Some q)) = Some ([], put_slave i (s\<lparr>sl_queue := Some q\<rparr>) ?h2, ?node handle None)"
    using s assms(6,7,8,9,10) h1(2,5) by (simp add: dispatch_name_queue_def Let_def)
  moreover have "command_name (78 # 32 # cname) handle ?h2 = update_name name handle ?h2"
    using assms(3,4,5) by (simp add: command_name_def Let_def)
  ultimately have r2: "mainloop live (Command handle (78 # 32 # cname)) ?h2 = Some ([], ?h3)"
    using h1(6) [of 0 "Some q"] by (simp add: mainloop_def harbor_command_def nth_at_def update_name_def)
  let ?s3 = "s\<lparr>sl_queue := Some q\<rparr>" and ?s4 = "s\<lparr>sl_queue := Some q, sl_fd := fd, sl_status := Handshake\<rparr>"
  have at3: "slave_at ?h3 i = Some ?s3" using i h1(3) by simp
  have r3: "mainloop live (Command sl cmsg) ?h3 = Some ([HStart fd, HSocketSend fd [ucast (hb_id h)]], put_slave i ?s4 ?h3)"
    using connect_S [OF assms(12) at3] s(1) h1(4) by simp
  let ?h4 = "put_slave i ?s4 ?h3"
  have i3: "i < length (hb_s ?h3)" using i h1(3) by simp
  have "\<forall>j. 0 < j \<longrightarrow> j < REMOTE_MAX \<longrightarrow> sl_fd (hb_s ?h3 ! j) \<noteq> fd"
    using assms(13) h1(3) s(1) fd(1) i by (auto simp: put_slave_def nth_list_update)
  then have id4: "harbor_id ?h4 fd = Some i" by (rule harbor_id_new [OF _ _ fd(2,3) i3]) simp
  have "slave_at ?h4 i = Some ?s4" using i3 by simp
  from handshake_event [OF this id4, of "[out_queued ?m]" live] s fd q(2) obtain s5 where
    r4: "mainloop live (SocketData fd [of_nat i]) ?h4 =
      Some (send_and_free fd (out_queued ?m) @ [HFree [of_nat i]], put_slave i s5 ?h4)"
    by (auto simp: queue_list_def)
  have "harbor_run live [OutName source session name type msg, Command handle (78 # 32 # cname), Command sl cmsg,
      SocketData fd [of_nat i]] h = Some (c1 @ [] @ [HStart fd, HSocketSend fd [ucast (hb_id h)]] @
        (send_and_free fd (out_queued ?m) @ [HFree [of_nat i]]) @ [], put_slave i s5 ?h4)"
    by (simp only: harbor_run.simps r1(1) r2 r3 r4 Option.bind.bind_lunit prod.case)
  moreover have "length (frame_body ?m) < 2 ^ 32" using assms(14) by (simp add: frame_body_def)
  ultimately show ?thesis
    using r1(2) wire_handle [OF assms(11)] by (simp add: send_remote_wire)
qed

theorem harbor_name_queue_lost_witness:
  "\<exists>calls h'. harbor_run (\<lambda>_. True) [OutName 5 1 ([65] @ replicate (GLOBALNAME_LENGTH - length [65 :: u8]) 0) 10 [66],
      Command 0x01000003 (78 # 32 # [65]), Command 5 [83, 32, 57, 32, 49], SocketData 9 [of_nat 1]] fresh_harbor = Some (calls, h') \<and>
    sent 9 calls = ucast (hb_id fresh_harbor) # wire (5, 1, 0, 10, [66]) \<and> wire (5, 1, 0, 10, [66]) \<noteq> wire (5, 1, 0x01000003, 10, [66])"
proof (rule harbor_name_queue_lost [OF _ _ refl _ _ _ fresh_slave(1) _ _ _ _ demo_connect])
  show "harbor_ok fresh_harbor" unfolding fresh_harbor_def by (rule harbor_create_ok)
  show "hash_search (hb_map fresh_harbor) ([65] @ replicate (GLOBALNAME_LENGTH - length [65 :: u8]) 0) = None"
    using bucket_of_less by (simp add: fresh_harbor_def harbor_create_def hash_new_def hash_search_def)
  show "\<forall>j. 0 < j \<longrightarrow> j < REMOTE_MAX \<longrightarrow> sl_fd (hb_s fresh_harbor ! j) \<noteq> 9" by (simp add: fresh_slave)
qed (simp_all add: REMOTE_MAX_def GLOBALNAME_LENGTH_def HANDLE_REMOTE_SHIFT_def HANDLE_MASK_def
      HEADER_COOKIE_LENGTH_def fresh_harbor_def mask_eq_exp_minus_1)

end
