(* ===== verification/Seri.thy ===== *)
theory Seri
  imports Prelude
begin

section \<open>Serialisation of Lua values (lualib-src/lua-seri.c)\<close>

text \<open>
  What \<open>skynet.pack\<close> and \<open>skynet.unpack\<close> do in C: values become bytes in a chain of blocks of 128 bytes,
  are copied into one buffer, and are read back from there. A Lua value is a tree; a table is what
  \<open>lua_rawlen\<close> answers and its entries in the order of \<open>lua_next\<close>, or the entries its \<open>__pairs\<close> yields.
  A value that was read back has, for a table, the list of the assignments the reader made.

  \<open>Raise\<close> is a Lua error, \<open>Undef\<close> an access outside of a buffer; the reader runs on fuel, \<open>Loop\<close> is the
  end of it. Integers are stored in the byte order of the host, little endian here; a double is its bit
  pattern. The fields \<open>len\<close> of the blocks and of the reader are ints in the source: what is written or read is less than
  2^31 bytes here, and there is memory for the tables. The C stack and the Lua stack, which the recursion of the
  reader uses up on deep tables, have no limit here.

  The theorems: packing fails exactly on unsupported or too deep values and never leaves its buffers;
  reading back gives the values; the reader always stops and never reads outside of the buffer; and its
  recursion is as deep as the buffer is long.
\<close>

subsection \<open>Values\<close>

datatype lval =
  LNil
| LBool bool
| LInt i64
| LReal u64
| LPtr u64
| LStr "u8 list"
| LTable nat "(lval \<times> lval) list"
| LMeta "(lval \<times> lval) list"
| LOther "u8 list"

datatype uval =
  UNil
| UBool bool
| UInt i64
| UReal u64
| UPtr u64
| UStr "u8 list"
| UTable "(uval \<times> uval) list"

datatype seri_error = TooDeep | Unsupported "u8 list" | InvalidStream int | NaNIndex | BlockTooBig

datatype 'a res = Undef | Loop | Raise seri_error | Ret 'a

fun rbind :: "'a res \<Rightarrow> ('a \<Rightarrow> 'b res) \<Rightarrow> 'b res" where
  "rbind Undef f = Undef"
| "rbind Loop f = Loop"
| "rbind (Raise e) f = Raise e"
| "rbind (Ret x) f = f x"

lemma rbind_cong [fundef_cong]:
  "m = m' \<Longrightarrow> (\<And>x. m' = Ret x \<Longrightarrow> f x = g x) \<Longrightarrow> rbind m f = rbind m' g"
  by (cases m') simp_all

fun opt_res :: "'a option \<Rightarrow> 'a res" where
  "opt_res None = Undef"
| "opt_res (Some x) = Ret x"

subsection \<open>Writing\<close>

definition TYPE_NIL :: nat where "TYPE_NIL = 0"
definition TYPE_BOOLEAN :: nat where "TYPE_BOOLEAN = 1"
definition TYPE_NUMBER :: nat where "TYPE_NUMBER = 2"
definition TYPE_NUMBER_ZERO :: nat where "TYPE_NUMBER_ZERO = 0"
definition TYPE_NUMBER_BYTE :: nat where "TYPE_NUMBER_BYTE = 1"
definition TYPE_NUMBER_WORD :: nat where "TYPE_NUMBER_WORD = 2"
definition TYPE_NUMBER_DWORD :: nat where "TYPE_NUMBER_DWORD = 4"
definition TYPE_NUMBER_QWORD :: nat where "TYPE_NUMBER_QWORD = 6"
definition TYPE_NUMBER_REAL :: nat where "TYPE_NUMBER_REAL = 8"
definition TYPE_USERDATA :: nat where "TYPE_USERDATA = 3"
definition TYPE_SHORT_STRING :: nat where "TYPE_SHORT_STRING = 4"
definition TYPE_LONG_STRING :: nat where "TYPE_LONG_STRING = 5"
definition TYPE_TABLE :: nat where "TYPE_TABLE = 6"
definition MAX_COOKIE :: nat where "MAX_COOKIE = 32"
definition BLOCK_SIZE :: nat where "BLOCK_SIZE = 128"
definition MAX_DEPTH :: nat where "MAX_DEPTH = 32"

text \<open>\<open>(uint8_t) ((t) | (v) << 3)\<close>.\<close>

definition COMBINE_TYPE :: "nat \<Rightarrow> int \<Rightarrow> u8" where
  "COMBINE_TYPE t v = of_nat t OR push_bit 3 (of_int v)"

text \<open>The blocks from the first to the current one.\<close>

record write_block =
  wb_blocks :: "u8 array list"
  wb_len :: nat
  wb_ptr :: nat

definition blk_alloc :: "u8 array" where
  "blk_alloc = array_new BLOCK_SIZE"

definition wb_init :: write_block where
  "wb_init = \<lparr>wb_blocks = [blk_alloc], wb_len = 0, wb_ptr = 0\<rparr>"

text \<open>\<open>b->current = b->current->next = blk_alloc(); b->ptr = 0;\<close>\<close>

definition next_block :: "write_block \<Rightarrow> write_block" where
  "next_block b = b\<lparr>wb_blocks := wb_blocks b @ [blk_alloc], wb_ptr := 0\<rparr>"

definition write_current :: "u8 list \<Rightarrow> write_block \<Rightarrow> write_block option" where
  "write_current bs b = do {
     blk \<leftarrow> (if wb_blocks b = [] then None else Some (last (wb_blocks b)));
     blk' \<leftarrow> mem_write blk (wb_ptr b) bs;
     Some (b\<lparr>wb_blocks := butlast (wb_blocks b) @ [blk'], wb_len := wb_len b + length bs\<rparr>) }"

function wb_copy :: "write_block \<Rightarrow> u8 list \<Rightarrow> write_block option" where
  "wb_copy b buffer =
     (if wb_ptr b + length buffer \<le> BLOCK_SIZE then do {
        b1 \<leftarrow> write_current buffer b;
        Some (b1\<lparr>wb_ptr := wb_ptr b + length buffer\<rparr>) }
      else do {
        let copy = BLOCK_SIZE - wb_ptr b;
        b1 \<leftarrow> write_current (take copy buffer) b;
        wb_copy (next_block b1) (drop copy buffer) })"
  by pat_completeness auto
termination
  by (relation "measure (\<lambda>(b, buffer). 2 * length buffer + (if wb_ptr b = 0 then 0 else 1))")
    (auto simp: next_block_def BLOCK_SIZE_def)

declare wb_copy.simps [simp del]

definition wb_push :: "write_block \<Rightarrow> u8 list \<Rightarrow> write_block res" where
  "wb_push b buffer = opt_res (wb_copy (if wb_ptr b = BLOCK_SIZE then next_block b else b) buffer)"

text \<open>The bytes of an integer of \<open>k\<close> bytes in memory.\<close>

primrec le_bytes :: "nat \<Rightarrow> nat \<Rightarrow> u8 list" where
  "le_bytes 0 n = []"
| "le_bytes (Suc k) n = of_nat (n mod 256) # le_bytes k (n div 256)"

definition wb_nil :: "write_block \<Rightarrow> write_block res" where
  "wb_nil b = wb_push b [of_nat TYPE_NIL]"

definition wb_boolean :: "write_block \<Rightarrow> bool \<Rightarrow> write_block res" where
  "wb_boolean b x = wb_push b [COMBINE_TYPE TYPE_BOOLEAN (if x then 1 else 0)]"

definition wb_number :: "write_block \<Rightarrow> nat \<Rightarrow> u8 list \<Rightarrow> write_block res" where
  "wb_number b cookie bytes =
     rbind (wb_push b [COMBINE_TYPE TYPE_NUMBER (int cookie)]) (\<lambda>b. wb_push b bytes)"

definition wb_integer :: "write_block \<Rightarrow> i64 \<Rightarrow> write_block res" where
  "wb_integer b v =
     (if v = 0 then wb_push b [COMBINE_TYPE TYPE_NUMBER (int TYPE_NUMBER_ZERO)]
      else if v \<noteq> scast (ucast v :: i32) then wb_number b TYPE_NUMBER_QWORD (le_bytes 8 (unat v))
      else if sint v < 0 then wb_number b TYPE_NUMBER_DWORD (le_bytes 4 (unat (ucast v :: i32)))
      else if sint v < 0x100 then wb_number b TYPE_NUMBER_BYTE (le_bytes 1 (unat (ucast v :: u8)))
      else if sint v < 0x10000 then wb_number b TYPE_NUMBER_WORD (le_bytes 2 (unat (ucast v :: u16)))
      else wb_number b TYPE_NUMBER_DWORD (le_bytes 4 (unat (ucast v :: u32))))"

definition wb_real :: "write_block \<Rightarrow> u64 \<Rightarrow> write_block res" where
  "wb_real b v = wb_number b TYPE_NUMBER_REAL (le_bytes 8 (unat v))"

definition wb_pointer :: "write_block \<Rightarrow> u64 \<Rightarrow> write_block res" where
  "wb_pointer b v = rbind (wb_push b [of_nat TYPE_USERDATA]) (\<lambda>b. wb_push b (le_bytes 8 (unat v)))"

text \<open>\<open>len\<close> is \<open>(int)sz\<close>.\<close>

definition wb_string :: "write_block \<Rightarrow> u8 list \<Rightarrow> int \<Rightarrow> write_block res" where
  "wb_string b s len =
     (if len < int MAX_COOKIE then
        rbind (wb_push b [COMBINE_TYPE TYPE_SHORT_STRING len])
          (\<lambda>b. if len > 0 then wb_push b (take (nat len) s) else Ret b)
      else rbind
        (if len < 0x10000
         then rbind (wb_push b [COMBINE_TYPE TYPE_LONG_STRING 2]) (\<lambda>b. wb_push b (le_bytes 2 (nat len)))
         else rbind (wb_push b [COMBINE_TYPE TYPE_LONG_STRING 4]) (\<lambda>b. wb_push b (le_bytes 4 (nat len))))
        (\<lambda>b. wb_push b (take (nat len) s)))"

definition c_len :: "nat \<Rightarrow> int" where
  "c_len n = sint (of_nat n :: i32)"

definition raw_get :: "(lval \<times> lval) list \<Rightarrow> int \<Rightarrow> lval" where
  "raw_get es i = (case map_of es (LInt (of_int i)) of Some v \<Rightarrow> v | None \<Rightarrow> LNil)"

text \<open>The entries \<open>wb_table_hash\<close> does not skip.\<close>

definition hash_key :: "int \<Rightarrow> lval \<Rightarrow> bool" where
  "hash_key array_size k \<longleftrightarrow> (case k of LInt x \<Rightarrow> \<not> (sint x > 0 \<and> sint x \<le> array_size) | _ \<Rightarrow> True)"

text \<open>The header of a table with its array part.\<close>

definition wb_array_size :: "write_block \<Rightarrow> int \<Rightarrow> write_block res" where
  "wb_array_size b array_size =
     (if array_size \<ge> int MAX_COOKIE - 1
      then rbind (wb_push b [COMBINE_TYPE TYPE_TABLE (int MAX_COOKIE - 1)]) (\<lambda>b. wb_integer b (of_int array_size))
      else wb_push b [COMBINE_TYPE TYPE_TABLE array_size])"

text \<open>\<open>pack_one\<close> with \<open>wb_table\<close>; \<open>pack_list\<close> and \<open>pack_pairs\<close> are the loops over the array part and over
  the pairs.\<close>

function (sequential) pack_one :: "write_block \<Rightarrow> lval \<Rightarrow> nat \<Rightarrow> write_block res"
  and pack_list :: "write_block \<Rightarrow> lval list \<Rightarrow> nat \<Rightarrow> write_block res"
  and pack_pairs :: "write_block \<Rightarrow> (lval \<times> lval) list \<Rightarrow> nat \<Rightarrow> write_block res"
where
  "pack_one b v depth =
     (if depth > MAX_DEPTH then Raise TooDeep
      else case v of
        LNil \<Rightarrow> wb_nil b
      | LInt x \<Rightarrow> wb_integer b x
      | LReal x \<Rightarrow> wb_real b x
      | LBool x \<Rightarrow> wb_boolean b x
      | LStr s \<Rightarrow> wb_string b s (c_len (length s))
      | LPtr x \<Rightarrow> wb_pointer b x
      | LTable n es \<Rightarrow>
          rbind (wb_array_size b (c_len n))
            (\<lambda>b. rbind (pack_list b (map (raw_get es) [1..c_len n]) (depth + 1))
            (\<lambda>b. rbind (pack_pairs b (filter (\<lambda>e. hash_key (c_len n) (fst e)) es) (depth + 1)) wb_nil))
      | LMeta es \<Rightarrow>
          rbind (wb_push b [COMBINE_TYPE TYPE_TABLE 0])
            (\<lambda>b. rbind (pack_pairs b (takeWhile (\<lambda>e. fst e \<noteq> LNil) es) (depth + 1)) wb_nil)
      | LOther name \<Rightarrow> Raise (Unsupported name))"
| "pack_list b [] depth = Ret b"
| "pack_list b (v # vs) depth = rbind (pack_one b v depth) (\<lambda>b. pack_list b vs depth)"
| "pack_pairs b [] depth = Ret b"
| "pack_pairs b ((k, v) # es) depth =
     rbind (pack_one b k depth) (\<lambda>b. rbind (pack_one b v depth) (\<lambda>b. pack_pairs b es depth))"
  by pat_completeness auto
termination
  by (relation "measures
      [\<lambda>x. case x of Inl (b, v, d) \<Rightarrow> MAX_DEPTH + 1 - d | Inr (Inl (b, vs, d)) \<Rightarrow> MAX_DEPTH + 1 - d
         | Inr (Inr (b, es, d)) \<Rightarrow> MAX_DEPTH + 1 - d,
       \<lambda>x. case x of Inl (b, v, d) \<Rightarrow> 0 | Inr (Inl (b, vs, d)) \<Rightarrow> length vs | Inr (Inr (b, es, d)) \<Rightarrow> length es]")
    auto

declare pack_one.simps [simp del]

text \<open>\<open>seri\<close>: the first \<open>len\<close> bytes of the blocks, in one buffer. A byte that was not written fails.\<close>

fun seri :: "u8 array list \<Rightarrow> nat \<Rightarrow> u8 array option" where
  "seri [] len = (if len = 0 then Some [] else None)"
| "seri (b # bs) len =
     (if len = 0 then Some []
      else if len \<ge> BLOCK_SIZE then
        (if length b < BLOCK_SIZE then None else map_option (\<lambda>rest. take BLOCK_SIZE b @ rest) (seri bs (len - BLOCK_SIZE)))
      else if length b < len then None else Some (take len b))"

definition luaseri_pack :: "lval list \<Rightarrow> u8 array res" where
  "luaseri_pack vs = rbind (pack_list wb_init vs 0) (\<lambda>wb. opt_res (seri (wb_blocks wb) (wb_len wb)))"

subsection \<open>Reading\<close>

text \<open>\<open>len\<close> and \<open>ptr\<close> are ints: \<open>rb_read\<close> with a negative size steps back.\<close>

record read_block =
  rb_buffer :: "u8 list"
  rb_len :: int
  rb_ptr :: int

definition rball_init :: "u8 list \<Rightarrow> int \<Rightarrow> read_block" where
  "rball_init buffer sz = \<lparr>rb_buffer = buffer, rb_len = sz, rb_ptr = 0\<rparr>"

text \<open>The pointer is the offset in the buffer; \<open>None\<close> is NULL.\<close>

definition rb_read :: "read_block \<Rightarrow> int \<Rightarrow> int option \<times> read_block" where
  "rb_read rb sz =
     (if rb_len rb < sz then (None, rb)
      else (Some (rb_ptr rb), rb\<lparr>rb_ptr := rb_ptr rb + sz, rb_len := rb_len rb - sz\<rparr>))"

definition invalid_stream :: "read_block \<Rightarrow> 'a res" where
  "invalid_stream rb = Raise (InvalidStream (rb_len rb))"

text \<open>Copying \<open>n\<close> bytes from a pointer.\<close>

definition bytes_at :: "read_block \<Rightarrow> int \<Rightarrow> int \<Rightarrow> u8 list res" where
  "bytes_at rb p n =
     (if 0 \<le> p \<and> 0 \<le> n \<and> p + n \<le> int (length (rb_buffer rb))
      then Ret (take (nat n) (drop (nat p) (rb_buffer rb))) else Undef)"

definition read_bytes :: "read_block \<Rightarrow> int \<Rightarrow> (u8 list \<times> read_block) res" where
  "read_bytes rb n =
     (case rb_read rb n of
        (None, rb) \<Rightarrow> invalid_stream rb
      | (Some p, rb) \<Rightarrow> rbind (bytes_at rb p n) (\<lambda>bs. Ret (bs, rb)))"

fun le_val :: "u8 list \<Rightarrow> nat" where
  "le_val [] = 0"
| "le_val (b # bs) = unat b + 256 * le_val bs"

definition get_integer :: "read_block \<Rightarrow> nat \<Rightarrow> (i64 \<times> read_block) res" where
  "get_integer rb cookie =
     (if cookie = TYPE_NUMBER_ZERO then Ret (0, rb)
      else if cookie = TYPE_NUMBER_BYTE then rbind (read_bytes rb 1) (\<lambda>(bs, rb). Ret (of_nat (le_val bs), rb))
      else if cookie = TYPE_NUMBER_WORD then rbind (read_bytes rb 2) (\<lambda>(bs, rb). Ret (of_nat (le_val bs), rb))
      else if cookie = TYPE_NUMBER_DWORD then
        rbind (read_bytes rb 4) (\<lambda>(bs, rb). Ret (scast (of_nat (le_val bs) :: i32), rb))
      else if cookie = TYPE_NUMBER_QWORD then rbind (read_bytes rb 8) (\<lambda>(bs, rb). Ret (of_nat (le_val bs), rb))
      else invalid_stream rb)"

definition get_real :: "read_block \<Rightarrow> (u64 \<times> read_block) res" where
  "get_real rb = rbind (read_bytes rb 8) (\<lambda>(bs, rb). Ret (of_nat (le_val bs), rb))"

definition get_pointer :: "read_block \<Rightarrow> (u64 \<times> read_block) res" where
  "get_pointer rb = rbind (read_bytes rb 8) (\<lambda>(bs, rb). Ret (of_nat (le_val bs), rb))"

text \<open>\<open>lua_pushlstring\<close> takes a \<open>size_t\<close>: a negative length is more than Lua allocates, and an error.\<close>

definition get_buffer :: "read_block \<Rightarrow> int \<Rightarrow> (uval \<times> read_block) res" where
  "get_buffer rb len =
     (case rb_read rb len of
        (None, rb) \<Rightarrow> invalid_stream rb
      | (Some p, rb) \<Rightarrow>
          if len < 0 then Raise BlockTooBig else rbind (bytes_at rb p len) (\<lambda>bs. Ret (UStr bs, rb)))"

text \<open>\<open>uint32_t n\<close> is passed as an \<open>int\<close>.\<close>

definition get_long_string :: "read_block \<Rightarrow> nat \<Rightarrow> (uval \<times> read_block) res" where
  "get_long_string rb cookie =
     (if cookie = 2 then rbind (read_bytes rb 2) (\<lambda>(bs, rb). get_buffer rb (int (le_val bs)))
      else if cookie \<noteq> 4 then invalid_stream rb
      else rbind (read_bytes rb 4) (\<lambda>(bs, rb). get_buffer rb (sint (of_nat (le_val bs) :: i32))))"

text \<open>The size of the array part: in the cookie, or an integer of its own.\<close>

definition get_array_size :: "read_block \<Rightarrow> nat \<Rightarrow> (int \<times> read_block) res" where
  "get_array_size rb array_size =
     (if array_size = MAX_COOKIE - 1 then
        rbind (read_bytes rb 1) (\<lambda>(bs, rb).
          let type = unat (hd bs); cookie = type div 8 in
          if type mod 8 \<noteq> TYPE_NUMBER \<or> cookie = TYPE_NUMBER_REAL then invalid_stream rb
          else rbind (get_integer rb cookie) (\<lambda>(x, rb). Ret (sint (ucast x :: i32), rb)))
      else Ret (int array_size, rb))"

text \<open>\<open>lua_rawset\<close> refuses NaN as a key.\<close>

definition is_nan :: "uval \<Rightarrow> bool" where
  "is_nan k = (case k of UReal x \<Rightarrow> drop_bit 52 x AND 0x7ff = 0x7ff \<and> x AND mask 52 \<noteq> 0 | _ \<Rightarrow> False)"

text \<open>\<open>unpack_array\<close> and \<open>unpack_hash\<close> are the loops of \<open>unpack_table\<close>: element \<open>i\<close> of \<open>m\<close>, then the pairs up to
  a nil. \<open>f\<close> is \<open>unpack_one\<close> and the second argument is the fuel of the loop, one more than the bytes that are
  left. \<open>unpack_one\<close> has fuel for the depth.\<close>

type_synonym reader = "read_block \<Rightarrow> (uval \<times> read_block) res"

fun unpack_hash :: "reader \<Rightarrow> nat \<Rightarrow> read_block \<Rightarrow> (uval \<times> uval) list \<Rightarrow> (uval \<times> read_block) res" where
  "unpack_hash f 0 rb es = Loop"
| "unpack_hash f (Suc n) rb es =
     rbind (f rb) (\<lambda>(k, rb).
       if k = UNil then Ret (UTable es, rb)
       else rbind (f rb) (\<lambda>(v, rb).
         if is_nan k then Raise NaNIndex else unpack_hash f n rb (es @ [(k, v)])))"

fun unpack_array ::
  "reader \<Rightarrow> nat \<Rightarrow> read_block \<Rightarrow> int \<Rightarrow> int \<Rightarrow> (uval \<times> uval) list \<Rightarrow> (uval \<times> read_block) res" where
  "unpack_array f 0 rb i m es = Loop"
| "unpack_array f (Suc n) rb i m es =
     (if i \<le> m
      then rbind (f rb) (\<lambda>(v, rb). unpack_array f n rb (i + 1) m (es @ [(UInt (of_int i), v)]))
      else unpack_hash f (nat (rb_len rb) + 1) rb es)"

definition unpack_table :: "reader \<Rightarrow> read_block \<Rightarrow> nat \<Rightarrow> (uval \<times> read_block) res" where
  "unpack_table f rb array_size =
     rbind (get_array_size rb array_size) (\<lambda>(m, rb). unpack_array f (nat (rb_len rb) + 1) rb 1 m [])"

definition push_value :: "reader \<Rightarrow> read_block \<Rightarrow> nat \<Rightarrow> nat \<Rightarrow> (uval \<times> read_block) res" where
  "push_value f rb type cookie =
     (if type = TYPE_NIL then Ret (UNil, rb)
      else if type = TYPE_BOOLEAN then Ret (UBool (cookie \<noteq> 0), rb)
      else if type = TYPE_NUMBER then
        if cookie = TYPE_NUMBER_REAL then rbind (get_real rb) (\<lambda>(x, rb). Ret (UReal x, rb))
        else rbind (get_integer rb cookie) (\<lambda>(x, rb). Ret (UInt x, rb))
      else if type = TYPE_USERDATA then rbind (get_pointer rb) (\<lambda>(x, rb). Ret (UPtr x, rb))
      else if type = TYPE_SHORT_STRING then get_buffer rb (int cookie)
      else if type = TYPE_LONG_STRING then get_long_string rb cookie
      else if type = TYPE_TABLE then unpack_table f rb cookie
      else invalid_stream rb)"

primrec unpack_one :: "nat \<Rightarrow> read_block \<Rightarrow> (uval \<times> read_block) res" where
  "unpack_one 0 = (\<lambda>rb. Loop)"
| "unpack_one (Suc n) = (\<lambda>rb.
     rbind (read_bytes rb 1) (\<lambda>(bs, rb). push_value (unpack_one n) rb (unat (hd bs) mod 8) (unat (hd bs) div 8)))"

text \<open>The loop of \<open>luaseri_unpack\<close> on a buffer of \<open>int\<close> length.\<close>

fun unpack_loop :: "nat \<Rightarrow> read_block \<Rightarrow> uval list \<Rightarrow> uval list res" where
  "unpack_loop 0 rb vs = Loop"
| "unpack_loop (Suc n) rb vs =
     (case rb_read rb 1 of
        (None, _) \<Rightarrow> Ret vs
      | (Some p, rb) \<Rightarrow>
          rbind (bytes_at rb p 1) (\<lambda>bs.
          rbind (push_value (unpack_one (Suc n)) rb (unat (hd bs) mod 8) (unat (hd bs) div 8)) (\<lambda>(v, rb).
          unpack_loop n rb (vs @ [v]))))"

text \<open>The fuel is enough for every buffer: see \<open>luaseri_unpack_returns\<close>.\<close>

definition luaseri_unpack :: "u8 list \<Rightarrow> uval list res" where
  "luaseri_unpack buffer = unpack_loop (length buffer + 1) (rball_init buffer (int (length buffer))) []"

subsection \<open>The write buffer\<close>

definition wb_holds :: "write_block \<Rightarrow> u8 list \<Rightarrow> bool" where
  "wb_holds b bs \<longleftrightarrow>
     (\<exists>full cur bs1 bs2. wb_blocks b = full @ [cur] \<and> concat full = map Some bs1 \<and>
        (\<forall>blk\<in>set full. length blk = BLOCK_SIZE) \<and> bs = bs1 @ bs2 \<and> take (length bs2) cur = map Some bs2 \<and>
        length cur = BLOCK_SIZE \<and> wb_ptr b = length bs2 \<and> length bs2 \<le> BLOCK_SIZE \<and> wb_len b = length bs)"

lemma wb_holds_init: "wb_holds wb_init []"
  unfolding wb_holds_def wb_init_def
  by (intro exI [of _ "[]"] exI [of _ blk_alloc]) (simp add: blk_alloc_def)

lemma write_current_ok:
  assumes "wb_blocks b = full @ [cur]" and "wb_ptr b + length xs \<le> length cur"
  shows "write_current xs b = Some (b\<lparr>wb_blocks := full @ [take (wb_ptr b) cur @ map Some xs @ drop (wb_ptr b + length xs) cur],
    wb_len := wb_len b + length xs\<rparr>)"
  using assms by (simp add: write_current_def mem_write_def)

lemma wb_copy_ok: "wb_holds b bs \<Longrightarrow> \<exists>b'. wb_copy b xs = Some b' \<and> wb_holds b' (bs @ xs)"
proof (induction b xs arbitrary: bs rule: wb_copy.induct [case_names step])
  case (step b xs)
  from step.prems obtain full cur bs1 bs2 where
    h: "wb_blocks b = full @ [cur]" "concat full = map Some bs1" "\<forall>blk\<in>set full. length blk = BLOCK_SIZE"
      "bs = bs1 @ bs2" "take (length bs2) cur = map Some bs2" "length cur = BLOCK_SIZE"
      "wb_ptr b = length bs2" "length bs2 \<le> BLOCK_SIZE" "wb_len b = length bs"
    unfolding wb_holds_def by blast
  show ?case
  proof (cases "wb_ptr b + length xs \<le> BLOCK_SIZE")
    case True
    let ?cur = "map Some bs2 @ map Some xs @ drop (length bs2 + length xs) cur"
    let ?b = "b\<lparr>wb_blocks := full @ [?cur], wb_len := wb_len b + length xs, wb_ptr := wb_ptr b + length xs\<rparr>"
    have "wb_copy b xs = Some ?b"
      using True h(5,6,7) by (subst wb_copy.simps) (simp add: write_current_ok [OF h(1)])
    moreover have "wb_holds ?b (bs @ xs)"
      unfolding wb_holds_def
      by (intro exI [of _ full] exI [of _ ?cur] exI [of _ bs1] exI [of _ "bs2 @ xs"])
        (use True h in simp)
    ultimately show ?thesis by blast
  next
    case False
    let ?c = "BLOCK_SIZE - wb_ptr b"
    let ?xs = "take ?c xs"
    let ?cur = "map Some bs2 @ map Some ?xs"
    let ?b1 = "b\<lparr>wb_blocks := full @ [?cur], wb_len := wb_len b + length ?xs\<rparr>"
    have lc: "length ?xs = ?c" using False by simp
    have fit: "wb_ptr b + length ?xs \<le> length cur" "wb_ptr b + length ?xs = length cur" using lc h(6,7,8) by simp_all
    have w: "write_current ?xs b = Some ?b1"
      using write_current_ok [OF h(1) fit(1)] fit(2) h(5,7) by simp
    have e: "wb_copy b xs = wb_copy (next_block ?b1) (drop ?c xs)"
      using False w by (subst wb_copy.simps) (simp add: Let_def)
    have "wb_holds (next_block ?b1) (bs @ ?xs)"
      unfolding wb_holds_def
      by (intro exI [of _ "full @ [?cur]"] exI [of _ blk_alloc] exI [of _ "bs1 @ bs2 @ ?xs"] exI [of _ "[]"])
        (use h lc fit in \<open>simp add: next_block_def blk_alloc_def\<close>)
    from step.IH [OF False refl w this] show ?thesis unfolding e by simp
  qed
qed

lemma next_block_holds:
  assumes "wb_holds b bs" and "wb_ptr b = BLOCK_SIZE"
  shows "wb_holds (next_block b) bs"
proof -
  from assms obtain full cur bs1 bs2 where
    h: "wb_blocks b = full @ [cur]" "concat full = map Some bs1" "\<forall>blk\<in>set full. length blk = BLOCK_SIZE"
      "bs = bs1 @ bs2" "take (length bs2) cur = map Some bs2" "length cur = BLOCK_SIZE"
      "wb_ptr b = length bs2" "wb_len b = length bs"
    unfolding wb_holds_def by blast
  then have "cur = map Some bs2" using assms(2) by simp
  then show ?thesis
    unfolding wb_holds_def
    by (intro exI [of _ "full @ [cur]"] exI [of _ blk_alloc] exI [of _ "bs1 @ bs2"] exI [of _ "[]"])
      (use h in \<open>simp add: next_block_def blk_alloc_def\<close>)
qed

lemma seri_ok:
  assumes "wb_holds b bs"
  shows "seri (wb_blocks b) (wb_len b) = Some (map Some bs)"
proof -
  have "seri (full @ [cur]) (length bs1 + length bs2) = Some (map Some (bs1 @ bs2))"
    if "concat full = map Some bs1" "\<forall>blk\<in>set full. length blk = BLOCK_SIZE" "take (length bs2) cur = map Some bs2"
      "length cur = BLOCK_SIZE" "length bs2 \<le> BLOCK_SIZE" for full cur bs1 bs2
    using that
  proof (induction full arbitrary: bs1)
    case Nil
    then show ?case by (cases "bs2 = []") (auto simp: BLOCK_SIZE_def)
  next
    case (Cons blk full)
    then obtain xs ys where bs1: "bs1 = xs @ ys" "blk = map Some xs" "concat full = map Some ys"
      by (auto simp: append_eq_map_conv map_eq_append_conv)
    have lx: "length xs = BLOCK_SIZE" using Cons.prems(2) bs1 by simp
    have "seri (full @ [cur]) (length ys + length bs2) = Some (map Some (ys @ bs2))"
      using Cons.prems bs1 by (intro Cons.IH) simp_all
    then show ?case using bs1 lx by (simp add: BLOCK_SIZE_def)
  qed
  with assms show ?thesis unfolding wb_holds_def by force
qed

text \<open>\<open>writes m xs\<close>: the writer \<open>m\<close> appends the bytes \<open>xs\<close>.\<close>

definition writes :: "(write_block \<Rightarrow> write_block res) \<Rightarrow> u8 list \<Rightarrow> bool" where
  "writes m xs \<longleftrightarrow> (\<forall>b bs. wb_holds b bs \<longrightarrow> (\<exists>b'. m b = Ret b' \<and> wb_holds b' (bs @ xs)))"

named_theorems writing \<open>what the writers append\<close>

lemma writes_push [writing]: "writes (\<lambda>b. wb_push b xs) xs"
  unfolding writes_def wb_push_def
  using wb_copy_ok next_block_holds by (metis opt_res.simps(2))

lemma writes_bind [writing]: "writes m xs \<Longrightarrow> writes m' ys \<Longrightarrow> writes (\<lambda>b. rbind (m b) m') (xs @ ys)"
  unfolding writes_def by (metis append.assoc rbind.simps(4))

lemma writes_nil: "writes Ret []"
  by (simp add: writes_def)

lemma writes_number [writing]: "writes (\<lambda>b. wb_number b c xs) (COMBINE_TYPE TYPE_NUMBER (int c) # xs)"
  using writes_bind [OF writes_push [of "[COMBINE_TYPE TYPE_NUMBER (int c)]"] writes_push [of xs]]
  by (simp add: wb_number_def)

definition enc_int :: "i64 \<Rightarrow> nat \<times> u8 list" where
  "enc_int v =
     (if v = 0 then (TYPE_NUMBER_ZERO, [])
      else if v \<noteq> scast (ucast v :: i32) then (TYPE_NUMBER_QWORD, le_bytes 8 (unat v))
      else if sint v < 0 then (TYPE_NUMBER_DWORD, le_bytes 4 (unat (ucast v :: i32)))
      else if sint v < 0x100 then (TYPE_NUMBER_BYTE, le_bytes 1 (unat (ucast v :: u8)))
      else if sint v < 0x10000 then (TYPE_NUMBER_WORD, le_bytes 2 (unat (ucast v :: u16)))
      else (TYPE_NUMBER_DWORD, le_bytes 4 (unat (ucast v :: u32))))"

lemma writes_integer: "writes (\<lambda>b. wb_integer b v) (COMBINE_TYPE TYPE_NUMBER (int (fst (enc_int v))) # snd (enc_int v))"
  unfolding wb_integer_def enc_int_def using writes_number writes_push by (auto split: if_splits)


subsection \<open>Bytes of integers\<close>

lemma length_le_bytes [simp]: "length (le_bytes k n) = k"
  by (induction k arbitrary: n) simp_all

lemma le_val_bytes: "le_val (le_bytes k n) = n mod 256 ^ k"
proof (induction k arbitrary: n)
  case (Suc k)
  have "unat (of_nat (n mod 256) :: u8) = n mod 256"
    by (simp add: unsigned_of_nat take_bit_nat_eq_self)
  then show ?case using Suc by (simp add: mod_mult2_eq)
qed simp

lemma le_val_word: "le_val (le_bytes k (unat w)) = unat (w :: 'a::len word)" if "LENGTH('a) = 8 * k"
proof -
  have "(256 :: nat) ^ k = 2 ^ LENGTH('a)" unfolding that by (simp add: power_mult)
  then show ?thesis using unat_bound [of w] by (simp add: le_val_bytes)
qed

lemma combine_type:
  assumes "t < 8" and "0 \<le> v" and "v < 32"
  shows "unat (COMBINE_TYPE t v) mod 8 = t" and "unat (COMBINE_TYPE t v) div 8 = nat v"
proof -
  have "of_int v = (of_nat (nat v) :: u8)" using assms(2) by simp
  then have c: "COMBINE_TYPE t v = of_nat t OR push_bit 3 (of_nat (nat v))" by (simp add: COMBINE_TYPE_def)
  have "(of_nat t :: u8) AND push_bit 3 (of_nat (nat v)) = 0"
  proof (rule bit_word_eqI)
    fix n assume "n < LENGTH(8)"
    have "\<not> bit t n" if "3 \<le> n"
    proof -
      have "t < 2 ^ n" using assms(1) power_increasing [of 3 n "2::nat"] that by simp
      then show ?thesis by (simp add: bit_iff_odd)
    qed
    then show "bit ((of_nat t :: u8) AND push_bit 3 (of_nat (nat v))) n = bit (0 :: u8) n"
      by (auto simp: bit_simps)
  qed
  then have "COMBINE_TYPE t v = of_nat t + push_bit 3 (of_nat (nat v))"
    unfolding c by (rule disjunctive_add_eq_or [symmetric])
  also have "\<dots> = of_nat (t + 8 * nat v)" by (simp add: push_bit_eq_mult mult.commute)
  finally have e: "COMBINE_TYPE t v = of_nat (t + 8 * nat v)" .
  have "unat (COMBINE_TYPE t v) = t + 8 * nat v"
    unfolding e unsigned_of_nat of_nat_id using assms by (intro take_bit_nat_eq_self) simp
  then show "unat (COMBINE_TYPE t v) mod 8 = t" "unat (COMBINE_TYPE t v) div 8 = nat v" using assms(1) by simp_all
qed

subsection \<open>The reader\<close>

definition rb_ok :: "read_block \<Rightarrow> bool" where
  "rb_ok rb \<longleftrightarrow> 0 \<le> rb_ptr rb \<and> 0 \<le> rb_len rb \<and> rb_ptr rb + rb_len rb = int (length (rb_buffer rb))"

definition rb_rest :: "read_block \<Rightarrow> u8 list" where
  "rb_rest rb = drop (nat (rb_ptr rb)) (rb_buffer rb)"

text \<open>\<open>rb_at rb xs\<close>: the reader stands before the bytes \<open>xs\<close>.\<close>

definition rb_at :: "read_block \<Rightarrow> u8 list \<Rightarrow> bool" where
  "rb_at rb xs \<longleftrightarrow> rb_ok rb \<and> rb_rest rb = xs"

lemma rb_at_len: "rb_at rb xs \<Longrightarrow> rb_len rb = int (length xs)"
  by (auto simp: rb_at_def rb_ok_def rb_rest_def)

lemma rb_at_init: "rb_at (rball_init xs (int (length xs))) xs"
  by (simp add: rb_at_def rb_ok_def rb_rest_def rball_init_def)

lemma read_bytes_at:
  assumes "rb_at rb (xs @ ys)" and "n = int (length xs)"
  shows "\<exists>rb'. read_bytes rb n = Ret (xs, rb') \<and> rb_at rb' ys"
proof -
  have l: "rb_len rb = int (length (xs @ ys))" by (rule rb_at_len [OF assms(1)])
  have o: "0 \<le> rb_ptr rb" "rb_ptr rb + rb_len rb = int (length (rb_buffer rb))" "drop (nat (rb_ptr rb)) (rb_buffer rb) = xs @ ys"
    using assms(1) by (simp_all add: rb_at_def rb_ok_def rb_rest_def)
  let ?rb = "rb\<lparr>rb_ptr := rb_ptr rb + n, rb_len := rb_len rb - n\<rparr>"
  have "read_bytes rb n = Ret (xs, ?rb)"
    using l o assms(2) by (simp add: read_bytes_def rb_read_def bytes_at_def)
  moreover have "rb_at ?rb ys"
  proof -
    have "drop (nat (rb_ptr rb + n)) (rb_buffer rb) = drop (nat n) (drop (nat (rb_ptr rb)) (rb_buffer rb))"
      using o(1) assms(2) by (simp add: nat_add_distrib add.commute)
    then have "rb_rest ?rb = ys" using o(3) assms(2) by (simp add: rb_rest_def)
    then show ?thesis using l o assms(2) by (simp add: rb_at_def rb_ok_def)
  qed
  ultimately show ?thesis by blast
qed

lemma read_byte_at:
  "rb_at rb (x # ys) \<Longrightarrow> \<exists>rb'. read_bytes rb 1 = Ret ([x], rb') \<and> rb_at rb' ys"
  using read_bytes_at [of rb "[x]" ys 1] by simp

text \<open>\<open>reads f xs u\<close>: in front of the bytes \<open>xs\<close> the reader \<open>f\<close> returns \<open>u\<close> and stands behind them.\<close>

definition reads :: "(read_block \<Rightarrow> ('a \<times> read_block) res) \<Rightarrow> u8 list \<Rightarrow> 'a \<Rightarrow> bool" where
  "reads f xs u \<longleftrightarrow> (\<forall>rb ys. rb_at rb (xs @ ys) \<longrightarrow> (\<exists>rb'. f rb = Ret (u, rb') \<and> rb_at rb' ys))"

lemma reads_bytes: "n = int (length xs) \<Longrightarrow> reads (\<lambda>rb. read_bytes rb n) xs xs"
  using read_bytes_at by (simp add: reads_def)

lemma reads_bind:
  assumes "reads f xs u" and "reads (g u) ys v"
  shows "reads (\<lambda>rb. rbind (f rb) (\<lambda>(x, rb). g x rb)) (xs @ ys) v"
  unfolding reads_def
proof (intro allI impI)
  fix rb zs assume "rb_at rb ((xs @ ys) @ zs)"
  then obtain rb1 where r: "f rb = Ret (u, rb1)" "rb_at rb1 (ys @ zs)" using assms(1) unfolding reads_def by auto
  with assms(2) show "\<exists>rb'. rbind (f rb) (\<lambda>(x, rb). g x rb) = Ret (v, rb') \<and> rb_at rb' zs"
    unfolding reads_def by auto
qed

lemma reads_ret: "reads (\<lambda>rb. Ret (u, rb)) [] u"
  by (simp add: reads_def)

lemma reads_map: "reads f xs u \<Longrightarrow> reads (\<lambda>rb. rbind (f rb) (\<lambda>(x, rb). Ret (h x, rb))) xs (h u)"
  using reads_bind [where f = f and xs = xs and u = u and g = "\<lambda>x rb. Ret (h x, rb)" and ys = "[]" and v = "h u"] reads_ret [of "h u"]
  by auto

lemma unat_i64: "0 \<le> sint (v :: i64) \<Longrightarrow> int (unat v) = sint v"
proof -
  assume p: "0 \<le> sint v"
  have b: "0 \<le> uint v" "uint v < 2 ^ 64" using uint_lt2p [of v] by simp_all
  have s: "sint v = (uint v + 2 ^ 63) mod 2 ^ 64 - 2 ^ 63"
    by (simp add: sint_uint signed_take_bit_eq_take_bit_shift take_bit_eq_mod)
  show ?thesis
  proof (cases "uint v < 2 ^ 63")
    case True
    with s b show ?thesis by simp
  next
    case False
    with b have "(uint v + 2 ^ 63) mod 2 ^ 64 = (uint v + 2 ^ 63 - 2 ^ 64) mod 2 ^ 64"
      by (simp only: minus_mod_self2)
    also have "\<dots> = uint v - 2 ^ 63" using b False by simp
    finally show ?thesis using s p b by simp
  qed
qed

lemma ucast_small:
  assumes "0 \<le> sint (v :: i64)" and "sint v < 2 ^ LENGTH('b::len)"
  shows "of_nat (unat (ucast v :: 'b word)) = v"
proof -
  have "int (unat v) < int (2 ^ LENGTH('b))" using assms unat_i64 by simp
  then have "unat v < 2 ^ LENGTH('b)" by (simp only: of_nat_less_iff)
  then have "unat (ucast v :: 'b word) = unat v"
    by (simp add: unsigned_ucast_eq take_bit_nat_eq_self)
  then show ?thesis by simp
qed

lemma reads_number:
  assumes "n = int (length xs)"
  shows "reads (\<lambda>rb. rbind (read_bytes rb n) (\<lambda>(bs, rb). Ret (h (le_val bs), rb))) xs (h (le_val xs))"
  using reads_map [OF reads_bytes [OF assms], of "\<lambda>bs. h (le_val bs)"] .

lemmas cookies = TYPE_NUMBER_ZERO_def TYPE_NUMBER_BYTE_def TYPE_NUMBER_WORD_def TYPE_NUMBER_DWORD_def
  TYPE_NUMBER_QWORD_def TYPE_NUMBER_REAL_def

lemma reads_integer:
  "reads (\<lambda>rb. get_integer rb (fst (enc_int v))) (snd (enc_int v)) v"
proof -
  consider (zero) "v = 0" | (qword) "v \<noteq> 0" "v \<noteq> scast (ucast v :: i32)"
    | (neg) "v \<noteq> 0" "v = scast (ucast v :: i32)" "sint v < 0"
    | (byte) "v \<noteq> 0" "v = scast (ucast v :: i32)" "0 \<le> sint v" "sint v < 0x100"
    | (word) "v \<noteq> 0" "v = scast (ucast v :: i32)" "0x100 \<le> sint v" "sint v < 0x10000"
    | (dword) "v \<noteq> 0" "v = scast (ucast v :: i32)" "0x10000 \<le> sint v" by linarith
  then show ?thesis
  proof cases
    case zero
    then show ?thesis by (simp add: enc_int_def get_integer_def reads_ret)
  next
    case qword
    then have e: "enc_int v = (TYPE_NUMBER_QWORD, le_bytes 8 (unat v))" by (simp add: enc_int_def)
    show ?thesis
      using reads_number [of 8 "le_bytes 8 (unat v)" "of_nat :: nat \<Rightarrow> i64"] unfolding e fst_conv snd_conv
      by (simp add: get_integer_def cookies le_val_word)
  next
    case neg
    then have e: "enc_int v = (TYPE_NUMBER_DWORD, le_bytes 4 (unat (ucast v :: i32)))" by (simp add: enc_int_def)
    show ?thesis
      using reads_number [of 4 "le_bytes 4 (unat (ucast v :: i32))" "\<lambda>n. scast (of_nat n :: i32) :: i64"] neg(2) [symmetric]
      unfolding e fst_conv snd_conv by (simp add: get_integer_def cookies le_val_word)
  next
    case byte
    then have e: "enc_int v = (TYPE_NUMBER_BYTE, le_bytes 1 (unat (ucast v :: u8)))" by (simp add: enc_int_def)
    have "of_nat (unat (ucast v :: u8)) = v" using byte by (intro ucast_small) simp_all
    then show ?thesis
      using reads_number [of 1 "le_bytes 1 (unat (ucast v :: u8))" "of_nat :: nat \<Rightarrow> i64"] unfolding e fst_conv snd_conv
      by (simp add: get_integer_def cookies le_val_word del: le_bytes.simps of_nat_unat)
  next
    case word
    then have e: "enc_int v = (TYPE_NUMBER_WORD, le_bytes 2 (unat (ucast v :: u16)))" by (simp add: enc_int_def)
    have "of_nat (unat (ucast v :: u16)) = v" using word by (intro ucast_small) simp_all
    then show ?thesis
      using reads_number [of 2 "le_bytes 2 (unat (ucast v :: u16))" "of_nat :: nat \<Rightarrow> i64"] unfolding e fst_conv snd_conv
      by (simp add: get_integer_def cookies le_val_word del: le_bytes.simps of_nat_unat)
  next
    case dword
    then have e: "enc_int v = (TYPE_NUMBER_DWORD, le_bytes 4 (unat (ucast v :: i32)))" by (simp add: enc_int_def)
    show ?thesis
      using reads_number [of 4 "le_bytes 4 (unat (ucast v :: i32))" "\<lambda>n. scast (of_nat n :: i32) :: i64"] dword(2) [symmetric]
      unfolding e fst_conv snd_conv by (simp add: get_integer_def cookies le_val_word)
  qed
qed

lemma reads_real: "reads get_real (le_bytes 8 (unat v)) v"
  using reads_number [of 8 "le_bytes 8 (unat v)" "of_nat :: nat \<Rightarrow> u64"] by (simp add: get_real_def [abs_def] le_val_word)

lemma reads_pointer: "reads get_pointer (le_bytes 8 (unat v)) v"
  using reads_number [of 8 "le_bytes 8 (unat v)" "of_nat :: nat \<Rightarrow> u64"] by (simp add: get_pointer_def [abs_def] le_val_word)

lemma get_buffer_pos: "0 \<le> n \<Longrightarrow> get_buffer rb n = rbind (read_bytes rb n) (\<lambda>(bs, rb). Ret (UStr bs, rb))"
  by (simp add: get_buffer_def read_bytes_def invalid_stream_def rb_read_def)
    (cases "bytes_at (rb\<lparr>rb_ptr := rb_ptr rb + n, rb_len := rb_len rb - n\<rparr>) (rb_ptr rb) n"; simp)

lemma reads_buffer: "n = int (length s) \<Longrightarrow> reads (\<lambda>rb. get_buffer rb n) s (UStr s)"
  using reads_map [OF reads_bytes [of n s], of UStr] by (simp add: get_buffer_pos)

text \<open>Two more shapes: a reader that goes on, and the value behind its type byte.\<close>

lemma reads_one:
  assumes "reads (\<lambda>rb. push_value (unpack_one n) rb t (nat v)) xs u" and "t < 8" and "0 \<le> v" and "v < 32"
  shows "reads (unpack_one (Suc n)) (COMBINE_TYPE t v # xs) u"
  using reads_bind [OF reads_bytes [of 1 "[COMBINE_TYPE t v]"],
      where g = "\<lambda>bs rb. push_value (unpack_one n) rb (unat (hd bs) mod 8) (unat (hd bs) div 8)" and ys = xs and v = u] assms(1)
  by (simp add: combine_type [OF assms(2,3,4)])

declare unpack_one.simps [simp del]

definition enc_string :: "u8 list \<Rightarrow> u8 list" where
  "enc_string s =
     (if length s < MAX_COOKIE then COMBINE_TYPE TYPE_SHORT_STRING (int (length s)) # s
      else if length s < 0x10000 then COMBINE_TYPE TYPE_LONG_STRING 2 # le_bytes 2 (length s) @ s
      else COMBINE_TYPE TYPE_LONG_STRING 4 # le_bytes 4 (length s) @ s)"

lemmas types = TYPE_NIL_def TYPE_BOOLEAN_def TYPE_NUMBER_def TYPE_USERDATA_def TYPE_SHORT_STRING_def
  TYPE_LONG_STRING_def TYPE_TABLE_def

lemma writes_string: "writes (\<lambda>b. wb_string b s (int (length s))) (enc_string s)"
proof -
  have long: "writes (\<lambda>b. rbind (rbind (wb_push b [c]) (\<lambda>b. wb_push b l)) (\<lambda>b. wb_push b s)) (c # l @ s)" for c l
    using writes_bind [OF writes_bind [OF writes_push [of "[c]"] writes_push [of l]] writes_push [of s]] by simp
  have short: "writes (\<lambda>b. rbind (wb_push b [c]) (\<lambda>b. wb_push b s)) (c # s)" for c
    using writes_bind [OF writes_push [of "[c]"] writes_push [of s]] by simp
  have empty: "writes (\<lambda>b. rbind (wb_push b [c]) Ret) [c]" for c
    using writes_bind [OF writes_push [of "[c]"] writes_nil] by simp
  show ?thesis
    unfolding wb_string_def enc_string_def using long short empty by (cases "s = []") (auto simp: MAX_COOKIE_def)
qed

lemma reads_string: "length s < 2 ^ 31 \<Longrightarrow> reads (unpack_one (Suc n)) (enc_string s) (UStr s)"
proof -
  assume l: "length s < 2 ^ 31"
  consider (short) "length s < 32" | (word) "32 \<le> length s" "length s < 0x10000" | (dword) "0x10000 \<le> length s"
    by linarith
  then show ?thesis
  proof cases
    case short
    then show ?thesis
      by (simp add: enc_string_def MAX_COOKIE_def) (intro reads_one; simp add: push_value_def types reads_buffer)
  next
    case word
    then have "le_val (le_bytes 2 (length s)) = length s" by (simp add: le_val_bytes)
    then have "reads (\<lambda>rb. get_long_string rb 2) (le_bytes 2 (length s) @ s) (UStr s)"
      using reads_bind [OF reads_bytes [of 2 "le_bytes 2 (length s)"],
          where g = "\<lambda>bs rb. get_buffer rb (int (le_val bs))" and ys = s and v = "UStr s"]
      by (simp add: get_long_string_def reads_buffer)
    with word show ?thesis
      by (simp add: enc_string_def MAX_COOKIE_def) (intro reads_one; simp add: push_value_def types)
  next
    case dword
    have "le_val (le_bytes 4 (length s)) = length s" using l by (simp add: le_val_bytes)
    moreover have "sint (of_nat (length s) :: i32) = int (length s)"
      using l by (simp add: sint_i32 unsigned_of_nat take_bit_nat_eq_self)
    ultimately have "reads (\<lambda>rb. get_long_string rb 4) (le_bytes 4 (length s) @ s) (UStr s)"
      using reads_bind [OF reads_bytes [of 4 "le_bytes 4 (length s)"],
          where g = "\<lambda>bs rb. get_buffer rb (sint (of_nat (le_val bs) :: i32))" and ys = s and v = "UStr s"]
      by (simp add: get_long_string_def reads_buffer)
    with dword show ?thesis
      by (simp add: enc_string_def MAX_COOKIE_def) (intro reads_one; simp add: push_value_def types)
  qed
qed

subsection \<open>Tables\<close>

lemma read_hash:
  assumes "\<forall>(xk, xv, k, v)\<in>set ps. reads f xk k \<and> reads f xv v \<and> k \<noteq> UNil \<and> \<not> is_nan k"
    and "reads f [0] UNil" and "length ps < N"
    and "rb_at rb (concat (map (\<lambda>q. fst q @ fst (snd q)) ps) @ 0 # zs)"
  shows "\<exists>rb'. unpack_hash f N rb es = Ret (UTable (es @ map (\<lambda>q. snd (snd q)) ps), rb') \<and> rb_at rb' zs"
  using assms(1,3,4)
proof (induction ps arbitrary: N rb es)
  case Nil
  from Nil.prems(2) obtain N' where "N = Suc N'" by (cases N) auto
  moreover obtain rb' where "f rb = Ret (UNil, rb')" "rb_at rb' zs"
    using assms(2) Nil.prems(3) unfolding reads_def by fastforce
  ultimately show ?case by simp
next
  case (Cons p ps)
  obtain xk xv k v where p: "p = (xk, xv, k, v)" by (cases p)
  from Cons.prems(2) obtain N' where N: "N = Suc N'" "length ps < N'" by (cases N) auto
  have r: "reads f xk k" "reads f xv v" "k \<noteq> UNil" "\<not> is_nan k" using Cons.prems(1) p by auto
  let ?zs = "concat (map (\<lambda>q. fst q @ fst (snd q)) ps) @ 0 # zs"
  have "rb_at rb (xk @ xv @ ?zs)" using Cons.prems(3) p by simp
  with r(1) obtain rb1 where rb1: "f rb = Ret (k, rb1)" "rb_at rb1 (xv @ ?zs)" unfolding reads_def by blast
  with r(2) obtain rb2 where rb2: "f rb1 = Ret (v, rb2)" "rb_at rb2 ?zs" unfolding reads_def by blast
  have "\<forall>(xk, xv, k, v)\<in>set ps. reads f xk k \<and> reads f xv v \<and> k \<noteq> UNil \<and> \<not> is_nan k" using Cons.prems(1) by simp
  from Cons.IH [OF this N(2) rb2(2), of "es @ [(k, v)]"] show ?case
    using N rb1 rb2 r p by simp
qed

lemma read_array:
  assumes "\<forall>(xs, u)\<in>set ps. reads f xs u" and "m = i + int (length ps) - 1" and "length ps < N"
    and "rb_at rb (concat (map fst ps) @ zs)"
  shows "\<exists>rb'. unpack_array f N rb i m es =
      unpack_hash f (nat (rb_len rb') + 1) rb' (es @ zip (map (\<lambda>i. UInt (of_int i)) [i..m]) (map snd ps)) \<and> rb_at rb' zs"
  using assms
proof (induction ps arbitrary: N rb es i)
  case Nil
  from Nil.prems(3) obtain N' where "N = Suc N'" by (cases N) auto
  with Nil show ?case by auto
next
  case (Cons p ps)
  obtain xs u where p: "p = (xs, u)" by (cases p)
  from Cons.prems(3) obtain N' where N: "N = Suc N'" "length ps < N'" by (cases N) auto
  have r: "reads f xs u" using Cons.prems(1) p by auto
  have "rb_at rb (xs @ concat (map fst ps) @ zs)" using Cons.prems(4) p by simp
  with r obtain rb1 where rb1: "f rb = Ret (u, rb1)" "rb_at rb1 (concat (map fst ps) @ zs)" unfolding reads_def by blast
  have m: "m = i + 1 + int (length ps) - 1" using Cons.prems(2) by simp
  have "\<forall>(xs, u)\<in>set ps. reads f xs u" using Cons.prems(1) by simp
  from Cons.IH [OF this m N(2) rb1(2), of "es @ [(UInt (of_int i), u)]"] show ?case
    using N rb1 p Cons.prems(2) upto_rec1 [of i m] by simp
qed

lemma length_concat_ge: "\<forall>x\<in>set xs. g x \<noteq> [] \<Longrightarrow> length xs \<le> length (concat (map g xs))"
  by (induction xs) (simp_all add: Suc_le_eq add_less_le_mono flip: length_greater_0_conv)

text \<open>The cookie of a table and what is behind it.\<close>

definition enc_size :: "int \<Rightarrow> int \<times> u8 list" where
  "enc_size n =
     (if n \<ge> int MAX_COOKIE - 1
      then (int MAX_COOKIE - 1, COMBINE_TYPE TYPE_NUMBER (int (fst (enc_int (of_int n)))) # snd (enc_int (of_int n)))
      else (n, []))"

lemma writes_size: "writes (\<lambda>b. wb_array_size b n) (COMBINE_TYPE TYPE_TABLE (fst (enc_size n)) # snd (enc_size n))"
proof -
  have "writes (\<lambda>b. rbind (wb_push b [c]) (\<lambda>b. wb_integer b (of_int n)))
      (c # COMBINE_TYPE TYPE_NUMBER (int (fst (enc_int (of_int n)))) # snd (enc_int (of_int n)))" for c
    using writes_bind [OF writes_push [of "[c]"] writes_integer [of "of_int n"]] by simp
  then show ?thesis unfolding wb_array_size_def enc_size_def by (simp add: writes_push)
qed

lemma sint_of_size: "0 \<le> n \<Longrightarrow> n < 2 ^ 31 \<Longrightarrow> sint (ucast (of_int n :: i64) :: i32) = n"
proof -
  assume n: "0 \<le> n" "n < 2 ^ 31"
  define m where "m = nat n"
  have m: "n = int m" "m < 2 ^ 31" using n by (simp_all add: m_def)
  have "unat (ucast (of_nat m :: i64) :: i32) = m"
    using m(2) by (simp add: unsigned_ucast_eq unsigned_of_nat take_bit_nat_eq_self)
  then show ?thesis using m by (simp add: sint_i32)
qed

lemma enc_int_cookie: "fst (enc_int v) \<noteq> TYPE_NUMBER_REAL" "fst (enc_int v) < 32"
  by (simp_all add: enc_int_def cookies)

lemma reads_size:
  assumes "0 \<le> n" and "n < 2 ^ 31"
  shows "reads (\<lambda>rb. get_array_size rb (nat (fst (enc_size n)))) (snd (enc_size n)) n"
proof (cases "n \<ge> int MAX_COOKIE - 1")
  case True
  let ?v = "of_int n :: i64"
  have "reads (\<lambda>rb. rbind (get_integer rb (fst (enc_int ?v))) (\<lambda>(x, rb). Ret (sint (ucast x :: i32), rb))) (snd (enc_int ?v)) n"
    using reads_map [OF reads_integer [of ?v], of "\<lambda>x. sint (ucast x :: i32)"] sint_of_size [OF assms] by simp
  then show ?thesis
    using reads_bind [OF reads_bytes [of 1 "[COMBINE_TYPE TYPE_NUMBER (int (fst (enc_int ?v)))]"], where
        g = "\<lambda>bs rb. let type = unat (hd bs); cookie = type div 8 in
          if type mod 8 \<noteq> TYPE_NUMBER \<or> cookie = TYPE_NUMBER_REAL then invalid_stream rb
          else rbind (get_integer rb cookie) (\<lambda>(x, rb). Ret (sint (ucast x :: i32), rb))"
        and ys = "snd (enc_int ?v)" and v = n]
    using True enc_int_cookie [of ?v]
    by (simp add: enc_size_def get_array_size_def [abs_def] combine_type types MAX_COOKIE_def)
next
  case False
  with assms have "nat n \<noteq> 31" by (simp add: MAX_COOKIE_def)
  with False assms show ?thesis by (simp add: enc_size_def get_array_size_def MAX_COOKIE_def reads_ret)
qed

subsection \<open>Values that can be packed\<close>

definition array_part :: "nat \<Rightarrow> (lval \<times> lval) list \<Rightarrow> lval list" where
  "array_part n es = map (raw_get es) [1..c_len n]"

definition hash_part :: "nat \<Rightarrow> (lval \<times> lval) list \<Rightarrow> (lval \<times> lval) list" where
  "hash_part n es = filter (\<lambda>e. hash_key (c_len n) (fst e)) es"

definition pairs_part :: "(lval \<times> lval) list \<Rightarrow> (lval \<times> lval) list" where
  "pairs_part es = takeWhile (\<lambda>e. fst e \<noteq> LNil) es"

lemmas parts = array_part_def hash_part_def pairs_part_def

text \<open>Every value in \<open>v\<close>, at depth \<open>d\<close>, is not too deep and satisfies \<open>p\<close>; every key satisfies \<open>q\<close>.\<close>

function packs_with :: "(lval \<Rightarrow> bool) \<Rightarrow> (lval \<Rightarrow> bool) \<Rightarrow> lval \<Rightarrow> nat \<Rightarrow> bool" where
  "packs_with p q v d \<longleftrightarrow>
     (if MAX_DEPTH < d then False
      else p v \<and>
       (case v of
          LTable n es \<Rightarrow>
            list_all (\<lambda>v. packs_with p q v (d + 1)) (array_part n es) \<and>
            list_all (\<lambda>e. q (fst e) \<and> packs_with p q (fst e) (d + 1) \<and> packs_with p q (snd e) (d + 1)) (hash_part n es)
        | LMeta es \<Rightarrow>
            list_all (\<lambda>e. q (fst e) \<and> packs_with p q (fst e) (d + 1) \<and> packs_with p q (snd e) (d + 1)) (pairs_part es)
        | _ \<Rightarrow> True))"
  by pat_completeness auto
termination
  by (relation "measure (\<lambda>(p, q, v, d). MAX_DEPTH + 1 - d)") auto

declare packs_with.simps [simp del]

definition known_type :: "lval \<Rightarrow> bool" where
  "known_type v \<longleftrightarrow> (case v of LOther _ \<Rightarrow> False | _ \<Rightarrow> True)"

definition supported :: "lval \<Rightarrow> nat \<Rightarrow> bool" where
  "supported = packs_with known_type (\<lambda>k. True)"

definition pack_error :: "seri_error \<Rightarrow> bool" where
  "pack_error e \<longleftrightarrow> (case e of TooDeep \<Rightarrow> True | Unsupported _ \<Rightarrow> True | _ \<Rightarrow> False)"

definition packing :: "(write_block \<Rightarrow> write_block res) \<Rightarrow> bool \<Rightarrow> bool" where
  "packing m ok \<longleftrightarrow>
     (\<forall>b bs. wb_holds b bs \<longrightarrow>
        (if ok then \<exists>b' xs. m b = Ret b' \<and> wb_holds b' (bs @ xs) else \<exists>e. m b = Raise e \<and> pack_error e))"

lemma packing_writes: "writes m xs \<Longrightarrow> packing m True"
  unfolding writes_def packing_def by fastforce

lemma packing_bind:
  assumes "packing m x" and "packing m' y"
  shows "packing (\<lambda>b. rbind (m b) m') (x \<and> y)"
  unfolding packing_def
proof (intro allI impI)
  fix b bs assume h: "wb_holds b bs"
  show "if x \<and> y then \<exists>b' xs. rbind (m b) m' = Ret b' \<and> wb_holds b' (bs @ xs)
        else \<exists>e. rbind (m b) m' = Raise e \<and> pack_error e"
  proof (cases x)
    case True
    then obtain b1 xs where b1: "m b = Ret b1" "wb_holds b1 (bs @ xs)" using assms(1) h unfolding packing_def by meson
    show ?thesis
    proof (cases y)
      case y: True
      then obtain b2 ys where "m' b1 = Ret b2" "wb_holds b2 ((bs @ xs) @ ys)"
        using assms(2) b1(2) unfolding packing_def by meson
      with True y b1(1) show ?thesis by (simp only: simp_thms if_True rbind.simps append_assoc) blast
    next
      case False
      then show ?thesis using assms(2) b1 unfolding packing_def by auto
    qed
  next
    case False
    then show ?thesis using assms(1) h unfolding packing_def by auto
  qed
qed

lemma packing_list:
  "\<forall>v\<in>set vs. packing (\<lambda>b. pack_one b v d) (f v) \<Longrightarrow> packing (\<lambda>b. pack_list b vs d) (list_all f vs)"
proof (induction vs)
  case Nil
  show ?case using packing_writes [OF writes_nil] by simp
next
  case (Cons v vs)
  then show ?case using packing_bind [of "\<lambda>b. pack_one b v d" "f v" "\<lambda>b. pack_list b vs d"] by simp
qed

lemma packing_pairs:
  "\<forall>e\<in>set es. packing (\<lambda>b. pack_one b (fst e) d) (f (fst e)) \<and> packing (\<lambda>b. pack_one b (snd e) d) (f (snd e)) \<Longrightarrow>
    packing (\<lambda>b. pack_pairs b es d) (list_all (\<lambda>e. f (fst e) \<and> f (snd e)) es)"
proof (induction es)
  case Nil
  show ?case using packing_writes [OF writes_nil] by simp
next
  case (Cons e es)
  then show ?case
    using packing_bind [OF _ packing_bind, of "\<lambda>b. pack_one b (fst e) d" "f (fst e)" "\<lambda>b. pack_one b (snd e) d" "f (snd e)"
      "\<lambda>b. pack_pairs b es d"] by (cases e) simp
qed

lemma packing_string: "packing (\<lambda>b. wb_string b s n) True"
proof -
  have r: "packing Ret True" using packing_writes [OF writes_nil] .
  have p: "packing (\<lambda>b. wb_push b xs) True" for xs using packing_writes [OF writes_push] .
  note b = packing_bind [where x = True and y = True, simplified]
  show ?thesis unfolding wb_string_def
    by (cases "n < int MAX_COOKIE"; cases "0 < n"; cases "n < 0x10000") (simp_all add: b p r)
qed

lemma pack_one_supported: "packing (\<lambda>b. pack_one b v d) (supported v d)"
proof -
  let ?p = known_type and ?q = "\<lambda>k :: lval. True"
  have "packing (\<lambda>b. pack_one b v d) (packs_with ?p ?q v d)"
  proof (induction ?p ?q v d rule: packs_with.induct)
    case (1 v d)
    note w = packing_writes [OF writes_push] packing_writes [OF writes_integer] packing_writes [OF writes_number]
    note e = pack_one.simps [of _ v d] packs_with.simps [of ?p ?q v d] known_type_def
    show ?case
    proof (cases "MAX_DEPTH < d")
      case True
      then show ?thesis by (simp add: e packing_def pack_error_def)
    next
      case d: False
      show ?thesis
      proof (cases v)
        case (LTable n es)
        have "packing (\<lambda>b. pack_list b (array_part n es) (d + 1)) (list_all (\<lambda>v. packs_with ?p ?q v (d + 1)) (array_part n es))"
          by (rule packing_list) (use 1(1) [OF d LTable] in auto)
        moreover have "packing (\<lambda>b. pack_pairs b (hash_part n es) (d + 1))
            (list_all (\<lambda>e. packs_with ?p ?q (fst e) (d + 1) \<and> packs_with ?p ?q (snd e) (d + 1)) (hash_part n es))"
          by (rule packing_pairs) (use 1(2,3) [OF d LTable] in auto)
        ultimately show ?thesis
          using packing_bind [OF packing_writes [OF writes_size] packing_bind [OF _ packing_bind [OF _ w(1)]]]
          unfolding e by (simp add: d LTable parts wb_nil_def [abs_def])
      next
        case (LMeta es)
        have "packing (\<lambda>b. pack_pairs b (pairs_part es) (d + 1))
            (list_all (\<lambda>e. packs_with ?p ?q (fst e) (d + 1) \<and> packs_with ?p ?q (snd e) (d + 1)) (pairs_part es))"
          by (rule packing_pairs) (use 1(4,5) [OF d LMeta] in auto)
        then show ?thesis
          using packing_bind [OF w(1) packing_bind [OF _ w(1)]]
          unfolding e by (simp add: d LMeta parts wb_nil_def [abs_def])
      next
        case (LStr s)
        then show ?thesis unfolding e by (simp add: d packing_string)
      next
        case (LPtr x)
        then show ?thesis unfolding e wb_pointer_def
          by (simp add: d packing_bind [OF w(1,1), simplified])
      next
        case (LOther s)
        then show ?thesis unfolding e by (simp add: d packing_def pack_error_def)
      qed (unfold e, simp_all add: d w wb_nil_def wb_boolean_def wb_real_def)
    qed
  qed
  then show ?thesis by (simp add: supported_def)
qed

subsection \<open>Reading back what was written\<close>

text \<open>The value \<open>u\<close> that was read is \<open>v\<close>: the same scalar; for a table the same assignments, elements
  \<open>1 \<dots> n\<close> first.\<close>

inductive same_value :: "lval \<Rightarrow> uval \<Rightarrow> bool" where
  same_nil: "same_value LNil UNil"
| same_bool: "same_value (LBool x) (UBool x)"
| same_int: "same_value (LInt i) (UInt i)"
| same_real: "same_value (LReal r) (UReal r)"
| same_ptr: "same_value (LPtr p) (UPtr p)"
| same_str: "same_value (LStr s) (UStr s)"
| same_table: "list_all2 same_value (array_part n es) us \<Longrightarrow>
    list_all2 (rel_prod same_value same_value) (hash_part n es) kvs \<Longrightarrow>
    same_value (LTable n es) (UTable (zip (map (\<lambda>i. UInt (of_int i)) [1..c_len n]) us @ kvs))"
| same_meta: "list_all2 (rel_prod same_value same_value) (pairs_part es) kvs \<Longrightarrow>
    same_value (LMeta es) (UTable kvs)"

inductive_cases same_nilE: "same_value v UNil"
inductive_cases same_realE: "same_value v (UReal r)"

text \<open>What fits: strings and tables are shorter than 2^31, and a key is no nil and no NaN.\<close>

definition fits :: "lval \<Rightarrow> bool" where
  "fits v \<longleftrightarrow> (case v of LStr s \<Rightarrow> length s < 2 ^ 31 | LTable n es \<Rightarrow> n < 2 ^ 31 | LOther _ \<Rightarrow> False | _ \<Rightarrow> True)"

definition key_ok :: "lval \<Rightarrow> bool" where
  "key_ok k \<longleftrightarrow> (case k of LNil \<Rightarrow> False | LReal x \<Rightarrow> \<not> is_nan (UReal x) | _ \<Rightarrow> True)"

definition packable :: "lval \<Rightarrow> nat \<Rightarrow> bool" where
  "packable = packs_with fits key_ok"

lemma key_ok_same: "same_value k u \<Longrightarrow> key_ok k \<Longrightarrow> u \<noteq> UNil \<and> \<not> is_nan u"
  by (cases rule: same_value.cases) (auto simp: key_ok_def is_nan_def)

definition codes :: "lval \<Rightarrow> nat \<Rightarrow> u8 list \<Rightarrow> uval \<Rightarrow> bool" where
  "codes v d xs u \<longleftrightarrow>
     writes (\<lambda>b. pack_one b v d) xs \<and> same_value v u \<and> xs \<noteq> [] \<and>
     (\<forall>n. length xs \<le> n \<longrightarrow> reads (unpack_one n) xs u)"

lemma list_all2_choice: "\<forall>x\<in>set xs. \<exists>y. R x y \<Longrightarrow> \<exists>ys. list_all2 R xs ys"
  by (induction xs) (auto intro: list_all2_Cons1 [THEN iffD2])

lemma writes_list:
  "list_all2 (\<lambda>v p. writes (\<lambda>b. pack_one b v d) (fst p)) vs ps \<Longrightarrow>
    writes (\<lambda>b. pack_list b vs d) (concat (map fst ps))"
proof (induction rule: list_all2_induct)
  case Nil
  show ?case using writes_nil by simp
next
  case (Cons v vs p ps)
  then show ?case using writes_bind [of "\<lambda>b. pack_one b v d" "fst p" "\<lambda>b. pack_list b vs d"] by simp
qed

lemma writes_pairs:
  "list_all2 (\<lambda>e q. writes (\<lambda>b. pack_one b (fst e) d) (fst q) \<and> writes (\<lambda>b. pack_one b (snd e) d) (fst (snd q))) es qs \<Longrightarrow>
    writes (\<lambda>b. pack_pairs b es d) (concat (map (\<lambda>q. fst q @ fst (snd q)) qs))"
proof (induction rule: list_all2_induct)
  case Nil
  show ?case using writes_nil by simp
next
  case (Cons e es q qs)
  then show ?case
    using writes_bind [OF _ writes_bind, of "\<lambda>b. pack_one b (fst e) d" "fst q" "\<lambda>b. pack_one b (snd e) d" "fst (snd q)"
      "\<lambda>b. pack_pairs b es d"] by (cases e) simp
qed

lemma reads_nil: "0 < k \<Longrightarrow> reads (unpack_one k) [0] UNil"
proof -
  assume "0 < k"
  then obtain k' where "k = Suc k'" by (cases k) auto
  moreover have "COMBINE_TYPE TYPE_NIL 0 = 0" by (simp add: COMBINE_TYPE_def TYPE_NIL_def)
  ultimately show ?thesis
    using reads_one [of k' TYPE_NIL 0 "[]" UNil] by (simp add: push_value_def TYPE_NIL_def reads_ret)
qed

lemma reads_table:
  assumes "0 < k" and "0 \<le> n" and "n < 2 ^ 31" and "int (length ps) = n"
    and ps: "\<forall>p\<in>set ps. reads (unpack_one k) (fst p) (snd p) \<and> fst p \<noteq> []"
    and qs: "\<forall>(xk, xv, k', v)\<in>set qs. reads (unpack_one k) xk k' \<and> reads (unpack_one k) xv v \<and> k' \<noteq> UNil \<and> \<not> is_nan k'"
    and ne: "\<forall>q\<in>set qs. fst q \<noteq> []"
  shows "reads (unpack_one (Suc k))
    (COMBINE_TYPE TYPE_TABLE (fst (enc_size n)) # snd (enc_size n) @ concat (map fst ps) @ concat (map (\<lambda>q. fst q @ fst (snd q)) qs) @ [0])
    (UTable (zip (map (\<lambda>i. UInt (of_int i)) [1..n]) (map snd ps) @ map (\<lambda>q. snd (snd q)) qs))"
proof (rule reads_one)
  let ?h = "concat (map (\<lambda>q. fst q @ fst (snd q)) qs)" and ?a = "concat (map fst ps)"
  let ?u = "UTable (zip (map (\<lambda>i. UInt (of_int i)) [1..n]) (map snd ps) @ map (\<lambda>q. snd (snd q)) qs)"
  have body: "reads (\<lambda>rb. unpack_array (unpack_one k) (nat (rb_len rb) + 1) rb 1 n []) (?a @ ?h @ [0]) ?u"
    unfolding reads_def
  proof (intro allI impI)
    fix rb zs assume at: "rb_at rb ((?a @ ?h @ [0]) @ zs)"
    have ps': "\<forall>(xs, u)\<in>set ps. reads (unpack_one k) xs u" using ps by auto
    have "length ps \<le> length ?a" using ps by (intro length_concat_ge) auto
    with at have "length ps < nat (rb_len rb) + 1" by (simp add: rb_at_len)
    from read_array [OF ps' _ this, of n 1 rb "?h @ 0 # zs" "[]"] at assms(4) obtain rb' where
      rb': "unpack_array (unpack_one k) (nat (rb_len rb) + 1) rb 1 n [] =
        unpack_hash (unpack_one k) (nat (rb_len rb') + 1) rb' (zip (map (\<lambda>i. UInt (of_int i)) [1..n]) (map snd ps))"
      "rb_at rb' (?h @ 0 # zs)" by auto
    have "length qs \<le> length ?h" using ne by (intro length_concat_ge) auto
    with rb'(2) have "length qs < nat (rb_len rb') + 1" by (simp add: rb_at_len)
    from read_hash [OF qs reads_nil [OF assms(1)] this rb'(2)] rb'(1)
    show "\<exists>rb''. unpack_array (unpack_one k) (nat (rb_len rb) + 1) rb 1 n [] = Ret (?u, rb'') \<and> rb_at rb'' zs" by simp
  qed
  show "reads (\<lambda>rb. push_value (unpack_one k) rb TYPE_TABLE (nat (fst (enc_size n)))) (snd (enc_size n) @ ?a @ ?h @ [0]) ?u"
    using reads_bind [OF reads_size [OF assms(2,3)], where
        g = "\<lambda>m rb. unpack_array (unpack_one k) (nat (rb_len rb) + 1) rb 1 m []", OF body]
    by (simp add: push_value_def unpack_table_def types)
qed (use assms(2) in \<open>simp_all add: TYPE_TABLE_def enc_size_def MAX_COOKIE_def\<close>)

lemma length_concat_mem: "x \<in> set xs \<Longrightarrow> length (g x) \<le> length (concat (map g xs))"
  by (induction xs) auto

lemma c_len_small: "n < 2 ^ 31 \<Longrightarrow> c_len n = int n"
  by (simp add: c_len_def sint_i32 unsigned_of_nat take_bit_nat_eq_self)

lemma list_all2_in2: "list_all2 R xs ys \<Longrightarrow> y \<in> set ys \<Longrightarrow> \<exists>x. R x y"
  by (induction rule: list_all2_induct) auto

text \<open>The bytes of a table: its size, the coded elements \<open>ps\<close>, the coded pairs \<open>qs\<close>, a nil.\<close>

definition table_bytes :: "int \<Rightarrow> (u8 list \<times> uval) list \<Rightarrow> (u8 list \<times> u8 list \<times> uval \<times> uval) list \<Rightarrow> u8 list" where
  "table_bytes n ps qs = COMBINE_TYPE TYPE_TABLE (fst (enc_size n)) # snd (enc_size n) @ concat (map fst ps) @
     concat (map (\<lambda>q. fst q @ fst (snd q)) qs) @ [0]"

definition coded_pair :: "nat \<Rightarrow> lval \<times> lval \<Rightarrow> u8 list \<times> u8 list \<times> uval \<times> uval \<Rightarrow> bool" where
  "coded_pair d e q \<longleftrightarrow>
     codes (fst e) d (fst q) (fst (snd (snd q))) \<and> codes (snd e) d (fst (snd q)) (snd (snd (snd q))) \<and> key_ok (fst e)"

lemma table_reads:
  assumes "0 \<le> n" and "n < 2 ^ 31" and "int (length vs) = n"
    and ps: "list_all2 (\<lambda>v p. codes v d (fst p) (snd p)) vs ps"
    and qs: "list_all2 (coded_pair d) es qs"
    and "length (table_bytes n ps qs) \<le> m"
  shows "reads (unpack_one m) (table_bytes n ps qs)
    (UTable (zip (map (\<lambda>i. UInt (of_int i)) [1..n]) (map snd ps) @ map (\<lambda>q. snd (snd q)) qs))"
proof -
  from assms(6) obtain k where m: "m = Suc k" by (cases m) (auto simp: table_bytes_def)
  have k: "0 < k" "length (concat (map fst ps)) \<le> k" "length (concat (map (\<lambda>q. fst q @ fst (snd q)) qs)) \<le> k"
    using assms(6) by (auto simp: m table_bytes_def)
  have "reads (unpack_one k) (fst p) (snd p) \<and> fst p \<noteq> []" if p: "p \<in> set ps" for p
  proof -
    obtain v where c: "codes v d (fst p) (snd p)" using list_all2_in2 [OF ps p] by blast
    have "length (fst p) \<le> k" using length_concat_mem [OF p, of fst] k(2) by linarith
    with c show ?thesis by (simp add: codes_def)
  qed
  moreover have "reads (unpack_one k) xk k' \<and> reads (unpack_one k) xv v' \<and> k' \<noteq> UNil \<and> \<not> is_nan k' \<and> xk \<noteq> []"
    if q: "(xk, xv, k', v') \<in> set qs" for xk xv k' v'
  proof -
    obtain e where c: "coded_pair d e (xk, xv, k', v')" using list_all2_in2 [OF qs q] by blast
    have "length (xk @ xv) \<le> k" using length_concat_mem [OF q, of "\<lambda>q. fst q @ fst (snd q)"] k(3) by simp
    with c key_ok_same show ?thesis unfolding coded_pair_def codes_def by fastforce
  qed
  moreover have "int (length ps) = n" using assms(3) list_all2_lengthD [OF ps] by simp
  ultimately show ?thesis
    unfolding m table_bytes_def by (intro reads_table k(1) assms(1,2)) fastforce+
qed

lemma table_writes:
  assumes "list_all2 (\<lambda>v p. codes v d (fst p) (snd p)) vs ps" and "list_all2 (coded_pair d) es qs"
  shows "writes (\<lambda>b. rbind (wb_array_size b n) (\<lambda>b. rbind (pack_list b vs d) (\<lambda>b. rbind (pack_pairs b es d) wb_nil)))
    (table_bytes n ps qs)"
proof -
  have w: "writes wb_nil [0]" using writes_push [of "[0]"] by (simp add: wb_nil_def [abs_def] TYPE_NIL_def)
  have "writes (\<lambda>b. pack_list b vs d) (concat (map fst ps))"
    using assms(1) by (intro writes_list) (auto simp: codes_def elim: list_all2_mono)
  moreover have "writes (\<lambda>b. pack_pairs b es d) (concat (map (\<lambda>q. fst q @ fst (snd q)) qs))"
    using assms(2) by (intro writes_pairs) (auto simp: codes_def coded_pair_def elim: list_all2_mono)
  ultimately show ?thesis
    using writes_bind [OF writes_size writes_bind [OF _ writes_bind [OF _ w]]] by (simp add: table_bytes_def)
qed

lemma coded_pairs_same: "list_all2 (coded_pair d) es qs \<Longrightarrow> list_all2 (rel_prod same_value same_value) es (map (\<lambda>q. snd (snd q)) qs)"
  unfolding list_all2_map2 by (erule list_all2_mono) (auto simp: coded_pair_def codes_def rel_prod_sel)

lemma codes_list:
  assumes "\<forall>v\<in>set vs. \<exists>xs u. codes v d xs u"
  obtains ps where "list_all2 (\<lambda>v p. codes v d (fst p) (snd p)) vs ps"
  using list_all2_choice [of vs "\<lambda>v p. codes v d (fst p) (snd p)"] assms by fastforce

lemma codes_pairs:
  assumes "\<forall>e\<in>set es. key_ok (fst e) \<and> (\<exists>xs u. codes (fst e) d xs u) \<and> (\<exists>xs u. codes (snd e) d xs u)"
  obtains qs where "list_all2 (coded_pair d) es qs"
proof -
  have "\<exists>q. coded_pair d e q" if "e \<in> set es" for e
  proof -
    from assms that obtain xk k xv v where "key_ok (fst e)" "codes (fst e) d xk k" "codes (snd e) d xv v" by blast
    then have "coded_pair d e (xk, xv, k, v)" by (simp add: coded_pair_def)
    then show ?thesis ..
  qed
  then obtain qs where "list_all2 (coded_pair d) es qs" using list_all2_choice [of es "coded_pair d"] by auto
  then show ?thesis by (rule that)
qed

lemma codes_scalar:
  assumes "writes (\<lambda>b. pack_one b v d) xs" and "same_value v u" and "xs \<noteq> []" and "\<And>n. reads (unpack_one (Suc n)) xs u"
  shows "\<exists>xs u. codes v d xs u"
proof -
  have "reads (unpack_one n) xs u" if "length xs \<le> n" for n using that assms(3,4) by (cases n) auto
  with assms show ?thesis unfolding codes_def by blast
qed

lemma pack_codes: "packable v d \<Longrightarrow> \<exists>xs u. codes v d xs u"
  unfolding packable_def
proof (induction fits key_ok v d rule: packs_with.induct)
  case (1 v d)
  have d: "\<not> MAX_DEPTH < d" using 1(6) by (auto simp: packs_with.simps [of _ _ v])
  note p = 1(6) [unfolded packs_with.simps [of _ _ v] if_not_P [OF d]]
  note e = pack_one.simps [of _ v d, unfolded if_not_P [OF d]]
  show ?case
  proof (cases v)
    case (LTable n es)
    have n: "n < 2 ^ 31" using p by (simp add: LTable fits_def)
    obtain ps where ps: "list_all2 (\<lambda>v p. codes v (d + 1) (fst p) (snd p)) (array_part n es) ps"
      by (rule codes_list) (use p 1(1) [OF d LTable] in \<open>auto simp: LTable list_all_iff\<close>)
    obtain qs where qs: "list_all2 (coded_pair (d + 1)) (hash_part n es) qs"
      by (rule codes_pairs) (use p 1(2,3) [OF d LTable] in \<open>auto simp: LTable list_all_iff\<close>)
    let ?xs = "table_bytes (c_len n) ps qs"
      and ?u = "UTable (zip (map (\<lambda>i. UInt (of_int i)) [1..c_len n]) (map snd ps) @ map (\<lambda>q. snd (snd q)) qs)"
    have "list_all2 same_value (array_part n es) (map snd ps)"
      unfolding list_all2_map2 using ps by (rule list_all2_mono) (simp add: codes_def)
    then have "same_value v ?u" unfolding LTable by (rule same_table) (rule coded_pairs_same [OF qs])
    moreover have "writes (\<lambda>b. pack_one b v d) ?xs"
      using table_writes [OF ps qs] unfolding e by (simp add: LTable parts)
    moreover have "reads (unpack_one m) ?xs ?u" if "length ?xs \<le> m" for m
      by (rule table_reads [OF _ _ _ ps qs that]) (use n in \<open>simp_all add: c_len_small array_part_def\<close>)
    moreover have "?xs \<noteq> []" by (simp add: table_bytes_def)
    ultimately have "codes v d ?xs ?u" by (simp add: codes_def)
    then show ?thesis by blast
  next
    case (LMeta es)
    obtain qs where qs: "list_all2 (coded_pair (d + 1)) (pairs_part es) qs"
      by (rule codes_pairs) (use p 1(4,5) [OF d LMeta] in \<open>auto simp: LMeta list_all_iff\<close>)
    let ?xs = "table_bytes 0 [] qs" and ?u = "UTable (map (\<lambda>q. snd (snd q)) qs)"
    have "same_value v ?u" unfolding LMeta by (rule same_meta) (rule coded_pairs_same [OF qs])
    moreover have "writes (\<lambda>b. pack_one b v d) ?xs"
      using table_writes [OF _ qs, of "[]" "[]" 0] unfolding e
      by (simp add: LMeta parts wb_array_size_def MAX_COOKIE_def)
    moreover have "reads (unpack_one m) ?xs ?u" if "length ?xs \<le> m" for m
      using table_reads [OF _ _ _ _ qs that, of "[]"] by simp
    moreover have "?xs \<noteq> []" by (simp add: table_bytes_def)
    ultimately have "codes v d ?xs ?u" by (simp add: codes_def)
    then show ?thesis by blast
  next
    case LNil
    show ?thesis
      using writes_push [of "[0]"] reads_nil by (intro codes_scalar [of v d "[0]" UNil]) (unfold e, simp_all add: LNil same_nil wb_nil_def TYPE_NIL_def)
  next
    case (LBool x)
    let ?v = "if x then 1 else 0 :: int"
    have "reads (unpack_one (Suc n)) [COMBINE_TYPE TYPE_BOOLEAN ?v] (UBool x)" for n
      by (intro reads_one) (simp_all add: push_value_def types reads_ret)
    then show ?thesis using writes_push [of "[COMBINE_TYPE TYPE_BOOLEAN ?v]"]
      by (intro codes_scalar [of v d "[COMBINE_TYPE TYPE_BOOLEAN ?v]" "UBool x"])
        (unfold e, simp_all only: LBool same_bool wb_boolean_def lval.case list.distinct not_False_eq_True)
  next
    case (LInt x)
    have "reads (unpack_one (Suc n)) (COMBINE_TYPE TYPE_NUMBER (int (fst (enc_int x))) # snd (enc_int x)) (UInt x)" for n
      using reads_map [OF reads_integer [of x], of UInt] enc_int_cookie [of x]
      by (intro reads_one) (simp_all add: push_value_def types)
    from this show ?thesis using writes_integer [of x]
      by (intro codes_scalar [of v d "COMBINE_TYPE TYPE_NUMBER (int (fst (enc_int x))) # snd (enc_int x)" "UInt x"])
        (unfold e, simp_all add: LInt same_int)
  next
    case (LReal x)
    have "reads (unpack_one (Suc n)) (COMBINE_TYPE TYPE_NUMBER (int TYPE_NUMBER_REAL) # le_bytes 8 (unat x)) (UReal x)" for n
      using reads_map [OF reads_real [of x], of UReal]
      by (intro reads_one) (simp_all add: push_value_def types cookies)
    then show ?thesis using writes_number [of TYPE_NUMBER_REAL "le_bytes 8 (unat x)"]
      by (intro codes_scalar [of v d "COMBINE_TYPE TYPE_NUMBER (int TYPE_NUMBER_REAL) # le_bytes 8 (unat x)" "UReal x"])
        (unfold e, simp_all add: LReal same_real wb_real_def)
  next
    case (LPtr x)
    have "COMBINE_TYPE TYPE_USERDATA 0 = of_nat TYPE_USERDATA" by (simp add: COMBINE_TYPE_def)
    then have "reads (unpack_one (Suc n)) (of_nat TYPE_USERDATA # le_bytes 8 (unat x)) (UPtr x)" for n
      using reads_map [OF reads_pointer [of x], of UPtr] reads_one [of n TYPE_USERDATA 0 "le_bytes 8 (unat x)" "UPtr x"]
      by (simp add: push_value_def types)
    from this show ?thesis using writes_bind [OF writes_push [of "[of_nat TYPE_USERDATA]"] writes_push [of "le_bytes 8 (unat x)"]]
      by (intro codes_scalar [of v d "of_nat TYPE_USERDATA # le_bytes 8 (unat x)" "UPtr x"])
        (unfold e, simp_all add: LPtr same_ptr wb_pointer_def)
  next
    case (LStr s)
    then have s: "length s < 2 ^ 31" using p by (simp add: fits_def)
    show ?thesis using s writes_string [of s] reads_string [OF s]
      by (intro codes_scalar [of v d "enc_string s" "UStr s"])
        (unfold e, simp_all add: LStr same_str c_len_small enc_string_def)
  next
    case (LOther s)
    then show ?thesis using p by (simp add: fits_def)
  qed
qed

subsection \<open>Reading any buffer\<close>

text \<open>A reader that stays in the buffer: it returns a value or an error, \<open>m\<close> bytes or more further.\<close>

definition in_buffer :: "nat \<Rightarrow> read_block \<Rightarrow> ('a \<times> read_block) res \<Rightarrow> bool" where
  "in_buffer m rb r \<longleftrightarrow>
     (case r of Ret (u, rb') \<Rightarrow> rb_ok rb' \<and> rb_len rb' + int m \<le> rb_len rb | Raise e \<Rightarrow> True | _ \<Rightarrow> False)"

named_theorems stays \<open>readers that stay in the buffer\<close>

lemma in_buffer_ret [stays]: "rb_ok rb \<Longrightarrow> in_buffer 0 rb (Ret (u, rb))"
  by (simp add: in_buffer_def)

lemma in_buffer_raise [stays]: "in_buffer m rb (Raise e)" "in_buffer m rb (invalid_stream rb')"
  by (simp_all add: in_buffer_def invalid_stream_def)

lemma in_buffer_bind:
  assumes "in_buffer m rb r" and "\<And>x rb'. r = Ret (x, rb') \<Longrightarrow> rb_ok rb' \<Longrightarrow> rb_len rb' + int m \<le> rb_len rb \<Longrightarrow> in_buffer n rb' (g x rb')"
  shows "in_buffer (m + n) rb (rbind r (\<lambda>(x, rb'). g x rb'))"
proof (cases r)
  case (Ret p)
  obtain x rb' where p: "p = (x, rb')" by (cases p)
  have k: "rb_ok rb'" "rb_len rb' + int m \<le> rb_len rb" using assms(1) by (simp_all add: Ret p in_buffer_def)
  have "in_buffer n rb' (g x rb')" using assms(2) Ret p k by simp
  then show ?thesis using k by (auto simp: Ret p in_buffer_def split: res.splits prod.splits)
qed (use assms(1) in \<open>simp_all add: in_buffer_def\<close>)

lemma in_buffer_bind0:
  assumes "in_buffer m rb r" and "\<And>x rb'. r = Ret (x, rb') \<Longrightarrow> rb_ok rb' \<Longrightarrow> rb_len rb' + int m \<le> rb_len rb \<Longrightarrow> in_buffer 0 rb' (g x rb')"
  shows "in_buffer m rb (rbind r (\<lambda>(x, rb'). g x rb'))"
  using in_buffer_bind [OF assms] by simp

lemma in_buffer_weaken: "in_buffer m rb r \<Longrightarrow> n \<le> m \<Longrightarrow> in_buffer n rb r"
  by (auto simp: in_buffer_def split: res.splits)

lemma read_bytes_stays [stays]: "rb_ok rb \<Longrightarrow> in_buffer m rb (read_bytes rb (int m))"
  by (auto simp: read_bytes_def rb_read_def bytes_at_def in_buffer_def rb_ok_def invalid_stream_def)

lemma get_buffer_stays [stays]: "rb_ok rb \<Longrightarrow> in_buffer 0 rb (get_buffer rb n)"
  by (auto simp: get_buffer_def rb_read_def bytes_at_def in_buffer_def rb_ok_def invalid_stream_def)

lemma read_then_stays:
  assumes "rb_ok rb" and "\<And>bs rb'. rb_ok rb' \<Longrightarrow> in_buffer 0 rb' (g bs rb')"
  shows "in_buffer 0 rb (rbind (read_bytes rb (int m)) (\<lambda>(bs, rb). g bs rb))"
  using in_buffer_weaken [OF in_buffer_bind0 [OF read_bytes_stays [OF assms(1), of m]]] assms(2) by blast

lemmas read_number_stays = read_then_stays [of _ "\<lambda>bs rb. Ret (h (le_val bs), rb)" for h, OF _ in_buffer_ret]

lemma get_integer_stays [stays]: "rb_ok rb \<Longrightarrow> in_buffer 0 rb (get_integer rb c)"
  using read_number_stays [where m = 1] read_number_stays [where m = 2] read_number_stays [where m = 4]
    read_number_stays [where m = 8]
  by (auto simp: get_integer_def intro: stays)

lemma get_number_stays [stays]:
  "rb_ok rb \<Longrightarrow> in_buffer 0 rb (get_real rb)" "rb_ok rb \<Longrightarrow> in_buffer 0 rb (get_pointer rb)"
  using read_number_stays [where m = 8] by (auto simp: get_real_def get_pointer_def)

lemma get_long_string_stays [stays]: "rb_ok rb \<Longrightarrow> in_buffer 0 rb (get_long_string rb c)"
  using read_then_stays [where m = 2, OF _ get_buffer_stays] read_then_stays [where m = 4, OF _ get_buffer_stays]
  by (auto simp: get_long_string_def intro: stays)

lemma get_array_size_stays [stays]: "rb_ok rb \<Longrightarrow> in_buffer 0 rb (get_array_size rb c)"
proof -
  assume rb: "rb_ok rb"
  have "in_buffer 0 rb' (let type = unat (hd bs); cookie = type div 8 in
          if type mod 8 \<noteq> TYPE_NUMBER \<or> cookie = TYPE_NUMBER_REAL then invalid_stream rb'
          else rbind (get_integer rb' cookie) (\<lambda>(x, rb). Ret (sint (ucast x :: i32), rb)))" if "rb_ok rb'" for bs rb'
    by (auto simp: Let_def intro!: stays that in_buffer_bind0)
  from read_then_stays [OF rb this, where m = 1] show ?thesis
    using rb by (auto simp: get_array_size_def intro: stays)
qed

text \<open>With its fuel, a reader of values stays in a buffer of less than \<open>N\<close> bytes.\<close>

definition reader_ok :: "reader \<Rightarrow> nat \<Rightarrow> bool" where
  "reader_ok f N \<longleftrightarrow> (\<forall>rb. rb_ok rb \<longrightarrow> rb_len rb < int N \<longrightarrow> in_buffer 1 rb (f rb))"

lemma reader_okD: "reader_ok f N \<Longrightarrow> rb_ok rb \<Longrightarrow> rb_len rb < int N \<Longrightarrow> in_buffer 1 rb (f rb)"
  by (simp add: reader_ok_def)

lemma unpack_hash_stays:
  assumes "reader_ok f N"
  shows "rb_ok rb \<Longrightarrow> rb_len rb < int N \<Longrightarrow> rb_len rb < int n \<Longrightarrow> in_buffer 0 rb (unpack_hash f n rb es)"
proof (induction n arbitrary: rb es)
  case 0
  then show ?case by (simp add: rb_ok_def)
next
  case (Suc n)
  have value_stays: "in_buffer 0 rb' (rbind (f rb') (\<lambda>(v, rb'). if is_nan k then Raise NaNIndex else unpack_hash f n rb' (es @ [(k, v)])))"
    if "rb_ok rb'" "rb_len rb' + 1 \<le> rb_len rb" for k rb'
    using Suc.prems that
    by (intro in_buffer_weaken [OF in_buffer_bind0 [OF reader_okD [OF assms]]])
      (auto intro!: stays Suc.IH)
  show ?case unfolding unpack_hash.simps
    by (intro in_buffer_weaken [OF in_buffer_bind0 [OF reader_okD [OF assms Suc.prems(1,2)]]])
      (auto intro: stays value_stays)
qed

lemma unpack_array_stays:
  assumes "reader_ok f N"
  shows "rb_ok rb \<Longrightarrow> rb_len rb < int N \<Longrightarrow> rb_len rb < int n \<Longrightarrow> in_buffer 0 rb (unpack_array f n rb i m es)"
proof (induction n arbitrary: rb es i)
  case 0
  then show ?case by (simp add: rb_ok_def)
next
  case (Suc n)
  show ?case
  proof (cases "i \<le> m")
    case True
    then show ?thesis
      using Suc.prems by (auto intro!: in_buffer_weaken [OF in_buffer_bind0 [OF reader_okD [OF assms]]] Suc.IH)
  next
    case False
    then show ?thesis using Suc.prems by (auto intro: unpack_hash_stays [OF assms] simp del: unpack_hash.simps)
  qed
qed

lemma push_value_stays:
  assumes "reader_ok f N" and "rb_ok rb" and "rb_len rb < int N"
  shows "in_buffer 0 rb (push_value f rb type cookie)"
proof -
  have "in_buffer 0 rb (unpack_table f rb cookie)"
    unfolding unpack_table_def using assms
    by (intro in_buffer_bind0 [OF get_array_size_stays]) (auto intro: unpack_array_stays [OF assms(1)] simp del: unpack_array.simps)
  then show ?thesis
    using assms(2) by (auto simp: push_value_def intro!: stays in_buffer_bind0)
qed

lemma unpack_one_stays: "reader_ok (unpack_one n) n"
proof (induction n)
  case 0
  then show ?case by (simp add: reader_ok_def rb_ok_def)
next
  case (Suc n)
  show ?case unfolding reader_ok_def unpack_one.simps
  proof (intro allI impI)
    fix rb assume rb: "rb_ok rb" "rb_len rb < int (Suc n)"
    have "in_buffer 1 rb (read_bytes rb 1)" using read_bytes_stays [OF rb(1), of 1] by simp
    then show "in_buffer 1 rb (rbind (read_bytes rb 1)
        (\<lambda>(bs, rb). push_value (unpack_one n) rb (unat (hd bs) mod 8) (unat (hd bs) div 8)))"
      by (rule in_buffer_bind0) (use rb(2) in \<open>auto intro: push_value_stays [OF Suc.IH]\<close>)
  qed
qed

lemma unpack_loop_stays:
  "rb_ok rb \<Longrightarrow> rb_len rb < int n \<Longrightarrow> unpack_loop n rb vs \<noteq> Undef \<and> unpack_loop n rb vs \<noteq> Loop"
proof (induction n arbitrary: rb vs)
  case 0
  then show ?case by (simp add: rb_ok_def)
next
  case (Suc n)
  show ?case
  proof (cases "rb_len rb < 1")
    case True
    then show ?thesis by (simp add: rb_read_def)
  next
    case False
    let ?rb = "rb\<lparr>rb_ptr := rb_ptr rb + 1, rb_len := rb_len rb - 1\<rparr>"
    have rb': "rb_ok ?rb" "rb_len ?rb < int n" using False Suc.prems by (simp_all add: rb_ok_def)
    obtain bs where bs: "bytes_at ?rb (rb_ptr rb) 1 = Ret bs"
      using False Suc.prems by (simp add: bytes_at_def rb_ok_def)
    have "in_buffer 0 ?rb (push_value (unpack_one (Suc n)) ?rb (unat (hd bs) mod 8) (unat (hd bs) div 8))"
      by (rule push_value_stays [OF unpack_one_stays]) (use rb' in simp_all)
    then show ?thesis
      using False bs rb'(2)
      by (auto simp: rb_read_def in_buffer_def intro!: Suc.IH split: res.splits)
  qed
qed

lemma unpack_loop_reads:
  assumes "list_all2 (\<lambda>v p. codes v d (fst p) (snd p)) vs ps" and "rb_at rb (concat (map fst ps))" and "rb_len rb < int n"
  shows "unpack_loop n rb us = Ret (us @ map snd ps)"
  using assms
proof (induction arbitrary: rb us n rule: list_all2_induct)
  case Nil
  then obtain n' where "n = Suc n'" by (cases n) (auto dest: rb_at_len)
  with Nil show ?case by (simp add: rb_read_def rb_at_len [OF Nil(1)])
next
  case (Cons v vs p ps)
  obtain n' where n: "n = Suc n'" using Cons.prems by (cases n) (auto dest: rb_at_len)
  have c: "reads (unpack_one (Suc n)) (fst p) (snd p)" "fst p \<noteq> []"
    using Cons.hyps(1) Cons.prems rb_at_len [OF Cons.prems(1)] by (auto simp: codes_def)
  then obtain rb' where rb': "unpack_one (Suc n) rb = Ret (snd p, rb')" "rb_at rb' (concat (map fst ps))"
    using Cons.prems(1) unfolding reads_def by fastforce
  have len: "1 \<le> rb_len rb" "rb_len rb' < int n'"
    using rb_at_len [OF Cons.prems(1)] rb_at_len [OF rb'(2)] c(2) Cons.prems(2) n by (cases "fst p"; simp)+
  have ok: "0 \<le> rb_ptr rb" "rb_ptr rb + rb_len rb = int (length (rb_buffer rb))"
    using Cons.prems(1) by (simp_all add: rb_at_def rb_ok_def)
  have "unpack_loop n rb us = unpack_loop n' rb' (us @ [snd p])"
    using rb'(1) len(1) ok unfolding n
    by (auto simp: unpack_one.simps read_bytes_def rb_read_def bytes_at_def)
  then show ?case using Cons.IH [OF rb'(2) len(2), of "us @ [snd p]"] by simp
qed

subsection \<open>Packing and unpacking\<close>

lemma list_all2_codes_writes:
  "list_all2 (\<lambda>v p. codes v d (fst p) (snd p)) vs ps \<Longrightarrow> writes (\<lambda>b. pack_list b vs d) (concat (map fst ps))"
  by (rule writes_list) (auto simp: codes_def elim: list_all2_mono)

lemma luaseri_pack_writes:
  assumes "writes (\<lambda>b. pack_list b vs 0) bytes"
  shows "luaseri_pack vs = Ret (map Some bytes)"
proof -
  obtain b where "pack_list wb_init vs 0 = Ret b" "wb_holds b bytes"
    using assms wb_holds_init unfolding writes_def by fastforce
  then show ?thesis by (simp add: luaseri_pack_def seri_ok)
qed

text \<open>
  Property C24. Packing any list of values that fit and unpacking the bytes returns the same values, in the
  same order, with every assignment of every table.
\<close>
theorem seri_roundtrip:
  assumes "list_all (\<lambda>v. packable v 0) vs"
  shows "\<exists>bytes us. luaseri_pack vs = Ret (map Some bytes) \<and> luaseri_unpack bytes = Ret us \<and> list_all2 same_value vs us"
proof -
  obtain ps where ps: "list_all2 (\<lambda>v p. codes v 0 (fst p) (snd p)) vs ps"
    by (rule codes_list) (use assms pack_codes in \<open>auto simp: list_all_iff\<close>)
  let ?bytes = "concat (map fst ps)"
  have "luaseri_pack vs = Ret (map Some ?bytes)"
    by (rule luaseri_pack_writes [OF list_all2_codes_writes [OF ps]])
  moreover have "luaseri_unpack ?bytes = Ret (map snd ps)"
    using unpack_loop_reads [OF ps rb_at_init, of "length ?bytes + 1" "[]"]
    by (simp add: luaseri_unpack_def rball_init_def del: unpack_loop.simps)
  moreover have "list_all2 same_value vs (map snd ps)"
    unfolding list_all2_map2 using ps by (rule list_all2_mono) (simp add: codes_def)
  ultimately show ?thesis by blast
qed

theorem seri_roundtrip_witness:
  "\<exists>bytes us. luaseri_pack [LInt 300, LTable 1 [(LInt 1, LBool True), (LStr [97], LReal 0)]] = Ret (map Some bytes) \<and>
     luaseri_unpack bytes = Ret us \<and>
     list_all2 same_value [LInt 300, LTable 1 [(LInt 1, LBool True), (LStr [97], LReal 0)]] us"
proof (rule seri_roundtrip)
  have r: "raw_get [(LInt 1, LBool True), (LStr [97], LReal 0)] 1 = LBool True" by (simp add: raw_get_def)
  have "c_len 1 = 1" by (simp add: c_len_small)
  then have a: "array_part 1 [(LInt 1, LBool True), (LStr [97], LReal 0)] = [LBool True]"
    "hash_part 1 [(LInt 1, LBool True), (LStr [97], LReal 0)] = [(LStr [97], LReal 0)]"
    by (simp_all add: parts r hash_key_def)
  have "packable (LInt 300) 0" by (simp add: packable_def packs_with.simps fits_def)
  moreover have "packable (LTable 1 [(LInt 1, LBool True), (LStr [97], LReal 0)]) 0"
    unfolding packable_def packs_with.simps [of _ _ "LTable _ _"]
    by (simp add: a [unfolded One_nat_def] fits_def) (simp add: packs_with.simps fits_def key_ok_def MAX_DEPTH_def)
  ultimately show "list_all (\<lambda>v. packable v 0) [LInt 300, LTable 1 [(LInt 1, LBool True), (LStr [97], LReal 0)]]" by simp
qed

text \<open>
  Packing returns a buffer with every byte written exactly when no value has an unsupported type
  or is nested more than \<open>MAX_DEPTH\<close> deep; otherwise it raises the error that says so. It never leaves its blocks.
\<close>
theorem seri_pack_total:
  "if list_all (\<lambda>v. supported v 0) vs then \<exists>bytes. luaseri_pack vs = Ret (map Some bytes)
   else \<exists>e. luaseri_pack vs = Raise e \<and> pack_error e"
proof -
  have "packing (\<lambda>b. pack_list b vs 0) (list_all (\<lambda>v. supported v 0) vs)"
    by (rule packing_list) (simp add: pack_one_supported)
  then have "if list_all (\<lambda>v. supported v 0) vs then \<exists>b bytes. pack_list wb_init vs 0 = Ret b \<and> wb_holds b bytes
      else \<exists>e. pack_list wb_init vs 0 = Raise e \<and> pack_error e"
    using wb_holds_init unfolding packing_def by (metis append_Nil)
  then show ?thesis by (auto simp: luaseri_pack_def seri_ok split: if_splits)
qed

text \<open>
  Property C25. Unpacking any buffer, well formed or not, ends, with values or an error, and never reads outside
  of the buffer.
\<close>
theorem luaseri_unpack_returns: "luaseri_unpack buffer \<noteq> Undef \<and> luaseri_unpack buffer \<noteq> Loop"
  unfolding luaseri_unpack_def
  by (rule unpack_loop_stays) (simp_all add: rball_init_def rb_ok_def)

text \<open>
  The recursion of the reader is as deep as the buffer is long: one byte opens a table and the
  next one its first key, so \<open>n\<close> levels are not enough for \<open>n\<close> bytes. Nothing bounds it, as \<open>MAX_DEPTH\<close> bounds
  the writer.
\<close>
theorem seri_unpack_depth:
  "unpack_one n (rball_init (replicate n (COMBINE_TYPE TYPE_TABLE 0)) (int n)) = Loop"
proof -
  have "unpack_one n rb = Loop" if "rb_at rb (replicate n (COMBINE_TYPE TYPE_TABLE 0))" for rb
    using that
  proof (induction n arbitrary: rb)
    case 0
    then show ?case by (simp add: unpack_one.simps)
  next
    case (Suc n)
    then obtain rb' where rb': "read_bytes rb 1 = Ret ([COMBINE_TYPE TYPE_TABLE 0], rb')"
      "rb_at rb' (replicate n (COMBINE_TYPE TYPE_TABLE 0))" using read_byte_at by (metis replicate_Suc)
    have "unpack_one n rb' = Loop" by (rule Suc.IH [OF rb'(2)])
    then show ?case
      using rb'(1) combine_type [of TYPE_TABLE 0]
      by (simp add: unpack_one.simps push_value_def unpack_table_def get_array_size_def types MAX_COOKIE_def)
  qed
  then show ?thesis using rb_at_init [of "replicate n (COMBINE_TYPE TYPE_TABLE 0)"] by simp
qed

end
