(* ===== verification/Os.thy ===== *)
theory Os
  imports Prelude
begin

section \<open>The operating system under the socket layer (skynet-src/socket_epoll.h)\<close>

text \<open>
  \<open>socket_server.c\<close> talks to the kernel: sockets, \<open>epoll\<close>, name resolution. None of that is part of
  the program, so it is a parameter: a record \<open>kernel\<close> with one function per call, which answers
  from the history of all calls made so far and the arguments. Every behaviour of the kernel is such a
  record; the theorems hold for all of them, or state what they expect as a hypothesis. The history is
  also the model's observable output: what was written to which descriptor, which descriptors were
  closed, which buffers were freed. \<open>EAGAIN\<close> and \<open>EWOULDBLOCK\<close> are one error, as on Linux.
\<close>

datatype errno = EINTR | EAGAIN | EINPROGRESS | EMFILE | ENFILE | Errno int

text \<open>Addresses as \<open>union sockaddr_all\<close> holds them: port and address are bytes in network order.\<close>

datatype sockaddr = V4 "u8 list" "u8 list" | V6 "u8 list" "u8 list" | OtherFamily int

text \<open>An event of \<open>epoll_wait\<close>: the pointer registered with the descriptor and the four flags.\<close>

record epoll_event =
  ep_ptr :: "nat option"
  EPOLLIN :: bool
  EPOLLOUT :: bool
  EPOLLERR :: bool
  EPOLLHUP :: bool

datatype sys =
  Write int "u8 list" "errno + nat"
| Sendto int "u8 list" sockaddr "errno + nat"
| Read int nat "errno + u8 list"
| Recvfrom int "errno + u8 list \<times> sockaddr"
| Accept int "errno + int \<times> sockaddr"
| Close int
| OpenSocket int "errno + int"
| Connect int sockaddr "errno option"
| Bind int sockaddr bool
| Listen int int bool
| ReuseAddr int bool
| Getaddrinfo "u8 list" int "u8 list + sockaddr list"
| SoError int "errno + errno option"
| Peername int "errno + sockaddr"
| Sockname int "errno + sockaddr"
| Keepalive int
| Nonblocking int
| Setsockopt int int int
| EpollAdd int "nat option" bool
| EpollDel int
| EpollMod int "nat option" bool
| EpollWait "errno + epoll_event list"
| Free nat
| ObjectFree nat

record kernel =
  k_write :: "sys list \<Rightarrow> int \<Rightarrow> u8 list \<Rightarrow> errno + nat"
  k_sendto :: "sys list \<Rightarrow> int \<Rightarrow> u8 list \<Rightarrow> sockaddr \<Rightarrow> errno + nat"
  k_read :: "sys list \<Rightarrow> int \<Rightarrow> nat \<Rightarrow> errno + u8 list"
  k_recvfrom :: "sys list \<Rightarrow> int \<Rightarrow> errno + u8 list \<times> sockaddr"
  k_accept :: "sys list \<Rightarrow> int \<Rightarrow> errno + int \<times> sockaddr"
  k_socket :: "sys list \<Rightarrow> int \<Rightarrow> errno + int"
  k_connect :: "sys list \<Rightarrow> int \<Rightarrow> sockaddr \<Rightarrow> errno option"
  k_bind :: "sys list \<Rightarrow> int \<Rightarrow> sockaddr \<Rightarrow> bool"
  k_listen :: "sys list \<Rightarrow> int \<Rightarrow> bool"
  k_reuse :: "sys list \<Rightarrow> int \<Rightarrow> bool"
  k_getaddrinfo :: "sys list \<Rightarrow> u8 list \<Rightarrow> int \<Rightarrow> u8 list + sockaddr list"
  k_so_error :: "sys list \<Rightarrow> int \<Rightarrow> errno + errno option"
  k_getpeername :: "sys list \<Rightarrow> int \<Rightarrow> errno + sockaddr"
  k_getsockname :: "sys list \<Rightarrow> int \<Rightarrow> errno + sockaddr"
  k_epoll_add :: "sys list \<Rightarrow> int \<Rightarrow> errno option"
  k_epoll_wait :: "sys list \<Rightarrow> nat \<Rightarrow> errno + epoll_event list"
  k_select :: "sys list \<Rightarrow> bool"
  k_inet_ntop :: "sockaddr \<Rightarrow> u8 list option"
  k_strerror :: "errno \<Rightarrow> u8 list"

text \<open>\<open>AF_INET\<close> and \<open>AF_INET6\<close> of an address.\<close>

definition AF_INET :: int where "AF_INET = 2"
definition AF_INET6 :: int where "AF_INET6 = 10"

fun family_of :: "sockaddr \<Rightarrow> int" where
  "family_of (V4 _ _) = AF_INET"
| "family_of (V6 _ _) = AF_INET6"
| "family_of (OtherFamily f) = f"

subsection \<open>The wrapper around epoll\<close>

text \<open>\<open>struct event\<close> of \<open>socket_poll.h\<close>; a socket is its slot, NULL is the control pipe.\<close>

record poll_event =
  e_s :: "nat option"
  e_read :: bool
  e_write :: bool
  e_error :: bool
  e_eof :: bool

text \<open>\<open>sp_add\<close> returns whether it failed (with \<open>errno\<close>), with the extended history.\<close>

definition sp_add :: "kernel \<Rightarrow> sys list \<Rightarrow> int \<Rightarrow> nat option \<Rightarrow> errno option \<times> sys list" where
  "sp_add K h fd ud = (let r = k_epoll_add K h fd in (r, h @ [EpollAdd fd ud (r = None)]))"

definition sp_del :: "sys list \<Rightarrow> int \<Rightarrow> sys list" where
  "sp_del h fd = h @ [EpollDel fd]"

definition sp_write :: "sys list \<Rightarrow> int \<Rightarrow> nat option \<Rightarrow> bool \<Rightarrow> sys list" where
  "sp_write h fd ud enable = h @ [EpollMod fd ud enable]"

definition sp_event :: "epoll_event \<Rightarrow> poll_event" where
  "sp_event ev = \<lparr>e_s = ep_ptr ev, e_read = (EPOLLIN ev \<or> EPOLLHUP ev), e_write = EPOLLOUT ev,
     e_error = EPOLLERR ev, e_eof = False\<rparr>"

definition sp_wait :: "kernel \<Rightarrow> sys list \<Rightarrow> nat \<Rightarrow> (errno + poll_event list) \<times> sys list" where
  "sp_wait K h n = (let r = k_epoll_wait K h n in (map_sum id (map sp_event) r, h @ [EpollWait r]))"

definition sp_nonblocking :: "sys list \<Rightarrow> int \<Rightarrow> sys list" where
  "sp_nonblocking h fd = h @ [Nonblocking fd]"

subsection \<open>What a history says\<close>

text \<open>The bytes that went out on a descriptor, and the number of bytes a call took.\<close>

definition taken :: "u8 list \<Rightarrow> errno + nat \<Rightarrow> u8 list" where
  "taken xs r = (case r of Inl _ \<Rightarrow> [] | Inr n \<Rightarrow> take n xs)"

fun written1 :: "int \<Rightarrow> sys \<Rightarrow> u8 list" where
  "written1 fd (Write f xs r) = (if f = fd then taken xs r else [])"
| "written1 fd _ = []"

definition written :: "int \<Rightarrow> sys list \<Rightarrow> u8 list" where
  "written fd h = concat (map (written1 fd) h)"

lemma written_simps [simp]:
  "written fd [] = []" "written fd (h @ h') = written fd h @ written fd h'"
  "written fd [x] = written1 fd x"
  by (simp_all add: written_def)

text \<open>\<open>write\<close> takes at most what it is given.\<close>

definition write_bounded :: "kernel \<Rightarrow> bool" where
  "write_bounded K \<longleftrightarrow> (\<forall>h fd xs n. k_write K h fd xs = Inr n \<longrightarrow> n \<le> length xs)"

text \<open>A call that is interrupted is repeated: \<open>write\<close> is not interrupted forever.\<close>

definition write_answers :: "kernel \<Rightarrow> bool" where
  "write_answers K \<longleftrightarrow> (\<forall>h fd xs. \<exists>n. k_write K (h @ replicate n (Write fd xs (Inl EINTR))) fd xs \<noteq> Inl EINTR)"

end
