(* ===== verification/Socket.thy ===== *)
theory Socket
  imports Os Format
begin

section \<open>Sockets and their write buffers (skynet-src/socket_server.c)\<close>

text \<open>
  The data of the socket server and the operations on one socket: the table of slots and its ids, the
  two lists of write buffers of a socket, direct writes, closing. A socket is addressed by the index of
  its slot; a list of write buffers is a HOL list (the tail pointer of \<open>struct wb_list\<close> is its last
  element). Ids keep their 32 bits and \<open>sending\<close> its two halves. The spin lock of a socket is a flag,
  and a \<open>struct socket_lock\<close> is its count; a lock that another thread holds makes \<open>socket_lock\<close> spin,
  which is the value \<open>None\<close>, as is a failed \<open>assert\<close>. The counters of bytes are integers.

  The functions of the control thread and the requests of the other threads are in the theory
  \<open>SocketServer\<close>.
\<close>

subsection \<open>Data\<close>

definition MAX_SOCKET_P :: nat where "MAX_SOCKET_P = 16"
definition MAX_SOCKET :: nat where "MAX_SOCKET = 65536"
definition MIN_READ_BUFFER :: int where "MIN_READ_BUFFER = 64"
definition MAX_INFO :: nat where "MAX_INFO = 128"
definition UDP_ADDRESS_SIZE :: nat where "UDP_ADDRESS_SIZE = 19"
definition WARNING_SIZE :: int where "WARNING_SIZE = 1048576"

datatype socket_type =
  SOCKET_TYPE_INVALID | SOCKET_TYPE_RESERVE | SOCKET_TYPE_PLISTEN | SOCKET_TYPE_LISTEN
| SOCKET_TYPE_CONNECTING | SOCKET_TYPE_CONNECTED | SOCKET_TYPE_HALFCLOSE | SOCKET_TYPE_PACCEPT
| SOCKET_TYPE_BIND

datatype protocol = PROTOCOL_TCP | PROTOCOL_UDP | PROTOCOL_UDPv6 | PROTOCOL_UNKNOWN

fun protocol_byte :: "protocol \<Rightarrow> u8" where
  "protocol_byte PROTOCOL_TCP = 0"
| "protocol_byte PROTOCOL_UDP = 1"
| "protocol_byte PROTOCOL_UDPv6 = 2"
| "protocol_byte PROTOCOL_UNKNOWN = 255"

datatype priority = PRIORITY_HIGH | PRIORITY_LOW

text \<open>What the poll function returns; \<open>R_IGNORE\<close> is -1.\<close>

datatype socket_report =
  R_IGNORE | SOCKET_DATA | SOCKET_CLOSE | SOCKET_OPEN | SOCKET_ACCEPT | SOCKET_ERR | SOCKET_EXIT
| SOCKET_UDP | SOCKET_WARNING

definition HASH_ID :: "i32 \<Rightarrow> nat" where "HASH_ID i = unat i mod MAX_SOCKET"
definition ID_TAG16 :: "i32 \<Rightarrow> u32" where "ID_TAG16 i = drop_bit MAX_SOCKET_P i AND 0xffff"

text \<open>A buffer to send: its address and the bytes there. A user object (size below 0) is read through
  the functions of \<open>struct socket_object_interface\<close>.\<close>

record sbuf =
  b_ptr :: nat
  b_bytes :: "u8 list"

record socket_object_interface =
  soi_buffer :: "nat \<Rightarrow> nat"
  soi_bytes :: "nat \<Rightarrow> u8 list"
  soi_size :: "nat \<Rightarrow> int"

record send_object =
  so_buffer :: nat
  so_bytes :: "u8 list"
  so_sz :: int
  so_user :: bool

record write_buffer =
  wb_buffer :: nat
  wb_ptr :: nat
  wb_bytes :: "u8 list"
  wb_sz :: int
  wb_userobject :: bool
  wb_udp_address :: "u8 list"

record socket_stat =
  st_rtime :: u64
  st_wtime :: u64
  st_read :: u64
  st_write :: u64

text \<open>The union \<open>p\<close>: the size of the next read, or the default peer of a UDP socket.\<close>

datatype sock_p = PSize int | PAddress "u8 list"

record sock =
  s_opaque :: u64
  s_high :: "write_buffer list"
  s_low :: "write_buffer list"
  s_wb_size :: int
  s_stat :: socket_stat
  s_sending :: u32
  s_fd :: int
  s_id :: i32
  s_protocol :: protocol
  s_type :: socket_type
  s_udpconnecting :: u16
  s_warn_size :: int
  s_p :: sock_p
  s_dw_lock :: bool
  s_dw_offset :: nat
  s_dw_buffer :: "sbuf option"
  s_dw_size :: int

text \<open>The requests in the control pipe, one constructor per letter, and the length byte in front. The
  host name of an open request is the bytes up to its NUL.\<close>

datatype request =
  ReqS i32 u64
| ReqB i32 int u64
| ReqL i32 int u64
| ReqK i32 bool u64
| ReqO i32 int u64 "u8 list"
| ReqX
| ReqD i32 int sbuf
| ReqP i32 int sbuf
| ReqA i32 int sbuf "u8 list"
| ReqC i32 "u8 list"
| ReqT i32 int int
| ReqU i32 int int u64

type_synonym packet = "u8 \<times> request"

text \<open>\<open>struct socket_server\<close>, with the control pipe and the history of kernel calls.\<close>

record socket_server =
  ss_time :: u64
  ss_recvctrl_fd :: int
  ss_sendctrl_fd :: int
  ss_checkctrl :: bool
  ss_event_fd :: int
  ss_alloc_id :: i32
  ss_event_n :: nat
  ss_event_index :: nat
  ss_soi :: "socket_object_interface option"
  ss_ev :: "poll_event list"
  ss_slot :: "nat \<Rightarrow> sock"
  ss_buffer :: "u8 list"
  ss_pipe :: "packet list"
  ss_sys :: "sys list"

text \<open>\<open>struct socket_message\<close>: \<open>data\<close> is NULL, a string that is not freed, or a new buffer.\<close>

datatype sdata = DNull | DStr "u8 list" | DBuf "u8 list"

record socket_result =
  r_id :: i32
  r_opaque :: u64
  r_ud :: int
  r_data :: sdata

definition answer :: "i32 \<Rightarrow> u64 \<Rightarrow> int \<Rightarrow> sdata \<Rightarrow> socket_result" where
  "answer i opaque ud d = \<lparr>r_id = i, r_opaque = opaque, r_ud = ud, r_data = d\<rparr>"

subsection \<open>Access\<close>

definition put_slot :: "nat \<Rightarrow> sock \<Rightarrow> socket_server \<Rightarrow> socket_server" where
  "put_slot h s ss = ss\<lparr>ss_slot := (ss_slot ss)(h := s)\<rparr>"

definition on_sys :: "(sys list \<Rightarrow> sys list) \<Rightarrow> socket_server \<Rightarrow> socket_server" where
  "on_sys f ss = ss\<lparr>ss_sys := f (ss_sys ss)\<rparr>"

definition call_sys :: "sys \<Rightarrow> socket_server \<Rightarrow> socket_server" where
  "call_sys c ss = ss\<lparr>ss_sys := ss_sys ss @ [c]\<rparr>"

fun wb_list :: "priority \<Rightarrow> sock \<Rightarrow> write_buffer list" where
  "wb_list PRIORITY_HIGH s = s_high s"
| "wb_list PRIORITY_LOW s = s_low s"

fun put_list :: "priority \<Rightarrow> write_buffer list \<Rightarrow> sock \<Rightarrow> sock" where
  "put_list PRIORITY_HIGH xs s = s\<lparr>s_high := xs\<rparr>"
| "put_list PRIORITY_LOW xs s = s\<lparr>s_low := xs\<rparr>"

subsection \<open>Locks\<close>

definition socket_lock :: "nat \<Rightarrow> nat \<Rightarrow> socket_server \<Rightarrow> (nat \<times> socket_server) option" where
  "socket_lock h count ss =
     (if count = 0 then
        if s_dw_lock (ss_slot ss h) then None
        else Some (1, put_slot h ((ss_slot ss h)\<lparr>s_dw_lock := True\<rparr>) ss)
      else Some (count + 1, ss))"

definition socket_trylock :: "nat \<Rightarrow> nat \<Rightarrow> socket_server \<Rightarrow> (nat \<times> socket_server) option" where
  "socket_trylock h count ss =
     (if count = 0 then
        if s_dw_lock (ss_slot ss h) then None
        else Some (1, put_slot h ((ss_slot ss h)\<lparr>s_dw_lock := True\<rparr>) ss)
      else Some (count + 1, ss))"

definition socket_unlock :: "nat \<Rightarrow> nat \<Rightarrow> socket_server \<Rightarrow> (nat \<times> socket_server) option" where
  "socket_unlock h count ss =
     (if count = 0 then None
      else if count = 1 then Some (0, put_slot h ((ss_slot ss h)\<lparr>s_dw_lock := False\<rparr>) ss)
      else Some (count - 1, ss))"

subsection \<open>Buffers\<close>

definition send_object_init :: "socket_server \<Rightarrow> sbuf \<Rightarrow> int \<Rightarrow> send_object option" where
  "send_object_init ss buf sz =
     (if sz < 0 then do {
        soi \<leftarrow> ss_soi ss;
        Some \<lparr>so_buffer = soi_buffer soi (b_ptr buf), so_bytes = soi_bytes soi (b_ptr buf),
          so_sz = soi_size soi (b_ptr buf), so_user = True\<rparr> }
      else Some \<lparr>so_buffer = b_ptr buf, so_bytes = b_bytes buf, so_sz = sz, so_user = False\<rparr>)"

definition free_func :: "bool \<Rightarrow> nat \<Rightarrow> socket_server \<Rightarrow> socket_server" where
  "free_func user p = call_sys (if user then ObjectFree p else Free p)"

definition write_buffer_free :: "write_buffer \<Rightarrow> socket_server \<Rightarrow> socket_server" where
  "write_buffer_free wb = free_func (wb_userobject wb) (wb_buffer wb)"

fun free_buffers :: "write_buffer list \<Rightarrow> socket_server \<Rightarrow> socket_server" where
  "free_buffers [] ss = ss"
| "free_buffers (wb # wbs) ss = free_buffers wbs (write_buffer_free wb ss)"

definition free_wb_list :: "priority \<Rightarrow> nat \<Rightarrow> socket_server \<Rightarrow> socket_server" where
  "free_wb_list p h ss =
     (let ss' = free_buffers (wb_list p (ss_slot ss h)) ss
      in put_slot h (put_list p [] (ss_slot ss' h)) ss')"

definition free_buffer :: "sbuf \<Rightarrow> int \<Rightarrow> socket_server \<Rightarrow> socket_server option" where
  "free_buffer buf sz ss = do {
     so \<leftarrow> send_object_init ss buf sz;
     Some (free_func (so_user so) (b_ptr buf) ss) }"

definition force_close :: "nat \<Rightarrow> nat \<Rightarrow> socket_server \<Rightarrow> (socket_server \<times> socket_result) option" where
  "force_close h l ss =
     (let s = ss_slot ss h; res = answer (s_id s) (s_opaque s) 0 DNull in
      if s_type s = SOCKET_TYPE_INVALID then Some (ss, res)
      else do {
        c_assert (s_type s \<noteq> SOCKET_TYPE_RESERVE);
        let ss1 = free_wb_list PRIORITY_LOW h (free_wb_list PRIORITY_HIGH h ss);
        let ss2 = (if s_type s \<noteq> SOCKET_TYPE_PACCEPT \<and> s_type s \<noteq> SOCKET_TYPE_PLISTEN
                   then on_sys (\<lambda>hist. sp_del hist (s_fd s)) ss1 else ss1);
        (l1, ss3) \<leftarrow> socket_lock h l ss2;
        let ss4 = (if s_type s \<noteq> SOCKET_TYPE_BIND then call_sys (Close (s_fd s)) ss3 else ss3);
        let ss5 = put_slot h ((ss_slot ss4 h)\<lparr>s_type := SOCKET_TYPE_INVALID\<rparr>) ss4;
        ss6 \<leftarrow> (case s_dw_buffer s of
                  None \<Rightarrow> Some ss5
                | Some buf \<Rightarrow> do {
                    ss' \<leftarrow> free_buffer buf (s_dw_size s) ss5;
                    Some (put_slot h ((ss_slot ss' h)\<lparr>s_dw_buffer := None\<rparr>) ss') });
        (_, ss7) \<leftarrow> socket_unlock h l1 ss6;
        Some (ss7, res) })"

subsection \<open>Slots\<close>

text \<open>\<open>reserve_id\<close> tries \<open>MAX_SOCKET\<close> consecutive ids. The compare-and-swap succeeds, as no other
  thread runs between the test and it.\<close>

fun reserve_loop :: "nat \<Rightarrow> socket_server \<Rightarrow> i32 \<times> socket_server" where
  "reserve_loop 0 ss = (- 1, ss)"
| "reserve_loop (Suc n) ss =
     (let i = ss_alloc_id ss + 1;
          i' = (if sint i < 0 then i AND 0x7fffffff else i);
          ss1 = ss\<lparr>ss_alloc_id := i'\<rparr>;
          s = ss_slot ss (HASH_ID i')
      in if s_type s = SOCKET_TYPE_INVALID then
           (i', put_slot (HASH_ID i') (s\<lparr>s_type := SOCKET_TYPE_RESERVE, s_id := i',
              s_protocol := PROTOCOL_UNKNOWN, s_udpconnecting := 0, s_fd := - 1\<rparr>) ss1)
         else reserve_loop n ss1)"

definition reserve_id :: "socket_server \<Rightarrow> i32 \<times> socket_server" where
  "reserve_id = reserve_loop MAX_SOCKET"

text \<open>\<open>new_fd\<close> returns the slot, or NULL when the descriptor cannot be watched.\<close>

definition new_fd :: "kernel \<Rightarrow> i32 \<Rightarrow> int \<Rightarrow> protocol \<Rightarrow> u64 \<Rightarrow> bool \<Rightarrow> socket_server \<Rightarrow>
    (nat option \<times> socket_server) option" where
  "new_fd K i fd prot opaque add ss =
     (let h = HASH_ID i; s = ss_slot ss h in do {
        c_assert (s_type s = SOCKET_TYPE_RESERVE);
        let r = (if add then sp_add K (ss_sys ss) fd (Some h) else (None, ss_sys ss));
        let ss1 = ss\<lparr>ss_sys := snd r\<rparr>;
        if fst r \<noteq> None then Some (None, put_slot h (s\<lparr>s_type := SOCKET_TYPE_INVALID\<rparr>) ss1)
        else do {
          c_assert (s_high s = []);
          c_assert (s_low s = []);
          Some (Some h, put_slot h (s\<lparr>s_id := i, s_fd := fd, s_sending := push_bit 16 (ID_TAG16 i) OR 0,
            s_protocol := prot, s_p := PSize MIN_READ_BUFFER, s_opaque := opaque, s_wb_size := 0,
            s_warn_size := 0, s_dw_buffer := None, s_dw_size := 0,
            s_stat := \<lparr>st_rtime = 0, st_wtime = 0, st_read = 0, st_write = 0\<rparr>\<rparr>) ss1) } })"

definition stat_read :: "u64 \<Rightarrow> int \<Rightarrow> sock \<Rightarrow> sock" where
  "stat_read now n s = s\<lparr>s_stat := (s_stat s)\<lparr>st_read := st_read (s_stat s) + of_int n, st_rtime := now\<rparr>\<rparr>"

definition stat_write :: "u64 \<Rightarrow> int \<Rightarrow> sock \<Rightarrow> sock" where
  "stat_write now n s = s\<lparr>s_stat := (s_stat s)\<lparr>st_write := st_write (s_stat s) + of_int n, st_wtime := now\<rparr>\<rparr>"

subsection \<open>Sending the lists\<close>

text \<open>The bytes a call to \<open>write\<close> reads.\<close>

definition bytes_at :: "u8 list \<Rightarrow> int \<Rightarrow> u8 list option" where
  "bytes_at bs sz = (if sz < 0 then None else mem_read bs (nat sz))"

text \<open>A TCP list: an interrupted \<open>write\<close> is repeated, a full socket ends the loop, an error closes
  the socket.\<close>

partial_function (option) send_list_tcp ::
  "kernel \<Rightarrow> priority \<Rightarrow> nat \<Rightarrow> nat \<Rightarrow> socket_server \<Rightarrow> socket_result \<Rightarrow> (socket_report \<times> socket_server \<times> socket_result) option"
where
  "send_list_tcp K p h l ss res =
     (case wb_list p (ss_slot ss h) of
        [] \<Rightarrow> Some (R_IGNORE, ss, res)
      | tmp # rest \<Rightarrow> do {
          bs \<leftarrow> bytes_at (wb_bytes tmp) (wb_sz tmp);
          let s = ss_slot ss h;
          let r = k_write K (ss_sys ss) (s_fd s) bs;
          let ss1 = call_sys (Write (s_fd s) bs r) ss;
          (case r of
             Inl e \<Rightarrow>
               if e = EINTR then send_list_tcp K p h l ss1 res
               else if e = EAGAIN then Some (R_IGNORE, ss1, res)
               else do { (ss2, res') \<leftarrow> force_close h l ss1; Some (SOCKET_CLOSE, ss2, res') }
           | Inr n \<Rightarrow>
               (let s1 = stat_write (ss_time ss) (int n) s;
                    s2 = s1\<lparr>s_wb_size := s_wb_size s1 - int n\<rparr>
                in if int n \<noteq> wb_sz tmp then
                     Some (R_IGNORE, put_slot h (put_list p (tmp\<lparr>wb_ptr := wb_ptr tmp + n,
                       wb_bytes := drop n (wb_bytes tmp), wb_sz := wb_sz tmp - int n\<rparr> # rest) s2) ss1, res)
                   else send_list_tcp K p h l (write_buffer_free tmp (put_slot h (put_list p rest s2) ss1)) res)) })"

text \<open>A UDP address in its wire form: type, port, address. \<open>udp_socket_address\<close> returns 0 (\<open>None\<close>)
  when it is not of the socket's protocol.\<close>

definition udp_socket_address :: "sock \<Rightarrow> u8 list \<Rightarrow> sockaddr option option" where
  "udp_socket_address s a = do {
     ty \<leftarrow> nth_at a 0;
     if ty \<noteq> protocol_byte (s_protocol s) then Some None
     else case s_protocol s of
       PROTOCOL_UDP \<Rightarrow> do { b \<leftarrow> mem_read (drop 1 a) 6; Some (Some (V4 (take 2 b) (drop 2 b))) }
     | PROTOCOL_UDPv6 \<Rightarrow> do { b \<leftarrow> mem_read (drop 1 a) 18; Some (Some (V6 (take 2 b) (drop 2 b))) }
     | _ \<Rightarrow> Some None }"

definition drop_udp :: "priority \<Rightarrow> nat \<Rightarrow> write_buffer \<Rightarrow> write_buffer list \<Rightarrow> socket_server \<Rightarrow> socket_server" where
  "drop_udp p h tmp rest ss =
     (let s = ss_slot ss h
      in write_buffer_free tmp (put_slot h (put_list p rest (s\<lparr>s_wb_size := s_wb_size s - wb_sz tmp\<rparr>)) ss))"

text \<open>A UDP list: a packet that cannot be sent is dropped, one that would block stays. Each turn
  takes the head off the list.\<close>

function send_list_udp :: "kernel \<Rightarrow> priority \<Rightarrow> nat \<Rightarrow> socket_server \<Rightarrow> socket_server option" where
  "send_list_udp K p h ss =
     (case wb_list p (ss_slot ss h) of
        [] \<Rightarrow> Some ss
      | tmp # rest \<Rightarrow> do {
          let s = ss_slot ss h;
          sa \<leftarrow> udp_socket_address s (wb_udp_address tmp);
          (case sa of
             None \<Rightarrow> Some (drop_udp p h tmp rest ss)
           | Some a \<Rightarrow> do {
               bs \<leftarrow> bytes_at (wb_bytes tmp) (wb_sz tmp);
               let r = k_sendto K (ss_sys ss) (s_fd s) bs a;
               let ss1 = call_sys (Sendto (s_fd s) bs a r) ss;
               (case r of
                  Inl e \<Rightarrow> if e = EINTR \<or> e = EAGAIN then Some ss1 else Some (drop_udp p h tmp rest ss1)
                | Inr n \<Rightarrow>
                    (let s1 = stat_write (ss_time ss) (wb_sz tmp) s
                     in send_list_udp K p h (write_buffer_free tmp
                          (put_slot h (put_list p rest (s1\<lparr>s_wb_size := s_wb_size s1 - wb_sz tmp\<rparr>)) ss1)))) }) })"
  by pat_completeness auto
termination
proof (relation "measure (\<lambda>(K, p, h, ss). length (wb_list p (ss_slot ss h)))", goal_cases)
  case 1
  show ?case by simp
next
  case (2 K p h ss)
  then show ?case
    by (cases p) (auto simp: write_buffer_free_def free_func_def call_sys_def put_slot_def stat_write_def)
qed

declare send_list_udp.simps [simp del]

definition send_list :: "kernel \<Rightarrow> priority \<Rightarrow> nat \<Rightarrow> nat \<Rightarrow> socket_server \<Rightarrow> socket_result \<Rightarrow>
    (socket_report \<times> socket_server \<times> socket_result) option" where
  "send_list K p h l ss res =
     (if s_protocol (ss_slot ss h) = PROTOCOL_TCP then send_list_tcp K p h l ss res
      else do { ss' \<leftarrow> send_list_udp K p h ss; Some (R_IGNORE, ss', res) })"

definition list_uncomplete :: "write_buffer list \<Rightarrow> bool" where
  "list_uncomplete ws = (case ws of [] \<Rightarrow> False | wb # _ \<Rightarrow> wb_ptr wb \<noteq> wb_buffer wb)"

definition raise_uncomplete :: "sock \<Rightarrow> sock option" where
  "raise_uncomplete s = (case s_low s of
     [] \<Rightarrow> None
   | tmp # rest \<Rightarrow> do {
       c_assert (s_high s = []);
       Some (s\<lparr>s_low := rest, s_high := [tmp]\<rparr>) })"

definition send_buffer_empty :: "sock \<Rightarrow> bool" where
  "send_buffer_empty s \<longleftrightarrow> s_high s = [] \<and> s_low s = []"

text \<open>\<open>send_buffer_\<close>: step 4 is a function of its own, reached when both lists are empty.\<close>

definition check_close :: "nat \<Rightarrow> nat \<Rightarrow> socket_server \<Rightarrow> socket_result \<Rightarrow>
    (socket_report \<times> socket_server \<times> socket_result) option" where
  "check_close h l ss res =
     (let s = ss_slot ss h in do {
        c_assert (send_buffer_empty s \<and> s_wb_size s = 0);
        let ss1 = on_sys (\<lambda>hist. sp_write hist (s_fd s) (Some h) False) ss;
        if s_type s = SOCKET_TYPE_HALFCLOSE then do {
          (ss2, res') \<leftarrow> force_close h l ss1;
          Some (SOCKET_CLOSE, ss2, res') }
        else if s_warn_size s > 0 then
          Some (SOCKET_WARNING, put_slot h (s\<lparr>s_warn_size := 0\<rparr>) ss1, answer (s_id s) (s_opaque s) 0 DNull)
        else Some (R_IGNORE, ss1, res) })"

definition send_buffer_lists :: "kernel \<Rightarrow> nat \<Rightarrow> nat \<Rightarrow> socket_server \<Rightarrow> socket_result \<Rightarrow>
    (socket_report \<times> socket_server \<times> socket_result) option" where
  "send_buffer_lists K h l ss res = do {
     c_assert (\<not> list_uncomplete (s_low (ss_slot ss h)));
     (t1, ss1, res1) \<leftarrow> send_list K PRIORITY_HIGH h l ss res;
     if t1 = SOCKET_CLOSE then Some (SOCKET_CLOSE, ss1, res1)
     else if s_high (ss_slot ss1 h) \<noteq> [] then Some (R_IGNORE, ss1, res1)
     else if s_low (ss_slot ss1 h) = [] then check_close h l ss1 res1
     else do {
       (t2, ss2, res2) \<leftarrow> send_list K PRIORITY_LOW h l ss1 res1;
       if t2 = SOCKET_CLOSE then Some (SOCKET_CLOSE, ss2, res2)
       else if list_uncomplete (s_low (ss_slot ss2 h)) then do {
         s \<leftarrow> raise_uncomplete (ss_slot ss2 h);
         Some (R_IGNORE, put_slot h s ss2, res2) }
       else if s_low (ss_slot ss2 h) \<noteq> [] then Some (R_IGNORE, ss2, res2)
       else check_close h l ss2 res2 } }"

text \<open>The rest of a direct write goes in front of the high list first.\<close>

definition take_dw :: "nat \<Rightarrow> socket_server \<Rightarrow> socket_server option" where
  "take_dw h ss =
     (let s = ss_slot ss h in
      case s_dw_buffer s of
        None \<Rightarrow> Some ss
      | Some buf \<Rightarrow> do {
          so \<leftarrow> send_object_init ss buf (s_dw_size s);
          let wb = \<lparr>wb_buffer = b_ptr buf, wb_ptr = so_buffer so + s_dw_offset s,
            wb_bytes = drop (s_dw_offset s) (so_bytes so), wb_sz = so_sz so - int (s_dw_offset s),
            wb_userobject = so_user so, wb_udp_address = []\<rparr>;
          Some (put_slot h (s\<lparr>s_wb_size := s_wb_size s + wb_sz wb, s_high := wb # s_high s, s_dw_buffer := None\<rparr>) ss) })"

definition send_buffer :: "kernel \<Rightarrow> nat \<Rightarrow> nat \<Rightarrow> socket_server \<Rightarrow> socket_result \<Rightarrow>
    (socket_report \<times> socket_server \<times> socket_result) option" where
  "send_buffer K h l ss res =
     (case socket_trylock h l ss of
        None \<Rightarrow> Some (R_IGNORE, ss, res)
      | Some (l1, ss1) \<Rightarrow> do {
          ss2 \<leftarrow> take_dw h ss1;
          (r, ss3, res') \<leftarrow> send_buffer_lists K h l1 ss2 res;
          (_, ss4) \<leftarrow> socket_unlock h l1 ss3;
          Some (r, ss4, res') })"

subsection \<open>Appending\<close>

definition append_sendbuffer_to :: "socket_server \<Rightarrow> sbuf \<Rightarrow> int \<Rightarrow> u8 list \<Rightarrow> priority \<Rightarrow> sock \<Rightarrow> sock option" where
  "append_sendbuffer_to ss buf sz addr p s = do {
     so \<leftarrow> send_object_init ss buf sz;
     let wb = \<lparr>wb_buffer = b_ptr buf, wb_ptr = so_buffer so, wb_bytes = so_bytes so, wb_sz = so_sz so,
       wb_userobject = so_user so, wb_udp_address = addr\<rparr>;
     let s' = put_list p (wb_list p s @ [wb]) s;
     Some (s'\<lparr>s_wb_size := s_wb_size s' + wb_sz wb\<rparr>) }"

definition append_sendbuffer_udp :: "socket_server \<Rightarrow> priority \<Rightarrow> sbuf \<Rightarrow> int \<Rightarrow> u8 list \<Rightarrow> sock \<Rightarrow> sock option" where
  "append_sendbuffer_udp ss p buf sz addr s = append_sendbuffer_to ss buf sz (take UDP_ADDRESS_SIZE addr) p s"

definition append_sendbuffer :: "socket_server \<Rightarrow> sbuf \<Rightarrow> int \<Rightarrow> sock \<Rightarrow> sock option" where
  "append_sendbuffer ss buf sz s = append_sendbuffer_to ss buf sz [] PRIORITY_HIGH s"

definition append_sendbuffer_low :: "socket_server \<Rightarrow> sbuf \<Rightarrow> int \<Rightarrow> sock \<Rightarrow> sock option" where
  "append_sendbuffer_low ss buf sz s = append_sendbuffer_to ss buf sz [] PRIORITY_LOW s"

subsection \<open>The commands of the control thread on one socket\<close>

definition free_request :: "sbuf \<Rightarrow> int \<Rightarrow> socket_server \<Rightarrow> socket_server option" where
  "free_request buf sz ss = do {
     so \<leftarrow> send_object_init ss buf sz;
     Some (free_func (so_user so) (b_ptr buf) ss) }"

text \<open>The warning of \<open>send_socket\<close>: the threshold doubles each time it is reached.\<close>

definition send_warning :: "nat \<Rightarrow> socket_server \<Rightarrow> socket_result \<Rightarrow> socket_report \<times> socket_server \<times> socket_result" where
  "send_warning h ss res =
     (let s = ss_slot ss h in
      if s_wb_size s \<ge> WARNING_SIZE \<and> s_wb_size s \<ge> s_warn_size s then
        (SOCKET_WARNING,
         put_slot h (s\<lparr>s_warn_size := (if s_warn_size s = 0 then WARNING_SIZE * 2 else s_warn_size s * 2)\<rparr>) ss,
         answer (s_id s) (s_opaque s)
           (if s_wb_size s mod 1024 = 0 then s_wb_size s div 1024 else s_wb_size s div 1024 + 1) DNull)
      else (R_IGNORE, ss, res))"

text \<open>A request for a connected socket without anything to send: TCP data goes to the high list, whatever its priority; a UDP
  packet is sent at once.\<close>

definition send_empty :: "kernel \<Rightarrow> nat \<Rightarrow> sbuf \<Rightarrow> int \<Rightarrow> priority \<Rightarrow> u8 list option \<Rightarrow> socket_server \<Rightarrow>
    (bool \<times> socket_server) option" where
  "send_empty K h buf sz p addr ss =
     (let s = ss_slot ss h;
          watch = (\<lambda>s' ss'. on_sys (\<lambda>hist. sp_write hist (s_fd s) (Some h) True) (put_slot h s' ss'))
      in if s_protocol s = PROTOCOL_TCP then do {
           s' \<leftarrow> append_sendbuffer ss buf sz s;
           Some (True, watch s' ss) }
         else do {
           a \<leftarrow> (case addr of Some a \<Rightarrow> Some a
                | None \<Rightarrow> (case s_p s of PAddress a \<Rightarrow> Some a | PSize _ \<Rightarrow> None));
           sa \<leftarrow> udp_socket_address s a;
           so \<leftarrow> send_object_init ss buf sz;
           (case sa of
              None \<Rightarrow> Some (False, free_func (so_user so) (b_ptr buf) ss)
            | Some to \<Rightarrow> do {
                bs \<leftarrow> bytes_at (so_bytes so) (so_sz so);
                let r = k_sendto K (ss_sys ss) (s_fd s) bs to;
                let ss1 = call_sys (Sendto (s_fd s) bs to r) ss;
                if r \<noteq> Inr (nat (so_sz so)) then do {
                  s' \<leftarrow> append_sendbuffer_udp ss1 p buf sz a s;
                  Some (True, watch s' ss1) }
                else Some (False, free_func (so_user so) (b_ptr buf)
                       (put_slot h (stat_write (ss_time ss) (so_sz so) s) ss1)) }) })"

definition send_queued :: "nat \<Rightarrow> sbuf \<Rightarrow> int \<Rightarrow> priority \<Rightarrow> u8 list option \<Rightarrow> socket_server \<Rightarrow> socket_server option" where
  "send_queued h buf sz p addr ss =
     (let s = ss_slot ss h in
      if s_protocol s = PROTOCOL_TCP then do {
        s' \<leftarrow> (if p = PRIORITY_LOW then append_sendbuffer_low ss buf sz s else append_sendbuffer ss buf sz s);
        Some (put_slot h s' ss) }
      else do {
        a \<leftarrow> (case addr of Some a \<Rightarrow> Some a
             | None \<Rightarrow> (case s_p s of PAddress a \<Rightarrow> Some a | PSize _ \<Rightarrow> None));
        s' \<leftarrow> append_sendbuffer_udp ss p buf sz a s;
        Some (put_slot h s' ss) })"

definition send_socket :: "kernel \<Rightarrow> i32 \<Rightarrow> sbuf \<Rightarrow> int \<Rightarrow> priority \<Rightarrow> u8 list option \<Rightarrow> socket_server \<Rightarrow> socket_result \<Rightarrow>
    (socket_report \<times> socket_server \<times> socket_result) option" where
  "send_socket K i buf sz p addr ss res =
     (let h = HASH_ID i; s = ss_slot ss h in
      if s_type s = SOCKET_TYPE_INVALID \<or> s_id s \<noteq> i \<or> s_type s = SOCKET_TYPE_HALFCLOSE \<or>
         s_type s = SOCKET_TYPE_PACCEPT \<or> s_type s = SOCKET_TYPE_PLISTEN \<or> s_type s = SOCKET_TYPE_LISTEN then do {
        ss' \<leftarrow> free_request buf sz ss;
        Some (R_IGNORE, ss', res) }
      else if send_buffer_empty s \<and> s_type s = SOCKET_TYPE_CONNECTED then do {
        (queued, ss') \<leftarrow> send_empty K h buf sz p addr ss;
        Some (if queued then send_warning h ss' res else (R_IGNORE, ss', res)) }
      else do {
        ss' \<leftarrow> send_queued h buf sz p addr ss;
        Some (send_warning h ss' res) })"

definition reach_limit :: "u8 list" where
  "reach_limit = str ''reach skynet socket number limit''"

definition set_type :: "nat \<Rightarrow> socket_type \<Rightarrow> socket_server \<Rightarrow> socket_server" where
  "set_type h ty ss = put_slot h ((ss_slot ss h)\<lparr>s_type := ty\<rparr>) ss"

definition listen_socket :: "kernel \<Rightarrow> i32 \<Rightarrow> int \<Rightarrow> u64 \<Rightarrow> socket_server \<Rightarrow> socket_result \<Rightarrow>
    (socket_report \<times> socket_server \<times> socket_result) option" where
  "listen_socket K i fd opaque ss res = do {
     (s, ss1) \<leftarrow> new_fd K i fd PROTOCOL_TCP opaque False ss;
     (case s of
        None \<Rightarrow> Some (SOCKET_ERR, set_type (HASH_ID i) SOCKET_TYPE_INVALID (call_sys (Close fd) ss1),
                  answer i opaque 0 (DStr reach_limit))
      | Some h \<Rightarrow> Some (R_IGNORE, set_type h SOCKET_TYPE_PLISTEN ss1, res)) }"

definition nomore_sending_data :: "sock \<Rightarrow> bool" where
  "nomore_sending_data s \<longleftrightarrow> send_buffer_empty s \<and> s_dw_buffer s = None \<and> s_sending s AND 0xffff = 0"

definition close_socket :: "kernel \<Rightarrow> i32 \<Rightarrow> bool \<Rightarrow> u64 \<Rightarrow> socket_server \<Rightarrow> socket_result \<Rightarrow>
    (socket_report \<times> socket_server \<times> socket_result) option" where
  "close_socket K i shutdown opaque ss res =
     (let h = HASH_ID i; s = ss_slot ss h in
      if s_type s = SOCKET_TYPE_INVALID \<or> s_id s \<noteq> i then Some (SOCKET_CLOSE, ss, answer i opaque 0 DNull)
      else do {
        (ty, ss1, res1) \<leftarrow> (if nomore_sending_data s then Some (R_IGNORE, ss, res) else send_buffer K h 0 ss res);
        if ty \<noteq> R_IGNORE \<and> ty \<noteq> SOCKET_WARNING then Some (ty, ss1, res1)
        else if shutdown \<or> nomore_sending_data (ss_slot ss1 h) then do {
          (ss2, res2) \<leftarrow> force_close h 0 ss1;
          Some (SOCKET_CLOSE, ss2, res2\<lparr>r_id := i, r_opaque := opaque\<rparr>) }
        else Some (R_IGNORE, set_type h SOCKET_TYPE_HALFCLOSE ss1, res1) })"

definition bind_socket :: "kernel \<Rightarrow> i32 \<Rightarrow> int \<Rightarrow> u64 \<Rightarrow> socket_server \<Rightarrow>
    (socket_report \<times> socket_server \<times> socket_result) option" where
  "bind_socket K i fd opaque ss = do {
     (s, ss1) \<leftarrow> new_fd K i fd PROTOCOL_TCP opaque True ss;
     (case s of
        None \<Rightarrow> Some (SOCKET_ERR, ss1, answer i opaque 0 (DStr reach_limit))
      | Some h \<Rightarrow> Some (SOCKET_OPEN, set_type h SOCKET_TYPE_BIND (on_sys (\<lambda>hist. sp_nonblocking hist fd) ss1),
                    answer i opaque 0 (DStr (str ''binding'')))) }"

definition start_socket :: "kernel \<Rightarrow> i32 \<Rightarrow> u64 \<Rightarrow> socket_server \<Rightarrow>
    (socket_report \<times> socket_server \<times> socket_result) option" where
  "start_socket K i opaque ss =
     (let h = HASH_ID i; s = ss_slot ss h; res = answer i opaque 0 DNull in
      if s_type s = SOCKET_TYPE_INVALID \<or> s_id s \<noteq> i then
        Some (SOCKET_ERR, ss, answer i opaque 0 (DStr (str ''invalid socket'')))
      else if s_type s = SOCKET_TYPE_PACCEPT \<or> s_type s = SOCKET_TYPE_PLISTEN then
        (let r = sp_add K (ss_sys ss) (s_fd s) (Some h); ss1 = ss\<lparr>ss_sys := snd r\<rparr> in
         case fst r of
           Some e \<Rightarrow> do {
             (ss2, res') \<leftarrow> force_close h 0 ss1;
             Some (SOCKET_ERR, ss2, res'\<lparr>r_data := DStr (k_strerror K e)\<rparr>) }
         | None \<Rightarrow> Some (SOCKET_OPEN,
             put_slot h (s\<lparr>s_type := (if s_type s = SOCKET_TYPE_PACCEPT then SOCKET_TYPE_CONNECTED else SOCKET_TYPE_LISTEN),
               s_opaque := opaque\<rparr>) ss1, answer i opaque 0 (DStr (str ''start''))))
      else if s_type s = SOCKET_TYPE_CONNECTED then
        Some (SOCKET_OPEN, put_slot h (s\<lparr>s_opaque := opaque\<rparr>) ss, answer i opaque 0 (DStr (str ''transfer'')))
      else Some (R_IGNORE, ss, res))"

definition setopt_socket :: "i32 \<Rightarrow> int \<Rightarrow> int \<Rightarrow> socket_server \<Rightarrow> socket_server" where
  "setopt_socket i what v ss =
     (let s = ss_slot ss (HASH_ID i) in
      if s_type s = SOCKET_TYPE_INVALID \<or> s_id s \<noteq> i then ss
      else call_sys (Setsockopt (s_fd s) what v) ss)"

definition add_udp_socket :: "kernel \<Rightarrow> i32 \<Rightarrow> int \<Rightarrow> int \<Rightarrow> u64 \<Rightarrow> socket_server \<Rightarrow> socket_server option" where
  "add_udp_socket K i fd family opaque ss = do {
     let prot = (if family = AF_INET6 then PROTOCOL_UDPv6 else PROTOCOL_UDP);
     (s, ss1) \<leftarrow> new_fd K i fd prot opaque True ss;
     (case s of
        None \<Rightarrow> Some (set_type (HASH_ID i) SOCKET_TYPE_INVALID (call_sys (Close fd) ss1))
      | Some h \<Rightarrow> Some (put_slot h ((ss_slot ss1 h)\<lparr>s_type := SOCKET_TYPE_CONNECTED,
                    s_p := PAddress (replicate UDP_ADDRESS_SIZE 0)\<rparr>) ss1)) }"

text \<open>\<open>memcpy\<close> of the first bytes over the stored address.\<close>

definition set_udp_address :: "i32 \<Rightarrow> u8 list \<Rightarrow> socket_server \<Rightarrow> socket_result \<Rightarrow>
    (socket_report \<times> socket_server \<times> socket_result) option" where
  "set_udp_address i addr ss res =
     (let h = HASH_ID i; s = ss_slot ss h in
      if s_type s = SOCKET_TYPE_INVALID \<or> s_id s \<noteq> i then Some (R_IGNORE, ss, res)
      else do {
        ty \<leftarrow> nth_at addr 0;
        if ty \<noteq> protocol_byte (s_protocol s) then
          Some (SOCKET_ERR, ss, answer (s_id s) (s_opaque s) 0 (DStr (str ''protocol mismatch'')))
        else do {
          let n = (if ty = protocol_byte PROTOCOL_UDP then 1 + 2 + 4 else 1 + 2 + 16);
          bs \<leftarrow> mem_read addr n;
          old \<leftarrow> (case s_p s of PAddress a \<Rightarrow> Some a | PSize _ \<Rightarrow> None);
          Some (R_IGNORE, put_slot h (s\<lparr>s_p := PAddress (bs @ drop n old),
            s_udpconnecting := s_udpconnecting s - 1\<rparr>) ss, res) } })"

text \<open>The count of requests in flight. \<open>inc_sending_ref\<close> waits while the count is at its maximum.\<close>

definition inc_sending_ref :: "i32 \<Rightarrow> sock \<Rightarrow> sock option" where
  "inc_sending_ref i s =
     (if s_protocol s \<noteq> PROTOCOL_TCP then Some s
      else if drop_bit 16 (s_sending s) = ID_TAG16 i then
        (if s_sending s AND 0xffff = 0xffff then None else Some (s\<lparr>s_sending := s_sending s + 1\<rparr>))
      else Some s)"

definition dec_sending_ref :: "i32 \<Rightarrow> socket_server \<Rightarrow> socket_server option" where
  "dec_sending_ref i ss =
     (let h = HASH_ID i; s = ss_slot ss h in
      if s_id s = i \<and> s_protocol s = PROTOCOL_TCP then do {
        c_assert (s_sending s AND 0xffff \<noteq> 0);
        Some (put_slot h (s\<lparr>s_sending := s_sending s - 1\<rparr>) ss) }
      else Some ss)"

text \<open>\<open>open_socket\<close>: the addresses of the host are tried in turn.\<close>

fun connect_loop :: "kernel \<Rightarrow> errno \<Rightarrow> sockaddr list \<Rightarrow> sys list \<Rightarrow> (errno + int \<times> bool \<times> sockaddr) \<times> sys list" where
  "connect_loop K e [] hist = (Inl e, hist)"
| "connect_loop K e (a # as) hist =
     (case k_socket K hist (family_of a) of
        Inl e' \<Rightarrow> connect_loop K e' as (hist @ [OpenSocket (family_of a) (Inl e')])
      | Inr fd \<Rightarrow>
          (let h1 = sp_nonblocking (hist @ [OpenSocket (family_of a) (Inr fd), Keepalive fd]) fd;
               r = k_connect K h1 fd a;
               h2 = h1 @ [Connect fd a r]
           in case r of
                None \<Rightarrow> (Inr (fd, True, a), h2)
              | Some e' \<Rightarrow> if e' = EINPROGRESS then (Inr (fd, False, a), h2)
                          else connect_loop K e' as (h2 @ [Close fd])))"

definition open_failed :: "i32 \<Rightarrow> u64 \<Rightarrow> u8 list \<Rightarrow> socket_server \<Rightarrow> socket_report \<times> socket_server \<times> socket_result" where
  "open_failed i opaque err ss =
     (SOCKET_ERR, set_type (HASH_ID i) SOCKET_TYPE_INVALID ss, answer i opaque 0 (DStr err))"

definition open_socket :: "kernel \<Rightarrow> i32 \<Rightarrow> int \<Rightarrow> u64 \<Rightarrow> u8 list \<Rightarrow> socket_server \<Rightarrow>
    (socket_report \<times> socket_server \<times> socket_result) option" where
  "open_socket K i port opaque host ss =
     (let r = k_getaddrinfo K (ss_sys ss) host port;
          ss1 = call_sys (Getaddrinfo host port r) ss
      in case r of
           Inl err \<Rightarrow> Some (open_failed i opaque err ss1)
         | Inr ai_list \<Rightarrow>
             (case connect_loop K (Errno 0) ai_list (ss_sys ss1) of
                (Inl e, hist) \<Rightarrow> Some (open_failed i opaque (k_strerror K e) (ss1\<lparr>ss_sys := hist\<rparr>))
              | (Inr (fd, connected, a), hist) \<Rightarrow> do {
                  (ns, ss2) \<leftarrow> new_fd K i fd PROTOCOL_TCP opaque True (ss1\<lparr>ss_sys := hist\<rparr>);
                  (case ns of
                     None \<Rightarrow> Some (open_failed i opaque reach_limit (call_sys (Close fd) ss2))
                   | Some h \<Rightarrow>
                       if connected then
                         (let ss3 = set_type h SOCKET_TYPE_CONNECTED ss2 in
                          case k_inet_ntop K a of
                            Some name \<Rightarrow> Some (SOCKET_OPEN, ss3\<lparr>ss_buffer := name\<rparr>, answer i opaque 0 (DStr name))
                          | None \<Rightarrow> Some (SOCKET_OPEN, ss3, answer i opaque 0 DNull))
                       else Some (R_IGNORE, on_sys (\<lambda>hist. sp_write hist fd (Some h) True)
                                    (set_type h SOCKET_TYPE_CONNECTING ss2), answer i opaque 0 DNull)) }))"

end
