(* ===== verification/SocketServer.thy ===== *)
theory SocketServer
  imports Socket
begin

section \<open>The socket server (skynet-src/socket_server.c)\<close>

text \<open>
  The control thread of the socket layer: the commands in the control pipe, the events of \<open>epoll\<close>, the
  loop that polls both; and the requests of the other threads, which reserve ids, write directly when a
  socket has nothing queued, and otherwise write a packet into the pipe. A function of the requests is
  one step. The pipe is a list of packets: \<open>write\<close> to it and \<open>read\<close> from it are atomic for packets of
  this size.
\<close>

subsection \<open>Creation and release\<close>

definition MAX_EVENT :: nat where "MAX_EVENT = 64"
definition FD_SETSIZE :: int where "FD_SETSIZE = 1024"

text \<open>\<open>socket_server_create\<close>: \<open>efd\<close> and \<open>fds\<close> are the answers of \<open>epoll_create\<close> and \<open>pipe\<close>, and \<open>mem\<close>
  is what the allocated slots contain.\<close>

definition sp_invalid :: "int \<Rightarrow> bool" where "sp_invalid efd \<longleftrightarrow> efd = - 1"

definition socket_server_create :: "kernel \<Rightarrow> u64 \<Rightarrow> int \<Rightarrow> (int \<times> int) option \<Rightarrow> (nat \<Rightarrow> sock) \<Rightarrow> sys list \<Rightarrow>
    (socket_server option \<times> sys list) option" where
  "socket_server_create K now efd fds mem hist =
     (if sp_invalid efd then Some (None, hist)
      else case fds of
        None \<Rightarrow> Some (None, hist @ [Close efd])
      | Some (fd0, fd1) \<Rightarrow>
          (let (err, hist1) = sp_add K hist fd0 None in
           if err \<noteq> None then Some (None, hist1 @ [Close fd0, Close fd1, Close efd])
           else do {
             c_assert (fd0 < FD_SETSIZE);
             Some (Some \<lparr>ss_time = now, ss_recvctrl_fd = fd0, ss_sendctrl_fd = fd1, ss_checkctrl = True,
               ss_event_fd = efd, ss_alloc_id = 0, ss_event_n = 0, ss_event_index = 0, ss_soi = None,
               ss_ev = [],
               ss_slot = (\<lambda>i. (mem i)\<lparr>s_type := SOCKET_TYPE_INVALID, s_high := [], s_low := [], s_dw_lock := False\<rparr>),
               ss_buffer = [], ss_pipe = [], ss_sys = hist1\<rparr>, hist1) }))"

definition socket_server_updatetime :: "u64 \<Rightarrow> socket_server \<Rightarrow> socket_server" where
  "socket_server_updatetime now ss = ss\<lparr>ss_time := now\<rparr>"

definition socket_server_release :: "socket_server \<Rightarrow> sys list option" where
  "socket_server_release ss = do {
     ss' \<leftarrow> c_for 0 MAX_SOCKET (\<lambda>i ss.
        if s_type (ss_slot ss i) \<noteq> SOCKET_TYPE_RESERVE then do { (ss', _) \<leftarrow> force_close i 0 ss; Some ss' }
        else Some ss) ss;
     Some (ss_sys ss' @ [Close (ss_sendctrl_fd ss'), Close (ss_recvctrl_fd ss'), Close (ss_event_fd ss')]) }"

subsection \<open>The control pipe\<close>

text \<open>Sizes of the request structures; the length byte of a packet counts the bytes behind it.\<close>

definition sizeof_open :: nat where "sizeof_open = 24"
definition offsetof_host :: nat where "offsetof_host = 16"

definition send_request :: "request \<Rightarrow> nat \<Rightarrow> socket_server \<Rightarrow> socket_server" where
  "send_request r len ss = ss\<lparr>ss_pipe := ss_pipe ss @ [(of_nat len, r)]\<rparr>"

text \<open>\<open>select\<close> reports the pipe when it holds a packet; it may fail.\<close>

definition has_cmd :: "kernel \<Rightarrow> socket_server \<Rightarrow> bool" where
  "has_cmd K ss \<longleftrightarrow> ss_pipe ss \<noteq> [] \<and> k_select K (ss_sys ss)"

definition block_readpipe :: "socket_server \<Rightarrow> (packet \<times> socket_server) option" where
  "block_readpipe ss = (case ss_pipe ss of
     [] \<Rightarrow> None
   | p # ps \<Rightarrow> Some (p, ss\<lparr>ss_pipe := ps\<rparr>))"

text \<open>The host name is a string only if its NUL is among the bytes of the packet.\<close>

definition host_of :: "u8 \<Rightarrow> u8 list \<Rightarrow> u8 list option" where
  "host_of len host = (if offsetof_host + length host < unat len then Some host else None)"

definition ctrl_cmd :: "kernel \<Rightarrow> socket_server \<Rightarrow> socket_result \<Rightarrow> (socket_report \<times> socket_server \<times> socket_result) option" where
  "ctrl_cmd K ss res = do {
     ((len, r), ss1) \<leftarrow> block_readpipe ss;
     (case r of
        ReqS i opaque \<Rightarrow> start_socket K i opaque ss1
      | ReqB i fd opaque \<Rightarrow> bind_socket K i fd opaque ss1
      | ReqL i fd opaque \<Rightarrow> listen_socket K i fd opaque ss1 res
      | ReqK i shutdown opaque \<Rightarrow> close_socket K i shutdown opaque ss1 res
      | ReqO i port opaque host \<Rightarrow> do { h \<leftarrow> host_of len host; open_socket K i port opaque h ss1 }
      | ReqX \<Rightarrow> Some (SOCKET_EXIT, ss1, answer 0 0 0 DNull)
      | ReqD i sz buf \<Rightarrow> do {
          (ret, ss2, res') \<leftarrow> send_socket K i buf sz PRIORITY_HIGH None ss1 res;
          ss3 \<leftarrow> dec_sending_ref i ss2;
          Some (ret, ss3, res') }
      | ReqP i sz buf \<Rightarrow> do {
          (ret, ss2, res') \<leftarrow> send_socket K i buf sz PRIORITY_LOW None ss1 res;
          ss3 \<leftarrow> dec_sending_ref i ss2;
          Some (ret, ss3, res') }
      | ReqA i sz buf addr \<Rightarrow> send_socket K i buf sz PRIORITY_HIGH (Some addr) ss1 res
      | ReqC i addr \<Rightarrow> set_udp_address i addr ss1 res
      | ReqT i what v \<Rightarrow> Some (R_IGNORE, setopt_socket i what v ss1, res)
      | ReqU i fd family opaque \<Rightarrow> do {
          ss2 \<leftarrow> add_udp_socket K i fd family opaque ss1;
          Some (R_IGNORE, ss2, res) }) }"

subsection \<open>Events\<close>

definition forward_message_tcp :: "kernel \<Rightarrow> nat \<Rightarrow> socket_server \<Rightarrow> socket_result \<Rightarrow>
    (socket_report \<times> socket_server \<times> socket_result) option" where
  "forward_message_tcp K h ss res =
     (let s = ss_slot ss h in do {
        sz \<leftarrow> (case s_p s of PSize n \<Rightarrow> Some n | PAddress _ \<Rightarrow> None);
        let r = k_read K (ss_sys ss) (s_fd s) (nat sz);
        let ss1 = call_sys (Read (s_fd s) (nat sz) r) ss;
        (case r of
           Inl e \<Rightarrow>
             if e = EINTR \<or> e = EAGAIN then Some (R_IGNORE, ss1, res)
             else do {
               (ss2, res') \<leftarrow> force_close h 0 ss1;
               Some (SOCKET_ERR, ss2, res'\<lparr>r_data := DStr (k_strerror K e)\<rparr>) }
         | Inr bs \<Rightarrow>
             (let n = int (length bs) in
              if n = 0 then do {
                (ss2, res') \<leftarrow> force_close h 0 ss1;
                Some (SOCKET_CLOSE, ss2, res') }
              else if s_type s = SOCKET_TYPE_HALFCLOSE then Some (R_IGNORE, ss1, res)
              else
                (let s1 = stat_read (ss_time ss) n s;
                     s2 = (if n = sz then s1\<lparr>s_p := PSize (sz * 2)\<rparr>
                           else if sz > MIN_READ_BUFFER \<and> n * 2 < sz then s1\<lparr>s_p := PSize (sz div 2)\<rparr>
                           else s1)
                 in Some (SOCKET_DATA, put_slot h s2 ss1, answer (s_id s) (s_opaque s) n (DBuf bs))))) })"

text \<open>\<open>gen_udp_address\<close>: the wire form of an address. The address of another family is not a UDP
  peer.\<close>

fun gen_udp_address :: "protocol \<Rightarrow> sockaddr \<Rightarrow> u8 list option" where
  "gen_udp_address prot (V4 port a) = (if prot = PROTOCOL_UDP then Some (1 # port @ a) else None)"
| "gen_udp_address prot (V6 port a) = (if prot = PROTOCOL_UDPv6 then Some (2 # port @ a) else None)"
| "gen_udp_address prot (OtherFamily _) = None"

definition forward_message_udp :: "kernel \<Rightarrow> nat \<Rightarrow> socket_server \<Rightarrow> socket_result \<Rightarrow>
    (socket_report \<times> socket_server \<times> socket_result) option" where
  "forward_message_udp K h ss res =
     (let s = ss_slot ss h;
          r = k_recvfrom K (ss_sys ss) (s_fd s);
          ss1 = call_sys (Recvfrom (s_fd s) r) ss
      in case r of
           Inl e \<Rightarrow>
             if e = EINTR \<or> e = EAGAIN then Some (R_IGNORE, ss1, res)
             else do {
               (ss2, res') \<leftarrow> force_close h 0 ss1;
               Some (SOCKET_ERR, ss2, res'\<lparr>r_data := DStr (k_strerror K e)\<rparr>) }
         | Inr (bs, sa) \<Rightarrow>
             (let n = int (length bs);
                  ss2 = put_slot h (stat_read (ss_time ss) n s) ss1;
                  prot = (if family_of sa = AF_INET then PROTOCOL_UDP else PROTOCOL_UDPv6)
              in if s_protocol s \<noteq> prot then Some (R_IGNORE, ss2, res)
                 else do {
                   a \<leftarrow> gen_udp_address prot sa;
                   Some (SOCKET_UDP, ss2, answer (s_id s) (s_opaque s) n (DBuf (bs @ a))) }))"

definition report_connect :: "kernel \<Rightarrow> nat \<Rightarrow> socket_server \<Rightarrow> socket_result \<Rightarrow>
    (socket_report \<times> socket_server \<times> socket_result) option" where
  "report_connect K h ss res =
     (let s = ss_slot ss h;
          r = k_so_error K (ss_sys ss) (s_fd s);
          ss1 = call_sys (SoError (s_fd s) r) ss;
          failed = (\<lambda>e. do {
            (ss2, res') \<leftarrow> force_close h 0 ss1;
            Some (SOCKET_ERR, ss2, res'\<lparr>r_data := DStr (k_strerror K e)\<rparr>) })
      in case r of
           Inl e \<Rightarrow> failed e
         | Inr (Some e) \<Rightarrow> failed e
         | Inr None \<Rightarrow>
             (let ss2 = set_type h SOCKET_TYPE_CONNECTED ss1;
                  ss3 = (if nomore_sending_data s then on_sys (\<lambda>hist. sp_write hist (s_fd s) (Some h) False) ss2 else ss2);
                  pr = k_getpeername K (ss_sys ss3) (s_fd s);
                  ss4 = call_sys (Peername (s_fd s) pr) ss3
              in case pr of
                   Inl _ \<Rightarrow> Some (SOCKET_OPEN, ss4, answer (s_id s) (s_opaque s) 0 DNull)
                 | Inr u \<Rightarrow>
                     (case k_inet_ntop K u of
                        None \<Rightarrow> Some (SOCKET_OPEN, ss4, answer (s_id s) (s_opaque s) 0 DNull)
                      | Some name \<Rightarrow> Some (SOCKET_OPEN, ss4\<lparr>ss_buffer := name\<rparr>,
                          answer (s_id s) (s_opaque s) 0 (DStr name)))))"

fun port_bytes :: "sockaddr \<Rightarrow> u8 list" where
  "port_bytes (V4 port _) = port"
| "port_bytes (V6 port _) = port"
| "port_bytes (OtherFamily _) = []"

definition ntohs :: "u8 list \<Rightarrow> nat" where
  "ntohs bs = (case bs of [a, b] \<Rightarrow> unat a * 256 + unat b | _ \<Rightarrow> 0)"

text \<open>\<open>getname\<close>: address and port as text, at most \<open>sz\<close> bytes with the NUL.\<close>

definition getname :: "kernel \<Rightarrow> sockaddr \<Rightarrow> nat \<Rightarrow> u8 list option" where
  "getname K u sz = do {
     tmp \<leftarrow> k_inet_ntop K u;
     Some (take (sz - 1) (tmp @ str '':'' @ fmt_d (of_nat (ntohs (port_bytes u))))) }"

text \<open>\<open>report_accept\<close> returns 0 when there is nothing to report, -1 when out of descriptors, else 1.\<close>

definition report_accept :: "kernel \<Rightarrow> nat \<Rightarrow> socket_server \<Rightarrow> socket_result \<Rightarrow>
    (int \<times> socket_server \<times> socket_result) option" where
  "report_accept K h ss res =
     (let s = ss_slot ss h;
          r = k_accept K (ss_sys ss) (s_fd s);
          ss1 = call_sys (Accept (s_fd s) r) ss
      in case r of
           Inl e \<Rightarrow>
             if e = EMFILE \<or> e = ENFILE
             then Some (- 1, ss1, answer (s_id s) (s_opaque s) 0 (DStr (k_strerror K e)))
             else Some (0, ss1, res)
         | Inr (client_fd, u) \<Rightarrow>
             (let (i, ss2) = reserve_id ss1 in
              if sint i < 0 then Some (0, call_sys (Close client_fd) ss2, res)
              else do {
                let ss3 = on_sys (\<lambda>hist. sp_nonblocking (hist @ [Keepalive client_fd]) client_fd) ss2;
                (ns, ss4) \<leftarrow> new_fd K i client_fd PROTOCOL_TCP (s_opaque s) False ss3;
                (case ns of
                   None \<Rightarrow> Some (0, call_sys (Close client_fd) ss4, res)
                 | Some g \<Rightarrow>
                     (let ss5 = put_slot h (stat_read (ss_time ss4) 1 (ss_slot ss4 h)) ss4;
                          ss6 = set_type g SOCKET_TYPE_PACCEPT ss5;
                          s' = ss_slot ss6 h
                      in case getname K u MAX_INFO of
                           Some name \<Rightarrow> Some (1, ss6\<lparr>ss_buffer := name\<rparr>, answer (s_id s') (s_opaque s') (sint i) (DStr name))
                         | None \<Rightarrow> Some (1, ss6\<lparr>ss_buffer := []\<rparr>, answer (s_id s') (s_opaque s') (sint i) DNull))) }))"

subsection \<open>The poll loop\<close>

text \<open>The events still to be handled do not mention a socket that was just closed.\<close>

fun clear_events :: "socket_server \<Rightarrow> i32 \<Rightarrow> poll_event list \<Rightarrow> poll_event list" where
  "clear_events ss i [] = []"
| "clear_events ss i (e # es) =
     (case e_s e of
        None \<Rightarrow> e # clear_events ss i es
      | Some h \<Rightarrow>
          if s_type (ss_slot ss h) = SOCKET_TYPE_INVALID \<and> s_id (ss_slot ss h) = i
          then e\<lparr>e_s := None\<rparr> # es else e # clear_events ss i es)"

definition clear_closed_event :: "socket_report \<Rightarrow> socket_result \<Rightarrow> socket_server \<Rightarrow> socket_server" where
  "clear_closed_event ty res ss =
     (if ty = SOCKET_CLOSE \<or> ty = SOCKET_ERR then
        ss\<lparr>ss_ev := take (ss_event_index ss) (ss_ev ss) @ clear_events ss (r_id res) (drop (ss_event_index ss) (ss_ev ss))\<rparr>
      else ss)"

text \<open>One turn of the loop either returns a report (\<open>Inl\<close>) or goes on (\<open>Inr\<close>).\<close>

type_synonym poll_state = "socket_server \<times> socket_result \<times> bool"
type_synonym turn = "(socket_report \<times> poll_state) + poll_state"

definition return_type :: "socket_report \<Rightarrow> poll_state \<Rightarrow> turn" where
  "return_type ty st = (if ty = R_IGNORE then Inr st else Inl (ty, st))"

text \<open>The default case of the switch: data to read, then data to write, then errors.\<close>

definition set_ev :: "nat \<Rightarrow> poll_event \<Rightarrow> socket_server \<Rightarrow> socket_server" where
  "set_ev i e ss = ss\<lparr>ss_ev := (ss_ev ss)[i := e]\<rparr>"

definition poll_read :: "kernel \<Rightarrow> nat \<Rightarrow> poll_event \<Rightarrow> nat \<Rightarrow> poll_state \<Rightarrow> turn option" where
  "poll_read K h e i st =
     (let (ss, res, more) = st; s = ss_slot ss h in do {
        (ty, ss1, res1) \<leftarrow> (if s_protocol s = PROTOCOL_TCP then forward_message_tcp K h ss res
                          else forward_message_udp K h ss res);
        if s_protocol s \<noteq> PROTOCOL_TCP \<and> ty = SOCKET_UDP then
          Some (Inl (SOCKET_UDP, ss1\<lparr>ss_event_index := i\<rparr>, res1, more))
        else do {
          let ss2 = (if e_write e \<and> ty \<noteq> SOCKET_CLOSE \<and> ty \<noteq> SOCKET_ERR
                     then (set_ev i (e\<lparr>e_read := False\<rparr>) ss1)\<lparr>ss_event_index := i\<rparr> else ss1);
          Some (return_type ty (ss2, res1, more)) } })"

definition poll_error :: "kernel \<Rightarrow> nat \<Rightarrow> poll_state \<Rightarrow> turn option" where
  "poll_error K h st =
     (let (ss, res, more) = st; s = ss_slot ss h;
          r = k_so_error K (ss_sys ss) (s_fd s);
          ss1 = call_sys (SoError (s_fd s) r) ss;
          err = (case r of Inl e \<Rightarrow> k_strerror K e | Inr (Some e) \<Rightarrow> k_strerror K e | Inr None \<Rightarrow> str ''Unknown error'')
      in do {
        (ss2, res') \<leftarrow> force_close h 0 ss1;
        Some (Inl (SOCKET_ERR, ss2, res'\<lparr>r_data := DStr err\<rparr>, more)) })"

definition poll_default :: "kernel \<Rightarrow> nat \<Rightarrow> poll_event \<Rightarrow> nat \<Rightarrow> poll_state \<Rightarrow> turn option" where
  "poll_default K h e i st =
     (let (ss, res, more) = st in
      if e_read e then poll_read K h e i st
      else if e_write e then do {
        (ty, ss1, res1) \<leftarrow> send_buffer K h 0 ss res;
        Some (return_type ty (ss1, res1, more)) }
      else if e_error e then poll_error K h st
      else if e_eof e then do {
        (ss1, res1) \<leftarrow> force_close h 0 ss;
        Some (Inl (SOCKET_CLOSE, ss1, res1, more)) }
      else Some (Inr st))"

definition poll_one_event :: "kernel \<Rightarrow> poll_state \<Rightarrow> turn option" where
  "poll_one_event K st =
     (let (ss, res, more) = st; i = ss_event_index ss; ss1 = ss\<lparr>ss_event_index := i + 1\<rparr> in do {
        e \<leftarrow> nth_at (ss_ev ss) i;
        (case e_s e of
           None \<Rightarrow> Some (Inr (ss1, res, more))
         | Some h \<Rightarrow>
             (case s_type (ss_slot ss h) of
                SOCKET_TYPE_CONNECTING \<Rightarrow> do {
                  (ty, ss2, res2) \<leftarrow> report_connect K h ss1 res;
                  Some (Inl (ty, ss2, res2, more)) }
              | SOCKET_TYPE_LISTEN \<Rightarrow> do {
                  (ok, ss2, res2) \<leftarrow> report_accept K h ss1 res;
                  Some (if ok > 0 then Inl (SOCKET_ACCEPT, ss2, res2, more)
                        else if ok < 0 then Inl (SOCKET_ERR, ss2, res2, more)
                        else Inr (ss2, res2, more)) }
              | SOCKET_TYPE_INVALID \<Rightarrow> Some (Inr (ss1, res, more))
              | _ \<Rightarrow> poll_default K h e i (ss1, res, more))) })"

text \<open>\<open>ss_ev\<close> holds the first \<open>event_n\<close> entries of the array. When the events are used up: wait for new ones, and look at the pipe before the next call. The
  error of a failed wait that was not interrupted is -1 for the caller; without a timeout \<open>epoll_wait\<close> does
  not return 0 events.\<close>

definition poll_wait :: "kernel \<Rightarrow> poll_state \<Rightarrow> turn option" where
  "poll_wait K st =
     (let (ss, res, more) = st in
      if ss_event_index ss = ss_event_n ss then
        (let (r, hist) = sp_wait K (ss_sys ss) MAX_EVENT;
             ss1 = ss\<lparr>ss_sys := hist, ss_checkctrl := True, ss_event_index := 0\<rparr>
         in case r of
              Inl e \<Rightarrow> (if e = EINTR then Some (Inr (ss1\<lparr>ss_event_n := 0, ss_ev := []\<rparr>, res, False))
                        else Some (Inl (R_IGNORE, ss1\<lparr>ss_event_n := 0, ss_ev := []\<rparr>, res, False)))
            | Inr evs \<Rightarrow>
                if evs = [] then Some (Inl (R_IGNORE, ss1\<lparr>ss_event_n := 0, ss_ev := []\<rparr>, res, False))
                else poll_one_event K (ss1\<lparr>ss_event_n := length evs, ss_ev := evs\<rparr>, res, False))
      else poll_one_event K st)"

definition poll_turn :: "kernel \<Rightarrow> poll_state \<Rightarrow> turn option" where
  "poll_turn K st =
     (let (ss, res, more) = st in
      if ss_checkctrl ss then
        if has_cmd K ss then do {
          (ty, ss1, res1) \<leftarrow> ctrl_cmd K ss res;
          Some (if ty \<noteq> R_IGNORE then Inl (ty, clear_closed_event ty res1 ss1, res1, more)
                else Inr (ss1, res1, more)) }
        else poll_wait K (ss\<lparr>ss_checkctrl := False\<rparr>, res, more)
      else poll_wait K st)"

partial_function (option) socket_server_poll ::
  "kernel \<Rightarrow> poll_state \<Rightarrow> (socket_report \<times> poll_state) option" where
  "socket_server_poll K st = do {
     r \<leftarrow> poll_turn K st;
     (case r of Inl x \<Rightarrow> Some x | Inr st' \<Rightarrow> socket_server_poll K st') }"

subsection \<open>The requests of the other threads\<close>

text \<open>\<open>open_request\<close> refuses a host name that does not fit into the length byte.\<close>

definition open_request :: "u8 list \<Rightarrow> socket_server \<Rightarrow> (nat \<times> i32) option \<times> socket_server" where
  "open_request addr ss =
     (let len = length addr in
      if len + sizeof_open \<ge> 256 then (None, ss)
      else let (i, ss1) = reserve_id ss in
           if sint i < 0 then (None, ss1) else (Some (len, i), ss1))"

definition socket_server_connect :: "u64 \<Rightarrow> u8 list \<Rightarrow> int \<Rightarrow> socket_server \<Rightarrow> i32 \<times> socket_server" where
  "socket_server_connect opaque addr port ss =
     (case open_request addr ss of
        (None, ss1) \<Rightarrow> (- 1, ss1)
      | (Some (len, i), ss1) \<Rightarrow> (i, send_request (ReqO i port opaque addr) (sizeof_open + len) ss1))"

definition can_direct_write :: "i32 \<Rightarrow> sock \<Rightarrow> bool" where
  "can_direct_write i s \<longleftrightarrow> s_id s = i \<and> nomore_sending_data s \<and> s_type s = SOCKET_TYPE_CONNECTED \<and> s_udpconnecting s = 0"

text \<open>A direct write, with the lock of the socket taken. The result is the value to return.\<close>

definition direct_write :: "kernel \<Rightarrow> i32 \<Rightarrow> sbuf \<Rightarrow> int \<Rightarrow> socket_server \<Rightarrow> (int \<times> socket_server) option" where
  "direct_write K i buf sz ss =
     (let h = HASH_ID i; s = ss_slot ss h in do {
        so \<leftarrow> send_object_init ss buf sz;
        let done_free = (\<lambda>v l ss. do {
          (_, ss') \<leftarrow> socket_unlock h l ss;
          Some (v, free_func (so_user so) (b_ptr buf) ss') });
        to \<leftarrow> (if s_protocol s = PROTOCOL_TCP then Some (Some None)
              else do {
                a \<leftarrow> (case s_p s of PAddress a \<Rightarrow> Some a | PSize _ \<Rightarrow> None);
                sa \<leftarrow> udp_socket_address s a;
                Some (map_option Some sa) });
        (case to of
           None \<Rightarrow> done_free (- 1) 1 ss
         | Some dst \<Rightarrow> do {
             bs \<leftarrow> bytes_at (so_bytes so) (so_sz so);
             let (r, c) = (case dst of
                 None \<Rightarrow> (let r = k_write K (ss_sys ss) (s_fd s) bs in (r, Write (s_fd s) bs r))
               | Some a \<Rightarrow> (let r = k_sendto K (ss_sys ss) (s_fd s) bs a in (r, Sendto (s_fd s) bs a r)));
             let n = (case r of Inl _ \<Rightarrow> 0 | Inr n \<Rightarrow> n);
             let ss1 = put_slot h (stat_write (ss_time ss) (int n) s) (call_sys c ss);
             if int n = so_sz so then done_free 0 1 ss1
             else do {
               let ss2 = on_sys (\<lambda>hist. sp_write hist (s_fd s) (Some h) True)
                 (put_slot h ((ss_slot ss1 h)\<lparr>s_dw_buffer := Some buf, s_dw_size := sz, s_dw_offset := n\<rparr>) ss1);
               (_, ss3) \<leftarrow> socket_unlock h 1 ss2;
               Some (0, ss3) } }) })"

definition send_later :: "(i32 \<Rightarrow> int \<Rightarrow> sbuf \<Rightarrow> request) \<Rightarrow> i32 \<Rightarrow> sbuf \<Rightarrow> int \<Rightarrow> socket_server \<Rightarrow>
    (int \<times> socket_server) option" where
  "send_later req i buf sz ss =
     (let h = HASH_ID i in do {
        s \<leftarrow> inc_sending_ref i (ss_slot ss h);
        Some (0, send_request (req i sz buf) 16 (put_slot h s ss)) })"

text \<open>The second test of \<open>can_direct_write\<close>, after the lock was taken, has the same result as the
  first one here.\<close>

definition socket_server_send :: "kernel \<Rightarrow> i32 \<Rightarrow> sbuf \<Rightarrow> int \<Rightarrow> socket_server \<Rightarrow> (int \<times> socket_server) option" where
  "socket_server_send K i buf sz ss =
     (let h = HASH_ID i; s = ss_slot ss h in
      if s_id s \<noteq> i \<or> s_type s = SOCKET_TYPE_INVALID then do {
        ss' \<leftarrow> free_buffer buf sz ss;
        Some (- 1, ss') }
      else case (if can_direct_write i s then socket_trylock h 0 ss else None) of
        Some (l, ss1) \<Rightarrow>
          if can_direct_write i (ss_slot ss1 h) then direct_write K i buf sz ss1
          else do {
            (_, ss2) \<leftarrow> socket_unlock h l ss1;
            send_later ReqD i buf sz ss2 }
      | None \<Rightarrow> send_later ReqD i buf sz ss)"

definition socket_server_send_lowpriority :: "i32 \<Rightarrow> sbuf \<Rightarrow> int \<Rightarrow> socket_server \<Rightarrow> (int \<times> socket_server) option" where
  "socket_server_send_lowpriority i buf sz ss =
     (let s = ss_slot ss (HASH_ID i) in
      if s_id s \<noteq> i \<or> s_type s = SOCKET_TYPE_INVALID then do {
        ss' \<leftarrow> free_buffer buf sz ss;
        Some (- 1, ss') }
      else send_later ReqP i buf sz ss)"

definition socket_server_exit :: "socket_server \<Rightarrow> socket_server" where
  "socket_server_exit = send_request ReqX 0"

definition socket_server_close :: "u64 \<Rightarrow> i32 \<Rightarrow> socket_server \<Rightarrow> socket_server" where
  "socket_server_close opaque i = send_request (ReqK i False opaque) 16"

definition socket_server_shutdown :: "u64 \<Rightarrow> i32 \<Rightarrow> socket_server \<Rightarrow> socket_server" where
  "socket_server_shutdown opaque i = send_request (ReqK i True opaque) 16"

text \<open>\<open>do_bind\<close> and \<open>do_listen\<close>: the descriptor with its family, or -1 (\<open>None\<close>). An empty or missing host is all
  interfaces.\<close>

definition do_bind :: "kernel \<Rightarrow> u8 list option \<Rightarrow> int \<Rightarrow> sys list \<Rightarrow> ((int \<times> int) option \<times> sys list) option" where
  "do_bind K host port hist =
     (let name = (case host of None \<Rightarrow> str ''0.0.0.0'' | Some x \<Rightarrow> if x = [] then str ''0.0.0.0'' else x);
          r = k_getaddrinfo K hist name port;
          h1 = hist @ [Getaddrinfo name port r]
      in case r of
           Inl _ \<Rightarrow> Some (None, h1)
         | Inr [] \<Rightarrow> None
         | Inr (a # _) \<Rightarrow>
             (let q = k_socket K h1 (family_of a); h2 = h1 @ [OpenSocket (family_of a) q] in
              case q of
                Inl _ \<Rightarrow> Some (None, h2)
              | Inr fd \<Rightarrow>
                  (let ok = k_reuse K h2 fd; h3 = h2 @ [ReuseAddr fd ok] in
                   if \<not> ok then Some (None, h3 @ [Close fd])
                   else (let ok2 = k_bind K h3 fd a; h4 = h3 @ [Bind fd a ok2] in
                         if \<not> ok2 then Some (None, h4 @ [Close fd])
                         else Some (Some (fd, family_of a), h4)))))"

definition do_listen :: "kernel \<Rightarrow> u8 list option \<Rightarrow> int \<Rightarrow> int \<Rightarrow> sys list \<Rightarrow> (int option \<times> sys list) option" where
  "do_listen K host port backlog hist = do {
     (r, h1) \<leftarrow> do_bind K host port hist;
     (case r of
        None \<Rightarrow> Some (None, h1)
      | Some (fd, _) \<Rightarrow>
          (let ok = k_listen K h1 fd; h2 = h1 @ [Listen fd backlog ok] in
           Some (if ok then (Some fd, h2) else (None, h2 @ [Close fd])))) }"

definition socket_server_listen :: "kernel \<Rightarrow> u64 \<Rightarrow> u8 list option \<Rightarrow> int \<Rightarrow> int \<Rightarrow> socket_server \<Rightarrow>
    (i32 \<times> socket_server) option" where
  "socket_server_listen K opaque addr port backlog ss = do {
     (r, hist) \<leftarrow> do_listen K addr port backlog (ss_sys ss);
     let ss1 = ss\<lparr>ss_sys := hist\<rparr>;
     (case r of
        None \<Rightarrow> Some (- 1, ss1)
      | Some fd \<Rightarrow>
          (let (i, ss2) = reserve_id ss1 in
           if sint i < 0 then Some (i, call_sys (Close fd) ss2)
           else Some (i, send_request (ReqL i fd opaque) 16 ss2))) }"

definition socket_server_bind :: "u64 \<Rightarrow> int \<Rightarrow> socket_server \<Rightarrow> i32 \<times> socket_server" where
  "socket_server_bind opaque fd ss =
     (let (i, ss1) = reserve_id ss in
      if sint i < 0 then (- 1, ss1) else (i, send_request (ReqB i fd opaque) 16 ss1))"

definition socket_server_start :: "u64 \<Rightarrow> i32 \<Rightarrow> socket_server \<Rightarrow> socket_server" where
  "socket_server_start opaque i = send_request (ReqS i opaque) 16"

definition TCP_NODELAY :: int where "TCP_NODELAY = 1"

definition socket_server_nodelay :: "i32 \<Rightarrow> socket_server \<Rightarrow> socket_server" where
  "socket_server_nodelay i = send_request (ReqT i TCP_NODELAY 1) 12"

definition socket_server_userobject :: "socket_object_interface \<Rightarrow> socket_server \<Rightarrow> socket_server" where
  "socket_server_userobject soi ss = ss\<lparr>ss_soi := Some soi\<rparr>"

definition socket_server_udp :: "kernel \<Rightarrow> u64 \<Rightarrow> u8 list option \<Rightarrow> int \<Rightarrow> socket_server \<Rightarrow>
    (i32 \<times> socket_server) option" where
  "socket_server_udp K opaque addr port ss = do {
     (r, hist) \<leftarrow> (if port \<noteq> 0 \<or> addr \<noteq> None then do_bind K addr port (ss_sys ss)
        else (let q = k_socket K (ss_sys ss) AF_INET in
              Some (case q of Inl _ \<Rightarrow> None | Inr fd \<Rightarrow> Some (fd, AF_INET), ss_sys ss @ [OpenSocket AF_INET q])));
     let ss1 = ss\<lparr>ss_sys := hist\<rparr>;
     (case r of
        None \<Rightarrow> Some (- 1, ss1)
      | Some (fd, family) \<Rightarrow>
          (let (i, ss2) = reserve_id (on_sys (\<lambda>hist. sp_nonblocking hist fd) ss1) in
           if sint i < 0 then Some (- 1, call_sys (Close fd) ss2)
           else Some (i, send_request (ReqU i fd family opaque) 24 ss2))) }"

text \<open>The size of the wire form of a UDP address, by its type byte.\<close>

definition udp_addrsz :: "u8 list \<Rightarrow> nat option" where
  "udp_addrsz a = (case a of [] \<Rightarrow> None
     | ty # _ \<Rightarrow> if ty = protocol_byte PROTOCOL_UDP then Some (1 + 2 + 4)
                else if ty = protocol_byte PROTOCOL_UDPv6 then Some (1 + 2 + 16) else None)"

definition socket_server_udp_send :: "kernel \<Rightarrow> i32 \<Rightarrow> u8 list \<Rightarrow> sbuf \<Rightarrow> int \<Rightarrow> socket_server \<Rightarrow>
    (int \<times> socket_server) option" where
  "socket_server_udp_send K i addr buf sz ss =
     (let h = HASH_ID i; s = ss_slot ss h;
          later = (\<lambda>ss n. do {
            a \<leftarrow> mem_read addr n;
            Some (0, send_request (ReqA i sz buf a) (16 + n) ss) })
      in if s_id s \<noteq> i \<or> s_type s = SOCKET_TYPE_INVALID then do {
           ss' \<leftarrow> free_buffer buf sz ss;
           Some (- 1, ss') }
         else case udp_addrsz addr of
           None \<Rightarrow> do { ss' \<leftarrow> free_buffer buf sz ss; Some (- 1, ss') }
         | Some n \<Rightarrow>
             (case (if can_direct_write i s then socket_trylock h 0 ss else None) of
                None \<Rightarrow> later ss n
              | Some (l, ss1) \<Rightarrow> do {
                  so \<leftarrow> send_object_init ss1 buf sz;
                  sa \<leftarrow> udp_socket_address s addr;
                  (case sa of
                     None \<Rightarrow> do {
                       (_, ss2) \<leftarrow> socket_unlock h l ss1;
                       Some (- 1, free_func (so_user so) (b_ptr buf) ss2) }
                   | Some a \<Rightarrow> do {
                       bs \<leftarrow> bytes_at (so_bytes so) (so_sz so);
                       let r = k_sendto K (ss_sys ss1) (s_fd s) bs a;
                       let ss2 = call_sys (Sendto (s_fd s) bs a r) ss1;
                       (case r of
                          Inr m \<Rightarrow> do {
                            (_, ss3) \<leftarrow> socket_unlock h l (put_slot h (stat_write (ss_time ss2) (int m) (ss_slot ss2 h)) ss2);
                            Some (0, free_func (so_user so) (b_ptr buf) ss3) }
                        | Inl _ \<Rightarrow> do {
                            (_, ss3) \<leftarrow> socket_unlock h l ss2;
                            later ss3 n }) }) }))"

definition socket_server_udp_connect :: "kernel \<Rightarrow> i32 \<Rightarrow> u8 list \<Rightarrow> int \<Rightarrow> socket_server \<Rightarrow>
    (int \<times> socket_server) option" where
  "socket_server_udp_connect K i addr port ss =
     (let h = HASH_ID i; s = ss_slot ss h in
      if s_id s \<noteq> i \<or> s_type s = SOCKET_TYPE_INVALID then Some (- 1, ss)
      else do {
        (l, ss1) \<leftarrow> socket_lock h 0 ss;
        (_, ss2) \<leftarrow> socket_unlock h l
          (put_slot h ((ss_slot ss1 h)\<lparr>s_udpconnecting := s_udpconnecting s + 1\<rparr>) ss1);
        let r = k_getaddrinfo K (ss_sys ss2) addr port;
        let ss3 = call_sys (Getaddrinfo addr port r) ss2;
        (case r of
           Inl _ \<Rightarrow> Some (- 1, ss3)
         | Inr [] \<Rightarrow> None
         | Inr (a # _) \<Rightarrow>
             (case (if family_of a = AF_INET then Some PROTOCOL_UDP
                    else if family_of a = AF_INET6 then Some PROTOCOL_UDPv6 else None) of
                None \<Rightarrow> Some (- 1, ss3)
              | Some prot \<Rightarrow> do {
                  bs \<leftarrow> gen_udp_address prot a;
                  Some (0, send_request (ReqC i bs) (5 + length bs) ss3) })) })"

definition socket_server_udp_address :: "socket_result \<Rightarrow> (u8 list) option option" where
  "socket_server_udp_address msg = (case r_data msg of
     DBuf bs \<Rightarrow> do {
       ty \<leftarrow> nth_at bs (nat (r_ud msg));
       (case udp_addrsz [ty] of
          None \<Rightarrow> Some None
        | Some n \<Rightarrow> do { a \<leftarrow> mem_read (drop (nat (r_ud msg)) bs) n; Some (Some a) }) }
   | _ \<Rightarrow> None)"

subsection \<open>Querying\<close>

datatype socket_info_type =
  SOCKET_INFO_LISTEN | SOCKET_INFO_TCP | SOCKET_INFO_UDP | SOCKET_INFO_BIND

record socket_info =
  si_id :: i32
  si_type :: socket_info_type
  si_opaque :: u64
  si_read :: u64
  si_write :: u64
  si_rtime :: u64
  si_wtime :: u64
  si_wbuffer :: int
  si_name :: "u8 list option"

text \<open>\<open>query_info\<close> returns 0 (\<open>None\<close>) for a socket that is not in use; the name of a socket whose
  address cannot be read is left as it is.\<close>

definition query_name :: "kernel \<Rightarrow> sys list \<Rightarrow> sock \<Rightarrow> (socket_info_type \<times> u8 list option) option option" where
  "query_name K hist s =
     (let name = map_option (\<lambda>u. case getname K u MAX_INFO of Some n \<Rightarrow> n | None \<Rightarrow> []);
          ok = case_sum (\<lambda>_. None) Some in
      case s_type s of
        SOCKET_TYPE_BIND \<Rightarrow> Some (Some (SOCKET_INFO_BIND, Some []))
      | SOCKET_TYPE_LISTEN \<Rightarrow> Some (Some (SOCKET_INFO_LISTEN, name (ok (k_getsockname K hist (s_fd s)))))
      | SOCKET_TYPE_CONNECTED \<Rightarrow>
          if s_protocol s = PROTOCOL_TCP then
            Some (Some (SOCKET_INFO_TCP, name (ok (k_getpeername K hist (s_fd s)))))
          else (case s_p s of
            PSize _ \<Rightarrow> None
          | PAddress a \<Rightarrow> do {
              sa \<leftarrow> udp_socket_address s a;
              Some (Some (SOCKET_INFO_UDP, name sa)) })
      | _ \<Rightarrow> Some None)"

definition query_info :: "kernel \<Rightarrow> sys list \<Rightarrow> sock \<Rightarrow> socket_info option option" where
  "query_info K hist s = do {
     r \<leftarrow> query_name K hist s;
     Some (map_option (\<lambda>(ty, name). \<lparr>si_id = s_id s, si_type = ty, si_opaque = s_opaque s,
       si_read = st_read (s_stat s), si_write = st_write (s_stat s), si_rtime = st_rtime (s_stat s),
       si_wtime = st_wtime (s_stat s), si_wbuffer = s_wb_size s, si_name = name\<rparr>) r) }"

text \<open>The list is built by putting each socket in front.\<close>

definition socket_server_info :: "kernel \<Rightarrow> socket_server \<Rightarrow> socket_info list option" where
  "socket_server_info K ss =
     c_for 0 MAX_SOCKET (\<lambda>i si. do {
       r \<leftarrow> query_info K (ss_sys ss) (ss_slot ss i);
       Some (case r of None \<Rightarrow> si | Some x \<Rightarrow> x # si) }) []"

end
