(* ===== verification/SocketLists.thy ===== *)
theory SocketLists
  imports SocketServer
begin

section \<open>Sending and closing: what one socket does\<close>

text \<open>
  The lemmas about one socket that safety and ordering rest on. \<open>upd\<close> is a state in which one slot and
  the history have changed; every operation on a socket returns such a state. \<open>adv ws out ws'\<close> says how
  a list of write buffers shrinks while \<open>out\<close> is written: whole buffers leave from the front and the
  head may lose a part. The loop over a TCP list ends for every kernel that does not interrupt \<open>write\<close>
  forever, and does exactly that.
\<close>

subsection \<open>States\<close>

definition upd :: "nat \<Rightarrow> sock \<Rightarrow> sys list \<Rightarrow> socket_server \<Rightarrow> socket_server" where
  "upd h s hist ss = ss\<lparr>ss_slot := (ss_slot ss)(h := s), ss_sys := hist\<rparr>"

lemma upd_simps [simp]:
  "ss_slot (upd h s hist ss) = (ss_slot ss)(h := s)"
  "ss_sys (upd h s hist ss) = hist"
  "ss_time (upd h s hist ss) = ss_time ss"
  "ss_soi (upd h s hist ss) = ss_soi ss"
  "ss_pipe (upd h s hist ss) = ss_pipe ss"
  "ss_alloc_id (upd h s hist ss) = ss_alloc_id ss"
  "ss_ev (upd h s hist ss) = ss_ev ss"
  "ss_event_n (upd h s hist ss) = ss_event_n ss"
  "ss_event_index (upd h s hist ss) = ss_event_index ss"
  "ss_checkctrl (upd h s hist ss) = ss_checkctrl ss"
  "upd h s hist (upd h s1 hist1 ss) = upd h s hist ss"
  by (simp_all add: upd_def)

lemma upd_same: "upd h (ss_slot ss h) (ss_sys ss) ss = ss"
  by (simp add: upd_def)

lemma call_upd: "call_sys c ss = upd h (ss_slot ss h) (ss_sys ss @ [c]) ss"
  by (simp add: call_sys_def upd_def)

lemma on_upd: "on_sys f ss = upd h (ss_slot ss h) (f (ss_sys ss)) ss"
  by (simp add: on_sys_def upd_def)

lemma put_upd: "put_slot h s ss = upd h s (ss_sys ss) ss"
  by (simp add: put_slot_def upd_def)

text \<open>The same, for states that already are of this form.\<close>

lemma upd_norm [simp]:
  "put_slot h s' (upd h s hist ss) = upd h s' hist ss"
  "call_sys c (upd h s hist ss) = upd h s (hist @ [c]) ss"
  "on_sys f (upd h s hist ss) = upd h s (f hist) ss"
  "free_func u a (upd h s hist ss) = upd h s (hist @ [if u then ObjectFree a else Free a]) ss"
  "write_buffer_free wb (upd h s hist ss) =
     upd h s (hist @ [if wb_userobject wb then ObjectFree (wb_buffer wb) else Free (wb_buffer wb)]) ss"
  by (simp_all add: put_slot_def call_sys_def on_sys_def upd_def free_func_def write_buffer_free_def)

lemma put_list_simps [simp]:
  "wb_list p (put_list p xs s) = xs"
  "wb_list PRIORITY_HIGH (put_list PRIORITY_LOW xs s) = s_high s"
  "wb_list PRIORITY_LOW (put_list PRIORITY_HIGH xs s) = s_low s"
  "put_list p xs (put_list p ys s) = put_list p xs s"
  "s_opaque (put_list p xs s) = s_opaque s" "s_wb_size (put_list p xs s) = s_wb_size s"
  "s_stat (put_list p xs s) = s_stat s" "s_sending (put_list p xs s) = s_sending s"
  "s_fd (put_list p xs s) = s_fd s" "s_id (put_list p xs s) = s_id s"
  "s_protocol (put_list p xs s) = s_protocol s" "s_type (put_list p xs s) = s_type s"
  "s_udpconnecting (put_list p xs s) = s_udpconnecting s" "s_warn_size (put_list p xs s) = s_warn_size s"
  "s_p (put_list p xs s) = s_p s" "s_dw_lock (put_list p xs s) = s_dw_lock s"
  "s_dw_offset (put_list p xs s) = s_dw_offset s" "s_dw_buffer (put_list p xs s) = s_dw_buffer s"
  "s_dw_size (put_list p xs s) = s_dw_size s"
  by (cases p; simp)+

subsection \<open>What the history says\<close>

fun registered1 :: "sys \<Rightarrow> (int \<Rightarrow> nat option option) \<Rightarrow> int \<Rightarrow> nat option option" where
  "registered1 (EpollAdd fd ud ok) m = (if ok then m(fd \<mapsto> ud) else m)"
| "registered1 (EpollDel fd) m = m(fd := None)"
| "registered1 (Close fd) m = m(fd := None)"
| "registered1 _ m = m"

text \<open>The descriptors that \<open>epoll\<close> watches, with their pointers.\<close>

definition registered :: "sys list \<Rightarrow> int \<Rightarrow> nat option option" where
  "registered h = fold registered1 h Map.empty"

lemma registered_snoc [simp]: "registered (h @ [c]) = registered1 c (registered h)"
  by (simp add: registered_def)

text \<open>Calls that neither write nor change what is watched.\<close>

fun quiet1 :: "sys \<Rightarrow> bool" where
  "quiet1 (Write _ _ _) = False"
| "quiet1 (EpollAdd _ _ _) = False"
| "quiet1 (EpollDel _) = False"
| "quiet1 (Close _) = False"
| "quiet1 _ = True"

lemma quiet1_reg: "quiet1 c \<Longrightarrow> registered1 c m = m"
  by (cases c) simp_all

lemma quiet1_written: "quiet1 c \<Longrightarrow> written1 fd c = []"
  by (cases c) simp_all

lemma quiet_append:
  assumes "list_all quiet1 cs"
  shows "registered (h @ cs) = registered h" and "written fd (h @ cs) = written fd h"
proof -
  show "registered (h @ cs) = registered h"
    using assms by (induction cs rule: rev_induct) (simp_all add: quiet1_reg flip: append_assoc)
  show "written fd (h @ cs) = written fd h"
    using assms by (induction cs) (simp_all add: quiet1_written written_def)
qed

subsection \<open>Closing\<close>

text \<open>A closed slot.\<close>

definition closed :: "bool \<Rightarrow> sock \<Rightarrow> sock" where
  "closed b s = s\<lparr>s_high := [], s_low := [], s_type := SOCKET_TYPE_INVALID, s_dw_buffer := None, s_dw_lock := b\<rparr>"

definition free_calls :: "write_buffer list \<Rightarrow> sys list" where
  "free_calls = map (\<lambda>wb. if wb_userobject wb then ObjectFree (wb_buffer wb) else Free (wb_buffer wb))"

lemma free_buffers_upd: "free_buffers ws (upd h s hist ss) = upd h s (hist @ free_calls ws) ss"
  by (induction ws arbitrary: hist) (simp_all add: free_calls_def)

lemma free_calls_quiet [simp]: "list_all quiet1 (free_calls ws)"
  by (induction ws) (simp_all add: free_calls_def)

lemma free_wb_list_upd:
  "free_wb_list p h (upd h s hist ss) = upd h (put_list p [] s) (hist @ free_calls (wb_list p s)) ss"
  by (simp add: free_wb_list_def Let_def free_buffers_upd)

text \<open>What \<open>force_close\<close> does to the history.\<close>

definition dw_ok :: "sock \<Rightarrow> bool" where
  "dw_ok s \<longleftrightarrow> (case s_dw_buffer s of None \<Rightarrow> True
     | Some buf \<Rightarrow> int (s_dw_offset s) \<le> s_dw_size s \<and> s_dw_size s \<le> int (length (b_bytes buf)))"

definition close_calls :: "sock \<Rightarrow> sys list" where
  "close_calls s = free_calls (s_high s) @ free_calls (s_low s) @
     (if s_type s \<noteq> SOCKET_TYPE_PACCEPT \<and> s_type s \<noteq> SOCKET_TYPE_PLISTEN then [EpollDel (s_fd s)] else []) @
     (if s_type s \<noteq> SOCKET_TYPE_BIND then [Close (s_fd s)] else []) @
     (case s_dw_buffer s of None \<Rightarrow> [] | Some buf \<Rightarrow> [Free (b_ptr buf)])"

definition active :: "sock \<Rightarrow> bool" where
  "active s \<longleftrightarrow> s_type s \<noteq> SOCKET_TYPE_INVALID \<and> s_type s \<noteq> SOCKET_TYPE_RESERVE"

lemma force_close_upd:
  assumes a: "active s" and d: "dw_ok s" and l: "s_dw_lock s \<longleftrightarrow> 0 < l"
  shows "force_close h l (upd h s hist ss) =
    Some (upd h (closed (0 < l) s) (hist @ close_calls s) ss, answer (s_id s) (s_opaque s) 0 DNull)"
proof (cases "s_dw_buffer s")
  case None
  with a l show ?thesis
    by (cases s; cases "l = 0")
      (simp_all add: force_close_def active_def Let_def free_wb_list_upd socket_lock_def socket_unlock_def sp_del_def
        close_calls_def closed_def)
next
  case (Some buf)
  with d have "\<not> s_dw_size s < 0" by (simp add: dw_ok_def)
  with a l Some show ?thesis
    by (cases s; cases "l = 0")
      (simp_all add: force_close_def active_def Let_def free_wb_list_upd socket_lock_def socket_unlock_def sp_del_def
        close_calls_def closed_def free_buffer_def send_object_init_def)
qed

lemma close_calls_effect:
  shows "written fd (hist @ close_calls s) = written fd hist"
    and "registered (hist @ close_calls s) = (registered hist)(s_fd s := None)"
proof -
  let ?F = "free_calls (s_high s) @ free_calls (s_low s)"
  let ?E = "(if s_type s \<noteq> SOCKET_TYPE_PACCEPT \<and> s_type s \<noteq> SOCKET_TYPE_PLISTEN then [EpollDel (s_fd s)] else []) @
     (if s_type s \<noteq> SOCKET_TYPE_BIND then [Close (s_fd s)] else [])"
  let ?D = "case s_dw_buffer s of None \<Rightarrow> [] | Some buf \<Rightarrow> [Free (b_ptr buf)]"
  have e: "hist @ close_calls s = ((hist @ ?F) @ ?E) @ ?D" by (simp add: close_calls_def)
  have q: "list_all quiet1 ?F" "list_all quiet1 ?D" by (simp_all split: option.split)
  show "written fd (hist @ close_calls s) = written fd hist"
    unfolding e quiet_append(2) [OF q(2)] by (simp add: quiet_append(2) [OF q(1), simplified])
  show "registered (hist @ close_calls s) = (registered hist)(s_fd s := None)"
    unfolding e quiet_append(1) [OF q(2)]
    by (simp add: registered_def quiet_append(1) [OF q(1), unfolded registered_def, simplified])
qed


subsection \<open>Lists of write buffers\<close>

definition wb_ok :: "write_buffer \<Rightarrow> bool" where
  "wb_ok wb \<longleftrightarrow> 0 \<le> wb_sz wb \<and> wb_sz wb \<le> int (length (wb_bytes wb))"

definition wb_data :: "write_buffer \<Rightarrow> u8 list" where
  "wb_data wb = take (nat (wb_sz wb)) (wb_bytes wb)"

definition list_data :: "write_buffer list \<Rightarrow> u8 list" where
  "list_data ws = concat (map wb_data ws)"

definition list_total :: "write_buffer list \<Rightarrow> int" where
  "list_total ws = (\<Sum>wb\<leftarrow>ws. wb_sz wb)"

lemma list_simps [simp]:
  "list_data [] = []" "list_data (wb # ws) = wb_data wb @ list_data ws"
  "list_data (us @ ws) = list_data us @ list_data ws"
  "list_total [] = 0" "list_total (wb # ws) = wb_sz wb + list_total ws"
  "list_total (us @ ws) = list_total us + list_total ws"
  by (simp_all add: list_data_def list_total_def)

lemma bytes_at_ok [simp]: "wb_ok wb \<Longrightarrow> bytes_at (wb_bytes wb) (wb_sz wb) = Some (wb_data wb)"
  by (auto simp: bytes_at_def wb_ok_def wb_data_def mem_read_def nat_le_iff)

lemma wb_data_length [simp]: "wb_ok wb \<Longrightarrow> int (length (wb_data wb)) = wb_sz wb"
  by (auto simp: wb_ok_def wb_data_def min_def nat_le_iff)

definition advance :: "nat \<Rightarrow> write_buffer \<Rightarrow> write_buffer" where
  "advance n wb = wb\<lparr>wb_ptr := wb_ptr wb + n, wb_bytes := drop n (wb_bytes wb), wb_sz := wb_sz wb - int n\<rparr>"

lemma advance_ok: "wb_ok wb \<Longrightarrow> int n \<le> wb_sz wb \<Longrightarrow> wb_ok (advance n wb)"
  by (auto simp: wb_ok_def advance_def)

lemma advance_data:
  assumes "wb_ok wb" and "int n \<le> wb_sz wb"
  shows "wb_data wb = take n (wb_data wb) @ wb_data (advance n wb)"
proof -
  have "wb_data (advance n wb) = drop n (wb_data wb)"
    using assms by (simp add: wb_ok_def advance_def wb_data_def drop_take nat_diff_distrib')
  then show ?thesis by simp
qed

inductive adv :: "write_buffer list \<Rightarrow> u8 list \<Rightarrow> write_buffer list \<Rightarrow> bool" where
  adv_none: "adv ws [] ws"
| adv_all: "adv rest out ws' \<Longrightarrow> adv (wb # rest) (wb_data wb @ out) ws'"
| adv_part: "int n < wb_sz wb \<Longrightarrow> adv (wb # rest) (take n (wb_data wb)) (advance n wb # rest)"

inductive_cases adv_nilE: "adv [] out ws'"

lemma adv_nil: "adv ws out ws' \<Longrightarrow> ws = [] \<longrightarrow> ws' = []"
  by (auto elim: adv_nilE)

lemma adv_ok:
  assumes "adv ws out ws'" and "list_all wb_ok ws"
  shows "list_all wb_ok ws'" and "list_data ws = out @ list_data ws'"
    and "list_total ws = int (length out) + list_total ws'"
  using assms
proof (induction)
  case (adv_part n wb rest)
  { case 1 with adv_part show ?case by (simp add: advance_ok) }
  { case 2 with adv_part have "wb_data wb = take n (wb_data wb) @ wb_data (advance n wb)"
      by (intro advance_data) simp_all
    then show ?case by simp }
  { case 3
    then have l: "int (length (wb_data wb)) = wb_sz wb" by simp
    with adv_part have "n < length (wb_data wb)" by linarith
    with l show ?case by (simp add: advance_def) }
qed simp_all

text \<open>Only the head of a list has lost a part.\<close>

definition complete :: "write_buffer \<Rightarrow> bool" where
  "complete wb \<longleftrightarrow> wb_ptr wb = wb_buffer wb"

lemma adv_complete:
  assumes "adv ws out ws'"
  shows "list_all complete (tl ws) \<Longrightarrow> list_all complete (tl ws')"
  using assms
proof (induction)
  case (adv_all rest out ws' wb)
  have "list_all complete (tl rest)" using adv_all.prems by (cases rest) simp_all
  then show ?case by (rule adv_all.IH)
qed simp_all

text \<open>
  The buffers of a list that went out are whole ones. If the list was not sent in part before, then either
  none is now, or its new head is the last of the buffers that were taken, and what is left of it.
\<close>

definition whole_parts :: "write_buffer list \<Rightarrow> u8 list \<Rightarrow> write_buffer list \<Rightarrow> bool" where
  "whole_parts ws0 out ws \<longleftrightarrow> (\<exists>taken.
     map wb_data ws0 = taken @ map wb_data ws \<and> concat taken = out \<and> list_all complete ws \<or>
     (\<exists>tmp rest. ws = tmp # rest \<and> \<not> complete tmp \<and> map wb_data ws0 = taken @ map wb_data rest \<and>
        concat taken = out @ wb_data tmp))"

lemma adv_whole_parts:
  assumes "adv ws out ws'"
  shows "list_all complete ws \<Longrightarrow> list_all wb_ok ws \<Longrightarrow> whole_parts ws out ws'"
  using assms
proof (induction)
  case (adv_none ws)
  then show ?case unfolding whole_parts_def by (intro exI [of _ "[]"]) simp
next
  case (adv_all rest out ws' wb)
  then have "whole_parts rest out ws'" by simp
  then obtain taken where t: "map wb_data rest = taken @ map wb_data ws' \<and> concat taken = out \<and> list_all complete ws' \<or>
      (\<exists>tmp rest'. ws' = tmp # rest' \<and> \<not> complete tmp \<and> map wb_data rest = taken @ map wb_data rest' \<and>
        concat taken = out @ wb_data tmp)"
    unfolding whole_parts_def by blast
  then show ?case unfolding whole_parts_def by (intro exI [of _ "wb_data wb # taken"]) auto
next
  case (adv_part n wb rest)
  show ?case
  proof (cases "n = 0")
    case True
    then have "advance n wb = wb" by (simp add: advance_def)
    then show ?thesis using adv_part.prems True unfolding whole_parts_def by (intro exI [of _ "[]"]) simp
  next
    case False
    then have "\<not> complete (advance n wb)" using adv_part.prems by (simp add: complete_def advance_def)
    moreover have "wb_data wb = take n (wb_data wb) @ wb_data (advance n wb)"
      using adv_part by (intro advance_data) simp_all
    ultimately show ?thesis unfolding whole_parts_def by (intro exI [of _ "[wb_data wb]"]) simp
  qed
qed

subsection \<open>A TCP list\<close>

definition sent :: "priority \<Rightarrow> write_buffer list \<Rightarrow> u8 list \<Rightarrow> socket_stat \<Rightarrow> sock \<Rightarrow> sock" where
  "sent p ws out st s = (put_list p ws s)\<lparr>s_stat := st, s_wb_size := s_wb_size s - int (length out)\<rparr>"

lemma sent_fields [simp]:
  "wb_list p (sent p ws out st s) = ws"
  "s_high (sent PRIORITY_LOW ws out st s) = s_high s" "s_low (sent PRIORITY_HIGH ws out st s) = s_low s"
  "s_high (sent PRIORITY_HIGH ws out st s) = ws" "s_low (sent PRIORITY_LOW ws out st s) = ws"
  "s_opaque (sent p ws out st s) = s_opaque s" "s_wb_size (sent p ws out st s) = s_wb_size s - int (length out)"
  "s_sending (sent p ws out st s) = s_sending s" "s_fd (sent p ws out st s) = s_fd s"
  "s_id (sent p ws out st s) = s_id s" "s_protocol (sent p ws out st s) = s_protocol s"
  "s_type (sent p ws out st s) = s_type s" "s_udpconnecting (sent p ws out st s) = s_udpconnecting s"
  "s_warn_size (sent p ws out st s) = s_warn_size s" "s_p (sent p ws out st s) = s_p s"
  "s_dw_lock (sent p ws out st s) = s_dw_lock s" "s_dw_offset (sent p ws out st s) = s_dw_offset s"
  "s_dw_buffer (sent p ws out st s) = s_dw_buffer s" "s_dw_size (sent p ws out st s) = s_dw_size s"
  by (cases p; simp add: sent_def)+

lemma sent_sent [simp]: "sent p ws out st (sent p ws1 out1 st1 s) = sent p ws (out1 @ out) st s"
  by (cases p; cases s) (simp_all add: sent_def)

lemma sent_active [simp]: "active (sent p ws out st s) = active s" "dw_ok (sent p ws out st s) = dw_ok s"
  by (simp_all add: active_def dw_ok_def split: option.split)

text \<open>What the loop over a list leaves behind: the socket with a shorter list, or a closed one.\<close>

fun failed1 :: "int \<Rightarrow> sys \<Rightarrow> bool" where
  "failed1 fd (Write f xs (Inl e)) = (f = fd \<and> e \<noteq> EINTR \<and> e \<noteq> EAGAIN)"
| "failed1 fd _ = False"

text \<open>The writes on a descriptor that failed for good.\<close>

definition failures :: "int \<Rightarrow> sys list \<Rightarrow> nat" where
  "failures fd h = length (filter (failed1 fd) h)"

lemma failures_append [simp]: "failures fd (h @ h') = failures fd h + failures fd h'"
  by (simp add: failures_def)

definition fatal :: "int \<Rightarrow> sys list \<Rightarrow> sys list \<Rightarrow> bool" where
  "fatal fd h h' \<longleftrightarrow> failures fd h < failures fd h'"

text \<open>The bytes \<open>out\<close> went out on one descriptor, and nothing on the others.\<close>

definition wrote :: "int \<Rightarrow> u8 list \<Rightarrow> sys list \<Rightarrow> sys list \<Rightarrow> bool" where
  "wrote fd out hist hist' \<longleftrightarrow> (\<forall>f. written f hist' = written f hist @ (if f = fd then out else []) \<and>
     failures f hist \<le> failures f hist')"

lemma wrote_refl [simp]: "wrote fd [] hist hist"
  by (simp add: wrote_def)

lemma wrote_trans: "wrote fd a h1 h2 \<Longrightarrow> wrote fd b h2 h3 \<Longrightarrow> wrote fd (a @ b) h1 h3"
  unfolding wrote_def using order_trans by fastforce

lemma fatal_trans: "wrote f out h1 h2 \<Longrightarrow> fatal fd h2 h3 \<Longrightarrow> fatal fd h1 h3"
  unfolding wrote_def fatal_def using order_le_less_trans by blast

definition list_sent :: "priority \<Rightarrow> nat \<Rightarrow> sock \<Rightarrow> sys list \<Rightarrow> socket_result \<Rightarrow> socket_report \<Rightarrow> sock \<Rightarrow> sys list \<Rightarrow>
    socket_result \<Rightarrow> bool" where
  "list_sent p l s hist res ty s' hist' res' \<longleftrightarrow>
     (\<exists>out ws st. adv (wb_list p s) out ws \<and> wrote (s_fd s) out hist hist' \<and>
        (ty = R_IGNORE \<and> s' = sent p ws out st s \<and> registered hist' = registered hist \<and> res' = res \<or>
         ty = SOCKET_CLOSE \<and> s' = closed (0 < l) (sent p ws out st s) \<and>
           registered hist' = (registered hist)(s_fd s := None) \<and> fatal (s_fd s) hist hist' \<and>
           res' = answer (s_id s) (s_opaque s) 0 DNull))"

lemma tcp_nil:
  "wb_list p s = [] \<Longrightarrow> send_list_tcp K p h l (upd h s hist ss) res = Some (R_IGNORE, upd h s hist ss, res)"
  by (subst send_list_tcp.simps) simp

lemma tcp_again:
  assumes "wb_list p s = wb # rest" and "wb_ok wb" and "k_write K hist (s_fd s) (wb_data wb) = Inl EINTR"
  shows "send_list_tcp K p h l (upd h s hist ss) res =
    send_list_tcp K p h l (upd h s (hist @ [Write (s_fd s) (wb_data wb) (Inl EINTR)]) ss) res"
  using assms by (subst send_list_tcp.simps) (simp add: Let_def)

lemma tcp_block:
  assumes "wb_list p s = wb # rest" and "wb_ok wb" and "k_write K hist (s_fd s) (wb_data wb) = Inl EAGAIN"
  shows "send_list_tcp K p h l (upd h s hist ss) res =
    Some (R_IGNORE, upd h s (hist @ [Write (s_fd s) (wb_data wb) (Inl EAGAIN)]) ss, res)"
  using assms by (subst send_list_tcp.simps) (simp add: Let_def)

lemma tcp_error:
  assumes "wb_list p s = wb # rest" and "wb_ok wb" and "k_write K hist (s_fd s) (wb_data wb) = Inl e"
    and "e \<noteq> EINTR" and "e \<noteq> EAGAIN" and "active s" and "dw_ok s" and "s_dw_lock s \<longleftrightarrow> 0 < l"
  shows "send_list_tcp K p h l (upd h s hist ss) res =
    Some (SOCKET_CLOSE, upd h (closed (0 < l) s) ((hist @ [Write (s_fd s) (wb_data wb) (Inl e)]) @ close_calls s) ss,
      answer (s_id s) (s_opaque s) 0 DNull)"
  using assms by (subst send_list_tcp.simps) (simp add: Let_def force_close_upd)

lemma tcp_part:
  assumes "wb_list p s = wb # rest" and "wb_ok wb" and "k_write K hist (s_fd s) (wb_data wb) = Inr n"
    and "int n \<noteq> wb_sz wb" and "n \<le> length (wb_data wb)"
  shows "\<exists>st. send_list_tcp K p h l (upd h s hist ss) res =
    Some (R_IGNORE, upd h (sent p (advance n wb # rest) (take n (wb_data wb)) st s)
      (hist @ [Write (s_fd s) (wb_data wb) (Inr n)]) ss, res)"
  using assms
  by (intro exI [of _ "(s_stat s)\<lparr>st_write := st_write (s_stat s) + of_int (int n), st_wtime := ss_time ss\<rparr>"])
    (subst send_list_tcp.simps, cases p; cases s; simp add: Let_def sent_def advance_def stat_write_def)

lemma tcp_whole:
  assumes "wb_list p s = wb # rest" and "wb_ok wb" and "k_write K hist (s_fd s) (wb_data wb) = Inr n"
    and "int n = wb_sz wb"
  shows "\<exists>st c. quiet1 c \<and> send_list_tcp K p h l (upd h s hist ss) res =
    send_list_tcp K p h l (upd h (sent p rest (wb_data wb) st s)
      ((hist @ [Write (s_fd s) (wb_data wb) (Inr n)]) @ [c]) ss) res"
proof -
  let ?c = "if wb_userobject wb then ObjectFree (wb_buffer wb) else Free (wb_buffer wb)"
  let ?st = "(s_stat s)\<lparr>st_write := st_write (s_stat s) + of_int (int n), st_wtime := ss_time ss\<rparr>"
  have "send_list_tcp K p h l (upd h s hist ss) res =
    send_list_tcp K p h l (upd h (sent p rest (wb_data wb) ?st s)
      ((hist @ [Write (s_fd s) (wb_data wb) (Inr n)]) @ [?c]) ss) res"
    using assms
    by (subst send_list_tcp.simps) (cases p; cases s; simp add: Let_def sent_def stat_write_def)
  then show ?thesis by (intro exI [of _ ?st] exI [of _ ?c]) simp
qed

text \<open>The loop over a TCP list ends, whatever is in it, and sends as much as the socket takes.\<close>

lemma tcp_interrupted:
  assumes "wb_list p s = wb # rest" and "wb_ok wb"
    and "\<And>m. m < n \<Longrightarrow> k_write K (hist @ replicate m (Write (s_fd s) (wb_data wb) (Inl EINTR))) (s_fd s) (wb_data wb) = Inl EINTR"
  shows "send_list_tcp K p h l (upd h s hist ss) res =
    send_list_tcp K p h l (upd h s (hist @ replicate n (Write (s_fd s) (wb_data wb) (Inl EINTR))) ss) res"
  using assms(3)
proof (induction n)
  case (Suc n)
  have "send_list_tcp K p h l (upd h s hist ss) res =
    send_list_tcp K p h l (upd h s (hist @ replicate n (Write (s_fd s) (wb_data wb) (Inl EINTR))) ss) res"
    using Suc by simp
  also have "\<dots> = send_list_tcp K p h l (upd h s (hist @ replicate (Suc n) (Write (s_fd s) (wb_data wb) (Inl EINTR))) ss) res"
    using tcp_again [OF assms(1,2), of K "hist @ replicate n (Write (s_fd s) (wb_data wb) (Inl EINTR))"] Suc.prems [of n]
    by (simp add: replicate_append_same)
  finally show ?case .
qed simp

lemma wrote_writes:
  "wrote fd [] hist (hist @ replicate n (Write fd xs (Inl e)))"
  "wrote fd (taken xs r) hist (hist @ [Write fd xs r])"
proof -
  show "wrote fd (taken xs r) hist (hist @ [Write fd xs r])" by (simp add: wrote_def)
  show "wrote fd [] hist (hist @ replicate n (Write fd xs (Inl e)))"
    by (induction n) (simp_all add: wrote_def taken_def written_def)
qed

lemma wrote_quiet: "quiet1 c \<Longrightarrow> wrote fd [] hist (hist @ [c])"
  by (simp add: wrote_def quiet1_written)

lemma wrote_close: "wrote fd [] hist (hist @ close_calls s)"
  by (simp add: wrote_def close_calls_effect(1) del: written_simps(2))

lemma registered_writes [simp]: "registered (hist @ replicate n (Write fd xs r)) = registered hist"
  by (induction n) (simp_all add: replicate_append_same [symmetric] flip: append_assoc)

lemma first_answer:
  assumes "write_answers K"
  obtains n where "k_write K (hist @ replicate n (Write fd xs (Inl EINTR))) fd xs \<noteq> Inl EINTR"
    and "\<And>m. m < n \<Longrightarrow> k_write K (hist @ replicate m (Write fd xs (Inl EINTR))) fd xs = Inl EINTR"
proof -
  let ?P = "\<lambda>n. k_write K (hist @ replicate n (Write fd xs (Inl EINTR))) fd xs \<noteq> Inl EINTR"
  have "\<exists>n. ?P n" using assms unfolding write_answers_def by blast
  then have "?P (LEAST n. ?P n)" by (rule LeastI_ex)
  moreover have "\<not> ?P m" if "m < (LEAST n. ?P n)" for m using that by (rule not_less_Least)
  ultimately show thesis using that by blast
qed

lemma list_sent_step:
  assumes "list_sent p l (sent p rest out st s) h2 res ty s' h' res'"
    and "wb_list p s = wb # rest" and "out = wb_data wb"
    and "wrote (s_fd s) out hist h2" and "registered h2 = registered hist"
  shows "list_sent p l s hist res ty s' h' res'"
proof -
  from assms(1) obtain out2 ws st2 where a: "adv rest out2 ws" "wrote (s_fd s) out2 h2 h'"
    "ty = R_IGNORE \<and> s' = sent p ws (out @ out2) st2 s \<and> registered h' = registered h2 \<and> res' = res \<or>
     ty = SOCKET_CLOSE \<and> s' = closed (0 < l) (sent p ws (out @ out2) st2 s) \<and>
       registered h' = (registered h2)(s_fd s := None) \<and> fatal (s_fd s) h2 h' \<and> res' = answer (s_id s) (s_opaque s) 0 DNull"
    by (auto simp: list_sent_def)
  have "adv (wb_list p s) (out @ out2) ws" using a(1) assms(2,3) by (simp add: adv_all)
  moreover have "wrote (s_fd s) (out @ out2) hist h'" using assms(4) a(2) by (rule wrote_trans)
  moreover have "fatal (s_fd s) h2 h' \<Longrightarrow> fatal (s_fd s) hist h'" using assms(4) by (rule fatal_trans)
  ultimately show ?thesis using a(3) assms(5) unfolding list_sent_def by metis
qed

lemma sent_nothing: "sent p (wb_list p s) [] (s_stat s) s = s"
  by (cases p; cases s) (simp_all add: sent_def)

lemma list_sent_nothing:
  assumes "wrote (s_fd s) [] hist h'" and "registered h' = registered hist"
  shows "list_sent p l s hist res R_IGNORE s h' res"
  unfolding list_sent_def using assms adv_none [of "wb_list p s"] sent_nothing [of p s] by metis

lemma tcp_sends_error:
  assumes w: "wb_list p s = wb # rest" and ok: "wb_ok wb"
    and r: "k_write K h1 (s_fd s) (wb_data wb) = Inl e" "e \<noteq> EINTR"
    and s: "active s" "dw_ok s" "s_dw_lock s \<longleftrightarrow> 0 < l"
    and h1: "wrote (s_fd s) [] hist h1" "registered h1 = registered hist"
  shows "\<exists>ty s' h' res'. send_list_tcp K p h l (upd h s h1 ss) res = Some (ty, upd h s' h' ss, res') \<and>
    list_sent p l s hist res ty s' h' res'"
proof -
  let ?h = "h1 @ [Write (s_fd s) (wb_data wb) (Inl e)]"
  have t: "wrote (s_fd s) [] hist ?h"
    using wrote_trans [OF h1(1) wrote_writes(2), of "wb_data wb" "Inl e"] by (simp add: taken_def)
  show ?thesis
  proof (cases "e = EAGAIN")
    case True
    have "list_sent p l s hist res R_IGNORE s ?h res"
      using t h1(2) by (intro list_sent_nothing) simp_all
    with tcp_block [OF w ok, of K h1 h l ss res] r True show ?thesis by auto
  next
    case False
    have "wrote (s_fd s) [] hist (?h @ close_calls s)" using wrote_trans [OF t wrote_close, of s] by simp
    moreover have "registered (?h @ close_calls s) = (registered hist)(s_fd s := None)"
      using h1(2) by (simp only: close_calls_effect(2) registered_snoc registered1.simps)
    moreover have "failed1 (s_fd s) (Write (s_fd s) (wb_data wb) (Inl e))" using r(2) False by simp
    then have "fatal (s_fd s) hist (?h @ close_calls s)"
      using h1(1) by (auto simp: fatal_def wrote_def failures_def less_Suc_eq_le trans_le_add1)
    ultimately have "list_sent p l s hist res SOCKET_CLOSE (closed (0 < l) s) (?h @ close_calls s)
        (answer (s_id s) (s_opaque s) 0 DNull)"
      unfolding list_sent_def using adv_none [of "wb_list p s"] sent_nothing [of p s] by metis
    with tcp_error [OF w ok r False s, of h ss res] show ?thesis by metis
  qed
qed

lemma tcp_sends_part:
  assumes w: "wb_list p s = wb # rest" and ok: "wb_ok wb"
    and r: "k_write K h1 (s_fd s) (wb_data wb) = Inr n" "int n \<noteq> wb_sz wb" "n \<le> length (wb_data wb)"
    and h1: "wrote (s_fd s) [] hist h1" "registered h1 = registered hist"
  shows "\<exists>ty s' h' res'. send_list_tcp K p h l (upd h s h1 ss) res = Some (ty, upd h s' h' ss, res') \<and>
    list_sent p l s hist res ty s' h' res'"
proof -
  let ?h = "h1 @ [Write (s_fd s) (wb_data wb) (Inr n)]"
  have lt: "int n < wb_sz wb" using r(2,3) wb_data_length [OF ok] by linarith
  obtain st where p: "send_list_tcp K p h l (upd h s h1 ss) res =
    Some (R_IGNORE, upd h (sent p (advance n wb # rest) (take n (wb_data wb)) st s) ?h ss, res)"
    using tcp_part [OF w ok r, of h l ss res] by blast
  have "wrote (s_fd s) (take n (wb_data wb)) hist ?h"
    using wrote_trans [OF h1(1) wrote_writes(2), of "wb_data wb" "Inr n"] by (simp add: taken_def)
  then have "list_sent p l s hist res R_IGNORE (sent p (advance n wb # rest) (take n (wb_data wb)) st s) ?h res"
    unfolding list_sent_def using h1(2) adv_part [OF lt, of rest] w by (intro exI) (auto simp: w)
  with p show ?thesis by auto
qed

lemma send_list_tcp_sends:
  assumes K: "write_answers K" "write_bounded K"
    and s: "active s" "dw_ok s" "s_dw_lock s \<longleftrightarrow> 0 < l" "list_all wb_ok (wb_list p s)"
  shows "\<exists>ty s' h' res'. send_list_tcp K p h l (upd h s hist ss) res = Some (ty, upd h s' h' ss, res') \<and>
    list_sent p l s hist res ty s' h' res'"
  using s
proof (induction "wb_list p s" arbitrary: s hist)
  case Nil
  then show ?case by (metis tcp_nil list_sent_nothing wrote_refl)
next
  case (Cons wb rest)
  let ?x = "wb_data wb"
  note w = Cons.hyps(2) [symmetric]
  have ok: "wb_ok wb" "list_all wb_ok rest" using Cons.prems(4) w by simp_all
  obtain n where n: "k_write K (hist @ replicate n (Write (s_fd s) ?x (Inl EINTR))) (s_fd s) ?x \<noteq> Inl EINTR"
    "\<And>m. m < n \<Longrightarrow> k_write K (hist @ replicate m (Write (s_fd s) ?x (Inl EINTR))) (s_fd s) ?x = Inl EINTR"
    using first_answer [OF K(1), of hist "s_fd s" ?x] by blast
  define h1 where "h1 = hist @ replicate n (Write (s_fd s) ?x (Inl EINTR))"
  have h1: "wrote (s_fd s) [] hist h1" "registered h1 = registered hist"
    unfolding h1_def by (simp_all add: wrote_writes(1))
  have run: "send_list_tcp K p h l (upd h s hist ss) res = send_list_tcp K p h l (upd h s h1 ss) res"
    unfolding h1_def using n(2) by (rule tcp_interrupted [OF w ok(1)])
  show ?case
  proof (cases "k_write K h1 (s_fd s) ?x")
    case (Inl e)
    then have "e \<noteq> EINTR" using n(1) unfolding h1_def by auto
    then show ?thesis unfolding run by (rule tcp_sends_error [OF w ok(1) Inl _ Cons.prems(1-3) h1])
  next
    case (Inr n')
    have len: "n' \<le> length ?x" using K(2) Inr unfolding write_bounded_def by blast
    show ?thesis
    proof (cases "int n' = wb_sz wb")
      case True
      have whole: "take n' ?x = ?x" using True wb_data_length [OF ok(1)] by simp
      obtain st c where c: "quiet1 c" "send_list_tcp K p h l (upd h s h1 ss) res =
        send_list_tcp K p h l (upd h (sent p rest ?x st s) ((h1 @ [Write (s_fd s) ?x (Inr n')]) @ [c]) ss) res"
        using tcp_whole [OF w ok(1) Inr True, of h l ss res] by blast
      let ?h2 = "(h1 @ [Write (s_fd s) ?x (Inr n')]) @ [c]"
      have "wrote (s_fd s) ?x hist ?h2"
        using wrote_trans [OF wrote_trans [OF h1(1) wrote_writes(2)] wrote_quiet [OF c(1)], of ?x "Inr n'"] whole
        by (simp add: taken_def)
      moreover have "registered ?h2 = registered hist"
        using h1(2) quiet1_reg [OF c(1)] by (simp only: registered_snoc registered1.simps)
      moreover obtain ty s' h' res' where f:
        "send_list_tcp K p h l (upd h (sent p rest ?x st s) ?h2 ss) res = Some (ty, upd h s' h' ss, res')"
        "list_sent p l (sent p rest ?x st s) ?h2 res ty s' h' res'"
        using Cons.hyps(1) [of "sent p rest ?x st s" ?h2] Cons.prems(1-3) ok(2) by auto
      ultimately have "list_sent p l s hist res ty s' h' res'"
        by (intro list_sent_step [OF f(2) w refl])
      with f(1) c(2) run show ?thesis by auto
    next
      case False
      show ?thesis unfolding run by (rule tcp_sends_part [OF w ok(1) Inr False len h1])
    qed
  qed
qed


subsection \<open>A UDP list\<close>

text \<open>An address of a UDP packet that can be read: its type byte says how long it is.\<close>

definition addr_ok :: "u8 list \<Rightarrow> bool" where
  "addr_ok a \<longleftrightarrow> (case a of [] \<Rightarrow> False | ty # _ \<Rightarrow> (ty = 1 \<longrightarrow> 7 \<le> length a) \<and> (ty = 2 \<longrightarrow> 19 \<le> length a))"

lemma udp_socket_address_ok:
  assumes "addr_ok a"
  shows "\<exists>sa. udp_socket_address s a = Some sa"
  using assms
  by (cases "s_protocol s") (auto simp: addr_ok_def udp_socket_address_def nth_at_def mem_read_def split: list.splits)

definition dropped :: "priority \<Rightarrow> nat \<Rightarrow> socket_stat \<Rightarrow> sock \<Rightarrow> sock" where
  "dropped p k st s = (put_list p (drop k (wb_list p s)) s)
     \<lparr>s_stat := st, s_wb_size := s_wb_size s - list_total (take k (wb_list p s))\<rparr>"

lemma dropped_0: "dropped p 0 (s_stat s) s = s"
  by (cases p; cases s) (simp_all add: dropped_def)

lemma dropped_Suc:
  assumes "wb_list p s = wb # rest"
  shows "dropped p k st ((put_list p rest s)\<lparr>s_stat := st', s_wb_size := s_wb_size s - wb_sz wb\<rparr>) = dropped p (Suc k) st s"
  using assms by (cases p; cases s) (simp_all add: dropped_def)

lemma drop_udp_upd:
  assumes "wb_list p s = wb # rest"
  shows "\<exists>c. quiet1 c \<and> drop_udp p h wb rest (upd h s hist ss) = upd h (dropped p 1 (s_stat s) s) (hist @ [c]) ss"
  using assms
  by (intro exI [of _ "if wb_userobject wb then ObjectFree (wb_buffer wb) else Free (wb_buffer wb)"])
    (cases p; cases s; simp add: drop_udp_def dropped_def Let_def)

definition still :: "sys list \<Rightarrow> sys list \<Rightarrow> bool" where
  "still h h' \<longleftrightarrow> registered h' = registered h \<and> (\<forall>fd. written fd h' = written fd h \<and> failures fd h \<le> failures fd h')"

lemma still_refl [simp]: "still h h"
  by (simp add: still_def)

lemma still_trans: "still a b \<Longrightarrow> still b c \<Longrightarrow> still a c"
  unfolding still_def using order_trans by metis

lemma still_quiet [simp]: "quiet1 c \<Longrightarrow> still h (h @ [c])"
  by (simp add: still_def quiet1_written quiet1_reg)

lemma still_quiet2: "still a h \<Longrightarrow> quiet1 c \<Longrightarrow> still a (h @ [c])"
  using still_trans still_quiet by blast

lemma put_list_stat:
  "put_list p rest ((stat_write t n s)\<lparr>s_wb_size := x\<rparr>) =
     (put_list p rest s)\<lparr>s_stat := s_stat (stat_write t n s), s_wb_size := x\<rparr>"
  by (cases p; cases s) (simp_all add: stat_write_def)

lemma send_list_udp_sends:
  assumes "list_all wb_ok (wb_list p s)" and "\<forall>wb \<in> set (wb_list p s). addr_ok (wb_udp_address wb)"
  shows "\<exists>k st h'. send_list_udp K p h (upd h s hist ss) = Some (upd h (dropped p k st s) h' ss) \<and> still hist h'"
  using assms
proof (induction "wb_list p s" arbitrary: s hist)
  case Nil
  note e = Nil(1) [symmetric]
  have "send_list_udp K p h (upd h s hist ss) = Some (upd h (dropped p 0 (s_stat s) s) hist ss)"
    unfolding dropped_0 by (subst send_list_udp.simps) (simp add: e)
  then show ?case using still_refl by blast
next
  case (Cons wb rest)
  note w = Cons.hyps(2) [symmetric]
  have ok: "wb_ok wb" "list_all wb_ok rest" "addr_ok (wb_udp_address wb)" using Cons.prems w by auto
  have unfold: "send_list_udp K p h (upd h s hist ss) = (do {
      sa \<leftarrow> udp_socket_address s (wb_udp_address wb);
      (case sa of
         None \<Rightarrow> Some (drop_udp p h wb rest (upd h s hist ss))
       | Some a \<Rightarrow>
           (let r = k_sendto K hist (s_fd s) (wb_data wb) a;
                ss1 = upd h s (hist @ [Sendto (s_fd s) (wb_data wb) a r]) ss
            in case r of
                 Inl e \<Rightarrow> if e = EINTR \<or> e = EAGAIN then Some ss1 else Some (drop_udp p h wb rest ss1)
               | Inr n \<Rightarrow> (let s1 = stat_write (ss_time ss) (wb_sz wb) s
                          in send_list_udp K p h (write_buffer_free wb
                               (put_slot h (put_list p rest (s1\<lparr>s_wb_size := s_wb_size s1 - wb_sz wb\<rparr>)) ss1))))) })"
    using w ok(1) by (subst send_list_udp.simps) (simp add: Let_def cong: option.case_cong sum.case_cong)
  obtain sa where sa: "udp_socket_address s (wb_udp_address wb) = Some sa" using udp_socket_address_ok [OF ok(3)] by blast
  have drop: "\<exists>k st h'. Some (drop_udp p h wb rest (upd h s h1 ss)) = Some (upd h (dropped p k st s) h' ss) \<and> still hist h'"
    if "still hist h1" for h1
    using drop_udp_upd [OF w, of h h1 ss] still_quiet2 [OF that] by metis
  show ?case
  proof (cases sa)
    case None
    then show ?thesis using unfold sa drop [OF still_refl] by simp
  next
    case (Some a)
    let ?r = "k_sendto K hist (s_fd s) (wb_data wb) a"
    have q: "still hist (hist @ [Sendto (s_fd s) (wb_data wb) a ?r])" by simp
    show ?thesis
    proof (cases ?r)
      case (Inl e)
      have "\<exists>k st h'. Some (upd h s (hist @ [Sendto (s_fd s) (wb_data wb) a ?r]) ss) =
          Some (upd h (dropped p k st s) h' ss) \<and> still hist h'"
        using q by (intro exI [of _ 0] exI [of _ "s_stat s"]) (auto simp: dropped_0)
      then show ?thesis using unfold sa Some drop [OF q] Inl by (simp add: Let_def)
    next
      case (Inr n)
      let ?s = "(put_list p rest s)\<lparr>s_stat := s_stat (stat_write (ss_time ss) (wb_sz wb) s), s_wb_size := s_wb_size s - wb_sz wb\<rparr>"
      let ?c = "if wb_userobject wb then ObjectFree (wb_buffer wb) else Free (wb_buffer wb)"
      let ?h = "(hist @ [Sendto (s_fd s) (wb_data wb) a ?r]) @ [?c]"
      have "send_list_udp K p h (upd h s hist ss) = send_list_udp K p h (upd h ?s ?h ss)"
        unfolding unfold using sa Some Inr by (simp add: Let_def put_list_stat) (simp add: stat_write_def)
      moreover have "wb_list p ?s = rest" by (cases p) simp_all
      then have "\<exists>k st h'. send_list_udp K p h (upd h ?s ?h ss) = Some (upd h (dropped p k st ?s) h' ss) \<and> still ?h h'"
        using Cons.hyps(1) [of ?s ?h] ok Cons.prems(2) w by simp
      ultimately obtain k st h' where "send_list_udp K p h (upd h s hist ss) = Some (upd h (dropped p k st ?s) h' ss)"
        "still ?h h'" by auto
      moreover have "still hist ?h" by (rule still_quiet2 [OF q]) simp
      ultimately show ?thesis unfolding dropped_Suc [OF w] using still_trans by blast
    qed
  qed
qed


subsection \<open>A well-formed socket\<close>

text \<open>The count of queued bytes is right, no buffer says it is longer than it is, and a buffer that was
  sent in part is the first of the high list or the direct write. The read size of a TCP socket is 64
  times a power of two; a UDP socket has addresses that can be read and no direct write.\<close>

definition udp_wf :: "sock \<Rightarrow> bool" where
  "udp_wf s \<longleftrightarrow> s_dw_buffer s = None \<and> (\<forall>wb \<in> set (s_high s @ s_low s). addr_ok (wb_udp_address wb)) \<and>
     (\<exists>a. s_p s = PAddress a \<and> length a = UDP_ADDRESS_SIZE)"

definition tcp_wf :: "sock \<Rightarrow> bool" where
  "tcp_wf s \<longleftrightarrow> (\<exists>k. s_p s = PSize (MIN_READ_BUFFER * 2 ^ k))"

definition sock_wf :: "sock \<Rightarrow> bool" where
  "sock_wf s \<longleftrightarrow> s_wb_size s = list_total (s_high s @ s_low s) \<and> list_all wb_ok (s_high s @ s_low s) \<and>
     list_all complete (s_low s) \<and>
     list_all complete (if s_dw_buffer s = None then tl (s_high s) else s_high s) \<and> dw_ok s \<and>
     s_protocol s \<noteq> PROTOCOL_UNKNOWN \<and> (if s_protocol s = PROTOCOL_TCP then tcp_wf s else udp_wf s)"

text \<open>What sending never changes.\<close>

definition same_conn :: "sock \<Rightarrow> sock \<Rightarrow> bool" where
  "same_conn s s' \<longleftrightarrow> s_id s' = s_id s \<and> s_fd s' = s_fd s \<and> s_protocol s' = s_protocol s \<and> s_type s' = s_type s \<and>
     s_sending s' = s_sending s \<and> s_opaque s' = s_opaque s \<and> s_udpconnecting s' = s_udpconnecting s \<and>
     s_p s' = s_p s \<and> s_dw_lock s' = s_dw_lock s"

lemma same_conn_refl [simp]: "same_conn s s"
  by (simp add: same_conn_def)

lemma same_conn_trans: "same_conn a b \<Longrightarrow> same_conn b c \<Longrightarrow> same_conn a c"
  by (simp add: same_conn_def)

lemma same_conn_active: "same_conn a b \<Longrightarrow> active b = active a"
  by (simp add: same_conn_def active_def)

text \<open>One list got shorter; the other parts of the socket did not change. The bytes \<open>out\<close> went out
  (for UDP these are datagrams, not part of a stream).\<close>

definition shrunk :: "priority \<Rightarrow> u8 list \<Rightarrow> sock \<Rightarrow> sock \<Rightarrow> bool" where
  "shrunk p out s s1 \<longleftrightarrow> (\<exists>ws st.
     s1 = (put_list p ws s)\<lparr>s_stat := st, s_wb_size := s_wb_size s - list_total (wb_list p s) + list_total ws\<rparr> \<and>
     list_all wb_ok ws \<and>
     (list_all complete (tl (wb_list p s)) \<longrightarrow> list_all complete (tl ws)) \<and>
     (if s_protocol s = PROTOCOL_TCP then list_data (wb_list p s) = out @ list_data ws
      else out = [] \<and> set ws \<subseteq> set (wb_list p s)) \<and>
     (wb_list p s = [] \<longrightarrow> ws = []) \<and>
     (s_protocol s = PROTOCOL_TCP \<and> list_all complete (wb_list p s) \<longrightarrow> whole_parts (wb_list p s) out ws))"

definition list_step :: "priority \<Rightarrow> nat \<Rightarrow> sock \<Rightarrow> sys list \<Rightarrow> socket_result \<Rightarrow> socket_report \<Rightarrow> sock \<Rightarrow> sys list \<Rightarrow>
    socket_result \<Rightarrow> bool" where
  "list_step p l s hist res ty s' hist' res' \<longleftrightarrow>
     (\<exists>out s1. shrunk p out s s1 \<and> wrote (s_fd s) out hist hist' \<and>
        (ty = R_IGNORE \<and> s' = s1 \<and> registered hist' = registered hist \<and> res' = res \<or>
         ty = SOCKET_CLOSE \<and> s' = closed (0 < l) s1 \<and> registered hist' = (registered hist)(s_fd s := None) \<and>
           fatal (s_fd s) hist hist' \<and> res' = answer (s_id s) (s_opaque s) 0 DNull))"

lemma list_sent_list_step:
  assumes "list_sent p l s hist res ty s' hist' res'" and "list_all wb_ok (wb_list p s)" and "s_protocol s = PROTOCOL_TCP"
  shows "list_step p l s hist res ty s' hist' res'"
proof -
  from assms(1) obtain out ws st where a: "adv (wb_list p s) out ws" "wrote (s_fd s) out hist hist'"
    "ty = R_IGNORE \<and> s' = sent p ws out st s \<and> registered hist' = registered hist \<and> res' = res \<or>
     ty = SOCKET_CLOSE \<and> s' = closed (0 < l) (sent p ws out st s) \<and>
       registered hist' = (registered hist)(s_fd s := None) \<and> fatal (s_fd s) hist hist' \<and>
       res' = answer (s_id s) (s_opaque s) 0 DNull"
    unfolding list_sent_def by blast
  have "shrunk p out s (sent p ws out st s)"
    unfolding shrunk_def using adv_ok [OF a(1) assms(2)] adv_complete [OF a(1)] adv_nil [OF a(1)] assms(3)
      adv_whole_parts [OF a(1) _ assms(2)]
    by (intro exI [of _ ws] exI [of _ st]) (simp add: sent_def)
  with a show ?thesis unfolding list_step_def by blast
qed

lemma shrunk_dropped:
  assumes "list_all wb_ok (wb_list p s)" and "s_protocol s \<noteq> PROTOCOL_TCP"
  shows "shrunk p [] s (dropped p k st s)"
proof -
  have t: "list_total (wb_list p s) = list_total (take k (wb_list p s)) + list_total (drop k (wb_list p s))"
    by (metis append_take_drop_id list_simps(6))
  have "list_all complete (tl (drop k (wb_list p s)))" if "list_all complete (tl (wb_list p s))"
    using that by (auto simp: list_all_iff tl_drop dest: in_set_dropD)
  with assms t show ?thesis
    unfolding shrunk_def
    by (intro exI [of _ "drop k (wb_list p s)"] exI [of _ st])
      (auto simp: dropped_def list_all_iff dest: in_set_dropD)
qed

lemma send_list_step:
  assumes K: "write_answers K" "write_bounded K"
    and s: "active s" "dw_ok s" "s_dw_lock s \<longleftrightarrow> 0 < l" "list_all wb_ok (wb_list p s)"
    and a: "s_protocol s \<noteq> PROTOCOL_TCP \<longrightarrow> (\<forall>wb \<in> set (wb_list p s). addr_ok (wb_udp_address wb))"
  shows "\<exists>ty s' h' res'. send_list K p h l (upd h s hist ss) res = Some (ty, upd h s' h' ss, res') \<and>
    list_step p l s hist res ty s' h' res'"
proof (cases "s_protocol s = PROTOCOL_TCP")
  case True
  with send_list_tcp_sends [OF K s, of h hist ss res] list_sent_list_step [OF _ s(4) True]
  show ?thesis by (simp add: send_list_def) blast
next
  case False
  then obtain k st h' where u: "send_list_udp K p h (upd h s hist ss) = Some (upd h (dropped p k st s) h' ss)" "still hist h'"
    using send_list_udp_sends [OF s(4)] a by blast
  have "list_step p l s hist res R_IGNORE (dropped p k st s) h' res"
    unfolding list_step_def using shrunk_dropped [OF s(4) False, of k st] u(2)
    by (intro exI [of _ "[]"] exI) (simp add: still_def wrote_def)
  moreover have "send_list K p h l (upd h s hist ss) res = Some (R_IGNORE, upd h (dropped p k st s) h' ss, res)"
    using u(1) False by (simp add: send_list_def)
  ultimately show ?thesis by blast
qed

subsection \<open>The buffers of a socket\<close>

text \<open>What a socket still has to write, in order.\<close>

definition dw_rest :: "sock \<Rightarrow> u8 list" where
  "dw_rest s = (case s_dw_buffer s of None \<Rightarrow> []
     | Some buf \<Rightarrow> drop (s_dw_offset s) (take (nat (s_dw_size s)) (b_bytes buf)))"

definition stream :: "sock \<Rightarrow> u8 list" where
  "stream s = dw_rest s @ list_data (s_high s) @ list_data (s_low s)"

text \<open>The same in two parts: what goes out before any further low priority buffer, and these buffers.\<close>

definition front :: "sock \<Rightarrow> u8 list" where
  "front s = dw_rest s @ list_data (s_high s)"

definition lows :: "sock \<Rightarrow> u8 list list" where
  "lows s = map wb_data (s_low s)"

lemma stream_front: "stream s = front s @ concat (lows s)"
  by (simp add: stream_def front_def lows_def list_data_def)

text \<open>The bytes \<open>out\<close> went out: those of \<open>front\<close>, then those of low priority buffers, in order. A low
  priority buffer of which a part went out is in front of the others from then on.\<close>

definition passed :: "u8 list \<Rightarrow> sock \<Rightarrow> sock \<Rightarrow> bool" where
  "passed out s s1 \<longleftrightarrow> (\<exists>taken. lows s = taken @ lows s1 \<and> front s @ concat taken = out @ front s1)"

lemma passed_trans: "passed a s1 s2 \<Longrightarrow> passed b s2 s3 \<Longrightarrow> passed (a @ b) s1 s3"
proof -
  assume "passed a s1 s2" "passed b s2 s3"
  then obtain t u where "lows s1 = t @ lows s2" "front s1 @ concat t = a @ front s2"
    "lows s2 = u @ lows s3" "front s2 @ concat u = b @ front s3" unfolding passed_def by blast
  moreover from this(2) have "front s1 @ concat (t @ u) = a @ front s2 @ concat u" by simp
  ultimately show ?thesis unfolding passed_def by (intro exI [of _ "t @ u"]) simp
qed

lemma passed_stream: "passed out s s1 \<Longrightarrow> stream s = out @ stream s1"
proof -
  assume "passed out s s1"
  then obtain t where "lows s = t @ lows s1" "front s @ concat t = out @ front s1" unfolding passed_def by blast
  then show ?thesis using append.assoc [of "front s" "concat t" "concat (lows s1)"] by (simp add: stream_front)
qed

lemma passed_high:
  "lows s1 = lows s \<Longrightarrow> front s = out @ front s1 \<Longrightarrow> passed out s s1"
  unfolding passed_def by (intro exI [of _ "[]"]) simp

definition flushed :: "u8 list \<Rightarrow> sock \<Rightarrow> sock \<Rightarrow> bool" where
  "flushed out s s1 \<longleftrightarrow> sock_wf s1 \<and> same_conn s s1 \<and> s_dw_buffer s1 = None \<and>
     (if s_protocol s = PROTOCOL_TCP then passed out s s1 else out = []) \<and> (s_low s = [] \<longrightarrow> s_low s1 = [])"

definition buffer_sent :: "nat \<Rightarrow> sock \<Rightarrow> sys list \<Rightarrow> socket_report \<Rightarrow> sock \<Rightarrow> sys list \<Rightarrow> socket_result \<Rightarrow> bool" where
  "buffer_sent l s hist ty s' hist' res' \<longleftrightarrow>
     (\<exists>out s1. flushed out s s1 \<and> wrote (s_fd s) out hist hist' \<and>
        ((ty = R_IGNORE \<or> ty = SOCKET_WARNING) \<and> s' = s1 \<and> registered hist' = registered hist \<or>
         ty = SOCKET_CLOSE \<and> s' = closed (0 < l) s1 \<and> registered hist' = (registered hist)(s_fd s := None) \<and>
           (fatal (s_fd s) hist hist' \<or> stream s1 = []) \<and> res' = answer (s_id s) (s_opaque s) 0 DNull))"

lemma flushed_refl: "sock_wf s \<Longrightarrow> s_dw_buffer s = None \<Longrightarrow> flushed [] s s"
  by (simp add: flushed_def passed_high)

lemma flushed_stream: "flushed out s s1 \<Longrightarrow> s_protocol s = PROTOCOL_TCP \<Longrightarrow> stream s = out @ stream s1"
  by (simp add: flushed_def passed_stream)

lemma flushed_trans: "flushed a s1 s2 \<Longrightarrow> flushed b s2 s3 \<Longrightarrow> flushed (a @ b) s1 s3"
  unfolding flushed_def using same_conn_trans passed_trans by (auto simp: same_conn_def split: if_splits)

lemma buffer_sent_trans:
  assumes "flushed out s s1" and "wrote (s_fd s) out hist h1" and "registered h1 = registered hist"
    and "buffer_sent l s1 h1 ty s' h' res'"
  shows "buffer_sent l s hist ty s' h' res'"
proof -
  have c: "s_fd s1 = s_fd s" "s_id s1 = s_id s" "s_opaque s1 = s_opaque s"
    using assms(1) by (simp_all add: flushed_def same_conn_def)
  from assms(4) obtain out2 s2 where b: "flushed out2 s1 s2" "wrote (s_fd s) out2 h1 h'"
    "(ty = R_IGNORE \<or> ty = SOCKET_WARNING) \<and> s' = s2 \<and> registered h' = registered h1 \<or>
     ty = SOCKET_CLOSE \<and> s' = closed (0 < l) s2 \<and> registered h' = (registered h1)(s_fd s := None) \<and>
       (fatal (s_fd s) h1 h' \<or> stream s2 = []) \<and> res' = answer (s_id s) (s_opaque s) 0 DNull"
    unfolding buffer_sent_def c by blast
  show ?thesis unfolding buffer_sent_def
    using flushed_trans [OF assms(1) b(1)] wrote_trans [OF assms(2) b(2)] b(3) assms(3) fatal_trans [OF assms(2)] by metis
qed

text \<open>A high list that got shorter leaves the socket well formed.\<close>

lemma shrunk_high:
  assumes "shrunk PRIORITY_HIGH out s s1" and "sock_wf s" and "s_dw_buffer s = None"
  shows "flushed out s s1"
proof -
  from assms(1) obtain ws st where a:
    "s1 = (put_list PRIORITY_HIGH ws s)\<lparr>s_stat := st, s_wb_size := s_wb_size s - list_total (s_high s) + list_total ws\<rparr>"
    "list_all wb_ok ws" "list_all complete (tl (s_high s)) \<longrightarrow> list_all complete (tl ws)"
    "if s_protocol s = PROTOCOL_TCP then list_data (s_high s) = out @ list_data ws
     else out = [] \<and> set ws \<subseteq> set (s_high s)"
    unfolding shrunk_def wb_list.simps by blast
  have dw: "dw_ok s1" using assms(3) a(1) by (simp add: dw_ok_def)
  have "tcp_wf s1 = tcp_wf s" by (simp add: tcp_wf_def a(1))
  moreover have "udp_wf s \<Longrightarrow> s_protocol s \<noteq> PROTOCOL_TCP \<Longrightarrow> udp_wf s1" using a(4) by (auto simp: udp_wf_def a(1))
  ultimately have "sock_wf s1"
    using assms(2,3) a(2,3) dw unfolding sock_wf_def by (auto simp: a(1) split: if_splits)
  then show ?thesis
    using assms(3) a(4) by (auto simp: flushed_def same_conn_def dw_rest_def a(1) front_def lows_def intro!: passed_high)
qed


text \<open>Fields that play no part in the well-formedness and the stream.\<close>

lemma dw_ok_upd [simp]:
  "dw_ok (s\<lparr>s_warn_size := w\<rparr>) = dw_ok s" "dw_ok (s\<lparr>s_dw_lock := b\<rparr>) = dw_ok s" "dw_ok (s\<lparr>s_sending := x\<rparr>) = dw_ok s"
  "dw_ok (s\<lparr>s_stat := st\<rparr>) = dw_ok s" "dw_ok (s\<lparr>s_type := ty\<rparr>) = dw_ok s" "dw_ok (s\<lparr>s_opaque := q\<rparr>) = dw_ok s"
  "dw_ok (s\<lparr>s_udpconnecting := u\<rparr>) = dw_ok s"
  by (simp_all add: dw_ok_def split: option.split)

lemma dw_rest_upd [simp]:
  "dw_rest (s\<lparr>s_warn_size := w\<rparr>) = dw_rest s" "dw_rest (s\<lparr>s_dw_lock := b\<rparr>) = dw_rest s"
  "dw_rest (s\<lparr>s_sending := x\<rparr>) = dw_rest s" "dw_rest (s\<lparr>s_stat := st\<rparr>) = dw_rest s"
  "dw_rest (s\<lparr>s_type := ty\<rparr>) = dw_rest s" "dw_rest (s\<lparr>s_opaque := q\<rparr>) = dw_rest s"
  "dw_rest (s\<lparr>s_udpconnecting := u\<rparr>) = dw_rest s"
  by (simp_all add: dw_rest_def split: option.split)

lemma stream_upd [simp]:
  "stream (s\<lparr>s_warn_size := w\<rparr>) = stream s" "stream (s\<lparr>s_dw_lock := b\<rparr>) = stream s"
  "stream (s\<lparr>s_sending := x\<rparr>) = stream s" "stream (s\<lparr>s_stat := st\<rparr>) = stream s"
  "stream (s\<lparr>s_type := ty\<rparr>) = stream s" "stream (s\<lparr>s_opaque := q\<rparr>) = stream s"
  "stream (s\<lparr>s_udpconnecting := u\<rparr>) = stream s"
  by (simp_all add: stream_def)

lemma front_upd [simp]:
  "front (s\<lparr>s_warn_size := w\<rparr>) = front s" "front (s\<lparr>s_dw_lock := b\<rparr>) = front s"
  "front (s\<lparr>s_sending := x\<rparr>) = front s" "front (s\<lparr>s_stat := st\<rparr>) = front s"
  "front (s\<lparr>s_type := ty\<rparr>) = front s" "front (s\<lparr>s_opaque := q\<rparr>) = front s"
  "front (s\<lparr>s_udpconnecting := u\<rparr>) = front s"
  by (simp_all add: front_def)

lemma lows_upd [simp]:
  "lows (s\<lparr>s_warn_size := w\<rparr>) = lows s" "lows (s\<lparr>s_dw_lock := b\<rparr>) = lows s"
  "lows (s\<lparr>s_sending := x\<rparr>) = lows s" "lows (s\<lparr>s_stat := st\<rparr>) = lows s"
  "lows (s\<lparr>s_type := ty\<rparr>) = lows s" "lows (s\<lparr>s_opaque := q\<rparr>) = lows s"
  "lows (s\<lparr>s_udpconnecting := u\<rparr>) = lows s"
  by (simp_all add: lows_def)

lemma sock_wf_upd [simp]:
  "sock_wf (s\<lparr>s_warn_size := w\<rparr>) = sock_wf s" "sock_wf (s\<lparr>s_dw_lock := b\<rparr>) = sock_wf s"
  "sock_wf (s\<lparr>s_sending := x\<rparr>) = sock_wf s" "sock_wf (s\<lparr>s_stat := st\<rparr>) = sock_wf s"
  "sock_wf (s\<lparr>s_type := ty\<rparr>) = sock_wf s" "sock_wf (s\<lparr>s_opaque := q\<rparr>) = sock_wf s"
  "sock_wf (s\<lparr>s_udpconnecting := u\<rparr>) = sock_wf s"
  by (simp_all add: sock_wf_def tcp_wf_def udp_wf_def)

lemma list_uncomplete_hd: "list_uncomplete ws \<longleftrightarrow> ws \<noteq> [] \<and> \<not> complete (hd ws)"
  by (cases ws) (simp_all add: list_uncomplete_def complete_def)

text \<open>A low list that got shorter: if its head was sent in part, it moves to the high list.\<close>

lemma shrunk_low:
  assumes "shrunk PRIORITY_LOW out s s1" and "sock_wf s" and "s_dw_buffer s = None" and "s_high s = []"
  shows "\<not> list_uncomplete (s_low s1) \<Longrightarrow> flushed out s s1"
    and "list_uncomplete (s_low s1) \<Longrightarrow> \<exists>s2. raise_uncomplete s1 = Some s2 \<and> flushed out s s2"
    and "s_high s1 = []"
proof -
  from assms(1) obtain ws st where a:
    "s1 = (put_list PRIORITY_LOW ws s)\<lparr>s_stat := st, s_wb_size := s_wb_size s - list_total (s_low s) + list_total ws\<rparr>"
    "list_all wb_ok ws" "list_all complete (tl (s_low s)) \<longrightarrow> list_all complete (tl ws)"
    "if s_protocol s = PROTOCOL_TCP then list_data (s_low s) = out @ list_data ws
     else out = [] \<and> set ws \<subseteq> set (s_low s)" "s_low s = [] \<longrightarrow> ws = []"
    "s_protocol s = PROTOCOL_TCP \<and> list_all complete (s_low s) \<longrightarrow> whole_parts (s_low s) out ws"
    unfolding shrunk_def wb_list.simps by blast
  have low: "list_all complete (s_low s)" using assms(2) by (simp add: sock_wf_def)
  then have tl: "list_all complete (tl ws)" using a(3) by (cases "s_low s") auto
  have wf: "s_protocol s \<noteq> PROTOCOL_UNKNOWN" "s_wb_size s = list_total (s_low s)"
    "if s_protocol s = PROTOCOL_TCP then tcp_wf s else udp_wf s"
    using assms(2,4) by (simp_all add: sock_wf_def)
  have udp: "\<forall>wb \<in> set ws. addr_ok (wb_udp_address wb)" if "s_protocol s \<noteq> PROTOCOL_TCP"
    using that a(4) wf(3) by (auto simp: udp_wf_def)
  have parts: "whole_parts (s_low s) out ws" if "s_protocol s = PROTOCOL_TCP" using that low a(6) by blast
  have e: "front s = []" "dw_rest s1 = []" using assms(3,4) by (simp_all add: front_def dw_rest_def a(1))
  show "s_high s1 = []" by (simp add: a(1) assms(4))
  { assume u: "\<not> list_uncomplete (s_low s1)"
    then have "list_all complete ws" using tl by (cases ws) (auto simp: list_uncomplete_hd a(1))
    moreover from this have "passed out s s1" if "s_protocol s = PROTOCOL_TCP"
      using parts [OF that] e assms(4) by (auto simp: whole_parts_def passed_def lows_def front_def a(1))
    ultimately show "flushed out s s1"
      using assms(3,4) a(2,4,5) wf udp
      by (auto simp: flushed_def same_conn_def sock_wf_def dw_ok_def tcp_wf_def udp_wf_def a(1)) }
  { assume u: "list_uncomplete (s_low s1)"
    then obtain tmp rest where ws: "ws = tmp # rest" by (cases ws) (auto simp: list_uncomplete_hd a(1))
    let ?s2 = "s1\<lparr>s_low := rest, s_high := [tmp]\<rparr>"
    have "raise_uncomplete s1 = Some ?s2"
      using ws assms(4) by (simp add: raise_uncomplete_def a(1))
    moreover have "passed out s ?s2" if "s_protocol s = PROTOCOL_TCP"
    proof -
      note tcp = parts [OF that]
      have "\<not> list_all complete ws" using u ws by (simp add: list_uncomplete_hd a(1))
      then obtain taken where "map wb_data (s_low s) = taken @ map wb_data rest" "concat taken = out @ wb_data tmp"
        using tcp ws by (auto simp: whole_parts_def)
      then show ?thesis using e assms(3)
        unfolding passed_def by (intro exI [of _ taken]) (simp add: lows_def front_def dw_rest_def a(1))
    qed
    then have "flushed out s ?s2"
      using assms(3,4) a(2,4,5) wf udp tl ws
      by (auto simp: flushed_def same_conn_def sock_wf_def dw_ok_def tcp_wf_def udp_wf_def a(1))
    ultimately show "\<exists>s2. raise_uncomplete s1 = Some s2 \<and> flushed out s s2" by blast }
qed

lemma check_close_sends:
  assumes "sock_wf s" and "active s" and "s_dw_buffer s = None" and "s_dw_lock s \<longleftrightarrow> 0 < l"
    and "s_high s = []" and "s_low s = []"
  shows "\<exists>ty s' h' res'. check_close h l (upd h s hist ss) res = Some (ty, upd h s' h' ss, res') \<and>
    buffer_sent l s hist ty s' h' res'"
proof -
  let ?h1 = "hist @ [EpollMod (s_fd s) (Some h) False]"
  have size: "s_wb_size s = 0" and dw: "dw_ok s" using assms by (simp_all add: sock_wf_def)
  have e: "stream s = []" using assms by (simp add: stream_def dw_rest_def)
  have f: "flushed [] s s" using assms(1,3) by (rule flushed_refl)
  have w: "wrote (s_fd s) [] hist ?h1" and r: "registered ?h1 = registered hist"
    by (simp_all add: wrote_def)
  note c = check_close_def send_buffer_empty_def size assms(5,6) sp_write_def Let_def
  consider "s_type s = SOCKET_TYPE_HALFCLOSE" | "s_type s \<noteq> SOCKET_TYPE_HALFCLOSE" "s_warn_size s > 0"
    | "s_type s \<noteq> SOCKET_TYPE_HALFCLOSE" "\<not> s_warn_size s > 0" by blast
  then show ?thesis
  proof cases
    case 1
    then have "check_close h l (upd h s hist ss) res =
      Some (SOCKET_CLOSE, upd h (closed (0 < l) s) (?h1 @ close_calls s) ss, answer (s_id s) (s_opaque s) 0 DNull)"
      by (simp add: c force_close_upd [OF assms(2) dw assms(4)])
    moreover have "buffer_sent l s hist SOCKET_CLOSE (closed (0 < l) s) (?h1 @ close_calls s)
        (answer (s_id s) (s_opaque s) 0 DNull)"
      unfolding buffer_sent_def using f e wrote_trans [OF w wrote_close, of s] close_calls_effect(2) [of ?h1 s] r
      by (intro exI [of _ "[]"] exI [of _ s]) (simp del: append_assoc append.simps)
    ultimately show ?thesis by blast
  next
    case 2
    let ?s = "s\<lparr>s_warn_size := 0\<rparr>"
    have "flushed [] s ?s"
      using assms(1,3)
      by (simp add: flushed_def same_conn_def passed_high)
    then have "buffer_sent l s hist SOCKET_WARNING ?s ?h1 (answer (s_id s) (s_opaque s) 0 DNull)"
      unfolding buffer_sent_def using w r by blast
    then show ?thesis using 2 by (auto simp: c)
  next
    case 3
    have "buffer_sent l s hist R_IGNORE s ?h1 res"
      unfolding buffer_sent_def using f w r by blast
    then show ?thesis using 3 by (auto simp: c)
  qed
qed

lemma list_step_cases:
  assumes "list_step p l s hist res ty s' h' res'"
  obtains (go) out where "shrunk p out s s'" "wrote (s_fd s) out hist h'" "ty = R_IGNORE"
      "registered h' = registered hist" "res' = res"
  | (close) out s1 where "shrunk p out s s1" "wrote (s_fd s) out hist h'" "ty = SOCKET_CLOSE" "s' = closed (0 < l) s1"
      "registered h' = (registered hist)(s_fd s := None)" "fatal (s_fd s) hist h'" "res' = answer (s_id s) (s_opaque s) 0 DNull"
  using assms unfolding list_step_def by blast

lemma flushed_wf:
  assumes "flushed out s s1" and "active s" and "s_dw_lock s \<longleftrightarrow> 0 < l"
  shows "sock_wf s1" and "active s1" and "s_dw_buffer s1 = None" and "s_dw_lock s1 \<longleftrightarrow> 0 < l" and "s_fd s1 = s_fd s"
    and "s_id s1 = s_id s" and "s_opaque s1 = s_opaque s"
  using assms by (auto simp: flushed_def same_conn_def active_def)

lemma closed_sent:
  assumes "flushed out s s1" and "wrote (s_fd s) out hist h'" and "registered h' = (registered hist)(s_fd s := None)"
    and "fatal (s_fd s) hist h'"
  shows "buffer_sent l s hist SOCKET_CLOSE (closed (0 < l) s1) h' (answer (s_id s) (s_opaque s) 0 DNull)"
  unfolding buffer_sent_def using assms by blast

lemma kept_sent:
  assumes "flushed out s s1" and "wrote (s_fd s) out hist h'" and "registered h' = registered hist"
  shows "buffer_sent l s hist R_IGNORE s1 h' res'"
  unfolding buffer_sent_def using assms by blast

text \<open>Steps 2 and 3 of \<open>send_buffer_\<close>, with nothing left in the high list.\<close>

definition send_low :: "kernel \<Rightarrow> nat \<Rightarrow> nat \<Rightarrow> socket_server \<Rightarrow> socket_result \<Rightarrow>
    (socket_report \<times> socket_server \<times> socket_result) option" where
  "send_low K h l ss1 res1 =
    (if s_low (ss_slot ss1 h) = [] then check_close h l ss1 res1
     else do {
       (t2, ss2, res2) \<leftarrow> send_list K PRIORITY_LOW h l ss1 res1;
       if t2 = SOCKET_CLOSE then Some (SOCKET_CLOSE, ss2, res2)
       else if list_uncomplete (s_low (ss_slot ss2 h)) then do {
         s \<leftarrow> raise_uncomplete (ss_slot ss2 h);
         Some (R_IGNORE, put_slot h s ss2, res2) }
       else if s_low (ss_slot ss2 h) \<noteq> [] then Some (R_IGNORE, ss2, res2)
       else check_close h l ss2 res2 })"

lemma closed_low:
  assumes "shrunk PRIORITY_LOW out s s1" and "sock_wf s" and "s_dw_buffer s = None" and "s_high s = []"
  shows "\<exists>s2. closed b s1 = closed b s2 \<and> flushed out s s2"
proof (cases "list_uncomplete (s_low s1)")
  case True
  with shrunk_low(2) [OF assms] obtain s2 where r: "raise_uncomplete s1 = Some s2" "flushed out s s2" by blast
  from r(1) have "closed b s1 = closed b s2"
    by (cases s1) (auto simp: raise_uncomplete_def closed_def c_assert_def split: list.splits if_splits)
  with r(2) show ?thesis by blast
next
  case False
  with shrunk_low(1) [OF assms] show ?thesis by blast
qed

lemma send_low_sends:
  assumes K: "write_answers K" "write_bounded K"
    and s: "sock_wf s" "active s" "s_dw_buffer s = None" "s_dw_lock s \<longleftrightarrow> 0 < l" "s_high s = []"
  shows "\<exists>ty s' h' res'. send_low K h l (upd h s hist ss) res = Some (ty, upd h s' h' ss, res') \<and>
    buffer_sent l s hist ty s' h' res'"
proof (cases "s_low s = []")
  case True
  then show ?thesis using check_close_sends [OF s True] by (simp add: send_low_def)
next
  case False
  have p: "dw_ok s" "list_all wb_ok (wb_list PRIORITY_LOW s)"
    "s_protocol s \<noteq> PROTOCOL_TCP \<longrightarrow> (\<forall>wb \<in> set (wb_list PRIORITY_LOW s). addr_ok (wb_udp_address wb))"
    using s(1) by (auto simp: sock_wf_def udp_wf_def)
  obtain ty s1 h1 res1 where l: "send_list K PRIORITY_LOW h l (upd h s hist ss) res = Some (ty, upd h s1 h1 ss, res1)"
    "list_step PRIORITY_LOW l s hist res ty s1 h1 res1"
    using send_list_step [OF K s(2) p(1) s(4) p(2,3)] by blast
  have red: "send_low K h l (upd h s hist ss) res =
    (if ty = SOCKET_CLOSE then Some (SOCKET_CLOSE, upd h s1 h1 ss, res1)
     else if list_uncomplete (s_low s1) then do { s \<leftarrow> raise_uncomplete s1; Some (R_IGNORE, upd h s h1 ss, res1) }
     else if s_low s1 \<noteq> [] then Some (R_IGNORE, upd h s1 h1 ss, res1)
     else check_close h l (upd h s1 h1 ss) res1)"
    using False l(1) by (simp add: send_low_def)
  from l(2) show ?thesis
  proof (cases rule: list_step_cases)
    case (go out)
    note low = shrunk_low [OF go(1) s(1,3,5)]
    consider "list_uncomplete (s_low s1)" | "\<not> list_uncomplete (s_low s1)" "s_low s1 \<noteq> []" | "s_low s1 = []" by blast
    then show ?thesis
    proof cases
      case 1
      with low(2) obtain s2 where "raise_uncomplete s1 = Some s2" "flushed out s s2" by blast
      with 1 go red kept_sent [of out s s2 hist h1] show ?thesis by auto
    next
      case 2
      with go red kept_sent [OF low(1) go(2,4)] show ?thesis by auto
    next
      case 3
      then have n: "\<not> list_uncomplete (s_low s1)" by (simp add: list_uncomplete_def)
      note f = low(1) [OF n]
      obtain t3 s3 h3 r3 where c: "check_close h l (upd h s1 h1 ss) res1 = Some (t3, upd h s3 h3 ss, r3)"
        "buffer_sent l s1 h1 t3 s3 h3 r3"
        using check_close_sends [OF flushed_wf(1-4) [OF f s(2,4)] low(3) 3] by blast
      have "buffer_sent l s hist t3 s3 h3 r3" by (rule buffer_sent_trans [OF f go(2,4) c(2)])
      with c(1) red n 3 go(3) show ?thesis by auto
    qed
  next
    case (close out s2)
    from closed_low [OF close(1) s(1,3,5)] obtain s3 where "s1 = closed (0 < l) s3" "flushed out s s3"
      using close(4) by metis
    with closed_sent [of out s s3 hist h1 l] close red show ?thesis by auto
  qed
qed

lemma send_buffer_lists_sends:
  assumes K: "write_answers K" "write_bounded K"
    and s: "sock_wf s" "active s" "s_dw_buffer s = None" "s_dw_lock s \<longleftrightarrow> 0 < l"
  shows "\<exists>ty s' h' res'. send_buffer_lists K h l (upd h s hist ss) res = Some (ty, upd h s' h' ss, res') \<and>
    buffer_sent l s hist ty s' h' res'"
proof -
  have p: "dw_ok s" "list_all wb_ok (wb_list PRIORITY_HIGH s)"
    "s_protocol s \<noteq> PROTOCOL_TCP \<longrightarrow> (\<forall>wb \<in> set (wb_list PRIORITY_HIGH s). addr_ok (wb_udp_address wb))"
    "\<not> list_uncomplete (s_low s)"
    using s(1) by (cases "s_low s"; auto simp: sock_wf_def udp_wf_def list_uncomplete_hd)+
  obtain ty s1 h1 res1 where l: "send_list K PRIORITY_HIGH h l (upd h s hist ss) res = Some (ty, upd h s1 h1 ss, res1)"
    "list_step PRIORITY_HIGH l s hist res ty s1 h1 res1"
    using send_list_step [OF K s(2) p(1) s(4) p(2,3)] by blast
  have red: "send_buffer_lists K h l (upd h s hist ss) res =
    (if ty = SOCKET_CLOSE then Some (SOCKET_CLOSE, upd h s1 h1 ss, res1)
     else if s_high s1 \<noteq> [] then Some (R_IGNORE, upd h s1 h1 ss, res1)
     else send_low K h l (upd h s1 h1 ss) res1)"
    using p(4) l(1) by (simp add: send_buffer_lists_def send_low_def)
  from l(2) show ?thesis
  proof (cases rule: list_step_cases)
    case (go out)
    note f = shrunk_high [OF go(1) s(1,3)]
    show ?thesis
    proof (cases "s_high s1 = []")
      case True
      obtain t3 s3 h3 r3 where c: "send_low K h l (upd h s1 h1 ss) res1 = Some (t3, upd h s3 h3 ss, r3)"
        "buffer_sent l s1 h1 t3 s3 h3 r3"
        using send_low_sends [OF K flushed_wf(1-4) [OF f s(2,4)] True] by blast
      have "buffer_sent l s hist t3 s3 h3 r3" by (rule buffer_sent_trans [OF f go(2,4) c(2)])
      with c(1) red True go(3) show ?thesis by auto
    next
      case False
      with go red kept_sent [OF f go(2,4)] show ?thesis by auto
    qed
  next
    case (close out s2)
    note f = shrunk_high [OF close(1) s(1,3)]
    from closed_sent [OF f close(2,5,6), of l] close red show ?thesis by auto
  qed
qed


text \<open>The rest of a direct write in front of the high list.\<close>

lemma take_dw_sends:
  assumes s: "sock_wf s"
  shows "\<exists>s1. take_dw h (upd h s hist ss) = Some (upd h s1 hist ss) \<and> flushed [] s s1"
proof (cases "s_dw_buffer s")
  case None
  then show ?thesis using flushed_refl [OF s None] by (auto simp: take_dw_def)
next
  case (Some buf)
  have d: "int (s_dw_offset s) \<le> s_dw_size s" "s_dw_size s \<le> int (length (b_bytes buf))"
    using s Some by (auto simp: sock_wf_def dw_ok_def)
  have tcp: "s_protocol s = PROTOCOL_TCP" "tcp_wf s" using s Some by (auto simp: sock_wf_def udp_wf_def split: if_splits)
  let ?wb = "\<lparr>wb_buffer = b_ptr buf, wb_ptr = b_ptr buf + s_dw_offset s, wb_bytes = drop (s_dw_offset s) (b_bytes buf),
    wb_sz = s_dw_size s - int (s_dw_offset s), wb_userobject = False, wb_udp_address = []\<rparr>"
  let ?s1 = "s\<lparr>s_wb_size := s_wb_size s + wb_sz ?wb, s_high := ?wb # s_high s, s_dw_buffer := None\<rparr>"
  have t: "take_dw h (upd h s hist ss) = Some (upd h ?s1 hist ss)"
    using d Some by (simp add: take_dw_def send_object_init_def Let_def)
  have w: "wb_ok ?wb" using d by (auto simp: wb_ok_def)
  have data: "wb_data ?wb = dw_rest s"
    using d Some by (simp add: wb_data_def dw_rest_def drop_take nat_diff_distrib')
  have "sock_wf ?s1" using s w tcp Some by (simp add: sock_wf_def tcp_wf_def dw_ok_def)
  moreover have "front ?s1 = front s" "lows ?s1 = lows s" using data by (simp_all add: front_def lows_def dw_rest_def)
  then have "passed [] s ?s1" by (intro passed_high) simp_all
  ultimately have "flushed [] s ?s1" by (simp add: flushed_def same_conn_def)
  with t show ?thesis by blast
qed

lemma flushed_lock:
  assumes "flushed out (s\<lparr>s_dw_lock := True\<rparr>) s1" and "\<not> s_dw_lock s"
  shows "flushed out s (s1\<lparr>s_dw_lock := False\<rparr>)"
  using assms by (auto simp: flushed_def same_conn_def passed_def split: if_splits)

lemma buffer_sent_lock:
  assumes "buffer_sent (Suc 0) (s\<lparr>s_dw_lock := True\<rparr>) hist ty s' h' res'" and "\<not> s_dw_lock s"
  shows "buffer_sent 0 s hist ty (s'\<lparr>s_dw_lock := False\<rparr>) h' res'"
proof -
  from assms(1) obtain out s1 where b: "flushed out (s\<lparr>s_dw_lock := True\<rparr>) s1" "wrote (s_fd s) out hist h'"
    "(ty = R_IGNORE \<or> ty = SOCKET_WARNING) \<and> s' = s1 \<and> registered h' = registered hist \<or>
     ty = SOCKET_CLOSE \<and> s' = closed True s1 \<and> registered h' = (registered hist)(s_fd s := None) \<and>
       (fatal (s_fd s) hist h' \<or> stream s1 = []) \<and> res' = answer (s_id s) (s_opaque s) 0 DNull"
    unfolding buffer_sent_def by auto
  have c: "(closed True s1)\<lparr>s_dw_lock := False\<rparr> = closed False (s1\<lparr>s_dw_lock := False\<rparr>)" by (simp add: closed_def)
  from b(3) have "(ty = R_IGNORE \<or> ty = SOCKET_WARNING) \<and> s'\<lparr>s_dw_lock := False\<rparr> = s1\<lparr>s_dw_lock := False\<rparr> \<and>
       registered h' = registered hist \<or>
     ty = SOCKET_CLOSE \<and> s'\<lparr>s_dw_lock := False\<rparr> = closed (0 < (0 :: nat)) (s1\<lparr>s_dw_lock := False\<rparr>) \<and>
       registered h' = (registered hist)(s_fd s := None) \<and>
       (fatal (s_fd s) hist h' \<or> stream (s1\<lparr>s_dw_lock := False\<rparr>) = []) \<and> res' = answer (s_id s) (s_opaque s) 0 DNull"
    using c by auto
  then show ?thesis unfolding buffer_sent_def using flushed_lock [OF b(1) assms(2)] b(2) by blast
qed

lemma send_buffer_sends:
  assumes K: "write_answers K" "write_bounded K"
    and s: "sock_wf s" "active s" "\<not> s_dw_lock s"
  shows "\<exists>ty s' h' res'. send_buffer K h 0 (upd h s hist ss) res = Some (ty, upd h s' h' ss, res') \<and>
    buffer_sent 0 s hist ty s' h' res'"
proof -
  let ?s = "s\<lparr>s_dw_lock := True\<rparr>"
  have wf: "sock_wf ?s" "active ?s" "s_dw_lock ?s \<longleftrightarrow> 0 < Suc 0" using s by (simp_all add: active_def)
  obtain s1 where d: "take_dw h (upd h ?s hist ss) = Some (upd h s1 hist ss)" "flushed [] ?s s1"
    using take_dw_sends [OF wf(1)] by blast
  obtain ty s2 h2 r2 where b: "send_buffer_lists K h (Suc 0) (upd h s1 hist ss) res = Some (ty, upd h s2 h2 ss, r2)"
    "buffer_sent (Suc 0) s1 hist ty s2 h2 r2"
    using send_buffer_lists_sends [OF K flushed_wf(1-4) [OF d(2) wf(2,3)]] by blast
  have "buffer_sent (Suc 0) ?s hist ty s2 h2 r2"
    by (rule buffer_sent_trans [OF d(2) _ refl b(2)]) simp
  then have "buffer_sent 0 s hist ty (s2\<lparr>s_dw_lock := False\<rparr>) h2 r2" using s(3) by (rule buffer_sent_lock)
  moreover have "send_buffer K h 0 (upd h s hist ss) res = Some (ty, upd h (s2\<lparr>s_dw_lock := False\<rparr>) h2 ss, r2)"
    using s(3) d(1) b(1) by (simp add: send_buffer_def socket_trylock_def socket_unlock_def)
  ultimately show ?thesis by blast
qed

subsection \<open>Appending\<close>

definition raw_ok :: "sbuf \<Rightarrow> int \<Rightarrow> bool" where
  "raw_ok buf sz \<longleftrightarrow> 0 \<le> sz \<and> sz \<le> int (length (b_bytes buf))"

definition payload :: "sbuf \<Rightarrow> int \<Rightarrow> u8 list" where
  "payload buf sz = take (nat sz) (b_bytes buf)"

definition new_wb :: "sbuf \<Rightarrow> int \<Rightarrow> u8 list \<Rightarrow> write_buffer" where
  "new_wb buf sz addr = \<lparr>wb_buffer = b_ptr buf, wb_ptr = b_ptr buf, wb_bytes = b_bytes buf, wb_sz = sz,
     wb_userobject = False, wb_udp_address = addr\<rparr>"

definition appended :: "priority \<Rightarrow> write_buffer \<Rightarrow> sock \<Rightarrow> sock" where
  "appended p wb s = (put_list p (wb_list p s @ [wb]) s)\<lparr>s_wb_size := s_wb_size s + wb_sz wb\<rparr>"

lemma send_object_raw [simp]:
  "raw_ok buf sz \<Longrightarrow> send_object_init ss buf sz =
     Some \<lparr>so_buffer = b_ptr buf, so_bytes = b_bytes buf, so_sz = sz, so_user = False\<rparr>"
  by (simp add: raw_ok_def send_object_init_def)

lemma append_raw:
  "raw_ok buf sz \<Longrightarrow> append_sendbuffer_to ss buf sz addr p s = Some (appended p (new_wb buf sz addr) s)"
  by (cases p) (simp_all add: append_sendbuffer_to_def appended_def new_wb_def Let_def)

lemma new_wb_facts:
  "raw_ok buf sz \<Longrightarrow> wb_ok (new_wb buf sz addr)" "complete (new_wb buf sz addr)"
  "wb_data (new_wb buf sz addr) = payload buf sz" "wb_udp_address (new_wb buf sz addr) = addr"
  by (simp_all add: raw_ok_def new_wb_def wb_ok_def complete_def wb_data_def payload_def)

lemma appended_same: "same_conn s (appended p wb s)" "s_dw_buffer (appended p wb s) = s_dw_buffer s"
  "dw_ok (appended p wb s) = dw_ok s" "tcp_wf (appended p wb s) = tcp_wf s" "dw_rest (appended p wb s) = dw_rest s"
  by (cases p; simp add: appended_def same_conn_def dw_ok_def tcp_wf_def dw_rest_def split: option.split)+

lemma tl_snoc_all: "list_all P (tl xs) \<Longrightarrow> P x \<Longrightarrow> list_all P (tl (xs @ [x]))"
  by (cases xs) simp_all

lemma appended_wf:
  assumes s: "sock_wf s" and wb: "wb_ok wb" "complete wb"
    and a: "s_protocol s \<noteq> PROTOCOL_TCP \<longrightarrow> addr_ok (wb_udp_address wb)"
  shows "sock_wf (appended p wb s)"
proof -
  have "udp_wf (appended p wb s)" if "udp_wf s" "s_protocol s \<noteq> PROTOCOL_TCP"
    using that a by (cases p) (auto simp: udp_wf_def appended_def)
  moreover have "s_protocol (appended p wb s) = s_protocol s" using appended_same(1) by (simp add: same_conn_def)
  ultimately show ?thesis
    using s wb tl_snoc_all [of complete "s_high s" wb] appended_same(2-4) [of p wb s]
    by (cases p) (auto simp: sock_wf_def appended_def split: if_splits)
qed

lemma appended_front:
  "front (appended PRIORITY_HIGH wb s) = front s @ wb_data wb" "lows (appended PRIORITY_HIGH wb s) = lows s"
  "front (appended PRIORITY_LOW wb s) = front s" "lows (appended PRIORITY_LOW wb s) = lows s @ [wb_data wb]"
  using appended_same(5) [of PRIORITY_HIGH wb s] appended_same(5) [of PRIORITY_LOW wb s]
  by (simp_all add: front_def lows_def appended_def)

lemma appended_stream:
  "stream (appended PRIORITY_HIGH wb s) = dw_rest s @ list_data (s_high s) @ wb_data wb @ list_data (s_low s)"
  "stream (appended PRIORITY_LOW wb s) = stream s @ wb_data wb"
proof -
  show "stream (appended PRIORITY_HIGH wb s) = dw_rest s @ list_data (s_high s) @ wb_data wb @ list_data (s_low s)"
    using appended_same(5) [of PRIORITY_HIGH wb s] by (simp add: stream_def appended_def)
  show "stream (appended PRIORITY_LOW wb s) = stream s @ wb_data wb"
    using appended_same(5) [of PRIORITY_LOW wb s] by (simp add: stream_def appended_def)
qed

end
