(* ===== verification/SocketSafe.thy ===== *)
theory SocketSafe
  imports SocketLists
begin

section \<open>The socket server keeps its invariant\<close>

text \<open>
  The invariant of \<open>struct socket_server\<close> and its preservation by every command in the control pipe,
  every event and every request: no assertion of \<open>socket_server.c\<close> fails, no lock is taken twice, no
  buffer is read beyond its end. The invariant ties four things together: the slots, the packets in the
  pipe (which reserve slots and count as data in flight), the descriptors \<open>epoll\<close> watches, and the
  events that are still to be handled.
\<close>

subsection \<open>The invariant\<close>

definition slot_ok :: "nat \<Rightarrow> sock \<Rightarrow> bool" where
  "slot_ok h s \<longleftrightarrow> \<not> s_dw_lock s \<and>
     (if active s then sock_wf s \<and> drop_bit 16 (s_sending s) = ID_TAG16 (s_id s)
      else s_high s = [] \<and> s_low s = []) \<and>
     (s_type s \<noteq> SOCKET_TYPE_INVALID \<longrightarrow> HASH_ID (s_id s) = h) \<and>
     (s_type s = SOCKET_TYPE_RESERVE \<longrightarrow> s_protocol s = PROTOCOL_UNKNOWN)"

text \<open>The ids a packet opens, uses, or counts as data in flight for.\<close>

fun open_id :: "request \<Rightarrow> i32 option" where
  "open_id (ReqB i _ _) = Some i"
| "open_id (ReqL i _ _) = Some i"
| "open_id (ReqO i _ _ _) = Some i"
| "open_id (ReqU i _ _ _) = Some i"
| "open_id _ = None"

fun use_id :: "request \<Rightarrow> i32 option" where
  "use_id (ReqS i _) = Some i"
| "use_id (ReqK i _ _) = Some i"
| "use_id (ReqD i _ _) = Some i"
| "use_id (ReqP i _ _) = Some i"
| "use_id (ReqA i _ _ _) = Some i"
| "use_id (ReqC i _) = Some i"
| "use_id (ReqT i _ _) = Some i"
| "use_id _ = None"

fun ref_id :: "request \<Rightarrow> i32 option" where
  "ref_id (ReqD i _ _) = Some i"
| "ref_id (ReqP i _ _) = Some i"
| "ref_id _ = None"

text \<open>What a packet carries can be read.\<close>

definition udp_addr :: "u8 list \<Rightarrow> bool" where
  "udp_addr a \<longleftrightarrow> (case a of [] \<Rightarrow> False | ty # _ \<Rightarrow> (ty = 1 \<or> ty = 2) \<and> addr_ok a)"

fun packet_ok :: "packet \<Rightarrow> bool" where
  "packet_ok (len, ReqO i port q host) = (offsetof_host + length host < unat len)"
| "packet_ok (len, ReqD i sz buf) = raw_ok buf sz"
| "packet_ok (len, ReqP i sz buf) = raw_ok buf sz"
| "packet_ok (len, ReqA i sz buf a) = (raw_ok buf sz \<and> udp_addr a)"
| "packet_ok (len, ReqC i a) = udp_addr a"
| "packet_ok _ = True"

definition opens :: "packet list \<Rightarrow> i32 list" where
  "opens ps = List.map_filter (open_id \<circ> snd) ps"

definition pending :: "i32 \<Rightarrow> packet list \<Rightarrow> nat" where
  "pending i ps = length (filter (\<lambda>p. ref_id (snd p) = Some i) ps)"

text \<open>No packet uses an id before the packet that opens it.\<close>

fun order_ok :: "packet list \<Rightarrow> bool" where
  "order_ok [] = True"
| "order_ok (p # ps) = ((\<forall>i. use_id (snd p) = Some i \<longrightarrow> i \<notin> set (opens ps)) \<and> order_ok ps)"

definition udp_open :: "i32 \<Rightarrow> packet list \<Rightarrow> bool" where
  "udp_open i ps \<longleftrightarrow> (\<exists>len fd family q. (len, ReqU i fd family q) \<in> set ps)"

text \<open>The slots that are reserved, and the packets that open them.\<close>

definition reserved :: "(nat \<Rightarrow> sock) \<Rightarrow> i32 \<Rightarrow> bool" where
  "reserved S i \<longleftrightarrow> s_type (S (HASH_ID i)) = SOCKET_TYPE_RESERVE \<and> s_id (S (HASH_ID i)) = i"

definition in_flight :: "sock \<Rightarrow> nat" where
  "in_flight s = unat (s_sending s) mod 2 ^ 16"

definition pipe_inv :: "(nat \<Rightarrow> sock) \<Rightarrow> packet list \<Rightarrow> bool" where
  "pipe_inv S ps \<longleftrightarrow> list_all packet_ok ps \<and> order_ok ps \<and> distinct (opens ps) \<and>
     (\<forall>i. reserved S i \<longleftrightarrow> i \<in> set (opens ps)) \<and>
     (\<forall>i. reserved S i \<and> 0 < pending i ps \<longrightarrow> udp_open i ps) \<and>
     (\<forall>h. s_protocol (S h) = PROTOCOL_TCP \<and> HASH_ID (s_id (S h)) = h \<longrightarrow> pending (s_id (S h)) ps \<le> in_flight (S h))"

text \<open>The sockets that \<open>epoll\<close> watches, and the events left.\<close>

definition polled :: "sock \<Rightarrow> bool" where
  "polled s \<longleftrightarrow> active s \<and> s_type s \<noteq> SOCKET_TYPE_PACCEPT \<and> s_type s \<noteq> SOCKET_TYPE_PLISTEN"

definition reg_inv :: "(nat \<Rightarrow> sock) \<Rightarrow> sys list \<Rightarrow> bool" where
  "reg_inv S hist \<longleftrightarrow> (\<forall>fd h. registered hist fd = Some (Some h) \<longrightarrow> polled (S h) \<and> s_fd (S h) = fd)"

definition event_slots :: "poll_event list \<Rightarrow> nat list" where
  "event_slots es = List.map_filter e_s es"

definition ev_inv :: "nat set \<Rightarrow> (nat \<Rightarrow> sock) \<Rightarrow> poll_event list \<Rightarrow> bool" where
  "ev_inv X S es \<longleftrightarrow> distinct (event_slots es) \<and> (\<forall>h \<in> set (event_slots es). polled (S h) \<or> h \<in> X)"

definition events_left :: "socket_server \<Rightarrow> poll_event list" where
  "events_left ss = drop (ss_event_index ss) (ss_ev ss)"

definition ss_core :: "socket_server \<Rightarrow> bool" where
  "ss_core ss \<longleftrightarrow> (\<forall>h. slot_ok h (ss_slot ss h)) \<and> pipe_inv (ss_slot ss) (ss_pipe ss) \<and>
     reg_inv (ss_slot ss) (ss_sys ss) \<and>
     ss_event_index ss \<le> ss_event_n ss \<and> ss_event_n ss = length (ss_ev ss)"

definition ss_inv :: "socket_server \<Rightarrow> bool" where
  "ss_inv ss \<longleftrightarrow> ss_core ss \<and> ev_inv {} (ss_slot ss) (events_left ss)"

subsection \<open>Lists of packets\<close>

lemma opens_simps [simp]:
  "opens [] = []" "opens (p # ps) = (case open_id (snd p) of None \<Rightarrow> opens ps | Some i \<Rightarrow> i # opens ps)"
  "opens (ps @ qs) = opens ps @ opens qs"
  by (simp_all add: opens_def map_filter_simps split: option.split) (simp add: List.map_filter_def)

lemma pending_simps [simp]:
  "pending i [] = 0" "pending i (p # ps) = (if ref_id (snd p) = Some i then Suc (pending i ps) else pending i ps)"
  "pending i (ps @ qs) = pending i ps + pending i qs"
  by (simp_all add: pending_def)

lemma event_slots_simps [simp]:
  "event_slots [] = []" "event_slots (e # es) = (case e_s e of None \<Rightarrow> event_slots es | Some h \<Rightarrow> h # event_slots es)"
  by (simp_all add: event_slots_def map_filter_simps split: option.split)

lemma order_ok_append:
  "order_ok (ps @ qs) \<longleftrightarrow> order_ok ps \<and> order_ok qs \<and> (\<forall>p \<in> set ps. \<forall>i. use_id (snd p) = Some i \<longrightarrow> i \<notin> set (opens qs))"
  by (induction ps) auto

lemma ref_use: "ref_id r = Some i \<Longrightarrow> use_id r = Some i"
  by (cases r) simp_all

lemma use_not_open: "use_id r = Some i \<Longrightarrow> open_id r = None"
  by (cases r) simp_all

text \<open>A slot that is not reserved before or after a change.\<close>

lemma reserved_upd:
  assumes "s_type (S h) \<noteq> SOCKET_TYPE_RESERVE" and "s_type s \<noteq> SOCKET_TYPE_RESERVE"
  shows "reserved (S(h := s)) i \<longleftrightarrow> reserved S i"
  using assms by (auto simp: reserved_def)

lemma pipe_inv_upd:
  assumes "pipe_inv S ps" and "s_type (S h) \<noteq> SOCKET_TYPE_RESERVE" and "s_type s \<noteq> SOCKET_TYPE_RESERVE"
    and "s_id s = s_id (S h)" and "s_protocol s = s_protocol (S h)" and "in_flight s = in_flight (S h)"
  shows "pipe_inv (S(h := s)) ps"
  using assms(1,4-6) unfolding pipe_inv_def reserved_upd [of S h s, OF assms(2,3)] by simp

lemma reg_inv_upd:
  assumes "reg_inv S hist" and "registered hist' = registered hist" and "polled (S h) \<Longrightarrow> polled s \<and> s_fd s = s_fd (S h)"
  shows "reg_inv (S(h := s)) hist'"
  using assms by (auto simp: reg_inv_def)

lemma reg_inv_close:
  assumes "reg_inv S hist" and "registered hist' = (registered hist)(s_fd (S h) := None)"
  shows "reg_inv (S(h := s)) hist'"
  using assms by (fastforce simp: reg_inv_def)

lemma ev_inv_upd:
  assumes "ev_inv X S es" and "polled (S h) \<Longrightarrow> polled s \<or> h \<in> Y" and "X \<subseteq> Y"
  shows "ev_inv Y (S(h := s)) es"
  using assms by (auto simp: ev_inv_def)

text \<open>Reading the head of the pipe.\<close>

lemma pipe_inv_use:
  assumes "pipe_inv S (p # ps)" and "open_id (snd p) = None"
  shows "pipe_inv S ps" and "packet_ok p" and "use_id (snd p) = Some i \<Longrightarrow> \<not> reserved S i"
proof -
  have "udp_open i ps" if "udp_open i (p # ps)" for i
    using that assms(2) by (auto simp: udp_open_def)
  with assms show "pipe_inv S ps" "packet_ok p"
    by (auto simp: pipe_inv_def split: if_splits)
  show "\<not> reserved S i" if "use_id (snd p) = Some i"
    using assms that by (auto simp: pipe_inv_def)
qed

subsection \<open>Outcomes of the operations on a socket\<close>

text \<open>An operation on slot \<open>h\<close> succeeds with a report; afterwards the invariant holds, except that events
  for a socket it has closed may be left over. Those are cleared by the report.\<close>

definition keeps :: "socket_report \<Rightarrow> socket_result \<Rightarrow> socket_server \<Rightarrow> socket_server \<Rightarrow> bool" where
  "keeps ty res ss ss' \<longleftrightarrow> ss_core ss' \<and> events_left ss' = events_left ss \<and> ss_pipe ss' = ss_pipe ss \<and>
     ss_alloc_id ss' = ss_alloc_id ss \<and>
     ev_inv (if ty = SOCKET_CLOSE \<or> ty = SOCKET_ERR
             then {h. h = HASH_ID (r_id res) \<and> s_type (ss_slot ss' h) = SOCKET_TYPE_INVALID \<and> s_id (ss_slot ss' h) = r_id res} else {})
       (ss_slot ss') (events_left ss')"

lemma events_left_upd [simp]: "events_left (upd h s hist ss) = events_left ss"
  by (simp add: events_left_def)

lemma slot_ok_active:
  "slot_ok h s \<Longrightarrow> active s \<Longrightarrow> sock_wf s \<and> \<not> s_dw_lock s \<and> drop_bit 16 (s_sending s) = ID_TAG16 (s_id s) \<and> HASH_ID (s_id s) = h"
  by (auto simp: slot_ok_def active_def)

lemma inv_slot: "ss_inv ss \<Longrightarrow> slot_ok h (ss_slot ss h)"
  by (simp add: ss_inv_def ss_core_def)

lemma inv_pending:
  assumes "ss_inv ss" and "s_protocol (ss_slot ss h) = PROTOCOL_TCP" and "HASH_ID (s_id (ss_slot ss h)) = h"
  shows "pending (s_id (ss_slot ss h)) (ss_pipe ss) \<le> in_flight (ss_slot ss h)"
  using assms unfolding ss_inv_def ss_core_def pipe_inv_def by blast

text \<open>A change of an active socket that keeps its identity.\<close>

definition same_id :: "sock \<Rightarrow> sock \<Rightarrow> bool" where
  "same_id s s' \<longleftrightarrow> s_id s' = s_id s \<and> s_fd s' = s_fd s \<and> s_protocol s' = s_protocol s \<and> s_sending s' = s_sending s"

lemma slot_ok_upd: "(\<And>g. slot_ok g (S g)) \<Longrightarrow> slot_ok h s \<Longrightarrow> slot_ok g ((S(h := s)) g)"
  by simp

lemma keep_upd:
  assumes inv: "ss_inv ss" and s: "ss_slot ss h = s" "active s"
    and s': "active s'" "sock_wf s'" "\<not> s_dw_lock s'" "same_id s s'" "polled s \<Longrightarrow> polled s'"
    and reg: "registered hist' = registered (ss_sys ss)"
  shows "ss_inv (upd h s' hist' ss)"
proof -
  have ok: "slot_ok h s" using inv s(1) inv_slot by blast
  have "slot_ok h s'"
    using slot_ok_active [OF ok s(2)] s' by (simp add: slot_ok_def same_id_def active_def)
  moreover have "pipe_inv ((ss_slot ss)(h := s')) (ss_pipe ss)"
    using inv s s' by (intro pipe_inv_upd) (auto simp: ss_inv_def ss_core_def active_def same_id_def in_flight_def)
  moreover have "reg_inv ((ss_slot ss)(h := s')) hist'"
    using inv s s' reg by (intro reg_inv_upd [of _ "ss_sys ss"]) (auto simp: ss_inv_def ss_core_def same_id_def)
  moreover have "ev_inv {} ((ss_slot ss)(h := s')) (events_left ss)"
    using inv s s' by (intro ev_inv_upd [of "{}"]) (auto simp: ss_inv_def)
  ultimately show ?thesis
    using inv by (simp add: ss_inv_def ss_core_def)
qed

lemma ev_inv_mono: "ev_inv X S es \<Longrightarrow> X \<subseteq> Y \<Longrightarrow> ev_inv Y S es"
  by (auto simp: ev_inv_def)

lemma inv_keeps:
  assumes "ss_inv ss'" and "events_left ss' = events_left ss" and "ss_pipe ss' = ss_pipe ss" and "ss_alloc_id ss' = ss_alloc_id ss"
  shows "keeps ty res ss ss'"
proof -
  have "ev_inv {} (ss_slot ss') (events_left ss')" using assms(1) by (simp add: ss_inv_def)
  then have "ev_inv X (ss_slot ss') (events_left ss')" for X by (rule ev_inv_mono) simp
  with assms show ?thesis by (simp add: keeps_def ss_inv_def)
qed

lemma inv_keeps_upd: "ss_inv (upd h s' hist' ss) \<Longrightarrow> keeps ty res ss (upd h s' hist' ss)"
  by (rule inv_keeps) simp_all

lemma closed_simps [simp]:
  "s_id (closed b s) = s_id s" "s_fd (closed b s) = s_fd s" "s_protocol (closed b s) = s_protocol s"
  "s_sending (closed b s) = s_sending s" "s_type (closed b s) = SOCKET_TYPE_INVALID" "s_dw_lock (closed b s) = b"
  "s_high (closed b s) = []" "s_low (closed b s) = []" "s_opaque (closed b s) = s_opaque s"
  "s_dw_buffer (closed b s) = None" "\<not> active (closed b s)"
  by (simp_all add: closed_def active_def)

lemma close_keeps:
  assumes inv: "ss_inv ss" and s: "ss_slot ss h = s" "active s" and s1: "same_id s s1"
    and reg: "registered hist' = (registered (ss_sys ss))(s_fd s := None)"
    and res: "r_id res = s_id s" and ty: "ty = SOCKET_CLOSE \<or> ty = SOCKET_ERR"
  shows "keeps ty res ss (upd h (closed False s1) hist' ss)"
proof -
  let ?s = "closed False s1"
  let ?S = "(ss_slot ss)(h := ?s)"
  have "slot_ok h ?s" by (simp add: slot_ok_def)
  moreover have "pipe_inv ?S (ss_pipe ss)"
    using inv s s1 by (intro pipe_inv_upd) (auto simp: ss_inv_def ss_core_def active_def same_id_def in_flight_def)
  moreover have "reg_inv ?S hist'"
    using inv s reg by (intro reg_inv_close [of _ "ss_sys ss"]) (auto simp: ss_inv_def ss_core_def)
  moreover have hs: "h = HASH_ID (s_id s)" using inv_slot [OF inv, of h] s slot_ok_active [of h s] by simp
  have "ev_inv {h} ?S (events_left ss)"
    using inv by (intro ev_inv_upd [of "{}"]) (auto simp: ss_inv_def)
  then have "ev_inv {g. g = HASH_ID (r_id res) \<and> s_type (?S g) = SOCKET_TYPE_INVALID \<and> s_id (?S g) = r_id res} ?S (events_left ss)"
    using s1 res hs by (elim ev_inv_mono) (simp add: same_id_def)
  ultimately show ?thesis
    using inv ty by (auto simp: keeps_def ss_inv_def ss_core_def)
qed

lemma same_conn_id: "same_conn s s' \<Longrightarrow> same_id s s' \<and> active s' = active s \<and> polled s' = polled s \<and> s_dw_lock s' = s_dw_lock s"
  by (simp add: same_conn_def same_id_def active_def polled_def)

text \<open>Flushing the buffers of a socket.\<close>

lemma buffer_sent_keeps:
  assumes inv: "ss_inv ss" and s: "ss_slot ss h = s" "active s"
    and b: "buffer_sent 0 s (ss_sys ss) ty s' h' res'"
  shows "keeps ty res' ss (upd h s' h' ss)" and "ty \<noteq> SOCKET_CLOSE \<Longrightarrow> ss_inv (upd h s' h' ss) \<and> same_conn s s'"
    and "ty = R_IGNORE \<or> ty = SOCKET_WARNING \<or> ty = SOCKET_CLOSE"
proof -
  have ok: "\<not> s_dw_lock s" using inv_slot [OF inv, of h] s slot_ok_active by blast
  from b obtain out s1 where f: "flushed out s s1"
    "(ty = R_IGNORE \<or> ty = SOCKET_WARNING) \<and> s' = s1 \<and> registered h' = registered (ss_sys ss) \<or>
     ty = SOCKET_CLOSE \<and> s' = closed False s1 \<and> registered h' = (registered (ss_sys ss))(s_fd s := None) \<and>
       res' = answer (s_id s) (s_opaque s) 0 DNull"
    unfolding buffer_sent_def by auto
  have c: "sock_wf s1" "same_conn s s1" using f(1) by (simp_all add: flushed_def)
  have keep: "ss_inv (upd h s1 h' ss)" if "registered h' = registered (ss_sys ss)"
    using same_conn_id [OF c(2)] ok s c(1) that by (intro keep_upd [OF inv s]) auto
  have close: "keeps SOCKET_CLOSE (answer (s_id s) (s_opaque s) 0 DNull) ss (upd h (closed False s1) h' ss)"
    if "registered h' = (registered (ss_sys ss))(s_fd s := None)"
    using same_conn_id [OF c(2)] that by (intro close_keeps [OF inv s]) (auto simp: answer_def)
  show "keeps ty res' ss (upd h s' h' ss)" using f(2) keep close inv_keeps_upd by blast
  show "ty \<noteq> SOCKET_CLOSE \<Longrightarrow> ss_inv (upd h s' h' ss) \<and> same_conn s s'" using f(2) keep c(2) by blast
  show "ty = R_IGNORE \<or> ty = SOCKET_WARNING \<or> ty = SOCKET_CLOSE" using f(2) by blast
qed

lemma send_buffer_keeps:
  assumes K: "write_answers K" "write_bounded K" and inv: "ss_inv ss" and s: "ss_slot ss h = s" "active s"
  shows "\<exists>ty s' h' res'. send_buffer K h 0 ss res = Some (ty, upd h s' h' ss, res') \<and>
    buffer_sent 0 s (ss_sys ss) ty s' h' res'"
proof -
  have "sock_wf s" "\<not> s_dw_lock s" using inv_slot [OF inv, of h] s slot_ok_active by blast+
  from send_buffer_sends [OF K this(1) s(2) this(2), of h "ss_sys ss" ss res]
  show ?thesis using upd_same [of h ss] s(1) by simp
qed

lemma force_close_keeps:
  assumes inv: "ss_inv ss" and s: "ss_slot ss h = s" "active s" and ty: "ty = SOCKET_CLOSE \<or> ty = SOCKET_ERR"
    and still: "registered hist = registered (ss_sys ss)"
  shows "\<exists>ss' res'. force_close h 0 (upd h s hist ss) = Some (ss', res') \<and> r_id res' = s_id s \<and>
    (\<forall>res. r_id res = s_id s \<longrightarrow> keeps ty res ss ss')"
proof -
  have ok: "sock_wf s" "\<not> s_dw_lock s" using inv_slot [OF inv, of h] s slot_ok_active by blast+
  have "force_close h 0 (upd h s hist ss) =
    Some (upd h (closed False s) (hist @ close_calls s) ss, answer (s_id s) (s_opaque s) 0 DNull)"
    using force_close_upd [OF s(2), of 0 h hist ss] ok by (simp add: sock_wf_def)
  moreover have "keeps ty res ss (upd h (closed False s) (hist @ close_calls s) ss)" if "r_id res = s_id s" for res
    using that ty close_calls_effect(2) [of hist s] still
    by (intro close_keeps [OF inv s]) (simp_all add: same_id_def)
  ultimately show ?thesis by (simp add: answer_def)
qed

subsection \<open>Commands that use an id\<close>

text \<open>The slot of an id that is not reserved is in use by it, or the id is unknown.\<close>

lemma id_cases:
  assumes "\<not> reserved (ss_slot ss) i"
  obtains (unknown) "s_type (ss_slot ss (HASH_ID i)) = SOCKET_TYPE_INVALID \<or> s_id (ss_slot ss (HASH_ID i)) \<noteq> i"
  | (known) "active (ss_slot ss (HASH_ID i))" "s_id (ss_slot ss (HASH_ID i)) = i"
  using assms by (auto simp: reserved_def active_def)

lemma keeps_from:
  "keeps ty res ss1 ss2 \<Longrightarrow> events_left ss1 = events_left ss \<Longrightarrow> ss_pipe ss1 = ss_pipe ss \<Longrightarrow>
    ss_alloc_id ss1 = ss_alloc_id ss \<Longrightarrow> keeps ty res ss ss2"
  unfolding keeps_def by metis

lemma keeps_refl: "ss_inv ss \<Longrightarrow> keeps ty res ss ss"
  by (rule inv_keeps) simp_all

lemma keeps_call [simp]: "events_left (call_sys c ss) = events_left ss" "ss_pipe (call_sys c ss) = ss_pipe ss"
  "ss_alloc_id (call_sys c ss) = ss_alloc_id ss" "ss_slot (call_sys c ss) = ss_slot ss" "ss_sys (call_sys c ss) = ss_sys ss @ [c]"
  by (simp_all add: call_sys_def events_left_def)

lemma inv_call: "ss_inv ss \<Longrightarrow> quiet1 c \<Longrightarrow> ss_inv (call_sys c ss)"
  by (simp add: ss_inv_def ss_core_def events_left_def call_sys_def reg_inv_def quiet1_reg)

lemma watch_upd:
  assumes inv: "ss_inv ss" and s: "ss_slot ss h = s" "active s" "\<not> polled s"
    and s': "active s'" "sock_wf s'" "\<not> s_dw_lock s'" "same_id s s'" "polled s'"
    and reg: "registered hist' = (registered (ss_sys ss))(s_fd s \<mapsto> Some h)"
  shows "ss_inv (upd h s' hist' ss)"
proof -
  have "ss_inv (upd h s' (ss_sys ss) ss)" using s' s(3) by (intro keep_upd [OF inv s(1,2)]) simp_all
  moreover have "reg_inv ((ss_slot ss)(h := s')) hist'"
    using inv s s' reg by (auto simp: reg_inv_def ss_inv_def ss_core_def same_id_def)
  ultimately show ?thesis by (simp add: ss_inv_def ss_core_def)
qed

lemma start_socket_keeps:
  assumes inv: "ss_inv ss" and i: "\<not> reserved (ss_slot ss) i"
  shows "\<exists>ty ss' res'. start_socket K i q ss = Some (ty, ss', res') \<and> keeps ty res' ss ss'"
  using i
proof (cases rule: id_cases)
  case unknown
  then show ?thesis using keeps_refl [OF inv] by (auto simp: start_socket_def Let_def)
next
  case known
  define h where "h = HASH_ID i"
  define s where "s = ss_slot ss h"
  have s: "ss_slot ss h = s" "active s" "s_id s = i" "sock_wf s" "\<not> s_dw_lock s"
    using known inv_slot [OF inv, of h] slot_ok_active [of h s] by (auto simp: s_def h_def)
  have ne: "s_type s \<noteq> SOCKET_TYPE_INVALID" using s(2) by (simp add: active_def)
  note d = start_socket_def Let_def h_def [symmetric] s(1,3) ne
  consider (p) "s_type s = SOCKET_TYPE_PACCEPT \<or> s_type s = SOCKET_TYPE_PLISTEN"
    | (c) "s_type s = SOCKET_TYPE_CONNECTED"
    | (o) "s_type s \<noteq> SOCKET_TYPE_PACCEPT" "s_type s \<noteq> SOCKET_TYPE_PLISTEN" "s_type s \<noteq> SOCKET_TYPE_CONNECTED" by blast
  then show ?thesis
  proof cases
    case p
    show ?thesis
    proof (cases "k_epoll_add K (ss_sys ss) (s_fd s)")
      case None
      let ?s = "s\<lparr>s_type := (if s_type s = SOCKET_TYPE_PACCEPT then SOCKET_TYPE_CONNECTED else SOCKET_TYPE_LISTEN), s_opaque := q\<rparr>"
      let ?hist = "ss_sys ss @ [EpollAdd (s_fd s) (Some h) True]"
      have e: "start_socket K i q ss = Some (SOCKET_OPEN, upd h ?s ?hist ss, answer i q 0 (DStr (str ''start'')))"
        using p None by (auto simp: d sp_add_def put_slot_def upd_def)
      have "ss_inv (upd h ?s ?hist ss)"
        using s p by (intro watch_upd [OF inv s(1,2)]) (auto simp: active_def polled_def same_id_def)
      then show ?thesis using e inv_keeps_upd by blast
    next
      case (Some e)
      let ?hist = "ss_sys ss @ [EpollAdd (s_fd s) (Some h) False]"
      have u: "ss\<lparr>ss_sys := ?hist\<rparr> = upd h s ?hist ss" by (simp add: upd_def s(1)[symmetric])
      obtain ss' res' where f: "force_close h 0 (upd h s ?hist ss) = Some (ss', res')" "r_id res' = s_id s"
        "\<And>res. r_id res = s_id s \<Longrightarrow> keeps SOCKET_ERR res ss ss'"
        using force_close_keeps [OF inv s(1,2), of SOCKET_ERR ?hist] by auto
      have "start_socket K i q ss = Some (SOCKET_ERR, ss', res'\<lparr>r_data := DStr (k_strerror K e)\<rparr>)"
        using p Some f(1) by (auto simp: d sp_add_def u)
      then show ?thesis using f(2,3) by auto
    qed
  next
    case c
    have e: "start_socket K i q ss = Some (SOCKET_OPEN, upd h (s\<lparr>s_opaque := q\<rparr>) (ss_sys ss) ss, answer i q 0 (DStr (str ''transfer'')))"
      using c by (simp add: d put_upd)
    have "ss_inv (upd h (s\<lparr>s_opaque := q\<rparr>) (ss_sys ss) ss)"
      using s by (intro keep_upd [OF inv s(1,2)]) (simp_all add: active_def polled_def same_id_def)
    then show ?thesis using e inv_keeps_upd by blast
  next
    case o
    then show ?thesis using keeps_refl [OF inv] by (simp add: d)
  qed
qed

lemma close_socket_keeps:
  assumes K: "write_answers K" "write_bounded K" and inv: "ss_inv ss" and i: "\<not> reserved (ss_slot ss) i"
  shows "\<exists>ty ss' res'. close_socket K i shutdown q ss res = Some (ty, ss', res') \<and> keeps ty res' ss ss'"
  using i
proof (cases rule: id_cases)
  case unknown
  then show ?thesis using keeps_refl [OF inv] by (auto simp: close_socket_def Let_def)
next
  case known
  define h where "h = HASH_ID i"
  define s where "s = ss_slot ss h"
  have s: "ss_slot ss h = s" "active s" "s_id s = i" "sock_wf s" "\<not> s_dw_lock s"
    using known inv_slot [OF inv, of h] slot_ok_active [of h s] by (auto simp: s_def h_def)
  have ne: "s_type s \<noteq> SOCKET_TYPE_INVALID" using s(2) by (simp add: active_def)
  have "\<exists>ty s1 h1 res1. (if nomore_sending_data s then Some (R_IGNORE, ss, res) else send_buffer K h 0 ss res) =
      Some (ty, upd h s1 h1 ss, res1) \<and> keeps ty res1 ss (upd h s1 h1 ss) \<and>
      (ty = R_IGNORE \<or> ty = SOCKET_WARNING \<or> ty = SOCKET_CLOSE) \<and>
      (ty \<noteq> SOCKET_CLOSE \<longrightarrow> ss_inv (upd h s1 h1 ss) \<and> same_conn s s1)"
  proof (cases "nomore_sending_data s")
    case True
    then show ?thesis using keeps_refl [OF inv] inv upd_same [of h ss] s(1)
      by (intro exI [of _ R_IGNORE] exI [of _ s] exI [of _ "ss_sys ss"] exI [of _ res]) simp
  next
    case False
    then show ?thesis using send_buffer_keeps [OF K inv s(1,2), of res] buffer_sent_keeps [OF inv s(1,2)] by metis
  qed
  then obtain ty s1 h1 res1 where b:
    "(if nomore_sending_data s then Some (R_IGNORE, ss, res) else send_buffer K h 0 ss res) = Some (ty, upd h s1 h1 ss, res1)"
    "keeps ty res1 ss (upd h s1 h1 ss)" "ty = R_IGNORE \<or> ty = SOCKET_WARNING \<or> ty = SOCKET_CLOSE"
    "ty \<noteq> SOCKET_CLOSE \<Longrightarrow> ss_inv (upd h s1 h1 ss) \<and> same_conn s s1" by blast
  have red: "close_socket K i shutdown q ss res =
    (if ty = SOCKET_CLOSE then Some (ty, upd h s1 h1 ss, res1)
     else if shutdown \<or> nomore_sending_data s1 then do {
       (ss2, res2) \<leftarrow> force_close h 0 (upd h s1 h1 ss);
       Some (SOCKET_CLOSE, ss2, res2\<lparr>r_id := i, r_opaque := q\<rparr>) }
     else Some (R_IGNORE, upd h (s1\<lparr>s_type := SOCKET_TYPE_HALFCLOSE\<rparr>) h1 ss, res1))"
    using b(1,3) by (auto simp: close_socket_def Let_def h_def [symmetric] s(1,3) ne set_type_def)
  show ?thesis
  proof (cases "ty = SOCKET_CLOSE")
    case True
    then show ?thesis using red b(2) by auto
  next
    case False
    have inv1: "ss_inv (upd h s1 h1 ss)" and c: "same_conn s s1" using b(4) False by auto
    have a1: "ss_slot (upd h s1 h1 ss) h = s1" "active s1" "s_id s1 = i"
      using s same_conn_id [OF c] c by (simp_all add: same_conn_def)
    show ?thesis
    proof (cases "shutdown \<or> nomore_sending_data s1")
      case True
      obtain ss2 res2 where f: "force_close h 0 (upd h s1 h1 ss) = Some (ss2, res2)"
        "\<And>res. r_id res = i \<Longrightarrow> keeps SOCKET_CLOSE res (upd h s1 h1 ss) ss2"
        using force_close_keeps [OF inv1 a1(1,2), of SOCKET_CLOSE h1] a1(3) by auto
      have "keeps SOCKET_CLOSE (res2\<lparr>r_id := i, r_opaque := q\<rparr>) ss ss2"
        using keeps_from [OF f(2) [of "res2\<lparr>r_id := i, r_opaque := q\<rparr>"]] by simp
      then show ?thesis using red False True f(1) by auto
    next
      case nf: False
      have p: "polled s1" if "polled s" using that same_conn_id [OF c] by simp
      have "ss_inv (upd h (s1\<lparr>s_type := SOCKET_TYPE_HALFCLOSE\<rparr>) h1 (upd h s1 h1 ss))"
        using inv_slot [OF inv1, of h] slot_ok_active [of h s1] a1
        by (intro keep_upd [OF inv1 a1(1,2)]) (auto simp: active_def polled_def same_id_def)
      then show ?thesis using red False nf inv_keeps_upd [of h "s1\<lparr>s_type := SOCKET_TYPE_HALFCLOSE\<rparr>" h1 ss] by auto
    qed
  qed
qed

lemma same_conn_keep:
  assumes inv: "ss_inv ss" and s: "ss_slot ss h = s" "active s" and c: "same_conn s s'" "sock_wf s'"
    and reg: "registered hist' = registered (ss_sys ss)"
  shows "ss_inv (upd h s' hist' ss)"
proof -
  have "\<not> s_dw_lock s" using inv_slot [OF inv, of h] s slot_ok_active by blast
  with same_conn_id [OF c(1)] c(2) s(2) reg show ?thesis by (intro keep_upd [OF inv s]) auto
qed

lemma addr_ok_take: "addr_ok a \<Longrightarrow> addr_ok (take UDP_ADDRESS_SIZE a)"
  by (cases a) (auto simp: addr_ok_def UDP_ADDRESS_SIZE_def)

lemma udp_addr_ok: "udp_addr a \<Longrightarrow> addr_ok a"
  by (simp add: udp_addr_def split: list.splits)

lemma long_addr_ok: "length a = UDP_ADDRESS_SIZE \<Longrightarrow> addr_ok a"
  by (cases a) (simp_all add: addr_ok_def UDP_ADDRESS_SIZE_def)

text \<open>The address a request is sent to.\<close>

lemma dest_addr:
  assumes "sock_wf s" and "s_protocol s \<noteq> PROTOCOL_TCP" and "\<And>a. addr = Some a \<Longrightarrow> udp_addr a"
  obtains a where "(case addr of Some a \<Rightarrow> Some a | None \<Rightarrow> (case s_p s of PAddress a \<Rightarrow> Some a | PSize _ \<Rightarrow> None)) = Some a"
    "addr_ok a"
proof (cases addr)
  case None
  from assms(1,2) obtain a where "s_p s = PAddress a" "length a = UDP_ADDRESS_SIZE"
    by (auto simp: sock_wf_def udp_wf_def)
  with None that long_addr_ok show thesis by simp
next
  case (Some a)
  with assms(3) that udp_addr_ok show thesis by simp
qed

lemma appended_keep:
  assumes inv: "ss_inv ss" and s: "ss_slot ss h = s" "active s" and raw: "raw_ok buf sz"
    and a: "s_protocol s \<noteq> PROTOCOL_TCP \<longrightarrow> addr_ok a"
    and reg: "registered hist' = registered (ss_sys ss)"
  shows "ss_inv (upd h (appended p (new_wb buf sz a) s) hist' ss)" and "same_conn s (appended p (new_wb buf sz a) s)"
proof -
  have "sock_wf s" using inv_slot [OF inv, of h] s slot_ok_active by blast
  then have "sock_wf (appended p (new_wb buf sz a) s)"
    using new_wb_facts(1) [OF raw] new_wb_facts(2) a by (intro appended_wf) (simp_all add: new_wb_def)
  then show "ss_inv (upd h (appended p (new_wb buf sz a) s) hist' ss)"
    using reg by (intro same_conn_keep [OF inv s appended_same(1)])
  show "same_conn s (appended p (new_wb buf sz a) s)" by (rule appended_same(1))
qed

lemma send_queued_keeps:
  assumes inv: "ss_inv ss" and s: "ss_slot ss h = s" "active s" and raw: "raw_ok buf sz"
    and a: "\<And>a. addr = Some a \<Longrightarrow> udp_addr a"
  shows "\<exists>s'. send_queued h buf sz p addr ss = Some (upd h s' (ss_sys ss) ss) \<and> ss_inv (upd h s' (ss_sys ss) ss) \<and> same_conn s s'"
proof (cases "s_protocol s = PROTOCOL_TCP")
  case True
  have "send_queued h buf sz p addr ss = Some (upd h (appended p (new_wb buf sz []) s) (ss_sys ss) ss)"
    using True raw s(1) by (cases p) (simp_all add: send_queued_def append_sendbuffer_def append_sendbuffer_low_def append_raw put_upd)
  with appended_keep [OF inv s raw, of "[]" "ss_sys ss" p] True show ?thesis by auto
next
  case False
  have wf: "sock_wf s" using inv_slot [OF inv, of h] s slot_ok_active by blast
  obtain a where d: "(case addr of Some a \<Rightarrow> Some a | None \<Rightarrow> (case s_p s of PAddress a \<Rightarrow> Some a | PSize _ \<Rightarrow> None)) = Some a"
    "addr_ok a" using dest_addr [OF wf False, of addr] a by blast
  have "send_queued h buf sz p addr ss = Some (upd h (appended p (new_wb buf sz (take UDP_ADDRESS_SIZE a)) s) (ss_sys ss) ss)"
    using False raw s(1) d(1) by (simp add: send_queued_def append_sendbuffer_udp_def append_raw put_upd Let_def)
  with appended_keep [OF inv s raw, of "take UDP_ADDRESS_SIZE a" "ss_sys ss" p] addr_ok_take [OF d(2)] show ?thesis by auto
qed

lemma send_empty_keeps:
  assumes inv: "ss_inv ss" and s: "ss_slot ss h = s" "active s" and raw: "raw_ok buf sz"
    and a: "\<And>a. addr = Some a \<Longrightarrow> udp_addr a"
  shows "\<exists>b s' hist'. send_empty K h buf sz p addr ss = Some (b, upd h s' hist' ss) \<and> ss_inv (upd h s' hist' ss) \<and> same_conn s s'"
proof (cases "s_protocol s = PROTOCOL_TCP")
  case True
  let ?hist = "ss_sys ss @ [EpollMod (s_fd s) (Some h) True]"
  have "send_empty K h buf sz p addr ss = Some (True, upd h (appended PRIORITY_HIGH (new_wb buf sz []) s) ?hist ss)"
    using True raw s(1) by (simp add: send_empty_def append_sendbuffer_def append_raw put_upd sp_write_def Let_def)
  with appended_keep [OF inv s raw, of "[]" ?hist PRIORITY_HIGH] True show ?thesis by auto
next
  case False
  have wf: "sock_wf s" using inv_slot [OF inv, of h] s slot_ok_active by blast
  obtain a where d: "(case addr of Some a \<Rightarrow> Some a | None \<Rightarrow> (case s_p s of PAddress a \<Rightarrow> Some a | PSize _ \<Rightarrow> None)) = Some a"
    "addr_ok a" using dest_addr [OF wf False, of addr] a by blast
  obtain sa where sa: "udp_socket_address s a = Some sa" using udp_socket_address_ok [OF d(2)] by blast
  have bs: "bytes_at (b_bytes buf) sz = Some (payload buf sz)"
    using raw by (auto simp: raw_ok_def bytes_at_def payload_def mem_read_def nat_le_iff)
  show ?thesis
  proof (cases sa)
    case None
    let ?hist = "ss_sys ss @ [Free (b_ptr buf)]"
    have "send_empty K h buf sz p addr ss = Some (False, upd h s ?hist ss)"
      using False raw s(1) d(1) sa None by (simp add: send_empty_def free_func_def call_upd [of _ _ h] Let_def)
    moreover have "ss_inv (upd h s ?hist ss)" by (rule same_conn_keep [OF inv s]) (use wf in simp_all)
    ultimately show ?thesis using same_conn_refl by blast
  next
    case (Some to)
    let ?r = "k_sendto K (ss_sys ss) (s_fd s) (payload buf sz) to"
    let ?h1 = "ss_sys ss @ [Sendto (s_fd s) (payload buf sz) to ?r]"
    let ?wb = "new_wb buf sz (take UDP_ADDRESS_SIZE a)"
    have red: "send_empty K h buf sz p addr ss =
      (if ?r \<noteq> Inr (nat sz) then Some (True, upd h (appended p ?wb s) (?h1 @ [EpollMod (s_fd s) (Some h) True]) ss)
       else Some (False, upd h (stat_write (ss_time ss) sz s) (?h1 @ [Free (b_ptr buf)]) ss))"
      using False raw s(1) d(1) sa Some bs
      by (simp add: send_empty_def append_sendbuffer_udp_def append_raw call_upd [of _ _ h] Let_def sp_write_def)
    have "ss_inv (upd h (appended p ?wb s) (?h1 @ [EpollMod (s_fd s) (Some h) True]) ss)"
      using addr_ok_take [OF d(2)] by (intro appended_keep(1) [OF inv s raw]) (simp_all add: registered_def)
    moreover have "ss_inv (upd h (stat_write (ss_time ss) sz s) (?h1 @ [Free (b_ptr buf)]) ss)"
      using wf by (intro same_conn_keep [OF inv s]) (simp_all add: stat_write_def same_conn_def registered_def)
    moreover have "same_conn s (stat_write (ss_time ss) sz s)" by (simp add: stat_write_def same_conn_def)
    ultimately show ?thesis using red appended_same(1) [of s p ?wb] by (cases "?r \<noteq> Inr (nat sz)") auto
  qed
qed

lemma send_warning_keeps:
  assumes inv: "ss_inv (upd h s hist ss)" and a: "active s"
  shows "\<exists>ty s' res'. send_warning h (upd h s hist ss) res = (ty, upd h s' hist ss, res') \<and>
    ss_inv (upd h s' hist ss) \<and> same_conn s s' \<and> ty \<noteq> SOCKET_CLOSE \<and> ty \<noteq> SOCKET_ERR"
proof -
  have s: "ss_slot (upd h s hist ss) h = s" by simp
  have wf: "sock_wf s" using inv_slot [OF inv, of h] a slot_ok_active [of h s] by simp
  have "ss_inv (upd h (s\<lparr>s_warn_size := w\<rparr>) hist ss)" for w
    using same_conn_keep [OF inv s a, of "s\<lparr>s_warn_size := w\<rparr>" hist] wf by (simp add: same_conn_def)
  then show ?thesis using inv by (auto simp: send_warning_def Let_def same_conn_def)
qed

lemma send_socket_keeps:
  assumes inv: "ss_inv ss" and i: "\<not> reserved (ss_slot ss) i" and raw: "raw_ok buf sz"
    and a: "\<And>a. addr = Some a \<Longrightarrow> udp_addr a"
  shows "\<exists>ty s' hist' res'. send_socket K i buf sz p addr ss res = Some (ty, upd (HASH_ID i) s' hist' ss, res') \<and>
    ss_inv (upd (HASH_ID i) s' hist' ss) \<and> s_id s' = s_id (ss_slot ss (HASH_ID i)) \<and>
    s_protocol s' = s_protocol (ss_slot ss (HASH_ID i)) \<and> s_sending s' = s_sending (ss_slot ss (HASH_ID i))"
proof -
  define h where "h = HASH_ID i"
  define s where "s = ss_slot ss h"
  have s: "ss_slot ss h = s" by (simp add: s_def)
  have free: "free_request buf sz ss = Some (upd h s (ss_sys ss @ [Free (b_ptr buf)]) ss)"
    using raw s by (simp add: free_request_def free_func_def call_upd [of _ _ h])
  have invf: "ss_inv (upd h s (ss_sys ss @ [Free (b_ptr buf)]) ss)"
    using inv_call [OF inv, of "Free (b_ptr buf)"] s by (simp add: call_upd [of _ _ h])
  show ?thesis
  proof (cases "s_type s = SOCKET_TYPE_INVALID \<or> s_id s \<noteq> i \<or> s_type s = SOCKET_TYPE_HALFCLOSE \<or>
         s_type s = SOCKET_TYPE_PACCEPT \<or> s_type s = SOCKET_TYPE_PLISTEN \<or> s_type s = SOCKET_TYPE_LISTEN")
    case True
    then have "send_socket K i buf sz p addr ss res = Some (R_IGNORE, upd h s (ss_sys ss @ [Free (b_ptr buf)]) ss, res)"
      unfolding send_socket_def Let_def h_def [symmetric] s using free by simp
    then show ?thesis using invf s unfolding h_def [symmetric] by auto
  next
    case False
    with i s have act: "active s" by (auto simp: active_def reserved_def h_def)
    have "\<exists>b s' hist'. (if send_buffer_empty s \<and> s_type s = SOCKET_TYPE_CONNECTED then send_empty K h buf sz p addr ss
        else map_option (\<lambda>ss'. (True, ss')) (send_queued h buf sz p addr ss)) = Some (b, upd h s' hist' ss) \<and>
        ss_inv (upd h s' hist' ss) \<and> same_conn s s'"
      using send_queued_keeps [OF inv s act raw, of addr p] send_empty_keeps [OF inv s act raw, of addr K p] a by auto
    then obtain b s' hist' where q: "(if send_buffer_empty s \<and> s_type s = SOCKET_TYPE_CONNECTED then send_empty K h buf sz p addr ss
        else map_option (\<lambda>ss'. (True, ss')) (send_queued h buf sz p addr ss)) = Some (b, upd h s' hist' ss)"
      "ss_inv (upd h s' hist' ss)" "same_conn s s'" by blast
    have red: "send_socket K i buf sz p addr ss res =
      Some (if b then send_warning h (upd h s' hist' ss) res else (R_IGNORE, upd h s' hist' ss, res))"
      unfolding send_socket_def Let_def h_def [symmetric] s using False q(1) by (auto split: if_splits)
    obtain ty s2 res' where w: "send_warning h (upd h s' hist' ss) res = (ty, upd h s2 hist' ss, res')"
      "ss_inv (upd h s2 hist' ss)" "same_conn s' s2"
      using send_warning_keeps [OF q(2), of res] act same_conn_id [OF q(3)] by auto
    show ?thesis unfolding h_def [symmetric] s red using q w same_conn_trans [OF q(3) w(3)]
      by (cases b) (auto simp: same_conn_def)
  qed
qed

text \<open>The count of requests in flight goes down by one and its tag stays.\<close>

lemma low16: "w AND 0xffff = 0 \<longleftrightarrow> unat (w :: u32) mod 2 ^ 16 = 0"
proof -
  have "(0xffff :: u32) = mask 16" by (simp add: mask_eq_exp_minus_1)
  then show ?thesis using and_mask_zero [of w 16] by simp
qed

lemma dec_sending:
  assumes "0 < unat (w :: u32) mod 2 ^ 16"
  shows "unat (w - 1) mod 2 ^ 16 = unat w mod 2 ^ 16 - 1" and "drop_bit 16 (w - 1) = drop_bit 16 w"
proof -
  have "w \<noteq> 0" using assms by auto
  then have u: "unat (w - 1) = unat w - 1" by (rule unat_minus_one)
  have d: "unat w = unat w div 2 ^ 16 * 2 ^ 16 + unat w mod 2 ^ 16" by simp
  have l: "unat w mod 2 ^ 16 < 2 ^ 16" by simp
  have e: "unat w - 1 = unat w div 2 ^ 16 * 2 ^ 16 + (unat w mod 2 ^ 16 - 1)" using d assms by linarith
  have "(unat w - 1) mod 2 ^ 16 = (unat w mod 2 ^ 16 - 1) mod 2 ^ 16" unfolding e by simp
  also have "\<dots> = unat w mod 2 ^ 16 - 1" using l by (intro mod_less) linarith
  finally show "unat (w - 1) mod 2 ^ 16 = unat w mod 2 ^ 16 - 1" using u by simp
  have "(unat w - 1) div 2 ^ 16 = unat w div 2 ^ 16" unfolding e using l by simp
  then show "drop_bit 16 (w - 1) = drop_bit 16 w"
    using u by (simp add: word_unat_eq_iff unat_drop_bit_div)
qed

lemma inv_sending:
  assumes inv: "ss_inv ss" and s: "ss_slot ss h = s"
    and w: "active s \<longrightarrow> drop_bit 16 w = drop_bit 16 (s_sending s)"
    and n: "s_protocol s = PROTOCOL_TCP \<Longrightarrow> pending (s_id s) (ss_pipe ss) \<le> unat w mod 2 ^ 16"
  shows "ss_inv (upd h (s\<lparr>s_sending := w\<rparr>) (ss_sys ss) ss)"
proof -
  let ?s = "s\<lparr>s_sending := w\<rparr>"
  let ?S = "(ss_slot ss)(h := ?s)"
  have "slot_ok h s" using inv s inv_slot by blast
  then have "slot_ok h ?s" using w by (auto simp: slot_ok_def active_def)
  moreover have "reserved ?S i = reserved (ss_slot ss) i" for i using s by (auto simp: reserved_def)
  then have "pipe_inv ?S (ss_pipe ss)"
    using inv n s by (auto simp: ss_inv_def ss_core_def pipe_inv_def in_flight_def)
  moreover have "reg_inv ?S (ss_sys ss)"
    using inv s by (intro reg_inv_upd [of _ "ss_sys ss"]) (auto simp: ss_inv_def ss_core_def polled_def active_def)
  moreover have "ev_inv {} ?S (events_left ss)"
    using inv s by (intro ev_inv_upd [of "{}"]) (auto simp: ss_inv_def polled_def active_def)
  ultimately show ?thesis using inv by (simp add: ss_inv_def ss_core_def)
qed

lemma dec_sending_ref_keeps:
  assumes inv: "ss_inv ss" and s: "ss_slot ss (HASH_ID i) = s"
    and n: "s_id s = i \<Longrightarrow> s_protocol s = PROTOCOL_TCP \<Longrightarrow> pending i (ss_pipe ss) < in_flight s"
  shows "\<exists>s'. dec_sending_ref i ss = Some (upd (HASH_ID i) s' (ss_sys ss) ss) \<and> ss_inv (upd (HASH_ID i) s' (ss_sys ss) ss) \<and>
    s_type s' = s_type s \<and> s_id s' = s_id s"
proof (cases "s_id s = i \<and> s_protocol s = PROTOCOL_TCP")
  case True
  then have p: "0 < unat (s_sending s) mod 2 ^ 16" using n by (simp add: in_flight_def)
  have "dec_sending_ref i ss = Some (upd (HASH_ID i) (s\<lparr>s_sending := s_sending s - 1\<rparr>) (ss_sys ss) ss)"
    using True p by (simp add: dec_sending_ref_def s low16 Let_def put_upd)
  moreover have "ss_inv (upd (HASH_ID i) (s\<lparr>s_sending := s_sending s - 1\<rparr>) (ss_sys ss) ss)"
    using True n dec_sending [OF p] by (intro inv_sending [OF inv s]) (simp_all add: in_flight_def)
  ultimately show ?thesis by auto
next
  case False
  then have "dec_sending_ref i ss = Some (upd (HASH_ID i) s (ss_sys ss) ss)"
    using upd_same [of "HASH_ID i" ss] by (auto simp: dec_sending_ref_def s Let_def)
  moreover have "ss_inv (upd (HASH_ID i) s (ss_sys ss) ss)" using inv upd_same [of "HASH_ID i" ss] s by simp
  ultimately show ?thesis by auto
qed

lemma set_udp_address_keeps:
  assumes inv: "ss_inv ss" and i: "\<not> reserved (ss_slot ss) i" and a: "udp_addr a"
  shows "\<exists>ty ss' res'. set_udp_address i a ss res = Some (ty, ss', res') \<and> keeps ty res' ss ss'"
  using i
proof (cases rule: id_cases)
  case unknown
  then show ?thesis using keeps_refl [OF inv] by (auto simp: set_udp_address_def Let_def)
next
  case known
  define h where "h = HASH_ID i"
  define s where "s = ss_slot ss h"
  have s: "ss_slot ss h = s" "active s" "s_id s = i" "sock_wf s"
    using known inv_slot [OF inv, of h] slot_ok_active [of h s] by (auto simp: s_def h_def)
  have ne: "s_type s \<noteq> SOCKET_TYPE_INVALID" using s(2) by (simp add: active_def)
  from a obtain ty rest where at: "a = ty # rest" "ty = 1 \<or> ty = 2" "addr_ok a" by (auto simp: udp_addr_def split: list.splits)
  note d = set_udp_address_def Let_def h_def [symmetric] s(1,3) ne nth_at_def at(1)
  show ?thesis
  proof (cases "ty = protocol_byte (s_protocol s)")
    case False
    then show ?thesis using keeps_refl [OF inv] by (simp add: d)
  next
    case True
    with at(2) have udp: "s_protocol s \<noteq> PROTOCOL_TCP" by auto
    then obtain old where old: "s_p s = PAddress old" "length old = UDP_ADDRESS_SIZE" and w: "udp_wf s"
      using s(4) by (auto simp: sock_wf_def udp_wf_def)
    define n :: nat where "n = (if ty = 1 then 7 else 19)"
    have n: "n \<le> length a" using at by (auto simp: n_def addr_ok_def)
    let ?s = "s\<lparr>s_p := PAddress (take n a @ drop n old), s_udpconnecting := s_udpconnecting s - 1\<rparr>"
    have e: "set_udp_address i a ss res = Some (R_IGNORE, upd h ?s (ss_sys ss) ss, res)"
      using True n old(1) at(2) unfolding n_def
      by (auto simp: d mem_read_def put_upd split: if_splits)
    have "length (take n a @ drop n old) = UDP_ADDRESS_SIZE" using n old(2) by (auto simp: n_def UDP_ADDRESS_SIZE_def)
    then have u: "udp_wf ?s" using w by (simp add: udp_wf_def)
    have "s_dw_buffer s = None" using w by (simp add: udp_wf_def)
    then have wf: "sock_wf ?s" using s(4) udp u by (simp add: sock_wf_def dw_ok_def)
    have ok: "\<not> s_dw_lock s" using inv_slot [OF inv, of h] s slot_ok_active by blast
    have "ss_inv (upd h ?s (ss_sys ss) ss)"
      using s(2) wf ok by (intro keep_upd [OF inv s(1,2)]) (simp_all add: active_def polled_def same_id_def)
    then show ?thesis using e inv_keeps_upd by blast
  qed
qed

lemma setopt_socket_keeps: "ss_inv ss \<Longrightarrow> keeps ty res ss (setopt_socket i what v ss)"
  using inv_call [of ss "Setsockopt (s_fd (ss_slot ss (HASH_ID i))) what v"]
  by (auto simp: setopt_socket_def Let_def intro: keeps_refl inv_keeps)

subsection \<open>Commands that open a reserved slot\<close>

definition pop_pipe :: "packet list \<Rightarrow> socket_server \<Rightarrow> socket_server" where
  "pop_pipe ps ss = ss\<lparr>ss_pipe := ps\<rparr>"

lemma pop_simps [simp]:
  "ss_slot (pop_pipe ps ss) = ss_slot ss" "ss_sys (pop_pipe ps ss) = ss_sys ss" "ss_pipe (pop_pipe ps ss) = ps"
  "events_left (pop_pipe ps ss) = events_left ss" "ss_alloc_id (pop_pipe ps ss) = ss_alloc_id ss"
  "ss_time (pop_pipe ps ss) = ss_time ss"
  by (simp_all add: pop_pipe_def events_left_def)

lemma open_reserved:
  assumes inv: "ss_inv ss" and pipe: "ss_pipe ss = p # ps" and o: "open_id (snd p) = Some i"
  shows "s_type (ss_slot ss (HASH_ID i)) = SOCKET_TYPE_RESERVE" and "s_id (ss_slot ss (HASH_ID i)) = i"
    and "s_high (ss_slot ss (HASH_ID i)) = []" and "s_low (ss_slot ss (HASH_ID i)) = []"
    and "\<not> s_dw_lock (ss_slot ss (HASH_ID i))" and "s_protocol (ss_slot ss (HASH_ID i)) = PROTOCOL_UNKNOWN"
    and "i \<notin> set (opens ps)"
proof -
  have "reserved (ss_slot ss) i" "i \<notin> set (opens ps)"
    using inv pipe o by (auto simp: ss_inv_def ss_core_def pipe_inv_def)
  then show "s_type (ss_slot ss (HASH_ID i)) = SOCKET_TYPE_RESERVE" "s_id (ss_slot ss (HASH_ID i)) = i" "i \<notin> set (opens ps)"
    by (simp_all add: reserved_def)
  then show "s_high (ss_slot ss (HASH_ID i)) = []" "s_low (ss_slot ss (HASH_ID i)) = []"
    "\<not> s_dw_lock (ss_slot ss (HASH_ID i))" "s_protocol (ss_slot ss (HASH_ID i)) = PROTOCOL_UNKNOWN"
    using inv_slot [OF inv, of "HASH_ID i"] by (auto simp: slot_ok_def active_def)
qed

lemma open_not_pending:
  assumes inv: "ss_inv ss" and pipe: "ss_pipe ss = p # ps" and o: "open_id (snd p) = Some i"
    and u: "\<And>fd f q. snd p \<noteq> ReqU i fd f q"
  shows "pending i ps = 0"
proof (rule ccontr)
  assume "pending i ps \<noteq> 0"
  moreover have "reserved (ss_slot ss) i" using open_reserved(1,2) [OF inv pipe o] by (simp add: reserved_def)
  ultimately have "udp_open i (ss_pipe ss)"
    using inv pipe by (auto simp: ss_inv_def ss_core_def pipe_inv_def)
  then obtain len fd f q where "(len, ReqU i fd f q) \<in> set ps"
    using u pipe by (auto simp: udp_open_def) (metis snd_conv)
  then have "i \<in> set (opens ps)" unfolding opens_def by (force simp: List.map_filter_def)
  with open_reserved(7) [OF inv pipe o] show False ..
qed

lemma opened_reserved:
  assumes "reserved S i" and "s_type s \<noteq> SOCKET_TYPE_RESERVE"
  shows "reserved (S(HASH_ID i := s)) j \<longleftrightarrow> reserved S j \<and> j \<noteq> i"
  using assms by (auto simp: reserved_def)

lemma pipe_inv_open:
  assumes p: "pipe_inv S (p # ps)" and o: "open_id (snd p) = Some i"
    and s: "s_type s \<noteq> SOCKET_TYPE_RESERVE" "s_id s = i" "s_protocol s = PROTOCOL_TCP \<Longrightarrow> pending i ps \<le> in_flight s"
  shows "pipe_inv (S(HASH_ID i := s)) ps"
proof -
  have r: "reserved S i" using p o by (simp add: pipe_inv_def)
  have n: "use_id (snd p) = None" "ref_id (snd p) = None" using o by (cases "snd p"; simp)+
  have u: "udp_open j (p # ps) \<longleftrightarrow> udp_open j ps" if "j \<noteq> i" for j
    using o that by (cases p; cases "snd p") (auto simp: udp_open_def)
  show ?thesis
    using p o s n u unfolding pipe_inv_def opened_reserved [OF r s(1)] by auto
qed

lemma reg_inv_open:
  assumes r: "reg_inv S h1" and np: "\<not> polled (S g)"
    and reg: "registered hist \<subseteq>\<^sub>m registered h1 \<or> registered hist \<subseteq>\<^sub>m (registered h1)(s_fd s \<mapsto> Some g) \<and> polled s"
  shows "reg_inv (S(g := s)) hist"
  unfolding reg_inv_def
proof (intro allI impI)
  fix fd h
  assume a: "registered hist fd = Some (Some h)"
  then have d: "fd \<in> dom (registered hist)" by blast
  from reg have "registered h1 fd = Some (Some h) \<or> fd = s_fd s \<and> h = g \<and> polled s"
  proof
    assume "registered hist \<subseteq>\<^sub>m registered h1"
    with d a show ?thesis by (metis map_le_def)
  next
    assume m: "registered hist \<subseteq>\<^sub>m (registered h1)(s_fd s \<mapsto> Some g) \<and> polled s"
    with d a have "((registered h1)(s_fd s \<mapsto> Some g)) fd = Some (Some h)" by (metis map_le_def)
    with m show ?thesis by (auto split: if_splits)
  qed
  with r np show "polled ((S(g := s)) h) \<and> s_fd ((S(g := s)) h) = fd" by (auto simp: reg_inv_def)
qed

lemma open_keeps:
  assumes inv: "ss_inv ss" and pipe: "ss_pipe ss = p # ps" and o: "open_id (snd p) = Some i"
    and s: "s_type s \<noteq> SOCKET_TYPE_RESERVE" "s_id s = i" "slot_ok (HASH_ID i) s"
    and n: "s_protocol s = PROTOCOL_TCP \<Longrightarrow> pending i ps \<le> in_flight s"
    and reg: "registered hist \<subseteq>\<^sub>m registered (ss_sys ss) \<or>
      registered hist \<subseteq>\<^sub>m (registered (ss_sys ss))(s_fd s \<mapsto> Some (HASH_ID i)) \<and> polled s"
  shows "ss_inv (upd (HASH_ID i) s hist (pop_pipe ps ss))"
proof -
  let ?S = "(ss_slot ss)(HASH_ID i := s)"
  have np: "\<not> polled (ss_slot ss (HASH_ID i))"
    using open_reserved(1) [OF inv pipe o] by (simp add: polled_def active_def)
  have "pipe_inv ?S ps"
    using inv pipe s n by (intro pipe_inv_open [OF _ o]) (simp_all add: ss_inv_def ss_core_def)
  moreover have "reg_inv (ss_slot ss) (ss_sys ss)" using inv by (simp add: ss_inv_def ss_core_def)
  then have "reg_inv ?S hist" using np reg by (rule reg_inv_open)
  moreover have "ev_inv {} ?S (events_left ss)"
    using inv np by (intro ev_inv_upd [of "{}"]) (auto simp: ss_inv_def)
  ultimately show ?thesis using inv s(3) by (simp add: ss_inv_def ss_core_def pop_pipe_def events_left_def)
qed

text \<open>The socket \<open>new_fd\<close> makes.\<close>

definition fresh_sock :: "i32 \<Rightarrow> int \<Rightarrow> protocol \<Rightarrow> u64 \<Rightarrow> sock \<Rightarrow> sock" where
  "fresh_sock i fd prot q s = s\<lparr>s_id := i, s_fd := fd, s_sending := push_bit 16 (ID_TAG16 i) OR 0,
     s_protocol := prot, s_p := PSize MIN_READ_BUFFER, s_opaque := q, s_wb_size := 0,
     s_warn_size := 0, s_dw_buffer := None, s_dw_size := 0,
     s_stat := \<lparr>st_rtime = 0, st_wtime = 0, st_read = 0, st_write = 0\<rparr>\<rparr>"

lemma tag16:
  "drop_bit 16 (push_bit 16 (ID_TAG16 i) OR 0) = ID_TAG16 i" "unat (push_bit 16 (ID_TAG16 i) OR 0) mod 2 ^ 16 = 0"
proof -
  have m: "(0xffff :: u32) = mask 16" by (simp add: mask_eq_exp_minus_1)
  show "drop_bit 16 (push_bit 16 (ID_TAG16 i) OR 0) = ID_TAG16 i"
    unfolding ID_TAG16_def m by (rule bit_word_eqI) (auto simp: bit_simps)
  have "(push_bit 16 (ID_TAG16 i) OR 0) AND mask 16 = 0"
    by (rule bit_word_eqI) (auto simp: bit_simps)
  then show "unat (push_bit 16 (ID_TAG16 i) OR 0) mod 2 ^ 16 = 0" by (simp only: and_mask_zero)
qed

lemma fresh_tcp:
  assumes "s_high s = []" "s_low s = []" "\<not> s_dw_lock s" "ty \<noteq> SOCKET_TYPE_INVALID" "ty \<noteq> SOCKET_TYPE_RESERVE"
  shows "slot_ok (HASH_ID i) ((fresh_sock i fd PROTOCOL_TCP q s)\<lparr>s_type := ty\<rparr>)"
proof -
  let ?s = "(fresh_sock i fd PROTOCOL_TCP q s)\<lparr>s_type := ty\<rparr>"
  have "tcp_wf ?s" unfolding tcp_wf_def by (intro exI [of _ 0]) (simp add: fresh_sock_def)
  then have "sock_wf ?s" using assms by (simp add: sock_wf_def fresh_sock_def dw_ok_def)
  moreover have "active ?s" using assms by (simp add: active_def)
  ultimately show ?thesis using assms(3-5) tag16(1) by (simp add: slot_ok_def fresh_sock_def)
qed

lemma fresh_udp:
  assumes "s_high s = []" "s_low s = []" "\<not> s_dw_lock s" "prot = PROTOCOL_UDP \<or> prot = PROTOCOL_UDPv6"
  shows "slot_ok (HASH_ID i) ((fresh_sock i fd prot q s)\<lparr>s_type := SOCKET_TYPE_CONNECTED, s_p := PAddress (replicate UDP_ADDRESS_SIZE 0)\<rparr>)"
proof -
  let ?s = "(fresh_sock i fd prot q s)\<lparr>s_type := SOCKET_TYPE_CONNECTED, s_p := PAddress (replicate UDP_ADDRESS_SIZE 0)\<rparr>"
  have "udp_wf ?s" using assms by (simp add: udp_wf_def fresh_sock_def)
  then have "sock_wf ?s" using assms by (auto simp: sock_wf_def fresh_sock_def dw_ok_def)
  moreover have "active ?s" by (simp add: active_def)
  ultimately show ?thesis using assms(3) tag16(1) by (simp add: slot_ok_def fresh_sock_def)
qed

lemma fresh_in_flight [simp]: "in_flight ((fresh_sock i fd prot q s)\<lparr>s_type := ty\<rparr>) = 0"
  using tag16(2) by (simp add: in_flight_def fresh_sock_def)

lemma new_fd_upd:
  assumes "s_type s = SOCKET_TYPE_RESERVE" "s_high s = []" "s_low s = []"
  shows "new_fd K i fd prot q add (upd (HASH_ID i) s hist ss) = Some
    (if add \<and> k_epoll_add K hist fd \<noteq> None
     then (None, upd (HASH_ID i) (s\<lparr>s_type := SOCKET_TYPE_INVALID\<rparr>) (hist @ [EpollAdd fd (Some (HASH_ID i)) False]) ss)
     else (Some (HASH_ID i), upd (HASH_ID i) (fresh_sock i fd prot q s)
       (if add then hist @ [EpollAdd fd (Some (HASH_ID i)) True] else hist) ss))"
proof -
  have u: "(upd (HASH_ID i) s hist ss)\<lparr>ss_sys := x\<rparr> = upd (HASH_ID i) s x ss" for x by (simp add: upd_def)
  show ?thesis using assms by (auto simp: new_fd_def Let_def sp_add_def fresh_sock_def u)
qed

subsection \<open>The open commands\<close>

lemma popped: "pop_pipe ps ss = upd (HASH_ID i) (ss_slot ss (HASH_ID i)) (ss_sys ss) (pop_pipe ps ss)"
  using upd_same [of "HASH_ID i" "pop_pipe ps ss"] by simp

text \<open>A slot given back.\<close>

lemma give_back:
  assumes inv: "ss_inv ss" and pipe: "ss_pipe ss = p # ps" and o: "open_id (snd p) = Some i"
    and "s_type s = SOCKET_TYPE_INVALID" "s_id s = i" "s_high s = []" "s_low s = []" "\<not> s_dw_lock s"
    "s_protocol s = PROTOCOL_UNKNOWN" "registered hist \<subseteq>\<^sub>m registered (ss_sys ss)"
  shows "ss_inv (upd (HASH_ID i) s hist (pop_pipe ps ss))"
  using assms by (intro open_keeps [OF inv pipe o]) (simp_all add: slot_ok_def active_def)

lemma use_tcp:
  assumes inv: "ss_inv ss" and pipe: "ss_pipe ss = p # ps" and o: "open_id (snd p) = Some i"
    and t: "ty \<noteq> SOCKET_TYPE_INVALID" "ty \<noteq> SOCKET_TYPE_RESERVE" and u: "\<And>fd f q. snd p \<noteq> ReqU i fd f q"
    and reg: "registered hist \<subseteq>\<^sub>m registered (ss_sys ss) \<or>
      registered hist \<subseteq>\<^sub>m (registered (ss_sys ss))(fd \<mapsto> Some (HASH_ID i)) \<and> ty \<noteq> SOCKET_TYPE_PACCEPT \<and> ty \<noteq> SOCKET_TYPE_PLISTEN"
  shows "ss_inv (upd (HASH_ID i) ((fresh_sock i fd PROTOCOL_TCP q (ss_slot ss (HASH_ID i)))\<lparr>s_type := ty\<rparr>) hist (pop_pipe ps ss))"
  using t reg fresh_tcp [OF open_reserved(3,4,5) [OF inv pipe o] t] open_not_pending [OF inv pipe o u]
  by (intro open_keeps [OF inv pipe o]) (auto simp: fresh_sock_def polled_def active_def)

lemma listen_socket_keeps:
  assumes inv: "ss_inv ss" and pipe: "ss_pipe ss = p # ps" and o: "open_id (snd p) = Some i"
    and u: "\<And>fd f q. snd p \<noteq> ReqU i fd f q"
  shows "\<exists>ty s hist res'. listen_socket K i fd q (pop_pipe ps ss) res = Some (ty, upd (HASH_ID i) s hist (pop_pipe ps ss), res') \<and>
    ss_inv (upd (HASH_ID i) s hist (pop_pipe ps ss))"
proof -
  let ?s = "(fresh_sock i fd PROTOCOL_TCP q (ss_slot ss (HASH_ID i)))\<lparr>s_type := SOCKET_TYPE_PLISTEN\<rparr>"
  have "listen_socket K i fd q (pop_pipe ps ss) res = Some (R_IGNORE, upd (HASH_ID i) ?s (ss_sys ss) (pop_pipe ps ss), res)"
    by (subst popped [of ps ss i]) (simp add: listen_socket_def new_fd_upd open_reserved [OF inv pipe o] set_type_def)
  moreover have "ss_inv (upd (HASH_ID i) ?s (ss_sys ss) (pop_pipe ps ss))"
    using u by (intro use_tcp [OF inv pipe o]) simp_all
  ultimately show ?thesis by blast
qed

lemma bind_socket_keeps:
  assumes inv: "ss_inv ss" and pipe: "ss_pipe ss = p # ps" and o: "open_id (snd p) = Some i"
    and u: "\<And>fd f q. snd p \<noteq> ReqU i fd f q"
  shows "\<exists>ty s hist res'. bind_socket K i fd q (pop_pipe ps ss) = Some (ty, upd (HASH_ID i) s hist (pop_pipe ps ss), res') \<and>
    ss_inv (upd (HASH_ID i) s hist (pop_pipe ps ss))"
proof (cases "k_epoll_add K (ss_sys ss) fd")
  case None
  let ?s = "(fresh_sock i fd PROTOCOL_TCP q (ss_slot ss (HASH_ID i)))\<lparr>s_type := SOCKET_TYPE_BIND\<rparr>"
  let ?hist = "(ss_sys ss @ [EpollAdd fd (Some (HASH_ID i)) True]) @ [Nonblocking fd]"
  have "bind_socket K i fd q (pop_pipe ps ss) =
      Some (SOCKET_OPEN, upd (HASH_ID i) ?s ?hist (pop_pipe ps ss), answer i q 0 (DStr (str ''binding'')))"
    by (subst popped [of ps ss i]) (simp add: bind_socket_def new_fd_upd open_reserved [OF inv pipe o] set_type_def None sp_nonblocking_def)
  moreover have "ss_inv (upd (HASH_ID i) ?s ?hist (pop_pipe ps ss))"
    using u by (intro use_tcp [OF inv pipe o]) (simp_all add: registered_def)
  ultimately show ?thesis by blast
next
  case (Some e)
  let ?s = "(ss_slot ss (HASH_ID i))\<lparr>s_type := SOCKET_TYPE_INVALID\<rparr>"
  let ?hist = "ss_sys ss @ [EpollAdd fd (Some (HASH_ID i)) False]"
  have "bind_socket K i fd q (pop_pipe ps ss) =
      Some (SOCKET_ERR, upd (HASH_ID i) ?s ?hist (pop_pipe ps ss), answer i q 0 (DStr reach_limit))"
    by (subst popped [of ps ss i]) (simp add: bind_socket_def new_fd_upd open_reserved [OF inv pipe o] Some)
  moreover have "ss_inv (upd (HASH_ID i) ?s ?hist (pop_pipe ps ss))"
    by (intro give_back [OF inv pipe o]) (simp_all add: open_reserved [OF inv pipe o])
  ultimately show ?thesis by blast
qed

lemma add_udp_socket_keeps:
  assumes inv: "ss_inv ss" and pipe: "ss_pipe ss = p # ps" and o: "open_id (snd p) = Some i"
  shows "\<exists>s hist. add_udp_socket K i fd family q (pop_pipe ps ss) = Some (upd (HASH_ID i) s hist (pop_pipe ps ss)) \<and>
    ss_inv (upd (HASH_ID i) s hist (pop_pipe ps ss))"
proof (cases "k_epoll_add K (ss_sys ss) fd")
  case None
  let ?prot = "if family = AF_INET6 then PROTOCOL_UDPv6 else PROTOCOL_UDP"
  let ?s = "(fresh_sock i fd ?prot q (ss_slot ss (HASH_ID i)))\<lparr>s_type := SOCKET_TYPE_CONNECTED,
    s_p := PAddress (replicate UDP_ADDRESS_SIZE 0)\<rparr>"
  let ?hist = "ss_sys ss @ [EpollAdd fd (Some (HASH_ID i)) True]"
  have "add_udp_socket K i fd family q (pop_pipe ps ss) = Some (upd (HASH_ID i) ?s ?hist (pop_pipe ps ss))"
    by (subst popped [of ps ss i]) (simp add: add_udp_socket_def new_fd_upd open_reserved [OF inv pipe o] None Let_def)
  moreover have "ss_inv (upd (HASH_ID i) ?s ?hist (pop_pipe ps ss))"
  proof (rule open_keeps [OF inv pipe o])
    show "slot_ok (HASH_ID i) ?s" using open_reserved(3,4,5) [OF inv pipe o] by (intro fresh_udp) simp_all
  qed (auto simp: fresh_sock_def polled_def active_def split: if_splits)
  ultimately show ?thesis by blast
next
  case (Some e)
  let ?s = "(ss_slot ss (HASH_ID i))\<lparr>s_type := SOCKET_TYPE_INVALID\<rparr>"
  let ?hist = "(ss_sys ss @ [EpollAdd fd (Some (HASH_ID i)) False]) @ [Close fd]"
  have "add_udp_socket K i fd family q (pop_pipe ps ss) = Some (upd (HASH_ID i) ?s ?hist (pop_pipe ps ss))"
    by (subst popped [of ps ss i]) (simp add: add_udp_socket_def new_fd_upd open_reserved [OF inv pipe o] Some Let_def set_type_def)
  moreover have "ss_inv (upd (HASH_ID i) ?s ?hist (pop_pipe ps ss))"
    by (intro give_back [OF inv pipe o]) (simp_all add: open_reserved [OF inv pipe o] registered_def map_le_def)
  ultimately show ?thesis by blast
qed

lemma connect_loop_registered:
  "connect_loop K e as hist = (r, hist') \<Longrightarrow> registered hist' \<subseteq>\<^sub>m registered hist"
proof (induction K e as hist arbitrary: r hist' rule: connect_loop.induct)
  case (2 K e a as hist)
  show ?case
  proof (cases "k_socket K hist (family_of a)")
    case (Inl e')
    with 2 show ?thesis by simp
  next
    case (Inr fd)
    let ?h1 = "sp_nonblocking (hist @ [OpenSocket (family_of a) (Inr fd), Keepalive fd]) fd"
    let ?h2 = "?h1 @ [Connect fd a (k_connect K ?h1 fd a)]"
    have r2: "registered ?h2 = registered hist" "registered (?h2 @ [Close fd]) = (registered hist)(fd := None)"
      by (simp_all add: sp_nonblocking_def registered_def)
    show ?thesis
    proof (cases "\<exists>e'. k_connect K ?h1 fd a = Some e' \<and> e' \<noteq> EINPROGRESS")
      case True
      then obtain e' where e': "k_connect K ?h1 fd a = Some e'" "e' \<noteq> EINPROGRESS" by blast
      have "connect_loop K e' as (?h2 @ [Close fd]) = (r, hist')" using 2(3) Inr e' by (simp add: Let_def)
      then have "registered hist' \<subseteq>\<^sub>m registered (?h2 @ [Close fd])" using "2.IH"(2) [OF Inr refl refl refl] e' by blast
      moreover have "registered (?h2 @ [Close fd]) \<subseteq>\<^sub>m registered hist" unfolding r2(2) by (simp add: map_le_def)
      ultimately show ?thesis by (rule map_le_trans)
    next
      case False
      then have "hist' = ?h2" using 2(3) Inr by (auto simp: Let_def split: option.splits if_splits)
      with r2(1) show ?thesis by simp
    qed
  qed
qed simp

lemma open_socket_keeps:
  assumes inv: "ss_inv ss" and pipe: "ss_pipe ss = p # ps" and o: "open_id (snd p) = Some i"
    and u: "\<And>fd f q. snd p \<noteq> ReqU i fd f q"
  shows "\<exists>ty ss' res'. open_socket K i port q host (pop_pipe ps ss) = Some (ty, ss', res') \<and>
    ss_inv ss' \<and> events_left ss' = events_left ss \<and> ss_pipe ss' = ps \<and> ss_alloc_id ss' = ss_alloc_id ss"
proof -
  let ?s = "ss_slot ss (HASH_ID i)"
  let ?r = "k_getaddrinfo K (ss_sys ss) host port"
  let ?h1 = "ss_sys ss @ [Getaddrinfo host port ?r]"
  have failed: "open_failed i q err (upd (HASH_ID i) s hist (pop_pipe ps ss)) =
      (SOCKET_ERR, upd (HASH_ID i) (s\<lparr>s_type := SOCKET_TYPE_INVALID\<rparr>) hist (pop_pipe ps ss), answer i q 0 (DStr err))" for err s hist
    by (simp add: open_failed_def set_type_def)
  have gb: "ss_inv (upd (HASH_ID i) (?s\<lparr>s_type := SOCKET_TYPE_INVALID\<rparr>) hist (pop_pipe ps ss))"
    if "registered hist \<subseteq>\<^sub>m registered (ss_sys ss)" for hist
    using that by (intro give_back [OF inv pipe o]) (simp_all add: open_reserved [OF inv pipe o])
  have frame: "events_left (upd (HASH_ID i) s hist (pop_pipe ps ss)) = events_left ss"
    "ss_pipe (upd (HASH_ID i) s hist (pop_pipe ps ss)) = ps"
    "ss_alloc_id (upd (HASH_ID i) s hist (pop_pipe ps ss)) = ss_alloc_id ss" for s hist by simp_all
  have start: "call_sys (Getaddrinfo host port ?r) (pop_pipe ps ss) = upd (HASH_ID i) ?s ?h1 (pop_pipe ps ss)"
    using call_upd [of "Getaddrinfo host port ?r" "pop_pipe ps ss" "HASH_ID i"] by simp
  have sys: "(upd (HASH_ID i) ?s x (pop_pipe ps ss))\<lparr>ss_sys := y\<rparr> = upd (HASH_ID i) ?s y (pop_pipe ps ss)" for x y
    by (simp add: upd_def)
  show ?thesis
  proof (cases ?r)
    case (Inl err)
    then have "open_socket K i port q host (pop_pipe ps ss) = Some (open_failed i q err (upd (HASH_ID i) ?s ?h1 (pop_pipe ps ss)))"
      by (simp add: open_socket_def start [unfolded Inl])
    then show ?thesis using gb [of ?h1] frame unfolding failed by auto
  next
    case (Inr ai)
    obtain c hist where c: "connect_loop K (Errno 0) ai ?h1 = (c, hist)" by fastforce
    have rg: "registered hist \<subseteq>\<^sub>m registered (ss_sys ss)" using connect_loop_registered [OF c] by simp
    show ?thesis
    proof (cases c)
      case (Inl e)
      have "open_socket K i port q host (pop_pipe ps ss) =
          Some (open_failed i q (k_strerror K e) (upd (HASH_ID i) ?s hist (pop_pipe ps ss)))"
        using Inr c Inl by (simp add: open_socket_def start [unfolded Inr] sys)
      then show ?thesis using gb [OF rg] frame unfolding failed by auto
    next
      case c': (Inr d)
      obtain fd conn a where d: "d = (fd, conn, a)" by (cases d)
      note red = open_socket_def Inr start [unfolded Inr] c [unfolded Inr] c' d sys new_fd_upd open_reserved [OF inv pipe o]
      show ?thesis
      proof (cases "k_epoll_add K hist fd")
        case None
        let ?f = "fresh_sock i fd PROTOCOL_TCP q ?s"
        let ?h2 = "hist @ [EpollAdd fd (Some (HASH_ID i)) True]"
        have r2: "registered ?h2 \<subseteq>\<^sub>m (registered (ss_sys ss))(fd \<mapsto> Some (HASH_ID i))"
          using rg by (auto simp: map_le_def dom_def)
        have use: "ss_inv (upd (HASH_ID i) (?f\<lparr>s_type := ty\<rparr>) h3 (pop_pipe ps ss))"
          if "registered h3 = registered ?h2" "ty = SOCKET_TYPE_CONNECTED \<or> ty = SOCKET_TYPE_CONNECTING" for ty h3
          using u r2 that by (intro use_tcp [OF inv pipe o]) auto
        have buf: "ss_inv (x\<lparr>ss_buffer := b\<rparr>) = ss_inv x" "events_left (x\<lparr>ss_buffer := b\<rparr>) = events_left x" for x b
          by (simp_all add: ss_inv_def ss_core_def events_left_def)
        show ?thesis
          using use [of ?h2 SOCKET_TYPE_CONNECTED] use [of "?h2 @ [EpollMod fd (Some (HASH_ID i)) True]" SOCKET_TYPE_CONNECTING]
          by (cases conn; cases "k_inet_ntop K a") (simp_all add: red None set_type_def Let_def sp_write_def buf registered_def)
      next
        case (Some e)
        let ?h2 = "(hist @ [EpollAdd fd (Some (HASH_ID i)) False]) @ [Close fd]"
        have "registered ?h2 \<subseteq>\<^sub>m registered (ss_sys ss)" using rg by (auto simp: map_le_def dom_def registered_def)
        then show ?thesis using gb [of ?h2] by (simp add: red Some failed)
      qed
    qed
  qed
qed

subsection \<open>Every command\<close>

lemma block_readpipe_pop: "ss_pipe ss = p # ps \<Longrightarrow> block_readpipe ss = Some (p, pop_pipe ps ss)"
  by (simp add: block_readpipe_def pop_pipe_def)

lemma pop_use:
  assumes "ss_inv ss" and "ss_pipe ss = p # ps" and "open_id (snd p) = None"
  shows "ss_inv (pop_pipe ps ss)"
  using assms pipe_inv_use(1) [of "ss_slot ss" p ps] by (simp add: ss_inv_def ss_core_def pop_pipe_def events_left_def)

lemma pop_facts:
  assumes inv: "ss_inv ss" and pipe: "ss_pipe ss = p # ps" and u: "use_id (snd p) = Some i"
  shows "ss_inv (pop_pipe ps ss)" and "\<not> reserved (ss_slot (pop_pipe ps ss)) i" and "packet_ok p"
proof -
  have o: "open_id (snd p) = None" using u by (rule use_not_open)
  show "ss_inv (pop_pipe ps ss)" by (rule pop_use [OF inv pipe o])
  have "pipe_inv (ss_slot ss) (p # ps)" using inv pipe by (simp add: ss_inv_def ss_core_def)
  from pipe_inv_use(2,3) [OF this o] u show "packet_ok p" "\<not> reserved (ss_slot (pop_pipe ps ss)) i" by simp_all
qed

text \<open>A packet of data: it was counted, so the count can be taken back.\<close>

lemma send_and_count:
  assumes inv: "ss_inv ss" and pipe: "ss_pipe ss = (len, r) # ps" and r: "ref_id r = Some i" and raw: "raw_ok buf sz"
  shows "\<exists>ty ss' res'. (do {
       (ret, ss2, res') \<leftarrow> send_socket K i buf sz p None (pop_pipe ps ss) res;
       ss3 \<leftarrow> dec_sending_ref i ss2;
       Some (ret, ss3, res') }) = Some (ty, ss', res') \<and> keeps ty res' (pop_pipe ps ss) ss'"
proof -
  have u: "use_id (snd (len, r)) = Some i" using ref_use [OF r] by simp
  note pf = pop_facts [OF inv pipe u]
  let ?h = "HASH_ID i"
  obtain ty s hist res' where a:
    "send_socket K i buf sz p None (pop_pipe ps ss) res = Some (ty, upd ?h s hist (pop_pipe ps ss), res')"
    "ss_inv (upd ?h s hist (pop_pipe ps ss))" "s_id s = s_id (ss_slot ss ?h)" "s_protocol s = s_protocol (ss_slot ss ?h)"
    "s_sending s = s_sending (ss_slot ss ?h)"
    using send_socket_keeps [OF pf(1,2) raw, of None K p res] by auto
  have "pending i ps < in_flight s" if "s_id s = i" "s_protocol s = PROTOCOL_TCP"
  proof -
    have "pending (s_id (ss_slot ss ?h)) ((len, r) # ps) \<le> in_flight (ss_slot ss ?h)"
      using inv_pending [OF inv, of ?h] pipe that a(3,4) by (simp cong: if_cong)
    then show ?thesis using that(1) a(3,5) r by (simp add: in_flight_def)
  qed
  then obtain s2 where b: "dec_sending_ref i (upd ?h s hist (pop_pipe ps ss)) = Some (upd ?h s2 hist (pop_pipe ps ss))"
    "ss_inv (upd ?h s2 hist (pop_pipe ps ss))"
    using dec_sending_ref_keeps [OF a(2), of i s] by auto
  show ?thesis using a(1) b inv_keeps_upd by auto
qed

lemma opened_keeps:
  "\<exists>ty s hist res'. f = Some (ty, upd h s hist ss, res') \<and> ss_inv (upd h s hist ss) \<Longrightarrow>
   \<exists>ty ss' res'. f = Some (ty, ss', res') \<and> keeps ty res' ss ss'"
  using inv_keeps_upd by blast

lemma ctrl_use_keeps:
  assumes K: "write_answers K" "write_bounded K" and inv: "ss_inv ss" and pipe: "ss_pipe ss = p # ps"
    and u: "use_id (snd p) = Some i"
  shows "\<exists>ty ss' res'. ctrl_cmd K ss res = Some (ty, ss', res') \<and> keeps ty res' (pop_pipe ps ss) ss'"
proof -
  obtain len r where p: "p = (len, r)" by (cases p)
  note pf = pop_facts [OF inv pipe u]
  have pipe': "ss_pipe ss = (len, r) # ps" using pipe p by simp
  note red = ctrl_cmd_def block_readpipe_pop [OF pipe']
  show ?thesis
  proof (cases r)
    case (ReqS j q)
    then show ?thesis using start_socket_keeps [OF pf(1,2), of K q] u p by (simp add: red)
  next
    case (ReqK j sd q)
    then show ?thesis using close_socket_keeps [OF K pf(1,2), of sd q res] u p by (simp add: red)
  next
    case (ReqD j sz buf)
    then show ?thesis using send_and_count [OF inv pipe', of i buf sz K PRIORITY_HIGH res] pf(3) u p by (simp add: red)
  next
    case (ReqP j sz buf)
    then show ?thesis using send_and_count [OF inv pipe', of i buf sz K PRIORITY_LOW res] pf(3) u p by (simp add: red)
  next
    case (ReqA j sz buf a)
    then have "raw_ok buf sz" "udp_addr a" using pf(3) p by simp_all
    then have "\<exists>ty s hist res'. send_socket K i buf sz PRIORITY_HIGH (Some a) (pop_pipe ps ss) res =
        Some (ty, upd (HASH_ID i) s hist (pop_pipe ps ss), res') \<and> ss_inv (upd (HASH_ID i) s hist (pop_pipe ps ss))"
      using send_socket_keeps [OF pf(1,2), of buf sz "Some a" K PRIORITY_HIGH res] by auto
    then show ?thesis using opened_keeps [of _ "HASH_ID i" "pop_pipe ps ss"] ReqA u p by (simp add: red)
  next
    case (ReqC j a)
    then show ?thesis using set_udp_address_keeps [OF pf(1,2), of a res] pf(3) u p by (simp add: red)
  next
    case (ReqT j what v)
    then show ?thesis using setopt_socket_keeps [OF pf(1)] by (simp add: red)
  qed (use u p in simp_all)
qed

lemma ctrl_open_keeps:
  assumes inv: "ss_inv ss" and pipe: "ss_pipe ss = p # ps" and o: "open_id (snd p) = Some i"
  shows "\<exists>ty ss' res'. ctrl_cmd K ss res = Some (ty, ss', res') \<and> keeps ty res' (pop_pipe ps ss) ss'"
proof -
  obtain len r where p: "p = (len, r)" by (cases p)
  have pipe': "ss_pipe ss = (len, r) # ps" and o': "open_id (snd (len, r)) = Some i" using pipe o p by simp_all
  note red = ctrl_cmd_def block_readpipe_pop [OF pipe']
  have pk: "packet_ok p" using inv pipe by (simp add: ss_inv_def ss_core_def pipe_inv_def)
  show ?thesis
  proof (cases r)
    case (ReqB j fd q)
    then show ?thesis using opened_keeps [OF bind_socket_keeps [OF inv pipe' o', of K fd q]] o p by (simp add: red)
  next
    case (ReqL j fd q)
    then show ?thesis using opened_keeps [OF listen_socket_keeps [OF inv pipe' o', of K fd q res]] o p by (simp add: red)
  next
    case (ReqO j port q host)
    then have "host_of len host = Some host" using pk p by (simp add: host_of_def)
    moreover obtain ty ss' res' where f: "open_socket K i port q host (pop_pipe ps ss) = Some (ty, ss', res')"
      "ss_inv ss'" "events_left ss' = events_left ss" "ss_pipe ss' = ps" "ss_alloc_id ss' = ss_alloc_id ss"
      using open_socket_keeps [OF inv pipe' o', of K port q host] ReqO by auto
    moreover have "keeps ty res' (pop_pipe ps ss) ss'" using f(2-5) by (intro inv_keeps) simp_all
    ultimately show ?thesis using ReqO o p by (simp add: red)
  next
    case (ReqU j fd family q)
    obtain s hist where f: "add_udp_socket K i fd family q (pop_pipe ps ss) = Some (upd (HASH_ID i) s hist (pop_pipe ps ss))"
      "ss_inv (upd (HASH_ID i) s hist (pop_pipe ps ss))"
      using add_udp_socket_keeps [OF inv pipe' o', of K fd family q] by blast
    then show ?thesis using inv_keeps_upd [OF f(2)] ReqU o p by (simp add: red)
  qed (use o p in simp_all)
qed

lemma ctrl_cmd_keeps:
  assumes K: "write_answers K" "write_bounded K" and inv: "ss_inv ss" and pipe: "ss_pipe ss = p # ps"
  shows "\<exists>ty ss' res'. ctrl_cmd K ss res = Some (ty, ss', res') \<and> keeps ty res' (pop_pipe ps ss) ss'"
proof (cases "snd p = ReqX")
  case True
  then have "ss_inv (pop_pipe ps ss)" by (intro pop_use [OF inv pipe]) simp
  then show ?thesis using True keeps_refl by (cases p) (simp add: ctrl_cmd_def block_readpipe_pop [OF pipe])
next
  case False
  then have "(\<exists>i. use_id (snd p) = Some i) \<or> (\<exists>i. open_id (snd p) = Some i)" by (cases "snd p") simp_all
  then show ?thesis using ctrl_use_keeps [OF K inv pipe] ctrl_open_keeps [OF inv pipe] by blast
qed

text \<open>After the report of a closed socket no event mentions it.\<close>

lemma clear_events_inv:
  assumes "distinct (event_slots es)"
    and "\<forall>h \<in> set (event_slots es). polled (ss_slot ss h) \<or> h = HASH_ID i \<and>
      s_type (ss_slot ss h) = SOCKET_TYPE_INVALID \<and> s_id (ss_slot ss h) = i"
  shows "distinct (event_slots (clear_events ss i es)) \<and>
    (\<forall>h \<in> set (event_slots (clear_events ss i es)). polled (ss_slot ss h)) \<and>
    set (event_slots (clear_events ss i es)) \<subseteq> set (event_slots es)"
  using assms
proof (induction es)
  case (Cons e es)
  show ?case
  proof (cases "e_s e")
    case None
    with Cons show ?thesis by simp
  next
    case (Some h)
    show ?thesis
    proof (cases "polled (ss_slot ss h)")
      case True
      then have "s_type (ss_slot ss h) \<noteq> SOCKET_TYPE_INVALID" by (simp add: polled_def active_def)
      with Some True Cons show ?thesis by auto
    next
      case False
      have "h = HASH_ID i" "s_type (ss_slot ss h) = SOCKET_TYPE_INVALID \<and> s_id (ss_slot ss h) = i"
        using Cons.prems(2) Some False by auto
      moreover from this(1) have "\<forall>g \<in> set (event_slots es). polled (ss_slot ss g)"
        using Cons.prems(1,2) Some by auto
      ultimately show ?thesis using Some Cons.prems(1) by auto
    qed
  qed
qed simp

lemma length_clear_events [simp]: "length (clear_events ss i es) = length es"
  by (induction es) (auto split: option.split)

lemma keeps_ev:
  assumes "keeps ty res ss ss'"
  shows "ev_inv (if ty = SOCKET_CLOSE \<or> ty = SOCKET_ERR
             then {h. h = HASH_ID (r_id res) \<and> s_type (ss_slot ss' h) = SOCKET_TYPE_INVALID \<and> s_id (ss_slot ss' h) = r_id res} else {})
       (ss_slot ss') (events_left ss')"
  using assms unfolding keeps_def by blast

lemma clear_keeps:
  assumes k: "keeps ty res ss ss'" and ss: "ss_core ss'"
  shows "ss_inv (clear_closed_event ty res ss')" and "ss_pipe (clear_closed_event ty res ss') = ss_pipe ss'"
    and "ss_slot (clear_closed_event ty res ss') = ss_slot ss'"
proof -
  show "ss_pipe (clear_closed_event ty res ss') = ss_pipe ss'" "ss_slot (clear_closed_event ty res ss') = ss_slot ss'"
    by (simp_all add: clear_closed_event_def)
  show "ss_inv (clear_closed_event ty res ss')"
  proof (cases "ty = SOCKET_CLOSE \<or> ty = SOCKET_ERR")
    case False
    then have "ev_inv {} (ss_slot ss') (events_left ss')" using keeps_ev [OF k] by simp
    with False ss show ?thesis by (simp add: clear_closed_event_def ss_inv_def)
  next
    case True
    let ?n = "ss_event_index ss'" and ?es = "events_left ss'"
    let ?es' = "clear_events ss' (r_id res) ?es"
    have n: "?n \<le> length (ss_ev ss')" using ss by (simp add: ss_core_def)
    have c: "clear_closed_event ty res ss' = ss'\<lparr>ss_ev := take ?n (ss_ev ss') @ ?es'\<rparr>"
      using True by (simp add: clear_closed_event_def events_left_def)
    have "ev_inv {h. h = HASH_ID (r_id res) \<and> s_type (ss_slot ss' h) = SOCKET_TYPE_INVALID \<and>
        s_id (ss_slot ss' h) = r_id res} (ss_slot ss') ?es"
      using keeps_ev [OF k] True by simp
    then have "distinct (event_slots ?es') \<and> (\<forall>h \<in> set (event_slots ?es'). polled (ss_slot ss' h))"
      using clear_events_inv [of ?es ss' "r_id res"] by (auto simp: ev_inv_def)
    moreover have "events_left (ss'\<lparr>ss_ev := take ?n (ss_ev ss') @ ?es'\<rparr>) = ?es'"
      using n by (simp add: events_left_def)
    moreover have "length (take ?n (ss_ev ss') @ ?es') = length (ss_ev ss')"
      using n by (simp add: events_left_def)
    ultimately show ?thesis using ss unfolding c by (simp add: ss_inv_def ss_core_def ev_inv_def)
  qed
qed

subsection \<open>Events\<close>

text \<open>An event of slot \<open>h\<close> was handled: the socket is closed and reported, or still watched.\<close>

definition handled :: "nat \<Rightarrow> socket_server \<Rightarrow> socket_report \<Rightarrow> socket_server \<Rightarrow> socket_result \<Rightarrow> bool" where
  "handled h ss ty ss' res' \<longleftrightarrow> keeps ty res' ss ss' \<and>
     (if ty = SOCKET_CLOSE \<or> ty = SOCKET_ERR then r_id res' = s_id (ss_slot ss h) else polled (ss_slot ss' h))"

lemma handled_upd:
  assumes "ss_inv (upd h s hist ss)" and "polled s" and "ty \<noteq> SOCKET_CLOSE" "ty \<noteq> SOCKET_ERR"
  shows "handled h ss ty (upd h s hist ss) res"
  using assms inv_keeps_upd by (simp add: handled_def)

text \<open>The kernel: what \<open>recvfrom\<close> reports is an internet address, and \<open>epoll_wait\<close> reports each watched
  descriptor at most once, with the pointer it was added with.\<close>

definition inet_peers :: "kernel \<Rightarrow> bool" where
  "inet_peers K \<longleftrightarrow> (\<forall>h fd bs f. k_recvfrom K h fd \<noteq> Inr (bs, OtherFamily f))"

definition epoll_ok :: "kernel \<Rightarrow> bool" where
  "epoll_ok K \<longleftrightarrow> (\<forall>h n evs. k_epoll_wait K h n = Inr evs \<longrightarrow>
     (\<exists>fds. distinct fds \<and> list_all2 (\<lambda>fd ev. registered h fd = Some (ep_ptr ev)) fds evs))"

lemma polled_active: "polled s \<Longrightarrow> active s"
  by (simp add: polled_def)

lemma close_handled:
  assumes inv: "ss_inv ss" and s: "ss_slot ss h = s" "active s" and ty: "ty = SOCKET_CLOSE \<or> ty = SOCKET_ERR"
    and q: "quiet1 c"
  shows "\<exists>ss' res'. force_close h 0 (upd h s (ss_sys ss @ [c]) ss) = Some (ss', res') \<and>
    handled h ss ty ss' res' \<and> handled h ss ty ss' (res'\<lparr>r_data := d\<rparr>)"
proof -
  have "registered (ss_sys ss @ [c]) = registered (ss_sys ss)" using quiet1_reg [OF q] by simp
  from force_close_keeps [OF inv s ty this] obtain ss' res' where
    f: "force_close h 0 (upd h s (ss_sys ss @ [c]) ss) = Some (ss', res')" "r_id res' = s_id s"
    "\<forall>res. r_id res = s_id s \<longrightarrow> keeps ty res ss ss'" by blast
  have "keeps ty (res'\<lparr>r_data := d\<rparr>) ss ss'" using f(2,3) by simp
  then show ?thesis using f ty s(1) by (simp add: handled_def)
qed

lemma wf_read_size:
  assumes "sock_wf s" and "s_protocol s = PROTOCOL_TCP"
  shows "sock_wf (s\<lparr>s_stat := st, s_p := PSize (MIN_READ_BUFFER * 2 ^ k)\<rparr>)"
proof -
  let ?s = "s\<lparr>s_stat := st, s_p := PSize (MIN_READ_BUFFER * 2 ^ k)\<rparr>"
  have "tcp_wf ?s" by (auto simp: tcp_wf_def)
  moreover have "dw_ok ?s = dw_ok s" by (simp add: dw_ok_def split: option.split)
  ultimately show ?thesis using assms by (auto simp: sock_wf_def split: if_splits)
qed

text \<open>The read size doubles after a full read and halves after a read of less than half.\<close>

lemma read_size:
  assumes "s_p s = PSize (MIN_READ_BUFFER * 2 ^ k)"
  defines "sz \<equiv> MIN_READ_BUFFER * 2 ^ k"
  shows "\<exists>k'. (if n = sz then (stat_read t n s)\<lparr>s_p := PSize (sz * 2)\<rparr>
      else if sz > MIN_READ_BUFFER \<and> n * 2 < sz then (stat_read t n s)\<lparr>s_p := PSize (sz div 2)\<rparr> else stat_read t n s) =
    s\<lparr>s_stat := s_stat (stat_read t n s), s_p := PSize (MIN_READ_BUFFER * 2 ^ k')\<rparr>"
proof -
  have two: "sz * 2 = MIN_READ_BUFFER * 2 ^ Suc k" by (simp add: sz_def)
  have half: "sz div 2 = MIN_READ_BUFFER * 2 ^ (k - 1)" if "sz > MIN_READ_BUFFER"
    using that by (cases k) (simp_all add: sz_def)
  have same: "stat_read t n s = s\<lparr>s_stat := s_stat (stat_read t n s), s_p := PSize (MIN_READ_BUFFER * 2 ^ k)\<rparr>"
    using assms(1) by (cases s) (simp add: stat_read_def)
  consider "n = sz" | "n \<noteq> sz" "sz > MIN_READ_BUFFER \<and> n * 2 < sz" | "n \<noteq> sz" "\<not> (sz > MIN_READ_BUFFER \<and> n * 2 < sz)" by blast
  then show ?thesis
  proof cases
    case 1
    then show ?thesis using two by (intro exI [of _ "Suc k"]) (simp add: stat_read_def)
  next
    case 2
    then show ?thesis using half by (intro exI [of _ "k - 1"]) (simp add: stat_read_def)
  next
    case 3
    then show ?thesis using same by (intro exI [of _ k]) (simp only: if_False)
  qed
qed

lemma forward_message_tcp_handled:
  assumes inv: "ss_inv ss" and s: "ss_slot ss h = s" "polled s" "s_protocol s = PROTOCOL_TCP"
  shows "\<exists>ty ss' res'. forward_message_tcp K h ss res = Some (ty, ss', res') \<and> handled h ss ty ss' res'"
proof -
  have act: "active s" using s(2) by (rule polled_active)
  have wf: "sock_wf s" using inv_slot [OF inv, of h] s act slot_ok_active by blast
  then obtain k where k: "s_p s = PSize (MIN_READ_BUFFER * 2 ^ k)" using s(3) by (auto simp: sock_wf_def tcp_wf_def)
  let ?sz = "MIN_READ_BUFFER * 2 ^ k"
  let ?r = "k_read K (ss_sys ss) (s_fd s) (nat ?sz)"
  let ?c = "Read (s_fd s) (nat ?sz) ?r"
  have start: "call_sys ?c ss = upd h s (ss_sys ss @ [?c]) ss" using s(1) call_upd by blast
  note d = forward_message_tcp_def Let_def s(1) k
  have keep: "handled h ss ty (upd h s' (ss_sys ss @ [?c]) ss) res2"
    if "same_id s s'" "s_type s' = s_type s" "sock_wf s'" "s_dw_lock s' = s_dw_lock s" "ty \<noteq> SOCKET_CLOSE" "ty \<noteq> SOCKET_ERR" for s' ty res2
  proof (rule handled_upd [OF _ _ that(5,6)])
    show p: "polled s'" using that(2) s(2) by (simp add: polled_def active_def)
    have "\<not> s_dw_lock s" using inv_slot [OF inv, of h] s act slot_ok_active by blast
    then show "ss_inv (upd h s' (ss_sys ss @ [?c]) ss)"
      using that p polled_active [OF p] by (intro keep_upd [OF inv s(1) act]) simp_all
  qed
  show ?thesis
  proof (cases ?r)
    case (Inl e)
    obtain ss' res' where f: "force_close h 0 (upd h s (ss_sys ss @ [?c]) ss) = Some (ss', res')"
      "handled h ss SOCKET_ERR ss' (res'\<lparr>r_data := DStr (k_strerror K e)\<rparr>)"
      using close_handled [OF inv s(1) act, of SOCKET_ERR ?c "DStr (k_strerror K e)"] by auto
    show ?thesis using f keep [of s R_IGNORE res] wf start [unfolded Inl]
      by (auto simp: d Inl same_id_def)
  next
    case (Inr bs)
    obtain ss' res' where f: "force_close h 0 (upd h s (ss_sys ss @ [?c]) ss) = Some (ss', res')"
      "handled h ss SOCKET_CLOSE ss' res'"
      using close_handled [OF inv s(1) act, of SOCKET_CLOSE ?c DNull] by auto
    let ?n = "int (length bs)"
    let ?s1 = "stat_read (ss_time ss) ?n s"
    let ?s2 = "if ?n = ?sz then ?s1\<lparr>s_p := PSize (?sz * 2)\<rparr>
      else if ?sz > MIN_READ_BUFFER \<and> ?n * 2 < ?sz then ?s1\<lparr>s_p := PSize (?sz div 2)\<rparr> else ?s1"
    obtain k' where s2: "?s2 = s\<lparr>s_stat := s_stat ?s1, s_p := PSize (MIN_READ_BUFFER * 2 ^ k')\<rparr>"
      using read_size [OF k] by metis
    have wf2: "sock_wf ?s2" unfolding s2 using wf s(3) by (rule wf_read_size)
    have "handled h ss SOCKET_DATA (upd h ?s2 (ss_sys ss @ [?c]) ss) (answer (s_id s) (s_opaque s) ?n (DBuf bs))"
      using wf2 unfolding s2 by (intro keep) (simp_all add: same_id_def)
    moreover have "forward_message_tcp K h ss res =
      (if bs = [] then do { (ss2, res') \<leftarrow> force_close h 0 (upd h s (ss_sys ss @ [?c]) ss); Some (SOCKET_CLOSE, ss2, res') }
       else if s_type s = SOCKET_TYPE_HALFCLOSE then Some (R_IGNORE, upd h s (ss_sys ss @ [?c]) ss, res)
       else Some (SOCKET_DATA, upd h ?s2 (ss_sys ss @ [?c]) ss, answer (s_id s) (s_opaque s) ?n (DBuf bs)))"
      using start [unfolded Inr] by (simp add: d Inr split del: if_split cong: if_cong)
    ultimately show ?thesis using f keep [of s R_IGNORE res] wf
      by (cases "bs = []"; cases "s_type s = SOCKET_TYPE_HALFCLOSE") (simp_all add: same_id_def)
  qed
qed

lemma keep_handled:
  assumes inv: "ss_inv ss" and s: "ss_slot ss h = s" "polled s"
    and c: "same_conn s s'" "sock_wf s'" and r: "registered hist = registered (ss_sys ss)"
    and ty: "ty \<noteq> SOCKET_CLOSE" "ty \<noteq> SOCKET_ERR"
  shows "handled h ss ty (upd h s' hist ss) res"
proof (rule handled_upd [OF _ _ ty])
  show "ss_inv (upd h s' hist ss)" by (rule same_conn_keep [OF inv s(1) polled_active [OF s(2)] c r])
  show "polled s'" using same_conn_id [OF c(1)] s(2) by simp
qed

lemma forward_message_udp_handled:
  assumes K: "inet_peers K" and inv: "ss_inv ss" and s: "ss_slot ss h = s" "polled s"
  shows "\<exists>ty ss' res'. forward_message_udp K h ss res = Some (ty, ss', res') \<and> handled h ss ty ss' res'"
proof -
  have act: "active s" using s(2) by (rule polled_active)
  have wf: "sock_wf s" using inv_slot [OF inv, of h] s act slot_ok_active by blast
  let ?r = "k_recvfrom K (ss_sys ss) (s_fd s)"
  let ?c = "Recvfrom (s_fd s) ?r"
  have start: "call_sys ?c ss = upd h s (ss_sys ss @ [?c]) ss" using s(1) call_upd by blast
  have reg: "registered (ss_sys ss @ [?c]) = registered (ss_sys ss)" by simp
  note d = forward_message_udp_def Let_def s(1)
  show ?thesis
  proof (cases ?r)
    case (Inl e)
    obtain ss' res' where f: "force_close h 0 (upd h s (ss_sys ss @ [?c]) ss) = Some (ss', res')"
      "handled h ss SOCKET_ERR ss' (res'\<lparr>r_data := DStr (k_strerror K e)\<rparr>)"
      using close_handled [OF inv s(1) act, of SOCKET_ERR ?c "DStr (k_strerror K e)"] by auto
    have "handled h ss R_IGNORE (upd h s (ss_sys ss @ [?c]) ss) res"
      using wf reg by (intro keep_handled [OF inv s]) simp_all
    then show ?thesis using f start [unfolded Inl] by (auto simp: d Inl)
  next
    case (Inr x)
    obtain bs sa where x: "x = (bs, sa)" by (cases x)
    let ?s = "stat_read (ss_time ss) (int (length bs)) s"
    have k: "handled h ss ty (upd h ?s (ss_sys ss @ [?c]) ss) res2" if "ty \<noteq> SOCKET_CLOSE" "ty \<noteq> SOCKET_ERR" for ty res2
      using wf reg that by (intro keep_handled [OF inv s]) (simp_all add: stat_read_def same_conn_def)
    have "\<not> (\<exists>f. sa = OtherFamily f)" using K Inr x unfolding inet_peers_def by metis
    then have g: "\<exists>a. gen_udp_address (if family_of sa = AF_INET then PROTOCOL_UDP else PROTOCOL_UDPv6) sa = Some a"
      by (cases sa) (simp_all add: AF_INET_def AF_INET6_def)
    have red: "forward_message_udp K h ss res =
      (if s_protocol s \<noteq> (if family_of sa = AF_INET then PROTOCOL_UDP else PROTOCOL_UDPv6)
       then Some (R_IGNORE, upd h ?s (ss_sys ss @ [?c]) ss, res)
       else do {
         a \<leftarrow> gen_udp_address (if family_of sa = AF_INET then PROTOCOL_UDP else PROTOCOL_UDPv6) sa;
         Some (SOCKET_UDP, upd h ?s (ss_sys ss @ [?c]) ss, answer (s_id s) (s_opaque s) (int (length bs)) (DBuf (bs @ a))) })"
      using start [unfolded Inr x] by (simp add: d Inr x split del: if_split cong: if_cong)
    from g obtain a where "gen_udp_address (if family_of sa = AF_INET then PROTOCOL_UDP else PROTOCOL_UDPv6) sa = Some a" by blast
    then show ?thesis using k unfolding red by simp
  qed
qed

lemma report_connect_handled:
  assumes inv: "ss_inv ss" and s: "ss_slot ss h = s" "s_type s = SOCKET_TYPE_CONNECTING"
  shows "\<exists>ty ss' res'. report_connect K h ss res = Some (ty, ss', res') \<and> handled h ss ty ss' res'"
proof -
  have act: "active s" and p: "polled s" using s(2) by (simp_all add: active_def polled_def)
  have ok: "sock_wf s" "\<not> s_dw_lock s" using inv_slot [OF inv, of h] s act slot_ok_active by blast+
  let ?r = "k_so_error K (ss_sys ss) (s_fd s)"
  let ?c = "SoError (s_fd s) ?r"
  have start: "call_sys ?c ss = upd h s (ss_sys ss @ [?c]) ss" using s(1) call_upd by blast
  have fail: "\<exists>ty ss' res'. (do {
            (ss2, res') \<leftarrow> force_close h 0 (upd h s (ss_sys ss @ [?c]) ss);
            Some (SOCKET_ERR, ss2, res'\<lparr>r_data := DStr (k_strerror K e)\<rparr>) }) = Some (ty, ss', res') \<and> handled h ss ty ss' res'" for e
    using close_handled [OF inv s(1) act, of SOCKET_ERR ?c "DStr (k_strerror K e)"] by auto
  show ?thesis
  proof (cases ?r)
    case (Inl e)
    then show ?thesis using fail [of e] start by (simp add: report_connect_def Let_def s(1))
  next
    case (Inr oe)
    show ?thesis
    proof (cases oe)
      case (Some e)
      then show ?thesis using fail [of e] start Inr by (simp add: report_connect_def Let_def s(1))
    next
      case None
      let ?s = "s\<lparr>s_type := SOCKET_TYPE_CONNECTED\<rparr>"
      define h1 where "h1 = ss_sys ss @ [SoError (s_fd s) (Inr None)] @ (if nomore_sending_data s then [EpollMod (s_fd s) (Some h) False] else [])"
      let ?h2 = "h1 @ [Peername (s_fd s) (k_getpeername K h1 (s_fd s))]"
      have reg: "registered ?h2 = registered (ss_sys ss)" by (simp add: h1_def registered_def)
      have pa: "polled ?s" "active ?s" using p by (simp_all add: polled_def active_def)
      have "ss_inv (upd h ?s ?h2 ss)"
        using pa ok reg by (intro keep_upd [OF inv s(1) act]) (simp_all add: same_id_def)
      then have h: "handled h ss ty (upd h ?s ?h2 ss) res'" if "ty \<noteq> SOCKET_CLOSE" "ty \<noteq> SOCKET_ERR" for ty res'
        using pa that by (intro handled_upd)
      have buf: "handled h ss ty (x\<lparr>ss_buffer := b\<rparr>) res' = handled h ss ty x res'" for x b ty res'
        by (simp add: handled_def keeps_def ss_core_def events_left_def)
      have st: "(if nomore_sending_data s
          then on_sys (\<lambda>hist. sp_write hist (s_fd s) (Some h) False) (set_type h SOCKET_TYPE_CONNECTED (upd h s (ss_sys ss @ [SoError (s_fd s) (Inr None)]) ss))
          else set_type h SOCKET_TYPE_CONNECTED (upd h s (ss_sys ss @ [SoError (s_fd s) (Inr None)]) ss)) = upd h ?s h1 ss"
        by (simp add: set_type_def sp_write_def h1_def)
      have "report_connect K h ss res = (case k_getpeername K h1 (s_fd s) of
           Inl _ \<Rightarrow> Some (SOCKET_OPEN, upd h ?s ?h2 ss, answer (s_id s) (s_opaque s) 0 DNull)
         | Inr u \<Rightarrow> (case k_inet_ntop K u of
             None \<Rightarrow> Some (SOCKET_OPEN, upd h ?s ?h2 ss, answer (s_id s) (s_opaque s) 0 DNull)
           | Some name \<Rightarrow> Some (SOCKET_OPEN, (upd h ?s ?h2 ss)\<lparr>ss_buffer := name\<rparr>, answer (s_id s) (s_opaque s) 0 (DStr name))))"
        using start Inr None unfolding report_connect_def Let_def s(1) by (simp only: sum.case option.case st) (simp cong: sum.case_cong option.case_cong)
      then show ?thesis using h [of SOCKET_OPEN] buf by (auto split: sum.split option.split)
    qed
  qed
qed

subsection \<open>Reserving a slot\<close>

definition next_id :: "i32 \<Rightarrow> i32" where
  "next_id a = (let i = a + 1 in if sint i < 0 then i AND 0x7fffffff else i)"

lemma next_id_pos: "0 \<le> sint (next_id a)"
proof (cases "sint (a + 1) < 0")
  case True
  have "unat ((a + 1) AND 0x7fffffff) \<le> unat (0x7fffffff :: i32)"
    by (rule word_le_nat_alt [THEN iffD1]) (rule word_and_le1)
  then show ?thesis using True by (simp add: next_id_def sint_i32)
qed (simp add: next_id_def)

lemma reserve_Suc:
  "reserve_loop (Suc n) ss =
     (let j = next_id (ss_alloc_id ss); s = ss_slot ss (HASH_ID j) in
      if s_type s = SOCKET_TYPE_INVALID then
        (j, put_slot (HASH_ID j) (s\<lparr>s_type := SOCKET_TYPE_RESERVE, s_id := j,
              s_protocol := PROTOCOL_UNKNOWN, s_udpconnecting := 0, s_fd := - 1\<rparr>) (ss\<lparr>ss_alloc_id := j\<rparr>))
      else reserve_loop n (ss\<lparr>ss_alloc_id := j\<rparr>))"
  by (simp add: next_id_def Let_def)

lemma reserve_loop_spec:
  "reserve_loop n ss = (i, ss') \<Longrightarrow>
     (sint i < 0 \<and> (\<exists>a. ss' = ss\<lparr>ss_alloc_id := a\<rparr>)) \<or>
     (0 \<le> sint i \<and> s_type (ss_slot ss (HASH_ID i)) = SOCKET_TYPE_INVALID \<and>
      ss' = (upd (HASH_ID i) ((ss_slot ss (HASH_ID i))\<lparr>s_type := SOCKET_TYPE_RESERVE, s_id := i,
        s_protocol := PROTOCOL_UNKNOWN, s_udpconnecting := 0, s_fd := - 1\<rparr>) (ss_sys ss) ss)\<lparr>ss_alloc_id := i\<rparr>)"
proof (induction n arbitrary: ss)
  case 0
  then show ?case by (intro disjI1) (auto intro: exI [of _ "ss_alloc_id ss'"])
next
  case (Suc n)
  define j where "j = next_id (ss_alloc_id ss)"
  have pos: "0 \<le> sint j" by (simp add: j_def next_id_pos)
  note red = reserve_Suc [of n ss, folded j_def]
  show ?case
  proof (cases "s_type (ss_slot ss (HASH_ID j)) = SOCKET_TYPE_INVALID")
    case True
    with Suc.prems red pos show ?thesis by (auto simp: put_slot_def upd_def Let_def)
  next
    case False
    with Suc.prems red have "reserve_loop n (ss\<lparr>ss_alloc_id := j\<rparr>) = (i, ss')" by (simp add: Let_def)
    from Suc.IH [OF this] show ?thesis by (auto simp: upd_def)
  qed
qed

text \<open>The id that \<open>reserve_id\<close> would hand out is not used by a packet that is still in the pipe. Ids come
  again only after \<open>2 ^ 31\<close> reservations.\<close>

definition id_fresh :: "socket_server \<Rightarrow> bool" where
  "id_fresh ss \<longleftrightarrow> (\<forall>p \<in> set (ss_pipe ss). use_id (snd p) \<noteq> Some (fst (reserve_id ss)))"

lemma reserve_id_same:
  assumes "ss_slot ss' = ss_slot ss" and "ss_alloc_id ss' = ss_alloc_id ss"
  shows "fst (reserve_id ss') = fst (reserve_id ss)"
proof -
  have main: "ss_slot a = ss_slot b \<Longrightarrow> ss_alloc_id a = ss_alloc_id b \<Longrightarrow> fst (reserve_loop n a) = fst (reserve_loop n b)" for n a b
  proof (induction n arbitrary: a b)
    case (Suc n)
    let ?j = "next_id (ss_alloc_id b)"
    have "fst (reserve_loop n (a\<lparr>ss_alloc_id := ?j\<rparr>)) = fst (reserve_loop n (b\<lparr>ss_alloc_id := ?j\<rparr>))"
      by (rule Suc.IH) (simp_all add: Suc.prems(1))
    then show ?case unfolding reserve_Suc Suc.prems by (simp add: Let_def)
  qed simp
  show ?thesis unfolding reserve_id_def using assms by (rule main)
qed

lemma pending_fresh: "\<forall>p \<in> set ps. use_id (snd p) \<noteq> Some i \<Longrightarrow> pending i ps = 0"
  by (induction ps) (auto dest: ref_use)

lemma inv_alloc [simp]: "ss_inv (ss\<lparr>ss_alloc_id := a\<rparr>) = ss_inv ss"
  by (simp add: ss_inv_def ss_core_def events_left_def)

lemma inv_buffer [simp]: "ss_inv (ss\<lparr>ss_buffer := a\<rparr>) = ss_inv ss"
  by (simp add: ss_inv_def ss_core_def events_left_def)

lemma frame_alloc [simp]:
  "events_left (ss\<lparr>ss_alloc_id := a\<rparr>) = events_left ss" "events_left (ss\<lparr>ss_buffer := b\<rparr>) = events_left ss"
  by (simp_all add: events_left_def)

lemma inv_close_fd:
  assumes "ss_inv ss"
  shows "ss_inv (call_sys (Close fd) ss)"
proof -
  have "reg_inv (ss_slot ss) (ss_sys ss @ [Close fd])" using assms by (auto simp: ss_inv_def ss_core_def reg_inv_def split: if_splits)
  with assms show ?thesis by (simp add: ss_inv_def ss_core_def call_sys_def events_left_def)
qed

lemma accept_keeps:
  assumes inv: "ss_inv ss" and free: "s_type (ss_slot ss (HASH_ID i)) = SOCKET_TYPE_INVALID"
    and s: "s_high s = []" "s_low s = []" "\<not> s_dw_lock s" and n: "pending i (ss_pipe ss) = 0"
    and reg: "registered hist = registered (ss_sys ss)"
  shows "ss_inv (upd (HASH_ID i) ((fresh_sock i fd PROTOCOL_TCP q s)\<lparr>s_type := SOCKET_TYPE_PACCEPT\<rparr>) hist ss)"
proof -
  let ?g = "HASH_ID i"
  let ?s = "(fresh_sock i fd PROTOCOL_TCP q s)\<lparr>s_type := SOCKET_TYPE_PACCEPT\<rparr>"
  let ?S = "(ss_slot ss)(?g := ?s)"
  have np: "\<not> polled (ss_slot ss ?g)" using free by (simp add: polled_def active_def)
  have "slot_ok ?g ?s" using s by (intro fresh_tcp) simp_all
  moreover have "reserved ?S j = reserved (ss_slot ss) j" for j using free by (intro reserved_upd) simp_all
  then have "pipe_inv ?S (ss_pipe ss)"
    using inv n by (simp add: ss_inv_def ss_core_def pipe_inv_def) (simp add: fresh_sock_def)
  moreover have "reg_inv ?S hist"
    using inv reg np by (intro reg_inv_upd [of _ "ss_sys ss"]) (auto simp: ss_inv_def ss_core_def)
  moreover have "ev_inv {} ?S (events_left ss)"
    using inv np by (intro ev_inv_upd [of "{}"]) (auto simp: ss_inv_def)
  ultimately show ?thesis using inv by (simp add: ss_inv_def ss_core_def)
qed

text \<open>The state after a connection was accepted into slot \<open>HASH_ID i\<close>.\<close>

lemma accept_red:
  assumes s: "ss_slot ss h = s" and r: "k_accept K (ss_sys ss) (s_fd s) = Inr (cfd, u)"
    and i: "reserve_id (call_sys (Accept (s_fd s) (Inr (cfd, u))) ss) = (i, ss2)" and pos: "0 \<le> sint i"
    and g: "s_high (ss_slot ss (HASH_ID i)) = []" "s_low (ss_slot ss (HASH_ID i)) = []" "\<not> s_dw_lock (ss_slot ss (HASH_ID i))"
    and ne: "h \<noteq> HASH_ID i"
    and ss2: "ss2 = (upd (HASH_ID i) ((ss_slot ss (HASH_ID i))\<lparr>s_type := SOCKET_TYPE_RESERVE, s_id := i,
          s_protocol := PROTOCOL_UNKNOWN, s_udpconnecting := 0, s_fd := - 1\<rparr>)
          (ss_sys ss @ [Accept (s_fd s) (Inr (cfd, u))]) (call_sys (Accept (s_fd s) (Inr (cfd, u))) ss))\<lparr>ss_alloc_id := i\<rparr>"
  defines "t \<equiv> (ss_slot ss (HASH_ID i))\<lparr>s_type := SOCKET_TYPE_RESERVE, s_id := i,
          s_protocol := PROTOCOL_UNKNOWN, s_udpconnecting := 0, s_fd := - 1\<rparr>"
    and "h3 \<equiv> ss_sys ss @ [Accept (s_fd s) (Inr (cfd, u)), Keepalive cfd, Nonblocking cfd]"
  shows "\<exists>m b r. report_accept K h ss res = Some (m,
    ((upd h (stat_read (ss_time ss) 1 s) h3
       (upd (HASH_ID i) ((fresh_sock i cfd PROTOCOL_TCP (s_opaque s) t)\<lparr>s_type := SOCKET_TYPE_PACCEPT\<rparr>) h3 ss))
       \<lparr>ss_alloc_id := i\<rparr>)\<lparr>ss_buffer := b\<rparr>, r)"
proof -
  let ?g = "HASH_ID i" and ?X = "ss\<lparr>ss_alloc_id := i\<rparr>" and ?f = "fresh_sock i cfd PROTOCOL_TCP (s_opaque s) t"
  have e3: "on_sys (\<lambda>hist. sp_nonblocking (hist @ [Keepalive cfd]) cfd) ss2 = upd ?g t h3 ?X"
    unfolding ss2 by (simp add: on_sys_def upd_def call_sys_def sp_nonblocking_def t_def h3_def)
  have e4: "new_fd K i cfd PROTOCOL_TCP (s_opaque s) False (upd ?g t h3 ?X) = Some (Some ?g, upd ?g ?f h3 ?X)"
    using g by (simp add: new_fd_upd t_def)
  have e5: "set_type ?g SOCKET_TYPE_PACCEPT (put_slot h (stat_read (ss_time ss) 1 s) (upd ?g ?f h3 ?X)) =
      (upd h (stat_read (ss_time ss) 1 s) h3 (upd ?g (?f\<lparr>s_type := SOCKET_TYPE_PACCEPT\<rparr>) h3 ss))\<lparr>ss_alloc_id := i\<rparr>"
    using ne by (simp add: set_type_def put_slot_def upd_def fun_upd_twist)
  have "\<not> sint i < 0" using pos by simp
  then show ?thesis
    using e3 e4 e5 s r i ne by (cases "getname K u MAX_INFO") (auto simp: report_accept_def Let_def)
qed

lemma report_accept_handled:
  assumes inv: "ss_inv ss" and s: "ss_slot ss h = s" "s_type s = SOCKET_TYPE_LISTEN" and fresh: "id_fresh ss"
  shows "\<exists>ok ss' res'. report_accept K h ss res = Some (ok, ss', res') \<and> ss_inv ss' \<and>
    events_left ss' = events_left ss \<and> ss_pipe ss' = ss_pipe ss"
proof -
  have act: "active s" and pl: "polled s" using s(2) by (simp_all add: active_def polled_def)
  have ok: "sock_wf s" using inv_slot [OF inv, of h] s act slot_ok_active by blast
  let ?r = "k_accept K (ss_sys ss) (s_fd s)"
  let ?c = "Accept (s_fd s) ?r"
  let ?ss1 = "call_sys ?c ss"
  have inv1: "ss_inv ?ss1" using inv by (rule inv_call) simp
  show ?thesis
  proof (cases ?r)
    case (Inl e)
    then show ?thesis using inv1 by (auto simp: report_accept_def Let_def s(1))
  next
    case (Inr x)
    obtain cfd u where x: "x = (cfd, u)" by (cases x)
    obtain i ss2 where i: "reserve_id ?ss1 = (i, ss2)" by fastforce
    have fi: "fst (reserve_id ss) = i" using reserve_id_same [of ?ss1 ss] i by simp
    from reserve_loop_spec [OF i [unfolded reserve_id_def]] show ?thesis
    proof (elim disjE conjE exE)
      fix a assume a: "sint i < 0" "ss2 = ?ss1\<lparr>ss_alloc_id := a\<rparr>"
      then have "report_accept K h ss res = Some (0, call_sys (Close cfd) ss2, res)"
        using Inr x i by (simp add: report_accept_def Let_def s(1))
      moreover have "ss_inv (call_sys (Close cfd) ss2)" using inv1 a(2) by (intro inv_close_fd) simp
      ultimately show ?thesis using a(2) by simp
    next
      assume pos: "0 \<le> sint i" and free: "s_type (ss_slot ?ss1 (HASH_ID i)) = SOCKET_TYPE_INVALID"
        and ss2: "ss2 = (upd (HASH_ID i) ((ss_slot ?ss1 (HASH_ID i))\<lparr>s_type := SOCKET_TYPE_RESERVE, s_id := i,
          s_protocol := PROTOCOL_UNKNOWN, s_udpconnecting := 0, s_fd := - 1\<rparr>) (ss_sys ?ss1) ?ss1)\<lparr>ss_alloc_id := i\<rparr>"
      let ?g = "HASH_ID i"
      let ?t = "(ss_slot ss ?g)\<lparr>s_type := SOCKET_TYPE_RESERVE, s_id := i,
          s_protocol := PROTOCOL_UNKNOWN, s_udpconnecting := 0, s_fd := - 1\<rparr>"
      let ?f = "fresh_sock i cfd PROTOCOL_TCP (s_opaque s) ?t"
      let ?h3 = "ss_sys ss @ [?c, Keepalive cfd, Nonblocking cfd]"
      have gs: "s_high (ss_slot ss ?g) = []" "s_low (ss_slot ss ?g) = []" "\<not> s_dw_lock (ss_slot ss ?g)"
        using inv_slot [OF inv, of ?g] free by (simp_all add: slot_ok_def active_def)
      have ne: "h \<noteq> ?g" using free s by auto
      have n: "pending i (ss_pipe ss) = 0" using fresh fi by (intro pending_fresh) (simp add: id_fresh_def)
      have "ss_inv (upd ?g (?f\<lparr>s_type := SOCKET_TYPE_PACCEPT\<rparr>) ?h3 ss)"
        using gs n free by (intro accept_keeps [OF inv]) (simp_all add: registered_def)
      then have "ss_inv (upd h (stat_read (ss_time ss) 1 s) ?h3 (upd ?g (?f\<lparr>s_type := SOCKET_TYPE_PACCEPT\<rparr>) ?h3 ss))"
        by (rule same_conn_keep) (use s(1) ne act ok in \<open>simp_all add: stat_read_def same_conn_def\<close>)
      moreover have "\<exists>m b r. report_accept K h ss res = Some (m,
          ((upd h (stat_read (ss_time ss) 1 s) ?h3 (upd ?g (?f\<lparr>s_type := SOCKET_TYPE_PACCEPT\<rparr>) ?h3 ss))\<lparr>ss_alloc_id := i\<rparr>)\<lparr>ss_buffer := b\<rparr>, r)"
        using accept_red [OF s(1) Inr [unfolded x] _ pos gs ne, of ss2] i ss2 by (simp add: x [symmetric] Inr)
      ultimately show ?thesis by auto
    qed
  qed
qed

end
