(* ===== verification/SocketRun.thy ===== *)
theory SocketRun
  imports SocketSafe
begin

section \<open>Runs of the socket server\<close>

text \<open>
  The invariant is kept by every turn of the poll loop and by every request of another thread, so a run
  of turns and requests in any order aborts nowhere, unless it meets one of two hazards: data sent to an id
  whose connect is still in the pipe, and a direct datagram that the kernel does not take whole. Both are
  shown to be real. The first section is the poll loop.
\<close>

subsection \<open>Events\<close>

lemma handled_inv:
  assumes h: "handled h ss ty ss' res'" and hs: "HASH_ID (s_id (ss_slot ss h)) = h" and n: "h \<notin> set (event_slots (events_left ss))"
  shows "ss_inv ss'"
proof -
  have k: "keeps ty res' ss ss'" using h by (simp add: handled_def)
  have "ev_inv {} (ss_slot ss') (events_left ss')"
  proof (cases "ty = SOCKET_CLOSE \<or> ty = SOCKET_ERR")
    case True
    then have "HASH_ID (r_id res') = h" using h hs by (simp add: handled_def)
    then have "ev_inv {h} (ss_slot ss') (events_left ss')"
      using keeps_ev [OF k] True by (auto elim: ev_inv_mono)
    moreover have "events_left ss' = events_left ss" using k by (simp add: keeps_def)
    ultimately show ?thesis using n by (auto simp: ev_inv_def)
  next
    case False
    then show ?thesis using keeps_ev [OF k] by simp
  qed
  then show ?thesis using k by (simp add: keeps_def ss_inv_def)
qed

text \<open>The write part of an event waits for the next turn.\<close>

lemma again_inv:
  assumes inv: "ss_inv ss" and i: "ss_event_index ss = Suc i" and e: "e_s e = Some h"
    and p: "polled (ss_slot ss h)" "h \<notin> set (event_slots (events_left ss))"
  shows "ss_inv ((set_ev i e ss)\<lparr>ss_event_index := i\<rparr>)"
proof -
  let ?ss = "(set_ev i e ss)\<lparr>ss_event_index := i\<rparr>"
  have len: "i < length (ss_ev ss)" using inv i by (simp add: ss_inv_def ss_core_def)
  then have "events_left ?ss = e # events_left ss"
    by (simp add: events_left_def set_ev_def i Cons_nth_drop_Suc [symmetric] drop_update_cancel)
  moreover have "ss_core ?ss" using inv i len by (simp add: ss_inv_def ss_core_def set_ev_def)
  moreover have "ss_slot ?ss = ss_slot ss" by (simp add: set_ev_def)
  ultimately show ?thesis using inv e p by (simp add: ss_inv_def ev_inv_def)
qed

text \<open>Only a close or an error touches the list of events; it is not put back then.\<close>

lemma forward_message_tcp_frame:
  assumes f: "forward_message_tcp K h ss res = Some (ty, ss', res')" and ty: "ty \<noteq> SOCKET_CLOSE" "ty \<noteq> SOCKET_ERR"
  shows "ss_ev ss' = ss_ev ss \<and> ss_event_index ss' = ss_event_index ss"
proof -
  obtain sz where sz: "s_p (ss_slot ss h) = PSize sz"
    using f by (cases "s_p (ss_slot ss h)") (simp_all add: forward_message_tcp_def Let_def)
  show ?thesis
  proof (cases "k_read K (ss_sys ss) (s_fd (ss_slot ss h)) (nat sz)")
    case (Inl e)
    with f sz ty show ?thesis
      by (cases "e = EINTR \<or> e = EAGAIN") (auto simp: forward_message_tcp_def Let_def call_sys_def bind_eq_Some_conv)
  next
    case (Inr bs)
    with f sz ty show ?thesis
      by (cases "bs = []"; cases "s_type (ss_slot ss h) = SOCKET_TYPE_HALFCLOSE")
        (auto simp: forward_message_tcp_def Let_def call_sys_def put_slot_def bind_eq_Some_conv)
  qed
qed

lemma forward_message_udp_frame:
  assumes f: "forward_message_udp K h ss res = Some (ty, ss', res')" and ty: "ty \<noteq> SOCKET_CLOSE" "ty \<noteq> SOCKET_ERR"
  shows "ss_ev ss' = ss_ev ss \<and> ss_event_index ss' = ss_event_index ss"
proof (cases "k_recvfrom K (ss_sys ss) (s_fd (ss_slot ss h))")
  case (Inl e)
  with f ty show ?thesis
    by (cases "e = EINTR \<or> e = EAGAIN") (auto simp: forward_message_udp_def Let_def call_sys_def bind_eq_Some_conv)
next
  case (Inr x)
  obtain bs sa where "x = (bs, sa)" by (cases x)
  with Inr f ty show ?thesis
    by (auto simp: forward_message_udp_def Let_def call_sys_def put_slot_def bind_eq_Some_conv split: if_splits)
qed

text \<open>The state of the server after a turn.\<close>

definition turn_state :: "turn \<Rightarrow> socket_server" where
  "turn_state t = (case t of Inl (_, ss, _) \<Rightarrow> ss | Inr (ss, _) \<Rightarrow> ss)"

definition turn_ok :: "turn option \<Rightarrow> bool" where
  "turn_ok r \<longleftrightarrow> (\<exists>t. r = Some t \<and> ss_inv (turn_state t))"

lemma turn_ok_simps [simp]:
  "turn_ok (Some (Inl (ty, ss, st))) = ss_inv ss" "turn_ok (Some (Inr (ss, st))) = ss_inv ss"
  "turn_ok (Some (return_type ty (ss, st))) = ss_inv ss" "\<not> turn_ok None"
  by (simp_all add: turn_ok_def turn_state_def return_type_def)

text \<open>One socket with an event: its slot is polled, and no other event mentions it.\<close>

definition at_event :: "socket_server \<Rightarrow> nat \<Rightarrow> poll_event \<Rightarrow> nat \<Rightarrow> bool" where
  "at_event ss h e i \<longleftrightarrow> ss_inv ss \<and> ss_event_index ss = Suc i \<and> e_s e = Some h \<and> polled (ss_slot ss h) \<and>
     h \<notin> set (event_slots (events_left ss))"

lemma at_event_hash: "at_event ss h e i \<Longrightarrow> HASH_ID (s_id (ss_slot ss h)) = h"
  using inv_slot [of ss h] slot_ok_active [of h "ss_slot ss h"] by (simp add: at_event_def polled_active)

lemma at_handled: "at_event ss h e i \<Longrightarrow> handled h ss ty ss' res' \<Longrightarrow> ss_inv ss'"
  using handled_inv at_event_hash by (auto simp: at_event_def)

lemma at_again:
  assumes a: "at_event ss h e i" and h: "handled h ss ty ss' res'" and ty: "ty \<noteq> SOCKET_CLOSE" "ty \<noteq> SOCKET_ERR"
    and f: "ss_ev ss' = ss_ev ss \<and> ss_event_index ss' = ss_event_index ss" and e': "e_s e' = Some h"
  shows "ss_inv ((set_ev i e' ss')\<lparr>ss_event_index := i\<rparr>)"
  using a h ty f e' at_handled [OF a h] by (intro again_inv) (auto simp: at_event_def handled_def keeps_def)

lemma poll_read_ok:
  assumes K: "inet_peers K" and a: "at_event ss h e i" and e: "ss_ev ss ! i = e"
  shows "turn_ok (poll_read K h e i (ss, res, m))"
proof -
  let ?s = "ss_slot ss h"
  have inv: "ss_inv ss" and p: "polled ?s" and es: "e_s e = Some h" using a by (simp_all add: at_event_def)
  let ?f = "if s_protocol ?s = PROTOCOL_TCP then forward_message_tcp K h ss res else forward_message_udp K h ss res"
  obtain ty ss1 res1 where f: "?f = Some (ty, ss1, res1)" and h: "handled h ss ty ss1 res1"
    using forward_message_tcp_handled [OF inv refl p] forward_message_udp_handled [OF K inv refl p]
    by (cases "s_protocol ?s = PROTOCOL_TCP") (simp_all, blast+)
  have fr: "ss_ev ss1 = ss_ev ss \<and> ss_event_index ss1 = ss_event_index ss" if "ty \<noteq> SOCKET_CLOSE" "ty \<noteq> SOCKET_ERR"
    using f that forward_message_tcp_frame forward_message_udp_frame by (auto split: if_splits)
  have put: "ss_inv (ss1\<lparr>ss_event_index := i\<rparr>)" if "ty \<noteq> SOCKET_CLOSE" "ty \<noteq> SOCKET_ERR"
  proof -
    have "set_ev i e ss1 = ss1" using fr [OF that] e by (cases ss1) (auto simp: set_ev_def)
    then show ?thesis using at_again [OF a h that fr [OF that] es] by simp
  qed
  have again: "ss_inv ((set_ev i (e\<lparr>e_read := False\<rparr>) ss1)\<lparr>ss_event_index := i\<rparr>)" if "ty \<noteq> SOCKET_CLOSE" "ty \<noteq> SOCKET_ERR"
    using at_again [OF a h that fr [OF that], of "e\<lparr>e_read := False\<rparr>"] es by simp
  have red: "poll_read K h e i (ss, res, m) =
      (if s_protocol ?s \<noteq> PROTOCOL_TCP \<and> ty = SOCKET_UDP then Some (Inl (SOCKET_UDP, ss1\<lparr>ss_event_index := i\<rparr>, res1, m))
       else Some (return_type ty (if e_write e \<and> ty \<noteq> SOCKET_CLOSE \<and> ty \<noteq> SOCKET_ERR
          then (set_ev i (e\<lparr>e_read := False\<rparr>) ss1)\<lparr>ss_event_index := i\<rparr> else ss1, res1, m)))"
    unfolding poll_read_def Let_def prod.case f by simp
  show ?thesis unfolding red using put again at_handled [OF a h] by simp
qed

lemma poll_default_ok:
  assumes K: "inet_peers K" "write_answers K" "write_bounded K" and a: "at_event ss h e i" and e: "ss_ev ss ! i = e"
  shows "turn_ok (poll_default K h e i (ss, res, m))"
proof -
  let ?s = "ss_slot ss h"
  have inv: "ss_inv ss" and act: "active ?s" using a by (simp_all add: at_event_def polled_active)
  have w: "turn_ok (do { (ty, ss1, res1) \<leftarrow> send_buffer K h 0 ss res; Some (return_type ty (ss1, res1, m)) })"
  proof -
    obtain ty s' h' res' where b: "send_buffer K h 0 ss res = Some (ty, upd h s' h' ss, res')"
      "buffer_sent 0 ?s (ss_sys ss) ty s' h' res'"
      using send_buffer_keeps [OF K(2,3) inv refl act] by blast
    note k = buffer_sent_keeps [OF inv refl act b(2)]
    have "ss_inv (upd h s' h' ss)"
    proof (cases "ty = SOCKET_CLOSE")
      case True
      then have "r_id res' = s_id ?s" using b(2) by (auto simp: buffer_sent_def answer_def)
      then have "handled h ss ty (upd h s' h' ss) res'" using k(1) True by (simp add: handled_def)
      then show ?thesis by (rule at_handled [OF a])
    qed (use k(2) in simp)
    then show ?thesis using b(1) by simp
  qed
  have er: "turn_ok (poll_error K h (ss, res, m))"
  proof -
    let ?c = "SoError (s_fd ?s) (k_so_error K (ss_sys ss) (s_fd ?s))"
    obtain ss' res' where "force_close h 0 (upd h ?s (ss_sys ss @ [?c]) ss) = Some (ss', res')" "handled h ss SOCKET_ERR ss' res'"
      using close_handled [OF inv refl act, of SOCKET_ERR ?c DNull] by auto
    then show ?thesis using at_handled [OF a] call_upd [of ?c ss h] by (simp add: poll_error_def Let_def)
  qed
  have cl: "turn_ok (do { (ss1, res1) \<leftarrow> force_close h 0 ss; Some (Inl (SOCKET_CLOSE, ss1, res1, m)) })"
  proof -
    obtain ss' res' where f: "force_close h 0 (upd h ?s (ss_sys ss) ss) = Some (ss', res')" "r_id res' = s_id ?s"
      "\<forall>res. r_id res = s_id ?s \<longrightarrow> keeps SOCKET_CLOSE res ss ss'"
      using force_close_keeps [OF inv refl act, of SOCKET_CLOSE "ss_sys ss"] by auto
    then have "handled h ss SOCKET_CLOSE ss' res'" by (simp add: handled_def)
    then show ?thesis using at_handled [OF a] f(1) upd_same [of h ss] by simp
  qed
  show ?thesis
    using poll_read_ok [OF K(1) a e] w er cl inv by (simp add: poll_default_def)
qed

lemma id_fresh_cong:
  assumes "ss_slot ss' = ss_slot ss" and "ss_alloc_id ss' = ss_alloc_id ss" and "ss_pipe ss' = ss_pipe ss"
  shows "id_fresh ss' = id_fresh ss"
  using reserve_id_same [OF assms(1,2)] assms(3) by (simp add: id_fresh_def)

lemma next_event:
  assumes inv: "ss_inv ss" and left: "ss_event_index ss < length (ss_ev ss)"
  defines "i \<equiv> ss_event_index ss"
  shows "ss_inv (ss\<lparr>ss_event_index := i + 1\<rparr>)"
    and "e_s (ss_ev ss ! i) = Some h \<Longrightarrow> at_event (ss\<lparr>ss_event_index := i + 1\<rparr>) h (ss_ev ss ! i) i"
proof -
  let ?e = "ss_ev ss ! i" and ?ss = "ss\<lparr>ss_event_index := i + 1\<rparr>"
  have ev: "events_left ss = ?e # events_left ?ss"
    using left by (simp add: events_left_def i_def Cons_nth_drop_Suc)
  then show inv1: "ss_inv ?ss"
    using inv left by (auto simp: ss_inv_def ss_core_def ev_inv_def i_def split: option.splits)
  show "at_event ?ss h ?e i" if "e_s ?e = Some h"
    using inv inv1 ev that by (simp add: at_event_def ss_inv_def ev_inv_def)
qed

lemma poll_event_ok:
  assumes K: "inet_peers K" "write_answers K" "write_bounded K" and inv: "ss_inv ss" and fresh: "id_fresh ss"
    and left: "ss_event_index ss < length (ss_ev ss)"
  shows "turn_ok (poll_one_event K (ss, res, m))"
proof -
  let ?i = "ss_event_index ss"
  let ?e = "ss_ev ss ! ?i" and ?ss = "ss\<lparr>ss_event_index := ?i + 1\<rparr>"
  have inv1: "ss_inv ?ss" by (rule next_event(1) [OF inv left])
  have n: "nth_at (ss_ev ss) ?i = Some ?e" using left by (simp add: nth_at_def)
  show ?thesis
  proof (cases "e_s ?e")
    case None
    then show ?thesis using n inv1 by (simp add: poll_one_event_def Let_def)
  next
    case (Some h)
    let ?s = "ss_slot ss h"
    have a: "at_event ?ss h ?e ?i" using next_event(2) [OF inv left Some] .
    have conn: "turn_ok (do { (ty, ss2, res2) \<leftarrow> report_connect K h ?ss res; Some (Inl (ty, ss2, res2, m)) })"
      if "s_type ?s = SOCKET_TYPE_CONNECTING"
      using report_connect_handled [OF inv1, of h ?s K res] that at_handled [OF a] by auto
    have lis: "turn_ok (do { (ok, ss2, res2) \<leftarrow> report_accept K h ?ss res;
        Some (if ok > 0 then Inl (SOCKET_ACCEPT, ss2, res2, m)
              else if ok < 0 then Inl (SOCKET_ERR, ss2, res2, m) else Inr (ss2, res2, m)) })"
      if "s_type ?s = SOCKET_TYPE_LISTEN"
      using report_accept_handled [OF inv1, of h ?s K res] id_fresh_cong [of ?ss ss] that fresh by auto
    have def: "turn_ok (poll_default K h ?e ?i (?ss, res, m))"
      by (rule poll_default_ok [OF K a]) simp
    have red: "poll_one_event K (ss, res, m) = (case s_type ?s of
        SOCKET_TYPE_CONNECTING \<Rightarrow> do { (ty, ss2, res2) \<leftarrow> report_connect K h ?ss res; Some (Inl (ty, ss2, res2, m)) }
      | SOCKET_TYPE_LISTEN \<Rightarrow> do { (ok, ss2, res2) \<leftarrow> report_accept K h ?ss res;
          Some (if ok > 0 then Inl (SOCKET_ACCEPT, ss2, res2, m)
                else if ok < 0 then Inl (SOCKET_ERR, ss2, res2, m) else Inr (ss2, res2, m)) }
      | SOCKET_TYPE_INVALID \<Rightarrow> Some (Inr (?ss, res, m))
      | _ \<Rightarrow> poll_default K h ?e ?i (?ss, res, m))"
      using n Some by (simp add: poll_one_event_def Let_def cong: socket_type.case_cong option.case_cong)
    show ?thesis unfolding red using conn lis def inv1 by (cases "s_type ?s") simp_all
  qed
qed

text \<open>New events: each of a watched descriptor, none twice.\<close>

lemma epoll_slots:
  assumes "reg_inv S hist" and "distinct fds" and "list_all2 (\<lambda>fd ev. registered hist fd = Some (ep_ptr ev)) fds evs"
  shows "distinct (event_slots (map sp_event evs)) \<and>
    (\<forall>h \<in> set (event_slots (map sp_event evs)). polled (S h) \<and> s_fd (S h) \<in> set fds)"
  using assms(3,2)
proof (induction rule: list_all2_induct)
  case (Cons fd fds ev evs)
  have one: "polled (S h) \<and> s_fd (S h) = fd" if "ep_ptr ev = Some h" for h
    using assms(1) Cons.hyps that by (simp add: reg_inv_def)
  with Cons show ?case by (auto simp: sp_event_def split: option.split)
qed simp

lemma wait_inv:
  assumes K: "epoll_ok K" and inv: "ss_inv ss" and r: "k_epoll_wait K (ss_sys ss) MAX_EVENT = Inr evs"
  shows "ss_inv (ss\<lparr>ss_sys := ss_sys ss @ [EpollWait (Inr evs)], ss_checkctrl := True, ss_event_index := 0,
    ss_event_n := length evs, ss_ev := map sp_event evs\<rparr>)"
proof -
  have "reg_inv (ss_slot ss) (ss_sys ss @ [EpollWait (Inr evs)])"
    using inv by (simp add: ss_inv_def ss_core_def reg_inv_def)
  moreover obtain fds where "distinct fds" "list_all2 (\<lambda>fd ev. registered (ss_sys ss) fd = Some (ep_ptr ev)) fds evs"
    using K r unfolding epoll_ok_def by blast
  then have "distinct (event_slots (map sp_event evs)) \<and> (\<forall>h \<in> set (event_slots (map sp_event evs)). polled (ss_slot ss h))"
    using epoll_slots [of "ss_slot ss" "ss_sys ss" fds evs] inv by (simp add: ss_inv_def ss_core_def)
  ultimately show ?thesis using inv by (simp add: ss_inv_def ss_core_def ev_inv_def events_left_def)
qed

lemma poll_wait_ok:
  assumes K: "inet_peers K" "write_answers K" "write_bounded K" "epoll_ok K" and inv: "ss_inv ss" and fresh: "id_fresh ss"
  shows "turn_ok (poll_wait K (ss, res, m))"
proof (cases "ss_event_index ss = ss_event_n ss")
  case False
  then have "ss_event_index ss < length (ss_ev ss)" using inv by (simp add: ss_inv_def ss_core_def)
  from poll_event_ok [OF K(1-3) inv fresh this] False show ?thesis by (simp add: poll_wait_def)
next
  case True
  let ?r = "k_epoll_wait K (ss_sys ss) MAX_EVENT"
  let ?ss = "ss\<lparr>ss_sys := ss_sys ss @ [EpollWait ?r], ss_checkctrl := True, ss_event_index := 0\<rparr>"
  have "reg_inv (ss_slot ss) (ss_sys ss @ [EpollWait ?r])"
    using inv by (simp add: ss_inv_def ss_core_def reg_inv_def)
  then have core: "ss_core (?ss\<lparr>ss_event_n := length evs, ss_ev := evs\<rparr>)" for evs
    using inv by (simp add: ss_inv_def ss_core_def)
  have none: "ss_inv (?ss\<lparr>ss_event_n := 0, ss_ev := []\<rparr>)"
    using core [of "[]"] by (simp add: ss_inv_def ev_inv_def events_left_def)
  show ?thesis
  proof (cases ?r)
    case (Inl e)
    then show ?thesis using True none by (cases "e = EINTR") (simp_all add: poll_wait_def sp_wait_def Let_def)
  next
    case (Inr evs)
    let ?ss2 = "?ss\<lparr>ss_event_n := length evs, ss_ev := map sp_event evs\<rparr>"
    have "ss_inv ?ss2" using wait_inv [OF K(4) inv Inr] Inr by simp
    moreover have "id_fresh ?ss2" using fresh id_fresh_cong [of ?ss2 ss] by simp
    ultimately have "evs \<noteq> [] \<Longrightarrow> turn_ok (poll_one_event K (?ss2, res, False))"
      by (intro poll_event_ok [OF K(1-3)]) simp_all
    then show ?thesis using True none Inr by (cases "evs = []") (simp_all add: poll_wait_def sp_wait_def Let_def)
  qed
qed

text \<open>A turn of the loop never fails and keeps the invariant.\<close>

lemma poll_turn_ok:
  assumes K: "inet_peers K" "write_answers K" "write_bounded K" "epoll_ok K" and inv: "ss_inv ss" and fresh: "id_fresh ss"
  shows "turn_ok (poll_turn K (ss, res, m))"
proof (cases "ss_checkctrl ss \<and> has_cmd K ss")
  case True
  then obtain p ps where pipe: "ss_pipe ss = p # ps" by (cases "ss_pipe ss") (auto simp: has_cmd_def)
  from ctrl_cmd_keeps [OF K(2,3) inv pipe] obtain ty ss' res' where
    c: "ctrl_cmd K ss res = Some (ty, ss', res')" "keeps ty res' (pop_pipe ps ss) ss'" by blast
  have "ss_inv (clear_closed_event ty res' ss')" using clear_keeps(1) [OF c(2)] c(2) unfolding keeps_def by blast
  moreover have "clear_closed_event ty res' ss' = ss'" if "ty = R_IGNORE" using that by (simp add: clear_closed_event_def)
  ultimately show ?thesis using True c(1) by (auto simp: poll_turn_def)
next
  case False
  let ?ss = "ss\<lparr>ss_checkctrl := False\<rparr>"
  have "ss_inv ?ss" using inv by (simp add: ss_inv_def ss_core_def events_left_def)
  moreover have "id_fresh ?ss" using fresh id_fresh_cong [of ?ss ss] by simp
  ultimately show ?thesis
    using poll_wait_ok [OF K] inv fresh False by (auto simp: poll_turn_def)
qed

subsection \<open>Requests about an open socket\<close>

lemma pipe_push:
  assumes "pipe_inv S ps" and "open_id (snd p) = None" and "packet_ok p"
    and "\<And>i. ref_id (snd p) = Some i \<Longrightarrow> (reserved S i \<longrightarrow> udp_open i ps) \<and>
      (s_protocol (S (HASH_ID i)) = PROTOCOL_TCP \<and> s_id (S (HASH_ID i)) = i \<longrightarrow> pending i ps < in_flight (S (HASH_ID i)))"
  shows "pipe_inv S (ps @ [p])"
proof -
  have udp: "udp_open i (ps @ [p])" if "udp_open i ps" for i using that by (auto simp: udp_open_def)
  have "order_ok (ps @ [p])" using assms(1,2) by (simp add: order_ok_append pipe_inv_def)
  moreover have "pending (s_id (S h)) (ps @ [p]) \<le> in_flight (S h)"
    if "s_protocol (S h) = PROTOCOL_TCP" "HASH_ID (s_id (S h)) = h" for h
  proof -
    have "pending (s_id (S h)) ps \<le> in_flight (S h)" using assms(1) that by (simp add: pipe_inv_def)
    then show ?thesis using that assms(4) [of "s_id (S h)"] by auto
  qed
  ultimately show ?thesis using assms udp by (auto simp: pipe_inv_def split: if_splits)
qed

definition push_ok :: "packet \<Rightarrow> socket_server \<Rightarrow> bool" where
  "push_ok p ss \<longleftrightarrow> open_id (snd p) = None \<and> packet_ok p \<and> (\<forall>i. ref_id (snd p) = Some i \<longrightarrow>
     (reserved (ss_slot ss) i \<longrightarrow> udp_open i (ss_pipe ss)) \<and>
     (s_protocol (ss_slot ss (HASH_ID i)) = PROTOCOL_TCP \<and> s_id (ss_slot ss (HASH_ID i)) = i \<longrightarrow>
       pending i (ss_pipe ss) < in_flight (ss_slot ss (HASH_ID i))))"

lemma send_request_inv:
  assumes "ss_inv ss" and "push_ok (of_nat len, r) ss"
  shows "ss_inv (send_request r len ss)"
proof -
  have "pipe_inv (ss_slot ss) (ss_pipe ss @ [(of_nat len, r)])"
    using assms by (intro pipe_push) (auto simp: push_ok_def ss_inv_def ss_core_def)
  with assms(1) show ?thesis by (simp add: ss_inv_def ss_core_def send_request_def events_left_def)
qed

lemma push_simple: "open_id r = None \<Longrightarrow> ref_id r = None \<Longrightarrow> packet_ok (len, r) \<Longrightarrow> push_ok (len, r) ss"
  by (simp add: push_ok_def)

lemma next_low16:
  assumes "(n :: nat) mod 65536 < 65535"
  shows "(n + 1) mod 65536 = n mod 65536 + 1" and "(n + 1) div 65536 = n div 65536"
    and "n < 4294967296 \<Longrightarrow> n + 1 < 4294967296"
proof -
  define q r where "q = n div 65536" and "r = n mod 65536"
  have e: "n = q * 65536 + r" and r: "r < 65535" using assms by (simp_all add: q_def r_def)
  have e1: "n + 1 = q * 65536 + (r + 1)" using e by simp
  show "(n + 1) mod 65536 = n mod 65536 + 1" unfolding e1 r_def [symmetric] using r by simp
  show "(n + 1) div 65536 = n div 65536" unfolding e1 q_def [symmetric] using r by simp
  show "n + 1 < 4294967296" if "n < 4294967296" using that e r by (cases "q \<le> 65535") simp_all
qed

lemma inc_sending:
  assumes "unat (w :: u32) mod 2 ^ 16 < 2 ^ 16 - 1"
  shows "unat (w + 1) mod 2 ^ 16 = unat w mod 2 ^ 16 + 1" and "drop_bit 16 (w + 1) = drop_bit 16 w"
proof -
  have n: "unat w mod 65536 < 65535" using assms by simp
  note x = next_low16 [OF n]
  have "unat w < 4294967296" using unsigned_less [of w] by simp
  then have "unat w + 1 < 4294967296" by (rule x(3))
  then have u: "unat (w + 1) = unat w + 1" by (simp add: unat_word_ariths)
  show "unat (w + 1) mod 2 ^ 16 = unat w mod 2 ^ 16 + 1" using u x(1) by simp
  show "drop_bit 16 (w + 1) = drop_bit 16 w"
    using u x(2) by (simp add: word_unat_eq_iff unat_drop_bit_div)
qed

lemma low16_full: "w AND 0xffff = 0xffff \<longleftrightarrow> unat (w :: u32) mod 2 ^ 16 = 2 ^ 16 - 1"
proof -
  have m: "(0xffff :: u32) = mask 16" by (simp add: mask_eq_exp_minus_1)
  have "unat (w AND 0xffff) = unat w mod 2 ^ 16" unfolding m by (simp add: unat_and_mask)
  moreover have "unat (0xffff :: u32) = 2 ^ 16 - 1" by simp
  ultimately show ?thesis by (metis word_unat_eq_iff)
qed

text \<open>
  A request of data is counted, and the packet goes to the pipe. The count is kept per TCP socket: data for an
  id whose packet of \<open>connect\<close>, \<open>listen\<close> or \<open>bind\<close> is still in the pipe (its slot is reserved,
  without a protocol) is not counted. That is an early send.
\<close>

definition early_send :: "i32 \<Rightarrow> socket_server \<Rightarrow> bool" where
  "early_send i ss \<longleftrightarrow> reserved (ss_slot ss) i \<and> \<not> udp_open i (ss_pipe ss)"

definition has_room :: "i32 \<Rightarrow> socket_server \<Rightarrow> bool" where
  "has_room i ss \<longleftrightarrow> (let s = ss_slot ss (HASH_ID i) in
     s_id s = i \<and> s_protocol s = PROTOCOL_TCP \<longrightarrow> in_flight s < 2 ^ 16 - 1)"

definition may_send :: "i32 \<Rightarrow> socket_server \<Rightarrow> bool" where
  "may_send i ss \<longleftrightarrow> \<not> early_send i ss \<and> has_room i ss"

definition known :: "i32 \<Rightarrow> socket_server \<Rightarrow> bool" where
  "known i ss \<longleftrightarrow> s_id (ss_slot ss (HASH_ID i)) = i \<and> s_type (ss_slot ss (HASH_ID i)) \<noteq> SOCKET_TYPE_INVALID"

lemma send_later_ok:
  assumes inv: "ss_inv ss" and raw: "raw_ok buf sz" and may: "may_send i ss" and known: "known i ss"
    and req: "\<And>len. packet_ok (len, req i sz buf)" "ref_id (req i sz buf) = Some i"
  shows "\<exists>ss'. send_later req i buf sz ss = Some (0, ss') \<and> ss_inv ss'"
proof -
  let ?h = "HASH_ID i" and ?s = "ss_slot ss (HASH_ID i)"
  have o: "open_id (req i sz buf) = None" using use_not_open [OF ref_use [OF req(2)]] .
  have id: "s_id ?s = i" using known by (simp add: known_def)
  show ?thesis
  proof (cases "s_protocol ?s = PROTOCOL_TCP")
    case False
    have "push_ok (of_nat 16, req i sz buf) ss" using may False o req by (simp add: push_ok_def may_send_def early_send_def)
    then have "ss_inv (send_request (req i sz buf) 16 ss)" by (rule send_request_inv [OF inv])
    moreover have "put_slot ?h ?s ss = ss" by (simp add: put_slot_def)
    ultimately show ?thesis using False by (simp add: send_later_def inc_sending_ref_def)
  next
    case True
    then have "s_type ?s \<noteq> SOCKET_TYPE_RESERVE" using inv_slot [OF inv, of ?h] by (auto simp: slot_ok_def)
    then have act: "active ?s" using known by (simp add: known_def active_def)
    have tag: "drop_bit 16 (s_sending ?s) = ID_TAG16 i"
      using slot_ok_active [OF inv_slot [OF inv] act] id by simp
    have n: "unat (s_sending ?s) mod 2 ^ 16 < 2 ^ 16 - 1" using may True id by (simp add: may_send_def has_room_def in_flight_def)
    note inc = inc_sending [OF n]
    let ?s' = "?s\<lparr>s_sending := s_sending ?s + 1\<rparr>"
    let ?ss = "upd ?h ?s' (ss_sys ss) ss"
    have "\<not> (s_sending ?s AND 0xffff = 0xffff)" using n by (simp add: low16_full)
    then have inc_ref: "inc_sending_ref i ?s = Some ?s'" using True tag by (simp add: inc_sending_ref_def)
    have p: "pending i (ss_pipe ss) \<le> in_flight ?s" using inv_pending [OF inv, of ?h] True id by simp
    have inv': "ss_inv ?ss" using inc p id by (intro inv_sending [OF inv refl]) (simp_all add: in_flight_def)
    have "\<not> reserved (ss_slot ?ss) i" using act by (simp add: reserved_def active_def)
    moreover have "pending i (ss_pipe ss) < in_flight ?s'" using p inc(1) by (simp add: in_flight_def)
    ultimately have "push_ok (of_nat 16, req i sz buf) ?ss" using o req by (simp add: push_ok_def)
    then have "ss_inv (send_request (req i sz buf) 16 ?ss)" by (rule send_request_inv [OF inv'])
    moreover have "send_later req i buf sz ss = Some (0, send_request (req i sz buf) 16 ?ss)"
      by (simp add: send_later_def Let_def inc_ref put_upd)
    ultimately show ?thesis by blast
  qed
qed

subsection \<open>Direct writes\<close>

text \<open>What a direct write leaves in the slot: nothing, or the rest of the buffer for the socket thread.\<close>

definition written_direct :: "u64 \<Rightarrow> sbuf \<Rightarrow> int \<Rightarrow> errno + nat \<Rightarrow> sock \<Rightarrow> sock" where
  "written_direct now buf sz r s =
     (let n = (case r of Inl _ \<Rightarrow> 0 | Inr n \<Rightarrow> n); s1 = stat_write now (int n) s in
      if int n = sz then s1 else s1\<lparr>s_dw_buffer := Some buf, s_dw_size := sz, s_dw_offset := n\<rparr>)"

definition direct_end :: "sock \<Rightarrow> nat \<Rightarrow> sbuf \<Rightarrow> int \<Rightarrow> errno + nat \<Rightarrow> sys list" where
  "direct_end s h buf sz r =
     (if int (case r of Inl _ \<Rightarrow> 0 | Inr n \<Rightarrow> n) = sz then [Free (b_ptr buf)] else [EpollMod (s_fd s) (Some h) True])"

lemma payload_at [simp]: "raw_ok buf sz \<Longrightarrow> bytes_at (b_bytes buf) sz = Some (payload buf sz)"
  by (auto simp: raw_ok_def bytes_at_def mem_read_def payload_def)

lemma payload_length [simp]: "raw_ok buf sz \<Longrightarrow> int (length (payload buf sz)) = sz"
  by (auto simp: raw_ok_def payload_def)

text \<open>The lock is released at the end.\<close>

lemma direct_write_tcp:
  assumes s: "ss_slot ss (HASH_ID i) = s" "s_protocol s = PROTOCOL_TCP" "\<not> s_dw_lock s" and raw: "raw_ok buf sz"
    and r: "k_write K (ss_sys ss) (s_fd s) (payload buf sz) = r"
  shows "direct_write K i buf sz (put_slot (HASH_ID i) (s\<lparr>s_dw_lock := True\<rparr>) ss) =
    Some (0, upd (HASH_ID i) (written_direct (ss_time ss) buf sz r s)
      (ss_sys ss @ Write (s_fd s) (payload buf sz) r # direct_end s (HASH_ID i) buf sz r) ss)"
proof -
  have "s\<lparr>s_dw_lock := False\<rparr> = s" using s(3) by (cases s) simp
  then show ?thesis using s(2) raw r
    by (cases s) (simp add: put_upd direct_write_def Let_def written_direct_def direct_end_def socket_unlock_def
      sp_write_def stat_write_def)
qed

lemma written_direct_conn: "same_conn s (written_direct now buf sz r s)"
  by (simp add: written_direct_def Let_def stat_write_def same_conn_def)

lemma written_direct_wf:
  assumes wf: "sock_wf s" and c: "can_direct_write i s" and raw: "raw_ok buf sz"
    and p: "s_protocol s = PROTOCOL_TCP" and r: "case r of Inl _ \<Rightarrow> True | Inr n \<Rightarrow> int n \<le> sz"
  shows "sock_wf (written_direct now buf sz r s)"
proof -
  have e: "s_high s = []" "s_low s = []" "s_dw_buffer s = None"
    using c by (simp_all add: can_direct_write_def nomore_sending_data_def send_buffer_empty_def)
  have n: "int (case r of Inl _ \<Rightarrow> 0 | Inr n \<Rightarrow> n) \<le> sz" "sz \<le> int (length (b_bytes buf))"
    using raw r by (auto simp: raw_ok_def split: sum.splits)
  show ?thesis
    using wf e n p by (simp add: written_direct_def Let_def stat_write_def sock_wf_def dw_ok_def tcp_wf_def)
qed

lemma direct_end_reg: "registered (hist @ Write fd xs r # direct_end s h buf sz r) = registered hist"
  by (simp add: direct_end_def registered_def)

text \<open>
  The datagram of a direct write: \<open>sendto\<close> takes it whole, or is not called as the address is of the other
  protocol.
\<close>

definition sendto_whole :: "kernel \<Rightarrow> i32 \<Rightarrow> u8 list \<Rightarrow> socket_server \<Rightarrow> bool" where
  "sendto_whole K i xs ss \<longleftrightarrow> (let s = ss_slot ss (HASH_ID i) in
     s_protocol s \<noteq> PROTOCOL_TCP \<and> can_direct_write i s \<longrightarrow>
     (case s_p s of PSize _ \<Rightarrow> True
      | PAddress a \<Rightarrow> (case udp_socket_address s a of
          Some (Some sa) \<Rightarrow> k_sendto K (ss_sys ss) (s_fd s) xs sa = Inr (length xs)
        | _ \<Rightarrow> True)))"

lemma udp_address_lock: "udp_socket_address (s\<lparr>s_dw_lock := b\<rparr>) a = udp_socket_address s a"
  by (simp add: udp_socket_address_def cong: if_cong protocol.case_cong)

lemma direct_write_udp:
  assumes s: "ss_slot ss (HASH_ID i) = s" "s_protocol s \<noteq> PROTOCOL_TCP" "\<not> s_dw_lock s" "sock_wf s" and raw: "raw_ok buf sz"
    and c: "can_direct_write i s" and whole: "sendto_whole K i (payload buf sz) ss"
  shows "\<exists>v s' hist. direct_write K i buf sz (put_slot (HASH_ID i) (s\<lparr>s_dw_lock := True\<rparr>) ss) =
      Some (v, upd (HASH_ID i) s' hist ss) \<and> same_conn s s' \<and> sock_wf s' \<and> still (ss_sys ss) hist"
proof -
  obtain a where a: "(case s_p s of PAddress a \<Rightarrow> Some a | PSize _ \<Rightarrow> None) = Some a" "addr_ok a"
    using dest_addr [of s None, OF s(4,2)] by auto
  obtain sa where sa: "udp_socket_address (s\<lparr>s_dw_lock := True\<rparr>) a = Some sa" using udp_socket_address_ok [OF a(2)] by blast
  then have sa': "udp_socket_address s a = Some sa" by (simp only: udp_address_lock)
  have p: "s_p s = PAddress a" using a(1) by (cases "s_p s") simp_all
  have l: "s\<lparr>s_dw_lock := False\<rparr> = s" using s(3) by (cases s) simp
  show ?thesis
  proof (cases sa)
    case None
    have "direct_write K i buf sz (put_slot (HASH_ID i) (s\<lparr>s_dw_lock := True\<rparr>) ss) =
        Some (- 1, upd (HASH_ID i) s (ss_sys ss @ [Free (b_ptr buf)]) ss)"
      using a sa None s(2) raw l by (simp add: put_upd direct_write_def Let_def socket_unlock_def)
    moreover have "still (ss_sys ss) (ss_sys ss @ [Free (b_ptr buf)])" by simp
    ultimately show ?thesis using s(4) same_conn_refl by blast
  next
    case (Some x)
    have w: "k_sendto K (ss_sys ss) (s_fd s) (payload buf sz) x = Inr (length (payload buf sz))"
      using whole s(1,2) c p sa' Some by (simp add: sendto_whole_def)
    have "(word_of_nat (length (payload buf sz)) :: u64) = word_of_int sz"
      using payload_length [OF raw] by (metis of_int_of_nat_eq)
    then have "direct_write K i buf sz (put_slot (HASH_ID i) (s\<lparr>s_dw_lock := True\<rparr>) ss) =
        Some (0, upd (HASH_ID i) (stat_write (ss_time ss) sz s)
          (ss_sys ss @ [Sendto (s_fd s) (payload buf sz) x (Inr (length (payload buf sz))), Free (b_ptr buf)]) ss)"
      using a sa Some s(2,3) raw w
      by (cases s) (simp add: put_upd direct_write_def Let_def socket_unlock_def stat_write_def)
    moreover have "same_conn s (stat_write (ss_time ss) sz s)" "sock_wf (stat_write (ss_time ss) sz s)"
      using s(4) by (simp_all add: stat_write_def same_conn_def)
    moreover have "still (ss_sys ss) ((ss_sys ss @ [Sendto (s_fd s) (payload buf sz) x (Inr (length (payload buf sz)))]) @ [Free (b_ptr buf)])"
      using still_trans still_quiet quiet1.simps by metis
    then have "still (ss_sys ss) (ss_sys ss @ [Sendto (s_fd s) (payload buf sz) x (Inr (length (payload buf sz))), Free (b_ptr buf)])"
      by simp
    ultimately show ?thesis by blast
  qed
qed

lemma can_direct_active: "can_direct_write i s \<Longrightarrow> active s \<and> polled s"
  by (simp add: can_direct_write_def active_def polled_def)

lemma socket_server_send_ok:
  assumes K: "write_bounded K" and inv: "ss_inv ss" and raw: "raw_ok buf sz" and may: "may_send i ss"
    and whole: "sendto_whole K i (payload buf sz) ss"
  shows "\<exists>v ss'. socket_server_send K i buf sz ss = Some (v, ss') \<and> ss_inv ss'"
proof -
  let ?h = "HASH_ID i" and ?s = "ss_slot ss (HASH_ID i)"
  have later: "\<exists>ss'. send_later ReqD i buf sz ss = Some (0, ss') \<and> ss_inv ss'" if "known i ss"
    using raw by (intro send_later_ok [OF inv raw may that]) simp_all
  show ?thesis
  proof (cases "known i ss")
    case False
    have "ss_inv (free_func False (b_ptr buf) ss)" using inv_call [OF inv] by (simp add: free_func_def)
    moreover have "socket_server_send K i buf sz ss = Some (- 1, free_func False (b_ptr buf) ss)"
      using False raw by (simp add: socket_server_send_def known_def free_buffer_def Let_def)
    ultimately show ?thesis by blast
  next
    case kn: True
    show ?thesis
    proof (cases "can_direct_write i ?s")
      case False
      then have "socket_server_send K i buf sz ss = send_later ReqD i buf sz ss"
        using kn by (simp add: socket_server_send_def known_def Let_def)
      then show ?thesis using later [OF kn] by auto
    next
      case True
      have act: "active ?s" using can_direct_active [OF True] by simp
      have ok: "sock_wf ?s" "\<not> s_dw_lock ?s" using slot_ok_active [OF inv_slot [OF inv] act] by simp_all
      let ?ss1 = "put_slot ?h (?s\<lparr>s_dw_lock := True\<rparr>) ss"
      have "socket_trylock ?h 0 ss = Some (1, ?ss1)" using ok by (simp add: socket_trylock_def)
      moreover have "can_direct_write i (ss_slot ?ss1 ?h)"
        using True by (simp add: put_slot_def can_direct_write_def nomore_sending_data_def send_buffer_empty_def)
      ultimately have red: "socket_server_send K i buf sz ss = direct_write K i buf sz ?ss1"
        using True kn by (simp add: socket_server_send_def known_def Let_def)
      have "\<exists>v s' hist. direct_write K i buf sz ?ss1 = Some (v, upd ?h s' hist ss) \<and>
          same_conn ?s s' \<and> sock_wf s' \<and> registered hist = registered (ss_sys ss)"
      proof (cases "s_protocol ?s = PROTOCOL_TCP")
        case tcp: True
        let ?r = "k_write K (ss_sys ss) (s_fd ?s) (payload buf sz)"
        have "case ?r of Inl _ \<Rightarrow> True | Inr n \<Rightarrow> int n \<le> sz"
          using K payload_length [OF raw] unfolding write_bounded_def by (cases ?r) force+
        then show ?thesis
          using direct_write_tcp [OF refl tcp ok(2) raw refl] written_direct_conn written_direct_wf [OF ok(1) True raw tcp]
            direct_end_reg by blast
      next
        case False
        then show ?thesis using direct_write_udp [OF refl False ok(2,1) raw True whole] by (simp add: still_def) blast
      qed
      then show ?thesis using same_conn_keep [OF inv refl act] unfolding red by blast
    qed
  qed
qed

lemma socket_server_send_lowpriority_ok:
  assumes inv: "ss_inv ss" and raw: "raw_ok buf sz" and may: "may_send i ss"
  shows "\<exists>v ss'. socket_server_send_lowpriority i buf sz ss = Some (v, ss') \<and> ss_inv ss'"
proof (cases "known i ss")
  case False
  have "ss_inv (free_func False (b_ptr buf) ss)" using inv_call [OF inv] by (simp add: free_func_def)
  moreover have "socket_server_send_lowpriority i buf sz ss = Some (- 1, free_func False (b_ptr buf) ss)"
    using False raw by (simp add: socket_server_send_lowpriority_def known_def free_buffer_def Let_def)
  ultimately show ?thesis by blast
next
  case True
  have "\<exists>ss'. send_later ReqP i buf sz ss = Some (0, ss') \<and> ss_inv ss'"
    using raw by (intro send_later_ok [OF inv raw may True]) simp_all
  moreover have "socket_server_send_lowpriority i buf sz ss = send_later ReqP i buf sz ss"
    using True by (simp add: socket_server_send_lowpriority_def known_def Let_def)
  ultimately show ?thesis by auto
qed

subsection \<open>Requests that open a socket\<close>

lemma reserve_push:
  assumes inv: "ss_inv ss" and fresh: "id_fresh ss" and res: "reserve_id ss = (i, ss1)" "0 \<le> sint i"
    and r: "open_id r = Some i" "packet_ok (of_nat len, r)"
  shows "ss_inv (send_request r len ss1)"
proof -
  let ?h = "HASH_ID i" and ?p = "(of_nat len, r)" and ?ps = "ss_pipe ss"
  let ?s = "(ss_slot ss ?h)\<lparr>s_type := SOCKET_TYPE_RESERVE, s_id := i, s_protocol := PROTOCOL_UNKNOWN, s_udpconnecting := 0, s_fd := - 1\<rparr>"
  let ?S = "(ss_slot ss)(?h := ?s)"
  have free: "s_type (ss_slot ss ?h) = SOCKET_TYPE_INVALID" and ss1: "ss1 = (upd ?h ?s (ss_sys ss) ss)\<lparr>ss_alloc_id := i\<rparr>"
    using reserve_loop_spec [OF res(1) [unfolded reserve_id_def]] res(2) by auto
  have np: "\<not> polled (ss_slot ss ?h)" using free by (simp add: polled_def active_def)
  have ok: "slot_ok ?h ?s" using inv_slot [OF inv, of ?h] free by (auto simp: slot_ok_def active_def)
  have pi: "pipe_inv (ss_slot ss) ?ps" using inv by (simp add: ss_inv_def ss_core_def)
  have res_iff: "reserved ?S j \<longleftrightarrow> reserved (ss_slot ss) j \<or> j = i" for j using free by (auto simp: reserved_def)
  have not_i: "\<not> reserved (ss_slot ss) i" using free by (simp add: reserved_def)
  have unused: "\<forall>p \<in> set ?ps. use_id (snd p) \<noteq> Some i" using fresh res(1) by (simp add: id_fresh_def)
  have none: "pending i ?ps = 0" by (rule pending_fresh [OF unused])
  have nr: "ref_id r = None" "use_id r = None" using r(1) by (cases r; simp)+
  have "order_ok (?ps @ [?p])" using pi unused r(1) nr by (auto simp: order_ok_append pipe_inv_def)
  moreover have "udp_open j (?ps @ [?p])" if "reserved ?S j" "0 < pending j ?ps" for j
  proof -
    have "udp_open j ?ps" using that pi none unfolding res_iff pipe_inv_def by (metis less_irrefl)
    then show ?thesis by (auto simp: udp_open_def)
  qed
  moreover have "pending (s_id (?S h)) ?ps \<le> in_flight (?S h)"
    if "s_protocol (?S h) = PROTOCOL_TCP" "HASH_ID (s_id (?S h)) = h" for h
    using that inv_pending [OF inv, of h] by (cases "h = ?h") simp_all
  ultimately have "pipe_inv ?S (?ps @ [?p])"
    using pi r nr not_i res_iff by (auto simp: pipe_inv_def)
  moreover have "reg_inv ?S (ss_sys ss)"
    using inv np by (intro reg_inv_upd [of _ "ss_sys ss"]) (auto simp: ss_inv_def ss_core_def)
  moreover have "ev_inv {} ?S (events_left ss)"
    using inv np by (intro ev_inv_upd [of "{}"]) (auto simp: ss_inv_def)
  ultimately show ?thesis
    using inv ok by (simp add: ss1 ss_inv_def ss_core_def send_request_def events_left_def)
qed

lemma reserve_inv: "ss_inv ss \<Longrightarrow> reserve_id ss = (i, ss1) \<Longrightarrow> sint i < 0 \<Longrightarrow> ss_inv ss1"
  unfolding reserve_id_def by (drule reserve_loop_spec) auto

text \<open>Calls that watch nothing new.\<close>

fun harmless :: "sys \<Rightarrow> bool" where
  "harmless (Close _) = True"
| "harmless c = quiet1 c"

lemma harmless_reg: "list_all harmless cs \<Longrightarrow> registered (hist @ cs) \<subseteq>\<^sub>m registered hist"
proof (induction cs rule: rev_induct)
  case (snoc c cs)
  have "registered1 c m \<subseteq>\<^sub>m m" for m using snoc.prems by (cases c) (auto simp: map_le_def)
  then have "registered (hist @ cs @ [c]) \<subseteq>\<^sub>m registered (hist @ cs)" by (simp flip: append_assoc)
  with snoc show ?case using map_le_trans by auto
qed simp

lemma inv_sys:
  assumes "ss_inv ss" and "list_all harmless cs"
  shows "ss_inv (ss\<lparr>ss_sys := ss_sys ss @ cs\<rparr>)"
proof -
  have "registered (ss_sys ss) fd = Some x" if "registered (ss_sys ss @ cs) fd = Some x" for fd x
    using that harmless_reg [OF assms(2), of "ss_sys ss"] by (metis domI map_le_def)
  then have "reg_inv (ss_slot ss) (ss_sys ss @ cs)"
    using assms(1) unfolding ss_inv_def ss_core_def reg_inv_def by blast
  with assms(1) show ?thesis by (simp add: ss_inv_def ss_core_def events_left_def)
qed

lemma fresh_sys [simp]: "id_fresh (ss\<lparr>ss_sys := hist\<rparr>) = id_fresh ss"
  by (rule id_fresh_cong) simp_all

lemma socket_server_connect_ok:
  assumes inv: "ss_inv ss" and fresh: "id_fresh ss"
  shows "ss_inv (snd (socket_server_connect opaque addr port ss))"
proof (cases "length addr + sizeof_open \<ge> 256")
  case True
  then show ?thesis using inv by (simp add: socket_server_connect_def open_request_def)
next
  case False
  obtain i ss1 where r: "reserve_id ss = (i, ss1)" by fastforce
  have "unat (of_nat (sizeof_open + length addr) :: u8) = sizeof_open + length addr"
    using False by (simp add: unat_of_nat take_bit_nat_eq_self del: of_nat_add)
  then have p: "packet_ok (of_nat (sizeof_open + length addr), ReqO i port opaque addr)"
    by (simp add: sizeof_open_def offsetof_host_def)
  show ?thesis
  proof (cases "sint i < 0")
    case True
    then show ?thesis using False r reserve_inv [OF inv r]
      by (simp add: socket_server_connect_def open_request_def Let_def)
  next
    case pos: False
    have "ss_inv (send_request (ReqO i port opaque addr) (sizeof_open + length addr) ss1)"
      using pos p by (intro reserve_push [OF inv fresh r]) simp_all
    then show ?thesis using False r pos by (simp add: socket_server_connect_def open_request_def Let_def)
  qed
qed

text \<open>\<open>getaddrinfo\<close> that succeeds returns at least one address; addresses have their size.\<close>

fun address_wf :: "sockaddr \<Rightarrow> bool" where
  "address_wf (V4 port a) = (length port = 2 \<and> length a = 4)"
| "address_wf (V6 port a) = (length port = 2 \<and> length a = 16)"
| "address_wf (OtherFamily f) = (f \<noteq> AF_INET \<and> f \<noteq> AF_INET6)"

definition resolves :: "kernel \<Rightarrow> bool" where
  "resolves K \<longleftrightarrow> (\<forall>h name port xs. k_getaddrinfo K h name port = Inr xs \<longrightarrow> xs \<noteq> [] \<and> list_all address_wf xs)"

lemma do_bind_ok:
  assumes K: "resolves K"
  shows "\<exists>r cs. do_bind K host port hist = Some (r, hist @ cs) \<and> list_all harmless cs"
proof -
  define name where "name = (case host of None \<Rightarrow> str ''0.0.0.0'' | Some x \<Rightarrow> if x = [] then str ''0.0.0.0'' else x)"
  let ?q = "k_getaddrinfo K hist name port"
  note d = do_bind_def Let_def name_def [symmetric]
  show ?thesis
  proof (cases ?q)
    case (Inl e)
    then show ?thesis by (simp add: d)
  next
    case (Inr xs)
    then obtain a as where xs: "?q = Inr (a # as)" using K unfolding resolves_def by (cases xs) auto
    let ?h1 = "hist @ [Getaddrinfo name port (Inr (a # as))]"
    show ?thesis
    proof (cases "k_socket K ?h1 (family_of a)")
      case (Inl e)
      then show ?thesis using xs by (simp add: d)
    next
      case (Inr fd)
      let ?h2 = "?h1 @ [OpenSocket (family_of a) (Inr fd)]"
      let ?ok = "k_reuse K ?h2 fd"
      let ?h3 = "?h2 @ [ReuseAddr fd ?ok]"
      show ?thesis using xs Inr
        by (cases ?ok; cases "k_bind K ?h3 fd a") (simp_all add: d)
    qed
  qed
qed

lemma do_listen_ok:
  assumes K: "resolves K"
  shows "\<exists>r cs. do_listen K host port backlog hist = Some (r, hist @ cs) \<and> list_all harmless cs"
proof -
  obtain r cs where "do_bind K host port hist = Some (r, hist @ cs)" "list_all harmless cs"
    using do_bind_ok [OF K] by blast
  then show ?thesis
    by (cases r) (auto simp: do_listen_def Let_def split: if_splits)
qed

lemma socket_server_listen_ok:
  assumes K: "resolves K" and inv: "ss_inv ss" and fresh: "id_fresh ss"
  shows "\<exists>v ss'. socket_server_listen K opaque addr port backlog ss = Some (v, ss') \<and> ss_inv ss'"
proof -
  obtain r cs where l: "do_listen K addr port backlog (ss_sys ss) = Some (r, ss_sys ss @ cs)" "list_all harmless cs"
    using do_listen_ok [OF K] by blast
  let ?ss = "ss\<lparr>ss_sys := ss_sys ss @ cs\<rparr>"
  have inv1: "ss_inv ?ss" and fresh1: "id_fresh ?ss" using inv_sys [OF inv l(2)] fresh by simp_all
  obtain i ss1 where i: "reserve_id ?ss = (i, ss1)" by fastforce
  show ?thesis
  proof (cases r)
    case None
    then show ?thesis using l(1) inv1 by (simp add: socket_server_listen_def Let_def)
  next
    case (Some fd)
    show ?thesis
    proof (cases "sint i < 0")
      case True
      then have "ss_inv (call_sys (Close fd) ss1)" by (intro inv_close_fd reserve_inv [OF inv1 i])
      then show ?thesis using True Some l(1) i by (simp add: socket_server_listen_def Let_def)
    next
      case False
      then have "ss_inv (send_request (ReqL i fd opaque) 16 ss1)"
        by (intro reserve_push [OF inv1 fresh1 i]) simp_all
      then show ?thesis using False Some l(1) i by (simp add: socket_server_listen_def Let_def)
    qed
  qed
qed

lemma socket_server_bind_ok:
  assumes inv: "ss_inv ss" and fresh: "id_fresh ss"
  shows "ss_inv (snd (socket_server_bind opaque fd ss))"
proof -
  obtain i ss1 where i: "reserve_id ss = (i, ss1)" by fastforce
  show ?thesis
  proof (cases "sint i < 0")
    case True
    then show ?thesis using i reserve_inv [OF inv i] by (simp add: socket_server_bind_def)
  next
    case False
    then have "ss_inv (send_request (ReqB i fd opaque) 16 ss1)"
      by (intro reserve_push [OF inv fresh i]) simp_all
    then show ?thesis using False i by (simp add: socket_server_bind_def)
  qed
qed

lemma socket_server_udp_ok:
  assumes K: "resolves K" and inv: "ss_inv ss" and fresh: "id_fresh ss"
  shows "\<exists>v ss'. socket_server_udp K opaque addr port ss = Some (v, ss') \<and> ss_inv ss'"
proof -
  let ?f = "if port \<noteq> 0 \<or> addr \<noteq> None then do_bind K addr port (ss_sys ss)
        else (let q = k_socket K (ss_sys ss) AF_INET in
              Some (case q of Inl _ \<Rightarrow> None | Inr fd \<Rightarrow> Some (fd, AF_INET), ss_sys ss @ [OpenSocket AF_INET q]))"
  obtain r cs where l: "?f = Some (r, ss_sys ss @ cs)" "list_all harmless cs"
    using do_bind_ok [OF K, of addr port "ss_sys ss"] by (cases "port \<noteq> 0 \<or> addr \<noteq> None") (auto simp: Let_def)
  let ?ss = "ss\<lparr>ss_sys := ss_sys ss @ cs\<rparr>"
  have inv1: "ss_inv ?ss" using inv_sys [OF inv l(2)] by simp
  show ?thesis
  proof (cases r)
    case None
    then show ?thesis unfolding socket_server_udp_def l(1) using inv1 by simp
  next
    case (Some x)
    obtain fd family where x: "x = (fd, family)" by (cases x)
    let ?ss2 = "on_sys (\<lambda>hist. sp_nonblocking hist fd) ?ss"
    have inv2: "ss_inv ?ss2" using inv_call [OF inv1, of "Nonblocking fd"]
      by (simp add: on_sys_def sp_nonblocking_def call_sys_def)
    have fresh2: "id_fresh ?ss2" using fresh by (simp add: on_sys_def)
    obtain i ss1 where i: "reserve_id ?ss2 = (i, ss1)" by fastforce
    show ?thesis
    proof (cases "sint i < 0")
      case True
      then have "ss_inv (call_sys (Close fd) ss1)" by (intro inv_close_fd reserve_inv [OF inv2 i])
      then show ?thesis unfolding socket_server_udp_def l(1) using True Some x i by simp
    next
      case False
      then have "ss_inv (send_request (ReqU i fd family opaque) 24 ss1)"
        by (intro reserve_push [OF inv2 fresh2 i]) simp_all
      then show ?thesis unfolding socket_server_udp_def l(1) using False Some x i by simp
    qed
  qed
qed

subsection \<open>Requests about UDP sockets\<close>

lemma simple_push:
  assumes "ss_inv ss" and "open_id r = None" and "ref_id r = None" and "\<And>len. packet_ok (len, r)"
  shows "ss_inv (send_request r len ss)"
  using assms by (intro send_request_inv push_simple)

lemma udp_addrsz_ok:
  assumes "addr_ok addr" and "udp_addrsz addr = Some n"
  shows "mem_read addr n = Some (take n addr)" and "udp_addr (take n addr)"
  using assms
  by (cases addr; auto simp: udp_addrsz_def addr_ok_def udp_addr_def mem_read_def split: if_splits)+

lemma socket_server_udp_send_ok:
  assumes inv: "ss_inv ss" and raw: "raw_ok buf sz" and addr: "addr_ok addr"
  shows "\<exists>v ss'. socket_server_udp_send K i addr buf sz ss = Some (v, ss') \<and> ss_inv ss'"
proof -
  let ?h = "HASH_ID i" and ?s = "ss_slot ss (HASH_ID i)"
  let ?later = "\<lambda>ss n. do { a \<leftarrow> mem_read addr n; Some (0 :: int, send_request (ReqA i sz buf a) (16 + n) ss) }"
  have later: "\<exists>v ss'. ?later x n = Some (v, ss') \<and> ss_inv ss'" if "udp_addrsz addr = Some n" "ss_inv x" for n x
  proof -
    note a = udp_addrsz_ok [OF addr that(1)]
    have "ss_inv (send_request (ReqA i sz buf (take n addr)) (16 + n) x)"
      using a(2) raw by (intro simple_push [OF that(2)]) simp_all
    then show ?thesis using a(1) by simp
  qed
  have free: "ss_inv (free_func False (b_ptr buf) ss)" using inv_call [OF inv] by (simp add: free_func_def)
  show ?thesis
  proof (cases "known i ss \<and> udp_addrsz addr \<noteq> None")
    case False
    then have "socket_server_udp_send K i addr buf sz ss = Some (- 1, free_func False (b_ptr buf) ss)"
      using raw by (auto simp: socket_server_udp_send_def known_def free_buffer_def Let_def)
    then show ?thesis using free by blast
  next
    case True
    then obtain n where n: "udp_addrsz addr = Some n" and kn: "known i ss" by auto
    show ?thesis
    proof (cases "can_direct_write i ?s")
      case False
      then have "socket_server_udp_send K i addr buf sz ss = ?later ss n"
        using kn n by (simp add: socket_server_udp_send_def known_def Let_def)
      then show ?thesis using later [OF n inv] by simp
    next
      case direct: True
      have act: "active ?s" using can_direct_active [OF direct] by simp
      have ok: "sock_wf ?s" "\<not> s_dw_lock ?s" using slot_ok_active [OF inv_slot [OF inv] act] by simp_all
      have l: "?s\<lparr>s_dw_lock := False\<rparr> = ?s" using ok(2) by (cases ?s) simp
      obtain sa where sa: "udp_socket_address ?s addr = Some sa" using udp_socket_address_ok [OF addr] by blast
      let ?xs = "payload buf sz"
      have keep: "ss_inv (upd ?h s' (ss_sys ss @ cs) ss)" if "same_conn ?s s'" "sock_wf s'" "list_all quiet1 cs" for s' cs
        using quiet_append [OF that(3)] by (intro same_conn_keep [OF inv refl act that(1,2)]) simp
      note d = socket_server_udp_send_def known_def Let_def socket_trylock_def socket_unlock_def put_upd
      show ?thesis
      proof (cases sa)
        case None
        have "socket_server_udp_send K i addr buf sz ss = Some (- 1, upd ?h ?s (ss_sys ss @ [Free (b_ptr buf)]) ss)"
          using kn n direct ok(2) sa None raw by (simp add: d l)
        moreover have "ss_inv (upd ?h ?s (ss_sys ss @ [Free (b_ptr buf)]) ss)" using ok(1) by (intro keep) simp_all
        ultimately show ?thesis by blast
      next
        case (Some a)
        let ?r = "k_sendto K (ss_sys ss) (s_fd ?s) ?xs a"
        show ?thesis
        proof (cases ?r)
          case (Inl e)
          let ?ss2 = "upd ?h ?s (ss_sys ss @ [Sendto (s_fd ?s) ?xs a (Inl e)]) ss"
          have "socket_server_udp_send K i addr buf sz ss = ?later ?ss2 n"
            using kn n direct ok(2) sa Some Inl raw by (simp add: d l)
          moreover have "ss_inv ?ss2" using ok(1) by (intro keep) simp_all
          ultimately show ?thesis using later [OF n] by metis
        next
          case (Inr m)
          let ?s' = "stat_write (ss_time ss) (int m) ?s"
          let ?cs = "[Sendto (s_fd ?s) ?xs a (Inr m), Free (b_ptr buf)]"
          have "(?s\<lparr>s_dw_lock := True\<rparr>)\<lparr>s_dw_lock := False\<rparr> = ?s" using l by simp
          then have "socket_server_udp_send K i addr buf sz ss = Some (0, upd ?h ?s' (ss_sys ss @ ?cs) ss)"
            using kn n direct ok(2) sa Some Inr raw l by (cases ?s) (simp add: d stat_write_def)
          moreover have "ss_inv (upd ?h ?s' (ss_sys ss @ ?cs) ss)"
            using ok(1) by (intro keep) (simp_all add: stat_write_def same_conn_def)
          ultimately show ?thesis by blast
        qed
      qed
    qed
  qed
qed

lemma udpconnecting_inv:
  assumes inv: "ss_inv ss"
  shows "ss_inv (upd h ((ss_slot ss h)\<lparr>s_udpconnecting := v\<rparr>) (ss_sys ss) ss)"
proof -
  let ?s = "(ss_slot ss h)\<lparr>s_udpconnecting := v\<rparr>" and ?S = "(ss_slot ss)(h := (ss_slot ss h)\<lparr>s_udpconnecting := v\<rparr>)"
  have wf: "sock_wf ?s = sock_wf (ss_slot ss h)" by (simp add: sock_wf_def tcp_wf_def udp_wf_def dw_ok_def cong: option.case_cong)
  have same: "active ?s = active (ss_slot ss h)" "polled ?s = polled (ss_slot ss h)" "in_flight ?s = in_flight (ss_slot ss h)"
    by (simp_all add: active_def polled_def in_flight_def)
  have "slot_ok h ?s" using inv_slot [OF inv, of h] wf same by (simp add: slot_ok_def)
  moreover have "reserved ?S i = reserved (ss_slot ss) i" for i by (simp add: reserved_def)
  then have "pipe_inv ?S (ss_pipe ss)" using inv same by (simp add: ss_inv_def ss_core_def pipe_inv_def)
  moreover have "reg_inv ?S (ss_sys ss)"
    using inv same by (intro reg_inv_upd [of _ "ss_sys ss"]) (simp_all add: ss_inv_def ss_core_def)
  moreover have "ev_inv {} ?S (events_left ss)"
    using inv same by (intro ev_inv_upd [of "{}"]) (simp_all add: ss_inv_def)
  ultimately show ?thesis using inv by (simp add: ss_inv_def ss_core_def)
qed

lemma gen_udp_address_ok:
  assumes "address_wf a" and "(if family_of a = AF_INET then Some PROTOCOL_UDP
     else if family_of a = AF_INET6 then Some PROTOCOL_UDPv6 else None) = Some prot"
  shows "\<exists>bs. gen_udp_address prot a = Some bs \<and> udp_addr bs"
  using assms by (cases a) (auto simp: udp_addr_def addr_ok_def AF_INET_def AF_INET6_def)

lemma socket_server_udp_connect_ok:
  assumes K: "resolves K" and inv: "ss_inv ss"
  shows "\<exists>v ss'. socket_server_udp_connect K i addr port ss = Some (v, ss') \<and> ss_inv ss'"
proof (cases "known i ss")
  case False
  then have "socket_server_udp_connect K i addr port ss = Some (- 1, ss)"
    by (simp add: socket_server_udp_connect_def known_def Let_def)
  then show ?thesis using inv by blast
next
  case True
  let ?h = "HASH_ID i" and ?s = "ss_slot ss (HASH_ID i)"
  let ?s' = "?s\<lparr>s_udpconnecting := s_udpconnecting ?s + 1\<rparr>"
  let ?ss = "upd ?h ?s' (ss_sys ss) ss"
  have l: "\<not> s_dw_lock ?s" using inv_slot [OF inv, of ?h] by (simp add: slot_ok_def)
  have inv1: "ss_inv ?ss" by (rule udpconnecting_inv [OF inv])
  let ?r = "k_getaddrinfo K (ss_sys ss) addr port"
  have inv2: "ss_inv (call_sys (Getaddrinfo addr port ?r) ?ss)" by (rule inv_call [OF inv1]) simp
  have u: "?s\<lparr>s_udpconnecting := s_udpconnecting ?s + 1, s_dw_lock := False\<rparr> = ?s'"
    using l by (cases ?s) simp
  have red: "socket_server_udp_connect K i addr port ss = (case ?r of
        Inl _ \<Rightarrow> Some (- 1, call_sys (Getaddrinfo addr port ?r) ?ss)
      | Inr [] \<Rightarrow> None
      | Inr (a # _) \<Rightarrow>
          (case (if family_of a = AF_INET then Some PROTOCOL_UDP
                 else if family_of a = AF_INET6 then Some PROTOCOL_UDPv6 else None) of
             None \<Rightarrow> Some (- 1, call_sys (Getaddrinfo addr port ?r) ?ss)
           | Some prot \<Rightarrow> do {
               bs \<leftarrow> gen_udp_address prot a;
               Some (0, send_request (ReqC i bs) (5 + length bs) (call_sys (Getaddrinfo addr port ?r) ?ss)) }))"
    using True l
    by (simp add: socket_server_udp_connect_def known_def Let_def socket_lock_def socket_unlock_def put_upd u
      cong: sum.case_cong list.case_cong option.case_cong if_cong)
  show ?thesis
  proof (cases ?r)
    case (Inl e)
    then show ?thesis unfolding red using inv2 by simp
  next
    case (Inr xs)
    then have "xs \<noteq> [] \<and> list_all address_wf xs" using K unfolding resolves_def by blast
    with Inr obtain a as where xs: "?r = Inr (a # as)" and wf: "address_wf a" by (cases xs) auto
    let ?prot = "if family_of a = AF_INET then Some PROTOCOL_UDP
                 else if family_of a = AF_INET6 then Some PROTOCOL_UDPv6 else None"
    show ?thesis
    proof (cases ?prot)
      case None
      then show ?thesis unfolding red xs sum.case list.case None option.case using inv2 xs by simp
    next
      case (Some prot)
      obtain bs where bs: "gen_udp_address prot a = Some bs" "udp_addr bs" using gen_udp_address_ok [OF wf Some] by blast
      have "ss_inv (send_request (ReqC i bs) (5 + length bs) (call_sys (Getaddrinfo addr port ?r) ?ss))"
        using bs(2) by (intro simple_push [OF inv2]) simp_all
      then show ?thesis unfolding red xs sum.case list.case Some option.case using bs(1) xs by simp
    qed
  qed
qed

subsection \<open>Creation\<close>

text \<open>The new server, whatever the allocated memory holds. The history starts empty.\<close>

lemma socket_server_create_inv:
  assumes "socket_server_create K now efd fds mem [] = Some (Some ss, hist)"
  shows "ss_inv ss"
proof -
  obtain fd0 fd1 where f: "fds = Some (fd0, fd1)" using assms
    by (cases fds) (auto simp: socket_server_create_def split: if_splits)
  obtain err hist1 where a: "sp_add K [] fd0 None = (err, hist1)" by fastforce
  let ?S = "\<lambda>i. (mem i)\<lparr>s_type := SOCKET_TYPE_INVALID, s_high := [], s_low := [], s_dw_lock := False\<rparr>"
  have ss: "ss_slot ss = ?S" "ss_pipe ss = []" "ss_sys ss = hist1" "ss_ev ss = []" "ss_event_n ss = 0" "ss_event_index ss = 0"
    using assms f a by (auto simp: socket_server_create_def c_assert_def split: if_splits)
  have "registered hist1 fd \<noteq> Some (Some h)" for fd h
    using a by (auto simp: sp_add_def registered_def Let_def split: if_splits option.splits)
  then have "reg_inv (ss_slot ss) (ss_sys ss)" by (simp add: reg_inv_def ss)
  moreover have "pipe_inv (ss_slot ss) []" by (simp add: pipe_inv_def reserved_def ss)
  moreover have "slot_ok h (ss_slot ss h)" for h by (simp add: slot_ok_def active_def ss)
  ultimately show ?thesis by (simp add: ss_inv_def ss_core_def ev_inv_def events_left_def ss)
qed

subsection \<open>Runs\<close>

text \<open>A turn of the poll loop, or a request of another thread.\<close>

datatype action =
  Turn socket_result bool
| Time u64
| Connecting u64 "u8 list" int
| Listening u64 "u8 list option" int int
| Binding u64 int
| Udp u64 "u8 list option" int
| Sending i32 sbuf int
| SendingLow i32 sbuf int
| UdpSend i32 "u8 list" sbuf int
| UdpConnect i32 "u8 list" int
| Closing u64 i32
| Shutdown u64 i32
| Starting u64 i32
| Nodelay i32
| Exit

fun act :: "kernel \<Rightarrow> action \<Rightarrow> socket_server \<Rightarrow> socket_server option" where
  "act K (Turn res m) ss = map_option turn_state (poll_turn K (ss, res, m))"
| "act K (Time now) ss = Some (socket_server_updatetime now ss)"
| "act K (Connecting opaque addr port) ss = Some (snd (socket_server_connect opaque addr port ss))"
| "act K (Listening opaque addr port backlog) ss = map_option snd (socket_server_listen K opaque addr port backlog ss)"
| "act K (Binding opaque fd) ss = Some (snd (socket_server_bind opaque fd ss))"
| "act K (Udp opaque addr port) ss = map_option snd (socket_server_udp K opaque addr port ss)"
| "act K (Sending i buf sz) ss = map_option snd (socket_server_send K i buf sz ss)"
| "act K (SendingLow i buf sz) ss = map_option snd (socket_server_send_lowpriority i buf sz ss)"
| "act K (UdpSend i addr buf sz) ss = map_option snd (socket_server_udp_send K i addr buf sz ss)"
| "act K (UdpConnect i addr port) ss = map_option snd (socket_server_udp_connect K i addr port ss)"
| "act K (Closing opaque i) ss = Some (socket_server_close opaque i ss)"
| "act K (Shutdown opaque i) ss = Some (socket_server_shutdown opaque i ss)"
| "act K (Starting opaque i) ss = Some (socket_server_start opaque i ss)"
| "act K (Nodelay i) ss = Some (socket_server_nodelay i ss)"
| "act K Exit ss = Some (socket_server_exit ss)"

text \<open>
  What the callers owe: a buffer has the size they say; an address has the size of its type; the call that
  would be the 65536th in flight for a socket is a step only once it no longer waits. The id that is
  handed out next is not one that a packet in the pipe still means.
\<close>

fun owed :: "action \<Rightarrow> socket_server \<Rightarrow> bool" where
  "owed (Sending i buf sz) ss = (raw_ok buf sz \<and> has_room i ss)"
| "owed (SendingLow i buf sz) ss = (raw_ok buf sz \<and> has_room i ss)"
| "owed (UdpSend i addr buf sz) ss = (raw_ok buf sz \<and> addr_ok addr)"
| "owed (Turn res m) ss = id_fresh ss"
| "owed (Connecting opaque addr port) ss = id_fresh ss"
| "owed (Listening opaque addr port backlog) ss = id_fresh ss"
| "owed (Binding opaque fd) ss = id_fresh ss"
| "owed (Udp opaque addr port) ss = id_fresh ss"
| "owed _ ss = True"

text \<open>
  Two steps are hazards, although the callers and the kernel may take them: data is sent to an id whose
  packet of \<open>connect\<close>, \<open>listen\<close> or \<open>bind\<close> is still in the pipe, and the kernel does not take the whole
  datagram of a direct write. The last sections of this theory show what each of them leads to.
\<close>

fun early :: "kernel \<Rightarrow> action \<Rightarrow> socket_server \<Rightarrow> bool" where
  "early K (Sending i buf sz) ss = early_send i ss"
| "early K (SendingLow i buf sz) ss = early_send i ss"
| "early K _ ss = False"

fun short :: "kernel \<Rightarrow> action \<Rightarrow> socket_server \<Rightarrow> bool" where
  "short K (Sending i buf sz) ss = (\<not> sendto_whole K i (payload buf sz) ss)"
| "short K _ ss = False"

definition legal :: "kernel \<Rightarrow> action \<Rightarrow> socket_server \<Rightarrow> bool" where
  "legal K a ss \<longleftrightarrow> owed a ss \<and> \<not> early K a ss \<and> \<not> short K a ss"

lemma legal_simps [simp]:
  "legal K (Sending i buf sz) ss = (raw_ok buf sz \<and> may_send i ss \<and> sendto_whole K i (payload buf sz) ss)"
  "legal K (SendingLow i buf sz) ss = (raw_ok buf sz \<and> may_send i ss)"
  "legal K (UdpSend i addr buf sz) ss = (raw_ok buf sz \<and> addr_ok addr)"
  "legal K (Turn res m) ss = id_fresh ss"
  "legal K (Connecting opaque addr port) ss = id_fresh ss"
  "legal K (Listening opaque host port backlog) ss = id_fresh ss"
  "legal K (Binding opaque fd) ss = id_fresh ss"
  "legal K (Udp opaque host port) ss = id_fresh ss"
  "legal K (Time now) ss" "legal K (UdpConnect i addr port) ss" "legal K (Closing opaque i) ss"
  "legal K (Shutdown opaque i) ss" "legal K (Starting opaque i) ss" "legal K (Nodelay i) ss" "legal K Exit ss"
  by (auto simp: legal_def may_send_def)

text \<open>Runs whose steps the callers owe, runs that meet a hazard before they fail, and runs without one.\<close>

fun owed_run :: "kernel \<Rightarrow> action list \<Rightarrow> socket_server \<Rightarrow> bool" where
  "owed_run K [] ss = True"
| "owed_run K (a # as) ss = (owed a ss \<and> (case act K a ss of None \<Rightarrow> True | Some ss' \<Rightarrow> owed_run K as ss'))"

fun meets :: "(kernel \<Rightarrow> action \<Rightarrow> socket_server \<Rightarrow> bool) \<Rightarrow> kernel \<Rightarrow> action list \<Rightarrow> socket_server \<Rightarrow> bool" where
  "meets P K [] ss = False"
| "meets P K (a # as) ss = (P K a ss \<or> (case act K a ss of None \<Rightarrow> False | Some ss' \<Rightarrow> meets P K as ss'))"

fun legal_run :: "kernel \<Rightarrow> action list \<Rightarrow> socket_server \<Rightarrow> bool" where
  "legal_run K [] ss = True"
| "legal_run K (a # as) ss = (legal K a ss \<and> (case act K a ss of None \<Rightarrow> True | Some ss' \<Rightarrow> legal_run K as ss'))"

lemma legal_run_iff: "legal_run K as ss \<longleftrightarrow> owed_run K as ss \<and> \<not> meets early K as ss \<and> \<not> meets short K as ss"
  by (induction as arbitrary: ss) (auto simp: legal_def split: option.splits)

fun socket_run :: "kernel \<Rightarrow> action list \<Rightarrow> socket_server \<Rightarrow> socket_server option" where
  "socket_run K [] ss = Some ss"
| "socket_run K (a # as) ss = do { ss' \<leftarrow> act K a ss; socket_run K as ss' }"

text \<open>What is relied on of the system.\<close>

definition system_ok :: "kernel \<Rightarrow> bool" where
  "system_ok K \<longleftrightarrow> write_bounded K \<and> write_answers K \<and> inet_peers K \<and> epoll_ok K \<and> resolves K"

lemma act_ok:
  assumes K: "system_ok K" and inv: "ss_inv ss" and legal: "legal K a ss"
  shows "\<exists>ss'. act K a ss = Some ss' \<and> ss_inv ss'"
proof -
  have k: "write_bounded K" "write_answers K" "inet_peers K" "epoll_ok K" "resolves K"
    using K by (simp_all add: system_ok_def)
  have time: "ss_inv (socket_server_updatetime now ss)" for now
    using inv by (simp add: socket_server_updatetime_def ss_inv_def ss_core_def events_left_def)
  note pushed = simple_push [OF inv]
  show ?thesis
  proof (cases a)
    case (Turn res m)
    then show ?thesis
      using poll_turn_ok [OF k(3,2,1,4) inv, of res m] legal by (auto simp: turn_ok_def)
  next
    case (Sending i buf sz)
    then show ?thesis using legal socket_server_send_ok [OF k(1) inv] by simp blast
  next
    case (SendingLow i buf sz)
    then show ?thesis using legal socket_server_send_lowpriority_ok [OF inv] by simp blast
  next
    case (UdpSend i addr buf sz)
    then show ?thesis using legal socket_server_udp_send_ok [OF inv] by simp blast
  next
    case (UdpConnect i addr port)
    then show ?thesis using socket_server_udp_connect_ok [OF k(5) inv] by simp blast
  next
    case (Udp opaque addr port)
    then show ?thesis using legal socket_server_udp_ok [OF k(5) inv] by simp blast
  next
    case (Listening opaque addr port backlog)
    then show ?thesis using legal socket_server_listen_ok [OF k(5) inv] by simp blast
  qed (use legal time pushed socket_server_connect_ok [OF inv] socket_server_bind_ok [OF inv] in
    \<open>simp_all add: socket_server_close_def socket_server_shutdown_def socket_server_start_def
      socket_server_nodelay_def socket_server_exit_def\<close>)
qed

lemma socket_run_inv:
  "system_ok K \<Longrightarrow> ss_inv ss \<Longrightarrow> legal_run K as ss \<Longrightarrow> \<exists>ss'. socket_run K as ss = Some ss' \<and> ss_inv ss'"
proof (induction as arbitrary: ss)
  case (Cons a as)
  from act_ok [OF Cons.prems(1,2), of a] Cons.prems(3) obtain ss' where "act K a ss = Some ss'" "ss_inv ss'" by auto
  with Cons show ?case by simp
qed simp

text \<open>
  Property C9.
  In a run of poll turns and requests from the creation of the server on, in any order, whatever the peers,
  the name service and the descriptors do, where the callers pass buffers and addresses of the size they
  say, and no id comes round again, 2^31 ids later, while a packet in the pipe means it: no assertion of the socket server fails, no lock is taken twice and nothing is read beyond its end,
  unless before that data was sent to an id whose connect, listen or bind request was still in the pipe
  (\<open>early\<close>), or the kernel did not take the whole datagram of a direct write (\<open>short\<close>). There is no
  third way to bring the server down; these two are real (\<open>early_send_aborts\<close>,
  \<open>short_datagram_reads_outside\<close>).
\<close>

theorem socket_server_safe:
  assumes "system_ok K" and "socket_server_create K now efd fds mem [] = Some (Some ss, hist)" and "owed_run K as ss"
  shows "socket_run K as ss \<noteq> None \<or> meets early K as ss \<or> meets short K as ss"
proof -
  { assume "\<not> meets early K as ss" "\<not> meets short K as ss"
    with assms(3) have "legal_run K as ss" by (simp add: legal_run_iff)
    from socket_run_inv [OF assms(1) socket_server_create_inv [OF assms(2)] this] have ?thesis by auto }
  then show ?thesis by blast
qed

text \<open>The states that runs reach.\<close>

definition reached :: "kernel \<Rightarrow> socket_server \<Rightarrow> bool" where
  "reached K ss \<longleftrightarrow> (\<exists>now efd fds mem ss0 hist as. socket_server_create K now efd fds mem [] = Some (Some ss0, hist) \<and>
     legal_run K as ss0 \<and> socket_run K as ss0 = Some ss)"

lemma reached_inv:
  assumes "system_ok K" and "reached K ss"
  shows "ss_inv ss"
  using assms socket_run_inv [OF assms(1) socket_server_create_inv] unfolding reached_def by (metis option.inject)

text \<open>An instance: a system with one host, where a write takes three bytes at a time. A socket is opened,
  five bytes are written directly, and the loop sends the rest.\<close>

definition small_system :: kernel where
  "small_system = \<lparr>k_write = (\<lambda>_ _ xs. Inr (min 3 (length xs))), k_sendto = (\<lambda>_ _ xs _. Inr (length xs)),
     k_read = (\<lambda>_ _ _. Inl EAGAIN), k_recvfrom = (\<lambda>_ _. Inl EAGAIN), k_accept = (\<lambda>_ _. Inl EAGAIN),
     k_socket = (\<lambda>_ _. Inr 7), k_connect = (\<lambda>_ _ _. None), k_bind = (\<lambda>_ _ _. True), k_listen = (\<lambda>_ _. True),
     k_reuse = (\<lambda>_ _. True), k_getaddrinfo = (\<lambda>_ _ _. Inr [V4 [0, 80] [127, 0, 0, 1]]), k_so_error = (\<lambda>_ _. Inr None),
     k_getpeername = (\<lambda>_ _. Inr (V4 [0, 80] [127, 0, 0, 1])), k_getsockname = (\<lambda>_ _. Inr (V4 [0, 80] [127, 0, 0, 1])),
     k_epoll_add = (\<lambda>_ _. None),
     k_epoll_wait = (\<lambda>h _. case registered h 7 of None \<Rightarrow> Inl EINTR
       | Some p \<Rightarrow> Inr [\<lparr>ep_ptr = p, EPOLLIN = False, EPOLLOUT = True, EPOLLERR = False, EPOLLHUP = False\<rparr>]),
     k_select = (\<lambda>_. True), k_inet_ntop = (\<lambda>_. None), k_strerror = (\<lambda>_. [])\<rparr>"

definition zero_sock :: sock where
  "zero_sock = \<lparr>s_opaque = 0, s_high = [], s_low = [], s_wb_size = 0, s_stat = \<lparr>st_rtime = 0, st_wtime = 0, st_read = 0, st_write = 0\<rparr>,
     s_sending = 0, s_fd = 0, s_id = 0, s_protocol = PROTOCOL_UNKNOWN, s_type = SOCKET_TYPE_INVALID, s_udpconnecting = 0,
     s_warn_size = 0, s_p = PSize 0, s_dw_lock = False, s_dw_offset = 0, s_dw_buffer = None, s_dw_size = 0\<rparr>"

lemma small_system_ok: "system_ok small_system"
proof -
  have "write_answers small_system" by (auto simp: write_answers_def small_system_def)
  moreover have "epoll_ok small_system"
  proof -
    have "\<exists>fds. distinct fds \<and> list_all2 (\<lambda>fd ev. registered h fd = Some (ep_ptr ev)) fds evs"
      if "k_epoll_wait small_system h n = Inr evs" for h n evs
      using that by (intro exI [of _ "[7]"]) (auto simp: small_system_def split: option.splits)
    then show ?thesis by (simp add: epoll_ok_def)
  qed
  ultimately show ?thesis
    by (simp add: system_ok_def write_bounded_def inet_peers_def resolves_def) (simp add: small_system_def)
qed

definition small_server :: socket_server where
  "small_server = (case socket_server_create small_system 0 5 (Some (3, 4)) (\<lambda>_. zero_sock) [] of
     Some (Some ss, _) \<Rightarrow> ss)"

definition hello :: sbuf where "hello = \<lparr>b_ptr = 1, b_bytes = [104, 101, 108, 108, 111]\<rparr>"

definition small_run :: "action list" where
  "small_run = [Connecting 9 [104] 80, Turn (answer 0 0 0 DNull) False, Sending 1 hello 5,
     Turn (answer 0 0 0 DNull) False]"

lemma reserve_first:
  assumes "next_id (ss_alloc_id ss) = j" and "s_type (ss_slot ss (HASH_ID j)) = SOCKET_TYPE_INVALID"
  shows "reserve_id ss = (j, put_slot (HASH_ID j) ((ss_slot ss (HASH_ID j))\<lparr>s_type := SOCKET_TYPE_RESERVE, s_id := j,
              s_protocol := PROTOCOL_UNKNOWN, s_udpconnecting := 0, s_fd := - 1\<rparr>) (ss\<lparr>ss_alloc_id := j\<rparr>))"
proof -
  have m: "MAX_SOCKET = Suc 65535" by (simp add: MAX_SOCKET_def)
  show ?thesis unfolding reserve_id_def m reserve_Suc Let_def assms(1) using assms(2) by simp
qed

lemma small_create:
  "socket_server_create small_system 0 5 (Some (3, 4)) (\<lambda>_. zero_sock) [] = Some (Some small_server, ss_sys small_server)"
  by (simp add: small_server_def socket_server_create_def small_system_def sp_invalid_def sp_add_def Let_def c_assert_def FD_SETSIZE_def)

lemma small_id: "HASH_ID 1 = 1" "next_id 0 = 1" "ID_TAG16 1 = 0"
  by (simp_all add: HASH_ID_def MAX_SOCKET_def next_id_def ID_TAG16_def MAX_SOCKET_P_def)

text \<open>The definitions that a step of the instance evaluates.\<close>

lemmas small_state = small_server_def socket_server_create_def small_system_def sp_invalid_def sp_add_def Let_def
  c_assert_def FD_SETSIZE_def reserve_first [of _ 1] small_id put_slot_def call_sys_def send_request_def zero_sock_def
  turn_state_def answer_def on_sys_def sp_nonblocking_def

lemmas small_open = socket_server_connect_def open_request_def sizeof_open_def poll_turn_def has_cmd_def ctrl_cmd_def
  block_readpipe_def host_of_def offsetof_host_def open_socket_def new_fd_def set_type_def clear_closed_event_def

lemmas small_send = may_send_def early_send_def has_room_def udp_open_def reserved_def in_flight_def sendto_whole_def socket_server_send_def
  can_direct_write_def nomore_sending_data_def send_buffer_empty_def socket_trylock_def direct_write_def raw_ok_def
  payload_def hello_def send_object_init_def bytes_at_def mem_read_def socket_unlock_def free_func_def

lemma small_legal: "legal_run small_system small_run small_server"
  unfolding small_run_def legal_run.simps
  by (simp add: id_fresh_def small_state small_open, simp add: id_fresh_def small_state small_open small_send split: option.split)

theorem socket_server_safe_witness: "socket_run small_system small_run small_server \<noteq> None"
  using socket_server_safe [OF small_system_ok small_create, of small_run] small_legal by (simp add: legal_run_iff)

subsection \<open>Data sent before its connect\<close>

text \<open>Data in the pipe that was not counted: the assertion of \<open>dec_sending_ref\<close> fails when its turn comes.\<close>

lemma append_same:
  assumes "append_sendbuffer_to ss buf sz addr q s = Some s'"
  shows "s_id s' = s_id s \<and> s_protocol s' = s_protocol s \<and> s_sending s' = s_sending s"
  using assms by (cases q) (auto simp: append_sendbuffer_to_def bind_eq_Some_conv Let_def)

lemma send_socket_uncounted:
  assumes "send_socket K i buf sz p None ss res = Some (ret, ss', res')"
    and "s_id (ss_slot ss (HASH_ID i)) = i" and "s_protocol (ss_slot ss (HASH_ID i)) = PROTOCOL_TCP"
  shows "s_id (ss_slot ss' (HASH_ID i)) = i \<and> s_protocol (ss_slot ss' (HASH_ID i)) = PROTOCOL_TCP \<and>
    s_sending (ss_slot ss' (HASH_ID i)) = s_sending (ss_slot ss (HASH_ID i))"
proof -
  let ?s = "ss_slot ss (HASH_ID i)"
  have free: ?thesis if "free_request buf sz ss = Some ss'"
    using that assms(2,3) by (auto simp: free_request_def free_func_def bind_eq_Some_conv)
  have warn: ?thesis if "send_warning (HASH_ID i) ss1 res = (ret, ss', res')"
    "s_id (ss_slot ss1 (HASH_ID i)) = i" "s_protocol (ss_slot ss1 (HASH_ID i)) = PROTOCOL_TCP"
    "s_sending (ss_slot ss1 (HASH_ID i)) = s_sending ?s" for ss1
    using that by (auto simp: send_warning_def Let_def put_slot_def split: if_splits)
  have queued: ?thesis if q: "send_queued (HASH_ID i) buf sz p None ss = Some ss1"
    "send_warning (HASH_ID i) ss1 res = (ret, ss', res')" for ss1
  proof -
    obtain s' where "ss1 = put_slot (HASH_ID i) s' ss" "s_id s' = s_id ?s" "s_protocol s' = s_protocol ?s" "s_sending s' = s_sending ?s"
      using q(1) assms(3) append_same
      by (auto simp: send_queued_def Let_def bind_eq_Some_conv append_sendbuffer_def append_sendbuffer_low_def split: if_splits)
    then show ?thesis using warn [OF q(2)] assms(2,3) by (simp add: put_slot_def)
  qed
  have empty: ?thesis if q: "send_empty K (HASH_ID i) buf sz p None ss = Some (True, ss1)"
    "send_warning (HASH_ID i) ss1 res = (ret, ss', res')" for ss1
  proof -
    obtain s' hist where "ss1 = upd (HASH_ID i) s' hist ss" "s_id s' = s_id ?s" "s_protocol s' = s_protocol ?s" "s_sending s' = s_sending ?s"
      using q(1) assms(3) append_same
      by (auto simp: send_empty_def Let_def bind_eq_Some_conv append_sendbuffer_def on_sys_def put_slot_def upd_def)
    then show ?thesis using warn [OF q(2)] assms(2,3) by simp
  qed
  have "send_empty K (HASH_ID i) buf sz p None ss \<noteq> Some (False, ss')"
    using assms(3) by (auto simp: send_empty_def Let_def bind_eq_Some_conv)
  then show ?thesis using assms(1) free queued empty
    by (auto simp: send_socket_def Let_def bind_eq_Some_conv split: if_splits)
qed

lemma uncounted_fails:
  assumes "ss_pipe ss = (len, ReqD i sz buf) # ps" and "s_id (ss_slot ss (HASH_ID i)) = i"
    and "s_protocol (ss_slot ss (HASH_ID i)) = PROTOCOL_TCP" and "in_flight (ss_slot ss (HASH_ID i)) = 0"
  shows "ctrl_cmd K ss res = None"
proof (rule ccontr)
  assume "ctrl_cmd K ss res \<noteq> None"
  then obtain ret ss2 res' where f: "send_socket K i buf sz PRIORITY_HIGH None (pop_pipe ps ss) res = Some (ret, ss2, res')"
    "dec_sending_ref i ss2 \<noteq> None"
    by (auto simp: ctrl_cmd_def block_readpipe_pop [OF assms(1)] bind_eq_None_conv bind_eq_Some_conv)
  from send_socket_uncounted [OF f(1)] assms(2,3,4) have
    "s_id (ss_slot ss2 (HASH_ID i)) = i" "s_protocol (ss_slot ss2 (HASH_ID i)) = PROTOCOL_TCP"
    "in_flight (ss_slot ss2 (HASH_ID i)) = 0"
    by (simp_all add: Let_def in_flight_def)
  then have "dec_sending_ref i ss2 = None" by (simp add: dec_sending_ref_def low16 in_flight_def Let_def)
  with f(2) show False ..
qed

lemma opened_slot:
  assumes pipe: "ss_pipe ss = (len, ReqO i port q host) # ps"
    and f: "ctrl_cmd K ss res = Some (ty, ss', res')" and a: "active (ss_slot ss' (HASH_ID i))"
  shows "s_id (ss_slot ss' (HASH_ID i)) = i" and "s_protocol (ss_slot ss' (HASH_ID i)) = PROTOCOL_TCP"
    and "in_flight (ss_slot ss' (HASH_ID i)) = 0" and "ss_pipe ss' = ps" and "ss_checkctrl ss' = ss_checkctrl ss"
proof -
  obtain h where "open_socket K i port q h (pop_pipe ps ss) = Some (ty, ss', res')"
    using f by (auto simp: ctrl_cmd_def block_readpipe_pop [OF pipe] bind_eq_Some_conv)
  then have "s_id (ss_slot ss' (HASH_ID i)) = i \<and> s_protocol (ss_slot ss' (HASH_ID i)) = PROTOCOL_TCP \<and>
      s_sending (ss_slot ss' (HASH_ID i)) = push_bit 16 (ID_TAG16 i) OR 0 \<and> ss_pipe ss' = ps \<and> ss_checkctrl ss' = ss_checkctrl ss"
    using a by (auto simp: open_socket_def Let_def new_fd_def bind_eq_Some_conv open_failed_def set_type_def put_slot_def
      active_def call_sys_def on_sys_def pop_pipe_def split: sum.splits option.splits if_splits prod.splits)
  then show "s_id (ss_slot ss' (HASH_ID i)) = i" "s_protocol (ss_slot ss' (HASH_ID i)) = PROTOCOL_TCP"
    "in_flight (ss_slot ss' (HASH_ID i)) = 0" "ss_pipe ss' = ps" "ss_checkctrl ss' = ss_checkctrl ss"
    using tag16(2) [of i] by (simp_all add: in_flight_def)
qed

text \<open>An early send: the slot is reserved and has no protocol, so the data goes to the pipe uncounted.\<close>

lemma early_send_step:
  assumes inv: "ss_inv ss" and pipe: "ss_pipe ss = (len, ReqO i port q host) # ps" and raw: "raw_ok buf sz"
  shows "socket_server_send K i buf sz ss = Some (0, send_request (ReqD i sz buf) 16 ss)"
proof -
  have o: "open_id (snd (len, ReqO i port q host)) = Some i" by simp
  note r = open_reserved [OF inv pipe o]
  have "put_slot (HASH_ID i) (ss_slot ss (HASH_ID i)) ss = ss" by (simp add: put_slot_def)
  then show ?thesis using r raw
    by (simp add: socket_server_send_def Let_def can_direct_write_def send_later_def inc_sending_ref_def)
qed

lemma clear_closed_same [simp]:
  "ss_slot (clear_closed_event ty res ss) = ss_slot ss" "ss_pipe (clear_closed_event ty res ss) = ss_pipe ss"
  "ss_sys (clear_closed_event ty res ss) = ss_sys ss" "ss_checkctrl (clear_closed_event ty res ss) = ss_checkctrl ss"
  by (simp_all add: clear_closed_event_def)

text \<open>
  Property C27.
  The first hazard is real. In a state of the server where the connect request of id \<open>i\<close> waits in the
  pipe, a caller sends data on \<open>i\<close>, the id that \<open>socket_server_connect\<close> has returned to it. The call
  succeeds. The next turn of the loop opens the socket; unless the connect fails at once, the turn after it
  fails the assertion \<open>(s->sending & 0xffff) != 0\<close> of \<open>dec_sending_ref\<close>, and the process aborts: the
  packet was not counted, as the protocol of a reserved slot is not TCP yet.
\<close>

theorem early_send_aborts:
  assumes "system_ok K" and "\<forall>hist. k_select K hist" and "reached K ss" and "ss_checkctrl ss"
    and "ss_pipe ss = [(len, ReqO i port q host)]" and "raw_ok buf sz"
    and "socket_run K [Sending i buf sz, Turn res m] ss = Some ss2" and "active (ss_slot ss2 (HASH_ID i))"
  shows "owed (Sending i buf sz) ss \<and> early K (Sending i buf sz) ss \<and> act K (Turn res2 m2) ss2 = None"
proof -
  note inv = reached_inv [OF assms(1,3)]
  have o: "open_id (snd (len, ReqO i port q host)) = Some i" by simp
  note r = open_reserved [OF inv assms(5) o]
  let ?ss1 = "send_request (ReqD i sz buf) 16 ss"
  have s1: "act K (Sending i buf sz) ss = Some ?ss1" using early_send_step [OF inv assms(5,6)] by simp
  have p1: "ss_pipe ?ss1 = (len, ReqO i port q host) # [(16, ReqD i sz buf)]" "ss_checkctrl ?ss1"
    using assms(4,5) by (simp_all add: send_request_def)
  have hazard: "owed (Sending i buf sz) ss" "early K (Sending i buf sz) ss"
    using r assms(5,6) by (simp_all add: has_room_def Let_def early_send_def reserved_def udp_open_def)
  obtain t where t: "poll_turn K (?ss1, res, m) = Some t" "ss2 = turn_state t" using assms(7) s1 by (auto simp: bind_eq_Some_conv)
  obtain ty ss' res' where c: "ctrl_cmd K ?ss1 res = Some (ty, ss', res')"
    and e: "ss_slot ss2 = ss_slot ss'" "ss_pipe ss2 = ss_pipe ss'" "ss_checkctrl ss2 = ss_checkctrl ss'"
    using t p1 assms(2) by (auto simp: poll_turn_def has_cmd_def bind_eq_Some_conv turn_state_def split: if_splits)
  have "active (ss_slot ss' (HASH_ID i))" using assms(8) e(1) by simp
  note op = opened_slot [OF p1(1) c this]
  have p2: "ss_pipe ss2 = (16, ReqD i sz buf) # []" using op(4) e(2) by simp
  have "ctrl_cmd K ss2 res2 = None" using op(1-3) e(1) by (intro uncounted_fails [OF p2]) simp_all
  moreover have "has_cmd K ss2" using p2 assms(2) by (simp add: has_cmd_def)
  ultimately have "poll_turn K (ss2, res2, m2) = None" using op(5) e(3) p1(2) by (simp add: poll_turn_def)
  then show ?thesis using hazard by simp
qed

text \<open>In the instance: the connect request is sent, then the data, before the loop runs.\<close>

definition small_waiting :: socket_server where
  "small_waiting = snd (socket_server_connect 9 [104] 80 small_server)"

lemma small_waiting_facts:
  "ss_pipe small_waiting = [(25, ReqO 1 80 9 [104])]" "ss_checkctrl small_waiting" "\<forall>hist. k_select small_system hist"
  "reached small_system small_waiting"
proof -
  show "ss_pipe small_waiting = [(25, ReqO 1 80 9 [104])]" "ss_checkctrl small_waiting" "\<forall>hist. k_select small_system hist"
    by (simp_all add: small_waiting_def small_state small_open)
  have "legal_run small_system [Connecting 9 [104] 80] small_server"
    by (simp add: id_fresh_def small_state)
  then show "reached small_system small_waiting"
    unfolding reached_def using small_create by (intro exI conjI) (assumption+, simp add: small_waiting_def)
qed

lemma small_early:
  "\<exists>ss2. socket_run small_system [Sending 1 hello 5, Turn (answer 0 0 0 DNull) False] small_waiting = Some ss2 \<and>
     active (ss_slot ss2 1)"
  by (simp add: small_waiting_def small_state small_open small_send active_def send_later_def inc_sending_ref_def)

theorem early_send_aborts_witness:
  "\<exists>ss2. socket_run small_system [Sending 1 hello 5, Turn (answer 0 0 0 DNull) False] small_waiting = Some ss2 \<and>
     act small_system (Turn (answer 0 0 0 DNull) False) ss2 = None"
proof -
  have raw: "raw_ok hello 5" by (simp add: raw_ok_def hello_def)
  obtain ss2 where s: "socket_run small_system [Sending 1 hello 5, Turn (answer 0 0 0 DNull) False] small_waiting = Some ss2"
    "active (ss_slot ss2 1)" using small_early by blast
  then have "active (ss_slot ss2 (HASH_ID 1))" by (simp add: small_id)
  from early_send_aborts [OF small_system_ok small_waiting_facts(3,4,2,1) raw s(1) this] s(1) show ?thesis by blast
qed

subsection \<open>A direct datagram that comes short\<close>

text \<open>
  The second hazard is real too. When \<open>sendto\<close> does not take the whole datagram of a direct write (the
  buffer of the device is full, or the last error of the socket is reported), the rest is kept as for TCP:
  the next \<open>send_buffer\<close> puts it at the head of the high list in a \<open>write_buffer\<close> of
  \<open>SIZEOF_TCPBUFFER\<close> bytes, without an address, and \<open>send_list_udp\<close> reads the address behind its end.
\<close>

lemma dw_udp_fails:
  assumes "s_dw_buffer (ss_slot ss h) = Some buf" and "s_protocol (ss_slot ss h) \<noteq> PROTOCOL_TCP"
    and "\<not> s_dw_lock (ss_slot ss h)" and "s_low (ss_slot ss h) = []"
  shows "send_buffer K h 0 ss res = None"
proof -
  have a: "udp_socket_address s [] = None" for s by (simp add: udp_socket_address_def nth_at_def)
  have "send_list_udp K PRIORITY_HIGH h ss' = None"
    if "s_high (ss_slot ss' h) = wb # ws" "wb_udp_address wb = []" for ss' wb ws
    using that a by (subst send_list_udp.simps) simp
  then show ?thesis using assms
    by (auto simp: send_buffer_def socket_trylock_def take_dw_def send_buffer_lists_def send_list_def put_slot_def
      list_uncomplete_def Let_def bind_eq_None_conv)
qed

lemma short_datagram_reads_outside:
  assumes inv: "ss_inv ss" and raw: "raw_ok buf sz" and sz: "0 < sz" and short: "short K (Sending i buf sz) ss"
  shows "\<exists>ss'. socket_server_send K i buf sz ss = Some (0, ss') \<and> send_buffer K (HASH_ID i) 0 ss' res = None"
proof -
  let ?h = "HASH_ID i"
  define s where "s = ss_slot ss ?h"
  obtain a sa where n: "s_protocol s \<noteq> PROTOCOL_TCP" "can_direct_write i s" "s_p s = PAddress a"
    "udp_socket_address s a = Some (Some sa)"
    "k_sendto K (ss_sys ss) (s_fd s) (payload buf sz) sa \<noteq> Inr (length (payload buf sz))"
    using short by (auto simp: sendto_whole_def s_def Let_def split: sock_p.splits option.splits)
  have act: "active s" using can_direct_active [OF n(2)] by simp
  then have lock: "\<not> s_dw_lock s" using inv_slot [OF inv, of ?h] by (simp add: slot_ok_def s_def)
  let ?xs = "payload buf sz"
  define r where "r = k_sendto K (ss_sys ss) (s_fd s) ?xs sa"
  let ?hist = "ss_sys ss @ Sendto (s_fd s) ?xs sa r # direct_end s ?h buf sz r"
  have len: "int (case r of Inl _ \<Rightarrow> 0 | Inr n \<Rightarrow> n) \<noteq> sz"
    using n(5) sz payload_length [OF raw] by (auto simp: r_def split: sum.splits)
  have "direct_write K i buf sz (put_slot ?h (s\<lparr>s_dw_lock := True\<rparr>) ss) = Some (0, upd ?h (written_direct (ss_time ss) buf sz r s) ?hist ss)"
  proof -
    have sa: "udp_socket_address (s\<lparr>s_dw_lock := True\<rparr>) a = Some (Some sa)" using n(4) by (simp only: udp_address_lock)
    have l: "s\<lparr>s_dw_lock := False\<rparr> = s" using lock by (cases s) simp
    show ?thesis using n(1,3) sa raw len lock r_def [symmetric] l
      by (cases s) (simp add: put_upd direct_write_def Let_def written_direct_def direct_end_def socket_unlock_def
        sp_write_def stat_write_def)
  qed
  moreover have "socket_trylock ?h 0 ss = Some (1, put_slot ?h (s\<lparr>s_dw_lock := True\<rparr>) ss)"
    using lock by (simp add: socket_trylock_def s_def)
  moreover have "can_direct_write i (s\<lparr>s_dw_lock := True\<rparr>)"
    using n(2) by (simp add: can_direct_write_def nomore_sending_data_def send_buffer_empty_def)
  ultimately have send: "socket_server_send K i buf sz ss = Some (0, upd ?h (written_direct (ss_time ss) buf sz r s) ?hist ss)"
    using n(2) act by (simp add: socket_server_send_def Let_def s_def [symmetric] active_def can_direct_write_def put_slot_def)
  have "s_low s = []" using n(2) by (simp add: can_direct_write_def nomore_sending_data_def send_buffer_empty_def)
  then have "send_buffer K ?h 0 (upd ?h (written_direct (ss_time ss) buf sz r s) ?hist ss) res = None"
    using n(1) lock len by (intro dw_udp_fails [of _ _ buf]) (simp_all add: written_direct_def Let_def stat_write_def)
  with send show ?thesis by blast
qed

end
