(* ===== verification/SocketProps.thy ===== *)
theory SocketProps
  imports SocketRun
begin

section \<open>What the socket server promises\<close>

text \<open>
  The properties of the socket server beside its safety: every active slot is well formed, a free slot
  is found.
\<close>


subsection \<open>Slots\<close>

text \<open>
  Property C15.
  The queue of an active socket is well formed, in every state that a run from the creation on reaches
  before it meets one of the two hazards of the last theory (data sent ahead of the packet that opens its
  socket, a direct datagram that comes short; the second leaves a buffer without an address in a UDP
  socket). The sum of the queued buffers is \<open>wb_size\<close>; every queued buffer lies inside its memory; only the
  head of the high priority list may be partly written, and not even that while the rest of a direct write
  goes before it; a low priority buffer is never partly written; the read buffer of a TCP socket has a
  size of 64 times a power of two; a UDP socket has an address of full size, and each of its queued
  datagrams one that can be read.
\<close>

theorem active_slots_wf:
  assumes "system_ok K" and "socket_server_create K now efd fds mem [] = Some (Some ss0, hist)"
    and "owed_run K as ss0" and "\<not> meets early K as ss0" and "\<not> meets short K as ss0"
    and "socket_run K as ss0 = Some ss" and "active (ss_slot ss h)"
  shows "let s = ss_slot ss h in
    s_wb_size s = (\<Sum>wb \<leftarrow> s_high s @ s_low s. wb_sz wb) \<and>
    (\<forall>wb \<in> set (s_high s @ s_low s). 0 \<le> wb_sz wb \<and> wb_sz wb \<le> int (length (wb_bytes wb))) \<and>
    (\<forall>wb \<in> set (s_low s @ (if s_dw_buffer s = None then tl (s_high s) else s_high s)). wb_ptr wb = wb_buffer wb) \<and>
    (s_protocol s = PROTOCOL_TCP \<and> (\<exists>k. s_p s = PSize (MIN_READ_BUFFER * 2 ^ k)) \<or>
     s_protocol s \<in> {PROTOCOL_UDP, PROTOCOL_UDPv6} \<and> (\<exists>a. s_p s = PAddress a \<and> length a = UDP_ADDRESS_SIZE) \<and>
       (\<forall>wb \<in> set (s_high s @ s_low s). udp_socket_address s (wb_udp_address wb) \<noteq> None))"
proof -
  have "legal_run K as ss0" using assms(3-5) by (simp add: legal_run_iff)
  then have "ss_inv ss"
    using socket_run_inv [OF assms(1) socket_server_create_inv [OF assms(2)]] assms(6) by fastforce
  from slot_ok_active [OF inv_slot [OF this] assms(7)] have wf: "sock_wf (ss_slot ss h)" by simp
  have read: "udp_socket_address s a \<noteq> None" if "addr_ok a" for s a
    using udp_socket_address_ok [OF that, of s] by auto
  have prot: "p \<in> {PROTOCOL_UDP, PROTOCOL_UDPv6}" if "p \<noteq> PROTOCOL_TCP" "p \<noteq> PROTOCOL_UNKNOWN" for p
    using that by (cases p) simp_all
  show ?thesis
    using wf read prot [of "s_protocol (ss_slot ss h)"]
    by (auto simp: Let_def sock_wf_def list_total_def list_all_iff wb_ok_def complete_def tcp_wf_def udp_wf_def split: if_splits)
qed

text \<open>The instance of the last theory, up to the open connection.\<close>

definition small_opening :: "action list" where
  "small_opening = [Connecting 9 [104] 80, Turn (answer 0 0 0 DNull) False]"

lemma small_opening_legal: "legal_run small_system small_opening small_server"
  unfolding small_opening_def legal_run.simps
  by (simp add: id_fresh_def small_state small_open)

lemma small_opened: "\<exists>ss'. socket_run small_system small_opening small_server = Some ss' \<and> active (ss_slot ss' 1)"
  unfolding small_opening_def socket_run.simps
  by (simp add: small_state small_open active_def)

lemma small_reached: "socket_run small_system small_opening small_server = Some ss \<Longrightarrow> reached small_system ss"
  unfolding reached_def using small_create small_opening_legal by blast

theorem active_slots_wf_witness:
  "\<exists>ss. socket_run small_system small_opening small_server = Some ss \<and>
     s_wb_size (ss_slot ss 1) = (\<Sum>wb \<leftarrow> s_high (ss_slot ss 1) @ s_low (ss_slot ss 1). wb_sz wb)"
proof -
  have l: "owed_run small_system small_opening small_server" "\<not> meets early small_system small_opening small_server"
    "\<not> meets short small_system small_opening small_server" using small_opening_legal by (simp_all add: legal_run_iff)
  obtain ss where ss: "socket_run small_system small_opening small_server = Some ss" "active (ss_slot ss 1)"
    using small_opened by blast
  from active_slots_wf [OF small_system_ok small_create l ss] ss(1) show ?thesis unfolding Let_def by blast
qed

text \<open>Consecutive ids lie in consecutive slots, also across the wrap to 0.\<close>

lemma next_id_hash: "HASH_ID (next_id a) = Suc (HASH_ID a) mod MAX_SOCKET"
proof -
  have w: "unat (a + 1) mod MAX_SOCKET = Suc (unat a) mod MAX_SOCKET"
  proof (cases "a + 1 = 0")
    case True
    then have "a = - 1" by (simp add: eq_neg_iff_add_eq_0)
    then show ?thesis by (simp add: MAX_SOCKET_def unsigned_minus_1_eq_mask mask_eq_exp_minus_1)
  next
    case False
    then have "unat (a + 1) = Suc (unat a)" using unatSuc [of a] by (simp add: add.commute)
    then show ?thesis by simp
  qed
  have m: "unat (b AND 0x7fffffff) mod MAX_SOCKET = unat b mod MAX_SOCKET" for b :: i32
  proof -
    have m31: "(0x7fffffff :: i32) = mask 31" by (simp add: mask_eq_exp_minus_1)
    have "unat (b AND 0x7fffffff) = unat b mod 2 ^ 31" unfolding m31 by (simp add: unat_and_mask)
    moreover have "MAX_SOCKET dvd 2 ^ 31" by (simp add: MAX_SOCKET_def)
    ultimately show ?thesis using mod_mod_cancel [of MAX_SOCKET "2 ^ 31" "unat b"] by simp
  qed
  show ?thesis using w m by (simp add: HASH_ID_def next_id_def Let_def mod_Suc_eq)
qed

lemma reserve_loop_finds:
  assumes "k < n" and "s_type (ss_slot ss ((HASH_ID (ss_alloc_id ss) + Suc k) mod MAX_SOCKET)) = SOCKET_TYPE_INVALID"
  shows "0 \<le> sint (fst (reserve_loop n ss))"
  using assms
proof (induction n arbitrary: k ss)
  case (Suc n)
  let ?j = "next_id (ss_alloc_id ss)"
  show ?case
  proof (cases "s_type (ss_slot ss (HASH_ID ?j)) = SOCKET_TYPE_INVALID")
    case True
    then show ?thesis using next_id_pos by (simp add: reserve_Suc Let_def del: reserve_loop.simps)
  next
    case False
    then have "k \<noteq> 0" using Suc.prems(2) by (intro notI) (simp add: next_id_hash)
    then obtain k' where k: "k = Suc k'" by (cases k) simp_all
    let ?a = "HASH_ID (ss_alloc_id ss)"
    have "(Suc ?a mod MAX_SOCKET + Suc k') mod MAX_SOCKET = (?a + Suc k) mod MAX_SOCKET"
      using mod_add_left_eq [of "Suc ?a" MAX_SOCKET "Suc k'"] k by simp
    then have "0 \<le> sint (fst (reserve_loop n (ss\<lparr>ss_alloc_id := ?j\<rparr>)))"
      using Suc.prems k by (intro Suc.IH [of k']) (simp_all add: next_id_hash)
    then show ?thesis using False by (simp add: reserve_Suc Let_def del: reserve_loop.simps)
  qed
qed simp

text \<open>
  \<open>reserve_id\<close> fails only when all 65536 slots are in use: as long as one slot is free, wherever the
  counter stands, it hands out an id, and ids are never negative.
\<close>

theorem reserve_id_finds:
  assumes "h < MAX_SOCKET" and "s_type (ss_slot ss h) = SOCKET_TYPE_INVALID"
  shows "0 \<le> sint (fst (reserve_id ss))"
proof -
  let ?a = "HASH_ID (ss_alloc_id ss)"
  define k where "k = (h + MAX_SOCKET - Suc ?a) mod MAX_SOCKET"
  have a: "?a < MAX_SOCKET" by (simp add: HASH_ID_def MAX_SOCKET_def)
  have "(?a + Suc k) mod MAX_SOCKET = (Suc ?a + (h + MAX_SOCKET - Suc ?a)) mod MAX_SOCKET"
    using mod_add_right_eq [of "Suc ?a" "h + MAX_SOCKET - Suc ?a" MAX_SOCKET] by (simp add: k_def)
  also have "\<dots> = h" using a assms(1) by simp
  finally have "(?a + Suc k) mod MAX_SOCKET = h" .
  moreover have "k < MAX_SOCKET" by (simp add: k_def MAX_SOCKET_def)
  ultimately show ?thesis unfolding reserve_id_def using assms(2) by (intro reserve_loop_finds [of k]) simp_all
qed

theorem reserve_id_finds_witness: "0 \<le> sint (fst (reserve_id small_server))"
  using reserve_id_finds [of 5 small_server] by (simp add: small_state MAX_SOCKET_def)


end
