(* ===== verification/SocketWire.thy ===== *)
theory SocketWire
  imports SocketProps
begin

section \<open>The order of bytes on a connection\<close>

text \<open>
  Data for a TCP socket takes one of three ways: it is written at once by the thread that sends it, it
  waits in the buffer that thread left in the slot, or it travels through the control pipe to one of the two
  lists of the socket. The lemmas show that whatever the poll thread and the requests do, the bytes on the
  wire and in front of the low priority list only ever grow at the end, by whole buffers: those sent with
  high priority in their order, those sent with low priority in theirs.
\<close>

subsection \<open>Steps that do not move data\<close>

text \<open>Sockets that take data for the wire.\<close>

definition carrying :: "sock \<Rightarrow> bool" where
  "carrying s \<longleftrightarrow> s_protocol s = PROTOCOL_TCP \<and>
     (s_type s = SOCKET_TYPE_CONNECTING \<or> s_type s = SOCKET_TYPE_CONNECTED \<or> s_type s = SOCKET_TYPE_BIND)"

definition same_wire :: "sock \<Rightarrow> sock \<Rightarrow> bool" where
  "same_wire s s' \<longleftrightarrow> (carrying s \<and> carrying s' \<longrightarrow> s_fd s' = s_fd s \<and> front s' = front s \<and> lows s' = lows s)"

definition calm :: "socket_server \<Rightarrow> socket_server \<Rightarrow> bool" where
  "calm ss ss' \<longleftrightarrow> (\<forall>fd. written fd (ss_sys ss') = written fd (ss_sys ss)) \<and>
     (\<forall>h. same_wire (ss_slot ss h) (ss_slot ss' h))"

lemma same_wire_refl [simp]: "same_wire s s"
  by (simp add: same_wire_def)

lemma calm_refl [simp]: "calm ss ss"
  by (simp add: calm_def)

lemma calm_upd:
  assumes "same_wire (ss_slot ss h) s" and "\<And>fd. written fd hist = written fd (ss_sys ss)"
  shows "calm ss (upd h s hist ss)"
  using assms by (simp add: calm_def)

lemma calm_sys:
  assumes "ss_slot ss' = ss_slot ss" and "\<And>fd. written fd (ss_sys ss') = written fd (ss_sys ss)"
  shows "calm ss ss'"
  using assms by (simp add: calm_def)

lemma not_carrying [simp]:
  "s_type s = SOCKET_TYPE_INVALID \<Longrightarrow> \<not> carrying s" "s_type s = SOCKET_TYPE_RESERVE \<Longrightarrow> \<not> carrying s"
  "s_type s = SOCKET_TYPE_HALFCLOSE \<Longrightarrow> \<not> carrying s" "s_type s = SOCKET_TYPE_PACCEPT \<Longrightarrow> \<not> carrying s"
  "s_type s = SOCKET_TYPE_LISTEN \<Longrightarrow> \<not> carrying s" "s_type s = SOCKET_TYPE_PLISTEN \<Longrightarrow> \<not> carrying s"
  "s_protocol s \<noteq> PROTOCOL_TCP \<Longrightarrow> \<not> carrying s" "\<not> carrying (closed b s)"
  by (simp_all add: carrying_def)

lemma not_carrying_wire: "\<not> carrying s \<Longrightarrow> same_wire s s'" "\<not> carrying s' \<Longrightarrow> same_wire s s'"
  by (simp_all add: same_wire_def)

lemma carrying_active: "carrying s \<Longrightarrow> active s"
  by (auto simp: carrying_def active_def)

lemma silent_call [simp]: "quiet1 c \<Longrightarrow> written fd (h @ [c]) = written fd h"
  by (simp add: quiet1_written)

lemma written_Cons [simp]: "written fd (c # cs) = written1 fd c @ written fd cs"
  by (simp add: written_def)

lemma silent_harmless: "list_all harmless cs \<Longrightarrow> written fd (h @ cs) = written fd h"
proof (induction cs rule: rev_induct)
  case (snoc c cs)
  have "written1 fd c = []" using snoc.prems by (cases c) simp_all
  with snoc show ?case by simp
qed simp

lemma written_close [simp]: "written1 fd (Close f) = []"
  by simp

text \<open>Closing.\<close>

lemma force_close_calm:
  assumes inv: "ss_inv ss" and s: "ss_slot ss h = s" "active s" and w: "\<And>fd. written fd hist = written fd (ss_sys ss)"
    and f: "force_close h 0 (upd h s hist ss) = Some (ss', res)"
  shows "calm ss ss'"
proof -
  have ok: "sock_wf s" "\<not> s_dw_lock s" using inv_slot [OF inv, of h] s slot_ok_active by blast+
  have "ss' = upd h (closed False s) (hist @ close_calls s) ss"
    using f force_close_upd [OF s(2), of 0 h hist ss] ok by (simp add: sock_wf_def)
  then show ?thesis using w close_calls_effect(1) by (auto intro!: calm_upd not_carrying_wire simp del: written_simps(2))
qed

lemma stat_read_front [simp]: "front (stat_read now n s) = front s" "front (stat_write now n s) = front s"
  "lows (stat_read now n s) = lows s" "lows (stat_write now n s) = lows s"
  by (simp_all add: stat_read_def stat_write_def)


subsection \<open>Events\<close>

lemma wire_fields:
  "same_wire s (stat_read now n s)" "same_wire s (stat_write now n s)" "same_wire s (s\<lparr>s_p := p, s_stat := st\<rparr>)"
  "same_wire s ((stat_read now n s)\<lparr>s_p := p\<rparr>)" "same_wire s (s\<lparr>s_opaque := q\<rparr>)" "same_wire s (s\<lparr>s_sending := w\<rparr>)"
  "same_wire s (s\<lparr>s_warn_size := ws\<rparr>)" "same_wire s (s\<lparr>s_p := p, s_udpconnecting := u\<rparr>)" "same_wire s (s\<lparr>s_udpconnecting := u\<rparr>)"
  "same_wire s (s\<lparr>s_type := ty\<rparr>)" "same_wire s (s\<lparr>s_type := ty, s_opaque := q\<rparr>)"
  by (simp_all add: same_wire_def stat_read_def stat_write_def front_def lows_def dw_rest_def cong: option.case_cong)

lemma forward_message_tcp_calm:
  assumes inv: "ss_inv ss" and a: "polled (ss_slot ss h)" and f: "forward_message_tcp K h ss res = Some (ty, ss', res')"
  shows "calm ss ss'"
proof -
  let ?s = "ss_slot ss h"
  have act: "active ?s" using a by (rule polled_active)
  obtain sz where sz: "s_p ?s = PSize sz"
    using f by (cases "s_p ?s") (simp_all add: forward_message_tcp_def Let_def)
  let ?r = "k_read K (ss_sys ss) (s_fd ?s) (nat sz)"
  let ?c = "Read (s_fd ?s) (nat sz) ?r"
  have u: "call_sys ?c ss = upd h ?s (ss_sys ss @ [?c]) ss" by (rule call_upd)
  have w: "written fd (ss_sys ss @ [?c]) = written fd (ss_sys ss)" for fd by simp
  have cl: "calm ss x" if "force_close h 0 (call_sys ?c ss) = Some (x, r)" for x r
    using force_close_calm [OF inv refl act w] that u by simp
  have same: "calm ss (call_sys ?c ss)" by (rule calm_sys) simp_all
  have rd: "calm ss (put_slot h s' (call_sys ?c ss))" if "same_wire ?s s'" for s'
    using calm_upd [OF that w] u by simp
  show ?thesis
  proof (cases ?r)
    case (Inl e)
    with f sz cl same show ?thesis
      by (cases "e = EINTR \<or> e = EAGAIN") (auto simp: forward_message_tcp_def Let_def bind_eq_Some_conv)
  next
    case (Inr bs)
    with f sz cl same rd wire_fields show ?thesis
      by (cases "bs = []"; cases "s_type ?s = SOCKET_TYPE_HALFCLOSE")
        (auto simp: forward_message_tcp_def Let_def bind_eq_Some_conv)
  qed
qed

lemma forward_message_udp_calm:
  assumes inv: "ss_inv ss" and a: "polled (ss_slot ss h)" and f: "forward_message_udp K h ss res = Some (ty, ss', res')"
  shows "calm ss ss'"
proof -
  let ?s = "ss_slot ss h"
  have act: "active ?s" using a by (rule polled_active)
  let ?r = "k_recvfrom K (ss_sys ss) (s_fd ?s)"
  let ?c = "Recvfrom (s_fd ?s) ?r"
  have u: "call_sys ?c ss = upd h ?s (ss_sys ss @ [?c]) ss" by (rule call_upd)
  have w: "written fd (ss_sys ss @ [?c]) = written fd (ss_sys ss)" for fd by simp
  have cl: "calm ss x" if "force_close h 0 (call_sys ?c ss) = Some (x, r)" for x r
    using force_close_calm [OF inv refl act w] that u by simp
  have same: "calm ss (call_sys ?c ss)" by (rule calm_sys) simp_all
  have rd: "calm ss (put_slot h (stat_read now n ?s) (call_sys ?c ss))" for now n
    using calm_upd [OF wire_fields(1) w] u by simp
  show ?thesis
  proof (cases ?r)
    case (Inl e)
    with f cl same show ?thesis
      by (cases "e = EINTR \<or> e = EAGAIN") (auto simp: forward_message_udp_def Let_def bind_eq_Some_conv)
  next
    case (Inr x)
    obtain bs sa where "x = (bs, sa)" by (cases x)
    with Inr f rd show ?thesis
      by (auto simp: forward_message_udp_def Let_def bind_eq_Some_conv split: if_splits)
  qed
qed

lemma report_connect_calm:
  assumes inv: "ss_inv ss" and a: "s_type (ss_slot ss h) = SOCKET_TYPE_CONNECTING"
    and f: "report_connect K h ss res = Some (ty, ss', res')"
  shows "calm ss ss'"
proof -
  let ?s = "ss_slot ss h"
  have act: "active ?s" using a by (simp add: active_def)
  let ?r = "k_so_error K (ss_sys ss) (s_fd ?s)"
  let ?c = "SoError (s_fd ?s) ?r"
  have u: "call_sys ?c ss = upd h ?s (ss_sys ss @ [?c]) ss" by (rule call_upd)
  have w: "written fd (ss_sys ss @ [?c]) = written fd (ss_sys ss)" for fd by simp
  have cl: "calm ss x" if "force_close h 0 (call_sys ?c ss) = Some (x, r)" for x r
    using force_close_calm [OF inv refl act w] that u by simp
  have ok: "calm ss x" if "ss_slot x = (ss_slot ss)(h := ?s\<lparr>s_type := SOCKET_TYPE_CONNECTED\<rparr>)"
    "\<And>fd. written fd (ss_sys x) = written fd (ss_sys ss)" for x
    using that wire_fields(10) by (simp add: calm_def)
  show ?thesis
  proof (cases ?r)
    case (Inl e)
    with f cl show ?thesis by (auto simp: report_connect_def Let_def bind_eq_Some_conv)
  next
    case (Inr oe)
    show ?thesis
    proof (cases oe)
      case (Some e)
      with Inr f cl show ?thesis by (auto simp: report_connect_def Let_def bind_eq_Some_conv)
    next
      case None
      with Inr f show ?thesis
        by (intro ok) (auto simp: report_connect_def Let_def set_type_def put_slot_def call_sys_def on_sys_def sp_write_def
          split: sum.splits option.splits if_splits)
    qed
  qed
qed

text \<open>Steps that write nothing and touch one slot only.\<close>

definition quiet_at :: "nat \<Rightarrow> socket_server \<Rightarrow> socket_server \<Rightarrow> bool" where
  "quiet_at h ss ss' \<longleftrightarrow> (\<forall>g. g \<noteq> h \<longrightarrow> ss_slot ss' g = ss_slot ss g) \<and>
     (\<forall>fd. written fd (ss_sys ss') = written fd (ss_sys ss))"

lemma quiet_at_calm: "quiet_at h ss ss' \<Longrightarrow> \<not> carrying (ss_slot ss h) \<or> \<not> carrying (ss_slot ss' h) \<Longrightarrow> calm ss ss'"
  unfolding quiet_at_def calm_def by (metis not_carrying_wire same_wire_refl)

lemma quiet_at_trans: "quiet_at h a b \<Longrightarrow> quiet_at h b c \<Longrightarrow> quiet_at h a c"
  by (simp add: quiet_at_def)

lemma quiet_at_simps [simp]:
  "quiet_at h ss ss" "quiet_at h ss (put_slot h s ss)" "quiet_at h ss (set_type h ty ss)"
  "list_all harmless [c] \<Longrightarrow> quiet_at h ss (call_sys c ss)"
  "quiet_at h ss (ss\<lparr>ss_buffer := b\<rparr>)"
  using silent_harmless [of "[c]"] by (simp_all add: quiet_at_def put_slot_def set_type_def call_sys_def)

lemma new_fd_quiet:
  assumes "new_fd K i fd prot q add ss = Some (ns, ss')"
  shows "quiet_at (HASH_ID i) ss ss'" and "s_type (ss_slot ss (HASH_ID i)) = SOCKET_TYPE_RESERVE"
    and "ns = Some h \<Longrightarrow> h = HASH_ID i"
  using assms
  by (auto simp: new_fd_def Let_def quiet_at_def put_slot_def sp_add_def c_assert_def split: if_splits)

lemma reserve_quiet:
  assumes "reserve_id ss = (i, ss')"
  shows "quiet_at (HASH_ID i) ss ss'" and "calm ss ss'"
    and "0 \<le> sint i \<Longrightarrow> s_type (ss_slot ss (HASH_ID i)) = SOCKET_TYPE_INVALID"
proof -
  from reserve_loop_spec [OF assms [unfolded reserve_id_def]] consider
    (none) a where "sint i < 0" "ss' = ss\<lparr>ss_alloc_id := a\<rparr>"
  | (some) s where "0 \<le> sint i" "s_type (ss_slot ss (HASH_ID i)) = SOCKET_TYPE_INVALID" "ss' = (upd (HASH_ID i) s (ss_sys ss) ss)\<lparr>ss_alloc_id := i\<rparr>"
    by blast
  then show "quiet_at (HASH_ID i) ss ss'" "calm ss ss'" "0 \<le> sint i \<Longrightarrow> s_type (ss_slot ss (HASH_ID i)) = SOCKET_TYPE_INVALID"
    by (cases; auto simp: quiet_at_def calm_def intro: not_carrying_wire)+
qed

lemma report_accept_calm:
  assumes a: "s_type (ss_slot ss h) = SOCKET_TYPE_LISTEN" and f: "report_accept K h ss res = Some (ok, ss', res')"
  shows "calm ss ss'"
proof (cases "k_accept K (ss_sys ss) (s_fd (ss_slot ss h))")
  case (Inl e)
  with f show ?thesis by (auto simp: report_accept_def Let_def intro!: calm_sys split: if_splits)
next
  case (Inr x)
  obtain cfd u where x: "x = (cfd, u)" by (cases x)
  let ?ss1 = "call_sys (Accept (s_fd (ss_slot ss h)) (Inr (cfd, u))) ss"
  obtain i ss2 where i: "reserve_id ?ss1 = (i, ss2)" by fastforce
  have c1: "calm ss ?ss1" by (rule calm_sys) simp_all
  show ?thesis
  proof (cases "sint i < 0")
    case True
    with f Inr x i have "ss' = call_sys (Close cfd) ss2" by (auto simp: report_accept_def Let_def)
    with reserve_quiet(2) [OF i] show ?thesis by (simp add: calm_def)
  next
    case False
    let ?g = "HASH_ID i"
    let ?ss3 = "on_sys (\<lambda>hist. sp_nonblocking (hist @ [Keepalive cfd]) cfd) ss2"
    have g: "s_type (ss_slot ss ?g) = SOCKET_TYPE_INVALID" using reserve_quiet(3) [OF i] False by simp
    then have ne: "?g \<noteq> h" using a by auto
    have q3: "quiet_at ?g ss ?ss3" using reserve_quiet(1) [OF i] by (simp add: quiet_at_def on_sys_def sp_nonblocking_def)
    obtain ns ss4 where n: "new_fd K i cfd PROTOCOL_TCP (s_opaque (ss_slot ss h)) False ?ss3 = Some (ns, ss4)"
      using f Inr x i False by (auto simp: report_accept_def Let_def bind_eq_Some_conv)
    have q4: "quiet_at ?g ss ss4" using quiet_at_trans [OF q3 new_fd_quiet(1) [OF n]] .
    have cs: "calm ss y" if "\<And>k. k \<noteq> ?g \<Longrightarrow> k \<noteq> h \<Longrightarrow> ss_slot y k = ss_slot ss k" "\<And>fd. written fd (ss_sys y) = written fd (ss_sys ss)" for y
      using that g a unfolding calm_def by (metis not_carrying(1,5) not_carrying_wire(1) same_wire_refl)
    show ?thesis
    proof (cases ns)
      case None
      with f Inr x i False n have "ss' = call_sys (Close cfd) ss4" by (auto simp: report_accept_def Let_def)
      with q4 show ?thesis by (intro cs) (simp_all add: quiet_at_def)
    next
      case (Some g')
      have "g' = ?g" using new_fd_quiet(3) [OF n] Some by simp
      with f Inr x i False n Some q4 show ?thesis
        by (intro cs) (auto simp: report_accept_def Let_def set_type_def put_slot_def quiet_at_def split: option.splits)
    qed
  qed
qed

subsection \<open>Commands\<close>

lemma start_socket_calm:
  assumes inv: "ss_inv ss" and i: "\<not> reserved (ss_slot ss) i" and f: "start_socket K i q ss = Some (ty, ss', res')"
  shows "calm ss ss'"
proof -
  let ?h = "HASH_ID i" and ?s = "ss_slot ss (HASH_ID i)"
  let ?e = "k_epoll_add K (ss_sys ss) (s_fd ?s)"
  let ?c = "EpollAdd (s_fd ?s) (Some ?h) (?e = None)"
  have w: "written fd (ss_sys ss @ [?c]) = written fd (ss_sys ss)" for fd by simp
  have u: "ss\<lparr>ss_sys := ss_sys ss @ [?c]\<rparr> = upd ?h ?s (ss_sys ss @ [?c]) ss" by (simp add: upd_def)
  have put: "calm ss (put_slot ?h s' (ss\<lparr>ss_sys := hist\<rparr>))" if "same_wire ?s s'" "\<And>fd. written fd hist = written fd (ss_sys ss)" for s' hist
    using that by (simp add: calm_def put_slot_def)
  have put0: "calm ss (put_slot ?h s' ss)" if "same_wire ?s s'" for s'
    using that by (simp add: calm_def put_slot_def)
  show ?thesis using i
  proof (cases rule: id_cases)
    case unknown
    with f show ?thesis by (auto simp: start_socket_def Let_def)
  next
    case known
    have cl: "calm ss x" if "force_close ?h 0 (ss\<lparr>ss_sys := ss_sys ss @ [?c]\<rparr>) = Some (x, r)" for x r
      using force_close_calm [OF inv refl known(1) w] that u by simp
    have np: "same_wire ?s s'" if "s_type ?s = SOCKET_TYPE_PACCEPT \<or> s_type ?s = SOCKET_TYPE_PLISTEN" for s'
      using that by (auto intro: not_carrying_wire)
    show ?thesis
    proof (cases "s_type ?s = SOCKET_TYPE_PACCEPT \<or> s_type ?s = SOCKET_TYPE_PLISTEN")
      case True
      with f known cl put np show ?thesis
        by (cases ?e) (auto simp: start_socket_def Let_def sp_add_def bind_eq_Some_conv active_def)
    next
      case False
      with f known put0 wire_fields(5) show ?thesis
        by (auto simp: start_socket_def Let_def active_def split: if_splits)
    qed
  qed
qed

lemma opening_calm:
  assumes "new_fd K i fd prot q add ss = Some (ns, ss1)" and "quiet_at (HASH_ID i) ss1 ss'"
  shows "calm ss ss'"
  using quiet_at_calm [OF quiet_at_trans [OF new_fd_quiet(1) [OF assms(1)] assms(2)]] not_carrying(2) [OF new_fd_quiet(2) [OF assms(1)]] by blast

lemma bind_socket_calm:
  assumes "bind_socket K i fd q ss = Some (ty, ss', res')"
  shows "calm ss ss'"
proof -
  obtain ns ss1 where n: "new_fd K i fd PROTOCOL_TCP q True ss = Some (ns, ss1)"
    using assms by (auto simp: bind_socket_def bind_eq_Some_conv)
  have "quiet_at (HASH_ID i) ss1 ss'"
    using assms n new_fd_quiet(3) [OF n]
    by (cases ns) (auto simp: bind_socket_def quiet_at_def set_type_def put_slot_def on_sys_def sp_nonblocking_def)
  with n show ?thesis by (rule opening_calm)
qed

lemma listen_socket_calm:
  assumes "listen_socket K i fd q ss res = Some (ty, ss', res')"
  shows "calm ss ss'"
proof -
  obtain ns ss1 where n: "new_fd K i fd PROTOCOL_TCP q False ss = Some (ns, ss1)"
    using assms by (auto simp: listen_socket_def bind_eq_Some_conv)
  have "quiet_at (HASH_ID i) ss1 ss'"
    using assms n new_fd_quiet(3) [OF n]
    by (cases ns) (auto simp: listen_socket_def quiet_at_def set_type_def put_slot_def call_sys_def)
  with n show ?thesis by (rule opening_calm)
qed

lemma add_udp_socket_calm:
  assumes "add_udp_socket K i fd family q ss = Some ss'"
  shows "calm ss ss'"
proof -
  let ?prot = "if family = AF_INET6 then PROTOCOL_UDPv6 else PROTOCOL_UDP"
  obtain ns ss1 where n: "new_fd K i fd ?prot q True ss = Some (ns, ss1)"
    using assms by (auto simp: add_udp_socket_def Let_def bind_eq_Some_conv)
  have "quiet_at (HASH_ID i) ss1 ss'"
    using assms n new_fd_quiet(3) [OF n]
    by (cases ns) (auto simp: add_udp_socket_def Let_def quiet_at_def set_type_def put_slot_def call_sys_def)
  with n show ?thesis by (rule opening_calm)
qed

lemma connect_loop_written: "written fd (snd (connect_loop K e as hist)) = written fd hist"
proof (induction as arbitrary: e hist)
  case (Cons a as)
  show ?case by (auto simp: Let_def sp_nonblocking_def Cons.IH split: sum.split option.split)
qed simp

lemma open_socket_calm:
  assumes r: "s_type (ss_slot ss (HASH_ID i)) = SOCKET_TYPE_RESERVE" and f: "open_socket K i port q host ss = Some (ty, ss', res')"
  shows "calm ss ss'"
proof -
  let ?h = "HASH_ID i"
  have "quiet_at ?h ss ss'"
  proof (cases "k_getaddrinfo K (ss_sys ss) host port")
    case (Inl e)
    with f show ?thesis by (auto simp: open_socket_def open_failed_def Let_def quiet_at_def set_type_def put_slot_def)
  next
    case (Inr as)
    let ?ss1 = "call_sys (Getaddrinfo host port (Inr as)) ss"
    obtain x hist where c: "connect_loop K (Errno 0) as (ss_sys ?ss1) = (x, hist)" by fastforce
    have w: "written fd hist = written fd (ss_sys ss)" for fd
      using connect_loop_written [of fd K "Errno 0" as "ss_sys ?ss1"] c by simp
    have q1: "quiet_at ?h ss (?ss1\<lparr>ss_sys := hist\<rparr>)" using w by (simp add: quiet_at_def)
    show ?thesis
    proof (cases x)
      case (Inl e)
      with f Inr c w show ?thesis by (auto simp: open_socket_def open_failed_def Let_def quiet_at_def set_type_def put_slot_def)
    next
      case x: (Inr y)
      obtain fd con a where y: "y = (fd, con, a)" by (cases y)
      obtain ns ss2 where n: "new_fd K i fd PROTOCOL_TCP q True (?ss1\<lparr>ss_sys := hist\<rparr>) = Some (ns, ss2)"
        using f Inr c x y by (auto simp: open_socket_def Let_def bind_eq_Some_conv)
      have "quiet_at ?h ss2 ss'" using f Inr c x y n new_fd_quiet(3) [OF n]
        by (cases ns) (auto simp: open_socket_def open_failed_def Let_def quiet_at_def set_type_def put_slot_def call_sys_def
          on_sys_def sp_write_def split: option.splits if_splits)
      with quiet_at_trans [OF quiet_at_trans [OF q1 new_fd_quiet(1) [OF n]]] show ?thesis by blast
    qed
  qed
  with not_carrying(2) [OF r] show ?thesis using quiet_at_calm by blast
qed

lemma set_udp_address_calm:
  assumes "set_udp_address i addr ss res = Some (ty, ss', res')"
  shows "calm ss ss'"
proof -
  have "calm ss (put_slot (HASH_ID i) ((ss_slot ss (HASH_ID i))\<lparr>s_p := p, s_udpconnecting := u\<rparr>) ss)" for p u
    using wire_fields(8) by (simp add: calm_def put_slot_def)
  with assms show ?thesis
    by (auto simp: set_udp_address_def Let_def bind_eq_Some_conv split: if_splits)
qed

lemma setopt_socket_calm: "calm ss (setopt_socket i what v ss)"
  by (auto simp: setopt_socket_def Let_def intro: calm_sys)

lemma dec_sending_ref_calm:
  assumes "dec_sending_ref i ss = Some ss'"
  shows "calm ss ss'" and "ss_sys ss' = ss_sys ss" and "carrying (ss_slot ss' h) = carrying (ss_slot ss h)"
    and "s_id (ss_slot ss' h) = s_id (ss_slot ss h)" and "s_fd (ss_slot ss' h) = s_fd (ss_slot ss h)"
    and "front (ss_slot ss' h) = front (ss_slot ss h)" and "lows (ss_slot ss' h) = lows (ss_slot ss h)"
proof -
  show "calm ss ss'" using assms wire_fields(6)
    by (auto simp: dec_sending_ref_def Let_def calm_def put_slot_def c_assert_def split: if_splits)
  show "ss_sys ss' = ss_sys ss" "carrying (ss_slot ss' h) = carrying (ss_slot ss h)"
    "s_id (ss_slot ss' h) = s_id (ss_slot ss h)" "s_fd (ss_slot ss' h) = s_fd (ss_slot ss h)"
    "front (ss_slot ss' h) = front (ss_slot ss h)" "lows (ss_slot ss' h) = lows (ss_slot ss h)"
    using assms by (auto simp: dec_sending_ref_def Let_def put_slot_def carrying_def c_assert_def split: if_splits)
qed

subsection \<open>Steps that move data\<close>

text \<open>Slot \<open>h\<close> takes buffers of high and of low priority and writes a part of what it holds; \<open>taken\<close> are the
  low priority buffers that are no longer in the list, written, or raised to the front.\<close>

definition moved :: "nat \<Rightarrow> u8 list list \<Rightarrow> u8 list list \<Rightarrow> socket_server \<Rightarrow> socket_server \<Rightarrow> bool" where
  "moved h addh addl ss ss' \<longleftrightarrow> (\<forall>g. g \<noteq> h \<longrightarrow> ss_slot ss' g = ss_slot ss g) \<and>
     (\<exists>out. (\<forall>fd. written fd (ss_sys ss') = written fd (ss_sys ss) @ (if fd = s_fd (ss_slot ss h) then out else [])) \<and>
       (carrying (ss_slot ss h) \<and> carrying (ss_slot ss' h) \<longrightarrow>
         s_fd (ss_slot ss' h) = s_fd (ss_slot ss h) \<and>
         (\<exists>taken. lows (ss_slot ss h) @ addl = taken @ lows (ss_slot ss' h) \<and>
           front (ss_slot ss h) @ concat addh @ concat taken = out @ front (ss_slot ss' h))))"

lemma moved_refl: "moved h [] [] ss ss"
  by (auto simp: moved_def intro: exI [of _ "[]"])

lemma flushed_moved:
  assumes "flushed out s s1" and "carrying s"
  shows "s_fd s1 = s_fd s" and "\<exists>taken. lows s = taken @ lows s1 \<and> front s @ concat taken = out @ front s1"
  using assms by (auto simp: flushed_def passed_def same_conn_def carrying_def split: if_splits)

lemma buffer_sent_moved:
  assumes "buffer_sent 0 (ss_slot ss h) (ss_sys ss) ty s' hist res'"
  shows "moved h [] [] ss (upd h s' hist ss)"
proof -
  let ?s = "ss_slot ss h"
  from assms obtain out s1 where b: "flushed out ?s s1" "wrote (s_fd ?s) out (ss_sys ss) hist" "s' = s1 \<or> s' = closed False s1"
    unfolding buffer_sent_def by auto
  have "s_fd s' = s_fd ?s \<and> (\<exists>taken. lows ?s = taken @ lows s' \<and> front ?s @ concat taken = out @ front s')"
    if "carrying ?s" "carrying s'"
    using flushed_moved [OF b(1) that(1)] b(3) that(2) by auto
  with b(2) show ?thesis by (auto simp: moved_def wrote_def intro: exI [of _ out])
qed

lemma send_buffer_moved:
  assumes K: "write_answers K" "write_bounded K" and inv: "ss_inv ss" and a: "active (ss_slot ss h)"
    and f: "send_buffer K h 0 ss res = Some (ty, ss', res')"
  shows "moved h [] [] ss ss'"
  using send_buffer_keeps [OF K inv refl a, of res] buffer_sent_moved f by fastforce

text \<open>Composition, and how a step without data goes before or after.\<close>

lemma moved_closed:
  assumes "moved h addh addl ss ss1" and "\<And>g. g \<noteq> h \<Longrightarrow> ss_slot ss2 g = ss_slot ss1 g"
    and "\<And>fd. written fd (ss_sys ss2) = written fd (ss_sys ss1)"
    and "\<not> carrying (ss_slot ss2 h)"
  shows "moved h addh addl ss ss2"
  using assms unfolding moved_def by metis

lemma close_socket_moved:
  assumes K: "write_answers K" "write_bounded K" and inv: "ss_inv ss" and i: "\<not> reserved (ss_slot ss) i"
    and f: "close_socket K i shutdown q ss res = Some (ty, ss', res')"
  shows "moved (HASH_ID i) [] [] ss ss'"
  using i
proof (cases rule: id_cases)
  case unknown
  then show ?thesis using f moved_refl by (auto simp: close_socket_def Let_def)
next
  case known
  define h where "h = HASH_ID i"
  let ?s = "ss_slot ss h"
  have act: "active ?s" and id: "s_id ?s = i" using known by (simp_all add: h_def)
  have ne: "s_type ?s \<noteq> SOCKET_TYPE_INVALID" using act by (simp add: active_def)
  have "\<exists>ty s1 h1 res1. (if nomore_sending_data ?s then Some (R_IGNORE, ss, res) else send_buffer K h 0 ss res) =
      Some (ty, upd h s1 h1 ss, res1) \<and> moved h [] [] ss (upd h s1 h1 ss) \<and>
      (ty \<noteq> SOCKET_CLOSE \<longrightarrow> ss_inv (upd h s1 h1 ss) \<and> active s1)"
  proof (cases "nomore_sending_data ?s")
    case True
    then show ?thesis using inv act upd_same [of h ss] moved_refl [of h ss]
      by (intro exI [of _ R_IGNORE] exI [of _ ?s] exI [of _ "ss_sys ss"] exI [of _ res]) simp
  next
    case False
    obtain ty s1 h1 res1 where b: "send_buffer K h 0 ss res = Some (ty, upd h s1 h1 ss, res1)"
      "buffer_sent 0 ?s (ss_sys ss) ty s1 h1 res1" using send_buffer_keeps [OF K inv refl act] by blast
    have "ty \<noteq> SOCKET_CLOSE \<longrightarrow> ss_inv (upd h s1 h1 ss) \<and> active s1"
      using buffer_sent_keeps(2) [OF inv refl act b(2)] same_conn_id act by blast
    then show ?thesis using False b(1) buffer_sent_moved [OF b(2)]
      by (intro exI [of _ ty] exI [of _ s1] exI [of _ h1] exI [of _ res1]) simp
  qed
  then obtain ty1 s1 h1 res1 where b:
    "(if nomore_sending_data ?s then Some (R_IGNORE, ss, res) else send_buffer K h 0 ss res) = Some (ty1, upd h s1 h1 ss, res1)"
    "moved h [] [] ss (upd h s1 h1 ss)" "ty1 \<noteq> SOCKET_CLOSE \<Longrightarrow> ss_inv (upd h s1 h1 ss) \<and> active s1" by blast
  have red: "close_socket K i shutdown q ss res =
    (if ty1 \<noteq> R_IGNORE \<and> ty1 \<noteq> SOCKET_WARNING then Some (ty1, upd h s1 h1 ss, res1)
     else if shutdown \<or> nomore_sending_data s1 then do {
       (ss2, res2) \<leftarrow> force_close h 0 (upd h s1 h1 ss);
       Some (SOCKET_CLOSE, ss2, res2\<lparr>r_id := i, r_opaque := q\<rparr>) }
     else Some (R_IGNORE, upd h (s1\<lparr>s_type := SOCKET_TYPE_HALFCLOSE\<rparr>) h1 ss, res1))"
    unfolding close_socket_def Let_def h_def [symmetric] b(1) using id ne by (simp add: set_type_def)
  consider (go) "ss' = upd h s1 h1 ss"
    | (half) "ss' = upd h (s1\<lparr>s_type := SOCKET_TYPE_HALFCLOSE\<rparr>) h1 ss"
    | (close) r where "ty1 \<noteq> SOCKET_CLOSE" "force_close h 0 (upd h s1 h1 ss) = Some (ss', r)"
    using f unfolding red by (auto simp: bind_eq_Some_conv split: if_splits)
  then have "moved h [] [] ss ss'"
  proof cases
    case go
    then show ?thesis using b(2) by simp
  next
    case half
    then show ?thesis by (intro moved_closed [OF b(2)]) simp_all
  next
    case close
    have i1: "ss_inv (upd h s1 h1 ss)" "active s1" using b(3) close(1) by simp_all
    have "sock_wf s1" "\<not> s_dw_lock s1" using slot_ok_active [OF inv_slot [OF i1(1), of h]] i1(2) by simp_all
    then have "ss' = upd h (closed False s1) (h1 @ close_calls s1) ss"
      using close(2) force_close_upd [OF i1(2), of 0 h h1 ss] by (simp add: sock_wf_def)
    then show ?thesis using close_calls_effect(1) by (intro moved_closed [OF b(2)]) (simp_all del: written_simps(2))
  qed
  then show ?thesis by (simp add: h_def)
qed

text \<open>Data from the pipe: it is appended to the lists, or thrown away.\<close>

lemma appended_to:
  assumes "raw_ok buf sz"
  shows "front (appended PRIORITY_HIGH (new_wb buf sz a) s) = front s @ payload buf sz"
    and "lows (appended PRIORITY_HIGH (new_wb buf sz a) s) = lows s"
    and "front (appended PRIORITY_LOW (new_wb buf sz a) s) = front s"
    and "lows (appended PRIORITY_LOW (new_wb buf sz a) s) = lows s @ [payload buf sz]"
    and "s_fd (appended p (new_wb buf sz a) s) = s_fd s"
  using new_wb_facts(3) [of buf sz a] appended_same(1) [of s p] by (simp_all add: appended_front same_conn_def)

lemma send_warning_wire:
  assumes "send_warning h ss res = (ty, ss', res')"
  shows "quiet_at h ss ss'" and "front (ss_slot ss' h) = front (ss_slot ss h)" and "lows (ss_slot ss' h) = lows (ss_slot ss h)"
    and "s_fd (ss_slot ss' h) = s_fd (ss_slot ss h)" and "ss_sys ss' = ss_sys ss" and "carrying (ss_slot ss' h) = carrying (ss_slot ss h)"
proof -
  have "ss' = ss \<or> (\<exists>w. ss' = put_slot h ((ss_slot ss h)\<lparr>s_warn_size := w\<rparr>) ss)"
    using assms by (auto simp: send_warning_def Let_def split: if_splits)
  then show "quiet_at h ss ss'" "front (ss_slot ss' h) = front (ss_slot ss h)" "lows (ss_slot ss' h) = lows (ss_slot ss h)"
    "s_fd (ss_slot ss' h) = s_fd (ss_slot ss h)" "ss_sys ss' = ss_sys ss" "carrying (ss_slot ss' h) = carrying (ss_slot ss h)"
    by (auto simp: put_slot_def carrying_def quiet_at_def)
qed

lemma send_empty_quiet:
  assumes "send_empty K h buf sz p addr ss = Some (b, ss')"
  shows "quiet_at h ss ss'"
proof (cases "s_protocol (ss_slot ss h) = PROTOCOL_TCP")
  case True
  with assms show ?thesis
    by (auto simp: send_empty_def Let_def quiet_at_def put_slot_def on_sys_def sp_write_def bind_eq_Some_conv)
next
  case False
  then obtain a sa so where x: "(case addr of Some a \<Rightarrow> Some a
      | None \<Rightarrow> (case s_p (ss_slot ss h) of PAddress a \<Rightarrow> Some a | PSize _ \<Rightarrow> None)) = Some a"
    "udp_socket_address (ss_slot ss h) a = Some sa" "send_object_init ss buf sz = Some so"
    using assms by (auto simp: send_empty_def Let_def bind_eq_Some_conv)
  note d = send_empty_def Let_def x quiet_at_def put_slot_def on_sys_def sp_write_def call_sys_def free_func_def bind_eq_Some_conv
  show ?thesis using assms False by (cases sa) (auto simp: d split: if_splits)
qed

lemma send_queued_quiet:
  assumes "send_queued h buf sz p addr ss = Some ss'"
  shows "quiet_at h ss ss'"
  using assms by (auto simp: send_queued_def Let_def bind_eq_Some_conv split: if_splits)

lemma free_request_calm: "free_request buf sz ss = Some ss' \<Longrightarrow> ss_slot ss' = ss_slot ss \<and> (\<forall>fd. written fd (ss_sys ss') = written fd (ss_sys ss))"
  by (auto simp: free_request_def free_func_def bind_eq_Some_conv)

lemma send_socket_cases:
  assumes "send_socket K i buf sz p addr ss res = Some (ty, ss', res')"
  obtains (free) "ss_slot ss' = ss_slot ss" "\<And>fd. written fd (ss_sys ss') = written fd (ss_sys ss)"
      "s_id (ss_slot ss (HASH_ID i)) \<noteq> i \<or> \<not> carrying (ss_slot ss (HASH_ID i))"
  | (empty) b ss1 where "send_empty K (HASH_ID i) buf sz p addr ss = Some (b, ss1)"
      "ss' = ss1 \<and> \<not> b \<or> b \<and> send_warning (HASH_ID i) ss1 res = (ty, ss', res')" "s_id (ss_slot ss (HASH_ID i)) = i"
      "s_low (ss_slot ss (HASH_ID i)) = []"
  | (queued) ss1 where "send_queued (HASH_ID i) buf sz p addr ss = Some ss1" "send_warning (HASH_ID i) ss1 res = (ty, ss', res')"
      "s_id (ss_slot ss (HASH_ID i)) = i"
proof -
  let ?s = "ss_slot ss (HASH_ID i)"
  show thesis
  proof (cases "s_type ?s = SOCKET_TYPE_INVALID \<or> s_id ?s \<noteq> i \<or> s_type ?s = SOCKET_TYPE_HALFCLOSE \<or>
         s_type ?s = SOCKET_TYPE_PACCEPT \<or> s_type ?s = SOCKET_TYPE_PLISTEN \<or> s_type ?s = SOCKET_TYPE_LISTEN")
    case True
    then obtain ss1 where "free_request buf sz ss = Some ss1" "ss' = ss1"
      using assms by (auto simp: send_socket_def Let_def bind_eq_Some_conv)
    with free_request_calm True show thesis by (intro free) (auto simp: carrying_def)
  next
    case False
    show thesis
    proof (cases "send_buffer_empty ?s \<and> s_type ?s = SOCKET_TYPE_CONNECTED")
      case True
      with assms False obtain b ss1 where "send_empty K (HASH_ID i) buf sz p addr ss = Some (b, ss1)"
        "(if b then send_warning (HASH_ID i) ss1 res else (R_IGNORE, ss1, res)) = (ty, ss', res')"
        by (auto simp: send_socket_def Let_def bind_eq_Some_conv)
      with False True show thesis by (intro empty) (auto simp: send_buffer_empty_def split: if_splits)
    next
      case nq: False
      with assms False obtain ss1 where "send_queued (HASH_ID i) buf sz p addr ss = Some ss1"
        "send_warning (HASH_ID i) ss1 res = (ty, ss', res')"
        by (auto simp: send_socket_def Let_def bind_eq_Some_conv)
      with False show thesis by (intro queued) auto
    qed
  qed
qed

lemma send_socket_quiet:
  assumes "send_socket K i buf sz p addr ss res = Some (ty, ss', res')"
  shows "quiet_at (HASH_ID i) ss ss' \<and> (s_id (ss_slot ss (HASH_ID i)) \<noteq> i \<longrightarrow> calm ss ss')"
  using assms
proof (cases rule: send_socket_cases)
  case free
  then show ?thesis by (simp add: quiet_at_def calm_def)
next
  case empty
  then show ?thesis using send_empty_quiet send_warning_wire(1) quiet_at_trans by blast
next
  case queued
  then show ?thesis using send_queued_quiet send_warning_wire(1) quiet_at_trans by blast
qed

text \<open>The buffer that a request of a priority adds.\<close>

definition adds :: "priority \<Rightarrow> priority \<Rightarrow> u8 list \<Rightarrow> u8 list list" where
  "adds p q xs = (if p = q then [xs] else [])"

lemma send_socket_moved:
  assumes f: "send_socket K i buf sz p addr ss res = Some (ty, ss', res')" and raw: "raw_ok buf sz"
    and id: "s_id (ss_slot ss (HASH_ID i)) = i"
  shows "moved (HASH_ID i) (adds PRIORITY_HIGH p (payload buf sz)) (adds PRIORITY_LOW p (payload buf sz)) ss ss'"
proof -
  define h where "h = HASH_ID i"
  let ?s = "ss_slot ss h" and ?x = "payload buf sz"
  let ?ok = "\<lambda>s'. s_fd s' = s_fd ?s \<and> (\<exists>taken. lows ?s @ adds PRIORITY_LOW p ?x = taken @ lows s' \<and>
      front ?s @ concat (adds PRIORITY_HIGH p ?x) @ concat taken = front s')"
  have q: "\<forall>g. g \<noteq> h \<longrightarrow> ss_slot ss' g = ss_slot ss g" "\<forall>fd. written fd (ss_sys ss') = written fd (ss_sys ss)"
    using send_socket_quiet [OF f] by (simp_all add: quiet_at_def h_def)
  note ap = appended_to [OF raw]
  have w: "?ok (ss_slot ss' h)" if "?ok (ss_slot ss1 h)" "send_warning h ss1 res = (ty, ss', res')" for ss1
    using send_warning_wire(2-4) [OF that(2)] that(1) by simp
  have q_ok: "?ok (appended p (new_wb buf sz []) ?s)"
    using ap(5) [of p] by (cases p) (auto simp: ap(1-4) adds_def intro!: exI [of _ "[]"])
  have e_ok: "?ok (appended PRIORITY_HIGH (new_wb buf sz []) ?s)" if "s_low ?s = []"
  proof -
    have "lows ?s = []" using that by (simp add: lows_def)
    then show ?thesis using ap(5) [of PRIORITY_HIGH]
      by (cases p) (auto simp: ap(1,2) adds_def intro: exI [of _ "[]"] exI [of _ "[?x]"])
  qed
  have "?ok (ss_slot ss' h)" if c: "carrying ?s"
  proof -
    have tcp: "s_protocol ?s = PROTOCOL_TCP" using c by (simp add: carrying_def)
    from f show ?thesis
    proof (cases rule: send_socket_cases)
      case free
      then show ?thesis using id c by (simp add: h_def)
    next
      case (empty b ss1)
      then have "b" "ss_slot ss1 h = appended PRIORITY_HIGH (new_wb buf sz []) ?s"
        using tcp raw by (auto simp: h_def send_empty_def append_sendbuffer_def append_raw put_slot_def on_sys_def Let_def)
      then show ?thesis using empty(2,4) e_ok by (intro w) (simp_all add: h_def)
    next
      case (queued ss1)
      then have "ss_slot ss1 h = appended p (new_wb buf sz []) ?s"
        using tcp raw by (cases p) (auto simp: h_def send_queued_def append_sendbuffer_def append_sendbuffer_low_def
          append_raw put_slot_def Let_def)
      then show ?thesis using queued(2) q_ok by (intro w) (simp_all add: h_def)
    qed
  qed
  then show ?thesis unfolding h_def [symmetric] moved_def using q by (intro conjI exI [of _ "[]"]) simp_all
qed

subsection \<open>Events, turn by turn\<close>

text \<open>A step of the poll thread: nothing moves, or one socket writes a part of what it holds.\<close>

definition stirred :: "socket_server \<Rightarrow> socket_server \<Rightarrow> bool" where
  "stirred ss ss' \<longleftrightarrow> ss_pipe ss' = ss_pipe ss \<and>
     (calm ss ss' \<or> (\<exists>h. active (ss_slot ss h) \<and> moved h [] [] ss ss'))"

text \<open>Only slots and history matter.\<close>

definition same_data :: "socket_server \<Rightarrow> socket_server \<Rightarrow> bool" where
  "same_data ss ss' \<longleftrightarrow> ss_slot ss' = ss_slot ss \<and> ss_pipe ss' = ss_pipe ss \<and>
     (\<forall>fd. written fd (ss_sys ss') = written fd (ss_sys ss))"

lemma stirred_data: "stirred a b \<Longrightarrow> same_data b c \<Longrightarrow> stirred a c"
  unfolding stirred_def same_data_def calm_def moved_def by metis

lemma data_stirred: "same_data a b \<Longrightarrow> stirred b c \<Longrightarrow> stirred a c"
  unfolding stirred_def same_data_def calm_def moved_def by metis

lemma same_stirred: "same_data a b \<Longrightarrow> stirred a b"
  unfolding stirred_def same_data_def calm_def by simp

lemma stirred_refl [simp]: "stirred ss ss"
  by (simp add: stirred_def)

lemma same_data_simps [simp]:
  "same_data ss (ss\<lparr>ss_event_index := i\<rparr>)" "same_data ss ((set_ev i e ss)\<lparr>ss_event_index := j\<rparr>)"
  "same_data ss (clear_closed_event ty res ss)" "same_data ss (ss\<lparr>ss_checkctrl := b\<rparr>)"
  "quiet1 c \<Longrightarrow> same_data ss (ss\<lparr>ss_sys := ss_sys ss @ [c], ss_checkctrl := b, ss_event_index := j, ss_event_n := n, ss_ev := evs\<rparr>)"
  by (simp_all add: same_data_def set_ev_def clear_closed_event_def quiet1_written)

lemma turn_state_simps [simp]:
  "turn_state (Inl (ty, ss, st)) = ss" "turn_state (Inr (ss, st)) = ss" "turn_state (return_type ty (ss, st)) = ss"
  by (simp_all add: turn_state_def return_type_def)

lemma handled_pipe: "handled h ss ty ss' res' \<Longrightarrow> ss_pipe ss' = ss_pipe ss"
  by (simp add: handled_def keeps_def)

lemma poll_read_stirred:
  assumes K: "inet_peers K" and a: "at_event ss h e i" and f: "poll_read K h e i (ss, res, m) = Some t"
  shows "stirred ss (turn_state t)"
proof -
  let ?s = "ss_slot ss h"
  have inv: "ss_inv ss" and p: "polled ?s" using a by (simp_all add: at_event_def)
  let ?f = "if s_protocol ?s = PROTOCOL_TCP then forward_message_tcp K h ss res else forward_message_udp K h ss res"
  obtain ty ss1 res1 where g: "?f = Some (ty, ss1, res1)" and hd: "handled h ss ty ss1 res1"
    using forward_message_tcp_handled [OF inv refl p] forward_message_udp_handled [OF K inv refl p]
    by (cases "s_protocol ?s = PROTOCOL_TCP") (simp_all, blast+)
  have "calm ss ss1" using g forward_message_tcp_calm [OF inv p] forward_message_udp_calm [OF inv p] by (auto split: if_splits)
  then have s1: "stirred ss ss1" using handled_pipe [OF hd] by (simp add: stirred_def)
  have red: "poll_read K h e i (ss, res, m) =
      (if s_protocol ?s \<noteq> PROTOCOL_TCP \<and> ty = SOCKET_UDP then Some (Inl (SOCKET_UDP, ss1\<lparr>ss_event_index := i\<rparr>, res1, m))
       else Some (return_type ty (if e_write e \<and> ty \<noteq> SOCKET_CLOSE \<and> ty \<noteq> SOCKET_ERR
          then (set_ev i (e\<lparr>e_read := False\<rparr>) ss1)\<lparr>ss_event_index := i\<rparr> else ss1, res1, m)))"
    unfolding poll_read_def Let_def prod.case g by simp
  show ?thesis
  proof (cases "s_protocol ?s \<noteq> PROTOCOL_TCP \<and> ty = SOCKET_UDP")
    case True
    then have "turn_state t = ss1\<lparr>ss_event_index := i\<rparr>" using f unfolding red by auto
    then show ?thesis using stirred_data [OF s1] by simp
  next
    case False
    define ss2 where "ss2 = (if e_write e \<and> ty \<noteq> SOCKET_CLOSE \<and> ty \<noteq> SOCKET_ERR
      then (set_ev i (e\<lparr>e_read := False\<rparr>) ss1)\<lparr>ss_event_index := i\<rparr> else ss1)"
    have "turn_state t = ss2" using f False unfolding red ss2_def [symmetric] by auto
    moreover have "stirred ss ss2" unfolding ss2_def using s1 stirred_data [OF s1] by (simp split: if_split)
    ultimately show ?thesis by simp
  qed
qed

lemma poll_default_stirred:
  assumes K: "inet_peers K" "write_answers K" "write_bounded K" and a: "at_event ss h e i"
    and f: "poll_default K h e i (ss, res, m) = Some t"
  shows "stirred ss (turn_state t)"
proof -
  let ?s = "ss_slot ss h"
  have inv: "ss_inv ss" and act: "active ?s" using a by (simp_all add: at_event_def polled_active)
  have cl: "stirred ss x" if "force_close h 0 (upd h ?s hist ss) = Some (x, r)" "\<And>fd. written fd hist = written fd (ss_sys ss)"
    for x r hist
  proof -
    have "sock_wf ?s" "\<not> s_dw_lock ?s" using slot_ok_active [OF inv_slot [OF inv] act] by simp_all
    then have "ss_pipe x = ss_pipe ss"
      using that(1) force_close_upd [OF act, of 0 h hist ss] by (auto simp: sock_wf_def)
    then show ?thesis using force_close_calm [OF inv refl act that(2,1)] by (simp add: stirred_def)
  qed
  let ?c = "SoError (s_fd ?s) (k_so_error K (ss_sys ss) (s_fd ?s))"
  have u: "call_sys ?c ss = upd h ?s (ss_sys ss @ [?c]) ss" by (rule call_upd)
  have w: "stirred ss ss1" if "send_buffer K h 0 ss res = Some (ty, ss1, res1)" for ty ss1 res1
  proof -
    have "ss_pipe ss1 = ss_pipe ss" using that send_buffer_keeps [OF K(2,3) inv refl act, of res] by auto
    then show ?thesis using send_buffer_moved [OF K(2,3) inv act that] act by (auto simp: stirred_def)
  qed
  consider (rd) "poll_read K h e i (ss, res, m) = Some t"
    | (wr) ty ss1 res1 where "send_buffer K h 0 ss res = Some (ty, ss1, res1)" "turn_state t = ss1"
    | (close) hist x r where "force_close h 0 (upd h ?s hist ss) = Some (x, r)" "turn_state t = x"
        "\<And>fd. written fd hist = written fd (ss_sys ss)"
    | (none) "turn_state t = ss"
  proof -
    consider "e_read e \<or> e_write e \<or> \<not> e_error e \<and> \<not> e_eof e" | "\<not> e_read e" "\<not> e_write e" "e_error e"
      | "\<not> e_read e" "\<not> e_write e" "\<not> e_error e" "e_eof e" by blast
    then show thesis
    proof cases
      case 1
      then show thesis using f rd wr none
        by (auto simp: poll_default_def bind_eq_Some_conv turn_state_def return_type_def split: if_splits)
    next
      case 2
      then obtain x r where "force_close h 0 (call_sys ?c ss) = Some (x, r)" "turn_state t = x"
        using f by (auto simp: poll_default_def poll_error_def Let_def bind_eq_Some_conv turn_state_def)
      then show thesis using close [of "ss_sys ss @ [?c]"] unfolding u by simp
    next
      case 3
      then obtain x r where "force_close h 0 ss = Some (x, r)" "turn_state t = x"
        using f by (auto simp: poll_default_def bind_eq_Some_conv turn_state_def)
      then show thesis using close [of "ss_sys ss"] upd_same [of h ss] by simp
    qed
  qed
  then show ?thesis using poll_read_stirred [OF K(1) a] w cl by cases auto
qed

lemma poll_event_stirred:
  assumes K: "inet_peers K" "write_answers K" "write_bounded K" and inv: "ss_inv ss" and fresh: "id_fresh ss"
    and left: "ss_event_index ss < length (ss_ev ss)" and f: "poll_one_event K (ss, res, m) = Some t"
  shows "stirred ss (turn_state t)"
proof -
  let ?i = "ss_event_index ss"
  let ?e = "ss_ev ss ! ?i" and ?ss = "ss\<lparr>ss_event_index := ?i + 1\<rparr>"
  have inv1: "ss_inv ?ss" by (rule next_event(1) [OF inv left])
  have n: "nth_at (ss_ev ss) ?i = Some ?e" using left by (simp add: nth_at_def)
  have "stirred ?ss (turn_state t)"
  proof (cases "e_s ?e")
    case None
    then show ?thesis using n f by (auto simp: poll_one_event_def Let_def turn_state_def)
  next
    case (Some h)
    let ?s = "ss_slot ss h"
    have a: "at_event ?ss h ?e ?i" using next_event(2) [OF inv left Some] .
    have red: "poll_one_event K (ss, res, m) = (case s_type ?s of
        SOCKET_TYPE_CONNECTING \<Rightarrow> do { (ty, ss2, res2) \<leftarrow> report_connect K h ?ss res; Some (Inl (ty, ss2, res2, m)) }
      | SOCKET_TYPE_LISTEN \<Rightarrow> do { (ok, ss2, res2) \<leftarrow> report_accept K h ?ss res;
          Some (if ok > 0 then Inl (SOCKET_ACCEPT, ss2, res2, m)
                else if ok < 0 then Inl (SOCKET_ERR, ss2, res2, m) else Inr (ss2, res2, m)) }
      | SOCKET_TYPE_INVALID \<Rightarrow> Some (Inr (?ss, res, m))
      | _ \<Rightarrow> poll_default K h ?e ?i (?ss, res, m))"
      using n Some by (simp add: poll_one_event_def Let_def cong: socket_type.case_cong option.case_cong)
    have conn: "stirred ?ss (turn_state t)" if ty: "s_type ?s = SOCKET_TYPE_CONNECTING"
    proof -
      obtain ty ss2 res2 where c: "report_connect K h ?ss res = Some (ty, ss2, res2)" "turn_state t = ss2"
        using f ty unfolding red by (auto simp: bind_eq_Some_conv turn_state_def)
      moreover have "ss_pipe ss2 = ss_pipe ?ss"
        using report_connect_handled [OF inv1, of h ?s K res] ty c(1) handled_pipe by fastforce
      moreover have "calm ?ss ss2" using report_connect_calm [OF inv1 _ c(1)] ty by simp
      ultimately show ?thesis by (simp add: stirred_def)
    qed
    have lis: "stirred ?ss (turn_state t)" if ty: "s_type ?s = SOCKET_TYPE_LISTEN"
    proof -
      obtain ok ss2 res2 where c: "report_accept K h ?ss res = Some (ok, ss2, res2)" "turn_state t = ss2"
        using f ty unfolding red by (auto simp: bind_eq_Some_conv turn_state_def split: if_splits)
      moreover have "id_fresh ?ss" using fresh id_fresh_cong [of ?ss ss] by simp
      then have "ss_pipe ss2 = ss_pipe ?ss"
        using report_accept_handled [OF inv1, of h ?s K res] ty c(1) by fastforce
      moreover have "calm ?ss ss2" using report_accept_calm [OF _ c(1)] ty by simp
      ultimately show ?thesis by (simp add: stirred_def)
    qed
    have def: "stirred ?ss (turn_state t)" if "poll_default K h ?e ?i (?ss, res, m) = Some t"
      using poll_default_stirred [OF K a that] .
    have inval: "stirred ?ss (turn_state t)" if "Some (Inr (?ss, res, m)) = Some t"
      using that by (auto simp: turn_state_def)
    show ?thesis using f conn lis def inval unfolding red by (cases "s_type ?s") simp_all
  qed
  then show ?thesis by (rule data_stirred [rotated]) simp
qed

lemma poll_wait_stirred:
  assumes K: "inet_peers K" "write_answers K" "write_bounded K" "epoll_ok K" and inv: "ss_inv ss" and fresh: "id_fresh ss"
    and f: "poll_wait K (ss, res, m) = Some t"
  shows "stirred ss (turn_state t)"
proof (cases "ss_event_index ss = ss_event_n ss")
  case False
  then have "ss_event_index ss < length (ss_ev ss)" using inv by (simp add: ss_inv_def ss_core_def)
  from poll_event_stirred [OF K(1-3) inv fresh this, of res m t] False f show ?thesis by (simp add: poll_wait_def)
next
  case True
  let ?r = "k_epoll_wait K (ss_sys ss) MAX_EVENT"
  let ?ss = "\<lambda>evs. ss\<lparr>ss_sys := ss_sys ss @ [EpollWait ?r], ss_checkctrl := True, ss_event_index := 0,
    ss_event_n := length evs, ss_ev := evs\<rparr>"
  have d: "same_data ss (?ss evs)" for evs by simp
  show ?thesis
  proof (cases "\<exists>evs. ?r = Inr evs \<and> evs \<noteq> []")
    case False
    then have "turn_state t = ?ss []"
      using f True by (cases ?r; cases "?r = Inl EINTR") (auto simp: poll_wait_def sp_wait_def Let_def turn_state_def split: if_splits)
    then show ?thesis using same_stirred [OF d [of "[]"]] by (simp only: list.size)
  next
    case some: True
    then obtain evs where r: "?r = Inr evs" "evs \<noteq> []" by blast
    let ?ss2 = "?ss (map sp_event evs)"
    have p: "poll_one_event K (?ss2, res, False) = Some t"
      using f True r by (simp add: poll_wait_def sp_wait_def Let_def)
    have "ss_inv ?ss2" using wait_inv [OF K(4) inv r(1)] r(1) by simp
    moreover have "id_fresh ?ss2" using fresh id_fresh_cong [of ?ss2 ss] by simp
    ultimately have "stirred ?ss2 (turn_state t)" using r(2) by (intro poll_event_stirred [OF K(1-3) _ _ _ p]) simp_all
    then show ?thesis by (rule data_stirred [OF d])
  qed
qed

subsection \<open>One connection\<close>

text \<open>The buffers in the pipe for a socket, by priority, in the order of the pipe; datagrams go another way.\<close>

fun packet_high :: "i32 \<Rightarrow> request \<Rightarrow> u8 list list" where
  "packet_high i (ReqD j sz buf) = (if j = i then [payload buf sz] else [])"
| "packet_high i _ = []"

fun packet_low :: "i32 \<Rightarrow> request \<Rightarrow> u8 list list" where
  "packet_low i (ReqP j sz buf) = (if j = i then [payload buf sz] else [])"
| "packet_low i _ = []"

definition pipe_high :: "i32 \<Rightarrow> packet list \<Rightarrow> u8 list list" where
  "pipe_high i ps = concat (map (packet_high i \<circ> snd) ps)"

definition pipe_low :: "i32 \<Rightarrow> packet list \<Rightarrow> u8 list list" where
  "pipe_low i ps = concat (map (packet_low i \<circ> snd) ps)"

fun other_data :: "i32 \<Rightarrow> request \<Rightarrow> bool" where
  "other_data i (ReqA j _ _ _) = (j = i)"
| "other_data i _ = False"

definition plain :: "i32 \<Rightarrow> packet list \<Rightarrow> bool" where
  "plain i ps \<longleftrightarrow> (\<forall>p \<in> set ps. \<not> other_data i (snd p))"

lemma pipe_simps [simp]:
  "pipe_high i [] = []" "pipe_high i (p # ps) = packet_high i (snd p) @ pipe_high i ps"
  "pipe_high i (ps @ qs) = pipe_high i ps @ pipe_high i qs"
  "pipe_low i [] = []" "pipe_low i (p # ps) = packet_low i (snd p) @ pipe_low i ps"
  "pipe_low i (ps @ qs) = pipe_low i ps @ pipe_low i qs"
  by (simp_all add: pipe_high_def pipe_low_def)

text \<open>The connection with id \<open>i\<close> is open, and its descriptor is its own.\<close>

definition live :: "i32 \<Rightarrow> socket_server \<Rightarrow> bool" where
  "live i ss \<longleftrightarrow> (let s = ss_slot ss (HASH_ID i) in s_id s = i \<and> carrying s \<and>
     (\<forall>h. active (ss_slot ss h) \<and> s_fd (ss_slot ss h) = s_fd s \<longrightarrow> h = HASH_ID i))"

definition kept :: "i32 \<Rightarrow> int \<Rightarrow> socket_server \<Rightarrow> bool" where
  "kept i fd ss \<longleftrightarrow> s_fd (ss_slot ss (HASH_ID i)) = fd \<and> plain i (ss_pipe ss)"

text \<open>The slot and the descriptor of the connection.\<close>

definition slot_step :: "i32 \<Rightarrow> int \<Rightarrow> u8 list list \<Rightarrow> u8 list list \<Rightarrow> socket_server \<Rightarrow> socket_server \<Rightarrow> bool" where
  "slot_step i fd addh addl ss ss' \<longleftrightarrow> (let s = ss_slot ss (HASH_ID i); s' = ss_slot ss' (HASH_ID i) in
     s_fd s' = fd \<and> (\<exists>taken. lows s @ addl = taken @ lows s' \<and>
       written fd (ss_sys ss) @ front s @ concat addh @ concat taken = written fd (ss_sys ss') @ front s'))"

lemma slot_stepI:
  assumes "s_fd (ss_slot ss' (HASH_ID i)) = fd" and "front (ss_slot ss' (HASH_ID i)) = front (ss_slot ss (HASH_ID i))"
    and "lows (ss_slot ss' (HASH_ID i)) = lows (ss_slot ss (HASH_ID i))" and "written fd (ss_sys ss') = written fd (ss_sys ss)"
  shows "slot_step i fd [] [] ss ss'"
  using assms unfolding slot_step_def Let_def by (intro conjI exI [of _ "[]"]) simp_all

lemma calm_step:
  assumes "calm ss ss'" and "live i ss" and "kept i fd ss" and "live i ss'"
  shows "slot_step i fd [] [] ss ss'"
  using assms by (intro slot_stepI) (simp_all add: calm_def same_wire_def live_def kept_def Let_def)

lemma quiet_step:
  assumes "quiet_at h ss ss'" and "h \<noteq> HASH_ID i" and "kept i fd ss"
  shows "slot_step i fd [] [] ss ss'"
  using assms by (intro slot_stepI) (simp_all add: quiet_at_def kept_def)

lemma moved_step:
  assumes "moved h addh addl ss ss'" and "active (ss_slot ss h)" and "live i ss" and "kept i fd ss" and "live i ss'"
  shows "slot_step i fd (if h = HASH_ID i then addh else []) (if h = HASH_ID i then addl else []) ss ss'"
proof -
  from assms(1) obtain out where o: "\<And>g. g \<noteq> h \<Longrightarrow> ss_slot ss' g = ss_slot ss g"
    "\<And>f. written f (ss_sys ss') = written f (ss_sys ss) @ (if f = s_fd (ss_slot ss h) then out else [])"
    "carrying (ss_slot ss h) \<and> carrying (ss_slot ss' h) \<longrightarrow>
       s_fd (ss_slot ss' h) = s_fd (ss_slot ss h) \<and>
       (\<exists>taken. lows (ss_slot ss h) @ addl = taken @ lows (ss_slot ss' h) \<and>
          front (ss_slot ss h) @ concat addh @ concat taken = out @ front (ss_slot ss' h))"
    unfolding moved_def by blast
  show ?thesis
  proof (cases "h = HASH_ID i")
    case True
    then have "carrying (ss_slot ss h)" "carrying (ss_slot ss' h)" "s_fd (ss_slot ss h) = fd"
      using assms(3-5) by (simp_all add: live_def kept_def Let_def)
    then show ?thesis using o(2) [of fd] o(3) True unfolding slot_step_def Let_def by auto
  next
    case False
    then have "s_fd (ss_slot ss h) \<noteq> fd" using assms(2-4) by (auto simp: live_def kept_def Let_def)
    then have "slot_step i fd [] [] ss ss'" using o(1,2) False assms(4) by (intro slot_stepI) (simp_all add: kept_def)
    then show ?thesis using False by simp
  qed
qed

text \<open>
  What a step or a run carries on: the buffers \<open>oh\<close> of high and \<open>ol\<close> of low priority leave the pipe and the
  lists, in their orders, and their contents follow, in an interleaving \<open>ord\<close> of both, on what was written
  or was in front before.
\<close>

definition carried :: "i32 \<Rightarrow> int \<Rightarrow> u8 list list \<Rightarrow> u8 list list \<Rightarrow> socket_server \<Rightarrow> socket_server \<Rightarrow> bool" where
  "carried i fd hs ls ss ss' \<longleftrightarrow> (let s = ss_slot ss (HASH_ID i); s' = ss_slot ss' (HASH_ID i) in
     \<exists>oh ol ord. ord \<in> shuffles oh ol \<and>
       pipe_high i (ss_pipe ss) @ hs = oh @ pipe_high i (ss_pipe ss') \<and>
       lows s @ pipe_low i (ss_pipe ss) @ ls = ol @ lows s' @ pipe_low i (ss_pipe ss') \<and>
       written fd (ss_sys ss) @ front s @ concat ord = written fd (ss_sys ss') @ front s')"

lemma append_in_shuffles: "xs @ ys \<in> shuffles xs ys"
  by (induction xs) (auto intro: Cons_in_shuffles_leftI)

lemma shuffles_append:
  "us \<in> shuffles as bs \<Longrightarrow> vs \<in> shuffles cs ds \<Longrightarrow> us @ vs \<in> shuffles (as @ cs) (bs @ ds)"
proof (induction us arbitrary: as bs)
  case (Cons u us)
  from Cons.prems(1) consider as' where "as = u # as'" "us \<in> shuffles as' bs" | bs' where "bs = u # bs'" "us \<in> shuffles as bs'"
    by (auto elim: shufflesE)
  then show ?case
    using Cons.IH Cons.prems(2) by cases (auto intro: Cons_in_shuffles_leftI Cons_in_shuffles_rightI)
qed simp

lemma carried_refl: "carried i fd [] [] ss ss"
  unfolding carried_def Let_def by (intro exI [of _ "[]"]) simp

lemma carried_trans:
  assumes "carried i fd h1 l1 ss ss1" and "carried i fd h2 l2 ss1 ss2"
  shows "carried i fd (h1 @ h2) (l1 @ l2) ss ss2"
proof -
  from assms(1) obtain oh ol ord where a: "ord \<in> shuffles oh ol"
    "pipe_high i (ss_pipe ss) @ h1 = oh @ pipe_high i (ss_pipe ss1)"
    "lows (ss_slot ss (HASH_ID i)) @ pipe_low i (ss_pipe ss) @ l1 = ol @ lows (ss_slot ss1 (HASH_ID i)) @ pipe_low i (ss_pipe ss1)"
    "written fd (ss_sys ss) @ front (ss_slot ss (HASH_ID i)) @ concat ord = written fd (ss_sys ss1) @ front (ss_slot ss1 (HASH_ID i))"
    unfolding carried_def Let_def by blast
  from assms(2) obtain oh2 ol2 ord2 where b: "ord2 \<in> shuffles oh2 ol2"
    "pipe_high i (ss_pipe ss1) @ h2 = oh2 @ pipe_high i (ss_pipe ss2)"
    "lows (ss_slot ss1 (HASH_ID i)) @ pipe_low i (ss_pipe ss1) @ l2 = ol2 @ lows (ss_slot ss2 (HASH_ID i)) @ pipe_low i (ss_pipe ss2)"
    "written fd (ss_sys ss1) @ front (ss_slot ss1 (HASH_ID i)) @ concat ord2 = written fd (ss_sys ss2) @ front (ss_slot ss2 (HASH_ID i))"
    unfolding carried_def Let_def by blast
  have "pipe_high i (ss_pipe ss) @ h1 @ h2 = (oh @ oh2) @ pipe_high i (ss_pipe ss2)"
    using arg_cong [OF a(2), of "\<lambda>x. x @ h2"] b(2) by simp
  moreover have "lows (ss_slot ss (HASH_ID i)) @ pipe_low i (ss_pipe ss) @ l1 @ l2 =
      (ol @ ol2) @ lows (ss_slot ss2 (HASH_ID i)) @ pipe_low i (ss_pipe ss2)"
    using arg_cong [OF a(3), of "\<lambda>x. x @ l2"] b(3) by simp
  moreover have "written fd (ss_sys ss) @ front (ss_slot ss (HASH_ID i)) @ concat (ord @ ord2) =
      written fd (ss_sys ss2) @ front (ss_slot ss2 (HASH_ID i))"
    using arg_cong [OF a(4), of "\<lambda>x. x @ concat ord2"] b(4) by simp
  ultimately show ?thesis using shuffles_append [OF a(1) b(1)] unfolding carried_def Let_def by blast
qed

lemma step_wire:
  assumes "slot_step i fd addh addl ss ss'" and "plain i (ss_pipe ss')"
    and "pipe_high i (ss_pipe ss) @ hs = addh @ pipe_high i (ss_pipe ss')"
    and "pipe_low i (ss_pipe ss) @ ls = addl @ pipe_low i (ss_pipe ss')"
  shows "kept i fd ss' \<and> carried i fd hs ls ss ss'"
proof -
  from assms(1) obtain taken where s: "s_fd (ss_slot ss' (HASH_ID i)) = fd"
    "lows (ss_slot ss (HASH_ID i)) @ addl = taken @ lows (ss_slot ss' (HASH_ID i))"
    "written fd (ss_sys ss) @ front (ss_slot ss (HASH_ID i)) @ concat (addh @ taken) =
       written fd (ss_sys ss') @ front (ss_slot ss' (HASH_ID i))"
    unfolding slot_step_def Let_def by auto
  have "lows (ss_slot ss (HASH_ID i)) @ pipe_low i (ss_pipe ss) @ ls =
      taken @ lows (ss_slot ss' (HASH_ID i)) @ pipe_low i (ss_pipe ss')"
    using arg_cong [OF s(2), of "\<lambda>x. x @ pipe_low i (ss_pipe ss')"] assms(4) by simp
  then have "carried i fd hs ls ss ss'"
    unfolding carried_def Let_def using append_in_shuffles [of addh taken] assms(3) s(3) by blast
  with s(1) assms(2) show ?thesis by (simp add: kept_def)
qed

lemma stirred_wire:
  assumes "stirred ss ss'" and "live i ss" and "kept i fd ss" and "live i ss'"
  shows "kept i fd ss' \<and> carried i fd [] [] ss ss'"
proof -
  have "slot_step i fd [] [] ss ss'"
    using assms(1) calm_step [OF _ assms(2-4)] moved_step [OF _ _ assms(2-4)] unfolding stirred_def by fastforce
  moreover have "ss_pipe ss' = ss_pipe ss" using assms(1) by (simp add: stirred_def)
  ultimately show ?thesis using assms(3) by (intro step_wire) (simp_all add: kept_def)
qed

lemma dec_other: "dec_sending_ref j ss = Some ss' \<Longrightarrow> g \<noteq> HASH_ID j \<Longrightarrow> ss_slot ss' g = ss_slot ss g"
  by (auto simp: dec_sending_ref_def Let_def put_slot_def c_assert_def split: if_splits)

lemma data_step:
  assumes q: "quiet_at (HASH_ID j) ss ss1 \<and> (s_id (ss_slot ss (HASH_ID j)) \<noteq> j \<longrightarrow> calm ss ss1)"
    and d: "dec_sending_ref j ss1 = Some ss'" and j: "j \<noteq> i" and l: "live i ss" "kept i fd ss" "live i ss'"
  shows "slot_step i fd [] [] ss ss'"
proof -
  note dec = dec_sending_ref_calm [OF d]
  have l1: "carrying (ss_slot ss1 (HASH_ID i))" using l(3) dec(3) by (simp add: live_def Let_def)
  have "slot_step i fd [] [] ss ss1"
  proof (cases "HASH_ID j = HASH_ID i")
    case True
    then have "calm ss ss1" using q j l(1) by (simp add: live_def Let_def)
    then show ?thesis using l(1,2) l1 by (intro slot_stepI) (simp_all add: calm_def same_wire_def live_def kept_def Let_def)
  next
    case False
    then show ?thesis using quiet_step [of "HASH_ID j" ss ss1 i fd] q l(2) by simp
  qed
  then show ?thesis using dec(2,5-7) by (simp add: slot_step_def Let_def)
qed

text \<open>Commands without data, and not a close, move nothing.\<close>

fun moves_data :: "request \<Rightarrow> bool" where
  "moves_data (ReqK _ _ _) = True"
| "moves_data (ReqD _ _ _) = True"
| "moves_data (ReqP _ _ _) = True"
| "moves_data (ReqA _ _ _ _) = True"
| "moves_data _ = False"

lemma ctrl_cmd_calm:
  assumes inv: "ss_inv ss" and pipe: "ss_pipe ss = (len, r) # ps" and f: "ctrl_cmd K ss res = Some (ty, ss', res')"
    and n: "\<not> moves_data r"
  shows "calm (pop_pipe ps ss) ss'"
proof -
  note d = ctrl_cmd_def block_readpipe_pop [OF pipe]
  note u = pop_facts [OF inv pipe]
  have o: "s_type (ss_slot ss (HASH_ID j)) = SOCKET_TYPE_RESERVE" if "open_id r = Some j" for j
    using open_reserved(1) [OF inv pipe, of j] that by simp
  show ?thesis
  proof (cases r)
    case (ReqS j q)
    then show ?thesis using f u [of j] start_socket_calm by (simp add: d)
  next
    case (ReqO j port q host)
    then obtain h where "open_socket K j port q h (pop_pipe ps ss) = Some (ty, ss', res')"
      using f by (auto simp: d bind_eq_Some_conv)
    then show ?thesis using o [of j] ReqO open_socket_calm by simp
  qed (use f n add_udp_socket_calm bind_socket_calm listen_socket_calm set_udp_address_calm setopt_socket_calm in
    \<open>auto simp: d bind_eq_Some_conv\<close>)
qed

text \<open>A packet of data, of either priority.\<close>

fun data_req :: "priority \<Rightarrow> i32 \<Rightarrow> int \<Rightarrow> sbuf \<Rightarrow> request" where
  "data_req PRIORITY_HIGH i sz buf = ReqD i sz buf"
| "data_req PRIORITY_LOW i sz buf = ReqP i sz buf"

lemma ctrl_data_moved:
  assumes inv: "ss_inv ss" and pipe: "ss_pipe ss = (len, data_req p i sz buf) # ps"
    and f: "ctrl_cmd K ss res = Some (ty, ss', res')" and id: "s_id (ss_slot ss (HASH_ID i)) = i"
  shows "moved (HASH_ID i) (adds PRIORITY_HIGH p (payload buf sz)) (adds PRIORITY_LOW p (payload buf sz)) (pop_pipe ps ss) ss'"
proof -
  obtain ss1 r2 where s: "send_socket K i buf sz p None (pop_pipe ps ss) res = Some (ty, ss1, r2)"
    "dec_sending_ref i ss1 = Some ss'"
    using f by (cases p) (auto simp: ctrl_cmd_def block_readpipe_pop [OF pipe] bind_eq_Some_conv)
  have "raw_ok buf sz" using pop_facts(3) [OF inv pipe, of i] by (cases p) simp_all
  then have "moved (HASH_ID i) (adds PRIORITY_HIGH p (payload buf sz)) (adds PRIORITY_LOW p (payload buf sz)) (pop_pipe ps ss) ss1"
    using send_socket_moved [OF s(1)] id by simp
  then show ?thesis using dec_sending_ref_calm(2,3,5-7) [OF s(2)] dec_other [OF s(2)] unfolding moved_def by simp
qed

lemma ctrl_cmd_wire:
  assumes K: "write_answers K" "write_bounded K" and inv: "ss_inv ss" and pipe: "ss_pipe ss = (len, r) # ps"
    and f: "ctrl_cmd K ss res = Some (ty, ss', res')" and l: "live i ss" "kept i fd ss" "live i ss'"
  shows "slot_step i fd (packet_high i r) (packet_low i r) ss ss'"
proof -
  let ?ss = "pop_pipe ps ss"
  have plain: "\<not> other_data i r" using l(2) pipe by (simp add: kept_def plain_def)
  have l0: "live i ?ss" "kept i fd ?ss" using l(1,2) pipe by (simp_all add: live_def kept_def plain_def)
  have calm: "calm ?ss ss' \<Longrightarrow> slot_step i fd [] [] ?ss ss'" using calm_step [OF _ l0 l(3)] .
  note d = ctrl_cmd_def block_readpipe_pop [OF pipe]
  note u = pop_facts [OF inv pipe]
  have other: "slot_step i fd [] [] ?ss ss'" if "j \<noteq> i" "send_socket K j buf sz pr addr ?ss res = Some (ty2, ss1, r2)"
    "dec_sending_ref j ss1 = Some ss'" for j buf sz pr addr ty2 ss1 r2
    using data_step [OF send_socket_quiet [OF that(2)] that(3,1) l0 l(3)] .
  have a: "active (ss_slot ?ss (HASH_ID i))" "s_id (ss_slot ss (HASH_ID i)) = i"
    using l0(1) carrying_active by (simp_all add: live_def Let_def)
  have mine: "slot_step i fd (adds PRIORITY_HIGH p (payload buf sz)) (adds PRIORITY_LOW p (payload buf sz)) ?ss ss'"
    if "r = data_req p i sz buf" for p sz buf
    using moved_step [OF ctrl_data_moved [OF inv _ f a(2)] a(1) l0 l(3)] pipe that by simp
  have "slot_step i fd (packet_high i r) (packet_low i r) ?ss ss'"
  proof (cases r)
    case (ReqK j shut q)
    then have c: "close_socket K j shut q ?ss res = Some (ty, ss', res')" using f by (simp add: d)
    have i: "\<not> reserved (ss_slot ?ss) j" using u(2) [of j] ReqK by simp
    then show ?thesis
    proof (cases rule: id_cases)
      case unknown
      then have "ss' = ?ss" using c by (auto simp: close_socket_def Let_def)
      then show ?thesis using calm ReqK by simp
    next
      case known
      then show ?thesis using moved_step [OF close_socket_moved [OF K u(1) i c] _ l0 l(3)] ReqK by simp
    qed
  next
    case (ReqD j sz buf)
    then show ?thesis using f other [of j] mine [of PRIORITY_HIGH sz buf]
      by (cases "j = i") (auto simp: d bind_eq_Some_conv adds_def)
  next
    case (ReqP j sz buf)
    then show ?thesis using f other [of j] mine [of PRIORITY_LOW sz buf]
      by (cases "j = i") (auto simp: d bind_eq_Some_conv adds_def)
  next
    case (ReqA j sz buf addr)
    then have q: "quiet_at (HASH_ID j) ?ss ss'" "s_id (ss_slot ?ss (HASH_ID j)) \<noteq> j \<Longrightarrow> calm ?ss ss'"
      using f send_socket_quiet [of K j buf sz PRIORITY_HIGH "Some addr" ?ss res ty ss' res'] by (simp_all add: d)
    show ?thesis
    proof (cases "HASH_ID j = HASH_ID i")
      case True
      then have "s_id (ss_slot ?ss (HASH_ID j)) \<noteq> j" using l0(1) plain ReqA by (auto simp: live_def Let_def)
      then show ?thesis using q(2) calm ReqA by simp
    next
      case False
      then show ?thesis using quiet_step [OF q(1) False l0(2)] ReqA by simp
    qed
  qed (use calm ctrl_cmd_calm [OF inv pipe f] in simp_all)
  then show ?thesis by (simp add: slot_step_def)
qed

subsection \<open>Requests\<close>

definition issues :: "i32 \<Rightarrow> socket_server \<Rightarrow> socket_server \<Rightarrow> bool" where
  "issues i ss ss' \<longleftrightarrow> calm ss ss' \<and>
     (\<exists>ps. ss_pipe ss' = ss_pipe ss @ ps \<and> plain i ps \<and> pipe_high i ps = [] \<and> pipe_low i ps = [])"

lemma issues_wire:
  assumes "issues i ss ss'" and "live i ss" and "kept i fd ss" and "live i ss'"
  shows "kept i fd ss' \<and> carried i fd [] [] ss ss'"
proof -
  obtain ps where ps: "calm ss ss'" "ss_pipe ss' = ss_pipe ss @ ps" "plain i ps" "pipe_high i ps = []" "pipe_low i ps = []"
    using assms(1) unfolding issues_def by blast
  have "plain i (ss_pipe ss')" using ps(2,3) assms(3) by (auto simp: plain_def kept_def)
  then show ?thesis using ps(2,4,5) by (intro step_wire [OF calm_step [OF ps(1) assms(2-4)]]) simp_all
qed

lemma issues_calm: "calm ss ss' \<Longrightarrow> ss_pipe ss' = ss_pipe ss \<Longrightarrow> issues i ss ss'"
  by (auto simp: issues_def plain_def intro: exI [of _ "[]"])

lemma issues_refl [simp]: "issues i ss ss"
  by (simp add: issues_calm)

lemma issues_request:
  assumes "calm ss ss1" and "ss_pipe ss1 = ss_pipe ss" and "\<not> other_data i r" and "packet_high i r = []"
    and "packet_low i r = []"
  shows "issues i ss (send_request r len ss1)"
  using assms by (auto simp: issues_def plain_def send_request_def calm_def intro: exI [of _ "[(of_nat len, r)]"])

lemma issues_push: "\<not> other_data i r \<Longrightarrow> packet_high i r = [] \<Longrightarrow> packet_low i r = [] \<Longrightarrow> issues i ss (send_request r len ss)"
  by (rule issues_request) simp_all

lemma issues_sys:
  assumes "ss_slot ss1 = ss_slot ss" and "ss_pipe ss1 = ss_pipe ss" and "\<And>fd. written fd (ss_sys ss1) = written fd (ss_sys ss)"
    and "issues i ss1 ss'"
  shows "issues i ss ss'"
  using assms unfolding issues_def calm_def by simp

lemma reserve_pipe: "reserve_id ss = (i, ss') \<Longrightarrow> ss_pipe ss' = ss_pipe ss"
  unfolding reserve_id_def by (drule reserve_loop_spec) auto

lemma issues_reserve:
  assumes "reserve_id ss = (j, ss1)"
  shows "issues i ss ss1" and "issues i ss (call_sys (Close fd) ss1)"
    and "\<not> other_data i r \<Longrightarrow> packet_high i r = [] \<Longrightarrow> packet_low i r = [] \<Longrightarrow> issues i ss (send_request r len ss1)"
proof -
  have c: "calm ss ss1" "ss_pipe ss1 = ss_pipe ss" using reserve_quiet(2) [OF assms] reserve_pipe [OF assms] by simp_all
  then show "issues i ss ss1" "issues i ss (call_sys (Close fd) ss1)" by (simp_all add: issues_calm calm_def)
  show "\<not> other_data i r \<Longrightarrow> packet_high i r = [] \<Longrightarrow> packet_low i r = [] \<Longrightarrow> issues i ss (send_request r len ss1)" using issues_request [OF c] .
qed

lemma connect_issues: "issues i ss (snd (socket_server_connect opaque addr port ss))"
proof -
  obtain j ss1 where r: "reserve_id ss = (j, ss1)" by fastforce
  have "snd (socket_server_connect opaque addr port ss) \<in> {ss, ss1, send_request (ReqO j port opaque addr) (sizeof_open + length addr) ss1}"
    using r by (cases "sint j < 0") (simp_all add: socket_server_connect_def open_request_def Let_def)
  then show ?thesis using issues_reserve(1,3) [OF r] by auto
qed

lemma bind_issues: "issues i ss (snd (socket_server_bind opaque fd ss))"
proof -
  obtain j ss1 where r: "reserve_id ss = (j, ss1)" by fastforce
  have "snd (socket_server_bind opaque fd ss) \<in> {ss1, send_request (ReqB j fd opaque) 16 ss1}"
    using r by (cases "sint j < 0") (simp_all add: socket_server_bind_def)
  then show ?thesis using issues_reserve(1,3) [OF r] by auto
qed

lemma listen_issues:
  assumes K: "resolves K" and f: "socket_server_listen K opaque addr port backlog ss = Some (v, ss')"
  shows "issues i ss ss'"
proof -
  obtain r cs where l: "do_listen K addr port backlog (ss_sys ss) = Some (r, ss_sys ss @ cs)" "list_all harmless cs"
    using do_listen_ok [OF K] by blast
  let ?ss = "ss\<lparr>ss_sys := ss_sys ss @ cs\<rparr>"
  obtain j ss1 where j: "reserve_id ?ss = (j, ss1)" by fastforce
  have "ss' = ?ss \<or> (\<exists>fd. ss' = call_sys (Close fd) ss1 \<or> ss' = send_request (ReqL j fd opaque) 16 ss1)"
    using f l(1) j by (cases r; cases "sint j < 0") (simp_all add: socket_server_listen_def Let_def, blast+)
  then have "issues i ?ss ss'" using issues_reserve [OF j] by auto
  moreover have "written fd (ss_sys ss @ cs) = written fd (ss_sys ss)" for fd using silent_harmless [OF l(2)] .
  ultimately show ?thesis using issues_sys [of ?ss ss i ss'] by simp
qed

lemma udp_issues:
  assumes K: "resolves K" and f: "socket_server_udp K opaque addr port ss = Some (v, ss')"
  shows "issues i ss ss'"
proof -
  let ?f = "if port \<noteq> 0 \<or> addr \<noteq> None then do_bind K addr port (ss_sys ss)
        else (let q = k_socket K (ss_sys ss) AF_INET in
              Some (case q of Inl _ \<Rightarrow> None | Inr fd \<Rightarrow> Some (fd, AF_INET), ss_sys ss @ [OpenSocket AF_INET q]))"
  obtain r cs where l: "?f = Some (r, ss_sys ss @ cs)" "list_all harmless cs"
    using do_bind_ok [OF K, of addr port "ss_sys ss"] by (cases "port \<noteq> 0 \<or> addr \<noteq> None") (auto simp: Let_def)
  let ?ss = "ss\<lparr>ss_sys := ss_sys ss @ cs\<rparr>"
  have w: "written fd (ss_sys ss @ cs) = written fd (ss_sys ss)" for fd using silent_harmless [OF l(2)] .
  show ?thesis
  proof (cases r)
    case None
    then have "ss' = ?ss" using f unfolding socket_server_udp_def l(1) by simp
    then show ?thesis using w by (intro issues_calm calm_sys) simp_all
  next
    case (Some x)
    obtain fd family where x: "x = (fd, family)" by (cases x)
    let ?ss2 = "on_sys (\<lambda>hist. sp_nonblocking hist fd) ?ss"
    obtain j ss1 where j: "reserve_id ?ss2 = (j, ss1)" by fastforce
    have "ss' = call_sys (Close fd) ss1 \<or> ss' = send_request (ReqU j fd family opaque) 24 ss1"
      using f Some x j unfolding socket_server_udp_def l(1) by (cases "sint j < 0") auto
    then have "issues i ?ss2 ss'" using issues_reserve [OF j] by auto
    then show ?thesis using w issues_sys [of ?ss2 ss i ss'] by (simp add: on_sys_def sp_nonblocking_def)
  qed
qed

lemma send_later_issues:
  assumes f: "send_later req j buf sz ss = Some (v, ss')"
  shows "calm ss ss'" and "ss_pipe ss' = ss_pipe ss @ [(16, req j sz buf)]"
proof -
  obtain s where s: "inc_sending_ref j (ss_slot ss (HASH_ID j)) = Some s"
    "ss' = send_request (req j sz buf) 16 (put_slot (HASH_ID j) s ss)"
    using f by (auto simp: send_later_def Let_def bind_eq_Some_conv)
  have "same_wire (ss_slot ss (HASH_ID j)) s" using s(1) wire_fields(6) by (auto simp: inc_sending_ref_def split: if_splits)
  then show "calm ss ss'" using s(2) by (simp add: calm_def send_request_def put_slot_def)
  show "ss_pipe ss' = ss_pipe ss @ [(16, req j sz buf)]" using s(2) by (simp add: send_request_def put_slot_def)
qed

lemma send_later_wire:
  assumes f: "send_later (data_req p) j buf sz ss = Some (v, ss')" and l: "live i ss" "kept i fd ss" "live i ss'"
  shows "kept i fd ss' \<and> carried i fd (if j = i then adds PRIORITY_HIGH p (payload buf sz) else [])
    (if j = i then adds PRIORITY_LOW p (payload buf sz) else []) ss ss'"
proof -
  from send_later_issues [OF f] have c: "calm ss ss'" "ss_pipe ss' = ss_pipe ss @ [(16, data_req p j sz buf)]" .
  have "plain i (ss_pipe ss')" using c(2) l(2) by (cases p) (auto simp: plain_def kept_def)
  then show ?thesis using c(2) by (intro step_wire [OF calm_step [OF c(1) l]]) (cases p; simp add: adds_def)+
qed

lemma send_low_wire:
  assumes f: "socket_server_send_lowpriority j buf sz ss = Some (v, ss')" and l: "live i ss" "kept i fd ss" "live i ss'"
  shows "kept i fd ss' \<and> carried i fd [] (if j = i then [payload buf sz] else []) ss ss'"
proof (cases "known j ss")
  case False
  then have "ss_slot ss' = ss_slot ss \<and> ss_pipe ss' = ss_pipe ss \<and> (\<forall>fd. written fd (ss_sys ss') = written fd (ss_sys ss))"
    using f by (auto simp: socket_server_send_lowpriority_def known_def free_buffer_def free_func_def Let_def bind_eq_Some_conv)
  moreover have "j \<noteq> i" using False l(1) by (auto simp: known_def live_def carrying_def Let_def)
  ultimately show ?thesis using issues_wire [OF issues_calm l] by (simp add: calm_sys)
next
  case True
  have r: "ReqP = data_req PRIORITY_LOW" by (intro ext) simp
  have "send_later (data_req PRIORITY_LOW) j buf sz ss = Some (v, ss')"
    using f True by (simp add: socket_server_send_lowpriority_def known_def Let_def r)
  from send_later_wire [OF this l] show ?thesis by (cases "j = i") (simp_all add: adds_def)
qed

text \<open>A direct write happens only when nothing is queued anywhere.\<close>

lemma direct_write_moved:
  assumes K: "write_bounded K" and inv: "ss_inv ss" and c: "can_direct_write j (ss_slot ss (HASH_ID j))" and raw: "raw_ok buf sz"
    and whole: "sendto_whole K j (payload buf sz) ss"
    and f: "direct_write K j buf sz (put_slot (HASH_ID j) ((ss_slot ss (HASH_ID j))\<lparr>s_dw_lock := True\<rparr>) ss) = Some (v, ss')"
  shows "moved (HASH_ID j) [payload buf sz] [] ss ss'" and "ss_pipe ss' = ss_pipe ss"
proof -
  define h where "h = HASH_ID j"
  define s where "s = ss_slot ss h"
  have act: "active s" using can_direct_active [OF c] by (simp add: s_def h_def)
  have ok: "sock_wf s" "\<not> s_dw_lock s" using slot_ok_active [OF inv_slot [OF inv]] act by (simp_all add: s_def)
  have e: "s_high s = []" "s_low s = []" "s_dw_buffer s = None"
    using c by (simp_all add: s_def h_def can_direct_write_def nomore_sending_data_def send_buffer_empty_def)
  have "moved h [payload buf sz] [] ss ss' \<and> ss_pipe ss' = ss_pipe ss"
  proof (cases "s_protocol s = PROTOCOL_TCP")
    case True
    let ?xs = "payload buf sz"
    define r where "r = k_write K (ss_sys ss) (s_fd s) ?xs"
    have ss': "ss' = upd h (written_direct (ss_time ss) buf sz r s) (ss_sys ss @ Write (s_fd s) ?xs r # direct_end s h buf sz r) ss"
      using f direct_write_tcp [of ss j s buf sz K r] True ok(2) raw by (simp add: h_def s_def r_def)
    let ?n = "case r of Inl _ \<Rightarrow> 0 | Inr n \<Rightarrow> n"
    have n: "?n \<le> length ?xs" using K unfolding write_bounded_def r_def by (auto split: sum.split)
    have len: "int (length ?xs) = sz" using raw by simp
    have tk: "taken ?xs r = take ?n ?xs" by (auto simp: taken_def split: sum.split)
    have st: "front (written_direct (ss_time ss) buf sz r s) = drop ?n ?xs"
    proof (cases "int ?n = sz")
      case True
      then show ?thesis using e len by (simp add: written_direct_def Let_def front_def dw_rest_def stat_write_def)
    next
      case False
      then show ?thesis using e by (simp add: written_direct_def Let_def front_def dw_rest_def stat_write_def payload_def)
    qed
    have w: "written fd (ss_sys ss') = written fd (ss_sys ss) @ (if fd = s_fd s then take ?n ?xs else [])" for fd
      unfolding ss' by (auto simp: direct_end_def tk)
    have s0: "front s = []" "lows s = []" using e by (simp_all add: front_def lows_def dw_rest_def)
    have "s_fd (written_direct (ss_time ss) buf sz r s) = s_fd s" "lows (written_direct (ss_time ss) buf sz r s) = []"
      using e by (simp_all add: written_direct_def Let_def stat_write_def lows_def)
    then show ?thesis unfolding moved_def using w s0 st
      by (intro conjI exI [of _ "take ?n ?xs"]) (simp_all add: ss' s_def)
  next
    case False
    have c': "can_direct_write j s" using c by (simp add: s_def h_def)
    from direct_write_udp [OF _ False ok(2,1) raw c' whole] obtain s' hist where
      "ss' = upd h s' hist ss" "still (ss_sys ss) hist" using f by (auto simp: s_def h_def)
    then show ?thesis using False by (auto simp: moved_def still_def s_def intro: exI [of _ "[]"])
  qed
  then show "moved (HASH_ID j) [payload buf sz] [] ss ss'" "ss_pipe ss' = ss_pipe ss" by (simp_all add: h_def)
qed

lemma no_pending_data: "pending i ps = 0 \<Longrightarrow> pipe_high i ps = []"
proof (induction ps)
  case (Cons p ps)
  then show ?case by (cases "snd p") (auto split: if_splits)
qed simp

lemma idle_pipe:
  assumes inv: "ss_inv ss" and c: "can_direct_write i (ss_slot ss (HASH_ID i))" and p: "s_protocol (ss_slot ss (HASH_ID i)) = PROTOCOL_TCP"
  shows "pipe_high i (ss_pipe ss) = []"
proof -
  let ?s = "ss_slot ss (HASH_ID i)"
  have id: "s_id ?s = i" and n: "s_sending ?s AND 0xffff = 0"
    using c by (simp_all add: can_direct_write_def nomore_sending_data_def)
  have "pending i (ss_pipe ss) \<le> in_flight ?s" using inv_pending [OF inv p] id by simp
  moreover have "in_flight ?s = 0" using n by (simp add: low16 in_flight_def)
  ultimately show ?thesis by (intro no_pending_data) simp
qed

lemma send_wire:
  assumes K: "write_bounded K" and inv: "ss_inv ss" and raw: "raw_ok buf sz" and whole: "sendto_whole K j (payload buf sz) ss"
    and f: "socket_server_send K j buf sz ss = Some (v, ss')" and l: "live i ss" "kept i fd ss" "live i ss'"
  shows "kept i fd ss' \<and> carried i fd (if j = i then [payload buf sz] else []) [] ss ss'"
proof -
  let ?h = "HASH_ID j" and ?s = "ss_slot ss (HASH_ID j)"
  have li: "s_id (ss_slot ss (HASH_ID i)) = i" "carrying (ss_slot ss (HASH_ID i))" using l(1) by (simp_all add: live_def Let_def)
  have plain: "plain i (ss_pipe ss)" using l(2) by (simp add: kept_def)
  show ?thesis
  proof (cases "known j ss")
    case False
    then have "j \<noteq> i" using li by (auto simp: known_def carrying_def)
    have "ss_slot ss' = ss_slot ss \<and> ss_pipe ss' = ss_pipe ss \<and> (\<forall>fd. written fd (ss_sys ss') = written fd (ss_sys ss))"
      using False f raw by (auto simp: socket_server_send_def known_def free_buffer_def free_func_def Let_def)
    then show ?thesis using \<open>j \<noteq> i\<close> issues_wire [OF issues_calm l] by (simp add: calm_sys)
  next
    case kn: True
    show ?thesis
    proof (cases "can_direct_write j ?s")
      case False
      have r: "ReqD = data_req PRIORITY_HIGH" by (intro ext) simp
      have "send_later (data_req PRIORITY_HIGH) j buf sz ss = Some (v, ss')"
        using False kn f by (simp add: socket_server_send_def known_def Let_def r)
      from send_later_wire [OF this l] show ?thesis by (cases "j = i") (simp_all add: adds_def)
    next
      case True
      have "\<not> s_dw_lock ?s" using inv_slot [OF inv] by (simp add: slot_ok_def)
      then have d: "direct_write K j buf sz (put_slot ?h (?s\<lparr>s_dw_lock := True\<rparr>) ss) = Some (v, ss')"
        using f True kn by (simp add: socket_server_send_def known_def Let_def socket_trylock_def can_direct_write_def
          nomore_sending_data_def send_buffer_empty_def put_slot_def)
      note m = direct_write_moved [OF K inv True raw whole d]
      have act: "active ?s" using can_direct_active [OF True] by simp
      have st: "slot_step i fd (if j = i then [payload buf sz] else []) [] ss ss'"
      proof (cases "j = i")
        case False
        then have "?h \<noteq> HASH_ID i" using li(1) True by (auto simp: can_direct_write_def)
        then show ?thesis using moved_step [OF m(1) act l] False by simp
      qed (use moved_step [OF m(1) act l] in simp)
      have "pipe_high i (ss_pipe ss) = []" if "j = i"
        using idle_pipe [OF inv] True that li(2) by (simp add: carrying_def)
      then show ?thesis using m(2) plain by (intro step_wire [OF st]) (cases "j = i"; simp)+
    qed
  qed
qed

lemma udp_send_issues:
  assumes inv: "ss_inv ss" and raw: "raw_ok buf sz" and addr: "addr_ok addr" and j: "j \<noteq> i"
    and f: "socket_server_udp_send K j addr buf sz ss = Some (v, ss')"
  shows "issues i ss ss'"
proof -
  let ?h = "HASH_ID j" and ?s = "ss_slot ss (HASH_ID j)"
  have later: "issues i ss (send_request (ReqA j sz buf a) n x)" if "calm ss x" "ss_pipe x = ss_pipe ss" for a n x
    using that j by (intro issues_request) simp_all
  show ?thesis
  proof (cases "known j ss \<and> udp_addrsz addr \<noteq> None")
    case False
    then have "socket_server_udp_send K j addr buf sz ss = Some (- 1, free_func False (b_ptr buf) ss)"
      using raw by (auto simp: socket_server_udp_send_def known_def free_buffer_def Let_def)
    then have "ss' = free_func False (b_ptr buf) ss" using f by simp
    then show ?thesis by (simp add: free_func_def issues_calm calm_sys)
  next
    case True
    then obtain n where n: "udp_addrsz addr = Some n" and kn: "known j ss" by auto
    note rd = udp_addrsz_ok(1) [OF addr n]
    show ?thesis
    proof (cases "can_direct_write j ?s")
      case False
      then have "ss' = send_request (ReqA j sz buf (take n addr)) (16 + n) ss"
        using f kn n rd by (simp add: socket_server_udp_send_def known_def Let_def)
      then show ?thesis using later [of ss] by simp
    next
      case direct: True
      have l: "\<not> s_dw_lock ?s" using inv_slot [OF inv] by (simp add: slot_ok_def)
      have lk: "?s\<lparr>s_dw_lock := False\<rparr> = ?s" using l by (cases ?s) simp
      have wire: "same_wire ?s ((stat_write now m (?s\<lparr>s_dw_lock := True\<rparr>))\<lparr>s_dw_lock := False\<rparr>)" for now m
        using l by (simp add: same_wire_def stat_write_def)
      obtain sa where sa: "udp_socket_address ?s addr = Some sa" using udp_socket_address_ok [OF addr] by blast
      note d = socket_server_udp_send_def known_def Let_def socket_trylock_def socket_unlock_def put_upd
      show ?thesis
      proof (cases sa)
        case None
        then have "ss' = upd ?h ?s (ss_sys ss @ [Free (b_ptr buf)]) ss"
          using f kn n direct l sa raw by (simp add: d lk)
        then show ?thesis by (simp add: issues_calm calm_upd)
      next
        case (Some a)
        let ?xs = "payload buf sz"
        let ?r = "k_sendto K (ss_sys ss) (s_fd ?s) ?xs a"
        show ?thesis
        proof (cases ?r)
          case (Inl e)
          let ?ss2 = "upd ?h ?s (ss_sys ss @ [Sendto (s_fd ?s) ?xs a (Inl e)]) ss"
          have "ss' = send_request (ReqA j sz buf (take n addr)) (16 + n) ?ss2"
            using f kn n direct l sa Some Inl raw rd by (simp add: d lk)
          moreover have "calm ss ?ss2" by (intro calm_upd) simp_all
          ultimately show ?thesis using later [of ?ss2] by simp
        next
          case (Inr m)
          then have "ss' = upd ?h ((stat_write (ss_time ss) (int m) (?s\<lparr>s_dw_lock := True\<rparr>))\<lparr>s_dw_lock := False\<rparr>)
              (ss_sys ss @ [Sendto (s_fd ?s) ?xs a (Inr m), Free (b_ptr buf)]) ss"
            using f kn n direct l sa Some raw by (simp add: d)
          then show ?thesis using wire by (simp add: issues_calm calm_upd)
        qed
      qed
    qed
  qed
qed

lemma udp_connect_issues:
  assumes f: "socket_server_udp_connect K j addr port ss = Some (v, ss')"
  shows "issues i ss ss'"
proof (cases "known j ss")
  case False
  then show ?thesis using f by (auto simp: socket_server_udp_connect_def known_def Let_def)
next
  case True
  let ?h = "HASH_ID j" and ?s = "ss_slot ss (HASH_ID j)"
  let ?r = "k_getaddrinfo K (ss_sys ss) addr port"
  let ?s' = "?s\<lparr>s_udpconnecting := s_udpconnecting ?s + 1, s_dw_lock := False\<rparr>"
  define ss1 where "ss1 = upd ?h ?s' (ss_sys ss @ [Getaddrinfo addr port ?r]) ss"
  have "same_wire ?s ?s'" by (simp add: same_wire_def)
  then have c: "calm ss ss1" unfolding ss1_def by (intro calm_upd) simp_all
  have "ss' = ss1 \<or> (\<exists>bs. ss' = send_request (ReqC j bs) (5 + length bs) ss1)"
    using f True
    by (cases ?r) (auto simp: socket_server_udp_connect_def known_def Let_def socket_lock_def socket_unlock_def put_upd ss1_def
      bind_eq_Some_conv split: if_splits list.splits)
  then show ?thesis using c issues_request [OF c, of i] issues_calm [OF c] by (auto simp: ss1_def)
qed

subsection \<open>Runs\<close>

text \<open>What an action sends on a socket with each priority, and whether it is no datagram for it.\<close>

fun sent_high :: "i32 \<Rightarrow> action \<Rightarrow> u8 list list" where
  "sent_high i (Sending j buf sz) = (if j = i then [payload buf sz] else [])"
| "sent_high i _ = []"

fun sent_low :: "i32 \<Rightarrow> action \<Rightarrow> u8 list list" where
  "sent_low i (SendingLow j buf sz) = (if j = i then [payload buf sz] else [])"
| "sent_low i _ = []"

fun sends_plainly :: "i32 \<Rightarrow> action \<Rightarrow> bool" where
  "sends_plainly i (UdpSend j addr buf sz) = (j \<noteq> i)"
| "sends_plainly i _ = True"

lemma act_wire:
  assumes K: "system_ok K" and inv: "ss_inv ss" and legal: "legal K a ss" and f: "act K a ss = Some ss'"
    and l: "live i ss" "kept i fd ss" "live i ss'" and pl: "sends_plainly i a"
  shows "kept i fd ss' \<and> carried i fd (sent_high i a) (sent_low i a) ss ss'"
proof -
  have k: "write_bounded K" "write_answers K" "inet_peers K" "epoll_ok K" "resolves K"
    using K by (simp_all add: system_ok_def)
  have iss: "kept i fd ss' \<and> carried i fd [] [] ss ss'" if "issues i ss ss'" using issues_wire [OF that l] .
  show ?thesis
  proof (cases a)
    case (Turn res m)
    then obtain t where t: "poll_turn K (ss, res, m) = Some t" "ss' = turn_state t" using f by auto
    have fresh: "id_fresh ss" using legal Turn by simp
    show ?thesis
    proof (cases "ss_checkctrl ss \<and> has_cmd K ss")
      case True
      then obtain p ps where pipe: "ss_pipe ss = p # ps" by (cases "ss_pipe ss") (auto simp: has_cmd_def)
      obtain len r where p: "p = (len, r)" by (cases p)
      from ctrl_cmd_keeps [OF k(2,1) inv pipe] obtain ty ss1 res' where
        c: "ctrl_cmd K ss res = Some (ty, ss1, res')" "keeps ty res' (pop_pipe ps ss) ss1" by blast
      have "ss' = clear_closed_event ty res' ss1 \<or> ss' = ss1"
        using t True c(1) by (auto simp: poll_turn_def split: if_splits)
      then have d: "same_data ss1 ss'" by (auto simp: same_data_def clear_closed_event_def)
      then have l1: "live i ss1" using l(3) by (simp add: same_data_def live_def)
      have "slot_step i fd (packet_high i r) (packet_low i r) ss ss'"
        using ctrl_cmd_wire [OF k(2,1) inv pipe [unfolded p] c(1) l(1,2) l1] d by (simp add: slot_step_def same_data_def)
      moreover have "ss_pipe ss' = ps" using c(2) d by (simp add: keeps_def same_data_def)
      moreover have "plain i ps" using l(2) pipe by (simp add: kept_def plain_def)
      ultimately show ?thesis
        using step_wire [of i fd "packet_high i r" "packet_low i r" ss ss' "[]" "[]"] pipe p Turn by simp
    next
      case False
      let ?ss = "ss\<lparr>ss_checkctrl := False\<rparr>"
      have i2: "ss_inv ?ss" using inv by (simp add: ss_inv_def ss_core_def events_left_def)
      have f2: "id_fresh ?ss" using fresh id_fresh_cong [of ?ss ss] by simp
      have "stirred ss ss'"
      proof (cases "ss_checkctrl ss")
        case True
        then have "poll_wait K (?ss, res, m) = Some t" using t(1) False by (simp add: poll_turn_def)
        from poll_wait_stirred [OF k(3,2,1,4) i2 f2 this] show ?thesis using t(2) data_stirred [of ss ?ss] by simp
      next
        case nc: False
        then have "poll_wait K (ss, res, m) = Some t" using t(1) by (simp add: poll_turn_def)
        from poll_wait_stirred [OF k(3,2,1,4) inv fresh this] show ?thesis using t(2) by simp
      qed
      from stirred_wire [OF this l] show ?thesis using Turn by simp
    qed
  next
    case (Sending j buf sz)
    then obtain v where s: "socket_server_send K j buf sz ss = Some (v, ss')" using f by auto
    show ?thesis using send_wire [OF k(1) inv _ _ s l] legal Sending by simp
  next
    case (SendingLow j buf sz)
    then show ?thesis using send_low_wire [OF _ l, of j buf sz] f by auto
  next
    case (UdpSend j addr buf sz)
    then show ?thesis using iss f pl legal udp_send_issues [OF inv, of buf sz addr j i K _ ss'] by auto
  next
    case (UdpConnect j addr port)
    then show ?thesis using iss f udp_connect_issues [of K j addr port ss _ ss' i] by auto
  next
    case (Listening q addr port backlog)
    then show ?thesis using iss f listen_issues [OF k(5), of q addr port backlog ss _ ss' i] by auto
  next
    case (Udp q addr port)
    then show ?thesis using iss f udp_issues [OF k(5), of q addr port ss _ ss' i] by auto
  next
    case (Time now)
    then have "ss_slot ss' = ss_slot ss \<and> ss_sys ss' = ss_sys ss \<and> ss_pipe ss' = ss_pipe ss"
      using f by (auto simp: socket_server_updatetime_def)
    then show ?thesis using Time iss [OF issues_calm] by (simp add: calm_sys)
  qed (use iss f connect_issues [of i] bind_issues [of i] issues_push [of i] in
    \<open>auto simp: socket_server_close_def socket_server_shutdown_def socket_server_start_def socket_server_nodelay_def
      socket_server_exit_def\<close>)
qed

text \<open>The connection stays open during a run.\<close>

fun live_run :: "kernel \<Rightarrow> i32 \<Rightarrow> action list \<Rightarrow> socket_server \<Rightarrow> bool" where
  "live_run K i [] ss = live i ss"
| "live_run K i (a # as) ss = (live i ss \<and> (case act K a ss of None \<Rightarrow> False | Some ss' \<Rightarrow> live_run K i as ss'))"

lemma run_wire:
  assumes K: "system_ok K"
  shows "ss_inv ss \<Longrightarrow> legal_run K as ss \<Longrightarrow> live_run K i as ss \<Longrightarrow> kept i fd ss \<Longrightarrow> list_all (sends_plainly i) as \<Longrightarrow>
    socket_run K as ss = Some ss' \<Longrightarrow>
    kept i fd ss' \<and> carried i fd (concat (map (sent_high i) as)) (concat (map (sent_low i) as)) ss ss'"
proof (induction as arbitrary: ss)
  case Nil
  then show ?case using carried_refl by simp
next
  case (Cons a as)
  then obtain ss1 where a: "act K a ss = Some ss1" "legal K a ss" "legal_run K as ss1" "live i ss" "live_run K i as ss1"
    by (auto split: option.splits)
  have l1: "live i ss1" using a(5) by (cases as) (auto split: option.splits)
  have w: "kept i fd ss1 \<and> carried i fd (sent_high i a) (sent_low i a) ss ss1"
    using Cons.prems(4,5) by (intro act_wire [OF K Cons.prems(1) a(2,1,4) _ l1]) simp_all
  have "ss_inv ss1" using act_ok [OF K Cons.prems(1) a(2)] a(1) by auto
  then have "kept i fd ss' \<and> carried i fd (concat (map (sent_high i) as)) (concat (map (sent_low i) as)) ss1 ss'"
    using Cons.IH [of ss1] w a(1,3,5) Cons.prems(5,6) by simp
  then show ?case using carried_trans w by fastforce
qed

text \<open>
  Property C10.
  As long as a connection stays open, and whatever is sent on it with \<open>socket_server_send\<close> and
  \<open>socket_server_send_lowpriority\<close> (the second hazard apart, see \<open>short\<close>, and data ahead of a connect): what was
  in the pipe and the low priority list at the start, followed by the data of all sends, each priority
  for itself and in its order, is what has left (\<open>oh\<close> and \<open>ol\<close>) followed by what is still there. What
  has left are whole buffers, and their contents, in some interleaving of the two orders, are exactly the
  bytes that were written or wait in front (the rest of a direct write, and the high list) at the end and
  not at the start: nothing is lost, repeated, reordered within a priority, or mixed into another buffer,
  whether a send was written at once, in part, or queued; a low priority buffer that was written in part
  goes on before anything else. What other sockets and threads do in between does not matter.
\<close>

theorem sends_stay_in_order:
  assumes "system_ok K" and "reached K ss" and "legal_run K as ss" and "live_run K i as ss" and "kept i fd ss"
    and "list_all (sends_plainly i) as" and "socket_run K as ss = Some ss'"
  shows "let s = ss_slot ss (HASH_ID i); s' = ss_slot ss' (HASH_ID i) in
    \<exists>oh ol ord. ord \<in> shuffles oh ol \<and>
      pipe_high i (ss_pipe ss) @ concat (map (sent_high i) as) = oh @ pipe_high i (ss_pipe ss') \<and>
      lows s @ pipe_low i (ss_pipe ss) @ concat (map (sent_low i) as) = ol @ lows s' @ pipe_low i (ss_pipe ss') \<and>
      written fd (ss_sys ss) @ front s @ concat ord = written fd (ss_sys ss') @ front s'"
  using run_wire [OF assms(1) reached_inv [OF assms(1,2)] assms(3-7)] unfolding carried_def by blast

text \<open>The instance: five bytes are sent directly in part, ten more with low priority; one of the two buffers goes
  to the high list, the other to the low list, and is in part written from there.\<close>

definition small_sends :: "action list" where
  "small_sends = [Sending 1 hello 5, SendingLow 1 hello 5, SendingLow 1 hello 5, Turn (answer 0 0 0 DNull) False,
     Turn (answer 0 0 0 DNull) False, Turn (answer 0 0 0 DNull) False, Turn (answer 0 0 0 DNull) False]"

definition small_connection :: socket_server where
  "small_connection = \<lparr>ss_time = 0, ss_recvctrl_fd = 3, ss_sendctrl_fd = 4, ss_checkctrl = True, ss_event_fd = 5,
     ss_alloc_id = 1, ss_event_n = 0, ss_event_index = 0, ss_soi = None, ss_ev = [],
     ss_slot = (\<lambda>i. zero_sock)(1 := zero_sock\<lparr>s_opaque := 9, s_fd := 7, s_id := 1, s_protocol := PROTOCOL_TCP,
       s_type := SOCKET_TYPE_CONNECTED, s_p := PSize MIN_READ_BUFFER\<rparr>),
     ss_buffer = [], ss_pipe = [],
     ss_sys = [EpollAdd 3 None True, Getaddrinfo [104] 80 (Inr [V4 [0, 80] [127, 0, 0, 1]]),
       OpenSocket AF_INET (Inr 7), Keepalive 7, Nonblocking 7, sys.Connect 7 (V4 [0, 80] [127, 0, 0, 1]) None,
       EpollAdd 7 (Some 1) True]\<rparr>"

lemma small_connected: "socket_run small_system small_opening small_server = Some small_connection"
  unfolding small_opening_def socket_run.simps
  by (simp add: small_state small_open small_connection_def)

lemmas small_flush = live_def carrying_def active_def zero_sock_def small_connection_def kept_def plain_def
  poll_wait_def sp_wait_def poll_one_event_def nth_at_def sp_event_def MAX_EVENT_def poll_default_def send_buffer_def take_dw_def
  send_buffer_lists_def list_uncomplete_def raise_uncomplete_def check_close_def send_list_def stat_write_def registered_def
  write_buffer_free_def sp_write_def send_later_def inc_sending_ref_def return_type_def send_socket_def send_empty_def
  send_queued_def append_sendbuffer_def append_sendbuffer_to_def send_warning_def dec_sending_ref_def
  WARNING_SIZE_def append_sendbuffer_low_def socket_server_send_lowpriority_def

lemma small_sends_live: "live_run small_system 1 small_sends small_connection"
  unfolding small_sends_def live_run.simps
  by (simp add: small_state small_open small_send small_flush,
    simp add: small_state small_open small_send small_flush send_list_tcp.simps)

lemma small_next_id: "HASH_ID 2 = 2" "next_id 1 = 2"
  by (simp_all add: HASH_ID_def MAX_SOCKET_def next_id_def)

lemma small_sends_legal: "legal_run small_system small_sends small_connection"
  unfolding small_sends_def legal_run.simps
  by (simp add: id_fresh_def reserve_first [of _ 2] small_next_id small_state small_open small_send small_flush,
    simp add: id_fresh_def reserve_first [of _ 2] small_next_id small_state small_open small_send small_flush send_list_tcp.simps)

theorem sends_stay_in_order_witness:
  "\<exists>ss. socket_run small_system small_sends small_connection = Some ss \<and> (\<exists>oh ol ord. ord \<in> shuffles oh ol \<and>
     [b_bytes hello] = oh @ pipe_high 1 (ss_pipe ss) \<and>
     [b_bytes hello, b_bytes hello] = ol @ lows (ss_slot ss 1) @ pipe_low 1 (ss_pipe ss) \<and>
     concat ord = written 7 (ss_sys ss) @ front (ss_slot ss 1))"
proof -
  have r: "reached small_system small_connection" using small_connected by (rule small_reached)
  obtain ss where ss: "socket_run small_system small_sends small_connection = Some ss"
    using socket_run_inv [OF small_system_ok reached_inv [OF small_system_ok r] small_sends_legal] by blast
  have "kept 1 7 small_connection"
    by (simp add: kept_def plain_def small_connection_def small_id zero_sock_def)
  moreover have "list_all (sends_plainly 1) small_sends" by (simp add: small_sends_def)
  ultimately have "let s = ss_slot small_connection (HASH_ID 1); s' = ss_slot ss (HASH_ID 1) in
    \<exists>oh ol ord. ord \<in> shuffles oh ol \<and>
      pipe_high 1 (ss_pipe small_connection) @ concat (map (sent_high 1) small_sends) = oh @ pipe_high 1 (ss_pipe ss) \<and>
      lows s @ pipe_low 1 (ss_pipe small_connection) @ concat (map (sent_low 1) small_sends) =
        ol @ lows s' @ pipe_low 1 (ss_pipe ss) \<and>
      written 7 (ss_sys small_connection) @ front s @ concat ord = written 7 (ss_sys ss) @ front s'"
    by (rule sends_stay_in_order [OF small_system_ok r small_sends_legal small_sends_live _ _ ss])
  moreover have "pipe_high 1 (ss_pipe small_connection) = []" "pipe_low 1 (ss_pipe small_connection) = []"
    "lows (ss_slot small_connection 1) = []" "front (ss_slot small_connection 1) = []"
    "written 7 (ss_sys small_connection) = []" "concat (map (sent_high 1) small_sends) = [b_bytes hello]"
    "concat (map (sent_low 1) small_sends) = [b_bytes hello, b_bytes hello]"
    by (simp_all add: small_connection_def zero_sock_def front_def lows_def dw_rest_def small_sends_def payload_def hello_def)
  ultimately show ?thesis using ss by (simp add: small_id Let_def)
qed

end
