(* ===== verification/SocketClose.thy ===== *)
theory SocketClose
  imports SocketWire
begin

section \<open>Closing a connection\<close>

text \<open>
  A graceful close writes everything first.
\<close>

subsection \<open>A graceful close\<close>

lemma send_buffer_close:
  assumes K: "write_answers K" "write_bounded K" and inv: "ss_inv ss" and s: "active (ss_slot ss h)"
    "s_protocol (ss_slot ss h) = PROTOCOL_TCP" and f: "send_buffer K h 0 ss res = Some (ty, ss', res')"
  shows "\<exists>out s1 hist. ss' = upd h s1 hist ss \<and>
    written (s_fd (ss_slot ss h)) hist = written (s_fd (ss_slot ss h)) (ss_sys ss) @ out \<and>
    (if ty = SOCKET_CLOSE then fatal (s_fd (ss_slot ss h)) (ss_sys ss) hist \<or> out = stream (ss_slot ss h)
     else stream (ss_slot ss h) = out @ stream s1 \<and> ss_inv ss' \<and> active s1 \<and> s_fd s1 = s_fd (ss_slot ss h))"
proof -
  obtain s' hist where b: "ss' = upd h s' hist ss" "buffer_sent 0 (ss_slot ss h) (ss_sys ss) ty s' hist res'"
    using send_buffer_keeps [OF K inv refl s(1), of res] f by auto
  note k = buffer_sent_keeps(2) [OF inv refl s(1) b(2)]
  obtain out s1 where o: "flushed out (ss_slot ss h) s1" "wrote (s_fd (ss_slot ss h)) out (ss_sys ss) hist"
    "ty \<noteq> SOCKET_CLOSE \<Longrightarrow> s' = s1"
    "ty = SOCKET_CLOSE \<Longrightarrow> fatal (s_fd (ss_slot ss h)) (ss_sys ss) hist \<or> stream s1 = []"
    using b(2) unfolding buffer_sent_def by auto
  have st: "stream (ss_slot ss h) = out @ stream s1" using flushed_stream [OF o(1) s(2)] .
  have w: "written (s_fd (ss_slot ss h)) hist = written (s_fd (ss_slot ss h)) (ss_sys ss) @ out"
    using o(2) by (simp add: wrote_def)
  show ?thesis
  proof (cases "ty = SOCKET_CLOSE")
    case True
    then have "fatal (s_fd (ss_slot ss h)) (ss_sys ss) hist \<or> out = stream (ss_slot ss h)" using o(4) st by auto
    then show ?thesis using True b(1) w by metis
  next
    case False
    then have c: "ss_inv ss'" "same_conn (ss_slot ss h) s'" using k b(1) by simp_all
    then have "ss_inv ss' \<and> active s' \<and> s_fd s' = s_fd (ss_slot ss h)"
      using same_conn_id [OF c(2)] s(1) by (simp add: same_conn_def)
    moreover have "stream (ss_slot ss h) = out @ stream s'" using st o(3) False by simp
    ultimately show ?thesis using False b(1) w by metis
  qed
qed

text \<open>
  When the poll thread flushes a socket and closes it (it was half closed), every byte the socket held has been
  written, unless a write on it failed for good.
\<close>

theorem flush_before_close:
  assumes "system_ok K" and "reached K ss" and "active (ss_slot ss h)" and "s_protocol (ss_slot ss h) = PROTOCOL_TCP"
    and "send_buffer K h 0 ss res = Some (SOCKET_CLOSE, ss', res')"
    and "\<not> fatal (s_fd (ss_slot ss h)) (ss_sys ss) (ss_sys ss')"
  shows "written (s_fd (ss_slot ss h)) (ss_sys ss') = written (s_fd (ss_slot ss h)) (ss_sys ss) @ stream (ss_slot ss h)"
proof -
  have K: "write_answers K" "write_bounded K" using assms(1) by (simp_all add: system_ok_def)
  show ?thesis using send_buffer_close [OF K reached_inv [OF assms(1,2)] assms(3-5)] assms(6) by auto
qed

lemma idle_stream: "nomore_sending_data s \<Longrightarrow> stream s = []"
  by (simp add: nomore_sending_data_def send_buffer_empty_def stream_def dw_rest_def)

text \<open>
  Property C16.
  \<open>socket_server_close\<close> loses nothing: when the close command closes a TCP socket at once, every
  byte the socket held has been written, unless a write failed for good.
\<close>

theorem close_writes_everything:
  assumes "system_ok K" and "reached K ss" and "active (ss_slot ss (HASH_ID i))" and "s_id (ss_slot ss (HASH_ID i)) = i"
    and "s_protocol (ss_slot ss (HASH_ID i)) = PROTOCOL_TCP"
    and "close_socket K i False opaque ss res = Some (SOCKET_CLOSE, ss', res')"
    and "\<not> fatal (s_fd (ss_slot ss (HASH_ID i))) (ss_sys ss) (ss_sys ss')"
  shows "written (s_fd (ss_slot ss (HASH_ID i))) (ss_sys ss') =
    written (s_fd (ss_slot ss (HASH_ID i))) (ss_sys ss) @ stream (ss_slot ss (HASH_ID i))"
proof -
  define h where "h = HASH_ID i"
  let ?s = "ss_slot ss h" and ?fd = "s_fd (ss_slot ss h)"
  have K: "write_answers K" "write_bounded K" using assms(1) by (simp_all add: system_ok_def)
  have inv: "ss_inv ss" using reached_inv [OF assms(1,2)] .
  note a = assms(3-7) [folded h_def]
  have cl: "written ?fd (ss_sys x) = written ?fd (ss_sys y)"
    if "force_close h 0 y = Some (x, r)" "ss_inv y" "active (ss_slot y h)" for x y r
  proof -
    have "sock_wf (ss_slot y h)" "\<not> s_dw_lock (ss_slot y h)" using slot_ok_active [OF inv_slot [OF that(2)] that(3)] by simp_all
    then have "x = upd h (closed False (ss_slot y h)) (ss_sys y @ close_calls (ss_slot y h)) y"
      using that(1) force_close_upd [OF that(3), of 0 h "ss_sys y" y] upd_same [of h y] by (simp add: sock_wf_def)
    then show ?thesis using close_calls_effect(1) by (simp del: written_simps(2))
  qed
  have ne: "s_type ?s \<noteq> SOCKET_TYPE_INVALID" using a(1) by (simp add: active_def)
  note d = close_socket_def Let_def h_def [symmetric]
  show ?thesis unfolding h_def [symmetric]
  proof (cases "nomore_sending_data ?s")
    case True
    then obtain r where "force_close h 0 ss = Some (ss', r)" using a(2,4) ne by (auto simp: d bind_eq_Some_conv)
    then show "written ?fd (ss_sys ss') = written ?fd (ss_sys ss) @ stream ?s"
      using cl inv a(1) idle_stream [OF True] by simp
  next
    case False
    then obtain ty ss1 res1 where b: "send_buffer K h 0 ss res = Some (ty, ss1, res1)"
      "if ty \<noteq> R_IGNORE \<and> ty \<noteq> SOCKET_WARNING then ty = SOCKET_CLOSE \<and> ss' = ss1
       else nomore_sending_data (ss_slot ss1 h) \<and> (\<exists>r. force_close h 0 ss1 = Some (ss', r))"
      using a(2,4) ne by (auto simp: d bind_eq_Some_conv split: if_splits)
    obtain out s1 hist where s: "ss1 = upd h s1 hist ss" "written ?fd hist = written ?fd (ss_sys ss) @ out"
      "if ty = SOCKET_CLOSE then fatal ?fd (ss_sys ss) hist \<or> out = stream ?s
       else stream ?s = out @ stream s1 \<and> ss_inv ss1 \<and> active s1 \<and> s_fd s1 = ?fd"
      using send_buffer_close [OF K inv a(1,3) b(1)] by blast
    show "written ?fd (ss_sys ss') = written ?fd (ss_sys ss) @ stream ?s"
    proof (cases "ty = SOCKET_CLOSE")
      case True
      then show ?thesis using s b(2) a(5) by simp
    next
      case nc: False
      then have "nomore_sending_data s1" "\<exists>r. force_close h 0 ss1 = Some (ss', r)" using b(2) s(1) by (auto split: if_splits)
      then show ?thesis using cl [of ss1 ss'] s nc idle_stream by auto
    qed
  qed
qed

text \<open>Instances: the connection with five bytes sent, three of them written; and with ten bytes sent, and closing.\<close>

definition small_sent :: socket_server where
  "small_sent = small_connection\<lparr>
     ss_slot := (ss_slot small_connection)(1 := (ss_slot small_connection 1)\<lparr>
       s_stat := \<lparr>st_rtime = 0, st_wtime = 0, st_read = 0, st_write = 3\<rparr>,
       s_dw_offset := Suc (Suc (Suc 0)), s_dw_buffer := Some hello, s_dw_size := 5\<rparr>),
     ss_sys := ss_sys small_connection @ [Write 7 [104, 101, 108, 108, 111] (Inr 3), EpollMod 7 (Some 1) True]\<rparr>"

lemma small_sent_run: "socket_run small_system [Sending 1 hello 5] small_connection = Some small_sent"
  by (simp add: small_state small_open small_send small_flush small_sent_def)

lemma small_sent_legal: "legal_run small_system [Sending 1 hello 5] small_connection"
  unfolding legal_run.simps
  by (simp add: small_state small_open small_send small_flush split: option.split)

lemma legal_append:
  "legal_run K as ss \<Longrightarrow> socket_run K as ss = Some ss1 \<Longrightarrow> legal_run K bs ss1 \<Longrightarrow> legal_run K (as @ bs) ss"
proof (induction as arbitrary: ss)
  case (Cons a as)
  then show ?case by (auto simp: bind_eq_Some_conv)
qed simp

lemma run_append: "socket_run K (as @ bs) ss = do { ss1 \<leftarrow> socket_run K as ss; socket_run K bs ss1 }"
proof (induction as arbitrary: ss)
  case (Cons a as)
  then show ?case by (cases "act K a ss") simp_all
qed simp

lemma reached_run:
  assumes "reached K ss" and "legal_run K as ss" and "socket_run K as ss = Some ss'"
  shows "reached K ss'"
proof -
  obtain now efd fds mem ss0 hist bs where r: "socket_server_create K now efd fds mem [] = Some (Some ss0, hist)"
    "legal_run K bs ss0" "socket_run K bs ss0 = Some ss" using assms(1) unfolding reached_def by blast
  have "legal_run K (bs @ as) ss0" using legal_append r(2,3) assms(2) .
  moreover have "socket_run K (bs @ as) ss0 = Some ss'" using r(3) assms(3) by (simp add: run_append)
  ultimately show ?thesis using r(1) unfolding reached_def by blast
qed

lemma small_sent_reached: "reached small_system small_sent"
  using reached_run [OF small_reached [OF small_connected] small_sent_legal small_sent_run] .

theorem close_writes_everything_witness:
  "\<exists>ss' res'. close_socket small_system 1 False 9 small_sent (answer 0 0 0 DNull) = Some (SOCKET_CLOSE, ss', res') \<and>
    written 7 (ss_sys ss') = [104, 101, 108, 108, 111]"
proof -
  have c: "\<exists>ss' res'. close_socket small_system 1 False 9 small_sent (answer 0 0 0 DNull) = Some (SOCKET_CLOSE, ss', res') \<and>
      \<not> fatal 7 (ss_sys small_sent) (ss_sys ss')"
    by (simp add: close_socket_def small_sent_def small_state small_send small_flush send_list_tcp.simps force_close_def
      free_wb_list_def socket_lock_def fatal_def failures_def sp_del_def)
  then obtain ss' res' where c: "close_socket small_system 1 False 9 small_sent (answer 0 0 0 DNull) = Some (SOCKET_CLOSE, ss', res')"
    "\<not> fatal 7 (ss_sys small_sent) (ss_sys ss')" by blast
  have s: "active (ss_slot small_sent (HASH_ID 1))" "s_id (ss_slot small_sent (HASH_ID 1)) = 1"
    "s_protocol (ss_slot small_sent (HASH_ID 1)) = PROTOCOL_TCP" "s_fd (ss_slot small_sent (HASH_ID 1)) = 7"
    by (simp_all add: small_sent_def small_id small_connection_def active_def)
  have "written 7 (ss_sys ss') = written 7 (ss_sys small_sent) @ stream (ss_slot small_sent (HASH_ID 1))"
    using close_writes_everything [OF small_system_ok small_sent_reached s(1-3) c(1)] c(2) s(4) by simp
  then show ?thesis using c(1)
    by (simp add: small_sent_def small_connection_def small_id stream_def dw_rest_def zero_sock_def hello_def taken_def)
qed


text \<open>Ten bytes sent and the connection closed: the close leaves two bytes, the next flush writes them.\<close>

abbreviation small_halfclose :: "action list" where
  "small_halfclose \<equiv> [Sending 1 hello 5, Turn (answer 0 0 0 DNull) False, Closing 9 1, Turn (answer 0 0 0 DNull) False]"

lemma small_halfclose_legal: "legal_run small_system small_halfclose small_sent"
  unfolding legal_run.simps
  by (simp add: small_sent_def small_state small_open small_send small_flush socket_server_close_def
    id_fresh_def reserve_first [of _ 2] small_next_id close_socket_def send_list_tcp.simps split: option.split)

theorem flush_before_close_witness:
  "\<exists>ss ss' res'. socket_run small_system small_halfclose small_sent = Some ss \<and> s_type (ss_slot ss 1) = SOCKET_TYPE_HALFCLOSE \<and>
    send_buffer small_system 1 0 ss (answer 0 0 0 DNull) = Some (SOCKET_CLOSE, ss', res') \<and>
    written 7 (ss_sys ss') = written 7 (ss_sys ss) @ stream (ss_slot ss 1)"
proof -
  have "\<exists>ss ss' res'. socket_run small_system small_halfclose small_sent = Some ss \<and> s_type (ss_slot ss 1) = SOCKET_TYPE_HALFCLOSE \<and>
    active (ss_slot ss 1) \<and> s_fd (ss_slot ss 1) = 7 \<and> s_protocol (ss_slot ss 1) = PROTOCOL_TCP \<and>
    send_buffer small_system 1 0 ss (answer 0 0 0 DNull) = Some (SOCKET_CLOSE, ss', res') \<and> \<not> fatal 7 (ss_sys ss) (ss_sys ss')"
    by (simp add: close_socket_def socket_server_close_def small_sent_def small_state small_open small_send small_flush send_list_tcp.simps force_close_def
      free_wb_list_def socket_lock_def fatal_def failures_def sp_del_def)
  then obtain ss ss' res' where c: "socket_run small_system small_halfclose small_sent = Some ss"
    "s_type (ss_slot ss 1) = SOCKET_TYPE_HALFCLOSE" "active (ss_slot ss 1)" "s_fd (ss_slot ss 1) = 7"
    "s_protocol (ss_slot ss 1) = PROTOCOL_TCP"
    "send_buffer small_system 1 0 ss (answer 0 0 0 DNull) = Some (SOCKET_CLOSE, ss', res')" "\<not> fatal 7 (ss_sys ss) (ss_sys ss')"
    by blast
  then have "written 7 (ss_sys ss') = written 7 (ss_sys ss) @ stream (ss_slot ss 1)"
    using flush_before_close [OF small_system_ok reached_run [OF small_sent_reached small_halfclose_legal c(1)] c(3,5,6)] by simp
  then show ?thesis using c by blast
qed

end
