(* ===== verification/CryptDes.thy ===== *)
theory CryptDes
  imports Prelude
begin

section \<open>DES (lualib-src/lua-crypt.c)\<close>

text \<open>
  The block cipher behind \<open>crypt.desencode\<close> and \<open>crypt.desdecode\<close>: the tables, the permutation and round
  macros, the key schedule, the block function, and the two Lua functions with their padding. A Lua error is
  a value of \<open>crypt_error\<close>; \<open>None\<close> is a read outside of a buffer. Texts are shorter than 2^31 bytes, the
  range of the \<open>int\<close> that counts them. The theorems: decoding inverts encoding, whatever the key, and one
  block that decrypts to zeros is read in front of its buffer.
\<close>

subsection \<open>Tables\<close>

definition SB1 :: "u32 list" where
  "SB1 = [0x01010400, 0x00000000, 0x00010000, 0x01010404, 0x01010004, 0x00010404, 0x00000004, 0x00010000,
    0x00000400, 0x01010400, 0x01010404, 0x00000400, 0x01000404, 0x01010004, 0x01000000, 0x00000004,
    0x00000404, 0x01000400, 0x01000400, 0x00010400, 0x00010400, 0x01010000, 0x01010000, 0x01000404,
    0x00010004, 0x01000004, 0x01000004, 0x00010004, 0x00000000, 0x00000404, 0x00010404, 0x01000000,
    0x00010000, 0x01010404, 0x00000004, 0x01010000, 0x01010400, 0x01000000, 0x01000000, 0x00000400,
    0x01010004, 0x00010000, 0x00010400, 0x01000004, 0x00000400, 0x00000004, 0x01000404, 0x00010404,
    0x01010404, 0x00010004, 0x01010000, 0x01000404, 0x01000004, 0x00000404, 0x00010404, 0x01010400,
    0x00000404, 0x01000400, 0x01000400, 0x00000000, 0x00010004, 0x00010400, 0x00000000, 0x01010004]"

definition SB2 :: "u32 list" where
  "SB2 = [0x80108020, 0x80008000, 0x00008000, 0x00108020, 0x00100000, 0x00000020, 0x80100020, 0x80008020,
    0x80000020, 0x80108020, 0x80108000, 0x80000000, 0x80008000, 0x00100000, 0x00000020, 0x80100020,
    0x00108000, 0x00100020, 0x80008020, 0x00000000, 0x80000000, 0x00008000, 0x00108020, 0x80100000,
    0x00100020, 0x80000020, 0x00000000, 0x00108000, 0x00008020, 0x80108000, 0x80100000, 0x00008020,
    0x00000000, 0x00108020, 0x80100020, 0x00100000, 0x80008020, 0x80100000, 0x80108000, 0x00008000,
    0x80100000, 0x80008000, 0x00000020, 0x80108020, 0x00108020, 0x00000020, 0x00008000, 0x80000000,
    0x00008020, 0x80108000, 0x00100000, 0x80000020, 0x00100020, 0x80008020, 0x80000020, 0x00100020,
    0x00108000, 0x00000000, 0x80008000, 0x00008020, 0x80000000, 0x80100020, 0x80108020, 0x00108000]"

definition SB3 :: "u32 list" where
  "SB3 = [0x00000208, 0x08020200, 0x00000000, 0x08020008, 0x08000200, 0x00000000, 0x00020208, 0x08000200,
    0x00020008, 0x08000008, 0x08000008, 0x00020000, 0x08020208, 0x00020008, 0x08020000, 0x00000208,
    0x08000000, 0x00000008, 0x08020200, 0x00000200, 0x00020200, 0x08020000, 0x08020008, 0x00020208,
    0x08000208, 0x00020200, 0x00020000, 0x08000208, 0x00000008, 0x08020208, 0x00000200, 0x08000000,
    0x08020200, 0x08000000, 0x00020008, 0x00000208, 0x00020000, 0x08020200, 0x08000200, 0x00000000,
    0x00000200, 0x00020008, 0x08020208, 0x08000200, 0x08000008, 0x00000200, 0x00000000, 0x08020008,
    0x08000208, 0x00020000, 0x08000000, 0x08020208, 0x00000008, 0x00020208, 0x00020200, 0x08000008,
    0x08020000, 0x08000208, 0x00000208, 0x08020000, 0x00020208, 0x00000008, 0x08020008, 0x00020200]"

definition SB4 :: "u32 list" where
  "SB4 = [0x00802001, 0x00002081, 0x00002081, 0x00000080, 0x00802080, 0x00800081, 0x00800001, 0x00002001,
    0x00000000, 0x00802000, 0x00802000, 0x00802081, 0x00000081, 0x00000000, 0x00800080, 0x00800001,
    0x00000001, 0x00002000, 0x00800000, 0x00802001, 0x00000080, 0x00800000, 0x00002001, 0x00002080,
    0x00800081, 0x00000001, 0x00002080, 0x00800080, 0x00002000, 0x00802080, 0x00802081, 0x00000081,
    0x00800080, 0x00800001, 0x00802000, 0x00802081, 0x00000081, 0x00000000, 0x00000000, 0x00802000,
    0x00002080, 0x00800080, 0x00800081, 0x00000001, 0x00802001, 0x00002081, 0x00002081, 0x00000080,
    0x00802081, 0x00000081, 0x00000001, 0x00002000, 0x00800001, 0x00002001, 0x00802080, 0x00800081,
    0x00002001, 0x00002080, 0x00800000, 0x00802001, 0x00000080, 0x00800000, 0x00002000, 0x00802080]"

definition SB5 :: "u32 list" where
  "SB5 = [0x00000100, 0x02080100, 0x02080000, 0x42000100, 0x00080000, 0x00000100, 0x40000000, 0x02080000,
    0x40080100, 0x00080000, 0x02000100, 0x40080100, 0x42000100, 0x42080000, 0x00080100, 0x40000000,
    0x02000000, 0x40080000, 0x40080000, 0x00000000, 0x40000100, 0x42080100, 0x42080100, 0x02000100,
    0x42080000, 0x40000100, 0x00000000, 0x42000000, 0x02080100, 0x02000000, 0x42000000, 0x00080100,
    0x00080000, 0x42000100, 0x00000100, 0x02000000, 0x40000000, 0x02080000, 0x42000100, 0x40080100,
    0x02000100, 0x40000000, 0x42080000, 0x02080100, 0x40080100, 0x00000100, 0x02000000, 0x42080000,
    0x42080100, 0x00080100, 0x42000000, 0x42080100, 0x02080000, 0x00000000, 0x40080000, 0x42000000,
    0x00080100, 0x02000100, 0x40000100, 0x00080000, 0x00000000, 0x40080000, 0x02080100, 0x40000100]"

definition SB6 :: "u32 list" where
  "SB6 = [0x20000010, 0x20400000, 0x00004000, 0x20404010, 0x20400000, 0x00000010, 0x20404010, 0x00400000,
    0x20004000, 0x00404010, 0x00400000, 0x20000010, 0x00400010, 0x20004000, 0x20000000, 0x00004010,
    0x00000000, 0x00400010, 0x20004010, 0x00004000, 0x00404000, 0x20004010, 0x00000010, 0x20400010,
    0x20400010, 0x00000000, 0x00404010, 0x20404000, 0x00004010, 0x00404000, 0x20404000, 0x20000000,
    0x20004000, 0x00000010, 0x20400010, 0x00404000, 0x20404010, 0x00400000, 0x00004010, 0x20000010,
    0x00400000, 0x20004000, 0x20000000, 0x00004010, 0x20000010, 0x20404010, 0x00404000, 0x20400000,
    0x00404010, 0x20404000, 0x00000000, 0x20400010, 0x00000010, 0x00004000, 0x20400000, 0x00404010,
    0x00004000, 0x00400010, 0x20004010, 0x00000000, 0x20404000, 0x20000000, 0x00400010, 0x20004010]"

definition SB7 :: "u32 list" where
  "SB7 = [0x00200000, 0x04200002, 0x04000802, 0x00000000, 0x00000800, 0x04000802, 0x00200802, 0x04200800,
    0x04200802, 0x00200000, 0x00000000, 0x04000002, 0x00000002, 0x04000000, 0x04200002, 0x00000802,
    0x04000800, 0x00200802, 0x00200002, 0x04000800, 0x04000002, 0x04200000, 0x04200800, 0x00200002,
    0x04200000, 0x00000800, 0x00000802, 0x04200802, 0x00200800, 0x00000002, 0x04000000, 0x00200800,
    0x04000000, 0x00200800, 0x00200000, 0x04000802, 0x04000802, 0x04200002, 0x04200002, 0x00000002,
    0x00200002, 0x04000000, 0x04000800, 0x00200000, 0x04200800, 0x00000802, 0x00200802, 0x04200800,
    0x00000802, 0x04000002, 0x04200802, 0x04200000, 0x00200800, 0x00000000, 0x00000002, 0x04200802,
    0x00000000, 0x00200802, 0x04200000, 0x00000800, 0x04000002, 0x04000800, 0x00000800, 0x00200002]"

definition SB8 :: "u32 list" where
  "SB8 = [0x10001040, 0x00001000, 0x00040000, 0x10041040, 0x10000000, 0x10001040, 0x00000040, 0x10000000,
    0x00040040, 0x10040000, 0x10041040, 0x00041000, 0x10041000, 0x00041040, 0x00001000, 0x00000040,
    0x10040000, 0x10000040, 0x10001000, 0x00001040, 0x00041000, 0x00040040, 0x10040040, 0x10041000,
    0x00001040, 0x00000000, 0x00000000, 0x10040040, 0x10000040, 0x10001000, 0x00041040, 0x00040000,
    0x00041040, 0x00040000, 0x10041000, 0x00001000, 0x00000040, 0x10040040, 0x00001000, 0x00041040,
    0x10001000, 0x00000040, 0x10000040, 0x10040000, 0x10040040, 0x10000000, 0x00040000, 0x10001040,
    0x00000000, 0x10041040, 0x00040040, 0x10000040, 0x10040000, 0x10001000, 0x10001040, 0x00000000,
    0x10041040, 0x00041000, 0x00041000, 0x00001040, 0x00001040, 0x00040040, 0x10000000, 0x10041000]"

definition LHs :: "u32 list" where
  "LHs = [0x00000000, 0x00000001, 0x00000100, 0x00000101, 0x00010000, 0x00010001, 0x00010100, 0x00010101,
    0x01000000, 0x01000001, 0x01000100, 0x01000101, 0x01010000, 0x01010001, 0x01010100, 0x01010101]"

definition RHs :: "u32 list" where
  "RHs = [0x00000000, 0x01000000, 0x00010000, 0x01010000, 0x00000100, 0x01000100, 0x00010100, 0x01010100,
    0x00000001, 0x01000001, 0x00010001, 0x01010001, 0x00000101, 0x01000101, 0x00010101, 0x01010101]"

subsection \<open>Macros\<close>

text \<open>\<open>GET_UINT32\<close> and \<open>PUT_UINT32\<close>: four bytes, the highest first.\<close>

definition be32 :: "u8 \<Rightarrow> u8 \<Rightarrow> u8 \<Rightarrow> u8 \<Rightarrow> u32" where
  "be32 a b c d = push_bit 24 (ucast a) OR push_bit 16 (ucast b) OR push_bit 8 (ucast c) OR ucast d"

definition GET_UINT32 :: "u8 list \<Rightarrow> nat \<Rightarrow> u32" where
  "GET_UINT32 b i = be32 (b ! i) (b ! (i + 1)) (b ! (i + 2)) (b ! (i + 3))"

definition PUT_UINT32 :: "u32 \<Rightarrow> u8 list" where
  "PUT_UINT32 n = [ucast (drop_bit 24 n), ucast (drop_bit 16 n), ucast (drop_bit 8 n), ucast n]"

text \<open>The statement that the permutations repeat: \<open>T = ((A >> n) ^ B) & m; B ^= T; A ^= (T << n)\<close>.\<close>

definition swap_bits :: "nat \<Rightarrow> u32 \<Rightarrow> u32 \<Rightarrow> u32 \<Rightarrow> u32 \<times> u32" where
  "swap_bits n m A B = (let T = (drop_bit n A XOR B) AND m in (A XOR push_bit n T, B XOR T))"

definition DES_IP :: "u32 \<Rightarrow> u32 \<Rightarrow> u32 \<times> u32" where
  "DES_IP X Y =
     (let (X, Y) = swap_bits 4 0x0F0F0F0F X Y;
          (X, Y) = swap_bits 16 0x0000FFFF X Y;
          (Y, X) = swap_bits 2 0x33333333 Y X;
          (Y, X) = swap_bits 8 0x00FF00FF Y X;
          Y = (push_bit 1 Y OR drop_bit 31 Y) AND 0xFFFFFFFF;
          T = (X XOR Y) AND 0xAAAAAAAA; Y = Y XOR T; X = X XOR T;
          X = (push_bit 1 X OR drop_bit 31 X) AND 0xFFFFFFFF
      in (X, Y))"

definition DES_FP :: "u32 \<Rightarrow> u32 \<Rightarrow> u32 \<times> u32" where
  "DES_FP X Y =
     (let X = (push_bit 31 X OR drop_bit 1 X) AND 0xFFFFFFFF;
          T = (X XOR Y) AND 0xAAAAAAAA; X = X XOR T; Y = Y XOR T;
          Y = (push_bit 31 Y OR drop_bit 1 Y) AND 0xFFFFFFFF;
          (Y, X) = swap_bits 8 0x00FF00FF Y X;
          (Y, X) = swap_bits 2 0x33333333 Y X;
          (X, Y) = swap_bits 16 0x0000FFFF X Y;
          (X, Y) = swap_bits 4 0x0F0F0F0F X Y
      in (X, Y))"

text \<open>\<open>DES_ROUND\<close> with its two subkeys: the new value of \<open>Y\<close>.\<close>

definition sbox :: "u32 list \<Rightarrow> u32 \<Rightarrow> nat \<Rightarrow> u32" where
  "sbox SB T n = SB ! unat (drop_bit n T AND 0x3F)"

definition DES_ROUND :: "u32 \<times> u32 \<Rightarrow> u32 \<Rightarrow> u32 \<Rightarrow> u32" where
  "DES_ROUND sk X Y =
     (let T = fst sk XOR X;
          Y = Y XOR (sbox SB8 T 0 XOR sbox SB6 T 8 XOR sbox SB4 T 16 XOR sbox SB2 T 24);
          T = snd sk XOR (push_bit 28 X OR drop_bit 4 X)
      in Y XOR (sbox SB7 T 0 XOR sbox SB5 T 8 XOR sbox SB3 T 16 XOR sbox SB1 T 24))"

subsection \<open>Key schedule\<close>

definition half_bits :: "u32 list \<Rightarrow> u32 \<Rightarrow> nat \<Rightarrow> nat \<Rightarrow> u32" where
  "half_bits hs X n m = push_bit m (hs ! unat (drop_bit n X AND 0xF))"

definition rotate28 :: "nat \<Rightarrow> u32 \<Rightarrow> u32" where
  "rotate28 n X = (push_bit n X OR drop_bit (28 - n) X) AND 0x0FFFFFFF"

definition subkey1 :: "u32 \<Rightarrow> u32 \<Rightarrow> u32" where
  "subkey1 X Y =
     (push_bit 4 X AND 0x24000000) OR (push_bit 28 X AND 0x10000000) OR
     (push_bit 14 X AND 0x08000000) OR (push_bit 18 X AND 0x02080000) OR
     (push_bit 6 X AND 0x01000000) OR (push_bit 9 X AND 0x00200000) OR
     (drop_bit 1 X AND 0x00100000) OR (push_bit 10 X AND 0x00040000) OR
     (push_bit 2 X AND 0x00020000) OR (drop_bit 10 X AND 0x00010000) OR
     (drop_bit 13 Y AND 0x00002000) OR (drop_bit 4 Y AND 0x00001000) OR
     (push_bit 6 Y AND 0x00000800) OR (drop_bit 1 Y AND 0x00000400) OR
     (drop_bit 14 Y AND 0x00000200) OR (Y AND 0x00000100) OR
     (drop_bit 5 Y AND 0x00000020) OR (drop_bit 10 Y AND 0x00000010) OR
     (drop_bit 3 Y AND 0x00000008) OR (drop_bit 18 Y AND 0x00000004) OR
     (drop_bit 26 Y AND 0x00000002) OR (drop_bit 24 Y AND 0x00000001)"

definition subkey2 :: "u32 \<Rightarrow> u32 \<Rightarrow> u32" where
  "subkey2 X Y =
     (push_bit 15 X AND 0x20000000) OR (push_bit 17 X AND 0x10000000) OR
     (push_bit 10 X AND 0x08000000) OR (push_bit 22 X AND 0x04000000) OR
     (drop_bit 2 X AND 0x02000000) OR (push_bit 1 X AND 0x01000000) OR
     (push_bit 16 X AND 0x00200000) OR (push_bit 11 X AND 0x00100000) OR
     (push_bit 3 X AND 0x00080000) OR (drop_bit 6 X AND 0x00040000) OR
     (push_bit 15 X AND 0x00020000) OR (drop_bit 4 X AND 0x00010000) OR
     (drop_bit 2 Y AND 0x00002000) OR (push_bit 8 Y AND 0x00001000) OR
     (drop_bit 14 Y AND 0x00000808) OR (drop_bit 9 Y AND 0x00000400) OR
     (Y AND 0x00000200) OR (push_bit 7 Y AND 0x00000100) OR
     (drop_bit 7 Y AND 0x00000020) OR (drop_bit 3 Y AND 0x00000011) OR
     (push_bit 2 Y AND 0x00000004) OR (drop_bit 21 Y AND 0x00000002)"

fun ks_loop :: "nat list \<Rightarrow> u32 \<Rightarrow> u32 \<Rightarrow> (u32 \<times> u32) list" where
  "ks_loop [] X Y = []"
| "ks_loop (i # is') X Y =
     (let n = (if i < 2 \<or> i = 8 \<or> i = 15 then 1 else 2); X = rotate28 n X; Y = rotate28 n Y
      in (subkey1 X Y, subkey2 X Y) # ks_loop is' X Y)"

text \<open>The 32 subkeys as 16 pairs, one for each round.\<close>

definition des_main_ks :: "u8 list \<Rightarrow> (u32 \<times> u32) list" where
  "des_main_ks key =
     (let X = GET_UINT32 key 0; Y = GET_UINT32 key 4;
          (Y, X) = swap_bits 4 0x0F0F0F0F Y X;
          (Y, X) = swap_bits 0 0x10101010 Y X;
          X = half_bits LHs X 0 3 OR half_bits LHs X 8 2 OR half_bits LHs X 16 1 OR half_bits LHs X 24 0 OR
              half_bits LHs X 5 7 OR half_bits LHs X 13 6 OR half_bits LHs X 21 5 OR half_bits LHs X 29 4;
          Y = half_bits RHs Y 1 3 OR half_bits RHs Y 9 2 OR half_bits RHs Y 17 1 OR half_bits RHs Y 25 0 OR
              half_bits RHs Y 4 7 OR half_bits RHs Y 12 6 OR half_bits RHs Y 20 5 OR half_bits RHs Y 28 4
      in ks_loop [0..<16] (X AND 0x0FFFFFFF) (Y AND 0x0FFFFFFF))"

subsection \<open>Blocks\<close>

text \<open>The rounds of \<open>des_crypt\<close> alternate \<open>DES_ROUND(Y, X)\<close> and \<open>DES_ROUND(X, Y)\<close>: the pair is kept with the
  half that the next round changes in front.\<close>

fun des_rounds :: "(u32 \<times> u32) list \<Rightarrow> u32 \<times> u32 \<Rightarrow> u32 \<times> u32" where
  "des_rounds [] h = h"
| "des_rounds (sk # sks) (X, Y) = des_rounds sks (Y, DES_ROUND sk Y X)"

definition des_crypt :: "(u32 \<times> u32) list \<Rightarrow> u8 list \<Rightarrow> u8 list" where
  "des_crypt SK input =
     (let (X, Y) = DES_IP (GET_UINT32 input 0) (GET_UINT32 input 4);
          (X, Y) = des_rounds SK (X, Y);
          (Y, X) = DES_FP Y X
      in PUT_UINT32 Y @ PUT_UINT32 X)"

subsection \<open>The Lua functions\<close>

datatype crypt_error = InvalidKeySize nat | InvalidTextLength nat | InvalidText

definition des_key :: "u8 list \<Rightarrow> crypt_error + (u32 \<times> u32) list" where
  "des_key key = (if length key \<noteq> 8 then Inl (InvalidKeySize (length key)) else Inr (des_main_ks key))"

text \<open>The last block: the rest of the text, 0x80, zeros.\<close>

definition des_tail :: "u8 list \<Rightarrow> u8 list" where
  "des_tail rest = map (\<lambda>j. if j < length rest then rest ! j else if j = length rest then 0x80 else 0) [0..<8]"

function encode_blocks :: "(u32 \<times> u32) list \<Rightarrow> u8 list \<Rightarrow> u8 list" where
  "encode_blocks SK text =
     (if 8 \<le> length text then des_crypt SK (take 8 text) @ encode_blocks SK (drop 8 text)
      else des_crypt SK (des_tail text))"
  by pat_completeness auto
termination
  by (relation "measure (length \<circ> snd)") auto

definition ldesencode :: "u8 list \<Rightarrow> u8 list \<Rightarrow> (crypt_error + u8 list) option" where
  "ldesencode key text =
     (case des_key key of
        Inl e \<Rightarrow> Some (Inl e)
      | Inr SK \<Rightarrow> do {
          let chunksz = (of_nat (length text) + 8 :: u64) AND NOT 7;
          out \<leftarrow> mem_read (encode_blocks SK text) (unat chunksz);
          Some (Inr out) })"

function decode_blocks :: "(u32 \<times> u32) list \<Rightarrow> u8 list \<Rightarrow> u8 list" where
  "decode_blocks SK text =
     (if text = [] then [] else des_crypt SK (take 8 text) @ decode_blocks SK (drop 8 text))"
  by pat_completeness auto
termination
  by (relation "measure (length \<circ> snd)") auto

declare encode_blocks.simps [simp del] decode_blocks.simps [simp del]

text \<open>The loop that counts the padding. Its condition compares the \<open>int\<close> \<open>i\<close> with a \<open>size_t\<close>, so \<open>i\<close> is
  converted to 64 bits without a sign.\<close>

function padding_loop :: "u8 list \<Rightarrow> int \<Rightarrow> nat \<Rightarrow> (crypt_error + nat) option" where
  "padding_loop buffer i padding =
     (if of_nat (length buffer) - 8 \<le> (of_int i :: u64) then do {
        c \<leftarrow> (if i < 0 then None else nth_at buffer (nat i));
        (if c = 0 then padding_loop buffer (i - 1) (padding + 1)
         else if c = 0x80 then Some (Inr padding)
         else Some (Inl InvalidText)) }
      else Some (Inr padding))"
  by pat_completeness auto
termination
  by (relation "measure (\<lambda>(_, i, _). nat (i + 1))") (auto split: if_splits)

declare padding_loop.simps [simp del]

definition ldesdecode :: "u8 list \<Rightarrow> u8 list \<Rightarrow> (crypt_error + u8 list) option" where
  "ldesdecode key text =
     (case des_key key of
        Inl e \<Rightarrow> Some (Inl e)
      | Inr ESK \<Rightarrow>
          if length text mod 8 \<noteq> 0 \<or> length text = 0 then Some (Inl (InvalidTextLength (length text)))
          else do {
            let buffer = decode_blocks (rev ESK) text;
            r \<leftarrow> padding_loop buffer (int (length text) - 1) 1;
            Some (case r of
              Inl e \<Rightarrow> Inl e
            | Inr padding \<Rightarrow>
                if padding > 8 then Inl InvalidText else Inr (take (length text - padding) buffer)) })"

subsection \<open>Permutations and rounds\<close>

lemma swap_bits_twice:
  assumes "drop_bit n (push_bit n m) = m" and "swap_bits n m A B = (A', B')"
  shows "swap_bits n m A' B' = (A, B)"
proof -
  define T where "T = (drop_bit n A XOR B) AND m"
  have a: "A' = A XOR push_bit n T" "B' = B XOR T" using assms(2) by (simp_all add: swap_bits_def T_def)
  have m: "bit m i \<Longrightarrow> i + n < 32" for i
    using arg_cong [OF assms(1), of "\<lambda>w. bit w i"] by (auto simp: bit_simps)
  have "(drop_bit n A' XOR B') AND m = T"
    by (rule bit_word_eqI) (auto simp: a T_def bit_simps add.commute [of n] dest: m)
  then show ?thesis by (simp add: swap_bits_def a Let_def xor.assoc)
qed

lemma all_ones [simp]: "x AND 0xFFFFFFFF = (x :: u32)"
proof -
  have "(0xFFFFFFFF :: u32) = - 1" by simp
  then show ?thesis by (metis and.right_neutral)
qed

text \<open>The rotations are those of the library.\<close>

lemma rol_eq:
  assumes "n + m = 32" and "0 < n" and "0 < m"
  shows "push_bit n x OR drop_bit m x = word_rotl n (x :: u32)"
proof (rule bit_word_eqI)
  fix i
  assume "i < LENGTH(32)"
  then have i: "i < 32" by simp
  have m: "LENGTH(32) - n mod LENGTH(32) = m" using assms by simp
  have j: "(i + m) mod 32 = (if n \<le> i then i - n else i + m)"
  proof (cases "n \<le> i")
    case True
    then have "i + m = (i - n) + 32" using assms by linarith
    then show ?thesis using True i by (simp only: mod_add_self2 if_True mod_less)
  qed (use assms i in simp)
  have "bit (word_rotl n x) i = bit x ((i + m) mod 32)" unfolding bit_word_rotl_iff m using i by simp
  moreover have "\<not> bit x (i + m)" if "n \<le> i" using that assms by (auto dest: bit_imp_le_length)
  moreover have "bit (push_bit n x OR drop_bit m x) i = (n \<le> i \<and> bit x (i - n) \<or> bit x (m + i))"
    using i by (simp add: bit_simps)
  ultimately show "bit (push_bit n x OR drop_bit m x) i \<longleftrightarrow> bit (word_rotl n x) i"
    unfolding j by (auto simp: add.commute)
qed

lemma rotate_back: "word_rotl 31 (word_rotl 1 x) = (x :: u32)" "word_rotl 1 (word_rotl 31 x) = (x :: u32)"
  by (rule bit_word_eqI, simp add: bit_word_rotl_iff mod_simps)+

lemma rotations:
  "push_bit 1 x OR drop_bit 31 x = word_rotl 1 (x :: u32)" "push_bit 31 x OR drop_bit 1 x = word_rotl 31 (x :: u32)"
  using rol_eq [of 1 31 x] rol_eq [of 31 1 x] by simp_all

lemma exchange_twice:
  fixes X Y m :: u32
  assumes "T = (X XOR Y) AND m"
  shows "((X XOR T) XOR (Y XOR T)) AND m = T"
  by (rule bit_word_eqI) (auto simp: assms bit_simps)

lemma masks_fit:
  "drop_bit 4 (push_bit 4 0x0F0F0F0F) = (0x0F0F0F0F :: u32)" "drop_bit 16 (push_bit 16 0x0000FFFF) = (0x0000FFFF :: u32)"
  "drop_bit 2 (push_bit 2 0x33333333) = (0x33333333 :: u32)" "drop_bit 8 (push_bit 8 0x00FF00FF) = (0x00FF00FF :: u32)"
  by simp_all

text \<open>The final permutation undoes the initial one, and the other way round.\<close>

lemma DES_FP_IP: "DES_IP X Y = (X', Y') \<Longrightarrow> DES_FP X' Y' = (X, Y)"
proof -
  assume ip: "DES_IP X Y = (X', Y')"
  obtain X1 Y1 where s1: "swap_bits 4 0x0F0F0F0F X Y = (X1, Y1)" by fastforce
  obtain X2 Y2 where s2: "swap_bits 16 0x0000FFFF X1 Y1 = (X2, Y2)" by fastforce
  obtain X3 Y3 where s3: "swap_bits 2 0x33333333 Y2 X2 = (Y3, X3)" by fastforce
  obtain X4 Y4 where s4: "swap_bits 8 0x00FF00FF Y3 X3 = (Y4, X4)" by fastforce
  define Y5 where "Y5 = word_rotl 1 Y4"
  define T where "T = (X4 XOR Y5) AND 0xAAAAAAAA"
  have "X' = word_rotl 1 (X4 XOR T)" "Y' = Y5 XOR T"
    using ip by (simp_all only: DES_IP_def s1 s2 s3 s4 Let_def prod.case all_ones rotations Y5_def T_def prod.inject)
  moreover have "((X4 XOR T) XOR (Y5 XOR T)) AND 0xAAAAAAAA = T" by (rule exchange_twice) (simp add: T_def)
  moreover have "word_rotl 31 Y5 = Y4" by (simp only: Y5_def rotate_back)
  moreover note s = swap_bits_twice [OF masks_fit(1) s1] swap_bits_twice [OF masks_fit(2) s2]
    swap_bits_twice [OF masks_fit(3) s3] swap_bits_twice [OF masks_fit(4) s4]
  have c: "(A XOR T) XOR T = A" for A by (simp only: xor.assoc xor_self_eq xor.right_neutral)
  ultimately show "DES_FP X' Y' = (X, Y)"
    by (simp only: DES_FP_def Let_def prod.case all_ones rotations rotate_back c s)
qed

lemma DES_IP_FP: "DES_FP X Y = (X', Y') \<Longrightarrow> DES_IP X' Y' = (X, Y)"
proof -
  assume fp: "DES_FP X Y = (X', Y')"
  define X1 where "X1 = word_rotl 31 X"
  define T where "T = (X1 XOR Y) AND 0xAAAAAAAA"
  define X2 where "X2 = X1 XOR T"
  define Y2 where "Y2 = word_rotl 31 (Y XOR T)"
  obtain X3 Y3 where s1: "swap_bits 8 0x00FF00FF Y2 X2 = (Y3, X3)" by fastforce
  obtain X4 Y4 where s2: "swap_bits 2 0x33333333 Y3 X3 = (Y4, X4)" by fastforce
  obtain X5 Y5 where s3: "swap_bits 16 0x0000FFFF X4 Y4 = (X5, Y5)" by fastforce
  obtain X6 Y6 where s4: "swap_bits 4 0x0F0F0F0F X5 Y5 = (X6, Y6)" by fastforce
  have "X' = X6" "Y' = Y6"
    using fp by (simp_all only: DES_FP_def Let_def prod.case all_ones rotations s1 s2 s3 s4 prod.inject
      X1_def [symmetric] T_def [symmetric] X2_def [symmetric] Y2_def [symmetric])
  moreover have "(X2 XOR word_rotl 1 Y2) AND 0xAAAAAAAA = T"
    unfolding X2_def Y2_def rotate_back by (rule exchange_twice) (simp add: T_def)
  moreover note s = swap_bits_twice [OF masks_fit(4) s1] swap_bits_twice [OF masks_fit(3) s2]
    swap_bits_twice [OF masks_fit(2) s3] swap_bits_twice [OF masks_fit(1) s4]
  have c: "(A XOR T) XOR T = A" for A by (simp only: xor.assoc xor_self_eq xor.right_neutral)
  have "word_rotl 1 Y2 = Y XOR T" "X2 XOR T = X1" "word_rotl 1 X1 = X"
    by (simp_all only: X2_def Y2_def X1_def rotate_back c)
  ultimately show "DES_IP X' Y' = (X, Y)"
    by (simp only: DES_IP_def Let_def prod.case all_ones rotations s c)
qed

text \<open>The rounds in reverse order, on the halves exchanged, undo the rounds.\<close>

lemma DES_ROUND_twice: "DES_ROUND sk X (DES_ROUND sk X Y) = Y"
proof -
  have "(((Y XOR a) XOR b) XOR a) XOR b = Y" for a b by (rule bit_word_eqI) (auto simp: bit_simps)
  then show ?thesis by (simp only: DES_ROUND_def Let_def)
qed

lemma des_rounds_append: "des_rounds (ks @ ls) h = des_rounds ls (des_rounds ks h)"
  by (induction ks h rule: des_rounds.induct) simp_all

lemma des_rounds_rev: "des_rounds ks (X, Y) = (X', Y') \<Longrightarrow> des_rounds (rev ks) (Y', X') = (Y, X)"
proof (induction ks "(X, Y)" arbitrary: X Y rule: des_rounds.induct)
  case (2 sk sks X Y)
  then have "des_rounds (rev sks) (Y', X') = (DES_ROUND sk Y X, Y)" by simp
  then show ?case by (simp add: des_rounds_append DES_ROUND_twice)
qed simp

subsection \<open>Decoding inverts encoding\<close>

lemma bit_be32:
  "bit (be32 a b c d) i \<longleftrightarrow> (if i < 8 then bit d i else if i < 16 then bit c (i - 8) else if i < 24 then bit b (i - 16)
     else bit a (i - 24))"
proof -
  have w: "bit x j \<Longrightarrow> j < 8" for x :: u8 and j by (drule bit_imp_le_length) simp
  have s: "bit (be32 a b c d) i \<longleftrightarrow> i < 32 \<and> (24 \<le> i \<and> bit a (i - 24) \<or> 16 \<le> i \<and> bit b (i - 16) \<or> 8 \<le> i \<and> bit c (i - 8) \<or> bit d i)"
    by (auto simp: be32_def bit_push_bit_iff bit_or_iff bit_ucast_iff dest: bit_imp_le_length)
  have e: "bit d i \<Longrightarrow> i < 8" "8 \<le> i \<Longrightarrow> bit c (i - 8) \<Longrightarrow> i < 16" "16 \<le> i \<Longrightarrow> bit b (i - 16) \<Longrightarrow> i < 24"
    "24 \<le> i \<Longrightarrow> bit a (i - 24) \<Longrightarrow> i < 32" using w [of d i] w [of c "i - 8"] w [of b "i - 16"] w [of a "i - 24"] by linarith+
  consider "i < 8" | "8 \<le> i" "i < 16" | "16 \<le> i" "i < 24" | "24 \<le> i" by linarith
  then show ?thesis by cases (use e in \<open>auto simp: s\<close>)
qed

lemma be32_put [simp]: "be32 (ucast (drop_bit 24 x)) (ucast (drop_bit 16 x)) (ucast (drop_bit 8 x)) (ucast x) = x"
  by (rule bit_word_eqI) (auto simp: bit_be32 bit_ucast_iff bit_drop_bit_eq)

lemma put_be32 [simp]:
  "ucast (drop_bit 24 (be32 a b c d)) = a" "ucast (drop_bit 16 (be32 a b c d)) = b"
  "ucast (drop_bit 8 (be32 a b c d)) = c" "ucast (be32 a b c d) = d"
  by (rule bit_word_eqI, simp add: bit_be32 bit_ucast_iff bit_drop_bit_eq)+

lemma get_put_uint32:
  "GET_UINT32 (PUT_UINT32 a @ PUT_UINT32 b) 0 = a" "GET_UINT32 (PUT_UINT32 a @ PUT_UINT32 b) 4 = b"
  by (simp_all add: GET_UINT32_def PUT_UINT32_def)

lemma list8: "length (xs :: 'a list) = 8 \<Longrightarrow> \<exists>a b c d e f g h. xs = [a, b, c, d, e, f, g, h]"
  by (auto simp: numeral_eq_Suc length_Suc_conv)

lemma put_get:
  assumes "length xs = 8"
  shows "PUT_UINT32 (GET_UINT32 xs 0) @ PUT_UINT32 (GET_UINT32 xs 4) = xs"
proof -
  obtain a b c d e f g h where xs: "xs = [a, b, c, d, e, f, g, h]" using list8 [OF assms] by blast
  show ?thesis by (simp add: xs PUT_UINT32_def GET_UINT32_def)
qed

lemma length_des_crypt [simp]: "length (des_crypt SK input) = 8"
  by (simp add: des_crypt_def PUT_UINT32_def split_beta)

lemma des_crypt_inverse:
  assumes "length input = 8"
  shows "des_crypt (rev SK) (des_crypt SK input) = input"
proof -
  obtain X Y where ip: "DES_IP (GET_UINT32 input 0) (GET_UINT32 input 4) = (X, Y)" by fastforce
  obtain X1 Y1 where r: "des_rounds SK (X, Y) = (X1, Y1)" by fastforce
  obtain Y2 X2 where fp: "DES_FP Y1 X1 = (Y2, X2)" by fastforce
  have "des_crypt SK input = PUT_UINT32 Y2 @ PUT_UINT32 X2" by (simp add: des_crypt_def ip r fp)
  moreover have "DES_IP Y2 X2 = (Y1, X1)" using DES_IP_FP [OF fp] .
  moreover have "des_rounds (rev SK) (Y1, X1) = (Y, X)" using des_rounds_rev [OF r] .
  moreover have "DES_FP X Y = (GET_UINT32 input 0, GET_UINT32 input 4)" using DES_FP_IP [OF ip] .
  ultimately show ?thesis by (simp add: des_crypt_def get_put_uint32 put_get [OF assms])
qed

lemma length_ks_loop: "length (ks_loop is' X Y) = length is'"
  by (induction is' X Y rule: ks_loop.induct) (simp_all add: Let_def)

text \<open>The padded text.\<close>

function padded :: "u8 list \<Rightarrow> u8 list" where
  "padded text = (if 8 \<le> length text then take 8 text @ padded (drop 8 text) else des_tail text)"
  by pat_completeness auto
termination
  by (relation "measure length") auto

declare padded.simps [simp del]

lemma des_tail_eq:
  assumes "length rest < 8"
  shows "des_tail rest = rest @ 0x80 # replicate (7 - length rest) 0"
  using assms by (intro nth_equalityI) (auto simp: des_tail_def nth_append nth_Cons')

lemma padded_eq: "padded text = text @ 0x80 # replicate (7 - length text mod 8) 0"
proof (induction "text" rule: padded.induct)
  case (1 xs)
  show ?case
  proof (cases "8 \<le> length xs")
    case True
    then have "padded xs = take 8 xs @ drop 8 xs @ 0x80 # replicate (7 - length (drop 8 xs) mod 8) 0"
      using 1 by (subst padded.simps) simp
    moreover have "length (drop 8 xs) mod 8 = length xs mod 8" using True by (simp add: mod_if)
    ultimately show ?thesis by simp
  next
    case False
    then show ?thesis by (subst padded.simps) (simp add: des_tail_eq)
  qed
qed

lemma length_encode: "length (encode_blocks SK text) = (length text + 8) div 8 * 8"
proof (induction SK "text" rule: encode_blocks.induct)
  case (1 SK xs)
  then show ?case by (subst encode_blocks.simps) (auto simp: div_if)
qed

lemma decode_encode: "decode_blocks (rev SK) (encode_blocks SK text) = padded text"
proof (induction SK "text" rule: encode_blocks.induct)
  case (1 SK xs)
  have nil: "decode_blocks K [] = []" for K by (subst decode_blocks.simps) simp
  show ?case
  proof (cases "8 \<le> length xs")
    case True
    then show ?thesis using 1 True
      by (subst encode_blocks.simps, subst decode_blocks.simps, subst padded.simps)
        (simp add: des_crypt_inverse flip: length_0_conv)
  next
    case False
    then show ?thesis
      by (subst encode_blocks.simps, subst decode_blocks.simps, subst padded.simps)
        (simp add: des_crypt_inverse nil des_tail_def flip: length_0_conv)
  qed
qed

text \<open>The loop over the padding of a text.\<close>

lemma padding_step:
  assumes "length buf < 2 ^ 31" and "8 \<le> length buf" and "i < length buf"
  shows "padding_loop buf (int i) k =
    (if length buf - 8 \<le> i then
       if buf ! i = 0 then padding_loop buf (int i - 1) (k + 1)
       else if buf ! i = 0x80 then Some (Inr k) else Some (Inl InvalidText)
     else Some (Inr k))"
proof -
  have "(of_nat (length buf) - 8 :: u64) = of_nat (length buf - 8)" using assms(2) by (simp add: of_nat_diff)
  moreover have "(of_nat a :: u64) \<le> of_nat b \<longleftrightarrow> a \<le> b" if "a < 2 ^ 31" "b < 2 ^ 31" for a b
    using that by (simp add: word_le_nat_alt unat_of_nat take_bit_nat_eq_self)
  moreover have "length buf - 8 < 2 ^ 31" "i < 2 ^ 31" using assms by simp_all
  ultimately have "(of_nat (length buf) - 8 :: u64) \<le> of_int (int i) \<longleftrightarrow> length buf - 8 \<le> i"
    unfolding of_int_of_nat_eq by metis
  then show ?thesis using assms(3) by (subst padding_loop.simps) (simp add: nth_at_def)
qed

lemma padding_loop_zeros:
  assumes "length buf < 2 ^ 31" and "buf = xs @ 0x80 # replicate n 0" and "8 \<le> length buf" and "n < 8" and "m \<le> n"
  shows "padding_loop buf (int (length xs + m)) k = Some (Inr (k + m))"
  using assms(5)
proof (induction m arbitrary: k)
  case 0
  have "buf ! length xs = 0x80" by (simp add: assms(2))
  then show ?case using assms by (subst padding_step) simp_all
next
  case (Suc m)
  have "buf ! (length xs + Suc m) = 0" using Suc.prems by (simp add: assms(2) nth_append)
  moreover have "int (length xs + Suc m) - 1 = int (length xs + m)" by simp
  moreover have "length buf - 8 \<le> length xs + Suc m" "length xs + Suc m < length buf" using assms Suc.prems by simp_all
  ultimately show ?case using Suc padding_step [OF assms(1,3), of "length xs + Suc m" k] by simp
qed

lemma encode_size:
  assumes "length xs < 2 ^ 31 - 8"
  shows "unat ((of_nat (length xs) + 8 :: u64) AND NOT 7) = (length xs + 8) div 8 * 8"
proof -
  have "unat (of_nat (length xs) + 8 :: u64) = length xs + 8"
    using assms by (subst unat_add_lem [THEN iffD1]) (simp_all add: unat_of_nat take_bit_nat_eq_self)
  moreover have "x AND NOT (mask 3) = push_bit 3 (drop_bit 3 x)" for x :: u64
    by (intro bit_word_eqI) (auto simp: bit_simps)
  then have "x AND NOT 7 = push_bit 3 (drop_bit 3 x)" for x :: u64 by (simp add: mask_numeral)
  moreover have "unat (push_bit 3 (drop_bit 3 w)) = unat w div 8 * 8" for w :: u64
  proof -
    have "unat w div 8 * 8 < 2 ^ 64" using unat_bound [of w] div_times_less_eq_dividend [of "unat w" 8] by simp
    then have "unat (drop_bit 3 w) * unat (8 :: u64) < 2 ^ LENGTH(64)" by (simp add: unat_drop_bit_div)
    then have "unat (drop_bit 3 w * 8) = unat (drop_bit 3 w) * unat (8 :: u64)" by (simp only: unat_mult_lem)
    moreover have "push_bit 3 (drop_bit 3 w) = drop_bit 3 w * 8" by (simp only: push_bit_eq_mult) simp
    ultimately show ?thesis by (simp only: unat_drop_bit_div) simp
  qed
  ultimately show ?thesis by metis
qed

text \<open>
  Property C34.
  Decoding inverts encoding: what \<open>desencode\<close> returns for a key of eight bytes and any text, \<open>desdecode\<close>
  with the same key turns back into the text, the padding removed. Neither reads outside of a buffer.
\<close>

theorem des_roundtrip:
  assumes "length key = 8" and "length xs < 2 ^ 31 - 8"
  shows "\<exists>c. ldesencode key xs = Some (Inr c) \<and> ldesdecode key c = Some (Inr xs)"
proof -
  let ?SK = "des_main_ks key"
  let ?c = "encode_blocks ?SK xs"
  have len: "length ?c = (length xs + 8) div 8 * 8" by (rule length_encode)
  have enc: "ldesencode key xs = Some (Inr ?c)"
    using assms encode_size [OF assms(2)] by (simp add: ldesencode_def des_key_def Let_def mem_read_def len)
  define n where "n = 7 - length xs mod 8"
  have pad: "decode_blocks (rev ?SK) ?c = xs @ 0x80 # replicate n 0" by (simp add: decode_encode padded_eq n_def)
  have n: "length ?c = length xs + Suc n" "n < 8" unfolding len n_def by presburger+
  have mod: "length ?c mod 8 = 0" "8 \<le> length ?c" unfolding len by simp_all
  have "padding_loop (xs @ 0x80 # replicate n 0) (int (length xs + n)) 1 = Some (Inr (1 + n))"
    using assms(2) n mod(2) by (intro padding_loop_zeros [OF _ refl]) simp_all
  moreover have "int (length xs + n) = int (length ?c) - 1" using n by simp
  ultimately have "ldesdecode key ?c = Some (Inr xs)"
    using assms(1) n mod by (simp add: ldesdecode_def des_key_def pad Let_def flip: length_0_conv)
  with enc show ?thesis by blast
qed

theorem des_roundtrip_witness:
  "\<exists>c. ldesencode [1, 2, 3, 4, 5, 6, 7, 8] [104, 105] = Some (Inr c) \<and>
    ldesdecode [1, 2, 3, 4, 5, 6, 7, 8] c = Some (Inr [104, 105])"
  by (rule des_roundtrip) simp_all

text \<open>
  Property C40.
  The loop that counts the padding never stops at the start of an eight byte text (its condition compares an
  unsigned number with 0): a text of one block that decrypts to zeros is read in front of its buffer.
\<close>

theorem des_zero_block_reads_before:
  assumes "length key = 8"
  shows "ldesdecode key (des_crypt (des_main_ks key) (replicate 8 0)) = None"
proof -
  let ?c = "des_crypt (des_main_ks key) (replicate 8 0)" and ?z = "replicate 8 (0 :: u8)"
  have nil: "decode_blocks K [] = []" for K by (subst decode_blocks.simps) simp
  have buf: "decode_blocks (rev (des_main_ks key)) ?c = ?z"
    by (subst decode_blocks.simps) (simp add: des_crypt_inverse nil flip: length_0_conv)
  have loop: "padding_loop ?z (int m - 1) k = None" if "m \<le> 8" for m k
    using that
  proof (induction m arbitrary: k)
    case 0
    have "(of_nat (length ?z) - 8 :: u64) \<le> of_int (int 0 - 1)" by simp
    then show ?case by (subst padding_loop.simps) simp
  next
    case (Suc m)
    moreover have "int (Suc m) - 1 = int m" by simp
    ultimately show ?case using padding_step [of ?z m k] by (simp)
  qed
  from loop [of 8 1] have "padding_loop ?z 7 1 = None" by (simp)
  then show ?thesis using assms by (simp add: ldesdecode_def des_key_def buf)
qed

theorem des_zero_block_reads_before_witness:
  "ldesdecode (replicate 8 1) (des_crypt (des_main_ks (replicate 8 1)) (replicate 8 0)) = None"
  by (rule des_zero_block_reads_before) simp

end
