(* ===== verification/CryptText.thy ===== *)
theory CryptText
  imports CryptDes
begin

section \<open>Keys and text encodings (lualib-src/lua-crypt.c)\<close>

text \<open>
  \<open>crypt.hashkey\<close>, \<open>crypt.randomkey\<close>, the hexadecimal and base64 encodings and \<open>crypt.xor_str\<close>. Strings
  are shorter than 2^31 bytes, the range of the \<open>int\<close> that counts them, and so are the results: an int counts these
  too, and \<open>encode_sz\<close> overflows for more than some 1.6G bytes. The theorems: decoding inverts
  encoding, the decoders stay inside the buffer they allocate, a random key is not zero, and the check of a
  hexadecimal digit lets one letter too many pass.
\<close>

subsection \<open>Keys\<close>

fun hash_loop :: "u8 list \<Rightarrow> u32 \<Rightarrow> u32 \<Rightarrow> u32 \<times> u32" where
  "hash_loop [] djb js = (djb, js)"
| "hash_loop (c # cs) djb js =
     hash_loop cs (djb + (push_bit 5 djb + ucast c)) (js XOR (push_bit 5 js + ucast c + drop_bit 2 js))"

text \<open>The bytes of a word, the lowest first.\<close>

definition word_le_bytes :: "u32 \<Rightarrow> u8 list" where
  "word_le_bytes x = [ucast (x AND 0xff), ucast (drop_bit 8 x AND 0xff), ucast (drop_bit 16 x AND 0xff), ucast (drop_bit 24 x AND 0xff)]"

definition Hash :: "u8 list \<Rightarrow> u8 list" where
  "Hash s = (let (djb, js) = hash_loop s 5381 1315423911 in word_le_bytes djb @ word_le_bytes js)"

definition lhashkey :: "u8 list \<Rightarrow> u8 list" where
  "lhashkey key = Hash key"

text \<open>\<open>rnd\<close>: what \<open>random()\<close> returns, one number for each of the eight bytes.\<close>

definition lrandomkey :: "(nat \<Rightarrow> u64) \<Rightarrow> u8 list" where
  "lrandomkey rnd =
     (let tmp = map (\<lambda>i. ucast (rnd i AND 0xff)) [0..<8]; x = foldl (XOR) 0 tmp
      in if x = 0 then tmp[0 := tmp ! 0 OR 1] else tmp)"

subsection \<open>Hexadecimal\<close>

definition hex_digits :: "u8 list" where
  "hex_digits = map of_char ''0123456789abcdef''"

fun ltohex :: "u8 list \<Rightarrow> u8 list" where
  "ltohex [] = []"
| "ltohex (c # cs) = hex_digits ! unat (drop_bit 4 c) # hex_digits ! unat (c AND 0xf) # ltohex cs"

text \<open>The macro \<open>HEX\<close>: a \<open>char\<close> is signed, the result is cut to eight bits.\<close>

definition HEX :: "u8 \<Rightarrow> u8" where
  "HEX c = (if 48 \<le> sint c \<and> sint c \<le> 57 then c - 48 else c - 97 + 10)"

fun hex_loop :: "u8 list \<Rightarrow> crypt_error + u8 list" where
  "hex_loop (a # b # cs) =
     (if HEX a > 16 \<or> HEX b > 16 then Inl InvalidText
      else case hex_loop cs of Inl e \<Rightarrow> Inl e | Inr r \<Rightarrow> Inr ((push_bit 4 (HEX a) OR HEX b) # r))"
| "hex_loop _ = Inr []"

definition lfromhex :: "u8 list \<Rightarrow> crypt_error + u8 list" where
  "lfromhex s = (if length s mod 2 \<noteq> 0 then Inl (InvalidTextLength (length s)) else hex_loop s)"

subsection \<open>Base64\<close>

definition b64_encoding :: "u8 list" where
  "b64_encoding = map of_char ''ABCDEFGHIJKLMNOPQRSTUVWXYZabcdefghijklmnopqrstuvwxyz0123456789+/''"

definition b64_char :: "u32 \<Rightarrow> u8" where
  "b64_char v = b64_encoding ! unat v"

fun b64_loop :: "u8 list \<Rightarrow> u8 list" where
  "b64_loop (a # b # c # cs) =
     (let v = push_bit 16 (ucast a) OR push_bit 8 (ucast b) OR ucast c :: u32
      in b64_char (drop_bit 18 v) # b64_char (drop_bit 12 v AND 0x3f) # b64_char (drop_bit 6 v AND 0x3f) #
         b64_char (v AND 0x3f) # b64_loop cs)"
| "b64_loop [a] =
     (let v = ucast a :: u32 in [b64_char (drop_bit 2 v), b64_char (push_bit 4 (v AND 3)), 61, 61])"
| "b64_loop [a, b] =
     (let v = push_bit 8 (ucast a) OR ucast b :: u32
      in [b64_char (drop_bit 10 v), b64_char (drop_bit 4 v AND 0x3f), b64_char (push_bit 2 (v AND 0xf)), 61])"
| "b64_loop [] = []"

text \<open>What is returned are the first \<open>encode_sz\<close> bytes of the buffer.\<close>

definition lb64encode :: "u8 list \<Rightarrow> u8 list option" where
  "lb64encode s = mem_read (b64_loop s) ((length s + 2) div 3 * 4)"

definition b64_decoding :: "int list" where
  "b64_decoding = [62, - 1, - 1, - 1, 63, 52, 53, 54, 55, 56, 57, 58, 59, 60, 61, - 1, - 1, - 1, - 2, - 1,
    - 1, - 1, 0, 1, 2, 3, 4, 5, 6, 7, 8, 9, 10, 11, 12, 13, 14, 15, 16, 17,
    18, 19, 20, 21, 22, 23, 24, 25, - 1, - 1, - 1, - 1, - 1, - 1, 26, 27, 28, 29, 30, 31,
    32, 33, 34, 35, 36, 37, 38, 39, 40, 41, 42, 43, 44, 45, 46, 47, 48, 49, 50, 51]"

definition b64index :: "u8 \<Rightarrow> int" where
  "b64index c = (if c < 43 then - 1
     else if unat (c - 43) \<ge> length b64_decoding then - 1 else b64_decoding ! unat (c - 43))"

text \<open>The next \<open>j\<close> letters, others skipped: their values, how many are padding, and the rest of the text.
  \<open>None\<close>: the text ended.\<close>

fun b64_group :: "nat \<Rightarrow> u8 list \<Rightarrow> (int list \<times> nat \<times> u8 list) option" where
  "b64_group 0 s = Some ([], 0, s)"
| "b64_group (Suc j) [] = None"
| "b64_group (Suc j) (t # ts) =
     (if b64index t = - 1 then b64_group (Suc j) ts
      else do {
        (c, padding, rest) \<leftarrow> b64_group j ts;
        Some (b64index t # c, (if b64index t = - 2 then padding + 1 else padding), rest) })"

text \<open>The bytes of four letters.\<close>

definition b64_bytes :: "int list \<Rightarrow> nat \<Rightarrow> crypt_error + u8 list" where
  "b64_bytes c padding =
     (if padding = 0 then
        (let v = push_bit 18 (of_int (c ! 0)) OR push_bit 12 (of_int (c ! 1)) OR push_bit 6 (of_int (c ! 2)) OR of_int (c ! 3) :: u32
         in Inr [ucast (drop_bit 16 v), ucast (drop_bit 8 v AND 0xff), ucast (v AND 0xff)])
      else if padding = 1 then
        (if c ! 3 \<noteq> - 2 \<or> (of_int (c ! 2) AND 3 :: u32) \<noteq> 0 then Inl InvalidText
         else let v = push_bit 10 (of_int (c ! 0)) OR push_bit 4 (of_int (c ! 1)) OR drop_bit 2 (of_int (c ! 2)) :: u32
              in Inr [ucast (drop_bit 8 v), ucast (v AND 0xff)])
      else if padding = 2 then
        (if c ! 3 \<noteq> - 2 \<or> c ! 2 \<noteq> - 2 \<or> (of_int (c ! 1) AND 0xf :: u32) \<noteq> 0 then Inl InvalidText
         else let v = push_bit 2 (of_int (c ! 0)) OR drop_bit 4 (of_int (c ! 1)) :: u32 in Inr [ucast v])
      else Inl InvalidText)"

lemma b64_group_shorter: "b64_group j s = Some (c, padding, rest) \<Longrightarrow> length rest + j \<le> length s \<and> length c = j"
  by (induction j s arbitrary: c padding rest rule: b64_group.induct)
    (auto simp: bind_eq_Some_conv split: if_splits intro: le_SucI)

function b64_decode_loop :: "u8 list \<Rightarrow> crypt_error + u8 list" where
  "b64_decode_loop s =
     (if s = [] then Inr []
      else case b64_group 4 s of
        None \<Rightarrow> Inl InvalidText
      | Some (c, padding, rest) \<Rightarrow>
          (case b64_bytes c padding of
             Inl e \<Rightarrow> Inl e
           | Inr out \<Rightarrow> (case b64_decode_loop rest of Inl e \<Rightarrow> Inl e | Inr r \<Rightarrow> Inr (out @ r))))"
  by pat_completeness auto
termination
  by (relation "measure length") (auto dest!: b64_group_shorter)

declare b64_decode_loop.simps [simp del]

text \<open>The buffer has \<open>decode_sz\<close> bytes; a byte more would be written behind it.\<close>

definition lb64decode :: "u8 list \<Rightarrow> (crypt_error + u8 list) option" where
  "lb64decode s =
     (case b64_decode_loop s of
        Inl e \<Rightarrow> Some (Inl e)
      | Inr out \<Rightarrow> do { c_assert (length out \<le> (length s + 3) div 4 * 3); Some (Inr out) })"

subsection \<open>Exclusive or\<close>

datatype xor_error = EmptyKey

definition lxor_str :: "u8 list \<Rightarrow> u8 list \<Rightarrow> xor_error + u8 list" where
  "lxor_str s1 s2 =
     (if length s2 = 0 then Inl EmptyKey
      else Inr (map (\<lambda>i. s1 ! i XOR s2 ! (i mod length s2)) [0..<length s1]))"

subsection \<open>Keys and hexadecimal\<close>

lemma less_16: "n < 16 \<Longrightarrow> n \<in> set [0, 1, 2, 3, 4, 5, 6, 7, 8, 9, 10, 11, 12, 13, 14, 15 :: nat]"
  by simp presburger

lemma hex_digit: "n < 16 \<Longrightarrow> HEX (hex_digits ! n) = of_nat n"
proof -
  have "\<forall>n \<in> set [0, 1, 2, 3, 4, 5, 6, 7, 8, 9, 10, 11, 12, 13, 14, 15 :: nat]. HEX (hex_digits ! n) = of_nat n"
    by (simp add: HEX_def hex_digits_def)
  then show "n < 16 \<Longrightarrow> HEX (hex_digits ! n) = of_nat n" using less_16 by blast
qed

lemma nibbles: "push_bit 4 (drop_bit 4 c) OR (c AND 0xf) = (c :: u8)"
proof -
  have "push_bit 4 (drop_bit 4 c) OR (c AND mask 4) = c" by (rule bit_word_eqI) (auto simp: bit_simps)
  then show ?thesis by (simp add: mask_numeral)
qed

lemma nibble_less: "unat (drop_bit 4 c) < 16" "unat (c AND 0xf) < 16" for c :: u8
proof -
  show "unat (drop_bit 4 c) < 16" using unat_bound [of c] by (simp add: unat_drop_bit_div)
  have "(0xf :: u8) = mask 4" by (simp add: mask_numeral)
  then show "unat (c AND 0xf) < 16" by (simp only: unat_and_mask) simp
qed

text \<open>
  \<open>hexdecode\<close> inverts \<open>hexencode\<close>.
\<close>

theorem hex_roundtrip: "lfromhex (ltohex s) = Inr s"
proof -
  have small: "\<not> (of_nat n :: u8) > 16" if "n < 16" for n
    using that by (simp add: word_less_nat_alt unat_of_nat)
  have "hex_loop (ltohex s) = Inr s"
  proof (induction s)
    case (Cons c cs)
    then show ?case using small [OF nibble_less(1), of c] small [OF nibble_less(2), of c]
      by (simp add: hex_digit nibble_less nibbles del: word_of_nat_less_iff)
  qed simp
  moreover have "length (ltohex s) = 2 * length s" by (induction s) simp_all
  ultimately show ?thesis by (simp add: lfromhex_def)
qed

text \<open>The check \<open>hi > 16\<close> lets the letter g pass, with the value 16, which leaves the byte.\<close>

lemma hex_accepts_g: "lfromhex (str_g @ s) = Inr (0 # r)" if "str_g = [103, 48]" "lfromhex s = Inr r"
  using that by (auto simp: lfromhex_def HEX_def split: if_splits)

lemma random_key: "length (lrandomkey rnd) = 8 \<and> lrandomkey rnd \<noteq> replicate 8 0"
proof -
  define tmp where "tmp = map (\<lambda>i. ucast (rnd i AND 0xff) :: u8) [0..<8]"
  have len: "length tmp = 8" by (simp add: tmp_def)
  obtain a b c d e f g h where tmp: "tmp = [a, b, c, d, e, f, g, h]" using list8 [OF len] by blast
  have "lrandomkey rnd = (if foldl (XOR) 0 tmp = 0 then tmp[0 := tmp ! 0 OR 1] else tmp)"
    by (simp only: lrandomkey_def tmp_def Let_def)
  moreover have "a OR 1 \<noteq> 0" by (metis or_eq_0_iff one_neq_zero)
  ultimately show ?thesis unfolding tmp by (auto simp: numeral_eq_Suc)
qed

text \<open>
  \<open>xor_str\<close> with the same key twice is the identity.
\<close>

theorem xor_str_twice: "lxor_str s k = Inr r \<Longrightarrow> lxor_str r k = Inr s"
  by (auto simp: lxor_str_def xor.assoc split: if_splits intro: nth_equalityI)

theorem xor_str_twice_witness: "lxor_str [98, 104, 98] [3, 4] = Inr [97, 108, 97]"
  by (rule xor_str_twice) (simp add: lxor_str_def upt_rec)

subsection \<open>Base64\<close>

lemma less_64: "n < 64 \<Longrightarrow> n \<in> set [0..<64]"
  by simp

lemma b64index_char: "v < 64 \<Longrightarrow> b64index (b64_char v) = int (unat v)"
proof -
  have "list_all (\<lambda>n. b64index (b64_encoding ! n) = int n) [0..<64]"
    by code_simp
  then have "b64index (b64_encoding ! n) = int n" if "n < 64" for n
    using that by (simp add: list_all_iff)
  moreover have "v < 64 \<Longrightarrow> unat v < 64" by (simp add: word_less_nat_alt)
  ultimately show "v < 64 \<Longrightarrow> b64index (b64_char v) = int (unat v)" by (simp add: b64_char_def)
qed

lemma b64index_equals: "b64index 61 = - 2"
  by code_simp

text \<open>Parts of a word, and the word of its parts.\<close>

lemma b64_part: "x AND 0x3f < (64 :: u32)"
proof -
  have "unat (x AND mask 6) < 64" by (simp only: unat_and_mask) simp
  then show ?thesis by (simp add: word_less_nat_alt mask_numeral)
qed

lemma three_bytes:
  fixes a b c :: u8
  defines "v \<equiv> be32 0 a b c"
  shows "drop_bit 18 v < 64"
    and "push_bit 18 (drop_bit 18 v) OR push_bit 12 (drop_bit 12 v AND 0x3f) OR push_bit 6 (drop_bit 6 v AND 0x3f) OR (v AND 0x3f) = v"
    and "ucast (drop_bit 16 v) = a" and "ucast (drop_bit 8 v AND 0xff) = b" and "ucast (v AND 0xff) = c"
proof -
  have "push_bit 18 (drop_bit 18 v) OR push_bit 12 (drop_bit 12 v AND mask 6) OR push_bit 6 (drop_bit 6 v AND mask 6) OR (v AND mask 6) = v"
  proof (rule bit_word_eqI)
    fix i :: nat
    consider "i < 6" | "6 \<le> i" "i < 12" | "12 \<le> i" "i < 18" | "18 \<le> i" by linarith
    then show "i < LENGTH(32) \<Longrightarrow> bit (push_bit 18 (drop_bit 18 v) OR push_bit 12 (drop_bit 12 v AND mask 6) OR
        push_bit 6 (drop_bit 6 v AND mask 6) OR (v AND mask 6)) i = bit v i"
      by cases (auto simp: bit_simps)
  qed
  then show "push_bit 18 (drop_bit 18 v) OR push_bit 12 (drop_bit 12 v AND 0x3f) OR push_bit 6 (drop_bit 6 v AND 0x3f) OR (v AND 0x3f) = v"
    by (simp add: mask_numeral)
  show "ucast (drop_bit 16 v) = a" by (simp add: v_def)
  have "ucast (drop_bit 8 v AND mask 8) = b" "ucast (v AND mask 8) = c"
    by (rule bit_word_eqI, simp add: v_def bit_be32 bit_simps)+
  then show "ucast (drop_bit 8 v AND 0xff) = b" "ucast (v AND 0xff) = c" by (simp_all add: mask_numeral)
  have "drop_bit 18 v = drop_bit 18 v AND mask 6" by (rule bit_word_eqI) (auto simp: v_def bit_be32 bit_simps)
  then show "drop_bit 18 v < 64" using b64_part [of "drop_bit 18 v"] by (simp add: mask_numeral)
qed

lemma two_bytes:
  fixes a b :: u8
  defines "v \<equiv> be32 0 0 a b"
  defines "p \<equiv> push_bit 2 (v AND 0xf)"
  shows "drop_bit 10 v < 64" and "p < 64" and "p AND 3 = 0"
    and "push_bit 10 (drop_bit 10 v) OR push_bit 4 (drop_bit 4 v AND 0x3f) OR drop_bit 2 p = v"
    and "ucast (drop_bit 8 v) = a" and "ucast (v AND 0xff) = b"
proof -
  have p: "p = push_bit 2 (v AND mask 4)" by (simp add: p_def mask_numeral)
  have "drop_bit 10 v = drop_bit 10 v AND mask 6" by (rule bit_word_eqI) (auto simp: v_def bit_be32 bit_simps)
  then show "drop_bit 10 v < 64" using b64_part [of "drop_bit 10 v"] by (simp add: mask_numeral)
  have "p = p AND mask 6" unfolding p by (rule bit_word_eqI) (auto simp: bit_simps)
  then show "p < 64" using b64_part [of p] by (simp add: mask_numeral)
  have "p AND mask 2 = 0" unfolding p by (rule bit_word_eqI) (auto simp: bit_simps)
  then show "p AND 3 = 0" by (simp add: mask_numeral)
  have "push_bit 10 (drop_bit 10 v) OR push_bit 4 (drop_bit 4 v AND mask 6) OR drop_bit 2 p = v"
  proof (rule bit_word_eqI)
    fix i :: nat
    consider "i < 4" | "4 \<le> i" "i < 10" | "10 \<le> i" by linarith
    then show "i < LENGTH(32) \<Longrightarrow> bit (push_bit 10 (drop_bit 10 v) OR push_bit 4 (drop_bit 4 v AND mask 6) OR drop_bit 2 p) i = bit v i"
      unfolding p by cases (auto simp: bit_simps)
  qed
  then show "push_bit 10 (drop_bit 10 v) OR push_bit 4 (drop_bit 4 v AND 0x3f) OR drop_bit 2 p = v" by (simp add: mask_numeral)
  show "ucast (drop_bit 8 v) = a" by (simp add: v_def)
  have "ucast (v AND mask 8) = b" by (rule bit_word_eqI) (simp add: v_def bit_be32 bit_simps)
  then show "ucast (v AND 0xff) = b" by (simp add: mask_numeral)
qed

lemma one_byte:
  fixes a :: u8
  defines "v \<equiv> ucast a :: u32"
  defines "p \<equiv> push_bit 4 (v AND 3)"
  shows "drop_bit 2 v < 64" and "p < 64" and "p AND 0xf = 0" and "ucast (push_bit 2 (drop_bit 2 v) OR drop_bit 4 p) = a"
proof -
  have p: "p = push_bit 4 (v AND mask 2)" by (simp add: p_def mask_numeral)
  have "drop_bit 2 v = drop_bit 2 v AND mask 6" by (rule bit_word_eqI) (auto simp: v_def bit_simps dest: bit_imp_le_length)
  then show "drop_bit 2 v < 64" using b64_part [of "drop_bit 2 v"] by (simp add: mask_numeral)
  have "p = p AND mask 6" unfolding p by (rule bit_word_eqI) (auto simp: bit_simps)
  then show "p < 64" using b64_part [of p] by (simp add: mask_numeral)
  have "p AND mask 4 = 0" unfolding p by (rule bit_word_eqI) (auto simp: bit_simps)
  then show "p AND 0xf = 0" by (simp add: mask_numeral)
  show "ucast (push_bit 2 (drop_bit 2 v) OR drop_bit 4 p) = a"
  proof (rule bit_word_eqI)
    fix i :: nat
    have "Suc (Suc (i - 2)) = i" if "\<not> i < 2" using that by simp
    then show "i < LENGTH(8) \<Longrightarrow> bit (ucast (push_bit 2 (drop_bit 2 v) OR drop_bit 4 p) :: u8) i = bit a i"
      unfolding p v_def by (cases "i < 2") (auto simp: bit_simps)
  qed
qed

lemma group_chars:
  assumes "\<And>x. x \<in> set cs \<Longrightarrow> b64index x \<noteq> - 1" and "length cs = j"
  shows "b64_group j (cs @ rest) = Some (map b64index cs, length (filter (\<lambda>x. b64index x = - 2) cs), rest)"
  using assms
proof (induction cs arbitrary: j)
  case (Cons c cs)
  then show ?case by (cases j) simp_all
qed simp

lemma decode_step:
  assumes "b64_group 4 (cs @ rest) = Some (c, padding, rest)" and "b64_bytes c padding = Inr out" and "b64_decode_loop rest = Inr r"
    and "cs \<noteq> []"
  shows "b64_decode_loop (cs @ rest) = Inr (out @ r)"
  using assms by (subst b64_decode_loop.simps) simp

lemma char_values:
  assumes "v < 64"
  shows "b64index (b64_char v) \<noteq> - 1" "b64index (b64_char v) \<noteq> - 2" "of_int (b64index (b64_char v)) = v"
proof -
  have "0 \<le> uint v" by simp
  then show "b64index (b64_char v) \<noteq> - 1" "b64index (b64_char v) \<noteq> - 2" "of_int (b64index (b64_char v)) = v"
    using b64index_char [OF assms] by (simp_all, linarith+)
qed

lemma be32_three: "push_bit 16 (ucast a) OR push_bit 8 (ucast b) OR ucast c = be32 0 a b c"
  by (simp add: be32_def)

lemma be32_two: "push_bit 8 (ucast b) OR ucast c = be32 0 0 b c"
  by (simp add: be32_def)

lemma decode_loop_encode: "b64_decode_loop (b64_loop s) = Inr s"
proof (induction s rule: b64_loop.induct)
  case (1 a b c cs)
  let ?v = "be32 0 a b c"
  let ?cs = "[b64_char (drop_bit 18 ?v), b64_char (drop_bit 12 ?v AND 0x3f), b64_char (drop_bit 6 ?v AND 0x3f), b64_char (?v AND 0x3f)]"
  note v = three_bytes [of a b c]
  note ch = char_values [OF v(1)] char_values [OF b64_part]
  have "b64_group 4 (?cs @ b64_loop cs) = Some (map b64index ?cs, 0, b64_loop cs)"
    by (subst group_chars) (use ch in auto)
  moreover have "b64_bytes (map b64index ?cs) 0 = Inr [a, b, c]"
    by (simp only: b64_bytes_def list.map nth_Cons_0 nth_Cons_numeral) (use v ch in \<open>simp add: Let_def\<close>)
  ultimately have "b64_decode_loop (?cs @ b64_loop cs) = Inr ([a, b, c] @ cs)" using 1 by (rule decode_step) simp_all
  then show ?case by (simp only: b64_loop.simps Let_def be32_three) simp
next
  case (2 a)
  let ?v = "ucast a :: u32"
  let ?cs = "[b64_char (drop_bit 2 ?v), b64_char (push_bit 4 (?v AND 3)), 61, 61]"
  note v = one_byte [of a]
  note ch = char_values [OF v(1)] char_values [OF v(2)] b64index_equals
  have "b64_group 4 (?cs @ []) = Some (map b64index ?cs, 2, [])"
    by (subst group_chars) (use ch in auto)
  moreover have "b64_bytes (map b64index ?cs) 2 = Inr [a]"
    by (simp only: b64_bytes_def list.map nth_Cons_0 nth_Cons_numeral) (use v ch in \<open>simp add: Let_def\<close>)
  moreover have "b64_decode_loop [] = Inr []" by (simp add: b64_decode_loop.simps)
  ultimately have "b64_decode_loop (?cs @ []) = Inr ([a] @ [])" by (rule decode_step) simp
  then show ?case by (simp only: b64_loop.simps Let_def) simp
next
  case (3 a b)
  let ?v = "be32 0 0 a b"
  let ?cs = "[b64_char (drop_bit 10 ?v), b64_char (drop_bit 4 ?v AND 0x3f), b64_char (push_bit 2 (?v AND 0xf)), 61]"
  note v = two_bytes [of a b]
  note ch = char_values [OF v(1)] char_values [OF b64_part] char_values [OF v(2)] b64index_equals
  have "b64_group 4 (?cs @ []) = Some (map b64index ?cs, 1, [])"
    by (subst group_chars) (use ch in auto)
  moreover have "b64_bytes (map b64index ?cs) 1 = Inr [a, b]"
    by (simp only: b64_bytes_def list.map nth_Cons_0 nth_Cons_numeral) (use v ch in \<open>simp add: Let_def\<close>)
  moreover have "b64_decode_loop [] = Inr []" by (simp add: b64_decode_loop.simps)
  ultimately have "b64_decode_loop (?cs @ []) = Inr ([a, b] @ [])" by (rule decode_step) simp
  then show ?case by (simp only: b64_loop.simps Let_def be32_two) simp
next
  case 4
  show ?case by (simp add: b64_decode_loop.simps)
qed

lemma length_b64_loop: "length (b64_loop s) = (length s + 2) div 3 * 4"
proof (induction s rule: b64_loop.induct)
  case (1 a b c cs)
  have "(length cs + 2 + 3) div 3 = (length cs + 2) div 3 + 1" by (rule div_add_self2) simp
  then show ?case using 1 by (simp add: Let_def)
qed (simp_all add: Let_def)

lemma b64_bytes_length: "b64_bytes c padding = Inr out \<Longrightarrow> length out \<le> 3"
  by (auto simp: b64_bytes_def Let_def split: if_splits)

lemma decode_loop_length: "b64_decode_loop s = Inr out \<Longrightarrow> length out \<le> length s div 4 * 3"
proof (induction s arbitrary: out rule: b64_decode_loop.induct)
  case (1 s)
  show ?case
  proof (cases "s = []")
    case True
    then show ?thesis using 1(2) by (simp add: b64_decode_loop.simps)
  next
    case False
    then obtain c padding rest o1 r where g: "b64_group 4 s = Some (c, padding, rest)" "b64_bytes c padding = Inr o1"
      "b64_decode_loop rest = Inr r" "out = o1 @ r"
      using 1(2) by (subst (asm) b64_decode_loop.simps) (auto split: option.splits sum.splits)
    have "length r \<le> length rest div 4 * 3" using 1(1) [OF False g(1) refl refl g(2,3)] .
    moreover have "length rest + 4 \<le> length s" using b64_group_shorter [OF g(1)] by simp
    then have "length rest div 4 + 1 \<le> length s div 4" using div_le_mono [of "length rest + 4" "length s" 4] by simp
    ultimately show ?thesis using b64_bytes_length [OF g(2)] g(4) by simp
  qed
qed

lemma decode_in_buffer: "b64_decode_loop s = Inr out \<Longrightarrow> length out \<le> (length s + 3) div 4 * 3"
  using decode_loop_length [of s out] div_le_mono [of "length s" "length s + 3" 4] by simp

text \<open>
  The base64 decoder stays inside the buffer it allocates, whatever the text.
\<close>

theorem base64_decode_in_buffer: "lb64decode s \<noteq> None"
  by (cases "b64_decode_loop s") (simp_all add: lb64decode_def decode_in_buffer)

text \<open>
  Property C39.
  \<open>base64decode\<close> inverts \<open>base64encode\<close>, padding included, and the encoder returns only bytes it wrote.
\<close>

theorem base64_roundtrip: "\<exists>c. lb64encode s = Some c \<and> lb64decode c = Some (Inr s)"
proof -
  have "lb64encode s = Some (b64_loop s)" by (simp add: lb64encode_def mem_read_def length_b64_loop)
  moreover have "lb64decode (b64_loop s) = Some (Inr s)"
    using decode_in_buffer [OF decode_loop_encode] by (simp add: decode_loop_encode lb64decode_def)
  ultimately show ?thesis by blast
qed


end
