(* ===== verification/CryptDh.thy ===== *)
theory CryptDh
  imports CryptText
begin

section \<open>Key exchange (lualib-src/lua-crypt.c)\<close>

text \<open>
  \<open>crypt.dhexchange\<close> and \<open>crypt.dhsecret\<close>: powers modulo the largest prime below 2^64, computed in words of
  64 bits without a wider product. \<open>None\<close> is a recursion without end (an exponent 0). The theorems: the
  multiplication and the power are those of the natural numbers modulo \<open>P\<close>, and both sides of an exchange
  get the same secret.
\<close>

subsection \<open>Powers\<close>

definition P_dh :: u64 where "P_dh = 0xffffffffffffffc5"

function mul_mod_loop :: "u64 \<Rightarrow> u64 \<Rightarrow> u64 \<Rightarrow> u64" where
  "mul_mod_loop m a b =
     (if b = 0 then m
      else let m = (if b AND 1 \<noteq> 0 then let t = P_dh - a in if t \<le> m then m - t else m + a else m);
               a = (if P_dh - a \<le> a then a * 2 - P_dh else a * 2)
           in mul_mod_loop m a (drop_bit 1 b))"
  by pat_completeness auto
termination
  by (relation "measure (\<lambda>(m, a, b). unat b)") (auto simp: unat_drop_bit_div unat_gt_0)

declare mul_mod_loop.simps [simp del]

definition mul_mod_p :: "u64 \<Rightarrow> u64 \<Rightarrow> u64" where
  "mul_mod_p a b = mul_mod_loop 0 a b"

partial_function (option) pow_mod_p :: "u64 \<Rightarrow> u64 \<Rightarrow> u64 option" where
  "pow_mod_p a b =
     (if b = 1 then Some a
      else do {
        t \<leftarrow> pow_mod_p a (drop_bit 1 b);
        let t = mul_mod_p t t;
        Some (if b mod 2 \<noteq> 0 then mul_mod_p t a else t) })"

definition powmodp :: "u64 \<Rightarrow> u64 \<Rightarrow> u64 option" where
  "powmodp a b = pow_mod_p (if a > P_dh then a mod P_dh else a) b"

subsection \<open>The Lua functions\<close>

definition le32 :: "u8 list \<Rightarrow> nat \<Rightarrow> u32" where
  "le32 x i = ucast (x ! i) OR push_bit 8 (ucast (x ! (i + 1))) OR push_bit 16 (ucast (x ! (i + 2))) OR push_bit 24 (ucast (x ! (i + 3)))"

datatype key_error = InvalidX | InvalidY | InvalidKey | CantBeZero

text \<open>\<open>read64\<close>: two strings of eight bytes, each as its two halves, the lower first.\<close>

definition read64 :: "u8 list \<Rightarrow> u8 list \<Rightarrow> key_error + (u32 \<times> u32) \<times> (u32 \<times> u32)" where
  "read64 x y =
     (if length x \<noteq> 8 then Inl InvalidX
      else if length y \<noteq> 8 then Inl InvalidY
      else Inr ((le32 x 0, le32 x 4), (le32 y 0, le32 y 4)))"

definition push64 :: "u64 \<Rightarrow> u8 list" where
  "push64 r = [ucast (r AND 0xff), ucast (drop_bit 8 r AND 0xff), ucast (drop_bit 16 r AND 0xff), ucast (drop_bit 24 r AND 0xff),
     ucast (drop_bit 32 r AND 0xff), ucast (drop_bit 40 r AND 0xff), ucast (drop_bit 48 r AND 0xff), ucast (drop_bit 56 r AND 0xff)]"

definition join64 :: "u32 \<times> u32 \<Rightarrow> u64" where
  "join64 x = ucast (fst x) OR push_bit 32 (ucast (snd x))"

definition ldhsecret :: "u8 list \<Rightarrow> u8 list \<Rightarrow> (key_error + u8 list) option" where
  "ldhsecret x y =
     (case read64 x y of
        Inl e \<Rightarrow> Some (Inl e)
      | Inr (x, y) \<Rightarrow>
          (let xx = join64 x; yy = join64 y in
           if xx = 0 \<or> yy = 0 then Some (Inl CantBeZero)
           else do { r \<leftarrow> powmodp xx yy; Some (Inr (push64 r)) }))"

definition G_dh :: u64 where "G_dh = 5"

definition ldhexchange :: "u8 list \<Rightarrow> (key_error + u8 list) option" where
  "ldhexchange x =
     (if length x \<noteq> 8 then Some (Inl InvalidKey)
      else let x64 = join64 (le32 x 0, le32 x 4) in
           if x64 = 0 then Some (Inl CantBeZero)
           else do { r \<leftarrow> powmodp G_dh x64; Some (Inr (push64 r)) })"

subsection \<open>Multiplication and powers modulo P\<close>

definition p_nat :: nat where "p_nat = 18446744073709551557"

lemma unat_P: "unat P_dh = p_nat"
  by (simp add: P_dh_def p_nat_def)

lemma add_mod:
  assumes "unat m < p_nat" and "unat a \<le> p_nat"
  shows "unat (if P_dh - a \<le> m then m - (P_dh - a) else m + a) = (unat m + unat a) mod p_nat"
proof -
  have t: "unat (P_dh - a) = p_nat - unat a" using assms(2) by (simp add: unat_sub word_le_nat_alt unat_P)
  have p: "p_nat < 2 ^ 64" by (simp add: p_nat_def)
  show ?thesis
  proof (cases "P_dh - a \<le> m")
    case True
    then have "unat (m - (P_dh - a)) = unat m - (p_nat - unat a)" by (simp add: unat_sub t)
    moreover have "p_nat - unat a \<le> unat m" using True by (simp add: word_le_nat_alt t)
    then have "(unat m + unat a) mod p_nat = unat m - (p_nat - unat a)"
      using assms by (subst mod_if) (auto simp: mod_less)
    ultimately show ?thesis using True by simp
  next
    case False
    then have "unat m + unat a < p_nat" using assms by (simp add: word_le_nat_alt t)
    moreover from this have "unat (m + a) = unat m + unat a" using p by (subst unat_plus_simple [THEN iffD1]) (simp_all add: no_olen_add_nat)
    ultimately show ?thesis using False by simp
  qed
qed

lemma double_mod:
  fixes a :: u64
  assumes "unat a \<le> p_nat"
  defines "d \<equiv> (if P_dh - a \<le> a then a * 2 - P_dh else a * 2)"
  shows "unat d \<le> p_nat" and "unat d mod p_nat = (2 * unat a) mod p_nat"
proof -
  have t: "unat (P_dh - a) = p_nat - unat a" using assms(1) by (simp add: unat_sub word_le_nat_alt unat_P)
  have p: "p_nat < 2 ^ 64" by (simp add: p_nat_def)
  have "unat d = (if p_nat \<le> 2 * unat a then 2 * unat a - p_nat else 2 * unat a)"
  proof (cases "P_dh - a \<le> a")
    case True
    then have le: "p_nat \<le> 2 * unat a" using assms(1) by (simp add: word_le_nat_alt t)
    have "a * 2 - P_dh = of_nat (2 * unat a - p_nat)"
      using le by (simp add: of_nat_diff unat_P [symmetric] mult.commute)
    moreover have "2 * unat a - p_nat < 2 ^ 64" using assms(1) p by linarith
    ultimately have "unat (a * 2 - P_dh) = 2 * unat a - p_nat" by (simp only: unat_of_nat) simp
    then show ?thesis using True le by (simp add: d_def)
  next
    case False
    then have lt: "2 * unat a < p_nat" using assms(1) by (simp add: word_le_nat_alt t)
    have "a * 2 = of_nat (2 * unat a)" by (simp add: mult.commute)
    moreover have "2 * unat a < 2 ^ 64" using lt p by linarith
    ultimately have "unat (a * 2) = 2 * unat a" by (simp only: unat_of_nat) simp
    then show ?thesis using False lt by (simp add: d_def)
  qed
  then show "unat d \<le> p_nat" "unat d mod p_nat = (2 * unat a) mod p_nat"
    using assms(1) by (auto simp: le_mod_geq)
qed

lemma low_bit: "b AND 1 \<noteq> 0 \<longleftrightarrow> odd (unat (b :: u64))"
proof -
  have "unat (b AND mask 1) = unat b mod 2" by (simp only: unat_and_mask power_one_right)
  then have "unat (b AND 1) = unat b mod 2" by simp
  then show ?thesis by (metis odd_iff_mod_2_eq_one unat_eq_zero not_mod_2_eq_1_eq_0 zero_neq_one)
qed

lemma mul_mod_loop_eq:
  "unat m < p_nat \<Longrightarrow> unat a \<le> p_nat \<Longrightarrow> unat (mul_mod_loop m a b) = (unat m + unat a * unat b) mod p_nat"
proof (induction m a b rule: mul_mod_loop.induct)
  case (1 m a b)
  show ?case
  proof (cases "b = 0")
    case True
    then show ?thesis using 1(2) by (simp add: mul_mod_loop.simps)
  next
    case False
    define m' where "m' = (if b AND 1 \<noteq> 0 then if P_dh - a \<le> m then m - (P_dh - a) else m + a else m)"
    define a' where "a' = (if P_dh - a \<le> a then a * 2 - P_dh else a * 2)"
    note d = double_mod [OF 1(3), folded a'_def]
    have p: "0 < p_nat" by (simp add: p_nat_def)
    have m': "unat m' = (unat m + (if odd (unat b) then unat a else 0)) mod p_nat"
      using add_mod [OF 1(2,3)] 1(2) by (simp add: m'_def low_bit)
    have "unat (mul_mod_loop m a b) = unat (mul_mod_loop m' a' (drop_bit 1 b))"
      by (subst mul_mod_loop.simps) (simp only: False if_False Let_def m'_def a'_def)
    also have "\<dots> = (unat m' + unat a' * unat (drop_bit 1 b)) mod p_nat"
    proof (rule 1(1) [OF False])
      show "unat m' < p_nat" unfolding m' using p by simp
    qed (use d(1) in \<open>simp_all add: m'_def a'_def Let_def\<close>)
    also have "\<dots> = (unat m + (if odd (unat b) then unat a else 0) + 2 * unat a * (unat b div 2)) mod p_nat"
      unfolding m' unat_drop_bit_div
      by (metis (no_types) d(2) mod_add_left_eq mod_add_right_eq mod_mult_left_eq power_one_right)
    also have "unat m + (if odd (unat b) then unat a else 0) + 2 * unat a * (unat b div 2) = unat m + unat a * unat b"
    proof -
      have "unat b = 2 * (unat b div 2) + (if odd (unat b) then 1 else 0)" by (simp add: odd_iff_mod_2_eq_one) presburger
      then have "unat a * unat b = unat a * (2 * (unat b div 2) + (if odd (unat b) then 1 else 0))" by simp
      then show ?thesis by (simp add: algebra_simps)
    qed
    finally show ?thesis .
  qed
qed

lemma mul_mod_p_eq: "unat a \<le> p_nat \<Longrightarrow> unat (mul_mod_p a b) = unat a * unat b mod p_nat"
  by (simp add: mul_mod_p_def mul_mod_loop_eq p_nat_def)

lemma pow_mod_p_eq:
  assumes "unat a \<le> p_nat" and "0 < unat b"
  shows "\<exists>r. pow_mod_p a b = Some r \<and> unat r \<le> p_nat \<and> (b = 1 \<longrightarrow> r = a) \<and> (b \<noteq> 1 \<longrightarrow> unat r < p_nat) \<and>
    unat r mod p_nat = unat a ^ unat b mod p_nat"
  using assms(2)
proof (induction "unat b" arbitrary: b rule: less_induct)
  case less
  have p: "0 < p_nat" by (simp add: p_nat_def)
  show ?case
  proof (cases "b = 1")
    case True
    then show ?thesis using assms(1) by (subst pow_mod_p.simps) simp
  next
    case False
    define b' where "b' = drop_bit 1 b"
    have ub: "unat b' = unat b div 2" by (simp add: b'_def unat_drop_bit_div)
    have "unat b \<noteq> 1" using False by (metis unat_1 word_unat_eq_iff)
    then have "unat b' < unat b" "0 < unat b'" using less(2) unfolding ub by simp_all
    then obtain t where t: "pow_mod_p a b' = Some t" "unat t \<le> p_nat" "unat t mod p_nat = unat a ^ unat b' mod p_nat"
      using less(1) by blast
    let ?t2 = "mul_mod_p t t"
    have t2: "unat ?t2 = unat a ^ (2 * unat b') mod p_nat" "unat ?t2 \<le> p_nat"
      using mul_mod_p_eq [OF t(2), of t] t(3) p
      by (simp_all add: mult_2 power_add) (metis mod_mult_eq)
    have t3: "unat (mul_mod_p ?t2 a) = unat a ^ (2 * unat b' + 1) mod p_nat"
      using mul_mod_p_eq [OF t2(2), of a] t2(1) by (simp add: mod_mult_left_eq mod_mult_right_eq mult.commute)
    have odd: "b mod 2 \<noteq> 0 \<longleftrightarrow> odd (unat b)" by (metis low_bit and_one_eq)
    have e: "unat b = (if odd (unat b) then 2 * unat b' + 1 else 2 * unat b')" unfolding ub by (simp add: odd_two_times_div_two_succ)
    have "pow_mod_p a b = Some (if odd (unat b) then mul_mod_p ?t2 a else ?t2)"
      using False t(1) odd by (subst pow_mod_p.simps) (simp add: b'_def Let_def)
    then show ?thesis using False t2 t3 p e by (cases "odd (unat b)") (auto simp: less_imp_le)
  qed
qed

subsection \<open>Bytes of a key\<close>

lemma le32_be32: "le32 x i = be32 (x ! (i + 3)) (x ! (i + 2)) (x ! (i + 1)) (x ! i)"
  by (simp only: le32_def be32_def or.commute or.left_commute)

lemma bit_join64: "bit (join64 x) i \<longleftrightarrow> (if i < 32 then bit (fst x) i else bit (snd x) (i - 32))"
proof -
  have "bit y j \<Longrightarrow> j < 32" for y :: u32 and j by (drule bit_imp_le_length) simp
  from this [of "snd x" "i - 32"] this [of "fst x" i] show ?thesis
    by (auto simp: join64_def bit_push_bit_iff bit_or_iff bit_ucast_iff)
qed

definition le64 :: "u8 list \<Rightarrow> u64" where
  "le64 x = join64 (le32 x 0, le32 x 4)"

lemma low_byte: "ucast (x AND 0xff) = (ucast x :: u8)" for x :: u64
proof -
  have "ucast (x AND mask 8) = (ucast x :: u8)" by (rule bit_word_eqI) (simp add: bit_simps)
  then show ?thesis by (simp add: mask_numeral)
qed

lemma le64_push64: "le64 (push64 r) = r"
proof -
  have "le32 (push64 r) 0 = ucast r" "le32 (push64 r) 4 = ucast (drop_bit 32 r)"
    by (rule bit_word_eqI, auto simp: push64_def low_byte le32_be32 bit_be32 bit_ucast_iff bit_drop_bit_eq)+
  then show ?thesis unfolding le64_def
    by (intro bit_word_eqI) (simp only: bit_join64 fst_conv snd_conv, auto simp: bit_ucast_iff bit_drop_bit_eq)
qed

lemma push64_le64:
  assumes "length x = 8"
  shows "push64 (le64 x) = x"
proof -
  obtain a b c d e f g h where x: "x = [a, b, c, d, e, f, g, h]" using list8 [OF assms] by blast
  have "ucast (le64 x) = a" "ucast (drop_bit 8 (le64 x)) = b" "ucast (drop_bit 16 (le64 x)) = c" "ucast (drop_bit 24 (le64 x)) = d"
    "ucast (drop_bit 32 (le64 x)) = e" "ucast (drop_bit 40 (le64 x)) = f" "ucast (drop_bit 48 (le64 x)) = g" "ucast (drop_bit 56 (le64 x)) = h"
    by (rule bit_word_eqI, simp add: x le64_def bit_ucast_iff bit_drop_bit_eq bit_join64 le32_be32 bit_be32)+
  then show ?thesis by (simp add: push64_def low_byte x)
qed

lemma length_push64: "length (push64 r) = 8"
  by (simp add: push64_def)

subsection \<open>The exchange\<close>

lemma ldhsecret_eq:
  assumes "length x = 8" and "length y = 8"
  shows "ldhsecret x y = (if le64 x = 0 \<or> le64 y = 0 then Some (Inl CantBeZero)
    else do { r \<leftarrow> powmodp (le64 x) (le64 y); Some (Inr (push64 r)) })"
  using assms by (simp add: ldhsecret_def read64_def le64_def)

lemma ldhexchange_eq:
  assumes "length x = 8"
  shows "ldhexchange x = (if le64 x = 0 then Some (Inl CantBeZero)
    else do { r \<leftarrow> powmodp G_dh (le64 x); Some (Inr (push64 r)) })"
  using assms by (simp add: ldhexchange_def le64_def)

lemma powmodp_eq:
  assumes "0 < unat b" and "unat a < p_nat"
  shows "\<exists>r. powmodp a b = Some r \<and> unat r = unat a ^ unat b mod p_nat"
proof -
  have le: "\<not> a > P_dh" using assms(2) by (simp add: word_less_nat_alt unat_P)
  obtain r where "pow_mod_p a b = Some r" "b = 1 \<longrightarrow> r = a" "b \<noteq> 1 \<longrightarrow> unat r < p_nat" "unat r mod p_nat = unat a ^ unat b mod p_nat"
    using pow_mod_p_eq [OF less_imp_le [OF assms(2)] assms(1)] by blast
  moreover from this have "unat r < p_nat" using assms(2) by (cases "b = 1") simp_all
  ultimately show ?thesis using le by (auto simp: powmodp_def)
qed

text \<open>
  Property C35.
  \<open>powmodp\<close>, which squares and multiplies in 64 bits, is the power of the natural numbers modulo P, for every
  base but P itself and every exponent but 0.
\<close>

theorem powmodp_is_power:
  assumes "b \<noteq> 0" and "a \<noteq> P_dh"
  shows "\<exists>r. powmodp a b = Some r \<and> unat r = unat a ^ unat b mod 18446744073709551557"
proof -
  have b: "0 < unat b" using assms(1) by (simp add: unat_gt_0)
  show ?thesis
  proof (cases "a > P_dh")
    case True
    have "unat (a mod P_dh) = unat a mod p_nat" by (simp add: unat_mod unat_P)
    moreover have "0 < p_nat" by (simp add: p_nat_def)
    ultimately have "unat (a mod P_dh) < p_nat" by simp
    from powmodp_eq [OF b this] obtain r where r: "powmodp (a mod P_dh) b = Some r" "unat r = (unat a mod p_nat) ^ unat b mod p_nat"
      using \<open>unat (a mod P_dh) = unat a mod p_nat\<close> by auto
    have "\<not> a mod P_dh > P_dh" using \<open>unat (a mod P_dh) < p_nat\<close> by (simp add: word_less_nat_alt unat_P)
    then have "powmodp (a mod P_dh) b = powmodp a b" using True by (simp add: powmodp_def)
    then have "powmodp a b = Some r" using r by simp
    moreover have "unat r = unat a ^ unat b mod 18446744073709551557" using r by (simp add: power_mod p_nat_def)
    ultimately show ?thesis by blast
  next
    case False
    then have "unat a < p_nat" using assms(2) by (metis not_less order_less_le unat_P word_less_nat_alt word_le_less_eq)
    then show ?thesis using powmodp_eq [OF b] by (simp add: p_nat_def)
  qed
qed

theorem powmodp_is_power_witness: "\<exists>r. powmodp 3 5 = Some r \<and> unat r = unat (3 :: u64) ^ unat (5 :: u64) mod 18446744073709551557"
  by (rule powmodp_is_power) (simp_all add: P_dh_def)

lemma exchange_ok:
  assumes "length x = 8" and "le64 x \<noteq> 0"
  shows "\<exists>g. ldhexchange x = Some (Inr (push64 g)) \<and> unat g = 5 ^ unat (le64 x) mod p_nat \<and> g \<noteq> 0 \<and> unat g < p_nat"
proof -
  have base: "unat G_dh = 5" "5 < p_nat" by (simp_all add: G_dh_def p_nat_def)
  have "0 < unat (le64 x)" using assms(2) by (simp add: unat_gt_0)
  then obtain g where g: "powmodp G_dh (le64 x) = Some g" "unat g = 5 ^ unat (le64 x) mod p_nat"
    using powmodp_eq [of "le64 x" G_dh] base by auto
  have "p_nat mod 5 = 2" by (simp add: p_nat_def)
  then have "gcd p_nat 5 = 1" using gcd_red_nat [of p_nat 5] gcd_red_nat [of 5 2] by simp
  then have "coprime (5 :: nat) p_nat" by (simp add: coprime_iff_gcd_eq_1 gcd.commute)
  then have "coprime (5 ^ unat (le64 x)) p_nat" by simp
  then have "5 ^ unat (le64 x) mod p_nat \<noteq> 0"
    using coprime_common_divisor [of "5 ^ unat (le64 x)" p_nat p_nat] base(2) by (auto simp: mod_eq_0_iff_dvd)
  then have "g \<noteq> 0" using g(2) by auto
  moreover have "unat g < p_nat" unfolding g(2) using base(2) by simp
  moreover have "ldhexchange x = Some (Inr (push64 g))" using g assms by (simp add: ldhexchange_eq)
  ultimately show ?thesis using g(2) by blast
qed

text \<open>
  Property C36.
  The two sides of a key exchange, each with a random key of its own, succeed and get the same secret from the
  value of the other side.
\<close>

theorem dh_agreement:
  "\<exists>X Y s. ldhexchange (lrandomkey rnd1) = Some (Inr X) \<and> ldhexchange (lrandomkey rnd2) = Some (Inr Y) \<and>
    ldhsecret Y (lrandomkey rnd1) = Some (Inr s) \<and> ldhsecret X (lrandomkey rnd2) = Some (Inr s)"
proof -
  let ?x = "lrandomkey rnd1" and ?y = "lrandomkey rnd2"
  have key: "length (lrandomkey rnd) = 8 \<and> le64 (lrandomkey rnd) \<noteq> 0" for rnd
  proof -
    have k: "length (lrandomkey rnd) = 8" "lrandomkey rnd \<noteq> replicate 8 0" using random_key [of rnd] by simp_all
    have "push64 0 = replicate 8 0" by (simp add: push64_def numeral_eq_Suc)
    then show ?thesis using k push64_le64 [OF k(1)] by metis
  qed
  obtain g where g: "ldhexchange ?x = Some (Inr (push64 g))" "unat g = 5 ^ unat (le64 ?x) mod p_nat" "g \<noteq> 0" "unat g < p_nat"
    using exchange_ok key by blast
  obtain h where h: "ldhexchange ?y = Some (Inr (push64 h))" "unat h = 5 ^ unat (le64 ?y) mod p_nat" "h \<noteq> 0" "unat h < p_nat"
    using exchange_ok key by blast
  have pos: "0 < unat (le64 ?x)" "0 < unat (le64 ?y)" using key by (simp_all add: unat_gt_0)
  obtain s where s: "powmodp h (le64 ?x) = Some s" "unat s = unat h ^ unat (le64 ?x) mod p_nat" using powmodp_eq [OF pos(1) h(4)] by blast
  obtain t where t: "powmodp g (le64 ?y) = Some t" "unat t = unat g ^ unat (le64 ?y) mod p_nat" using powmodp_eq [OF pos(2) g(4)] by blast
  have "unat s = unat t" unfolding s(2) t(2) g(2) h(2) power_mod by (simp add: mult.commute flip: power_mult)
  then have "s = t" by (simp add: word_unat_eq_iff)
  moreover have "ldhsecret (push64 h) ?x = Some (Inr (push64 s))" "ldhsecret (push64 g) ?y = Some (Inr (push64 t))"
    using key g(3) h(3) s(1) t(1) by (simp_all add: ldhsecret_eq length_push64 le64_push64)
  ultimately show ?thesis using g(1) h(1) by blast
qed

text \<open>The exception: \<open>powmodp\<close> does not reduce the base P.\<close>

lemma powmodp_P: "powmodp P_dh 1 = Some P_dh"
  unfolding powmodp_def by (subst pow_mod_p.simps) simp


end
