(* ===== verification/CryptHmac.thy ===== *)
theory CryptHmac
  imports CryptDh
begin

section \<open>Keyed hashes over MD5 (lualib-src/lua-crypt.c)\<close>

text \<open>
  \<open>crypt.hmac64\<close>, \<open>crypt.hmac64_md5\<close> and \<open>crypt.hmac_hash\<close>: one run of the MD5 rounds over a block made of
  the two keys. \<open>md5\<close> below is the whole algorithm of RFC 1321 on byte strings, with its padding and the sums
  of its blocks. The theorem is the comment above \<open>lhmac64_md5\<close>: the result is the two halves of the MD5 of
  both keys, repeated three times, combined.
\<close>

subsection \<open>The rounds\<close>

definition md5_k :: "u32 list" where
  "md5_k = [0xd76aa478, 0xe8c7b756, 0x242070db, 0xc1bdceee, 0xf57c0faf, 0x4787c62a, 0xa8304613, 0xfd469501,
    0x698098d8, 0x8b44f7af, 0xffff5bb1, 0x895cd7be, 0x6b901122, 0xfd987193, 0xa679438e, 0x49b40821,
    0xf61e2562, 0xc040b340, 0x265e5a51, 0xe9b6c7aa, 0xd62f105d, 0x02441453, 0xd8a1e681, 0xe7d3fbc8,
    0x21e1cde6, 0xc33707d6, 0xf4d50d87, 0x455a14ed, 0xa9e3e905, 0xfcefa3f8, 0x676f02d9, 0x8d2a4c8a,
    0xfffa3942, 0x8771f681, 0x6d9d6122, 0xfde5380c, 0xa4beea44, 0x4bdecfa9, 0xf6bb4b60, 0xbebfbc70,
    0x289b7ec6, 0xeaa127fa, 0xd4ef3085, 0x04881d05, 0xd9d4d039, 0xe6db99e5, 0x1fa27cf8, 0xc4ac5665,
    0xf4292244, 0x432aff97, 0xab9423a7, 0xfc93a039, 0x655b59c3, 0x8f0ccc92, 0xffeff47d, 0x85845dd1,
    0x6fa87e4f, 0xfe2ce6e0, 0xa3014314, 0x4e0811a1, 0xf7537e82, 0xbd3af235, 0x2ad7d2bb, 0xeb86d391]"

definition md5_r :: "nat list" where
  "md5_r = [7, 12, 17, 22, 7, 12, 17, 22, 7, 12, 17, 22, 7, 12, 17, 22,
    5, 9, 14, 20, 5, 9, 14, 20, 5, 9, 14, 20, 5, 9, 14, 20,
    4, 11, 16, 23, 4, 11, 16, 23, 4, 11, 16, 23, 4, 11, 16, 23,
    6, 10, 15, 21, 6, 10, 15, 21, 6, 10, 15, 21, 6, 10, 15, 21]"

definition LEFTROTATE :: "u32 \<Rightarrow> nat \<Rightarrow> u32" where
  "LEFTROTATE x c = push_bit c x OR drop_bit (32 - c) x"

fun md5_step :: "u32 list \<Rightarrow> nat \<Rightarrow> u32 \<times> u32 \<times> u32 \<times> u32 \<Rightarrow> u32 \<times> u32 \<times> u32 \<times> u32" where
  "md5_step w i (a, b, c, d) =
     (let (f, g) =
        (if i < 16 then ((b AND c) OR (NOT b AND d), i)
         else if i < 32 then ((d AND b) OR (NOT d AND c), (5 * i + 1) mod 16)
         else if i < 48 then (b XOR (c XOR d), (3 * i + 5) mod 16)
         else (c XOR (b OR NOT d), (7 * i) mod 16))
      in (d, b + LEFTROTATE (a + f + md5_k ! i + w ! g) (md5_r ! i), b, c))"

definition digest_md5 :: "u32 list \<Rightarrow> u32 \<times> u32 \<times> u32 \<times> u32" where
  "digest_md5 w = fold (md5_step w) [0..<64] (0x67452301, 0xefcdab89, 0x98badcfe, 0x10325476)"

subsection \<open>The Lua functions\<close>

text \<open>A key is a pair of words, the first half of its bytes first.\<close>

definition hmac :: "u32 \<times> u32 \<Rightarrow> u32 \<times> u32 \<Rightarrow> u32 \<times> u32" where
  "hmac x y =
     (let w = concat (replicate 4 [snd x, fst x, snd y, fst y]); (r0, r1, r2, r3) = digest_md5 w
      in (r2 XOR r3, r0 XOR r1))"

definition hmac_md5 :: "u32 \<times> u32 \<Rightarrow> u32 \<times> u32 \<Rightarrow> u32 \<times> u32" where
  "hmac_md5 x y =
     (let w = concat (replicate 3 [fst x, snd x, fst y, snd y]) @ [0x80, 0, 384, 0]; (r0, r1, r2, r3) = digest_md5 w
      in ((r0 + 0x67452301) XOR (r2 + 0x98badcfe), (r1 + 0xefcdab89) XOR (r3 + 0x10325476)))"

definition pushqword :: "u32 \<times> u32 \<Rightarrow> u8 list" where
  "pushqword r = word_le_bytes (fst r) @ word_le_bytes (snd r)"

definition lhmac64 :: "u8 list \<Rightarrow> u8 list \<Rightarrow> key_error + u8 list" where
  "lhmac64 x y = (case read64 x y of Inl e \<Rightarrow> Inl e | Inr (x, y) \<Rightarrow> Inr (pushqword (hmac x y)))"

definition lhmac64_md5 :: "u8 list \<Rightarrow> u8 list \<Rightarrow> key_error + u8 list" where
  "lhmac64_md5 x y = (case read64 x y of Inl e \<Rightarrow> Inl e | Inr (x, y) \<Rightarrow> Inr (pushqword (hmac_md5 x y)))"

definition lhmac_hash :: "u8 list \<Rightarrow> u8 list \<Rightarrow> key_error + u8 list" where
  "lhmac_hash x s =
     (if length x \<noteq> 8 then Inl InvalidKey
      else let h = Hash s in Inr (pushqword (hmac (le32 h 0, le32 h 4) (le32 x 0, le32 x 4))))"

subsection \<open>MD5 (RFC 1321)\<close>

definition md5_F :: "u32 \<Rightarrow> u32 \<Rightarrow> u32 \<Rightarrow> u32" where "md5_F x y z = (x AND y) OR (NOT x AND z)"
definition md5_G :: "u32 \<Rightarrow> u32 \<Rightarrow> u32 \<Rightarrow> u32" where "md5_G x y z = (x AND z) OR (y AND NOT z)"
definition md5_H :: "u32 \<Rightarrow> u32 \<Rightarrow> u32 \<Rightarrow> u32" where "md5_H x y z = (x XOR y) XOR z"
definition md5_I :: "u32 \<Rightarrow> u32 \<Rightarrow> u32 \<Rightarrow> u32" where "md5_I x y z = y XOR (x OR NOT z)"

text \<open>Sixteen operations \<open>a = b + ((a + f(b, c, d) + T[i] + X[k]) <<< s)\<close>, the registers renamed after each.\<close>

fun md5_op :: "(u32 \<Rightarrow> u32 \<Rightarrow> u32 \<Rightarrow> u32) \<Rightarrow> u32 list \<Rightarrow> nat \<times> nat \<times> nat \<Rightarrow> u32 \<times> u32 \<times> u32 \<times> u32 \<Rightarrow> u32 \<times> u32 \<times> u32 \<times> u32" where
  "md5_op f X (k, s, i) (a, b, c, d) = (d, b + word_rotl s (a + f b c d + md5_k ! i + X ! k), b, c)"

definition md5_round :: "(u32 \<Rightarrow> u32 \<Rightarrow> u32 \<Rightarrow> u32) \<Rightarrow> (nat \<Rightarrow> nat) \<Rightarrow> nat list \<Rightarrow> nat \<Rightarrow> u32 list \<Rightarrow> u32 \<times> u32 \<times> u32 \<times> u32 \<Rightarrow>
    u32 \<times> u32 \<times> u32 \<times> u32" where
  "md5_round f k s n X = fold (\<lambda>j. md5_op f X (k j mod 16, s ! (j mod 4), 16 * n + j)) [0..<16]"

definition md5_block :: "u32 list \<Rightarrow> u32 \<times> u32 \<times> u32 \<times> u32 \<Rightarrow> u32 \<times> u32 \<times> u32 \<times> u32" where
  "md5_block X h =
     (let (a, b, c, d) = h;
          (a', b', c', d') = md5_round md5_I (\<lambda>j. 7 * j) [6, 10, 15, 21] 3 X
            (md5_round md5_H (\<lambda>j. 3 * j + 5) [4, 11, 16, 23] 2 X
              (md5_round md5_G (\<lambda>j. 5 * j + 1) [5, 9, 14, 20] 1 X
                (md5_round md5_F (\<lambda>j. j) [7, 12, 17, 22] 0 X h)))
      in (a + a', b + b', c + c', d + d'))"

definition md5_pad :: "u8 list \<Rightarrow> u8 list" where
  "md5_pad m = m @ 0x80 # replicate ((119 - length m mod 64) mod 64) 0 @ push64 (8 * of_nat (length m))"

function md5_blocks :: "u8 list \<Rightarrow> u32 \<times> u32 \<times> u32 \<times> u32 \<Rightarrow> u32 \<times> u32 \<times> u32 \<times> u32" where
  "md5_blocks m h = (if length m < 64 then h else md5_blocks (drop 64 m) (md5_block (map (\<lambda>i. le32 m (4 * i)) [0..<16]) h))"
  by pat_completeness auto
termination
  by (relation "measure (length \<circ> fst)") auto

declare md5_blocks.simps [simp del]

definition md5 :: "u8 list \<Rightarrow> u8 list" where
  "md5 m =
     (let (a, b, c, d) = md5_blocks (md5_pad m) (0x67452301, 0xefcdab89, 0x98badcfe, 0x10325476)
      in word_le_bytes a @ word_le_bytes b @ word_le_bytes c @ word_le_bytes d)"

subsection \<open>The comment is right\<close>

lemma md5_functions:
  "(d AND b) OR (NOT d AND c) = md5_G b c d" "(b AND c) OR (NOT b AND d) = md5_F b c d"
  "b XOR (c XOR d) = md5_H b c d" "c XOR (b OR NOT d) = md5_I b c d"
  by (rule bit_word_eqI, auto simp: md5_F_def md5_G_def md5_H_def md5_I_def bit_simps)+

lemma LEFTROTATE_eq: "0 < c \<Longrightarrow> c < 32 \<Longrightarrow> LEFTROTATE x c = word_rotl c x"
  unfolding LEFTROTATE_def by (rule rol_eq) simp_all

definition md5_index :: "nat \<Rightarrow> nat" where
  "md5_index i = (if i < 16 then i else if i < 32 then 5 * i + 1 else if i < 48 then 3 * i + 5 else 7 * i) mod 16"

definition md5_fun :: "nat \<Rightarrow> u32 \<Rightarrow> u32 \<Rightarrow> u32 \<Rightarrow> u32" where
  "md5_fun i = (if i < 16 then md5_F else if i < 32 then md5_G else if i < 48 then md5_H else md5_I)"

lemma md5_step_op:
  assumes "i < 64"
  shows "md5_step w i h = md5_op (md5_fun i) w (md5_index i, md5_r ! i, i) h"
proof -
  obtain a b c d where h: "h = (a, b, c, d)" by (cases h)
  have "list_all (\<lambda>r. 0 < r \<and> r < 32) md5_r" by (simp add: md5_r_def)
  moreover have "length md5_r = 64" by (simp add: md5_r_def)
  ultimately have "0 < md5_r ! i" "md5_r ! i < 32" using assms by (simp_all add: list_all_length)
  then have r: "LEFTROTATE x (md5_r ! i) = word_rotl (md5_r ! i) x" for x by (rule LEFTROTATE_eq)
  consider "i < 16" | "\<not> i < 16" "i < 32" | "\<not> i < 32" "i < 48" | "\<not> i < 48" by linarith
  then show ?thesis
  proof cases
    case 2
    then show ?thesis by (simp add: h md5_functions(1) md5_fun_def md5_index_def r)
  qed (simp_all add: h md5_functions(2-4) md5_fun_def md5_index_def r)
qed

lemma round_steps:
  assumes "\<And>j. j < 16 \<Longrightarrow> md5_fun (16 * n + j) = f \<and> md5_index (16 * n + j) = k j mod 16 \<and> md5_r ! (16 * n + j) = s ! (j mod 4)"
    and "n < 4"
  shows "fold (md5_step w) [16 * n..<16 * n + 16] h = md5_round f k s n w h"
proof -
  have u: "[16 * n..<16 * n + 16] = map (\<lambda>j. 16 * n + j) [0..<16]" using map_add_upt [of "16 * n" 16] by (simp add: add.commute del: upt_rec_numeral)
  have "fold (\<lambda>j. md5_step w (16 * n + j)) [0..<16] h = fold (\<lambda>j. md5_op f w (k j mod 16, s ! (j mod 4), 16 * n + j)) [0..<16] h"
  proof (rule fold_cong)
    fix j
    assume "j \<in> set [0..<16]"
    then have "16 * n + j < 64" "j < 16" using assms(2) by simp_all
    then show "md5_step w (16 * n + j) = md5_op f w (k j mod 16, s ! (j mod 4), 16 * n + j)"
      using md5_step_op [of "16 * n + j" w] assms(1) [of j] by auto
  qed simp_all
  then show ?thesis unfolding u fold_map md5_round_def comp_def .
qed

lemma md5_tables:
  "list_all (\<lambda>j. md5_index (16 * 0 + j) = j mod 16 \<and> md5_r ! (16 * 0 + j) = [7, 12, 17, 22] ! (j mod 4)) [0..<16]"
  "list_all (\<lambda>j. md5_index (16 * 1 + j) = (5 * j + 1) mod 16 \<and> md5_r ! (16 * 1 + j) = [5, 9, 14, 20] ! (j mod 4)) [0..<16]"
  "list_all (\<lambda>j. md5_index (16 * 2 + j) = (3 * j + 5) mod 16 \<and> md5_r ! (16 * 2 + j) = [4, 11, 16, 23] ! (j mod 4)) [0..<16]"
  "list_all (\<lambda>j. md5_index (16 * 3 + j) = (7 * j) mod 16 \<and> md5_r ! (16 * 3 + j) = [6, 10, 15, 21] ! (j mod 4)) [0..<16]"
  by code_simp+

lemma upt_64: "[0..<64] = [16 * 0..<16 * 0 + 16] @ [16 * 1..<16 * 1 + 16] @ [16 * 2..<16 * 2 + 16] @ [16 * 3..<16 * 3 + 16 :: nat]"
  by code_simp

lemma digest_block:
  "md5_block w h = (let (a, b, c, d) = h; (a', b', c', d') = fold (md5_step w) [0..<64] h in (a + a', b + b', c + c', d + d'))"
proof -
  have "fold (md5_step w) [16 * 0..<16 * 0 + 16] h = md5_round md5_F (\<lambda>j. j) [7, 12, 17, 22] 0 w h" for h
    using md5_tables(1) by (intro round_steps) (auto simp: md5_fun_def list_all_iff simp del: upt_rec_numeral)
  moreover have "fold (md5_step w) [16 * 1..<16 * 1 + 16] h = md5_round md5_G (\<lambda>j. 5 * j + 1) [5, 9, 14, 20] 1 w h" for h
    using md5_tables(2) by (intro round_steps) (auto simp: md5_fun_def list_all_iff simp del: upt_rec_numeral)
  moreover have "fold (md5_step w) [16 * 2..<16 * 2 + 16] h = md5_round md5_H (\<lambda>j. 3 * j + 5) [4, 11, 16, 23] 2 w h" for h
    using md5_tables(3) by (intro round_steps) (auto simp: md5_fun_def list_all_iff simp del: upt_rec_numeral)
  moreover have "fold (md5_step w) [16 * 3..<16 * 3 + 16] h = md5_round md5_I (\<lambda>j. 7 * j) [6, 10, 15, 21] 3 w h" for h
    using md5_tables(4) by (intro round_steps) (auto simp: md5_fun_def list_all_iff simp del: upt_rec_numeral)
  ultimately show ?thesis unfolding upt_64 fold_append md5_block_def comp_def by simp
qed

lemma le_bytes_xor: "map2 (XOR) (word_le_bytes a @ word_le_bytes b) (word_le_bytes c @ word_le_bytes d) = word_le_bytes (a XOR c) @ word_le_bytes (b XOR d)"
proof -
  have "ucast (x AND 0xff) XOR (ucast (y AND 0xff) :: u8) = ucast ((x XOR y) AND 0xff)" for x y :: u32
    by (rule bit_word_eqI) (auto simp: bit_simps)
  then show ?thesis by (simp add: word_le_bytes_def drop_bit_xor)
qed

text \<open>The words of a block.\<close>

lemma words_append:
  assumes "length m = 4 * n"
  shows "map (\<lambda>i. le32 (m @ m') (4 * i)) [0..<n + k] = map (\<lambda>i. le32 m (4 * i)) [0..<n] @ map (\<lambda>i. le32 m' (4 * i)) [0..<k]"
proof -
  have "le32 (m @ m') (4 * i) = le32 m (4 * i)" if "i < n" for i
    using that assms by (simp add: le32_def nth_append)
  moreover have "le32 (m @ m') (4 * (n + i)) = le32 m' (4 * i)" for i
    using assms by (simp add: le32_def nth_append)
  moreover have "[0..<n + k] = [0..<n] @ map (\<lambda>i. n + i) [0..<k]"
    using upt_add_eq_append [of 0 n k] map_add_upt [of n k] by (simp add: add.commute)
  ultimately show ?thesis by simp
qed

lemma words_key: "length x = 8 \<Longrightarrow> map (\<lambda>i. le32 x (4 * i)) [0..<2] = [le32 x 0, le32 x 4]"
  by (simp add: upt_rec)

lemma words_tail:
  "map (\<lambda>i. le32 (0x80 # [0, 0, 0, 0, 0, 0, 0] @ push64 384) (4 * i)) [0..<4] = [0x80, 0, 384, 0]"
  by code_simp

lemma hmac_words:
  assumes "length x = 8" and "length y = 8"
  shows "map (\<lambda>i. le32 (md5_pad (concat (replicate 3 (x @ y)))) (4 * i)) [0..<16] =
    concat (replicate 3 [le32 x 0, le32 x 4, le32 y 0, le32 y 4]) @ [0x80, 0, 384, 0]"
proof -
  have pad: "md5_pad (concat (replicate 3 (x @ y))) = x @ y @ x @ y @ x @ y @ 0x80 # [0, 0, 0, 0, 0, 0, 0] @ push64 384"
    using assms by (simp add: md5_pad_def numeral_3_eq_3)
  have n: "(16::nat) = 2 + (2 + (2 + (2 + (2 + (2 + 4)))))" by simp
  have x: "length x = 4 * 2" "length y = 4 * 2" using assms by simp_all
  show ?thesis unfolding pad n words_append [OF x(1)] words_append [OF x(2)] words_key [OF assms(1)] words_key [OF assms(2)] words_tail
    by (simp add: numeral_3_eq_3)
qed

text \<open>
  Property C37.
  \<open>hmac64_md5\<close> is what its comment says: the first half of the MD5 of both keys, three times repeated, combined
  with the second half by exclusive or.
\<close>

theorem hmac64_md5_is_md5:
  assumes "length x = 8" and "length y = 8"
  shows "lhmac64_md5 x y = (let m = md5 (concat (replicate 3 (x @ y))) in Inr (map2 (XOR) (take 8 m) (drop 8 m)))"
proof -
  let ?M = "md5_pad (concat (replicate 3 (x @ y)))" and ?h = "(0x67452301, 0xefcdab89, 0x98badcfe, 0x10325476) :: u32 \<times> u32 \<times> u32 \<times> u32"
  let ?w = "concat (replicate 3 [le32 x 0, le32 x 4, le32 y 0, le32 y 4]) @ [0x80, 0, 384, 0]"
  have len: "length ?M = 64" using assms by (simp add: md5_pad_def length_push64 numeral_3_eq_3)
  then have "md5_blocks ?M ?h = md5_block ?w ?h"
    by (subst md5_blocks.simps, subst md5_blocks.simps) (simp only: hmac_words [OF assms] length_drop, simp)
  moreover obtain a b c d where r: "digest_md5 ?w = (a, b, c, d)" by (cases "digest_md5 ?w")
  moreover from this have "md5_block ?w ?h = (0x67452301 + a, 0xefcdab89 + b, 0x98badcfe + c, 0x10325476 + d)"
    by (simp only: digest_block digest_md5_def [symmetric] Let_def prod.case)
  ultimately have m: "md5 (concat (replicate 3 (x @ y))) =
      (word_le_bytes (0x67452301 + a) @ word_le_bytes (0xefcdab89 + b)) @ word_le_bytes (0x98badcfe + c) @ word_le_bytes (0x10325476 + d)"
    by (simp add: md5_def)
  have l: "length (word_le_bytes u @ word_le_bytes v) = 8" for u v by (simp add: word_le_bytes_def)
  have h: "hmac_md5 (le32 x 0, le32 x 4) (le32 y 0, le32 y 4) =
      ((0x67452301 + a) XOR (0x98badcfe + c), (0xefcdab89 + b) XOR (0x10325476 + d))"
    using r by (simp add: hmac_md5_def add.commute)
  have td: "take 8 (u @ v) = u" "drop 8 (u @ v) = v" if "length u = 8" for u v :: "u8 list" using that by simp_all
  show ?thesis unfolding m Let_def td [OF l] le_bytes_xor using assms
    by (simp add: lhmac64_md5_def read64_def h pushqword_def)
qed

theorem hmac64_md5_is_md5_witness:
  "lhmac64_md5 [1, 2, 3, 4, 5, 6, 7, 8] [8, 7, 6, 5, 4, 3, 2, 1] =
    (let m = md5 (concat (replicate 3 ([1, 2, 3, 4, 5, 6, 7, 8] @ [8, 7, 6, 5, 4, 3, 2, 1]))) in Inr (map2 (XOR) (take 8 m) (drop 8 m)))"
  by (rule hmac64_md5_is_md5) simp_all

text \<open>The algorithm on the test strings of the RFC.\<close>

lemma md5_empty: "md5 [] = [0xd4, 0x1d, 0x8c, 0xd9, 0x8f, 0x00, 0xb2, 0x04, 0xe9, 0x80, 0x09, 0x98, 0xec, 0xf8, 0x42, 0x7e]"
  by code_simp

lemma md5_abc: "md5 [97, 98, 99] = [0x90, 0x01, 0x50, 0x98, 0x3c, 0xd2, 0x4f, 0xb0, 0xd6, 0x96, 0x3f, 0x7d, 0x28, 0xe1, 0x7f, 0x72]"
  by code_simp

end
