(* ===== verification/CryptSha1.thy ===== *)
theory CryptSha1
  imports CryptHmac
begin

section \<open>SHA-1 (lualib-src/lsha1.c)\<close>

text \<open>
  \<open>crypt.sha1\<close> and \<open>crypt.hmac_sha1\<close>: the context with its buffer of one block, the unrolled transformation
  that expands the message in a ring of sixteen words, updating in pieces and the final padding. \<open>None\<close> is a
  read of a buffer cell that was not written, or outside of a buffer. \<open>sha1\<close> below is the algorithm of
  FIPS 180 on a whole byte string. The theorems: the code computes it, in whatever pieces the data comes; the
  keyed hash is the construction of RFC 2104 over it; and a piece of 512M or more is counted wrongly.
\<close>

subsection \<open>The transformation\<close>

definition rol :: "u32 \<Rightarrow> nat \<Rightarrow> u32" where
  "rol x n = push_bit n x OR drop_bit (32 - n) x"

text \<open>\<open>blk0\<close> and \<open>blk\<close> assign a word of the block and yield it.\<close>

definition blk0 :: "u32 list \<Rightarrow> nat \<Rightarrow> u32" where
  "blk0 l i = (rol (l ! i) 24 AND 0xFF00FF00) OR (rol (l ! i) 8 AND 0x00FF00FF)"

definition blk :: "u32 list \<Rightarrow> nat \<Rightarrow> u32" where
  "blk l i = rol (((l ! ((i + 13) mod 16) XOR l ! ((i + 8) mod 16)) XOR l ! ((i + 2) mod 16)) XOR l ! (i mod 16)) 1"

type_synonym regs = "u32 \<times> u32 \<times> u32 \<times> u32 \<times> u32"

text \<open>The round with number \<open>i\<close>, \<open>R0\<close> to \<open>R4\<close>: its parameters \<open>v, w, x, y, z\<close> are the registers in the order in
  which the call names them, and the next call names them one place further.\<close>

fun sha1_round :: "nat \<Rightarrow> u32 list \<times> regs \<Rightarrow> u32 list \<times> regs" where
  "sha1_round i (l, v, w, x, y, z) =
     (let b = (if i < 16 then blk0 l i else blk l i);
          f = (if i < 20 then ((w AND (x XOR y)) XOR y) + b + 0x5A827999
               else if i < 40 then ((w XOR x) XOR y) + b + 0x6ED9EBA1
               else if i < 60 then (((w OR x) AND y) OR (w AND x)) + b + 0x8F1BBCDC
               else ((w XOR x) XOR y) + b + 0xCA62C1D6)
      in (l[i mod 16 := b], z + (f + rol v 5), v, rol w 30, x, y))"

definition SHA1_Transform :: "regs \<Rightarrow> u8 list \<Rightarrow> regs" where
  "SHA1_Transform state buffer =
     (let l = map (\<lambda>i. le32 buffer (4 * i)) [0..<16];
          (a, b, c, d, e) = snd (fold sha1_round [0..<80] (l, state));
          (s0, s1, s2, s3, s4) = state
      in (s0 + a, s1 + b, s2 + c, s3 + d, s4 + e))"

subsection \<open>The context\<close>

record SHA1_CTX =
  sha_state :: regs
  count0 :: u32
  count1 :: u32
  sha_buffer :: "u8 array"

text \<open>The context lies on the stack: its buffer is not written yet.\<close>

definition sat_SHA1_Init :: SHA1_CTX where
  "sat_SHA1_Init = \<lparr>sha_state = (0x67452301, 0xEFCDAB89, 0x98BADCFE, 0x10325476, 0xC3D2E1F0), count0 = 0, count1 = 0,
     sha_buffer = array_new 64\<rparr>"

function sha1_loop :: "regs \<Rightarrow> u8 list \<Rightarrow> nat \<Rightarrow> regs \<times> nat" where
  "sha1_loop state data i =
     (if i + 63 < length data then sha1_loop (SHA1_Transform state (take 64 (drop i data))) data (i + 64) else (state, i))"
  by pat_completeness auto
termination
  by (relation "measure (\<lambda>(_, data, i). length data - i)") auto

declare sha1_loop.simps [simp del]

text \<open>\<open>len\<close> is a \<open>size_t\<close> of 64 bits, the counters have 32: the comparison that finds a carry is between 64 bit
  numbers.\<close>

definition sat_SHA1_Update :: "u8 list \<Rightarrow> SHA1_CTX \<Rightarrow> SHA1_CTX option" where
  "sat_SHA1_Update data ctx =
     (let len = of_nat (length data) :: u64;
          j = unat (drop_bit 3 (count0 ctx) AND 63);
          c0 = count0 ctx + ucast (push_bit 3 len);
          c1 = count1 ctx + (if (ucast c0 :: u64) < push_bit 3 len then 1 else 0) + ucast (drop_bit 29 len);
          ctx1 = ctx\<lparr>count0 := c0, count1 := c1\<rparr>
      in do {
        (ctx2, i, j) \<leftarrow>
          (if j + length data > 63 then do {
             buf \<leftarrow> mem_write (sha_buffer ctx1) j (take (64 - j) data);
             block \<leftarrow> those buf;
             let (state, i) = sha1_loop (SHA1_Transform (sha_state ctx1) block) data (64 - j);
             Some (ctx1\<lparr>sha_buffer := buf, sha_state := state\<rparr>, i, 0) }
           else Some (ctx1, 0, j));
        buf \<leftarrow> mem_write (sha_buffer ctx2) j (drop i data);
        Some (ctx2\<lparr>sha_buffer := buf\<rparr>) })"

text \<open>The loop that appends zeros until 56 bytes of the block are filled.\<close>

partial_function (option) sha1_fill :: "SHA1_CTX \<Rightarrow> SHA1_CTX option" where
  "sha1_fill ctx =
     (if count0 ctx AND 504 \<noteq> 448 then do { ctx' \<leftarrow> sat_SHA1_Update [0] ctx; sha1_fill ctx' } else Some ctx)"

declare sha1_fill.simps [code]

definition SHA1_DIGEST_SIZE :: nat where "SHA1_DIGEST_SIZE = 20"

definition regs_list :: "regs \<Rightarrow> u32 list" where
  "regs_list s = (case s of (a, b, c, d, e) \<Rightarrow> [a, b, c, d, e])"

definition sat_SHA1_Final :: "SHA1_CTX \<Rightarrow> u8 list option" where
  "sat_SHA1_Final ctx =
     (let finalcount = map (\<lambda>i. ucast (drop_bit ((3 - i mod 4) * 8) (if i \<ge> 4 then count0 ctx else count1 ctx) AND 255)) [0..<8]
      in do {
        ctx1 \<leftarrow> sat_SHA1_Update [0x80] ctx;
        ctx2 \<leftarrow> sha1_fill ctx1;
        ctx3 \<leftarrow> sat_SHA1_Update finalcount ctx2;
        Some (map (\<lambda>i. ucast (drop_bit ((3 - i mod 4) * 8) (regs_list (sha_state ctx3) ! (i div 4)) AND 255)) [0..<SHA1_DIGEST_SIZE]) })"

subsection \<open>The Lua functions\<close>

definition lsha1 :: "u8 list \<Rightarrow> u8 list option" where
  "lsha1 buffer = do { ctx \<leftarrow> sat_SHA1_Update buffer sat_SHA1_Init; sat_SHA1_Final ctx }"

definition BLOCKSIZE :: nat where "BLOCKSIZE = 64"

text \<open>\<open>xor_key\<close> works on words of four equal bytes.\<close>

definition xor_key :: "u8 list \<Rightarrow> u32 \<Rightarrow> u8 list" where
  "xor_key key x = concat (map (\<lambda>i. word_le_bytes (le32 key (4 * i) XOR x)) [0..<BLOCKSIZE div 4])"

definition lhmac_sha1 :: "u8 list \<Rightarrow> u8 list \<Rightarrow> u8 list option" where
  "lhmac_sha1 key s = do {
     rkey \<leftarrow> (if length key > BLOCKSIZE then do {
         ctx \<leftarrow> sat_SHA1_Update key sat_SHA1_Init;
         digest \<leftarrow> sat_SHA1_Final ctx;
         Some (digest @ replicate (BLOCKSIZE - SHA1_DIGEST_SIZE) 0) }
       else Some (key @ replicate (BLOCKSIZE - length key) 0));
     let rkey = xor_key rkey 0x5c5c5c5c;
     ctx1 \<leftarrow> sat_SHA1_Update rkey sat_SHA1_Init;
     let rkey = xor_key rkey (0x5c5c5c5c XOR 0x36363636);
     ctx2 \<leftarrow> sat_SHA1_Update rkey sat_SHA1_Init;
     ctx2 \<leftarrow> sat_SHA1_Update s ctx2;
     digest2 \<leftarrow> sat_SHA1_Final ctx2;
     ctx1 \<leftarrow> sat_SHA1_Update digest2 ctx1;
     sat_SHA1_Final ctx1 }"

subsection \<open>SHA-1 (FIPS 180)\<close>

definition be_bytes :: "u32 \<Rightarrow> u8 list" where
  "be_bytes x = PUT_UINT32 x"

fun schedule :: "u8 list \<Rightarrow> nat \<Rightarrow> u32" where
  "schedule m t =
     (if t < 16 then GET_UINT32 m (4 * t)
      else word_rotl 1 (((schedule m (t - 3) XOR schedule m (t - 8)) XOR schedule m (t - 14)) XOR schedule m (t - 16)))"

declare schedule.simps [simp del]

definition sha1_f :: "nat \<Rightarrow> u32 \<Rightarrow> u32 \<Rightarrow> u32 \<Rightarrow> u32" where
  "sha1_f t x y z =
     (if t < 20 then (x AND y) OR (NOT x AND z)
      else if t < 40 then (x XOR y) XOR z
      else if t < 60 then ((x AND y) OR (x AND z)) OR (y AND z)
      else (x XOR y) XOR z)"

definition sha1_K :: "nat \<Rightarrow> u32" where
  "sha1_K t = (if t < 20 then 0x5A827999 else if t < 40 then 0x6ED9EBA1 else if t < 60 then 0x8F1BBCDC else 0xCA62C1D6)"

fun sha1_step :: "u8 list \<Rightarrow> nat \<Rightarrow> regs \<Rightarrow> regs" where
  "sha1_step m t (a, b, c, d, e) =
     (word_rotl 5 a + sha1_f t b c d + e + sha1_K t + schedule m t, a, word_rotl 30 b, c, d)"

definition sha1_block :: "u8 list \<Rightarrow> regs \<Rightarrow> regs" where
  "sha1_block m h =
     (let (a, b, c, d, e) = fold (sha1_step m) [0..<80] h; (h0, h1, h2, h3, h4) = h
      in (h0 + a, h1 + b, h2 + c, h3 + d, h4 + e))"

function sha1_blocks :: "u8 list \<Rightarrow> regs \<Rightarrow> regs" where
  "sha1_blocks m h = (if length m < 64 then h else sha1_blocks (drop 64 m) (sha1_block (take 64 m) h))"
  by pat_completeness auto
termination
  by (relation "measure (length \<circ> fst)") auto

declare sha1_blocks.simps [simp del]

definition be64 :: "u64 \<Rightarrow> u8 list" where
  "be64 x = be_bytes (ucast (drop_bit 32 x)) @ be_bytes (ucast x)"

definition sha1_pad :: "u8 list \<Rightarrow> u8 list" where
  "sha1_pad m = m @ 0x80 # replicate ((119 - length m mod 64) mod 64) 0 @ be64 (8 * of_nat (length m))"

definition sha1_init :: regs where
  "sha1_init = (0x67452301, 0xEFCDAB89, 0x98BADCFE, 0x10325476, 0xC3D2E1F0)"

definition sha1 :: "u8 list \<Rightarrow> u8 list" where
  "sha1 m = concat (map be_bytes (regs_list (sha1_blocks (sha1_pad m) sha1_init)))"

subsection \<open>The unrolled rounds\<close>

lemma rol_rotl: "0 < n \<Longrightarrow> n < 32 \<Longrightarrow> rol x n = word_rotl n x"
  unfolding rol_def by (rule rol_eq) simp_all

lemma be32_and: "be32 a b c d AND be32 e f g h = be32 (a AND e) (b AND f) (c AND g) (d AND h)"
  by (rule bit_word_eqI) (simp add: bit_be32 bit_and_iff)

lemma be32_or: "be32 a b c d OR be32 e f g h = be32 (a OR e) (b OR f) (c OR g) (d OR h)"
  by (rule bit_word_eqI) (simp add: bit_be32 bit_or_iff)

lemma rol_be32: "rol (be32 a b c d) 8 = be32 b c d a" "rol (be32 a b c d) 24 = be32 d a b c"
proof -
  have w: "\<not> bit x j" if "8 \<le> j" for x :: u8 and j using that by (auto dest: bit_imp_le_length)
  show "rol (be32 a b c d) 8 = be32 b c d a"
  proof (rule bit_word_eqI)
    fix i :: nat
    assume "i < LENGTH(32)"
    moreover consider "i < 8" | "8 \<le> i" "i < 16" | "16 \<le> i" "i < 24" | "24 \<le> i" by linarith
    ultimately show "bit (rol (be32 a b c d) 8) i = bit (be32 b c d a) i"
      by cases (auto simp: rol_def bit_be32 bit_or_iff bit_push_bit_iff bit_drop_bit_eq w)
  qed
  show "rol (be32 a b c d) 24 = be32 d a b c"
  proof (rule bit_word_eqI)
    fix i :: nat
    assume "i < LENGTH(32)"
    moreover consider "i < 8" | "8 \<le> i" "i < 16" | "16 \<le> i" "i < 24" | "24 \<le> i" by linarith
    ultimately show "bit (rol (be32 a b c d) 24) i = bit (be32 d a b c) i"
      by cases (auto simp: rol_def bit_be32 bit_or_iff bit_push_bit_iff bit_drop_bit_eq w)
  qed
qed

lemma blk0_eq:
  assumes "l ! i = le32 m (4 * i)"
  shows "blk0 l i = GET_UINT32 m (4 * i)"
proof -
  have "(0xFF00FF00 :: u32) = be32 0xFF 0 0xFF 0" "(0x00FF00FF :: u32) = be32 0 0xFF 0 0xFF" by (simp_all add: be32_def)
  moreover have "x AND 0xFF = x" for x :: u8
  proof -
    have "(0xFF :: u8) = - 1" by simp
    then show ?thesis by (metis and.right_neutral)
  qed
  ultimately show ?thesis
    by (simp only: blk0_def assms le32_be32 rol_be32 be32_and be32_or GET_UINT32_def) (simp add: add.assoc)
qed

lemma sha1_functions:
  "(w AND (x XOR y)) XOR y = (w AND x) OR (NOT w AND y)" "((w OR x) AND y) OR (w AND x) = ((w AND x) OR (w AND y)) OR (x AND y)"
  for w x y :: u32
  by (rule bit_word_eqI, auto simp: bit_simps)+

text \<open>After \<open>t\<close> rounds the ring holds the last sixteen words of the schedule, and the words not reached yet.\<close>

definition ring_holds :: "u8 list \<Rightarrow> nat \<Rightarrow> u32 list \<Rightarrow> bool" where
  "ring_holds m t l \<longleftrightarrow> length l = 16 \<and> (\<forall>s. s < t \<longrightarrow> t \<le> s + 16 \<longrightarrow> l ! (s mod 16) = schedule m s) \<and>
     (\<forall>s. t \<le> s \<longrightarrow> s < 16 \<longrightarrow> l ! s = le32 m (4 * s))"

lemma ring_word:
  assumes "ring_holds m t l"
  shows "(if t < 16 then blk0 l t else blk l t) = schedule m t"
proof (cases "t < 16")
  case True
  then show ?thesis using assms by (subst schedule.simps) (simp add: ring_holds_def blk0_eq)
next
  case False
  have e: "(t + (16 - k)) mod 16 = (t - k) mod 16" if "k \<le> 16" for k
  proof -
    have "t + (16 - k) = (t - k) + 16" using False that by simp
    then show ?thesis by (simp only: mod_add_self2)
  qed
  have "(t + 13) mod 16 = (t - 3) mod 16" "(t + 8) mod 16 = (t - 8) mod 16" "(t + 2) mod 16 = (t - 14) mod 16" "t mod 16 = (t - 16) mod 16"
    using e [of 3] e [of 8] e [of 14] e [of 16] by simp_all
  moreover have h: "l ! ((t - k) mod 16) = schedule m (t - k)" if "0 < k" "k \<le> 16" for k
  proof -
    have "t - k < t" "t \<le> t - k + 16" using that False by arith+
    then show ?thesis using assms unfolding ring_holds_def by blast
  qed
  ultimately have "blk l t = rol (((schedule m (t - 3) XOR schedule m (t - 8)) XOR schedule m (t - 14)) XOR schedule m (t - 16)) 1"
    by (simp only: blk_def h [of 3, simplified] h [of 8, simplified] h [of 14, simplified] h [of 16, simplified])
  then show ?thesis using False by (subst schedule.simps) (simp add: rol_rotl)
qed

lemma ring_next:
  assumes "ring_holds m t l"
  shows "ring_holds m (Suc t) (l[t mod 16 := schedule m t])"
  unfolding ring_holds_def
proof (intro conjI allI impI)
  show "length (l[t mod 16 := schedule m t]) = 16" using assms by (simp add: ring_holds_def)
next
  fix s
  assume s: "s < Suc t" "Suc t \<le> s + 16"
  have len: "length l = 16" using assms by (simp add: ring_holds_def)
  show "l[t mod 16 := schedule m t] ! (s mod 16) = schedule m s"
  proof (cases "s = t")
    case True
    then show ?thesis using len by simp
  next
    case False
    then have "\<not> 16 dvd t - s" using s by (intro nat_dvd_not_less) simp_all
    then have "s mod 16 \<noteq> t mod 16" using s mod_eq_dvd_iff_nat [of s t 16] by auto
    then show ?thesis using False s assms by (simp add: ring_holds_def)
  qed
next
  fix s
  assume "Suc t \<le> s" "s < 16"
  then show "l[t mod 16 := schedule m t] ! s = le32 m (4 * s)" using assms by (simp add: ring_holds_def)
qed

lemma sha1_round_eq:
  assumes "ring_holds m t l"
  shows "sha1_round t (l, r) = (l[t mod 16 := schedule m t], sha1_step m t r)"
proof -
  obtain a b c d e where r: "r = (a, b, c, d, e)" by (cases r)
  show ?thesis
    by (simp add: r ring_word [OF assms, simplified] sha1_f_def sha1_K_def sha1_functions rol_rotl Let_def algebra_simps)
qed

lemma rounds_eq:
  assumes "ring_holds m 0 l"
  shows "\<exists>l'. ring_holds m t l' \<and> fold sha1_round [0..<t] (l, r) = (l', fold (sha1_step m) [0..<t] r)"
proof (induction t)
  case 0
  then show ?case using assms by simp
next
  case (Suc t)
  then obtain l' where "ring_holds m t l'" "fold sha1_round [0..<t] (l, r) = (l', fold (sha1_step m) [0..<t] r)" by blast
  then show ?case using ring_next [of m t l'] by (simp add: sha1_round_eq)
qed

lemma SHA1_Transform_eq: "SHA1_Transform h m = sha1_block m h"
proof -
  let ?l = "map (\<lambda>i. le32 m (4 * i)) [0..<16]"
  have "ring_holds m 0 ?l" by (simp add: ring_holds_def del: upt_rec_numeral)
  then obtain l' where "fold sha1_round [0..<80] (?l, h) = (l', fold (sha1_step m) [0..<80] h)" using rounds_eq by blast
  then show ?thesis by (simp only: SHA1_Transform_def sha1_block_def Let_def snd_conv prod.case)
qed

subsection \<open>The context and the bytes it has read\<close>

lemma sha1_blocks_small: "length m < 64 \<Longrightarrow> sha1_blocks m h = h"
  by (subst sha1_blocks.simps) simp

lemma sha1_blocks_step: "64 \<le> length m \<Longrightarrow> sha1_blocks m h = sha1_blocks (drop 64 m) (sha1_block (take 64 m) h)"
  by (subst sha1_blocks.simps) simp

text \<open>The bytes after the last whole block.\<close>

definition sha1_rest :: "u8 list \<Rightarrow> u8 list" where
  "sha1_rest m = drop (64 * (length m div 64)) m"

lemma length_rest: "length (sha1_rest m) = length m mod 64"
  by (simp add: sha1_rest_def minus_mult_div_eq_mod)

lemma sha1_rest_drop: "64 \<le> length m \<Longrightarrow> sha1_rest (drop 64 m) = sha1_rest m"
proof -
  assume "64 \<le> length m"
  then have "length m div 64 = Suc ((length m - 64) div 64)" by (simp add: le_div_geq)
  then show ?thesis by (simp add: sha1_rest_def add.commute)
qed

lemma sha1_rest_small: "length m < 64 \<Longrightarrow> sha1_rest m = m"
  by (simp add: sha1_rest_def)

lemma sha1_blocks_app: "sha1_blocks (m @ d) h = sha1_blocks (sha1_rest m @ d) (sha1_blocks m h)"
proof (induction m h rule: sha1_blocks.induct)
  case (1 m h)
  show ?case
  proof (cases "length m < 64")
    case True
    then show ?thesis by (simp add: sha1_rest_small sha1_blocks_small)
  next
    case False
    then show ?thesis using 1 by (simp add: sha1_blocks_step sha1_rest_drop)
  qed
qed

lemma sha1_rest_app: "sha1_rest (m @ d) = sha1_rest (sha1_rest m @ d)"
proof (induction m rule: length_induct)
  case (1 m)
  show ?case
  proof (cases "length m < 64")
    case True
    then show ?thesis by (simp add: sha1_rest_small)
  next
    case False
    then have "sha1_rest (drop 64 m @ d) = sha1_rest (sha1_rest (drop 64 m) @ d)" using 1 by (simp add: length_0_conv [symmetric] del: length_0_conv)
    then show ?thesis using False sha1_rest_drop [of "m @ d"] by (simp add: sha1_rest_drop)
  qed
qed

lemma sha1_loop_eq:
  "i \<le> length data \<Longrightarrow> sha1_loop s data i = (sha1_blocks (drop i data) s, i + 64 * ((length data - i) div 64))"
proof (induction s data i rule: sha1_loop.induct)
  case (1 s data i)
  show ?case
  proof (cases "i + 63 < length data")
    case True
    then have "(length data - i) div 64 = Suc ((length data - (i + 64)) div 64)" by (simp add: le_div_geq)
    then show ?thesis using 1 True
      by (subst sha1_loop.simps) (simp add: SHA1_Transform_eq sha1_blocks_step [of "drop i data"] add.commute)
  next
    case False
    then show ?thesis using 1(2) by (subst sha1_loop.simps) (simp add: sha1_blocks_small)
  qed
qed

text \<open>The context after the bytes \<open>m\<close>.\<close>

definition sha1_holds :: "SHA1_CTX \<Rightarrow> u8 list \<Rightarrow> bool" where
  "sha1_holds ctx m \<longleftrightarrow> sha_state ctx = sha1_blocks m sha1_init \<and> length (sha_buffer ctx) = 64 \<and>
     take (length m mod 64) (sha_buffer ctx) = map Some (sha1_rest m) \<and>
     count0 ctx = of_nat (8 * length m) \<and> count1 ctx = of_nat (8 * length m div 2 ^ 32)"

lemma init_holds: "sha1_holds sat_SHA1_Init []"
  by (simp add: sha1_holds_def sat_SHA1_Init_def sha1_init_def sha1_blocks_small sha1_rest_def)

lemma unat_count: "unat (drop_bit 3 (of_nat (8 * n) :: u32) AND 63) = n mod 64"
proof -
  have "drop_bit 3 (of_nat (8 * n) :: u32) AND 63 = take_bit 6 (drop_bit 3 (of_nat (8 * n)))"
    by (simp add: take_bit_eq_mask mask_numeral)
  moreover have "unat (take_bit 6 (drop_bit 3 (of_nat (8 * n) :: u32))) = take_bit 6 (drop_bit 3 (take_bit 32 (8 * n)))"
    by (simp only: unsigned_take_bit_eq unat_drop_bit_eq unsigned_of_nat) simp
  ultimately have "unat (drop_bit 3 (of_nat (8 * n) :: u32) AND 63) = (8 * n mod 2 ^ 32) div 8 mod 2 ^ 6"
    by (simp only: take_bit_eq_mod drop_bit_eq_div) simp
  also have "8 * n mod 2 ^ 32 = 8 * (n mod 2 ^ 29)" using mod_mult_mult1 [of 8 n "2 ^ 29"] by simp
  also have "8 * (n mod 2 ^ 29) div 8 mod 2 ^ 6 = n mod 2 ^ 6" by (simp add: mod_mod_cancel)
  finally show ?thesis by simp
qed

lemma div_carry:
  assumes "b < (M :: nat)"
  shows "(a + b) mod M < b \<longleftrightarrow> M \<le> a mod M + b" "(a + b) div M = a div M + (if M \<le> a mod M + b then 1 else 0)"
proof -
  have "a mod M < M" using assms by simp
  have d: "a + b = (a mod M + b) + (a div M) * M" by simp
  have m: "(a + b) mod M = (a mod M + b) mod M" by (simp add: mod_simps)
  have q: "(a + b) div M = (a mod M + b) div M + a div M" using assms by (subst d) (simp only: div_mult_self1 neq0_conv)
  show "(a + b) mod M < b \<longleftrightarrow> M \<le> a mod M + b"
  proof (cases "M \<le> a mod M + b")
    case True
    then have "(a mod M + b) mod M = a mod M + b - M" using \<open>a mod M < M\<close> assms le_mod_geq [of M "a mod M + b"] mod_less [of "a mod M + b - M" M] by linarith
    then show ?thesis using m True \<open>a mod M < M\<close> assms by linarith
  next
    case False
    then show ?thesis using m by simp
  qed
  show "(a + b) div M = a div M + (if M \<le> a mod M + b then 1 else 0)"
  proof (cases "M \<le> a mod M + b")
    case True
    have "(a mod M + b) div M = 1" 
    proof (rule div_nat_eqI)
      show "M * 1 \<le> a mod M + b" using True by simp
      show "a mod M + b < M * Suc 1" using \<open>a mod M < M\<close> assms add_strict_mono [of "a mod M" M b M] by simp
    qed
    then show ?thesis using q True by simp
  next
    case False
    then show ?thesis using q by simp
  qed
qed

lemma count_add:
  fixes n :: nat
  assumes "L < 2 ^ 29"
  defines "len \<equiv> of_nat L :: u64" and "c \<equiv> of_nat (8 * n) :: u32"
  shows "c + ucast (push_bit 3 len) = of_nat (8 * (n + L))"
    and "of_nat (8 * n div 2 ^ 32) + (if (ucast (c + ucast (push_bit 3 len)) :: u64) < push_bit 3 len then 1 else 0) +
      ucast (drop_bit 29 len) = (of_nat (8 * (n + L) div 2 ^ 32) :: u32)"
proof -
  have p: "push_bit 3 len = of_nat (8 * L)" by (simp add: len_def push_bit_eq_mult)
  have "8 * L < 2 ^ 64" using assms(1) by simp
  then have u: "unat (push_bit 3 len) = 8 * L" by (simp add: p unat_of_nat del: of_nat_mult)
  have "ucast (push_bit 3 len) = (of_nat (unat (push_bit 3 len)) :: u32)" by simp
  then show s: "c + ucast (push_bit 3 len) = of_nat (8 * (n + L))" by (simp only: u c_def) (simp add: algebra_simps)
  have "unat (drop_bit 29 len) = 0"
  proof -
    have "unat len = L" using assms(1) by (simp add: len_def unat_of_nat)
    then show ?thesis using assms(1) unat_drop_bit_eq [of 29 len] by (simp only: drop_bit_eq_div div_less)
  qed
  then have z: "drop_bit 29 len = 0" by (simp add: unat_eq_0)
  have "unat (of_nat (8 * (n + L)) :: u32) = (8 * n + 8 * L) mod 2 ^ 32" 
  proof -
    have "LENGTH(32) = 32" by simp
    then show ?thesis by (simp only: unat_of_nat distrib_left)
  qed
  moreover have "unat (ucast w :: u64) = unat w" for w :: u32
  proof -
    have "unat w < 2 ^ LENGTH(32)" by (rule unsigned_less)
    then show ?thesis by (simp add: unsigned_ucast_eq take_bit_nat_eq_self)
  qed
  ultimately have "(ucast (c + ucast (push_bit 3 len)) :: u64) < push_bit 3 len \<longleftrightarrow> (8 * n + 8 * L) mod 2 ^ 32 < 8 * L"
    by (simp only: word_less_nat_alt u s)
  moreover have "8 * (n + L) = 8 * n + 8 * L" by simp
  moreover have "8 * L < 2 ^ 32" using assms(1) by simp
  ultimately show "of_nat (8 * n div 2 ^ 32) + (if (ucast (c + ucast (push_bit 3 len)) :: u64) < push_bit 3 len then 1 else 0) +
      ucast (drop_bit 29 len) = (of_nat (8 * (n + L) div 2 ^ 32) :: u32)"
    by (simp only: z div_carry [of "8 * L" "2 ^ 32" "8 * n"]) simp
qed

lemma those_Some: "those (map Some xs) = Some xs"
  by (induction xs) simp_all

text \<open>Bytes that fit into the block, and bytes that complete it.\<close>

lemma buffer_write:
  assumes "length buf = 64" "take j buf = map Some r" "length r = j" "j + length d \<le> 64"
  shows "mem_write buf j d = Some (map Some (r @ d) @ drop (j + length d) buf)"
  using assms by (simp add: mem_write_def)

theorem sha1_update:
  assumes "sha1_holds ctx m" "length data < 2 ^ 29"
  obtains ctx' where "sat_SHA1_Update data ctx = Some ctx'" "sha1_holds ctx' (m @ data)"
proof -
  let ?r = "sha1_rest m" let ?j = "length m mod 64"
  have h: "sha_state ctx = sha1_blocks m sha1_init" "length (sha_buffer ctx) = 64" "take ?j (sha_buffer ctx) = map Some ?r"
    "count0 ctx = of_nat (8 * length m)" "count1 ctx = of_nat (8 * length m div 2 ^ 32)"
    using assms(1) by (simp_all add: sha1_holds_def)
  have lr: "length ?r = ?j" and j: "?j < 64" by (simp_all add: length_rest)
  have cnt: "of_nat (8 * length m) + ucast (push_bit 3 (of_nat (length data) :: u64)) = (of_nat (8 * (length m + length data)) :: u32)"
    and cnt': "of_nat (8 * length m div 2 ^ 32) + (if (ucast (of_nat (8 * (length m + length data)) :: u32) :: u64) < push_bit 3 (of_nat (length data)) then 1 else 0) +
      ucast (drop_bit 29 (of_nat (length data) :: u64)) = (of_nat (8 * (length m + length data) div 2 ^ 32) :: u32)"
    using count_add [OF assms(2), of "length m"] by simp_all
  have sel: "sha_state (ctx\<lparr>count0 := a, count1 := b\<rparr>) = sha_state ctx" "sha_buffer (ctx\<lparr>count0 := a, count1 := b\<rparr>) = sha_buffer ctx"
    "sha_buffer (ctx\<lparr>count0 := a, count1 := b, sha_buffer := c, sha_state := d\<rparr>) = c" for a b c d by simp_all
  show ?thesis
  proof (cases "63 < ?j + length data")
    case True
    let ?d = "take (64 - ?j) data" let ?t = "drop (64 - ?j) data" let ?b = "map Some (?r @ ?d) :: u8 array"
    let ?i = "64 - ?j + 64 * (length ?t div 64)"
    have ld: "length ?d = 64 - ?j" using True by simp
    have w: "mem_write (sha_buffer ctx) ?j ?d = Some ?b"
    proof -
      have e: "?j + length ?d = 64" using ld j by arith
      show ?thesis using buffer_write [OF h(2,3) lr, of ?d] unfolding e by (simp only: order_refl simp_thms h(2) drop_all append_Nil2)
    qed
    have lb: "length ?b = 64" using lr ld j by simp
    have loop: "sha1_loop (SHA1_Transform (sha_state ctx) (?r @ ?d)) data (64 - ?j) = (sha1_blocks (m @ data) sha1_init, ?i)"
    proof -
      have "take 64 (?r @ data) = ?r @ ?d" "drop 64 (?r @ data) = ?t" "64 \<le> length (?r @ data)" using lr j True by simp_all
      then have "sha1_blocks (m @ data) sha1_init = sha1_blocks ?t (sha1_block (?r @ ?d) (sha_state ctx))"
        by (simp only: sha1_blocks_app [of m] h(1) sha1_blocks_step)
      then show ?thesis using True by (simp add: sha1_loop_eq SHA1_Transform_eq)
    qed
    have rest: "drop ?i data = sha1_rest (m @ data)"
    proof -
      have "sha1_rest (m @ data) = sha1_rest (drop 64 (?r @ data))"
        using True lr by (subst sha1_rest_app) (rule sha1_rest_drop [symmetric], simp)
      also have "drop 64 (?r @ data) = ?t" using lr j by simp
      also have "sha1_rest ?t = drop (64 * (length ?t div 64)) ?t" by (rule sha1_rest_def)
      finally show ?thesis by (simp add: add.commute)
    qed
    have w2: "mem_write ?b 0 (drop ?i data) = Some (map Some (sha1_rest (m @ data)) @ drop (length (sha1_rest (m @ data))) ?b)"
      unfolding rest using length_rest [of "m @ data"] by (simp only: mem_write_def lb) simp
    let ?ctx = "ctx\<lparr>count0 := of_nat (8 * (length m + length data)), count1 := of_nat (8 * (length m + length data) div 2 ^ 32),
      sha_buffer := ?b, sha_state := sha1_blocks (m @ data) sha1_init, sha_buffer := map Some (sha1_rest (m @ data)) @ drop (length (sha1_rest (m @ data))) ?b\<rparr>"
    have "sat_SHA1_Update data ctx = Some ?ctx"
      using True by (simp only: sat_SHA1_Update_def Let_def h(4,5) cnt cnt' unat_count if_True sel w those_Some loop w2
        Option.bind.simps prod.case)
    moreover have "sha1_holds ?ctx (m @ data)"
    proof -
      have "length (map Some (sha1_rest (m @ data)) :: u8 array) = (length m + length data) mod 64"
        "length (drop (length (sha1_rest (m @ data))) ?b) = 64 - (length m + length data) mod 64"
        using length_rest [of "m @ data"] lb by (simp_all only: length_map length_drop length_append)
      moreover have "(length m + length data) mod 64 \<le> 64" by simp
      ultimately show ?thesis unfolding sha1_holds_def
        by (simp del: length_map map_append length_drop)
    qed
    ultimately show ?thesis by (rule that)
  next
    case False
    let ?ctx = "ctx\<lparr>count0 := of_nat (8 * (length m + length data)), count1 := of_nat (8 * (length m + length data) div 2 ^ 32),
      sha_buffer := map Some (?r @ data) @ drop (?j + length data) (sha_buffer ctx)\<rparr>"
    have w: "mem_write (sha_buffer ctx) ?j data = Some (map Some (?r @ data) @ drop (?j + length data) (sha_buffer ctx))"
      by (rule buffer_write) (use h lr False in simp_all)
    have "sat_SHA1_Update data ctx = Some ?ctx"
      using False by (simp only: sat_SHA1_Update_def Let_def h(4,5) cnt cnt' unat_count if_False sel w Option.bind.simps prod.case drop_0)
    moreover have "sha1_holds ?ctx (m @ data)"
    proof -
      have s: "length (?r @ data) < 64" using False lr by simp
      have "sha1_rest (m @ data) = ?r @ data" using s by (subst sha1_rest_app) (rule sha1_rest_small)
      moreover have "sha1_blocks (m @ data) sha1_init = sha1_blocks m sha1_init" using s by (simp only: sha1_blocks_app [of m] sha1_blocks_small)
      moreover have "(length m + length data) mod 64 = ?j + length data" using False mod_add_left_eq [of "length m" 64 "length data"] by simp
      ultimately show ?thesis using h lr False by (simp add: sha1_holds_def)
    qed
    ultimately show ?thesis by (rule that)
  qed
qed

subsection \<open>The digest\<close>

lemma count_504: "count AND 504 = 448 \<longleftrightarrow> drop_bit 3 count AND 63 = (56 :: u32)"
proof -
  have "count AND push_bit 3 (mask 6) = push_bit 3 (drop_bit 3 count AND mask 6)"
    by (rule bit_word_eqI) (auto simp: bit_simps)
  then have "count AND 504 = push_bit 3 (drop_bit 3 count AND 63)" by (simp add: mask_numeral)
  moreover have "drop_bit 3 (push_bit 3 (drop_bit 3 count AND mask 6)) = drop_bit 3 count AND mask 6"
    by (rule bit_word_eqI) (auto simp: bit_simps)
  then have "drop_bit 3 (push_bit 3 (drop_bit 3 count AND 63)) = drop_bit 3 count AND 63" by (simp add: mask_numeral)
  moreover have "drop_bit 3 (448 :: u32) = 56" "push_bit 3 (56 :: u32) = 448" by simp_all
  ultimately show ?thesis by metis
qed

lemma holds_504: "sha1_holds ctx m \<Longrightarrow> count0 ctx AND 504 = 448 \<longleftrightarrow> length m mod 64 = 56"
proof -
  assume "sha1_holds ctx m"
  then have "unat (drop_bit 3 (count0 ctx) AND 63) = length m mod 64" by (simp only: sha1_holds_def unat_count)
  moreover have "unat (56 :: u32) = 56" by simp
  ultimately show ?thesis unfolding count_504 by (metis word_unat_eq_iff)
qed

lemma sha1_fill_eq:
  "sha1_holds ctx m \<Longrightarrow> (length m + k) mod 64 = 56 \<Longrightarrow> (\<And>i. i < k \<Longrightarrow> (length m + i) mod 64 \<noteq> 56) \<Longrightarrow>
    \<exists>ctx'. sha1_fill ctx = Some ctx' \<and> sha1_holds ctx' (m @ replicate k 0)"
proof (induction k arbitrary: ctx m)
  case 0
  then show ?case by (subst sha1_fill.simps) (simp add: holds_504)
next
  case (Suc k)
  have "length m mod 64 \<noteq> 56" using Suc.prems(3) [of 0] by simp
  obtain ctx1 where u: "sat_SHA1_Update [0] ctx = Some ctx1" "sha1_holds ctx1 (m @ [0])"
    using sha1_update [OF Suc.prems(1), of "[0]"] by auto
  have "\<exists>ctx'. sha1_fill ctx1 = Some ctx' \<and> sha1_holds ctx' ((m @ [0]) @ replicate k 0)"
  proof (rule Suc.IH [OF u(2)])
    show "(length (m @ [0]) + k) mod 64 = 56" using Suc.prems(2) by simp
    show "(length (m @ [0]) + i) mod 64 \<noteq> 56" if "i < k" for i using Suc.prems(3) [of "Suc i"] that by simp
  qed
  then show ?case using \<open>length m mod 64 \<noteq> 56\<close> u(1) Suc.prems(1) by (subst sha1_fill.simps) (simp add: holds_504)
qed

lemma zeros_to_fill:
  fixes n :: nat
  defines "k \<equiv> (119 - n mod 64) mod 64"
  shows "(Suc n + k) mod 64 = 56" "i < k \<Longrightarrow> (Suc n + i) mod 64 \<noteq> 56"
proof -
  have m: "(Suc n + i) mod 64 = (Suc (n mod 64) + i) mod 64" for i by (metis add_Suc mod_Suc_eq mod_add_left_eq)
  define r where "r = n mod 64"
  have "r < 64" by (simp add: r_def)
  have "(Suc r + k) mod 64 = 56 \<and> (i < k \<longrightarrow> (Suc r + i) mod 64 \<noteq> 56)"
  proof (cases "r < 56")
    case True
    then have "k = (55 - r + 64) mod 64" by (simp add: k_def flip: r_def)
    then have "k = 55 - r" using True by (simp only: mod_add_self2) simp
    then show ?thesis using True by auto
  next
    case False
    then have k: "k = 119 - r" by (simp add: k_def flip: r_def)
    have "(Suc r + k) mod 64 = 56" using \<open>r < 64\<close> by (simp add: k)
    moreover have "(Suc r + i) mod 64 \<noteq> 56" if "i < k"
    proof (cases "Suc r + i < 64")
      case True
      then show ?thesis using False by simp
    next
      case False
      then have "(Suc r + i) mod 64 = Suc r + i - 64" using that \<open>r < 64\<close> by (simp add: k le_mod_geq)
      then show ?thesis using that k by simp
    qed
    ultimately show ?thesis by simp
  qed
  then show "(Suc n + k) mod 64 = 56" "i < k \<Longrightarrow> (Suc n + i) mod 64 \<noteq> 56" unfolding m r_def by auto
qed

lemma ucast_low_byte: "ucast (y AND 255) = (ucast y :: u8)" for y :: u32
proof -
  have "ucast (y AND mask 8) = (ucast y :: u8)" by (rule bit_word_eqI) (auto simp: bit_simps)
  then show ?thesis by (simp add: mask_numeral)
qed

lemma be_bytes_and: "map (\<lambda>i. ucast (drop_bit ((3 - i mod 4) * 8) x AND 255)) [0..<4] = be_bytes x"
  by (simp add: be_bytes_def PUT_UINT32_def upt_rec ucast_low_byte)

lemma word_bytes:
  "map (\<lambda>i. ucast (drop_bit ((3 - i mod 4) * 8) (ws (i div 4)) AND 255)) [0..<4 * n] = concat (map (\<lambda>i. be_bytes (ws i)) [0..<n])"
proof (induction n)
  case 0
  then show ?case by simp
next
  case (Suc n)
  have "[0..<4 * Suc n] = [0..<4 * n] @ map (\<lambda>i. i + 4 * n) [0..<4]"
    using upt_add_eq_append [of 0 "4 * n" 4] by (simp add: map_add_upt add.commute)
  moreover have "map (\<lambda>i. ucast (drop_bit ((3 - i mod 4) * 8) (ws (n + i div 4)) AND 255)) [0..<4] = be_bytes (ws n)"
    unfolding be_bytes_and [symmetric] by (rule map_cong) (simp_all del: upt_rec_numeral)
  ultimately show ?case using Suc by (simp add: comp_def)
qed

lemma be64_count:
  "be_bytes (of_nat (8 * n div 2 ^ 32)) @ be_bytes (of_nat (8 * n)) = be64 (8 * of_nat n)"
proof -
  have "8 * of_nat n = (of_nat (8 * n) :: u64)" by simp
  moreover have "(ucast (of_nat m :: u64) :: u32) = of_nat m" for m
    by (rule bit_word_eqI) (simp add: bit_simps)
  moreover have "(ucast (drop_bit 32 (of_nat m :: u64)) :: u32) = of_nat (m div 2 ^ 32)" for m
  proof -
    have "m div 2 ^ 32 = drop_bit 32 m" by (rule drop_bit_eq_div [symmetric])
    then show ?thesis by (simp only:) (rule bit_word_eqI, simp add: bit_simps)
  qed
  ultimately show ?thesis by (simp only: be64_def)
qed

lemma sha1_final:
  assumes "sha1_holds ctx m"
  shows "sat_SHA1_Final ctx = Some (sha1 m)"
proof -
  let ?k = "(119 - length m mod 64) mod 64"
  let ?f = "map (\<lambda>i. ucast (drop_bit ((3 - i mod 4) * 8) (if i \<ge> 4 then count0 ctx else count1 ctx) AND 255)) [0..<8]"
  obtain ctx1 where c1: "sat_SHA1_Update [0x80] ctx = Some ctx1" "sha1_holds ctx1 (m @ [0x80])"
    using sha1_update [OF assms, of "[0x80]"] by auto
  obtain ctx2 where c2: "sha1_fill ctx1 = Some ctx2" "sha1_holds ctx2 ((m @ [0x80]) @ replicate ?k 0)"
  proof -
    have "length (m @ [0x80]) = Suc (length m)" by simp
    then show thesis
      using sha1_fill_eq [OF c1(2), of ?k] zeros_to_fill(1) [of "length m"] zeros_to_fill(2) [where n = "length m"] that by metis
  qed
  have "?f = be64 (8 * of_nat (length m))"
  proof -
    define ws where "ws j = (if 1 \<le> j then count0 ctx else count1 ctx)" for j :: nat
    have "?f = map (\<lambda>i. ucast (drop_bit ((3 - i mod 4) * 8) (ws (i div 4)) AND 255)) [0..<4 * 2]"
      by (rule map_cong) (auto simp: ws_def div_greater_zero_iff Suc_le_eq simp del: upt_rec_numeral)
    also note word_bytes [of ws 2]
    finally have "?f = concat (map (\<lambda>i. be_bytes (ws i)) [0..<2])" .
    then have "?f = be_bytes (count1 ctx) @ be_bytes (count0 ctx)" by (simp add: ws_def numeral_2_eq_2 del: upt_rec_numeral)
    then show ?thesis using assms by (simp only: sha1_holds_def be64_count)
  qed
  then have f: "?f = be64 (8 * of_nat (length m))" .
  have "length (be64 (8 * of_nat (length m))) < 2 ^ 29" by (simp add: be64_def be_bytes_def PUT_UINT32_def)
  then obtain ctx3 where c3: "sat_SHA1_Update (be64 (8 * of_nat (length m))) ctx2 = Some ctx3"
      "sha1_holds ctx3 (((m @ [0x80]) @ replicate ?k 0) @ be64 (8 * of_nat (length m)))"
    by (rule sha1_update [OF c2(2)])
  have "sha_state ctx3 = sha1_blocks (sha1_pad m) sha1_init"
    using c3(2) by (simp only: sha1_holds_def sha1_pad_def append_assoc append_Cons append_Nil)
  moreover have "map (\<lambda>i. ucast (drop_bit ((3 - i mod 4) * 8) (regs_list s ! (i div 4)) AND 255)) [0..<SHA1_DIGEST_SIZE] =
      concat (map be_bytes (regs_list s))" for s
  proof -
    have "length (regs_list s) = 5" by (cases s) (simp add: regs_list_def)
    then have "map be_bytes (regs_list s) = map (\<lambda>i. be_bytes (regs_list s ! i)) [0..<5]"
      by (intro nth_equalityI) (simp_all del: upt_rec_numeral)
    moreover have "SHA1_DIGEST_SIZE = 4 * 5" by (simp add: SHA1_DIGEST_SIZE_def)
    ultimately show ?thesis using word_bytes [of "\<lambda>i. regs_list s ! i" 5] by (simp only:)
  qed
  ultimately show ?thesis by (simp only: sat_SHA1_Final_def Let_def f c1(1) c2(1) c3(1) Option.bind.simps sha1_def)
qed

subsection \<open>Pieces\<close>

text \<open>Successive calls of \<open>sat_SHA1_Update\<close>.\<close>

primrec sha1_updates :: "u8 list list \<Rightarrow> SHA1_CTX \<Rightarrow> SHA1_CTX option" where
  "sha1_updates [] ctx = Some ctx"
| "sha1_updates (p # ps) ctx = do { ctx' \<leftarrow> sat_SHA1_Update p ctx; sha1_updates ps ctx' }"

lemma sha1_updates_hold:
  assumes "sha1_holds ctx m" "\<forall>p\<in>set pieces. length p < 2 ^ 29"
  shows "\<exists>ctx'. sha1_updates pieces ctx = Some ctx' \<and> sha1_holds ctx' (m @ concat pieces)"
  using assms
proof (induction pieces arbitrary: ctx m)
  case Nil
  then show ?case by simp
next
  case (Cons p ps)
  obtain ctx1 where "sat_SHA1_Update p ctx = Some ctx1" "sha1_holds ctx1 (m @ p)"
    using sha1_update [OF Cons.prems(1), of p] Cons.prems(2) by auto
  then show ?case using Cons.IH [of ctx1 "m @ p"] Cons.prems(2) by simp
qed

text \<open>Property C33. The code computes SHA-1 as FIPS 180 defines it: whatever pieces a message is passed in (each below
  512M, empty ones included), the buffering of the unfinished block, the two-word bit count with its carry, the transformation in a
  ring of sixteen words and the padding byte by byte give the digest of the whole message, no cell of the buffer is read
  before it is written, and the padding loop returns.\<close>

theorem sha1_in_pieces:
  assumes "\<forall>p\<in>set pieces. length p < 2 ^ 29"
  shows "do { ctx \<leftarrow> sha1_updates pieces sat_SHA1_Init; sat_SHA1_Final ctx } = Some (sha1 (concat pieces))"
  using sha1_updates_hold [OF init_holds assms] sha1_final by auto

lemma sha1_in_pieces_witness:
  "do { ctx \<leftarrow> sha1_updates [[97], [], [98, 99]] sat_SHA1_Init; sat_SHA1_Final ctx } = Some (sha1 [97, 98, 99])"
  using sha1_in_pieces [of "[[97], [], [98, 99]]"] by simp

lemma lsha1_eq: "length m < 2 ^ 29 \<Longrightarrow> lsha1 m = Some (sha1 m)"
proof -
  assume "length m < 2 ^ 29"
  then obtain ctx where "sat_SHA1_Update m sat_SHA1_Init = Some ctx" "sha1_holds ctx ([] @ m)" by (rule sha1_update [OF init_holds])
  then show ?thesis by (simp add: lsha1_def sha1_final)
qed

subsection \<open>The keyed hash\<close>

text \<open>RFC 2104 over SHA-1.\<close>

definition sha1_key :: "u8 list \<Rightarrow> u8 list" where
  "sha1_key key = (let k = (if length key > 64 then sha1 key else key) in k @ replicate (64 - length k) 0)"

definition rfc2104_sha1 :: "u8 list \<Rightarrow> u8 list \<Rightarrow> u8 list" where
  "rfc2104_sha1 key s = sha1 (map ((XOR) 0x5c) (sha1_key key) @ sha1 (map ((XOR) 0x36) (sha1_key key) @ s))"

lemma length_sha1: "length (sha1 m) = SHA1_DIGEST_SIZE"
  by (cases "sha1_blocks (sha1_pad m) sha1_init") (simp add: sha1_def regs_list_def be_bytes_def PUT_UINT32_def SHA1_DIGEST_SIZE_def)

lemma length_sha1_key: "length (sha1_key key) = 64"
  by (simp add: sha1_key_def length_sha1 SHA1_DIGEST_SIZE_def)

lemma words_concat: "4 * n \<le> length key \<Longrightarrow> concat (map (\<lambda>i. take 4 (drop (4 * i) key)) [0..<n]) = take (4 * n) key"
  by (induction n) (simp_all add: take_add [symmetric] add.commute)

lemma be32_xor: "be32 a b c d XOR be32 e f g h = be32 (a XOR e) (b XOR f) (c XOR g) (d XOR h)"
  by (rule bit_word_eqI) (simp add: bit_be32 bit_xor_iff)

lemma le_bytes_be32: "word_le_bytes (be32 a b c d) = [d, c, b, a]"
  using put_be32 [of a b c d] by (simp add: word_le_bytes_def PUT_UINT32_def ucast_low_byte)

lemma xor_key_eq:
  assumes "length key = 64"
  shows "xor_key key (be32 x x x x) = map ((XOR) x) key"
proof -
  have w: "word_le_bytes (le32 key (4 * i) XOR be32 x x x x) = map ((XOR) x) (take 4 (drop (4 * i) key))" if "i < 16" for i
  proof -
    have "take 4 (drop (4 * i) key) = [key ! (4 * i), key ! (4 * i + 1), key ! (4 * i + 2), key ! (4 * i + 3)]"
      by (rule nth_equalityI) (use assms that in \<open>auto simp: less_Suc_eq numeral_eq_Suc\<close>)
    then show ?thesis by (simp add: le32_be32 be32_xor le_bytes_be32 xor.commute)
  qed
  have "xor_key key (be32 x x x x) = concat (map (\<lambda>i. map ((XOR) x) (take 4 (drop (4 * i) key))) [0..<16])"
    unfolding xor_key_def by (rule arg_cong [of _ _ concat]) (simp add: BLOCKSIZE_def w del: upt_rec_numeral)
  also have "\<dots> = map ((XOR) x) (concat (map (\<lambda>i. take 4 (drop (4 * i) key)) [0..<16]))"
    by (simp add: map_concat comp_def del: upt_rec_numeral)
  finally show ?thesis using words_concat [of 16 key] assms by simp
qed

lemma xor_key_pads:
  assumes "length key = 64"
  shows "xor_key key 0x5c5c5c5c = map ((XOR) 0x5c) key"
    and "xor_key (map ((XOR) 0x5c) key) (0x5c5c5c5c XOR 0x36363636) = map ((XOR) 0x36) key"
proof -
  have w: "(0x5c5c5c5c :: u32) = be32 0x5c 0x5c 0x5c 0x5c" and v: "(0x5c5c5c5c XOR 0x36363636 :: u32) = be32 0x6a 0x6a 0x6a 0x6a"
    by (simp_all add: be32_def)
  show "xor_key key 0x5c5c5c5c = map ((XOR) 0x5c) key" unfolding w by (rule xor_key_eq [OF assms])
  have "xor_key (map ((XOR) 0x5c) key) (0x5c5c5c5c XOR 0x36363636) = map ((XOR) 0x6a) (map ((XOR) 0x5c) key)"
    unfolding v by (rule xor_key_eq) (simp add: assms)
  moreover have "0x6a XOR (0x5c XOR b) = 0x36 XOR b" for b :: u8 by (simp flip: xor.assoc)
  ultimately show "xor_key (map ((XOR) 0x5c) key) (0x5c5c5c5c XOR 0x36363636) = map ((XOR) 0x36) key" by simp
qed

text \<open>Property C38. \<open>crypt.hmac_sha1\<close> is the keyed hash of RFC 2104 over SHA-1 with its block of 64 bytes: a longer key is
  hashed first, the key is padded with zeros, and turning the outer key into the inner one in place by a second exclusive or
  gives the inner key.\<close>

theorem hmac_sha1_is_rfc2104:
  assumes "length key < 2 ^ 29" "length s < 2 ^ 29"
  shows "lhmac_sha1 key s = Some (rfc2104_sha1 key s)"
proof -
  let ?o = "map ((XOR) 0x5c) (sha1_key key) :: u8 list" let ?i = "map ((XOR) 0x36) (sha1_key key) :: u8 list"
  have l: "length ?o < 2 ^ 29" "length ?i < 2 ^ 29" "length (sha1 m) < 2 ^ 29" for m
    by (simp_all add: length_sha1_key length_sha1 SHA1_DIGEST_SIZE_def)
  obtain c where c: "sat_SHA1_Update key sat_SHA1_Init = Some c" "sha1_holds c ([] @ key)"
    using assms(1) by (rule sha1_update [OF init_holds])
  have rk: "(if length key > BLOCKSIZE then do {
         ctx \<leftarrow> sat_SHA1_Update key sat_SHA1_Init;
         digest \<leftarrow> sat_SHA1_Final ctx;
         Some (digest @ replicate (BLOCKSIZE - SHA1_DIGEST_SIZE) 0) }
       else Some (key @ replicate (BLOCKSIZE - length key) 0)) = Some (sha1_key key)"
    using sha1_final [OF c(2)] by (simp add: c(1) sha1_key_def length_sha1 BLOCKSIZE_def)
  obtain c1 where c1: "sat_SHA1_Update ?o sat_SHA1_Init = Some c1" "sha1_holds c1 ([] @ ?o)"
    using l(1) by (rule sha1_update [OF init_holds])
  obtain c2 where c2: "sat_SHA1_Update ?i sat_SHA1_Init = Some c2" "sha1_holds c2 ([] @ ?i)"
    using l(2) by (rule sha1_update [OF init_holds])
  obtain c3 where c3: "sat_SHA1_Update s c2 = Some c3" "sha1_holds c3 (([] @ ?i) @ s)"
    using assms(2) by (rule sha1_update [OF c2(2)])
  obtain c4 where c4: "sat_SHA1_Update (sha1 (?i @ s)) c1 = Some c4" "sha1_holds c4 (([] @ ?o) @ sha1 (?i @ s))"
    using l(3) by (rule sha1_update [OF c1(2)])
  note fin = sha1_final [OF c3(2)] sha1_final [OF c4(2)]
  show ?thesis
    by (simp only: lhmac_sha1_def rk Let_def xor_key_pads [OF length_sha1_key] c1(1) c2(1) c3(1) c4(1) fin append_Nil
      Option.bind.simps rfc2104_sha1_def)
qed

lemma hmac_sha1_is_rfc2104_witness:
  "lhmac_sha1 [1, 2, 3] [97, 98, 99] = Some (rfc2104_sha1 [1, 2, 3] [97, 98, 99])"
  using hmac_sha1_is_rfc2104 [of "[1, 2, 3]" "[97, 98, 99]"] by simp

subsection \<open>A piece of 512M\<close>

text \<open>The bound is needed. The carry into the high count word is found by comparing the 32 bit low word, which has
  wrapped, with the 64 bit \<open>len << 3\<close>, and then \<open>len >> 29\<close> is added as well: after one piece of 512M bytes the
  context counts twice the 2^32 bits it has read, and the padding takes its length field from that count.\<close>

theorem sha1_counts_twice:
  assumes "length data = 2 ^ 29"
  shows "map_option (\<lambda>ctx. (count1 ctx, count0 ctx)) (sat_SHA1_Update data sat_SHA1_Init) = Some (2, 0)"
proof -
  have u: "(of_nat (length data) :: u64) = 2 ^ 29" by (simp add: assms)
  have c: "(0 :: u32) + ucast (push_bit 3 (2 ^ 29 :: u64)) = 0"
    "(0 :: u32) + (if (ucast (0 :: u32) :: u64) < push_bit 3 (2 ^ 29) then 1 else 0) + ucast (drop_bit 29 (2 ^ 29 :: u64)) = 2"
    "unat (drop_bit 3 (0 :: u32) AND 63) = 0" by simp_all
  let ?b = "map Some (take 64 data)"
  have lb: "length ?b = 64" "length (take 64 data) = 64" by (simp_all add: assms)
  have w: "mem_write (array_new 64) 0 (take 64 data) = Some ?b" using lb(2) by (rule mem_write_all)
  have i: "sha1_loop h data 64 = (sha1_blocks (drop 64 data) h, 2 ^ 29)" for h by (simp add: sha1_loop_eq assms)
  have w2: "mem_write ?b 0 (drop (2 ^ 29) data) = Some ?b" by (simp add: mem_write_def assms)
  have "0 + length data > 63" by (simp add: assms)
  moreover have "sha_state sat_SHA1_Init = sha1_init" "count0 sat_SHA1_Init = 0" "count1 sat_SHA1_Init = 0"
    "sha_buffer sat_SHA1_Init = array_new 64" by (simp_all add: sat_SHA1_Init_def sha1_init_def)
  moreover have "64 - 0 = (64 :: nat)" by simp
  moreover have "sha_state (x\<lparr>count0 := a, count1 := b\<rparr>) = sha_state x" "sha_buffer (x\<lparr>count0 := a, count1 := b\<rparr>) = sha_buffer x"
    "sha_buffer (x\<lparr>count0 := a, count1 := b, sha_buffer := c, sha_state := d\<rparr>) = c" for x :: SHA1_CTX and a b c d by simp_all
  ultimately have "sat_SHA1_Update data sat_SHA1_Init =
      Some (sat_SHA1_Init\<lparr>count0 := 0, count1 := 2, sha_buffer := ?b,
        sha_state := sha1_blocks (drop 64 data) (SHA1_Transform sha1_init (take 64 data)), sha_buffer := ?b\<rparr>)"
    by (simp only: sat_SHA1_Update_def Let_def u c w i w2 those_Some if_True Option.bind.simps prod.case)
  then show ?thesis by simp
qed

lemma sha1_counts_twice_witness:
  "map_option (\<lambda>ctx. (count1 ctx, count0 ctx)) (sat_SHA1_Update (replicate (2 ^ 29) 0) sat_SHA1_Init) = Some (2, 0)"
  by (rule sha1_counts_twice) (rule length_replicate)

end
