(* ===== verification/Cluster.thy ===== *)
theory Cluster
  imports Netpack CryptSha1 Format
begin

section \<open>Packages between the nodes of a cluster (lualib-src/lua-cluster.c)\<close>

text \<open>
  A request or response of a cluster becomes one package, or, when it is large, a package that announces it and one
  package for each part of 32K; each package has a header of two bytes for netpack. A Lua integer has 64 bits, the
  address and the session are cut to the \<open>uint32_t\<close> and \<open>int\<close> of the C code. A message is the list of its bytes.
  \<open>None\<close> is a failed assertion, a write outside of the temporary buffer, a read outside of a message, or a failed
  allocation; a Lua error is a value of \<open>cluster_error\<close>. How clusteragent.lua uses the functions on the receiving side is
  modelled too. The theorems: requests of any sizes arrive whole, once and unchanged, however their packages are mixed
  and their stream is cut; so do responses; unpacking any string of bytes stays inside of it; and what becomes of a
  request whose announced size is negative as an \<open>int\<close>.
\<close>

definition TEMP_LENGTH :: nat where "TEMP_LENGTH = 0x8200"
definition MULTI_PART :: u32 where "MULTI_PART = 0x8000"

datatype lua_addr = AddrNumber i64 | AddrString "u8 list" | AddrOther

datatype cluster_error =
    NoMessage | InvalidSession i32 | NameTooLong | TraceTooLong nat | InvalidMessage nat | InvalidMulti nat
  | InvalidPart | InvalidPackageType u8

subsection \<open>Packing a request\<close>

definition fill_uint32 :: "u32 \<Rightarrow> u8 list" where
  "fill_uint32 n = [ucast (n AND 0xff), ucast (drop_bit 8 n AND 0xff), ucast (drop_bit 16 n AND 0xff), ucast (drop_bit 24 n AND 0xff)]"

definition fill_header :: "int \<Rightarrow> u8 list option" where
  "fill_header sz = do { c_assert (sz < 0x10000); Some [of_int (sz div 256 mod 256), of_int (sz mod 256)] }"

text \<open>The Lua string of the first \<open>n\<close> bytes of \<open>buf\<close>, which has \<open>TEMP_LENGTH\<close> bytes and was filled from the front.\<close>

definition temp_string :: "u8 list \<Rightarrow> nat \<Rightarrow> u8 list option" where
  "temp_string buf n = do { c_assert (length buf \<le> TEMP_LENGTH); mem_read buf n }"

text \<open>The package and the number of further parts.\<close>

definition packreq_number :: "u32 \<Rightarrow> u32 \<Rightarrow> u8 list \<Rightarrow> u32 \<Rightarrow> bool \<Rightarrow> (u8 list \<times> nat) option" where
  "packreq_number addr session msg sz is_push =
     (if sz < MULTI_PART then do {
        h \<leftarrow> fill_header (uint sz + 9);
        body \<leftarrow> mem_read msg (unat sz);
        s \<leftarrow> temp_string (h @ [0] @ fill_uint32 addr @ fill_uint32 (if is_push then 0 else session) @ body) (unat sz + 11);
        Some (s, 0) }
      else do {
        let part = unat ((sz - 1) div MULTI_PART + 1);
        h \<leftarrow> fill_header 13;
        s \<leftarrow> temp_string (h @ [if is_push then 0x41 else 1] @ fill_uint32 addr @ fill_uint32 session @ fill_uint32 sz) 15;
        Some (s, part) })"

definition packreq_string ::
  "u8 list option \<Rightarrow> u32 \<Rightarrow> u8 list \<Rightarrow> u32 \<Rightarrow> bool \<Rightarrow> (cluster_error + u8 list \<times> nat) option" where
  "packreq_string name session msg sz is_push =
     (case name of
        None \<Rightarrow> Some (Inl NameTooLong)
      | Some name \<Rightarrow>
          let namelen = length name in
          if namelen < 1 \<or> namelen > 255 then Some (Inl NameTooLong)
          else if sz < MULTI_PART then do {
            h \<leftarrow> fill_header (uint sz + 6 + int namelen);
            body \<leftarrow> mem_read msg (unat sz);
            s \<leftarrow> temp_string (h @ [0x80, of_nat namelen] @ name @ fill_uint32 (if is_push then 0 else session) @ body)
              (unat sz + 8 + namelen);
            Some (Inr (s, 0)) }
          else do {
            let part = unat ((sz - 1) div MULTI_PART + 1);
            h \<leftarrow> fill_header (10 + int namelen);
            s \<leftarrow> temp_string (h @ [if is_push then 0xc1 else 0x81, of_nat namelen] @ name @ fill_uint32 session @ fill_uint32 sz)
              (12 + namelen);
            Some (Inr (s, part)) })"

text \<open>The loop of \<open>packreq_multi\<close> with \<open>n\<close> parts to go.\<close>

fun multi_loop :: "nat \<Rightarrow> u32 \<Rightarrow> u8 list \<Rightarrow> u32 \<Rightarrow> u8 list list option" where
  "multi_loop 0 session ptr sz = Some []"
| "multi_loop (Suc n) session ptr sz =
     (let (s, tag) = (if sz > MULTI_PART then (MULTI_PART, 2) else (sz, 3)) in do {
        h \<leftarrow> fill_header (uint s + 5);
        body \<leftarrow> mem_read ptr (unat s);
        p \<leftarrow> temp_string (h @ [tag] @ fill_uint32 session @ body) (unat s + 7);
        ps \<leftarrow> multi_loop n session (drop (unat s) ptr) (sz - s);
        Some (p # ps) })"

definition packreq_multi :: "u32 \<Rightarrow> u8 list \<Rightarrow> u32 \<Rightarrow> u8 list list option" where
  "packreq_multi session msg sz = multi_loop (unat ((sz - 1) div MULTI_PART + 1)) session msg sz"

text \<open>What is returned to Lua (the request, the next session and the table of parts if there is one), and how often the message
  was freed.\<close>

definition packrequest ::
  "lua_addr \<Rightarrow> i64 \<Rightarrow> u8 list option \<Rightarrow> bool \<Rightarrow> ((cluster_error + u8 list \<times> u32 \<times> u8 list list option) \<times> nat) option" where
  "packrequest addr lsession msg is_push =
     (case msg of
        None \<Rightarrow> Some (Inl NoMessage, 0)
      | Some msg \<Rightarrow>
          let sz = of_nat (length msg) :: u32; session = ucast lsession :: i32 in
          if sint session \<le> 0 then Some (Inl (InvalidSession session), 1)
          else do {
            r \<leftarrow> (case addr of
                AddrNumber a \<Rightarrow> do { r \<leftarrow> packreq_number (ucast a) session msg sz is_push; Some (Inr r) }
              | AddrString name \<Rightarrow> packreq_string (Some name) session msg sz is_push
              | AddrOther \<Rightarrow> packreq_string None session msg sz is_push);
            (case r of
               Inl e \<Rightarrow> Some (Inl e, 1)
             | Inr (s, multipak) \<Rightarrow> do {
                 let new_session = session + 1;
                 let new_session = (if new_session > 0x7fffffff then 1 else new_session);
                 parts \<leftarrow> (if multipak \<noteq> 0 then do { ps \<leftarrow> packreq_multi session msg sz; Some (Some ps) } else Some None);
                 Some (Inr (s, new_session, parts), 1) }) })"

definition lpackrequest where "lpackrequest addr session msg = packrequest addr session msg False"
definition lpackpush where "lpackpush addr session msg = packrequest addr session msg True"

definition lpacktrace :: "u8 list \<Rightarrow> (cluster_error + u8 list) option" where
  "lpacktrace tag =
     (if length tag > 0x8000 then Some (Inl (TraceTooLong (length tag)))
      else do {
        h \<leftarrow> fill_header (int (length tag) + 1);
        s \<leftarrow> temp_string (h @ [4] @ tag) (length tag + 3);
        Some (Inr s) })"

subsection \<open>Unpacking a request\<close>

definition unpack_uint32 :: "u8 list \<Rightarrow> nat \<Rightarrow> u32 option" where
  "unpack_uint32 buf i = do { c_assert (i + 4 \<le> length buf); Some (le32 buf i) }"

definition return_buffer :: "u8 list \<Rightarrow> nat \<Rightarrow> nat \<Rightarrow> u8 list option" where
  "return_buffer buf off sz = mem_read (drop off buf) sz"

text \<open>The values returned to Lua: address, session, message, size, \<open>padding\<close>, \<open>is_push\<close> (the last two are \<open>nil\<close>
  where they are \<open>False\<close> here and not pushed), or the tag of a trace.\<close>

datatype unpacked = Unpacked lua_addr u32 "u8 list option" nat bool bool | Trace "u8 list"

type_synonym unpack_result = "(cluster_error + unpacked) option"

definition unpackreq_number :: "u8 list \<Rightarrow> unpack_result" where
  "unpackreq_number buf =
     (if length buf < 9 then Some (Inl (InvalidMessage (length buf)))
      else do {
        address \<leftarrow> unpack_uint32 buf 1;
        session \<leftarrow> unpack_uint32 buf 5;
        m \<leftarrow> return_buffer buf 9 (length buf - 9);
        Some (Inr (Unpacked (AddrNumber (ucast address)) session (Some m) (length buf - 9) False (session = 0))) })"

definition unpackmreq_number :: "u8 list \<Rightarrow> bool \<Rightarrow> unpack_result" where
  "unpackmreq_number buf is_push =
     (if length buf \<noteq> 13 then Some (Inl (InvalidMulti (length buf)))
      else do {
        address \<leftarrow> unpack_uint32 buf 1;
        session \<leftarrow> unpack_uint32 buf 5;
        size \<leftarrow> unpack_uint32 buf 9;
        Some (Inr (Unpacked (AddrNumber (ucast address)) session None (unat size) True is_push)) })"

definition unpackmreq_part :: "u8 list \<Rightarrow> unpack_result" where
  "unpackmreq_part buf =
     (if length buf < 5 then Some (Inl InvalidPart)
      else do {
        t \<leftarrow> nth_at buf 0;
        session \<leftarrow> unpack_uint32 buf 1;
        m \<leftarrow> return_buffer buf 5 (length buf - 5);
        Some (Inr (Unpacked AddrOther session (Some m) (length buf - 5) (t = 2) False)) })"

definition unpacktrace :: "u8 list \<Rightarrow> unpack_result" where
  "unpacktrace buf = do { tag \<leftarrow> mem_read (drop 1 buf) (length buf - 1); Some (Inr (Trace tag)) }"

definition unpackreq_string :: "u8 list \<Rightarrow> unpack_result" where
  "unpackreq_string buf =
     (if length buf < 2 then Some (Inl (InvalidMessage (length buf)))
      else do {
        n \<leftarrow> nth_at buf 1;
        let namesz = unat n;
        (if length buf < namesz + 6 then Some (Inl (InvalidMessage (length buf)))
         else do {
           name \<leftarrow> mem_read (drop 2 buf) namesz;
           session \<leftarrow> unpack_uint32 buf (namesz + 2);
           m \<leftarrow> return_buffer buf (2 + namesz + 4) (length buf - namesz - 6);
           Some (Inr (Unpacked (AddrString name) session (Some m) (length buf - namesz - 6) False (session = 0))) }) })"

definition unpackmreq_string :: "u8 list \<Rightarrow> bool \<Rightarrow> unpack_result" where
  "unpackmreq_string buf is_push =
     (if length buf < 2 then Some (Inl (InvalidMessage (length buf)))
      else do {
        n \<leftarrow> nth_at buf 1;
        let namesz = unat n;
        (if length buf < namesz + 10 then Some (Inl (InvalidMessage (length buf)))
         else do {
           name \<leftarrow> mem_read (drop 2 buf) namesz;
           session \<leftarrow> unpack_uint32 buf (namesz + 2);
           size \<leftarrow> unpack_uint32 buf (namesz + 6);
           Some (Inr (Unpacked (AddrString name) session None (unat size) True is_push)) }) })"

text \<open>A Lua string ends with a zero byte, which is what \<open>msg[0]\<close> reads of an empty one; behind a light userdata there are just the
  \<open>sz\<close> bytes.\<close>

definition lunpackrequest :: "bool \<Rightarrow> u8 list \<Rightarrow> unpack_result" where
  "lunpackrequest lightuserdata msg = do {
     t \<leftarrow> (if lightuserdata then nth_at msg 0 else nth_at (msg @ [0]) 0);
     (if t = 0 then unpackreq_number msg
      else if t = 1 then unpackmreq_number msg False
      else if t = 0x41 then unpackmreq_number msg True
      else if t = 2 \<or> t = 3 then unpackmreq_part msg
      else if t = 4 then unpacktrace msg
      else if t = 0x80 then unpackreq_string msg
      else if t = 0x81 then unpackmreq_string msg False
      else if t = 0xc1 then unpackmreq_string msg True
      else Some (Inl (InvalidPackageType t))) }"

subsection \<open>Responses\<close>

text \<open>The loop over the parts of a large response. \<open>part\<close> and \<open>s\<close> are \<open>int\<close>s: the size is below \<open>2 ^ 31\<close>.\<close>

fun resp_loop :: "nat \<Rightarrow> u32 \<Rightarrow> u8 list \<Rightarrow> nat \<Rightarrow> u8 list list option" where
  "resp_loop 0 session ptr sz = Some []"
| "resp_loop (Suc n) session ptr sz =
     (let (s, tag) = (if sz > unat MULTI_PART then (unat MULTI_PART, 3) else (sz, 4)) in do {
        h \<leftarrow> fill_header (int s + 5);
        body \<leftarrow> mem_read ptr s;
        p \<leftarrow> temp_string (h @ fill_uint32 session @ [tag] @ body) (s + 7);
        ps \<leftarrow> resp_loop n session (drop s ptr) (sz - s);
        Some (p # ps) })"

text \<open>A string, or the table of the packages of a large response.\<close>

definition lpackresponse :: "i64 \<Rightarrow> bool \<Rightarrow> u8 list \<Rightarrow> (u8 list + u8 list list) option" where
  "lpackresponse lsession ok msg =
     (let session = ucast lsession :: u32; sz = length msg;
          sz = (if \<not> ok \<and> sz > unat MULTI_PART then unat MULTI_PART else sz) in
      if ok \<and> sz > unat MULTI_PART then do {
        let part = (sz - 1) div unat MULTI_PART + 1;
        h \<leftarrow> fill_header 9;
        p \<leftarrow> temp_string (h @ fill_uint32 session @ [2] @ fill_uint32 (of_nat sz)) 11;
        ps \<leftarrow> resp_loop part session msg sz;
        Some (Inr (p # ps)) }
      else do {
        h \<leftarrow> fill_header (int sz + 5);
        body \<leftarrow> mem_read msg sz;
        s \<leftarrow> temp_string (h @ fill_uint32 session @ [if ok then 1 else 0] @ body) (sz + 7);
        Some (Inl s) })"

text \<open>The values returned to Lua: nothing, or session, \<open>ok\<close>, a string or the size of a large response, and \<open>padding\<close>.\<close>

datatype cell = CNumber i64 | CString "u8 list"

definition lunpackresponse :: "u8 list \<Rightarrow> (u32 \<times> bool \<times> cell \<times> bool) option option" where
  "lunpackresponse buf =
     (if length buf < 5 then Some None
      else do {
        session \<leftarrow> unpack_uint32 buf 0;
        t \<leftarrow> nth_at buf 4;
        data \<leftarrow> mem_read (drop 5 buf) (length buf - 5);
        (if t = 0 then Some (Some (session, False, CString data, False))
         else if t = 1 \<or> t = 4 then Some (Some (session, True, CString data, False))
         else if t = 2 then
           (if length buf \<noteq> 9 then Some None
            else do { sz \<leftarrow> unpack_uint32 buf 5; Some (Some (session, True, CNumber (ucast sz), True)) })
         else if t = 3 then Some (Some (session, True, CString data, True))
         else Some None) })"

subsection \<open>Putting parts together\<close>

text \<open>\<open>lappend\<close> with the table as the list of its elements; \<open>msg\<close> is freed.\<close>

definition lappend :: "cell list \<Rightarrow> u8 list option \<Rightarrow> nat \<Rightarrow> cell list option" where
  "lappend t msg sz =
     (case msg of
        None \<Rightarrow> Some (t @ [CNumber (of_nat sz)])
      | Some m \<Rightarrow> do { s \<leftarrow> mem_read m sz; Some (t @ [CString s]) })"

text \<open>\<open>skynet_malloc\<close> (skynet-src/malloc_hook.c) asks the allocator for the size, a \<open>size_t\<close>, plus the four bytes of
  \<open>struct mem_cookie\<close>, and the sum may wrap. No block of \<open>2 ^ 63\<close> bytes exists: \<open>malloc_oom\<close> aborts.\<close>

definition PREFIX_SIZE :: u64 where "PREFIX_SIZE = 4"

definition malloc_block :: "u64 \<Rightarrow> nat option" where
  "malloc_block sz = do {
     let n = unat (sz + PREFIX_SIZE);
     c_assert (n < 2 ^ 63);
     Some n }"

text \<open>The loop of \<open>lconcat\<close> over the elements from the second on, into a block of \<open>n\<close> bytes: the size \<open>sz\<close> that the code
  compares with may be another. \<open>None\<close>: a write past the block. \<open>Some None\<close>: nothing is returned to Lua.\<close>

fun concat_loop :: "int \<Rightarrow> nat \<Rightarrow> cell list \<Rightarrow> u8 list \<Rightarrow> u8 list option option" where
  "concat_loop sz n (CString s # t) buff =
     (if length s + length buff > unat (word_of_int sz :: u64) then Some None
      else do {
        c_assert (length buff + length s \<le> n);
        concat_loop sz n t (buff @ s) })"
| "concat_loop sz n _ buff = Some (if int (length buff) \<noteq> sz then None else Some buff)"

text \<open>\<open>sz\<close> is an \<open>int\<close>, and a negative one a huge \<open>size_t\<close>.\<close>

definition lconcat :: "cell list \<Rightarrow> u8 list option option" where
  "lconcat t =
     (case t of
        CNumber k # t' \<Rightarrow> do {
          let sz = sint (ucast k :: i32);
          n \<leftarrow> malloc_block (word_of_int sz);
          concat_loop sz n t' [] }
      | _ \<Rightarrow> Some None)"

subsection \<open>Names\<close>

definition lisname :: "u8 list option \<Rightarrow> bool" where
  "lisname name = (case name of None \<Rightarrow> False | Some s \<Rightarrow> (s @ [0]) ! 0 = 64)"

text \<open>The results of \<open>gethostname\<close> and \<open>getpid\<close> are arguments.\<close>

definition lnodename :: "u8 list option \<Rightarrow> i32 \<Rightarrow> u8 list" where
  "lnodename hostname pid = (case hostname of Some h \<Rightarrow> h @ fmt_d pid | None \<Rightarrow> str ''noname'' @ fmt_d pid)"

subsection \<open>The receiving agent (service/clusteragent.lua)\<close>

text \<open>The large requests in progress, by session.\<close>

record large_req =
  lr_addr :: lua_addr
  lr_push :: bool
  lr_table :: "cell list"

datatype request_in = RequestIn lua_addr u32 "u8 list" bool | InvalidLarge u32

text \<open>\<open>dispatch_request\<close> up to the call of the service: the request that is complete, if any. The tag of a trace is left out.\<close>

definition dispatch_request :: "unpacked \<Rightarrow> (u32 \<Rightarrow> large_req option) \<Rightarrow> (request_in list \<times> (u32 \<Rightarrow> large_req option)) option" where
  "dispatch_request u large =
     (case u of
        Trace tag \<Rightarrow> Some ([], large)
      | Unpacked addr session msg sz padding is_push \<Rightarrow>
          if padding then do {
            let req = (case large session of Some req \<Rightarrow> req | None \<Rightarrow> \<lparr>lr_addr = addr, lr_push = is_push, lr_table = []\<rparr>);
            t \<leftarrow> lappend (lr_table req) msg sz;
            Some ([], large(session \<mapsto> req\<lparr>lr_table := t\<rparr>)) }
          else do {
            (addr, msg, is_push, large) \<leftarrow>
              (case large session of
                 Some req \<Rightarrow> do {
                   t \<leftarrow> lappend (lr_table req) msg sz;
                   m \<leftarrow> lconcat t;
                   Some (lr_addr req, m, lr_push req, large(session := None)) }
               | None \<Rightarrow> Some (addr, msg, is_push, large));
            Some ([case msg of None \<Rightarrow> InvalidLarge session | Some m \<Rightarrow> RequestIn addr session m is_push], large) })"

subsection \<open>Packages with their headers\<close>

definition framed :: "u8 list \<Rightarrow> u8 list" where
  "framed c = write_size (length c) @ c"

lemma fill_header_eq: "n < 0x10000 \<Longrightarrow> fill_header (int n) = Some (write_size n)"
proof -
  have "of_int (int n div 256 mod 256) = (of_nat (n div 256 mod 256) :: u8)" "of_int (int n mod 256) = (of_nat (n mod 256) :: u8)"
    by (metis of_int_of_nat_eq of_nat_numeral zdiv_int zmod_int)+
  then show "n < 0x10000 \<Longrightarrow> fill_header (int n) = Some (write_size n)" by (simp add: fill_header_def write_size_def)
qed

lemma length_size [simp]: "length (write_size n) = 2"
  by (simp add: write_size_def)

lemma length_fill [simp]: "length (fill_uint32 n) = 4"
  by (simp add: fill_uint32_def)

lemma MULTI_nat: "unat MULTI_PART = 32768"
  by (simp add: MULTI_PART_def)

text \<open>A package put together in the temporary buffer.\<close>

lemma framed_temp:
  assumes "length c \<le> 0x81fe"
  shows "fill_header (int (length c)) = Some (write_size (length c))"
    and "n = length c + 2 \<Longrightarrow> temp_string (write_size (length c) @ c) n = Some (framed c)"
  using assms by (simp_all add: fill_header_eq temp_string_def TEMP_LENGTH_def framed_def mem_read_def)

lemma unpack_fill: "i = length xs \<Longrightarrow> unpack_uint32 (xs @ fill_uint32 n @ ys) i = Some n"
proof -
  have "le32 (fill_uint32 n) 0 = n"
    by (rule bit_word_eqI, auto simp: fill_uint32_def ucast_low_byte le32_be32 bit_be32 bit_ucast_iff bit_drop_bit_eq)
  moreover have "le32 (xs @ fill_uint32 n @ ys) (length xs) = le32 (fill_uint32 n) 0"
    by (simp add: le32_def nth_append fill_uint32_def)
  ultimately show "i = length xs \<Longrightarrow> unpack_uint32 (xs @ fill_uint32 n @ ys) i = Some n" by (simp add: unpack_uint32_def)
qed

text \<open>A request: address, session, message and whether it is a push; what its packages hold.\<close>

type_synonym req = "lua_addr \<times> u32 \<times> u8 list \<times> bool"

function part_contents :: "u32 \<Rightarrow> u8 list \<Rightarrow> u8 list list" where
  "part_contents session m =
     (if length m > 0x8000 then (2 # fill_uint32 session @ take 0x8000 m) # part_contents session (drop 0x8000 m)
      else [3 # fill_uint32 session @ m])"
  by pat_completeness auto
termination
  by (relation "measure (length \<circ> snd)") auto

declare part_contents.simps [simp del]

fun addr_bytes :: "lua_addr \<Rightarrow> u8 list" where
  "addr_bytes (AddrNumber a) = fill_uint32 (ucast a)"
| "addr_bytes (AddrString name) = of_nat (length name) # name"
| "addr_bytes AddrOther = []"

fun is_name :: "lua_addr \<Rightarrow> bool" where
  "is_name (AddrString name) = True"
| "is_name _ = False"

definition req_tag :: "lua_addr \<Rightarrow> bool \<Rightarrow> bool \<Rightarrow> u8" where
  "req_tag a large push = (if is_name a then (if large then if push then 0xc1 else 0x81 else 0x80)
     else if large then if push then 0x41 else 1 else 0)"

fun req_contents :: "req \<Rightarrow> u8 list list" where
  "req_contents (a, s, m, push) =
     (if length m < 0x8000 then [req_tag a False push # addr_bytes a @ fill_uint32 (if push then 0 else s) @ m]
      else (req_tag a True push # addr_bytes a @ fill_uint32 s @ fill_uint32 (of_nat (length m))) # part_contents s m)"

fun addr_ok :: "lua_addr \<Rightarrow> bool" where
  "addr_ok (AddrNumber a) = True"
| "addr_ok (AddrString name) = (0 < length name \<and> length name \<le> 255)"
| "addr_ok AddrOther = False"

fun req_ok :: "req \<Rightarrow> bool" where
  "req_ok (a, s, m, push) = (addr_ok a \<and> 0 < sint s \<and> length m < 2 ^ 31)"

lemma unat_len: "n < 2 ^ 32 \<Longrightarrow> unat (of_nat n :: u32) = n"
  by (simp add: unat_of_nat)

lemma small_iff: "n < 2 ^ 32 \<Longrightarrow> (of_nat n :: u32) < MULTI_PART \<longleftrightarrow> n < 0x8000"
  by (simp add: word_less_nat_alt unat_len MULTI_nat)

lemma large_iff: "n < 2 ^ 32 \<Longrightarrow> MULTI_PART < (of_nat n :: u32) \<longleftrightarrow> 0x8000 < n"
  by (simp add: word_less_nat_alt unat_len MULTI_nat)

lemma parts_nat:
  assumes "0 < n" "n < 2 ^ 32"
  shows "unat ((of_nat n - 1 :: u32) div MULTI_PART + 1) = (n - 1) div 0x8000 + 1"
proof -
  have e: "of_nat n - 1 = (of_nat (n - 1) :: u32)" using assms by (simp add: of_nat_diff)
  have d: "unat ((of_nat n - 1 :: u32) div MULTI_PART) = (n - 1) div 0x8000"
    unfolding e using assms by (simp only: unat_div unat_len MULTI_nat)
  moreover have "(n - 1) div 0x8000 + 1 < 2 ^ 32" using assms by simp
  ultimately show ?thesis by (simp add: unat_word_ariths)
qed

lemma multi_loop_part:
  assumes "MULTI_PART < sz" "0x8000 \<le> length ptr"
  shows "multi_loop (Suc k) session ptr sz =
    do { ps \<leftarrow> multi_loop k session (drop 0x8000 ptr) (sz - MULTI_PART); Some (framed (2 # fill_uint32 session @ take 0x8000 ptr) # ps) }"
proof -
  let ?c = "2 # fill_uint32 session @ take 0x8000 ptr"
  have lc: "length ?c = 0x8005" using assms by simp
  have "uint MULTI_PART + 5 = int 0x8005" by (simp add: MULTI_PART_def)
  moreover have "mem_read ptr 0x8000 = Some (take 0x8000 ptr)" using assms by (simp add: mem_read_def)
  ultimately show ?thesis using framed_temp [of ?c, unfolded lc] assms(1) by (simp add: MULTI_nat)
qed

lemma multi_loop_last:
  assumes "\<not> MULTI_PART < sz" "unat sz = length ptr"
  shows "multi_loop (Suc 0) session ptr sz = Some [framed (3 # fill_uint32 session @ ptr)]"
proof -
  let ?c = "3 # fill_uint32 session @ ptr"
  have "length ptr \<le> 0x8000" using assms by (simp add: word_less_nat_alt MULTI_nat)
  then have lc: "length ?c = length ptr + 5" "length ?c \<le> 0x81fe" by simp_all
  have "uint sz + 5 = int (length ptr + 5)" using assms(2) by (simp flip: assms(2))
  moreover have "mem_read ptr (unat sz) = Some ptr" using assms(2) by (simp add: mem_read_def)
  ultimately show ?thesis using framed_temp [of ?c, OF lc(2), unfolded lc(1)] assms by (simp add: add.commute)
qed

lemma multi_loop_eq:
  "0 < length m \<Longrightarrow> length m < 2 ^ 32 \<Longrightarrow>
    multi_loop ((length m - 1) div 0x8000 + 1) session m (of_nat (length m)) = Some (map framed (part_contents session m))"
proof (induction session m rule: part_contents.induct)
  case (1 session m)
  show ?case
  proof (cases "0x8000 < length m")
    case True
    let ?m = "drop 0x8000 m"
    have n: "(length m - 1) div 0x8000 + 1 = Suc ((length ?m - 1) div 0x8000 + 1)" using True by (simp add: le_div_geq)
    have sz: "of_nat (length m) - MULTI_PART = (of_nat (length ?m) :: u32)" using True by (simp add: of_nat_diff MULTI_PART_def)
    have "multi_loop ((length ?m - 1) div 0x8000 + 1) session ?m (of_nat (length ?m)) = Some (map framed (part_contents session ?m))"
      using True 1(1)[OF True] 1(3) by simp
    then show ?thesis unfolding n using True 1(3)
      by (subst part_contents.simps, subst multi_loop_part) (simp_all only: large_iff sz if_True Option.bind.simps list.map less_imp_le)
  next
    case False
    have "(length m - 1) div 0x8000 + 1 = Suc 0" using False 1(2) by simp
    then show ?thesis using False 1(3)
      by (subst part_contents.simps) (simp only: large_iff unat_len multi_loop_last not_False_eq_True if_False list.map)
  qed
qed

definition next_session :: "u32 \<Rightarrow> u32" where
  "next_session s = (if s + 1 > 0x7fffffff then 1 else s + 1)"

lemma part_contents_ne: "part_contents s m \<noteq> []"
  by (subst part_contents.simps) simp

lemma packreq_parts:
  assumes "0x8000 \<le> length m" "length m < 2 ^ 32"
  shows "unat ((of_nat (length m) - 1 :: u32) div MULTI_PART + 1) \<noteq> 0"
    and "packreq_multi s m (of_nat (length m)) = Some (map framed (part_contents s m))"
proof -
  have l: "0 < length m" using assms(1) by linarith
  show "unat ((of_nat (length m) - 1 :: u32) div MULTI_PART + 1) \<noteq> 0" unfolding parts_nat [OF l assms(2)] by simp
  show "packreq_multi s m (of_nat (length m)) = Some (map framed (part_contents s m))"
    unfolding packreq_multi_def parts_nat [OF l assms(2)] by (rule multi_loop_eq [OF l assms(2)])
qed

lemma packreq_number_eq:
  assumes "length m < 2 ^ 32"
  shows "\<exists>n. packreq_number (ucast a) s m (of_nat (length m)) push = Some (framed (hd (req_contents (AddrNumber a, s, m, push))), n) \<and>
    (n = 0 \<longleftrightarrow> length m < 0x8000)"
proof (cases "length m < 0x8000")
  case True
  let ?c = "0 # fill_uint32 (ucast a) @ fill_uint32 (if push then 0 else s) @ m"
  have lc: "length ?c = length m + 9" "length ?c \<le> 0x81fe" using True by simp_all
  have "uint (of_nat (length m) :: u32) + 9 = int (length m + 9)"
    using unat_len [OF assms] by (metis of_nat_add of_nat_numeral uint_nat)
  moreover have "mem_read m (length m) = Some m" by (simp add: mem_read_def)
  ultimately show ?thesis using framed_temp [of ?c, OF lc(2), unfolded lc(1)] True
    by (simp add: packreq_number_def small_iff [OF assms] unat_len [OF assms] req_tag_def add.commute)
next
  case False
  let ?c = "(if push then 0x41 else 1) # fill_uint32 (ucast a) @ fill_uint32 s @ fill_uint32 (of_nat (length m))"
  have lc: "length ?c = 13" "length ?c \<le> 0x81fe" by simp_all
  show ?thesis using framed_temp [of ?c, OF lc(2), unfolded lc(1)] False packreq_parts [of m] assms
    by (simp add: packreq_number_def small_iff [OF assms] req_tag_def)
qed

lemma packreq_string_eq:
  assumes "length m < 2 ^ 32" "0 < length name" "length name \<le> 255"
  shows "\<exists>n. packreq_string (Some name) s m (of_nat (length m)) push = Some (Inr (framed (hd (req_contents (AddrString name, s, m, push))), n)) \<and>
    (n = 0 \<longleftrightarrow> length m < 0x8000)"
proof (cases "length m < 0x8000")
  case True
  let ?c = "0x80 # of_nat (length name) # name @ fill_uint32 (if push then 0 else s) @ m"
  have lc: "length ?c = length m + 6 + length name" "length ?c \<le> 0x81fe" using True assms by simp_all
  have "uint (of_nat (length m) :: u32) + 6 + int (length name) = int (length m + 6 + length name)"
    using unat_len [OF assms(1)] by (metis of_nat_add of_nat_numeral uint_nat)
  moreover have "mem_read m (length m) = Some m" by (simp add: mem_read_def)
  ultimately show ?thesis using framed_temp [of ?c, OF lc(2), unfolded lc(1)] True assms(2,3)
    by (simp add: packreq_string_def small_iff [OF assms(1)] unat_len [OF assms(1)] req_tag_def add.commute add.left_commute)
next
  case False
  let ?c = "(if push then 0xc1 else 0x81) # of_nat (length name) # name @ fill_uint32 s @ fill_uint32 (of_nat (length m))"
  have lc: "length ?c = 10 + length name" "length ?c \<le> 0x81fe" using assms by simp_all
  have "10 + int (length name) = int (10 + length name)" by simp
  then show ?thesis using framed_temp [of ?c, OF lc(2), unfolded lc(1)] False packreq_parts [of m] assms
    by (simp add: packreq_string_def small_iff [OF assms(1)] req_tag_def)
qed

lemma packrequest_eq:
  assumes "req_ok (a, ucast ls, m, push)"
  shows "packrequest a ls (Some m) push =
    Some (Inr (framed (hd (req_contents (a, ucast ls, m, push))), next_session (ucast ls),
      if length m < 0x8000 then None else Some (map framed (tl (req_contents (a, ucast ls, m, push))))), 1)"
proof -
  have l: "length m < 2 ^ 32" and s: "0 < sint (ucast ls :: u32)" using assms by auto
  have p: "packreq_multi (ucast ls) m (of_nat (length m)) = Some (map framed (tl (req_contents (a, ucast ls, m, push))))" if "\<not> length m < 0x8000"
    using packreq_parts(2) [of m] l that by simp
  show ?thesis
  proof (cases a)
    case (AddrNumber b)
    from packreq_number_eq [OF l, of b "ucast ls" push] obtain n where
      "packreq_number (ucast b) (ucast ls) m (of_nat (length m)) push = Some (framed (hd (req_contents (a, ucast ls, m, push))), n)"
      "n = 0 \<longleftrightarrow> length m < 0x8000" using AddrNumber by blast
    then show ?thesis using p s AddrNumber
      by (cases "length m < 0x8000") (simp_all add: packrequest_def next_session_def Let_def del: req_contents.simps)
  next
    case (AddrString name)
    then have "0 < length name" "length name \<le> 255" using assms by simp_all
    from packreq_string_eq [OF l this, of "ucast ls" push] obtain n where
      "packreq_string (Some name) (ucast ls) m (of_nat (length m)) push = Some (Inr (framed (hd (req_contents (a, ucast ls, m, push))), n))"
      "n = 0 \<longleftrightarrow> length m < 0x8000" using AddrString by blast
    then show ?thesis using p s AddrString
      by (cases "length m < 0x8000") (simp_all add: packrequest_def next_session_def Let_def del: req_contents.simps)
  next
    case AddrOther
    then show ?thesis using assms by simp
  qed
qed

subsection \<open>Unpacking what was packed\<close>

fun wire_addr :: "lua_addr \<Rightarrow> lua_addr" where
  "wire_addr (AddrNumber a) = AddrNumber (ucast (ucast a :: u32))"
| "wire_addr a = a"

fun wire_session :: "req \<Rightarrow> u32" where
  "wire_session (a, s, m, push) = (if push \<and> length m < 0x8000 then 0 else s)"

lemma unpack_fill1: "unpack_uint32 (t # fill_uint32 n @ ys) 1 = Some n"
  using unpack_fill [of 1 "[t]" n ys] by simp

lemma unpack_fill5: "unpack_uint32 (t # fill_uint32 a @ fill_uint32 n @ ys) 5 = Some n"
  using unpack_fill [of 5 "t # fill_uint32 a" n ys] by simp

lemma unpack_fill9: "unpack_uint32 (t # fill_uint32 a @ fill_uint32 b @ fill_uint32 n) 9 = Some n"
  using unpack_fill [of 9 "t # fill_uint32 a @ fill_uint32 b" n "[]"] by simp

lemma nth_at_0 [simp]: "nth_at (t # xs) 0 = Some t"
  by (simp add: nth_at_def)

lemma read_whole: "mem_read m (length m) = Some m"
  by (simp add: mem_read_def)

lemma return_tail: "off = length xs \<Longrightarrow> n = length ys \<Longrightarrow> return_buffer (xs @ ys) off n = Some ys"
  by (simp add: return_buffer_def mem_read_def)

lemma unpack_number:
  "unpackreq_number (t # fill_uint32 a @ fill_uint32 s @ m) =
    Some (Inr (Unpacked (AddrNumber (ucast a)) s (Some m) (length m) False (s = 0)))"
  "unpackmreq_number (t # fill_uint32 a @ fill_uint32 s @ fill_uint32 n) p =
    Some (Inr (Unpacked (AddrNumber (ucast a)) s None (unat n) True p))"
  using return_tail [of 9 "t # fill_uint32 a @ fill_uint32 s" "length m" m] unpack_fill5 [of t a s] unpack_fill1 [of t a]
  by (simp_all add: unpackreq_number_def unpackmreq_number_def unpack_fill9)

lemma unpack_string:
  assumes "length name \<le> 255"
  shows "unpackreq_string (t # of_nat (length name) # name @ fill_uint32 s @ m) =
    Some (Inr (Unpacked (AddrString name) s (Some m) (length m) False (s = 0)))"
    and "unpackmreq_string (t # of_nat (length name) # name @ fill_uint32 s @ fill_uint32 n) p =
    Some (Inr (Unpacked (AddrString name) s None (unat n) True p))"
proof -
  let ?l = "of_nat (length name) :: u8"
  have n: "unat ?l = length name" using assms by (simp add: unat_of_nat)
  have b: "nth_at (t # ?l # xs) 1 = Some ?l" for xs by (simp add: nth_at_def)
  have r: "mem_read (name @ xs) (length name) = Some name" for xs by (simp add: mem_read_def)
  have s: "unpack_uint32 (t # ?l # name @ fill_uint32 s @ xs) (length name + 2) = Some s" for xs
    using unpack_fill [of "length name + 2" "t # ?l # name" s xs] by simp
  have z: "unpack_uint32 (t # ?l # name @ fill_uint32 s @ fill_uint32 n) (length name + 6) = Some n"
    using unpack_fill [of "length name + 6" "t # ?l # name @ fill_uint32 s" n "[]"] by simp
  have m: "return_buffer (t # ?l # name @ fill_uint32 s @ m) (2 + length name + 4) (length m) = Some m"
    using return_tail [of "2 + length name + 4" "t # ?l # name @ fill_uint32 s" "length m" m] by simp
  show "unpackreq_string (t # ?l # name @ fill_uint32 s @ m) = Some (Inr (Unpacked (AddrString name) s (Some m) (length m) False (s = 0)))"
    using m s [of m] by (simp add: unpackreq_string_def b n r Let_def del: One_nat_def)
  show "unpackmreq_string (t # ?l # name @ fill_uint32 s @ fill_uint32 n) p = Some (Inr (Unpacked (AddrString name) s None (unat n) True p))"
    using z s [of "fill_uint32 n"] by (simp add: unpackmreq_string_def b n r Let_def del: One_nat_def)
qed

lemma unpack_part:
  "unpackmreq_part (t # fill_uint32 s @ m) = Some (Inr (Unpacked AddrOther s (Some m) (length m) (t = 2) False))"
  using return_tail [of 5 "t # fill_uint32 s" "length m" m] by (simp add: unpackmreq_part_def unpack_fill1 del: One_nat_def)

lemma unpack_small:
  assumes "req_ok (a, s, m, push)" "length m < 0x8000"
  shows "lunpackrequest l (hd (req_contents (a, s, m, push))) =
    Some (Inr (Unpacked (wire_addr a) (wire_session (a, s, m, push)) (Some m) (length m) False push))"
proof -
  have "s \<noteq> 0" using assms(1) by auto
  then show ?thesis using assms
    by (cases a; cases push) (simp_all add: lunpackrequest_def req_tag_def unpack_number unpack_string)
qed

lemma unpack_large:
  assumes "req_ok (a, s, m, push)" "\<not> length m < 0x8000"
  shows "lunpackrequest l (hd (req_contents (a, s, m, push))) = Some (Inr (Unpacked (wire_addr a) s None (length m) True push))"
proof -
  have "unat (of_nat (length m) :: u32) = length m" using assms(1) by (intro unat_len) simp
  then show ?thesis using assms
    by (cases a; cases push) (simp_all add: lunpackrequest_def req_tag_def unpack_number unpack_string)
qed

lemma unpack_parts:
  "lunpackrequest l (2 # fill_uint32 s @ m) = Some (Inr (Unpacked AddrOther s (Some m) (length m) True False))"
  "lunpackrequest l (3 # fill_uint32 s @ m) = Some (Inr (Unpacked AddrOther s (Some m) (length m) False False))"
  by (simp_all add: lunpackrequest_def unpack_part)

subsection \<open>Interleaved requests\<close>

text \<open>A package at the agent: a Lua error of \<open>unpackrequest\<close> is logged and the package dropped.\<close>

type_synonym agent = "u32 \<Rightarrow> large_req option"

definition agent_step :: "bool \<Rightarrow> u8 list \<Rightarrow> agent \<Rightarrow> (request_in list \<times> agent) option" where
  "agent_step l c large = do {
     r \<leftarrow> lunpackrequest l c;
     (case r of Inl e \<Rightarrow> Some ([], large) | Inr u \<Rightarrow> dispatch_request u large) }"

primrec agent_run :: "bool \<Rightarrow> u8 list list \<Rightarrow> agent \<Rightarrow> (request_in list \<times> agent) option" where
  "agent_run l [] large = Some ([], large)"
| "agent_run l (c # cs) large = do {
     (out, large') \<leftarrow> agent_step l c large;
     (outs, large'') \<leftarrow> agent_run l cs large';
     Some (out @ outs, large'') }"

fun expected :: "req \<Rightarrow> request_in" where
  "expected (a, s, m, push) = RequestIn (wire_addr a) (wire_session (a, s, m, push)) m push"

fun in_session :: "request_in \<Rightarrow> u32" where
  "in_session (RequestIn a s m push) = s"
| "in_session (InvalidLarge s) = s"

lemma expected_session: "in_session (expected r) = wire_session r"
  by (cases r) simp

lemma unat_size: "k < 2 ^ 63 \<Longrightarrow> unat (word_of_int (int k) :: u64) = k"
  by (simp add: unat_of_nat)

lemma concat_loop_parts:
  "length b + length (concat t) \<le> k \<Longrightarrow> k < 2 ^ 31 \<Longrightarrow> k \<le> n \<Longrightarrow>
    concat_loop (int k) n (map CString t) b = Some (if length b + length (concat t) = k then Some (b @ concat t) else None)"
  by (induction t arbitrary: b) (auto simp: unat_of_nat c_assert_def)

lemma malloc_block_small:
  assumes "k < 2 ^ 31"
  shows "malloc_block (word_of_int (int k)) = Some (k + 4)"
proof -
  have "word_of_int (int k) + PREFIX_SIZE = (of_nat (k + 4) :: u64)" by (simp add: PREFIX_SIZE_def)
  moreover have "unat (of_nat (k + 4) :: u64) = k + 4" using assms by (subst unat_of_nat) simp
  ultimately show ?thesis using assms unfolding malloc_block_def by (simp only: Let_def c_assert_def) simp
qed

lemma lconcat_parts:
  assumes "length (concat t) < 2 ^ 31"
  shows "lconcat (CNumber (of_nat (length (concat t))) # map CString t) = Some (Some (concat t))"
proof -
  let ?n = "length (concat t)"
  have "(ucast (of_nat ?n :: i64) :: i32) = of_nat ?n" by (rule bit_word_eqI) (simp add: bit_simps)
  moreover have "sint (of_nat ?n :: i32) = int ?n" using assms by (simp add: sint_uint signed_take_bit_int_eq_self_iff) (simp add: unsigned_of_nat take_bit_nat_eq_self signed_take_bit_int_eq_self)
  ultimately show ?thesis using concat_loop_parts [of "[]" t ?n "?n + 4"] malloc_block_small [OF assms] assms
    unfolding lconcat_def by simp
qed

text \<open>With the entry \<open>x\<close> of a session, the packages \<open>cs\<close> complete the requests \<open>rs\<close>.\<close>

definition waits :: "large_req option \<Rightarrow> u8 list list \<Rightarrow> req list \<Rightarrow> bool" where
  "waits x cs rs \<longleftrightarrow> (x = None \<and> cs = concat (map req_contents rs)) \<or>
     (\<exists>a s m push rs' t rest. rs = (a, s, m, push) # rs' \<and> 0x8000 \<le> length m \<and> m = concat t @ rest \<and> rest \<noteq> [] \<and>
        x = Some \<lparr>lr_addr = wire_addr a, lr_push = push, lr_table = CNumber (of_nat (length m)) # map CString t\<rparr> \<and>
        cs = part_contents s rest @ concat (map req_contents rs'))"

lemma req_contents_ne: "req_contents r \<noteq> []"
  by (cases r) simp

lemma waits_idle: "waits None (concat (map req_contents rs)) rs"
  by (simp add: waits_def)

lemma agent_first:
  assumes ok: "req_ok r" and k: "wire_session r = k" and idle: "large k = None" and c: "req_contents r = c # cs"
  shows "\<exists>x fin rs'. agent_step l c large = Some (map expected fin, large(k := x)) \<and> r # rs = fin @ rs' \<and>
    waits x (cs @ concat (map req_contents rs)) rs'"
proof -
  obtain a s m push where r: "r = (a, s, m, push)" by (cases r)
  have hd: "c = hd (req_contents (a, s, m, push))" using c r by simp
  show ?thesis
  proof (cases "length m < 0x8000")
    case True
    have "agent_step l c large = Some ([RequestIn (wire_addr a) k m push], large)"
      using unpack_small [OF ok [unfolded r] True, of l] k idle unfolding hd r
      by (simp add: agent_step_def dispatch_request_def del: req_contents.simps wire_session.simps)
    moreover have "large = large(k := None)" using idle by (simp add: fun_upd_idem)
    moreover have "cs = []" using c True by (simp add: r)
    ultimately show ?thesis using k waits_idle [of rs] by (intro exI [of _ None] exI [of _ "[r]"] exI [of _ rs]) (simp add: r)
  next
    case False
    let ?x = "\<lparr>lr_addr = wire_addr a, lr_push = push, lr_table = [CNumber (of_nat (length m))]\<rparr>"
    have s: "s = k" using k False by (simp add: r)
    have "agent_step l c large = Some ([], large(k := Some ?x))"
      using unpack_large [OF ok [unfolded r] False, of l] idle unfolding hd s
      by (simp add: agent_step_def dispatch_request_def lappend_def del: req_contents.simps)
    moreover have "cs = part_contents s m" using c False by (simp add: r)
    moreover have "m \<noteq> []" using False by auto
    ultimately show ?thesis using False
      by (intro exI [of _ "Some ?x"] exI [of _ "[]"] exI [of _ "r # rs"])
        (auto simp: waits_def r intro!: exI [of _ "[] :: u8 list list"])
  qed
qed

lemma agent_part:
  assumes ok: "req_ok (a, s, m, push)" and "large s = Some \<lparr>lr_addr = wire_addr a, lr_push = push, lr_table = CNumber (of_nat (length m)) # map CString t\<rparr>"
    and m: "0x8000 \<le> length m" "m = concat t @ rest" and c: "part_contents s rest = c # cs"
  shows "\<exists>x fin rs'. agent_step l c large = Some (map expected fin, large(s := x)) \<and> (a, s, m, push) # rs = fin @ rs' \<and>
    waits x (cs @ concat (map req_contents rs)) rs'"
proof (cases "0x8000 < length rest")
  case True
  let ?p = "take 0x8000 rest" and ?q = "drop 0x8000 rest"
  let ?x = "\<lparr>lr_addr = wire_addr a, lr_push = push, lr_table = CNumber (of_nat (length m)) # map CString (t @ [?p])\<rparr>"
  have e: "c = 2 # fill_uint32 s @ ?p" "cs = part_contents s ?q" using c True by (subst (asm) part_contents.simps, simp)+
  have "agent_step l c large = Some ([], large(s := Some ?x))"
    unfolding e(1) using assms(2) read_whole [of ?p] by (simp add: agent_step_def unpack_parts dispatch_request_def lappend_def)
  moreover have "m = concat (t @ [?p]) @ ?q" "?q \<noteq> []" using m True by simp_all
  then have "waits (Some ?x) (cs @ concat (map req_contents rs)) ((a, s, m, push) # rs)"
    unfolding waits_def e(2) using m(1) by blast
  ultimately show ?thesis by (intro exI [of _ "Some ?x"] exI [of _ "[]"] exI [of _ "(a, s, m, push) # rs"]) simp
next
  case False
  have e: "c = 3 # fill_uint32 s @ rest" "cs = []" using c False by (subst (asm) part_contents.simps, simp)+
  have cm: "concat (t @ [rest]) = m" using m(2) by simp
  have "lconcat (CNumber (of_nat (length m)) # map CString (t @ [rest])) = Some (Some m)"
    using lconcat_parts [of "t @ [rest]"] ok unfolding cm by simp
  then have "agent_step l c large = Some ([RequestIn (wire_addr a) s m push], large(s := None))"
    unfolding e(1) using assms(2) by (simp add: agent_step_def unpack_parts dispatch_request_def lappend_def mem_read_def)
  then show ?thesis using m(1) waits_idle [of rs] e(2)
    by (intro exI [of _ None] exI [of _ "[(a, s, m, push)]"] exI [of _ rs]) simp
qed

lemma agent_waits:
  assumes w: "waits (large k) (c # cs) rs" and rs: "\<forall>r\<in>set rs. req_ok r \<and> wire_session r = k"
  shows "\<exists>x fin rs'. agent_step l c large = Some (map expected fin, large(k := x)) \<and> rs = fin @ rs' \<and> waits x cs rs'"
  using w [unfolded waits_def]
proof
  assume idle: "large k = None \<and> c # cs = concat (map req_contents rs)"
  then obtain r rs1 where r: "rs = r # rs1" by (cases rs) auto
  obtain c1 cs1 where c1: "req_contents r = c1 # cs1" using req_contents_ne [of r] by (auto simp: neq_Nil_conv)
  have "c1 = c" "cs = cs1 @ concat (map req_contents rs1)" using idle c1 by (auto simp: r)
  then show ?thesis using agent_first [of r k large c1 cs1 l rs1] rs idle c1 by (simp add: r)
next
  assume "\<exists>a s m push rs' t rest. rs = (a, s, m, push) # rs' \<and> 0x8000 \<le> length m \<and> m = concat t @ rest \<and> rest \<noteq> [] \<and>
        large k = Some \<lparr>lr_addr = wire_addr a, lr_push = push, lr_table = CNumber (of_nat (length m)) # map CString t\<rparr> \<and>
        c # cs = part_contents s rest @ concat (map req_contents rs')"
  then obtain a s m push rs1 t rest where b: "rs = (a, s, m, push) # rs1" "0x8000 \<le> length m" "m = concat t @ rest"
      "large k = Some \<lparr>lr_addr = wire_addr a, lr_push = push, lr_table = CNumber (of_nat (length m)) # map CString t\<rparr>"
      "c # cs = part_contents s rest @ concat (map req_contents rs1)" by blast
  obtain c1 cs1 where c1: "part_contents s rest = c1 # cs1" using part_contents_ne [of s rest] by (cases "part_contents s rest") auto
  have "s = k" "req_ok (a, s, m, push)" using rs b(1,2) by auto
  moreover have "c1 = c" "cs = cs1 @ concat (map req_contents rs1)" using b(5) c1 by auto
  ultimately show ?thesis using agent_part [of a s m push large t rest c1 cs1 l rs1] b c1 by simp
qed

text \<open>\<open>ps\<close> are the packages as they arrive, each with the session of its request.\<close>

definition of_session :: "u32 \<Rightarrow> (u32 \<times> u8 list) list \<Rightarrow> u8 list list" where
  "of_session k ps = map snd (filter (\<lambda>p. fst p = k) ps)"

lemma agent_run_waits:
  assumes "\<And>k. waits (large k) (of_session k ps) (rs k)" and "\<And>k. \<forall>r\<in>set (rs k). req_ok r \<and> wire_session r = k"
  shows "\<exists>out. agent_run l (map snd ps) large = Some (out, Map.empty) \<and> (\<forall>k. filter (\<lambda>o'. in_session o' = k) out = map expected (rs k))"
  using assms
proof (induction ps arbitrary: large rs)
  case Nil
  have "large k = None \<and> rs k = []" for k
    using Nil.prems(1) [of k] part_contents_ne req_contents_ne by (cases "rs k") (auto simp: waits_def of_session_def)
  then have "large = Map.empty" "\<And>k. rs k = []" by auto
  then show ?case by simp
next
  case (Cons p ps)
  obtain k c where p: "p = (k, c)" by (cases p)
  have "waits (large k) (c # of_session k ps) (rs k)" using Cons.prems(1) [of k] by (simp add: p of_session_def)
  then obtain x fin rs' where
    st: "agent_step l c large = Some (map expected fin, large(k := x))" and r: "rs k = fin @ rs'" and w: "waits x (of_session k ps) rs'"
    using agent_waits [where l = l and k = k and rs = "rs k"] Cons.prems(2) [of k] by blast
  have "waits ((large(k := x)) j) (of_session j ps) ((rs(k := rs')) j)" for j
    using Cons.prems(1) [of j] w by (cases "j = k") (simp_all add: p of_session_def)
  moreover have "\<forall>r\<in>set ((rs(k := rs')) j). req_ok r \<and> wire_session r = j" for j
    using Cons.prems(2) [of j] r by auto
  ultimately have "\<exists>out. agent_run l (map snd ps) (large(k := x)) = Some (out, Map.empty) \<and>
      (\<forall>j. filter (\<lambda>o'. in_session o' = j) out = map expected ((rs(k := rs')) j))"
    by (rule Cons.IH)
  then obtain out where out: "agent_run l (map snd ps) (large(k := x)) = Some (out, Map.empty)"
      "\<And>j. filter (\<lambda>o'. in_session o' = j) out = map expected ((rs(k := rs')) j)" by blast
  have fin: "\<forall>r\<in>set fin. wire_session r = k" using Cons.prems(2) [of k] r by auto
  then have "filter (\<lambda>o'. in_session o' = j) (map expected fin) = (if j = k then map expected fin else [])" for j
    by (auto simp: filter_map comp_def expected_session filter_empty_conv intro!: filter_True)
  then show ?case using st out r by (simp add: p)
qed

subsection \<open>From the sender to the service\<close>

text \<open>The packages that \<open>packrequest\<close> returns for a request.\<close>

fun sent :: "req \<Rightarrow> u8 list list" where
  "sent (a, s, m, push) =
     (case packrequest a (ucast s) (Some m) push of
        Some (Inr (p, _, parts), _) \<Rightarrow> p # (case parts of None \<Rightarrow> [] | Some ps \<Rightarrow> ps)
      | _ \<Rightarrow> [])"

lemma sent_eq: "req_ok r \<Longrightarrow> sent r = map framed (req_contents r)"
proof -
  assume ok: "req_ok r"
  obtain a s m push where r: "r = (a, s, m, push)" by (cases r)
  have u: "ucast (ucast s :: i64) = s" by (rule bit_word_eqI) (simp add: bit_simps)
  have e: "packrequest a (ucast s) (Some m) push = Some (Inr (framed (hd (req_contents (a, s, m, push))), next_session s,
      if length m < 0x8000 then None else Some (map framed (tl (req_contents (a, s, m, push))))), 1)"
    using packrequest_eq [of a "ucast s" m push] ok unfolding r u by blast
  show ?thesis
    unfolding r sent.simps e by simp
qed

lemma part_contents_short: "c \<in> set (part_contents s m) \<Longrightarrow> length c < 0x10000"
proof (induction s m rule: part_contents.induct)
  case (1 s m)
  then show ?case by (subst (asm) (2) part_contents.simps) (auto split: if_splits)
qed

lemma req_contents_short: "req_ok r \<Longrightarrow> c \<in> set (req_contents r) \<Longrightarrow> length c < 0x10000"
proof -
  assume ok: "req_ok r" and c: "c \<in> set (req_contents r)"
  obtain a s m push where r: "r = (a, s, m, push)" by (cases r)
  have "length (addr_bytes a) \<le> 256" using ok by (cases a) (simp_all add: r)
  then show ?thesis using c part_contents_short [of c s m] by (auto simp: r split: if_splits)
qed

lemma framed_drop: "drop 2 (framed c) = c"
  by (simp add: framed_def write_size_def)

lemma sent_frames:
  assumes rs: "\<forall>r\<in>set rs. req_ok r" and ps: "\<And>k. of_session k ps = concat (map sent (filter (\<lambda>r. wire_session r = k) rs))"
  defines "qs \<equiv> map (\<lambda>p. (fst p, drop 2 (snd p))) ps"
  shows "frames (concat (map snd ps)) = (map snd qs, [])"
    and "of_session k qs = concat (map req_contents (filter (\<lambda>r. wire_session r = k) rs))"
proof -
  have "lpack (drop 2 (snd p)) = Some (snd p)" if "p \<in> set ps" for p
  proof -
    have "snd p \<in> set (of_session (fst p) ps)" using that by (auto simp: of_session_def)
    then obtain r where "r \<in> set rs" "snd p \<in> set (sent r)" by (auto simp: ps simp del: sent.simps)
    then obtain c where c: "c \<in> set (req_contents r)" "snd p = framed c" and r: "req_ok r" using rs sent_eq by (auto simp del: sent.simps)
    have "length c < 0x10000" by (rule req_contents_short [OF r c(1)])
    then show ?thesis by (simp add: c(2) framed_drop lpack_def) (simp add: framed_def)
  qed
  then have "list_all2 (\<lambda>m p. lpack m = Some p) (map snd qs) (map snd ps)"
    by (simp add: qs_def list_all2_conv_all_nth)
  from frames_lpack [OF this, of "[]"] show "frames (concat (map snd ps)) = (map snd qs, [])" by simp
  have "of_session k qs = map (drop 2) (of_session k ps)" by (simp add: of_session_def qs_def filter_map comp_def)
  also have "\<dots> = concat (map (\<lambda>r. map (drop 2) (sent r)) (filter (\<lambda>r. wire_session r = k) rs))"
    unfolding ps by (simp add: map_concat comp_def)
  also have "map (\<lambda>r. map (drop 2) (sent r)) (filter (\<lambda>r. wire_session r = k) rs) = map req_contents (filter (\<lambda>r. wire_session r = k) rs)"
    using rs by (auto simp: sent_eq comp_def framed_drop)
  finally show "of_session k qs = concat (map req_contents (filter (\<lambda>r. wire_session r = k) rs))" .
qed

text \<open>Property C30. Requests between two nodes arrive. Let \<open>ps\<close> be the packages that \<open>packrequest\<close> made for the requests \<open>rs\<close>,
  mixed in any way that keeps the packages of each session in order (the parts of large requests are written with low
  priority, so others overtake them), and let their bytes reach a socket of the other node in any segments, beside those of other
  sockets. Then the netpack reader cuts the stream into packages on which the agent calls the service with
  every request whole and unchanged, once, in order for each session, and no large request is left over.\<close>

theorem cluster_requests_arrive:
  assumes "\<forall>r\<in>set rs. req_ok r"
    and "\<And>k. of_session k ps = concat (map sent (filter (\<lambda>r. wire_session r = k) rs))"
    and "\<forall>s\<in>set segs. snd s \<noteq> []" and "\<And>fd. length (stream_of fd segs) < n" and "stream_of fd segs = concat (map snd ps)"
  shows "\<exists>out st cs reqs. np_run n segs None = Some (out, st) \<and> packages_of fd out = map (map Some) cs \<and>
    agent_run l cs Map.empty = Some (reqs, Map.empty) \<and>
    (\<forall>k. filter (\<lambda>r. in_session r = k) reqs = map expected (filter (\<lambda>r. wire_session r = k) rs))"
proof -
  define qs where "qs = map (\<lambda>p. (fst p, drop 2 (snd p))) ps"
  have f: "frames (concat (map snd ps)) = (map snd qs, [])"
    and q: "of_session k qs = concat (map req_contents (filter (\<lambda>r. wire_session r = k) rs))" for k
    using sent_frames [OF assms(1,2)] by (simp_all add: qs_def)
  have "waits (Map.empty k) (of_session k qs) (filter (\<lambda>r. wire_session r = k) rs)" for k
    unfolding q by (rule waits_idle)
  moreover have "\<forall>r\<in>set (filter (\<lambda>r. wire_session r = k) rs). req_ok r \<and> wire_session r = k" for k using assms(1) by simp
  ultimately have "\<exists>reqs. agent_run l (map snd qs) Map.empty = Some (reqs, Map.empty) \<and>
      (\<forall>k. filter (\<lambda>r. in_session r = k) reqs = map expected (filter (\<lambda>r. wire_session r = k) rs))"
    by (rule agent_run_waits)
  then obtain reqs where a: "agent_run l (map snd qs) Map.empty = Some (reqs, Map.empty)"
      "\<forall>k. filter (\<lambda>r. in_session r = k) reqs = map expected (filter (\<lambda>r. wire_session r = k) rs)" by blast
  have "\<exists>out st. np_run n segs None = Some (out, st) \<and> np_inv st (\<lambda>fd. snd (frames ([] @ stream_of fd segs))) [] \<and>
      (\<forall>fd. packages_of fd out = map (map Some) (fst (frames ([] @ stream_of fd segs))))"
    by (rule np_run_inv [OF np_inv_start assms(3)]) (use assms(4) in simp_all)
  then obtain out st where n: "np_run n segs None = Some (out, st)"
      "\<forall>fd. packages_of fd out = map (map Some) (fst (frames (stream_of fd segs)))" by auto
  have "packages_of fd out = map (map Some) (map snd qs)" unfolding n(2) [rule_format] assms(5) f by simp
  then show ?thesis using n(1) a by blast
qed

definition demo_big :: "u8 list" where "demo_big = replicate 40000 7"

lemma length_demo_big [simp]: "length demo_big = 40000"
  by (simp add: demo_big_def)

definition demo_reqs :: "req list" where
  "demo_reqs = [(AddrNumber 5, 1, demo_big, False), (AddrString [64, 97], 1, [9], True)]"

text \<open>The push overtakes the parts of the large request.\<close>

definition demo_packages :: "(u32 \<times> u8 list) list" where
  "demo_packages = (1, hd (sent (demo_reqs ! 0))) # (0, hd (sent (demo_reqs ! 1))) # map (Pair 1) (tl (sent (demo_reqs ! 0)))"

lemma demo_sent:
  "\<forall>r\<in>set demo_reqs. req_ok r" "of_session k demo_packages = concat (map sent (filter (\<lambda>r. wire_session r = k) demo_reqs))"
  "concat (map snd demo_packages) \<noteq> []"
proof -
  show ok: "\<forall>r\<in>set demo_reqs. req_ok r" by (simp add: demo_reqs_def)
  then have s: "sent (demo_reqs ! 0) = map framed (req_contents (demo_reqs ! 0))" "sent (demo_reqs ! 1) = map framed (req_contents (demo_reqs ! 1))"
    by (intro sent_eq; simp add: demo_reqs_def)+
  have o: "of_session k (map (Pair j) xs) = (if j = k then xs else [])" for k j xs
    by (simp add: of_session_def filter_map comp_def)
  have c: "of_session k ((j, x) # ps) = (if j = k then x # of_session k ps else of_session k ps)" for k j x ps
    by (simp add: of_session_def)
  have ne: "sent (demo_reqs ! 0) \<noteq> []" "length (sent (demo_reqs ! 1)) = 1" unfolding s using req_contents_ne by (simp_all add: demo_reqs_def)
  then have h: "hd (sent (demo_reqs ! 0)) # tl (sent (demo_reqs ! 0)) = sent (demo_reqs ! 0)" "[hd (sent (demo_reqs ! 1))] = sent (demo_reqs ! 1)"
    by (simp_all add: length_Suc_conv) (metis length_0_conv length_Suc_conv list.sel(1))
  have f: "filter (\<lambda>r. wire_session r = k) demo_reqs = (if k = 1 then [demo_reqs ! 0] else if k = 0 then [demo_reqs ! 1] else [])"
    by (simp add: demo_reqs_def)
  show "of_session k demo_packages = concat (map sent (filter (\<lambda>r. wire_session r = k) demo_reqs))"
    unfolding demo_packages_def c o f using h by (simp del: sent.simps One_nat_def)
  show "concat (map snd demo_packages) \<noteq> []"
    using s(2) by (simp add: demo_packages_def framed_def write_size_def hd_map req_contents_ne del: sent.simps)
qed

theorem cluster_requests_arrive_witness:
  "\<exists>out st cs reqs. np_run (Suc (length (concat (map snd demo_packages)))) [(7, concat (map snd demo_packages))] None = Some (out, st) \<and>
    packages_of 7 out = map (map Some) cs \<and> agent_run True cs Map.empty = Some (reqs, Map.empty) \<and>
    filter (\<lambda>r. in_session r = 1) reqs = [RequestIn (AddrNumber 5) 1 demo_big False] \<and>
    filter (\<lambda>r. in_session r = 0) reqs = [RequestIn (AddrString [64, 97]) 0 [9] True]"
proof -
  let ?s = "concat (map snd demo_packages)"
  have e: "map expected (filter (\<lambda>r. wire_session r = 1) demo_reqs) = [RequestIn (AddrNumber 5) 1 demo_big False]"
    "map expected (filter (\<lambda>r. wire_session r = 0) demo_reqs) = [RequestIn (AddrString [64, 97]) 0 [9] True]"
    by (simp_all add: demo_reqs_def)
  have "\<forall>s\<in>set [(7 :: i32, ?s)]. snd s \<noteq> []" "length (stream_of fd [(7, ?s)]) < Suc (length ?s)" "stream_of 7 [(7, ?s)] = ?s" for fd
    using demo_sent(3) by (simp_all add: stream_of_def)
  from cluster_requests_arrive [OF demo_sent(1,2) this, of True] show ?thesis unfolding e [symmetric] by blast
qed

subsection \<open>Errors and sizes\<close>

lemma resp_temp: "length c \<le> 0x81fe \<Longrightarrow> n = length c + 2 \<Longrightarrow>
  do { h \<leftarrow> fill_header (int (length c)); temp_string (h @ c) n } = Some (framed c)"
  by (simp add: framed_temp)

text \<open>\<open>packrequest\<close> frees the message exactly once on every path on which it has one, the Lua errors included, and never
  writes outside of its buffer, whatever address and session it is given.\<close>

theorem packrequest_frees_once:
  assumes "length m < 2 ^ 31"
  shows "\<exists>r. packrequest addr session (Some m) push = Some (r, 1)"
proof (cases "req_ok (addr, ucast session, m, push)")
  case True
  then show ?thesis using packrequest_eq by blast
next
  case False
  then consider "sint (ucast session :: i32) \<le> 0" | "0 < sint (ucast session :: i32)" "\<not> addr_ok addr" using assms by fastforce
  then show ?thesis
  proof cases
    case 2
    then show ?thesis by (cases addr) (auto simp: packrequest_def packreq_string_def Let_def)
  qed (simp add: packrequest_def Let_def)
qed

lemma packrequest_frees_once_witness: "\<exists>r. packrequest (AddrString []) 1 (Some [1, 2]) False = Some (r, 1)"
  by (rule packrequest_frees_once) simp

text \<open>\<open>unpackrequest\<close> reads nothing outside of its argument, whatever bytes a peer sends: every string gives values or
  a Lua error.\<close>

theorem unpackrequest_total: "\<exists>r. lunpackrequest l (t # c) = Some r"
proof -
  have u: "\<exists>w. unpack_uint32 buf i = Some w" if "i + 4 \<le> length buf" for buf i using that by (simp add: unpack_uint32_def)
  have b: "\<exists>w. return_buffer buf i n = Some w" if "i + n \<le> length buf" for buf i n using that by (simp add: return_buffer_def mem_read_def)
  have n: "\<exists>w. nth_at buf i = Some w" if "i < length buf" for buf :: "u8 list" and i using that by (simp add: nth_at_def)
  define buf where "buf = t # c"
  have 1: "\<exists>r. unpackreq_number buf = Some r"
    using u [of 1 buf] u [of 5 buf] b [of 9 "length buf - 9" buf] by (fastforce simp: unpackreq_number_def)
  have 2: "\<exists>r. unpackmreq_number buf p = Some r" for p
    using u [of 1 buf] u [of 5 buf] u [of 9 buf] by (fastforce simp: unpackmreq_number_def)
  have 3: "\<exists>r. unpackmreq_part buf = Some r"
    using u [of 1 buf] n [of 0 buf] b [of 5 "length buf - 5" buf] by (fastforce simp: unpackmreq_part_def)
  have 4: "\<exists>r. unpacktrace buf = Some r" by (simp add: unpacktrace_def mem_read_def)
  have 5: "\<exists>r. unpackreq_string buf = Some r"
  proof (cases "length buf < 2")
    case False
    then obtain w where w: "nth_at buf 1 = Some w" using n [of 1 buf] by auto
    show ?thesis
    proof (cases "length buf < unat w + 6")
      case False
      then obtain s m where "unpack_uint32 buf (unat w + 2) = Some s" "return_buffer buf (2 + unat w + 4) (length buf - unat w - 6) = Some m"
        using u [of "unat w + 2" buf] b [of "2 + unat w + 4" "length buf - unat w - 6" buf] by fastforce
      moreover have "mem_read (drop 2 buf) (unat w) = Some (take (unat w) (drop 2 buf))" using False by (simp add: mem_read_def)
      ultimately show ?thesis using False \<open>\<not> length buf < 2\<close> w by (simp add: unpackreq_string_def Let_def)
    qed (use False w in \<open>simp add: unpackreq_string_def Let_def\<close>)
  qed (simp add: unpackreq_string_def)
  have 6: "\<exists>r. unpackmreq_string buf p = Some r" for p
  proof (cases "length buf < 2")
    case False
    then obtain w where w: "nth_at buf 1 = Some w" using n [of 1 buf] by auto
    show ?thesis
    proof (cases "length buf < unat w + 10")
      case False
      then obtain s m where "unpack_uint32 buf (unat w + 2) = Some s" "unpack_uint32 buf (unat w + 6) = Some m"
        using u [of "unat w + 2" buf] u [of "unat w + 6" buf] by fastforce
      moreover have "mem_read (drop 2 buf) (unat w) = Some (take (unat w) (drop 2 buf))" using False by (simp add: mem_read_def)
      ultimately show ?thesis using False \<open>\<not> length buf < 2\<close> w by (simp add: unpackmreq_string_def Let_def)
    qed (use False w in \<open>simp add: unpackmreq_string_def Let_def\<close>)
  qed (simp add: unpackmreq_string_def)
  have "nth_at buf 0 = Some t" "nth_at (buf @ [0]) 0 = Some t" by (simp_all add: buf_def)
  then show ?thesis using 1 2 3 4 5 6 unfolding buf_def [symmetric] by (auto simp: lunpackrequest_def)
qed

text \<open>A large request in progress, and all that is left of it.\<close>

lemma agent_run_parts:
  "large s = Some \<lparr>lr_addr = a, lr_push = push, lr_table = t\<rparr> \<Longrightarrow>
    agent_run l (map (\<lambda>p. 2 # fill_uint32 s @ p) ps @ [3 # fill_uint32 s @ m]) large = do {
      r \<leftarrow> lconcat (t @ map CString (ps @ [m]));
      Some ([case r of None \<Rightarrow> InvalidLarge s | Some x \<Rightarrow> RequestIn a s x push], large(s := None)) }"
proof (induction ps arbitrary: large t)
  case Nil
  then show ?case by (simp add: agent_step_def unpack_parts dispatch_request_def lappend_def read_whole fun_upd_def split: Option.bind_split)
next
  case (Cons p ps)
  let ?x = "\<lparr>lr_addr = a, lr_push = push, lr_table = t @ [CString p]\<rparr>"
  have "agent_step l (2 # fill_uint32 s @ p) large = Some ([], large(s \<mapsto> ?x))"
    using Cons.prems by (simp add: agent_step_def unpack_parts dispatch_request_def lappend_def read_whole)
  then show ?case using Cons.IH [of "large(s \<mapsto> ?x)" "t @ [CString p]", OF fun_upd_same]
    by (simp del: fun_upd_apply split: Option.bind_split)
qed

lemma sign_bit:
  fixes n :: i32
  assumes "sint n < 0"
  shows "2 ^ 31 \<le> unat n" "sint n = int (unat n) - 2 ^ 32" "unat n < 2 ^ 32"
  using assms unat_bound [of n] by (simp_all add: sint_i32 del: of_nat_unat split: if_splits)

lemma malloc_block_negative:
  fixes n :: i32
  assumes "sint n < 0"
  shows "malloc_block (word_of_int (sint n)) = (if unat n < 2 ^ 32 - 4 then None else Some (unat n + 4 - 2 ^ 32))"
    and "0x20000 < unat (word_of_int (sint n) :: u64)"
proof -
  note u = sign_bit [OF assms]
  let ?k = "2 ^ 64 - 2 ^ 32 + unat n"
  have e: "(word_of_int (sint n) :: u64) = of_nat ?k" unfolding u(2) by simp
  show "0x20000 < unat (word_of_int (sint n) :: u64)" unfolding e using u by (subst unat_of_nat) simp
  have "(of_nat ?k :: u64) + PREFIX_SIZE = of_nat (?k + 4)" by (simp add: PREFIX_SIZE_def)
  moreover have "unat (of_nat (?k + 4) :: u64) = (if unat n < 2 ^ 32 - 4 then ?k + 4 else unat n + 4 - 2 ^ 32)"
  proof (cases "unat n < 2 ^ 32 - 4")
    case False
    have "(?k + 4) mod 2 ^ 64 = (?k + 4 - 2 ^ 64) mod 2 ^ 64" using False by (subst le_mod_geq) simp_all
    then show ?thesis using False u by (subst unat_of_nat) simp
  qed (subst unat_of_nat, simp)
  moreover have "unat n + 4 - 2 ^ 32 < 2 ^ 63" using u by simp
  ultimately show "malloc_block (word_of_int (sint n)) = (if unat n < 2 ^ 32 - 4 then None else Some (unat n + 4 - 2 ^ 32))"
    unfolding malloc_block_def e by (simp add: c_assert_def del: of_nat_unat of_nat_add of_nat_diff)
qed

lemma concat_loop_negative:
  assumes "sz < 0" "0x20000 < unat (word_of_int sz :: u64)" "n < 4"
  shows "length b \<le> n \<Longrightarrow> \<forall>p\<in>set t. length p < 0x10000 \<Longrightarrow>
    concat_loop sz n (map CString t) b = (if n < length b + length (concat t) then None else Some None)"
  using assms by (induction t arbitrary: b) (auto simp: c_assert_def)

text \<open>Property C32. The size of a large request that a peer announces is not checked. \<open>lconcat\<close> reads it into an \<open>int\<close>, so one
  of \<open>2 ^ 31\<close> or more is negative, and no request that announces it is served. When its last part has come, the process
  aborts, because no block of that size exists; but for the last four sizes the sum with \<open>PREFIX_SIZE\<close> wraps, the block
  has zero to three bytes, and the parts are copied past it, unless all of them fit; then the request is refused. A part
  has less than 64K, as every package.\<close>

theorem cluster_size_unchecked:
  assumes "sint (n :: i32) < 0" and "\<forall>p\<in>set (ps @ [m]). length p < 0x10000"
  shows "agent_run l ([1 # fill_uint32 a @ fill_uint32 s @ fill_uint32 n] @ map (\<lambda>p. 2 # fill_uint32 s @ p) ps @ [3 # fill_uint32 s @ m]) Map.empty =
    (if unat n < 2 ^ 32 - 4 \<or> unat n + 4 - 2 ^ 32 < length (concat (ps @ [m])) then None else Some ([InvalidLarge s], Map.empty))"
proof -
  let ?x = "\<lparr>lr_addr = AddrNumber (ucast a), lr_push = False, lr_table = [CNumber (of_nat (unat n))]\<rparr>"
  have n: "(ucast (of_nat (unat n) :: i64) :: i32) = n" by (rule bit_word_eqI) (simp add: bit_simps)
  have "agent_step l (1 # fill_uint32 a @ fill_uint32 s @ fill_uint32 n) Map.empty = Some ([], [s \<mapsto> ?x])"
    by (simp add: agent_step_def lunpackrequest_def unpack_number dispatch_request_def lappend_def del: of_nat_unat)
  moreover have "lconcat ([CNumber (of_nat (unat n))] @ map CString (ps @ [m])) =
      (if unat n < 2 ^ 32 - 4 \<or> unat n + 4 - 2 ^ 32 < length (concat (ps @ [m])) then None else Some None)"
    using malloc_block_negative [OF assms(1)] concat_loop_negative [OF assms(1) malloc_block_negative(2) [OF assms(1)], of "unat n + 4 - 2 ^ 32" "[]" "ps @ [m]"] assms
      sign_bit(3) [OF assms(1)]
    by (simp add: lconcat_def n del: of_nat_unat map_append)
  ultimately show ?thesis using agent_run_parts [of "[s \<mapsto> ?x]" s "AddrNumber (ucast a)" False "[CNumber (of_nat (unat n))]" l ps m]
    by (simp del: of_nat_unat map_append length_append)
qed

lemma cluster_size_unchecked_witness:
  "agent_run True [1 # fill_uint32 5 @ fill_uint32 1 @ fill_uint32 0x80000000, [2, 1, 0, 0, 0, 7], [3, 1, 0, 0, 0]] Map.empty = None \<and>
   agent_run True [1 # fill_uint32 5 @ fill_uint32 1 @ fill_uint32 0xfffffffe, [3, 1, 0, 0, 0, 7, 7, 7]] Map.empty = None \<and>
   agent_run True [1 # fill_uint32 5 @ fill_uint32 1 @ fill_uint32 0xfffffffe, [3, 1, 0, 0, 0, 7, 7]] Map.empty = Some ([InvalidLarge 1], Map.empty)"
  using cluster_size_unchecked [of "0x80000000" "[[7]]" "[]" True 5 1] cluster_size_unchecked [of "0xfffffffe" "[]" "[7, 7, 7]" True 5 1]
    cluster_size_unchecked [of "0xfffffffe" "[]" "[7, 7]" True 5 1]
  by (intro conjI) (simp_all add: fill_uint32_def)

subsection \<open>Responses\<close>

text \<open>The loop of \<open>dispatch_by_session\<close> (lualib/skynet/socketchannel.lua) on one response: the data collected by session, and
  what a waiting caller is woken with. Every session has a caller that waits.\<close>

datatype response_in = Single bool cell | Table "cell list"

type_synonym channel = "u32 \<Rightarrow> cell list option"

fun dispatch_response :: "u32 \<times> bool \<times> cell \<times> bool \<Rightarrow> channel \<Rightarrow> (u32 \<times> response_in) list \<times> channel" where
  "dispatch_response (session, ok, data, padding) result =
     (if padding \<and> ok then ([], result(session \<mapsto> (case result session of Some t \<Rightarrow> t | None \<Rightarrow> []) @ [data]))
      else case result session of
        Some t \<Rightarrow> if ok then ([(session, Table (t @ [data]))], result(session := None)) else ([(session, Single ok data)], result(session := None))
      | None \<Rightarrow> ([(session, Single ok data)], result))"

text \<open>\<open>command.req\<close> of clustersender.lua: a table is put together, an error raised (\<open>Inl\<close>).\<close>

definition request_result :: "response_in \<Rightarrow> (cell + u8 list option) option" where
  "request_result r = (case r of
       Single ok (CString s) \<Rightarrow> Some (if ok then Inr (Some s) else Inl (CString s))
     | Single ok d \<Rightarrow> Some (if ok then Inr None else Inl d)
     | Table t \<Rightarrow> do { m \<leftarrow> lconcat t; Some (Inr m) })"

definition channel_step :: "u8 list \<Rightarrow> channel \<Rightarrow> ((u32 \<times> response_in) list \<times> channel) option" where
  "channel_step c result = do {
     r \<leftarrow> lunpackresponse c;
     v \<leftarrow> r;
     Some (dispatch_response v result) }"

primrec channel_run :: "u8 list list \<Rightarrow> channel \<Rightarrow> ((u32 \<times> response_in) list \<times> channel) option" where
  "channel_run [] result = Some ([], result)"
| "channel_run (c # cs) result = do {
     (out, result') \<leftarrow> channel_step c result;
     (outs, result'') \<leftarrow> channel_run cs result';
     Some (out @ outs, result'') }"

function resp_contents :: "u32 \<Rightarrow> u8 list \<Rightarrow> u8 list list" where
  "resp_contents session m =
     (if length m > 0x8000 then (fill_uint32 session @ 3 # take 0x8000 m) # resp_contents session (drop 0x8000 m)
      else [fill_uint32 session @ 4 # m])"
  by pat_completeness auto
termination
  by (relation "measure (length \<circ> snd)") auto

declare resp_contents.simps [simp del]

lemma resp_part:
  assumes "0x8000 < sz" "0x8000 \<le> length ptr"
  shows "resp_loop (Suc k) session ptr sz =
    do { ps \<leftarrow> resp_loop k session (drop 0x8000 ptr) (sz - 0x8000); Some (framed (fill_uint32 session @ 3 # take 0x8000 ptr) # ps) }"
proof -
  let ?c = "fill_uint32 session @ 3 # take 0x8000 ptr"
  have lc: "length ?c = 0x8005" using assms by simp
  have "mem_read ptr 0x8000 = Some (take 0x8000 ptr)" using assms by (simp add: mem_read_def)
  then show ?thesis using framed_temp [of ?c, unfolded lc] assms(1) by (simp add: MULTI_nat)
qed

lemma resp_last:
  assumes "length ptr \<le> 0x8000"
  shows "resp_loop (Suc 0) session ptr (length ptr) = Some [framed (fill_uint32 session @ 4 # ptr)]"
proof -
  let ?c = "fill_uint32 session @ 4 # ptr"
  have lc: "length ?c = length ptr + 5" "length ?c \<le> 0x81fe" using assms by simp_all
  show ?thesis using framed_temp [of ?c, OF lc(2), unfolded lc(1)] assms by (simp add: MULTI_nat read_whole add.commute)
qed

lemma resp_loop_eq: "m \<noteq> [] \<Longrightarrow> resp_loop ((length m - 1) div 0x8000 + 1) session m (length m) = Some (map framed (resp_contents session m))"
proof (induction session m rule: resp_contents.induct)
  case (1 session m)
  show ?case
  proof (cases "0x8000 < length m")
    case True
    let ?m = "drop 0x8000 m"
    have n: "(length m - 1) div 0x8000 + 1 = Suc ((length ?m - 1) div 0x8000 + 1)" using True by (simp add: le_div_geq)
    have "resp_loop ((length ?m - 1) div 0x8000 + 1) session ?m (length m - 0x8000) = Some (map framed (resp_contents session ?m))"
      using True 1(1) [OF True] by simp
    then show ?thesis unfolding n using True
      by (subst resp_contents.simps, subst resp_part) (simp_all only: if_True Option.bind.simps list.map less_imp_le)
  next
    case False
    have "(length m - 1) div 0x8000 + 1 = Suc 0" using False 1(2) by simp
    then show ?thesis using False resp_last [of m session]
      by (subst resp_contents.simps) (simp only: not_less if_False list.map split: if_split, simp)
  qed
qed

text \<open>What a response looks like, and what its caller gets.\<close>

lemma packresponse_small:
  assumes "length m \<le> 0x8000"
  shows "lpackresponse ls ok m = Some (Inl (framed (fill_uint32 (ucast ls) @ (if ok then 1 else 0) # m)))"
proof -
  let ?c = "fill_uint32 (ucast ls) @ (if ok then 1 else 0) # m"
  have lc: "length ?c = length m + 5" "length ?c \<le> 0x81fe" using assms by simp_all
  show ?thesis using framed_temp [of ?c, OF lc(2), unfolded lc(1)] assms
    by (simp add: lpackresponse_def MULTI_nat read_whole add.commute Let_def)
qed

lemma packresponse_error:
  assumes "\<not> length m \<le> 0x8000"
  shows "lpackresponse ls False m = Some (Inl (framed (fill_uint32 (ucast ls) @ 0 # take 0x8000 m)))"
proof -
  let ?c = "fill_uint32 (ucast ls) @ 0 # take 0x8000 m"
  have lc: "length ?c = 0x8005" using assms by simp
  show ?thesis using framed_temp [of ?c, unfolded lc] assms
    by (simp add: lpackresponse_def MULTI_nat mem_read_def Let_def)
qed

lemma packresponse_large:
  assumes "\<not> length m \<le> 0x8000"
  shows "lpackresponse ls True m = Some (Inr (map framed
    ((fill_uint32 (ucast ls) @ 2 # fill_uint32 (of_nat (length m))) # resp_contents (ucast ls) m)))"
proof -
  let ?c = "fill_uint32 (ucast ls) @ 2 # fill_uint32 (of_nat (length m))"
  have lc: "length ?c = 9" by simp
  have "m \<noteq> []" using assms by auto
  then show ?thesis using framed_temp [of ?c, unfolded lc] resp_loop_eq [of m "ucast ls"] assms
    by (simp add: lpackresponse_def MULTI_nat Let_def del: resp_loop.simps)
qed

lemma unpack_response_reads:
  "unpack_uint32 (fill_uint32 s @ xs) 0 = Some s" "nth_at (fill_uint32 s @ x # xs) 4 = Some x"
  "mem_read (drop 5 (fill_uint32 s @ x # xs)) (length xs) = Some xs"
  using unpack_fill [of 0 "[]" s xs] by (simp_all add: nth_at_def nth_append mem_read_def)

lemma unpack_response_begin:
  "lunpackresponse (fill_uint32 s @ 2 # fill_uint32 n) = Some (Some (s, True, CNumber (ucast n), True))"
  using unpack_fill [of 5 "fill_uint32 s @ [2]" n "[]"] unpack_response_reads(3) [of s 2 "fill_uint32 n"]
  by (simp add: lunpackresponse_def unpack_response_reads)

lemma unpack_response_data:
  "t \<noteq> 2 \<Longrightarrow> lunpackresponse (fill_uint32 s @ t # d) =
    Some (if t = 0 then Some (s, False, CString d, False) else if t = 1 \<or> t = 4 then Some (s, True, CString d, False)
      else if t = 3 then Some (s, True, CString d, True) else None)"
  using unpack_response_reads(3) [of s t d] by (simp add: lunpackresponse_def unpack_response_reads)

lemma channel_parts:
  "result s = Some t \<Longrightarrow>
    \<exists>ts. channel_run (resp_contents s m) result = Some ([(s, Table (t @ map CString ts))], result(s := None)) \<and> concat ts = m"
proof (induction s m arbitrary: result t rule: resp_contents.induct)
  case (1 s m)
  show ?case
  proof (cases "0x8000 < length m")
    case True
    let ?p = "take 0x8000 m"
    have "\<exists>ts. channel_run (resp_contents s (drop 0x8000 m)) (result(s \<mapsto> t @ [CString ?p])) =
        Some ([(s, Table ((t @ [CString ?p]) @ map CString ts))], (result(s \<mapsto> t @ [CString ?p]))(s := None)) \<and> concat ts = drop 0x8000 m"
      by (rule 1(1) [OF True]) simp
    then obtain ts where
      "channel_run (resp_contents s (drop 0x8000 m)) (result(s \<mapsto> t @ [CString ?p])) = Some ([(s, Table (t @ map CString (?p # ts)))], result(s := None))"
      "concat ts = drop 0x8000 m" by (auto simp only: fun_upd_upd append_assoc append_Cons append_Nil list.map)
    then show ?thesis using True 1(2)
      by (subst resp_contents.simps) (simp add: channel_step_def unpack_response_data exI [of _ "?p # ts"])
  next
    case False
    then show ?thesis using 1(2)
      by (subst resp_contents.simps) (simp add: channel_step_def unpack_response_data exI [of _ "[m]"])
  qed
qed

lemma frames_framed:
  assumes "\<forall>c\<in>set cs. length c < 0x10000"
  shows "frames (concat (map framed cs)) = (cs, [])"
proof -
  have "list_all2 (\<lambda>m p. lpack m = Some p) cs (map framed cs)"
    using assms by (induction cs) (simp_all add: lpack_def framed_def)
  from frames_lpack [OF this, of "[]"] show ?thesis by simp
qed

lemma resp_contents_short: "c \<in> set (resp_contents s m) \<Longrightarrow> length c < 0x10000"
proof (induction s m rule: resp_contents.induct)
  case (1 s m)
  then show ?case by (subst (asm) (2) resp_contents.simps) (auto split: if_splits)
qed

text \<open>The packages of a response.\<close>

definition response_packages :: "i64 \<Rightarrow> bool \<Rightarrow> u8 list \<Rightarrow> u8 list list" where
  "response_packages ls ok m = (case lpackresponse ls ok m of Some (Inl p) \<Rightarrow> [p] | Some (Inr ps) \<Rightarrow> ps | None \<Rightarrow> [])"

lemma response_contents:
  "response_packages ls ok m = map framed
    (if length m \<le> 0x8000 then [fill_uint32 (ucast ls) @ (if ok then 1 else 0) # m]
     else if ok then (fill_uint32 (ucast ls) @ 2 # fill_uint32 (of_nat (length m))) # resp_contents (ucast ls) m
     else [fill_uint32 (ucast ls) @ 0 # take 0x8000 m])"
  by (cases ok) (simp_all add: response_packages_def packresponse_small packresponse_error packresponse_large)

text \<open>Property C31. The response to a request, packed by \<open>packresponse\<close> and cut into packages again by its two-byte headers, reaches
  the caller: a message of any size below 2G is put together to exactly what the service returned, and an error is raised
  with its text, of which the first 32K are kept.\<close>

theorem cluster_response_arrives:
  assumes "length m < 2 ^ 31" and "result (ucast ls) = None"
  shows "\<exists>d. channel_run (fst (frames (concat (response_packages ls ok m)))) result = Some ([(ucast ls, d)], result) \<and>
    request_result d = Some (if ok then Inr (Some m) else Inl (CString (take 0x8000 m)))"
proof -
  let ?s = "ucast ls :: u32"
  have step: "channel_run [fill_uint32 ?s @ t # d] result = Some ([(?s, Single (t \<noteq> 0) (CString d))], result)" if "t = 0 \<or> t = 1" for t d
    using that assms(2) by (auto simp: channel_step_def unpack_response_data)
  consider "length m \<le> 0x8000" | "\<not> length m \<le> 0x8000" "ok" | "\<not> length m \<le> 0x8000" "\<not> ok" by blast
  then show ?thesis
  proof cases
    case 1
    then have "fst (frames (concat (response_packages ls ok m))) = [fill_uint32 ?s @ (if ok then 1 else 0) # m]"
      unfolding response_contents by (subst frames_framed) simp_all
    then show ?thesis using 1 by (cases ok) (simp_all only: step if_True if_False simp_thms, simp_all add: request_result_def)
  next
    case 2
    let ?t = "[CNumber (of_nat (length m))]" and ?b = "fill_uint32 ?s @ 2 # fill_uint32 (of_nat (length m))"
    have cs: "fst (frames (concat (response_packages ls ok m))) = ?b # resp_contents ?s m"
      unfolding response_contents using 2 by (subst frames_framed) (auto dest: resp_contents_short)
    have "(ucast (of_nat (length m) :: u32) :: i64) = of_nat (length m)"
    proof -
      have "length m < 2 ^ 32" using assms(1) by simp
      then have "unat (of_nat (length m) :: u32) = length m" by (rule unat_len)
      moreover have "(ucast w :: i64) = of_nat (unat w)" for w :: u32 by simp
      ultimately show ?thesis by metis
    qed
    then have b: "channel_step ?b result = Some ([], result(?s \<mapsto> ?t))"
      using assms(2) by (simp add: channel_step_def unpack_response_begin)
    from channel_parts [of "result(?s \<mapsto> ?t)" ?s ?t m] obtain ts where
      p: "channel_run (resp_contents ?s m) (result(?s \<mapsto> ?t)) = Some ([(?s, Table (?t @ map CString ts))], (result(?s \<mapsto> ?t))(?s := None))"
      and m: "concat ts = m" by auto
    have r: "(result(?s \<mapsto> ?t))(?s := None) = result" using assms(2) by (simp add: fun_upd_idem)
    have "request_result (Table (?t @ map CString ts)) = Some (Inr (Some m))"
      using lconcat_parts [of ts] assms(1) by (simp add: request_result_def m)
    then show ?thesis using 2 unfolding cs by (simp add: b p [unfolded r] del: fun_upd_apply)
  next
    case 3
    then have "fst (frames (concat (response_packages ls ok m))) = [fill_uint32 ?s @ 0 # take 0x8000 m]"
      unfolding response_contents by (subst frames_framed) simp_all
    moreover have "channel_run [fill_uint32 ?s @ 0 # take 0x8000 m] result = Some ([(?s, Single False (CString (take 0x8000 m)))], result)"
      by (subst step) simp_all
    ultimately show ?thesis using 3 by (simp add: request_result_def del: channel_run.simps)
  qed
qed

lemma cluster_response_arrives_witness:
  "\<exists>d. channel_run (fst (frames (concat (response_packages 3 True demo_big)))) Map.empty = Some ([(3, d)], Map.empty) \<and>
    request_result d = Some (Inr (Some demo_big))"
  using cluster_response_arrives [of demo_big Map.empty 3 True] by simp

end
