(* ===== verification/SchedLive.thy ===== *)
theory SchedLive
  imports Sched
begin

section \<open>No service starves\<close>

text \<open>
  Theory \<open>Sched\<close> shows that a queue with messages is always scheduled. Here: it is also served. The global queue is
  first-in first-out in every interleaving, so a waiting queue is taken by a worker after at most as many takes as
  there are queues waiting, however many messages other services get meanwhile; and the messages of a queue that is
  popped come out one with every pop. Fairness of the threads is the number of their steps.
\<close>

text \<open>What a step does to the global queue.\<close>

definition queue_step :: "action \<Rightarrow> addr list \<Rightarrow> addr list \<Rightarrow> addr set \<Rightarrow> bool" where
  "queue_step x xs ys held' \<longleftrightarrow>
     (if x = Take then (case xs of [] \<Rightarrow> ys = [] | b # bs \<Rightarrow> ys = bs \<and> b \<in> held') else (\<exists>zs. ys = xs @ zs))"

lemma queue_step_grow: "x \<noteq> Take \<Longrightarrow> ys = xs \<or> ys = xs @ [a] \<Longrightarrow> queue_step x xs ys held'"
  by (auto simp: queue_step_def)

lemma sched_exec_queue:
  assumes ok: "sched_ok s xs held" and en: "sched_enabled x (s, held)" and ex: "sched_exec x (s, held) = Some (out, s', held')"
  shows "\<exists>ys. sched_ok s' ys held' \<and> queue_step x xs ys held'"
proof (cases x)
  case (Create a h)
  then show ?thesis using sched_create(1) [OF ok, of a h] en ex by (auto simp: queue_step_def)
next
  case (Put a)
  then show ?thesis using sched_put [OF ok, of a] en ex by (auto simp: queue_step_def)
next
  case Take
  show ?thesis
  proof (cases xs)
    case Nil
    then show ?thesis using sched_take_empty ok ex Take by (auto simp: queue_step_def)
  next
    case (Cons b bs)
    with ok obtain s1 where "skynet_globalmq_pop s = Some (Some b, s1)" "sched_ok s1 bs (insert b held)" using sched_take by blast
    then show ?thesis using ex Take Cons by (auto simp: queue_step_def)
  qed
next
  case (Push a m)
  with en obtain q where q: "mqs s a = Some q" "\<not> mq_release q" by auto
  from sched_push [OF ok q, of m] ex Push obtain ys where "sched_ok s' ys held'" "ys = xs \<or> ys = xs @ [a]" by (auto split: if_splits)
  then show ?thesis using Push queue_step_grow by blast
next
  case (Pop a)
  with en obtain q where q: "mqs s a = Some q" "\<not> mq_release q" "a \<in> held" by auto
  note p = sched_pop [OF ok q(1,3)]
  have "sched_ok s' xs held'"
    using p q ex Pop by (cases "mq_list q") (auto simp: Let_def)
  then show ?thesis using Pop queue_step_grow by blast
next
  case (MarkRelease a)
  with en obtain q where q: "mqs s a = Some q" "\<not> mq_release q" by auto
  from sched_mark_release [OF ok q] ex MarkRelease obtain ys where "sched_ok s' ys held'" "ys = xs \<or> ys = xs @ [a]" by (auto split: if_splits)
  then show ?thesis using MarkRelease queue_step_grow by blast
next
  case (Release a)
  with en have a: "a \<in> held" by simp
  with ok obtain q where q: "mqs s a = Some q" by (auto simp: sched_ok_def)
  from sched_release [OF ok q a] ex Release obtain ys where "sched_ok s' ys held'" "ys = xs \<or> ys = xs @ [a]" by (auto split: if_splits)
  then show ?thesis using Release queue_step_grow by blast
qed

text \<open>A queue in the first \<open>n\<close> places is held at some point of every run with \<open>n\<close> takes.\<close>

lemma taken_in_turn:
  assumes "sched_ok s xs held" and "sched_legal acts (s, held)" and "a \<in> set (take n xs)" and "n \<le> count_list acts Take"
  shows "\<exists>pre post out' s' held'. acts = pre @ post \<and> sched_run pre (s, held) = Some (out', s', held') \<and> a \<in> held'"
  using assms
proof (induction acts arbitrary: s xs held n)
  case Nil
  then show ?case by simp
next
  case (Cons x acts)
  from Cons.prems(2) have en: "sched_enabled x (s, held)" by simp
  from sched_exec_ok [OF Cons.prems(1) en] obtain out1 s1 held1 where e: "sched_exec x (s, held) = Some (out1, s1, held1)" by blast
  from sched_exec_queue [OF Cons.prems(1) en e] obtain ys where ys: "sched_ok s1 ys held1" "queue_step x xs ys held1" by blast
  have leg: "sched_legal acts (s1, held1)" using Cons.prems(2) e by simp
  have later: ?case if "\<exists>pre post out' s' held'. acts = pre @ post \<and> sched_run pre (s1, held1) = Some (out', s', held') \<and> a \<in> held'"
  proof -
    from that obtain pre post out' s' held' where
      "acts = pre @ post" "sched_run pre (s1, held1) = Some (out', s', held')" "a \<in> held'" by blast
    then have "x # acts = (x # pre) @ post" "sched_run (x # pre) (s, held) = Some (out1 @ out', s', held')" "a \<in> held'"
      using e by simp_all
    then show ?thesis by blast
  qed
  show ?case
  proof (cases "x = Take")
    case False
    then obtain zs where "ys = xs @ zs" using ys(2) by (auto simp: queue_step_def)
    then have "a \<in> set (take n ys)" using Cons.prems(3) by auto
    then show ?thesis using Cons.IH [OF ys(1) leg, of n] Cons.prems(4) False by (intro later) simp
  next
    case True
    obtain b bs where xs: "xs = b # bs" using Cons.prems(3) by (cases xs) auto
    then have b: "ys = bs" "b \<in> held1" using ys(2) True by (simp_all add: queue_step_def)
    obtain k where k: "n = Suc k" using Cons.prems(3) by (cases n) auto
    show ?thesis
    proof (cases "a = b")
      case True
      have "sched_run [x] (s, held) = Some (out1, s1, held1)" using e by simp
      then show ?thesis using True b(2) by (intro exI [of _ "[x]"] exI [of _ acts]) auto
    next
      case False
      then have "a \<in> set (take k ys)" using Cons.prems(3) by (simp add: xs k b(1))
      then show ?thesis using Cons.IH [OF ys(1) leg, of k] Cons.prems(4) True k by (intro later) simp
    qed
  qed
qed

lemma pop_delivers:
  assumes ok: "sched_ok s xs held" and en: "sched_enabled (Pop a) (s, held)" and "pending s a \<noteq> []"
    and ex: "sched_exec (Pop a) (s, held) = Some (out, s', held')"
  shows "0 < length (delivered_to a out)"
proof -
  from en obtain q where q: "mqs s a = Some q" "a \<in> held" by auto
  then obtain m ms where "mq_list q = m # ms" using assms(3) by (cases "mq_list q") (auto simp: pending_def mq_content_def)
  then show ?thesis using sched_pop [OF ok q] q ex by (auto simp: delivered_to_def Let_def)
qed

lemma delivered_in_turn:
  assumes "sched_ok s xs held" and "sched_legal acts (s, held)" and "i < length (pending s a)" and "i < count_list acts (Pop a)"
    and "sched_run acts (s, held) = Some (out, s', held')"
  shows "i < length (delivered_to a out)"
  using assms
proof (induction acts arbitrary: s xs held i out)
  case Nil
  then show ?case by simp
next
  case (Cons x acts)
  from Cons.prems(2) have en: "sched_enabled x (s, held)" by simp
  from sched_exec_ok [OF Cons.prems(1) en] obtain out1 s1 held1 ys where
    e: "sched_exec x (s, held) = Some (out1, s1, held1)" "sched_ok s1 ys held1"
    and c: "delivered_to a out1 @ pending s1 a = pending s a @ pushed_to a [x]" by blast
  from Cons.prems(5) e(1) obtain out2 where r: "sched_run acts (s1, held1) = Some (out2, s', held')" "out = out1 @ out2"
    by (auto simp: Option.bind_eq_Some_conv)
  have leg: "sched_legal acts (s1, held1)" using Cons.prems(2) e(1) by simp
  let ?d = "length (delivered_to a out1)"
  have d: "(if x = Pop a then 1 else 0) \<le> ?d"
  proof (cases "x = Pop a")
    case True
    have "pending s a \<noteq> []" using Cons.prems(3) by auto
    then show ?thesis using pop_delivers [OF Cons.prems(1) en [unfolded True] _ e(1) [unfolded True]] True by (simp add: Suc_le_eq)
  qed simp
  have l: "length (delivered_to a out) = ?d + length (delivered_to a out2)" by (simp add: r(2) delivered_to_def)
  show ?case
  proof (cases "i < ?d")
    case False
    have "?d + length (pending s1 a) = length (pending s a) + length (pushed_to a [x])" using arg_cong [OF c, of length] by simp
    then have "i - ?d < length (pending s1 a)" using False Cons.prems(3) by linarith
    moreover have "i - ?d < count_list acts (Pop a)" using False d Cons.prems(4) by (cases "x = Pop a") auto
    ultimately have "i - ?d < length (delivered_to a out2)" using Cons.IH [OF e(2) leg _ _ r(1)] by blast
    then show ?thesis using False l by linarith
  qed (simp add: l)
qed

text \<open>Property C6. No service starves. In every state that a legal interleaving reaches there is a bound, the number of queues
  in the global queue, for each service with messages: whatever the threads do next (send, create and
  delete services, dispatch others), by the time they have taken that many queues a worker has held its queue; and
  by the time its queue has been popped \<open>i + 1\<close> times the message at place \<open>i\<close> has been delivered.\<close>

theorem sched_no_starvation:
  assumes "sched_legal acts (skynet_mq_init, {})" and "sched_run acts (skynet_mq_init, {}) = Some (out, s, held)"
    and "i < length (pending s a)"
  shows "\<exists>xs. gq_ok s xs \<and> (\<forall>acts'. sched_legal acts' (s, held) \<longrightarrow>
    (length xs \<le> count_list acts' Take \<longrightarrow>
      (\<exists>pre post out' s' held'. acts' = pre @ post \<and> sched_run pre (s, held) = Some (out', s', held') \<and> a \<in> held')) \<and>
    (i < count_list acts' (Pop a) \<longrightarrow>
      (\<exists>out' s' held'. sched_run acts' (s, held) = Some (out', s', held') \<and> i < length (delivered_to a out') \<and>
        delivered_to a out' ! i = pending s a ! i)))"
proof -
  from sched_run_ok [OF sched_ok_init assms(1)] assms(2) obtain xs where ok: "sched_ok s xs held" by auto
  have a: "a \<in> set xs \<union> held"
  proof -
    have "pending s a \<noteq> []" using assms(3) by auto
    then obtain q where q: "mqs s a = Some q" "mq_list q \<noteq> []"
      by (auto simp: pending_def mq_content_def split: option.splits)
    from sched_okD(2,3) [OF ok q(1)] q(2) show ?thesis by (simp add: scheduled_def)
  qed
  have taken: "\<exists>pre post out' s' held'. acts' = pre @ post \<and> sched_run pre (s, held) = Some (out', s', held') \<and> a \<in> held'"
    if "sched_legal acts' (s, held)" "length xs \<le> count_list acts' Take" for acts'
  proof (cases "a \<in> held")
    case True
    then show ?thesis by (intro exI [of _ "[]"] exI [of _ acts']) simp
  next
    case False
    then show ?thesis using a taken_in_turn [OF ok that(1), of a "length xs"] that(2) by simp
  qed
  have popped: "\<exists>out' s' held'. sched_run acts' (s, held) = Some (out', s', held') \<and> i < length (delivered_to a out') \<and>
      delivered_to a out' ! i = pending s a ! i"
    if l: "sched_legal acts' (s, held)" and p: "i < count_list acts' (Pop a)" for acts'
  proof -
    from sched_run_ok [OF ok l] obtain out' s' held' where
      r: "sched_run acts' (s, held) = Some (out', s', held')" "delivered_to a out' @ pending s' a = pending s a @ pushed_to a acts'" by blast
    have i: "i < length (delivered_to a out')" by (rule delivered_in_turn [OF ok l assms(3) p r(1)])
    then have "delivered_to a out' ! i = (pending s a @ pushed_to a acts') ! i" by (simp add: nth_append flip: r(2))
    then show ?thesis using r(1) i assms(3) by (simp add: nth_append)
  qed
  show ?thesis using sched_ok_gq [OF ok] taken popped by blast
qed

theorem sched_no_starvation_witness:
  "\<exists>out s held xs. sched_run [Create 1 5, Push 1 \<lparr>msg_source = 2, msg_session = 3, msg_data = None, msg_sz = 0\<rparr>, Put 1]
       (skynet_mq_init, {}) = Some (out, s, held) \<and> gq_ok s xs \<and>
     (\<forall>acts'. sched_legal acts' (s, held) \<longrightarrow> length xs \<le> count_list acts' Take \<longrightarrow>
       (\<exists>pre post out' s' held'. acts' = pre @ post \<and> sched_run pre (s, held) = Some (out', s', held') \<and> 1 \<in> held'))"
proof -
  let ?m = "\<lparr>msg_source = 2, msg_session = 3, msg_data = None, msg_sz = 0\<rparr> :: skynet_message"
  let ?acts = "[Create 1 5, Push 1 ?m, Put 1]"
  have l: "sched_legal ?acts (skynet_mq_init, {})" by (simp add: sched_eval split: option.split)
  from sched_run_ok [OF sched_ok_init l] obtain out s held where
    r: "sched_run ?acts (skynet_mq_init, {}) = Some (out, s, held)" and
    c: "delivered_to 1 out @ pending s 1 = pending skynet_mq_init 1 @ pushed_to 1 ?acts" by blast
  have "out = []" using r by (auto simp: Option.bind_eq_Some_conv split: prod.splits)
  then have "0 < length (pending s 1)" using c by (simp add: pushed_to_def map_filter_simps delivered_to_def)
  from sched_no_starvation [OF l r this] r show ?thesis by blast
qed

end
