(* ===== verification/SkynetSocket.thy ===== *)
theory SkynetSocket
  imports Delivery SocketRun
begin

section \<open>Socket messages to services (skynet-src/skynet_socket.c)\<close>

text \<open>
  The socket thread: what the socket server reports becomes a message of type \<open>PTYPE_SOCKET\<close> in the queue of
  the service that owns the socket. The other functions pass a service's request on, with its handle.
  The global \<open>SOCKET_SERVER\<close> is a socket server or NULL (\<open>None\<close>), and NULL is passed to no function of it.
  The buffer of a report (\<open>DBuf\<close>) was allocated by the socket server; it gets its address in the node here.
\<close>

subsection \<open>The functions\<close>

definition SKYNET_SOCKET_TYPE_DATA :: i32 where "SKYNET_SOCKET_TYPE_DATA = 1"
definition SKYNET_SOCKET_TYPE_CONNECT :: i32 where "SKYNET_SOCKET_TYPE_CONNECT = 2"
definition SKYNET_SOCKET_TYPE_CLOSE :: i32 where "SKYNET_SOCKET_TYPE_CLOSE = 3"
definition SKYNET_SOCKET_TYPE_ACCEPT :: i32 where "SKYNET_SOCKET_TYPE_ACCEPT = 4"
definition SKYNET_SOCKET_TYPE_ERROR :: i32 where "SKYNET_SOCKET_TYPE_ERROR = 5"
definition SKYNET_SOCKET_TYPE_UDP :: i32 where "SKYNET_SOCKET_TYPE_UDP = 6"
definition SKYNET_SOCKET_TYPE_WARNING :: i32 where "SKYNET_SOCKET_TYPE_WARNING = 7"

lemmas SKYNET_SOCKET_TYPE_defs = SKYNET_SOCKET_TYPE_DATA_def SKYNET_SOCKET_TYPE_CONNECT_def SKYNET_SOCKET_TYPE_CLOSE_def
  SKYNET_SOCKET_TYPE_ACCEPT_def SKYNET_SOCKET_TYPE_ERROR_def SKYNET_SOCKET_TYPE_UDP_def SKYNET_SOCKET_TYPE_WARNING_def

definition SIZEOF_SOCKET_MESSAGE :: nat where "SIZEOF_SOCKET_MESSAGE = 24"

text \<open>\<open>strlen\<close> and the bytes it counts: a buffer without a NUL is read beyond its end.\<close>

fun text_of :: "sdata \<Rightarrow> u8 list option" where
  "text_of DNull = Some []"
| "text_of (DStr s) = Some (takeWhile (\<lambda>b. b \<noteq> 0) s)"
| "text_of (DBuf bs) = (if 0 \<in> set bs then Some (takeWhile (\<lambda>b. b \<noteq> 0) bs) else None)"

text \<open>The receiver frees \<open>sm->buffer\<close>, so it has to be a buffer or NULL.\<close>

fun buffer_of :: "sdata \<Rightarrow> node \<Rightarrow> (ptr \<times> node) option" where
  "buffer_of DNull n = Some (None, n)"
| "buffer_of (DBuf bs) n = (let (d, n') = skynet_malloc (Bytes bs) n in Some (Some d, n'))"
| "buffer_of (DStr _) n = None"

definition forward_message :: "i32 \<Rightarrow> bool \<Rightarrow> socket_result \<Rightarrow> node \<Rightarrow> node option" where
  "forward_message type padding result n = do {
     tail \<leftarrow> (if padding then do { text \<leftarrow> text_of (r_data result); Some (take 128 text) } else Some []);
     (buffer, n1) \<leftarrow> (if padding then Some (None, n) else buffer_of (r_data result) n);
     let sz = SIZEOF_SOCKET_MESSAGE + length tail;
     let (sm, n2) = skynet_malloc (SocketMsg \<lparr>sm_type = type, sm_id = r_id result, sm_ud = r_ud result,
       sm_buffer = buffer, sm_tail = tail\<rparr>) n1;
     (r, n3) \<leftarrow> skynet_context_push (ucast (r_opaque result))
       \<lparr>msg_source = 0, msg_session = 0, msg_data = Some sm,
        msg_sz = of_nat sz OR push_bit MESSAGE_TYPE_SHIFT PTYPE_SOCKET\<rparr> n2;
     if r \<noteq> 0 then do { n4 \<leftarrow> skynet_free buffer n3; skynet_free (Some sm) n4 } else Some n3 }"

text \<open>\<open>res\<close> is what the local variable \<open>result\<close> holds before it is set.\<close>

definition skynet_socket_poll ::
  "kernel \<Rightarrow> socket_server option \<Rightarrow> socket_result \<Rightarrow> node \<Rightarrow> (i32 \<times> socket_server option \<times> node) option" where
  "skynet_socket_poll K SOCKET_SERVER res n = do {
     ss \<leftarrow> SOCKET_SERVER;
     (type, ss', result, more) \<leftarrow> socket_server_poll K (ss, res, True);
     let ret = (if more then - 1 else 1);
     let forward = (\<lambda>ty padding. do { n' \<leftarrow> forward_message ty padding result n; Some (ret, Some ss', n') });
     (case type of
        SOCKET_EXIT \<Rightarrow> Some (0, Some ss', n)
      | SOCKET_DATA \<Rightarrow> forward SKYNET_SOCKET_TYPE_DATA False
      | SOCKET_CLOSE \<Rightarrow> forward SKYNET_SOCKET_TYPE_CLOSE False
      | SOCKET_OPEN \<Rightarrow> forward SKYNET_SOCKET_TYPE_CONNECT True
      | SOCKET_ERR \<Rightarrow> forward SKYNET_SOCKET_TYPE_ERROR True
      | SOCKET_ACCEPT \<Rightarrow> forward SKYNET_SOCKET_TYPE_ACCEPT True
      | SOCKET_UDP \<Rightarrow> forward SKYNET_SOCKET_TYPE_UDP False
      | SOCKET_WARNING \<Rightarrow> forward SKYNET_SOCKET_TYPE_WARNING False
      | R_IGNORE \<Rightarrow> do {
          n' \<leftarrow> skynet_error None (str ''Unknown socket message type -1.'') n;
          Some (- 1, Some ss', n') }) }"

text \<open>Creation and the end of the server; \<open>socket_server_release\<close> returns the calls it makes.\<close>

definition skynet_socket_init :: "kernel \<Rightarrow> u64 \<Rightarrow> int \<Rightarrow> (int \<times> int) option \<Rightarrow> (nat \<Rightarrow> sock) \<Rightarrow> sys list \<Rightarrow>
    (socket_server option \<times> sys list) option" where
  "skynet_socket_init K now efd fds mem hist = socket_server_create K now efd fds mem hist"

definition skynet_socket_exit :: "socket_server option \<Rightarrow> socket_server option option" where
  "skynet_socket_exit SOCKET_SERVER = do { ss \<leftarrow> SOCKET_SERVER; Some (Some (socket_server_exit ss)) }"

definition skynet_socket_free :: "socket_server option \<Rightarrow> (sys list \<times> socket_server option) option" where
  "skynet_socket_free SOCKET_SERVER = do {
     ss \<leftarrow> SOCKET_SERVER; hist \<leftarrow> socket_server_release ss; Some (hist, None) }"

definition skynet_socket_updatetime :: "u64 \<Rightarrow> socket_server option \<Rightarrow> socket_server option option" where
  "skynet_socket_updatetime now SOCKET_SERVER = do {
     ss \<leftarrow> SOCKET_SERVER; Some (Some (socket_server_updatetime now ss)) }"

text \<open>A request that returns a value, and the handle of the service that makes it.\<close>

definition on_server :: "(socket_server \<Rightarrow> ('a \<times> socket_server) option) \<Rightarrow> socket_server option \<Rightarrow>
    ('a \<times> socket_server option) option" where
  "on_server f SOCKET_SERVER = do { ss \<leftarrow> SOCKET_SERVER; (r, ss') \<leftarrow> f ss; Some (r, Some ss') }"

definition source_of :: "addr \<Rightarrow> node \<Rightarrow> u64 option" where
  "source_of ctx n = map_option ucast (skynet_context_handle ctx (ctxs n))"

definition skynet_socket_send ::
  "kernel \<Rightarrow> i32 \<Rightarrow> sbuf \<Rightarrow> int \<Rightarrow> socket_server option \<Rightarrow> (int \<times> socket_server option) option" where
  "skynet_socket_send K i buffer sz = on_server (socket_server_send K i buffer sz)"

definition skynet_socket_send_lowpriority ::
  "i32 \<Rightarrow> sbuf \<Rightarrow> int \<Rightarrow> socket_server option \<Rightarrow> (int \<times> socket_server option) option" where
  "skynet_socket_send_lowpriority i buffer sz = on_server (socket_server_send_lowpriority i buffer sz)"

definition skynet_socket_listen :: "kernel \<Rightarrow> addr \<Rightarrow> u8 list option \<Rightarrow> int \<Rightarrow> int \<Rightarrow> node \<Rightarrow>
    socket_server option \<Rightarrow> (i32 \<times> socket_server option) option" where
  "skynet_socket_listen K ctx host port backlog n SOCKET_SERVER = do {
     source \<leftarrow> source_of ctx n;
     on_server (socket_server_listen K source host port backlog) SOCKET_SERVER }"

definition skynet_socket_connect :: "addr \<Rightarrow> u8 list \<Rightarrow> int \<Rightarrow> node \<Rightarrow> socket_server option \<Rightarrow>
    (i32 \<times> socket_server option) option" where
  "skynet_socket_connect ctx host port n SOCKET_SERVER = do {
     source \<leftarrow> source_of ctx n;
     on_server (Some \<circ> socket_server_connect source host port) SOCKET_SERVER }"

definition skynet_socket_bind :: "addr \<Rightarrow> int \<Rightarrow> node \<Rightarrow> socket_server option \<Rightarrow> (i32 \<times> socket_server option) option" where
  "skynet_socket_bind ctx fd n SOCKET_SERVER = do {
     source \<leftarrow> source_of ctx n;
     on_server (Some \<circ> socket_server_bind source fd) SOCKET_SERVER }"

definition skynet_socket_close :: "addr \<Rightarrow> i32 \<Rightarrow> node \<Rightarrow> socket_server option \<Rightarrow> socket_server option option" where
  "skynet_socket_close ctx i n SOCKET_SERVER = do {
     source \<leftarrow> source_of ctx n; ss \<leftarrow> SOCKET_SERVER; Some (Some (socket_server_close source i ss)) }"

definition skynet_socket_shutdown :: "addr \<Rightarrow> i32 \<Rightarrow> node \<Rightarrow> socket_server option \<Rightarrow> socket_server option option" where
  "skynet_socket_shutdown ctx i n SOCKET_SERVER = do {
     source \<leftarrow> source_of ctx n; ss \<leftarrow> SOCKET_SERVER; Some (Some (socket_server_shutdown source i ss)) }"

definition skynet_socket_start :: "addr \<Rightarrow> i32 \<Rightarrow> node \<Rightarrow> socket_server option \<Rightarrow> socket_server option option" where
  "skynet_socket_start ctx i n SOCKET_SERVER = do {
     source \<leftarrow> source_of ctx n; ss \<leftarrow> SOCKET_SERVER; Some (Some (socket_server_start source i ss)) }"

definition skynet_socket_nodelay :: "i32 \<Rightarrow> socket_server option \<Rightarrow> socket_server option option" where
  "skynet_socket_nodelay i SOCKET_SERVER = do {
     ss \<leftarrow> SOCKET_SERVER; Some (Some (socket_server_nodelay i ss)) }"

definition skynet_socket_udp :: "kernel \<Rightarrow> addr \<Rightarrow> u8 list option \<Rightarrow> int \<Rightarrow> node \<Rightarrow> socket_server option \<Rightarrow>
    (i32 \<times> socket_server option) option" where
  "skynet_socket_udp K ctx address port n SOCKET_SERVER = do {
     source \<leftarrow> source_of ctx n;
     on_server (socket_server_udp K source address port) SOCKET_SERVER }"

definition skynet_socket_udp_connect ::
  "kernel \<Rightarrow> i32 \<Rightarrow> u8 list \<Rightarrow> int \<Rightarrow> socket_server option \<Rightarrow> (int \<times> socket_server option) option" where
  "skynet_socket_udp_connect K i address port = on_server (socket_server_udp_connect K i address port)"

definition skynet_socket_udp_send ::
  "kernel \<Rightarrow> i32 \<Rightarrow> u8 list \<Rightarrow> sbuf \<Rightarrow> int \<Rightarrow> socket_server option \<Rightarrow> (int \<times> socket_server option) option" where
  "skynet_socket_udp_send K i address buffer sz = on_server (socket_server_udp_send K i address buffer sz)"

definition skynet_socket_udp_address :: "skynet_socket_message \<Rightarrow> node \<Rightarrow> (u8 list) option option" where
  "skynet_socket_udp_address msg n =
     (if sm_type msg \<noteq> SKYNET_SOCKET_TYPE_UDP then Some None
      else do {
        d \<leftarrow> sm_buffer msg;
        b \<leftarrow> blocks n d;
        bs \<leftarrow> (case b of Bytes bs \<Rightarrow> Some bs | _ \<Rightarrow> None);
        socket_server_udp_address (answer (sm_id msg) 0 (sm_ud msg) (DBuf bs)) })"

definition skynet_socket_info :: "kernel \<Rightarrow> socket_server option \<Rightarrow> socket_info list option" where
  "skynet_socket_info K SOCKET_SERVER = do { ss \<leftarrow> SOCKET_SERVER; socket_server_info K ss }"

subsection \<open>What a report carries\<close>

text \<open>Data and UDP reports carry a new buffer, close and warning reports nothing, the others a string at most.\<close>

fun carries :: "socket_report \<Rightarrow> sdata \<Rightarrow> bool" where
  "carries SOCKET_DATA d = (\<exists>bs. d = DBuf bs)"
| "carries SOCKET_UDP d = (\<exists>bs. d = DBuf bs)"
| "carries SOCKET_CLOSE d = (d = DNull)"
| "carries SOCKET_WARNING d = (d = DNull)"
| "carries SOCKET_OPEN d = (\<forall>bs. d \<noteq> DBuf bs)"
| "carries SOCKET_ERR d = (\<forall>bs. d \<noteq> DBuf bs)"
| "carries SOCKET_ACCEPT d = (\<forall>bs. d \<noteq> DBuf bs)"
| "carries SOCKET_EXIT d = True"
| "carries R_IGNORE d = True"

lemma answer_data [simp]: "r_data (answer i q ud d) = d" by (simp add: answer_def)

lemma force_close_data: "force_close h l ss = Some (ss', res) \<Longrightarrow> r_data res = DNull"
  by (auto simp: force_close_def Let_def Option.bind_eq_Some_conv split: if_splits option.splits)

named_theorems carry
lemmas bind_parts = Option.bind_eq_Some_conv Let_def case_prod_beta

lemma check_close_carries [carry]: "check_close h l ss res = Some (ty, ss', res') \<Longrightarrow> carries ty (r_data res')"
  by (auto simp: check_close_def bind_parts dest!: force_close_data split: if_splits)

lemma send_list_tcp_carries [carry]:
  assumes "send_list_tcp K p h l ss res = Some (ty, ss', res')"
  shows "carries ty (r_data res')"
proof -
  have "carries (fst y) (r_data (snd (snd y)))" if "send_list_tcp K p h l ss res = Some y" for y
  proof (rule send_list_tcp.raw_induct [where P = "\<lambda>K p h l ss res y. carries (fst y) (r_data (snd (snd y)))", OF _ that], goal_cases)
    case (1 f K p h l ss res y)
    show ?case
    proof (cases "wb_list p (ss_slot ss h)")
      case Nil
      then show ?thesis using 1(2) by auto
    next
      case (Cons tmp rest)
      with 1(2) obtain bs where bs: "bytes_at (wb_bytes tmp) (wb_sz tmp) = Some bs" by (auto simp: Option.bind_eq_Some_conv)
      show ?thesis
      proof (cases "k_write K (ss_sys ss) (s_fd (ss_slot ss h)) bs")
        case (Inl e)
        then show ?thesis using 1(2) Cons bs
          by (auto simp: bind_parts dest!: force_close_data dest: 1(1) split: if_splits)
      next
        case (Inr n)
        then show ?thesis using 1(2) Cons bs by (auto simp: Let_def dest: 1(1) split: if_splits)
      qed
    qed
  qed
  from this [OF assms] show ?thesis by simp
qed

lemma send_list_carries [carry]: "send_list K p h l ss res = Some (ty, ss', res') \<Longrightarrow> carries ty (r_data res')"
  by (auto simp: send_list_def bind_parts dest: send_list_tcp_carries split: if_splits)

lemma send_buffer_lists_carries [carry]:
  "send_buffer_lists K h l ss res = Some (ty, ss', res') \<Longrightarrow> carries ty (r_data res')"
  by (auto simp: send_buffer_lists_def bind_parts dest!: carry split: if_splits)

lemma send_buffer_carries [carry]: "send_buffer K h l ss res = Some (ty, ss', res') \<Longrightarrow> carries ty (r_data res')"
  by (auto simp: send_buffer_def bind_parts dest: carry split: option.splits)

lemma send_warning_carries [carry]: "send_warning h ss res = (ty, ss', res') \<Longrightarrow> carries ty (r_data res')"
  by (auto simp: send_warning_def Let_def split: if_splits)

lemma send_socket_carries [carry]: "send_socket K i buf sz p addr ss res = Some (ty, ss', res') \<Longrightarrow> carries ty (r_data res')"
  by (auto simp: send_socket_def bind_parts dest: carry split: if_splits)

lemma all_bind: "(\<forall>y. m \<bind> f = Some y \<longrightarrow> P y) \<longleftrightarrow> (\<forall>x. m = Some x \<longrightarrow> (\<forall>y. f x = Some y \<longrightarrow> P y))"
  by (auto simp: Option.bind_eq_Some_conv)

lemma open_socket_carries [carry]:
  assumes "open_socket K i port q host ss = Some (ty, ss', res')"
  shows "carries ty (r_data res')"
proof -
  have "\<forall>y. open_socket K i port q host ss = Some y \<longrightarrow> carries (fst y) (r_data (snd (snd y)))"
    unfolding open_socket_def open_failed_def Let_def
    by (auto simp: all_bind simp del: split_paired_All split: sum.split prod.split option.split)
  with assms show ?thesis by auto
qed

lemma start_socket_carries [carry]: "start_socket K i q ss = Some (ty, ss', res') \<Longrightarrow> carries ty (r_data res')"
  by (auto simp: start_socket_def bind_parts split: if_splits option.splits)

lemma bind_socket_carries [carry]: "bind_socket K i fd q ss = Some (ty, ss', res') \<Longrightarrow> carries ty (r_data res')"
  by (auto simp: bind_socket_def bind_parts split: option.splits)

lemma listen_socket_carries [carry]: "listen_socket K i fd q ss res = Some (ty, ss', res') \<Longrightarrow> carries ty (r_data res')"
  by (auto simp: listen_socket_def bind_parts split: option.splits)

lemma close_socket_carries [carry]: "close_socket K i sh q ss res = Some (ty, ss', res') \<Longrightarrow> carries ty (r_data res')"
  by (auto simp: close_socket_def bind_parts dest!: force_close_data dest: send_buffer_carries split: if_splits)

lemma set_udp_address_carries [carry]: "set_udp_address i a ss res = Some (ty, ss', res') \<Longrightarrow> carries ty (r_data res')"
  by (auto simp: set_udp_address_def bind_parts split: if_splits sock_p.splits)

lemma ctrl_cmd_carries [carry]:
  assumes "ctrl_cmd K ss res = Some (ty, ss', res')"
  shows "carries ty (r_data res')"
proof -
  obtain len r ss1 where "block_readpipe ss = Some ((len, r), ss1)" using assms by (auto simp: ctrl_cmd_def bind_parts)
  then show ?thesis using assms by (cases r) (auto simp: ctrl_cmd_def bind_parts dest: carry)
qed

lemma forward_message_tcp_carries [carry]:
  assumes "forward_message_tcp K h ss res = Some (ty, ss', res')"
  shows "carries ty (r_data res')"
proof (cases "s_p (ss_slot ss h)")
  case (PSize n)
  then show ?thesis using assms
    by (cases "k_read K (ss_sys ss) (s_fd (ss_slot ss h)) (nat n)")
      (auto simp: forward_message_tcp_def bind_parts dest!: force_close_data split: if_splits)
qed (use assms in \<open>simp add: forward_message_tcp_def Let_def\<close>)

lemma forward_message_udp_carries [carry]:
  "forward_message_udp K h ss res = Some (ty, ss', res') \<Longrightarrow> carries ty (r_data res')"
  by (auto simp: forward_message_udp_def bind_parts dest!: force_close_data split: sum.splits if_splits)

lemma report_connect_carries [carry]: "report_connect K h ss res = Some (ty, ss', res') \<Longrightarrow> carries ty (r_data res')"
  by (auto simp: report_connect_def bind_parts split: sum.splits option.splits)

lemma report_accept_carries:
  assumes "report_accept K h ss res = Some (ok, ss', res')" and "ok \<noteq> 0"
  shows "r_data res' \<noteq> DBuf bs"
proof -
  have "\<forall>y. report_accept K h ss res = Some y \<longrightarrow> fst y \<noteq> 0 \<longrightarrow> r_data (snd (snd y)) \<noteq> DBuf bs"
    unfolding report_accept_def Let_def
    by (auto simp: all_bind simp del: split_paired_All split: sum.split prod.split option.split)
  with assms show ?thesis by auto
qed

text \<open>So does everything a turn, and hence the poll, returns.\<close>

definition turn_carries :: "turn option \<Rightarrow> bool" where
  "turn_carries t \<longleftrightarrow> (\<forall>ty ss res more. t = Some (Inl (ty, ss, res, more)) \<longrightarrow> carries ty (r_data res))"

lemma poll_default_carries: "turn_carries (poll_default K h e i st)"
  by (auto simp: turn_carries_def poll_default_def poll_read_def poll_error_def return_type_def bind_parts
      dest: carry dest!: force_close_data split: if_splits)

lemma poll_one_event_carries: "turn_carries (poll_one_event K st)"
proof (cases "nth_at (ss_ev (fst st)) (ss_event_index (fst st))")
  case None
  then show ?thesis by (simp add: turn_carries_def poll_one_event_def Let_def split_beta)
next
  case (Some e)
  show ?thesis
  proof (cases "e_s e")
    case None
    with Some show ?thesis by (simp add: turn_carries_def poll_one_event_def Let_def split_beta)
  next
    case (Some h)
    note e = \<open>nth_at (ss_ev (fst st)) (ss_event_index (fst st)) = Some e\<close> Some
    show ?thesis
      using poll_default_carries e
      by (cases "s_type (ss_slot (fst st) h)")
        (auto simp: poll_one_event_def turn_carries_def bind_parts dest: carry report_accept_carries split: if_splits)
  qed
qed

lemma poll_turn_carries: "turn_carries (poll_turn K st)"
  using poll_one_event_carries
  by (auto simp: poll_turn_def poll_wait_def turn_carries_def bind_parts dest: carry split: if_splits sum.splits)

lemma poll_carries:
  assumes "socket_server_poll K st = Some (ty, ss', res', m)"
  shows "carries ty (r_data res')"
proof -
  have "carries (fst y) (r_data (fst (snd (snd y))))" if "socket_server_poll K st = Some y" for y
  proof (rule socket_server_poll.raw_induct [where P = "\<lambda>K st y. carries (fst y) (r_data (fst (snd (snd y))))", OF _ that], goal_cases)
    case (1 f K st y)
    then obtain r where r: "poll_turn K st = Some r" by (cases "poll_turn K st") auto
    show ?case
    proof (cases r)
      case (Inl x)
      with 1(2) r have "x = y" by simp
      then show ?thesis using poll_turn_carries [of K st] r Inl by (cases y) (auto simp: turn_carries_def)
    next
      case (Inr st')
      with 1(2) r have "f K st' = Some y" by simp
      then show ?thesis by (rule 1(1))
    qed
  qed
  from this [OF assms] show ?thesis by simp
qed

subsection \<open>Delivery\<close>

text \<open>The message that stands for a report, with the buffer it points to.\<close>

definition stands_for :: "skynet_socket_message \<Rightarrow> node \<Rightarrow> i32 \<Rightarrow> bool \<Rightarrow> socket_result \<Rightarrow> bool" where
  "stands_for sm n type padding result \<longleftrightarrow>
     sm_type sm = type \<and> sm_id sm = r_id result \<and> sm_ud sm = r_ud result \<and>
     (if padding then sm_buffer sm = None \<and> Some (sm_tail sm) = map_option (take 128) (text_of (r_data result))
      else sm_tail sm = [] \<and>
        (case r_data result of
           DNull \<Rightarrow> sm_buffer sm = None
         | DBuf bs \<Rightarrow> \<exists>d. sm_buffer sm = Some d \<and> blocks n d = Some (Bytes bs)
         | DStr _ \<Rightarrow> False))"

text \<open>A registered owner gets the message, otherwise nothing is left of it.\<close>

definition forwarded :: "node \<Rightarrow> node \<Rightarrow> i32 \<Rightarrow> bool \<Rightarrow> socket_result \<Rightarrow> bool" where
  "forwarded n n' type padding result \<longleftrightarrow> ctxs n' = ctxs n \<and> hs n' = hs n \<and> (\<forall>b<brk n. blocks n' b = blocks n b) \<and>
     (case handle_table (ctxs n) (hs n) (ucast (r_opaque result)) of
        None \<Rightarrow> blocks n' = blocks n \<and> mq n' = mq n
      | Some a \<Rightarrow> \<exists>q m p sm. map_option ctx_queue (ctxs n a) = Some (Some q) \<and>
          mq_content (mq n') = (mq_content (mq n))(q \<mapsto> Sched.pending (mq n) q @ [m]) \<and>
          msg_source m = 0 \<and> msg_session m = 0 \<and> message_type m = PTYPE_SOCKET \<and>
          message_size m = of_nat (SIZEOF_SOCKET_MESSAGE + length (sm_tail sm)) \<and>
          msg_data m = Some p \<and> blocks n' p = Some (SocketMsg sm) \<and> stands_for sm n' type padding result)"

lemma malloc_ok: "node_ok n xs held \<Longrightarrow> node_ok (snd (skynet_malloc b n)) xs held"
  by (simp add: node_ok_def skynet_malloc_def)

lemma brk_free: "node_ok n xs held \<Longrightarrow> brk n \<le> b \<Longrightarrow> blocks n b = None"
  by (simp add: node_ok_def)

lemma socket_size:
  assumes "k \<le> 152"
  shows "message_type \<lparr>msg_source = s, msg_session = i, msg_data = d, msg_sz = of_nat k OR push_bit MESSAGE_TYPE_SHIFT PTYPE_SOCKET\<rparr> = PTYPE_SOCKET"
    and "message_size \<lparr>msg_source = s, msg_session = i, msg_data = d, msg_sz = of_nat k OR push_bit MESSAGE_TYPE_SHIFT PTYPE_SOCKET\<rparr> = of_nat k"
proof -
  have "take_bit 56 (of_nat k :: u64) = of_nat k"
    using assms by (simp add: take_bit_nat_eq_self flip: of_nat_take_bit)
  then have small: "\<not> too_large (of_nat k)" by (simp add: too_large_def MESSAGE_TYPE_MASK_def take_bit_eq_mask)
  have "PTYPE_SOCKET = ucast ((6 :: i32) AND 0xff)" by (simp add: PTYPE_SOCKET_def)
  then show "message_type \<lparr>msg_source = s, msg_session = i, msg_data = d, msg_sz = of_nat k OR push_bit MESSAGE_TYPE_SHIFT PTYPE_SOCKET\<rparr> = PTYPE_SOCKET"
    and "message_size \<lparr>msg_source = s, msg_session = i, msg_data = d, msg_sz = of_nat k OR push_bit MESSAGE_TYPE_SHIFT PTYPE_SOCKET\<rparr> = of_nat k"
    using pack_size [OF small, of 6] by (simp_all add: message_type_def message_size_def)
qed

lemma push_socket:
  assumes ok: "node_ok n1 xs held" and k: "k \<le> 152"
    and m: "m = \<lparr>msg_source = 0, msg_session = 0, msg_data = Some (brk n1), msg_sz = of_nat k OR push_bit MESSAGE_TYPE_SHIFT PTYPE_SOCKET\<rparr>"
    and n2: "n2 = snd (skynet_malloc (SocketMsg sm) n1)"
  obtains "handle_table (ctxs n1) (hs n1) h = None" "skynet_context_push h m n2 = Some (- 1, n2)" "node_ok n2 xs held"
  | a q mq' xs' where "handle_table (ctxs n1) (hs n1) h = Some a" "map_option ctx_queue (ctxs n1 a) = Some (Some q)"
      "skynet_context_push h m n2 = Some (0, n2\<lparr>mq := mq'\<rparr>)" "node_ok (n2\<lparr>mq := mq'\<rparr>) xs' held"
      "mq_content mq' = (mq_content (mq n1))(q \<mapsto> Sched.pending (mq n1) q @ [m])"
proof -
  have ok2: "node_ok n2 xs held" unfolding n2 by (rule malloc_ok [OF ok])
  have same: "ctxs n2 = ctxs n1" "hs n2 = hs n1" "mq n2 = mq n1" by (simp_all add: n2 skynet_malloc_def)
  show thesis
  proof (rule push_cases [OF ok2, of h m])
    assume "handle_table (ctxs n2) (hs n2) h = None" "skynet_context_push h m n2 = Some (- 1, n2)"
    then show thesis using that(1) ok2 by (simp add: same)
  next
    fix a c q mq' xs'
    assume "handle_table (ctxs n2) (hs n2) h = Some a" "ctxs n2 a = Some c" "ctx_queue c = Some q"
      "skynet_context_push h m n2 = Some (0, n2\<lparr>mq := mq'\<rparr>)" "node_ok (n2\<lparr>mq := mq'\<rparr>) xs' held"
      "mq_content mq' = (mq_content (mq n2))(q \<mapsto> Sched.pending (mq n2) q @ [m])"
    then show thesis using that(2) [of a q mq' xs'] by (simp add: same)
  qed
qed

text \<open>A report whose buffer is allocated at the break of the node, or that has none.\<close>

lemma forward_message_ok:
  assumes ok: "node_ok n xs held"
    and d: "if padding then text_of (r_data result) \<noteq> None else (\<forall>s. r_data result \<noteq> DStr s)"
  shows "\<exists>n' xs'. forward_message type padding result n = Some n' \<and> node_ok n' xs' held \<and> forwarded n n' type padding result"
proof -
  obtain tail where tail: "(if padding then do { text \<leftarrow> text_of (r_data result); Some (take 128 text) } else Some []) = Some tail"
    "length tail \<le> 128" "if padding then map_option (take 128) (text_of (r_data result)) = Some tail else tail = []"
    using d by (cases padding) auto
  obtain buffer n1 where buf: "(if padding then Some (None, n) else buffer_of (r_data result) n) = Some (buffer, n1)"
    and new: "buffer = None \<and> n1 = n \<and> (padding \<or> r_data result = DNull) \<or>
      (\<exists>bs. \<not> padding \<and> r_data result = DBuf bs \<and> buffer = Some (brk n) \<and> n1 = snd (skynet_malloc (Bytes bs) n))"
    using d by (cases padding; cases "r_data result") (auto simp: skynet_malloc_def)
  have ok1: "node_ok n1 xs held" using new ok malloc_ok by auto
  have same: "ctxs n1 = ctxs n" "hs n1 = hs n" "mq n1 = mq n" "brk n \<le> brk n1" "\<forall>b<brk n. blocks n1 b = blocks n b"
    using new by (auto simp: skynet_malloc_def)
  let ?sm = "\<lparr>sm_type = type, sm_id = r_id result, sm_ud = r_ud result, sm_buffer = buffer, sm_tail = tail\<rparr>"
  let ?k = "SIZEOF_SOCKET_MESSAGE + length tail"
  let ?m = "\<lparr>msg_source = 0, msg_session = 0, msg_data = Some (brk n1), msg_sz = of_nat ?k OR push_bit MESSAGE_TYPE_SHIFT PTYPE_SOCKET\<rparr>"
  let ?n2 = "snd (skynet_malloc (SocketMsg ?sm) n1)"
  have f: "forward_message type padding result n = do {
      (r, n3) \<leftarrow> skynet_context_push (ucast (r_opaque result)) ?m ?n2;
      if r \<noteq> 0 then do { n4 \<leftarrow> skynet_free buffer n3; skynet_free (Some (brk n1)) n4 } else Some n3 }"
    unfolding forward_message_def tail(1) buf by (simp add: skynet_malloc_def)
  have k: "?k \<le> 152" using tail(2) by (simp add: SIZEOF_SOCKET_MESSAGE_def)
  show ?thesis
  proof (rule push_socket [OF ok1 k refl refl, where h = "ucast (r_opaque result)" and sm = ?sm])
    assume none: "handle_table (ctxs n1) (hs n1) (ucast (r_opaque result)) = None"
      and push: "skynet_context_push (ucast (r_opaque result)) ?m ?n2 = Some (- 1, ?n2)" and ok2: "node_ok ?n2 xs held"
    let ?n' = "?n2\<lparr>blocks := blocks n\<rparr>"
    have free: "blocks n (brk n) = None" "blocks n (brk n + 1) = None" using brk_free [OF ok] by simp_all
    then have idem: "(blocks n)(brk n := None) = blocks n" "(blocks n)(brk n := None, Suc (brk n) := None) = blocks n"
      "(blocks n)(Suc (brk n) := None) = blocks n" by auto
    have "forward_message type padding result n = Some ?n'"
      unfolding f push using new free by (auto simp: skynet_free_def skynet_malloc_def fun_upd_twist idem)
    moreover have "node_ok ?n' xs held" using ok2 ok same(4) by (auto simp: node_ok_def skynet_malloc_def)
    moreover have "forwarded n ?n' type padding result"
      using none same by (simp add: forwarded_def skynet_malloc_def)
    ultimately show ?thesis by blast
  next
    fix a q mq' xs'
    assume a: "handle_table (ctxs n1) (hs n1) (ucast (r_opaque result)) = Some a" "map_option ctx_queue (ctxs n1 a) = Some (Some q)"
      "mq_content mq' = (mq_content (mq n1))(q \<mapsto> Sched.pending (mq n1) q @ [?m])"
      and push: "skynet_context_push (ucast (r_opaque result)) ?m ?n2 = Some (0, ?n2\<lparr>mq := mq'\<rparr>)" "node_ok (?n2\<lparr>mq := mq'\<rparr>) xs' held"
    let ?n' = "?n2\<lparr>mq := mq'\<rparr>"
    have "forward_message type padding result n = Some ?n'" unfolding f push(1) by simp
    moreover have "forwarded n ?n' type padding result"
    proof -
      have st: "stands_for ?sm ?n' type padding result"
        using new tail(3) by (auto simp: stands_for_def skynet_malloc_def split: if_splits)
      have tab: "handle_table (ctxs n) (hs n) (ucast (r_opaque result)) = Some a" using a(1) same by simp
      have "\<forall>b<brk n. blocks ?n' b = blocks n b" using same(4,5) by (simp add: skynet_malloc_def)
      moreover have "ctxs ?n' = ctxs n" "hs ?n' = hs n" "mq_content (mq ?n') = (mq_content (mq n))(q \<mapsto> Sched.pending (mq n) q @ [?m])"
        "map_option ctx_queue (ctxs n a) = Some (Some q)" "blocks ?n' (brk n1) = Some (SocketMsg ?sm)"
        using same a(2,3) by (simp_all add: skynet_malloc_def)
      moreover have "message_type ?m = PTYPE_SOCKET" "message_size ?m = of_nat (SIZEOF_SOCKET_MESSAGE + length (sm_tail ?sm))"
        using socket_size [OF k] by (simp_all only: skynet_socket_message.simps)
      moreover have "msg_source ?m = 0" "msg_session ?m = 0" "msg_data ?m = Some (brk n1)" by simp_all
      ultimately show ?thesis unfolding forwarded_def tab option.case using st by blast
    qed
    ultimately show ?thesis using push(2) by blast
  qed
qed

text \<open>The types that the services know (lualib/skynet/socket.lua has the same numbers), and which messages have a text.\<close>

fun service_type :: "socket_report \<Rightarrow> i32" where
  "service_type SOCKET_DATA = 1"
| "service_type SOCKET_OPEN = 2"
| "service_type SOCKET_CLOSE = 3"
| "service_type SOCKET_ACCEPT = 4"
| "service_type SOCKET_ERR = 5"
| "service_type SOCKET_UDP = 6"
| "service_type SOCKET_WARNING = 7"
| "service_type _ = 0"

definition with_text :: "socket_report \<Rightarrow> bool" where
  "with_text ty \<longleftrightarrow> ty = SOCKET_OPEN \<or> ty = SOCKET_ACCEPT \<or> ty = SOCKET_ERR"

lemma skynet_socket_poll_forwards:
  assumes "socket_server_poll K (ss, res, True) = Some (ty, ss', result, m)" and "ty \<noteq> SOCKET_EXIT" "ty \<noteq> R_IGNORE"
  shows "skynet_socket_poll K (Some ss) res n = do {
    n' \<leftarrow> forward_message (service_type ty) (with_text ty) result n;
    Some (if m then - 1 else 1, Some ss', n') }"
  using assms by (cases ty) (simp_all add: skynet_socket_poll_def with_text_def SKYNET_SOCKET_TYPE_defs)

lemma carries_forwardable:
  assumes "carries ty d" and "ty \<noteq> SOCKET_EXIT" "ty \<noteq> R_IGNORE"
  shows "if with_text ty then text_of d \<noteq> None else (\<forall>s. d \<noteq> DStr s)"
  using assms by (cases ty; cases d) (auto simp: with_text_def)

text \<open>Property C13. What the socket server reports reaches the service that owns the socket, as one message of type
  \<open>PTYPE_SOCKET\<close> with the id, the number and the buffer or (at most 128 bytes of) the text of the report. If that
  service is gone, the buffer and the message are freed and the node is as before. In both cases the call returns, and
  no other queue, buffer, context or handle changes.\<close>

theorem skynet_socket_delivers:
  assumes "node_ok n xs held" and "socket_server_poll K (ss, res, True) = Some (ty, ss', result, m)"
    and "ty \<noteq> SOCKET_EXIT" "ty \<noteq> R_IGNORE"
  shows "\<exists>n' xs'. skynet_socket_poll K (Some ss) res n = Some (if m then - 1 else 1, Some ss', n') \<and>
    node_ok n' xs' held \<and> forwarded n n' (service_type ty) (with_text ty) result"
proof -
  have "if with_text ty then text_of (r_data result) \<noteq> None else (\<forall>s. r_data result \<noteq> DStr s)"
    by (rule carries_forwardable [OF poll_carries [OF assms(2)] assms(3,4)])
  from forward_message_ok [OF assms(1) this] obtain n' xs' where
    "forward_message (service_type ty) (with_text ty) result n = Some n'" "node_ok n' xs' held"
    "forwarded n n' (service_type ty) (with_text ty) result" by blast
  then show ?thesis unfolding skynet_socket_poll_forwards [OF assms(2-4)] by auto
qed

text \<open>A service starts a socket that is gone.\<close>

theorem skynet_socket_delivers_witness:
  "\<exists>ss n' xs'. skynet_socket_start 1 1 demo_node (Some small_server) = Some (Some ss) \<and>
     skynet_socket_poll small_system (Some ss) (answer 0 0 0 DNull) demo_node = Some (- 1, Some small_server, n') \<and>
     node_ok n' xs' {2} \<and> forwarded demo_node n' 5 True (answer 1 0x1000001 0 (DStr (str ''invalid socket'')))"
proof -
  let ?ss = "socket_server_start 0x1000001 1 small_server"
  have start: "skynet_socket_start 1 1 demo_node (Some small_server) = Some (Some ?ss)"
    by (simp add: skynet_socket_start_def source_of_def skynet_context_handle_def demo_facts) (simp add: demo_ctx_def)
  have "socket_server_poll small_system (?ss, answer 0 0 0 DNull, True) =
      Some (SOCKET_ERR, small_server, answer 1 0x1000001 0 (DStr (str ''invalid socket'')), True)"
    by (subst socket_server_poll.simps)
      (simp add: poll_turn_def has_cmd_def ctrl_cmd_def block_readpipe_def start_socket_def clear_closed_event_def
        socket_server_start_def small_state)
  from skynet_socket_delivers [OF demo_node_ok this] start show ?thesis by (auto simp: with_text_def)
qed

end
