(* ===== verification/Spec2Isabelle.thy ===== *)
theory Spec2Isabelle
  imports Timer Command Delivery Gate Harbor Seri SocketClose Cluster SchedLive SkynetSocket
begin

section \<open>The C core of a skynet node\<close>

text \<open>
  The program. A skynet node runs many services in one process. Each service has a context with a message
  queue; worker threads take queues from a global queue and dispatch their messages to the services, a
  timer thread turns time into messages, a socket thread turns network input into messages. Services are
  found by handle or by name. Three C services and libraries stand between the network and the services:
  the gate (client connections), the harbor (other nodes) and netpack (packages of a stream, for Lua); and
  serialisation turns Lua values into the bytes of a message. The repository holds this framework under
  src/skynet, a Lua application under src/eureka, and vendored libraries under src/skynet/3rd.

  What is modelled. The sources are in skynet-src/, service-src/ and lualib-src/ of src/skynet.

  \<^item> \<open>Message\<close>: the message record and the constants of skynet.h, skynet_mq.h, skynet_handle.h.
  \<^item> \<open>MQ\<close> (on \<open>Ring\<close> and \<open>LinkedList\<close>): skynet_mq.c, the ring of a service and the global queue.
    \<open>Sched\<close>: how workers, senders and the deletion of a service use them together, as steps of an
    interleaving. Every function under a spin lock is one step. \<open>SchedLive\<close>: no service starves in it.
  \<^item> \<open>Timer\<close>: skynet_timer.c, the wheels of lists and the clock.
  \<^item> \<open>Handle\<close> (on \<open>Context\<close>, \<open>CString\<close>): skynet_handle.c, the slots and the sorted names; each region
    under the lock is one step.
  \<^item> \<open>Node\<close>, \<open>Module\<close>, \<open>Monitor\<close>, \<open>Server\<close>, \<open>Command\<close>, \<open>Delivery\<close>: skynet_server.c with
    skynet_module.c, skynet_monitor.c, skynet_harbor.c, skynet_env.c and skynet_error.c: contexts and their
    reference counts, sending, dispatching, the commands. The services' own entry points, the dynamic
    loader and the Lua state of the environment are parameters or plain maps.
  \<^item> \<open>Gate\<close> (on \<open>Hashid\<close>, \<open>Databuffer\<close>): service_gate.c, hashid.h and databuffer.h.
  \<^item> \<open>Harbor\<close>: service_harbor.c, the queues of messages for other nodes, the names and the framed links.
  \<^item> \<open>Os\<close>, \<open>Socket\<close>, \<open>SocketServer\<close>: socket_epoll.h and socket_server.c, the sockets with their buffers,
    the control pipe, the poll loop and the requests of the other threads. The kernel is a parameter, a
    record of functions that answer from the history of the calls. A run is any sequence of poll turns and
    requests. The lemmas are in \<open>SocketLists\<close> (write buffers and partial writes), \<open>SocketSafe\<close> (the
    invariant, kept by every command of the pipe), \<open>SocketRun\<close> (events, requests and runs),
    \<open>SocketProps\<close>, \<open>SocketWire\<close> (the order of the bytes of a connection) and \<open>SocketClose\<close>.
  \<^item> \<open>SkynetSocket\<close>: skynet_socket.c, where the reports of the socket server become messages to services.
  \<^item> \<open>Netpack\<close>: lua-netpack.c. \<open>Seri\<close>: lua-seri.c.
  \<^item> \<open>CryptDes\<close>, \<open>CryptText\<close>, \<open>CryptDh\<close>, \<open>CryptHmac\<close>, \<open>CryptSha1\<close>: lua-crypt.c and lsha1.c, the
    cryptography of the login protocol: DES on padded texts, hexadecimal and base64, powers modulo a prime of 64 bits,
    the keyed hashes, SHA-1.
  \<^item> \<open>Cluster\<close>: lua-cluster.c, the packages between the nodes of a cluster, with the lines of clusteragent.lua,
    clustersender.lua and socketchannel.lua that put large ones together.
  \<^item> \<open>Prelude\<close>, \<open>Format\<close>, \<open>Interfaces\<close>: C integers, arrays and loops; printing and parsing numbers;
    the contracts (locales) below.

  How it is modelled. A C struct is a record with the source's fields, a function is a definition with the
  source's branches. An unsigned integer is a word of its width, an \<open>int\<close> is a word where it wraps or is
  reinterpreted and a number where its range is an invariant (said in the theory's text). \<open>None\<close> is an
  execution that does not return normally: a failed assertion, a NULL or uninitialised read, an access
  outside of an array. Error codes are values. Pointers into the heap are addresses where sharing matters
  (queues, contexts, message buffers, segments), and a list where a chain has one owner. Calls out of a
  component (to sockets, to other services, to the log) are returned as a list of calls, in order.

  Loops are structural recursion, \<open>function\<close> with a measure, the counted loops of \<open>Prelude\<close>, or, where a
  loop may run forever, \<open>partial_function\<close> (the sizing loop of hashid.h). Fuel appears in three places,
  each time with a proof that it is enough: the loops over a harbor queue (its capacity), the loop over the
  states of a harbor link (two more than the bytes), and the reader of lua-seri.c (one more than the bytes;
  \<open>luaseri_unpack_returns\<close>). The padding loop of SHA-1 and the recursion of \<open>pow_mod_p\<close> are \<open>partial_function\<close>s: that they return
  is part of their theorems.

  The contracts. \<open>fifo\<close> is interpreted by the message queue, the package queue and the harbor queue,
  \<open>calendar\<close> by the timing wheel, \<open>idtable\<close> by the table of connections, \<open>bytestreams\<close> by the receive
  buffers; the theorems about whole histories are proved once in each of these.

  What is proved. Scheduling: every interleaving keeps its assertions, loses and duplicates no message, and
  never leaves a queue with messages unscheduled; a waiting service is taken after at most as many takes as
  queues wait. Time: an event is delivered after exactly its ticks.
  Handles: the table is the finite map that the calls describe, through growth and reuse. Delivery: one
  message to one queue, and each buffer has one owner. Streams: gate, harbor and netpack deliver exactly the
  packages of a stream, however it is cut, and what was packed on one side comes out on the other; the same
  for serialised values and for the requests and responses of a cluster, large ones in parts, over the same streams. Sockets: the bytes of a connection go out
  in the order in which they were sent, for each of the two priorities, whichever way they take; a close waits for them;
  no assertion fails in a run whose callers do what they owe, but for two hazards (\<open>socket_server_safe\<close>): data sent
  to an id before its connect request was taken from the pipe (\<open>early_send_aborts\<close>), and a direct datagram that
  the kernel does not take whole (\<open>short_datagram_reads_outside\<close>); each report reaches the
  service that owns the socket. Safety: an invariant for the gate and one for the harbor, kept by every event. The gate
  fails exactly on an accept from a socket it does not listen on or with an id that overflows the scan of its table; the
  harbor on frames shorter than their header and on commands of one letter (\<open>harbor_short_command\<close>).
  Cryptography: SHA-1, MD5 and the powers modulo the prime agree with reference definitions, and what is encoded is decoded.
  Bounds and errors: capacities, thresholds, the limits at which registration, insertion or unpacking fail.
  A large cluster request whose announced size is negative as an \<open>int\<close> stops the node, or is refused
  (\<open>cluster_size_unchecked\<close>). A number of theorems state behaviour the code does not mean to have; the manifest lists
  them as findings.

  Not modelled. Vendored code (src/skynet/3rd: Lua, jemalloc, curl, cjson, lpeg, md5; lualib-src/pb,
  lualib-src/sproto and malloc_hook.c wrap or vendor such code; of the last one only the size that \<open>skynet_malloc\<close>
  asks for is modelled, in \<open>Cluster\<close>). The start of the process and its threads
  (skynet_start.c, skynet_main.c, skynet_daemon.c), the logger and the Lua host (service_logger.c,
  service_snlua.c, skynet_log.c): operating system calls and glue. The other libraries of lualib-src are bindings between Lua values and C. The locks themselves (spinlock.h,
  rwlock.h, atomic.h) are taken to do what they promise: a locked region is one step. Lua and protobuf
  sources are not C.
\<close>

end
